(* ===== verification/Prelude.thy ===== *)
theory Prelude
  imports Main "HOL-Library.Monad_Syntax"
begin

section \<open>Prelude: what the components share\<close>

text \<open>
  The generic part of the development. It holds the model of the JavaScript values the code
  computes with (numbers with their non-finite values, decimal spellings of integers, the
  insertion-ordered \<open>Map\<close>), results that are an error or a value, and the list and bit
  lemmas several components use. Nothing here is about one file of the repository.
\<close>

named_theorems js_defs "definitions of the JavaScript primitives"
named_theorems keep "an operation keeps its component's invariant"

subsection \<open>Errors as values\<close>

text \<open>A call that may throw returns \<open>Inl\<close> of the error or \<open>Inr\<close> of the value.\<close>

definition bindE :: "'e + 'a \<Rightarrow> ('a \<Rightarrow> 'e + 'b) \<Rightarrow> 'e + 'b" where
  "bindE m f = (case m of Inl e \<Rightarrow> Inl e | Inr a \<Rightarrow> f a)"

lemma bindE_simps [simp]: "bindE (Inl e) f = Inl e" "bindE (Inr a) f = f a"
  by (simp_all add: bindE_def)

lemma bindE_Inr: "bindE m f = Inr b \<longleftrightarrow> (\<exists>a. m = Inr a \<and> f a = Inr b)"
  by (cases m) auto

fun mapE :: "('a \<Rightarrow> 'e + 'b) \<Rightarrow> 'a list \<Rightarrow> 'e + 'b list" where
  "mapE f [] = Inr []"
| "mapE f (x # xs) = bindE (f x) (\<lambda>y. bindE (mapE f xs) (\<lambda>ys. Inr (y # ys)))"

lemma mapE_Inr_iff: "mapE f xs = Inr ys \<longleftrightarrow> list_all2 (\<lambda>x y. f x = Inr y) xs ys"
  by (induction xs arbitrary: ys) (auto simp: bindE_Inr list_all2_Cons1)

lemma mapE_length: "mapE f xs = Inr ys \<Longrightarrow> length ys = length xs"
  by (auto simp: mapE_Inr_iff dest: list_all2_lengthD)

lemma mapE_total: "(\<And>x. x \<in> set xs \<Longrightarrow> f x = Inr (g x)) \<Longrightarrow> mapE f xs = Inr (map g xs)"
  by (induction xs) auto

subsection \<open>JavaScript numbers\<close>

text \<open>
  The code's counters, heights, epochs and timestamps are integers far below \<open>2 ^ 53\<close>, so a
  finite number is an \<^typ>\<open>int\<close>; what the guards of the code really look at are the
  non-finite values, so those are values of their own. Comparing with \<open>NaN\<close> is false
  both ways, as in the language.
\<close>

datatype jsnum = Num int | NaN | PosInf | NegInf

instantiation jsnum :: ord
begin

fun less_eq_jsnum :: "jsnum \<Rightarrow> jsnum \<Rightarrow> bool" where
  "less_eq_jsnum (Num a) (Num b) = (a \<le> b)"
| "less_eq_jsnum NaN _ = False"
| "less_eq_jsnum _ NaN = False"
| "less_eq_jsnum NegInf _ = True"
| "less_eq_jsnum _ PosInf = True"
| "less_eq_jsnum _ _ = False"

fun less_jsnum :: "jsnum \<Rightarrow> jsnum \<Rightarrow> bool" where
  "less_jsnum (Num a) (Num b) = (a < b)"
| "less_jsnum NaN _ = False"
| "less_jsnum _ NaN = False"
| "less_jsnum NegInf b = (b \<noteq> NegInf)"
| "less_jsnum a PosInf = (a \<noteq> PosInf)"
| "less_jsnum _ _ = False"

instance ..

end

fun js_isFinite :: "jsnum \<Rightarrow> bool" where
  "js_isFinite (Num _) = True"
| "js_isFinite _ = False"

lemma js_isFinite_iff: "js_isFinite x \<longleftrightarrow> (\<exists>n. x = Num n)"
  by (cases x) auto

subsection \<open>Decimal spellings\<close>

text \<open>\<open>String(n)\<close> for an integer, and \<open>BigInt(s)\<close> read back on its decimal digits.\<close>

definition digit_char :: "nat \<Rightarrow> char" where
  "digit_char d = char_of (48 + d)"

definition digit_val :: "char \<Rightarrow> nat" where
  "digit_val c = of_char c - 48"

definition is_digit :: "char \<Rightarrow> bool" where
  "is_digit c \<longleftrightarrow> 48 \<le> (of_char c :: nat) \<and> (of_char c :: nat) \<le> 57"

fun dec_of_nat :: "nat \<Rightarrow> string" where
  "dec_of_nat n = (if n < 10 then [digit_char n]
                   else dec_of_nat (n div 10) @ [digit_char (n mod 10)])"

declare dec_of_nat.simps [simp del]

definition dec_of_int :: "int \<Rightarrow> string" where
  "dec_of_int i = (if i < 0 then CHR ''-'' # dec_of_nat (nat (- i)) else dec_of_nat (nat i))"

definition nat_of_dec :: "string \<Rightarrow> nat" where
  "nat_of_dec s = foldl (\<lambda>a c. 10 * a + digit_val c) 0 s"

lemma of_char_digit_char [simp]: "d < 10 \<Longrightarrow> of_char (digit_char d) = 48 + d"
  by (simp add: digit_char_def)

lemma digit_char_is_digit [simp]: "d < 10 \<Longrightarrow> is_digit (digit_char d)"
  by (simp add: is_digit_def)

lemma digit_val_digit_char [simp]: "d < 10 \<Longrightarrow> digit_val (digit_char d) = d"
  by (simp add: digit_val_def)

lemma digit_char_digit_val: "is_digit c \<Longrightarrow> digit_char (digit_val c) = c"
  by (simp add: is_digit_def digit_val_def digit_char_def)

lemma digit_val_less: "is_digit c \<Longrightarrow> digit_val c < 10"
  unfolding is_digit_def digit_val_def by arith

lemma digit_char_inject [simp]: "a < 10 \<Longrightarrow> b < 10 \<Longrightarrow> digit_char a = digit_char b \<longleftrightarrow> a = b"
  by (metis digit_val_digit_char)

lemma nat_of_dec_snoc [simp]: "nat_of_dec (s @ [c]) = 10 * nat_of_dec s + digit_val c"
  by (simp add: nat_of_dec_def)

lemma nat_of_dec_Nil [simp]: "nat_of_dec [] = 0"
  by (simp add: nat_of_dec_def)

lemma dec_of_nat_nonempty [simp]: "dec_of_nat n \<noteq> []"
  by (subst dec_of_nat.simps) simp

lemma dec_of_nat_digits: "c \<in> set (dec_of_nat n) \<Longrightarrow> is_digit c"
proof (induction n rule: dec_of_nat.induct)
  case (1 n)
  then show ?case
    by (cases "n < 10") (auto simp: dec_of_nat.simps [of n])
qed

lemma nat_of_dec_of_nat [simp]: "nat_of_dec (dec_of_nat n) = n"
proof (induction n rule: dec_of_nat.induct)
  case (1 n)
  show ?case
  proof (cases "n < 10")
    case True
    then show ?thesis
      by (simp add: dec_of_nat.simps [of n] nat_of_dec_def)
  next
    case False
    then show ?thesis
      using 1 by (simp add: dec_of_nat.simps [of n])
  qed
qed

lemma dec_of_nat_inject [simp]: "dec_of_nat a = dec_of_nat b \<longleftrightarrow> a = b"
  by (metis nat_of_dec_of_nat)

lemma dec_of_nat_hd: "0 < n \<Longrightarrow> hd (dec_of_nat n) \<noteq> digit_char 0"
proof (induction n rule: dec_of_nat.induct)
  case (1 n)
  show ?case
  proof (cases "n < 10")
    case True
    then show ?thesis
      using 1 by (simp add: dec_of_nat.simps [of n])
  next
    case False
    then have "0 < n div 10"
      by simp
    then show ?thesis
      using 1(1) False by (simp add: dec_of_nat.simps [of n])
  qed
qed

lemma dec_of_nat_no_sign: "CHR ''-'' \<notin> set (dec_of_nat n)"
  using dec_of_nat_digits [of "CHR ''-''" n] by (auto simp: is_digit_def)

lemma dec_of_nat_no_colon: "CHR '':'' \<notin> set (dec_of_nat n)"
  using dec_of_nat_digits [of "CHR '':''" n] by (auto simp: is_digit_def)

lemma dec_of_int_inject [simp]: "dec_of_int a = dec_of_int b \<longleftrightarrow> a = b"
proof -
  have "dec_of_nat n \<noteq> CHR ''-'' # s" for n s
    using dec_of_nat_no_sign [of n] by auto
  then show ?thesis
    by (auto simp: dec_of_int_def eq_commute [of "CHR ''-'' # _"])
qed

lemma dec_of_int_no_colon: "CHR '':'' \<notin> set (dec_of_int n)"
  using dec_of_nat_no_colon by (simp add: dec_of_int_def)

text \<open>
  A spelling without leading zeros is the printed form of its value: what makes the canonical
  decimal form unique.
\<close>

definition plain_decimal :: "string \<Rightarrow> bool" where
  "plain_decimal s \<longleftrightarrow> s \<noteq> [] \<and> list_all is_digit s \<and> (s = [digit_char 0] \<or> hd s \<noteq> digit_char 0)"

lemma plain_decimal_dec_of_nat [simp]: "plain_decimal (dec_of_nat n)"
proof (cases "n = 0")
  case True
  then show ?thesis
    by (simp add: plain_decimal_def dec_of_nat.simps [of 0] list_all_iff)
next
  case False
  then show ?thesis
    using dec_of_nat_hd [of n] dec_of_nat_digits [of _ n]
    by (auto simp: plain_decimal_def list_all_iff)
qed

lemma nat_of_dec_pos: "list_all is_digit s \<Longrightarrow> s \<noteq> [] \<Longrightarrow> hd s \<noteq> digit_char 0 \<Longrightarrow> 0 < nat_of_dec s"
proof (induction s rule: rev_induct)
  case Nil
  then show ?case by simp
next
  case (snoc c s)
  show ?case
  proof (cases "s = []")
    case True
    then have "digit_val c \<noteq> 0"
      using snoc.prems digit_char_digit_val [of c] by (auto intro: ccontr)
    then show ?thesis
      using True by (simp add: nat_of_dec_def)
  next
    case False
    then show ?thesis
      using snoc by simp
  qed
qed

lemma dec_of_nat_of_dec: "plain_decimal s \<Longrightarrow> dec_of_nat (nat_of_dec s) = s"
proof (induction s rule: rev_induct)
  case Nil
  then show ?case by (simp add: plain_decimal_def)
next
  case (snoc c s)
  have c: "is_digit c"
    using snoc.prems by (simp add: plain_decimal_def)
  show ?case
  proof (cases "s = []")
    case True
    then show ?thesis
      using c digit_val_less [OF c] digit_char_digit_val [OF c]
      by (simp add: nat_of_dec_def dec_of_nat.simps [of "digit_val c"])
  next
    case False
    have s: "plain_decimal s" and hd: "hd s \<noteq> digit_char 0"
      using snoc.prems False by (auto simp: plain_decimal_def)
    have pos: "0 < nat_of_dec s"
      using nat_of_dec_pos s hd by (auto simp: plain_decimal_def)
    show ?thesis
      using snoc.IH [OF s] pos c digit_val_less [OF c] digit_char_digit_val [OF c]
      by (simp add: dec_of_nat.simps [of "10 * nat_of_dec s + digit_val c"])
  qed
qed

end
