(* ===== verification/Common_Values.thy ===== *)
theory Common_Values
  imports Prelude
begin

section \<open>Shared value primitives\<close>

text \<open>
  \<open>common/field.js\<close> (what a canonical field element is) and \<open>common/index.js\<close> (the context
  and signal preimages, the epoch and season numbers, when a grant ends, the schedule id).
  SHA-256 is the function \<open>sha\<close> of the definitions that use it: the digest of a string, read
  as a big-endian number. The prover and the gateway call the same functions, so what is
  proved here is what makes them agree.
\<close>

subsection \<open>Canonical field elements\<close>

definition FIELD_PRIME :: nat where
  "FIELD_PRIME = 21888242871839275222246405745257275088548364400416034343698204186575808495617"

definition MAX_FIELD_DIGITS :: nat where
  "MAX_FIELD_DIGITS = length (dec_of_nat (FIELD_PRIME - 1))"

text \<open>
  The argument is already a string here; a value of any other type fails the \<open>typeof\<close> test
  and is not a signal at all. The regular expression is \<open>^(0|[1-9]\d*)$\<close>.
\<close>

definition isCanonicalField :: "string \<Rightarrow> bool" where
  "isCanonicalField v \<longleftrightarrow>
     (v = ''0'' \<or> v \<noteq> [] \<and> is_digit (hd v) \<and> hd v \<noteq> CHR ''0'' \<and> list_all is_digit (tl v))
     \<and> length v \<le> MAX_FIELD_DIGITS \<and> nat_of_dec v < FIELD_PRIME"

lemma digit_char_0: "digit_char 0 = CHR ''0''"
proof -
  have "of_char (CHR ''0'') = (48 :: nat)"
    by simp
  then show ?thesis
    unfolding digit_char_def by (metis add_0_right char_of_char)
qed

lemma regex_plain_decimal:
  "(v = ''0'' \<or> v \<noteq> [] \<and> is_digit (hd v) \<and> hd v \<noteq> CHR ''0'' \<and> list_all is_digit (tl v))
     \<longleftrightarrow> plain_decimal v"
  by (cases v) (auto simp: plain_decimal_def digit_char_0 is_digit_def)

lemma dec_of_nat_length_mono: "a \<le> b \<Longrightarrow> length (dec_of_nat a) \<le> length (dec_of_nat b)"
proof (induction b arbitrary: a rule: dec_of_nat.induct)
  case (1 b)
  show ?case
  proof (cases "b < 10")
    case True
    then show ?thesis
      using "1.prems" by (simp add: dec_of_nat.simps [of a] dec_of_nat.simps [of b])
  next
    case False
    then show ?thesis
      using "1.IH" [of "a div 10"] "1.prems"
      by (simp add: dec_of_nat.simps [of a] dec_of_nat.simps [of b] div_le_mono)
  qed
qed

lemma FIELD_PRIME_pos: "0 < FIELD_PRIME"
  by (simp add: FIELD_PRIME_def)

text \<open>
  The length bound is only there to keep a hostile string from being parsed: it never refuses a
  value below the prime.
\<close>

lemma isCanonicalField_iff: "isCanonicalField v \<longleftrightarrow> (\<exists>n < FIELD_PRIME. v = dec_of_nat n)"
proof
  assume "isCanonicalField v"
  then have "plain_decimal v" "nat_of_dec v < FIELD_PRIME"
    by (simp_all add: isCanonicalField_def regex_plain_decimal)
  then show "\<exists>n < FIELD_PRIME. v = dec_of_nat n"
    by (intro exI [of _ "nat_of_dec v"]) (simp add: dec_of_nat_of_dec)
next
  assume "\<exists>n < FIELD_PRIME. v = dec_of_nat n"
  then obtain n where n: "n < FIELD_PRIME" "v = dec_of_nat n"
    by blast
  then have "length v \<le> MAX_FIELD_DIGITS"
    unfolding MAX_FIELD_DIGITS_def n(2) by (intro dec_of_nat_length_mono) simp
  then show "isCanonicalField v"
    using n unfolding isCanonicalField_def regex_plain_decimal by simp
qed

lemma isCanonicalField_no_colon: "isCanonicalField v \<Longrightarrow> CHR '':'' \<notin> set v"
  using dec_of_nat_no_colon by (auto simp: isCanonicalField_iff)

lemma isCanonicalField_dec_of_nat: "n < FIELD_PRIME \<Longrightarrow> isCanonicalField (dec_of_nat n)"
  by (auto simp: isCanonicalField_iff)

definition hashToField :: "(string \<Rightarrow> nat) \<Rightarrow> string \<Rightarrow> nat" where
  "hashToField sha s = sha s mod FIELD_PRIME"

lemma hashToField_canonical: "isCanonicalField (dec_of_nat (hashToField sha s))"
  by (simp add: hashToField_def isCanonicalField_dec_of_nat FIELD_PRIME_pos)

subsection \<open>Context and signal preimages\<close>

text \<open>
  \<open>JSON.stringify\<close> of an array of strings. A quote, a backslash and the control characters are
  escaped; every other character (UTF-8 continuation bytes among them) stands for itself.
\<close>

definition hex_char :: "nat \<Rightarrow> char" where
  "hex_char d = (if d < 10 then digit_char d else char_of (87 + d))"

definition json_char :: "char \<Rightarrow> string" where
  "json_char c = (let n = of_char c in
     if c = CHR 0x22 then [CHR 0x5C, CHR 0x22]
     else if c = CHR 0x5C then [CHR 0x5C, CHR 0x5C]
     else if n = (8::nat) then [CHR 0x5C, CHR ''b'']
     else if n = 9 then [CHR 0x5C, CHR ''t'']
     else if n = 10 then [CHR 0x5C, CHR ''n'']
     else if n = 12 then [CHR 0x5C, CHR ''f'']
     else if n = 13 then [CHR 0x5C, CHR ''r'']
     else if n < 32 then [CHR 0x5C, CHR ''u'', CHR ''0'', CHR ''0'', hex_char (n div 16), hex_char (n mod 16)]
     else [c])"

definition json_string :: "string \<Rightarrow> string" where
  "json_string s = CHR 0x22 # concat (map json_char s) @ [CHR 0x22]"

fun json_strings :: "string list \<Rightarrow> string" where
  "json_strings [] = []"
| "json_strings [s] = json_string s"
| "json_strings (s # t # ss) = json_string s @ CHR '','' # json_strings (t # ss)"

definition json_array :: "string list \<Rightarrow> string" where
  "json_array ss = CHR ''['' # json_strings ss @ [CHR '']'']"

definition contextPreimage :: "string \<Rightarrow> string \<Rightarrow> string \<Rightarrow> string \<Rightarrow> string" where
  "contextPreimage platform communityId roleId version =
     ''dash-mno-verify:context:'' @ version @ '':'' @ json_array [platform, communityId, roleId]"

definition signalPreimage :: "string \<Rightarrow> string \<Rightarrow> string" where
  "signalPreimage nonce account = ''dash-mno-verify:signal:v2:'' @ json_array [nonce, account]"

definition contextHash :: "(string \<Rightarrow> nat) \<Rightarrow> string \<Rightarrow> string \<Rightarrow> string \<Rightarrow> string \<Rightarrow> nat" where
  "contextHash sha platform communityId roleId version =
     hashToField sha (contextPreimage platform communityId roleId version)"

definition signalHash :: "(string \<Rightarrow> nat) \<Rightarrow> string \<Rightarrow> string \<Rightarrow> nat" where
  "signalHash sha nonce account =
     hashToField sha (signalPreimage nonce account)"

subsection \<open>Epochs, seasons, expiry\<close>

text \<open>
  Dividing by zero is a value in the language, not an exception: \<open>Infinity\<close>, or \<open>NaN\<close>
  for zero over zero.
\<close>

definition js_floor_div :: "int \<Rightarrow> int \<Rightarrow> jsnum" where
  "js_floor_div a b = (if b = 0 then (if a > 0 then PosInf else if a < 0 then NegInf else NaN)
                       else Num (a div b))"

definition epochNow :: "int \<Rightarrow> int \<Rightarrow> jsnum" where
  "epochNow epochSeconds nowSeconds = js_floor_div nowSeconds epochSeconds"

definition seasonNow :: "int \<Rightarrow> int \<Rightarrow> jsnum" where
  "seasonNow seasonSeconds nowSeconds = js_floor_div nowSeconds seasonSeconds"

datatype expiry_error = SeasonNeedsPositiveSeconds

fun grantExpiresAt :: "int \<Rightarrow> int \<Rightarrow> int option \<Rightarrow> int option \<Rightarrow> expiry_error + int" where
  "grantExpiresAt epoch epochSeconds season seasonSeconds =
     (let epochEnd = (epoch + 1) * epochSeconds in
      case season of
        None \<Rightarrow> Inr epochEnd
      | Some s \<Rightarrow>
          (case seasonSeconds of
             None \<Rightarrow> Inl SeasonNeedsPositiveSeconds
           | Some ss \<Rightarrow>
               if \<not> ss > 0 then Inl SeasonNeedsPositiveSeconds
               else Inr (min epochEnd ((s + 1) * ss))))"

definition scheduleId :: "int \<Rightarrow> int \<Rightarrow> string" where
  "scheduleId epochSeconds seasonSeconds =
     CHR ''e'' # dec_of_int epochSeconds @ CHR ''s'' # dec_of_int seasonSeconds"

subsection \<open>Lemmas\<close>

lemma hex_char_inject: "a < 16 \<Longrightarrow> b < 16 \<Longrightarrow> hex_char a = hex_char b \<Longrightarrow> a = b"
proof -
  assume ab: "a < 16" "b < 16" and eq: "hex_char a = hex_char b"
  have code: "of_char (hex_char d) = (if d < 10 then 48 + d else 87 + d)" if "d < 16" for d
    using that by (simp add: hex_char_def)
  have "of_char (hex_char a) = (of_char (hex_char b) :: nat)"
    using eq by simp
  then show "a = b"
    using ab by (simp add: code split: if_splits)
qed

lemma json_char_prefix_code:
  "json_char c @ x = json_char c' @ y \<Longrightarrow> c = c' \<and> x = y"
proof -
  assume eq: "json_char c @ x = json_char c' @ y"
  have "c = c'" if "of_char c < (32::nat)" "of_char c' < (32::nat)"
      "hex_char (of_char c div 16) = hex_char (of_char c' div 16)"
      "hex_char (of_char c mod 16) = hex_char (of_char c' mod 16)"
  proof -
    have "of_char c div 16 = (of_char c' div 16 :: nat)" "of_char c mod 16 = (of_char c' mod 16 :: nat)"
      using that by (intro hex_char_inject; simp)+
    then have "of_char c = (of_char c' :: nat)"
      by (metis div_mult_mod_eq)
    then show ?thesis by simp
  qed
  moreover have "c = c'" if "of_char c = (of_char c' :: nat)"
    using that by simp
  ultimately show ?thesis
    using eq unfolding json_char_def Let_def by (simp split: if_splits; metis of_char_eq_iff)
qed

lemma json_char_not_quote: "json_char c @ x \<noteq> CHR 0x22 # y"
  by (simp add: json_char_def Let_def)

lemma json_string_prefix_code:
  "json_string s @ x = json_string s' @ y \<Longrightarrow> s = s' \<and> x = y"
proof -
  have "concat (map json_char s) @ CHR 0x22 # x = concat (map json_char s') @ CHR 0x22 # y
    \<Longrightarrow> s = s' \<and> x = y"
  proof (induction s arbitrary: s')
    case Nil
    then show ?case
      using json_char_not_quote by (cases s') (auto dest: sym)
  next
    case (Cons c s)
    show ?case
    proof (cases s')
      case Nil
      then show ?thesis
        using Cons.prems json_char_not_quote by auto
    next
      case (Cons c' t)
      then show ?thesis
        using Cons.prems Cons.IH json_char_prefix_code [of c _ c'] by fastforce
    qed
  qed
  then show "json_string s @ x = json_string s' @ y \<Longrightarrow> s = s' \<and> x = y"
    by (simp add: json_string_def)
qed

lemma json_strings_not_bracket: "json_strings (s # ss) @ x \<noteq> CHR '']'' # y"
  by (cases ss) (auto simp: json_string_def)

lemma json_strings_prefix_code:
  "json_strings ss @ CHR '']'' # x = json_strings ts @ CHR '']'' # y \<Longrightarrow> ss = ts \<and> x = y"
proof (induction ss arbitrary: ts rule: json_strings.induct)
  case 1
  then show ?case
    using json_strings_not_bracket by (cases ts) (auto dest: sym)
next
  case (2 s)
  show ?case
  proof (cases ts rule: json_strings.cases)
    case 1
    then show ?thesis
      using 2 json_strings_not_bracket [of s "[]"] by auto
  next
    case (2 t)
    then show ?thesis
      using 2 "2.prems" json_string_prefix_code [of s "CHR '']'' # x" t "CHR '']'' # y"] by auto
  next
    case (3 t u us)
    then show ?thesis
      using "2.prems" json_string_prefix_code [of s "CHR '']'' # x" t] by fastforce
  qed
next
  case (3 s t ss)
  show ?case
  proof (cases ts rule: json_strings.cases)
    case 1
    then show ?thesis
      using "3.prems" json_strings_not_bracket [of s "t # ss"] by auto
  next
    case (2 u)
    then show ?thesis
      using "3.prems" json_string_prefix_code [of s _ u "CHR '']'' # y"] by fastforce
  next
    case (3 u v us)
    then show ?thesis
      using "3.prems" "3.IH" [of "v # us"] json_string_prefix_code [of s _ u] by fastforce
  qed
qed

lemma json_array_inject: "json_array ss = json_array ts \<longleftrightarrow> ss = ts"
  using json_strings_prefix_code [of ss "[]" ts "[]"] by (auto simp: json_array_def)

lemma floor_div_bounds:
  fixes t s :: int
  assumes "0 < s"
  shows "t div s * s \<le> t" "t < (t div s + 1) * s"
proof -
  have "t = t div s * s + t mod s" "0 \<le> t mod s" "t mod s < s"
    using assms by simp_all
  then show "t div s * s \<le> t" "t < (t div s + 1) * s"
    unfolding distrib_right by linarith+
qed

lemma epochNow_Num: "s \<noteq> 0 \<Longrightarrow> epochNow s t = Num (t div s)"
  by (simp add: epochNow_def js_floor_div_def)

lemma seasonNow_Num: "s \<noteq> 0 \<Longrightarrow> seasonNow s t = Num (t div s)"
  by (simp add: seasonNow_def js_floor_div_def)

lemma dec_of_int_no_s: "CHR ''s'' \<notin> set (dec_of_int n)"
  using dec_of_nat_digits [of "CHR ''s''"] by (auto simp: dec_of_int_def is_digit_def)

lemma split_at_separator:
  "c \<notin> set a \<Longrightarrow> c \<notin> set a' \<Longrightarrow> a @ c # b = a' @ c # b' \<longleftrightarrow> a = a' \<and> b = b'"
  by (auto simp: append_eq_append_conv2 append_eq_Cons_conv Cons_eq_append_conv)

subsection \<open>Properties\<close>

text \<open>A string is accepted as a field element exactly when it is the printed decimal of a
  number below the prime, so two accepted strings with the same value are the same string and
  a nullifier has one spelling.\<close>

lemma isCanonicalField_unique:
  "isCanonicalField v \<longleftrightarrow> (\<exists>n < FIELD_PRIME. v = dec_of_nat n \<and>
     {w. isCanonicalField w \<and> nat_of_dec w mod FIELD_PRIME = n} = {v})"
proof -
  have "{w. isCanonicalField w \<and> nat_of_dec w mod FIELD_PRIME = n} = {dec_of_nat n}" if "n < FIELD_PRIME" for n
    using that by (auto simp: isCanonicalField_iff)
  then show ?thesis
    by (auto simp: isCanonicalField_iff)
qed

text \<open>Two context preimages (and two signal preimages) are equal only when every component
  is, whatever characters the fields hold, and a context preimage is never a signal preimage: no
  character inside a field can shift a boundary.\<close>

lemma preimages_unambiguous:
  "(contextPreimage p c r v = contextPreimage p' c' r' v) = ((p, c, r) = (p', c', r')) \<and>
   (signalPreimage n a = signalPreimage n' a') = ((n, a) = (n', a')) \<and>
   contextPreimage p c r v \<noteq> signalPreimage n a"
  by (simp add: contextPreimage_def signalPreimage_def json_array_inject)

end
