(* ===== verification/Merkle_Roots.thy ===== *)
theory Merkle_Roots
  imports Common_Values
begin

section \<open>Merkle roots and paths\<close>

text \<open>
  \<open>common/dml_root.js\<close> (the sparse root of the ordered leaves) and \<open>common/merkle_path.js\<close>
  (the sparse path and root of one leaf). The hash library circomlibjs is not part of the
  repository: a \<open>poseidon\<close> record is an argument of every definition, and no lemma assumes
  anything about it. The specification is \<open>node\<close>, the node at a level and a position of the
  tree padded with zero leaves; the code never builds that tree.
\<close>

record 'n poseidon =
  phash :: "'n \<Rightarrow> 'n \<Rightarrow> 'n"          \<comment> \<open>\<open>poseidon([a, b])\<close>\<close>
  pzero :: 'n                       \<comment> \<open>\<open>F.e(0n)\<close>\<close>
  pelem :: "string \<Rightarrow> 'n option"     \<comment> \<open>\<open>F.e(BigInt(x))\<close>, \<open>None\<close> where \<open>BigInt\<close> throws\<close>
  pstr :: "'n \<Rightarrow> string"             \<comment> \<open>\<open>F.toObject(x).toString()\<close>\<close>

datatype merkle_error =
    LeafCountExceedsCapacity nat nat
  | NoLeaves
  | IndexNotALeaf int
  | NotAnInteger string
  | TreeFull nat nat
  | FrontierMissing

subsection \<open>The specification: nodes of the padded tree\<close>

primrec node :: "('n \<Rightarrow> 'n \<Rightarrow> 'n) \<Rightarrow> 'n \<Rightarrow> nat \<Rightarrow> nat \<Rightarrow> 'n list \<Rightarrow> 'n" where
  "node h z 0 k xs = (if k < length xs then xs ! k else z)"
| "node h z (Suc l) k xs = h (node h z l (2 * k) xs) (node h z l (2 * k + 1) xs)"

definition padded_root :: "'n poseidon \<Rightarrow> nat \<Rightarrow> 'n list \<Rightarrow> 'n" where
  "padded_root P depth xs = node (phash P) (pzero P) depth 0 xs"

subsection \<open>The code\<close>

text \<open>The array \<open>zero\<close> (\<open>zeros\<close> in the path builder): entry \<open>l\<close> is the root of an empty
  subtree of height \<open>l\<close>.\<close>

primrec zero_roots :: "'n poseidon \<Rightarrow> nat \<Rightarrow> 'n list" where
  "zero_roots P 0 = [pzero P]"
| "zero_roots P (Suc l) = (let zs = zero_roots P l in zs @ [phash P (zs ! l) (zs ! l)])"

text \<open>One pass of the inner loop: pairs, with \<open>pad\<close> for a missing right sibling.\<close>

fun pair_level :: "('n \<Rightarrow> 'n \<Rightarrow> 'n) \<Rightarrow> 'n \<Rightarrow> 'n list \<Rightarrow> 'n list" where
  "pair_level h pad [] = []"
| "pair_level h pad [x] = [h x pad]"
| "pair_level h pad (x # y # r) = h x y # pair_level h pad r"

text \<open>The outer loop from level \<open>l\<close>, with \<open>k\<close> levels to go.\<close>

fun climb :: "('n \<Rightarrow> 'n \<Rightarrow> 'n) \<Rightarrow> 'n list \<Rightarrow> nat \<Rightarrow> nat \<Rightarrow> 'n list \<Rightarrow> 'n list" where
  "climb h zs l 0 level = level"
| "climb h zs l (Suc k) level = climb h zs (Suc l) k (pair_level h (zs ! l) level)"

definition field_elem :: "'n poseidon \<Rightarrow> string \<Rightarrow> merkle_error + 'n" where
  "field_elem P x = (case pelem P x of None \<Rightarrow> Inl (NotAnInteger x) | Some e \<Rightarrow> Inr e)"

definition rootFromLeaves :: "'n poseidon \<Rightarrow> nat \<Rightarrow> string list \<Rightarrow> merkle_error + string" where
  "rootFromLeaves P depth leaves =
     (let zero = zero_roots P depth in
      if length leaves > 2 ^ depth then Inl (LeafCountExceedsCapacity (length leaves) (2 ^ depth))
      else if leaves = [] then Inr (pstr P (zero ! depth))
      else bindE (mapE (field_elem P) leaves) (\<lambda>level.
             Inr (pstr P (climb (phash P) zero 0 depth level ! 0))))"

definition sibling :: "nat \<Rightarrow> nat" where
  "sibling idx = (if even idx then idx + 1 else idx - 1)" \<comment> \<open>\<open>idx ^ 1\<close>\<close>

text \<open>The path loop: the path elements and indices in order, and the last level.\<close>

fun path_loop :: "'n poseidon \<Rightarrow> 'n list \<Rightarrow> nat \<Rightarrow> nat \<Rightarrow> 'n list \<Rightarrow> nat
    \<Rightarrow> string list \<times> nat list \<times> 'n list" where
  "path_loop P zs l 0 level idx = ([], [], level)"
| "path_loop P zs l (Suc k) level idx =
     (let s = sibling idx;
          e = pstr P (if s < length level then level ! s else zs ! l);
          next = pair_level (phash P) (zs ! l) level;
          (es, is, top) = path_loop P zs (Suc l) k next (idx div 2)
      in (e # es, idx mod 2 # is, top))"

record merkle_path =
  pathElements :: "string list"
  pathIndices :: "nat list"
  path_root :: string

definition merklePathFor :: "'n poseidon \<Rightarrow> string list \<Rightarrow> int \<Rightarrow> nat \<Rightarrow> merkle_error + merkle_path" where
  "merklePathFor P leavesDec index depth =
     (if leavesDec = [] then Inl NoLeaves
      else if length leavesDec > 2 ^ depth
        then Inl (LeafCountExceedsCapacity (length leavesDec) (2 ^ depth))
      else if index < 0 \<or> index \<ge> int (length leavesDec) then Inl (IndexNotALeaf index)
      else bindE (mapE (field_elem P) leavesDec) (\<lambda>level.
        let (es, is, top) = path_loop P (zero_roots P depth) 0 depth level (nat index)
        in Inr \<lparr>pathElements = es, pathIndices = is, path_root = pstr P (top ! 0)\<rparr>))"

subsection \<open>The nodes of a level\<close>

definition getz :: "'n \<Rightarrow> 'n list \<Rightarrow> nat \<Rightarrow> 'n" where
  "getz d ys k = (if k < length ys then ys ! k else d)"

definition is_level :: "'n poseidon \<Rightarrow> nat \<Rightarrow> 'n list \<Rightarrow> 'n list \<Rightarrow> bool" where
  "is_level P l xs ys \<longleftrightarrow> (\<forall>k. getz (zero_roots P l ! l) ys k = node (phash P) (pzero P) l k xs)"

lemma length_zero_roots [simp]: "length (zero_roots P l) = Suc l"
  by (induction l) (auto simp: Let_def)

lemma zero_roots_nth: "l \<le> d \<Longrightarrow> zero_roots P d ! l = zero_roots P l ! l"
  by (induction d) (auto simp: Let_def nth_append le_Suc_eq)

lemma zero_roots_0 [simp]: "zero_roots P d ! 0 = pzero P"
  by (induction d) (auto simp: Let_def nth_append)

lemma zero_roots_Suc: "zero_roots P (Suc l) ! Suc l = phash P (zero_roots P l ! l) (zero_roots P l ! l)"
  by (simp add: Let_def nth_append)

lemma node_past_end:
  "length xs \<le> k * 2 ^ l \<Longrightarrow> node (phash P) (pzero P) l k xs = zero_roots P l ! l"
proof (induction l arbitrary: k)
  case 0
  then show ?case by simp
next
  case (Suc l)
  have "length xs \<le> (2 * k) * 2 ^ l" "length xs \<le> (2 * k + 1) * 2 ^ l"
    using Suc.prems by (simp_all add: algebra_simps)
  then show ?case
    using Suc.IH by (simp add: zero_roots_Suc del: zero_roots.simps)
qed

lemma node_append:
  "(k + 1) * 2 ^ l \<le> length xs \<Longrightarrow> node h z l k (xs @ ys) = node h z l k xs"
proof (induction l arbitrary: k)
  case 0
  then show ?case by (simp add: nth_append)
next
  case (Suc l)
  have "(2 * k + 1) * 2 ^ l \<le> length xs" "(2 * k + 1 + 1) * 2 ^ l \<le> length xs"
    using Suc.prems by (simp_all add: algebra_simps)
  then show ?case
    using Suc.IH by simp
qed

lemma node_pad: "node h z l k (xs @ replicate n z) = node h z l k xs"
  by (induction l arbitrary: k) (auto simp: nth_append)

lemma length_pair_level: "length (pair_level h p ys) = (length ys + 1) div 2"
  by (induction h p ys rule: pair_level.induct) auto

lemma nth_pair_level:
  "k < length (pair_level h p ys) \<Longrightarrow>
   pair_level h p ys ! k = h (getz p ys (2 * k)) (getz p ys (2 * k + 1))"
proof (induction h p ys arbitrary: k rule: pair_level.induct)
  case (3 h p x y r)
  then show ?case
    by (cases k) (auto simp: getz_def)
qed (auto simp: getz_def)

lemma is_level_leaves [simp]: "is_level P 0 xs xs"
  by (auto simp: is_level_def getz_def)

lemma is_level_pair:
  assumes "is_level P l xs ys"
  shows "is_level P (Suc l) xs (pair_level (phash P) (zero_roots P l ! l) ys)"
  unfolding is_level_def
proof
  fix k
  let ?z = "zero_roots P l ! l"
  have nodes: "node (phash P) (pzero P) (Suc l) k xs = phash P (getz ?z ys (2 * k)) (getz ?z ys (2 * k + 1))"
    using assms by (simp add: is_level_def)
  show "getz (zero_roots P (Suc l) ! Suc l) (pair_level (phash P) ?z ys) k
      = node (phash P) (pzero P) (Suc l) k xs"
  proof (cases "k < length (pair_level (phash P) ?z ys)")
    case True
    then show ?thesis
      using nodes nth_pair_level [OF True] by (simp add: getz_def [of _ "pair_level _ _ _"])
  next
    case False
    then have "length ys \<le> 2 * k"
      by (simp add: length_pair_level)
    then show ?thesis
      using False nodes by (simp add: getz_def zero_roots_Suc del: zero_roots.simps)
  qed
qed

lemma pair_level_nonempty: "ys \<noteq> [] \<Longrightarrow> pair_level h p ys \<noteq> []"
  by (cases "(h, p, ys)" rule: pair_level.cases) auto

lemma climb_is_level:
  assumes "is_level P l xs level" "level \<noteq> []" "l + k \<le> d"
  shows "is_level P (l + k) xs (climb (phash P) (zero_roots P d) l k level)
       \<and> climb (phash P) (zero_roots P d) l k level \<noteq> []"
  using assms
proof (induction k arbitrary: l level)
  case 0
  then show ?case by simp
next
  case (Suc k)
  have "zero_roots P d ! l = zero_roots P l ! l"
    using Suc.prems by (intro zero_roots_nth) simp
  then show ?case
    using Suc.IH [OF is_level_pair [OF Suc.prems(1)]] Suc.prems
    by (simp add: pair_level_nonempty)
qed

lemma is_level_top:
  "is_level P d xs ys \<Longrightarrow> ys \<noteq> [] \<Longrightarrow> ys ! 0 = padded_root P d xs"
  by (auto simp: is_level_def getz_def padded_root_def dest: spec [of _ 0])

text \<open>The leaves a list of decimal strings denotes, where every one of them parses.\<close>

definition parses :: "'n poseidon \<Rightarrow> string list \<Rightarrow> 'n list \<Rightarrow> bool" where
  "parses P ss xs \<longleftrightarrow> mapE (field_elem P) ss = Inr xs"

lemma parses_length: "parses P ss xs \<Longrightarrow> length ss = length xs"
  by (auto simp: parses_def dest: mapE_length)

lemma parses_Nil [simp]: "parses P [] xs \<longleftrightarrow> xs = []"
  by (auto simp: parses_def)

lemma parses_empty_iff: "parses P ss xs \<Longrightarrow> ss = [] \<longleftrightarrow> xs = []"
  using parses_length by fastforce

lemma padded_root_Nil: "padded_root P d [] = zero_roots P d ! d"
  by (simp add: padded_root_def node_past_end)

lemma rootFromLeaves_padded:
  assumes "parses P leaves xs" "length xs \<le> 2 ^ depth"
  shows "rootFromLeaves P depth leaves = Inr (pstr P (padded_root P depth xs))"
proof (cases "leaves = []")
  case True
  then show ?thesis
    using assms by (simp add: rootFromLeaves_def padded_root_Nil)
next
  case False
  then have "xs \<noteq> []"
    using assms parses_empty_iff by blast
  then have "climb (phash P) (zero_roots P depth) 0 depth xs ! 0 = padded_root P depth xs"
    using climb_is_level [of P 0 xs xs depth depth] is_level_top by fastforce
  then show ?thesis
    using False assms parses_length [OF assms(1)] by (simp add: rootFromLeaves_def parses_def)
qed

subsection \<open>Paths\<close>

text \<open>What a verifier does with a path (the circuits' inclusion check): fold it from the leaf.\<close>

fun fold_path :: "('n \<Rightarrow> 'n \<Rightarrow> 'n) \<Rightarrow> 'n \<Rightarrow> ('n \<times> nat) list \<Rightarrow> 'n" where
  "fold_path h cur [] = cur"
| "fold_path h cur ((e, i) # p) = fold_path h (if i = 0 then h cur e else h e cur) p"

text \<open>The siblings of position \<open>idx\<close> of level \<open>l\<close> up to level \<open>l + k\<close> of the padded tree.\<close>

primrec siblings :: "'n poseidon \<Rightarrow> 'n list \<Rightarrow> nat \<Rightarrow> nat \<Rightarrow> nat \<Rightarrow> 'n list" where
  "siblings P xs l idx 0 = []"
| "siblings P xs l idx (Suc k) =
     node (phash P) (pzero P) l (sibling idx) xs # siblings P xs (Suc l) (idx div 2) k"

primrec index_bits :: "nat \<Rightarrow> nat \<Rightarrow> nat list" where
  "index_bits idx 0 = []"
| "index_bits idx (Suc k) = idx mod 2 # index_bits (idx div 2) k"

lemma length_siblings [simp]: "length (siblings P xs l idx k) = k"
  by (induction k arbitrary: l idx) auto

lemma length_index_bits [simp]: "length (index_bits idx k) = k"
  by (induction k arbitrary: idx) auto

lemma path_loop_spec:
  assumes "is_level P l xs level" "level \<noteq> []" "l + k \<le> d"
  shows "path_loop P (zero_roots P d) l k level idx =
     (map (pstr P) (siblings P xs l idx k), index_bits idx k,
      climb (phash P) (zero_roots P d) l k level)"
  using assms
proof (induction k arbitrary: l level idx)
  case 0
  then show ?case by simp
next
  case (Suc k)
  have z: "zero_roots P d ! l = zero_roots P l ! l"
    using Suc.prems by (intro zero_roots_nth) simp
  have "(if sibling idx < length level then level ! sibling idx else zero_roots P d ! l)
      = node (phash P) (pzero P) l (sibling idx) xs"
    using Suc.prems(1) unfolding is_level_def getz_def z by blast
  then show ?case
    using Suc.IH [OF is_level_pair [OF Suc.prems(1)]] Suc.prems z
    by (simp add: pair_level_nonempty Let_def)
qed

lemma fold_siblings:
  "fold_path (phash P) (node (phash P) (pzero P) l idx xs)
     (zip (siblings P xs l idx k) (index_bits idx k))
   = node (phash P) (pzero P) (l + k) (idx div 2 ^ k) xs"
proof (induction k arbitrary: l idx)
  case 0
  then show ?case by simp
next
  case (Suc k)
  have "(if idx mod 2 = 0
         then phash P (node (phash P) (pzero P) l idx xs) (node (phash P) (pzero P) l (sibling idx) xs)
         else phash P (node (phash P) (pzero P) l (sibling idx) xs) (node (phash P) (pzero P) l idx xs))
      = node (phash P) (pzero P) (Suc l) (idx div 2) xs"
  proof (cases "even idx")
    case True
    then show ?thesis
      by (auto simp: sibling_def elim!: evenE)
  next
    case False
    then show ?thesis
      by (auto simp: sibling_def elim!: oddE)
  qed
  then show ?case
    using Suc.IH [of "Suc l" "idx div 2"] by (simp add: div_mult2_eq)
qed

lemma merklePathFor_eq:
  assumes "parses P leaves xs" "length xs \<le> 2 ^ depth" "i < length xs"
  shows "merklePathFor P leaves (int i) depth =
     Inr \<lparr>pathElements = map (pstr P) (siblings P xs 0 i depth), pathIndices = index_bits i depth,
          path_root = pstr P (padded_root P depth xs)\<rparr>"
proof -
  have xs: "xs \<noteq> []"
    using assms(3) by auto
  have top: "climb (phash P) (zero_roots P depth) 0 depth xs ! 0 = padded_root P depth xs"
    using climb_is_level [of P 0 xs xs depth depth] is_level_top xs by fastforce
  show ?thesis
    using assms xs parses_length [OF assms(1)] parses_empty_iff [OF assms(1)] top
      path_loop_spec [of P 0 xs xs depth depth i]
    by (simp add: merklePathFor_def parses_def Let_def)
qed

text \<open>
  The pairs a fold hashes, from the leaf up. Two folds with the same index bits and the same
  root either start from the same leaf or hash two different pairs to one value.
\<close>

fun path_pairs :: "('n \<Rightarrow> 'n \<Rightarrow> 'n) \<Rightarrow> 'n \<Rightarrow> ('n \<times> nat) list \<Rightarrow> ('n \<times> 'n) list" where
  "path_pairs h cur [] = []"
| "path_pairs h cur ((e, i) # p) =
     (let pr = (if i = 0 then (cur, e) else (e, cur)) in pr # path_pairs h (h (fst pr) (snd pr)) p)"

lemma fold_path_binding:
  "length es = length bs \<Longrightarrow> length fs = length bs \<Longrightarrow>
   fold_path h a (zip es bs) = fold_path h b (zip fs bs) \<Longrightarrow> a \<noteq> b \<Longrightarrow>
   \<exists>j < length bs. let p = path_pairs h a (zip es bs) ! j; q = path_pairs h b (zip fs bs) ! j
      in p \<noteq> q \<and> h (fst p) (snd p) = h (fst q) (snd q)"
proof (induction bs arbitrary: a b es fs)
  case Nil
  then show ?case by simp
next
  case (Cons i bs)
  obtain e es' f fs' where es: "es = e # es'" "fs = f # fs'"
    using Cons.prems by (cases es; cases fs) auto
  define p where "p = (if i = 0 then (a, e) else (e, a))"
  define q where "q = (if i = 0 then (b, f) else (f, b))"
  have pq: "p \<noteq> q"
    using Cons.prems(4) by (auto simp: p_def q_def)
  show ?case
  proof (cases "h (fst p) (snd p) = h (fst q) (snd q)")
    case True
    then show ?thesis
      using pq by (intro exI [of _ 0]) (simp add: es p_def q_def Let_def)
  next
    case False
    have eq: "fold_path h (h (fst p) (snd p)) (zip es' bs) = fold_path h (h (fst q) (snd q)) (zip fs' bs)"
      using Cons.prems(3) by (simp add: es p_def q_def split: if_splits)
    obtain j where "j < length bs"
      "let p' = path_pairs h (h (fst p) (snd p)) (zip es' bs) ! j;
           q' = path_pairs h (h (fst q) (snd q)) (zip fs' bs) ! j
       in p' \<noteq> q' \<and> h (fst p') (snd p') = h (fst q') (snd q')"
      using Cons.IH [OF _ _ eq False] Cons.prems es by auto
    then show ?thesis
      by (intro exI [of _ "Suc j"]) (simp add: es p_def q_def Let_def)
  qed
qed

subsection \<open>Properties\<close>

text \<open>The sparse root of at most \<open>2 ^ depth\<close> leaves is the root of the tree padded with
  zero leaves to \<open>2 ^ depth\<close>, and more leaves than that are refused. No assumption on the hash.\<close>

lemma rootFromLeaves_correct:
  "rootFromLeaves P depth leaves =
     (if length leaves > 2 ^ depth then Inl (LeafCountExceedsCapacity (length leaves) (2 ^ depth))
      else bindE (mapE (field_elem P) leaves) (\<lambda>xs. Inr (pstr P (node (phash P) (pzero P) depth 0 xs))))"
proof (cases "mapE (field_elem P) leaves")
  case (Inl e)
  then have "leaves \<noteq> []"
    by auto
  then show ?thesis
    by (simp add: rootFromLeaves_def Inl)
next
  case (Inr xs)
  then have "parses P leaves xs"
    by (simp add: parses_def)
  then show ?thesis
    using rootFromLeaves_padded [of P leaves xs depth] parses_length [of P leaves xs]
    by (simp add: Inr padded_root_def rootFromLeaves_def)
qed

text \<open>The path the prover builds for a leaf has one element and one index bit per level, its
  root is the root the gateway computes from the same leaves, and folding the path from the leaf
  gives that root.\<close>

lemma merklePathFor_correct:
  assumes "mapE (field_elem P) leaves = Inr xs" "length leaves \<le> 2 ^ depth" "i < length leaves"
  shows "\<exists>es. merklePathFor P leaves (int i) depth =
      Inr \<lparr>pathElements = map (pstr P) es, pathIndices = index_bits i depth,
           path_root = pstr P (fold_path (phash P) (xs ! i) (zip es (index_bits i depth)))\<rparr>
    \<and> length es = depth
    \<and> rootFromLeaves P depth leaves = Inr (pstr P (fold_path (phash P) (xs ! i) (zip es (index_bits i depth))))"
proof -
  have p: "parses P leaves xs" and len: "length xs = length leaves"
    using assms mapE_length [OF assms(1)] by (simp_all add: parses_def)
  have "i div 2 ^ depth = 0"
    using assms by (simp add: div_eq_0_iff)
  then have fold: "fold_path (phash P) (xs ! i) (zip (siblings P xs 0 i depth) (index_bits i depth))
      = padded_root P depth xs"
    using fold_siblings [of P 0 i xs depth] assms(3) len by (simp add: padded_root_def)
  show ?thesis
    using merklePathFor_eq [OF p] rootFromLeaves_padded [OF p] assms len fold
    by (intro exI [of _ "siblings P xs 0 i depth"]) simp
qed

text \<open>A concrete hasher for the witnesses: pairs are hashed to their numeric pairing.\<close>

definition demo_hasher :: "nat poseidon" where
  "demo_hasher = \<lparr>phash = (\<lambda>a b. 2 * a + 3 * b + 1), pzero = 0,
     pelem = (\<lambda>s. if plain_decimal s then Some (nat_of_dec s) else None), pstr = dec_of_nat\<rparr>"

lemma demo_parses: "mapE (field_elem demo_hasher) (map dec_of_nat ns) = Inr ns"
  by (induction ns) (simp_all add: field_elem_def demo_hasher_def)

theorem merklePathFor_correct_witness:
  "\<exists>es. merklePathFor demo_hasher (map dec_of_nat [5, 7, 9]) (int 2) 2 =
      Inr \<lparr>pathElements = map (pstr demo_hasher) es, pathIndices = [0, 1],
           path_root = pstr demo_hasher (fold_path (phash demo_hasher) 9 (zip es [0, 1]))\<rparr>
    \<and> length es = 2"
proof -
  have bits: "index_bits 2 2 = [0, 1]"
    by code_simp
  have "length (map dec_of_nat [5, 7, 9]) \<le> 2 ^ 2" "2 < length (map dec_of_nat [5, 7, 9])"
    by simp_all
  from merklePathFor_correct [OF demo_parses this] show ?thesis
    unfolding bits by auto
qed

text \<open>Binding. If a path of the right length with the bits of position \<open>i\<close> folds from some
  value to the root of a leaf list, that value is the list's leaf at \<open>i\<close> (the zero leaf past the
  end), or at some level the two paths exhibit two different pairs with one hash.\<close>

lemma path_binding:
  assumes "length es = depth" "i < 2 ^ depth"
    and "fold_path (phash P) v (zip es (index_bits i depth)) = padded_root P depth xs"
    and "v \<noteq> (if i < length xs then xs ! i else pzero P)"
  shows "\<exists>j < depth.
      let p = path_pairs (phash P) v (zip es (index_bits i depth)) ! j;
          q = path_pairs (phash P) (if i < length xs then xs ! i else pzero P)
                (zip (siblings P xs 0 i depth) (index_bits i depth)) ! j
      in p \<noteq> q \<and> phash P (fst p) (snd p) = phash P (fst q) (snd q)"
proof -
  let ?w = "if i < length xs then xs ! i else pzero P"
  have "fold_path (phash P) ?w (zip (siblings P xs 0 i depth) (index_bits i depth)) = padded_root P depth xs"
    using fold_siblings [of P 0 i xs depth] assms(2) by (simp add: padded_root_def)
  then have "fold_path (phash P) v (zip es (index_bits i depth))
      = fold_path (phash P) ?w (zip (siblings P xs 0 i depth) (index_bits i depth))"
    using assms(3) by simp
  from fold_path_binding [OF _ _ this assms(4)] show ?thesis
    using assms(1) by simp
qed

theorem path_binding_witness:
  "\<exists>j < 1. let p = path_pairs (phash demo_hasher) 3 (zip [0] (index_bits 0 1)) ! j;
          q = path_pairs (phash demo_hasher) (if 0 < length [0, 2::nat] then [0, 2] ! 0 else pzero demo_hasher)
                (zip (siblings demo_hasher [0, 2] 0 0 1) (index_bits 0 1)) ! j
      in p \<noteq> q \<and> phash demo_hasher (fst p) (snd p) = phash demo_hasher (fst q) (snd q)"
proof (rule path_binding)
  show "fold_path (phash demo_hasher) 3 (zip [0] (index_bits 0 1)) = padded_root demo_hasher 1 [0, 2]"
    by code_simp
qed simp_all

end
