(* ===== verification/Members_Tree.thy ===== *)
theory Members_Tree
  imports Merkle_Roots
begin

section \<open>The incremental members tree\<close>

text \<open>
  \<open>core/members_tree.js\<close>: a Merkle tree of fixed depth whose root is maintained on append
  through a frontier (the left sibling waiting at each level), rebuilt from a commitment list by
  one pass with a carry stack, and built in full only for sibling paths. The invariant
  \<open>mt_inv\<close> ties the state to the leaves: the root is the padded tree's, and the frontier
  holds, at every level where the leaf count has a bit set, the completed subtree waiting there.
  A missing frontier entry (\<open>null\<close> handed to the hash) is the error value
  \<open>FrontierMissing\<close>, which the invariant excludes.
\<close>

record 'n members_tree =
  mt_depth :: nat
  mt_commitments :: "string list"
  mt_levels :: "'n list list option"
  mt_zeros :: "'n list"
  mt_frontier :: "'n option list"
  mt_root :: 'n

definition MembersTree_new :: "'n poseidon \<Rightarrow> nat \<Rightarrow> 'n members_tree" where
  "MembersTree_new P depth =
     \<lparr>mt_depth = depth, mt_commitments = [], mt_levels = None, mt_zeros = zero_roots P depth,
      mt_frontier = replicate depth None, mt_root = zero_roots P depth ! depth\<rparr>"

definition MembersTree_capacity :: "'n members_tree \<Rightarrow> nat" where
  "MembersTree_capacity t = 2 ^ mt_depth t"

definition MembersTree_full :: "'n members_tree \<Rightarrow> bool" where
  "MembersTree_full t \<longleftrightarrow> length (mt_commitments t) \<ge> MembersTree_capacity t"

definition MembersTree_size :: "'n members_tree \<Rightarrow> nat" where
  "MembersTree_size t = length (mt_commitments t)"

definition MembersTree_has :: "'n members_tree \<Rightarrow> string \<Rightarrow> bool" where
  "MembersTree_has t c \<longleftrightarrow> c \<in> set (mt_commitments t)"

definition MembersTree_root :: "'n poseidon \<Rightarrow> 'n members_tree \<Rightarrow> string" where
  "MembersTree_root P t = pstr P (mt_root t)"

subsection \<open>Append\<close>

fun insert_loop :: "'n poseidon \<Rightarrow> 'n list \<Rightarrow> nat \<Rightarrow> nat \<Rightarrow> 'n \<Rightarrow> nat \<Rightarrow> 'n option list
    \<Rightarrow> merkle_error + ('n option list \<times> 'n)" where
  "insert_loop P zs l 0 cur idx fr = Inr (fr, cur)"
| "insert_loop P zs l (Suc k) cur idx fr =
     (if even idx
      then insert_loop P zs (Suc l) k (phash P cur (zs ! l)) (idx div 2) (fr[l := Some cur])
      else (case fr ! l of
              None \<Rightarrow> Inl FrontierMissing
            | Some left \<Rightarrow> insert_loop P zs (Suc l) k (phash P left cur) (idx div 2) fr))"

definition MembersTree_append :: "'n poseidon \<Rightarrow> string \<Rightarrow> 'n members_tree
    \<Rightarrow> merkle_error + (nat \<times> 'n members_tree)" where
  "MembersTree_append P c t =
     (if MembersTree_full t
      then Inl (TreeFull (MembersTree_capacity t) (mt_depth t))
      else bindE (field_elem P c) (\<lambda>leafF.
        let index = length (mt_commitments t) in
        bindE (insert_loop P (mt_zeros t) 0 (mt_depth t) leafF index (mt_frontier t))
          (\<lambda>(fr, cur). Inr (index, t\<lparr>mt_commitments := mt_commitments t @ [c], mt_levels := None,
                                     mt_frontier := fr, mt_root := cur\<rparr>))))"

subsection \<open>Rebuild from the durable commitments\<close>

text \<open>The stack holds completed subtrees with their level, the top first.\<close>

fun carry :: "'n poseidon \<Rightarrow> nat \<Rightarrow> 'n \<Rightarrow> (nat \<times> 'n) list \<Rightarrow> (nat \<times> 'n) list" where
  "carry P level nd [] = [(level, nd)]"
| "carry P level nd ((l, left) # st) =
     (if l = level then carry P (Suc level) (phash P left nd) st else (level, nd) # (l, left) # st)"

definition carry_stack :: "'n poseidon \<Rightarrow> 'n list \<Rightarrow> (nat \<times> 'n) list" where
  "carry_stack P leaves = foldl (\<lambda>st leaf. carry P 0 leaf st) [] leaves"

definition stack_frontier :: "nat \<Rightarrow> (nat \<times> 'n) list \<Rightarrow> 'n option list" where
  "stack_frontier depth stack =
     foldl (\<lambda>fr (level, nd). if level < depth then fr[level := Some nd] else fr)
       (replicate depth None) (rev stack)"

fun root_fold :: "'n poseidon \<Rightarrow> 'n list \<Rightarrow> 'n option list \<Rightarrow> nat \<Rightarrow> nat \<Rightarrow> nat \<Rightarrow> 'n
    \<Rightarrow> merkle_error + 'n" where
  "root_fold P zs fr n l 0 cur = Inr cur"
| "root_fold P zs fr n l (Suc k) cur =
     (if odd (n div 2 ^ l)
      then (case fr ! l of
              None \<Rightarrow> Inl FrontierMissing
            | Some left \<Rightarrow> root_fold P zs fr n (Suc l) k (phash P left cur))
      else root_fold P zs fr n (Suc l) k (phash P cur (zs ! l)))"

definition fromCommitments :: "'n poseidon \<Rightarrow> string list \<Rightarrow> nat \<Rightarrow> merkle_error + 'n members_tree" where
  "fromCommitments P commitments depth =
     (let t = MembersTree_new P depth; n = length commitments in
      if n > MembersTree_capacity t then Inl (LeafCountExceedsCapacity n (MembersTree_capacity t))
      else bindE (mapE (field_elem P) commitments) (\<lambda>leaves.
        let stack = carry_stack P leaves; fr = stack_frontier depth stack in
        bindE (if n = MembersTree_capacity t then Inr (snd (last stack))
               else root_fold P (mt_zeros t) fr n 0 depth (mt_zeros t ! 0))
          (\<lambda>root. Inr (t\<lparr>mt_commitments := commitments, mt_frontier := fr, mt_root := root\<rparr>))))"

subsection \<open>The full build, for sibling paths\<close>

function levels_from :: "('n \<Rightarrow> 'n \<Rightarrow> 'n) \<Rightarrow> 'n \<Rightarrow> 'n list \<Rightarrow> 'n list list" where
  "levels_from h z level =
     (if length level > 1 then level # levels_from h z (pair_level h z level) else [level])"
  by pat_completeness auto
termination
  by (relation "measure (\<lambda>(h, z, level). length level)") (auto simp: length_pair_level)

declare levels_from.simps [simp del]

definition MembersTree_levels :: "'n poseidon \<Rightarrow> 'n members_tree
    \<Rightarrow> merkle_error + ('n list list \<times> 'n members_tree)" where
  "MembersTree_levels P t =
     (case mt_levels t of
        Some ls \<Rightarrow> Inr (ls, t)
      | None \<Rightarrow> bindE (mapE (field_elem P) (mt_commitments t)) (\<lambda>level.
          let padded = level @ replicate (MembersTree_capacity t - length level) (pzero P);
              ls = levels_from (phash P) (pzero P) padded
          in Inr (ls, t\<lparr>mt_levels := Some ls\<rparr>)))"

definition rootFromFullBuild :: "'n poseidon \<Rightarrow> 'n members_tree \<Rightarrow> merkle_error + string" where
  "rootFromFullBuild P t =
     bindE (MembersTree_levels P t) (\<lambda>(ls, _). Inr (pstr P (last ls ! 0)))"

fun path_from_levels :: "'n poseidon \<Rightarrow> 'n list list \<Rightarrow> nat \<Rightarrow> nat \<Rightarrow> nat \<Rightarrow> string list \<times> nat list" where
  "path_from_levels P ls l 0 idx = ([], [])"
| "path_from_levels P ls l (Suc k) idx =
     (let (es, is) = path_from_levels P ls (Suc l) k (idx div 2)
      in (pstr P (ls ! l ! sibling idx) # es, idx mod 2 # is))"

text \<open>An index past the capacity reads \<open>undefined\<close> and the conversion throws.\<close>

definition MembersTree_pathFor :: "'n poseidon \<Rightarrow> nat \<Rightarrow> 'n members_tree
    \<Rightarrow> merkle_error + (string list \<times> nat list)" where
  "MembersTree_pathFor P index t =
     bindE (MembersTree_levels P t) (\<lambda>(ls, _).
       if mt_depth t > 0 \<and> index \<ge> MembersTree_capacity t then Inl (IndexNotALeaf (int index))
       else Inr (path_from_levels P ls 0 (mt_depth t) index))"

subsection \<open>The invariant\<close>

abbreviation nd :: "'n poseidon \<Rightarrow> nat \<Rightarrow> nat \<Rightarrow> 'n list \<Rightarrow> 'n" where
  "nd P \<equiv> node (phash P) (pzero P)"

definition frontier_ok :: "'n poseidon \<Rightarrow> nat \<Rightarrow> 'n list \<Rightarrow> 'n option list \<Rightarrow> bool" where
  "frontier_ok P depth xs fr \<longleftrightarrow> length fr = depth \<and>
     (\<forall>l < depth. odd (length xs div 2 ^ l) \<longrightarrow> fr ! l = Some (nd P l (length xs div 2 ^ l - 1) xs))"

definition full_levels :: "'n poseidon \<Rightarrow> nat \<Rightarrow> 'n list \<Rightarrow> 'n list list" where
  "full_levels P depth xs =
     levels_from (phash P) (pzero P) (xs @ replicate (2 ^ depth - length xs) (pzero P))"

definition mt_inv :: "'n poseidon \<Rightarrow> 'n list \<Rightarrow> 'n members_tree \<Rightarrow> bool" where
  "mt_inv P xs t \<longleftrightarrow>
     parses P (mt_commitments t) xs \<and> length xs \<le> 2 ^ mt_depth t \<and>
     mt_zeros t = zero_roots P (mt_depth t) \<and>
     frontier_ok P (mt_depth t) xs (mt_frontier t) \<and>
     mt_root t = padded_root P (mt_depth t) xs \<and>
     (\<forall>ls. mt_levels t = Some ls \<longrightarrow> ls = full_levels P (mt_depth t) xs)"

subsection \<open>Append keeps the invariant\<close>

lemma node_snoc_last: "nd P l (length xs div 2 ^ l + 1) (xs @ [x]) = zero_roots P l ! l"
proof (rule node_past_end)
  have "length xs < (length xs div 2 ^ l + 1) * 2 ^ l"
    by (metis Suc_eq_plus1 dividend_less_div_times mult_Suc zero_less_numeral zero_less_power)
  then show "length (xs @ [x]) \<le> (length xs div 2 ^ l + 1) * 2 ^ l"
    by simp
qed

lemma node_left_stable:
  "odd (n div 2 ^ l) \<Longrightarrow> n = length xs \<Longrightarrow> nd P l (n div 2 ^ l - 1) (xs @ ys) = nd P l (n div 2 ^ l - 1) xs"
proof (rule node_append)
  assume "odd (n div 2 ^ l)" "n = length xs"
  moreover have "n div 2 ^ l * 2 ^ l \<le> n"
    by simp
  ultimately show "(n div 2 ^ l - 1 + 1) * 2 ^ l \<le> length xs"
    by (metis add_diff_cancel_right' odd_pos le_add_diff_inverse2 Suc_leI One_nat_def)
qed

lemma div_pow_Suc: "(n::nat) div 2 ^ Suc l = n div 2 ^ l div 2"
  by (simp only: power_Suc2 div_mult2_eq)

lemma node_Suc_odd:
  "odd (n div 2 ^ l) \<Longrightarrow>
   nd P (Suc l) (n div 2 ^ Suc l) xs = phash P (nd P l (n div 2 ^ l - 1) xs) (nd P l (n div 2 ^ l) xs)"
  unfolding div_pow_Suc by (auto elim!: oddE)

lemma node_Suc_even:
  "even (n div 2 ^ l) \<Longrightarrow>
   nd P (Suc l) (n div 2 ^ Suc l) xs = phash P (nd P l (n div 2 ^ l) xs) (nd P l (n div 2 ^ l + 1) xs)"
  unfolding div_pow_Suc by (auto elim!: evenE)

lemma div_pow_succ_cases:
  "Suc n div 2 ^ l = n div 2 ^ l \<or> Suc n div 2 ^ l = n div 2 ^ l + 1"
  by (cases "Suc n mod 2 ^ l = 0") (auto simp: div_Suc)

lemma insert_loop_spec:
  assumes "l + k = d" "length fr = d"
    and "\<forall>j. l \<le> j \<and> j < d \<longrightarrow> odd (length xs div 2 ^ j) \<longrightarrow> fr ! j = Some (nd P j (length xs div 2 ^ j - 1) xs)"
    and "\<forall>j < l. odd (Suc (length xs) div 2 ^ j) \<longrightarrow>
           fr ! j = Some (nd P j (Suc (length xs) div 2 ^ j - 1) (xs @ [x]))"
  shows "\<exists>fr'. insert_loop P (zero_roots P d) l k (nd P l (length xs div 2 ^ l) (xs @ [x]))
              (length xs div 2 ^ l) fr = Inr (fr', nd P d (length xs div 2 ^ d) (xs @ [x]))
      \<and> frontier_ok P d (xs @ [x]) fr'"
  using assms
proof (induction k arbitrary: l fr)
  case 0
  then show ?case
    by (simp add: frontier_ok_def)
next
  case (Suc k)
  let ?n = "length xs"
  have l: "l < d" and z: "zero_roots P d ! l = zero_roots P l ! l"
    using Suc.prems(1) zero_roots_nth [of l d P] by simp_all
  show ?case
  proof (cases "even (?n div 2 ^ l)")
    case True
    let ?fr = "fr[l := Some (nd P l (?n div 2 ^ l) (xs @ [x]))]"
    have next': "Suc ?n div 2 ^ l = ?n div 2 ^ l + 1" if "odd (Suc ?n div 2 ^ l)"
      using that True div_pow_succ_cases [of ?n l] by auto
    have below: "\<forall>j < Suc l. odd (Suc ?n div 2 ^ j) \<longrightarrow>
        ?fr ! j = Some (nd P j (Suc ?n div 2 ^ j - 1) (xs @ [x]))"
      using Suc.prems(2,4) l next' by (auto simp: less_Suc_eq nth_list_update)
    have above: "\<forall>j. Suc l \<le> j \<and> j < d \<longrightarrow> odd (?n div 2 ^ j) \<longrightarrow> ?fr ! j = Some (nd P j (?n div 2 ^ j - 1) xs)"
      using Suc.prems(3) by simp
    have cur: "phash P (nd P l (?n div 2 ^ l) (xs @ [x])) (zero_roots P d ! l)
        = nd P (Suc l) (?n div 2 ^ Suc l) (xs @ [x])"
      unfolding node_Suc_even [OF True] node_snoc_last z by (rule refl)
    show ?thesis
      using Suc.IH [of "Suc l" ?fr] Suc.prems(1,2) above below True cur
      by (simp add: div_pow_Suc del: zero_roots.simps node.simps power_Suc)
  next
    case False
    have left: "fr ! l = Some (nd P l (?n div 2 ^ l - 1) (xs @ [x]))"
      using Suc.prems(3) l False node_left_stable [of ?n l xs P "[x]"] by simp
    have same: "Suc ?n div 2 ^ l = ?n div 2 ^ l" if "odd (Suc ?n div 2 ^ l)"
      using that False div_pow_succ_cases [of ?n l] by auto
    have below: "\<forall>j < Suc l. odd (Suc ?n div 2 ^ j) \<longrightarrow>
        fr ! j = Some (nd P j (Suc ?n div 2 ^ j - 1) (xs @ [x]))"
      using Suc.prems(4) left same by (auto simp: less_Suc_eq)
    have cur: "phash P (nd P l (?n div 2 ^ l - 1) (xs @ [x])) (nd P l (?n div 2 ^ l) (xs @ [x]))
        = nd P (Suc l) (?n div 2 ^ Suc l) (xs @ [x])"
      by (rule node_Suc_odd [OF False, symmetric])
    show ?thesis
      using Suc.IH [of "Suc l" fr] Suc.prems(1,2,3) below False left cur
      by (simp add: div_pow_Suc del: zero_roots.simps node.simps power_Suc)
  qed
qed


lemma frontier_ok_new: "frontier_ok P d [] (replicate d None)"
  by (simp add: frontier_ok_def)

lemma mt_inv_new [keep]: "mt_inv P [] (MembersTree_new P d)"
  by (simp add: mt_inv_def MembersTree_new_def frontier_ok_new padded_root_Nil)

lemma parses_snoc: "parses P ss xs \<Longrightarrow> pelem P c = Some x \<Longrightarrow> parses P (ss @ [c]) (xs @ [x])"
  by (auto simp: parses_def mapE_Inr_iff field_elem_def list_all2_appendI)

lemma mt_inv_full: "mt_inv P xs t \<Longrightarrow> MembersTree_full t \<longleftrightarrow> length xs = 2 ^ mt_depth t"
  by (auto simp: mt_inv_def MembersTree_full_def MembersTree_capacity_def dest: parses_length)

lemma append_inv [keep]:
  assumes inv: "mt_inv P xs t" and room: "\<not> MembersTree_full t" and c: "pelem P c = Some x"
  shows "\<exists>t'. MembersTree_append P c t = Inr (length xs, t') \<and> mt_inv P (xs @ [x]) t'
       \<and> mt_commitments t' = mt_commitments t @ [c] \<and> mt_depth t' = mt_depth t"
proof -
  let ?d = "mt_depth t"
  have p: "parses P (mt_commitments t) xs" and len: "length (mt_commitments t) = length xs"
    and zs: "mt_zeros t = zero_roots P ?d" and fr: "frontier_ok P ?d xs (mt_frontier t)"
    using inv parses_length by (auto simp: mt_inv_def)
  have lt: "length xs < 2 ^ ?d"
    using room len by (simp add: MembersTree_full_def MembersTree_capacity_def)
  then have "length xs div 2 ^ ?d = 0"
    by simp
  moreover have "nd P 0 (length xs) (xs @ [x]) = x"
    by simp
  ultimately obtain fr' where
    ins: "insert_loop P (mt_zeros t) 0 ?d x (length xs) (mt_frontier t) = Inr (fr', padded_root P ?d (xs @ [x]))"
    and ok: "frontier_ok P ?d (xs @ [x]) fr'"
    using insert_loop_spec [of 0 ?d ?d "mt_frontier t" xs P x] fr zs
    by (auto simp: frontier_ok_def padded_root_def)
  let ?t = "t\<lparr>mt_commitments := mt_commitments t @ [c], mt_levels := None, mt_frontier := fr',
             mt_root := padded_root P ?d (xs @ [x])\<rparr>"
  have "mt_inv P (xs @ [x]) ?t"
    using parses_snoc [OF p c] lt zs ok by (simp add: mt_inv_def)
  moreover have "MembersTree_append P c t = Inr (length xs, ?t)"
    using room c ins len by (simp add: MembersTree_append_def field_elem_def)
  ultimately show ?thesis
    by auto
qed

subsection \<open>The rebuild agrees\<close>

text \<open>The stack for \<open>n\<close> leaves from level \<open>l\<close> on: one subtree per set bit of \<open>n\<close>.\<close>

definition bit_stack :: "'n poseidon \<Rightarrow> 'n list \<Rightarrow> nat \<Rightarrow> nat \<Rightarrow> (nat \<times> 'n) list" where
  "bit_stack P xs l d =
     [(j, nd P j (length xs div 2 ^ j - 1) xs). j \<leftarrow> [l..<Suc d], odd (length xs div 2 ^ j)]"

lemma bit_stack_step:
  "l \<le> d \<Longrightarrow> bit_stack P xs l d =
     (if odd (length xs div 2 ^ l) then [(l, nd P l (length xs div 2 ^ l - 1) xs)] else []) @ bit_stack P xs (Suc l) d"
  by (simp add: bit_stack_def upt_conv_Cons del: upt_Suc)

lemma bit_stack_levels: "e \<in> set (bit_stack P xs l d) \<Longrightarrow> l \<le> fst e"
  by (auto simp: bit_stack_def)

lemma bit_stack_past: "Suc d \<le> l \<Longrightarrow> bit_stack P xs l d = []"
  by (simp add: bit_stack_def)

lemma div_pow_stable_above:
  "even (n div 2 ^ l) \<Longrightarrow> l < j \<Longrightarrow> Suc n div 2 ^ j = n div 2 ^ j"
proof -
  assume ev: "even (n div 2 ^ l)" and "l < j"
  then obtain m where j: "j = Suc l + m"
    using less_iff_Suc_add by auto
  have "Suc n div 2 ^ Suc l = n div 2 ^ Suc l"
    using div_pow_succ_cases [of n l] ev unfolding div_pow_Suc by (auto elim!: evenE)
  then show ?thesis
    unfolding j power_add div_mult2_eq by simp
qed

lemma bit_stack_snoc_above:
  assumes "even (length xs div 2 ^ l)"
  shows "bit_stack P (xs @ [x]) (Suc l) d = bit_stack P xs (Suc l) d"
proof -
  have "Suc (length xs) div 2 ^ j = length xs div 2 ^ j" if "j \<in> set [Suc l..<Suc d]" for j
    using that div_pow_stable_above [OF assms, of j] by auto
  then have "bit_stack P (xs @ [x]) (Suc l) d =
     [(j, nd P j (length xs div 2 ^ j - 1) (xs @ [x])). j \<leftarrow> [Suc l..<Suc d], odd (length xs div 2 ^ j)]"
    unfolding bit_stack_def by (intro arg_cong [of _ _ concat] map_cong) auto
  also have "\<dots> = bit_stack P xs (Suc l) d"
  proof -
    have "(if odd (length xs div 2 ^ j) then [(j, nd P j (length xs div 2 ^ j - 1) (xs @ [x]))] else [])
        = (if odd (length xs div 2 ^ j) then [(j, nd P j (length xs div 2 ^ j - 1) xs)] else [])" for j
      using node_left_stable [of "length xs" j xs P "[x]"] by simp
    then show ?thesis
      unfolding bit_stack_def by (simp only:)
  qed
  finally show ?thesis .
qed

lemma bit_stack_low_clear:
  "(\<forall>j < l. even (length xs div 2 ^ j)) \<Longrightarrow> l \<le> Suc d \<Longrightarrow> bit_stack P xs 0 d = bit_stack P xs l d"
proof (induction l)
  case 0
  then show ?case by simp
next
  case (Suc l)
  then show ?case
    using bit_stack_step [of l d P xs] by simp
qed

lemma odd_low_bits: "\<forall>j < l. odd ((n::nat) div 2 ^ j) \<Longrightarrow> \<forall>j < l. even (Suc n div 2 ^ j)"
proof (induction l)
  case 0
  then show ?case by simp
next
  case (Suc l)
  have all: "Suc n div 2 ^ j = n div 2 ^ j + 1" if "j \<le> l" for j
    using that
  proof (induction j)
    case 0
    then show ?case by simp
  next
    case (Suc j)
    then have "odd (n div 2 ^ j)"
      using Suc.prems \<open>\<forall>j < Suc l. odd (n div 2 ^ j)\<close> by simp
    then show ?case
      using Suc unfolding div_pow_Suc by (auto elim!: oddE)
  qed
  then show ?case
    using Suc by auto
qed

lemma carry_spec:
  assumes "l \<le> d" "\<forall>j < l. odd (length xs div 2 ^ j)" "length xs < 2 ^ d"
  shows "carry P l (nd P l (length xs div 2 ^ l) (xs @ [x])) (bit_stack P xs l d) = bit_stack P (xs @ [x]) 0 d"
  using assms
proof (induction "d - l" arbitrary: l rule: less_induct)
  case less
  let ?n = "length xs"
  show ?case
  proof (cases "odd (?n div 2 ^ l)")
    case True
    then have "l < d"
      using less.prems by (metis div_less dvd_0_right le_neq_implies_less)
    have stack: "bit_stack P xs l d = (l, nd P l (?n div 2 ^ l - 1) (xs @ [x])) # bit_stack P xs (Suc l) d"
      using True less.prems(1) bit_stack_step [of l d P xs] node_left_stable [of ?n l xs P "[x]"] by simp
    have low: "\<forall>j < Suc l. odd (?n div 2 ^ j)"
      using less.prems(2) True by (simp add: less_Suc_eq)
    show ?thesis
      using less.hyps [of "Suc l"] \<open>l < d\<close> low less.prems(3) node_Suc_odd [OF True, of P "xs @ [x]"]
      by (simp add: stack del: node.simps power_Suc)
  next
    case False
    then have ev: "even (?n div 2 ^ l)" by simp
    have clear: "\<forall>j < l. even (Suc ?n div 2 ^ j)"
      using odd_low_bits [OF less.prems(2)] .
    have up: "Suc ?n div 2 ^ l = ?n div 2 ^ l + 1"
    proof (cases l)
      case 0
      then show ?thesis by simp
    next
      case (Suc m)
      then have "odd (?n div 2 ^ m)" "even (Suc ?n div 2 ^ m)"
        using less.prems(2) clear by simp_all
      then show ?thesis
        using div_pow_succ_cases [of ?n m] unfolding Suc div_pow_Suc by (auto elim!: oddE)
    qed
    have "bit_stack P (xs @ [x]) 0 d = bit_stack P (xs @ [x]) l d"
      using bit_stack_low_clear [of l "xs @ [x]" d P] clear less.prems(1) by simp
    also have "\<dots> = (l, nd P l (?n div 2 ^ l) (xs @ [x])) # bit_stack P xs (Suc l) d"
      using bit_stack_step [OF less.prems(1), of P "xs @ [x]"] bit_stack_snoc_above [OF ev, of P x d] up ev
      by simp
    finally have goal: "bit_stack P (xs @ [x]) 0 d =
        (l, nd P l (?n div 2 ^ l) (xs @ [x])) # bit_stack P xs (Suc l) d" .
    have stack: "bit_stack P xs l d = bit_stack P xs (Suc l) d"
      using ev less.prems(1) bit_stack_step [of l d P xs] by simp
    show ?thesis
    proof (cases "bit_stack P xs (Suc l) d")
      case Nil
      then show ?thesis
        by (simp add: stack goal)
    next
      case (Cons e st)
      then have "l < fst e"
        using bit_stack_levels [of e P xs "Suc l" d] by auto
      then show ?thesis
        using Cons by (cases e) (simp add: stack goal)
    qed
  qed
qed

lemma carry_stack_spec: "length xs \<le> 2 ^ d \<Longrightarrow> carry_stack P xs = bit_stack P xs 0 d"
proof (induction xs rule: rev_induct)
  case Nil
  then show ?case
    by (simp add: carry_stack_def bit_stack_def)
next
  case (snoc x xs)
  then show ?case
    using carry_spec [of 0 d xs P x] by (simp add: carry_stack_def)
qed


lemma map_fst_bit_stack: "map fst (bit_stack P xs l d) = filter (\<lambda>j. odd (length xs div 2 ^ j)) [l..<Suc d]"
proof -
  have "map fst (concat (map (\<lambda>j. if Q j then [(j, f j)] else []) js)) = filter Q js"
    for Q and f :: "nat \<Rightarrow> 'a" and js
    by (induction js) auto
  then show ?thesis
    by (simp only: bit_stack_def)
qed

lemma stack_frontier_Cons:
  "stack_frontier d (e # st) =
     (if fst e < d then (stack_frontier d st)[fst e := Some (snd e)] else stack_frontier d st)"
  by (simp add: stack_frontier_def case_prod_unfold)

lemma length_stack_frontier [simp]: "length (stack_frontier d st) = d"
proof (induction st)
  case Nil
  then show ?case by (simp add: stack_frontier_def)
next
  case (Cons e st)
  then show ?case by (simp add: stack_frontier_Cons)
qed

lemma stack_frontier_nth:
  "distinct (map fst st) \<Longrightarrow> (l, x) \<in> set st \<Longrightarrow> l < d \<Longrightarrow> stack_frontier d st ! l = Some x"
proof (induction st)
  case Nil
  then show ?case by simp
next
  case (Cons e st)
  then show ?case
    by (cases e; cases "fst e = l") (auto simp: stack_frontier_Cons nth_list_update rev_image_eqI)
qed

lemma stack_frontier_ok: "frontier_ok P d xs (stack_frontier d (bit_stack P xs 0 d))"
proof -
  have "distinct (map fst (bit_stack P xs 0 d))"
    by (simp add: map_fst_bit_stack)
  moreover have "(l, nd P l (length xs div 2 ^ l - 1) xs) \<in> set (bit_stack P xs 0 d)"
    if "l < d" "odd (length xs div 2 ^ l)" for l
    using that by (auto simp: bit_stack_def)
  ultimately show ?thesis
    by (simp add: frontier_ok_def stack_frontier_nth)
qed

lemma node_next_zero: "nd P l (length xs div 2 ^ l + 1) xs = zero_roots P l ! l"
proof (rule node_past_end)
  have "length xs < (length xs div 2 ^ l + 1) * 2 ^ l"
    by (metis Suc_eq_plus1 dividend_less_div_times mult_Suc zero_less_numeral zero_less_power)
  then show "length xs \<le> (length xs div 2 ^ l + 1) * 2 ^ l"
    by simp
qed

lemma root_fold_spec:
  "frontier_ok P d xs fr \<Longrightarrow> l + k = d \<Longrightarrow>
   root_fold P (zero_roots P d) fr (length xs) l k (nd P l (length xs div 2 ^ l) xs)
     = Inr (nd P d (length xs div 2 ^ d) xs)"
proof (induction k arbitrary: l)
  case 0
  then show ?case by simp
next
  case (Suc k)
  have z: "zero_roots P d ! l = zero_roots P l ! l"
    using Suc.prems zero_roots_nth [of l d P] by simp
  show ?case
  proof (cases "odd (length xs div 2 ^ l)")
    case True
    have "fr ! l = Some (nd P l (length xs div 2 ^ l - 1) xs)"
      using True Suc.prems by (simp add: frontier_ok_def)
    then show ?thesis
      using Suc.IH [of "Suc l"] Suc.prems True node_Suc_odd [OF True, of P xs]
      by (simp del: node.simps power_Suc)
  next
    case False
    have "phash P (nd P l (length xs div 2 ^ l) xs) (zero_roots P d ! l) = nd P (Suc l) (length xs div 2 ^ Suc l) xs"
      using False node_Suc_even [of "length xs" l P xs] unfolding z node_next_zero by simp
    then show ?thesis
      using Suc.IH [of "Suc l"] Suc.prems False by (simp del: node.simps power_Suc)
  qed
qed

lemma bit_stack_full: "length xs = 2 ^ d \<Longrightarrow> bit_stack P xs 0 d = [(d, padded_root P d xs)]"
proof -
  assume n: "length xs = 2 ^ d"
  have "\<forall>j < d. even (length xs div 2 ^ j)"
    by (simp add: n power_diff [symmetric])
  then have "bit_stack P xs 0 d = bit_stack P xs d d"
    by (intro bit_stack_low_clear) simp_all
  then show ?thesis
    using bit_stack_step [of d d P xs] by (simp add: n bit_stack_past padded_root_def)
qed

lemma fromCommitments_inv [keep]:
  assumes p: "parses P cs xs" and len: "length xs \<le> 2 ^ d"
  shows "\<exists>t. fromCommitments P cs d = Inr t \<and> mt_inv P xs t \<and> mt_commitments t = cs \<and> mt_depth t = d"
proof -
  let ?fr = "stack_frontier d (bit_stack P xs 0 d)"
  have n: "length cs = length xs"
    by (rule parses_length [OF p])
  have root: "(if length xs = 2 ^ d then Inr (snd (last (bit_stack P xs 0 d)))
         else root_fold P (zero_roots P d) ?fr (length xs) 0 d (pzero P))
      = Inr (padded_root P d xs)"
  proof (cases "length xs = 2 ^ d")
    case True
    then show ?thesis
      using n bit_stack_full [OF True] by simp
  next
    case False
    then have "length xs div 2 ^ d = 0"
      using len by simp
    then show ?thesis
      using False n root_fold_spec [where l = 0 and k = d and d = d and P = P and xs = xs, OF stack_frontier_ok]
      by (simp add: padded_root_def)
  qed
  have "fromCommitments P cs d = Inr (MembersTree_new P d
      \<lparr>mt_commitments := cs, mt_frontier := ?fr, mt_root := padded_root P d xs\<rparr>)"
    using p n len root
    by (cases "length xs = 2 ^ d")
      (simp_all add: fromCommitments_def MembersTree_new_def MembersTree_capacity_def parses_def
        carry_stack_spec [OF len] Let_def)
  then show ?thesis
    using p len stack_frontier_ok [of P d xs] by (simp add: MembersTree_new_def mt_inv_def)
qed

subsection \<open>The full build\<close>

lemma pair_level_map:
  "pair_level h z (map f [0..<2 ^ Suc m]) = map (\<lambda>k. h (f (2 * k)) (f (2 * k + 1))) [0..<2 ^ m]"
proof (rule nth_equalityI)
  show len: "length (pair_level h z (map f [0..<2 ^ Suc m]))
      = length (map (\<lambda>k. h (f (2 * k)) (f (2 * k + 1))) [0..<2 ^ m])"
    by (simp add: length_pair_level)
  show "pair_level h z (map f [0..<2 ^ Suc m]) ! i = map (\<lambda>k. h (f (2 * k)) (f (2 * k + 1))) [0..<2 ^ m] ! i"
    if "i < length (pair_level h z (map f [0..<2 ^ Suc m]))" for i
  proof -
    have "i < 2 ^ m"
      using that len by simp
    then show ?thesis
      using nth_pair_level [OF that] by (simp add: getz_def)
  qed
qed

lemma levels_from_spec:
  "levels_from (phash P) (pzero P) (map (\<lambda>k. nd P l k xs) [0..<2 ^ m])
     = map (\<lambda>j. map (\<lambda>k. nd P (l + j) k xs) [0..<2 ^ (m - j)]) [0..<Suc m]"
proof (induction m arbitrary: l)
  case 0
  then show ?case by (simp add: levels_from.simps)
next
  case (Suc m)
  have "(1::nat) < 2 ^ Suc m"
    by (rule one_less_power) simp_all
  then have "levels_from (phash P) (pzero P) (map (\<lambda>k. nd P l k xs) [0..<2 ^ Suc m])
      = map (\<lambda>k. nd P l k xs) [0..<2 ^ Suc m]
        # levels_from (phash P) (pzero P) (map (\<lambda>k. nd P (Suc l) k xs) [0..<2 ^ m])"
    by (subst levels_from.simps) (simp add: pair_level_map del: power_Suc upt_Suc)
  also have "\<dots> = map (\<lambda>j. map (\<lambda>k. nd P (l + j) k xs) [0..<2 ^ (Suc m - j)]) [0..<Suc (Suc m)]"
    unfolding Suc.IH by (simp add: upt_conv_Cons map_Suc_upt [symmetric] del: upt_Suc node.simps power_Suc)
  finally show ?case .
qed

lemma padded_leaves:
  "length xs \<le> n \<Longrightarrow> xs @ replicate (n - length xs) z = map (\<lambda>k. node h z 0 k xs) [0..<n]"
  by (rule nth_equalityI) (auto simp: nth_append)

lemma full_levels_spec:
  "length xs \<le> 2 ^ d \<Longrightarrow>
   full_levels P d xs = map (\<lambda>l. map (\<lambda>k. nd P l k xs) [0..<2 ^ (d - l)]) [0..<Suc d]"
  using levels_from_spec [of P 0 xs d]
  unfolding full_levels_def padded_leaves [of xs "2 ^ d" "pzero P" "phash P"] by simp

lemma levels_inv [keep]:
  assumes "mt_inv P xs t"
  shows "\<exists>t'. MembersTree_levels P t = Inr (full_levels P (mt_depth t) xs, t') \<and> mt_inv P xs t'"
  using assms
  by (cases "mt_levels t")
    (auto simp: MembersTree_levels_def mt_inv_def parses_def full_levels_def MembersTree_capacity_def Let_def)

lemma path_from_levels_spec:
  "l + k \<le> d \<Longrightarrow> idx < 2 ^ (d - l) \<Longrightarrow> length xs \<le> 2 ^ d \<Longrightarrow>
   path_from_levels P (full_levels P d xs) l k idx =
     (map (pstr P) (siblings P xs l idx k), index_bits idx k)"
proof (induction k arbitrary: l idx)
  case 0
  then show ?case by simp
next
  case (Suc k)
  have half: "(2 :: nat) ^ (d - l) = 2 * 2 ^ (d - Suc l)"
    using Suc.prems(1) by (simp add: Suc_diff_Suc flip: power_Suc)
  have sib: "sibling idx < 2 ^ (d - l)"
    using Suc.prems(2) unfolding half by (cases "even idx") (auto simp: sibling_def elim!: evenE)
  then have "full_levels P d xs ! l ! sibling idx = nd P l (sibling idx) xs"
    using Suc.prems by (simp add: full_levels_spec nth_append del: upt_Suc node.simps)
  moreover have "idx div 2 < 2 ^ (d - Suc l)"
    using Suc.prems(2) unfolding half by simp
  ultimately show ?case
    using Suc.IH [of "Suc l" "idx div 2"] Suc.prems by simp
qed


subsection \<open>Sequences of appends\<close>

fun append_all :: "'n poseidon \<Rightarrow> string list \<Rightarrow> 'n members_tree \<Rightarrow> merkle_error + 'n members_tree" where
  "append_all P [] t = Inr t"
| "append_all P (c # cs) t = bindE (MembersTree_append P c t) (\<lambda>(_, t'). append_all P cs t')"

lemma append_all_inv [keep]:
  assumes "mt_inv P xs t" "parses P cs ys" "length xs + length ys \<le> 2 ^ mt_depth t"
  shows "\<exists>t'. append_all P cs t = Inr t' \<and> mt_inv P (xs @ ys) t'
       \<and> mt_commitments t' = mt_commitments t @ cs \<and> mt_depth t' = mt_depth t"
  using assms
proof (induction cs arbitrary: xs ys t)
  case Nil
  then show ?case by simp
next
  case (Cons c cs)
  obtain x ys' where ys: "ys = x # ys'" and c: "pelem P c = Some x" and p: "parses P cs ys'"
    using Cons.prems(2) by (auto simp: parses_def field_elem_def bindE_Inr split: option.splits)
  have "\<not> MembersTree_full t"
    using Cons.prems(1,3) ys by (simp add: mt_inv_full)
  then obtain t1 where t1: "MembersTree_append P c t = Inr (length xs, t1)" "mt_inv P (xs @ [x]) t1"
      "mt_commitments t1 = mt_commitments t @ [c]" "mt_depth t1 = mt_depth t"
    using append_inv [OF Cons.prems(1) _ c] by blast
  show ?case
    using Cons.IH [OF t1(2) p] Cons.prems(3) t1 ys by simp
qed

lemma mt_inv_root: "mt_inv P xs t \<Longrightarrow> MembersTree_root P t = pstr P (padded_root P (mt_depth t) xs)"
  by (simp add: mt_inv_def MembersTree_root_def)

lemma mt_inv_rootFromLeaves:
  "mt_inv P xs t \<Longrightarrow> rootFromLeaves P (mt_depth t) (mt_commitments t) = Inr (MembersTree_root P t)"
  using rootFromLeaves_padded by (auto simp: mt_inv_def MembersTree_root_def)

lemma mt_inv_full_build:
  assumes "mt_inv P xs t"
  shows "rootFromFullBuild P t = Inr (MembersTree_root P t)"
proof -
  let ?d = "mt_depth t"
  have "length xs \<le> 2 ^ ?d"
    using assms by (simp add: mt_inv_def)
  then have "last (full_levels P ?d xs) ! 0 = padded_root P ?d xs"
    by (simp add: full_levels_spec padded_root_def)
  then show ?thesis
    using levels_inv [OF assms] assms by (auto simp: rootFromFullBuild_def mt_inv_root)
qed

lemma fromCommitments_result:
  assumes "fromCommitments P cs d = Inr t"
  obtains xs where "parses P cs xs" "length xs \<le> 2 ^ d" "mt_inv P xs t" "mt_commitments t = cs" "mt_depth t = d"
proof -
  obtain xs where xs: "parses P cs xs" "length cs \<le> 2 ^ d"
    using assms by (auto simp: fromCommitments_def MembersTree_new_def MembersTree_capacity_def
        parses_def bindE_Inr Let_def split: if_splits)
  then have "length xs \<le> 2 ^ d"
    using parses_length [OF xs(1)] by simp
  then obtain t' where "fromCommitments P cs d = Inr t'" "mt_inv P xs t'" "mt_commitments t' = cs" "mt_depth t' = d"
    using fromCommitments_inv [OF xs(1)] by blast
  then show ?thesis
    using that [of xs] xs(1) assms \<open>length xs \<le> 2 ^ d\<close> by simp
qed

subsection \<open>Properties\<close>

text \<open>C38: the four ways the code has to a members root agree. Appending commitments one at a time,
  rebuilding from the list with the carry stack, the full padded build, and the sparse root of
  \<open>dml_root.js\<close> give the same root, for any list that fits and any hash.\<close>

theorem members_roots_agree:
  assumes "mapE (field_elem P) cs = Inr xs" "length cs \<le> 2 ^ d"
  shows "\<exists>t u. append_all P cs (MembersTree_new P d) = Inr t \<and> fromCommitments P cs d = Inr u
    \<and> mt_commitments t = cs \<and> mt_commitments u = cs
    \<and> MembersTree_root P t = MembersTree_root P u
    \<and> rootFromFullBuild P t = Inr (MembersTree_root P t)
    \<and> rootFromFullBuild P u = Inr (MembersTree_root P t)
    \<and> rootFromLeaves P d cs = Inr (MembersTree_root P t)"
proof -
  have p: "parses P cs xs" and len: "length xs \<le> 2 ^ d"
    using assms mapE_length [OF assms(1)] by (simp_all add: parses_def)
  obtain t where t: "append_all P cs (MembersTree_new P d) = Inr t" "mt_inv P xs t"
      "mt_commitments t = cs" "mt_depth t = d"
    using append_all_inv [OF mt_inv_new p, of d] len by (auto simp: MembersTree_new_def)
  obtain u where u: "fromCommitments P cs d = Inr u" "mt_inv P xs u" "mt_commitments u = cs" "mt_depth u = d"
    using fromCommitments_inv [OF p len] by blast
  show ?thesis
    using t u mt_inv_root [OF t(2)] mt_inv_root [OF u(2)] mt_inv_full_build [OF t(2)]
      mt_inv_full_build [OF u(2)] mt_inv_rootFromLeaves [OF t(2)] by simp
qed

theorem members_roots_agree_witness:
  "\<exists>t u. append_all demo_hasher (map dec_of_nat [5, 7, 9]) (MembersTree_new demo_hasher 2) = Inr t
    \<and> fromCommitments demo_hasher (map dec_of_nat [5, 7, 9]) 2 = Inr u
    \<and> MembersTree_root demo_hasher t = MembersTree_root demo_hasher u"
  using members_roots_agree [OF demo_parses [of "[5, 7, 9]"], of 2] by auto

text \<open>A restart is transparent. A tree rebuilt from its commitments accepts exactly the appends
  the running tree accepts: after one more commitment it has the position, the list and the root
  that a rebuild of the longer list has.\<close>

lemma rebuild_then_append:
  assumes "fromCommitments P cs d = Inr t" "MembersTree_append P c t = Inr (i, t')"
  shows "i = length cs \<and> (\<exists>u. fromCommitments P (cs @ [c]) d = Inr u
    \<and> MembersTree_root P t' = MembersTree_root P u \<and> mt_commitments t' = mt_commitments u)"
proof -
  obtain xs where xs: "parses P cs xs" "mt_inv P xs t" "mt_commitments t = cs" "mt_depth t = d"
    using fromCommitments_result [OF assms(1)] by metis
  have room: "\<not> MembersTree_full t"
    using assms(2) by (auto simp: MembersTree_append_def split: if_splits)
  obtain x where x: "pelem P c = Some x"
    using assms(2) room by (auto simp: MembersTree_append_def field_elem_def split: option.splits)
  obtain t1 where t1: "MembersTree_append P c t = Inr (length xs, t1)" "mt_inv P (xs @ [x]) t1"
      "mt_commitments t1 = cs @ [c]" "mt_depth t1 = d"
    using append_inv [OF xs(2) room x] xs by auto
  have p: "parses P (cs @ [c]) (xs @ [x])" and fits: "length (xs @ [x]) \<le> 2 ^ d"
    using t1 by (simp_all add: mt_inv_def)
  obtain u where u: "fromCommitments P (cs @ [c]) d = Inr u" "mt_inv P (xs @ [x]) u"
      "mt_commitments u = cs @ [c]" "mt_depth u = d"
    using fromCommitments_inv [OF p fits] by blast
  show ?thesis
    using assms(2) t1 u parses_length [OF xs(1)] mt_inv_root [OF t1(2)] mt_inv_root [OF u(2)] by simp
qed

theorem rebuild_then_append_witness:
  "\<exists>t t'. fromCommitments demo_hasher (map dec_of_nat [5, 7, 9]) 2 = Inr t
    \<and> MembersTree_append demo_hasher ''4'' t = Inr (3, t')
    \<and> (\<exists>u. fromCommitments demo_hasher (map dec_of_nat [5, 7, 9] @ [''4'']) 2 = Inr u
         \<and> MembersTree_root demo_hasher t' = MembersTree_root demo_hasher u)"
proof -
  have p: "parses demo_hasher (map dec_of_nat [5, 7, 9]) [5, 7, 9]"
    unfolding parses_def by (rule demo_parses)
  obtain t where t: "fromCommitments demo_hasher (map dec_of_nat [5, 7, 9]) 2 = Inr t"
      "mt_inv demo_hasher [5, 7, 9] t" "mt_depth t = 2"
    using fromCommitments_inv [OF p, of 2] by auto
  have "pelem demo_hasher ''4'' = Some 4"
    by code_simp
  moreover have "\<not> MembersTree_full t"
    using mt_inv_full [OF t(2)] t(3) by simp
  ultimately obtain t' where t': "MembersTree_append demo_hasher ''4'' t = Inr (3, t')"
    using append_inv [OF t(2)] by fastforce
  show ?thesis
    using rebuild_then_append [OF t(1) t'] t t' by blast
qed

text \<open>Appending to a tree built by the code has three outcomes and no other. A full tree and a
  commitment that is not an integer are refused with that error, before anything changed;
  otherwise the commitment is stored at the next position. In particular the hash is never handed
  a missing frontier entry.\<close>

lemma append_outcomes:
  assumes "fromCommitments P cs d = Inr t"
  shows "if length cs = 2 ^ d then MembersTree_append P c t = Inl (TreeFull (2 ^ d) d)
    else if pelem P c = None then MembersTree_append P c t = Inl (NotAnInteger c)
    else \<exists>t'. MembersTree_append P c t = Inr (length cs, t') \<and> mt_commitments t' = cs @ [c]"
proof -
  obtain xs where xs: "parses P cs xs" "mt_inv P xs t" "mt_commitments t = cs" "mt_depth t = d"
    using fromCommitments_result [OF assms] by metis
  have full: "MembersTree_full t \<longleftrightarrow> length cs = 2 ^ d"
    using mt_inv_full [OF xs(2)] xs parses_length [OF xs(1)] by simp
  show ?thesis
  proof (cases "length cs \<noteq> 2 ^ d \<and> pelem P c \<noteq> None")
    case True
    then show ?thesis
      using append_inv [OF xs(2), of c] xs full parses_length [OF xs(1)] by auto
  next
    case False
    then show ?thesis
      using xs full by (auto simp: MembersTree_append_def MembersTree_capacity_def field_elem_def)
  qed
qed

theorem append_outcomes_witness:
  "MembersTree_append demo_hasher ''4'' (MembersTree_new demo_hasher 0\<lparr>mt_commitments := [''3''], mt_root := 3\<rparr>)
     = Inl (TreeFull 1 0)"
proof -
  have "fromCommitments demo_hasher [''3''] 0 = Inr (MembersTree_new demo_hasher 0\<lparr>mt_commitments := [''3''], mt_root := 3\<rparr>)"
    by code_simp
  from append_outcomes [OF this, of "''4''"] show ?thesis
    by simp
qed

text \<open>The sibling path a tree hands out for a stored commitment is the path the prover builds for
  itself from the commitment list, so it folds to the tree's root.\<close>

lemma pathFor_agrees:
  assumes "fromCommitments P cs d = Inr t" "i < length cs"
  shows "\<exists>es is. MembersTree_pathFor P i t = Inr (es, is)
    \<and> merklePathFor P cs (int i) d
        = Inr \<lparr>pathElements = es, pathIndices = is, path_root = MembersTree_root P t\<rparr>"
proof -
  obtain xs where xs: "parses P cs xs" "length xs \<le> 2 ^ d" "mt_inv P xs t" "mt_commitments t = cs" "mt_depth t = d"
    using fromCommitments_result [OF assms(1)] by metis
  have i: "i < length xs"
    using assms(2) parses_length [OF xs(1)] by simp
  have path: "path_from_levels P (full_levels P d xs) 0 d i = (map (pstr P) (siblings P xs 0 i d), index_bits i d)"
    using path_from_levels_spec [of 0 d d i xs P] i xs(2) by simp
  have "\<not> 2 ^ d \<le> i"
    using i xs(2) by simp
  then have "MembersTree_pathFor P i t = Inr (map (pstr P) (siblings P xs 0 i d), index_bits i d)"
    using levels_inv [OF xs(3)] xs(5) path by (auto simp: MembersTree_pathFor_def MembersTree_capacity_def)
  then show ?thesis
    using merklePathFor_eq [OF xs(1,2) i] mt_inv_root [OF xs(3)] xs(5) by simp
qed

theorem pathFor_agrees_witness:
  "\<exists>t es is. fromCommitments demo_hasher (map dec_of_nat [5, 7, 9]) 2 = Inr t
    \<and> MembersTree_pathFor demo_hasher 2 t = Inr (es, is)"
proof -
  have "parses demo_hasher (map dec_of_nat [5, 7, 9]) [5, 7, 9]"
    unfolding parses_def by (rule demo_parses)
  then obtain t where t: "fromCommitments demo_hasher (map dec_of_nat [5, 7, 9]) 2 = Inr t"
    using fromCommitments_inv [of demo_hasher _ "[5, 7, 9]" 2] by auto
  then show ?thesis
    using pathFor_agrees [OF t, of 2] by auto
qed

end
