(* ===== verification/Sha_Roots.thy ===== *)
theory Sha_Roots
  imports Merkle_Roots
begin

section \<open>The SHA-256 tree over key ids\<close>

text \<open>
  \<open>common/dml_sha_root.js\<close>: the second root the oracle publishes, over 20-byte key ids with
  domain-separated leaf and node hashes. Bytes are numbers below 256, the digest function
  \<open>sha\<close> is an argument. The tree loop is the one of \<open>dml_root.js\<close>, so the definitions reuse
  \<open>pair_level\<close> and \<open>climb\<close> at the hasher \<open>sha_hasher\<close>.
\<close>

type_synonym bytes = "nat list"

definition leafHash :: "(bytes \<Rightarrow> bytes) \<Rightarrow> bytes \<Rightarrow> bytes" where
  "leafHash sha keyId20 = sha (0 # keyId20)"

definition nodeHash :: "(bytes \<Rightarrow> bytes) \<Rightarrow> bytes \<Rightarrow> bytes \<Rightarrow> bytes" where
  "nodeHash sha left right = sha (1 # left @ right)"

definition hex_of_bytes :: "bytes \<Rightarrow> string" where
  "hex_of_bytes bs = concat (map (\<lambda>b. [hex_char (b div 16), hex_char (b mod 16)]) bs)"

definition sha_hasher :: "(bytes \<Rightarrow> bytes) \<Rightarrow> bytes poseidon" where
  "sha_hasher sha = \<lparr>phash = nodeHash sha, pzero = leafHash sha (replicate 20 0),
     pelem = (\<lambda>_. None), pstr = hex_of_bytes\<rparr>"

datatype key_error = LeafExceeds20Bytes nat | NotDecimal string | TooManyLeaves nat nat

definition rootFromKeyIds :: "(bytes \<Rightarrow> bytes) \<Rightarrow> nat \<Rightarrow> bytes list \<Rightarrow> key_error + string" where
  "rootFromKeyIds sha depth keyIds =
     (let P = sha_hasher sha; zero = zero_roots P depth in
      if length keyIds > 2 ^ depth then Inl (TooManyLeaves (length keyIds) (2 ^ depth))
      else if keyIds = [] then Inr (hex_of_bytes (zero ! depth))
      else Inr (hex_of_bytes (climb (nodeHash sha) zero 0 depth (map (leafHash sha) keyIds) ! 0)))"

subsection \<open>A leaf value and its key id\<close>

fun hex_of_nat :: "nat \<Rightarrow> string" where
  "hex_of_nat n = (if n < 16 then [hex_char n] else hex_of_nat (n div 16) @ [hex_char (n mod 16)])"

declare hex_of_nat.simps [simp del]

definition padStart :: "nat \<Rightarrow> char \<Rightarrow> string \<Rightarrow> string" where
  "padStart n c s = replicate (n - length s) c @ s"

definition hex_val :: "char \<Rightarrow> nat" where
  "hex_val c = (let n = of_char c in if n < 58 then n - 48 else n - 87)"

fun bytes_of_hex :: "string \<Rightarrow> bytes" where
  "bytes_of_hex (a # b # r) = (16 * hex_val a + hex_val b) # bytes_of_hex r"
| "bytes_of_hex _ = []"

definition leafToKeyId :: "nat \<Rightarrow> key_error + bytes" where
  "leafToKeyId leaf =
     (let hex = padStart 40 (hex_char 0) (hex_of_nat leaf) in
      if length hex \<noteq> 40 then Inl (LeafExceeds20Bytes leaf) else Inr (bytes_of_hex hex))"

text \<open>\<open>BigInt(s)\<close> on a string of digits (the empty string is zero); other spellings are refused here.\<close>

definition leaf_value :: "string \<Rightarrow> key_error + nat" where
  "leaf_value s = (if list_all is_digit s then Inr (nat_of_dec s) else Inl (NotDecimal s))"

definition shaRootFromLeaves :: "(bytes \<Rightarrow> bytes) \<Rightarrow> nat \<Rightarrow> string list \<Rightarrow> key_error + string" where
  "shaRootFromLeaves sha depth leaves =
     bindE (mapE (\<lambda>l. bindE (leaf_value l) leafToKeyId) leaves) (rootFromKeyIds sha depth)"

subsection \<open>Lemmas\<close>

definition val16 :: "nat \<Rightarrow> string \<Rightarrow> nat" where
  "val16 a s = foldl (\<lambda>a c. 16 * a + hex_val c) a s"

definition val256 :: "nat \<Rightarrow> bytes \<Rightarrow> nat" where
  "val256 a bs = foldl (\<lambda>a b. 256 * a + b) a bs"

lemma hex_val_hex_char [simp]: "d < 16 \<Longrightarrow> hex_val (hex_char d) = d"
  by (auto simp: hex_val_def hex_char_def Let_def)

lemma val16_Nil [simp]: "val16 a [] = a"
  by (simp add: val16_def)

lemma val16_snoc [simp]: "val16 a (s @ [c]) = 16 * val16 a s + hex_val c"
  by (simp add: val16_def)

lemma val16_append: "val16 a (s @ t) = val16 (val16 a s) t"
  by (simp add: val16_def)

lemma val16_hex_of_nat [simp]: "val16 0 (hex_of_nat n) = n"
proof (induction n rule: hex_of_nat.induct)
  case (1 n)
  show ?case
  proof (cases "n < 16")
    case True
    then show ?thesis
      by (simp add: hex_of_nat.simps [of n] val16_def)
  next
    case False
    then show ?thesis
      using 1 by (simp add: hex_of_nat.simps [of n])
  qed
qed

lemma val16_zeros: "val16 0 (replicate k (hex_char 0)) = 0"
  by (induction k) (simp_all add: val16_def)

lemma val256_bytes_of_hex: "even (length s) \<Longrightarrow> val256 a (bytes_of_hex s) = val16 a s"
proof (induction s arbitrary: a rule: bytes_of_hex.induct)
  case (1 x y r)
  then show ?case
    by (simp add: val256_def val16_def algebra_simps)
qed (simp_all add: val256_def val16_def)

lemma length_bytes_of_hex: "length (bytes_of_hex s) = length s div 2"
  by (induction s rule: bytes_of_hex.induct) auto

lemma hex_of_nat_length: "0 < k \<Longrightarrow> length (hex_of_nat n) \<le> k \<longleftrightarrow> n < 16 ^ k"
proof (induction n arbitrary: k rule: hex_of_nat.induct)
  case (1 n)
  show ?case
  proof (cases "n < 16")
    case True
    have "(16::nat) ^ 1 \<le> 16 ^ k"
      using "1.prems" by (intro power_increasing) simp_all
    then show ?thesis
      using True "1.prems" by (simp add: hex_of_nat.simps [of n])
  next
    case False
    then have len: "length (hex_of_nat n) = Suc (length (hex_of_nat (n div 16)))"
      by (simp add: hex_of_nat.simps [of n])
    obtain m where k: "k = Suc m"
      using "1.prems" by (cases k) auto
    show ?thesis
    proof (cases "m = 0")
      case True
      then show ?thesis
        using False len k by (simp add: hex_of_nat.simps [of "n div 16"])
    next
      case nz: False
      then show ?thesis
        using "1.IH" [OF False, of m] len k by (simp add: less_mult_imp_div_less div_less_iff_less_mult mult.commute)
    qed
  qed
qed

lemma bytes_of_hex_bound:
  "(\<forall>c \<in> set s. hex_val c < 16) \<Longrightarrow> \<forall>b \<in> set (bytes_of_hex s). b < 256"
  by (induction s rule: bytes_of_hex.induct) auto

lemma hex_of_nat_chars: "c \<in> set (hex_of_nat n) \<Longrightarrow> hex_val c < 16"
proof (induction n rule: hex_of_nat.induct)
  case (1 n)
  then show ?case
    by (cases "n < 16") (auto simp: hex_of_nat.simps [of n])
qed

lemma leafToKeyId_ok:
  assumes "n < 16 ^ 40"
  shows "\<exists>k. leafToKeyId n = Inr k \<and> length k = 20 \<and> val256 0 k = n \<and> (\<forall>b \<in> set k. b < 256)"
proof -
  let ?h = "padStart 40 (hex_char 0) (hex_of_nat n)"
  have len: "length ?h = 40"
    using assms hex_of_nat_length [of 40 n] by (simp add: padStart_def)
  moreover have "val16 0 ?h = n"
    by (simp add: padStart_def val16_append val16_zeros)
  moreover have "\<forall>c \<in> set ?h. hex_val c < 16"
    using hex_of_nat_chars by (auto simp: padStart_def)
  ultimately show ?thesis
    using val256_bytes_of_hex [of ?h 0] bytes_of_hex_bound [of ?h]
    by (simp add: leafToKeyId_def length_bytes_of_hex)
qed

lemma leafToKeyId_too_big: "\<not> n < 16 ^ 40 \<Longrightarrow> leafToKeyId n = Inl (LeafExceeds20Bytes n)"
  using hex_of_nat_length [of 40 n] by (simp add: leafToKeyId_def padStart_def)

lemma rootFromKeyIds_padded:
  assumes "length keyIds \<le> 2 ^ depth"
  shows "rootFromKeyIds sha depth keyIds =
    Inr (hex_of_bytes (padded_root (sha_hasher sha) depth (map (leafHash sha) keyIds)))"
proof (cases "keyIds = []")
  case True
  then show ?thesis
    by (simp add: rootFromKeyIds_def padded_root_Nil)
next
  case False
  let ?P = "sha_hasher sha" and ?xs = "map (leafHash sha) keyIds"
  have "climb (phash ?P) (zero_roots ?P depth) 0 depth ?xs ! 0 = padded_root ?P depth ?xs"
    using climb_is_level [of ?P 0 ?xs ?xs depth depth] is_level_top False by fastforce
  then show ?thesis
    using assms False by (simp add: rootFromKeyIds_def sha_hasher_def)
qed

subsection \<open>Properties\<close>

text \<open>A leaf value below \<open>2 ^ 160\<close> becomes exactly its 20 big-endian bytes, so the number is
  read back from them, and any larger value is refused: no two leaves share a key id.\<close>

lemma leafToKeyId_roundtrip:
  "case leafToKeyId n of
     Inl e \<Rightarrow> e = LeafExceeds20Bytes n \<and> 2 ^ 160 \<le> n
   | Inr k \<Rightarrow> n < 2 ^ 160 \<and> length k = 20 \<and> val256 0 k = n \<and> list_all (\<lambda>b. b < 256) k"
proof (cases "n < 16 ^ 40")
  case True
  then show ?thesis
    using leafToKeyId_ok [OF True] by (auto simp: list_all_iff)
next
  case False
  then show ?thesis
    by (simp add: leafToKeyId_too_big)
qed

text \<open>The SHA-256 root of at most \<open>2 ^ depth\<close> key ids is the root of the full tree whose
  missing leaves are the hash of the empty key id, with leaf and node hashes domain separated.\<close>

lemma rootFromKeyIds_correct:
  "rootFromKeyIds sha depth keyIds =
     (if length keyIds > 2 ^ depth then Inl (TooManyLeaves (length keyIds) (2 ^ depth))
      else Inr (hex_of_bytes (node (\<lambda>l r. sha (1 # l @ r)) (sha (0 # replicate 20 0)) depth 0
                               (map (\<lambda>k. sha (0 # k)) keyIds))))"
  using rootFromKeyIds_padded [of keyIds depth sha]
  by (auto simp: padded_root_def sha_hasher_def nodeHash_def [abs_def] leafHash_def [abs_def]
      rootFromKeyIds_def)

end
