(* ===== verification/Js_Map.thy ===== *)
theory Js_Map
  imports Prelude
begin

section \<open>The insertion-ordered map of the language\<close>

text \<open>
  JavaScript's \<open>Map\<close> iterates in insertion order: setting a key that is present keeps its
  place, setting a new key appends it, and deleting removes it. The code relies on that order
  (the rate limiter evicts the first key, the root window re-inserts on re-adoption), so a
  \<open>Map\<close> is the list of its entries. \<open>jm_wf\<close> says no key occurs twice, which every
  operation keeps.
\<close>

type_synonym ('k, 'v) jsmap = "('k \<times> 'v) list"

definition jm_get :: "('k, 'v) jsmap \<Rightarrow> 'k \<Rightarrow> 'v option" where
  "jm_get m k = map_of m k"

definition jm_has :: "('k, 'v) jsmap \<Rightarrow> 'k \<Rightarrow> bool" where
  "jm_has m k \<longleftrightarrow> map_of m k \<noteq> None"

fun jm_set :: "'k \<Rightarrow> 'v \<Rightarrow> ('k, 'v) jsmap \<Rightarrow> ('k, 'v) jsmap" where
  "jm_set k v [] = [(k, v)]"
| "jm_set k v ((k', v') # m) = (if k = k' then (k, v) # m else (k', v') # jm_set k v m)"

definition jm_delete :: "'k \<Rightarrow> ('k, 'v) jsmap \<Rightarrow> ('k, 'v) jsmap" where
  "jm_delete k m = filter (\<lambda>e. fst e \<noteq> k) m"

definition jm_keys :: "('k, 'v) jsmap \<Rightarrow> 'k list" where
  "jm_keys m = map fst m"

definition jm_values :: "('k, 'v) jsmap \<Rightarrow> 'v list" where
  "jm_values m = map snd m"

definition jm_wf :: "('k, 'v) jsmap \<Rightarrow> bool" where
  "jm_wf m \<longleftrightarrow> distinct (map fst m)"

lemma jm_wf_Nil [simp]: "jm_wf []"
  by (simp add: jm_wf_def)

lemma jm_has_get: "jm_has m k \<longleftrightarrow> jm_get m k \<noteq> None"
  by (simp add: jm_has_def jm_get_def)

lemma jm_get_Nil [simp]: "jm_get [] k = None"
  by (simp add: jm_get_def)

lemma jm_get_set [simp]: "jm_get (jm_set k v m) k' = (if k' = k then Some v else jm_get m k')"
  by (induction k v m rule: jm_set.induct) (auto simp: jm_get_def)

lemma jm_get_delete [simp]: "jm_get (jm_delete k m) k' = (if k' = k then None else jm_get m k')"
  by (induction m) (auto simp: jm_get_def jm_delete_def)

lemma jm_has_set [simp]: "jm_has (jm_set k v m) k' \<longleftrightarrow> k' = k \<or> jm_has m k'"
  by (simp add: jm_has_get)

lemma jm_has_delete [simp]: "jm_has (jm_delete k m) k' \<longleftrightarrow> k' \<noteq> k \<and> jm_has m k'"
  by (simp add: jm_has_get)

lemma jm_has_keys: "jm_has m k \<longleftrightarrow> k \<in> fst ` set m"
  by (simp add: jm_has_def map_of_eq_None_iff)

lemma jm_get_in_set: "jm_get m k = Some v \<Longrightarrow> (k, v) \<in> set m"
  by (auto simp: jm_get_def dest: map_of_SomeD)

lemma jm_wf_get_iff: "jm_wf m \<Longrightarrow> jm_get m k = Some v \<longleftrightarrow> (k, v) \<in> set m"
  by (simp add: jm_wf_def jm_get_def)

lemma jm_keys_set: "map fst (jm_set k v m) = map fst m @ (if jm_has m k then [] else [k])"
  by (induction k v m rule: jm_set.induct) (auto simp: jm_has_def)

lemma jm_wf_set [simp]: "jm_wf m \<Longrightarrow> jm_wf (jm_set k v m)"
  by (auto simp: jm_wf_def jm_keys_set jm_has_keys)

lemma jm_wf_filter [simp]: "jm_wf m \<Longrightarrow> jm_wf (filter P m)"
  by (simp add: jm_wf_def distinct_map_filter)

lemma jm_wf_delete [simp]: "jm_wf m \<Longrightarrow> jm_wf (jm_delete k m)"
  by (simp add: jm_delete_def)

lemma jm_wf_tl: "jm_wf m \<Longrightarrow> jm_wf (tl m)"
  by (cases m) (auto simp: jm_wf_def)

lemma jm_length_set: "length (jm_set k v m) = (if jm_has m k then length m else Suc (length m))"
proof -
  have "length (map fst (jm_set k v m)) = length (map fst m @ (if jm_has m k then [] else [k]))"
    by (simp only: jm_keys_set)
  then show ?thesis
    by (simp split: if_splits)
qed

lemma jm_length_delete: "length (jm_delete k m) \<le> length m"
  by (simp add: jm_delete_def)

lemma jm_set_set: "jm_wf m \<Longrightarrow> set (jm_set k v m) = insert (k, v) (set (jm_delete k m))"
  by (induction k v m rule: jm_set.induct) (auto simp: jm_delete_def jm_wf_def image_iff)

lemma jm_get_filter:
  "jm_wf m \<Longrightarrow> jm_get (filter P m) k = (case jm_get m k of None \<Rightarrow> None
     | Some v \<Rightarrow> if P (k, v) then Some v else None)"
  by (induction m) (auto simp: jm_get_def jm_wf_def map_of_eq_None_iff split: option.splits
      dest: map_of_SomeD)

lemma jm_delete_hd: "jm_wf (e # m) \<Longrightarrow> jm_delete (fst e) (e # m) = m"
  by (auto simp: jm_delete_def jm_wf_def image_iff intro!: filter_True)

lemma jm_delete_absent: "\<not> jm_has m k \<Longrightarrow> jm_delete k m = m"
  by (auto simp: jm_delete_def jm_has_keys image_iff intro!: filter_True)

end
