(* ===== verification/Root_Windows.thy ===== *)
theory Root_Windows
  imports Js_Map Common_Values "HOL-Library.Multiset" "HOL-Library.Char_ord"
    "HOL-Library.List_Lexorder" "HOL-Library.Product_Lexorder"
begin

section \<open>The windows of accepted roots\<close>

text \<open>
  \<open>core/stores.js\<close>, first part: \<open>RootStore\<close> (the recent members roots of one context),
  \<open>RootWindows\<close> (the adopted masternode-list snapshots, both roots of each in one record), and
  the two pure functions beside them. A window is a list of records sorted by height, as the
  code keeps it. The pinned roots a live challenge names come in as the value of the code's
  \<open>pinnedRoots()\<close> callback.
\<close>

text \<open>\<open>xs.slice(-w)\<close>: a window of 0 slices from 0 and keeps everything.\<close>

definition slice_last :: "nat \<Rightarrow> 'a list \<Rightarrow> 'a list" where
  "slice_last w xs = (if w = 0 then xs else drop (length xs - w) xs)"

text \<open>\<open>[...new Set(xs)]\<close>: distinct elements in order of first occurrence.\<close>

fun uniq :: "'a list \<Rightarrow> 'a list" where
  "uniq [] = []"
| "uniq (x # xs) = x # filter (\<lambda>y. y \<noteq> x) (uniq xs)"

definition last_opt :: "'a list \<Rightarrow> 'a option" where
  "last_opt xs = (if xs = [] then None else Some (last xs))"

subsection \<open>RootStore\<close>

record root_entry =
  re_height :: int
  re_root :: string
  re_ts :: jsnum

record root_store =
  rs_window :: nat
  rs_roots :: "root_entry list"

definition RootStore_new :: "nat \<Rightarrow> root_store" where
  "RootStore_new window = \<lparr>rs_window = window, rs_roots = []\<rparr>"

definition RootStore_update :: "root_entry list \<Rightarrow> root_store \<Rightarrow> root_store" where
  "RootStore_update xs s =
     (let byHeight0 = foldl (\<lambda>m r. jm_set (re_height r) r m) [] (rs_roots s);
          byHeight = foldl (\<lambda>m r. jm_set (re_height r) r m) byHeight0 xs
      in s\<lparr>rs_roots := slice_last (rs_window s) (sort_key re_height (jm_values byHeight))\<rparr>)"

definition RootStore_current :: "root_store \<Rightarrow> root_entry option" where
  "RootStore_current s = last_opt (rs_roots s)"

definition RootStore_isRecent :: "root_store \<Rightarrow> string \<Rightarrow> bool" where
  "RootStore_isRecent s root \<longleftrightarrow> list_ex (\<lambda>r. re_root r = root) (rs_roots s)"

definition RootStore_clear :: "root_store \<Rightarrow> root_store" where
  "RootStore_clear s = s\<lparr>rs_roots := []\<rparr>"

definition RootStore_dropOlderThan :: "jsnum \<Rightarrow> root_store \<Rightarrow> root_store" where
  "RootStore_dropOlderThan cutoffTs s = s\<lparr>rs_roots := filter (\<lambda>r. cutoffTs \<le> re_ts r) (rs_roots s)\<rparr>"

subsection \<open>Leaf-set commitment and snapshot normalization\<close>

definition sortLeaves :: "string list \<Rightarrow> string list" where
  "sortLeaves leaves = sort_key (\<lambda>s. (length s, s)) leaves"

fun join_lines :: "string list \<Rightarrow> string" where
  "join_lines [] = []"
| "join_lines [s] = s"
| "join_lines (s # t # ss) = s @ CHR 0x0A # join_lines (t # ss)"

definition leafSetCommitment :: "(string \<Rightarrow> string) \<Rightarrow> string list \<Rightarrow> string" where
  "leafSetCommitment sha256hex leaves = sha256hex (join_lines (sortLeaves leaves))"

text \<open>The object read from the oracle; \<open>raw_extra\<close> names its other own keys.\<close>

record raw_snapshot =
  raw_version :: "int option"
  raw_height :: int
  raw_blockHash :: "string option"
  raw_depth :: "int option"
  raw_ts :: jsnum
  raw_root :: string
  raw_shaRoot :: "string option"
  raw_leaves :: "string list"
  raw_extra :: "string list"

record snapshot =
  sn_version :: int
  sn_height :: int
  sn_blockHash :: "string option"
  sn_depth :: int
  sn_ts :: jsnum
  sn_root :: string
  sn_shaRoot :: "string option"
  sn_leaves :: "string list"
  sn_extra :: "string list"

definition normalizeSnapshot :: "raw_snapshot \<Rightarrow> int \<Rightarrow> snapshot" where
  "normalizeSnapshot raw defaultDepth =
     \<lparr>sn_version = (case raw_version raw of None \<Rightarrow> 1 | Some v \<Rightarrow> v),
      sn_height = raw_height raw,
      sn_blockHash = raw_blockHash raw,
      sn_depth = (case raw_depth raw of None \<Rightarrow> defaultDepth | Some d \<Rightarrow> d),
      sn_ts = raw_ts raw,
      sn_root = raw_root raw,
      sn_shaRoot = raw_shaRoot raw,
      sn_leaves = raw_leaves raw,
      sn_extra = []\<rparr>"

subsection \<open>RootWindows\<close>

record window_rec =
  wr_height :: int
  wr_root :: string
  wr_shaRoot :: "string option"
  wr_ts :: jsnum
  wr_order :: "string option"
  wr_blockHash :: "string option"
  wr_setCommitment :: "string option"
  wr_snapshot :: "snapshot option"

record root_windows =
  rw_window :: nat
  rw_maxLeaves :: nat
  rw_snaps :: "window_rec list"

datatype adopt_error =
    UnexpectedField string
  | SnapshotRootDiffers string string
  | SnapshotHeightDiffers int int
  | SnapshotShaRootDiffers
  | UnknownOrder "string option"

definition RootWindows_new :: "nat \<Rightarrow> nat \<Rightarrow> root_windows" where
  "RootWindows_new window maxLeaves = \<lparr>rw_window = window, rw_maxLeaves = maxLeaves, rw_snaps = []\<rparr>"

text \<open>\<open>String(x ?? null)\<close>\<close>

definition string_or_null :: "string option \<Rightarrow> string" where
  "string_or_null x = (case x of None \<Rightarrow> ''null'' | Some s \<Rightarrow> s)"

definition KNOWN_ORDERS :: "string option list" where
  "KNOWN_ORDERS = [None, Some ''proRegTxHash'']"

definition check_snapshot :: "window_rec \<Rightarrow> adopt_error option" where
  "check_snapshot r =
     (case wr_snapshot r of
        None \<Rightarrow> None
      | Some sn \<Rightarrow>
          (case sn_extra sn of
             k # _ \<Rightarrow> Some (UnexpectedField k)
           | [] \<Rightarrow>
               if sn_root sn \<noteq> wr_root r then Some (SnapshotRootDiffers (wr_root r) (sn_root sn))
               else if sn_height sn \<noteq> wr_height r
                 then Some (SnapshotHeightDiffers (wr_height r) (sn_height sn))
               else if string_or_null (wr_shaRoot r) \<noteq> string_or_null (sn_shaRoot sn)
                 then Some SnapshotShaRootDiffers
               else None))"

definition window_key :: "window_rec \<Rightarrow> string" where
  "window_key r = dec_of_int (wr_height r) @ CHR ''|'' # (case wr_order r of None \<Rightarrow> ''legacy'' | Some ord \<Rightarrow> ord)"

definition retainedLeaves :: "window_rec list \<Rightarrow> nat" where
  "retainedLeaves snaps =
     sum_list (map (\<lambda>s. case wr_snapshot s of None \<Rightarrow> 0 | Some sn \<Rightarrow> length (sn_leaves sn)) snaps)"

definition pinned_rec :: "string list \<Rightarrow> window_rec \<Rightarrow> bool" where
  "pinned_rec pins s \<longleftrightarrow> wr_root s \<in> set pins \<or>
     (case wr_shaRoot s of None \<Rightarrow> False | Some r \<Rightarrow> r \<in> set pins)"

definition pinnedHeights :: "string list option \<Rightarrow> window_rec list \<Rightarrow> int list" where
  "pinnedHeights pins snaps =
     (case pins of None \<Rightarrow> [] | Some ps \<Rightarrow> map wr_height (filter (pinned_rec ps) snaps))"

definition evict_target :: "string list option \<Rightarrow> window_rec list \<Rightarrow> int option" where
  "evict_target pins snaps =
     (let heights = uniq (map wr_height snaps) in
      if length heights \<le> 1 then None
      else let newest = last heights; candidates = filter (\<lambda>h. h \<noteq> newest) heights in
        if candidates = [] then None
        else let pinned = pinnedHeights pins snaps in
          Some (case find (\<lambda>h. h \<notin> set pinned) candidates of Some h \<Rightarrow> h | None \<Rightarrow> hd candidates))"

lemma set_uniq [simp]: "set (uniq xs) = set xs"
  by (induction xs) auto

lemma distinct_uniq [simp]: "distinct (uniq xs)"
  by (induction xs) auto

lemma uniq_empty [simp]: "uniq xs = [] \<longleftrightarrow> xs = []"
  by (cases xs) auto

lemma evict_target_candidate:
  assumes "evict_target pins snaps = Some h"
  shows "h \<in> wr_height ` set snaps" "h \<noteq> last (uniq (map wr_height snaps))"
proof -
  let ?hs = "uniq (map wr_height snaps)"
  let ?c = "filter (\<lambda>h. h \<noteq> last ?hs) ?hs"
  have ne: "?c \<noteq> []" and h: "h = (case find (\<lambda>h. h \<notin> set (pinnedHeights pins snaps)) ?c of Some h \<Rightarrow> h | None \<Rightarrow> hd ?c)"
    using assms by (auto simp: evict_target_def Let_def split: if_splits)
  have "h \<in> set ?c"
  proof (cases "find (\<lambda>h. h \<notin> set (pinnedHeights pins snaps)) ?c")
    case None
    then show ?thesis
      using h hd_in_set [OF ne] by (simp del: set_filter)
  next
    case (Some k)
    then show ?thesis
      using h by (metis find_Some_iff nth_mem option.simps(5))
  qed
  then show "h \<in> wr_height ` set snaps" "h \<noteq> last ?hs"
    by auto
qed

function enforce_loop :: "nat \<Rightarrow> string list option \<Rightarrow> window_rec list \<Rightarrow> window_rec list" where
  "enforce_loop maxLeaves pins snaps =
     (if retainedLeaves snaps > maxLeaves
      then (case evict_target pins snaps of
              None \<Rightarrow> snaps
            | Some target \<Rightarrow> enforce_loop maxLeaves pins (filter (\<lambda>s. wr_height s \<noteq> target) snaps))
      else snaps)"
  by pat_completeness auto
termination
proof (relation "measure (\<lambda>(m, p, snaps). length snaps)")
  fix maxLeaves pins snaps target
  assume "evict_target pins snaps = Some target"
  then have "target \<in> wr_height ` set snaps"
    by (rule evict_target_candidate)
  then have "length (filter (\<lambda>s. wr_height s \<noteq> target) snaps) < length snaps"
    by (auto intro!: length_filter_less)
  then show "((maxLeaves, pins, filter (\<lambda>s. wr_height s \<noteq> target) snaps), maxLeaves, pins, snaps)
      \<in> measure (\<lambda>(m, p, snaps). length snaps)"
    by simp
qed simp

declare enforce_loop.simps [simp del]

definition enforceLeafBound :: "nat \<Rightarrow> string list option \<Rightarrow> window_rec list \<Rightarrow> window_rec list" where
  "enforceLeafBound maxLeaves pins snaps = (if \<not> maxLeaves > 0 then snaps else enforce_loop maxLeaves pins snaps)"

definition trim_heights :: "nat \<Rightarrow> window_rec list \<Rightarrow> window_rec list" where
  "trim_heights window all =
     (let keptHeights = slice_last window (uniq (map wr_height all))
      in filter (\<lambda>s. wr_height s \<in> set keptHeights) all)"

definition place_record :: "window_rec \<Rightarrow> window_rec list \<Rightarrow> window_rec list" where
  "place_record r snaps =
     (let byKey = foldl (\<lambda>m s. jm_set (window_key s) s m) [] snaps
      in sort_key wr_height (jm_values (jm_set (window_key r) r (jm_delete (window_key r) byKey))))"

definition RootWindows_adopt :: "string list option \<Rightarrow> window_rec \<Rightarrow> root_windows \<Rightarrow> adopt_error + root_windows" where
  "RootWindows_adopt pins r w =
     (case check_snapshot r of
        Some e \<Rightarrow> Inl e
      | None \<Rightarrow>
          if wr_order r \<notin> set KNOWN_ORDERS then Inl (UnknownOrder (wr_order r))
          else Inr (w\<lparr>rw_snaps := enforceLeafBound (rw_maxLeaves w) pins
                        (trim_heights (rw_window w) (place_record r (rw_snaps w)))\<rparr>))"

definition RootWindows_current :: "root_windows \<Rightarrow> window_rec option" where
  "RootWindows_current w = last_opt (rw_snaps w)"

definition RootWindows_maxHeight :: "root_windows \<Rightarrow> int option" where
  "RootWindows_maxHeight w = (if rw_snaps w = [] then None else Some (Max (set (map wr_height (rw_snaps w)))))"

definition RootWindows_isRecent :: "root_windows \<Rightarrow> string \<Rightarrow> bool" where
  "RootWindows_isRecent w root \<longleftrightarrow> list_ex (\<lambda>s. wr_root s = root) (rw_snaps w)"

definition RootWindows_shaIsRecent :: "root_windows \<Rightarrow> string \<Rightarrow> bool" where
  "RootWindows_shaIsRecent w shaRoot \<longleftrightarrow> list_ex (\<lambda>s. wr_shaRoot s = Some shaRoot) (rw_snaps w)"

text \<open>The loop of \<open>tsOf\<close>: the newest finite timestamp among the records holding the root.\<close>

fun ts_loop :: "string \<Rightarrow> int option \<Rightarrow> window_rec list \<Rightarrow> int option" where
  "ts_loop root newest [] = newest"
| "ts_loop root newest (s # ss) =
     (if wr_root s \<noteq> root then ts_loop root newest ss
      else (case wr_ts s of
              Num ts \<Rightarrow>
                (case newest of
                   None \<Rightarrow> ts_loop root (Some ts) ss
                 | Some n \<Rightarrow> ts_loop root (if ts > n then Some ts else newest) ss)
            | _ \<Rightarrow> ts_loop root newest ss))"

definition RootWindows_tsOf :: "root_windows \<Rightarrow> string \<Rightarrow> int option" where
  "RootWindows_tsOf w root = ts_loop root None (rw_snaps w)"

definition RootWindows_isEligibleWithin :: "root_windows \<Rightarrow> string \<Rightarrow> int \<Rightarrow> int \<Rightarrow> bool" where
  "RootWindows_isEligibleWithin w root maxAgeSeconds now =
     (if \<not> RootWindows_isRecent w root then False
      else if \<not> maxAgeSeconds > 0 then True
      else (case RootWindows_tsOf w root of
              None \<Rightarrow> False
            | Some ts \<Rightarrow> max 0 (now - ts) \<le> maxAgeSeconds))"

definition RootWindows_mayCoexist :: "root_windows \<Rightarrow> int \<Rightarrow> string option \<Rightarrow> string option \<Rightarrow> bool" where
  "RootWindows_mayCoexist w height blockHash setCommitment =
     (let atHeight = filter (\<lambda>s. wr_height s = height) (rw_snaps w) in
      if atHeight = [] then True
      else list_all (\<lambda>s. wr_blockHash s \<noteq> None \<and> blockHash \<noteq> None \<and> wr_blockHash s = blockHash
             \<and> wr_setCommitment s \<noteq> None \<and> setCommitment \<noteq> None \<and> wr_setCommitment s = setCommitment)
           atHeight)"

definition RootWindows_clear :: "root_windows \<Rightarrow> root_windows" where
  "RootWindows_clear w = w\<lparr>rw_snaps := []\<rparr>"

definition RootWindows_dropOlderThan :: "jsnum \<Rightarrow> root_windows \<Rightarrow> root_windows" where
  "RootWindows_dropOlderThan cutoffTs w = w\<lparr>rw_snaps := filter (\<lambda>s. cutoffTs \<le> wr_ts s) (rw_snaps w)\<rparr>"


subsection \<open>Lists sorted by height\<close>

lemma sorted_uniq: "sorted xs \<Longrightarrow> sorted_wrt (<) (uniq xs)" for xs :: "int list"
proof (induction xs)
  case (Cons x xs)
  then have "sorted_wrt (<) (filter (\<lambda>y. y \<noteq> x) (uniq xs))"
    by (simp add: sorted_wrt_filter)
  then show ?case
    using Cons.prems by (auto intro: le_neq_trans)
qed simp

lemma last_sorted_Max: "sorted xs \<Longrightarrow> xs \<noteq> [] \<Longrightarrow> last xs = Max (set xs)" for xs :: "int list"
proof (induction xs rule: rev_induct)
  case (snoc x xs)
  then show ?case
    by (intro Max_eqI [symmetric]) (auto simp: sorted_append)
qed simp

lemma last_uniq: "sorted xs \<Longrightarrow> xs \<noteq> [] \<Longrightarrow> last (uniq xs) = last xs" for xs :: "int list"
  using last_sorted_Max [of xs] last_sorted_Max [of "uniq xs"] strict_sorted_imp_sorted [OF sorted_uniq, of xs]
  by simp

text \<open>A slice of a strictly sorted list keeps the elements with fewer than \<open>w\<close> larger ones.\<close>

lemma set_slice_last:
  fixes xs :: "int list"
  assumes "sorted_wrt (<) xs" "0 < w"
  shows "set (slice_last w xs) = {x \<in> set xs. card {y \<in> set xs. x < y} < w}"
proof -
  have above: "card {y \<in> set xs. xs ! i < y} = length xs - Suc i" if "i < length xs" for i
  proof -
    have "{y \<in> set xs. xs ! i < y} = set (drop (Suc i) xs)"
    proof (intro equalityI subsetI)
      fix y assume "y \<in> {y \<in> set xs. xs ! i < y}"
      then obtain j where j: "j < length xs" "y = xs ! j" "xs ! i < xs ! j"
        by (auto simp: in_set_conv_nth)
      then have "i < j"
        using sorted_wrt_nth_less [OF assms(1), of j i] that by (metis linorder_neqE_nat order_less_asym)
      then show "y \<in> set (drop (Suc i) xs)"
        using j by (auto simp: in_set_conv_nth intro!: exI [of _ "j - Suc i"])
    next
      fix y assume "y \<in> set (drop (Suc i) xs)"
      then obtain k where k: "k < length xs - Suc i" "y = xs ! (Suc i + k)"
        by (auto simp: in_set_conv_nth)
      then show "y \<in> {y \<in> set xs. xs ! i < y}"
        using sorted_wrt_nth_less [OF assms(1), of i "Suc i + k"] by auto
    qed
    moreover have "distinct (drop (Suc i) xs)"
      using assms(1) by (simp add: strict_sorted_iff)
    ultimately show ?thesis
      by (simp add: distinct_card)
  qed
  have "set (slice_last w xs) = {xs ! i | i. i < length xs \<and> length xs - w \<le> i}"
  proof (intro equalityI subsetI)
    fix y assume "y \<in> set (slice_last w xs)"
    then obtain k where "k < length xs - (length xs - w)" "y = xs ! (length xs - w + k)"
      using assms(2) by (auto simp: slice_last_def in_set_conv_nth)
    then show "y \<in> {xs ! i | i. i < length xs \<and> length xs - w \<le> i}"
      by (intro CollectI exI [of _ "length xs - w + k"]) auto
  next
    fix y assume "y \<in> {xs ! i | i. i < length xs \<and> length xs - w \<le> i}"
    then obtain i where "i < length xs" "length xs - w \<le> i" "y = xs ! i"
      by blast
    then show "y \<in> set (slice_last w xs)"
      using assms(2) by (auto simp: slice_last_def in_set_conv_nth intro!: exI [of _ "i - (length xs - w)"])
  qed
  also have "\<dots> = {xs ! i | i. i < length xs \<and> card {y \<in> set xs. xs ! i < y} < w}"
    using above assms(2) by (intro Collect_cong ex_cong1) (auto simp: above)
  also have "\<dots> = {x \<in> set xs. card {y \<in> set xs. x < y} < w}"
    by (auto simp: in_set_conv_nth)
  finally show ?thesis .
qed

lemma length_slice_last: "0 < w \<Longrightarrow> length (slice_last w xs) \<le> w"
  by (simp add: slice_last_def)

lemma last_slice_last: "xs \<noteq> [] \<Longrightarrow> last xs \<in> set (slice_last w xs)"
proof -
  assume ne: "xs \<noteq> []"
  show ?thesis
  proof (cases "w = 0")
    case True
    then show ?thesis
      using ne by (simp add: slice_last_def)
  next
    case False
    have "drop (length xs - w) xs \<noteq> []"
      using ne False by (cases xs) auto
    then show ?thesis
      using False last_in_set [of "drop (length xs - w) xs"] by (simp add: slice_last_def last_drop)
  qed
qed

lemma last_filter: "xs \<noteq> [] \<Longrightarrow> P (last xs) \<Longrightarrow> last (filter P xs) = last xs \<and> filter P xs \<noteq> []"
  by (induction xs rule: rev_induct) auto

lemma sort_key_snoc_max:
  fixes f :: "'a \<Rightarrow> int"
  assumes "\<forall>y \<in> set ys. f y \<le> f x"
  shows "last (sort_key f (ys @ [x])) = x"
proof -
  let ?s = "sort_key f (ys @ [x])"
  have ne: "?s \<noteq> []"
    by (metis length_sort length_0_conv snoc_eq_iff_butlast)
  have "sorted (map f ?s)"
    by simp
  then have "f (last ?s) = Max (f ` set ?s)"
    using last_sorted_Max [of "map f ?s"] ne by (simp add: last_map)
  also have "\<dots> = f x"
    using assms by (intro Max_eqI) auto
  finally have key: "f (last ?s) = f x" .
  have "last ?s = last (filter (\<lambda>y. f y = f x) ?s)"
    using last_filter [OF ne, of "\<lambda>y. f y = f x"] key by simp
  also have "\<dots> = x"
    by (simp add: sort_key_stable)
  finally show ?thesis .
qed


subsection \<open>Maps keyed by a field of the record\<close>

definition keyed :: "('a \<Rightarrow> 'k) \<Rightarrow> ('k, 'a) jsmap \<Rightarrow> bool" where
  "keyed f m \<longleftrightarrow> jm_wf m \<and> (\<forall>e \<in> set m. fst e = f (snd e))"

definition set_all :: "('a \<Rightarrow> 'k) \<Rightarrow> ('k, 'a) jsmap \<Rightarrow> 'a list \<Rightarrow> ('k, 'a) jsmap" where
  "set_all f m xs = foldl (\<lambda>m r. jm_set (f r) r m) m xs"

lemma keyed_Nil [simp]: "keyed f []"
  by (simp add: keyed_def)

lemma keyed_set: "keyed f m \<Longrightarrow> keyed f (jm_set (f r) r m)"
  by (auto simp: keyed_def jm_set_set jm_delete_def)

lemma keyed_set_all: "keyed f m \<Longrightarrow> keyed f (set_all f m xs)"
  by (induction xs arbitrary: m) (auto simp: set_all_def keyed_set)

lemma keyed_values: "keyed f m \<Longrightarrow> map f (jm_values m) = map fst m"
  by (auto simp: keyed_def jm_values_def)

lemma keyed_distinct: "keyed f m \<Longrightarrow> distinct (map f (jm_values m))"
  by (simp add: keyed_values) (simp add: keyed_def jm_wf_def)

lemma keyed_member: "keyed f m \<Longrightarrow> r \<in> set (jm_values m) \<longleftrightarrow> jm_get m (f r) = Some r"
  by (force simp: keyed_def jm_wf_get_iff jm_values_def)

lemma set_all_get: "jm_get (set_all f m xs) k =
    (case find (\<lambda>r. f r = k) (rev xs) of Some r \<Rightarrow> Some r | None \<Rightarrow> jm_get m k)"
  by (induction xs rule: rev_induct) (auto simp: set_all_def)

lemma jm_set_absent: "\<not> jm_has m k \<Longrightarrow> jm_set k v m = m @ [(k, v)]"
  by (induction k v m rule: jm_set.induct) (auto simp: jm_has_def split: if_splits)

lemma set_all_distinct:
  "distinct (map f xs) \<Longrightarrow> set_all f [] xs = map (\<lambda>r. (f r, r)) xs"
proof (induction xs rule: rev_induct)
  case Nil
  then show ?case by (simp add: set_all_def)
next
  case (snoc x xs)
  then have "\<not> jm_has (map (\<lambda>r. (f r, r)) xs) (f x)"
    by (auto simp: jm_has_keys)
  then show ?case
    using snoc by (simp add: set_all_def jm_set_absent)
qed

subsection \<open>RootStore: the newest root of each of the newest heights\<close>

definition rs_inv :: "root_store \<Rightarrow> bool" where
  "rs_inv s \<longleftrightarrow> sorted_wrt (<) (map re_height (rs_roots s)) \<and>
     (0 < rs_window s \<longrightarrow> length (rs_roots s) \<le> rs_window s)"

definition rs_at :: "root_store \<Rightarrow> int \<Rightarrow> root_entry option" where
  "rs_at s h = find (\<lambda>r. re_height r = h) (rs_roots s)"

text \<open>What a batch of entries makes of the entry at one height: the last of the batch wins.\<close>

definition newest_at :: "root_entry list \<Rightarrow> root_entry option \<Rightarrow> int \<Rightarrow> root_entry option" where
  "newest_at xs old h = (case find (\<lambda>r. re_height r = h) (rev xs) of Some r \<Rightarrow> Some r | None \<Rightarrow> old)"

lemma find_distinct:
  "distinct (map f xs) \<Longrightarrow> find (\<lambda>r. f r = k) xs = Some r \<longleftrightarrow> r \<in> set xs \<and> f r = k"
  by (induction xs) (auto simp: image_iff)

lemma find_rev_distinct: "distinct (map f xs) \<Longrightarrow> find (\<lambda>r. f r = k) (rev xs) = find (\<lambda>r. f r = k) xs"
proof -
  assume d: "distinct (map f xs)"
  then have d': "distinct (map f (rev xs))"
    by (simp add: rev_map [symmetric])
  have "find (\<lambda>r. f r = k) (rev xs) = Some r \<longleftrightarrow> find (\<lambda>r. f r = k) xs = Some r" for r
    by (simp add: find_distinct [OF d] find_distinct [OF d'])
  then show ?thesis
    by (cases "find (\<lambda>r. f r = k) xs") (metis option.exhaust, simp)
qed

lemma slice_last_map: "slice_last w (map f xs) = map f (slice_last w xs)"
  by (simp add: slice_last_def drop_map)

lemma set_slice_last_subset: "set (slice_last w xs) \<subseteq> set xs"
  by (auto simp: slice_last_def dest: in_set_dropD)

lemma sorted_wrt_slice_last: "sorted_wrt P xs \<Longrightarrow> sorted_wrt P (slice_last w xs)"
  by (simp add: slice_last_def sorted_wrt_drop)

lemma sort_key_strict:
  fixes f :: "'a \<Rightarrow> int"
  assumes "distinct (map f xs)"
  shows "sorted_wrt (<) (map f (sort_key f xs))"
proof -
  have "mset (map f (sort_key f xs)) = mset (map f xs)"
    by simp
  then have "distinct (map f (sort_key f xs))"
    using assms mset_eq_imp_distinct_iff by blast
  then show ?thesis
    by (simp add: strict_sorted_iff)
qed

lemma RootStore_update_roots:
  assumes "rs_inv s"
  shows "\<exists>all. rs_roots (RootStore_update xs s) = slice_last (rs_window s) all
    \<and> sorted_wrt (<) (map re_height all)
    \<and> (\<forall>r. r \<in> set all \<longleftrightarrow> newest_at xs (rs_at s (re_height r)) (re_height r) = Some r)"
proof -
  let ?old = "set_all re_height [] (rs_roots s)"
  let ?m = "set_all re_height ?old xs"
  let ?all = "sort_key re_height (jm_values ?m)"
  have d: "distinct (map re_height (rs_roots s))"
    using assms by (simp add: rs_inv_def strict_sorted_iff)
  have k: "keyed re_height ?m"
    by (intro keyed_set_all keyed_Nil)
  have "jm_get ?old h = rs_at s h" for h
    using set_all_get [of re_height "[]" "rs_roots s" h] find_rev_distinct [OF d, of h]
    by (simp add: rs_at_def split: option.splits)
  then have "r \<in> set ?all \<longleftrightarrow> newest_at xs (rs_at s (re_height r)) (re_height r) = Some r" for r
    using keyed_member [OF k, of r] by (simp add: set_all_get [of _ ?old] newest_at_def split: option.split)
  then show ?thesis
    using sort_key_strict [OF keyed_distinct [OF k]]
    by (intro exI [of _ ?all]) (simp add: RootStore_update_def set_all_def Let_def)
qed

lemma RootStore_update_inv [keep]: "rs_inv s \<Longrightarrow> rs_inv (RootStore_update xs s)"
proof -
  assume inv: "rs_inv s"
  have "rs_window (RootStore_update xs s) = rs_window s"
    by (simp add: RootStore_update_def Let_def)
  then show ?thesis
    using RootStore_update_roots [OF inv, of xs] sorted_wrt_slice_last length_slice_last
    by (auto simp: rs_inv_def slice_last_map [symmetric])
qed

lemma rs_inv_new [keep]: "rs_inv (RootStore_new w)"
  by (simp add: rs_inv_def RootStore_new_def)

lemma rs_inv_clear [keep]: "rs_inv (RootStore_clear s)"
  by (simp add: rs_inv_def RootStore_clear_def)

lemma rs_inv_dropOlderThan [keep]: "rs_inv s \<Longrightarrow> rs_inv (RootStore_dropOlderThan c s)"
  by (auto simp: rs_inv_def RootStore_dropOlderThan_def sorted_wrt_map sorted_wrt_filter
      intro: order_trans [OF length_filter_le])

lemma rs_window_same [simp]:
  "rs_window (RootStore_new w) = w" "rs_window (RootStore_update xs s) = rs_window s"
  "rs_window (RootStore_dropOlderThan c s) = rs_window s" "rs_window (RootStore_clear s) = rs_window s"
  by (simp_all add: RootStore_new_def RootStore_update_def RootStore_dropOlderThan_def
      RootStore_clear_def Let_def)

inductive root_store_reach :: "nat \<Rightarrow> root_store \<Rightarrow> bool" for w where
  rs_start: "root_store_reach w (RootStore_new w)"
| rs_updated: "root_store_reach w s \<Longrightarrow> root_store_reach w (RootStore_update xs s)"
| rs_dropped: "root_store_reach w s \<Longrightarrow> root_store_reach w (RootStore_dropOlderThan c s)"
| rs_cleared: "root_store_reach w s \<Longrightarrow> root_store_reach w (RootStore_clear s)"

lemma root_store_reach_inv: "root_store_reach w s \<Longrightarrow> rs_inv s \<and> rs_window s = w"
  by (induction rule: root_store_reach.induct)
    (auto simp: rs_inv_new RootStore_update_inv rs_inv_clear rs_inv_dropOlderThan rs_window_same)

text \<open>A root window is exactly the newest entry of each of the newest heights. After an update
  of any reachable store with a positive window, an entry is accepted if and only if it is the
  last one given for its height (in the batch, or else before it) and fewer than \<open>window\<close>
  higher heights hold an entry.\<close>

lemma RootStore_update_correct:
  assumes "root_store_reach w s" "0 < w"
  shows "r \<in> set (rs_roots (RootStore_update xs s)) \<longleftrightarrow>
    newest_at xs (rs_at s (re_height r)) (re_height r) = Some r \<and>
    card {h. h > re_height r \<and> newest_at xs (rs_at s h) h \<noteq> None} < w"
proof -
  have inv: "rs_inv s" "rs_window s = w"
    using root_store_reach_inv [OF assms(1)] by simp_all
  obtain all where all: "rs_roots (RootStore_update xs s) = slice_last w all"
      "sorted_wrt (<) (map re_height all)"
      "\<And>r. r \<in> set all \<longleftrightarrow> newest_at xs (rs_at s (re_height r)) (re_height r) = Some r"
    using RootStore_update_roots [OF inv(1), of xs] inv(2) by auto
  have height: "newest_at xs (rs_at s h) h = Some q \<Longrightarrow> re_height q = h" for h q
    by (auto simp: newest_at_def rs_at_def find_Some_iff split: option.splits)
  have heights: "re_height ` set all = {h. newest_at xs (rs_at s h) h \<noteq> None}"
  proof (intro equalityI subsetI)
    fix h assume "h \<in> re_height ` set all"
    then show "h \<in> {h. newest_at xs (rs_at s h) h \<noteq> None}"
      using all(3) by auto
  next
    fix h assume "h \<in> {h. newest_at xs (rs_at s h) h \<noteq> None}"
    then obtain q where "newest_at xs (rs_at s h) h = Some q"
      by blast
    then show "h \<in> re_height ` set all"
      using all(3) [of q] height by (metis image_eqI)
  qed
  have inj: "inj_on re_height (set all)"
    using all(2) by (simp add: strict_sorted_iff distinct_map)
  have "r \<in> set (slice_last w all) \<longleftrightarrow> r \<in> set all \<and> re_height r \<in> set (slice_last w (map re_height all))"
    using inj set_slice_last_subset [of w all] by (auto simp: slice_last_map inj_on_def)
  also have "\<dots> \<longleftrightarrow> r \<in> set all \<and> card {y \<in> re_height ` set all. re_height r < y} < w"
    by (auto simp: set_slice_last [OF all(2) assms(2)])
  finally show ?thesis
    unfolding all(1) heights all(3) by (simp add: conj_commute)
qed

text \<open>A concrete store for the witness.\<close>

theorem RootStore_update_correct_witness:
  "\<lparr>re_height = 7, re_root = ''b'', re_ts = Num 2\<rparr>
     \<in> set (rs_roots (RootStore_update [\<lparr>re_height = 3, re_root = ''a'', re_ts = Num 1\<rparr>,
          \<lparr>re_height = 7, re_root = ''b'', re_ts = Num 2\<rparr>] (RootStore_new 1)))"
proof -
  let ?xs = "[\<lparr>re_height = 3, re_root = ''a'', re_ts = Num 1\<rparr>, \<lparr>re_height = 7, re_root = ''b'', re_ts = Num 2\<rparr>]"
  let ?r = "\<lparr>re_height = 7, re_root = ''b'', re_ts = Num 2\<rparr>"
  have none: "{h. h > re_height ?r \<and> newest_at ?xs (rs_at (RootStore_new 1) h) h \<noteq> None} = {}"
    by (auto simp: newest_at_def rs_at_def RootStore_new_def)
  have "newest_at ?xs (rs_at (RootStore_new 1) (re_height ?r)) (re_height ?r) = Some ?r"
    by (simp add: newest_at_def)
  then show ?thesis
    using RootStore_update_correct [OF rs_start [of 1], of ?r ?xs] unfolding none by simp
qed


subsection \<open>RootWindows: the invariant\<close>

definition rec_ok :: "window_rec \<Rightarrow> bool" where
  "rec_ok r \<longleftrightarrow> check_snapshot r = None \<and> wr_order r \<in> set KNOWN_ORDERS"

definition heights_of :: "window_rec list \<Rightarrow> int set" where
  "heights_of snaps = wr_height ` set snaps"

definition leaf_bounded :: "nat \<Rightarrow> window_rec list \<Rightarrow> bool" where
  "leaf_bounded m snaps \<longleftrightarrow> (0 < m \<longrightarrow> retainedLeaves snaps \<le> m \<or> card (heights_of snaps) \<le> 1)"

definition rw_inv :: "root_windows \<Rightarrow> bool" where
  "rw_inv w \<longleftrightarrow> sorted (map wr_height (rw_snaps w)) \<and> distinct (map window_key (rw_snaps w)) \<and>
     (\<forall>s \<in> set (rw_snaps w). rec_ok s) \<and>
     (0 < rw_window w \<longrightarrow> card (heights_of (rw_snaps w)) \<le> rw_window w) \<and>
     leaf_bounded (rw_maxLeaves w) (rw_snaps w)"

lemma dec_of_int_no_bar: "CHR ''|'' \<notin> set (dec_of_int n)"
  using dec_of_nat_digits [of "CHR ''|''"] by (auto simp: dec_of_int_def is_digit_def)

lemma window_key_inject:
  "rec_ok r \<Longrightarrow> rec_ok s \<Longrightarrow> window_key r = window_key s \<longleftrightarrow> wr_height r = wr_height s \<and> wr_order r = wr_order s"
  using split_at_separator [OF dec_of_int_no_bar dec_of_int_no_bar]
  by (auto simp: window_key_def rec_ok_def KNOWN_ORDERS_def)

lemma window_key_height: "window_key r = window_key s \<Longrightarrow> wr_height r = wr_height s"
  unfolding window_key_def using split_at_separator [OF dec_of_int_no_bar dec_of_int_no_bar] by simp

lemma place_record_eq:
  "distinct (map window_key snaps) \<Longrightarrow>
   place_record r snaps = sort_key wr_height (filter (\<lambda>s. window_key s \<noteq> window_key r) snaps @ [r])"
proof -
  assume d: "distinct (map window_key snaps)"
  let ?m = "set_all window_key [] snaps"
  have del: "jm_delete (window_key r) ?m = map (\<lambda>s. (window_key s, s)) (filter (\<lambda>s. window_key s \<noteq> window_key r) snaps)"
    unfolding set_all_distinct [OF d] by (simp add: jm_delete_def filter_map comp_def)
  have "jm_values (jm_set (window_key r) r (jm_delete (window_key r) ?m))
      = filter (\<lambda>s. window_key s \<noteq> window_key r) snaps @ [r]"
    by (subst jm_set_absent) (auto simp: jm_values_def del comp_def jm_has_keys)
  then show ?thesis
    by (simp add: place_record_def set_all_def Let_def)
qed

lemma set_place_record:
  "distinct (map window_key snaps) \<Longrightarrow>
   set (place_record r snaps) = insert r {s \<in> set snaps. window_key s \<noteq> window_key r}"
  by (auto simp: place_record_eq)

lemma mset_map_distinct: "mset xs = mset ys \<Longrightarrow> distinct (map f xs) = distinct (map f ys)"
  by (metis mset_eq_imp_distinct_iff mset_map)

lemma distinct_place_record:
  "distinct (map window_key snaps) \<Longrightarrow> distinct (map window_key (place_record r snaps))"
proof -
  assume d: "distinct (map window_key snaps)"
  then have "distinct (map window_key (filter (\<lambda>s. window_key s \<noteq> window_key r) snaps @ [r]))"
    by (auto simp: distinct_map_filter)
  then show ?thesis
    using mset_map_distinct [of "place_record r snaps"
        "filter (\<lambda>s. window_key s \<noteq> window_key r) snaps @ [r]" window_key]
    by (simp add: place_record_eq [OF d])
qed

lemma sorted_place_record:
  "distinct (map window_key snaps) \<Longrightarrow> sorted (map wr_height (place_record r snaps))"
  by (simp add: place_record_eq)

lemma place_record_nonempty: "distinct (map window_key snaps) \<Longrightarrow> place_record r snaps \<noteq> []"
  using set_place_record [of snaps r] by auto

subsubsection \<open>Filtering by height\<close>

text \<open>
  Both the window trim and the leaf bound only ever drop whole heights, and never the newest:
  the result is the list filtered to a set of heights that holds the last one.
\<close>

definition by_height :: "window_rec list \<Rightarrow> window_rec list \<Rightarrow> bool" where
  "by_height snaps snaps' \<longleftrightarrow> (\<exists>H. snaps' = filter (\<lambda>s. wr_height s \<in> H) snaps \<and>
     (snaps \<noteq> [] \<longrightarrow> wr_height (last snaps) \<in> H))"

lemma by_height_refl [simp]: "by_height snaps snaps"
  unfolding by_height_def by (rule exI [of _ UNIV]) simp

lemma by_height_last: "by_height a b \<Longrightarrow> a \<noteq> [] \<Longrightarrow> b \<noteq> [] \<and> last b = last a"
  unfolding by_height_def by (metis last_filter)

lemma by_height_trans: "by_height a b \<Longrightarrow> by_height b c \<Longrightarrow> by_height a c"
proof -
  assume ab: "by_height a b" and bc: "by_height b c"
  obtain H where H: "b = filter (\<lambda>s. wr_height s \<in> H) a" "a \<noteq> [] \<longrightarrow> wr_height (last a) \<in> H"
    using ab by (auto simp: by_height_def)
  obtain K where K: "c = filter (\<lambda>s. wr_height s \<in> K) b" "b \<noteq> [] \<longrightarrow> wr_height (last b) \<in> K"
    using bc by (auto simp: by_height_def)
  have "c = filter (\<lambda>s. wr_height s \<in> H \<inter> K) a"
    using H K by (simp add: conj_commute)
  moreover have "a \<noteq> [] \<longrightarrow> wr_height (last a) \<in> H \<inter> K"
    using H(2) K(2) by_height_last [OF ab] by auto
  ultimately show ?thesis
    unfolding by_height_def by blast
qed

lemma by_height_sorted: "by_height a b \<Longrightarrow> sorted (map wr_height a) \<Longrightarrow> sorted (map wr_height b)"
  by (auto simp: by_height_def sorted_wrt_map sorted_wrt_filter)

lemma by_height_distinct: "by_height a b \<Longrightarrow> distinct (map f a) \<Longrightarrow> distinct (map f b)"
  by (auto simp: by_height_def distinct_map_filter)

lemma by_height_subset: "by_height a b \<Longrightarrow> set b \<subseteq> set a"
  by (auto simp: by_height_def)

lemma last_uniq_heights:
  "sorted (map wr_height snaps) \<Longrightarrow> snaps \<noteq> [] \<Longrightarrow> last (uniq (map wr_height snaps)) = wr_height (last snaps)"
  using last_uniq [of "map wr_height snaps"] by (simp add: last_map)

lemma trim_by_height: "sorted (map wr_height all) \<Longrightarrow> by_height all (trim_heights window all)"
  using last_slice_last [of "uniq (map wr_height all)" window] last_uniq_heights [of all]
  by (auto simp: by_height_def trim_heights_def Let_def)

lemma trim_card:
  assumes "0 < window"
  shows "card (heights_of (trim_heights window all)) \<le> window"
proof -
  have "card (heights_of (trim_heights window all)) \<le> card (set (slice_last window (uniq (map wr_height all))))"
    by (intro card_mono) (auto simp: heights_of_def trim_heights_def Let_def)
  also have "\<dots> \<le> window"
    using length_slice_last [OF assms] card_length le_trans by blast
  finally show ?thesis .
qed

lemma evict_by_height:
  "sorted (map wr_height snaps) \<Longrightarrow> evict_target pins snaps = Some t \<Longrightarrow>
   by_height snaps (filter (\<lambda>s. wr_height s \<noteq> t) snaps)"
  using evict_target_candidate [of pins snaps t] last_uniq_heights [of snaps]
  unfolding by_height_def by (intro exI [of _ "- {t}"]) auto

lemma evict_none: "evict_target pins snaps = None \<Longrightarrow> sorted (map wr_height snaps) \<Longrightarrow> card (heights_of snaps) \<le> 1"
proof -
  assume none: "evict_target pins snaps = None" and sorted: "sorted (map wr_height snaps)"
  let ?hs = "uniq (map wr_height snaps)"
  have card: "card (heights_of snaps) = length ?hs"
    using distinct_card [OF distinct_uniq, of "map wr_height snaps"] by (simp add: heights_of_def)
  show ?thesis
  proof (cases "length ?hs \<le> 1")
    case True
    then show ?thesis
      by (simp add: card)
  next
    case False
    then have "filter (\<lambda>h. h \<noteq> last ?hs) ?hs = []"
      using none by (simp add: evict_target_def Let_def split: if_splits)
    then have "set ?hs \<subseteq> {last ?hs}"
      by (auto simp: filter_empty_conv)
    then have "card (set ?hs) \<le> card {last ?hs}"
      by (intro card_mono) simp_all
    then show ?thesis
      by (simp add: heights_of_def)
  qed
qed

lemma enforce_loop_by_height:
  "sorted (map wr_height snaps) \<Longrightarrow> by_height snaps (enforce_loop m pins snaps)"
proof (induction m pins snaps rule: enforce_loop.induct)
  case (1 m pins snaps)
  show ?case
  proof (cases "retainedLeaves snaps > m \<and> evict_target pins snaps \<noteq> None")
    case True
    then obtain t where t: "evict_target pins snaps = Some t"
      by blast
    let ?snaps = "filter (\<lambda>s. wr_height s \<noteq> t) snaps"
    have step: "by_height snaps ?snaps"
      by (rule evict_by_height [OF "1.prems" t])
    then have "by_height ?snaps (enforce_loop m pins ?snaps)"
      using "1.IH" [OF _ t] True by_height_sorted "1.prems" by blast
    then show ?thesis
      using by_height_trans [OF step] True t by (simp add: enforce_loop.simps [of m pins snaps])
  next
    case False
    then show ?thesis
      by (auto simp: enforce_loop.simps [of m pins snaps] split: option.splits)
  qed
qed

lemma enforce_loop_bounded:
  "sorted (map wr_height snaps) \<Longrightarrow>
   retainedLeaves (enforce_loop m pins snaps) \<le> m \<or> card (heights_of (enforce_loop m pins snaps)) \<le> 1"
proof (induction m pins snaps rule: enforce_loop.induct)
  case (1 m pins snaps)
  show ?case
  proof (cases "retainedLeaves snaps > m")
    case False
    then show ?thesis
      by (simp add: enforce_loop.simps [of m pins snaps])
  next
    case True
    show ?thesis
    proof (cases "evict_target pins snaps")
      case None
      then show ?thesis
        using evict_none [OF None "1.prems"] True by (simp add: enforce_loop.simps [of m pins snaps])
    next
      case (Some t)
      then have "sorted (map wr_height (filter (\<lambda>s. wr_height s \<noteq> t) snaps))"
        using "1.prems" by (simp add: sorted_wrt_map sorted_wrt_filter)
      then show ?thesis
        using "1.IH" [OF True Some] Some True by (simp add: enforce_loop.simps [of m pins snaps])
    qed
  qed
qed

lemma enforceLeafBound_by_height: "sorted (map wr_height snaps) \<Longrightarrow> by_height snaps (enforceLeafBound m pins snaps)"
  by (simp add: enforceLeafBound_def enforce_loop_by_height)

lemma enforceLeafBound_bounded: "sorted (map wr_height snaps) \<Longrightarrow> leaf_bounded m (enforceLeafBound m pins snaps)"
  using enforce_loop_bounded [of snaps m pins] by (simp add: leaf_bounded_def enforceLeafBound_def)


subsubsection \<open>Operations\<close>

lemma rw_inv_new [keep]: "rw_inv (RootWindows_new window m)"
  by (simp add: rw_inv_def RootWindows_new_def heights_of_def leaf_bounded_def)

lemma rw_inv_clear [keep]: "rw_inv w \<Longrightarrow> rw_inv (RootWindows_clear w)"
  by (simp add: rw_inv_def RootWindows_clear_def heights_of_def leaf_bounded_def)

lemma retainedLeaves_filter: "retainedLeaves (filter P snaps) \<le> retainedLeaves snaps"
  by (induction snaps) (auto simp: retainedLeaves_def)

lemma heights_filter: "card (heights_of (filter P snaps)) \<le> card (heights_of snaps)"
  by (intro card_mono) (auto simp: heights_of_def)

lemma rw_inv_dropOlderThan [keep]: "rw_inv w \<Longrightarrow> rw_inv (RootWindows_dropOlderThan c w)"
  using retainedLeaves_filter [of "\<lambda>s. c \<le> wr_ts s" "rw_snaps w"] heights_filter [of "\<lambda>s. c \<le> wr_ts s" "rw_snaps w"]
  by (auto simp: rw_inv_def RootWindows_dropOlderThan_def leaf_bounded_def sorted_wrt_map
      sorted_wrt_filter distinct_map_filter)

text \<open>What one adoption does to the records: place the new one, then drop whole heights.\<close>

lemma adopt_cases:
  assumes "RootWindows_adopt pins r w = Inr w'"
  shows "rec_ok r" "rw_window w' = rw_window w" "rw_maxLeaves w' = rw_maxLeaves w"
    and "rw_snaps w' = enforceLeafBound (rw_maxLeaves w) pins (trim_heights (rw_window w) (place_record r (rw_snaps w)))"
  using assms by (auto simp: RootWindows_adopt_def rec_ok_def split: option.splits if_splits)

lemma adopt_by_height:
  assumes "rw_inv w" "RootWindows_adopt pins r w = Inr w'"
  shows "by_height (place_record r (rw_snaps w)) (rw_snaps w')"
proof -
  have sorted: "sorted (map wr_height (place_record r (rw_snaps w)))"
    using assms(1) by (simp add: rw_inv_def sorted_place_record)
  have trim: "by_height (place_record r (rw_snaps w)) (trim_heights (rw_window w) (place_record r (rw_snaps w)))"
    by (rule trim_by_height [OF sorted])
  show ?thesis
    unfolding adopt_cases(4) [OF assms(2)]
    by (rule by_height_trans [OF trim enforceLeafBound_by_height [OF by_height_sorted [OF trim sorted]]])
qed

lemma adopt_inv [keep]:
  assumes inv: "rw_inv w" and ok: "RootWindows_adopt pins r w = Inr w'"
  shows "rw_inv w'"
proof -
  let ?placed = "place_record r (rw_snaps w)"
  let ?trim = "trim_heights (rw_window w) ?placed"
  have d: "distinct (map window_key (rw_snaps w))" and recs: "\<forall>s \<in> set (rw_snaps w). rec_ok s"
    using inv by (simp_all add: rw_inv_def)
  have sorted: "sorted (map wr_height ?placed)"
    by (rule sorted_place_record [OF d])
  have bh: "by_height ?placed (rw_snaps w')"
    by (rule adopt_by_height [OF inv ok])
  have st: "sorted (map wr_height ?trim)"
    by (rule by_height_sorted [OF trim_by_height [OF sorted] sorted])
  have te: "by_height ?trim (rw_snaps w')"
    unfolding adopt_cases(4) [OF ok] by (rule enforceLeafBound_by_height [OF st])
  have "card (heights_of (rw_snaps w')) \<le> rw_window w" if "0 < rw_window w"
  proof -
    have "card (heights_of (rw_snaps w')) \<le> card (heights_of ?trim)"
      using by_height_subset [OF te] by (intro card_mono) (auto simp: heights_of_def)
    then show ?thesis
      using trim_card [OF that, of ?placed] by simp
  qed
  moreover have "leaf_bounded (rw_maxLeaves w) (rw_snaps w')"
    unfolding adopt_cases(4) [OF ok] by (rule enforceLeafBound_bounded [OF st])
  moreover have "\<forall>s \<in> set (rw_snaps w'). rec_ok s"
    using by_height_subset [OF bh] set_place_record [OF d, of r] recs adopt_cases(1) [OF ok] by auto
  ultimately show ?thesis
    using by_height_sorted [OF bh sorted] by_height_distinct [OF bh distinct_place_record [OF d]]
    by (simp add: rw_inv_def adopt_cases [OF ok])
qed

lemma place_record_last:
  assumes "distinct (map window_key snaps)" "\<forall>s \<in> set snaps. wr_height s \<le> wr_height r"
  shows "last (place_record r snaps) = r"
  unfolding place_record_eq [OF assms(1)] using assms(2) by (intro sort_key_snoc_max) simp

lemma rw_config_same:
  "rw_window (RootWindows_new window m) = window" "rw_maxLeaves (RootWindows_new window m) = m"
  "rw_window (RootWindows_clear w) = rw_window w" "rw_maxLeaves (RootWindows_clear w) = rw_maxLeaves w"
  "rw_window (RootWindows_dropOlderThan c w) = rw_window w"
  "rw_maxLeaves (RootWindows_dropOlderThan c w) = rw_maxLeaves w"
  by (simp_all add: RootWindows_new_def RootWindows_clear_def RootWindows_dropOlderThan_def)

inductive windows_reach :: "nat \<Rightarrow> nat \<Rightarrow> root_windows \<Rightarrow> bool" for window maxLeaves where
  wr_start: "windows_reach window maxLeaves (RootWindows_new window maxLeaves)"
| wr_adopted: "windows_reach window maxLeaves w \<Longrightarrow> RootWindows_adopt pins r w = Inr w' \<Longrightarrow>
     windows_reach window maxLeaves w'"
| wr_dropped: "windows_reach window maxLeaves w \<Longrightarrow>
     windows_reach window maxLeaves (RootWindows_dropOlderThan c w)"
| wr_cleared: "windows_reach window maxLeaves w \<Longrightarrow> windows_reach window maxLeaves (RootWindows_clear w)"

lemma windows_reach_inv:
  "windows_reach window m w \<Longrightarrow> rw_inv w \<and> rw_window w = window \<and> rw_maxLeaves w = m"
proof (induction rule: windows_reach.induct)
  case (wr_adopted w pins r w')
  then show ?case
    using adopt_inv adopt_cases(2,3) by metis
qed (auto simp: rw_inv_new rw_inv_clear rw_inv_dropOlderThan rw_config_same)

subsubsection \<open>Pins\<close>

lemma pinnedHeights_filter:
  "h \<in> set (pinnedHeights pins (filter (\<lambda>s. wr_height s \<in> H) snaps)) \<longleftrightarrow> h \<in> H \<and> h \<in> set (pinnedHeights pins snaps)"
  by (auto simp: pinnedHeights_def split: option.splits)

lemma evict_target_unpinned_first:
  assumes "evict_target pins snaps = Some t" "t \<in> set (pinnedHeights pins snaps)"
    and "h \<in> heights_of snaps" "h \<noteq> last (uniq (map wr_height snaps))"
  shows "h \<in> set (pinnedHeights pins snaps)"
proof -
  let ?hs = "uniq (map wr_height snaps)"
  let ?c = "filter (\<lambda>h. h \<noteq> last ?hs) ?hs"
  have "t = (case find (\<lambda>h. h \<notin> set (pinnedHeights pins snaps)) ?c of Some h \<Rightarrow> h | None \<Rightarrow> hd ?c)"
    using assms(1) by (auto simp: evict_target_def Let_def split: if_splits)
  then have "find (\<lambda>h. h \<notin> set (pinnedHeights pins snaps)) ?c = None"
    using assms(2) by (auto simp: find_Some_iff split: option.splits)
  then show ?thesis
    using assms(3,4) by (auto simp: find_None_iff heights_of_def)
qed

lemma enforce_loop_pins:
  assumes "sorted (map wr_height snaps)"
    and "g \<in> set (pinnedHeights pins snaps)" "g \<notin> heights_of (enforce_loop m pins snaps)"
    and "h \<in> heights_of (enforce_loop m pins snaps)" "h \<noteq> wr_height (last snaps)"
  shows "h \<in> set (pinnedHeights pins snaps)"
  using assms
proof (induction m pins snaps rule: enforce_loop.induct)
  case (1 m pins snaps)
  have ne: "snaps \<noteq> []"
    using "1.prems"(2) by (auto simp: pinnedHeights_def split: option.splits)
  have g: "g \<in> heights_of snaps"
    using "1.prems"(2) by (auto simp: pinnedHeights_def heights_of_def split: option.splits)
  show ?case
  proof (cases "retainedLeaves snaps > m \<and> evict_target pins snaps \<noteq> None")
    case False
    then have "enforce_loop m pins snaps = snaps"
      by (auto simp: enforce_loop.simps [of m pins snaps] split: option.splits)
    then show ?thesis
      using "1.prems"(3) g by simp
  next
    case True
    then obtain t where t: "evict_target pins snaps = Some t" and over: "m < retainedLeaves snaps"
      by blast
    let ?snaps = "filter (\<lambda>s. wr_height s \<in> - {t}) snaps"
    have loop: "enforce_loop m pins snaps = enforce_loop m pins ?snaps"
      using t over by (simp add: enforce_loop.simps [of m pins snaps])
    have step: "by_height snaps ?snaps"
      using evict_by_height [OF "1.prems"(1) t] by simp
    have last: "last ?snaps = last snaps" and sorted: "sorted (map wr_height ?snaps)"
      using by_height_last [OF step ne] by_height_sorted [OF step "1.prems"(1)] by simp_all
    have sub: "heights_of (enforce_loop m pins ?snaps) \<subseteq> heights_of snaps - {t}"
      using by_height_subset [OF enforce_loop_by_height [OF sorted, of m pins]]
      by (auto simp: heights_of_def)
    show ?thesis
    proof (cases "t \<in> set (pinnedHeights pins snaps)")
      case True
      then show ?thesis
        using evict_target_unpinned_first [OF t True, of h] last_uniq_heights [OF "1.prems"(1) ne]
          "1.prems"(4,5) sub loop by auto
    next
      case False
      then have "g \<noteq> t"
        using "1.prems"(2) by blast
      then have "g \<in> set (pinnedHeights pins ?snaps)"
        using "1.prems"(2) by (simp only: pinnedHeights_filter) simp
      then have "h \<in> set (pinnedHeights pins ?snaps)"
        using "1.IH" [OF over t] sorted "1.prems"(3-5) loop last by simp
      then show ?thesis
        by (simp only: pinnedHeights_filter)
    qed
  qed
qed

subsection \<open>RootWindows: properties\<close>

text \<open>In every reachable window the records hold at most \<open>window\<close> heights (when it is
  positive), at most two records per height, at most the configured number of leaves unless a
  single height is left, and no record disagrees with the snapshot it carries: root, height and
  SHA-256 root are the snapshot's own, and no unknown field rides along.\<close>

lemma windows_bounded_and_consistent:
  assumes "windows_reach window maxLeaves w"
  shows "(0 < window \<longrightarrow> card (heights_of (rw_snaps w)) \<le> window \<and> length (rw_snaps w) \<le> 2 * window)
    \<and> (0 < maxLeaves \<longrightarrow> retainedLeaves (rw_snaps w) \<le> maxLeaves \<or> card (heights_of (rw_snaps w)) \<le> 1)
    \<and> (\<forall>s \<in> set (rw_snaps w). \<forall>sn. wr_snapshot s = Some sn \<longrightarrow>
         sn_root sn = wr_root s \<and> sn_height sn = wr_height s \<and> sn_extra sn = []
         \<and> string_or_null (sn_shaRoot sn) = string_or_null (wr_shaRoot s))"
proof -
  have inv: "rw_inv w" and w: "rw_window w = window" "rw_maxLeaves w = maxLeaves"
    using windows_reach_inv [OF assms] by simp_all
  have "length (rw_snaps w) \<le> 2 * card (heights_of (rw_snaps w))"
  proof -
    let ?f = "\<lambda>s. (wr_height s, wr_order s)"
    have ok: "rec_ok s" if "s \<in> set (rw_snaps w)" for s
      using inv that by (simp add: rw_inv_def)
    have "inj_on ?f (set (rw_snaps w))"
      using inv ok window_key_inject unfolding rw_inv_def distinct_map inj_on_def by fastforce
    moreover have "?f ` set (rw_snaps w) \<subseteq> heights_of (rw_snaps w) \<times> set KNOWN_ORDERS"
      using ok by (auto simp: heights_of_def rec_ok_def)
    ultimately have "card (set (rw_snaps w)) \<le> card (heights_of (rw_snaps w) \<times> set KNOWN_ORDERS)"
      by (intro card_inj_on_le) (auto simp: heights_of_def)
    moreover have "distinct (rw_snaps w)"
      using inv by (auto simp: rw_inv_def distinct_map)
    ultimately show ?thesis
      by (simp add: distinct_card card_cartesian_product KNOWN_ORDERS_def mult.commute)
  qed
  then show ?thesis
    using inv w by (fastforce simp: rw_inv_def leaf_bounded_def rec_ok_def check_snapshot_def
        split: if_splits list.splits)
qed

text \<open>A concrete record for the witnesses.\<close>

definition demo_rec :: "int \<Rightarrow> string \<Rightarrow> string option \<Rightarrow> window_rec" where
  "demo_rec h root ord = \<lparr>wr_height = h, wr_root = root, wr_shaRoot = None, wr_ts = Num h, wr_order = ord,
     wr_blockHash = Some ''bh'', wr_setCommitment = Some ''sc'', wr_snapshot = Some
       \<lparr>sn_version = 2, sn_height = h, sn_blockHash = Some ''bh'', sn_depth = 16, sn_ts = Num h,
        sn_root = root, sn_shaRoot = None, sn_leaves = [''1'', ''2''], sn_extra = []\<rparr>\<rparr>"

definition demo_windows :: root_windows where
  "demo_windows = \<lparr>rw_window = 2, rw_maxLeaves = 3,
     rw_snaps = [demo_rec 5 ''b'' None]\<rparr>"

lemma demo_adopt:
  "RootWindows_adopt None (demo_rec 5 ''b'' None) (RootWindows_new 2 3) = Inr demo_windows"
  by code_simp

lemma demo_windows_reach: "windows_reach 2 3 demo_windows"
  by (rule wr_adopted [OF wr_start demo_adopt])

theorem windows_bounded_and_consistent_witness:
  "card (heights_of (rw_snaps demo_windows)) \<le> 2"
  using windows_bounded_and_consistent [OF demo_windows_reach] by simp

text \<open>An adopted snapshot at the highest height becomes the one the gateway serves, whatever
  the trim and the leaf bound evict: the window never drops the present. Every record of an older
  height is kept or dropped together with the others of its height.\<close>

lemma adopt_newest_is_current:
  assumes "windows_reach window maxLeaves w" "RootWindows_adopt pins r w = Inr w'"
    and "\<forall>s \<in> set (rw_snaps w). wr_height s \<le> wr_height r"
  shows "RootWindows_current w' = Some r \<and> RootWindows_isRecent w' (wr_root r)
    \<and> (\<exists>H. wr_height r \<in> H \<and> set (rw_snaps w') =
         {s \<in> insert r {s \<in> set (rw_snaps w). window_key s \<noteq> window_key r}. wr_height s \<in> H})"
proof -
  have inv: "rw_inv w"
    using windows_reach_inv [OF assms(1)] by simp
  then have d: "distinct (map window_key (rw_snaps w))"
    by (simp add: rw_inv_def)
  have last: "last (place_record r (rw_snaps w)) = r"
    by (rule place_record_last [OF d assms(3)])
  have bh: "by_height (place_record r (rw_snaps w)) (rw_snaps w')"
    by (rule adopt_by_height [OF inv assms(2)])
  have ne: "rw_snaps w' \<noteq> []" and l: "last (rw_snaps w') = r"
    using by_height_last [OF bh place_record_nonempty [OF d]] last by simp_all
  obtain H where "rw_snaps w' = filter (\<lambda>s. wr_height s \<in> H) (place_record r (rw_snaps w))" "wr_height r \<in> H"
    using bh last place_record_nonempty [OF d, of r] by (auto simp: by_height_def)
  then show ?thesis
    using ne l last_in_set [OF ne] set_place_record [OF d, of r]
    by (auto simp: RootWindows_current_def last_opt_def RootWindows_isRecent_def list_ex_iff)
qed

theorem adopt_newest_is_current_witness:
  "\<exists>w'. RootWindows_adopt (Some [''b'']) (demo_rec 9 ''c'' None) demo_windows = Inr w'
     \<and> RootWindows_current w' = Some (demo_rec 9 ''c'' None)"
proof -
  have "RootWindows_adopt (Some [''b'']) (demo_rec 9 ''c'' None) demo_windows
      = Inr (demo_windows\<lparr>rw_snaps := [demo_rec 9 ''c'' None]\<rparr>)"
    by code_simp
  moreover have "\<forall>s \<in> set (rw_snaps demo_windows). wr_height s \<le> wr_height (demo_rec 9 ''c'' None)"
    by (simp add: demo_windows_def demo_rec_def)
  ultimately show ?thesis
    using adopt_newest_is_current [OF demo_windows_reach] by blast
qed

text \<open>The leaf bound evicts unpinned heights first. When the bound drops a height some live
  challenge was minted against, every height it keeps, the newest apart, is pinned too.\<close>

lemma pinned_evicted_last:
  assumes "sorted (map wr_height snaps)"
    and "g \<in> set (pinnedHeights pins snaps)" "g \<notin> heights_of (enforceLeafBound m pins snaps)"
    and "h \<in> heights_of (enforceLeafBound m pins snaps)" "h \<noteq> wr_height (last snaps)"
  shows "h \<in> set (pinnedHeights pins (enforceLeafBound m pins snaps))"
proof -
  have "h \<in> set (pinnedHeights pins snaps)"
  proof (cases "0 < m")
    case True
    then show ?thesis
      using enforce_loop_pins [OF assms(1,2)] assms(3-5) by (simp add: enforceLeafBound_def)
  next
    case False
    then show ?thesis
      using assms(2,3) by (auto simp: enforceLeafBound_def pinnedHeights_def heights_of_def split: option.splits)
  qed
  moreover obtain H where H: "enforceLeafBound m pins snaps = filter (\<lambda>s. wr_height s \<in> H) snaps"
    using enforceLeafBound_by_height [OF assms(1), of m pins] by (auto simp: by_height_def)
  moreover have "h \<in> H"
    using assms(4) by (auto simp: H heights_of_def)
  ultimately show ?thesis
    by (simp only: pinnedHeights_filter)
qed

theorem pinned_evicted_last_witness:
  "2 \<in> set (pinnedHeights (Some [''a'', ''b''])
     (enforceLeafBound 4 (Some [''a'', ''b'']) [demo_rec 1 ''a'' None, demo_rec 2 ''b'' None, demo_rec 3 ''c'' None]))"
proof (rule pinned_evicted_last)
  let ?l = "[demo_rec 1 ''a'' None, demo_rec 2 ''b'' None, demo_rec 3 ''c'' None]"
  have run: "enforceLeafBound 4 (Some [''a'', ''b'']) ?l = [demo_rec 2 ''b'' None, demo_rec 3 ''c'' None]"
    by code_simp
  show "sorted (map wr_height ?l)" "1 \<in> set (pinnedHeights (Some [''a'', ''b'']) ?l)"
    "2 \<noteq> wr_height (last ?l)"
    by (simp_all add: demo_rec_def pinnedHeights_def pinned_rec_def)
  show "1 \<notin> heights_of (enforceLeafBound 4 (Some [''a'', ''b'']) ?l)"
    "2 \<in> heights_of (enforceLeafBound 4 (Some [''a'', ''b'']) ?l)"
    unfolding run by (simp_all add: heights_of_def demo_rec_def)
qed


lemma ts_loop_spec:
  "ts_loop root newest ss = Some t \<longleftrightarrow>
     (let T = {u. \<exists>s \<in> set ss. wr_root s = root \<and> wr_ts s = Num u} \<union> set_option newest
      in t \<in> T \<and> (\<forall>u \<in> T. u \<le> t))"
proof (induction root newest ss rule: ts_loop.induct)
  case (1 root newest)
  then show ?case
    by (cases newest) (auto simp: Let_def)
next
  case (2 root newest s ss)
  show ?case
  proof (cases "wr_root s = root")
    case False
    then show ?thesis
      using 2(1) by (auto simp: Let_def)
  next
    case root: True
    show ?thesis
    proof (cases "wr_ts s")
      case (Num ts)
      show ?thesis
      proof (cases newest)
        case None
        then show ?thesis
          using "2.IH"(2) root Num by (auto simp: Let_def)
      next
        case (Some n)
        then show ?thesis
          using "2.IH"(3) root Num by (auto simp: Let_def; force)
      qed
    qed (use "2.IH" root in \<open>auto simp: Let_def\<close>)
  qed
qed

text \<open>A root is eligible for registration within an age exactly when the window holds a record
  of it and, for a positive age, one of its records has a finite timestamp no older than that: the
  newest appearance counts, and a record without a usable timestamp never does.\<close>

lemma isEligibleWithin_correct:
  "RootWindows_isEligibleWithin w root maxAge now \<longleftrightarrow>
     (\<exists>s \<in> set (rw_snaps w). wr_root s = root \<and>
        (maxAge \<le> 0 \<or> (\<exists>t. wr_ts s = Num t \<and> now - t \<le> maxAge)))"
proof (cases "RootWindows_isRecent w root \<and> 0 < maxAge")
  case False
  then show ?thesis
    by (auto simp: RootWindows_isEligibleWithin_def RootWindows_isRecent_def list_ex_iff)
next
  case True
  let ?T = "{u. \<exists>s \<in> set (rw_snaps w). wr_root s = root \<and> wr_ts s = Num u}"
  have spec: "RootWindows_tsOf w root = Some t \<longleftrightarrow> t \<in> ?T \<and> (\<forall>u \<in> ?T. u \<le> t)" for t
    by (simp add: RootWindows_tsOf_def ts_loop_spec Let_def)
  have fin: "finite ?T"
  proof -
    have "?T \<subseteq> (\<lambda>s. case wr_ts s of Num u \<Rightarrow> u | _ \<Rightarrow> 0) ` set (rw_snaps w)"
      by (force simp: image_iff split: jsnum.splits)
    then show ?thesis
      by (rule finite_subset) simp
  qed
  show ?thesis
  proof (cases "?T = {}")
    case empty: True
    then have "RootWindows_tsOf w root = None"
      using spec by (metis empty_iff not_Some_eq)
    then show ?thesis
      using True empty by (auto simp: RootWindows_isEligibleWithin_def)
  next
    case False
    then obtain m where m: "m \<in> ?T" "\<forall>u \<in> ?T. u \<le> m"
      using Max_in [OF fin] Max_ge [OF fin] by blast
    then have "RootWindows_tsOf w root = Some m"
      using spec by blast
    moreover have "now - m \<le> maxAge \<longleftrightarrow> (\<exists>t \<in> ?T. now - t \<le> maxAge)"
      using m by (meson diff_left_mono order_trans)
    ultimately show ?thesis
      using True by (auto simp: RootWindows_isEligibleWithin_def)
  qed
qed

lemma sorted_by_inj_unique:
  "mset xs = mset ys \<Longrightarrow> inj f \<Longrightarrow> sorted (map f xs) \<Longrightarrow> sorted (map f ys) \<Longrightarrow> xs = ys"
proof -
  assume a: "mset xs = mset ys" "inj f" "sorted (map f xs)" "sorted (map f ys)"
  have "sort (map f ys) = map f xs"
    by (rule properties_for_sort) (use a in simp_all)
  then have "map f xs = map f ys"
    using a(4) by (simp add: sorted_sort_id)
  then show ?thesis
    using a(2) by (simp add: inj_map_eq_map)
qed

lemma sortLeaves_mset: "mset xs = mset ys \<Longrightarrow> sortLeaves xs = sortLeaves ys"
  unfolding sortLeaves_def
  by (rule sorted_by_inj_unique [of _ _ "\<lambda>s. (length s, s)"]) (simp_all add: inj_def)

lemma join_lines_inject:
  "(\<forall>s \<in> set xs. s \<noteq> [] \<and> CHR 0x0A \<notin> set s) \<Longrightarrow> (\<forall>s \<in> set ys. s \<noteq> [] \<and> CHR 0x0A \<notin> set s) \<Longrightarrow>
   join_lines xs = join_lines ys \<Longrightarrow> xs = ys"
proof (induction xs arbitrary: ys rule: join_lines.induct)
  case 1
  then show ?case by (cases ys rule: join_lines.cases) auto
next
  case (2 s)
  then show ?case by (cases ys rule: join_lines.cases) auto
next
  case (3 s t ss)
  show ?case
  proof (cases ys rule: join_lines.cases)
    case (3 u v us)
    then have "s = u \<and> join_lines (t # ss) = join_lines (v # us)"
      using "3.prems" split_at_separator [of "CHR 0x0A" s u] by simp
    then show ?thesis
      using "3.IH" [of "v # us"] "3.prems" 3 by simp
  qed (use "3.prems" in auto)
qed

text \<open>The leaf-set commitment depends only on the multiset of leaves, and on decimal leaves its
  preimage determines that multiset: order does not matter, duplicates do.\<close>

lemma leafSetCommitment_multiset:
  assumes "\<forall>s \<in> set xs \<union> set ys. isCanonicalField s"
  shows "((join_lines (sortLeaves xs) = join_lines (sortLeaves ys)) = (mset xs = mset ys)) \<and>
     (mset xs = mset ys \<longrightarrow> leafSetCommitment sha xs = leafSetCommitment sha ys)"
proof -
  have plain: "s \<noteq> [] \<and> CHR 0x0A \<notin> set s" if "isCanonicalField s" for s
    using that dec_of_nat_digits [of "CHR 0x0A"] by (auto simp: isCanonicalField_iff is_digit_def)
  have sets: "set (sortLeaves zs) = set zs" and msets: "mset (sortLeaves zs) = mset zs" for zs
    by (simp_all add: sortLeaves_def)
  have srt: "sortLeaves xs = sortLeaves ys" if "join_lines (sortLeaves xs) = join_lines (sortLeaves ys)"
  proof (rule join_lines_inject [OF _ _ that])
    show "\<forall>s \<in> set (sortLeaves xs). s \<noteq> [] \<and> CHR 0x0A \<notin> set s"
      using plain assms unfolding sets by blast
    show "\<forall>s \<in> set (sortLeaves ys). s \<noteq> [] \<and> CHR 0x0A \<notin> set s"
      using plain assms unfolding sets by blast
  qed
  have "mset xs = mset ys" if "join_lines (sortLeaves xs) = join_lines (sortLeaves ys)"
    using arg_cong [OF srt [OF that], of mset] by (simp only: msets)
  then have "(join_lines (sortLeaves xs) = join_lines (sortLeaves ys)) = (mset xs = mset ys)"
    using arg_cong [OF sortLeaves_mset [of xs ys], of join_lines] by blast
  then show ?thesis
    using sortLeaves_mset [of xs ys] by (simp add: leafSetCommitment_def)
qed

theorem leafSetCommitment_multiset_witness:
  "join_lines (sortLeaves [''12'', ''7'', ''7'']) = join_lines (sortLeaves [''7'', ''12'', ''7''])"
proof -
  have "\<forall>s \<in> set [''12'', ''7'', ''7''] \<union> set [''7'', ''12'', ''7'']. isCanonicalField s"
  proof -
    have "isCanonicalField (dec_of_nat 12)" "isCanonicalField (dec_of_nat 7)"
      by (simp_all add: isCanonicalField_dec_of_nat FIELD_PRIME_def)
    moreover have "dec_of_nat 12 = ''12''" "dec_of_nat 7 = ''7''"
      by code_simp+
    ultimately show ?thesis
      by simp
  qed
  then show ?thesis
    using leafSetCommitment_multiset [of "[''12'', ''7'', ''7'']" "[''7'', ''12'', ''7'']"]
    by (simp add: add_mset_commute)
qed

inductive guarded_reach :: "root_windows \<Rightarrow> bool" where
  gr_start: "guarded_reach (RootWindows_new window m)"
| gr_adopted: "guarded_reach w \<Longrightarrow>
     RootWindows_mayCoexist w (wr_height r) (wr_blockHash r) (wr_setCommitment r) \<Longrightarrow>
     RootWindows_adopt pins r w = Inr w' \<Longrightarrow> guarded_reach w'"
| gr_dropped: "guarded_reach w \<Longrightarrow> guarded_reach (RootWindows_dropOlderThan c w)"
| gr_cleared: "guarded_reach w \<Longrightarrow> guarded_reach (RootWindows_clear w)"

lemma guarded_reach_inv: "guarded_reach w \<Longrightarrow> rw_inv w"
  by (induction rule: guarded_reach.induct) (auto intro: rw_inv_new adopt_inv rw_inv_dropOlderThan rw_inv_clear)

text \<open>When every adoption at a held height is first asked of \<open>mayCoexist\<close>, as the gateway does,
  all records of one height name one block and commit to one leaf multiset.\<close>

lemma one_block_per_height:
  assumes "guarded_reach w" "r \<in> set (rw_snaps w)" "s \<in> set (rw_snaps w)" "wr_height r = wr_height s"
  shows "wr_blockHash r = wr_blockHash s \<and> wr_setCommitment r = wr_setCommitment s"
  using assms
proof (induction arbitrary: r s rule: guarded_reach.induct)
  case (gr_adopted w q pins w')
  have d: "distinct (map window_key (rw_snaps w))"
    using guarded_reach_inv [OF gr_adopted.hyps(1)] by (simp add: rw_inv_def)
  have origin: "x = q \<or> x \<in> set (rw_snaps w)" if "x \<in> set (rw_snaps w')" for x
    using by_height_subset [OF adopt_by_height [OF guarded_reach_inv [OF gr_adopted.hyps(1)] gr_adopted.hyps(3)]]
      set_place_record [OF d, of q] that by auto
  have q: "wr_blockHash x = wr_blockHash q \<and> wr_setCommitment x = wr_setCommitment q"
    if "x \<in> set (rw_snaps w)" "wr_height x = wr_height q" for x
    using gr_adopted.hyps(2) that
    by (auto simp: RootWindows_mayCoexist_def Let_def list_all_iff filter_empty_conv split: if_splits)
  show ?case
    using origin [OF gr_adopted.prems(1)] origin [OF gr_adopted.prems(2)] q gr_adopted.prems(3)
      gr_adopted.IH by metis
qed (auto simp: RootWindows_new_def RootWindows_clear_def RootWindows_dropOlderThan_def)

theorem one_block_per_height_witness:
  "wr_blockHash (demo_rec 5 ''b'' None) = wr_blockHash (demo_rec 5 ''c'' (Some ''proRegTxHash''))"
proof -
  let ?r = "demo_rec 5 ''b'' None" and ?s = "demo_rec 5 ''c'' (Some ''proRegTxHash'')"
  have a: "guarded_reach (RootWindows_new 2 0\<lparr>rw_snaps := [?r]\<rparr>)"
  proof (rule gr_adopted [OF gr_start])
    show "RootWindows_adopt None ?r (RootWindows_new 2 0) = Inr (RootWindows_new 2 0\<lparr>rw_snaps := [?r]\<rparr>)"
      by code_simp
  qed code_simp
  have b: "guarded_reach (RootWindows_new 2 0\<lparr>rw_snaps := [?r, ?s]\<rparr>)"
  proof (rule gr_adopted [OF a])
    show "RootWindows_adopt None ?s (RootWindows_new 2 0\<lparr>rw_snaps := [?r]\<rparr>)
        = Inr (RootWindows_new 2 0\<lparr>rw_snaps := [?r, ?s]\<rparr>)"
      by code_simp
  qed code_simp
  show ?thesis
    using one_block_per_height [OF b, of ?r ?s] by (simp add: demo_rec_def)
qed

end
