(* ===== verification/Limits.thy ===== *)
theory Limits
  imports Js_Map
begin

section \<open>Rate limiter and concurrency gate (core/stores.js)\<close>

text \<open>
  \<open>RateLimiter\<close>, \<open>allowAll\<close> and \<open>Semaphore\<close>. The limiter's table is an
  insertion-ordered map, since eviction takes its first key. The clock is an argument of every
  operation that reads it. The semaphore's \<open>run\<close> awaits twice, so it is three operations:
  entering, resuming a woken waiter and releasing; a step relation interleaves them.
\<close>

subsection \<open>The fixed-window limiter\<close>

record rl_entry =
  en_count :: int
  en_reset :: int

record 'k rate_limiter =
  rl_windowMs :: int
  rl_max :: int
  rl_maxKeys :: nat
  rl_hits :: "('k, rl_entry) jsmap"

definition RateLimiter_new :: "int \<Rightarrow> int \<Rightarrow> nat \<Rightarrow> 'k rate_limiter" where
  "RateLimiter_new windowSeconds m maxKeys =
     \<lparr>rl_windowMs = windowSeconds * 1000, rl_max = m, rl_maxKeys = maxKeys, rl_hits = []\<rparr>"

definition RateLimiter_sweep :: "int \<Rightarrow> 'k rate_limiter \<Rightarrow> 'k rate_limiter" where
  "RateLimiter_sweep now l = l\<lparr>rl_hits := filter (\<lambda>(k, e). \<not> now > en_reset e) (rl_hits l)\<rparr>"

text \<open>\<open>while (size >= maxKeys) delete the first key\<close>, stopping on an empty table.\<close>

function evict_oldest :: "nat \<Rightarrow> ('k, 'v) jsmap \<Rightarrow> ('k, 'v) jsmap" where
  "evict_oldest maxKeys [] = []"
| "evict_oldest maxKeys (e # m) =
     (if length (e # m) \<ge> maxKeys then evict_oldest maxKeys (jm_delete (fst e) (e # m)) else e # m)"
  by pat_completeness auto

termination
  by (relation "measure (\<lambda>(n, m). length m)") (simp_all add: jm_delete_def le_imp_less_Suc)

definition make_room :: "int \<Rightarrow> 'k rate_limiter \<Rightarrow> 'k rate_limiter" where
  "make_room now l =
     (if length (rl_hits l) \<ge> rl_maxKeys l
      then (let l1 = RateLimiter_sweep now l
            in l1\<lparr>rl_hits := evict_oldest (rl_maxKeys l1) (rl_hits l1)\<rparr>)
      else l)"

definition RateLimiter_allow :: "int \<Rightarrow> 'k \<Rightarrow> 'k rate_limiter \<Rightarrow> 'k rate_limiter \<times> bool" where
  "RateLimiter_allow now key l =
     (case jm_get (rl_hits l) key of
        None \<Rightarrow>
          (let l1 = make_room now l;
               e = \<lparr>en_count = 0, en_reset = now + rl_windowMs l\<rparr>;
               e1 = e\<lparr>en_count := en_count e + 1\<rparr>
           in (l1\<lparr>rl_hits := jm_set key e1 (rl_hits l1)\<rparr>, en_count e1 \<le> rl_max l))
      | Some e0 \<Rightarrow>
          (let e = (if now > en_reset e0 then \<lparr>en_count = 0, en_reset = now + rl_windowMs l\<rparr> else e0);
               e1 = e\<lparr>en_count := en_count e + 1\<rparr>
           in (l\<lparr>rl_hits := jm_set key e1 (rl_hits l)\<rparr>, en_count e1 \<le> rl_max l)))"

definition RateLimiter_wouldAllow :: "int \<Rightarrow> 'k \<Rightarrow> 'k rate_limiter \<Rightarrow> bool" where
  "RateLimiter_wouldAllow now key l =
     (case jm_get (rl_hits l) key of
        None \<Rightarrow> True
      | Some e \<Rightarrow> if now > en_reset e then True else en_count e + 1 \<le> rl_max l)"

text \<open>
  \<open>allowAll\<close> is given limiter objects, and one limiter may be listed twice; so the limiters
  live in a store and a pair names one by its address.
\<close>

type_synonym ('i, 'k) limiters = "'i \<Rightarrow> 'k rate_limiter"

definition charge :: "int \<Rightarrow> 'i \<times> 'k \<Rightarrow> ('i, 'k) limiters \<Rightarrow> ('i, 'k) limiters" where
  "charge now p L = L(fst p := fst (RateLimiter_allow now (snd p) (L (fst p))))"

definition allowAll :: "int \<Rightarrow> ('i \<times> 'k) list \<Rightarrow> ('i, 'k) limiters \<Rightarrow> ('i, 'k) limiters \<times> bool" where
  "allowAll now pairs L =
     (if \<exists>p \<in> set pairs. \<not> RateLimiter_wouldAllow now (snd p) (L (fst p)) then (L, False)
      else (fold (charge now) pairs L, True))"

subsection \<open>Lemmas of the limiter\<close>

definition rl_inv :: "'k rate_limiter \<Rightarrow> bool" where
  "rl_inv l \<longleftrightarrow> jm_wf (rl_hits l) \<and> length (rl_hits l) \<le> max 1 (rl_maxKeys l)"

lemma evict_wf: "jm_wf m \<Longrightarrow> jm_wf (evict_oldest n m)"
proof (induction n m rule: evict_oldest.induct)
  case (2 n e m)
  then show ?case
    using jm_wf_delete [OF 2(2), of "fst e"] by simp
qed simp

lemma evict_drop: "jm_wf m \<Longrightarrow> \<exists>i. evict_oldest n m = drop i m"
proof (induction n m rule: evict_oldest.induct)
  case (1 n)
  then show ?case by simp
next
  case (2 n e m)
  have wf: "jm_wf m"
    using jm_wf_tl [OF 2(2)] by simp
  show ?case
  proof (cases "length (e # m) \<ge> n")
    case True
    then obtain i where "evict_oldest n m = drop i m"
      using 2(1) wf jm_delete_hd [OF 2(2)] by auto
    then have "evict_oldest n (e # m) = drop (Suc i) (e # m)"
      using True jm_delete_hd [OF 2(2)] by simp
    then show ?thesis ..
  next
    case False
    then have "evict_oldest n (e # m) = drop 0 (e # m)"
      by simp
    then show ?thesis ..
  qed
qed

lemma evict_room: "evict_oldest n m = [] \<or> length (evict_oldest n m) < n"
  by (induction n m rule: evict_oldest.induct) auto

lemma evict_small: "length m < n \<Longrightarrow> evict_oldest n m = m"
  by (cases m) auto

lemma sweep_wf: "jm_wf (rl_hits l) \<Longrightarrow> jm_wf (rl_hits (RateLimiter_sweep now l))"
  by (simp add: RateLimiter_sweep_def)

lemma make_room_fields [simp]:
  "rl_max (make_room now l) = rl_max l" "rl_windowMs (make_room now l) = rl_windowMs l"
  "rl_maxKeys (make_room now l) = rl_maxKeys l"
  by (simp_all add: make_room_def RateLimiter_sweep_def Let_def)

lemma make_room_wf: "jm_wf (rl_hits l) \<Longrightarrow> jm_wf (rl_hits (make_room now l))"
  by (simp add: make_room_def Let_def evict_wf sweep_wf)

lemma make_room_length:
  "rl_hits (make_room now l) = [] \<or> length (rl_hits (make_room now l)) < rl_maxKeys l"
  using evict_room [of "rl_maxKeys l" "rl_hits (RateLimiter_sweep now l)"]
  by (auto simp: make_room_def Let_def RateLimiter_sweep_def)

lemma make_room_sub:
  fixes l :: "'k rate_limiter"
  assumes "jm_wf (rl_hits l)"
  shows "set (rl_hits (make_room now l)) \<subseteq> set (rl_hits l)"
proof -
  obtain i where i: "evict_oldest (rl_maxKeys l) (rl_hits (RateLimiter_sweep now l))
      = drop i (rl_hits (RateLimiter_sweep now l))"
    using evict_drop [OF sweep_wf [OF assms, of now]] by blast
  have sub: "set (rl_hits (RateLimiter_sweep now l)) \<subseteq> set (rl_hits l)"
    by (auto simp: RateLimiter_sweep_def)
  have fields: "rl_maxKeys (RateLimiter_sweep now l) = rl_maxKeys l"
    by (simp add: RateLimiter_sweep_def)
  show ?thesis
  proof (cases "length (rl_hits l) \<ge> rl_maxKeys l")
    case True
    then have "rl_hits (make_room now l) = drop i (rl_hits (RateLimiter_sweep now l))"
      using i fields by (simp add: make_room_def Let_def)
    then have "set (rl_hits (make_room now l)) \<subseteq> set (rl_hits (RateLimiter_sweep now l))"
      by (simp only: set_drop_subset)
    then show ?thesis
      using sub by (rule subset_trans)
  next
    case False
    then show ?thesis
      by (simp add: make_room_def)
  qed
qed

lemma make_room_get:
  "jm_wf (rl_hits l) \<Longrightarrow> jm_get (rl_hits (make_room now l)) k = None \<or>
     jm_get (rl_hits (make_room now l)) k = jm_get (rl_hits l) k"
proof -
  assume wf: "jm_wf (rl_hits l)"
  show ?thesis
  proof (cases "jm_get (rl_hits (make_room now l)) k")
    case (Some e)
    then have "(k, e) \<in> set (rl_hits l)"
      by (rule subsetD [OF make_room_sub [OF wf] jm_get_in_set])
    then have "jm_get (rl_hits l) k = Some e"
      by (simp only: jm_wf_get_iff [OF wf])
    then show ?thesis
      using Some by (intro disjI2) (simp only:)
  qed (simp only: simp_thms)
qed

lemma allow_fields [simp]:
  "rl_max (fst (RateLimiter_allow now k l)) = rl_max l"
  "rl_windowMs (fst (RateLimiter_allow now k l)) = rl_windowMs l"
  "rl_maxKeys (fst (RateLimiter_allow now k l)) = rl_maxKeys l"
  by (simp_all add: RateLimiter_allow_def Let_def split: option.splits)

lemma jm_keys_le: "jm_get m k = Some v \<Longrightarrow> length (jm_set k w m) = length m"
  by (simp add: jm_length_set jm_has_get)

lemma rl_inv_new [keep]: "rl_inv (RateLimiter_new w m n)"
  by (simp add: rl_inv_def RateLimiter_new_def)

lemma rl_inv_sweep [keep]: "rl_inv l \<Longrightarrow> rl_inv (RateLimiter_sweep now l)"
  by (auto simp: rl_inv_def RateLimiter_sweep_def intro: order_trans [OF length_filter_le])

lemma rl_inv_allow [keep]: "rl_inv l \<Longrightarrow> rl_inv (fst (RateLimiter_allow now k l))"
proof (cases "jm_get (rl_hits l) k")
  case None
  assume "rl_inv l"
  then show ?thesis
    using None make_room_length [of now l] make_room_wf [of l now]
    by (auto simp: rl_inv_def RateLimiter_allow_def Let_def jm_length_set)
next
  case (Some e)
  assume "rl_inv l"
  then show ?thesis
    using Some by (auto simp: rl_inv_def RateLimiter_allow_def Let_def jm_keys_le)
qed

lemma allow_answer: "jm_get (rl_hits l) k = None \<Longrightarrow> snd (RateLimiter_allow now k l) \<longleftrightarrow> 1 \<le> rl_max l"
  by (simp add: RateLimiter_allow_def Let_def)

lemma allow_iff_wouldAllow:
  "1 \<le> rl_max l \<Longrightarrow> snd (RateLimiter_allow now k l) \<longleftrightarrow> RateLimiter_wouldAllow now k l"
  by (simp add: RateLimiter_allow_def RateLimiter_wouldAllow_def Let_def split: option.split)

lemma allow_other_get:
  "jm_wf (rl_hits l) \<Longrightarrow> k' \<noteq> k \<Longrightarrow>
   jm_get (rl_hits (fst (RateLimiter_allow now k l))) k' = None \<or>
   jm_get (rl_hits (fst (RateLimiter_allow now k l))) k' = jm_get (rl_hits l) k'"
  using make_room_get [of l now k'] by (auto simp: RateLimiter_allow_def Let_def split: option.splits)

lemma wouldAllow_after_other:
  "jm_wf (rl_hits l) \<Longrightarrow> k' \<noteq> k \<Longrightarrow> RateLimiter_wouldAllow now k' l \<Longrightarrow>
   RateLimiter_wouldAllow now k' (fst (RateLimiter_allow now k l))"
  using allow_other_get [of l k' k now]
  by (auto simp: RateLimiter_wouldAllow_def split: option.splits if_splits)

text \<open>The calls of one run: each has its clock reading and its key, and an answer.\<close>

fun rl_run :: "(int \<times> 'k) list \<Rightarrow> 'k rate_limiter \<Rightarrow> ('k \<times> bool) list" where
  "rl_run [] l = []"
| "rl_run ((now, k) # cs) l =
     (k, snd (RateLimiter_allow now k l)) # rl_run cs (fst (RateLimiter_allow now k l))"

definition answers_for :: "'k \<Rightarrow> ('k \<times> bool) list \<Rightarrow> bool list" where
  "answers_for k as = map snd (filter (\<lambda>a. fst a = k) as)"

definition keys_of :: "'k rate_limiter \<Rightarrow> 'k set" where
  "keys_of l = fst ` set (rl_hits l)"

lemma card_bound_sub: "card B \<le> n \<Longrightarrow> finite B \<Longrightarrow> A \<subseteq> B \<Longrightarrow> card A \<le> n"
  by (rule order_trans [OF card_mono])

lemma finite_keys_of [simp]: "finite (keys_of l)"
  by (simp add: keys_of_def)

lemma keys_of_allow_unfull:
  assumes "jm_wf (rl_hits l)" "card (insert k (keys_of l)) \<le> rl_maxKeys l"
  shows "RateLimiter_allow now k l =
     (let e = (case jm_get (rl_hits l) k of None \<Rightarrow> \<lparr>en_count = 0, en_reset = now + rl_windowMs l\<rparr>
                | Some e0 \<Rightarrow> if now > en_reset e0 then \<lparr>en_count = 0, en_reset = now + rl_windowMs l\<rparr> else e0);
          e1 = e\<lparr>en_count := en_count e + 1\<rparr>
      in (l\<lparr>rl_hits := jm_set k e1 (rl_hits l)\<rparr>, en_count e1 \<le> rl_max l))"
proof (cases "jm_get (rl_hits l) k")
  case None
  have "card (keys_of l) = length (rl_hits l)"
    using assms(1) distinct_card [of "map fst (rl_hits l)"] by (simp add: keys_of_def jm_wf_def)
  moreover have "k \<notin> keys_of l"
    using None jm_has_keys [of "rl_hits l" k] by (simp add: keys_of_def jm_has_get)
  ultimately have "length (rl_hits l) < rl_maxKeys l"
    using assms(2) by (simp add: keys_of_def)
  then show ?thesis
    using None by (simp add: RateLimiter_allow_def make_room_def Let_def)
next
  case (Some e)
  then show ?thesis
    by (simp add: RateLimiter_allow_def Let_def)
qed

lemma keys_of_set: "jm_wf (rl_hits l) \<Longrightarrow> keys_of (l\<lparr>rl_hits := jm_set k e (rl_hits l)\<rparr>) = insert k (keys_of l)"
  by (force simp: keys_of_def jm_set_set jm_delete_def image_iff)

lemma run_answers:
  "jm_wf (rl_hits l) \<Longrightarrow> card (keys_of l \<union> snd ` set cs) \<le> rl_maxKeys l \<Longrightarrow>
   jm_get (rl_hits l) k = Some e \<Longrightarrow> \<forall>c \<in> set cs. snd c = k \<longrightarrow> fst c \<le> en_reset e \<Longrightarrow>
   answers_for k (rl_run cs l) =
     map (\<lambda>i. en_count e + int i < rl_max l) [0..<length (filter (\<lambda>c. snd c = k) cs)]"
proof (induction cs arbitrary: l e)
  case Nil
  then show ?case by (simp add: answers_for_def)
next
  case (Cons c cs)
  obtain now k' where c: "c = (now, k')"
    by (cases c)
  have "card (insert k' (keys_of l)) \<le> rl_maxKeys l"
    by (rule card_bound_sub [OF Cons.prems(2)]) (auto simp: c)
  note step = keys_of_allow_unfull [OF Cons.prems(1) this, of now]
  let ?l1 = "fst (RateLimiter_allow now k' l)"
  have wf1: "jm_wf (rl_hits ?l1)"
    using Cons.prems(1) by (simp add: step Let_def)
  have "keys_of ?l1 = insert k' (keys_of l)"
    using keys_of_set [OF Cons.prems(1)] by (simp add: step Let_def)
  then have card1: "card (keys_of ?l1 \<union> snd ` set cs) \<le> rl_maxKeys ?l1"
    using Cons.prems(2) c by simp
  show ?case
  proof (cases "k' = k")
    case False
    then have "jm_get (rl_hits ?l1) k = Some e"
      using Cons.prems(3) by (simp add: step Let_def)
    then show ?thesis
      using Cons.IH [OF wf1 card1] Cons.prems(4) c False by (simp add: answers_for_def)
  next
    case True
    then have get1: "jm_get (rl_hits ?l1) k = Some (e\<lparr>en_count := en_count e + 1\<rparr>)"
      using Cons.prems(3,4) c step True by (auto simp: Let_def)
    have ans: "snd (RateLimiter_allow now k l) \<longleftrightarrow> en_count e < rl_max l"
      using Cons.prems(3,4) c True step by (auto simp: Let_def)
    have "answers_for k (rl_run cs ?l1) =
        map (\<lambda>i. en_count e + int (Suc i) < rl_max l) [0..<length (filter (\<lambda>c. snd c = k) cs)]"
      using Cons.IH [OF wf1 card1 get1] Cons.prems(4) by (simp add: add.assoc)
    then show ?thesis
      using c True ans by (simp add: answers_for_def upt_conv_Cons map_Suc_upt [symmetric] del: upt_Suc)
  qed
qed

subsection \<open>Properties of the limiter\<close>

text \<open>While the key table has room, a fixed window is exact: of the calls one key makes from
  the call that opens its window to that window's reset, the first \<open>max\<close> are allowed and every
  later one is refused, whatever other keys do in between.\<close>

lemma fixed_window_exact:
  assumes "rl_inv l" "card (keys_of l \<union> insert k (snd ` set cs)) \<le> rl_maxKeys l"
    and "jm_get (rl_hits l) k = None \<or> (\<exists>e. jm_get (rl_hits l) k = Some e \<and> now > en_reset e)"
    and "\<forall>c \<in> set cs. snd c = k \<longrightarrow> fst c \<le> now + rl_windowMs l"
  shows "answers_for k (rl_run ((now, k) # cs) l) =
     map (\<lambda>i. int i < rl_max l) [0..<Suc (length (filter (\<lambda>c. snd c = k) cs))]"
proof -
  have wf: "jm_wf (rl_hits l)"
    using assms(1) by (simp add: rl_inv_def)
  have "card (insert k (keys_of l)) \<le> rl_maxKeys l"
    by (rule card_bound_sub [OF assms(2)]) auto
  note step = keys_of_allow_unfull [OF wf this, of now]
  let ?e = "\<lparr>en_count = 1, en_reset = now + rl_windowMs l\<rparr>"
  have st: "RateLimiter_allow now k l = (l\<lparr>rl_hits := jm_set k ?e (rl_hits l)\<rparr>, 1 \<le> rl_max l)"
    using assms(3) by (auto simp: step Let_def)
  let ?l1 = "l\<lparr>rl_hits := jm_set k ?e (rl_hits l)\<rparr>"
  have "answers_for k (rl_run cs ?l1) =
      map (\<lambda>i. en_count ?e + int i < rl_max ?l1) [0..<length (filter (\<lambda>c. snd c = k) cs)]"
    using assms(2,4) wf by (intro run_answers) (simp_all add: keys_of_set)
  then show ?thesis
    by (auto simp: st answers_for_def upt_conv_Cons map_Suc_upt [symmetric] simp del: upt_Suc)
qed

theorem fixed_window_exact_witness:
  "answers_for (7::nat) (rl_run [(0, 7), (1, 8), (2, 7), (1000, 7)] (RateLimiter_new 1 2 5)) = [True, True, False]"
proof -
  let ?l = "RateLimiter_new 1 2 5 :: nat rate_limiter" and ?cs = "[(1, 8), (2, 7), (1000, 7)] :: (int \<times> nat) list"
  have "answers_for 7 (rl_run ((0, 7) # ?cs) ?l) =
      map (\<lambda>i. int i < rl_max ?l) [0..<Suc (length (filter (\<lambda>c. snd c = 7) ?cs))]"
  proof (rule fixed_window_exact)
    show "rl_inv ?l"
      by (rule rl_inv_new)
    show "card (keys_of ?l \<union> insert 7 (snd ` set ?cs)) \<le> rl_maxKeys ?l"
      by (simp add: keys_of_def RateLimiter_new_def card_insert_if)
  qed (simp_all add: RateLimiter_new_def)
  also have "\<dots> = [True, True, False]"
    by (simp add: RateLimiter_new_def upt_rec)
  finally show ?thesis
    by simp
qed

text \<open>The limiter's own table is bounded, and a full one locks nobody out: a key it has not
  seen is allowed whenever the limit admits anything at all.\<close>

lemma limiter_bounded_and_open:
  assumes "rl_inv l"
  shows "length (rl_hits (fst (RateLimiter_allow now k l))) \<le> max 1 (rl_maxKeys l) \<and>
     (jm_get (rl_hits l) k = None \<longrightarrow> 1 \<le> rl_max l \<longrightarrow> snd (RateLimiter_allow now k l))"
  using rl_inv_allow [OF assms, of now k] allow_answer [of l k now] by (simp add: rl_inv_def)

theorem limiter_bounded_and_open_witness:
  "snd (RateLimiter_allow 0 (3::nat) (fst (RateLimiter_allow 0 2 (RateLimiter_new 1 1 1))))"
proof -
  let ?l = "fst (RateLimiter_allow 0 (2::nat) (RateLimiter_new 1 1 1))"
  have "rl_inv ?l"
    by (intro rl_inv_allow rl_inv_new)
  moreover have "jm_get (rl_hits ?l) 3 = None" "1 \<le> rl_max ?l"
    by code_simp+
  ultimately show ?thesis
    using limiter_bounded_and_open [of ?l 0 3] by blast
qed

lemma charges_granted:
  "distinct ps \<Longrightarrow> \<forall>p \<in> set ps. 1 \<le> rl_max (L (fst p)) \<and> jm_wf (rl_hits (L (fst p))) \<and>
     RateLimiter_wouldAllow now (snd p) (L (fst p)) \<Longrightarrow> ps = qs @ p # rs \<Longrightarrow>
   snd (RateLimiter_allow now (snd p) (fold (charge now) qs L (fst p)))"
proof (induction qs arbitrary: ps L)
  case Nil
  then show ?case
    by (simp add: allow_iff_wouldAllow)
next
  case (Cons q qs)
  have wf: "jm_wf (rl_hits (L (fst q)))"
    using Cons.prems by simp
  let ?L = "charge now q L"
  have wf1: "jm_wf (rl_hits (fst (RateLimiter_allow now (snd q) (L (fst q)))))"
    using wf make_room_wf [OF wf, of now]
    by (auto simp: RateLimiter_allow_def Let_def split: option.split)
  have keeps: "1 \<le> rl_max (?L (fst r)) \<and> jm_wf (rl_hits (?L (fst r))) \<and>
      RateLimiter_wouldAllow now (snd r) (?L (fst r))" if "r \<in> set (qs @ p # rs)" for r
  proof (cases "fst r = fst q")
    case True
    moreover have "r \<noteq> q"
      using Cons.prems(1,3) that by auto
    ultimately have "snd r \<noteq> snd q"
      by (simp add: prod_eq_iff)
    moreover have "1 \<le> rl_max (L (fst q))" "RateLimiter_wouldAllow now (snd r) (L (fst q))"
      using Cons.prems(2,3) that True by (metis list.set_intros(2) append_Cons)+
    ultimately show ?thesis
      using True wf1 wouldAllow_after_other [OF wf, of "snd r" "snd q" now]
      by (simp add: charge_def)
  next
    case False
    then show ?thesis
      using Cons.prems(2,3) that by (auto simp: charge_def)
  qed
  have "distinct (qs @ p # rs)"
    using Cons.prems(1,3) by simp
  from Cons.IH [OF this, of ?L] keeps show ?case
    by simp
qed

text \<open>Several buckets are charged together or not at all: a refusal leaves every limiter as it
  was, and after an acceptance no bucket's own charge is refused, even when charging one bucket
  evicts entries of a table another pair uses.\<close>

lemma allowAll_all_or_nothing:
  assumes "distinct pairs" "\<forall>p \<in> set pairs. 1 \<le> rl_max (L (fst p)) \<and> rl_inv (L (fst p))"
  shows "(\<not> snd (allowAll now pairs L) \<longrightarrow> fst (allowAll now pairs L) = L) \<and>
     (snd (allowAll now pairs L) \<longrightarrow> (\<forall>qs p rs. pairs = qs @ p # rs \<longrightarrow>
        snd (RateLimiter_allow now (snd p) (fold (charge now) qs L (fst p)))))"
  using charges_granted [OF assms(1), of L now] assms(2) by (auto simp: allowAll_def rl_inv_def)

theorem allowAll_all_or_nothing_witness:
  "snd (RateLimiter_allow 0 (2::nat)
     (fold (charge 0) [(0::nat, 1)] (\<lambda>i. RateLimiter_new 60 1 1) 0))"
proof -
  let ?L = "\<lambda>i::nat. RateLimiter_new 60 1 1 :: nat rate_limiter" and ?ps = "[(0::nat, 1::nat), (0, 2)]"
  have ok: "snd (allowAll 0 ?ps ?L)"
    by (simp add: allowAll_def RateLimiter_wouldAllow_def RateLimiter_new_def)
  have "distinct ?ps" "\<forall>p \<in> set ?ps. 1 \<le> rl_max (?L (fst p)) \<and> rl_inv (?L (fst p))"
    by (simp_all add: rl_inv_new) (simp_all add: RateLimiter_new_def)
  note all = conjunct2 [OF allowAll_all_or_nothing [OF this, of 0], THEN mp, OF ok]
  have "?ps = [(0, 1)] @ (0, 2) # []"
    by simp
  from all [THEN spec, THEN spec, THEN spec, THEN mp, OF this] show ?thesis
    by (simp only: fst_conv snd_conv)
qed

subsection \<open>The concurrency gate\<close>

text \<open>
  The two fields the code keeps, \<open>active\<close> and the FIFO of pending resolvers, with the bounds the
  constructor clamps. A resolver stands for the call that waits on it. \<open>sm_woken\<close> and
  \<open>sm_running\<close> are where the calls are that the code's own fields do not show: resolved but not
  yet resumed by the event loop, and inside \<open>fn\<close>.
\<close>

record 'c semaphore =
  sm_max :: int
  sm_maxQueue :: int
  sm_active :: int
  sm_queue :: "'c list"
  sm_woken :: "'c list"
  sm_running :: "'c list"

definition Semaphore_new :: "int \<Rightarrow> int \<Rightarrow> 'c semaphore" where
  "Semaphore_new m q = \<lparr>sm_max = max 1 m, sm_maxQueue = max 0 q, sm_active = 0, sm_queue = [],
     sm_woken = [], sm_running = []\<rparr>"

datatype gate_outcome = Took_slot | Queued | Overloaded

text \<open>\<open>run\<close> up to its first await.\<close>

definition Semaphore_enter :: "'c \<Rightarrow> 'c semaphore \<Rightarrow> 'c semaphore \<times> gate_outcome" where
  "Semaphore_enter c s =
     (if sm_active s < sm_max s
      then (s\<lparr>sm_active := sm_active s + 1, sm_running := c # sm_running s\<rparr>, Took_slot)
      else if int (length (sm_queue s)) < sm_maxQueue s
      then (s\<lparr>sm_queue := sm_queue s @ [c]\<rparr>, Queued)
      else (s, Overloaded))"

text \<open>A woken waiter resumes and calls \<open>fn\<close>, without touching \<open>active\<close>.\<close>

definition Semaphore_resume :: "'c \<Rightarrow> 'c semaphore \<Rightarrow> 'c semaphore" where
  "Semaphore_resume c s = s\<lparr>sm_woken := remove1 c (sm_woken s), sm_running := c # sm_running s\<rparr>"

text \<open>The \<open>finally\<close> block, after \<open>fn\<close> settled either way.\<close>

definition Semaphore_release :: "'c \<Rightarrow> 'c semaphore \<Rightarrow> 'c semaphore" where
  "Semaphore_release c s =
     (let s1 = s\<lparr>sm_running := remove1 c (sm_running s)\<rparr>
      in case sm_queue s1 of
           next # rest \<Rightarrow> s1\<lparr>sm_queue := rest, sm_woken := sm_woken s1 @ [next]\<rparr>
         | [] \<Rightarrow> s1\<lparr>sm_active := sm_active s1 - 1\<rparr>)"

text \<open>The event loop interleaves calls: a new call enters, a woken one resumes, one that runs ends.\<close>

inductive gate_step :: "'c semaphore \<Rightarrow> 'c semaphore \<Rightarrow> bool" where
  enters: "c \<notin> set (sm_queue s @ sm_woken s @ sm_running s) \<Longrightarrow> gate_step s (fst (Semaphore_enter c s))"
| resumes: "c \<in> set (sm_woken s) \<Longrightarrow> gate_step s (Semaphore_resume c s)"
| ends: "c \<in> set (sm_running s) \<Longrightarrow> gate_step s (Semaphore_release c s)"

inductive_cases gate_step_elim: "gate_step s s'"

inductive gate_reach :: "int \<Rightarrow> int \<Rightarrow> 'c semaphore \<Rightarrow> bool" for m q where
  gate_start: "gate_reach m q (Semaphore_new m q)"
| gate_next: "gate_reach m q s \<Longrightarrow> gate_step s s' \<Longrightarrow> gate_reach m q s'"

definition gate_inv :: "int \<Rightarrow> int \<Rightarrow> 'c semaphore \<Rightarrow> bool" where
  "gate_inv m q s \<longleftrightarrow> sm_max s = max 1 m \<and> sm_maxQueue s = max 0 q \<and>
     sm_active s = int (length (sm_running s) + length (sm_woken s)) \<and> sm_active s \<le> sm_max s \<and>
     int (length (sm_queue s)) \<le> sm_maxQueue s \<and> (sm_queue s \<noteq> [] \<longrightarrow> sm_active s = sm_max s) \<and>
     distinct (sm_queue s @ sm_woken s @ sm_running s)"

lemma remove1_length: "c \<in> set xs \<Longrightarrow> length xs = Suc (length (remove1 c xs))"
  by (metis One_nat_def Suc_pred length_pos_if_in_set length_remove1)

lemma gate_inv_release:
  assumes "gate_inv m q s" "c \<in> set (sm_running s)"
  shows "gate_inv m q (Semaphore_release c s)"
proof -
  have d: "distinct (remove1 c (sm_running s))" "set (remove1 c (sm_running s)) \<subseteq> set (sm_running s)"
    using assms(1) by (auto simp: gate_inv_def set_remove1_subset distinct_remove1)
  note len = remove1_length [OF assms(2)]
  show ?thesis
  proof (cases "sm_queue s")
    case Nil
    then show ?thesis
      using assms(1) d len by (auto simp: gate_inv_def Semaphore_release_def)
  next
    case (Cons x xs)
    then show ?thesis
      using assms(1) d len by (auto simp: gate_inv_def Semaphore_release_def)
  qed
qed

lemma gate_inv_step: "gate_step s s' \<Longrightarrow> gate_inv m q s \<Longrightarrow> gate_inv m q s'"
proof (induction rule: gate_step.induct)
  case (enters c s)
  then show ?case
    by (auto simp: gate_inv_def Semaphore_enter_def)
next
  case (resumes c s)
  then have "length (sm_woken s) = Suc (length (remove1 c (sm_woken s)))"
    by (simp only: remove1_length)
  moreover have "distinct (remove1 c (sm_woken s))" "set (remove1 c (sm_woken s)) = set (sm_woken s) - {c}"
    using resumes by (simp_all add: gate_inv_def distinct_remove1)
  ultimately show ?case
    using resumes by (auto simp: gate_inv_def Semaphore_resume_def)
next
  case (ends c s)
  then show ?case
    by (simp only: gate_inv_release)
qed

lemma gate_reach_inv: "gate_reach m q s \<Longrightarrow> gate_inv m q s"
proof (induction rule: gate_reach.induct)
  case gate_start
  then show ?case
    by (simp add: gate_inv_def Semaphore_new_def)
qed (rule gate_inv_step)

text \<open>In every state the event loop can reach, at most \<open>max\<close> verifications run at once and
  at most \<open>maxQueue\<close> wait, the counter is exactly the number of slots held, and nobody waits
  while a slot is free.\<close>

lemma gate_bounds:
  assumes "gate_reach m q s"
  shows "int (length (sm_running s)) \<le> max 1 m \<and> int (length (sm_queue s)) \<le> max 0 q \<and>
     sm_active s = int (length (sm_running s) + length (sm_woken s)) \<and>
     (sm_queue s \<noteq> [] \<longrightarrow> sm_active s = max 1 m)"
  using gate_reach_inv [OF assms] by (auto simp: gate_inv_def)

lemma demo_gate:
  "gate_reach 1 1 (fst (Semaphore_enter (2::nat) (fst (Semaphore_enter 1 (Semaphore_new 1 1)))))"
proof -
  have "gate_reach 1 1 (fst (Semaphore_enter (1::nat) (Semaphore_new 1 1)))"
    by (rule gate_next [OF gate_start enters]) (simp add: Semaphore_new_def)
  then show ?thesis
    by (rule gate_next [OF _ enters]) (simp add: Semaphore_new_def Semaphore_enter_def)
qed

theorem gate_bounds_witness:
  "sm_active (fst (Semaphore_enter (2::nat) (fst (Semaphore_enter 1 (Semaphore_new 1 1))))) = 1"
proof -
  have "sm_queue (fst (Semaphore_enter (2::nat) (fst (Semaphore_enter 1 (Semaphore_new 1 1))))) \<noteq> []"
    by code_simp
  then show ?thesis
    using gate_bounds [OF demo_gate] by simp
qed

text \<open>Waiting is first come, first served: only a release moves the queue, by one place each.\<close>

inductive gate_run :: "nat \<Rightarrow> 'c semaphore \<Rightarrow> 'c semaphore \<Rightarrow> bool" where
  gr_here: "gate_run 0 s s"
| gr_end: "gate_run n s s' \<Longrightarrow> c \<in> set (sm_running s') \<Longrightarrow> gate_run (Suc n) s (Semaphore_release c s')"
| gr_resume: "gate_run n s s' \<Longrightarrow> c \<in> set (sm_woken s') \<Longrightarrow> gate_run n s (Semaphore_resume c s')"
| gr_enter: "gate_run n s s' \<Longrightarrow> c \<notin> set (sm_queue s' @ sm_woken s' @ sm_running s') \<Longrightarrow>
     gate_run n s (fst (Semaphore_enter c s'))"

lemma gate_run_queue:
  "gate_run n s s' \<Longrightarrow> n \<le> length (sm_queue s) \<Longrightarrow> \<exists>later. sm_queue s' = drop n (sm_queue s) @ later"
proof (induction rule: gate_run.induct)
  case (gr_here s)
  show ?case
    by simp
next
  case (gr_end n s s' c)
  then obtain later where q: "sm_queue s' = drop n (sm_queue s) @ later"
    by auto
  have "drop n (sm_queue s) = sm_queue s ! n # drop (Suc n) (sm_queue s)"
    using gr_end.prems by (simp add: Cons_nth_drop_Suc)
  then show ?case
    using q by (simp add: Semaphore_release_def Let_def)
next
  case (gr_resume n s s' c)
  then show ?case
    by (simp add: Semaphore_resume_def)
next
  case (gr_enter n s s' c)
  then show ?case
    by (auto simp: Semaphore_enter_def)
qed

text \<open>Waiters are served first come, first served and exactly one per release: however calls
  enter and resume in between, the release after \<open>n\<close> others hands its slot to the call that stood
  at place \<open>n\<close> of the queue, so a waiter gets a slot after as many releases as its place.\<close>

lemma gate_fifo:
  assumes "gate_run n s s'" "n < length (sm_queue s)" "c \<in> set (sm_running s')"
  shows "sm_woken (Semaphore_release c s') = sm_woken s' @ [sm_queue s ! n] \<and>
     sm_active (Semaphore_release c s') = sm_active s'"
proof -
  obtain later where q: "sm_queue s' = drop n (sm_queue s) @ later"
    using gate_run_queue [OF assms(1)] assms(2) by auto
  have "drop n (sm_queue s) = sm_queue s ! n # drop (Suc n) (sm_queue s)"
    using assms(2) by (simp add: Cons_nth_drop_Suc)
  then show ?thesis
    using q by (simp add: Semaphore_release_def Let_def)
qed

theorem gate_fifo_witness:
  "sm_woken (Semaphore_release 1 (fst (Semaphore_enter (2::nat) (fst (Semaphore_enter 1 (Semaphore_new 1 1)))))) = [2]"
proof -
  let ?s = "fst (Semaphore_enter (2::nat) (fst (Semaphore_enter 1 (Semaphore_new 1 1))))"
  have "sm_queue ?s = [2]" "sm_woken ?s = []" "1 \<in> set (sm_running ?s)"
    by code_simp+
  then show ?thesis
    using gate_fifo [OF gr_here [of ?s], of 1] by simp
qed

end
