(* ===== verification/Challenge_Store.thy ===== *)
theory Challenge_Store
  imports Js_Map
begin

section \<open>Pending challenges (core/stores.js, ChallengeStore)\<close>

text \<open>
  A challenge is the object the gateway mints for one nonce. The store keeps the pending ones in an
  insertion-ordered map, and counts the verifications in flight per root (\<open>hold\<close>). The function
  \<open>hold\<close> returns closes over a flag of its own, so a release is a token with that flag. The step
  relation at the end lets the gateway's handlers interleave as they may.
\<close>

subsection \<open>State and operations\<close>

record challenge =
  cv_account :: string
  cv_signalHash :: string
  cv_epoch :: int
  cv_contextHash :: string
  cv_season :: "int option"
  cv_root :: "string option"
  cv_expires :: int

record challenge_store =
  cs_ttl :: int
  cs_maxPending :: nat
  cs_pending :: "(string, challenge) jsmap"
  cs_held :: "(string, int) jsmap"

definition ChallengeStore_new :: "int \<Rightarrow> nat \<Rightarrow> challenge_store" where
  "ChallengeStore_new ttlSeconds maxPending =
     \<lparr>cs_ttl = ttlSeconds * 1000, cs_maxPending = maxPending, cs_pending = [], cs_held = []\<rparr>"

definition ChallengeStore_sweep :: "int \<Rightarrow> challenge_store \<Rightarrow> challenge_store" where
  "ChallengeStore_sweep now s =
     s\<lparr>cs_pending := filter (\<lambda>(k, v). \<not> now > cv_expires v) (cs_pending s)\<rparr>"

text \<open>Adding to a \<open>Set\<close>: a member keeps its place.\<close>

definition set_add :: "'a \<Rightarrow> 'a list \<Rightarrow> 'a list" where
  "set_add x xs = (if x \<in> set xs then xs else xs @ [x])"

definition pinnedRoots :: "int \<Rightarrow> challenge_store \<Rightarrow> challenge_store \<times> string list" where
  "pinnedRoots now s =
     (let s1 = ChallengeStore_sweep now s;
          roots = fold (\<lambda>v acc. case cv_root v of None \<Rightarrow> acc | Some r \<Rightarrow> set_add r acc)
                    (jm_values (cs_pending s1)) [];
          roots1 = fold set_add (jm_keys (cs_held s1)) roots
      in (s1, roots1))"

record hold_token =
  ht_root :: "string option"
  ht_released :: bool

definition hold :: "string option \<Rightarrow> challenge_store \<Rightarrow> challenge_store \<times> hold_token" where
  "hold root s =
     (case root of
        None \<Rightarrow> (s, \<lparr>ht_root = None, ht_released = False\<rparr>)
      | Some r \<Rightarrow> (s\<lparr>cs_held := jm_set r ((case jm_get (cs_held s) r of None \<Rightarrow> 0 | Some n \<Rightarrow> n) + 1) (cs_held s)\<rparr>,
                   \<lparr>ht_root = Some r, ht_released = False\<rparr>))"

definition release :: "hold_token \<Rightarrow> challenge_store \<Rightarrow> challenge_store \<times> hold_token" where
  "release t s =
     (case ht_root t of
        None \<Rightarrow> (s, t)
      | Some r \<Rightarrow>
          if ht_released t then (s, t)
          else (let n = (case jm_get (cs_held s) r of None \<Rightarrow> 1 | Some n \<Rightarrow> n) - 1
                in (s\<lparr>cs_held := (if n > 0 then jm_set r n (cs_held s) else jm_delete r (cs_held s))\<rparr>,
                    t\<lparr>ht_released := True\<rparr>)))"

text \<open>The cap, with one sweep tried first: \<open>None\<close> is a full store.\<close>

definition with_room :: "int \<Rightarrow> challenge_store \<Rightarrow> challenge_store \<times> bool" where
  "with_room now s =
     (if length (cs_pending s) \<ge> cs_maxPending s
      then (let s1 = ChallengeStore_sweep now s in (s1, \<not> length (cs_pending s1) \<ge> cs_maxPending s1))
      else (s, True))"

definition put_challenge :: "int \<Rightarrow> string \<Rightarrow> challenge \<Rightarrow> challenge_store \<Rightarrow> challenge_store \<times> bool" where
  "put_challenge now nonce value s =
     (case with_room now s of
        (s1, False) \<Rightarrow> (s1, False)
      | (s1, True) \<Rightarrow>
          (s1\<lparr>cs_pending := jm_set nonce (value\<lparr>cv_expires := now + cs_ttl s1\<rparr>) (cs_pending s1)\<rparr>, True))"

definition take_challenge :: "int \<Rightarrow> string \<Rightarrow> challenge_store \<Rightarrow> challenge_store \<times> challenge option" where
  "take_challenge now nonce s =
     (case jm_get (cs_pending s) nonce of
        None \<Rightarrow> (s, None)
      | Some v \<Rightarrow>
          (s\<lparr>cs_pending := jm_delete nonce (cs_pending s)\<rparr>, if now > cv_expires v then None else Some v))"

definition restore :: "int \<Rightarrow> string \<Rightarrow> challenge \<Rightarrow> challenge_store \<Rightarrow> challenge_store \<times> bool" where
  "restore now nonce value s =
     (if now > cv_expires value then (s, False)
      else (case with_room now s of
              (s1, False) \<Rightarrow> (s1, False)
            | (s1, True) \<Rightarrow> (s1\<lparr>cs_pending := jm_set nonce value (cs_pending s1)\<rparr>, True)))"

subsection \<open>How the handlers use it\<close>

text \<open>
  \<open>sys_hand\<close> holds the challenges a verify handler has taken and may still put back;
  \<open>sys_issued\<close> is every challenge ever minted, with its minting time; \<open>sys_tokens\<close> the release
  functions handed out.
\<close>

record challenge_sys =
  sys_store :: challenge_store
  sys_hand :: "(string \<times> challenge) list"
  sys_issued :: "(string \<times> challenge \<times> int) list"
  sys_tokens :: "hold_token list"

inductive challenge_step :: "int \<Rightarrow> challenge_sys \<Rightarrow> challenge_sys \<Rightarrow> bool" for now where
  minted: "put_challenge now nonce v (sys_store y) = (s', True) \<Longrightarrow>
     challenge_step now y (y\<lparr>sys_store := s',
       sys_issued := (nonce, v\<lparr>cv_expires := now + cs_ttl (sys_store y)\<rparr>, now) # sys_issued y\<rparr>)"
| mint_refused: "put_challenge now nonce v (sys_store y) = (s', False) \<Longrightarrow>
     challenge_step now y (y\<lparr>sys_store := s'\<rparr>)"
| taken: "take_challenge now nonce (sys_store y) = (s', Some v) \<Longrightarrow>
     challenge_step now y (y\<lparr>sys_store := s', sys_hand := (nonce, v) # sys_hand y\<rparr>)"
| take_failed: "take_challenge now nonce (sys_store y) = (s', None) \<Longrightarrow>
     challenge_step now y (y\<lparr>sys_store := s'\<rparr>)"
| put_back: "(nonce, v) \<in> set (sys_hand y) \<Longrightarrow> restore now nonce v (sys_store y) = (s', ok) \<Longrightarrow>
     challenge_step now y (y\<lparr>sys_store := s', sys_hand := remove1 (nonce, v) (sys_hand y)\<rparr>)"
| held: "hold r (sys_store y) = (s', t) \<Longrightarrow>
     challenge_step now y (y\<lparr>sys_store := s', sys_tokens := sys_tokens y @ [t]\<rparr>)"
| let_go: "i < length (sys_tokens y) \<Longrightarrow> release (sys_tokens y ! i) (sys_store y) = (s', t) \<Longrightarrow>
     challenge_step now y (y\<lparr>sys_store := s', sys_tokens := (sys_tokens y)[i := t]\<rparr>)"
| swept: "challenge_step now y (y\<lparr>sys_store := ChallengeStore_sweep now (sys_store y)\<rparr>)"

inductive challenge_reach :: "int \<Rightarrow> nat \<Rightarrow> challenge_sys \<Rightarrow> bool" for ttl m where
  ch_start: "challenge_reach ttl m
     \<lparr>sys_store = ChallengeStore_new ttl m, sys_hand = [], sys_issued = [], sys_tokens = []\<rparr>"
| ch_next: "challenge_reach ttl m y \<Longrightarrow> challenge_step now y y' \<Longrightarrow> challenge_reach ttl m y'"

subsection \<open>The invariant\<close>

definition open_holds :: "hold_token list \<Rightarrow> string \<Rightarrow> nat" where
  "open_holds ts r = length (filter (\<lambda>t. ht_root t = Some r \<and> \<not> ht_released t) ts)"

definition is_pending :: "challenge_store \<Rightarrow> string \<Rightarrow> nat" where
  "is_pending s n = (if jm_has (cs_pending s) n then 1 else 0)"

text \<open>
  The pending part: the cap, and where every challenge came from. The counting part: a nonce is
  pending or in a handler's hand at most as often as it was minted. The held part: the counts are
  the number of unreleased tokens.
\<close>

definition pending_inv :: "int \<Rightarrow> nat \<Rightarrow> challenge_sys \<Rightarrow> bool" where
  "pending_inv ttl m y \<longleftrightarrow>
     cs_ttl (sys_store y) = ttl * 1000 \<and> cs_maxPending (sys_store y) = m \<and>
     jm_wf (cs_pending (sys_store y)) \<and> length (cs_pending (sys_store y)) \<le> m \<and>
     (\<forall>(n, v) \<in> set (cs_pending (sys_store y)) \<union> set (sys_hand y). \<exists>t. (n, v, t) \<in> set (sys_issued y)) \<and>
     (\<forall>(n, v, t) \<in> set (sys_issued y). cv_expires v = t + ttl * 1000)"

definition counting_inv :: "challenge_sys \<Rightarrow> bool" where
  "counting_inv y \<longleftrightarrow> (\<forall>n. is_pending (sys_store y) n + count_list (map fst (sys_hand y)) n
     \<le> count_list (map fst (sys_issued y)) n)"

definition held_inv :: "challenge_sys \<Rightarrow> bool" where
  "held_inv y \<longleftrightarrow> jm_wf (cs_held (sys_store y)) \<and>
     (\<forall>r. jm_get (cs_held (sys_store y)) r =
       (if open_holds (sys_tokens y) r = 0 then None else Some (int (open_holds (sys_tokens y) r))))"

lemma sweep_fields [simp]:
  "cs_ttl (ChallengeStore_sweep now s) = cs_ttl s" "cs_maxPending (ChallengeStore_sweep now s) = cs_maxPending s"
  "cs_held (ChallengeStore_sweep now s) = cs_held s"
  by (simp_all add: ChallengeStore_sweep_def)

lemma sweep_sub: "set (cs_pending (ChallengeStore_sweep now s)) \<subseteq> set (cs_pending s)"
  by (auto simp: ChallengeStore_sweep_def)

lemma sweep_jm: "jm_wf (cs_pending s) \<Longrightarrow> jm_wf (cs_pending (ChallengeStore_sweep now s))"
  "length (cs_pending (ChallengeStore_sweep now s)) \<le> length (cs_pending s)"
  by (simp_all add: ChallengeStore_sweep_def)

lemma sweep_pending: "is_pending (ChallengeStore_sweep now s) n \<le> is_pending s n"
  using sweep_sub [of now s] by (auto simp: is_pending_def jm_has_keys)

lemma with_room_cases:
  assumes "with_room now s = (s1, ok)"
  shows "(s1 = s \<or> s1 = ChallengeStore_sweep now s) \<and> (ok \<longrightarrow> length (cs_pending s1) < cs_maxPending s1)"
  using assms by (auto simp: with_room_def Let_def split: if_splits)

lemma with_room_facts:
  assumes "with_room now s = (s1, ok)"
  shows "cs_ttl s1 = cs_ttl s" "cs_maxPending s1 = cs_maxPending s" "cs_held s1 = cs_held s"
    "set (cs_pending s1) \<subseteq> set (cs_pending s)" "length (cs_pending s1) \<le> length (cs_pending s)"
    "is_pending s1 n \<le> is_pending s n" "jm_wf (cs_pending s) \<Longrightarrow> jm_wf (cs_pending s1)"
  using with_room_cases [OF assms] sweep_sub [of now s] sweep_jm(1) [of s now] sweep_jm(2) [of now s]
    sweep_pending [of now s n] by auto

lemma set_in_room:
  assumes "with_room now s = (s1, True)" "jm_wf (cs_pending s)" "s' = s1\<lparr>cs_pending := jm_set n v (cs_pending s1)\<rparr>"
  shows "cs_ttl s' = cs_ttl s" "cs_maxPending s' = cs_maxPending s" "cs_held s' = cs_held s"
    "jm_wf (cs_pending s')" "length (cs_pending s') \<le> cs_maxPending s"
    "set (cs_pending s') \<subseteq> insert (n, v) (set (cs_pending s))"
    "is_pending s' k \<le> (if k = n then 1 else is_pending s k)"
proof -
  note f = with_room_facts [OF assms(1)]
  have wf: "jm_wf (cs_pending s1)"
    using f(7) assms(2) .
  show "cs_ttl s' = cs_ttl s" "cs_maxPending s' = cs_maxPending s" "cs_held s' = cs_held s"
    "jm_wf (cs_pending s')"
    using f wf assms(3) by simp_all
  show "length (cs_pending s') \<le> cs_maxPending s"
    using with_room_cases [OF assms(1)] f assms(3) by (auto simp: jm_length_set)
  show "set (cs_pending s') \<subseteq> insert (n, v) (set (cs_pending s))"
    using f(4) assms(3) by (auto simp: jm_set_set [OF wf] jm_delete_def)
  show "is_pending s' k \<le> (if k = n then 1 else is_pending s k)"
    using f(6) [of k] assms(3) by (simp add: is_pending_def)
qed

lemma put_cases:
  assumes "put_challenge now n v s = (s', ok)"
  shows "(ok \<and> (\<exists>s1. with_room now s = (s1, True) \<and>
       s' = s1\<lparr>cs_pending := jm_set n (v\<lparr>cv_expires := now + cs_ttl s\<rparr>) (cs_pending s1)\<rparr>)) \<or>
    (\<not> ok \<and> with_room now s = (s', False))"
  using assms with_room_facts(1) [of now s] by (auto simp: put_challenge_def split: prod.splits bool.splits)

lemma restore_cases:
  assumes "restore now n v s = (s', ok)"
  shows "s' = s \<or> with_room now s = (s', False) \<or>
    (\<exists>s1. with_room now s = (s1, True) \<and> s' = s1\<lparr>cs_pending := jm_set n v (cs_pending s1)\<rparr>)"
  using assms by (auto simp: restore_def split: prod.splits bool.splits if_splits)

lemma take_cases:
  assumes "take_challenge now n s = (s', v)"
  shows "cs_ttl s' = cs_ttl s" "cs_maxPending s' = cs_maxPending s" "cs_held s' = cs_held s"
    "cs_pending s' = jm_delete n (cs_pending s)"
    "v = Some c \<Longrightarrow> (n, c) \<in> set (cs_pending s) \<and> now \<le> cv_expires c"
    "is_pending s' k = (if k = n then 0 else is_pending s k)"
  using assms jm_get_in_set [of "cs_pending s" n]
  by (auto simp: take_challenge_def is_pending_def jm_delete_absent jm_has_get split: option.splits if_splits)

lemma hold_fields [simp]: "cs_ttl (fst (hold r s)) = cs_ttl s" "cs_maxPending (fst (hold r s)) = cs_maxPending s"
  "cs_pending (fst (hold r s)) = cs_pending s"
  by (simp_all add: hold_def split: option.split)

lemma release_fields [simp]: "cs_ttl (fst (release t s)) = cs_ttl s"
  "cs_maxPending (fst (release t s)) = cs_maxPending s" "cs_pending (fst (release t s)) = cs_pending s"
  by (simp_all add: release_def Let_def split: option.split)

lemma restore_facts:
  assumes "restore now n v s = (s', ok)" "jm_wf (cs_pending s)" "length (cs_pending s) \<le> cs_maxPending s"
  shows "cs_ttl s' = cs_ttl s" "cs_maxPending s' = cs_maxPending s"
    "jm_wf (cs_pending s')" "length (cs_pending s') \<le> cs_maxPending s"
    "set (cs_pending s') \<subseteq> insert (n, v) (set (cs_pending s))" "cs_held s' = cs_held s"
proof -
  from restore_cases [OF assms(1)] have
    "cs_ttl s' = cs_ttl s \<and> cs_maxPending s' = cs_maxPending s \<and> jm_wf (cs_pending s') \<and>
     length (cs_pending s') \<le> cs_maxPending s \<and>
     set (cs_pending s') \<subseteq> insert (n, v) (set (cs_pending s)) \<and> cs_held s' = cs_held s"
  proof (elim disjE exE conjE)
    assume r: "with_room now s = (s', False)"
    show ?thesis
      using with_room_facts(1-5,7) [OF r] assms(2,3) by (auto dest: order_trans)
  next
    fix s1
    assume r: "with_room now s = (s1, True)" "s' = s1\<lparr>cs_pending := jm_set n v (cs_pending s1)\<rparr>"
    show ?thesis
      using set_in_room(1-6) [OF r(1) assms(2) r(2)] by simp
  qed (use assms in auto)
  then show "cs_ttl s' = cs_ttl s" "cs_maxPending s' = cs_maxPending s"
    "jm_wf (cs_pending s')" "length (cs_pending s') \<le> cs_maxPending s"
    "set (cs_pending s') \<subseteq> insert (n, v) (set (cs_pending s))" "cs_held s' = cs_held s"
    by simp_all
qed

lemma pending_inv_change:
  assumes "pending_inv ttl m y" "cs_ttl s' = cs_ttl (sys_store y)" "cs_maxPending s' = cs_maxPending (sys_store y)"
    and "jm_wf (cs_pending s')" "length (cs_pending s') \<le> cs_maxPending (sys_store y)"
    and "set (cs_pending s') \<union> set hand \<subseteq> set (map (\<lambda>(n, v, t). (n, v)) new) \<union> set (cs_pending (sys_store y)) \<union> set (sys_hand y)"
    and "\<forall>(n, v, t) \<in> set new. cv_expires v = t + ttl * 1000"
    and "sys_store z = s'" "sys_hand z = hand" "sys_issued z = new @ sys_issued y"
  shows "pending_inv ttl m z"
proof -
  have "\<exists>t. (n, v, t) \<in> set (sys_issued z)" if "(n, v) \<in> set (cs_pending s') \<union> set hand" for n v
  proof -
    from that assms(6) consider "(n, v) \<in> set (map (\<lambda>(n, v, t). (n, v)) new)"
      | "(n, v) \<in> set (cs_pending (sys_store y)) \<union> set (sys_hand y)"
      by blast
    then show ?thesis
    proof cases
      case 1
      then show ?thesis
        using assms(10) by auto
    next
      case 2
      then show ?thesis
        using assms(1,10) unfolding pending_inv_def by fastforce
    qed
  qed
  then show ?thesis
    using assms unfolding pending_inv_def by auto
qed

lemma pending_inv_step: "challenge_step now y y' \<Longrightarrow> pending_inv ttl m y \<Longrightarrow> pending_inv ttl m y'"
proof (induction rule: challenge_step.induct)
  case (minted n v y s')
  then obtain s1 where r: "with_room now (sys_store y) = (s1, True)"
      "s' = s1\<lparr>cs_pending := jm_set n (v\<lparr>cv_expires := now + cs_ttl (sys_store y)\<rparr>) (cs_pending s1)\<rparr>"
    using put_cases by blast
  have i: "jm_wf (cs_pending (sys_store y))" "cs_ttl (sys_store y) = ttl * 1000"
    using minted by (simp_all add: pending_inv_def)
  show ?case
    by (rule pending_inv_change [OF minted(2), where s' = s' and hand = "sys_hand y" and
          new = "[(n, v\<lparr>cv_expires := now + cs_ttl (sys_store y)\<rparr>, now)]"])
      (use set_in_room(1-6) [OF r(1) i(1) r(2)] i(2) in auto)
next
  case (mint_refused n v y s')
  then have r: "with_room now (sys_store y) = (s', False)"
    using put_cases by blast
  show ?case
    by (rule pending_inv_change [OF mint_refused(2), where s' = s' and hand = "sys_hand y" and new = "[]"])
      (use with_room_facts [OF r] mint_refused(2) in \<open>auto simp: pending_inv_def\<close>)
next
  case (taken n y s' v)
  show ?case
    by (rule pending_inv_change [OF taken(2), where s' = s' and hand = "(n, v) # sys_hand y" and new = "[]"])
      (use take_cases [OF taken(1)] taken(2) in
        \<open>auto simp: pending_inv_def jm_delete_def intro: order_trans [OF length_filter_le]\<close>)
next
  case (take_failed n y s')
  show ?case
    by (rule pending_inv_change [OF take_failed(2), where s' = s' and hand = "sys_hand y" and new = "[]"])
      (use take_cases(1-4) [OF take_failed(1)] take_failed(2) in
        \<open>auto simp: pending_inv_def jm_delete_def intro: order_trans [OF length_filter_le]\<close>)
next
  case (put_back n v y s' ok)
  have wf: "jm_wf (cs_pending (sys_store y))" "length (cs_pending (sys_store y)) \<le> cs_maxPending (sys_store y)"
    using put_back(3) by (simp_all add: pending_inv_def)
  have s': "cs_ttl s' = cs_ttl (sys_store y)" "cs_maxPending s' = cs_maxPending (sys_store y)"
    "jm_wf (cs_pending s')" "length (cs_pending s') \<le> cs_maxPending (sys_store y)"
    "set (cs_pending s') \<subseteq> insert (n, v) (set (cs_pending (sys_store y)))"
    by (rule restore_facts [OF put_back(2) wf])+
  show ?case
    by (rule pending_inv_change [OF put_back(3), where s' = s' and
          hand = "remove1 (n, v) (sys_hand y)" and new = "[]"])
      (use s' put_back(1) set_remove1_subset [of "(n, v)" "sys_hand y"] in auto)
next
  case (held r y s' t)
  then show ?case
    using hold_fields [of r "sys_store y"] by (simp add: pending_inv_def)
next
  case (let_go i y s' t)
  then show ?case
    using release_fields [of "sys_tokens y ! i" "sys_store y"] by (simp add: pending_inv_def)
next
  case (swept y)
  show ?case
    by (rule pending_inv_change [OF swept, where s' = "ChallengeStore_sweep now (sys_store y)" and
          hand = "sys_hand y" and new = "[]"])
      (use swept sweep_sub [of now "sys_store y"] sweep_jm(1) [of "sys_store y" now]
        sweep_jm(2) [of now "sys_store y"] in \<open>auto simp: pending_inv_def\<close>)
qed

lemma count_list_remove1: "x \<in> set xs \<Longrightarrow> count_list (map f xs) k =
    count_list (map f (remove1 x xs)) k + (if f x = k then 1 else 0)"
  by (induction xs) auto

lemma counting_inv_step: "challenge_step now y y' \<Longrightarrow> pending_inv ttl m y \<Longrightarrow> counting_inv y \<Longrightarrow> counting_inv y'"
proof (induction rule: challenge_step.induct)
  case (minted n v y s')
  then obtain s1 where r: "with_room now (sys_store y) = (s1, True)"
      "s' = s1\<lparr>cs_pending := jm_set n (v\<lparr>cv_expires := now + cs_ttl (sys_store y)\<rparr>) (cs_pending s1)\<rparr>"
    using put_cases by blast
  have wf: "jm_wf (cs_pending (sys_store y))"
    using minted by (simp add: pending_inv_def)
  show ?case
    unfolding counting_inv_def
  proof
    fix k
    show "is_pending (sys_store (y\<lparr>sys_store := s', sys_issued := (n, v\<lparr>cv_expires := now + cs_ttl (sys_store y)\<rparr>, now) #
            sys_issued y\<rparr>)) k + count_list (map fst (sys_hand (y\<lparr>sys_store := s', sys_issued :=
            (n, v\<lparr>cv_expires := now + cs_ttl (sys_store y)\<rparr>, now) # sys_issued y\<rparr>))) k \<le>
        count_list (map fst (sys_issued (y\<lparr>sys_store := s', sys_issued :=
            (n, v\<lparr>cv_expires := now + cs_ttl (sys_store y)\<rparr>, now) # sys_issued y\<rparr>))) k"
      using minted(3) [unfolded counting_inv_def, THEN spec, of k] set_in_room(7) [OF r(1) wf r(2), of k]
      by (simp split: if_splits)
  qed
next
  case (mint_refused n v y s')
  then have r: "with_room now (sys_store y) = (s', False)"
    using put_cases by blast
  show ?case
    using mint_refused(3) with_room_facts(6) [OF r] by (auto simp: counting_inv_def intro: order_trans [OF add_right_mono])
next
  case (taken n y s' v)
  have "is_pending (sys_store y) n = 1"
    using taken(1) by (auto simp: take_challenge_def is_pending_def jm_has_get split: option.splits if_splits)
  then show ?case
    using taken(3) [unfolded counting_inv_def, THEN spec, of n] taken(3) take_cases(6) [OF taken(1)]
    by (auto simp: counting_inv_def)
next
  case (take_failed n y s')
  then show ?case
    using take_cases(6) [OF take_failed(1)] by (auto simp: counting_inv_def intro: add_leD2)
next
  case (put_back n v y s' ok)
  have wf: "jm_wf (cs_pending (sys_store y))"
    using put_back(3) by (simp add: pending_inv_def)
  have "is_pending s' k \<le> (if k = n then 1 else is_pending (sys_store y) k)" for k
    using restore_cases [OF put_back(2)] with_room_facts(6) [of now "sys_store y" s' False k]
      set_in_room(7) [of now "sys_store y" _ s' n v k] wf by (auto simp: is_pending_def split: if_splits)
  then have "is_pending s' k + count_list (map fst (remove1 (n, v) (sys_hand y))) k \<le>
      is_pending (sys_store y) k + count_list (map fst (sys_hand y)) k" for k
    using count_list_remove1 [OF put_back(1), of fst k] by (fastforce split: if_splits intro: trans_le_add2)
  then show ?case
    using put_back(4) by (auto simp: counting_inv_def intro: order_trans)
next
  case (held r y s' t)
  then show ?case
    using hold_fields [of r "sys_store y"] by (simp add: counting_inv_def is_pending_def)
next
  case (let_go i y s' t)
  then show ?case
    using release_fields [of "sys_tokens y ! i" "sys_store y"] by (simp add: counting_inv_def is_pending_def)
next
  case (swept y)
  then show ?case
    using sweep_pending [of now "sys_store y"]
    by (auto simp: counting_inv_def intro: order_trans [OF add_right_mono])
qed

lemma open_holds_snoc: "open_holds (ts @ [t]) r =
    open_holds ts r + (if ht_root t = Some r \<and> \<not> ht_released t then 1 else 0)"
  by (simp add: open_holds_def)

lemma open_holds_release:
  assumes "i < length ts" "ht_root (ts ! i) = Some q" "\<not> ht_released (ts ! i)"
  shows "open_holds ts r = open_holds (ts[i := (ts ! i)\<lparr>ht_released := True\<rparr>]) r + (if r = q then 1 else 0)"
proof -
  obtain xs x ys where ts: "ts = xs @ x # ys" "length xs = i"
    using assms(1) id_take_nth_drop [of i ts] by (metis length_take min.absorb4)
  then show ?thesis
    using assms(2,3) by (auto simp: open_holds_def list_update_append nth_append)
qed

lemma held_inv_hold:
  assumes "held_inv y" "hold q (sys_store y) = (s', t)"
  shows "held_inv (y\<lparr>sys_store := s', sys_tokens := sys_tokens y @ [t]\<rparr>)"
  using assms by (auto simp: held_inv_def hold_def open_holds_snoc split: option.splits if_splits; metis less_numeral_extra(3))

lemma held_inv_release:
  assumes "held_inv y" "i < length (sys_tokens y)" "release (sys_tokens y ! i) (sys_store y) = (s', t)"
  shows "held_inv (y\<lparr>sys_store := s', sys_tokens := (sys_tokens y)[i := t]\<rparr>)"
proof (cases "ht_root (sys_tokens y ! i) = None \<or> ht_released (sys_tokens y ! i)")
  case True
  then have "s' = sys_store y" "t = sys_tokens y ! i"
    using assms(3) by (auto simp: release_def split: option.splits)
  then show ?thesis
    using assms(1) by (simp add: held_inv_def)
next
  case False
  then obtain q where q: "ht_root (sys_tokens y ! i) = Some q" "\<not> ht_released (sys_tokens y ! i)"
    by auto
  let ?ts = "(sys_tokens y)[i := t]"
  have t: "t = (sys_tokens y ! i)\<lparr>ht_released := True\<rparr>"
    using assms(3) q by (simp add: release_def Let_def)
  have n: "open_holds (sys_tokens y) r = open_holds ?ts r + (if r = q then 1 else 0)" for r
    using open_holds_release [OF assms(2) q] t by simp
  have "jm_get (cs_held (sys_store y)) q = Some (int (open_holds ?ts q) + 1)"
    using assms(1) n [of q] by (simp add: held_inv_def)
  then have "cs_held s' = (if open_holds ?ts q > 0 then jm_set q (int (open_holds ?ts q)) (cs_held (sys_store y))
      else jm_delete q (cs_held (sys_store y)))"
    using assms(3) q by (auto simp: release_def Let_def)
  then show ?thesis
    using assms(1) n by (auto simp: held_inv_def)
qed

lemma held_inv_same: "held_inv y \<Longrightarrow> cs_held s' = cs_held (sys_store y) \<Longrightarrow> sys_store z = s' \<Longrightarrow>
    sys_tokens z = sys_tokens y \<Longrightarrow> held_inv z"
  by (simp add: held_inv_def)

lemma held_inv_step: "challenge_step now y y' \<Longrightarrow> pending_inv ttl m y \<Longrightarrow> held_inv y \<Longrightarrow> held_inv y'"
proof (induction rule: challenge_step.induct)
  case (minted n v y s')
  have "cs_held s' = cs_held (sys_store y)"
    using put_cases [OF minted(1)] with_room_facts(3) [of now "sys_store y"] by auto
  then show ?case
    using minted(3) by (auto intro: held_inv_same)
next
  case (mint_refused n v y s')
  have "cs_held s' = cs_held (sys_store y)"
    using put_cases [OF mint_refused(1)] with_room_facts(3) [of now "sys_store y"] by auto
  then show ?case
    using mint_refused(3) by (auto intro: held_inv_same)
next
  case (taken n y s' v)
  then show ?case
    using take_cases(3) [OF taken(1)] by (auto intro: held_inv_same)
next
  case (take_failed n y s')
  then show ?case
    using take_cases(3) [OF take_failed(1)] by (auto intro: held_inv_same)
next
  case (put_back n v y s' ok)
  have "jm_wf (cs_pending (sys_store y))" "length (cs_pending (sys_store y)) \<le> cs_maxPending (sys_store y)"
    using put_back(3) by (simp_all add: pending_inv_def)
  then show ?case
    using put_back(4) restore_facts(6) [OF put_back(2)] by (auto intro: held_inv_same)
next
  case (held r y s' t)
  then show ?case
    by (simp only: held_inv_hold)
next
  case (let_go i y s' t)
  then show ?case
    by (simp only: held_inv_release)
next
  case (swept y)
  then show ?case
    by (simp add: held_inv_def)
qed

lemma challenge_reach_inv:
  "challenge_reach ttl m y \<Longrightarrow> pending_inv ttl m y \<and> counting_inv y \<and> held_inv y"
proof (induction rule: challenge_reach.induct)
  case ch_start
  then show ?case
    by (simp add: pending_inv_def counting_inv_def held_inv_def ChallengeStore_new_def is_pending_def
        jm_has_get open_holds_def)
next
  case (ch_next y now y')
  then show ?case
    using pending_inv_step counting_inv_step held_inv_step by blast
qed

subsection \<open>Properties\<close>

text \<open>A nonce is one-time. At any reachable moment it is pending or in a handler's hand at most
  as often as it was minted, the store is within its cap, and a challenge that is taken is one that
  was minted for that nonce no more than the lifetime ago, however often it was put back in between;
  taking it leaves the nonce unknown.\<close>

lemma challenge_single_use:
  assumes "challenge_reach ttl m y"
  shows "is_pending (sys_store y) n + count_list (map fst (sys_hand y)) n \<le> count_list (map fst (sys_issued y)) n \<and>
     length (cs_pending (sys_store y)) \<le> m \<and>
     (\<forall>now s' v. take_challenge now n (sys_store y) = (s', Some v) \<longrightarrow>
        (\<exists>t. (n, v, t) \<in> set (sys_issued y) \<and> now \<le> t + ttl * 1000) \<and>
        snd (take_challenge now n s') = None)"
proof -
  have inv: "pending_inv ttl m y" "counting_inv y"
    using challenge_reach_inv [OF assms] by blast+
  have "(\<exists>t. (n, v, t) \<in> set (sys_issued y) \<and> now \<le> t + ttl * 1000) \<and> snd (take_challenge now n s') = None"
    if t: "take_challenge now n (sys_store y) = (s', Some v)" for now s' v
  proof -
    have "(n, v) \<in> set (cs_pending (sys_store y))" "now \<le> cv_expires v"
      using take_cases(5) [OF t, of v] by auto
    then have "\<exists>t. (n, v, t) \<in> set (sys_issued y) \<and> now \<le> t + ttl * 1000"
      using inv(1) unfolding pending_inv_def by fastforce
    moreover have "jm_get (cs_pending s') n = None"
      by (simp add: take_cases(4) [OF t])
    ultimately show ?thesis
      by (simp add: take_challenge_def)
  qed
  then show ?thesis
    using inv by (auto simp: pending_inv_def counting_inv_def)
qed

lemma set_fold_set_add: "set (fold set_add xs acc) = set xs \<union> set acc"
  by (induction xs arbitrary: acc) (auto simp: set_add_def)

lemma set_pending_roots: "set (fold (\<lambda>v acc. case cv_root v of None \<Rightarrow> acc | Some r \<Rightarrow> set_add r acc) vs acc) =
    {r. \<exists>v \<in> set vs. cv_root v = Some r} \<union> set acc"
  by (induction vs arbitrary: acc) (auto simp: set_add_def split: option.splits)

text \<open>The roots the window must not evict are exactly those a still usable challenge names and
  those a verification in flight holds; the first of two holders to finish does not release the
  root for the second, and a release called twice counts once.\<close>

lemma pinnedRoots_exact:
  assumes "challenge_reach ttl m y"
  shows "r \<in> set (snd (pinnedRoots now (sys_store y))) \<longleftrightarrow>
     (\<exists>(n, v) \<in> set (cs_pending (sys_store y)). cv_root v = Some r \<and> now \<le> cv_expires v) \<or>
     (\<exists>t \<in> set (sys_tokens y). ht_root t = Some r \<and> \<not> ht_released t)"
proof -
  have h: "held_inv y"
    using challenge_reach_inv [OF assms] by blast
  then have "r \<in> set (jm_keys (cs_held (sys_store y))) \<longleftrightarrow> open_holds (sys_tokens y) r \<noteq> 0"
    by (simp add: held_inv_def jm_keys_def jm_has_keys [symmetric] jm_has_get)
  also have "\<dots> \<longleftrightarrow> (\<exists>t \<in> set (sys_tokens y). ht_root t = Some r \<and> \<not> ht_released t)"
    by (auto simp: open_holds_def filter_empty_conv)
  finally have k: "r \<in> set (jm_keys (cs_held (sys_store y))) \<longleftrightarrow>
      (\<exists>t \<in> set (sys_tokens y). ht_root t = Some r \<and> \<not> ht_released t)" .
  have "r \<in> set (snd (pinnedRoots now (sys_store y))) \<longleftrightarrow> r \<in> set (jm_keys (cs_held (sys_store y))) \<or>
      (\<exists>(n, v) \<in> set (cs_pending (sys_store y)). cv_root v = Some r \<and> now \<le> cv_expires v)"
    by (auto simp: pinnedRoots_def Let_def set_fold_set_add set_pending_roots ChallengeStore_sweep_def
        jm_values_def) (force simp: not_less)
  then show ?thesis
    unfolding k by blast
qed

definition demo_challenge :: challenge where
  "demo_challenge = \<lparr>cv_account = ''alice'', cv_signalHash = ''5'', cv_epoch = 1, cv_contextHash = ''9'',
     cv_season = None, cv_root = Some ''7'', cv_expires = 0\<rparr>"

definition demo_sys :: challenge_sys where
  "demo_sys = \<lparr>sys_store = \<lparr>cs_ttl = 600000, cs_maxPending = 2,
       cs_pending = [(''n'', demo_challenge\<lparr>cv_expires := 600005\<rparr>)], cs_held = []\<rparr>,
     sys_hand = [], sys_issued = [(''n'', demo_challenge\<lparr>cv_expires := 600005\<rparr>, 5)], sys_tokens = []\<rparr>"

lemma demo_sys_reach: "challenge_reach 600 2 demo_sys"
proof -
  let ?y = "\<lparr>sys_store = ChallengeStore_new 600 2, sys_hand = [], sys_issued = [], sys_tokens = []\<rparr>"
  have p: "put_challenge 5 ''n'' demo_challenge (sys_store ?y) = (sys_store demo_sys, True)"
    by (simp add: put_challenge_def with_room_def ChallengeStore_new_def demo_sys_def)
  have "demo_sys = ?y\<lparr>sys_store := sys_store demo_sys,
      sys_issued := (''n'', demo_challenge\<lparr>cv_expires := 5 + cs_ttl (sys_store ?y)\<rparr>, 5) # sys_issued ?y\<rparr>"
    by (simp add: demo_sys_def ChallengeStore_new_def)
  then show ?thesis
    using ch_next [OF ch_start minted [OF p]] by simp
qed

theorem challenge_single_use_witness:
  "snd (take_challenge 600000 ''n'' (fst (take_challenge 600000 ''n'' (sys_store demo_sys)))) = None"
proof -
  let ?t = "take_challenge 600000 ''n'' (sys_store demo_sys)"
  have "?t = (fst ?t, Some (demo_challenge\<lparr>cv_expires := 600005\<rparr>))"
    by (simp add: take_challenge_def demo_sys_def jm_get_def)
  then show ?thesis
    using challenge_single_use [OF demo_sys_reach, of "''n''"] by blast
qed

theorem pinnedRoots_exact_witness: "''7'' \<in> set (snd (pinnedRoots 600005 (sys_store demo_sys)))"
  using pinnedRoots_exact [OF demo_sys_reach, of "''7''" 600005] by (simp add: demo_sys_def demo_challenge_def)

end
