(* ===== verification/Js_Text.thy ===== *)
theory Js_Text
  imports Prelude
begin

section \<open>Numbers from and to text\<close>

text \<open>
  \<open>String(n)\<close>, \<open>Number.parseInt(s, 10)\<close> and \<open>Number(s)\<close>, as far as the stores use them. The
  texts the code converts are decimal digits with an optional minus sign; for \<open>Number\<close>, the other
  numeric literal forms of the language (fractions, exponents, hexadecimal) never reach these
  calls and are read here as \<open>NaN\<close>.
\<close>

fun js_String :: "jsnum \<Rightarrow> string" where
  "js_String (Num n) = dec_of_int n"
| "js_String NaN = ''NaN''"
| "js_String PosInf = ''Infinity''"
| "js_String NegInf = ''-Infinity''"

definition js_space :: "char \<Rightarrow> bool" where
  "js_space c \<longleftrightarrow> c \<in> {CHR '' '', CHR 0x09, CHR 0x0A, CHR 0x0B, CHR 0x0C, CHR 0x0D}"

fun sign_split :: "string \<Rightarrow> int \<times> string" where
  "sign_split (c # s) = (if c = CHR ''-'' then (-1, s) else if c = CHR ''+'' then (1, s) else (1, c # s))"
| "sign_split [] = (1, [])"

definition js_parseInt :: "string \<Rightarrow> jsnum" where
  "js_parseInt s =
     (let (sign, rest) = sign_split (dropWhile js_space s);
          ds = takeWhile is_digit rest
      in if ds = [] then NaN else Num (sign * int (nat_of_dec ds)))"

definition js_Number :: "string \<Rightarrow> jsnum" where
  "js_Number s =
     (if s = [] then Num 0
      else let (sign, ds) = sign_split s
           in if ds \<noteq> [] \<and> list_all is_digit ds then Num (sign * int (nat_of_dec ds)) else NaN)"

lemma digit_not_sign: "is_digit c \<Longrightarrow> c \<noteq> CHR ''-'' \<and> c \<noteq> CHR ''+'' \<and> \<not> js_space c"
  by (auto simp: is_digit_def js_space_def)

lemma dec_of_nat_Cons: "\<exists>c s. dec_of_nat n = c # s \<and> is_digit c \<and> list_all is_digit (c # s)"
  using dec_of_nat_digits [of _ n] dec_of_nat_nonempty [of n]
  by (cases "dec_of_nat n") (auto simp: list_all_iff)

lemma sign_split_dec_of_nat [simp]: "sign_split (dec_of_nat n) = (1, dec_of_nat n)"
  using dec_of_nat_Cons [of n] digit_not_sign by auto

lemma list_all_dec_of_nat [simp]: "list_all is_digit (dec_of_nat n)"
  using dec_of_nat_digits by (auto simp: list_all_iff)

lemma takeWhile_dec_of_nat [simp]: "takeWhile is_digit (dec_of_nat n) = dec_of_nat n"
  using dec_of_nat_digits by (auto simp: takeWhile_eq_all_conv)

lemma dropWhile_dec_of_nat [simp]: "dropWhile js_space (dec_of_nat n) = dec_of_nat n"
  using dec_of_nat_Cons [of n] digit_not_sign by auto

lemma js_parseInt_dec_of_nat [simp]: "js_parseInt (dec_of_nat n) = Num (int n)"
  by (simp add: js_parseInt_def)

lemma js_Number_dec_of_nat [simp]: "js_Number (dec_of_nat n) = Num (int n)"
  by (simp add: js_Number_def)

lemma dec_of_int_cases: "dec_of_int i = (if i < 0 then CHR ''-'' # dec_of_nat (nat (- i)) else dec_of_nat (nat i))"
  by (simp add: dec_of_int_def)

lemma js_parseInt_dec_of_int [simp]: "js_parseInt (dec_of_int i) = Num i"
proof (cases "i < 0")
  case True
  then show ?thesis
    by (simp add: js_parseInt_def dec_of_int_def js_space_def)
qed (simp add: dec_of_int_def)

lemma js_parseInt_String [simp]: "js_parseInt (js_String n) = (if js_isFinite n then n else NaN)"
  by (cases n) (simp, simp_all add: js_parseInt_def js_space_def is_digit_def)

lemma js_String_Num_inject [simp]: "js_String (Num a) = js_String (Num b) \<longleftrightarrow> a = b"
  by simp

subsection \<open>Values from outside\<close>

text \<open>A field of a value that came from outside: a JSON record, or a caller's argument. A JSON
  \<open>null\<close> and a missing field are both \<open>F_absent\<close>: the code compares them with \<open>!= null\<close>.\<close>

datatype jfield = F_absent | F_int int | F_str string | F_other

end
