(* ===== verification/Nullifier_Stores.thy ===== *)
theory Nullifier_Stores
  imports Js_Map Js_Text Common_Values Sha_Roots
begin

section \<open>The spent set: nullifier stores\<close>

text \<open>
  The three stores behind one interface: the in-memory \<open>NullifierStore\<close> (core/stores.js), the
  durable \<open>SqliteNullifierStore\<close> (core/nullifier_sqlite.js) and \<open>DocumentNullifierStore\<close>
  (core/platform_store.js) over a document backend. The interface is the locale
  \<open>nullifier_store\<close>; its client lemmas (one spend per tag, first account kept) are proved once
  and each store's model is an interpretation.
\<close>

type_synonym tag = "string \<times> string \<times> string"

text \<open>A claim record, \<open>{ account }\<close>; \<open>None\<close> is an absent account.\<close>

record claim =
  cl_account :: "string option"

subsection \<open>In memory\<close>

record null_store =
  ns_claims :: "(string, claim) jsmap"

definition NullifierStore_new :: null_store where
  "NullifierStore_new = \<lparr>ns_claims = []\<rparr>"

definition NullifierStore_key :: "tag \<Rightarrow> string" where
  "NullifierStore_key t = (case t of (epoch, ctx, nf) \<Rightarrow> epoch @ '':'' @ ctx @ '':'' @ nf)"

definition NullifierStore_has :: "tag \<Rightarrow> null_store \<Rightarrow> bool" where
  "NullifierStore_has t s = jm_has (ns_claims s) (NullifierStore_key t)"

definition NullifierStore_get :: "tag \<Rightarrow> null_store \<Rightarrow> claim option" where
  "NullifierStore_get t s = jm_get (ns_claims s) (NullifierStore_key t)"

definition NullifierStore_add :: "tag \<Rightarrow> claim \<Rightarrow> null_store \<Rightarrow> null_store \<times> bool" where
  "NullifierStore_add t record s =
     (let key = NullifierStore_key t
      in if jm_has (ns_claims s) key then (s, True)
         else (s\<lparr>ns_claims := jm_set key \<lparr>cl_account = cl_account record\<rparr> (ns_claims s)\<rparr>, False))"

definition key_epoch :: "string \<Rightarrow> jsnum" where
  "key_epoch key = js_Number (takeWhile (\<lambda>c. c \<noteq> CHR '':'') key)"

definition NullifierStore_prune :: "jsnum \<Rightarrow> null_store \<Rightarrow> null_store \<times> nat" where
  "NullifierStore_prune cutoff s =
     (if \<not> js_isFinite cutoff then (s, 0)
      else let kept = filter (\<lambda>(key, r). \<not> (js_isFinite (key_epoch key) \<and> key_epoch key < cutoff)) (ns_claims s)
           in (s\<lparr>ns_claims := kept\<rparr>, length (ns_claims s) - length kept))"

definition NullifierStore_size :: "null_store \<Rightarrow> nat" where
  "NullifierStore_size s = length (ns_claims s)"

subsection \<open>SQLite\<close>

text \<open>
  A row of the \<open>claims\<close> table, whose primary key is the tag, and the \<open>schedule\<close> row of
  \<open>meta\<close>. \<open>INSERT ... ON CONFLICT DO NOTHING\<close> changes no row when the primary key is present.
  The database is what survives a restart; a store is an open handle on it.
\<close>

record claim_row =
  cr_epoch :: string
  cr_context :: string
  cr_nf :: string
  cr_account :: "string option"
  cr_epoch_n :: int
  cr_created_at :: int

record claims_db =
  db_rows :: "claim_row list"
  db_schedule :: "string option"

record sqlite_store =
  ss_path :: string
  ss_schedule :: "string option"
  ss_db :: claims_db
  ss_closed :: bool

datatype sqlite_error = CannotRestrictMode string | ScheduleMismatch string string string

definition SqliteNullifierStore_open ::
    "string \<Rightarrow> string option \<Rightarrow> bool \<Rightarrow> claims_db \<Rightarrow> sqlite_error + sqlite_store" where
  "SqliteNullifierStore_open path schedule chmodOk db =
     (if path \<noteq> '':memory:'' \<and> \<not> chmodOk then Inl (CannotRestrictMode path)
      else let s = \<lparr>ss_path = path, ss_schedule = schedule, ss_db = db, ss_closed = False\<rparr>
           in case schedule of
                None \<Rightarrow> Inr s
              | Some sched \<Rightarrow>
                  (case db_schedule db of
                     None \<Rightarrow> Inr (s\<lparr>ss_db := db\<lparr>db_schedule := Some sched\<rparr>\<rparr>)
                   | Some v \<Rightarrow> if v \<noteq> sched then Inl (ScheduleMismatch path v sched) else Inr s))"

definition row_tag :: "claim_row \<Rightarrow> tag" where
  "row_tag r = (cr_epoch r, cr_context r, cr_nf r)"

definition SqliteNullifierStore_has :: "tag \<Rightarrow> sqlite_store \<Rightarrow> bool" where
  "SqliteNullifierStore_has t s = list_ex (\<lambda>r. row_tag r = t) (db_rows (ss_db s))"

definition SqliteNullifierStore_get :: "tag \<Rightarrow> sqlite_store \<Rightarrow> claim option" where
  "SqliteNullifierStore_get t s =
     (case find (\<lambda>r. row_tag r = t) (db_rows (ss_db s)) of
        None \<Rightarrow> None
      | Some row \<Rightarrow> Some \<lparr>cl_account = cr_account row\<rparr>)"

definition SqliteNullifierStore_add :: "int \<Rightarrow> tag \<Rightarrow> claim \<Rightarrow> sqlite_store \<Rightarrow> sqlite_store \<times> bool" where
  "SqliteNullifierStore_add now t record s =
     (case t of (e, c, n) \<Rightarrow>
       let epochN = js_parseInt e;
           row = \<lparr>cr_epoch = e, cr_context = c, cr_nf = n, cr_account = cl_account record,
                  cr_epoch_n = (case epochN of Num i \<Rightarrow> i | _ \<Rightarrow> 0), cr_created_at = now\<rparr>
       in if list_ex (\<lambda>r. row_tag r = row_tag row) (db_rows (ss_db s)) then (s, True)
          else (s\<lparr>ss_db := (ss_db s)\<lparr>db_rows := db_rows (ss_db s) @ [row]\<rparr>\<rparr>, False))"

definition SqliteNullifierStore_prune :: "jsnum \<Rightarrow> sqlite_store \<Rightarrow> sqlite_store \<times> nat" where
  "SqliteNullifierStore_prune minEpoch s =
     (case js_parseInt (js_String minEpoch) of
        Num n \<Rightarrow>
          (let kept = filter (\<lambda>r. \<not> cr_epoch_n r < n) (db_rows (ss_db s))
           in (s\<lparr>ss_db := (ss_db s)\<lparr>db_rows := kept\<rparr>\<rparr>, length (db_rows (ss_db s)) - length kept))
      | _ \<Rightarrow> (s, 0))"

definition SqliteNullifierStore_size :: "sqlite_store \<Rightarrow> nat" where
  "SqliteNullifierStore_size s = length (db_rows (ss_db s))"

definition SqliteNullifierStore_close :: "sqlite_store \<Rightarrow> sqlite_store" where
  "SqliteNullifierStore_close s = (if ss_closed s then s else s\<lparr>ss_closed := True\<rparr>)"

subsection \<open>Documents\<close>

text \<open>A backend's state is a type parameter; its two calls are arguments.\<close>

record document =
  doc_epoch :: jsnum
  doc_contextHash :: string
  doc_nf :: string

definition tag_document :: "tag \<Rightarrow> document" where
  "tag_document t = (case t of (epoch, ctx, nf) \<Rightarrow>
     \<lparr>doc_epoch = js_Number epoch, doc_contextHash = ctx, doc_nf = nf\<rparr>)"

definition DocumentNullifierStore_has :: "(document \<Rightarrow> 'b \<Rightarrow> bool) \<Rightarrow> tag \<Rightarrow> 'b \<Rightarrow> bool" where
  "DocumentNullifierStore_has exists t b = exists (tag_document t) b"

definition DocumentNullifierStore_get :: "tag \<Rightarrow> 'b \<Rightarrow> claim option" where
  "DocumentNullifierStore_get t b = None"

definition DocumentNullifierStore_add ::
    "(document \<Rightarrow> 'b \<Rightarrow> 'b \<times> bool) \<Rightarrow> tag \<Rightarrow> claim \<Rightarrow> 'b \<Rightarrow> 'b \<times> bool" where
  "DocumentNullifierStore_add backend_insert t record b = backend_insert (tag_document t) b"

record memory_backend =
  mb_seen :: "string list"

definition MemoryBackend_new :: memory_backend where
  "MemoryBackend_new = \<lparr>mb_seen = []\<rparr>"

definition MemoryBackend_key :: "document \<Rightarrow> string" where
  "MemoryBackend_key d = js_String (doc_epoch d) @ '':'' @ doc_contextHash d @ '':'' @ doc_nf d"

definition MemoryBackend_exists :: "document \<Rightarrow> memory_backend \<Rightarrow> bool" where
  "MemoryBackend_exists d b \<longleftrightarrow> MemoryBackend_key d \<in> set (mb_seen b)"

definition MemoryBackend_insert :: "document \<Rightarrow> memory_backend \<Rightarrow> memory_backend \<times> bool" where
  "MemoryBackend_insert d b =
     (let k = MemoryBackend_key d
      in if k \<in> set (mb_seen b) then (b, True) else (b\<lparr>mb_seen := mb_seen b @ [k]\<rparr>, False))"

text \<open>The live backend's field encoding, \<open>toBytes32\<close>.\<close>

definition toBytes32 :: "string \<Rightarrow> bytes" where
  "toBytes32 decimal = bytes_of_hex (padStart 64 (hex_char 0) (hex_of_nat (nat_of_dec decimal)))"

subsection \<open>The interface\<close>

text \<open>
  \<open>good\<close> are the tags the verifier passes: canonical field elements, with an epoch a double
  represents exactly. \<open>persists\<close> says whether the store keeps the granting account. \<open>prune\<close> may
  drop only what is older than its cutoff.
\<close>

definition good_tag :: "tag \<Rightarrow> bool" where
  "good_tag t = (case t of (e, c, n) \<Rightarrow>
     isCanonicalField e \<and> isCanonicalField c \<and> isCanonicalField n \<and> nat_of_dec e < 2 ^ 53)"

definition tag_epoch :: "tag \<Rightarrow> int" where
  "tag_epoch t = int (nat_of_dec (fst t))"

text \<open>A history of one store: claims in the order they reach it, and prunes between them.\<close>

datatype claim_op = Claim tag claim | Forget jsnum

fun claims_run :: "(tag \<Rightarrow> claim \<Rightarrow> 's \<Rightarrow> 's \<times> bool) \<Rightarrow> (jsnum \<Rightarrow> 's \<Rightarrow> 's) \<Rightarrow> claim_op list \<Rightarrow> 's
    \<Rightarrow> 's \<times> (tag \<times> claim) list" where
  "claims_run add prune [] s = (s, [])"
| "claims_run add prune (Claim t r # ops) s =
     (let (s1, dup) = add t r s; (s2, won) = claims_run add prune ops s1
      in (s2, if dup then won else (t, r) # won))"
| "claims_run add prune (Forget c # ops) s = claims_run add prune ops (prune c s)"

definition claims_of :: "tag \<Rightarrow> claim_op list \<Rightarrow> claim list" where
  "claims_of t ops = concat (map (\<lambda>x. case x of Claim u r \<Rightarrow> if u = t then [r] else [] | Forget c \<Rightarrow> []) ops)"

definition keeps_tag :: "tag \<Rightarrow> claim_op \<Rightarrow> bool" where
  "keeps_tag t x = (case x of Claim u r \<Rightarrow> good_tag u | Forget c \<Rightarrow> c \<le> Num (tag_epoch t) \<or> \<not> js_isFinite c)"

locale nullifier_store =
  fixes inv :: "'s \<Rightarrow> bool"
    and has :: "tag \<Rightarrow> 's \<Rightarrow> bool"
    and get :: "tag \<Rightarrow> 's \<Rightarrow> claim option"
    and add :: "tag \<Rightarrow> claim \<Rightarrow> 's \<Rightarrow> 's \<times> bool"
    and prune :: "jsnum \<Rightarrow> 's \<Rightarrow> 's"
    and persists :: bool
  assumes add_inv: "inv s \<Longrightarrow> inv (fst (add t r s))"
    and prune_inv: "inv s \<Longrightarrow> inv (prune c s)"
    and add_duplicate: "inv s \<Longrightarrow> good_tag t \<Longrightarrow> snd (add t r s) = has t s"
    and has_add: "inv s \<Longrightarrow> good_tag t \<Longrightarrow> good_tag u \<Longrightarrow> has u (fst (add t r s)) \<longleftrightarrow> u = t \<or> has u s"
    and get_has: "inv s \<Longrightarrow> good_tag t \<Longrightarrow> get t s \<noteq> None \<Longrightarrow> has t s"
    and get_fresh: "inv s \<Longrightarrow> good_tag t \<Longrightarrow> \<not> has t s \<Longrightarrow>
      get t (fst (add t r s)) = (if persists then Some r else None)"
    and get_forgets: "\<not> persists \<Longrightarrow> get t s = None"
    and get_stable: "inv s \<Longrightarrow> good_tag t \<Longrightarrow> good_tag u \<Longrightarrow> has u s \<Longrightarrow> get u (fst (add t r s)) = get u s"
    and prune_keeps: "inv s \<Longrightarrow> good_tag t \<Longrightarrow> c \<le> Num (tag_epoch t) \<or> \<not> js_isFinite c \<Longrightarrow>
      has t (prune c s) = has t s \<and> get t (prune c s) = get t s"

locale pruning_store = nullifier_store +
  assumes prune_drops: "inv s \<Longrightarrow> good_tag t \<Longrightarrow> js_isFinite c \<Longrightarrow> Num (tag_epoch t) < c \<Longrightarrow> \<not> has t (prune c s)"

context nullifier_store
begin

lemma run_inv: "inv s \<Longrightarrow> inv (fst (claims_run add prune ops s))"
proof (induction ops arbitrary: s)
  case (Cons x ops)
  then show ?case
  proof (cases x)
    case (Claim t r)
    then show ?thesis
      using Cons.IH [OF add_inv [OF Cons.prems, of t r]] by (simp add: Let_def split_def)
  next
    case (Forget c)
    then show ?thesis
      using Cons.IH [OF prune_inv [OF Cons.prems, of c]] by simp
  qed
qed simp

lemma one_spend:
  "inv s \<Longrightarrow> good_tag t \<Longrightarrow> list_all (keeps_tag t) ops \<Longrightarrow>
   filter (\<lambda>w. fst w = t) (snd (claims_run add prune ops s)) =
     (if has t s then [] else map (Pair t) (take 1 (claims_of t ops))) \<and>
   (has t (fst (claims_run add prune ops s)) \<longleftrightarrow> has t s \<or> claims_of t ops \<noteq> []) \<and>
   (has t s \<longrightarrow> get t (fst (claims_run add prune ops s)) = get t s) \<and>
   (\<not> has t s \<longrightarrow> claims_of t ops \<noteq> [] \<longrightarrow>
      get t (fst (claims_run add prune ops s)) = (if persists then Some (hd (claims_of t ops)) else None))"
proof (induction ops arbitrary: s)
  case Nil
  then show ?case
    by (simp add: claims_of_def)
next
  case (Cons x ops)
  show ?case
  proof (cases x)
    case (Forget c)
    then have "c \<le> Num (tag_epoch t) \<or> \<not> js_isFinite c"
      using Cons.prems by (simp add: keeps_tag_def)
    from prune_keeps [OF Cons.prems(1,2) this] show ?thesis
      using Cons.IH [OF prune_inv [OF Cons.prems(1)] Cons.prems(2)] Cons.prems(3) Forget
      by (simp add: claims_of_def)
  next
    case (Claim u r)
    have u: "good_tag u"
      using Cons.prems(3) Claim by (simp add: keeps_tag_def)
    obtain s1 dup where a: "add u r s = (s1, dup)"
      by (cases "add u r s")
    have i: "inv s1"
      using add_inv [OF Cons.prems(1), of u r] a by simp
    have d: "dup = has u s"
      using add_duplicate [OF Cons.prems(1) u, of r] a by simp
    have h: "has t s1 \<longleftrightarrow> t = u \<or> has t s"
      using has_add [OF Cons.prems(1) u Cons.prems(2), of r] a by simp
    have g: "has t s \<Longrightarrow> get t s1 = get t s" "\<not> has t s \<Longrightarrow> u = t \<Longrightarrow> get t s1 = (if persists then Some r else None)"
      using get_stable [OF Cons.prems(1) u Cons.prems(2), of r] get_fresh [OF Cons.prems(1) u, of r] a by auto
    have ops: "claims_of t (x # ops) = (if u = t then r # claims_of t ops else claims_of t ops)"
      using Claim by (simp add: claims_of_def)
    have run: "claims_run add prune (x # ops) s =
        (fst (claims_run add prune ops s1), if dup then snd (claims_run add prune ops s1)
           else (u, r) # snd (claims_run add prune ops s1))"
      using Claim a by (simp add: Let_def split_def)
    have "list_all (keeps_tag t) ops"
      using Cons.prems(3) by simp
    note IH = Cons.IH [OF i Cons.prems(2) this]
    show ?thesis
      unfolding run using IH d h g ops by (cases "u = t") auto
  qed
qed

end

subsection \<open>Every store satisfies it\<close>

lemma good_tag_epoch: "good_tag (e, c, n) \<Longrightarrow> \<exists>k. e = dec_of_nat k \<and> tag_epoch (e, c, n) = int k"
  by (auto simp: good_tag_def isCanonicalField_iff tag_epoch_def)

lemma no_colon_takeWhile: "CHR '':'' \<notin> set e \<Longrightarrow> takeWhile (\<lambda>c. c \<noteq> CHR '':'') (e @ CHR '':'' # x) = e"
  by (induction e) auto

lemma colon_key_inject:
  "CHR '':'' \<notin> set e \<Longrightarrow> CHR '':'' \<notin> set c \<Longrightarrow> CHR '':'' \<notin> set e' \<Longrightarrow> CHR '':'' \<notin> set c' \<Longrightarrow>
   e @ '':'' @ c @ '':'' @ n = e' @ '':'' @ c' @ '':'' @ n' \<longleftrightarrow> e = e' \<and> c = c' \<and> n = n'"
  using split_at_separator [of "CHR '':''" e e' "c @ '':'' @ n" "c' @ '':'' @ n'"]
    split_at_separator [of "CHR '':''" c c' n n'] by auto

lemma NullifierStore_key_inject: "good_tag t \<Longrightarrow> good_tag u \<Longrightarrow> NullifierStore_key t = NullifierStore_key u \<longleftrightarrow> t = u"
  by (cases t; cases u)
    (simp add: NullifierStore_key_def good_tag_def isCanonicalField_no_colon colon_key_inject [simplified])

lemma key_epoch_good: "good_tag t \<Longrightarrow> key_epoch (NullifierStore_key t) = Num (tag_epoch t)"
proof (cases t)
  case (fields e c n)
  assume "good_tag t"
  then obtain k where "e = dec_of_nat k" "tag_epoch t = int k"
    using good_tag_epoch fields by blast
  then show ?thesis
    using fields by (simp add: key_epoch_def NullifierStore_key_def no_colon_takeWhile dec_of_nat_no_colon)
qed

lemma jsnum_le_less: "c \<le> Num n \<Longrightarrow> \<not> Num n < (c :: jsnum)"
  by (cases c) auto

lemma mem_prune_get:
  assumes "jm_wf (ns_claims s)" "good_tag t" "js_isFinite c"
  shows "jm_get (ns_claims (fst (NullifierStore_prune c s))) (NullifierStore_key t) =
    (if Num (tag_epoch t) < c then None else jm_get (ns_claims s) (NullifierStore_key t))"
  using assms(3) by (auto simp: NullifierStore_prune_def Let_def jm_get_filter [OF assms(1)] key_epoch_good [OF assms(2)]
      split: option.splits)

interpretation mem: pruning_store "\<lambda>s. jm_wf (ns_claims s)" NullifierStore_has NullifierStore_get
  NullifierStore_add "\<lambda>c s. fst (NullifierStore_prune c s)" True
proof
  fix s :: null_store and t u :: tag and r :: claim and c :: jsnum
  show "jm_wf (ns_claims s) \<Longrightarrow> jm_wf (ns_claims (fst (NullifierStore_add t r s)))"
    by (simp add: NullifierStore_add_def Let_def)
  show "jm_wf (ns_claims s) \<Longrightarrow> jm_wf (ns_claims (fst (NullifierStore_prune c s)))"
    by (simp add: NullifierStore_prune_def Let_def)
  show "snd (NullifierStore_add t r s) = NullifierStore_has t s"
    by (simp add: NullifierStore_add_def NullifierStore_has_def Let_def)
  show "good_tag t \<Longrightarrow> good_tag u \<Longrightarrow> NullifierStore_has u (fst (NullifierStore_add t r s)) \<longleftrightarrow> u = t \<or> NullifierStore_has u s"
    using NullifierStore_key_inject [of u t] by (auto simp: NullifierStore_add_def NullifierStore_has_def Let_def)
  show "NullifierStore_get t s \<noteq> None \<Longrightarrow> NullifierStore_has t s"
    by (simp add: NullifierStore_get_def NullifierStore_has_def jm_has_get)
  show "\<not> NullifierStore_has t s \<Longrightarrow> NullifierStore_get t (fst (NullifierStore_add t r s)) = (if True then Some r else None)"
    by (simp add: NullifierStore_get_def NullifierStore_has_def NullifierStore_add_def Let_def)
  show "good_tag t \<Longrightarrow> good_tag u \<Longrightarrow> NullifierStore_has u s \<Longrightarrow>
      NullifierStore_get u (fst (NullifierStore_add t r s)) = NullifierStore_get u s"
    using NullifierStore_key_inject [of u t]
    by (auto simp: NullifierStore_get_def NullifierStore_has_def NullifierStore_add_def Let_def)
  show "NullifierStore_has t (fst (NullifierStore_prune c s)) = NullifierStore_has t s \<and>
      NullifierStore_get t (fst (NullifierStore_prune c s)) = NullifierStore_get t s"
    if "jm_wf (ns_claims s)" "good_tag t" "c \<le> Num (tag_epoch t) \<or> \<not> js_isFinite c"
  proof (cases "js_isFinite c")
    case True
    then show ?thesis
      using mem_prune_get [OF that(1,2) True] that(3) jsnum_le_less [of c "tag_epoch t"]
      by (simp add: NullifierStore_has_def NullifierStore_get_def jm_has_get)
  next
    case False
    then show ?thesis
      by (simp add: NullifierStore_prune_def)
  qed
  show "\<not> NullifierStore_has t (fst (NullifierStore_prune c s))"
    if "jm_wf (ns_claims s)" "good_tag t" "js_isFinite c" "Num (tag_epoch t) < c"
    using mem_prune_get [OF that(1,2,3)] that(4) by (simp add: NullifierStore_has_def jm_has_get)
qed simp

text \<open>In the database no tag has two rows, and \<open>epoch_n\<close> is the epoch's number.\<close>

definition sqlite_inv :: "sqlite_store \<Rightarrow> bool" where
  "sqlite_inv s \<longleftrightarrow> distinct (map row_tag (db_rows (ss_db s))) \<and>
     (\<forall>r \<in> set (db_rows (ss_db s)). cr_epoch_n r = (case js_parseInt (cr_epoch r) of Num i \<Rightarrow> i | _ \<Rightarrow> 0))"

lemma list_ex_find: "list_ex P xs \<longleftrightarrow> find P xs \<noteq> None"
  by (induction xs) auto

lemma sqlite_has_get: "SqliteNullifierStore_has t s \<longleftrightarrow> SqliteNullifierStore_get t s \<noteq> None"
  by (simp add: SqliteNullifierStore_has_def SqliteNullifierStore_get_def list_ex_find split: option.split)

lemma find_append: "find P (xs @ ys) = (case find P xs of None \<Rightarrow> find P ys | Some x \<Rightarrow> Some x)"
  by (induction xs) auto

lemma find_filter_keep: "(\<And>x. x \<in> set xs \<Longrightarrow> P x \<Longrightarrow> Q x) \<Longrightarrow> find P (filter Q xs) = find P xs"
  by (induction xs) auto

lemma sqlite_add_row:
  "\<exists>row. row_tag row = t \<and> cr_account row = cl_account r \<and>
     cr_epoch_n row = (case js_parseInt (cr_epoch row) of Num i \<Rightarrow> i | _ \<Rightarrow> 0) \<and>
     SqliteNullifierStore_add now t r s =
       (if SqliteNullifierStore_has t s then (s, True)
        else (s\<lparr>ss_db := (ss_db s)\<lparr>db_rows := db_rows (ss_db s) @ [row]\<rparr>\<rparr>, False))"
proof (cases t)
  case (fields e c n)
  let ?row = "\<lparr>cr_epoch = e, cr_context = c, cr_nf = n, cr_account = cl_account r,
    cr_epoch_n = (case js_parseInt e of Num i \<Rightarrow> i | _ \<Rightarrow> 0), cr_created_at = now\<rparr>"
  have "row_tag ?row = t"
    using fields by (simp add: row_tag_def)
  then show ?thesis
    using fields by (intro exI [of _ ?row]) (simp add: SqliteNullifierStore_add_def SqliteNullifierStore_has_def Let_def)
qed

lemma sqlite_add_get:
  "SqliteNullifierStore_get u (fst (SqliteNullifierStore_add now t r s)) =
     (if SqliteNullifierStore_has t s then SqliteNullifierStore_get u s
      else if u = t then Some r else SqliteNullifierStore_get u s)"
proof -
  obtain row where row: "row_tag row = t" "cr_account row = cl_account r"
      "SqliteNullifierStore_add now t r s =
       (if SqliteNullifierStore_has t s then (s, True)
        else (s\<lparr>ss_db := (ss_db s)\<lparr>db_rows := db_rows (ss_db s) @ [row]\<rparr>\<rparr>, False))"
    using sqlite_add_row by blast
  have "\<lparr>cl_account = cl_account r\<rparr> = r"
    by simp
  moreover have "\<not> SqliteNullifierStore_has t s \<Longrightarrow> find (\<lambda>x. row_tag x = t) (db_rows (ss_db s)) = None"
    by (simp add: SqliteNullifierStore_has_def list_ex_find)
  ultimately show ?thesis
    using row by (auto simp: SqliteNullifierStore_get_def find_append split: option.split)
qed

lemma sqlite_row_epoch:
  "sqlite_inv s \<Longrightarrow> good_tag t \<Longrightarrow> x \<in> set (db_rows (ss_db s)) \<Longrightarrow> row_tag x = t \<Longrightarrow> cr_epoch_n x = tag_epoch t"
  using good_tag_epoch [of "cr_epoch x" "cr_context x" "cr_nf x"]
  by (auto simp: sqlite_inv_def row_tag_def)

lemma sqlite_prune_get:
  assumes "sqlite_inv s" "good_tag t" "js_isFinite c"
  shows "SqliteNullifierStore_get t (fst (SqliteNullifierStore_prune c s)) =
    (if Num (tag_epoch t) < c then None else SqliteNullifierStore_get t s)"
proof -
  obtain n where c: "c = Num n"
    using assms(3) by (auto simp: js_isFinite_iff)
  show ?thesis
  proof (cases "tag_epoch t < n")
    case True
    then show ?thesis
      using sqlite_row_epoch [OF assms(1,2)] c
      by (auto simp: SqliteNullifierStore_get_def SqliteNullifierStore_prune_def Let_def find_None_iff split: option.splits)
  next
    case False
    then have "find (\<lambda>r. row_tag r = t) (filter (\<lambda>r. \<not> cr_epoch_n r < n) (db_rows (ss_db s))) =
        find (\<lambda>r. row_tag r = t) (db_rows (ss_db s))"
      using sqlite_row_epoch [OF assms(1,2)] by (intro find_filter_keep) simp
    then show ?thesis
      using False c by (simp add: SqliteNullifierStore_get_def SqliteNullifierStore_prune_def Let_def)
  qed
qed

interpretation sqlite: pruning_store sqlite_inv SqliteNullifierStore_has SqliteNullifierStore_get
  "SqliteNullifierStore_add now" "\<lambda>c s. fst (SqliteNullifierStore_prune c s)" True for now
proof
  fix s :: sqlite_store and t u :: tag and r :: claim and c :: jsnum
  show "sqlite_inv s \<Longrightarrow> sqlite_inv (fst (SqliteNullifierStore_add now t r s))"
    using sqlite_add_row [of t r now s]
    by (cases "SqliteNullifierStore_has t s")
      (auto simp: sqlite_inv_def SqliteNullifierStore_has_def list_ex_iff, metis)
  show "sqlite_inv s \<Longrightarrow> sqlite_inv (fst (SqliteNullifierStore_prune c s))"
    by (auto simp: sqlite_inv_def SqliteNullifierStore_prune_def Let_def distinct_map_filter split: jsnum.split)
  show "snd (SqliteNullifierStore_add now t r s) = SqliteNullifierStore_has t s"
    by (cases t) (simp add: SqliteNullifierStore_add_def SqliteNullifierStore_has_def Let_def row_tag_def)
  show "SqliteNullifierStore_has u (fst (SqliteNullifierStore_add now t r s)) \<longleftrightarrow> u = t \<or> SqliteNullifierStore_has u s"
    unfolding sqlite_has_get sqlite_add_get by auto
  show "SqliteNullifierStore_get t s \<noteq> None \<Longrightarrow> SqliteNullifierStore_has t s"
    by (simp add: sqlite_has_get)
  show "\<not> SqliteNullifierStore_has t s \<Longrightarrow> SqliteNullifierStore_get t (fst (SqliteNullifierStore_add now t r s)) = (if True then Some r else None)"
    by (simp add: sqlite_add_get)
  show "SqliteNullifierStore_has u s \<Longrightarrow>
      SqliteNullifierStore_get u (fst (SqliteNullifierStore_add now t r s)) = SqliteNullifierStore_get u s"
    by (auto simp: sqlite_add_get)
  show "SqliteNullifierStore_has t (fst (SqliteNullifierStore_prune c s)) = SqliteNullifierStore_has t s \<and>
      SqliteNullifierStore_get t (fst (SqliteNullifierStore_prune c s)) = SqliteNullifierStore_get t s"
    if "sqlite_inv s" "good_tag t" "c \<le> Num (tag_epoch t) \<or> \<not> js_isFinite c"
  proof (cases "js_isFinite c")
    case True
    then show ?thesis
      using sqlite_prune_get [OF that(1,2) True] that(3) jsnum_le_less [of c "tag_epoch t"]
      by (simp add: sqlite_has_get)
  next
    case False
    then show ?thesis
      by (simp add: SqliteNullifierStore_prune_def)
  qed
  show "\<not> SqliteNullifierStore_has t (fst (SqliteNullifierStore_prune c s))"
    if "sqlite_inv s" "good_tag t" "js_isFinite c" "Num (tag_epoch t) < c"
    using sqlite_prune_get [OF that(1,2,3)] that(4) by (simp add: sqlite_has_get)
qed simp

lemma MemoryBackend_key_inject:
  "good_tag t \<Longrightarrow> good_tag u \<Longrightarrow> MemoryBackend_key (tag_document t) = MemoryBackend_key (tag_document u) \<longleftrightarrow> t = u"
proof (cases t; cases u)
  fix e c n e' c' n'
  assume g: "good_tag t" "good_tag u" and t: "t = (e, c, n)" "u = (e', c', n')"
  obtain k k' where k: "e = dec_of_nat k" "e' = dec_of_nat k'"
    using good_tag_epoch g t by blast
  have "js_String (js_Number e) = e" "js_String (js_Number e') = e'"
    using k by (simp_all add: dec_of_int_def)
  then show ?thesis
    using NullifierStore_key_inject [OF g] t
    by (simp add: MemoryBackend_key_def tag_document_def NullifierStore_key_def)
qed

interpretation doc: nullifier_store "\<lambda>_. True" "DocumentNullifierStore_has MemoryBackend_exists" DocumentNullifierStore_get
  "DocumentNullifierStore_add MemoryBackend_insert" "\<lambda>c s. s" False
proof
  fix s :: memory_backend and t u :: tag and r :: claim and c :: jsnum
  show "snd (DocumentNullifierStore_add MemoryBackend_insert t r s) = DocumentNullifierStore_has MemoryBackend_exists t s"
    by (simp add: DocumentNullifierStore_add_def DocumentNullifierStore_has_def MemoryBackend_insert_def
        MemoryBackend_exists_def Let_def)
  show "good_tag t \<Longrightarrow> good_tag u \<Longrightarrow> DocumentNullifierStore_has MemoryBackend_exists u
      (fst (DocumentNullifierStore_add MemoryBackend_insert t r s)) \<longleftrightarrow>
      u = t \<or> DocumentNullifierStore_has MemoryBackend_exists u s"
    using MemoryBackend_key_inject [of u t]
    by (auto simp: DocumentNullifierStore_add_def DocumentNullifierStore_has_def MemoryBackend_insert_def
        MemoryBackend_exists_def Let_def)
qed (simp_all add: DocumentNullifierStore_get_def)

subsection \<open>Properties\<close>

text \<open>What a store answers about the good tags, as an observer sees it.\<close>

definition same_claims :: "(tag \<Rightarrow> 's \<Rightarrow> bool) \<Rightarrow> (tag \<Rightarrow> 's \<Rightarrow> claim option) \<Rightarrow>
    (tag \<Rightarrow> 'r \<Rightarrow> bool) \<Rightarrow> (tag \<Rightarrow> 'r \<Rightarrow> claim option) \<Rightarrow> 's \<Rightarrow> 'r \<Rightarrow> bool" where
  "same_claims has get has' get' s s' \<longleftrightarrow>
     (\<forall>t. good_tag t \<longrightarrow> has t s = has' t s' \<and> get t s = get' t s')"

definition good_op :: "claim_op \<Rightarrow> bool" where
  "good_op x = (case x of Claim t r \<Rightarrow> good_tag t | Forget c \<Rightarrow> True)"

lemma mem_prune_claims:
  assumes "jm_wf (ns_claims s)" "good_tag t"
  shows "NullifierStore_get t (fst (NullifierStore_prune c s)) =
     (if js_isFinite c \<and> Num (tag_epoch t) < c then None else NullifierStore_get t s)"
  using mem_prune_get [OF assms] by (cases "js_isFinite c") (auto simp: NullifierStore_get_def NullifierStore_prune_def)

lemma sqlite_prune_claims:
  assumes "sqlite_inv s" "good_tag t"
  shows "SqliteNullifierStore_get t (fst (SqliteNullifierStore_prune c s)) =
     (if js_isFinite c \<and> Num (tag_epoch t) < c then None else SqliteNullifierStore_get t s)"
  using sqlite_prune_get [OF assms] by (cases "js_isFinite c") (auto simp: SqliteNullifierStore_prune_def)

lemma mem_has_get: "NullifierStore_has t s \<longleftrightarrow> NullifierStore_get t s \<noteq> None"
  by (simp add: NullifierStore_has_def NullifierStore_get_def jm_has_get)

lemma mem_add_get:
  "jm_wf (ns_claims s) \<Longrightarrow> good_tag t \<Longrightarrow> good_tag u \<Longrightarrow> NullifierStore_get u (fst (NullifierStore_add t r s)) =
     (if NullifierStore_has t s then NullifierStore_get u s
      else if u = t then Some r else NullifierStore_get u s)"
  using NullifierStore_key_inject [of u t]
  by (auto simp: NullifierStore_get_def NullifierStore_has_def NullifierStore_add_def Let_def)

lemma same_claims_iff:
  "same_claims NullifierStore_has NullifierStore_get SqliteNullifierStore_has SqliteNullifierStore_get s s' \<longleftrightarrow>
     (\<forall>t. good_tag t \<longrightarrow> NullifierStore_get t s = SqliteNullifierStore_get t s')"
  by (auto simp: same_claims_def mem_has_get sqlite_has_get)

text \<open>C37: the ephemeral store and the durable one are the same spent set. Through any history of
  claims and prunes they grant the same claims in the same order, and afterwards answer alike for
  every tag the verifier can pass, pruning included.\<close>

theorem memory_matches_sqlite:
  assumes "jm_wf (ns_claims s)" "sqlite_inv s'" "list_all good_op ops"
    and "same_claims NullifierStore_has NullifierStore_get SqliteNullifierStore_has SqliteNullifierStore_get s s'"
  shows "snd (claims_run NullifierStore_add (\<lambda>c s. fst (NullifierStore_prune c s)) ops s) =
       snd (claims_run (SqliteNullifierStore_add now) (\<lambda>c s. fst (SqliteNullifierStore_prune c s)) ops s') \<and>
     same_claims NullifierStore_has NullifierStore_get SqliteNullifierStore_has SqliteNullifierStore_get
       (fst (claims_run NullifierStore_add (\<lambda>c s. fst (NullifierStore_prune c s)) ops s))
       (fst (claims_run (SqliteNullifierStore_add now) (\<lambda>c s. fst (SqliteNullifierStore_prune c s)) ops s'))"
  using assms
proof (induction ops arbitrary: s s')
  case Nil
  then show ?case by simp
next
  case (Cons x ops)
  show ?case
  proof (cases x)
    case (Claim t r)
    have t: "good_tag t"
      using Cons.prems(3) Claim by (simp add: good_op_def)
    let ?m = "fst (NullifierStore_add t r s)" and ?q = "fst (SqliteNullifierStore_add now t r s')"
    have i: "jm_wf (ns_claims ?m)" "sqlite_inv ?q" "list_all good_op ops"
      using mem.add_inv [OF Cons.prems(1)] sqlite.add_inv [OF Cons.prems(2)] Cons.prems(3) by simp_all
    have same: "same_claims NullifierStore_has NullifierStore_get SqliteNullifierStore_has SqliteNullifierStore_get ?m ?q"
      using Cons.prems(4) t unfolding same_claims_iff
      by (auto simp: mem_add_get [OF Cons.prems(1) t] sqlite_add_get mem_has_get sqlite_has_get)
    have "snd (NullifierStore_add t r s) = snd (SqliteNullifierStore_add now t r s')"
      using mem.add_duplicate [OF Cons.prems(1) t] sqlite.add_duplicate [OF Cons.prems(2) t] Cons.prems(4) t
      unfolding same_claims_def by metis
    then show ?thesis
      using Cons.IH [OF i same] Claim by (simp add: Let_def split_def)
  next
    case (Forget c)
    let ?m = "fst (NullifierStore_prune c s)" and ?q = "fst (SqliteNullifierStore_prune c s')"
    have i: "jm_wf (ns_claims ?m)" "sqlite_inv ?q" "list_all good_op ops"
      using mem.prune_inv [OF Cons.prems(1)] sqlite.prune_inv [OF Cons.prems(2)] Cons.prems(3) by simp_all
    have "same_claims NullifierStore_has NullifierStore_get SqliteNullifierStore_has SqliteNullifierStore_get ?m ?q"
      using Cons.prems(4) unfolding same_claims_iff
      by (simp add: mem_prune_claims [OF Cons.prems(1)] sqlite_prune_claims [OF Cons.prems(2)])
    then show ?thesis
      using Cons.IH [OF i] Forget by simp
  qed
qed

definition demo_tag :: tag where
  "demo_tag = (dec_of_nat 9, dec_of_nat 4, dec_of_nat 3)"

lemma demo_tag_good: "good_tag demo_tag" "tag_epoch demo_tag = 9"
  by (simp_all add: demo_tag_def good_tag_def isCanonicalField_dec_of_nat FIELD_PRIME_def tag_epoch_def)

definition demo_ops :: "claim_op list" where
  "demo_ops = [Claim demo_tag \<lparr>cl_account = Some ''alice''\<rparr>, Forget (Num 9), Claim demo_tag \<lparr>cl_account = Some ''bob''\<rparr>]"

definition demo_sqlite :: sqlite_store where
  "demo_sqlite = \<lparr>ss_path = ''g.db'', ss_schedule = Some ''e'',
     ss_db = \<lparr>db_rows = [], db_schedule = Some ''e''\<rparr>, ss_closed = False\<rparr>"

theorem memory_matches_sqlite_witness:
  "snd (claims_run (SqliteNullifierStore_add 0) (\<lambda>c s. fst (SqliteNullifierStore_prune c s)) demo_ops demo_sqlite) =
     snd (claims_run NullifierStore_add (\<lambda>c s. fst (NullifierStore_prune c s)) demo_ops NullifierStore_new)"
proof -
  have "jm_wf (ns_claims NullifierStore_new)" "sqlite_inv demo_sqlite" "list_all good_op demo_ops"
    by (simp_all add: NullifierStore_new_def sqlite_inv_def demo_sqlite_def demo_ops_def good_op_def demo_tag_good)
  moreover have "same_claims NullifierStore_has NullifierStore_get SqliteNullifierStore_has SqliteNullifierStore_get
      NullifierStore_new demo_sqlite"
    by (simp add: same_claims_def mem_has_get sqlite_has_get)
      (simp add: NullifierStore_get_def NullifierStore_new_def SqliteNullifierStore_get_def demo_sqlite_def)
  ultimately show ?thesis
    using memory_matches_sqlite by metis
qed

text \<open>C6: a spend survives a restart. When a claim for a tag reached the durable store, closing it
  and reopening the same database under the same schedule gives a store that grants that tag to
  nobody again and still names the account that claimed it first, as long as no prune passed the
  tag's epoch; under any other schedule the database is refused.\<close>

theorem sqlite_spend_survives_restart:
  assumes "sqlite_inv s" "db_schedule (ss_db s) = Some sched" "good_tag t" "\<not> SqliteNullifierStore_has t s"
    and "list_all (keeps_tag t) ops" "list_all (keeps_tag t) later" "claims_of t ops \<noteq> []"
    and "after = ss_db (SqliteNullifierStore_close
           (fst (claims_run (SqliteNullifierStore_add now) (\<lambda>c s. fst (SqliteNullifierStore_prune c s)) ops s)))"
  shows "(\<exists>s2. SqliteNullifierStore_open path (Some sched) True after = Inr s2 \<and>
       filter (\<lambda>w. fst w = t) (snd (claims_run (SqliteNullifierStore_add now')
          (\<lambda>c s. fst (SqliteNullifierStore_prune c s)) later s2)) = [] \<and>
       SqliteNullifierStore_get t (fst (claims_run (SqliteNullifierStore_add now')
          (\<lambda>c s. fst (SqliteNullifierStore_prune c s)) later s2)) = Some (hd (claims_of t ops))) \<and>
     (\<forall>other. other \<noteq> sched \<longrightarrow>
        SqliteNullifierStore_open path (Some other) True after = Inl (ScheduleMismatch path sched other))"
proof -
  let ?s1 = "fst (claims_run (SqliteNullifierStore_add now) (\<lambda>c s. fst (SqliteNullifierStore_prune c s)) ops s)"
  have sch: "db_schedule (ss_db (fst (claims_run (SqliteNullifierStore_add now)
      (\<lambda>c s. fst (SqliteNullifierStore_prune c s)) xs y))) = db_schedule (ss_db y)" for xs y
  proof (induction xs arbitrary: y)
    case (Cons x xs)
    then show ?case
    proof (cases x)
      case (Claim u r)
      have "db_schedule (ss_db (fst (SqliteNullifierStore_add now u r y))) = db_schedule (ss_db y)"
        by (cases u) (simp add: SqliteNullifierStore_add_def Let_def)
      then show ?thesis
        using Cons.IH Claim by (simp add: Let_def split_def)
    next
      case (Forget c)
      then show ?thesis
        using Cons.IH by (simp add: SqliteNullifierStore_prune_def Let_def split: jsnum.split)
    qed
  qed simp
  have after: "after = ss_db ?s1" "db_schedule after = Some sched"
    using assms(2,8) sch by (simp_all add: SqliteNullifierStore_close_def)
  let ?s2 = "\<lparr>ss_path = path, ss_schedule = Some sched, ss_db = after, ss_closed = False\<rparr>"
  have open2: "SqliteNullifierStore_open path (Some sched) True after = Inr ?s2"
    using after by (simp add: SqliteNullifierStore_open_def)
  have inv1: "sqlite_inv ?s1"
    by (rule sqlite.run_inv [OF assms(1)])
  then have inv2: "sqlite_inv ?s2"
    using after by (simp add: sqlite_inv_def)
  have same: "SqliteNullifierStore_has t ?s2 = SqliteNullifierStore_has t ?s1"
      "SqliteNullifierStore_get t ?s2 = SqliteNullifierStore_get t ?s1"
    using after by (simp_all add: SqliteNullifierStore_has_def SqliteNullifierStore_get_def)
  have "SqliteNullifierStore_has t ?s1" "SqliteNullifierStore_get t ?s1 = Some (hd (claims_of t ops))"
    using sqlite.one_spend [OF assms(1,3,5)] assms(4,7) by simp_all
  then have "filter (\<lambda>w. fst w = t) (snd (claims_run (SqliteNullifierStore_add now')
        (\<lambda>c s. fst (SqliteNullifierStore_prune c s)) later ?s2)) = []"
      "SqliteNullifierStore_get t (fst (claims_run (SqliteNullifierStore_add now')
        (\<lambda>c s. fst (SqliteNullifierStore_prune c s)) later ?s2)) = Some (hd (claims_of t ops))"
    using sqlite.one_spend [OF inv2 assms(3,6)] same by simp_all
  moreover have "other \<noteq> sched \<Longrightarrow> SqliteNullifierStore_open path (Some other) True after =
      Inl (ScheduleMismatch path sched other)" for other
    using after by (auto simp: SqliteNullifierStore_open_def)
  ultimately show ?thesis
    using open2 by blast
qed

theorem sqlite_spend_survives_restart_witness:
  "\<exists>s2. SqliteNullifierStore_open ''g.db'' (Some ''e'') True
      (ss_db (SqliteNullifierStore_close (fst (claims_run (SqliteNullifierStore_add 0)
         (\<lambda>c s. fst (SqliteNullifierStore_prune c s)) demo_ops demo_sqlite)))) = Inr s2 \<and>
     SqliteNullifierStore_get demo_tag s2 = Some \<lparr>cl_account = Some ''alice''\<rparr>"
proof -
  have inv: "sqlite_inv demo_sqlite" "db_schedule (ss_db demo_sqlite) = Some ''e''"
      "\<not> SqliteNullifierStore_has demo_tag demo_sqlite"
    by (simp_all add: sqlite_inv_def demo_sqlite_def SqliteNullifierStore_has_def)
  have ops: "list_all (keeps_tag demo_tag) demo_ops" "list_all (keeps_tag demo_tag) []"
      "claims_of demo_tag demo_ops = [\<lparr>cl_account = Some ''alice''\<rparr>, \<lparr>cl_account = Some ''bob''\<rparr>]"
    by (simp_all add: demo_ops_def keeps_tag_def demo_tag_good claims_of_def)
  show ?thesis
    using sqlite_spend_survives_restart [OF inv(1,2) demo_tag_good(1) inv(3) ops(1,2) _ refl,
        where now = 0 and path = "''g.db''" and now' = 0] ops(3)
    by auto
qed

text \<open>Gateways that share one document backend share one spent set: of all their claims for a
  tag, exactly the first that reaches the unique index is granted, and since the backend keeps no
  account, no later lookup can turn a refusal into a re-grant.\<close>

lemma document_spend_once:
  assumes "good_tag t" "list_all (keeps_tag t) ops"
  shows "filter (\<lambda>w. fst w = t) (snd (claims_run (DocumentNullifierStore_add MemoryBackend_insert) (\<lambda>c s. s) ops b)) =
      (if DocumentNullifierStore_has MemoryBackend_exists t b then [] else map (Pair t) (take 1 (claims_of t ops))) \<and>
     DocumentNullifierStore_get t (fst (claims_run (DocumentNullifierStore_add MemoryBackend_insert) (\<lambda>c s. s) ops b)) = None"
  using doc.one_spend [OF TrueI assms, of b] by (simp add: DocumentNullifierStore_get_def)

theorem document_spend_once_witness:
  "filter (\<lambda>w. fst w = demo_tag) (snd (claims_run (DocumentNullifierStore_add MemoryBackend_insert) (\<lambda>c s. s)
     demo_ops MemoryBackend_new)) = [(demo_tag, \<lparr>cl_account = Some ''alice''\<rparr>)]"
proof -
  have "list_all (keeps_tag demo_tag) demo_ops"
      "claims_of demo_tag demo_ops = [\<lparr>cl_account = Some ''alice''\<rparr>, \<lparr>cl_account = Some ''bob''\<rparr>]"
      "\<not> DocumentNullifierStore_has MemoryBackend_exists demo_tag MemoryBackend_new"
    by (simp_all add: demo_ops_def keeps_tag_def demo_tag_good claims_of_def DocumentNullifierStore_has_def
        MemoryBackend_exists_def MemoryBackend_new_def)
  then show ?thesis
    using document_spend_once [OF demo_tag_good(1), of demo_ops MemoryBackend_new] by simp
qed

text \<open>C34: \<open>toBytes32\<close> gives exactly 32 bytes for every canonical field element, and distinct
  elements get distinct bytes, so the contract's unique index sees distinct tags as distinct.\<close>

lemma toBytes32_injective:
  assumes "isCanonicalField a" "isCanonicalField b"
  shows "length (toBytes32 a) = 32 \<and> list_all (\<lambda>x. x < 256) (toBytes32 a) \<and> (toBytes32 a = toBytes32 b \<longleftrightarrow> a = b)"
proof -
  have t: "length (toBytes32 x) = 32 \<and> list_all (\<lambda>y. y < 256) (toBytes32 x) \<and> val256 0 (toBytes32 x) = nat_of_dec x"
    if "isCanonicalField x" for x
  proof -
    have "FIELD_PRIME < 16 ^ 64"
      by (simp add: FIELD_PRIME_def)
    then have "nat_of_dec x < 16 ^ 64"
      using that less_trans unfolding isCanonicalField_def by blast
    then have l: "length (hex_of_nat (nat_of_dec x)) \<le> 64"
      using hex_of_nat_length [of 64 "nat_of_dec x"] by simp
    let ?h = "padStart 64 (hex_char 0) (hex_of_nat (nat_of_dec x))"
    have "length ?h = 64" "val16 0 ?h = nat_of_dec x" "\<forall>c \<in> set ?h. hex_val c < 16"
      using l hex_of_nat_chars by (auto simp: padStart_def val16_append val16_zeros)
    then show ?thesis
      using val256_bytes_of_hex [of ?h 0] bytes_of_hex_bound [of ?h]
      by (simp add: toBytes32_def length_bytes_of_hex list_all_iff)
  qed
  show ?thesis
    using t [OF assms(1)] t [OF assms(2)] assms by (metis isCanonicalField_iff nat_of_dec_of_nat)
qed

theorem toBytes32_injective_witness: "toBytes32 (dec_of_nat 256) \<noteq> toBytes32 (dec_of_nat 1)"
  using toBytes32_injective [of "dec_of_nat 256" "dec_of_nat 1"]
  by (simp add: isCanonicalField_dec_of_nat FIELD_PRIME_def)

end
