(* ===== verification/Verify_Membership.thy ===== *)
theory Verify_Membership
  imports Nullifier_Stores
begin

section \<open>Verifying a membership (core/verifier.js)\<close>

text \<open>
  \<open>verifyMembership\<close> and the checks it rests on. The function awaits the store, the proof check
  and the caller's period check up to nine times, and other requests run during every await, so
  it is modelled as it runs: a synchronous beginning, and a resumption for each await
  (\<open>vphase\<close> names the await a call is suspended at, \<open>answer\<close> what it resumes with). The step
  relation \<open>vm_step\<close> interleaves any number of calls over one store, with failing store calls,
  writes whose outcome the caller does not learn, prunes and restarts. The proof systems of the
  \<open>snarkjs\<close> package are arguments.
\<close>

subsection \<open>Signals and keys\<close>

datatype js_value = Js_string string | Js_other

datatype public_signals = Js_array "js_value list" | Js_not_array

definition canonical_value :: "js_value \<Rightarrow> bool" where
  "canonical_value v = (case v of Js_string s \<Rightarrow> isCanonicalField s | Js_other \<Rightarrow> False)"

definition signalsAreCanonical :: "public_signals \<Rightarrow> nat \<Rightarrow> bool" where
  "signalsAreCanonical signals count =
     (case signals of
        Js_array vs \<Rightarrow> length vs = count \<and> list_all canonical_value vs
      | Js_not_array \<Rightarrow> False)"

record signals =
  sg_nullifier :: string
  sg_root :: string
  sg_epoch :: string
  sg_contextHash :: string
  sg_signalHash :: string

definition signal_at :: "public_signals \<Rightarrow> nat \<Rightarrow> string" where
  "signal_at signals i =
     (case signals of
        Js_array vs \<Rightarrow> if i < length vs then (case vs ! i of Js_string s \<Rightarrow> s | Js_other \<Rightarrow> []) else []
      | Js_not_array \<Rightarrow> [])"

definition readSignals :: "public_signals \<Rightarrow> signals" where
  "readSignals p =
     \<lparr>sg_nullifier = signal_at p 0, sg_root = signal_at p 1, sg_epoch = signal_at p 2,
      sg_contextHash = signal_at p 3, sg_signalHash = signal_at p 4\<rparr>"

text \<open>A verification key, as far as the code reads it, and a client's proof (\<open>None\<close> is no object).\<close>

record 'v vkey =
  vk_protocol :: "string option"
  vk_devOnly :: bool
  vk_data :: 'v

record 'p zk_proof =
  pf_protocol :: "string option"
  pf_data :: 'p

datatype key_refusal = ProtocolNotSupported | WrongProtocol "string option" string | DevKeyRefused string
  | VerifierThrew

definition SUPPORTED_PROTOCOLS :: "string list" where
  "SUPPORTED_PROTOCOLS = [''groth16'', ''plonk'']"

type_synonym ('v, 'p) proof_system = "'v vkey \<Rightarrow> public_signals \<Rightarrow> 'p zk_proof \<Rightarrow> key_refusal + bool"

definition key_protocol :: "'v vkey option \<Rightarrow> string option" where
  "key_protocol k = Option.bind k vk_protocol"

definition verifyWithKey :: "('v, 'p) proof_system \<Rightarrow> ('v, 'p) proof_system \<Rightarrow> 'v vkey option \<Rightarrow>
    public_signals \<Rightarrow> 'p zk_proof option \<Rightarrow> key_refusal + bool" where
  "verifyWithKey groth16 plonk vkey signals proof =
     (case key_protocol vkey of
        None \<Rightarrow> Inl ProtocolNotSupported
      | Some protocol \<Rightarrow>
          if protocol \<notin> set SUPPORTED_PROTOCOLS then Inl ProtocolNotSupported
          else (case proof of
                  None \<Rightarrow> Inr False
                | Some p \<Rightarrow>
                    if pf_protocol p \<noteq> Some protocol then Inr False
                    else if protocol = ''groth16'' then groth16 (the vkey) signals p
                    else plonk (the vkey) signals p))"

definition requireProtocol :: "'v vkey option \<Rightarrow> string \<Rightarrow> key_refusal + unit" where
  "requireProtocol vkey protocol =
     (if key_protocol vkey \<noteq> Some protocol then Inl (WrongProtocol (key_protocol vkey) protocol) else Inr ())"

definition requireNotDevKey :: "'v vkey option \<Rightarrow> string \<Rightarrow> bool \<Rightarrow> key_refusal + unit" where
  "requireNotDevKey vkey setting allowDevKeys =
     (case vkey of
        Some k \<Rightarrow> if vk_devOnly k \<and> \<not> allowDevKeys then Inl (DevKeyRefused setting) else Inr ()
      | None \<Rightarrow> Inr ())"

text \<open>
  \<open>checkProof\<close>: a verifier that throws is a failed check, but the gate's own refusal (\<open>admitted\<close>
  is false) is thrown on.
\<close>

datatype gate_refusal = Gate_overloaded

definition checkProof :: "bool \<Rightarrow> key_refusal + bool \<Rightarrow> gate_refusal + bool" where
  "checkProof admitted run =
     (if \<not> admitted then Inl Gate_overloaded else case run of Inr b \<Rightarrow> Inr b | Inl e \<Rightarrow> Inr False)"

subsection \<open>One call\<close>

text \<open>
  What the caller passes. \<open>ex_account\<close> is \<open>None\<close> when it is no string; \<open>ex_asks_period\<close> says
  whether \<open>stillCurrent\<close> is a function.
\<close>

record expected =
  ex_account :: "string option"
  ex_epoch :: jsnum
  ex_contextHash :: string
  ex_signalHash :: string
  ex_asks_period :: bool

record ('v, 'p) request =
  rq_vkey :: "'v vkey option"
  rq_proof :: "'p zk_proof option"
  rq_signals :: public_signals
  rq_expected :: expected

definition request_signals :: "('v, 'p) request \<Rightarrow> signals" where
  "request_signals q = readSignals (rq_signals q)"

definition request_tag :: "('v, 'p) request \<Rightarrow> tag" where
  "request_tag q =
     (sg_epoch (request_signals q), sg_contextHash (request_signals q), sg_nullifier (request_signals q))"

definition request_claim :: "('v, 'p) request \<Rightarrow> claim" where
  "request_claim q = \<lparr>cl_account = ex_account (rq_expected q)\<rparr>"

datatype outcome = Refused string | Granted bool \<comment> \<open>regranted\<close>

text \<open>\<open>Threw b\<close> is a rejected promise; \<open>b\<close> is the error's \<open>beforeSpend\<close> mark.\<close>

datatype vphase =
    Await_has | Await_prior | Await_regrant_proof | Await_regrant_period
  | Await_proof | Await_period | Await_add
  | Await_period_after bool | Await_prior_after | Await_period_lookup
  | Settled outcome | Threw bool

datatype answer = Ans_bool bool | Ans_claim "claim option" | Ans_verdict "string option" | Ans_throws

definition verifyMembership_begin :: "(string \<Rightarrow> bool) \<Rightarrow> ('v, 'p) request \<Rightarrow> vphase" where
  "verifyMembership_begin isRecent q =
     (let s = request_signals q; e = rq_expected q in
      if \<not> signalsAreCanonical (rq_signals q) 5 then Settled (Refused ''non-canonical-signal'')
      else if ex_account e = None \<or> ex_account e = Some [] then Settled (Refused ''missing-account'')
      else if \<not> isRecent (sg_root s) then Settled (Refused ''stale-or-unknown-root'')
      else if sg_epoch s \<noteq> js_String (ex_epoch e) then Settled (Refused ''wrong-epoch'')
      else if sg_contextHash s \<noteq> ex_contextHash e then Settled (Refused ''wrong-context'')
      else if sg_signalHash s \<noteq> ex_signalHash e then Settled (Refused ''wrong-signal'')
      else Await_has)"

definition periodStillCurrent :: "expected \<Rightarrow> string option \<Rightarrow> string option" where
  "periodStillCurrent e verdict =
     (if \<not> ex_asks_period e then None
      else case verdict of None \<Rightarrow> None | Some r \<Rightarrow> Some (if r = [] then ''period-changed'' else r))"

text \<open>\<open>String(account)\<close>; a claim this function records always has one.\<close>

definition account_text :: "string option \<Rightarrow> string" where
  "account_text a = (case a of None \<Rightarrow> ''null'' | Some s \<Rightarrow> s)"

definition claimedBySameAccount :: "('v, 'p) request \<Rightarrow> claim option \<Rightarrow> bool" where
  "claimedBySameAccount q prior =
     (case prior of
        None \<Rightarrow> False
      | Some c \<Rightarrow> account_text (cl_account c) = account_text (ex_account (rq_expected q)))"

text \<open>After the spend, only a refusal that makes the spent tag irrelevant is honoured.\<close>

definition refuses_after_spend :: "string option \<Rightarrow> string option" where
  "refuses_after_spend v =
     (case v of None \<Rightarrow> None | Some r \<Rightarrow> if r = ''stale-or-unknown-root'' then None else Some r)"

fun verifyMembership_resume :: "('v, 'p) request \<Rightarrow> vphase \<Rightarrow> answer \<Rightarrow> vphase" where
  "verifyMembership_resume q Await_has (Ans_bool spent) = (if spent then Await_prior else Await_proof)"
| "verifyMembership_resume q Await_has Ans_throws = Threw True"
| "verifyMembership_resume q Await_prior (Ans_claim prior) =
     (if claimedBySameAccount q prior then Await_regrant_proof else Settled (Refused ''already-used''))"
| "verifyMembership_resume q Await_prior Ans_throws = Threw True"
| "verifyMembership_resume q Await_regrant_proof (Ans_bool ok) =
     (if ok then Await_regrant_period else Settled (Refused ''invalid-proof''))"
| "verifyMembership_resume q Await_regrant_period (Ans_verdict v) =
     (case periodStillCurrent (rq_expected q) v of
        None \<Rightarrow> Settled (Granted True)
      | Some r \<Rightarrow> Settled (Refused r))"
| "verifyMembership_resume q Await_proof (Ans_bool ok) =
     (if ok then Await_period else Settled (Refused ''invalid-proof''))"
| "verifyMembership_resume q Await_period (Ans_verdict v) =
     (case periodStillCurrent (rq_expected q) v of
        None \<Rightarrow> Await_add
      | Some r \<Rightarrow> Settled (Refused r))"
| "verifyMembership_resume q Await_add (Ans_bool dup) = Await_period_after dup"
| "verifyMembership_resume q (Await_period_after dup) (Ans_verdict v) =
     (case refuses_after_spend (periodStillCurrent (rq_expected q) v) of
        Some r \<Rightarrow> Settled (Refused r)
      | None \<Rightarrow> if dup then Await_prior_after else Settled (Granted False))"
| "verifyMembership_resume q Await_prior_after (Ans_claim prior) =
     (if claimedBySameAccount q prior then Await_period_lookup else Settled (Refused ''already-used''))"
| "verifyMembership_resume q Await_prior_after Ans_throws = Threw True"
| "verifyMembership_resume q Await_period_lookup (Ans_verdict v) =
     (case refuses_after_spend (periodStillCurrent (rq_expected q) v) of
        Some r \<Rightarrow> Settled (Refused r)
      | None \<Rightarrow> Settled (Granted True))"
| "verifyMembership_resume q (Settled r) _ = Settled r"
| "verifyMembership_resume q (Threw b) _ = Threw b"
| "verifyMembership_resume q ph Ans_throws = Threw False"
| "verifyMembership_resume q ph _ = ph"

subsection \<open>Many calls over one store\<close>

record ('v, 'p, 's) vsys =
  vs_store :: 's
  vs_calls :: "nat \<Rightarrow> (('v, 'p) request \<times> vphase) option"
  vs_granted :: "('v, 'p) request list"

definition settle :: "nat \<Rightarrow> ('v, 'p) request \<Rightarrow> vphase \<Rightarrow> ('v, 'p, 's) vsys \<Rightarrow> ('v, 'p, 's) vsys" where
  "settle i q ph y = y\<lparr>vs_calls := (vs_calls y)(i \<mapsto> (q, ph)),
     vs_granted := (case ph of Settled (Granted r) \<Rightarrow> q # vs_granted y | _ \<Rightarrow> vs_granted y)\<rparr>"

definition proof_phase :: "vphase \<Rightarrow> bool" where
  "proof_phase ph \<longleftrightarrow> ph = Await_proof \<or> ph = Await_regrant_proof"

definition period_phase :: "vphase \<Rightarrow> bool" where
  "period_phase ph \<longleftrightarrow> ph \<in> {Await_period, Await_regrant_period, Await_period_lookup,
     Await_period_after True, Await_period_after False}"

definition running :: "vphase \<Rightarrow> bool" where
  "running ph = (case ph of Settled _ \<Rightarrow> False | Threw _ \<Rightarrow> False | _ \<Rightarrow> True)"

text \<open>
  \<open>lo\<close> bounds the prunes: none passes that epoch. \<open>valid\<close> is the proof check's answer for a
  request once the gate admitted it.
\<close>

inductive vm_step :: "(tag \<Rightarrow> 's \<Rightarrow> bool) \<Rightarrow> (tag \<Rightarrow> 's \<Rightarrow> claim option) \<Rightarrow> (tag \<Rightarrow> claim \<Rightarrow> 's \<Rightarrow> 's \<times> bool) \<Rightarrow>
    (jsnum \<Rightarrow> 's \<Rightarrow> 's) \<Rightarrow> (('v, 'p) request \<Rightarrow> bool) \<Rightarrow> int \<Rightarrow> ('v, 'p, 's) vsys \<Rightarrow> ('v, 'p, 's) vsys \<Rightarrow> bool"
  for has get add prune valid lo where
  vm_call: "vs_calls y i = None \<Longrightarrow> ex_epoch (rq_expected q) = Num n \<Longrightarrow> n < 2 ^ 53 \<Longrightarrow>
     vm_step has get add prune valid lo y (settle i q (verifyMembership_begin isRecent q) y)"
| vm_has: "vs_calls y i = Some (q, Await_has) \<Longrightarrow>
     vm_step has get add prune valid lo y
       (settle i q (verifyMembership_resume q Await_has (Ans_bool (has (request_tag q) (vs_store y)))) y)"
| vm_get: "vs_calls y i = Some (q, ph) \<Longrightarrow> ph = Await_prior \<or> ph = Await_prior_after \<Longrightarrow>
     vm_step has get add prune valid lo y
       (settle i q (verifyMembership_resume q ph (Ans_claim (get (request_tag q) (vs_store y)))) y)"
| vm_proof: "vs_calls y i = Some (q, ph) \<Longrightarrow> proof_phase ph \<Longrightarrow>
     vm_step has get add prune valid lo y (settle i q (verifyMembership_resume q ph (Ans_bool (valid q))) y)"
| vm_period: "vs_calls y i = Some (q, ph) \<Longrightarrow> period_phase ph \<Longrightarrow>
     vm_step has get add prune valid lo y (settle i q (verifyMembership_resume q ph (Ans_verdict v)) y)"
| vm_add: "vs_calls y i = Some (q, Await_add) \<Longrightarrow> add (request_tag q) (request_claim q) (vs_store y) = (s', dup) \<Longrightarrow>
     vm_step has get add prune valid lo y
       ((settle i q (verifyMembership_resume q Await_add (Ans_bool dup)) y)\<lparr>vs_store := s'\<rparr>)"
| vm_throws: "vs_calls y i = Some (q, ph) \<Longrightarrow> running ph \<Longrightarrow>
     vm_step has get add prune valid lo y (settle i q (verifyMembership_resume q ph Ans_throws) y)"
| vm_add_uncertain: "vs_calls y i = Some (q, Await_add) \<Longrightarrow>
     add (request_tag q) (request_claim q) (vs_store y) = (s', dup) \<Longrightarrow>
     vm_step has get add prune valid lo y
       ((settle i q (verifyMembership_resume q Await_add Ans_throws) y)\<lparr>vs_store := s'\<rparr>)"
| vm_prune: "c \<le> Num lo \<or> \<not> js_isFinite c \<Longrightarrow>
     vm_step has get add prune valid lo y (y\<lparr>vs_store := prune c (vs_store y)\<rparr>)"
| vm_restart: "vm_step has get add prune valid lo y (y\<lparr>vs_calls := Map.empty\<rparr>)"

inductive vm_reach :: "(tag \<Rightarrow> 's \<Rightarrow> bool) \<Rightarrow> (tag \<Rightarrow> 's \<Rightarrow> claim option) \<Rightarrow> (tag \<Rightarrow> claim \<Rightarrow> 's \<Rightarrow> 's \<times> bool) \<Rightarrow>
    (jsnum \<Rightarrow> 's \<Rightarrow> 's) \<Rightarrow> (('v, 'p) request \<Rightarrow> bool) \<Rightarrow> int \<Rightarrow> 's \<Rightarrow> ('v, 'p, 's) vsys \<Rightarrow> bool"
  for has get add prune valid lo s0 where
  vm_start: "vm_reach has get add prune valid lo s0 \<lparr>vs_store = s0, vs_calls = Map.empty, vs_granted = []\<rparr>"
| vm_next: "vm_reach has get add prune valid lo s0 y \<Longrightarrow> vm_step has get add prune valid lo y y' \<Longrightarrow>
     vm_reach has get add prune valid lo s0 y'"

subsection \<open>What a call in flight knows\<close>

definition request_ok :: "('v, 'p) request \<Rightarrow> bool" where
  "request_ok q \<longleftrightarrow> signalsAreCanonical (rq_signals q) 5 \<and>
     (\<exists>a. ex_account (rq_expected q) = Some a \<and> a \<noteq> []) \<and>
     (\<exists>n < 2 ^ 53. ex_epoch (rq_expected q) = Num n) \<and>
     sg_epoch (request_signals q) = js_String (ex_epoch (rq_expected q)) \<and>
     sg_contextHash (request_signals q) = ex_contextHash (rq_expected q) \<and>
     sg_signalHash (request_signals q) = ex_signalHash (rq_expected q)"

definition owner :: "(tag \<Rightarrow> 's \<Rightarrow> claim option) \<Rightarrow> ('v, 'p) request \<Rightarrow> 's \<Rightarrow> bool" where
  "owner get q s \<longleftrightarrow> claimedBySameAccount q (get (request_tag q) s)"

definition proven :: "vphase \<Rightarrow> bool" where
  "proven ph \<longleftrightarrow> ph \<in> {Await_regrant_period, Await_period, Await_add, Await_period_after True,
     Await_period_after False, Await_prior_after, Await_period_lookup}"

definition recognised :: "vphase \<Rightarrow> bool" where
  "recognised ph \<longleftrightarrow> ph \<in> {Await_regrant_proof, Await_regrant_period, Await_period_lookup}"

lemma signal_canonical:
  "signalsAreCanonical p 5 \<Longrightarrow> i < 5 \<Longrightarrow> isCanonicalField (signal_at p i)"
  by (auto simp: signalsAreCanonical_def signal_at_def canonical_value_def list_all_length
      split: public_signals.splits js_value.splits)

lemma request_ok_good: "request_ok q \<Longrightarrow> good_tag (request_tag q)"
proof -
  assume q: "request_ok q"
  then have c: "isCanonicalField (signal_at (rq_signals q) i)" if "i < 5" for i
    using signal_canonical that by (auto simp: request_ok_def)
  obtain n where n: "n < 2 ^ 53" "signal_at (rq_signals q) 2 = dec_of_int n"
    using q by (auto simp: request_ok_def request_signals_def readSignals_def)
  have "0 \<le> n"
  proof (rule ccontr)
    assume "\<not> 0 \<le> n"
    then have "CHR ''-'' \<in> set (signal_at (rq_signals q) 2)"
      using n by (simp add: dec_of_int_def)
    moreover obtain k where "signal_at (rq_signals q) 2 = dec_of_nat k"
      using c [of 2] by (auto simp: isCanonicalField_iff)
    ultimately show False
      using dec_of_nat_no_sign by simp
  qed
  then have "nat_of_dec (signal_at (rq_signals q) 2) < 2 ^ 53"
    using n by (simp add: dec_of_int_def nat_less_iff)
  then show ?thesis
    using c [of 0] c [of 2] c [of 3]
    by (simp add: good_tag_def request_tag_def request_signals_def readSignals_def)
qed

lemma begin_refuses: "verifyMembership_begin isRecent q = Await_has \<or>
    (\<exists>r. verifyMembership_begin isRecent q = Settled (Refused r))"
  by (simp add: verifyMembership_begin_def Let_def)

lemma begin_ok:
  assumes "ex_epoch (rq_expected q) = Num n" "n < 2 ^ 53" "verifyMembership_begin isRecent q = Await_has"
  shows "request_ok q \<and> isRecent (sg_root (request_signals q))"
  using assms by (auto simp: verifyMembership_begin_def request_ok_def Let_def split: if_splits)

definition call_inv :: "(tag \<Rightarrow> 's \<Rightarrow> bool) \<Rightarrow> (tag \<Rightarrow> 's \<Rightarrow> claim option) \<Rightarrow> (('v, 'p) request \<Rightarrow> bool) \<Rightarrow> bool \<Rightarrow>
    tag \<Rightarrow> 's \<Rightarrow> ('v, 'p) request \<Rightarrow> vphase \<Rightarrow> bool" where
  "call_inv has get valid persists t s q ph \<longleftrightarrow>
     (running ph \<longrightarrow> request_ok q) \<and> (proven ph \<longrightarrow> valid q) \<and>
     (request_tag q = t \<longrightarrow>
        (recognised ph \<longrightarrow> persists \<and> has t s \<and> owner get q s) \<and>
        (ph = Await_period_after False \<longrightarrow> has t s \<and> (persists \<longrightarrow> owner get q s)))"

definition grant_inv :: "(tag \<Rightarrow> 's \<Rightarrow> bool) \<Rightarrow> (tag \<Rightarrow> 's \<Rightarrow> claim option) \<Rightarrow> (('v, 'p) request \<Rightarrow> bool) \<Rightarrow> bool \<Rightarrow>
    tag \<Rightarrow> 's \<Rightarrow> ('v, 'p) request \<Rightarrow> bool" where
  "grant_inv has get valid persists t s q \<longleftrightarrow> request_ok q \<and> valid q \<and>
     (request_tag q = t \<longrightarrow> has t s \<and> (persists \<longrightarrow> owner get q s))"

definition winner :: "tag \<Rightarrow> ('v, 'p, 's) vsys \<Rightarrow> nat \<Rightarrow> bool" where
  "winner t y i \<longleftrightarrow> (\<exists>q. vs_calls y i = Some (q, Await_period_after False) \<and> request_tag q = t)"

definition grants_for :: "tag \<Rightarrow> ('v, 'p, 's) vsys \<Rightarrow> ('v, 'p) request list" where
  "grants_for t y = filter (\<lambda>q. request_tag q = t) (vs_granted y)"

definition one_winner :: "tag \<Rightarrow> ('v, 'p, 's) vsys \<Rightarrow> bool" where
  "one_winner t y \<longleftrightarrow> (\<forall>i j. winner t y i \<longrightarrow> winner t y j \<longrightarrow> i = j) \<and>
     ((\<exists>i. winner t y i) \<longrightarrow> grants_for t y = []) \<and> length (grants_for t y) \<le> 1"

definition vm_inv :: "('s \<Rightarrow> bool) \<Rightarrow> (tag \<Rightarrow> 's \<Rightarrow> bool) \<Rightarrow> (tag \<Rightarrow> 's \<Rightarrow> claim option) \<Rightarrow>
    (('v, 'p) request \<Rightarrow> bool) \<Rightarrow> bool \<Rightarrow> tag \<Rightarrow> ('v, 'p, 's) vsys \<Rightarrow> bool" where
  "vm_inv ok has get valid persists t y \<longleftrightarrow> ok (vs_store y) \<and>
     (\<forall>i q ph. vs_calls y i = Some (q, ph) \<longrightarrow> call_inv has get valid persists t (vs_store y) q ph) \<and>
     (\<forall>q \<in> set (vs_granted y). grant_inv has get valid persists t (vs_store y) q) \<and>
     (\<not> persists \<longrightarrow> one_winner t y)"

text \<open>Nothing a call knows about \<open>t\<close> is undone when the store moves on.\<close>

definition store_moves :: "(tag \<Rightarrow> 's \<Rightarrow> bool) \<Rightarrow> (tag \<Rightarrow> 's \<Rightarrow> claim option) \<Rightarrow> tag \<Rightarrow> 's \<Rightarrow> 's \<Rightarrow> bool" where
  "store_moves has get t s s' \<longleftrightarrow> (has t s \<longrightarrow> has t s' \<and> get t s' = get t s)"

lemma store_moves_refl [simp]: "store_moves has get t s s"
  by (simp add: store_moves_def)

lemma call_inv_moves:
  "call_inv has get valid persists t s q ph \<Longrightarrow> store_moves has get t s s' \<Longrightarrow> call_inv has get valid persists t s' q ph"
  by (auto simp: call_inv_def store_moves_def owner_def)

lemma grant_inv_moves:
  "grant_inv has get valid persists t s q \<Longrightarrow> store_moves has get t s s' \<Longrightarrow> grant_inv has get valid persists t s' q"
  by (auto simp: grant_inv_def store_moves_def owner_def)

text \<open>One call moves to phase \<open>ph\<close> while the store becomes \<open>s'\<close>.\<close>

lemma vm_inv_settle:
  assumes "vm_inv ok has get valid persists t y" "ok s'" "store_moves has get t (vs_store y) s'"
    and "call_inv has get valid persists t s' q ph"
    and "\<And>r. ph = Settled (Granted r) \<Longrightarrow> grant_inv has get valid persists t s' q"
    and "\<not> persists \<Longrightarrow> request_tag q = t \<Longrightarrow> \<exists>r. ph = Settled (Granted r) \<Longrightarrow>
       vs_calls y i = Some (q, Await_period_after False)"
    and "\<not> persists \<Longrightarrow> request_tag q = t \<Longrightarrow> ph = Await_period_after False \<Longrightarrow> \<not> has t (vs_store y)"
  shows "vm_inv ok has get valid persists t ((settle i q ph y)\<lparr>vs_store := s'\<rparr>)"
proof -
  let ?z = "(settle i q ph y)\<lparr>vs_store := s'\<rparr>"
  have calls: "vs_calls ?z = (vs_calls y)(i \<mapsto> (q, ph))"
    by (simp add: settle_def)
  have granted: "vs_granted ?z = (if \<exists>r. ph = Settled (Granted r) then q # vs_granted y else vs_granted y)"
    by (auto simp: settle_def split: vphase.split outcome.split)
  have "one_winner t ?z" if np: "\<not> persists"
  proof -
    have w: "one_winner t y"
      using assms(1) np by (simp add: vm_inv_def)
    have win: "winner t ?z j \<longleftrightarrow> (if j = i then request_tag q = t \<and> ph = Await_period_after False else winner t y j)" for j
      by (auto simp: winner_def calls)
    have gr: "grants_for t ?z = (if request_tag q = t \<and> (\<exists>r. ph = Settled (Granted r)) then q # grants_for t y
        else grants_for t y)"
      by (simp add: grants_for_def granted)
    show ?thesis
    proof (cases "request_tag q = t \<and> (\<exists>r. ph = Settled (Granted r))")
      case True
      then have "winner t y i"
        using assms(6) np by (auto simp: winner_def)
      then show ?thesis
        using w True by (auto simp: one_winner_def win gr)
    next
      case False
      show ?thesis
      proof (cases "request_tag q = t \<and> ph = Await_period_after False")
        case True
        then have nh: "\<not> has t (vs_store y)"
          using assms(7) np by blast
        have "\<not> winner t y j" for j
          using assms(1) nh by (auto simp: winner_def vm_inv_def call_inv_def)
        moreover have "grants_for t y = []"
          using assms(1) nh by (auto simp: grants_for_def vm_inv_def grant_inv_def filter_empty_conv)
        ultimately show ?thesis
          using False by (auto simp: one_winner_def win gr)
      next
        case nw: False
        then show ?thesis
          using w False by (auto simp: one_winner_def win gr split: if_splits)
      qed
    qed
  qed
  moreover have "call_inv has get valid persists t s' q' ph'" if "vs_calls ?z j = Some (q', ph')" for j q' ph'
  proof (cases "j = i")
    case True
    then show ?thesis
      using that assms(4) by (simp add: calls)
  next
    case False
    then have "call_inv has get valid persists t (vs_store y) q' ph'"
      using that assms(1) by (simp add: calls vm_inv_def)
    then show ?thesis
      using assms(3) by (rule call_inv_moves)
  qed
  moreover have "grant_inv has get valid persists t s' q'" if "q' \<in> set (vs_granted ?z)" for q'
  proof (cases "q' \<in> set (vs_granted y)")
    case True
    then have "grant_inv has get valid persists t (vs_store y) q'"
      using assms(1) by (simp add: vm_inv_def)
    then show ?thesis
      using assms(3) by (rule grant_inv_moves)
  next
    case False
    then have "q' = q" "\<exists>r. ph = Settled (Granted r)"
      using that by (simp_all add: granted split: if_splits)
    then show ?thesis
      using assms(5) by blast
  qed
  ultimately show ?thesis
    using assms(2) by (simp add: vm_inv_def)
qed

lemma vm_inv_settle_same:
  assumes "vm_inv ok has get valid persists t y"
    and "call_inv has get valid persists t (vs_store y) q ph"
    and "\<And>r. ph = Settled (Granted r) \<Longrightarrow> grant_inv has get valid persists t (vs_store y) q"
    and "\<not> persists \<Longrightarrow> request_tag q = t \<Longrightarrow> \<exists>r. ph = Settled (Granted r) \<Longrightarrow>
       vs_calls y i = Some (q, Await_period_after False)"
    and "ph \<noteq> Await_period_after False"
  shows "vm_inv ok has get valid persists t (settle i q ph y)"
proof -
  have "(settle i q ph y)\<lparr>vs_store := vs_store y\<rparr> = settle i q ph y"
    by (simp add: settle_def)
  then show ?thesis
    using vm_inv_settle [OF assms(1), of "vs_store y" q ph i] assms by (simp add: vm_inv_def)
qed

lemma vm_inv_move:
  assumes "vm_inv ok has get valid persists t y" "store_moves has get t (vs_store y) s'" "ok s'"
  shows "vm_inv ok has get valid persists t (y\<lparr>vs_store := s'\<rparr>)"
proof -
  have "one_winner t (y\<lparr>vs_store := s'\<rparr>) = one_winner t y"
    by (simp add: one_winner_def winner_def grants_for_def)
  moreover have "call_inv has get valid persists t s' q ph" if "vs_calls y i = Some (q, ph)" for i q ph
    using assms(1) that call_inv_moves [OF _ assms(2)] unfolding vm_inv_def by blast
  moreover have "grant_inv has get valid persists t s' q" if "q \<in> set (vs_granted y)" for q
    using assms(1) that grant_inv_moves [OF _ assms(2)] unfolding vm_inv_def by blast
  ultimately show ?thesis
    using assms(1,3) by (simp add: vm_inv_def)
qed

lemma resume_throws: "running ph \<Longrightarrow> \<exists>b. verifyMembership_resume q ph Ans_throws = Threw b"
  by (cases ph) (auto simp: running_def)

lemma call_inv_final [simp]:
  "call_inv has get valid persists t s q (Threw b)" "call_inv has get valid persists t s q (Settled r)"
  by (simp_all add: call_inv_def running_def proven_def recognised_def)

lemma proven_running: "proven ph \<Longrightarrow> running ph"
  by (auto simp: proven_def running_def)

lemma call_inv_proven: "call_inv has get valid persists t s q ph \<Longrightarrow> proven ph \<Longrightarrow> request_ok q \<and> valid q"
  unfolding call_inv_def using proven_running by blast

lemma period_resume:
  assumes "vm_inv ok has get valid persists t y" "vs_calls y i = Some (q, ph)" "period_phase ph"
  shows "vm_inv ok has get valid persists t (settle i q (verifyMembership_resume q ph (Ans_verdict v)) y)"
proof -
  have c: "call_inv has get valid persists t (vs_store y) q ph"
    using assms(1,2) by (simp add: vm_inv_def)
  have p: "request_ok q" "valid q"
    using call_inv_proven [OF c] assms(3) by (auto simp: period_phase_def proven_def)
  from assms(3) consider "ph = Await_regrant_period" | "ph = Await_period" | "ph = Await_period_lookup"
    | "ph = Await_period_after True" | "ph = Await_period_after False"
    by (auto simp: period_phase_def)
  then show ?thesis
  proof cases
    case 1
    then show ?thesis
      using c p by (intro vm_inv_settle_same [OF assms(1)])
        (auto simp: call_inv_def grant_inv_def recognised_def running_def proven_def split: option.splits)
  next
    case 2
    then show ?thesis
      using c p by (intro vm_inv_settle_same [OF assms(1)])
        (auto simp: call_inv_def grant_inv_def recognised_def running_def proven_def split: option.splits)
  next
    case 3
    then show ?thesis
      using c p by (intro vm_inv_settle_same [OF assms(1)])
        (auto simp: call_inv_def grant_inv_def recognised_def running_def proven_def split: option.splits)
  next
    case 4
    then show ?thesis
      using c p by (intro vm_inv_settle_same [OF assms(1)])
        (auto simp: call_inv_def grant_inv_def recognised_def running_def proven_def split: option.splits)
  next
    case 5
    then show ?thesis
      using c p assms(2) by (intro vm_inv_settle_same [OF assms(1)])
        (auto simp: call_inv_def grant_inv_def recognised_def running_def proven_def split: option.splits)
  qed
qed

text \<open>Whatever the store does, a grant was proven and passed every policy check.\<close>

definition phase_sane :: "(('v, 'p) request \<Rightarrow> bool) \<Rightarrow> ('v, 'p) request \<Rightarrow> vphase \<Rightarrow> bool" where
  "phase_sane valid q ph \<longleftrightarrow> (running ph \<longrightarrow> request_ok q) \<and> (proven ph \<longrightarrow> valid q) \<and>
     ((\<exists>r. ph = Settled (Granted r)) \<longrightarrow> request_ok q \<and> valid q)"

definition vm_sane :: "(('v, 'p) request \<Rightarrow> bool) \<Rightarrow> ('v, 'p, 's) vsys \<Rightarrow> bool" where
  "vm_sane valid y \<longleftrightarrow> (\<forall>i q ph. vs_calls y i = Some (q, ph) \<longrightarrow> phase_sane valid q ph) \<and>
     (\<forall>q \<in> set (vs_granted y). request_ok q \<and> valid q)"

lemma resume_sane:
  "phase_sane valid q ph \<Longrightarrow> (\<And>b. a = Ans_bool b \<Longrightarrow> proof_phase ph \<Longrightarrow> b = valid q) \<Longrightarrow>
   phase_sane valid q (verifyMembership_resume q ph a)"
  by (cases ph; cases a)
    (auto simp: phase_sane_def proof_phase_def running_def proven_def split: option.split)

lemma vm_sane_settle:
  "vm_sane valid y \<Longrightarrow> phase_sane valid q ph \<Longrightarrow> vm_sane valid (settle i q ph y)"
  by (auto simp: vm_sane_def settle_def phase_sane_def split: vphase.splits outcome.splits)

lemma vm_sane_store [simp]: "vm_sane valid (y\<lparr>vs_store := s\<rparr>) = vm_sane valid y"
  by (simp add: vm_sane_def)

lemma vm_sane_call: "vm_sane valid y \<Longrightarrow> vs_calls y i = Some (q, ph) \<Longrightarrow> phase_sane valid q ph"
  by (simp add: vm_sane_def)

lemma vm_sane_step: "vm_step has get add prune valid lo y y' \<Longrightarrow> vm_sane valid y \<Longrightarrow> vm_sane valid y'"
proof (induction rule: vm_step.induct)
  case (vm_call y i q n isRecent)
  then have "phase_sane valid q (verifyMembership_begin isRecent q)"
    using begin_refuses [of isRecent q] begin_ok [OF vm_call(2,3), of isRecent]
    by (auto simp: phase_sane_def running_def proven_def)
  then show ?case
    using vm_call(4) by (rule vm_sane_settle [rotated])
next
  case (vm_proof y i q ph)
  then show ?case
    by (intro vm_sane_settle resume_sane vm_sane_call) auto
next
  case (vm_restart y)
  then show ?case
    by (simp add: vm_sane_def)
qed (simp_all only: vm_sane_store, (intro vm_sane_settle resume_sane vm_sane_call; (assumption | auto simp: proof_phase_def))+)

lemma vm_reach_sane: "vm_reach has get add prune valid lo s0 y \<Longrightarrow> vm_sane valid y"
proof (induction rule: vm_reach.induct)
  case vm_start
  then show ?case
    by (simp add: vm_sane_def)
qed (rule vm_sane_step)

lemma proof_resume:
  assumes "call_inv has get valid persists t s q ph" "proof_phase ph"
  shows "call_inv has get valid persists t s q (verifyMembership_resume q ph (Ans_bool (valid q))) \<and>
    (\<forall>r. verifyMembership_resume q ph (Ans_bool (valid q)) \<noteq> Settled (Granted r)) \<and>
    verifyMembership_resume q ph (Ans_bool (valid q)) \<noteq> Await_period_after False"
proof (cases "valid q")
  case True
  have "ph = Await_proof \<or> ph = Await_regrant_proof"
    using assms(2) by (simp add: proof_phase_def)
  then show ?thesis
    using assms(1) True by (elim disjE) (simp_all add: call_inv_def recognised_def proven_def running_def)
next
  case False
  then show ?thesis
    using assms(2) by (auto simp: proof_phase_def)
qed

context nullifier_store
begin

lemma add_moves:
  "inv s \<Longrightarrow> good_tag u \<Longrightarrow> good_tag t \<Longrightarrow> store_moves has get t s (fst (add u r s))"
  using has_add [of s u t r] get_stable [of s u t r] by (auto simp: store_moves_def)

lemma vm_inv_added:
  assumes "vm_inv inv has get valid persists t y" "good_tag t" "vs_calls y i = Some (q, Await_add)"
    and "add (request_tag q) (request_claim q) (vs_store y) = (s', dup)"
  shows "vm_inv inv has get valid persists t
      ((settle i q (Await_period_after dup) y)\<lparr>vs_store := s'\<rparr>)"
    and "vm_inv inv has get valid persists t ((settle i q (Threw b) y)\<lparr>vs_store := s'\<rparr>)"
proof -
  have i: "inv (vs_store y)"
    using assms(1) by (simp add: vm_inv_def)
  have c: "call_inv has get valid persists t (vs_store y) q Await_add"
    using assms(1,3) by (simp add: vm_inv_def)
  have q: "request_ok q" "valid q"
    using call_inv_proven [OF c] by (simp_all add: proven_def)
  have g: "good_tag (request_tag q)"
    using request_ok_good [OF q(1)] .
  have s': "inv s'" "store_moves has get t (vs_store y) s'"
    using add_inv [OF i, of "request_tag q" "request_claim q"]
      add_moves [OF i g assms(2), of "request_claim q"] assms(4) by simp_all
  have dup: "dup = has (request_tag q) (vs_store y)"
    using add_duplicate [OF i g, of "request_claim q"] assms(4) by simp
  have own: "\<not> dup \<Longrightarrow> has (request_tag q) s' \<and> (persists \<longrightarrow> owner get q s')"
    using has_add [OF i g g, of "request_claim q"] get_fresh [OF i g, of "request_claim q"] assms(4) dup
    by (simp add: owner_def claimedBySameAccount_def request_claim_def)
  show "vm_inv inv has get valid persists t ((settle i q (Await_period_after dup) y)\<lparr>vs_store := s'\<rparr>)"
  proof (rule vm_inv_settle [OF assms(1) s'])
    show "call_inv has get valid persists t s' q (Await_period_after dup)"
      using q own by (auto simp: call_inv_def recognised_def)
    show "\<not> has t (vs_store y)" if "request_tag q = t" "Await_period_after dup = Await_period_after False"
      using that dup by auto
  qed auto
  show "vm_inv inv has get valid persists t ((settle i q (Threw b) y)\<lparr>vs_store := s'\<rparr>)"
    by (rule vm_inv_settle [OF assms(1) s']) auto
qed

lemma got_prior:
  assumes "vm_inv inv has get valid persists t y" "vs_calls y i = Some (q, ph)"
    and "ph = Await_prior \<or> ph = Await_prior_after"
  shows "vm_inv inv has get valid persists t
    (settle i q (verifyMembership_resume q ph (Ans_claim (get (request_tag q) (vs_store y)))) y)"
proof (rule vm_inv_settle_same [OF assms(1)])
  let ?g = "get (request_tag q) (vs_store y)"
  have i: "inv (vs_store y)"
    using assms(1) by (simp add: vm_inv_def)
  have c: "call_inv has get valid persists t (vs_store y) q ph"
    using assms(1,2) by (simp add: vm_inv_def)
  have q: "request_ok q"
    using c assms(3) by (auto simp: call_inv_def running_def)
  have own: "persists \<and> has (request_tag q) (vs_store y) \<and> owner get q (vs_store y)" if "claimedBySameAccount q ?g"
  proof -
    have "?g \<noteq> None"
      using that by (auto simp: claimedBySameAccount_def split: option.splits)
    moreover from this have "persists"
      using get_forgets [of "request_tag q" "vs_store y"] by (cases persists) simp_all
    ultimately show ?thesis
      using get_has [OF i request_ok_good [OF q]] that by (simp add: owner_def)
  qed
  show "call_inv has get valid persists t (vs_store y) q (verifyMembership_resume q ph (Ans_claim ?g))"
  proof (cases "claimedBySameAccount q ?g")
    case True
    from own [OF True] show ?thesis
      using True assms(3) c q by (elim disjE) (simp_all add: call_inv_def recognised_def proven_def, metis+)
  next
    case False
    then show ?thesis
      using assms(3) by (elim disjE) simp_all
  qed
  show "verifyMembership_resume q ph (Ans_claim ?g) \<noteq> Await_period_after False"
    using assms(3) by (auto split: if_splits)
qed (use assms(3) in \<open>auto split: if_splits\<close>)

lemma vm_inv_step:
  assumes "vm_step has get add prune valid lo y y'" "good_tag t" "lo \<le> tag_epoch t"
    and "vm_inv inv has get valid persists t y"
  shows "vm_inv inv has get valid persists t y'"
  using assms(1,4)
proof (induction rule: vm_step.induct)
  case (vm_call y i q n isRecent)
  show ?case
  proof (cases "verifyMembership_begin isRecent q = Await_has")
    case True
    then have "call_inv has get valid persists t (vs_store y) q Await_has"
      using begin_ok [OF vm_call(2,3)] by (simp add: call_inv_def recognised_def proven_def)
    then show ?thesis
      using vm_inv_settle_same [OF vm_call(4), of q Await_has i] True by simp
  next
    case False
    then obtain r where "verifyMembership_begin isRecent q = Settled (Refused r)"
      using begin_refuses by blast
    then show ?thesis
      using vm_inv_settle_same [OF vm_call(4), of q "Settled (Refused r)" i] by simp
  qed
next
  case (vm_has y i q)
  then have "call_inv has get valid persists t (vs_store y) q Await_has"
    by (simp add: vm_inv_def)
  then have c: "call_inv has get valid persists t (vs_store y) q Await_prior"
      "call_inv has get valid persists t (vs_store y) q Await_proof"
    by (simp_all add: call_inv_def recognised_def proven_def running_def)
  show ?case
    using c by (cases "has (request_tag q) (vs_store y)") (auto intro!: vm_inv_settle_same [OF vm_has(2)])
next
  case (vm_get y i q ph)
  then show ?case
    using got_prior by blast
next
  case (vm_proof y i q ph)
  then have "call_inv has get valid persists t (vs_store y) q ph"
    by (simp add: vm_inv_def)
  from proof_resume [OF this vm_proof(2)] show ?case
    by (intro vm_inv_settle_same [OF vm_proof(3)]) blast+
next
  case (vm_period y i q ph v)
  then show ?case
    using period_resume by blast
next
  case (vm_add y i q s' dup)
  then show ?case
    using vm_inv_added(1) [OF vm_add(3) assms(2) vm_add(1,2)] by simp
next
  case (vm_throws y i q ph)
  then obtain b where "verifyMembership_resume q ph Ans_throws = Threw b"
    using resume_throws by blast
  then show ?case
    using vm_inv_settle_same [OF vm_throws(3), of q "Threw b" i] by simp
next
  case (vm_add_uncertain y i q s' dup)
  then show ?case
    using vm_inv_added(2) [OF vm_add_uncertain(3) assms(2) vm_add_uncertain(1,2)] by simp
next
  case (vm_prune c y)
  have "c \<le> Num (tag_epoch t) \<or> \<not> js_isFinite c"
    using vm_prune(1) assms(3) by (cases c) auto
  then have "store_moves has get t (vs_store y) (prune c (vs_store y))" "inv (prune c (vs_store y))"
    using vm_prune(2) prune_keeps [of "vs_store y" t c] assms(2) prune_inv by (auto simp: store_moves_def vm_inv_def)
  then show ?case
    using vm_inv_move [OF vm_prune(2)] by blast
next
  case (vm_restart y)
  then show ?case
    by (auto simp: vm_inv_def one_winner_def winner_def grants_for_def)
qed

lemma vm_reach_inv:
  assumes "vm_reach has get add prune valid lo s0 y" "inv s0" "good_tag t" "lo \<le> tag_epoch t"
  shows "vm_inv inv has get valid persists t y"
  using assms(1)
proof (induction rule: vm_reach.induct)
  case vm_start
  then show ?case
    using assms(2) by (simp add: vm_inv_def one_winner_def winner_def grants_for_def)
next
  case (vm_next y y')
  then show ?case
    using vm_inv_step assms(3,4) by blast
qed

lemma one_account:
  assumes "vm_reach has get add prune valid lo s0 y" "inv s0" "persists"
    and "p \<in> set (vs_granted y)" "q \<in> set (vs_granted y)" "request_tag p = request_tag q" "lo \<le> tag_epoch (request_tag q)"
  shows "ex_account (rq_expected p) = ex_account (rq_expected q)"
proof -
  have ok: "request_ok p" "request_ok q"
    using vm_reach_sane [OF assms(1)] assms(4,5) by (auto simp: vm_sane_def)
  have "vm_inv inv has get valid persists (request_tag q) y"
    by (rule vm_reach_inv [OF assms(1,2) request_ok_good [OF ok(2)] assms(7)])
  then have "owner get p (vs_store y)" "owner get q (vs_store y)"
    using assms(3-6) by (auto simp: vm_inv_def grant_inv_def)
  then show ?thesis
    using ok assms(6) by (auto simp: owner_def claimedBySameAccount_def account_text_def request_ok_def split: option.splits)
qed

lemma one_grant:
  assumes "vm_reach has get add prune valid lo s0 y" "inv s0" "\<not> persists" "good_tag t" "lo \<le> tag_epoch t"
  shows "length (grants_for t y) \<le> 1"
  using vm_reach_inv [OF assms(1,2,4,5)] assms(3) by (simp add: vm_inv_def one_winner_def)

end

subsection \<open>One call by itself\<close>

fun vm_trace :: "('v, 'p) request \<Rightarrow> vphase \<Rightarrow> answer list \<Rightarrow> vphase" where
  "vm_trace q ph [] = ph"
| "vm_trace q ph (a # as) = vm_trace q (verifyMembership_resume q ph a) as"

text \<open>The answers a call's own write to the spent set gave it.\<close>

fun vm_adds :: "('v, 'p) request \<Rightarrow> vphase \<Rightarrow> answer list \<Rightarrow> answer list" where
  "vm_adds q ph [] = []"
| "vm_adds q ph (a # as) =
     (if ph = Await_add \<and> (a = Ans_throws \<or> (\<exists>b. a = Ans_bool b)) then [a] else []) @
     vm_adds q (verifyMembership_resume q ph a) as"

lemma trace_final [simp]:
  "vm_trace q (Settled r) as = Settled r" "vm_adds q (Settled r) as = []"
  "vm_trace q (Threw b) as = Threw b" "vm_adds q (Threw b) as = []"
  by (induction as) auto

lemma trace_after_own_spend:
  "\<exists>b. vm_trace q (Await_period_after False) as \<in> {Await_period_after False, Threw False, Settled (Granted False)} \<union>
     range (\<lambda>r. Settled (Refused r)) \<and> vm_adds q (Await_period_after False) as = []"
proof (induction as)
  case (Cons a as)
  then show ?case
    by (cases a) (auto split: option.splits)
qed simp

lemma trace_after_add: "ph \<in> {Await_period_after True, Await_prior_after, Await_period_lookup} \<Longrightarrow> vm_adds q ph as = []"
proof (induction as arbitrary: ph)
  case (Cons a as)
  have "verifyMembership_resume q ph a \<in> {Await_period_after True, Await_prior_after, Await_period_lookup} \<or>
      (\<exists>r. verifyMembership_resume q ph a = Settled r) \<or> (\<exists>b. verifyMembership_resume q ph a = Threw b)"
    using Cons.prems by (cases a) (auto split: option.splits)
  moreover have "ph \<noteq> Await_add"
    using Cons.prems by auto
  then have "vm_adds q ph (a # as) = vm_adds q (verifyMembership_resume q ph a) as"
    by simp
  ultimately show ?case
    using Cons.IH by (metis trace_final(2,4))
qed simp

lemma trace_adds:
  "vm_trace q ph as = Threw True \<or> vm_trace q ph as = Settled (Granted True) \<Longrightarrow> set (vm_adds q ph as) \<subseteq> {Ans_bool True}"
proof (induction as arbitrary: ph)
  case (Cons a as)
  have own: "vm_trace q (Await_period_after False) as \<noteq> Threw True"
      "vm_trace q (Await_period_after False) as \<noteq> Settled (Granted True)"
    using trace_after_own_spend [of q as] by auto
  show ?case
  proof (cases "ph = Await_add")
    case add: True
    show ?thesis
    proof (cases a)
      case (Ans_bool dup)
      then show ?thesis
        using Cons add own by (cases dup) auto
    qed (use Cons add in auto)
  next
    case False
    then show ?thesis
      using Cons by simp
  qed
qed simp

lemma trace_spends:
  "vm_trace q ph as = Settled (Granted False) \<Longrightarrow> ph \<noteq> Settled (Granted False) \<Longrightarrow> ph \<noteq> Await_period_after False \<Longrightarrow>
   vm_adds q ph as = [Ans_bool False]"
proof (induction as arbitrary: ph)
  case (Cons a as)
  have own: "vm_adds q (Await_period_after False) as = []"
    using trace_after_own_spend [of q as] by auto
  have dup: "vm_adds q (Await_period_after True) as = []"
    by (rule trace_after_add) simp
  show ?case
  proof (cases "ph = Await_add")
    case add: True
    show ?thesis
    proof (cases a)
      case (Ans_bool d)
      then show ?thesis
        using Cons.prems(1) Cons.IH [of "Await_period_after True"] add own dup by (cases d) auto
    qed (use Cons add in auto)
  next
    case False
    have "verifyMembership_resume q ph a \<noteq> Settled (Granted False) \<and>
        verifyMembership_resume q ph a \<noteq> Await_period_after False"
      using False Cons.prems(2,3) by (cases ph; cases a) (auto split: option.splits if_splits)
    then show ?thesis
      using Cons False by simp
  qed
qed simp

lemma trace_append: "vm_trace q ph (as @ bs) = vm_trace q (vm_trace q ph as) bs"
  by (induction as arbitrary: ph) simp_all

text \<open>
  What the answers of a call tell of its checks: the window accepted the root, the proof check answered true while the
  call waited for it, a later verdict let the period pass, and so did the verdict the grant was given on. After the
  spend the code overlooks a verdict that only says the root has aged out.
\<close>

definition proof_and_period :: "('v, 'p) request \<Rightarrow> answer list \<Rightarrow> bool" where
  "proof_and_period q as \<longleftrightarrow> (\<exists>pre mid v post. as = pre @ Ans_bool True # mid @ Ans_verdict v # post \<and>
     proof_phase (vm_trace q Await_has pre) \<and>
     vm_trace q Await_has (pre @ Ans_bool True # mid) \<in> {Await_period, Await_regrant_period} \<and>
     (ex_asks_period (rq_expected q) \<longrightarrow> v = None))"

definition granting_verdict :: "('v, 'p) request \<Rightarrow> answer list \<Rightarrow> bool" where
  "granting_verdict q as \<longleftrightarrow> (\<exists>pre v post. as = pre @ Ans_verdict v # post \<and>
     \<not> (\<exists>r. vm_trace q Await_has pre = Settled (Granted r)) \<and>
     (\<exists>r. vm_trace q Await_has (pre @ [Ans_verdict v]) = Settled (Granted r)) \<and>
     (ex_asks_period (rq_expected q) \<longrightarrow> v = None \<or> v = Some ''stale-or-unknown-root''))"

definition checks_passed :: "(string \<Rightarrow> bool) \<Rightarrow> ('v, 'p) request \<Rightarrow> answer list \<Rightarrow> bool" where
  "checks_passed isRecent q as \<longleftrightarrow> isRecent (sg_root (request_signals q)) \<and> request_ok q \<and> proof_and_period q as \<and>
     granting_verdict q as"

lemma trace_enters:
  "vm_trace q ph as = z \<Longrightarrow> ph \<noteq> z \<Longrightarrow> \<exists>pre a post. as = pre @ a # post \<and> vm_trace q ph pre \<noteq> z \<and>
     verifyMembership_resume q (vm_trace q ph pre) a = z"
proof (induction as rule: rev_induct)
  case (snoc a as)
  show ?case
  proof (cases "vm_trace q ph as = z")
    case True
    then show ?thesis
      using snoc.IH snoc.prems(2) by (metis append_Cons append_assoc)
  next
    case False
    then show ?thesis
      using snoc.prems(1) by (intro exI [of _ as] exI [of _ a] exI [of _ "[]"]) (simp add: trace_append)
  qed
qed simp

lemma resume_into:
  "verifyMembership_resume q ph a = Await_period \<Longrightarrow> ph \<noteq> Await_period \<Longrightarrow> ph = Await_proof \<and> a = Ans_bool True"
  "verifyMembership_resume q ph a = Await_regrant_period \<Longrightarrow> ph \<noteq> Await_regrant_period \<Longrightarrow>
     ph = Await_regrant_proof \<and> a = Ans_bool True"
  "verifyMembership_resume q ph a = Await_add \<Longrightarrow> ph \<noteq> Await_add \<Longrightarrow>
     ph = Await_period \<and> (\<exists>v. a = Ans_verdict v \<and> (ex_asks_period (rq_expected q) \<longrightarrow> v = None))"
  "verifyMembership_resume q ph a = Await_period_after dup \<Longrightarrow> ph \<noteq> Await_period_after dup \<Longrightarrow> ph = Await_add"
  "verifyMembership_resume q ph a = Await_prior_after \<Longrightarrow> ph \<noteq> Await_prior_after \<Longrightarrow> ph = Await_period_after True"
  "verifyMembership_resume q ph a = Await_period_lookup \<Longrightarrow> ph \<noteq> Await_period_lookup \<Longrightarrow> ph = Await_prior_after"
  by ((cases ph; cases a; auto simp: periodStillCurrent_def split: option.splits if_splits)+)

lemma resume_into_grant:
  "verifyMembership_resume q ph a = Settled (Granted r) \<Longrightarrow> ph \<noteq> Settled (Granted r) \<Longrightarrow>
   \<exists>v. a = Ans_verdict v \<and> (ph = Await_regrant_period \<and> (ex_asks_period (rq_expected q) \<longrightarrow> v = None) \<or>
     ph \<in> {Await_period_after False, Await_period_lookup} \<and>
     (ex_asks_period (rq_expected q) \<longrightarrow> v = None \<or> v = Some ''stale-or-unknown-root''))"
  by (cases ph; cases a; auto simp: periodStillCurrent_def refuses_after_spend_def split: option.splits if_splits)

lemma proof_and_period_append: "proof_and_period q as \<Longrightarrow> proof_and_period q (as @ bs)"
  unfolding proof_and_period_def by (metis append_Cons append_assoc)

lemma reaches_period:
  assumes "vm_trace q Await_has as = ph" "ph = Await_period \<or> ph = Await_regrant_period"
  shows "\<exists>pre mid. as = pre @ Ans_bool True # mid \<and> proof_phase (vm_trace q Await_has pre)"
proof -
  obtain pre a post where a: "as = pre @ a # post" "vm_trace q Await_has pre \<noteq> ph"
      "verifyMembership_resume q (vm_trace q Await_has pre) a = ph"
    using trace_enters [OF assms(1)] assms(2) by fastforce
  then have "a = Ans_bool True \<and> proof_phase (vm_trace q Await_has pre)"
    using resume_into(1,2) assms(2) unfolding proof_phase_def by metis
  then show ?thesis
    using a(1) by blast
qed

lemma verdict_after_proof:
  assumes "vm_trace q Await_has pre = ph" "ph = Await_period \<or> ph = Await_regrant_period"
    and "ex_asks_period (rq_expected q) \<longrightarrow> v = None"
  shows "proof_and_period q (pre @ Ans_verdict v # post)"
proof -
  obtain p m where "pre = p @ Ans_bool True # m" "proof_phase (vm_trace q Await_has p)"
    using reaches_period [OF assms(1,2)] by blast
  then show ?thesis
    unfolding proof_and_period_def using assms by (intro exI [of _ p] exI [of _ m] exI [of _ v] exI [of _ post]) auto
qed

lemma reaches_add: "vm_trace q Await_has as = Await_add \<Longrightarrow> proof_and_period q as"
  using trace_enters [of q Await_has as Await_add] resume_into(3) [of q] verdict_after_proof [of q] by fastforce

lemma reaches_after_add:
  "vm_trace q Await_has as = Await_period_after dup \<Longrightarrow> proof_and_period q as"
  using trace_enters [of q Await_has as "Await_period_after dup"] resume_into(4) [of q] reaches_add [of q]
    proof_and_period_append [of q] by fastforce

lemma reaches_lookup: "vm_trace q Await_has as = Await_period_lookup \<Longrightarrow> proof_and_period q as"
proof -
  have "proof_and_period q as" if "vm_trace q Await_has as = Await_prior_after" for as
    using that trace_enters [of q Await_has as Await_prior_after] resume_into(5) [of q] reaches_after_add [of q]
      proof_and_period_append [of q] by fastforce
  then show "vm_trace q Await_has as = Await_period_lookup \<Longrightarrow> proof_and_period q as"
    using trace_enters [of q Await_has as Await_period_lookup] resume_into(6) [of q] proof_and_period_append [of q] by fastforce
qed

lemma trace_granted_checks:
  assumes "vm_trace q (verifyMembership_begin isRecent q) as = Settled (Granted r)"
    and "ex_epoch (rq_expected q) = Num n" "n < 2 ^ 53"
  shows "checks_passed isRecent q as"
proof -
  have b: "verifyMembership_begin isRecent q = Await_has"
    using begin_refuses [of isRecent q] assms(1) by auto
  have "isRecent (sg_root (request_signals q))"
    using b by (simp add: verifyMembership_begin_def Let_def split: if_splits)
  moreover have "request_ok q"
    using begin_ok [OF assms(2,3) b] by simp
  moreover
  have t: "vm_trace q Await_has as = Settled (Granted r)"
    using assms(1) b by simp
  obtain pre a post where a: "as = pre @ a # post" "vm_trace q Await_has pre \<noteq> Settled (Granted r)"
      "verifyMembership_resume q (vm_trace q Await_has pre) a = Settled (Granted r)"
    using trace_enters [OF t] by auto
  obtain v where v: "a = Ans_verdict v" "vm_trace q Await_has pre = Await_regrant_period \<and> (ex_asks_period (rq_expected q) \<longrightarrow> v = None) \<or>
      vm_trace q Await_has pre \<in> {Await_period_after False, Await_period_lookup} \<and>
      (ex_asks_period (rq_expected q) \<longrightarrow> v = None \<or> v = Some ''stale-or-unknown-root'')"
    using resume_into_grant [OF a(3,2)] by blast
  have "granting_verdict q as"
    unfolding granting_verdict_def using a v
    by (intro exI [of _ pre] exI [of _ v] exI [of _ post]) (auto simp: trace_append)
  moreover have "proof_and_period q as"
    using v(2) verdict_after_proof reaches_after_add reaches_lookup proof_and_period_append unfolding a(1) v(1) by fastforce
  ultimately show ?thesis
    by (simp add: checks_passed_def)
qed

text \<open>Every call of the machine, and so every grant, is the trace of one call over the answers it got.\<close>

definition call_traced :: "('v, 'p) request \<Rightarrow> vphase \<Rightarrow> bool" where
  "call_traced q ph \<longleftrightarrow> (\<exists>isRecent as. ph = vm_trace q (verifyMembership_begin isRecent q) as)"

definition vm_traced :: "('v, 'p, 's) vsys \<Rightarrow> bool" where
  "vm_traced y \<longleftrightarrow> (\<forall>i q ph. vs_calls y i = Some (q, ph) \<longrightarrow> call_traced q ph) \<and>
     (\<forall>q \<in> set (vs_granted y). \<exists>r. call_traced q (Settled (Granted r)))"

lemma resume_traced: "call_traced q ph \<Longrightarrow> call_traced q (verifyMembership_resume q ph a)"
  unfolding call_traced_def by (metis trace_append vm_trace.simps)

lemma begin_traced: "call_traced q (verifyMembership_begin isRecent q)"
  unfolding call_traced_def by (metis vm_trace.simps(1))

lemma vm_traced_settle: "vm_traced y \<Longrightarrow> call_traced q ph \<Longrightarrow> vm_traced (settle i q ph y)"
  by (auto simp: vm_traced_def settle_def split: vphase.splits outcome.splits)

lemma vm_traced_store [simp]: "vm_traced (y\<lparr>vs_store := s\<rparr>) = vm_traced y"
  by (simp add: vm_traced_def)

lemma vm_traced_call: "vm_traced y \<Longrightarrow> vs_calls y i = Some (q, ph) \<Longrightarrow> call_traced q ph"
  by (simp add: vm_traced_def)

lemma vm_reach_traced: "vm_reach has get add prune valid lo s0 y \<Longrightarrow> vm_traced y"
proof (induction rule: vm_reach.induct)
  case (vm_next y y')
  from vm_next(2) vm_next(3) show ?case
  proof (induction rule: vm_step.induct)
    case (vm_restart y)
    then show ?case
      by (simp add: vm_traced_def)
  qed (simp_all only: vm_traced_store, (intro vm_traced_settle begin_traced resume_traced; (assumption | erule (1) vm_traced_call))+)
qed (simp add: vm_traced_def)

lemma granted_trace:
  assumes "vm_reach has get add prune valid lo s0 y" "q \<in> set (vs_granted y)"
  shows "\<exists>isRecent as r. vm_trace q (verifyMembership_begin isRecent q) as = Settled (Granted r)"
  using vm_reach_traced [OF assms(1)] assms(2) unfolding vm_traced_def call_traced_def by metis

text \<open>
  A call that nothing interleaves with: each await is answered at once by the store, the proof
  check and a period verdict \<open>v\<close>. Eight answers are enough for the longest path.
\<close>

definition env_answer :: "(tag \<Rightarrow> 's \<Rightarrow> bool) \<Rightarrow> (tag \<Rightarrow> 's \<Rightarrow> claim option) \<Rightarrow> (tag \<Rightarrow> claim \<Rightarrow> 's \<Rightarrow> 's \<times> bool) \<Rightarrow>
    (('v, 'p) request \<Rightarrow> bool) \<Rightarrow> string option \<Rightarrow> ('v, 'p) request \<Rightarrow> vphase \<Rightarrow> 's \<Rightarrow> answer \<times> 's" where
  "env_answer has get add valid v q ph s =
     (if ph = Await_has then (Ans_bool (has (request_tag q) s), s)
      else if ph = Await_prior \<or> ph = Await_prior_after then (Ans_claim (get (request_tag q) s), s)
      else if proof_phase ph then (Ans_bool (valid q), s)
      else if ph = Await_add then (case add (request_tag q) (request_claim q) s of (s', dup) \<Rightarrow> (Ans_bool dup, s'))
      else (Ans_verdict v, s))"

fun run_alone :: "(tag \<Rightarrow> 's \<Rightarrow> bool) \<Rightarrow> (tag \<Rightarrow> 's \<Rightarrow> claim option) \<Rightarrow> (tag \<Rightarrow> claim \<Rightarrow> 's \<Rightarrow> 's \<times> bool) \<Rightarrow>
    (('v, 'p) request \<Rightarrow> bool) \<Rightarrow> string option \<Rightarrow> ('v, 'p) request \<Rightarrow> nat \<Rightarrow> vphase \<Rightarrow> 's \<Rightarrow> vphase \<times> 's" where
  "run_alone has get add valid v q 0 ph s = (ph, s)"
| "run_alone has get add valid v q (Suc n) ph s =
     (if running ph then (case env_answer has get add valid v q ph s of
        (a, s') \<Rightarrow> run_alone has get add valid v q n (verifyMembership_resume q ph a) s')
      else (ph, s))"

lemma running_cases: "running ph \<Longrightarrow> ph = Await_has \<or> ph = Await_prior \<or> ph = Await_prior_after \<or> proof_phase ph \<or>
    ph = Await_add \<or> period_phase ph"
  by (cases ph) (auto simp: running_def proof_phase_def period_phase_def)

lemma env_step:
  assumes "vs_calls y i = Some (q, ph)" "running ph" "env_answer has get add valid v q ph (vs_store y) = (a, s')"
  shows "vm_step has get add prune valid lo y ((settle i q (verifyMembership_resume q ph a) y)\<lparr>vs_store := s'\<rparr>)"
proof -
  have same: "(settle i q x y)\<lparr>vs_store := vs_store y\<rparr> = settle i q x y" for x
    by (simp add: settle_def)
  consider "ph = Await_has" | "ph = Await_prior \<or> ph = Await_prior_after" | "proof_phase ph" | "ph = Await_add"
    | "period_phase ph"
    using running_cases [OF assms(2)] by blast
  then show ?thesis
  proof cases
    case 1
    then show ?thesis
      using vm_has [of y i q] assms(1,3) by (auto simp: env_answer_def same)
  next
    case 2
    then show ?thesis
      using vm_get [of y i q ph] assms(1,3) by (auto simp: env_answer_def same)
  next
    case 3
    then show ?thesis
      using vm_proof [of y i q ph] assms(1,3) by (auto simp: env_answer_def same proof_phase_def)
  next
    case 4
    then show ?thesis
      using vm_add [of y i q] assms(1,3) by (auto simp: env_answer_def proof_phase_def split: prod.splits)
  next
    case 5
    then show ?thesis
      using vm_period [of y i q ph] assms(1,3) by (auto simp: env_answer_def same period_phase_def proof_phase_def)
  qed
qed

lemma alone_reach:
  "vm_reach has get add prune valid lo s0 y \<Longrightarrow> vs_calls y i = Some (q, ph) \<Longrightarrow>
   run_alone has get add valid v q n ph (vs_store y) = (ph', s') \<Longrightarrow>
   \<exists>y'. vm_reach has get add prune valid lo s0 y' \<and> vs_store y' = s' \<and> set (vs_granted y) \<subseteq> set (vs_granted y') \<and>
     (\<forall>j. j \<noteq> i \<longrightarrow> vs_calls y' j = vs_calls y j) \<and>
     (running ph \<longrightarrow> (\<exists>r. ph' = Settled (Granted r)) \<longrightarrow> q \<in> set (vs_granted y'))"
proof (induction n arbitrary: y ph)
  case 0
  then show ?case
    by (auto simp: running_def)
next
  case (Suc n)
  show ?case
  proof (cases "running ph")
    case False
    then show ?thesis
      using Suc.prems by auto
  next
    case True
    obtain a s1 where a: "env_answer has get add valid v q ph (vs_store y) = (a, s1)"
      by (cases "env_answer has get add valid v q ph (vs_store y)")
    let ?ph1 = "verifyMembership_resume q ph a"
    let ?y1 = "(settle i q ?ph1 y)\<lparr>vs_store := s1\<rparr>"
    have r1: "vm_reach has get add prune valid lo s0 ?y1"
      by (rule vm_next [OF Suc.prems(1) env_step [OF Suc.prems(2) True a]])
    have c1: "vs_calls ?y1 i = Some (q, ?ph1)"
      by (simp add: settle_def)
    have run1: "run_alone has get add valid v q n ?ph1 (vs_store ?y1) = (ph', s')"
      using Suc.prems(3) True a by simp
    have g1: "set (vs_granted y) \<subseteq> set (vs_granted ?y1)" "?ph1 = Settled (Granted r) \<Longrightarrow> q \<in> set (vs_granted ?y1)" for r
      by (auto simp: settle_def split: vphase.split outcome.split)
    have stop: "\<not> running ?ph1 \<Longrightarrow> ph' = ?ph1"
      using run1 by (cases n) auto
    obtain y' where y': "vm_reach has get add prune valid lo s0 y'" "vs_store y' = s'"
        "set (vs_granted ?y1) \<subseteq> set (vs_granted y')" "\<forall>j. j \<noteq> i \<longrightarrow> vs_calls y' j = vs_calls ?y1 j"
        "running ?ph1 \<longrightarrow> (\<exists>r. ph' = Settled (Granted r)) \<longrightarrow> q \<in> set (vs_granted y')"
      using Suc.IH [OF r1 c1 run1] by blast
    have "q \<in> set (vs_granted y')" if "ph' = Settled (Granted r)" for r
    proof (cases "running ?ph1")
      case True
      then show ?thesis
        using y'(5) that by blast
    next
      case False
      then show ?thesis
        using y'(3) g1(2) [of r] stop that by blast
    qed
    then show ?thesis
      using y' g1(1) by (intro exI [of _ y']) (auto simp: settle_def)
  qed
qed

text \<open>A whole call, begun and run.\<close>

definition call_alone :: "(tag \<Rightarrow> 's \<Rightarrow> bool) \<Rightarrow> (tag \<Rightarrow> 's \<Rightarrow> claim option) \<Rightarrow> (tag \<Rightarrow> claim \<Rightarrow> 's \<Rightarrow> 's \<times> bool) \<Rightarrow>
    (('v, 'p) request \<Rightarrow> bool) \<Rightarrow> (string \<Rightarrow> bool) \<Rightarrow> string option \<Rightarrow> ('v, 'p) request \<Rightarrow> 's \<Rightarrow> vphase \<times> 's" where
  "call_alone has get add valid isRecent v q s =
     run_alone has get add valid v q 8 (verifyMembership_begin isRecent q) s"

lemma call_alone_reach:
  assumes "vm_reach has get add prune valid lo s0 y" "vs_calls y i = None" "ex_epoch (rq_expected q) = Num n" "n < 2 ^ 53"
    and "verifyMembership_begin isRecent q = Await_has"
    and "call_alone has get add valid isRecent v q (vs_store y) = (Settled (Granted r), s')"
  shows "\<exists>y'. vm_reach has get add prune valid lo s0 y' \<and> vs_store y' = s' \<and> set (vs_granted y) \<subseteq> set (vs_granted y') \<and>
     (\<forall>j. j \<noteq> i \<longrightarrow> vs_calls y' j = vs_calls y j) \<and> q \<in> set (vs_granted y')"
proof -
  let ?y1 = "settle i q Await_has y"
  have "vm_reach has get add prune valid lo s0 ?y1"
    using vm_next [OF assms(1) vm_call [OF assms(2-4), of has get add prune valid lo isRecent]] assms(5) by simp
  moreover have "vs_calls ?y1 i = Some (q, Await_has)" "vs_store ?y1 = vs_store y" "vs_granted ?y1 = vs_granted y"
      "\<And>j. j \<noteq> i \<Longrightarrow> vs_calls ?y1 j = vs_calls y j"
    by (simp_all add: settle_def)
  ultimately show ?thesis
    using alone_reach [of has get add prune valid lo s0 ?y1 i q Await_has v 8 "Settled (Granted r)" s'] assms(5,6)
    by (simp add: call_alone_def running_def)
qed

text \<open>What a whole call comes to on a store that keeps the contract.\<close>

lemma run_8: "run_alone has get add valid v q 8 ph s = run_alone has get add valid v q (Suc (Suc (Suc (Suc (Suc (Suc (Suc (Suc 0)))))))) ph s"
  by (simp add: eval_nat_numeral)

context nullifier_store
begin

lemma call_alone_result:
  assumes "inv s" "verifyMembership_begin isRecent q = Await_has" "ex_epoch (rq_expected q) = Num n" "n < 2 ^ 53"
    and "valid q"
  shows "call_alone has get add valid isRecent None q s =
     (if \<not> has (request_tag q) s then (Settled (Granted False), fst (add (request_tag q) (request_claim q) s))
      else if owner get q s then (Settled (Granted True), s)
      else (Settled (Refused ''already-used''), s))"
proof -
  have ok: "request_ok q"
    using begin_ok [OF assms(3,4,2)] by simp
  obtain s' dup where a: "add (request_tag q) (request_claim q) s = (s', dup)"
    by (cases "add (request_tag q) (request_claim q) s")
  have dup: "dup = has (request_tag q) s"
    using add_duplicate [OF assms(1) request_ok_good [OF ok], of "request_claim q"] a by simp
  note defs = call_alone_def run_8 env_answer_def running_def proof_phase_def period_phase_def
    periodStillCurrent_def refuses_after_spend_def
  show ?thesis
  proof (cases "has (request_tag q) s")
    case False
    then show ?thesis
      using assms a dup by (simp add: defs)
  next
    case True
    then show ?thesis
      using assms by (simp add: defs owner_def)
  qed
qed

end

subsection \<open>Properties\<close>

text \<open>Sample requests: one membership, claimed by two accounts.\<close>

definition demo_request :: "string \<Rightarrow> (unit, unit) request" where
  "demo_request account =
     \<lparr>rq_vkey = Some \<lparr>vk_protocol = Some ''groth16'', vk_devOnly = False, vk_data = ()\<rparr>,
      rq_proof = Some \<lparr>pf_protocol = Some ''groth16'', pf_data = ()\<rparr>,
      rq_signals = Js_array (map (\<lambda>n. Js_string (dec_of_nat n)) [3, 7, 9, 4, 5]),
      rq_expected = \<lparr>ex_account = Some account, ex_epoch = Num 9, ex_contextHash = dec_of_nat 4,
        ex_signalHash = dec_of_nat 5, ex_asks_period = True\<rparr>\<rparr>"

lemma demo_request_tag [simp]: "request_tag (demo_request a) = demo_tag"
  by (simp add: request_tag_def request_signals_def readSignals_def signal_at_def demo_request_def demo_tag_def)

lemma demo_request_begin:
  "verifyMembership_begin (\<lambda>r. True) (demo_request (c # a)) = Await_has"
proof -
  have "signalsAreCanonical (rq_signals (demo_request (c # a))) 5"
    by (simp add: signalsAreCanonical_def canonical_value_def demo_request_def isCanonicalField_dec_of_nat FIELD_PRIME_def)
  then show ?thesis
    by (simp add: verifyMembership_begin_def Let_def)
      (simp add: demo_request_def request_signals_def readSignals_def signal_at_def dec_of_int_def)
qed

lemma demo_request_epoch: "ex_epoch (rq_expected (demo_request a)) = Num 9"
  by (simp add: demo_request_def)

lemma demo_request_account: "ex_account (rq_expected (demo_request a)) = Some a"
  by (simp add: demo_request_def)

lemma demo_sqlite_ok: "sqlite_inv demo_sqlite" "\<not> SqliteNullifierStore_has t demo_sqlite"
  by (simp_all add: sqlite_inv_def demo_sqlite_def SqliteNullifierStore_has_def)

lemma demo_owner: "owner get (demo_request a) s = claimedBySameAccount (demo_request a) (get demo_tag s)"
  by (simp add: owner_def)

lemma claimed_demo: "claimedBySameAccount (demo_request a) (Some (request_claim (demo_request b))) \<longleftrightarrow> a = b"
  by (auto simp: claimedBySameAccount_def request_claim_def demo_request_account account_text_def)

context nullifier_store
begin

lemma demo_granted:
  assumes "inv s0" "\<not> has demo_tag s0"
  shows "\<exists>y. vm_reach has get add prune (\<lambda>q. True) lo s0 y \<and> demo_request ''al'' \<in> set (vs_granted y)"
proof -
  let ?y = "\<lparr>vs_store = s0, vs_calls = Map.empty, vs_granted = []\<rparr> :: (unit, unit, 's) vsys"
  have "call_alone has get add (\<lambda>q. True) (\<lambda>r. True) None (demo_request ''al'') (vs_store ?y) =
      (Settled (Granted False), fst (add demo_tag (request_claim (demo_request ''al'')) s0))"
    using call_alone_result [OF assms(1) demo_request_begin demo_request_epoch, of "\<lambda>q. True"] assms(2) by simp
  from call_alone_reach [OF vm_start _ demo_request_epoch _ demo_request_begin this, where i = 0 and prune = prune and lo = lo]
  show ?thesis
    by (simp, blast)
qed

end

text \<open>C35: a call that nothing disturbs does what it promises. A first claim with a valid proof in a
  period that holds is granted and its account recorded; afterwards the same account is granted
  again without a second spend (so a grant an adapter lost can be fetched anew), and any other
  account is refused.\<close>

theorem claim_then_regrant:
  assumes "sqlite_inv s" "verifyMembership_begin isRecent q = Await_has" "verifyMembership_begin isRecent p = Await_has"
    and "ex_epoch (rq_expected q) = Num n" "n < 2 ^ 53" "ex_epoch (rq_expected p) = Num n"
    and "valid q" "valid p" "request_tag p = request_tag q" "\<not> SqliteNullifierStore_has (request_tag q) s"
  shows "let run = call_alone SqliteNullifierStore_has SqliteNullifierStore_get (SqliteNullifierStore_add now) valid isRecent None;
             s1 = snd (run q s)
         in fst (run q s) = Settled (Granted False) \<and>
            run p s1 = (if ex_account (rq_expected p) = ex_account (rq_expected q) then Settled (Granted True)
              else Settled (Refused ''already-used''), s1)"
proof -
  have ok: "request_ok q" "request_ok p"
    using begin_ok [OF assms(4,5,2)] begin_ok [OF assms(6,5,3)] by simp_all
  let ?s1 = "fst (SqliteNullifierStore_add now (request_tag q) (request_claim q) s)"
  have r1: "call_alone SqliteNullifierStore_has SqliteNullifierStore_get (SqliteNullifierStore_add now) valid isRecent None q s =
      (Settled (Granted False), ?s1)"
    using sqlite.call_alone_result [OF assms(1,2,4,5), of valid now, OF assms(7)] assms(10) by simp
  have i1: "sqlite_inv ?s1"
    by (rule sqlite.add_inv [OF assms(1)])
  have get1: "SqliteNullifierStore_get (request_tag q) ?s1 = Some (request_claim q)"
    using assms(10) by (simp add: sqlite_add_get)
  then have h1: "SqliteNullifierStore_has (request_tag p) ?s1"
    using assms(9) by (simp add: sqlite_has_get)
  have "owner SqliteNullifierStore_get p ?s1 \<longleftrightarrow> ex_account (rq_expected p) = ex_account (rq_expected q)"
    using get1 ok assms(9)
    by (auto simp: owner_def claimedBySameAccount_def request_claim_def request_ok_def account_text_def)
  then show ?thesis
    using sqlite.call_alone_result [OF i1 assms(3,6,5), of valid now, OF assms(8)] h1 r1 by (simp add: Let_def)
qed

theorem claim_then_regrant_witness:
  "let run = call_alone SqliteNullifierStore_has SqliteNullifierStore_get (SqliteNullifierStore_add 0) (\<lambda>q. True) (\<lambda>r. True) None;
       s1 = snd (run (demo_request ''al'') demo_sqlite)
   in fst (run (demo_request ''bo'') s1) = Settled (Refused ''already-used'') \<and>
      fst (run (demo_request ''al'') demo_sqlite) = Settled (Granted False)"
  using claim_then_regrant [OF demo_sqlite_ok(1) demo_request_begin [of "CHR ''a''" "''l''"]
      demo_request_begin [of "CHR ''b''" "''o''"] demo_request_epoch _ demo_request_epoch, where valid = "\<lambda>q. True" and now = 0]
    demo_sqlite_ok(2)
  by (simp add: Let_def demo_request_account)

text \<open>C36: what a caller may conclude from one call. A rejection marked \<open>beforeSpend\<close> (on which the
  gateway gives the one-time challenge back) and a re-grant never spent the tag themselves: if the
  call reached the spent set at all, it was told duplicate. A first grant spent it exactly once.\<close>

theorem before_spend_mark_is_safe:
  "(vm_trace q Await_has as = Threw True \<longrightarrow> set (vm_adds q Await_has as) \<subseteq> {Ans_bool True}) \<and>
   (vm_trace q Await_has as = Settled (Granted True) \<longrightarrow> set (vm_adds q Await_has as) \<subseteq> {Ans_bool True}) \<and>
   (vm_trace q Await_has as = Settled (Granted False) \<longrightarrow> vm_adds q Await_has as = [Ans_bool False])"
  using trace_adds [of q Await_has as] trace_spends [of q Await_has as] by blast

theorem before_spend_mark_is_safe_witness:
  "vm_adds (demo_request ''al'') Await_has [Ans_bool False, Ans_bool True, Ans_verdict None, Ans_bool False, Ans_verdict None] =
     [Ans_bool False]"
proof -
  have "vm_trace (demo_request ''al'') Await_has
      [Ans_bool False, Ans_bool True, Ans_verdict None, Ans_bool False, Ans_verdict None] = Settled (Granted False)"
    by (simp add: periodStillCurrent_def refuses_after_spend_def)
  then show ?thesis
    using before_spend_mark_is_safe by blast
qed

text \<open>C4: one voting key, one account, on the durable store. However calls interleave, fail, learn
  nothing of a write's outcome, or are cut off by restarts of the gateway, all grants ever given
  for one tag (epoch, context, nullifier) name one account, as long as no prune passed the tag's
  epoch; and each was given to a request whose proof verified, by a call that passed every check. A granted request
  has a call, its answers are a sequence that leads from \<open>verifyMembership_begin\<close> to the grant, and on any such sequence
  the window the call asked accepted the request's root, the signals are canonical and are those the caller expects, the
  proof check answered true, and the caller's period verdicts let it pass: one after the proof and before the spend, and
  the one the grant was given on (\<open>checks_passed\<close>).\<close>

theorem one_account_per_tag:
  assumes "vm_reach SqliteNullifierStore_has SqliteNullifierStore_get (SqliteNullifierStore_add now)
      (\<lambda>c s. fst (SqliteNullifierStore_prune c s)) valid lo s0 y"
    and "sqlite_inv s0" "p \<in> set (vs_granted y)" "q \<in> set (vs_granted y)"
    and "request_tag p = request_tag q" "lo \<le> tag_epoch (request_tag q)"
  shows "ex_account (rq_expected p) = ex_account (rq_expected q) \<and> request_ok p \<and> valid p \<and>
    (\<exists>isRecent as r. vm_trace p (verifyMembership_begin isRecent p) as = Settled (Granted r)) \<and>
    (\<forall>isRecent as r. vm_trace p (verifyMembership_begin isRecent p) as = Settled (Granted r) \<longrightarrow> checks_passed isRecent p as)"
proof -
  have ok: "request_ok p" "valid p"
    using vm_reach_sane [OF assms(1)] assms(3) by (simp_all add: vm_sane_def)
  then obtain n where "ex_epoch (rq_expected p) = Num n" "n < 2 ^ 53"
    by (auto simp: request_ok_def)
  then have "\<forall>isRecent as r. vm_trace p (verifyMembership_begin isRecent p) as = Settled (Granted r) \<longrightarrow> checks_passed isRecent p as"
    using trace_granted_checks by blast
  then show ?thesis
    using sqlite.one_account [OF assms(1,2) _ assms(3-6)] ok granted_trace [OF assms(1,3)] by simp
qed

text \<open>The same with the ephemeral store, within one run of the process (the store of a new
  process starts empty).\<close>

theorem one_account_per_tag_in_memory:
  assumes "vm_reach NullifierStore_has NullifierStore_get NullifierStore_add
      (\<lambda>c s. fst (NullifierStore_prune c s)) valid lo NullifierStore_new y"
    and "p \<in> set (vs_granted y)" "q \<in> set (vs_granted y)"
    and "request_tag p = request_tag q" "lo \<le> tag_epoch (request_tag q)"
  shows "ex_account (rq_expected p) = ex_account (rq_expected q)"
  using mem.one_account [OF assms(1) _ _ assms(2-5)] by (simp add: NullifierStore_new_def)

text \<open>C5: on the shared document store a tag is granted at most once ever, to anybody, through any
  number of gateways over it.\<close>

theorem one_grant_per_tag_on_platform:
  assumes "vm_reach (DocumentNullifierStore_has MemoryBackend_exists) DocumentNullifierStore_get
      (DocumentNullifierStore_add MemoryBackend_insert) (\<lambda>c s. s) valid lo s0 y"
    and "good_tag t" "lo \<le> tag_epoch t"
  shows "length (filter (\<lambda>q. request_tag q = t) (vs_granted y)) \<le> 1"
  using doc.one_grant [OF assms(1) TrueI _ assms(2,3)] by (simp add: grants_for_def)

theorem one_account_per_tag_witness:
  "\<exists>y. vm_reach SqliteNullifierStore_has SqliteNullifierStore_get (SqliteNullifierStore_add 0)
      (\<lambda>c s. fst (SqliteNullifierStore_prune c s)) (\<lambda>q. True) 0 demo_sqlite y \<and>
     demo_request ''al'' \<in> set (vs_granted y) \<and> demo_request ''bo'' \<notin> set (vs_granted y) \<and>
     (\<exists>isRecent as. checks_passed isRecent (demo_request ''al'') as)"
proof -
  obtain y where y: "vm_reach SqliteNullifierStore_has SqliteNullifierStore_get (SqliteNullifierStore_add 0)
      (\<lambda>c s. fst (SqliteNullifierStore_prune c s)) (\<lambda>q. True) 0 demo_sqlite y" "demo_request ''al'' \<in> set (vs_granted y)"
    using sqlite.demo_granted [OF demo_sqlite_ok] by blast
  have "demo_request ''bo'' \<notin> set (vs_granted y)"
  proof
    assume "demo_request ''bo'' \<in> set (vs_granted y)"
    from one_account_per_tag [OF y(1) demo_sqlite_ok(1) this y(2)] show False
      by (simp add: demo_request_account demo_tag_good)
  qed
  moreover have "\<exists>isRecent as. checks_passed isRecent (demo_request ''al'') as"
    using one_account_per_tag [OF y(1) demo_sqlite_ok(1) y(2,2) refl] demo_tag_good by fastforce
  ultimately show ?thesis
    using y by blast
qed

theorem one_account_per_tag_in_memory_witness:
  "\<exists>y. vm_reach NullifierStore_has NullifierStore_get NullifierStore_add
      (\<lambda>c s. fst (NullifierStore_prune c s)) (\<lambda>q. True) 0 NullifierStore_new y \<and>
     demo_request ''al'' \<in> set (vs_granted y) \<and> demo_request ''bo'' \<notin> set (vs_granted y)"
proof -
  have "jm_wf (ns_claims NullifierStore_new)" "\<not> NullifierStore_has demo_tag NullifierStore_new"
    by (simp_all add: NullifierStore_new_def NullifierStore_has_def jm_has_get)
  then obtain y where y: "vm_reach NullifierStore_has NullifierStore_get NullifierStore_add
      (\<lambda>c s. fst (NullifierStore_prune c s)) (\<lambda>q. True) 0 NullifierStore_new y" "demo_request ''al'' \<in> set (vs_granted y)"
    using mem.demo_granted by blast
  have "demo_request ''bo'' \<notin> set (vs_granted y)"
  proof
    assume "demo_request ''bo'' \<in> set (vs_granted y)"
    from one_account_per_tag_in_memory [OF y(1) this y(2)] show False
      by (simp add: demo_request_account demo_tag_good)
  qed
  then show ?thesis
    using y by blast
qed

theorem one_grant_per_tag_on_platform_witness:
  "\<exists>y. vm_reach (DocumentNullifierStore_has MemoryBackend_exists) DocumentNullifierStore_get
      (DocumentNullifierStore_add MemoryBackend_insert) (\<lambda>c s. s) (\<lambda>q. True) 0 MemoryBackend_new y \<and>
     filter (\<lambda>q. request_tag q = demo_tag) (vs_granted y) = [demo_request ''al'']"
proof -
  have "\<not> DocumentNullifierStore_has MemoryBackend_exists demo_tag MemoryBackend_new"
    by (simp add: DocumentNullifierStore_has_def MemoryBackend_exists_def MemoryBackend_new_def)
  then obtain y where y: "vm_reach (DocumentNullifierStore_has MemoryBackend_exists) DocumentNullifierStore_get
      (DocumentNullifierStore_add MemoryBackend_insert) (\<lambda>c s. s) (\<lambda>q. True) 0 MemoryBackend_new y"
      "demo_request ''al'' \<in> set (vs_granted y)"
    using doc.demo_granted [OF TrueI] by blast
  let ?g = "filter (\<lambda>q. request_tag q = demo_tag) (vs_granted y)"
  have "demo_request ''al'' \<in> set ?g" "length ?g \<le> 1"
    using y(2) one_grant_per_tag_on_platform [OF y(1) demo_tag_good(1)] by (simp_all add: demo_tag_good)
  then have "?g = [demo_request ''al'']"
    by (cases ?g) auto
  then show ?thesis
    using y(1) by blast
qed

end
