(* ===== verification/Reg_Records.thy ===== *)
theory Reg_Records
  imports Js_Map Js_Text Common_Values
begin

section \<open>Registration records (core/registration_store.js)\<close>

text \<open>
  The registration record, its declaration, its keys, the checks at the store's two doors (what
  \<open>RegistrationStore.append\<close> accepts and what the file loader accepts) and the in-memory backend.
  The interface both backends implement is the locale \<open>registration_backend\<close>.
\<close>

subsection \<open>Engines and statements\<close>

definition ENGINE_STATEMENTS :: "(string \<times> string list) list" where
  "ENGINE_STATEMENTS =
     [(''groth16'', [''derive'']), (''plonk'', [''derive'']), (''zkvm'', [''derive'', ''custody''])]"

fun isValidEngineStatement :: "jfield \<Rightarrow> jfield \<Rightarrow> bool" where
  "isValidEngineStatement (F_str engine) (F_str statement) =
     (case map_of ENGINE_STATEMENTS engine of
        None \<Rightarrow> False
      | Some statements \<Rightarrow> statement \<in> set statements)"
| "isValidEngineStatement _ _ = False"

subsection \<open>Records\<close>

record reg_rec =
  rr_season :: int
  rr_contextHash :: string
  rr_regNullifier :: string
  rr_commitment :: string
  rr_engine :: "string option"
  rr_statement :: "string option"
  rr_index :: nat

text \<open>What the caller hands the backend: a record without its index.\<close>

record reg_req =
  rq_season :: int
  rq_contextHash :: string
  rq_regNullifier :: string
  rq_commitment :: string
  rq_engine :: string
  rq_statement :: string

record reg_declaration =
  dc_engine :: string
  dc_statement :: string

definition declarationOfRecord :: "reg_rec \<Rightarrow> reg_declaration" where
  "declarationOfRecord r =
     \<lparr>dc_engine = (case rr_engine r of None \<Rightarrow> ''plonk'' | Some e \<Rightarrow> e),
      dc_statement = (case rr_statement r of None \<Rightarrow> ''derive'' | Some s \<Rightarrow> s)\<rparr>"

definition sameDeclaration :: "reg_declaration \<Rightarrow> reg_declaration \<Rightarrow> bool" where
  "sameDeclaration a b \<longleftrightarrow> dc_engine a = dc_engine b \<and> dc_statement a = dc_statement b"

definition or_empty :: "string option \<Rightarrow> string" where
  "or_empty s = (case s of None \<Rightarrow> [] | Some t \<Rightarrow> t)"

definition sameRegistrationRecord :: "reg_rec \<Rightarrow> reg_rec \<Rightarrow> bool" where
  "sameRegistrationRecord a b \<longleftrightarrow>
     dec_of_int (rr_season a) = dec_of_int (rr_season b) \<and> rr_contextHash a = rr_contextHash b \<and>
     rr_regNullifier a = rr_regNullifier b \<and> rr_commitment a = rr_commitment b \<and>
     or_empty (rr_engine a) = or_empty (rr_engine b) \<and> or_empty (rr_statement a) = or_empty (rr_statement b)"

definition bucketName :: "int \<Rightarrow> string \<Rightarrow> string" where
  "bucketName season ctx = dec_of_int season @ '':'' @ ctx"

definition keyName :: "int \<Rightarrow> string \<Rightarrow> string \<Rightarrow> string" where
  "keyName season ctx nf = dec_of_int season @ '':'' @ ctx @ '':'' @ nf"

definition keyOf :: "reg_rec \<Rightarrow> string" where
  "keyOf d = keyName (rr_season d) (rr_contextHash d) (rr_regNullifier d)"

definition bucketOf :: "reg_rec \<Rightarrow> string" where
  "bucketOf d = bucketName (rr_season d) (rr_contextHash d)"

text \<open>The record written for a request at a leaf position.\<close>

definition record_at :: "reg_req \<Rightarrow> nat \<Rightarrow> reg_rec" where
  "record_at d index =
     \<lparr>rr_season = rq_season d, rr_contextHash = rq_contextHash d, rr_regNullifier = rq_regNullifier d,
      rr_commitment = rq_commitment d, rr_engine = Some (rq_engine d), rr_statement = Some (rq_statement d),
      rr_index = index\<rparr>"

subsection \<open>A record as JSON\<close>

record raw_rec =
  raw_season :: jfield
  raw_contextHash :: jfield
  raw_regNullifier :: jfield
  raw_commitment :: jfield
  raw_index :: jfield
  raw_engine :: jfield
  raw_statement :: jfield

text \<open>A parsed line: the schedule header, another object, or no object at all.\<close>

datatype json = J_schedule string | J_record raw_rec | J_no_object

datatype record_problem = NotAnObject | BadSeason | NotCanonical string | BadIndex | BadEngineStatement

definition nonneg_int :: "jfield \<Rightarrow> bool" where
  "nonneg_int f = (case f of F_int i \<Rightarrow> 0 \<le> i | _ \<Rightarrow> False)"

definition canonical_field :: "jfield \<Rightarrow> bool" where
  "canonical_field f = (case f of F_str s \<Rightarrow> isCanonicalField s | _ \<Rightarrow> False)"

definition registrationRecordProblem :: "json \<Rightarrow> record_problem option" where
  "registrationRecordProblem j =
     (case j of
        J_record r \<Rightarrow>
          if \<not> nonneg_int (raw_season r) then Some BadSeason
          else if \<not> canonical_field (raw_contextHash r) then Some (NotCanonical ''contextHash'')
          else if \<not> canonical_field (raw_regNullifier r) then Some (NotCanonical ''regNullifier'')
          else if \<not> canonical_field (raw_commitment r) then Some (NotCanonical ''commitment'')
          else if \<not> nonneg_int (raw_index r) then Some BadIndex
          else if (raw_engine r \<noteq> F_absent \<or> raw_statement r \<noteq> F_absent) \<and>
             \<not> isValidEngineStatement (raw_engine r) (raw_statement r) then Some BadEngineStatement
          else None
      | _ \<Rightarrow> Some NotAnObject)"

definition field_string :: "jfield \<Rightarrow> string" where
  "field_string f = (case f of F_str s \<Rightarrow> s | _ \<Rightarrow> [])"

definition field_int :: "jfield \<Rightarrow> int" where
  "field_int f = (case f of F_int i \<Rightarrow> i | _ \<Rightarrow> 0)"

definition field_opt :: "jfield \<Rightarrow> string option" where
  "field_opt f = (case f of F_str s \<Rightarrow> Some s | _ \<Rightarrow> None)"

text \<open>The typed view of a record without a problem, and what \<open>JSON.stringify\<close> writes for one.\<close>

definition record_of_json :: "json \<Rightarrow> reg_rec" where
  "record_of_json j =
     (case j of
        J_record r \<Rightarrow>
          \<lparr>rr_season = field_int (raw_season r), rr_contextHash = field_string (raw_contextHash r),
           rr_regNullifier = field_string (raw_regNullifier r), rr_commitment = field_string (raw_commitment r),
           rr_engine = field_opt (raw_engine r), rr_statement = field_opt (raw_statement r),
           rr_index = nat (field_int (raw_index r))\<rparr>
      | _ \<Rightarrow> \<lparr>rr_season = 0, rr_contextHash = [], rr_regNullifier = [], rr_commitment = [],
           rr_engine = None, rr_statement = None, rr_index = 0\<rparr>)"

definition json_of_record :: "reg_rec \<Rightarrow> json" where
  "json_of_record r = J_record
     \<lparr>raw_season = F_int (rr_season r), raw_contextHash = F_str (rr_contextHash r),
      raw_regNullifier = F_str (rr_regNullifier r), raw_commitment = F_str (rr_commitment r),
      raw_index = F_int (int (rr_index r)),
      raw_engine = (case rr_engine r of None \<Rightarrow> F_absent | Some e \<Rightarrow> F_str e),
      raw_statement = (case rr_statement r of None \<Rightarrow> F_absent | Some s \<Rightarrow> F_str s)\<rparr>"

subsection \<open>The store's front door\<close>

datatype append_outcome =
    Appended nat | Duplicate | Conflict reg_declaration
  | Invalid_engine | Invalid_field string

text \<open>A caller's arguments: the engine and the statement may be missing or no string.\<close>

record reg_call =
  rc_season :: int
  rc_contextHash :: string
  rc_regNullifier :: string
  rc_commitment :: string
  rc_engine :: jfield
  rc_statement :: jfield

definition request_of_call :: "reg_call \<Rightarrow> reg_req" where
  "request_of_call c =
     \<lparr>rq_season = rc_season c, rq_contextHash = rc_contextHash c, rq_regNullifier = rc_regNullifier c,
      rq_commitment = rc_commitment c, rq_engine = field_string (rc_engine c),
      rq_statement = field_string (rc_statement c)\<rparr>"

definition invalid_call :: "reg_call \<Rightarrow> append_outcome option" where
  "invalid_call c =
     (if \<not> isValidEngineStatement (rc_engine c) (rc_statement c) then Some Invalid_engine
      else if \<not> isCanonicalField (rc_contextHash c) then Some (Invalid_field ''contextHash'')
      else if \<not> isCanonicalField (rc_regNullifier c) then Some (Invalid_field ''regNullifier'')
      else if \<not> isCanonicalField (rc_commitment c) then Some (Invalid_field ''commitment'')
      else None)"

definition RegistrationStore_append ::
    "(reg_req \<Rightarrow> 's \<Rightarrow> 's \<times> append_outcome) \<Rightarrow> reg_call \<Rightarrow> 's \<Rightarrow> 's \<times> append_outcome" where
  "RegistrationStore_append backend_append c s =
     (case invalid_call c of
        Some bad \<Rightarrow> (s, bad)
      | None \<Rightarrow> backend_append (request_of_call c) s)"

subsection \<open>The view: keys seen, and records by bucket\<close>

record reg_view =
  rv_seen :: "string list"
  rv_buckets :: "(string, reg_rec list) jsmap"

definition empty_view :: reg_view where
  "empty_view = \<lparr>rv_seen = [], rv_buckets = []\<rparr>"

definition bucket_records :: "reg_view \<Rightarrow> string \<Rightarrow> reg_rec list" where
  "bucket_records v b = (case jm_get (rv_buckets v) b of None \<Rightarrow> [] | Some recs \<Rightarrow> recs)"

definition remember :: "reg_rec \<Rightarrow> reg_view \<Rightarrow> reg_view" where
  "remember r v =
     v\<lparr>rv_seen := (if keyOf r \<in> set (rv_seen v) then rv_seen v else rv_seen v @ [keyOf r]),
       rv_buckets := jm_set (bucketOf r) (bucket_records v (bucketOf r) @ [r]) (rv_buckets v)\<rparr>"

text \<open>
  What the memory backend decides before it stores a record: duplicate, conflict, or the record. The
  file backend has a copy of its own in \<open>#appendOne\<close> (\<open>appendOne_decide\<close> in \<open>Reg_File\<close>).
\<close>

definition decide_append :: "reg_req \<Rightarrow> reg_view \<Rightarrow> append_outcome + reg_rec" where
  "decide_append d v =
     (let key = keyOf (record_at d 0); recs = bucket_records v (bucketOf (record_at d 0)) in
      if key \<in> set (rv_seen v) then Inl Duplicate
      else (case recs of
              [] \<Rightarrow> Inr (record_at d 0)
            | r # _ \<Rightarrow>
                if \<not> sameDeclaration (declarationOfRecord r) (declarationOfRecord (record_at d 0))
                then Inl (Conflict (declarationOfRecord r))
                else Inr (record_at d (length recs))))"

definition MemoryRegistrationBackend_has :: "int \<Rightarrow> string \<Rightarrow> string \<Rightarrow> reg_view \<Rightarrow> bool" where
  "MemoryRegistrationBackend_has season ctx nf v \<longleftrightarrow> keyName season ctx nf \<in> set (rv_seen v)"

definition MemoryRegistrationBackend_append :: "reg_req \<Rightarrow> reg_view \<Rightarrow> reg_view \<times> append_outcome" where
  "MemoryRegistrationBackend_append d v =
     (case decide_append d v of
        Inl out \<Rightarrow> (v, out)
      | Inr record \<Rightarrow> (remember record v, Appended (rr_index record)))"

definition forSeasonContext :: "int \<Rightarrow> string \<Rightarrow> reg_view \<Rightarrow> reg_rec list" where
  "forSeasonContext season ctx v = bucket_records v (bucketName season ctx)"

definition declarationFor :: "int \<Rightarrow> string \<Rightarrow> reg_view \<Rightarrow> reg_declaration option" where
  "declarationFor season ctx v =
     (case bucket_records v (bucketName season ctx) of
        [] \<Rightarrow> None
      | r # _ \<Rightarrow> Some (declarationOfRecord r))"

definition startsWith :: "string \<Rightarrow> string \<Rightarrow> bool" where
  "startsWith s prefix \<longleftrightarrow> take (length prefix) s = prefix"

definition bucketsHaveEngine :: "(string, reg_rec list) jsmap \<Rightarrow> int \<Rightarrow> string \<Rightarrow> bool" where
  "bucketsHaveEngine buckets season engine =
     list_ex (\<lambda>(bucket, recs). startsWith bucket (dec_of_int season @ '':'') \<and>
        (case recs of [] \<Rightarrow> False | r # _ \<Rightarrow> dc_engine (declarationOfRecord r) = engine)) buckets"

definition seasonHasEngine :: "int \<Rightarrow> string \<Rightarrow> reg_view \<Rightarrow> bool" where
  "seasonHasEngine season engine v = bucketsHaveEngine (rv_buckets v) season engine"

subsection \<open>Keys\<close>

lemma bucketName_inject [simp]: "bucketName s c = bucketName s' c' \<longleftrightarrow> s = s' \<and> c = c'"
  using split_at_separator [of "CHR '':''" "dec_of_int s" "dec_of_int s'" c c'] dec_of_int_no_colon
  by (auto simp: bucketName_def)

lemma keyName_inject:
  "CHR '':'' \<notin> set c \<Longrightarrow> CHR '':'' \<notin> set c' \<Longrightarrow>
   keyName s c n = keyName s' c' n' \<longleftrightarrow> s = s' \<and> c = c' \<and> n = n'"
  using split_at_separator [of "CHR '':''" "dec_of_int s" "dec_of_int s'" "c @ '':'' @ n" "c' @ '':'' @ n'"]
    split_at_separator [of "CHR '':''" c c' n n'] dec_of_int_no_colon
  by (auto simp: keyName_def)

lemma keyOf_record_at [simp]: "keyOf (record_at d i) = keyName (rq_season d) (rq_contextHash d) (rq_regNullifier d)"
  by (simp add: keyOf_def record_at_def)

lemma bucketOf_record_at [simp]: "bucketOf (record_at d i) = bucketName (rq_season d) (rq_contextHash d)"
  by (simp add: bucketOf_def record_at_def)

lemma rr_index_record_at [simp]: "rr_index (record_at d i) = i"
  by (simp add: record_at_def)

lemma declaration_record_at [simp]:
  "declarationOfRecord (record_at d i) = \<lparr>dc_engine = rq_engine d, dc_statement = rq_statement d\<rparr>"
  by (simp add: declarationOfRecord_def record_at_def)

lemma sameDeclaration_eq [simp]: "sameDeclaration a b \<longleftrightarrow> a = b"
  by (cases a; cases b) (simp add: sameDeclaration_def)

lemma bucketOf_record: "bucketOf r = bucketName (rr_season r) (rr_contextHash r)"
  by (simp add: bucketOf_def)

subsection \<open>Sound records and views\<close>

definition ok_rec :: "reg_rec \<Rightarrow> bool" where
  "ok_rec r \<longleftrightarrow> 0 \<le> rr_season r \<and> isCanonicalField (rr_contextHash r) \<and> isCanonicalField (rr_regNullifier r) \<and>
     isCanonicalField (rr_commitment r) \<and>
     (case (rr_engine r, rr_statement r) of
        (None, None) \<Rightarrow> True
      | (Some e, Some s) \<Rightarrow> isValidEngineStatement (F_str e) (F_str s)
      | _ \<Rightarrow> False)"

definition valid_req :: "reg_req \<Rightarrow> bool" where
  "valid_req d \<longleftrightarrow> 0 \<le> rq_season d \<and> isCanonicalField (rq_contextHash d) \<and> isCanonicalField (rq_regNullifier d) \<and>
     isCanonicalField (rq_commitment d) \<and> isValidEngineStatement (F_str (rq_engine d)) (F_str (rq_statement d))"

lemma ok_rec_record_at: "valid_req d \<Longrightarrow> ok_rec (record_at d i)"
  by (simp add: valid_req_def ok_rec_def record_at_def)

lemma valid_request_of_call:
  "invalid_call c = None \<Longrightarrow> 0 \<le> rc_season c \<Longrightarrow> valid_req (request_of_call c)"
  by (cases "rc_engine c"; cases "rc_statement c")
    (auto simp: invalid_call_def valid_req_def request_of_call_def field_string_def split: if_splits)

definition view_ok :: "reg_view \<Rightarrow> bool" where
  "view_ok v \<longleftrightarrow> jm_wf (rv_buckets v) \<and> distinct (rv_seen v) \<and>
     (\<forall>(b, recs) \<in> set (rv_buckets v). recs \<noteq> [] \<and> distinct (map keyOf recs) \<and>
        (\<forall>r \<in> set recs. ok_rec r \<and> bucketOf r = b \<and> declarationOfRecord r = declarationOfRecord (hd recs))) \<and>
     set (rv_seen v) = (\<Union>(b, recs) \<in> set (rv_buckets v). keyOf ` set recs)"

lemma view_ok_empty [keep]: "view_ok empty_view"
  by (simp add: view_ok_def empty_view_def)

lemma view_bucket:
  assumes "view_ok v" "bucket_records v b \<noteq> []"
  shows "(b, bucket_records v b) \<in> set (rv_buckets v)"
  using assms by (auto simp: bucket_records_def dest: jm_get_in_set split: option.splits)

lemma view_records:
  assumes "view_ok v" "r \<in> set (bucket_records v b)"
  shows "ok_rec r" "bucketOf r = b" "keyOf r \<in> set (rv_seen v)"
    "declarationOfRecord r = declarationOfRecord (hd (bucket_records v b))" "distinct (map keyOf (bucket_records v b))"
proof -
  have "(b, bucket_records v b) \<in> set (rv_buckets v)"
    using assms by (intro view_bucket) auto
  then show "ok_rec r" "bucketOf r = b" "keyOf r \<in> set (rv_seen v)"
      "declarationOfRecord r = declarationOfRecord (hd (bucket_records v b))" "distinct (map keyOf (bucket_records v b))"
    using assms unfolding view_ok_def by fastforce+
qed

lemma view_seen:
  assumes "view_ok v" "k \<in> set (rv_seen v)"
  shows "\<exists>b r. r \<in> set (bucket_records v b) \<and> keyOf r = k"
proof -
  obtain b recs r where "(b, recs) \<in> set (rv_buckets v)" "r \<in> set recs" "k = keyOf r"
    using assms unfolding view_ok_def by auto
  moreover from this have "bucket_records v b = recs"
    using assms(1) jm_wf_get_iff [of "rv_buckets v" b recs] by (simp add: view_ok_def bucket_records_def)
  ultimately show ?thesis
    by blast
qed

lemma bucket_records_remember [simp]:
  "bucket_records (remember r v) b = (if b = bucketOf r then bucket_records v b @ [r] else bucket_records v b)"
  by (simp add: bucket_records_def remember_def)

lemma seen_remember [simp]: "set (rv_seen (remember r v)) = insert (keyOf r) (set (rv_seen v))"
  by (auto simp: remember_def)

lemma view_ok_remember:
  assumes "view_ok v" "ok_rec r" "keyOf r \<notin> set (rv_seen v)"
    and "bucket_records v (bucketOf r) = [] \<or> declarationOfRecord (hd (bucket_records v (bucketOf r))) = declarationOfRecord r"
  shows "view_ok (remember r v)"
proof -
  let ?b = "bucketOf r" and ?recs = "bucket_records v (bucketOf r) @ [r]"
  have wf: "jm_wf (rv_buckets v)"
    using assms(1) by (simp add: view_ok_def)
  have bs: "set (rv_buckets (remember r v)) = insert (?b, ?recs) (set (jm_delete ?b (rv_buckets v)))"
    by (simp add: remember_def jm_set_set [OF wf])
  have old: "keyOf x \<in> set (rv_seen v)" "ok_rec x" "bucketOf x = ?b"
      "declarationOfRecord x = declarationOfRecord (hd (bucket_records v ?b))" if "x \<in> set (bucket_records v ?b)" for x
    using view_records [OF assms(1) that] by simp_all
  have dist: "distinct (map keyOf (bucket_records v ?b))"
  proof (cases "bucket_records v ?b = []")
    case False
    then show ?thesis
      by (rule view_records(5) [OF assms(1) hd_in_set])
  qed simp
  have new: "?recs \<noteq> [] \<and> distinct (map keyOf ?recs) \<and> (\<forall>x \<in> set ?recs. ok_rec x \<and> bucketOf x = ?b \<and>
      declarationOfRecord x = declarationOfRecord (hd ?recs))"
  proof (cases "bucket_records v ?b = []")
    case True
    then show ?thesis
      using assms(2) by simp
  next
    case False
    have "keyOf r \<notin> keyOf ` set (bucket_records v ?b)"
      using old(1) assms(3) by auto
    then have "distinct (map keyOf ?recs)"
      using dist by simp
    moreover have "hd ?recs = hd (bucket_records v ?b)"
      using False by (rule hd_append2)
    moreover have "declarationOfRecord r = declarationOfRecord (hd (bucket_records v ?b))"
      using False assms(4) by simp
    moreover have "x \<in> set ?recs \<Longrightarrow> x = r \<or> x \<in> set (bucket_records v ?b)" for x
      by auto
    ultimately show ?thesis
      using old(2-4) assms(2) by (metis snoc_eq_iff_butlast)
  qed
  have seen: "set (rv_seen (remember r v)) = (\<Union>(b, recs) \<in> set (rv_buckets (remember r v)). keyOf ` set recs)"
  proof -
    have "(\<Union>(b, recs) \<in> set (rv_buckets v). keyOf ` set recs) =
        keyOf ` set (bucket_records v ?b) \<union> (\<Union>(b, recs) \<in> set (jm_delete ?b (rv_buckets v)). keyOf ` set recs)"
    proof -
      have mem: "bucket_records v b = recs" if "(b, recs) \<in> set (rv_buckets v)" for b recs
        using that wf jm_wf_get_iff [of "rv_buckets v" b recs] by (simp add: bucket_records_def)
      have "(?b, bucket_records v ?b) \<in> set (rv_buckets v)" if "x \<in> set (bucket_records v ?b)" for x
        using that by (intro view_bucket [OF assms(1)]) auto
      note inb = this
      show ?thesis
      proof (intro set_eqI iffI)
        fix k
        assume "k \<in> (\<Union>(b, recs) \<in> set (rv_buckets v). keyOf ` set recs)"
        then obtain b recs where m: "(b, recs) \<in> set (rv_buckets v)" "k \<in> keyOf ` set recs"
          by blast
        show "k \<in> keyOf ` set (bucket_records v ?b) \<union> (\<Union>(b, recs) \<in> set (jm_delete ?b (rv_buckets v)). keyOf ` set recs)"
        proof (cases "b = ?b")
          case True
          then show ?thesis
            using mem [OF m(1)] m(2) by simp
        next
          case False
          then have "(b, recs) \<in> set (jm_delete ?b (rv_buckets v))"
            using m(1) by (simp add: jm_delete_def)
          then show ?thesis
            using m(2) by blast
        qed
      next
        fix k
        assume "k \<in> keyOf ` set (bucket_records v ?b) \<union> (\<Union>(b, recs) \<in> set (jm_delete ?b (rv_buckets v)). keyOf ` set recs)"
        then show "k \<in> (\<Union>(b, recs) \<in> set (rv_buckets v). keyOf ` set recs)"
        proof
          assume "k \<in> keyOf ` set (bucket_records v ?b)"
          then show ?thesis
            using inb by blast
        next
          assume "k \<in> (\<Union>(b, recs) \<in> set (jm_delete ?b (rv_buckets v)). keyOf ` set recs)"
          then show ?thesis
            unfolding jm_delete_def by auto
        qed
      qed
    qed
    then show ?thesis
      using assms(1) by (auto simp: bs view_ok_def)
  qed
  have "distinct (rv_seen (remember r v))"
    using assms(1) by (simp add: remember_def view_ok_def)
  moreover have "jm_wf (rv_buckets (remember r v))"
    using wf by (simp add: remember_def)
  moreover have "\<forall>(b, recs) \<in> set (rv_buckets (remember r v)). recs \<noteq> [] \<and> distinct (map keyOf recs) \<and>
        (\<forall>x \<in> set recs. ok_rec x \<and> bucketOf x = b \<and> declarationOfRecord x = declarationOfRecord (hd recs))"
    using new assms(1) unfolding bs view_ok_def by (auto simp: jm_delete_def)
  ultimately show ?thesis
    using seen by (simp add: view_ok_def)
qed

lemma decide_cases:
  assumes "decide_append d v = Inr r"
  shows "r = record_at d (length (bucket_records v (bucketOf r)))" "keyOf r \<notin> set (rv_seen v)"
    "bucket_records v (bucketOf r) = [] \<or> declarationOfRecord (hd (bucket_records v (bucketOf r))) = declarationOfRecord r"
  using assms by (auto simp: decide_append_def Let_def split: if_splits list.splits)

lemma view_ok_append [keep]: "view_ok v \<Longrightarrow> valid_req d \<Longrightarrow> view_ok (fst (MemoryRegistrationBackend_append d v))"
proof (cases "decide_append d v")
  case (Inr r)
  assume v: "view_ok v" "valid_req d"
  have "ok_rec r"
    using decide_cases(1) [OF Inr] ok_rec_record_at [OF v(2)] by metis
  then show ?thesis
    using Inr view_ok_remember [OF v(1) _ decide_cases(2,3) [OF Inr]]
    by (simp add: MemoryRegistrationBackend_append_def)
qed (simp add: MemoryRegistrationBackend_append_def)

lemma view_has:
  assumes "view_ok v" "isCanonicalField c" "isCanonicalField n"
  shows "keyName s c n \<in> set (rv_seen v) \<longleftrightarrow> (\<exists>r \<in> set (forSeasonContext s c v). rr_regNullifier r = n)"
proof
  assume "keyName s c n \<in> set (rv_seen v)"
  then obtain b r where r: "r \<in> set (bucket_records v b)" "keyOf r = keyName s c n"
    using view_seen [OF assms(1)] by blast
  have "ok_rec r" "bucketOf r = b"
    using view_records [OF assms(1) r(1)] by simp_all
  then have "rr_season r = s \<and> rr_contextHash r = c \<and> rr_regNullifier r = n" "b = bucketName s c"
    using r(2) assms(2) keyName_inject [of "rr_contextHash r" c "rr_season r" "rr_regNullifier r" s n]
    by (auto simp: keyOf_def ok_rec_def isCanonicalField_no_colon bucketOf_record)
  then show "\<exists>r \<in> set (forSeasonContext s c v). rr_regNullifier r = n"
    using r(1) by (auto simp: forSeasonContext_def)
next
  assume "\<exists>r \<in> set (forSeasonContext s c v). rr_regNullifier r = n"
  then obtain r where r: "r \<in> set (bucket_records v (bucketName s c))" "rr_regNullifier r = n"
    by (auto simp: forSeasonContext_def)
  from view_records(2,3) [OF assms(1) r(1)] r(2) show "keyName s c n \<in> set (rv_seen v)"
    by (simp add: keyOf_def bucketOf_record)
qed

subsection \<open>The interface of a backend\<close>

text \<open>
  \<open>recs s season ctx\<close> is what \<open>forSeasonContext\<close> returns. The laws say when an append is refused,
  and that an accepted one puts its record at the end of its own bucket and touches no other.
\<close>

locale registration_backend =
  fixes inv :: "'s \<Rightarrow> bool"
    and has :: "int \<Rightarrow> string \<Rightarrow> string \<Rightarrow> 's \<Rightarrow> bool"
    and add :: "reg_req \<Rightarrow> 's \<Rightarrow> 's \<times> append_outcome"
    and recs :: "int \<Rightarrow> string \<Rightarrow> 's \<Rightarrow> reg_rec list"
  assumes append_inv: "inv s \<Longrightarrow> valid_req d \<Longrightarrow> inv (fst (add d s))"
    and has_recs: "inv s \<Longrightarrow> isCanonicalField c \<Longrightarrow> isCanonicalField n \<Longrightarrow>
      has y c n s \<longleftrightarrow> (\<exists>r \<in> set (recs y c s). rr_regNullifier r = n)"
    and append_outcome: "inv s \<Longrightarrow> valid_req d \<Longrightarrow> snd (add d s) =
      (if has (rq_season d) (rq_contextHash d) (rq_regNullifier d) s then Duplicate
       else case recs (rq_season d) (rq_contextHash d) s of
              [] \<Rightarrow> Appended 0
            | r # rs \<Rightarrow> if declarationOfRecord r = declarationOfRecord (record_at d 0)
                then Appended (Suc (length rs)) else Conflict (declarationOfRecord r))"
    and append_recs: "inv s \<Longrightarrow> valid_req d \<Longrightarrow> recs y c (fst (add d s)) =
      recs y c s @ (case snd (add d s) of
         Appended i \<Rightarrow> if y = rq_season d \<and> c = rq_contextHash d then [record_at d i] else []
       | _ \<Rightarrow> [])"

text \<open>A history of registrations, with what each was told.\<close>

fun reg_run :: "(reg_req \<Rightarrow> 's \<Rightarrow> 's \<times> append_outcome) \<Rightarrow> reg_req list \<Rightarrow> 's \<Rightarrow> 's \<times> (reg_req \<times> append_outcome) list" where
  "reg_run add [] s = (s, [])"
| "reg_run add (d # ds) s =
     (let (s1, out) = add d s; (s2, outs) = reg_run add ds s1 in (s2, (d, out) # outs))"

context registration_backend
begin

lemma run_inv: "inv s \<Longrightarrow> list_all valid_req ds \<Longrightarrow> inv (fst (reg_run add ds s))"
proof (induction ds arbitrary: s)
  case (Cons d ds)
  then show ?case
    using Cons.IH [of "fst (add d s)"] append_inv [of s d] by (simp add: Let_def split_def)
qed simp

lemma run_prefix: "inv s \<Longrightarrow> list_all valid_req ds \<Longrightarrow> \<exists>more. recs y c (fst (reg_run add ds s)) = recs y c s @ more"
proof (induction ds arbitrary: s)
  case (Cons d ds)
  then obtain more where "recs y c (fst (reg_run add ds (fst (add d s)))) = recs y c (fst (add d s)) @ more"
    using append_inv [of s d] by auto
  then show ?case
    using append_recs [of s d y c] Cons.prems by (simp add: Let_def split_def)
qed simp

text \<open>What a caller was told stays true: the record stands at the index it was given, for good.\<close>

lemma run_positions:
  "inv s \<Longrightarrow> list_all valid_req ds \<Longrightarrow> (d, Appended i) \<in> set (snd (reg_run add ds s)) \<Longrightarrow>
   i < length (recs (rq_season d) (rq_contextHash d) (fst (reg_run add ds s))) \<and>
   recs (rq_season d) (rq_contextHash d) (fst (reg_run add ds s)) ! i = record_at d i"
proof (induction ds arbitrary: s)
  case (Cons e ds)
  let ?s1 = "fst (add e s)"
  have i1: "inv ?s1"
    using append_inv Cons.prems(1,2) by simp
  have run: "fst (reg_run add (e # ds) s) = fst (reg_run add ds ?s1)"
      "snd (reg_run add (e # ds) s) = (e, snd (add e s)) # snd (reg_run add ds ?s1)"
    by (simp_all add: Let_def split_def)
  from Cons.prems(3) run(2) consider "e = d" "snd (add e s) = Appended i"
    | "(d, Appended i) \<in> set (snd (reg_run add ds ?s1))"
    by auto
  then show ?case
  proof cases
    case 1
    have "length (recs (rq_season d) (rq_contextHash d) s) = i"
      using append_outcome [of s d] Cons.prems(1,2) 1 by (simp split: if_splits list.splits)
    moreover have "recs (rq_season d) (rq_contextHash d) ?s1 = recs (rq_season d) (rq_contextHash d) s @ [record_at d i]"
      using append_recs [of s d "rq_season d" "rq_contextHash d"] Cons.prems(1,2) 1 by simp
    moreover obtain more where "recs (rq_season d) (rq_contextHash d) (fst (reg_run add ds ?s1)) =
        recs (rq_season d) (rq_contextHash d) ?s1 @ more"
      using run_prefix [OF i1, of ds "rq_season d" "rq_contextHash d"] Cons.prems(2) by force
    ultimately show ?thesis
      using run by (simp add: nth_append)
  next
    case 2
    then show ?thesis
      using Cons.IH [OF i1] Cons.prems(2) run by simp
  qed
qed simp

lemma run_has_stays:
  "inv s \<Longrightarrow> list_all valid_req ds \<Longrightarrow> isCanonicalField c \<Longrightarrow> isCanonicalField n \<Longrightarrow> has y c n s \<Longrightarrow>
   has y c n (fst (reg_run add ds s))"
  using run_prefix [of s ds y c] has_recs [of s c n y] has_recs [OF run_inv, of s ds c n y] by auto

lemma step_has:
  "inv s \<Longrightarrow> valid_req d \<Longrightarrow> isCanonicalField c \<Longrightarrow> isCanonicalField n \<Longrightarrow> has y c n s \<Longrightarrow> has y c n (fst (add d s))"
  using run_has_stays [of s "[d]" c n y] by (simp add: Let_def split_def)

lemma spent_refused:
  "inv s \<Longrightarrow> list_all valid_req ds \<Longrightarrow> has (rq_season e) (rq_contextHash e) (rq_regNullifier e) s \<Longrightarrow>
   (e, Appended j) \<notin> set (snd (reg_run add ds s))"
proof (induction ds arbitrary: s)
  case (Cons x ds)
  have x: "valid_req x" and i1: "inv (fst (add x s))"
    using Cons.prems append_inv by simp_all
  have run: "snd (reg_run add (x # ds) s) = (x, snd (add x s)) # snd (reg_run add ds (fst (add x s)))"
    by (simp add: Let_def split_def)
  have head: "(e, Appended j) \<noteq> (x, snd (add x s))"
    using append_outcome [OF Cons.prems(1) x] Cons.prems(3) by auto
  show ?case
  proof (cases "valid_req e")
    case True
    then have "has (rq_season e) (rq_contextHash e) (rq_regNullifier e) (fst (add x s))"
      using step_has [OF Cons.prems(1) x _ _ Cons.prems(3)] by (simp add: valid_req_def)
    then show ?thesis
      using Cons.IH [OF i1] Cons.prems(2) head run by simp
  next
    case False
    have "d \<in> set ds \<or> d = x" if "(d, out) \<in> set (snd (reg_run add (x # ds) s))" for d out
    proof -
      have "map fst (snd (reg_run add ys st)) = ys" for ys st
        by (induction ys arbitrary: st) (auto simp: Let_def split_def)
      then have "fst (d, out) \<in> set (x # ds)"
        using that by (metis list.set_map rev_image_eqI)
      then show ?thesis
        by auto
    qed
    then show ?thesis
      using False Cons.prems(2) by (auto simp: list_all_iff)
  qed
qed simp

text \<open>One registration nullifier registers once per season and context.\<close>

lemma run_once:
  "inv s \<Longrightarrow> list_all valid_req ds \<Longrightarrow> snd (reg_run add ds s) = as @ (d, Appended i) # bs \<Longrightarrow>
   (e, Appended j) \<in> set bs \<Longrightarrow>
   (rq_season d, rq_contextHash d, rq_regNullifier d) \<noteq> (rq_season e, rq_contextHash e, rq_regNullifier e)"
proof (induction ds arbitrary: s as)
  case (Cons x ds)
  let ?s1 = "fst (add x s)"
  have x: "valid_req x" and i1: "inv ?s1"
    using append_inv Cons.prems(1,2) by simp_all
  have run: "snd (reg_run add (x # ds) s) = (x, snd (add x s)) # snd (reg_run add ds ?s1)"
    by (simp add: Let_def split_def)
  show ?case
  proof (cases as)
    case Nil
    then have d: "x = d" "snd (add d s) = Appended i" "bs = snd (reg_run add ds ?s1)"
      using Cons.prems(3) run by auto
    have cn: "isCanonicalField (rq_contextHash d)" "isCanonicalField (rq_regNullifier d)"
      using x d(1) by (simp_all add: valid_req_def)
    have "record_at d i \<in> set (recs (rq_season d) (rq_contextHash d) ?s1)"
      using append_recs [OF Cons.prems(1) x, of "rq_season d" "rq_contextHash d"] d by simp
    then have "has (rq_season d) (rq_contextHash d) (rq_regNullifier d) ?s1"
      using has_recs [OF i1 cn] by (force simp: record_at_def)
    then show ?thesis
      using spent_refused [OF i1, of ds e j] Cons.prems(2,4) d(3) by auto
  next
    case (Cons a as')
    then show ?thesis
      using Cons.IH [OF i1, of as'] Cons.prems run by auto
  qed
qed simp

end

interpretation memory_backend: registration_backend view_ok MemoryRegistrationBackend_has
  MemoryRegistrationBackend_append forSeasonContext
proof
  fix s :: reg_view and d :: reg_req and y :: int and c n :: string
  show "view_ok s \<Longrightarrow> valid_req d \<Longrightarrow> view_ok (fst (MemoryRegistrationBackend_append d s))"
    by (rule view_ok_append)
  show "view_ok s \<Longrightarrow> isCanonicalField c \<Longrightarrow> isCanonicalField n \<Longrightarrow> MemoryRegistrationBackend_has y c n s \<longleftrightarrow>
      (\<exists>r \<in> set (forSeasonContext y c s). rr_regNullifier r = n)"
    unfolding MemoryRegistrationBackend_has_def by (rule view_has)
  show "snd (MemoryRegistrationBackend_append d s) =
      (if MemoryRegistrationBackend_has (rq_season d) (rq_contextHash d) (rq_regNullifier d) s then Duplicate
       else case forSeasonContext (rq_season d) (rq_contextHash d) s of
              [] \<Rightarrow> Appended 0
            | r # rs \<Rightarrow> if declarationOfRecord r = declarationOfRecord (record_at d 0)
                then Appended (Suc (length rs)) else Conflict (declarationOfRecord r))"
    by (simp add: MemoryRegistrationBackend_append_def MemoryRegistrationBackend_has_def forSeasonContext_def
        decide_append_def Let_def split: list.split)
  show "forSeasonContext y c (fst (MemoryRegistrationBackend_append d s)) =
      forSeasonContext y c s @ (case snd (MemoryRegistrationBackend_append d s) of
         Appended i \<Rightarrow> if y = rq_season d \<and> c = rq_contextHash d then [record_at d i] else []
       | _ \<Rightarrow> [])"
    by (simp add: MemoryRegistrationBackend_append_def forSeasonContext_def decide_append_def Let_def
        split: list.split)
qed

subsection \<open>Properties\<close>

lemma engine_strings: "isValidEngineStatement a b \<Longrightarrow> \<exists>e s. a = F_str e \<and> b = F_str s"
  by (cases a; cases b) auto

lemma record_of_json_ok:
  assumes "registrationRecordProblem j = None"
  shows "ok_rec (record_of_json j)"
proof -
  obtain r where j: "j = J_record r"
    using assms by (cases j) (auto simp: registrationRecordProblem_def)
  have n: "nonneg_int (raw_season r)" "nonneg_int (raw_index r)" "canonical_field (raw_contextHash r)"
      "canonical_field (raw_regNullifier r)" "canonical_field (raw_commitment r)"
      "raw_engine r = F_absent \<and> raw_statement r = F_absent \<or> isValidEngineStatement (raw_engine r) (raw_statement r)"
    using assms j by (auto simp: registrationRecordProblem_def split: if_splits)
  have c: "canonical_field f \<Longrightarrow> isCanonicalField (field_string f)" for f
    by (cases f) (auto simp: canonical_field_def field_string_def)
  have "0 \<le> field_int (raw_season r)"
    using n(1) by (cases "raw_season r") (auto simp: nonneg_int_def field_int_def)
  then show ?thesis
    using n c engine_strings [of "raw_engine r" "raw_statement r"] j
    by (auto simp: ok_rec_def record_of_json_def field_opt_def)
qed

lemma json_of_record_ok:
  assumes "ok_rec r"
  shows "registrationRecordProblem (json_of_record r) = None" "record_of_json (json_of_record r) = r"
proof -
  have e: "(rr_engine r = None \<and> rr_statement r = None) \<or>
      (\<exists>e s. rr_engine r = Some e \<and> rr_statement r = Some s \<and> isValidEngineStatement (F_str e) (F_str s))"
    using assms by (cases "rr_engine r"; cases "rr_statement r") (auto simp: ok_rec_def)
  then show "registrationRecordProblem (json_of_record r) = None"
    using assms by (auto simp: registrationRecordProblem_def json_of_record_def ok_rec_def nonneg_int_def canonical_field_def)
  show "record_of_json (json_of_record r) = r"
    using e by (cases r) (auto simp: record_of_json_def json_of_record_def field_int_def field_string_def field_opt_def)
qed

text \<open>What the store accepts for writing, its own loader accepts and reads back unchanged, and
  whatever the loader accepts is a sound record: canonical field elements, a season and an index
  that are no negative numbers, and an engine and statement that are absent together or a valid pair.\<close>

lemma append_writes_loadable_records:
  assumes "invalid_call c = None" "0 \<le> rc_season c"
  shows "let j = json_of_record (record_at (request_of_call c) i) in
     registrationRecordProblem j = None \<and> record_of_json j = record_at (request_of_call c) i \<and>
     {record_of_json k |k. registrationRecordProblem k = None} = {r. ok_rec r}"
proof -
  have "ok_rec (record_at (request_of_call c) i)"
    using ok_rec_record_at valid_request_of_call assms by blast
  moreover have "{record_of_json k |k. registrationRecordProblem k = None} = {r. ok_rec r}"
    using record_of_json_ok json_of_record_ok by (auto, metis)
  ultimately show ?thesis
    using json_of_record_ok by (simp add: Let_def)
qed

definition demo_call :: "nat \<Rightarrow> string \<Rightarrow> reg_call" where
  "demo_call n engine = \<lparr>rc_season = 3, rc_contextHash = dec_of_nat 4, rc_regNullifier = dec_of_nat n,
     rc_commitment = dec_of_nat (n + 100), rc_engine = F_str engine, rc_statement = F_str ''derive''\<rparr>"

lemma demo_call_ok: "n < 1000 \<Longrightarrow> e \<in> {''groth16'', ''zkvm''} \<Longrightarrow> invalid_call (demo_call n e) = None"
  by (auto simp: invalid_call_def demo_call_def ENGINE_STATEMENTS_def isCanonicalField_dec_of_nat FIELD_PRIME_def)

lemma demo_call_season [simp]: "rc_season (demo_call n e) = 3"
  by (simp add: demo_call_def)

theorem append_writes_loadable_records_witness:
  "registrationRecordProblem (json_of_record (record_at (request_of_call (demo_call 7 ''zkvm'')) 0)) = None"
  using append_writes_loadable_records [of "demo_call 7 ''zkvm''" 0] demo_call_ok [of 7 "''zkvm''"] by (simp add: Let_def)

text \<open>A registration nullifier is accepted at most once per season and context, and every
  accepted registration stands, whatever is registered later, at exactly the leaf position it was
  told.\<close>

lemma registered_once_and_in_place:
  assumes "view_ok v" "list_all valid_req ds"
    and "snd (reg_run MemoryRegistrationBackend_append ds v) = as @ (d, Appended i) # bs"
  shows "forSeasonContext (rq_season d) (rq_contextHash d) (fst (reg_run MemoryRegistrationBackend_append ds v)) ! i =
       record_at d i \<and>
     (\<forall>(e, out) \<in> set bs. \<forall>j. out = Appended j \<longrightarrow>
       (rq_season e, rq_contextHash e, rq_regNullifier e) \<noteq> (rq_season d, rq_contextHash d, rq_regNullifier d))"
proof -
  have "(d, Appended i) \<in> set (snd (reg_run MemoryRegistrationBackend_append ds v))"
    using assms(3) by simp
  from memory_backend.run_positions [OF assms(1,2) this] memory_backend.run_once [OF assms] show ?thesis
    by fastforce
qed

theorem registered_once_and_in_place_witness:
  "forSeasonContext 3 (dec_of_nat 4) (fst (reg_run MemoryRegistrationBackend_append
     [request_of_call (demo_call 7 ''zkvm'')] empty_view)) ! 0 = record_at (request_of_call (demo_call 7 ''zkvm'')) 0"
proof -
  let ?d = "request_of_call (demo_call 7 ''zkvm'')"
  have "valid_req ?d"
    using valid_request_of_call [OF demo_call_ok] by simp
  moreover have "snd (reg_run MemoryRegistrationBackend_append [?d] empty_view) = [] @ (?d, Appended 0) # []"
    by (simp add: MemoryRegistrationBackend_append_def decide_append_def empty_view_def bucket_records_def Let_def)
  ultimately show ?thesis
    using registered_once_and_in_place [OF view_ok_empty, of "[?d]" "[]" ?d 0 "[]"]
    by (simp add: request_of_call_def demo_call_def)
qed

lemma startsWith_bucket: "startsWith (bucketName s c) (dec_of_int s' @ '':'') \<longleftrightarrow> s = s'"
proof
  assume "startsWith (bucketName s c) (dec_of_int s' @ '':'')"
  then have "bucketName s c = (dec_of_int s' @ '':'') @ drop (length (dec_of_int s' @ '':'')) (bucketName s c)"
    unfolding startsWith_def by (metis append_take_drop_id)
  then have "dec_of_int s @ CHR '':'' # c = dec_of_int s' @ CHR '':'' # drop (length (dec_of_int s' @ '':'')) (bucketName s c)"
    unfolding bucketName_def by simp
  then show "s = s'"
    using split_at_separator [of "CHR '':''" "dec_of_int s" "dec_of_int s'"] dec_of_int_no_colon by simp
qed (simp add: startsWith_def bucketName_def)

lemma list_case_hd: "(case xs of [] \<Rightarrow> False | x # _ \<Rightarrow> P x) \<longleftrightarrow> xs \<noteq> [] \<and> P (hd xs)"
  by (cases xs) auto

lemma has_engine_iff: "seasonHasEngine season engine v \<longleftrightarrow> (\<exists>(b, recs) \<in> set (rv_buckets v).
    startsWith b (dec_of_int season @ '':'') \<and> recs \<noteq> [] \<and> dc_engine (declarationOfRecord (hd recs)) = engine)"
  by (simp add: seasonHasEngine_def bucketsHaveEngine_def list_ex_iff list_case_hd)

text \<open>The downgrade signal reads exactly the records: a season has an engine when some context
  of that very season (not of one whose number merely starts alike) holds a record declared under it.\<close>

lemma seasonHasEngine_exact:
  assumes "view_ok v"
  shows "seasonHasEngine season engine v \<longleftrightarrow>
     (\<exists>ctx. \<exists>r \<in> set (forSeasonContext season ctx v). dc_engine (declarationOfRecord r) = engine)"
proof
  assume "seasonHasEngine season engine v"
  then obtain b recs where b: "(b, recs) \<in> set (rv_buckets v)" "startsWith b (dec_of_int season @ '':'')"
      "recs \<noteq> []" "dc_engine (declarationOfRecord (hd recs)) = engine"
    unfolding has_engine_iff by blast
  have recs: "bucket_records v b = recs"
    using assms b(1) jm_wf_get_iff [of "rv_buckets v" b recs] by (simp add: view_ok_def bucket_records_def)
  have "bucketOf (hd recs) = b"
    using view_records(2) [OF assms, of "hd recs" b] b(3) recs by simp
  then have "b = bucketName season (rr_contextHash (hd recs))"
    using b(2) startsWith_bucket by (auto simp: bucketOf_record)
  then show "\<exists>ctx. \<exists>r \<in> set (forSeasonContext season ctx v). dc_engine (declarationOfRecord r) = engine"
    using recs b(3,4) by (intro exI [of _ "rr_contextHash (hd recs)"] bexI [of _ "hd recs"]) (simp_all add: forSeasonContext_def)
next
  assume "\<exists>ctx. \<exists>r \<in> set (forSeasonContext season ctx v). dc_engine (declarationOfRecord r) = engine"
  then obtain ctx r where r: "r \<in> set (bucket_records v (bucketName season ctx))" "dc_engine (declarationOfRecord r) = engine"
    by (auto simp: forSeasonContext_def)
  have ne: "bucket_records v (bucketName season ctx) \<noteq> []"
    using r(1) by auto
  have "dc_engine (declarationOfRecord (hd (bucket_records v (bucketName season ctx)))) = engine"
    using view_records(4) [OF assms r(1)] r(2) by simp
  then show "seasonHasEngine season engine v"
    using view_bucket [OF assms ne] ne startsWith_bucket
    unfolding has_engine_iff by (auto intro!: bexI [of _ "(bucketName season ctx, bucket_records v (bucketName season ctx))"])
qed

theorem seasonHasEngine_exact_witness:
  "\<not> seasonHasEngine 3 ''zkvm'' empty_view"
  using seasonHasEngine_exact [OF view_ok_empty, of 3 "''zkvm''"]
  by (simp add: forSeasonContext_def bucket_records_def empty_view_def)

end
