(* ===== verification/Reg_Load.thy ===== *)
theory Reg_Load
  imports Reg_Records "HOL-Library.Multiset"
begin

section \<open>Loading the registration file (core/registration_store.js, FileBackend)\<close>

text \<open>
  The file is its text split at newlines, each line already read as JSON (or as text that is none),
  so the last line is empty exactly when the text ends in a newline. \<open>fl_lines\<close> is what a read
  returns (the page cache); of those lines the first \<open>fl_forced\<close> are known to be on stable
  storage, because a barrier succeeded after they were written. \<open>fl_linked\<close> says that the
  directory entry is durable. Every file system call the loader makes may fail: \<open>io\<close> says which do.
\<close>

subsection \<open>Content\<close>

datatype fline = L_empty | L_space | L_bad | L_json json

type_synonym content = "fline list"

definition blank :: "fline \<Rightarrow> bool" where
  "blank l \<longleftrightarrow> l = L_empty \<or> l = L_space"

definition ends_newline :: "content \<Rightarrow> bool" where
  "ends_newline ls \<longleftrightarrow> 2 \<le> length ls \<and> last ls = L_empty"

definition no_bytes :: "content \<Rightarrow> bool" where
  "no_bytes ls \<longleftrightarrow> ls = [L_empty]"

text \<open>Text appended to the last line: after a fragment it makes one malformed line.\<close>

definition glue :: "fline \<Rightarrow> fline \<Rightarrow> fline" where
  "glue a b = (if blank a then b else if blank b then a else L_bad)"

definition append_line :: "json \<Rightarrow> content \<Rightarrow> content" where
  "append_line j ls = butlast ls @ [glue (last ls) (L_json j), L_empty]"

definition append_newline :: "content \<Rightarrow> content" where
  "append_newline ls = ls @ [L_empty]"

text \<open>Cutting the file where line \<open>i\<close> begins.\<close>

definition truncate_at :: "nat \<Rightarrow> content \<Rightarrow> content" where
  "truncate_at i ls = take i ls @ [L_empty]"

definition jsons :: "content \<Rightarrow> json list" where
  "jsons ls = concat (map (\<lambda>l. case l of L_json j \<Rightarrow> [j] | _ \<Rightarrow> []) ls)"

text \<open>A write that fails may leave nothing, a torn line, or the whole line with or without its newline.\<close>

datatype write_left = W_nothing | W_torn | W_unended | W_whole

definition write_line :: "write_left \<Rightarrow> json \<Rightarrow> content \<Rightarrow> content" where
  "write_line w j ls =
     (case w of
        W_nothing \<Rightarrow> ls
      | W_torn \<Rightarrow> butlast ls @ [glue (last ls) L_bad]
      | W_unended \<Rightarrow> butlast ls @ [glue (last ls) (L_json j)]
      | W_whole \<Rightarrow> append_line j ls)"

record reg_file =
  fl_lines :: content
  fl_forced :: nat
  fl_linked :: bool

definition barrier :: "reg_file \<Rightarrow> reg_file" where
  "barrier f = f\<lparr>fl_forced := length (fl_lines f) - 1\<rparr>"

subsection \<open>The loop over the lines\<close>

datatype load_error =
    Schedule_mismatch string string | Malformed_line | Bad_record record_problem
  | Key_conflict string | Declaration_mix | Unattributed | Index_gap string nat | Io_error

record load_state =
  ld_view :: reg_view
  ld_dups :: nat
  ld_header :: bool

definition load_start :: load_state where
  "load_start = \<lparr>ld_view = empty_view, ld_dups = 0, ld_header = False\<rparr>"

fun find_at :: "('a \<Rightarrow> bool) \<Rightarrow> 'a list \<Rightarrow> nat option" where
  "find_at P [] = None"
| "find_at P (x # xs) = (if P x then Some 0 else map_option Suc (find_at P xs))"

text \<open>A record whose key was seen: the last copy of the same registration takes the first one's place.\<close>

definition collapse :: "reg_rec \<Rightarrow> load_state \<Rightarrow> load_error + load_state" where
  "collapse rec st =
     (let v = ld_view st; bucket = bucket_records v (bucketOf rec) in
      case find_at (\<lambda>r. keyOf r = keyOf rec) bucket of
        None \<Rightarrow> Inl (Key_conflict (keyOf rec))
      | Some at \<Rightarrow>
          if \<not> sameRegistrationRecord (bucket ! at) rec then Inl (Key_conflict (keyOf rec))
          else Inr (st\<lparr>ld_view := v\<lparr>rv_buckets := jm_set (bucketOf rec) (bucket[at := rec]) (rv_buckets v)\<rparr>,
                       ld_dups := Suc (ld_dups st)\<rparr>))"

definition load_record :: "reg_rec \<Rightarrow> load_state \<Rightarrow> load_error + load_state" where
  "load_record rec st =
     (let v = ld_view st in
      if keyOf rec \<in> set (rv_seen v) then collapse rec st
      else (case bucket_records v (bucketOf rec) of
              r # _ \<Rightarrow>
                if \<not> sameDeclaration (declarationOfRecord r) (declarationOfRecord rec) then Inl Declaration_mix
                else Inr (st\<lparr>ld_view := remember rec v\<rparr>)
            | [] \<Rightarrow> Inr (st\<lparr>ld_view := remember rec v\<rparr>)))"

definition load_json :: "string option \<Rightarrow> json \<Rightarrow> load_state \<Rightarrow> load_error + load_state" where
  "load_json sched j st =
     (case j of
        J_schedule s \<Rightarrow>
          (case sched of
             Some want \<Rightarrow> if s \<noteq> want then Inl (Schedule_mismatch s want) else Inr (st\<lparr>ld_header := True\<rparr>)
           | None \<Rightarrow> Inr (st\<lparr>ld_header := True\<rparr>))
      | _ \<Rightarrow>
          (case registrationRecordProblem j of
             Some p \<Rightarrow> Inl (Bad_record p)
           | None \<Rightarrow> load_record (record_of_json j) st))"

text \<open>The result names the line to cut the file at, when its tail is torn.\<close>

fun load_loop :: "string option \<Rightarrow> bool \<Rightarrow> nat \<Rightarrow> content \<Rightarrow> load_state \<Rightarrow> load_error + load_state \<times> nat option" where
  "load_loop sched nl i [] st = Inr (st, None)"
| "load_loop sched nl i (L_empty # ls) st = load_loop sched nl (Suc i) ls st"
| "load_loop sched nl i (L_space # ls) st = load_loop sched nl (Suc i) ls st"
| "load_loop sched nl i (L_bad # ls) st =
     (if \<not> nl \<and> list_all blank ls then Inr (st, Some i) else Inl Malformed_line)"
| "load_loop sched nl i (L_json j # ls) st =
     (case load_json sched j st of
        Inl e \<Rightarrow> Inl e
      | Inr st1 \<Rightarrow> load_loop sched nl (Suc i) ls st1)"

subsection \<open>Repair, header, order\<close>

datatype io_step =
    Io_mkdir | Io_read | Io_truncate | Io_tail_sync | Io_newline | Io_newline_sync | Io_barrier
  | Io_header_write | Io_header_sync | Io_directory_sync

text \<open>The repair of a tail, and whether every call it made succeeded.\<close>

definition repair_tail :: "(io_step \<Rightarrow> bool) \<Rightarrow> string option \<Rightarrow> bool \<Rightarrow> nat option \<Rightarrow> reg_file \<Rightarrow> reg_file \<times> bool" where
  "repair_tail io sched anySeen tear f =
     (case tear of
        Some i \<Rightarrow>
          if io Io_truncate
          then (f\<lparr>fl_lines := truncate_at i (fl_lines f), fl_forced := min (fl_forced f) i\<rparr>, True)
          else (f, False)
      | None \<Rightarrow>
          if \<not> no_bytes (fl_lines f) \<and> \<not> ends_newline (fl_lines f) then
            (if \<not> io Io_tail_sync then (f, False)
             else let f1 = barrier f in
               if \<not> io Io_newline then (f1, False)
               else let f2 = f1\<lparr>fl_lines := append_newline (fl_lines f1)\<rparr> in
                 if \<not> io Io_newline_sync then (f2, False) else (barrier f2, True))
          else if sched \<noteq> None \<and> anySeen then
            (if io Io_barrier then (barrier f, True) else (f, False))
          else (f, True))"

definition write_header :: "(io_step \<Rightarrow> bool) \<Rightarrow> write_left \<Rightarrow> string option \<Rightarrow> bool \<Rightarrow> reg_file \<Rightarrow> reg_file \<times> bool" where
  "write_header io left sched seenHeader f =
     (case sched of
        Some s \<Rightarrow>
          if seenHeader then (f, True)
          else if \<not> io Io_header_write then (f\<lparr>fl_lines := write_line left (J_schedule s) (fl_lines f)\<rparr>, False)
          else let f1 = f\<lparr>fl_lines := append_line (J_schedule s) (fl_lines f)\<rparr> in
            if \<not> io Io_header_sync then (f1, False) else (barrier f1, True)
      | None \<Rightarrow> (f, True))"

definition order_bucket :: "string \<times> reg_rec list \<Rightarrow> load_error + string \<times> reg_rec list" where
  "order_bucket b =
     (let recs = sort_key rr_index (snd b) in
      if recs \<noteq> [] \<and> length recs < rr_index (last recs) then Inl (Index_gap (fst b) (rr_index (last recs)))
      else Inr (fst b, recs))"

definition order_view :: "reg_view \<Rightarrow> load_error + reg_view" where
  "order_view v =
     (case mapE order_bucket (rv_buckets v) of
        Inl e \<Rightarrow> Inl e
      | Inr bs \<Rightarrow> Inr (v\<lparr>rv_buckets := bs\<rparr>))"

text \<open>
  The directory chain is flushed once per process, on every real deployment (one with a schedule).
  The result says whether that is done, and holds the error or the view to install.
\<close>

definition flush_directories :: "(io_step \<Rightarrow> bool) \<Rightarrow> string option \<Rightarrow> bool \<Rightarrow> reg_file \<Rightarrow> reg_file \<times> bool \<times> bool" where
  "flush_directories io sched dirEnsured f =
     (if sched = None \<or> dirEnsured then (f, dirEnsured, True)
      else if io Io_directory_sync then (f\<lparr>fl_linked := True\<rparr>, True, True)
      else (f, False, False))"

definition FileBackend_load :: "(io_step \<Rightarrow> bool) \<Rightarrow> write_left \<Rightarrow> string option \<Rightarrow> bool \<Rightarrow> bool \<Rightarrow> reg_file \<Rightarrow>
    reg_file \<times> bool \<times> (load_error + reg_view)" where
  "FileBackend_load io left sched assumeSchedule dirEnsured f =
     (if \<not> io Io_mkdir \<or> \<not> io Io_read then (f, dirEnsured, Inl Io_error)
      else case load_loop sched (ends_newline (fl_lines f)) 0 (fl_lines f) load_start of
        Inl e \<Rightarrow> (f, dirEnsured, Inl e)
      | Inr (st, tear) \<Rightarrow>
          (let anySeen = rv_seen (ld_view st) \<noteq> []; (f1, ok1) = repair_tail io sched anySeen tear f in
           if \<not> ok1 then (f1, dirEnsured, Inl Io_error)
           else if \<not> ld_header st \<and> sched \<noteq> None \<and> anySeen \<and> \<not> assumeSchedule then (f1, dirEnsured, Inl Unattributed)
           else let (f2, ok2) = write_header io left sched (ld_header st) f1 in
             if \<not> ok2 then (f2, dirEnsured, Inl Io_error)
             else let (f3, dirEnsured3, ok3) = flush_directories io sched dirEnsured f2 in
               if \<not> ok3 then (f3, dirEnsured3, Inl Io_error)
               else (f3, dirEnsured3, order_view (ld_view st))))"

subsection \<open>The loop, read as a fold over the JSON lines\<close>

fun load_jsons :: "string option \<Rightarrow> json list \<Rightarrow> load_state \<Rightarrow> load_error + load_state" where
  "load_jsons sched [] st = Inr st"
| "load_jsons sched (j # js) st =
     (case load_json sched j st of Inl e \<Rightarrow> Inl e | Inr st1 \<Rightarrow> load_jsons sched js st1)"

definition first_bad :: "content \<Rightarrow> nat option" where
  "first_bad ls = find_at (\<lambda>l. l = L_bad) ls"

lemma jsons_simps [simp]:
  "jsons [] = []" "jsons (L_json j # ls) = j # jsons ls" "jsons (L_empty # ls) = jsons ls"
  "jsons (L_space # ls) = jsons ls" "jsons (L_bad # ls) = jsons ls" "jsons (as @ bs) = jsons as @ jsons bs"
  by (simp_all add: jsons_def)

lemma jsons_blank: "list_all blank ls \<Longrightarrow> jsons ls = []"
  by (induction ls) (auto simp: blank_def)

lemma load_jsons_append: "load_jsons sched (as @ bs) st =
    (case load_jsons sched as st of Inl e \<Rightarrow> Inl e | Inr st1 \<Rightarrow> load_jsons sched bs st1)"
  by (induction as arbitrary: st) (auto split: sum.split)

subsection \<open>The loaded view is sound\<close>

lemma view_okI:
  assumes "jm_wf (rv_buckets v)" "distinct (rv_seen v)" "\<And>b. (b, []) \<notin> set (rv_buckets v)"
    and "\<And>b. distinct (map keyOf (bucket_records v b))"
    and "\<And>b r. r \<in> set (bucket_records v b) \<Longrightarrow> ok_rec r \<and> bucketOf r = b \<and> keyOf r \<in> set (rv_seen v) \<and>
      declarationOfRecord r = declarationOfRecord (hd (bucket_records v b))"
    and "\<And>k. k \<in> set (rv_seen v) \<Longrightarrow> \<exists>b. \<exists>r \<in> set (bucket_records v b). keyOf r = k"
  shows "view_ok v"
proof -
  have get: "bucket_records v b = recs" if "(b, recs) \<in> set (rv_buckets v)" for b recs
    using that assms(1) jm_wf_get_iff [of "rv_buckets v" b recs] by (simp add: bucket_records_def)
  have entry: "(b, bucket_records v b) \<in> set (rv_buckets v)" if "bucket_records v b \<noteq> []" for b
    using that by (auto simp: bucket_records_def dest: jm_get_in_set split: option.splits)
  have "set (rv_seen v) = (\<Union>(b, recs) \<in> set (rv_buckets v). keyOf ` set recs)"
  proof (intro set_eqI iffI)
    fix k
    assume "k \<in> set (rv_seen v)"
    then obtain b r where r: "r \<in> set (bucket_records v b)" "keyOf r = k"
      using assms(6) by blast
    then have "(b, bucket_records v b) \<in> set (rv_buckets v)"
      by (intro entry) auto
    then show "k \<in> (\<Union>(b, recs) \<in> set (rv_buckets v). keyOf ` set recs)"
      using r by blast
  next
    fix k
    assume "k \<in> (\<Union>(b, recs) \<in> set (rv_buckets v). keyOf ` set recs)"
    then obtain b recs r where m: "(b, recs) \<in> set (rv_buckets v)" "r \<in> set recs" "k = keyOf r"
      by blast
    then show "k \<in> set (rv_seen v)"
      using assms(5) [of r b] get [OF m(1)] by simp
  qed
  moreover have "recs \<noteq> [] \<and> distinct (map keyOf recs) \<and> (\<forall>r \<in> set recs. ok_rec r \<and> bucketOf r = b \<and>
      declarationOfRecord r = declarationOfRecord (hd recs))" if "(b, recs) \<in> set (rv_buckets v)" for b recs
    using assms(3) [of b] assms(4) [of b] assms(5) [of _ b] get [OF that] that by auto
  ultimately show ?thesis
    using assms(1,2) unfolding view_ok_def by blast
qed

lemmas view_ok_simps = view_ok_def [THEN iffD1, THEN conjunct1]
  view_ok_def [THEN iffD1, THEN conjunct2, THEN conjunct1]

lemma view_nonempty: "view_ok v \<Longrightarrow> (b, []) \<notin> set (rv_buckets v)"
  unfolding view_ok_def by blast

lemma view_distinct: "view_ok v \<Longrightarrow> distinct (map keyOf (bucket_records v b))"
  using view_records(5) [of v "hd (bucket_records v b)" b] by (cases "bucket_records v b") auto

text \<open>Rearranging the records inside their buckets, or replacing some by others alike, keeps a view sound.\<close>

lemma view_ok_rearranged:
  assumes v: "view_ok v" and wf: "jm_wf (rv_buckets w)" and seen: "rv_seen w = rv_seen v"
    and ne: "\<And>b. (b, []) \<notin> set (rv_buckets w)"
    and keys: "\<And>b. mset (map keyOf (bucket_records w b)) = mset (map keyOf (bucket_records v b))"
    and alike: "\<And>b r. r \<in> set (bucket_records w b) \<Longrightarrow> ok_rec r \<and> bucketOf r = b \<and>
      (\<exists>x \<in> set (bucket_records v b). declarationOfRecord r = declarationOfRecord x)"
  shows "view_ok w"
proof (rule view_okI [OF wf _ ne])
  show "distinct (rv_seen w)"
    using view_ok_simps(2) [OF v] seen by simp
  show "distinct (map keyOf (bucket_records w b))" for b
    using view_distinct [OF v, of b] keys [of b] by (metis mset_eq_imp_distinct_iff)
  have kset: "keyOf ` set (bucket_records w b) = keyOf ` set (bucket_records v b)" for b
    using arg_cong [OF keys [of b], of set_mset] by simp
  show "\<exists>b. \<exists>r \<in> set (bucket_records w b). keyOf r = k" if "k \<in> set (rv_seen w)" for k
    using view_seen [OF v, of k] that seen kset by (metis imageE imageI)
  show "ok_rec r \<and> bucketOf r = b \<and> keyOf r \<in> set (rv_seen w) \<and>
      declarationOfRecord r = declarationOfRecord (hd (bucket_records w b))" if r: "r \<in> set (bucket_records w b)" for b r
  proof -
    have "declarationOfRecord x = declarationOfRecord (hd (bucket_records v b))" if "x \<in> set (bucket_records w b)" for x
      using alike [OF that] view_records(4) [OF v] by metis
    moreover have "hd (bucket_records w b) \<in> set (bucket_records w b)"
      using r by (auto intro: hd_in_set)
    moreover have "keyOf r \<in> set (rv_seen w)"
      using r kset [of b] seen view_records(3) [OF v, of _ b] by (metis imageE imageI)
    ultimately show ?thesis
      using alike [OF r] r by metis
  qed
qed

lemma find_at_Some: "find_at P xs = Some i \<Longrightarrow> i < length xs \<and> P (xs ! i)"
  by (induction xs arbitrary: i) (auto split: if_splits)

lemma find_at_None: "find_at P xs = None \<longleftrightarrow> (\<forall>x \<in> set xs. \<not> P x)"
  by (induction xs) auto

lemma same_record_index:
  assumes "ok_rec a" "ok_rec b" "sameRegistrationRecord a b"
  shows "a\<lparr>rr_index := rr_index b\<rparr> = b"
proof -
  have opt: "or_empty e = or_empty e' \<Longrightarrow> e \<noteq> Some [] \<Longrightarrow> e' \<noteq> Some [] \<Longrightarrow> e = e'" for e e'
    by (cases e; cases e') (auto simp: or_empty_def)
  have ne: "rr_engine r \<noteq> Some [] \<and> rr_statement r \<noteq> Some []" if "ok_rec r" for r
    using that by (auto simp: ok_rec_def ENGINE_STATEMENTS_def split: option.splits if_splits)
  show ?thesis
    using assms ne [OF assms(1)] ne [OF assms(2)] opt
    by (cases a; cases b) (auto simp: sameRegistrationRecord_def)
qed

lemma view_ok_collapse:
  assumes v: "view_ok (ld_view st)" and r: "ok_rec r" and c: "collapse r st = Inr st1"
  shows "view_ok (ld_view st1)" "rv_seen (ld_view st1) = rv_seen (ld_view st)" "ld_header st1 = ld_header st"
proof -
  let ?v = "ld_view st" and ?b = "bucketOf r"
  obtain i where i: "find_at (\<lambda>x. keyOf x = keyOf r) (bucket_records ?v ?b) = Some i"
      "sameRegistrationRecord (bucket_records ?v ?b ! i) r"
    and st1: "st1 = st\<lparr>ld_view := ?v\<lparr>rv_buckets := jm_set ?b ((bucket_records ?v ?b)[i := r]) (rv_buckets ?v)\<rparr>,
        ld_dups := Suc (ld_dups st)\<rparr>"
    using c by (auto simp: collapse_def Let_def split: option.splits if_splits)
  have at: "i < length (bucket_records ?v ?b)" "keyOf (bucket_records ?v ?b ! i) = keyOf r"
    using find_at_Some [OF i(1)] by simp_all
  have old: "bucket_records ?v ?b ! i \<in> set (bucket_records ?v ?b)"
    using at(1) by simp
  have "(bucket_records ?v ?b ! i)\<lparr>rr_index := rr_index r\<rparr> = r"
    using same_record_index [OF view_records(1) [OF v old] r i(2)] .
  then have dec: "declarationOfRecord r = declarationOfRecord (bucket_records ?v ?b ! i)"
    by (metis (no_types, lifting) declarationOfRecord_def reg_rec.select_convs(5,6) reg_rec.surjective reg_rec.update_convs(7))
  have recs: "bucket_records (ld_view st1) b = (if b = ?b then (bucket_records ?v ?b)[i := r] else bucket_records ?v b)" for b
    by (simp add: st1 bucket_records_def)
  show "view_ok (ld_view st1)"
  proof (rule view_ok_rearranged [OF v])
    show "jm_wf (rv_buckets (ld_view st1))"
      using view_ok_simps(1) [OF v] by (simp add: st1)
    show "rv_seen (ld_view st1) = rv_seen ?v"
      by (simp add: st1)
    have "[] \<noteq> (bucket_records ?v ?b)[i := r]"
      using at(1) by (metis length_list_update less_nat_zero_code list.size(3))
    then show "(b, []) \<notin> set (rv_buckets (ld_view st1))" for b
      using view_nonempty [OF v, of b] jm_set_set [OF view_ok_simps(1) [OF v]] by (auto simp: st1 jm_delete_def)
    have "map keyOf ((bucket_records ?v ?b)[i := r]) = map keyOf (bucket_records ?v ?b)"
      using at by (simp add: map_update list_update_same_conv)
    then show "mset (map keyOf (bucket_records (ld_view st1) b)) = mset (map keyOf (bucket_records ?v b))" for b
      using recs by (simp del: mset_map)
    show "ok_rec x \<and> bucketOf x = b \<and> (\<exists>y \<in> set (bucket_records ?v b). declarationOfRecord x = declarationOfRecord y)"
      if x: "x \<in> set (bucket_records (ld_view st1) b)" for b x
    proof (cases "x \<in> set (bucket_records ?v b)")
      case True
      then show ?thesis
        using view_records(1,2) [OF v True] by blast
    next
      case False
      then have "x = r" "b = ?b"
        using x recs set_update_subset_insert [of "bucket_records ?v ?b" i r] by (auto split: if_splits)
      then show ?thesis
        using r dec old by blast
    qed
  qed
  show "rv_seen (ld_view st1) = rv_seen ?v" "ld_header st1 = ld_header st"
    by (simp_all add: st1)
qed

lemma load_record_ok:
  assumes v: "view_ok (ld_view st)" and r: "ok_rec r" and c: "load_record r st = Inr st1"
  shows "view_ok (ld_view st1)" "set (rv_seen (ld_view st1)) = insert (keyOf r) (set (rv_seen (ld_view st)))"
    "ld_header st1 = ld_header st"
proof -
  have "view_ok (ld_view st1) \<and> set (rv_seen (ld_view st1)) = insert (keyOf r) (set (rv_seen (ld_view st))) \<and>
      ld_header st1 = ld_header st"
  proof (cases "keyOf r \<in> set (rv_seen (ld_view st))")
    case True
    then have "collapse r st = Inr st1"
      using c by (simp add: load_record_def)
    with view_ok_collapse [OF v r this] True show ?thesis
      by auto
  next
    case False
    then have "st1 = st\<lparr>ld_view := remember r (ld_view st)\<rparr>"
      "bucket_records (ld_view st) (bucketOf r) = [] \<or>
       declarationOfRecord (hd (bucket_records (ld_view st) (bucketOf r))) = declarationOfRecord r"
      using c by (auto simp: load_record_def Let_def split: list.splits if_splits)
    with view_ok_remember [OF v r False] show ?thesis
      by simp
  qed
  then show "view_ok (ld_view st1)" "set (rv_seen (ld_view st1)) = insert (keyOf r) (set (rv_seen (ld_view st)))"
    "ld_header st1 = ld_header st"
    by simp_all
qed

text \<open>The keys of the record lines, and whether a line is a schedule header.\<close>

definition is_header :: "json \<Rightarrow> bool" where
  "is_header j = (case j of J_schedule _ \<Rightarrow> True | _ \<Rightarrow> False)"

definition record_keys :: "json list \<Rightarrow> string set" where
  "record_keys js = (\<lambda>j. keyOf (record_of_json j)) ` {j \<in> set js. \<not> is_header j}"

lemma record_keys_simps [simp]:
  "record_keys [] = {}"
  "record_keys (j # js) = (if is_header j then {} else {keyOf (record_of_json j)}) \<union> record_keys js"
  "record_keys (as @ bs) = record_keys as \<union> record_keys bs"
  by (auto simp: record_keys_def)

lemma load_json_ok:
  assumes "view_ok (ld_view st)" "load_json sched j st = Inr st1"
  shows "view_ok (ld_view st1) \<and>
    set (rv_seen (ld_view st1)) = set (rv_seen (ld_view st)) \<union> record_keys [j] \<and>
    ld_header st1 = (ld_header st \<or> is_header j)"
proof (cases "is_header j")
  case True
  then show ?thesis
    using assms by (cases j) (auto simp: load_json_def is_header_def split: option.splits if_splits)
next
  case False
  then have "registrationRecordProblem j = None" "load_record (record_of_json j) st = Inr st1"
    using assms(2) by (cases j; auto simp: load_json_def is_header_def split: option.splits)+
  with load_record_ok [OF assms(1) record_of_json_ok] False show ?thesis
    by auto
qed

lemma load_jsons_ok:
  "view_ok (ld_view st) \<Longrightarrow> load_jsons sched js st = Inr st1 \<Longrightarrow> view_ok (ld_view st1) \<and>
    set (rv_seen (ld_view st1)) = set (rv_seen (ld_view st)) \<union> record_keys js \<and>
    ld_header st1 = (ld_header st \<or> list_ex is_header js)"
proof (induction js arbitrary: st)
  case (Cons j js)
  then obtain st2 where st2: "load_json sched j st = Inr st2" "load_jsons sched js st2 = Inr st1"
    by (auto split: sum.splits)
  with load_json_ok [OF Cons.prems(1) st2(1)] Cons.IH [OF _ st2(2)] show ?case
    by auto
qed simp

subsection \<open>The order of the leaves\<close>

definition sort_buckets :: "reg_view \<Rightarrow> reg_view" where
  "sort_buckets v = v\<lparr>rv_buckets := map (\<lambda>(b, recs). (b, sort_key rr_index recs)) (rv_buckets v)\<rparr>"

definition no_gaps :: "reg_view \<Rightarrow> bool" where
  "no_gaps v \<longleftrightarrow> list_all (\<lambda>(b, recs). list_all (\<lambda>r. rr_index r \<le> length recs) recs) (rv_buckets v)"

lemma last_sorted_max: "recs \<noteq> [] \<Longrightarrow>
   rr_index (last (sort_key rr_index recs)) \<le> n \<longleftrightarrow> list_all (\<lambda>r. rr_index r \<le> n) recs"
proof -
  assume ne: "recs \<noteq> []"
  let ?s = "sort_key rr_index recs"
  have s: "?s \<noteq> []"
    using ne by (metis length_0_conv length_sort)
  have "rr_index r \<le> rr_index (last ?s)" if "r \<in> set recs" for r
  proof -
    have "?s = butlast ?s @ [last ?s]"
      using s by simp
    moreover have "sorted (map rr_index ?s)" "r \<in> set ?s"
      using that by simp_all
    moreover have "rr_index x \<le> rr_index z" if "sorted (map rr_index (ys @ [z]))" "x \<in> set (ys @ [z])" for ys z x
      using that by (auto simp: sorted_append)
    ultimately show ?thesis
      by metis
  qed
  moreover have "last ?s \<in> set recs"
    using last_in_set [OF s] by simp
  ultimately show ?thesis
    unfolding list_all_iff by (blast intro: order_trans)
qed

lemma order_bucket_Inr: "order_bucket (b, recs) = Inr y \<longleftrightarrow>
    list_all (\<lambda>r. rr_index r \<le> length recs) recs \<and> y = (b, sort_key rr_index recs)"
proof (cases "recs = []")
  case False
  then have "sort_key rr_index recs \<noteq> []"
    by (metis length_0_conv length_sort)
  then show ?thesis
    using last_sorted_max [OF False, of "length recs"] by (auto simp: order_bucket_def Let_def not_le)
qed (auto simp: order_bucket_def)

lemma order_view_iff: "order_view v = Inr w \<longleftrightarrow> no_gaps v \<and> w = sort_buckets v"
proof -
  have "mapE order_bucket bs = Inr ys \<longleftrightarrow> list_all (\<lambda>(b, recs). list_all (\<lambda>r. rr_index r \<le> length recs) recs) bs \<and>
      ys = map (\<lambda>(b, recs). (b, sort_key rr_index recs)) bs" for bs ys
    by (induction bs arbitrary: ys) (auto simp: bindE_Inr order_bucket_Inr split_def)
  note eq = this
  show ?thesis
  proof (cases "mapE order_bucket (rv_buckets v)")
    case (Inl e)
    then have "\<not> no_gaps v"
      using eq [of "rv_buckets v"] by (auto simp: no_gaps_def)
    then show ?thesis
      using Inl by (simp add: order_view_def)
  next
    case (Inr bs)
    then show ?thesis
      using eq [of "rv_buckets v" bs] by (auto simp: order_view_def no_gaps_def sort_buckets_def)
  qed
qed

lemma jm_get_map_snd: "jm_get (map (\<lambda>(k, x). (k, f x)) m) k = map_option f (jm_get m k)"
  by (induction m) (auto simp: jm_get_def)

lemma jm_set_map_snd: "jm_set k (f x) (map (\<lambda>(k, x). (k, f x)) m) = map (\<lambda>(k, x). (k, f x)) (jm_set k x m)"
  by (induction k x m rule: jm_set.induct) auto

lemma bucket_records_sorted [simp]: "bucket_records (sort_buckets v) b = sort_key rr_index (bucket_records v b)"
  by (simp add: bucket_records_def sort_buckets_def jm_get_map_snd split: option.split)

lemma rv_seen_sort_buckets [simp]: "rv_seen (sort_buckets v) = rv_seen v"
  by (simp add: sort_buckets_def)

lemma no_gaps_bucket: "no_gaps v \<Longrightarrow> r \<in> set (bucket_records v b) \<Longrightarrow> rr_index r \<le> length (bucket_records v b)"
  by (cases "jm_get (rv_buckets v) b") (auto simp: no_gaps_def bucket_records_def list_all_iff dest!: jm_get_in_set)

lemma view_ok_sort_buckets [keep]:
  assumes "view_ok v"
  shows "view_ok (sort_buckets v)"
proof (rule view_ok_rearranged [OF assms])
  show "jm_wf (rv_buckets (sort_buckets v))"
    using view_ok_simps(1) [OF assms] by (simp add: sort_buckets_def jm_wf_def split_def comp_def)
  show "(b, []) \<notin> set (rv_buckets (sort_buckets v))" for b
  proof
    assume "(b, []) \<in> set (rv_buckets (sort_buckets v))"
    then obtain recs where "(b, recs) \<in> set (rv_buckets v)" "[] = sort_key rr_index recs"
      by (auto simp: sort_buckets_def)
    then show False
      using view_nonempty [OF assms] by (metis length_0_conv length_sort)
  qed
qed (use view_records [OF assms] in auto)

subsection \<open>A record appended after a load\<close>

lemma insort_key_snoc: "f y \<le> f x \<Longrightarrow> insort_key f y (zs @ [x]) = insort_key f y zs @ [x]"
  by (induction zs) auto

lemma sort_key_snoc: "(\<And>y. y \<in> set xs \<Longrightarrow> f y \<le> f x) \<Longrightarrow> sort_key f (xs @ [x]) = sort_key f xs @ [x]"
  by (induction xs) (auto simp: insort_key_snoc)

lemma sort_buckets_remember:
  assumes "no_gaps u" "rr_index r = length (bucket_records u (bucketOf r))"
  shows "sort_buckets (remember r u) = remember r (sort_buckets u)"
proof -
  let ?recs = "bucket_records u (bucketOf r)"
  have "sort_key rr_index (?recs @ [r]) = sort_key rr_index ?recs @ [r]"
    using no_gaps_bucket [OF assms(1)] assms(2) by (intro sort_key_snoc) simp
  moreover have "map (\<lambda>(b, recs). (b, sort_key rr_index recs)) (jm_set k x m) =
      jm_set k (sort_key rr_index x) (map (\<lambda>(b, recs). (b, sort_key rr_index recs)) m)" for k x and m :: "(string, reg_rec list) jsmap"
    using jm_set_map_snd [of k "sort_key rr_index" x m] by simp
  ultimately show ?thesis
    by (simp add: remember_def bucket_records_sorted [symmetric] del: bucket_records_sorted)
      (simp add: sort_buckets_def bucket_records_def jm_get_map_snd split: option.split)
qed

lemma no_gaps_remember:
  assumes "jm_wf (rv_buckets u)" "no_gaps u" "rr_index r = length (bucket_records u (bucketOf r))"
  shows "no_gaps (remember r u)"
proof -
  have "rr_index x \<le> Suc (length (bucket_records u (bucketOf r)))" if "x \<in> set (bucket_records u (bucketOf r))" for x
    using no_gaps_bucket [OF assms(2) that] by simp
  then show ?thesis
    using assms jm_set_set [OF assms(1)] by (auto simp: no_gaps_def remember_def list_all_iff jm_delete_def)
qed

text \<open>What a load of these JSON lines installs.\<close>

definition loads :: "string option \<Rightarrow> bool \<Rightarrow> json list \<Rightarrow> reg_view \<Rightarrow> bool" where
  "loads sched assumed js v \<longleftrightarrow>
     (case load_jsons sched js load_start of
        Inl _ \<Rightarrow> False
      | Inr st \<Rightarrow> order_view (ld_view st) = Inr v \<and> (ld_header st \<or> sched = None \<or> rv_seen v = [] \<or> assumed))"

lemma loadsE:
  assumes "loads sched asm js v"
  obtains st where "load_jsons sched js load_start = Inr st" "no_gaps (ld_view st)" "v = sort_buckets (ld_view st)"
    "view_ok (ld_view st)" "set (rv_seen (ld_view st)) = record_keys js" "ld_header st \<longleftrightarrow> list_ex is_header js"
    "ld_header st \<or> sched = None \<or> rv_seen (ld_view st) = [] \<or> asm"
proof -
  obtain st where st: "load_jsons sched js load_start = Inr st" "order_view (ld_view st) = Inr v"
      "ld_header st \<or> sched = None \<or> rv_seen v = [] \<or> asm"
    using assms by (auto simp: loads_def split: sum.splits)
  have start: "ld_view load_start = empty_view" "rv_seen empty_view = []" "ld_header load_start = False"
    by (simp_all add: load_start_def empty_view_def)
  have "view_ok (ld_view st) \<and> set (rv_seen (ld_view st)) = record_keys js \<and> ld_header st = list_ex is_header js"
    using load_jsons_ok [of load_start sched js st] st(1) view_ok_empty unfolding start by simp
  moreover have "no_gaps (ld_view st)" "v = sort_buckets (ld_view st)"
    using st(2) by (simp_all add: order_view_iff)
  ultimately show ?thesis
    using st(3) by (intro that [OF st(1)]) simp_all
qed

lemma loads_functional: "loads sched asm js v \<Longrightarrow> loads sched asm js w \<Longrightarrow> v = w"
  by (auto simp: loads_def split: sum.splits)

lemma loads_view_ok: "loads sched asm js v \<Longrightarrow> view_ok v"
  by (erule loadsE) (simp add: view_ok_sort_buckets)

lemma loads_seen: "loads sched asm js v \<Longrightarrow> set (rv_seen v) = record_keys js"
  by (erule loadsE) simp

lemma loads_empty [simp]: "loads sched asm [] v \<longleftrightarrow> v = empty_view"
  by (auto simp: loads_def load_start_def order_view_iff no_gaps_def sort_buckets_def empty_view_def)

text \<open>
  The record the append path wrote after a view was loaded: the next load puts it exactly where the
  live view put it, at the end of its bucket.
\<close>

lemma loads_appended:
  assumes l: "loads sched asm js v" and d: "decide_append d v = Inr r" "valid_req d"
    and h: "list_ex is_header js \<or> sched = None \<or> asm"
  shows "loads sched asm (js @ [json_of_record r]) (remember r v)"
proof -
  obtain st where st: "load_jsons sched js load_start = Inr st" "no_gaps (ld_view st)" "v = sort_buckets (ld_view st)"
      "view_ok (ld_view st)" "ld_header st \<longleftrightarrow> list_ex is_header js"
    using l by (elim loadsE) auto
  let ?u = "ld_view st"
  have r: "ok_rec r"
    using decide_cases(1) [OF d(1)] ok_rec_record_at [OF d(2)] by metis
  have new: "keyOf r \<notin> set (rv_seen ?u)"
    using decide_cases(2) [OF d(1)] st(3) by simp
  have index: "rr_index r = length (bucket_records ?u (bucketOf r))"
    using decide_cases(1) [OF d(1)] st(3) by (metis bucket_records_sorted length_sort rr_index_record_at)
  have decl: "declarationOfRecord x = declarationOfRecord r" if "x \<in> set (bucket_records ?u (bucketOf r))" for x
  proof -
    have x: "x \<in> set (bucket_records v (bucketOf r))"
      using that st(3) by simp
    then have "bucket_records v (bucketOf r) \<noteq> []"
      by auto
    then show ?thesis
      using decide_cases(3) [OF d(1)] view_records(4) [OF loads_view_ok [OF l] x] by simp
  qed
  have "load_record r st = Inr (st\<lparr>ld_view := remember r ?u\<rparr>)"
    using new decl by (auto simp: load_record_def Let_def split: list.split)
  moreover have "json_of_record r \<noteq> J_schedule s" for s
    by (simp add: json_of_record_def)
  ultimately have "load_json sched (json_of_record r) st = Inr (st\<lparr>ld_view := remember r ?u\<rparr>)"
    using json_of_record_ok [OF r] by (auto simp: load_json_def json_of_record_def)
  moreover have "order_view (remember r ?u) = Inr (remember r v)"
    using sort_buckets_remember [OF st(2) index] no_gaps_remember [OF view_ok_simps(1) [OF st(4)] st(2) index] st(3)
    by (simp add: order_view_iff)
  ultimately show ?thesis
    using st(1,5) h by (auto simp: loads_def load_jsons_append)
qed

lemma loads_header:
  assumes "loads (Some s) asm js v"
  shows "loads (Some s) asm (js @ [J_schedule s]) v"
  using assms by (auto simp: loads_def load_jsons_append load_json_def split: sum.splits)

subsection \<open>A load that returns has read every line\<close>

definition shaped :: "bool \<Rightarrow> content \<Rightarrow> bool" where
  "shaped nl ls \<longleftrightarrow> L_bad \<notin> set ls \<or> \<not> nl \<and> (\<exists>as bs. ls = as @ L_bad # bs \<and> L_bad \<notin> set as \<and> list_all blank bs)"

lemma shaped_simps [simp]:
  "shaped nl []" "l \<noteq> L_bad \<Longrightarrow> shaped nl (l # ls) \<longleftrightarrow> shaped nl ls"
  "shaped nl (L_bad # ls) \<longleftrightarrow> \<not> nl \<and> list_all blank ls"
proof -
  show "shaped nl []"
    by (simp add: shaped_def)
  show "shaped nl (l # ls) \<longleftrightarrow> shaped nl ls" if good: "l \<noteq> L_bad"
  proof -
    have "(\<exists>as bs. l # ls = as @ L_bad # bs \<and> L_bad \<notin> set as \<and> list_all blank bs) \<longleftrightarrow>
        (\<exists>as bs. ls = as @ L_bad # bs \<and> L_bad \<notin> set as \<and> list_all blank bs)"
    proof
      assume "\<exists>as bs. l # ls = as @ L_bad # bs \<and> L_bad \<notin> set as \<and> list_all blank bs"
      then obtain as bs where a: "l # ls = as @ L_bad # bs" "L_bad \<notin> set as" "list_all blank bs"
        by blast
      then obtain as' where "as = l # as'"
        using good a(1) by (cases as) auto
      then show "\<exists>as bs. ls = as @ L_bad # bs \<and> L_bad \<notin> set as \<and> list_all blank bs"
        using a by auto
    next
      assume "\<exists>as bs. ls = as @ L_bad # bs \<and> L_bad \<notin> set as \<and> list_all blank bs"
      then obtain as bs where a: "ls = as @ L_bad # bs" "L_bad \<notin> set as" "list_all blank bs"
        by blast
      then have "l # ls = (l # as) @ L_bad # bs" "L_bad \<notin> set (l # as)"
        using that by auto
      then show "\<exists>as bs. l # ls = as @ L_bad # bs \<and> L_bad \<notin> set as \<and> list_all blank bs"
        using a(3) by blast
    qed
    then show ?thesis
      using that by (auto simp: shaped_def)
  qed
  show "shaped nl (L_bad # ls) \<longleftrightarrow> \<not> nl \<and> list_all blank ls"
  proof
    assume "shaped nl (L_bad # ls)"
    then obtain as bs where "\<not> nl" "L_bad # ls = as @ L_bad # bs" "L_bad \<notin> set as" "list_all blank bs"
      by (auto simp: shaped_def)
    then show "\<not> nl \<and> list_all blank ls"
      by (cases as) auto
  next
    assume "\<not> nl \<and> list_all blank ls"
    then have "\<not> nl \<and> L_bad # ls = [] @ L_bad # ls \<and> L_bad \<notin> set [] \<and> list_all blank ls"
      by simp
    then show "shaped nl (L_bad # ls)"
      unfolding shaped_def by blast
  qed
qed

lemma first_bad_simps [simp]:
  "first_bad [] = None" "first_bad (L_bad # ls) = Some 0" "l \<noteq> L_bad \<Longrightarrow> first_bad (l # ls) = map_option Suc (first_bad ls)"
  by (simp_all add: first_bad_def)

lemma map_option_Suc_add: "map_option ((+) i) (map_option Suc x) = map_option ((+) (Suc i)) x"
  by (cases x) auto

lemma load_loop_iff: "load_loop sched nl i ls st = Inr (st1, t) \<longleftrightarrow>
    shaped nl ls \<and> load_jsons sched (jsons ls) st = Inr st1 \<and> t = map_option ((+) i) (first_bad ls)"
proof (induction sched nl i ls st rule: load_loop.induct)
  case (4 sched nl i ls st)
  then show ?case
    by (auto simp: jsons_blank)
next
  case (5 sched nl i j ls st)
  show ?case
  proof (cases "load_json sched j st")
    case (Inr st2)
    with "5.IH" [OF Inr] show ?thesis
      by (simp only: load_loop.simps sum.case jsons_simps load_jsons.simps first_bad_simps shaped_simps
          map_option_Suc_add simp_thms fline.simps)
  qed simp
qed (simp_all only: load_loop.simps jsons_simps load_jsons.simps first_bad_simps shaped_simps
    map_option_Suc_add fline.simps option.map simp_thms sum.inject prod.inject not_False_eq_True, auto)

lemma FileBackend_load_result:
  assumes "FileBackend_load io left sched asm de f = (f', de', Inr v)"
  shows "shaped (ends_newline (fl_lines f)) (fl_lines f)" "loads sched asm (jsons (fl_lines f)) v"
proof -
  have "shaped (ends_newline (fl_lines f)) (fl_lines f) \<and> loads sched asm (jsons (fl_lines f)) v"
    using assms
    by (auto simp: FileBackend_load_def load_loop_iff Let_def loads_def order_view_iff
        split: if_splits sum.splits prod.splits)
  then show "shaped (ends_newline (fl_lines f)) (fl_lines f)" "loads sched asm (jsons (fl_lines f)) v"
    by simp_all
qed

text \<open>A load that succeeds has read the whole file. No line but a torn last one was malformed,
  every record line's key is in the view and no other is, every record of the view is sound and in
  its own bucket, one declaration per bucket, and each bucket stands in leaf order without a gap
  that a later append could move.\<close>

lemma load_reads_every_record:
  assumes "FileBackend_load io left sched asm de f = (f', de', Inr v)"
  shows "shaped (ends_newline (fl_lines f)) (fl_lines f) \<and> view_ok v \<and>
     set (rv_seen v) = record_keys (jsons (fl_lines f)) \<and>
     (\<forall>b. sorted (map rr_index (bucket_records v b)) \<and>
       list_all (\<lambda>r. rr_index r \<le> length (bucket_records v b)) (bucket_records v b))"
proof -
  note l = FileBackend_load_result [OF assms]
  obtain st :: load_state where "no_gaps (ld_view st)" "v = sort_buckets (ld_view st)"
    using l(2) by (rule loadsE) blast
  then have "sorted (map rr_index (bucket_records v b)) \<and>
       list_all (\<lambda>r. rr_index r \<le> length (bucket_records v b)) (bucket_records v b)" for b
    using no_gaps_bucket by (simp add: list_all_iff)
  then show ?thesis
    using l(1) loads_view_ok [OF l(2)] loads_seen [OF l(2)] by blast
qed

lemma load_json_record: "ok_rec r \<Longrightarrow> load_json sched (json_of_record r) st = load_record r st"
  using json_of_record_ok [of r] by (simp add: load_json_def json_of_record_def)

text \<open>Two copies of one registration, another between them, and a torn tail.\<close>

definition demo_record :: "nat \<Rightarrow> nat \<Rightarrow> reg_rec" where
  "demo_record n i = record_at (request_of_call (demo_call n ''zkvm'')) i"

lemma demo_record_ok: "n < 1000 \<Longrightarrow> ok_rec (demo_record n i)"
  unfolding demo_record_def by (intro ok_rec_record_at valid_request_of_call demo_call_ok) auto

lemma demo_record_simps [simp]:
  "keyOf (demo_record n i) = keyOf (demo_record m j) \<longleftrightarrow> n = m" "rr_index (demo_record n i) = i"
  "bucketOf (demo_record n i) = bucketName 3 (dec_of_nat 4)"
  "declarationOfRecord (demo_record n i) = \<lparr>dc_engine = ''zkvm'', dc_statement = ''derive''\<rparr>"
  "sameRegistrationRecord (demo_record n i) (demo_record n j)"
  using dec_of_nat_no_colon
  by (simp_all add: demo_record_def demo_call_def request_of_call_def field_string_def keyName_inject record_at_def
      sameRegistrationRecord_def bucketOf_def declarationOfRecord_def keyOf_def)

definition demo_file :: reg_file where
  "demo_file = \<lparr>fl_lines = [L_json (J_schedule ''1:2''), L_json (json_of_record (demo_record 7 0)),
      L_json (json_of_record (demo_record 8 0)), L_json (json_of_record (demo_record 7 1)), L_bad],
    fl_forced = 4, fl_linked = True\<rparr>"

lemma demo_file_loads: "FileBackend_load (\<lambda>_. True) W_nothing (Some ''1:2'') False False demo_file =
    (demo_file\<lparr>fl_lines := [L_json (J_schedule ''1:2''), L_json (json_of_record (demo_record 7 0)),
      L_json (json_of_record (demo_record 8 0)), L_json (json_of_record (demo_record 7 1)), L_empty]\<rparr>, True,
     Inr \<lparr>rv_seen = [keyOf (demo_record 7 0), keyOf (demo_record 8 0)],
          rv_buckets = [(bucketName 3 (dec_of_nat 4), [demo_record 8 0, demo_record 7 1])]\<rparr>)"
proof -
  have header: "load_json (Some ''1:2'') (J_schedule ''1:2'') st = Inr (st\<lparr>ld_header := True\<rparr>)" for st
    by (simp add: load_json_def)
  have "load_loop (Some ''1:2'') False 0 (fl_lines demo_file) load_start =
      Inr (\<lparr>ld_view = \<lparr>rv_seen = [keyOf (demo_record 7 0), keyOf (demo_record 8 0)],
          rv_buckets = [(bucketName 3 (dec_of_nat 4), [demo_record 7 1, demo_record 8 0])]\<rparr>, ld_dups = 1, ld_header = True\<rparr>,
        Some 4)"
    by (simp add: demo_file_def header load_json_record demo_record_ok load_record_def load_start_def empty_view_def
        bucket_records_def remember_def jm_get_def collapse_def Let_def)
  moreover have "\<not> ends_newline (fl_lines demo_file)"
    by (simp add: demo_file_def ends_newline_def)
  moreover have "order_view \<lparr>rv_seen = [keyOf (demo_record 7 0), keyOf (demo_record 8 0)],
      rv_buckets = [(bucketName 3 (dec_of_nat 4), [demo_record 7 1, demo_record 8 0])]\<rparr> =
      Inr \<lparr>rv_seen = [keyOf (demo_record 7 0), keyOf (demo_record 8 0)],
          rv_buckets = [(bucketName 3 (dec_of_nat 4), [demo_record 8 0, demo_record 7 1])]\<rparr>"
    by (simp add: order_view_iff no_gaps_def sort_buckets_def)
  ultimately show ?thesis
    by (simp add: FileBackend_load_def repair_tail_def truncate_at_def write_header_def flush_directories_def)
      (simp add: demo_file_def)
qed

theorem load_reads_every_record_witness:
  "\<exists>v. snd (snd (FileBackend_load (\<lambda>_. True) W_nothing (Some ''1:2'') False False demo_file)) = Inr v \<and> view_ok v"
  using load_reads_every_record [OF demo_file_loads] unfolding demo_file_loads by simp

end
