(* ===== verification/Reg_File.thy ===== *)
theory Reg_File
  imports Reg_Load
begin

section \<open>The durable registration log as a process (core/registration_store.js, FileBackend)\<close>

text \<open>
  One gateway process over one file. The steps are the awaits of \<open>#appendOne\<close>, of the
  reconciliation any caller may start, and of the first load; each file system call may fail, a
  failed write may leave part of its line, the process may be killed (the page cache stays) and the
  machine may lose power (unforced bytes, and a directory entry never flushed, may go).
  \<open>fb_told\<close> is what the callers of \<open>append\<close> were told.
\<close>

subsection \<open>State\<close>

datatype append_phase =
    P_idle
  | P_opening reg_req reg_rec
  | P_writing reg_req reg_rec
  | P_syncing reg_req reg_rec
  | P_closing reg_req reg_rec
  | P_closing_failed reg_req reg_rec
  | P_retry reg_req reg_rec
  | P_waiting reg_req reg_rec

record fb_state =
  fb_file :: reg_file
  fb_view :: reg_view
  fb_loaded :: bool
  fb_stale :: bool
  fb_unbarriered :: bool
  fb_dirEnsured :: bool
  fb_reconciling :: bool
  fb_phase :: append_phase
  fb_told :: "(reg_req \<times> append_outcome) list"

definition fb_clear :: "fb_state \<Rightarrow> bool" where
  "fb_clear s \<longleftrightarrow> \<not> fb_stale s \<and> \<not> fb_unbarriered s"

definition mark :: "fb_state \<Rightarrow> fb_state" where
  "mark s = s\<lparr>fb_stale := True, fb_unbarriered := True\<rparr>"

definition tell :: "reg_req \<Rightarrow> append_outcome \<Rightarrow> fb_state \<Rightarrow> fb_state" where
  "tell d out s = s\<lparr>fb_phase := P_idle, fb_told := fb_told s @ [(d, out)]\<rparr>"

definition reject :: "fb_state \<Rightarrow> fb_state" where
  "reject s = s\<lparr>fb_phase := P_idle\<rparr>"

definition on_file :: "(reg_file \<Rightarrow> reg_file) \<Rightarrow> fb_state \<Rightarrow> fb_state" where
  "on_file f s = s\<lparr>fb_file := f (fb_file s)\<rparr>"

definition written :: "write_left \<Rightarrow> reg_rec \<Rightarrow> reg_file \<Rightarrow> reg_file" where
  "written left r f = f\<lparr>fl_lines := write_line left (json_of_record r) (fl_lines f)\<rparr>"

subsection \<open>Reconciliation\<close>

text \<open>What an append that waited for the reconciliation answers: the record it finds under its key.\<close>

definition settle_waiter :: "reg_rec \<Rightarrow> reg_view \<Rightarrow> append_outcome option" where
  "settle_waiter r v =
     (case find (\<lambda>x. keyOf x = keyOf r) (bucket_records v (bucketOf r)) of
        None \<Rightarrow> None
      | Some found \<Rightarrow> if sameRegistrationRecord found r then Some (Appended (rr_index found)) else Some Duplicate)"

definition release_waiter :: "reg_view option \<Rightarrow> fb_state \<Rightarrow> fb_state" where
  "release_waiter result s =
     (case fb_phase s of
        P_waiting d r \<Rightarrow>
          (case result of
             None \<Rightarrow> reject s
           | Some v \<Rightarrow> (case settle_waiter r v of None \<Rightarrow> reject s | Some out \<Rightarrow> tell d out s))
      | _ \<Rightarrow> s)"

definition barrierThenLoad_barrier :: "bool \<Rightarrow> fb_state \<Rightarrow> fb_state" where
  "barrierThenLoad_barrier ok s =
     (if \<not> fb_unbarriered s then s\<lparr>fb_reconciling := True\<rparr>
      else if ok then (on_file barrier s)\<lparr>fb_reconciling := True\<rparr>
      else release_waiter None (s\<lparr>fb_stale := True\<rparr>))"

definition reconcile_load :: "string \<Rightarrow> bool \<Rightarrow> (io_step \<Rightarrow> bool) \<Rightarrow> write_left \<Rightarrow> fb_state \<Rightarrow> fb_state" where
  "reconcile_load sched assumeSchedule io left s =
     (case FileBackend_load io left (Some sched) assumeSchedule (fb_dirEnsured s) (fb_file s) of
        (f, de, Inr v) \<Rightarrow> release_waiter (Some v)
          (s\<lparr>fb_file := f, fb_dirEnsured := de, fb_view := v, fb_stale := False, fb_unbarriered := False,
             fb_reconciling := False\<rparr>)
      | (f, de, Inl e) \<Rightarrow> release_waiter None
          (s\<lparr>fb_file := f, fb_dirEnsured := de, fb_stale := True, fb_reconciling := False\<rparr>))"

definition ready_load :: "string \<Rightarrow> bool \<Rightarrow> (io_step \<Rightarrow> bool) \<Rightarrow> write_left \<Rightarrow> fb_state \<Rightarrow> fb_state" where
  "ready_load sched assumeSchedule io left s =
     (case FileBackend_load io left (Some sched) assumeSchedule (fb_dirEnsured s) (fb_file s) of
        (f, de, Inr v) \<Rightarrow> s\<lparr>fb_file := f, fb_dirEnsured := de, fb_view := v, fb_loaded := True\<rparr>
      | (f, de, Inl e) \<Rightarrow> s\<lparr>fb_file := f, fb_dirEnsured := de\<rparr>)"

subsection \<open>Crashes\<close>

definition restarted :: "reg_file \<Rightarrow> fb_state \<Rightarrow> fb_state" where
  "restarted f s = \<lparr>fb_file = f, fb_view = empty_view, fb_loaded = False, fb_stale = False, fb_unbarriered = False,
     fb_dirEnsured = False, fb_reconciling = False, fb_phase = P_idle, fb_told = fb_told s\<rparr>"

text \<open>
  What may be on the disk after power is lost: every forced line, then any number of the lines
  after them, the last of these possibly torn or missing its newline.
\<close>

definition power_lost :: "reg_file \<Rightarrow> nat \<Rightarrow> fline \<Rightarrow> reg_file" where
  "power_lost f k x = f\<lparr>fl_lines := take k (fl_lines f) @ [x], fl_forced := k\<rparr>"

definition survives :: "reg_file \<Rightarrow> nat \<Rightarrow> fline \<Rightarrow> bool" where
  "survives f k x \<longleftrightarrow> fl_forced f \<le> k \<and> k < length (fl_lines f) \<and> (x = L_empty \<or> x = L_bad \<or> x = fl_lines f ! k)"

definition no_file :: reg_file where
  "no_file = \<lparr>fl_lines = [L_empty], fl_forced = 0, fl_linked = False\<rparr>"

subsection \<open>Steps\<close>

text \<open>
  The decision at the head of \<open>#appendOne\<close>, taken once \<open>#ready\<close> returned: the file backend has its own copy of the
  duplicate check, the declaration check and the choice of the index.
\<close>

definition appendOne_decide :: "reg_req \<Rightarrow> reg_view \<Rightarrow> append_outcome + reg_rec" where
  "appendOne_decide d v =
     (let k = keyOf (record_at d 0) in
      if k \<in> set (rv_seen v) then Inl Duplicate
      else let recs = bucket_records v (bucketOf (record_at d 0));
               want = declarationOfRecord (record_at d 0) in
           if recs \<noteq> [] \<and> \<not> sameDeclaration (declarationOfRecord (hd recs)) want
           then Inl (Conflict (declarationOfRecord (hd recs)))
           else let index = length recs in Inr (record_at d index))"

lemma appendOne_decides [simp]: "appendOne_decide d v = decide_append d v"
  by (simp add: appendOne_decide_def decide_append_def Let_def split: list.split)

inductive fb_step :: "string \<Rightarrow> bool \<Rightarrow> fb_state \<Rightarrow> fb_state \<Rightarrow> bool" for sched asm where
  fb_load: "\<not> fb_loaded s \<Longrightarrow> fb_step sched asm s (ready_load sched asm io left s)"
| fb_refuse: "fb_loaded s \<Longrightarrow> fb_clear s \<Longrightarrow> fb_phase s = P_idle \<Longrightarrow> valid_req d \<Longrightarrow>
    appendOne_decide d (fb_view s) = Inl out \<Longrightarrow> fb_step sched asm s (tell d out s)"
| fb_begin: "fb_loaded s \<Longrightarrow> fb_clear s \<Longrightarrow> fb_phase s = P_idle \<Longrightarrow> valid_req d \<Longrightarrow>
    appendOne_decide d (fb_view s) = Inr r \<Longrightarrow> fb_step sched asm s (s\<lparr>fb_phase := P_opening d r\<rparr>)"
| fb_open: "fb_phase s = P_opening d r \<Longrightarrow> fb_step sched asm s (s\<lparr>fb_phase := P_writing d r\<rparr>)"
| fb_open_fails: "fb_phase s = P_opening d r \<Longrightarrow> fb_step sched asm s (mark (s\<lparr>fb_phase := P_retry d r\<rparr>))"
| fb_write: "fb_phase s = P_writing d r \<Longrightarrow>
    fb_step sched asm s (on_file (written W_whole r) (s\<lparr>fb_phase := P_syncing d r\<rparr>))"
| fb_write_fails: "fb_phase s = P_writing d r \<Longrightarrow>
    fb_step sched asm s (mark (on_file (written left r) (s\<lparr>fb_phase := P_closing_failed d r\<rparr>)))"
| fb_sync: "fb_phase s = P_syncing d r \<Longrightarrow>
    fb_step sched asm s (on_file barrier (s\<lparr>fb_phase := P_closing d r, fb_view := remember r (fb_view s)\<rparr>))"
| fb_sync_fails: "fb_phase s = P_syncing d r \<Longrightarrow> fb_step sched asm s (mark (s\<lparr>fb_phase := P_closing_failed d r\<rparr>))"
| fb_close: "fb_phase s = P_closing d r \<Longrightarrow> fb_step sched asm s (tell d (Appended (rr_index r)) s)"
| fb_close_fails: "fb_phase s = P_closing d r \<Longrightarrow> fb_step sched asm s (mark (s\<lparr>fb_phase := P_retry d r\<rparr>))"
| fb_closed_failed: "fb_phase s = P_closing_failed d r \<Longrightarrow> fb_step sched asm s (mark (s\<lparr>fb_phase := P_retry d r\<rparr>))"
| fb_retry_fails: "fb_phase s = P_retry d r \<Longrightarrow> fb_step sched asm s (reject s)"
| fb_retry_close_fails: "fb_phase s = P_retry d r \<Longrightarrow> fb_step sched asm s (on_file barrier (reject s))"
| fb_retry: "fb_phase s = P_retry d r \<Longrightarrow> fb_step sched asm s (on_file barrier (s\<lparr>fb_phase := P_waiting d r\<rparr>))"
| fb_reconcile: "fb_loaded s \<Longrightarrow> \<not> fb_reconciling s \<Longrightarrow> \<not> fb_clear s \<or> (\<exists>d r. fb_phase s = P_waiting d r) \<Longrightarrow>
    fb_step sched asm s (barrierThenLoad_barrier ok s)"
| fb_reconciled: "fb_reconciling s \<Longrightarrow> fb_step sched asm s (reconcile_load sched asm io left s)"
| fb_kill: "fb_step sched asm s (restarted (fb_file s) s)"
| fb_power: "survives (fb_file s) k x \<Longrightarrow> fb_step sched asm s (restarted (power_lost (fb_file s) k x) s)"
| fb_power_unlinked: "\<not> fl_linked (fb_file s) \<Longrightarrow> fb_step sched asm s (restarted no_file s)"

definition fb_start :: fb_state where
  "fb_start = \<lparr>fb_file = no_file, fb_view = empty_view, fb_loaded = False, fb_stale = False, fb_unbarriered = False,
     fb_dirEnsured = False, fb_reconciling = False, fb_phase = P_idle, fb_told = []\<rparr>"

inductive fb_reach :: "string \<Rightarrow> bool \<Rightarrow> fb_state \<Rightarrow> bool" for sched asm where
  fb_reach_start: "fb_reach sched asm fb_start"
| fb_reach_step: "fb_reach sched asm s \<Longrightarrow> fb_step sched asm s t \<Longrightarrow> fb_reach sched asm t"

subsection \<open>Files that load, whatever is lost\<close>

definition forced_jsons :: "reg_file \<Rightarrow> json list" where
  "forced_jsons f = jsons (take (fl_forced f) (fl_lines f))"

definition may_remain :: "reg_file \<Rightarrow> nat \<Rightarrow> bool" where
  "may_remain f k \<longleftrightarrow> fl_forced f \<le> k \<and> k \<le> length (fl_lines f)"

definition good :: "string \<Rightarrow> bool \<Rightarrow> reg_file \<Rightarrow> bool" where
  "good sched asm f \<longleftrightarrow> L_bad \<notin> set (butlast (fl_lines f)) \<and> fl_forced f < length (fl_lines f) \<and>
     (\<forall>k. may_remain f k \<longrightarrow> (\<exists>v. loads (Some sched) asm (jsons (take k (fl_lines f))) v)) \<and>
     (last (fl_lines f) = L_bad \<longrightarrow> list_all is_header (jsons (drop (fl_forced f) (fl_lines f))))"

text \<open>\<open>P\<close> holds of the view of whatever part of the file a crash may leave.\<close>

definition safe :: "string \<Rightarrow> bool \<Rightarrow> (reg_view \<Rightarrow> bool) \<Rightarrow> reg_file \<Rightarrow> bool" where
  "safe sched asm P f \<longleftrightarrow> (\<forall>k v. may_remain f k \<longrightarrow> loads (Some sched) asm (jsons (take k (fl_lines f))) v \<longrightarrow> P v)"

text \<open>\<open>g\<close> may be left only with what \<open>f\<close> may be left with, and more schedule headers.\<close>

definition within :: "string \<Rightarrow> reg_file \<Rightarrow> reg_file \<Rightarrow> bool" where
  "within sched f g \<longleftrightarrow> (\<forall>k. may_remain g k \<longrightarrow> (\<exists>m n. may_remain f m \<and>
     jsons (take k (fl_lines g)) = jsons (take m (fl_lines f)) @ replicate n (J_schedule sched)))"

definition settled :: "string \<Rightarrow> bool \<Rightarrow> reg_file \<Rightarrow> reg_view \<Rightarrow> bool" where
  "settled sched asm f v \<longleftrightarrow> last (fl_lines f) = L_empty \<and> list_all is_header (jsons (drop (fl_forced f) (fl_lines f))) \<and>
     list_ex is_header (jsons (fl_lines f)) \<and> loads (Some sched) asm (forced_jsons f) v"

lemma within_refl [simp]: "within sched f f"
  unfolding within_def by (metis append.right_neutral replicate_0)

lemma within_trans: "within sched f g \<Longrightarrow> within sched g h \<Longrightarrow> within sched f h"
  unfolding within_def by (metis append.assoc replicate_add)

lemma loads_headers_iff: "loads (Some s) asm js v \<Longrightarrow> loads (Some s) asm (js @ replicate n (J_schedule s)) w \<longleftrightarrow> w = v"
proof -
  assume v: "loads (Some s) asm js v"
  have "loads (Some s) asm (js @ replicate n (J_schedule s)) v"
  proof (induction n)
    case (Suc n)
    have "js @ replicate (Suc n) (J_schedule s) = (js @ replicate n (J_schedule s)) @ [J_schedule s]"
      by (simp add: replicate_append_same)
    then show ?case
      using loads_header [OF Suc] by simp
  qed (use v in simp)
  then show ?thesis
    using loads_functional by blast
qed

lemma within_loads:
  assumes "within sched f g" "good sched asm f" "may_remain g k"
  shows "\<exists>m v. may_remain f m \<and> loads (Some sched) asm (jsons (take m (fl_lines f))) v \<and>
    loads (Some sched) asm (jsons (take k (fl_lines g))) v"
proof -
  obtain m n where m: "may_remain f m" "jsons (take k (fl_lines g)) = jsons (take m (fl_lines f)) @ replicate n (J_schedule sched)"
    using assms(1,3) unfolding within_def by blast
  moreover obtain v where "loads (Some sched) asm (jsons (take m (fl_lines f))) v"
    using assms(2) m(1) unfolding good_def by blast
  ultimately show ?thesis
    using loads_headers_iff by metis
qed

lemma within_safe: "within sched f g \<Longrightarrow> good sched asm f \<Longrightarrow> safe sched asm P f \<Longrightarrow> safe sched asm P g"
  unfolding safe_def by (metis within_loads loads_functional)

lemma safe_mono: "safe sched asm P f \<Longrightarrow> (\<And>v. P v \<Longrightarrow> Q v) \<Longrightarrow> safe sched asm Q f"
  by (auto simp: safe_def)

lemma goodI:
  assumes "within sched f g" "good sched asm f"
    and "L_bad \<notin> set (butlast (fl_lines g))" "fl_forced g < length (fl_lines g)"
    and "last (fl_lines g) = L_bad \<Longrightarrow> list_all is_header (jsons (drop (fl_forced g) (fl_lines g)))"
  shows "good sched asm g"
  using assms within_loads [OF assms(1,2)] unfolding good_def by blast

subsection \<open>Writing one line\<close>

lemma last_empty_snoc: "ls \<noteq> [] \<Longrightarrow> last ls = L_empty \<Longrightarrow> \<exists>ls0. ls = ls0 @ [L_empty]"
  by (metis append_butlast_last_id)

lemma write_line_snoc [simp]:
  "write_line W_nothing j ls = ls"
  "write_line W_torn j (ls @ [L_empty]) = ls @ [L_bad]"
  "write_line W_unended j (ls @ [L_empty]) = ls @ [L_json j]"
  "write_line W_whole j (ls @ [L_empty]) = ls @ [L_json j, L_empty]"
  by (simp_all add: write_line_def append_line_def glue_def blank_def)

lemma write_line_take:
  assumes "fl_lines f = ls @ [L_empty]" "may_remain (f\<lparr>fl_lines := write_line left j (fl_lines f)\<rparr>) k"
    "fl_forced f < length (fl_lines f)"
  shows "(may_remain f k \<and> jsons (take k (write_line left j (fl_lines f))) = jsons (take k (fl_lines f))) \<or>
    (length ls < k \<and> jsons (take k (write_line left j (fl_lines f))) = jsons (fl_lines f) @ [j])"
proof (cases "k \<le> length ls")
  case True
  have "take k (write_line left j (fl_lines f)) = take k (fl_lines f)"
    using True by (cases left) (simp_all add: assms(1))
  then show ?thesis
    using True assms(1,2) by (auto simp: may_remain_def)
next
  case False
  then have "k = Suc (length ls) \<or> k = Suc (Suc (length ls)) \<and> left = W_whole"
    using assms(1,2) by (cases left) (auto simp: may_remain_def)
  then show ?thesis
    using assms(1,3) False by (cases left) (auto simp: may_remain_def)
qed

lemma good_lengths:
  assumes "good sched asm f"
  shows "fl_forced f < length (fl_lines f)" "fl_lines f \<noteq> []" "may_remain f (length (fl_lines f))"
    "may_remain f (fl_forced f)" "\<exists>v. loads (Some sched) asm (jsons (fl_lines f)) v"
    "\<exists>v. loads (Some sched) asm (forced_jsons f) v"
proof -
  show l: "fl_forced f < length (fl_lines f)"
    using assms by (simp add: good_def)
  then show "fl_lines f \<noteq> []" and m: "may_remain f (length (fl_lines f))" "may_remain f (fl_forced f)"
    by (auto simp: may_remain_def)
  show "\<exists>v. loads (Some sched) asm (jsons (fl_lines f)) v" "\<exists>v. loads (Some sched) asm (forced_jsons f) v"
    using assms m unfolding good_def forced_jsons_def by (metis order_refl take_all, blast)
qed

lemma good_written:
  assumes f: "good sched asm f" "fl_lines f = ls @ [L_empty]" "list_all is_header (jsons (drop (fl_forced f) (fl_lines f)))"
    and l: "\<exists>v. loads (Some sched) asm (jsons (fl_lines f) @ [j]) v"
  shows "good sched asm (f\<lparr>fl_lines := write_line left j (fl_lines f)\<rparr>)"
proof -
  let ?g = "f\<lparr>fl_lines := write_line left j (fl_lines f)\<rparr>"
  note len = good_lengths(1) [OF f(1)]
  have "\<exists>v. loads (Some sched) asm (jsons (take k (fl_lines ?g))) v" if "may_remain ?g k" for k
    using write_line_take [OF f(2) that len] l f(1) unfolding good_def by fastforce
  moreover have "L_bad \<notin> set (butlast (fl_lines ?g))"
    using f(1,2) by (cases left) (auto simp: good_def butlast_append)
  moreover have "fl_forced ?g < length (fl_lines ?g)"
    using len f(2) by (cases left) auto
  moreover have "list_all is_header (jsons (drop (fl_forced ?g) (fl_lines ?g)))" if "last (fl_lines ?g) = L_bad"
    using that f(2,3) len by (cases left) auto
  ultimately show ?thesis
    unfolding good_def by blast
qed

lemma within_header:
  assumes "good sched asm f" "fl_lines f = ls @ [L_empty]"
  shows "within sched f (f\<lparr>fl_lines := write_line left (J_schedule sched) (fl_lines f)\<rparr>)"
  unfolding within_def
proof (intro allI impI)
  fix k
  assume k: "may_remain (f\<lparr>fl_lines := write_line left (J_schedule sched) (fl_lines f)\<rparr>) k"
  let ?t = "jsons (take k (fl_lines (f\<lparr>fl_lines := write_line left (J_schedule sched) (fl_lines f)\<rparr>)))"
  from write_line_take [OF assms(2) k good_lengths(1) [OF assms(1)]]
  have "may_remain f k \<and> ?t = jsons (take k (fl_lines f)) @ replicate 0 (J_schedule sched) \<or>
      ?t = jsons (take (length (fl_lines f)) (fl_lines f)) @ replicate 1 (J_schedule sched)"
    by auto
  then show "\<exists>m n. may_remain f m \<and> ?t = jsons (take m (fl_lines f)) @ replicate n (J_schedule sched)"
    using good_lengths(3) [OF assms(1)] by metis
qed

lemma within_forced: "fl_lines g = fl_lines f \<Longrightarrow> fl_forced f \<le> fl_forced g \<Longrightarrow> within sched f g"
  unfolding within_def may_remain_def by (metis append.right_neutral le_trans replicate_0)

lemma good_barrier [keep]:
  assumes "good sched asm f"
  shows "good sched asm (barrier f)" "within sched f (barrier f)"
proof -
  show w: "within sched f (barrier f)"
    using good_lengths(1) [OF assms] by (intro within_forced) (auto simp: barrier_def)
  have "drop (length (fl_lines f) - 1) (fl_lines f) = [last (fl_lines f)]"
    using good_lengths(2) [OF assms] by (metis append_butlast_last_id append_eq_conv_conj length_butlast)
  then show "good sched asm (barrier f)"
    using assms good_lengths(2) [OF assms] by (intro goodI [OF w assms]) (auto simp: barrier_def good_def)
qed

lemma within_good: "within sched f g \<Longrightarrow> good sched asm f \<Longrightarrow> L_bad \<notin> set (fl_lines g) \<Longrightarrow>
   fl_forced g < length (fl_lines g) \<Longrightarrow> good sched asm g"
  by (rule goodI) (auto dest: in_set_butlastD, metis last_in_set less_nat_zero_code list.size(3))

subsection \<open>Loading a file that loads\<close>

lemma first_bad_None: "L_bad \<notin> set ls \<Longrightarrow> first_bad ls = None"
  by (auto simp: first_bad_def find_at_None)

lemma first_bad_last: "L_bad \<notin> set ls \<Longrightarrow> first_bad (ls @ [L_bad]) = Some (length ls)"
  by (induction ls) auto

lemma good_first_bad:
  assumes "good sched asm f"
  shows "first_bad (fl_lines f) = (if last (fl_lines f) = L_bad then Some (length (fl_lines f) - 1) else None)"
proof -
  have ne: "fl_lines f = butlast (fl_lines f) @ [last (fl_lines f)]"
    using good_lengths(2) [OF assms] by simp
  have nb: "L_bad \<notin> set (butlast (fl_lines f))"
    using assms by (simp add: good_def)
  show ?thesis
  proof (cases "last (fl_lines f) = L_bad")
    case True
    then show ?thesis
      using first_bad_last [OF nb] ne by (metis length_butlast)
  next
    case False
    then have "L_bad \<notin> set (butlast (fl_lines f) @ [last (fl_lines f)])"
      using nb by auto
    then have "L_bad \<notin> set (fl_lines f)"
      using ne by simp
    then show ?thesis
      using False first_bad_None by simp
  qed
qed

lemma good_shaped:
  assumes "good sched asm f"
  shows "shaped (ends_newline (fl_lines f)) (fl_lines f)"
proof (cases "last (fl_lines f) = L_bad")
  case True
  then have "fl_lines f = butlast (fl_lines f) @ L_bad # []" "\<not> ends_newline (fl_lines f)"
    using good_lengths(2) [OF assms] append_butlast_last_id [of "fl_lines f"] by (auto simp: ends_newline_def)
  moreover have "L_bad \<notin> set (butlast (fl_lines f))" "list_all blank []"
    using assms by (simp_all add: good_def)
  ultimately show ?thesis
    unfolding shaped_def by blast
next
  case False
  have "L_bad \<notin> set (fl_lines f)"
  proof
    assume "L_bad \<in> set (fl_lines f)"
    then have "L_bad \<in> set (butlast (fl_lines f) @ [last (fl_lines f)])"
      using good_lengths(2) [OF assms] by simp
    then show False
      using False assms by (auto simp: good_def)
  qed
  then show ?thesis
    by (simp add: shaped_def)
qed

lemma jsons_end: "jsons [l, L_empty] = jsons [l]"
  by (cases l) simp_all

lemma no_record_keys: "record_keys js = {} \<longleftrightarrow> list_all is_header js"
  by (auto simp: record_keys_def list_all_iff)

lemma jsons_split_forced: "jsons (fl_lines f) = forced_jsons f @ jsons (drop (fl_forced f) (fl_lines f))"
  unfolding forced_jsons_def by (metis append_take_drop_id jsons_simps(6))

text \<open>After a repair that went through: the text ends at a line boundary and every record is forced.\<close>

definition clean_tail :: "reg_file \<Rightarrow> bool" where
  "clean_tail f \<longleftrightarrow> last (fl_lines f) = L_empty \<and> list_all is_header (jsons (drop (fl_forced f) (fl_lines f)))"

lemma drop_butlast_len: "ls \<noteq> [] \<Longrightarrow> drop (length ls - 1) ls = [last ls]"
  by (metis append_butlast_last_id append_eq_conv_conj length_butlast)

lemma repair_keeps:
  assumes f: "good sched asm f" and seen: "anySeen \<longleftrightarrow> record_keys (jsons (fl_lines f)) \<noteq> {}"
    and r: "repair_tail io (Some sched) anySeen (first_bad (fl_lines f)) f = (g, ok)"
  shows "good sched asm g \<and> within sched f g \<and> fl_linked g = fl_linked f \<and>
    (ok \<longrightarrow> clean_tail g \<and> jsons (fl_lines g) = jsons (fl_lines f))"
proof -
  obtain ls l where ls: "fl_lines f = ls @ [l]"
    using good_lengths(2) [OF f] by (metis append_butlast_last_id)
  note len = good_lengths(1) [OF f]
  have nb: "L_bad \<notin> set ls"
    using f ls by (simp add: good_def)
  consider "l = L_bad" | "l \<noteq> L_bad" "l \<noteq> L_empty" | "l = L_empty"
    by blast
  then show ?thesis
  proof cases
    case 1
    then have "first_bad (fl_lines f) = Some (length ls)"
      using good_first_bad [OF f] ls by simp
    moreover let ?g = "f\<lparr>fl_lines := ls @ [L_empty], fl_forced := min (fl_forced f) (length ls)\<rparr>"
    have forced: "min (fl_forced f) (length ls) = fl_forced f"
      using len ls by simp
    have "within sched f ?g"
      unfolding within_def
    proof (intro allI impI)
      fix k
      assume "may_remain ?g k"
      then have "may_remain f k \<and> jsons (take k (fl_lines ?g)) = jsons (take k (fl_lines f)) @ replicate 0 (J_schedule sched)"
        using forced ls 1 by (auto simp: may_remain_def take_Cons' split: if_splits)
      then show "\<exists>m n. may_remain f m \<and> jsons (take k (fl_lines ?g)) = jsons (take m (fl_lines f)) @ replicate n (J_schedule sched)"
        by metis
    qed
    moreover from this have "good sched asm ?g"
      using nb len ls by (intro within_good [OF _ f]) auto
    moreover have "clean_tail ?g"
      using f 1 ls len forced by (auto simp: good_def clean_tail_def)
    ultimately show ?thesis
      using r f ls 1 by (auto simp: repair_tail_def truncate_at_def split: if_splits)
  next
    case 2
    let ?n = "(barrier f)\<lparr>fl_lines := append_newline (fl_lines f)\<rparr>"
    have fb: "first_bad (fl_lines f) = None" and nn: "\<not> no_bytes (fl_lines f)" "\<not> ends_newline (fl_lines f)"
      using good_first_bad [OF f] ls 2 by (simp_all add: no_bytes_def ends_newline_def)
    have n: "fl_lines ?n = ls @ [l, L_empty]" "fl_forced ?n = length ls"
      using ls by (simp_all add: append_newline_def barrier_def)
    have wn: "within sched f ?n"
      unfolding within_def
    proof (intro allI impI)
      fix k
      assume k: "may_remain ?n k"
      have "may_remain f (min k (length (fl_lines f)))"
        using k n len ls by (auto simp: may_remain_def)
      moreover have "jsons (take k (fl_lines ?n)) =
          jsons (take (min k (length (fl_lines f))) (fl_lines f)) @ replicate 0 (J_schedule sched)"
        using k n ls by (auto simp: may_remain_def min_def take_Cons' le_Suc_eq jsons_end)
      ultimately show "\<exists>m n. may_remain f m \<and> jsons (take k (fl_lines ?n)) = jsons (take m (fl_lines f)) @ replicate n (J_schedule sched)"
        by blast
    qed
    have gn: "good sched asm ?n"
      using nb 2 n by (intro within_good [OF wn f]) auto
    note gb = good_barrier [OF gn]
    have "clean_tail (barrier ?n)" "jsons (fl_lines (barrier ?n)) = jsons (fl_lines f)"
      using n ls by (simp_all add: clean_tail_def barrier_def jsons_end)
    moreover have "fl_linked (barrier h) = fl_linked h" for h :: reg_file
      by (simp add: barrier_def)
    moreover have "fl_lines (barrier f) = fl_lines f" "fl_linked ?n = fl_linked f"
      by (simp_all add: barrier_def)
    moreover have "g = f \<and> \<not> ok \<or> g = barrier f \<and> \<not> ok \<or> g = ?n \<and> \<not> ok \<or> g = barrier ?n"
      using r fb nn by (auto simp: repair_tail_def Let_def barrier_def split: if_splits)
    ultimately show ?thesis
      using f good_barrier [OF f] wn gn gb(1) within_trans [OF wn gb(2)] by (elim disjE conjE) simp_all
  next
    case 3
    have fb: "first_bad (fl_lines f) = None"
      using good_first_bad [OF f] ls 3 by simp
    have "no_bytes (fl_lines f) \<or> ends_newline (fl_lines f)"
      using ls 3 by (cases ls) (auto simp: no_bytes_def ends_newline_def)
    moreover have "clean_tail (barrier f)"
      using ls 3 by (simp add: clean_tail_def barrier_def)
    moreover have "clean_tail f" if "\<not> anySeen"
      using that seen ls 3 jsons_split_forced [of f] by (simp add: clean_tail_def no_record_keys)
    moreover have "fl_lines (barrier f) = fl_lines f" "fl_linked (barrier f) = fl_linked f"
      by (simp_all add: barrier_def)
    ultimately show ?thesis
      using r f fb good_barrier [OF f] by (auto simp: repair_tail_def split: if_splits)
  qed
qed

lemma header_keeps:
  assumes f: "good sched asm f" "clean_tail f" and seen: "seenHeader \<longleftrightarrow> list_ex is_header (jsons (fl_lines f))"
    and w: "write_header io left (Some sched) seenHeader f = (g, ok)"
  shows "good sched asm g \<and> within sched f g \<and> fl_linked g = fl_linked f \<and>
    (ok \<longrightarrow> clean_tail g \<and> list_ex is_header (jsons (fl_lines g)) \<and>
      (\<exists>n. jsons (fl_lines g) = jsons (fl_lines f) @ replicate n (J_schedule sched)))"
proof -
  obtain ls where ls: "fl_lines f = ls @ [L_empty]"
    using last_empty_snoc good_lengths(2) [OF f(1)] f(2) unfolding clean_tail_def by blast
  let ?w = "\<lambda>left. f\<lparr>fl_lines := write_line left (J_schedule sched) (fl_lines f)\<rparr>"
  have "\<exists>v. loads (Some sched) asm (jsons (fl_lines f) @ [J_schedule sched]) v"
    using good_lengths(5) [OF f(1)] loads_header by blast
  then have g: "good sched asm (?w left)" for left
    using good_written [OF f(1) ls] f(2) by (simp add: clean_tail_def)
  have wi: "within sched f (?w left)" for left
    by (rule within_header [OF f(1) ls])
  have app: "append_line (J_schedule sched) (fl_lines f) = write_line W_whole (J_schedule sched) (fl_lines f)"
    by (simp add: write_line_def)
  have hdr: "is_header (J_schedule sched)"
    by (simp add: is_header_def)
  have whole: "clean_tail (barrier (?w W_whole))" "list_ex is_header (jsons (fl_lines (?w W_whole)))"
      "jsons (fl_lines (?w W_whole)) = jsons (fl_lines f) @ replicate 1 (J_schedule sched)"
    using ls hdr by (simp_all add: clean_tail_def barrier_def)
  note whole = whole(1,2) exI [of "\<lambda>n. jsons (fl_lines (?w W_whole)) = jsons (fl_lines f) @ replicate n (J_schedule sched)", OF whole(3)]
  have "fl_linked (barrier h) = fl_linked h" "fl_lines (barrier h) = fl_lines h" for h :: reg_file
    by (simp_all add: barrier_def)
  note barrier_simps = this
  consider "seenHeader" "g = f" | "\<not> seenHeader" "g = ?w left" "\<not> ok" | "\<not> seenHeader" "g = ?w W_whole" "\<not> ok"
    | "\<not> seenHeader" "g = barrier (?w W_whole)"
    using w by (auto simp: write_header_def app Let_def split: if_splits)
  then show ?thesis
  proof cases
    case 1
    have "jsons (fl_lines f) = jsons (fl_lines f) @ replicate 0 (J_schedule sched)"
      by simp
    then show ?thesis
      using 1 f seen by (metis within_refl)
  next
    case 4
    then show ?thesis
      using good_barrier(1) [OF g, of W_whole] within_trans [OF wi good_barrier(2) [OF g], of W_whole] whole barrier_simps
      by simp
  qed (use g wi in simp_all)
qed

lemma load_headers:
  "list_all is_header hs \<Longrightarrow> load_jsons sched hs st = Inr st1 \<Longrightarrow> ld_view st1 = ld_view st"
proof (induction hs arbitrary: st)
  case (Cons h hs)
  then obtain s where "h = J_schedule s"
    by (cases h) (auto simp: is_header_def)
  then have "load_json sched h st = Inr st2 \<Longrightarrow> ld_view st2 = ld_view st" for st2
    by (auto simp: load_json_def split: option.splits if_splits)
  then show ?case
    using Cons by (auto split: sum.splits)
qed simp

lemma loads_before_headers:
  assumes "loads sched asm (js @ hs) v" "loads sched asm js w" "list_all is_header hs"
  shows "w = v"
proof -
  obtain st st1 where "load_jsons sched js load_start = Inr st" "load_jsons sched hs st = Inr st1"
      "order_view (ld_view st1) = Inr v"
    using assms(1) by (auto simp: loads_def load_jsons_append split: sum.splits)
  then show ?thesis
    using assms(2,3) load_headers by (auto simp: loads_def)
qed

lemma settledI:
  assumes "good sched asm f" "clean_tail f" "list_ex is_header (jsons (fl_lines f))" "loads (Some sched) asm (jsons (fl_lines f)) v"
  shows "settled sched asm f v"
proof -
  obtain w where w: "loads (Some sched) asm (forced_jsons f) w"
    using good_lengths(6) [OF assms(1)] by blast
  moreover have "w = v"
    using loads_before_headers [OF _ w] assms(2,4) jsons_split_forced [of f] by (metis clean_tail_def)
  ultimately show ?thesis
    using assms(2,3) by (simp add: settled_def clean_tail_def)
qed

lemma settled_loads:
  assumes "good sched asm f" "settled sched asm f v"
  shows "loads (Some sched) asm (jsons (fl_lines f)) v"
proof -
  obtain w where "loads (Some sched) asm (jsons (fl_lines f)) w"
    using good_lengths(5) [OF assms(1)] by blast
  then show ?thesis
    using loads_before_headers [of "Some sched" asm "forced_jsons f" _ w v] assms(2) jsons_split_forced [of f]
    by (metis settled_def)
qed

lemma within_linked: "within sched f (g\<lparr>fl_linked := b\<rparr>) = within sched f g" "good sched asm (g\<lparr>fl_linked := b\<rparr>) = good sched asm g"
  "clean_tail (g\<lparr>fl_linked := b\<rparr>) = clean_tail g"
  by (simp_all add: within_def good_def may_remain_def clean_tail_def)

lemma load_keeps:
  assumes f: "good sched asm f" and de: "de \<longrightarrow> fl_linked f"
    and l: "FileBackend_load io left (Some sched) asm de f = (g, de', res)"
  shows "good sched asm g" "within sched f g" "fl_linked f \<longrightarrow> fl_linked g" "de' \<longrightarrow> fl_linked g"
    "case res of Inl e \<Rightarrow> e = Io_error \<and> \<not> (\<forall>x. io x) | Inr v \<Rightarrow> settled sched asm g v \<and> fl_linked g"
proof -
  have "good sched asm g \<and> within sched f g \<and> (fl_linked f \<longrightarrow> fl_linked g) \<and> (de' \<longrightarrow> fl_linked g) \<and>
      (case res of Inl e \<Rightarrow> e = Io_error \<and> \<not> (\<forall>x. io x) | Inr v \<Rightarrow> settled sched asm g v \<and> fl_linked g)"
  proof (cases "io Io_mkdir \<and> io Io_read")
    case False
    then show ?thesis
      using l f de by (auto simp: FileBackend_load_def)
  next
    case True
    obtain v where v: "loads (Some sched) asm (jsons (fl_lines f)) v"
      using good_lengths(5) [OF f] by blast
    then obtain st where st: "load_jsons (Some sched) (jsons (fl_lines f)) load_start = Inr st"
        "order_view (ld_view st) = Inr v" "set (rv_seen (ld_view st)) = record_keys (jsons (fl_lines f))"
        "ld_header st \<longleftrightarrow> list_ex is_header (jsons (fl_lines f))" "ld_header st \<or> rv_seen (ld_view st) = [] \<or> asm"
      by (rule loadsE) (auto simp: order_view_iff)
    have loop: "load_loop (Some sched) (ends_newline (fl_lines f)) 0 (fl_lines f) load_start = Inr (st, first_bad (fl_lines f))"
      using good_shaped [OF f] st(1) by (cases "first_bad (fl_lines f)") (simp_all add: load_loop_iff)
    obtain f1 ok1 where r: "repair_tail io (Some sched) (rv_seen (ld_view st) \<noteq> []) (first_bad (fl_lines f)) f = (f1, ok1)"
      by (cases "repair_tail io (Some sched) (rv_seen (ld_view st) \<noteq> []) (first_bad (fl_lines f)) f")
    obtain f2 ok2 where w: "write_header io left (Some sched) (ld_header st) f1 = (f2, ok2)"
      by (cases "write_header io left (Some sched) (ld_header st) f1")
    have anySeen: "rv_seen (ld_view st) \<noteq> [] \<longleftrightarrow> record_keys (jsons (fl_lines f)) \<noteq> {}"
      using st(3) by auto
    note k1 = repair_keeps [OF f anySeen r]
    have io1: "\<not> ok1 \<Longrightarrow> \<not> (\<forall>x. io x)"
      using r by (auto simp: repair_tail_def Let_def split: option.splits if_splits)
    have io2: "\<not> ok2 \<Longrightarrow> \<not> (\<forall>x. io x)"
      using w by (auto simp: write_header_def Let_def split: if_splits)
    show ?thesis
    proof (cases ok1)
      case False
      then show ?thesis
        using l True loop r k1 de io1 by (auto simp: FileBackend_load_def)
    next
      case ok1: True
      have "ld_header st \<longleftrightarrow> list_ex is_header (jsons (fl_lines f1))"
        using k1 ok1 st(4) by simp
      note k2 = header_keeps [OF _ _ this w, of asm]
      have k2: "good sched asm f2" "within sched f f2" "fl_linked f2 = fl_linked f"
          "ok2 \<longrightarrow> clean_tail f2 \<and> list_ex is_header (jsons (fl_lines f2)) \<and>
            (\<exists>n. jsons (fl_lines f2) = jsons (fl_lines f1) @ replicate n (J_schedule sched))"
        using k1 ok1 k2 within_trans by blast+
      have no: "\<not> (\<not> ld_header st \<and> rv_seen (ld_view st) \<noteq> [] \<and> \<not> asm)"
        using st(5) by blast
      show ?thesis
      proof (cases ok2)
        case False
        then show ?thesis
          using l True loop r ok1 w no k2 de io2 by (auto simp: FileBackend_load_def)
      next
        case ok2: True
        have "loads (Some sched) asm (jsons (fl_lines f2)) v"
          using k1 k2(4) ok1 ok2 v loads_headers_iff by metis
        then have s: "settled sched asm f2 v"
          using settledI [OF k2(1)] k2(4) ok2 by blast
        then have "settled sched asm (f2\<lparr>fl_linked := True\<rparr>) v"
          by (simp add: settled_def forced_jsons_def)
        moreover obtain f3 de3 ok3 where fl: "flush_directories io (Some sched) de f2 = (f3, de3, ok3)"
          by (cases "flush_directories io (Some sched) de f2")
        moreover have "(g, de', res) = (if ok3 then (f3, de3, Inr v) else (f3, de3, Inl Io_error))"
          using l True loop r ok1 w ok2 no fl st(2) by (auto simp: FileBackend_load_def)
        ultimately show ?thesis
          using k2 de s by (auto simp: flush_directories_def within_linked split: if_splits)
      qed
    qed
  qed
  then show "good sched asm g" "within sched f g" "fl_linked f \<longrightarrow> fl_linked g" "de' \<longrightarrow> fl_linked g"
    "case res of Inl e \<Rightarrow> e = Io_error \<and> \<not> (\<forall>x. io x) | Inr v \<Rightarrow> settled sched asm g v \<and> fl_linked g"
    by simp_all
qed

subsection \<open>What a caller was told\<close>

definition stands :: "reg_req \<Rightarrow> nat \<Rightarrow> reg_view \<Rightarrow> bool" where
  "stands d i v \<longleftrightarrow> i < length (forSeasonContext (rq_season d) (rq_contextHash d) v) \<and>
     forSeasonContext (rq_season d) (rq_contextHash d) v ! i = record_at d i"

text \<open>A conflict stands while the bucket is bound to the declaration the caller was told of, which is not its own.\<close>

definition conflict_stands :: "reg_req \<Rightarrow> reg_declaration \<Rightarrow> reg_view \<Rightarrow> bool" where
  "conflict_stands d c v \<longleftrightarrow> declarationFor (rq_season d) (rq_contextHash d) v = Some c \<and>
     \<not> sameDeclaration c (declarationOfRecord (record_at d 0))"

definition told_holds :: "reg_req \<Rightarrow> append_outcome \<Rightarrow> reg_view \<Rightarrow> bool" where
  "told_holds d out v =
     (case out of
        Appended i \<Rightarrow> stands d i v
      | Duplicate \<Rightarrow> keyName (rq_season d) (rq_contextHash d) (rq_regNullifier d) \<in> set (rv_seen v)
      | Conflict c \<Rightarrow> conflict_stands d c v
      | _ \<Rightarrow> False)"

definition settles :: "reg_req \<Rightarrow> reg_rec \<Rightarrow> reg_view \<Rightarrow> bool" where
  "settles d r v \<longleftrightarrow> keyOf r \<in> set (rv_seen v) \<longrightarrow> stands d (rr_index r) v"

lemma told_simps [simp]:
  "told_holds d (Appended i) = stands d i"
  "told_holds d Duplicate = (\<lambda>v. keyName (rq_season d) (rq_contextHash d) (rq_regNullifier d) \<in> set (rv_seen v))"
  "told_holds d (Conflict c) = conflict_stands d c"
  by (auto simp: told_holds_def)

lemma stands_remember: "stands d i v \<Longrightarrow> stands d i (remember r v)"
  by (auto simp: stands_def forSeasonContext_def nth_append)

lemma conflict_remember: "conflict_stands d c v \<Longrightarrow> conflict_stands d c (remember r v)"
  by (auto simp: conflict_stands_def declarationFor_def split: list.splits)

lemma told_remember: "told_holds d out v \<Longrightarrow> told_holds d out (remember r v)"
  by (auto simp: told_holds_def stands_remember conflict_remember split: append_outcome.splits)

lemma decided_conflict: "decide_append d v = Inl (Conflict c) \<Longrightarrow> conflict_stands d c v"
  by (auto simp: decide_append_def conflict_stands_def declarationFor_def bucketOf_record_at Let_def
      split: if_splits list.splits)

lemma decided_record: "decide_append d v = Inr r \<Longrightarrow> r = record_at d (rr_index r)"
  using decide_cases(1) by (metis rr_index_record_at)

lemma stands_written: "decide_append d v = Inr r \<Longrightarrow> stands d (rr_index r) (remember r v)"
  using decide_cases(1) [of d v r] decided_record [of d v r]
  by (metis bucketOf_record_at bucket_records_remember forSeasonContext_def length_append_singleton lessI
      nth_append_length rr_index_record_at stands_def)

lemma find_Some_mem: "find P xs = Some x \<Longrightarrow> x \<in> set xs \<and> P x"
  by (auto simp: find_Some_iff)

lemma settle_waiter_own:
  assumes v: "view_ok v" "settles d r v" and r: "r = record_at d (rr_index r)" and s: "settle_waiter r v = Some out"
  shows "out = Appended (rr_index r) \<and> stands d (rr_index r) v"
proof -
  let ?recs = "bucket_records v (bucketOf r)"
  obtain x where x: "find (\<lambda>x. keyOf x = keyOf r) ?recs = Some x"
      and out: "out = (if sameRegistrationRecord x r then Appended (rr_index x) else Duplicate)"
    using s by (auto simp: settle_waiter_def split: option.splits if_splits)
  have mem: "x \<in> set ?recs" "keyOf x = keyOf r"
    using find_Some_mem [OF x] by simp_all
  then have st: "stands d (rr_index r) v"
    using v(2) view_records(3) [OF v(1)] by (metis settles_def)
  have "bucketOf r = bucketName (rq_season d) (rq_contextHash d)"
    using r bucketOf_record_at by metis
  then have "r \<in> set ?recs"
    using st r by (metis forSeasonContext_def nth_mem stands_def)
  moreover have "inj_on keyOf (set ?recs)"
    using view_distinct [OF v(1)] by (simp add: distinct_map)
  ultimately have "x = r"
    using mem by (simp add: inj_on_def)
  then show ?thesis
    using out st by (simp add: sameRegistrationRecord_def)
qed

lemma settled_clean: "settled sched asm f v \<Longrightarrow> clean_tail f"
  by (simp add: settled_def clean_tail_def)

lemma safe_settled: "good sched asm f \<Longrightarrow> safe sched asm P f \<Longrightarrow> settled sched asm f v \<Longrightarrow> P v"
  using good_lengths(4) unfolding safe_def settled_def forced_jsons_def by blast

lemma settled_snoc: "settled sched asm f v \<Longrightarrow> good sched asm f \<Longrightarrow> \<exists>ls. fl_lines f = ls @ [L_empty]"
  using last_empty_snoc good_lengths(2) unfolding settled_def by blast

lemma written_keeps:
  assumes f: "good sched asm f" "settled sched asm f v" and d: "valid_req d" "decide_append d v = Inr r"
  shows "good sched asm (written left r f)" "fl_linked (written left r f) = fl_linked f"
    "safe sched asm P f \<Longrightarrow> (P v \<Longrightarrow> P (remember r v)) \<Longrightarrow> safe sched asm P (written left r f)"
proof -
  obtain ls where ls: "fl_lines f = ls @ [L_empty]"
    using settled_snoc f by blast
  have a: "loads (Some sched) asm (jsons (fl_lines f) @ [json_of_record r]) (remember r v)"
    using loads_appended [OF settled_loads [OF f] d(2,1)] f(2) by (simp add: settled_def)
  show "good sched asm (written left r f)"
    unfolding written_def using a f(2) by (intro good_written [OF f(1) ls]) (auto simp: settled_def)
  show "fl_linked (written left r f) = fl_linked f"
    by (simp add: written_def)
  assume P: "safe sched asm P f" "P v \<Longrightarrow> P (remember r v)"
  then have "P (remember r v)"
    using safe_settled f by blast
  then show "safe sched asm P (written left r f)"
    using P(1) write_line_take [OF ls _ good_lengths(1) [OF f(1)]] loads_functional [OF a]
    unfolding safe_def written_def by fastforce
qed

lemma written_synced:
  assumes w: "good sched asm f" "settled sched asm f v" "valid_req d" "decide_append d v = Inr r"
  shows "good sched asm (barrier (written W_whole r f))" "settled sched asm (barrier (written W_whole r f)) (remember r v)"
proof -
  obtain ls where ls: "fl_lines f = ls @ [L_empty]"
    using settled_snoc [OF w(2,1)] by blast
  let ?g = "barrier (written W_whole r f)"
  have lines: "fl_lines ?g = ls @ [L_json (json_of_record r), L_empty]" "fl_forced ?g = Suc (length ls)"
    using ls by (simp_all add: written_def barrier_def)
  then have js: "jsons (fl_lines ?g) = jsons (fl_lines f) @ [json_of_record r]"
    using ls by simp
  show g: "good sched asm ?g"
    by (rule good_barrier(1) [OF written_keeps(1) [OF w]])
  show "settled sched asm ?g (remember r v)"
    using loads_appended [OF settled_loads [OF w(1,2)] w(4,3)] w(2) js lines
    by (intro settledI g) (simp_all add: settled_def clean_tail_def)
qed

lemma jsons_take_subset: "set (jsons (take k ls)) \<subseteq> set (jsons ls)"
  by (metis append_take_drop_id jsons_simps(6) set_append sup_ge1)

lemma safe_unseen:
  assumes "good sched asm f" "settled sched asm f v" "decide_append d v = Inr r"
  shows "safe sched asm (settles d r) f"
proof -
  have "record_keys (jsons (take k (fl_lines f))) \<subseteq> record_keys (jsons (fl_lines f))" for k
    using jsons_take_subset [of k "fl_lines f"] by (auto simp: record_keys_def)
  moreover have "record_keys (jsons (fl_lines f)) = set (rv_seen v)"
    using loads_seen [OF settled_loads [OF assms(1,2)]] by simp
  ultimately show ?thesis
    using decide_cases(2) [OF assms(3)] loads_seen unfolding safe_def settles_def by blast
qed

lemma safe_seen:
  assumes "good sched asm f" "settled sched asm f v" "k \<in> set (rv_seen v)"
  shows "safe sched asm (\<lambda>w. k \<in> set (rv_seen w)) f"
proof -
  have "record_keys (forced_jsons f) \<subseteq> record_keys (jsons (take n (fl_lines f)))" if "fl_forced f \<le> n" for n
    using that jsons_take_subset [of "fl_forced f" "take n (fl_lines f)"]
    by (auto simp: record_keys_def forced_jsons_def min_def)
  moreover have "record_keys (forced_jsons f) = set (rv_seen v)"
    using loads_seen [of "Some sched" asm "forced_jsons f" v] assms(2) by (simp add: settled_def)
  ultimately show ?thesis
    using assms(3) loads_seen unfolding safe_def may_remain_def by blast
qed

text \<open>What holds of a settled view holds of whatever a crash leaves: after the forced lines come only headers.\<close>

lemma settled_safe:
  assumes "settled sched asm f v" "P v"
  shows "safe sched asm P f"
  unfolding safe_def
proof (intro allI impI)
  fix k w
  assume k: "may_remain f k" and w: "loads (Some sched) asm (jsons (take k (fl_lines f))) w"
  let ?tail = "jsons (take (k - fl_forced f) (drop (fl_forced f) (fl_lines f)))"
  have "take k (fl_lines f) = take (fl_forced f) (fl_lines f) @ take (k - fl_forced f) (drop (fl_forced f) (fl_lines f))"
    using k by (metis le_add_diff_inverse may_remain_def take_add)
  then have js: "jsons (take k (fl_lines f)) = forced_jsons f @ ?tail"
    by (simp add: forced_jsons_def)
  have "list_all is_header (jsons (drop (fl_forced f) (fl_lines f)))"
    using assms(1) by (simp add: settled_def)
  then have h: "list_all is_header ?tail"
    using jsons_take_subset [of "k - fl_forced f" "drop (fl_forced f) (fl_lines f)"] by (auto simp: list_all_iff)
  have "loads (Some sched) asm (jsons (take k (fl_lines f))) v"
    using loads_before_headers [of "Some sched" asm "forced_jsons f" ?tail w v] assms(1) w h js by (simp add: settled_def)
  then show "P w"
    using loads_functional [OF w] assms(2) by blast
qed

subsection \<open>The invariant\<close>

definition told_ok :: "string \<Rightarrow> bool \<Rightarrow> fb_state \<Rightarrow> reg_file \<Rightarrow> bool" where
  "told_ok sched asm s f \<longleftrightarrow> (\<forall>(d, out) \<in> set (fb_told s). safe sched asm (told_holds d out) f)"

definition quiet :: "append_phase \<Rightarrow> bool" where
  "quiet p = (case p of P_idle \<Rightarrow> True | P_closing_failed _ _ \<Rightarrow> True | P_retry _ _ \<Rightarrow> True | P_waiting _ _ \<Rightarrow> True | _ \<Rightarrow> False)"

text \<open>An append whose write went wrong: its record may be in the file or not, and stands at its place if it is.\<close>

definition limbo :: "string \<Rightarrow> bool \<Rightarrow> fb_state \<Rightarrow> reg_req \<Rightarrow> reg_rec \<Rightarrow> bool" where
  "limbo sched asm s d r \<longleftrightarrow> fb_loaded s \<and> r = record_at d (rr_index r) \<and>
     safe sched asm (settles d r) (fb_file s) \<and> (fb_clear s \<longrightarrow> settled sched asm (fb_file s) (fb_view s))"

definition deciding :: "string \<Rightarrow> bool \<Rightarrow> fb_state \<Rightarrow> reg_file \<Rightarrow> reg_req \<Rightarrow> reg_rec \<Rightarrow> bool" where
  "deciding sched asm s f d r \<longleftrightarrow> fb_loaded s \<and> fb_clear s \<and> settled sched asm f (fb_view s) \<and> good sched asm f \<and> valid_req d \<and>
     decide_append d (fb_view s) = Inr r"

definition phase_inv :: "string \<Rightarrow> bool \<Rightarrow> fb_state \<Rightarrow> bool" where
  "phase_inv sched asm s =
     (case fb_phase s of
        P_idle \<Rightarrow> fb_loaded s \<and> fb_clear s \<longrightarrow> settled sched asm (fb_file s) (fb_view s)
      | P_opening d r \<Rightarrow> deciding sched asm s (fb_file s) d r
      | P_writing d r \<Rightarrow> deciding sched asm s (fb_file s) d r
      | P_syncing d r \<Rightarrow> safe sched asm (settles d r) (fb_file s) \<and>
          (\<exists>f. deciding sched asm s f d r \<and> fb_file s = written W_whole r f)
      | P_closing d r \<Rightarrow> fb_loaded s \<and> fb_clear s \<and> settled sched asm (fb_file s) (fb_view s) \<and>
          safe sched asm (stands d (rr_index r)) (fb_file s) \<and> r = record_at d (rr_index r)
      | P_closing_failed d r \<Rightarrow> limbo sched asm s d r
      | P_retry d r \<Rightarrow> limbo sched asm s d r
      | P_waiting d r \<Rightarrow> limbo sched asm s d r)"

definition fb_inv :: "string \<Rightarrow> bool \<Rightarrow> fb_state \<Rightarrow> bool" where
  "fb_inv sched asm s \<longleftrightarrow> good sched asm (fb_file s) \<and>
     (fb_dirEnsured s \<or> fb_loaded s \<or> fb_told s \<noteq> [] \<longrightarrow> fl_linked (fb_file s)) \<and>
     (fb_reconciling s \<longrightarrow> fb_loaded s \<and> quiet (fb_phase s)) \<and>
     (fb_reconciling s \<and> fb_clear s \<longrightarrow> (\<exists>d r. fb_phase s = P_waiting d r)) \<and>
     (\<not> fb_loaded s \<longrightarrow> fb_phase s = P_idle) \<and>
     told_ok sched asm s (fb_file s) \<and> phase_inv sched asm s"

lemma told_ok_mono: "told_ok sched asm s f \<Longrightarrow> (\<And>P. safe sched asm P f \<Longrightarrow> safe sched asm P g) \<Longrightarrow> fb_told t = fb_told s \<Longrightarrow>
   told_ok sched asm t g"
  by (auto simp: told_ok_def)

lemma told_ok_tell: "told_ok sched asm s f \<Longrightarrow> safe sched asm (told_holds d out) f \<Longrightarrow> told_ok sched asm (tell d out s) f"
  by (auto simp: told_ok_def tell_def)

lemma good_no_file [keep]: "good sched asm no_file"
  by (auto simp: good_def no_file_def may_remain_def take_Cons' intro!: exI [of _ empty_view])

text \<open>What power loss leaves is within what it could leave.\<close>

lemma power_within:
  assumes "good sched asm f" "survives f k x"
  shows "within sched f (power_lost f k x)" "good sched asm (power_lost f k x)"
proof -
  let ?g = "power_lost f k x"
  have k: "fl_forced f \<le> k" "k < length (fl_lines f)"
    using assms(2) by (simp_all add: survives_def)
  have last: "jsons (take k (fl_lines f) @ [x]) = jsons (take (if x = fl_lines f ! k then Suc k else k) (fl_lines f))"
    using assms(2) k by (auto simp: survives_def take_Suc_conv_app_nth)
  show w: "within sched f ?g"
    unfolding within_def
  proof (intro allI impI)
    fix n
    assume "may_remain ?g n"
    then have "n = k \<or> n = Suc k"
      using k by (auto simp: may_remain_def power_lost_def)
    then have "\<exists>m. may_remain f m \<and> jsons (take n (fl_lines ?g)) = jsons (take m (fl_lines f)) @ replicate 0 (J_schedule sched)"
    proof
      assume "n = k"
      then show ?thesis
        using k by (intro exI [of _ k]) (simp add: may_remain_def power_lost_def)
    next
      assume "n = Suc k"
      then show ?thesis
        using k last by (intro exI [of _ "if x = fl_lines f ! k then Suc k else k"]) (simp add: may_remain_def power_lost_def)
    qed
    then show "\<exists>m n'. may_remain f m \<and> jsons (take n (fl_lines ?g)) = jsons (take m (fl_lines f)) @ replicate n' (J_schedule sched)"
      by blast
  qed
  have "L_bad \<notin> set (take k (fl_lines f))"
    using assms(1) take_butlast [OF k(2)] by (metis good_def in_set_takeD)
  then show "good sched asm ?g"
    using k by (intro goodI [OF w assms(1)]) (auto simp: power_lost_def)
qed

lemma limbo_of_deciding:
  "deciding sched asm s (fb_file s) d r \<Longrightarrow> \<not> fb_clear t \<Longrightarrow> fb_loaded t \<Longrightarrow> fb_file t = fb_file s \<Longrightarrow> limbo sched asm t d r"
  using safe_unseen decided_record by (fastforce simp: deciding_def limbo_def)

lemma limbo_keep:
  "limbo sched asm s d r \<Longrightarrow> fb_loaded t \<Longrightarrow> (fb_clear t \<Longrightarrow> settled sched asm (fb_file t) (fb_view t)) \<Longrightarrow>
   (\<And>P. safe sched asm P (fb_file s) \<Longrightarrow> safe sched asm P (fb_file t)) \<Longrightarrow> limbo sched asm t d r"
  by (auto simp: limbo_def)

lemma settled_barrier: "good sched asm f \<Longrightarrow> settled sched asm f v \<Longrightarrow> settled sched asm (barrier f) v"
  using settledI [OF good_barrier(1)] settled_loads drop_butlast_len [of "fl_lines f"] good_lengths(2)
  by (fastforce simp: settled_def clean_tail_def barrier_def)

lemma safe_stands:
  assumes "good sched asm f" "settled sched asm f v" "safe sched asm (settles d r) f" "keyOf r \<in> set (rv_seen v)"
  shows "safe sched asm (stands d (rr_index r)) f"
  using safe_seen [OF assms(1,2,4)] assms(3) unfolding safe_def settles_def by blast

lemma inv_unpack:
  assumes "fb_inv sched asm s"
  shows "good sched asm (fb_file s)" "fb_dirEnsured s \<Longrightarrow> fl_linked (fb_file s)" "fb_loaded s \<Longrightarrow> fl_linked (fb_file s)"
    "fb_told s \<noteq> [] \<Longrightarrow> fl_linked (fb_file s)" "fb_reconciling s \<Longrightarrow> fb_loaded s \<and> quiet (fb_phase s)"
    "fb_reconciling s \<Longrightarrow> fb_clear s \<Longrightarrow> \<exists>d r. fb_phase s = P_waiting d r"
    "\<not> fb_loaded s \<Longrightarrow> fb_phase s = P_idle" "told_ok sched asm s (fb_file s)" "phase_inv sched asm s"
  using assms unfolding fb_inv_def by blast+

lemma quiet_inv:
  assumes "fb_inv sched asm s" "quiet (fb_phase s)"
  shows "fb_loaded s \<Longrightarrow> fb_clear s \<Longrightarrow> settled sched asm (fb_file s) (fb_view s)"
    "fb_phase s = P_idle \<or> (\<exists>d r. limbo sched asm s d r \<and>
      (fb_phase s = P_closing_failed d r \<or> fb_phase s = P_retry d r \<or> fb_phase s = P_waiting d r))"
  using inv_unpack(9) [OF assms(1)] assms(2)
  by (auto simp: phase_inv_def quiet_def limbo_def split: append_phase.splits)

lemma unclear_quiet:
  assumes "fb_inv sched asm s" "\<not> fb_clear s \<or> \<not> fb_loaded s"
  shows "quiet (fb_phase s)"
  using inv_unpack(9) [OF assms(1)] assms(2)
  by (auto simp: phase_inv_def quiet_def deciding_def split: append_phase.splits)

text \<open>A change of file and view that keeps what may remain, in a quiet phase.\<close>

lemma quiet_change:
  assumes s: "fb_inv sched asm s" "quiet (fb_phase s)" "fb_loaded s"
    and t: "fb_phase t = fb_phase s" "fb_told t = fb_told s" "fb_loaded t = fb_loaded s"
    and g: "good sched asm (fb_file t)" "fl_linked (fb_file t)" "within sched (fb_file s) (fb_file t)"
    and v: "fb_clear t \<Longrightarrow> settled sched asm (fb_file t) (fb_view t)"
    and r: "fb_reconciling t \<Longrightarrow> fb_clear t \<Longrightarrow> \<exists>d r. fb_phase t = P_waiting d r"
  shows "fb_inv sched asm t"
proof -
  have keep: "safe sched asm P (fb_file s) \<Longrightarrow> safe sched asm P (fb_file t)" for P
    using within_safe [OF g(3) inv_unpack(1) [OF s(1)]] .
  have "told_ok sched asm t (fb_file t)"
    using told_ok_mono [OF inv_unpack(8) [OF s(1)] keep t(2)] .
  moreover have "phase_inv sched asm t"
    using quiet_inv(2) [OF s(1,2)]
  proof (elim disjE exE conjE)
    assume "fb_phase s = P_idle"
    then show ?thesis
      using t v by (simp add: phase_inv_def)
  next
    fix d r
    assume "limbo sched asm s d r"
    then have "limbo sched asm t d r"
      by (rule limbo_keep [OF _ _ v keep]) (use t(3) s(3) in simp_all)
    then show "fb_phase s = P_closing_failed d r \<Longrightarrow> ?thesis" "fb_phase s = P_retry d r \<Longrightarrow> ?thesis"
        "fb_phase s = P_waiting d r \<Longrightarrow> ?thesis"
      using t(1) by (simp_all add: phase_inv_def)
  qed
  ultimately show ?thesis
    using s t g r by (simp add: fb_inv_def)
qed

lemma tell_inv:
  assumes s: "fb_inv sched asm s" "fb_loaded s" "fb_clear s \<Longrightarrow> settled sched asm (fb_file s) (fb_view s)"
    "fb_reconciling s \<Longrightarrow> \<not> fb_clear s" "safe sched asm (told_holds d out) (fb_file s)"
  shows "fb_inv sched asm (tell d out s)"
proof -
  have "told_ok sched asm (tell d out s) (fb_file (tell d out s))"
    using told_ok_tell [OF inv_unpack(8) [OF s(1)] s(5)] by (simp add: tell_def)
  then show ?thesis
    using s inv_unpack(1-3) [OF s(1)] by (auto simp: fb_inv_def tell_def phase_inv_def quiet_def fb_clear_def)
qed

lemma reject_inv:
  assumes s: "fb_inv sched asm s" "fb_loaded s" "fb_clear s \<Longrightarrow> settled sched asm (fb_file s) (fb_view s)"
    "fb_reconciling s \<Longrightarrow> \<not> fb_clear s"
  shows "fb_inv sched asm (reject s)"
  using s inv_unpack(1-4,8) [OF s(1)]
  by (auto simp: fb_inv_def reject_def phase_inv_def quiet_def fb_clear_def told_ok_def)

lemma release_inv:
  assumes s: "fb_inv sched asm s" "fb_loaded s" "quiet (fb_phase s)" "fb_reconciling s \<Longrightarrow> \<not> fb_clear s"
    and v: "\<And>v. res = Some v \<Longrightarrow> fb_view s = v \<and> fb_clear s"
  shows "fb_inv sched asm (release_waiter res s)"
proof (cases "\<exists>d r. fb_phase s = P_waiting d r")
  case False
  then show ?thesis
    using s(1) by (auto simp: release_waiter_def split: append_phase.splits)
next
  case True
  then obtain d r where w: "fb_phase s = P_waiting d r"
    by blast
  then have lim: "limbo sched asm s d r"
    using inv_unpack(9) [OF s(1)] by (simp add: phase_inv_def)
  note rej = reject_inv [OF s(1,2) quiet_inv(1) [OF s(1,3,2)] s(4)]
  show ?thesis
  proof (cases "\<exists>v out. res = Some v \<and> settle_waiter r v = Some out")
    case False
    then show ?thesis
      using rej w by (auto simp: release_waiter_def split: option.splits)
  next
    case True
    then obtain v out where out: "res = Some v" "settle_waiter r v = Some out"
      by blast
    have st: "settled sched asm (fb_file s) v"
      using quiet_inv(1) [OF s(1,3,2)] v [OF out(1)] by auto
    have vok: "view_ok v"
      using st loads_view_ok by (auto simp: settled_def)
    have "settles d r v"
      using safe_settled [OF inv_unpack(1) [OF s(1)] _ st] lim by (auto simp: limbo_def)
    then have o: "out = Appended (rr_index r)" "stands d (rr_index r) v"
      using settle_waiter_own [OF vok _ _ out(2)] lim by (auto simp: limbo_def)
    obtain x where "x \<in> set (bucket_records v (bucketOf r))" "keyOf x = keyOf r"
      using out(2) by (auto simp: settle_waiter_def split: option.splits dest!: find_Some_mem)
    then have "keyOf r \<in> set (rv_seen v)"
      using view_records(3) [OF vok] by metis
    then have "safe sched asm (told_holds d out) (fb_file s)"
      using safe_stands [OF inv_unpack(1) [OF s(1)] st] lim o(1) by (simp add: limbo_def)
    then have "fb_inv sched asm (tell d out s)"
      using st v [OF out(1)] s by (intro tell_inv) auto
    then show ?thesis
      using w out by (simp add: release_waiter_def)
  qed
qed

lemma linked_simps [simp]: "fl_linked (barrier f) = fl_linked f" "fl_linked (written left r f) = fl_linked f"
    "fl_linked (power_lost f k x) = fl_linked f"
  by (simp_all add: barrier_def written_def power_lost_def)

lemma barrier_step_inv:
  assumes s: "fb_inv sched asm s" "fb_loaded s" "\<not> fb_reconciling s" "\<not> fb_clear s \<or> (\<exists>d r. fb_phase s = P_waiting d r)"
  shows "fb_inv sched asm (barrierThenLoad_barrier ok s)"
proof -
  have q: "quiet (fb_phase s)"
    using unclear_quiet [OF s(1)] s(4) by (auto simp: quiet_def)
  note gb = good_barrier [OF inv_unpack(1) [OF s(1)]] and link = inv_unpack(3) [OF s(1,2)] and st = quiet_inv(1) [OF s(1) q s(2)]
  consider "\<not> fb_unbarriered s" | "fb_unbarriered s" ok | "fb_unbarriered s" "\<not> ok"
    by blast
  then show ?thesis
  proof cases
    case 1
    have "fb_inv sched asm (s\<lparr>fb_reconciling := True\<rparr>)"
      by (rule quiet_change [OF s(1) q s(2)]) (use s(4) link st inv_unpack(1) [OF s(1)] in \<open>auto simp: fb_clear_def\<close>)
    then show ?thesis
      using 1 by (simp add: barrierThenLoad_barrier_def)
  next
    case 2
    have "fb_inv sched asm ((on_file barrier s)\<lparr>fb_reconciling := True\<rparr>)"
      by (rule quiet_change [OF s(1) q s(2)]) (use 2 link gb in \<open>auto simp: fb_clear_def on_file_def\<close>)
    then show ?thesis
      using 2 by (simp add: barrierThenLoad_barrier_def)
  next
    case 3
    let ?t = "s\<lparr>fb_stale := True\<rparr>"
    have "fb_inv sched asm ?t"
      by (rule quiet_change [OF s(1) q s(2)]) (use link inv_unpack(1) [OF s(1)] in \<open>auto simp: fb_clear_def\<close>)
    then have "fb_inv sched asm (release_waiter None ?t)"
      using s q by (intro release_inv) (auto simp: fb_clear_def)
    then show ?thesis
      using 3 by (simp add: barrierThenLoad_barrier_def)
  qed
qed

lemma reconcile_inv:
  assumes s: "fb_inv sched asm s" "fb_reconciling s"
  shows "fb_inv sched asm (reconcile_load sched asm io left s)"
proof -
  have q: "fb_loaded s" "quiet (fb_phase s)"
    using inv_unpack(5) [OF s] by simp_all
  obtain f de res where l: "FileBackend_load io left (Some sched) asm (fb_dirEnsured s) (fb_file s) = (f, de, res)"
    by (cases "FileBackend_load io left (Some sched) asm (fb_dirEnsured s) (fb_file s)")
  have "fb_dirEnsured s \<longrightarrow> fl_linked (fb_file s)"
    using inv_unpack(2) [OF s(1)] by blast
  note k = load_keeps [OF inv_unpack(1) [OF s(1)] this l]
  have link: "fl_linked f"
    using k(3) inv_unpack(3) [OF s(1) q(1)] by blast
  show ?thesis
  proof (cases res)
    case (Inl e)
    let ?t = "s\<lparr>fb_file := f, fb_dirEnsured := de, fb_stale := True, fb_reconciling := False\<rparr>"
    have "fb_inv sched asm ?t"
      by (rule quiet_change [OF s(1) q(2,1)]) (use k link in \<open>auto simp: fb_clear_def\<close>)
    then have "fb_inv sched asm (release_waiter None ?t)"
      using q by (intro release_inv) auto
    then show ?thesis
      using l Inl by (simp add: reconcile_load_def)
  next
    case (Inr v)
    let ?t = "s\<lparr>fb_file := f, fb_dirEnsured := de, fb_view := v, fb_stale := False, fb_unbarriered := False, fb_reconciling := False\<rparr>"
    have "fb_inv sched asm ?t"
      by (rule quiet_change [OF s(1) q(2,1)]) (use k link Inr in \<open>auto simp: fb_clear_def\<close>)
    then have "fb_inv sched asm (release_waiter (Some v) ?t)"
      using q by (intro release_inv) (auto simp: fb_clear_def)
    then show ?thesis
      using l Inr by (simp add: reconcile_load_def)
  qed
qed

lemma ready_inv:
  assumes s: "fb_inv sched asm s" "\<not> fb_loaded s"
  shows "fb_inv sched asm (ready_load sched asm io left s)"
proof -
  obtain f de res where l: "FileBackend_load io left (Some sched) asm (fb_dirEnsured s) (fb_file s) = (f, de, res)"
    by (cases "FileBackend_load io left (Some sched) asm (fb_dirEnsured s) (fb_file s)")
  have "fb_dirEnsured s \<longrightarrow> fl_linked (fb_file s)"
    using inv_unpack(2) [OF s(1)] by blast
  note k = load_keeps [OF inv_unpack(1) [OF s(1)] this l]
  have t: "told_ok sched asm t f" if "fb_told t = fb_told s" for t
    by (rule told_ok_mono [OF inv_unpack(8) [OF s(1)] within_safe [OF k(2) inv_unpack(1) [OF s(1)]] that])
  have p: "fb_phase s = P_idle" "\<not> fb_reconciling s"
    using inv_unpack(5,7) [OF s(1)] s(2) by auto
  have link: "fb_told s \<noteq> [] \<Longrightarrow> fl_linked f"
    using k(3) inv_unpack(4) [OF s(1)] by blast
  show ?thesis
    using l k p s(2) t link by (cases res) (auto simp: ready_load_def fb_inv_def phase_inv_def quiet_def)
qed

lemma restart_inv:
  assumes "fb_inv sched asm s" "good sched asm f" "fb_told s \<noteq> [] \<Longrightarrow> fl_linked f"
    and "\<And>P. fb_told s \<noteq> [] \<Longrightarrow> safe sched asm P (fb_file s) \<Longrightarrow> safe sched asm P f"
  shows "fb_inv sched asm (restarted f s)"
proof -
  have "told_ok sched asm (restarted f s) f"
  proof (cases "fb_told s = []")
    case True
    then show ?thesis
      by (simp add: told_ok_def restarted_def)
  next
    case False
    have "fb_told (restarted f s) = fb_told s"
      by (simp add: restarted_def)
    then show ?thesis
      using inv_unpack(8) [OF assms(1)] assms(4) [OF False] by (auto simp: told_ok_def)
  qed
  then show ?thesis
    using assms(2,3) by (simp add: fb_inv_def phase_inv_def) (simp add: restarted_def)
qed

text \<open>The steps of one append.\<close>

lemma phase_change:
  assumes s: "fb_inv sched asm s" "fb_loaded s"
    and t: "fb_told t = fb_told s" "fb_loaded t = fb_loaded s" "fb_dirEnsured t = fb_dirEnsured s"
      "fb_reconciling t = fb_reconciling s"
    and g: "good sched asm (fb_file t)" "fl_linked (fb_file t) = fl_linked (fb_file s)"
      "\<And>d out. safe sched asm (told_holds d out) (fb_file s) \<Longrightarrow> safe sched asm (told_holds d out) (fb_file t)"
    and p: "phase_inv sched asm t" "fb_reconciling s \<Longrightarrow> quiet (fb_phase t) \<and> (fb_clear t \<longrightarrow> (\<exists>d r. fb_phase t = P_waiting d r))"
  shows "fb_inv sched asm t"
proof -
  have "told_ok sched asm t (fb_file t)"
    using inv_unpack(8) [OF s(1)] g(3) t(1) by (auto simp: told_ok_def)
  then show ?thesis
    using s t g p inv_unpack(3) [OF s] by (simp add: fb_inv_def)
qed

lemma not_reconciling: "fb_inv sched asm s \<Longrightarrow> \<not> quiet (fb_phase s) \<Longrightarrow> \<not> fb_reconciling s"
  using inv_unpack(5) by blast

lemma loaded_phase: "fb_inv sched asm s \<Longrightarrow> fb_phase s \<noteq> P_idle \<Longrightarrow> fb_loaded s"
  using inv_unpack(7) by blast

lemma write_inv:
  assumes s: "fb_inv sched asm s" "fb_phase s = P_writing d r"
  shows "fb_inv sched asm (on_file (written W_whole r) (s\<lparr>fb_phase := P_syncing d r\<rparr>))"
    "fb_inv sched asm (mark (on_file (written left r) (s\<lparr>fb_phase := P_closing_failed d r\<rparr>)))"
proof -
  have dec: "deciding sched asm s (fb_file s) d r"
    using inv_unpack(9) [OF s(1)] s(2) by (simp add: phase_inv_def)
  then have w: "settled sched asm (fb_file s) (fb_view s)" "valid_req d" "decide_append d (fb_view s) = Inr r"
    by (simp_all add: deciding_def)
  note k = written_keeps [OF inv_unpack(1) [OF s(1)] w]
  note nr = not_reconciling [OF s(1)] and l = loaded_phase [OF s(1)]
  have st: "safe sched asm (settles d r) (written left r (fb_file s))" for left
    by (rule k(3) [OF safe_unseen [OF inv_unpack(1) [OF s(1)] w(1,3)]]) (simp add: settles_def stands_written [OF w(3)])
  have told: "safe sched asm (told_holds d' out) (fb_file s) \<Longrightarrow> safe sched asm (told_holds d' out) (written left r (fb_file s))"
    for d' out left by (rule k(3)) (simp_all add: told_remember)
  let ?t = "on_file (written W_whole r) (s\<lparr>fb_phase := P_syncing d r\<rparr>)"
  have "deciding sched asm ?t (fb_file s) d r"
    using dec by (simp add: deciding_def on_file_def fb_clear_def)
  then have "phase_inv sched asm ?t"
    using st by (auto simp: phase_inv_def on_file_def)
  then show "fb_inv sched asm ?t"
    by (intro phase_change [OF s(1)]) (use s(2) k told nr l in \<open>auto simp: on_file_def quiet_def\<close>)
  let ?u = "mark (on_file (written left r) (s\<lparr>fb_phase := P_closing_failed d r\<rparr>))"
  have "limbo sched asm ?u d r"
    using st [of left] decided_record [OF w(3)] l s(2) by (simp add: limbo_def mark_def on_file_def fb_clear_def)
  then have "phase_inv sched asm ?u"
    by (simp add: phase_inv_def mark_def on_file_def)
  then show "fb_inv sched asm ?u"
    by (intro phase_change [OF s(1)]) (use s(2) k told nr l in \<open>auto simp: on_file_def mark_def quiet_def fb_clear_def\<close>)
qed

lemma sync_inv:
  assumes s: "fb_inv sched asm s" "fb_phase s = P_syncing d r"
  shows "fb_inv sched asm (on_file barrier (s\<lparr>fb_phase := P_closing d r, fb_view := remember r (fb_view s)\<rparr>))"
    "fb_inv sched asm (mark (s\<lparr>fb_phase := P_closing_failed d r\<rparr>))"
proof -
  obtain f where f: "deciding sched asm s f d r" "fb_file s = written W_whole r f" and st: "safe sched asm (settles d r) (fb_file s)"
    using inv_unpack(9) [OF s(1)] s(2) by (auto simp: phase_inv_def)
  then have w: "good sched asm f" "settled sched asm f (fb_view s)" "valid_req d" "decide_append d (fb_view s) = Inr r"
      "fb_loaded s" "fb_clear s"
    by (simp_all add: deciding_def)
  note gb = good_barrier [OF inv_unpack(1) [OF s(1)]]
  note nr = not_reconciling [OF s(1)] and l = loaded_phase [OF s(1)]
  have now: "settled sched asm (barrier (fb_file s)) (remember r (fb_view s))"
    using written_synced(2) [OF w(1-4)] f(2) by simp
  have keep: "safe sched asm P (fb_file s) \<Longrightarrow> safe sched asm P (barrier (fb_file s))" for P
    by (rule within_safe [OF gb(2) inv_unpack(1) [OF s(1)]])
  have "safe sched asm (stands d (rr_index r)) (barrier (fb_file s))"
    by (rule safe_stands [OF gb(1) now keep [OF st]]) simp
  then have "phase_inv sched asm (on_file barrier (s\<lparr>fb_phase := P_closing d r, fb_view := remember r (fb_view s)\<rparr>))"
    using now w decided_record [OF w(4)] by (simp add: phase_inv_def on_file_def fb_clear_def)
  then show "fb_inv sched asm (on_file barrier (s\<lparr>fb_phase := P_closing d r, fb_view := remember r (fb_view s)\<rparr>))"
    by (intro phase_change [OF s(1)]) (use s(2) keep gb nr l in \<open>auto simp: on_file_def quiet_def\<close>)
  have "limbo sched asm (mark (s\<lparr>fb_phase := P_closing_failed d r\<rparr>)) d r"
    using st decided_record [OF w(4)] w(5) by (simp add: limbo_def mark_def fb_clear_def)
  then have "phase_inv sched asm (mark (s\<lparr>fb_phase := P_closing_failed d r\<rparr>))"
    by (simp add: phase_inv_def mark_def)
  then show "fb_inv sched asm (mark (s\<lparr>fb_phase := P_closing_failed d r\<rparr>))"
    by (intro phase_change [OF s(1)]) (use s(2) inv_unpack(1) [OF s(1)] nr l in \<open>auto simp: mark_def quiet_def fb_clear_def\<close>)
qed

lemma opening_inv:
  assumes s: "fb_inv sched asm s" "fb_phase s = P_opening d r"
  shows "fb_inv sched asm (s\<lparr>fb_phase := P_writing d r\<rparr>)" "fb_inv sched asm (mark (s\<lparr>fb_phase := P_retry d r\<rparr>))"
proof -
  have dec: "deciding sched asm s (fb_file s) d r"
    using inv_unpack(9) [OF s(1)] s(2) by (simp add: phase_inv_def)
  note nr = not_reconciling [OF s(1)] and l = loaded_phase [OF s(1)]
  have "phase_inv sched asm (s\<lparr>fb_phase := P_writing d r\<rparr>)"
    using dec by (simp add: phase_inv_def deciding_def fb_clear_def)
  then show "fb_inv sched asm (s\<lparr>fb_phase := P_writing d r\<rparr>)"
    by (intro phase_change [OF s(1)]) (use s(2) inv_unpack(1) [OF s(1)] nr l in \<open>auto simp: quiet_def\<close>)
  have "limbo sched asm (mark (s\<lparr>fb_phase := P_retry d r\<rparr>)) d r"
    using limbo_of_deciding [OF dec] l s(2) by (simp add: mark_def fb_clear_def)
  then have "phase_inv sched asm (mark (s\<lparr>fb_phase := P_retry d r\<rparr>))"
    by (simp add: phase_inv_def mark_def)
  then show "fb_inv sched asm (mark (s\<lparr>fb_phase := P_retry d r\<rparr>))"
    by (intro phase_change [OF s(1)]) (use s(2) inv_unpack(1) [OF s(1)] nr l in \<open>auto simp: mark_def quiet_def fb_clear_def\<close>)
qed

lemma begin_inv:
  assumes s: "fb_inv sched asm s" "fb_loaded s" "fb_clear s" "fb_phase s = P_idle" and d: "valid_req d"
  shows "decide_append d (fb_view s) = Inr r \<Longrightarrow> fb_inv sched asm (s\<lparr>fb_phase := P_opening d r\<rparr>)"
    "decide_append d (fb_view s) = Inl out \<Longrightarrow> fb_inv sched asm (tell d out s)"
proof -
  have st: "settled sched asm (fb_file s) (fb_view s)"
    using inv_unpack(9) [OF s(1)] s by (simp add: phase_inv_def)
  have nr: "\<not> fb_reconciling s"
    using inv_unpack(6) [OF s(1)] s(3,4) by auto
  show "fb_inv sched asm (s\<lparr>fb_phase := P_opening d r\<rparr>)" if r: "decide_append d (fb_view s) = Inr r"
  proof -
    have "phase_inv sched asm (s\<lparr>fb_phase := P_opening d r\<rparr>)"
      using st s(2,3) d r inv_unpack(1) [OF s(1)] by (simp add: phase_inv_def deciding_def fb_clear_def)
    then show ?thesis
      by (intro phase_change [OF s(1,2)]) (use inv_unpack(1) [OF s(1)] nr in auto)
  qed
  show "fb_inv sched asm (tell d out s)" if out: "decide_append d (fb_view s) = Inl out"
  proof (intro tell_inv [OF s(1,2) st])
    from out consider "out = Duplicate" "keyOf (record_at d 0) \<in> set (rv_seen (fb_view s))" | c where "out = Conflict c"
      by (auto simp: decide_append_def Let_def split: if_splits list.splits)
    then have "told_holds d out (fb_view s)"
      using out by cases (simp_all add: decided_conflict)
    then show "safe sched asm (told_holds d out) (fb_file s)"
      by (rule settled_safe [OF st])
  qed (use nr in simp)
qed

lemma closing_inv:
  assumes s: "fb_inv sched asm s" "fb_phase s = P_closing d r"
  shows "fb_inv sched asm (tell d (Appended (rr_index r)) s)" "fb_inv sched asm (mark (s\<lparr>fb_phase := P_retry d r\<rparr>))"
proof -
  have p: "fb_loaded s" "fb_clear s" "settled sched asm (fb_file s) (fb_view s)"
      "safe sched asm (stands d (rr_index r)) (fb_file s)" "r = record_at d (rr_index r)"
    using inv_unpack(9) [OF s(1)] s(2) by (simp_all add: phase_inv_def)
  have nr: "\<not> fb_reconciling s"
    using not_reconciling [OF s(1)] s(2) by (simp add: quiet_def)
  show "fb_inv sched asm (tell d (Appended (rr_index r)) s)"
    using p nr by (intro tell_inv [OF s(1)]) auto
  have "safe sched asm (settles d r) (fb_file s)"
    by (rule safe_mono [OF p(4)]) (simp add: settles_def)
  then have "phase_inv sched asm (mark (s\<lparr>fb_phase := P_retry d r\<rparr>))"
    using p(1,5) by (simp add: phase_inv_def mark_def limbo_def fb_clear_def)
  then show "fb_inv sched asm (mark (s\<lparr>fb_phase := P_retry d r\<rparr>))"
    by (intro phase_change [OF s(1) p(1)]) (use inv_unpack(1) [OF s(1)] nr in \<open>auto simp: mark_def\<close>)
qed

lemma retry_inv:
  assumes s: "fb_inv sched asm s" "fb_phase s = P_retry d r"
  shows "fb_inv sched asm (reject s)" "fb_inv sched asm (on_file barrier (reject s))"
    "fb_inv sched asm (on_file barrier (s\<lparr>fb_phase := P_waiting d r\<rparr>))"
proof -
  have lim: "limbo sched asm s d r"
    using inv_unpack(9) [OF s(1)] s(2) by (simp add: phase_inv_def)
  then have p: "fb_loaded s" "fb_clear s \<Longrightarrow> settled sched asm (fb_file s) (fb_view s)"
    by (simp_all add: limbo_def)
  have nr: "fb_reconciling s \<Longrightarrow> \<not> fb_clear s"
    using inv_unpack(6) [OF s(1)] s(2) by auto
  note gb = good_barrier [OF inv_unpack(1) [OF s(1)]]
  show rej: "fb_inv sched asm (reject s)"
    by (rule reject_inv [OF s(1) p nr])
  show "fb_inv sched asm (on_file barrier (reject s))"
    by (rule quiet_change [OF rej])
      (use p nr gb settled_barrier [OF inv_unpack(1) [OF s(1)]] inv_unpack(3) [OF s(1)]
        in \<open>auto simp: on_file_def reject_def quiet_def fb_clear_def\<close>)
  have keep: "safe sched asm P (fb_file s) \<Longrightarrow> safe sched asm P (barrier (fb_file s))" for P
    by (rule within_safe [OF gb(2) inv_unpack(1) [OF s(1)]])
  let ?t = "on_file barrier (s\<lparr>fb_phase := P_waiting d r\<rparr>)"
  have "limbo sched asm ?t d r"
    using lim p keep [of "settles d r"] settled_barrier [OF inv_unpack(1) [OF s(1)]]
    by (simp add: limbo_def on_file_def fb_clear_def)
  then have "phase_inv sched asm ?t"
    by (simp add: phase_inv_def on_file_def)
  then show "fb_inv sched asm ?t"
    by (intro phase_change [OF s(1) p(1)]) (use gb keep in \<open>auto simp: on_file_def quiet_def fb_clear_def\<close>)
qed

lemma closed_failed_inv:
  assumes s: "fb_inv sched asm s" "fb_phase s = P_closing_failed d r"
  shows "fb_inv sched asm (mark (s\<lparr>fb_phase := P_retry d r\<rparr>))"
proof -
  have "limbo sched asm s d r"
    using inv_unpack(9) [OF s(1)] s(2) by (simp add: phase_inv_def)
  then have "fb_loaded s" "phase_inv sched asm (mark (s\<lparr>fb_phase := P_retry d r\<rparr>))"
    by (simp_all add: phase_inv_def mark_def limbo_def fb_clear_def)
  then show ?thesis
    by (intro phase_change [OF s(1)]) (use inv_unpack(1) [OF s(1)] in \<open>auto simp: mark_def quiet_def fb_clear_def\<close>)
qed

lemma step_inv:
  assumes s: "fb_inv sched asm s" and step: "fb_step sched asm s t"
  shows "fb_inv sched asm t"
  using step
proof cases
  case (fb_power k x)
  note p = power_within [OF inv_unpack(1) [OF s] fb_power(2)]
  show ?thesis
    unfolding fb_power(1)
    by (rule restart_inv [OF s p(2) _ within_safe [OF p(1) inv_unpack(1) [OF s]]]) (use inv_unpack(4) [OF s] in simp_all)
next
  case fb_power_unlinked
  then have "fb_told s = []"
    using inv_unpack(4) [OF s] by blast
  then show ?thesis
    unfolding fb_power_unlinked(1) by (intro restart_inv [OF s good_no_file]) simp_all
next
  case fb_kill
  show ?thesis
    unfolding fb_kill by (rule restart_inv [OF s]) (use inv_unpack(1,4) [OF s] in auto)
qed (use s ready_inv begin_inv opening_inv write_inv sync_inv closing_inv closed_failed_inv retry_inv barrier_step_inv
    reconcile_inv in \<open>simp_all\<close>)

lemma reach_inv: "fb_reach sched asm s \<Longrightarrow> fb_inv sched asm s"
proof (induction rule: fb_reach.induct)
  case fb_reach_start
  show ?case
    using good_no_file by (simp add: fb_inv_def fb_start_def told_ok_def phase_inv_def)
next
  case (fb_reach_step s t)
  then show ?case
    using step_inv by blast
qed

subsection \<open>The uninterrupted append, as a backend\<close>

definition FileBackend_append :: "reg_req \<Rightarrow> reg_file \<times> reg_view \<Rightarrow> (reg_file \<times> reg_view) \<times> append_outcome" where
  "FileBackend_append d s =
     (case appendOne_decide d (snd s) of
        Inl out \<Rightarrow> (s, out)
      | Inr r \<Rightarrow> ((barrier (written W_whole r (fst s)), remember r (snd s)), Appended (rr_index r)))"

definition file_inv :: "string \<Rightarrow> bool \<Rightarrow> reg_file \<times> reg_view \<Rightarrow> bool" where
  "file_inv sched asm s \<longleftrightarrow> good sched asm (fst s) \<and> settled sched asm (fst s) (snd s)"

lemma file_view_ok: "file_inv sched asm s \<Longrightarrow> view_ok (snd s)"
  using loads_view_ok by (auto simp: file_inv_def settled_def)

lemma file_append_memory:
  "snd (fst (FileBackend_append d s)) = fst (MemoryRegistrationBackend_append d (snd s))"
  "snd (FileBackend_append d s) = snd (MemoryRegistrationBackend_append d (snd s))"
  by (simp_all add: FileBackend_append_def MemoryRegistrationBackend_append_def split: sum.split)

lemma file_append_inv [keep]: "file_inv sched asm s \<Longrightarrow> valid_req d \<Longrightarrow> file_inv sched asm (fst (FileBackend_append d s))"
  using written_synced by (auto simp: file_inv_def FileBackend_append_def split: sum.split)

text \<open>It is the run of the process's own steps in which no call fails: open, write, sync, close.\<close>

lemma append_runs:
  assumes s: "fb_loaded s" "fb_clear s" "fb_phase s = P_idle" "valid_req d"
    and a: "FileBackend_append d (fb_file s, fb_view s) = ((f, v), out)"
  shows "(fb_step sched asm)\<^sup>*\<^sup>* s (s\<lparr>fb_file := f, fb_view := v, fb_told := fb_told s @ [(d, out)]\<rparr>)"
proof (cases "appendOne_decide d (fb_view s)")
  case (Inl out')
  then have "tell d out' s = s\<lparr>fb_file := f, fb_view := v, fb_told := fb_told s @ [(d, out)]\<rparr>"
    using a s(3) by (cases s) (simp add: FileBackend_append_def tell_def)
  then show ?thesis
    using fb_refuse [OF s Inl, of sched asm] by simp
next
  case (Inr r)
  let ?s1 = "s\<lparr>fb_phase := P_opening d r\<rparr>"
  let ?s2 = "?s1\<lparr>fb_phase := P_writing d r\<rparr>"
  let ?s3 = "on_file (written W_whole r) (?s2\<lparr>fb_phase := P_syncing d r\<rparr>)"
  let ?s4 = "on_file barrier (?s3\<lparr>fb_phase := P_closing d r, fb_view := remember r (fb_view ?s3)\<rparr>)"
  have "(fb_step sched asm)\<^sup>*\<^sup>* s ?s2"
    using fb_begin [OF s Inr, of sched asm] fb_open [of ?s1 d r sched asm] by (simp add: converse_rtranclp_into_rtranclp)
  also have "fb_step sched asm ?s2 ?s3"
    by (rule fb_write) simp
  also have "fb_step sched asm ?s3 ?s4"
    by (rule fb_sync) (simp add: on_file_def)
  also have "fb_step sched asm ?s4 (tell d (Appended (rr_index r)) ?s4)"
    by (rule fb_close) (simp add: on_file_def)
  also have "tell d (Appended (rr_index r)) ?s4 = s\<lparr>fb_file := f, fb_view := v, fb_told := fb_told s @ [(d, out)]\<rparr>"
    using a s(3) Inr by (cases s) (simp add: FileBackend_append_def tell_def on_file_def)
  finally show ?thesis .
qed

lemma appends_run:
  assumes "fb_loaded s" "fb_clear s" "fb_phase s = P_idle" "list_all valid_req ds"
    and "reg_run FileBackend_append ds (fb_file s, fb_view s) = ((f, v), outs)"
  shows "(fb_step sched asm)\<^sup>*\<^sup>* s (s\<lparr>fb_file := f, fb_view := v, fb_told := fb_told s @ outs\<rparr>)"
  using assms
proof (induction ds arbitrary: s outs)
  case Nil
  then show ?case
    by (cases s) simp
next
  case (Cons d ds)
  obtain f1 v1 out where a: "FileBackend_append d (fb_file s, fb_view s) = ((f1, v1), out)"
    by (metis surj_pair)
  obtain rest where r: "reg_run FileBackend_append ds (f1, v1) = ((f, v), rest)" "outs = (d, out) # rest"
    using Cons.prems(5) a by (auto split: prod.splits)
  let ?t = "s\<lparr>fb_file := f1, fb_view := v1, fb_told := fb_told s @ [(d, out)]\<rparr>"
  have "(fb_step sched asm)\<^sup>*\<^sup>* s ?t"
    using append_runs [OF Cons.prems(1-3) _ a] Cons.prems(4) by simp
  also have "(fb_step sched asm)\<^sup>*\<^sup>* ?t (?t\<lparr>fb_file := f, fb_view := v, fb_told := fb_told ?t @ rest\<rparr>)"
    using Cons.prems r(1) by (intro Cons.IH) (simp_all add: fb_clear_def)
  finally show ?case
    using r(2) by simp
qed

lemma reach_steps: "(fb_step sched asm)\<^sup>*\<^sup>* s t \<Longrightarrow> fb_reach sched asm s \<Longrightarrow> fb_reach sched asm t"
  by (induction rule: rtranclp_induct) (auto intro: fb_reach_step)

interpretation file_backend: registration_backend "file_inv sched asm"
  "\<lambda>season ctx nf s. MemoryRegistrationBackend_has season ctx nf (snd s)" FileBackend_append
  "\<lambda>season ctx s. forSeasonContext season ctx (snd s)" for sched asm
proof
  fix s :: "reg_file \<times> reg_view" and d :: reg_req and y :: int and c n :: string
  assume i: "file_inv sched asm s"
  note v = file_view_ok [OF i]
  show "valid_req d \<Longrightarrow> file_inv sched asm (fst (FileBackend_append d s))"
    by (rule file_append_inv [OF i])
  show "isCanonicalField c \<Longrightarrow> isCanonicalField n \<Longrightarrow> MemoryRegistrationBackend_has y c n (snd s) =
      (\<exists>r \<in> set (forSeasonContext y c (snd s)). rr_regNullifier r = n)"
    by (rule memory_backend.has_recs [OF v])
  show "valid_req d \<Longrightarrow> snd (FileBackend_append d s) =
      (if MemoryRegistrationBackend_has (rq_season d) (rq_contextHash d) (rq_regNullifier d) (snd s) then Duplicate
       else case forSeasonContext (rq_season d) (rq_contextHash d) (snd s) of [] \<Rightarrow> Appended 0
            | r # rs \<Rightarrow> if declarationOfRecord r = declarationOfRecord (record_at d 0)
                then Appended (Suc (length rs)) else Conflict (declarationOfRecord r))"
    unfolding file_append_memory by (rule memory_backend.append_outcome [OF v])
  show "valid_req d \<Longrightarrow> forSeasonContext y c (snd (fst (FileBackend_append d s))) =
      forSeasonContext y c (snd s) @ (case snd (FileBackend_append d s) of
         Appended i \<Rightarrow> if y = rq_season d \<and> c = rq_contextHash d then [record_at d i] else [] | _ \<Rightarrow> [])"
    unfolding file_append_memory by (rule memory_backend.append_recs [OF v])
qed

subsection \<open>Properties\<close>

lemma restart_load:
  assumes "good sched asm f" "FileBackend_load io left (Some sched) asm False f = (g, de, Inr v)"
  shows "safe sched asm P f \<Longrightarrow> P v" "settled sched asm f w \<Longrightarrow> v = w"
proof -
  note k = load_keeps [OF assms(1) _ assms(2), simplified]
  have s: "settled sched asm g v"
    using k(5) by simp
  show "safe sched asm P f \<Longrightarrow> P v"
    using safe_settled [OF k(1) within_safe [OF k(2) assms(1)] s] .
  show "settled sched asm f w \<Longrightarrow> v = w"
    using FileBackend_load_result(2) [OF assms(2)] settled_loads [OF assms(1)] loads_functional by blast
qed

text \<open>A first start, and one registration that goes through.\<close>

definition demo_req :: reg_req where
  "demo_req = request_of_call (demo_call 7 ''zkvm'')"

text \<open>Another member of the same season and context, who declares another engine.\<close>

definition demo_other :: reg_req where
  "demo_other = request_of_call (demo_call 8 ''groth16'')"

definition demo_log :: reg_file where
  "demo_log = \<lparr>fl_lines = [L_json (J_schedule ''1:2''), L_json (json_of_record (demo_record 7 0)), L_empty],
    fl_forced = 2, fl_linked = True\<rparr>"

definition demo_view :: reg_view where
  "demo_view = \<lparr>rv_seen = [keyOf (demo_record 7 0)], rv_buckets = [(bucketName 3 (dec_of_nat 4), [demo_record 7 0])]\<rparr>"

definition demo_state :: fb_state where
  "demo_state = \<lparr>fb_file = demo_log, fb_view = demo_view, fb_loaded = True, fb_stale = False, fb_unbarriered = False,
     fb_dirEnsured = True, fb_reconciling = False, fb_phase = P_idle, fb_told = [(demo_req, Appended 0)]\<rparr>"

lemma demo_req_valid: "valid_req demo_req"
  unfolding demo_req_def by (intro valid_request_of_call demo_call_ok) auto

lemma demo_other_valid: "valid_req demo_other"
  unfolding demo_other_def by (intro valid_request_of_call demo_call_ok) auto

lemma demo_reach: "fb_reach ''1:2'' False demo_state"
proof -
  let ?io = "\<lambda>_. True" and ?r = "demo_record 7 0"
  let ?f1 = "\<lparr>fl_lines = [L_json (J_schedule ''1:2''), L_empty], fl_forced = 1, fl_linked = True\<rparr>"
  let ?s = "\<lambda>p f v t. \<lparr>fb_file = f, fb_view = v, fb_loaded = True, fb_stale = False, fb_unbarriered = False,
     fb_dirEnsured = True, fb_reconciling = False, fb_phase = p, fb_told = t\<rparr>"
  have "FileBackend_load ?io W_nothing (Some ''1:2'') False False no_file = (?f1, True, Inr empty_view)"
    by (simp add: FileBackend_load_def no_file_def load_start_def empty_view_def repair_tail_def no_bytes_def
        write_header_def append_line_def glue_def blank_def barrier_def flush_directories_def order_view_def)
  then have "ready_load ''1:2'' False ?io W_nothing fb_start = ?s P_idle ?f1 empty_view []"
    by (simp add: ready_load_def fb_start_def)
  then have 1: "fb_reach ''1:2'' False (?s P_idle ?f1 empty_view [])"
    using fb_reach_step [OF fb_reach_start fb_load, of "''1:2''" False ?io W_nothing] by (simp add: fb_start_def)
  have "decide_append demo_req empty_view = Inr ?r"
    by (simp add: decide_append_def empty_view_def bucket_records_def demo_record_def demo_req_def)
  then have 2: "fb_reach ''1:2'' False (?s (P_opening demo_req ?r) ?f1 empty_view [])"
    using fb_reach_step [OF 1 fb_begin, of demo_req ?r] demo_req_valid by (simp add: fb_clear_def)
  have 3: "fb_reach ''1:2'' False (?s (P_writing demo_req ?r) ?f1 empty_view [])"
    using fb_reach_step [OF 2 fb_open, of demo_req ?r] by simp
  have 4: "fb_reach ''1:2'' False (?s (P_syncing demo_req ?r) (demo_log\<lparr>fl_forced := 1\<rparr>) empty_view [])"
    using fb_reach_step [OF 3 fb_write, of demo_req ?r]
    by (simp add: on_file_def written_def demo_log_def write_line_def append_line_def glue_def blank_def)
  have 5: "fb_reach ''1:2'' False (?s (P_closing demo_req ?r) demo_log demo_view [])"
    using fb_reach_step [OF 4 fb_sync, of demo_req ?r]
    by (simp add: on_file_def barrier_def demo_log_def demo_view_def remember_def empty_view_def bucket_records_def numeral_2_eq_2)
  show ?thesis
    using fb_reach_step [OF 5 fb_close, of demo_req ?r] by (simp add: tell_def demo_state_def)
qed

lemma demo_log_loads:
  "FileBackend_load (\<lambda>_. True) W_nothing (Some ''1:2'') False False demo_log = (demo_log, True, Inr demo_view)"
proof -
  have "load_loop (Some ''1:2'') True 0 (fl_lines demo_log) load_start =
      Inr (\<lparr>ld_view = demo_view, ld_dups = 0, ld_header = True\<rparr>, None)"
    by (simp add: demo_log_def load_json_def [of _ "J_schedule s" for s] load_json_record demo_record_ok load_record_def
        load_start_def empty_view_def bucket_records_def remember_def demo_view_def)
  moreover have "ends_newline (fl_lines demo_log)"
    by (simp add: demo_log_def ends_newline_def)
  moreover have "order_view demo_view = Inr demo_view"
    by (simp add: demo_view_def order_view_iff no_gaps_def sort_buckets_def)
  moreover have "barrier demo_log = demo_log" "demo_log\<lparr>fl_linked := True\<rparr> = demo_log" "rv_seen demo_view \<noteq> []"
    by (simp_all add: barrier_def demo_log_def demo_view_def)
  ultimately show ?thesis
    by (simp add: FileBackend_load_def repair_tail_def write_header_def flush_directories_def)
qed

lemma demo_decides:
  "decide_append demo_req demo_view = Inl Duplicate"
  "decide_append demo_other demo_view = Inl (Conflict (declarationOfRecord (demo_record 7 0)))"
  "decide_append (request_of_call (demo_call 9 ''zkvm'')) demo_view = Inr (demo_record 9 1)"
proof -
  have recs: "bucket_records demo_view (bucketName 3 (dec_of_nat 4)) = [demo_record 7 0]"
    by (simp add: demo_view_def bucket_records_def jm_get_def)
  have rq: "rq_season (request_of_call (demo_call n e)) = 3" "rq_contextHash (request_of_call (demo_call n e)) = dec_of_nat 4"
      "rq_regNullifier (request_of_call (demo_call n e)) = dec_of_nat n" "rq_engine (request_of_call (demo_call n e)) = e"
      "rq_statement (request_of_call (demo_call n e)) = ''derive''" for n e
    by (simp_all add: request_of_call_def demo_call_def field_string_def)
  have seen: "rv_seen demo_view = [keyName 3 (dec_of_nat 4) (dec_of_nat 7)]"
    by (simp add: demo_view_def demo_record_def rq)
  show "decide_append demo_req demo_view = Inl Duplicate"
    by (simp add: decide_append_def demo_req_def seen rq)
  show "decide_append demo_other demo_view = Inl (Conflict (declarationOfRecord (demo_record 7 0)))"
    by (simp add: decide_append_def demo_other_def seen rq recs keyName_def demo_record_def sameDeclaration_def)
  show "decide_append (request_of_call (demo_call 9 ''zkvm'')) demo_view = Inr (demo_record 9 1)"
    by (simp add: decide_append_def seen rq recs keyName_def demo_record_def sameDeclaration_def)
qed

text \<open>C2: what a caller was told survives. Whatever writes, syncs and closes failed since, however
  often the process was killed or power was lost, in the view the next load builds a registration that was
  acknowledged stands at its leaf position, one reported as a duplicate is still spent, and one told of a conflict
  finds its season and context bound to the declaration it was told of, which is not its own. A caller is told nothing
  else.\<close>

theorem acknowledged_registration_survives:
  assumes "fb_reach sched asm s" "(d, out) \<in> set (fb_told s)"
    and "FileBackend_load io left (Some sched) asm False (fb_file s) = (f, de, Inr v)"
  shows "told_holds d out v"
proof -
  note i = reach_inv [OF assms(1)]
  have "safe sched asm (told_holds d out) (fb_file s)"
    using inv_unpack(8) [OF i] assms(2) by (auto simp: told_ok_def)
  then show ?thesis
    using restart_load(1) [OF inv_unpack(1) [OF i] assms(3)] by blast
qed

theorem acknowledged_registration_survives_witness:
  "told_holds demo_req (Appended 0) demo_view \<and> told_holds demo_other (Conflict (declarationOfRecord (demo_record 7 0))) demo_view"
proof
  show "told_holds demo_req (Appended 0) demo_view"
    by (rule acknowledged_registration_survives [OF demo_reach, of demo_req "Appended 0" "\<lambda>_. True" W_nothing demo_log True])
      (simp_all add: demo_state_def demo_log_loads)
  let ?c = "Conflict (declarationOfRecord (demo_record 7 0))"
  have "decide_append demo_other demo_view = Inl ?c"
    by (simp add: demo_decides)
  then have "fb_reach ''1:2'' False (tell demo_other ?c demo_state)"
    using fb_reach_step [OF demo_reach fb_refuse, of demo_other ?c] demo_other_valid by (simp add: demo_state_def fb_clear_def)
  then show "told_holds demo_other ?c demo_view"
    by (rule acknowledged_registration_survives [of _ _ _ _ _ "\<lambda>_. True" W_nothing demo_log True])
      (simp_all add: tell_def, simp_all add: demo_state_def demo_log_loads)
qed

text \<open>C18: no answer rests on bytes a crash could lose. Whenever the store answers (it is loaded and
  neither flag is set), in whatever phase an append is, its view is exactly that of the lines known
  to be on stable storage.\<close>

theorem answers_only_from_forced_records:
  assumes "fb_reach sched asm s" "fb_loaded s" "fb_clear s"
  shows "loads (Some sched) asm (forced_jsons (fb_file s)) (fb_view s)"
proof -
  note i = reach_inv [OF assms(1)]
  have "forced_jsons (written left r f) = forced_jsons f"
    if f: "settled sched asm f v" "good sched asm f" for left r f v
  proof -
    obtain ls where "fl_lines f = ls @ [L_empty]"
      using settled_snoc [OF f] by blast
    then show ?thesis
      using good_lengths(1) [OF f(2)] by (cases left) (simp_all add: forced_jsons_def written_def)
  qed
  then show ?thesis
    using inv_unpack(9) [OF i] assms(2,3)
    by (auto simp: phase_inv_def deciding_def limbo_def settled_def split: append_phase.splits)
qed

theorem answers_only_from_forced_records_witness: "loads (Some ''1:2'') False (forced_jsons demo_log) demo_view"
  using answers_only_from_forced_records [OF demo_reach] by (simp add: demo_state_def fb_clear_def)

text \<open>C39: no crash makes the file unloadable. From every reachable state the next load fails only if
  one of its own file system calls fails; it never refuses the file for what is in it.\<close>

theorem restart_never_refused:
  assumes "fb_reach sched asm s"
  shows "case snd (snd (FileBackend_load io left (Some sched) asm False (fb_file s))) of
      Inl e \<Rightarrow> e = Io_error \<and> \<not> (\<forall>x. io x)
    | Inr v \<Rightarrow> view_ok v"
proof -
  obtain f de res where l: "FileBackend_load io left (Some sched) asm False (fb_file s) = (f, de, res)"
    by (cases "FileBackend_load io left (Some sched) asm False (fb_file s)")
  then show ?thesis
    using load_keeps(5) [OF inv_unpack(1) [OF reach_inv [OF assms]] _ l] loads_view_ok
    by (auto simp: settled_def split: sum.splits)
qed

theorem restart_never_refused_witness: "view_ok demo_view"
  using restart_never_refused [OF demo_reach, of "\<lambda>_. True" W_nothing] by (simp add: demo_state_def demo_log_loads)

text \<open>A restart rebuilds the members order the gateway was serving, record for record.\<close>

lemma restart_rebuilds_live_view:
  assumes "fb_reach sched asm s" "fb_loaded s" "fb_clear s" "fb_phase s = P_idle"
    and "FileBackend_load io left (Some sched) asm False (fb_file s) = (f, de, Inr v)"
  shows "v = fb_view s"
proof -
  note i = reach_inv [OF assms(1)]
  have "settled sched asm (fb_file s) (fb_view s)"
    using inv_unpack(9) [OF i] assms(2-4) by (simp add: phase_inv_def)
  then show ?thesis
    by (rule restart_load(2) [OF inv_unpack(1) [OF i] assms(5)])
qed

theorem restart_rebuilds_live_view_witness:
  "snd (snd (FileBackend_load (\<lambda>_. True) W_nothing (Some ''1:2'') False False (fb_file demo_state))) = Inr (fb_view demo_state)"
  using restart_rebuilds_live_view [OF demo_reach, of "\<lambda>_. True" W_nothing demo_log True demo_view] demo_log_loads
  by (simp add: demo_state_def fb_clear_def)

text \<open>C17: the file backend is the memory backend. From any state in which the store is at rest, its own steps (the
  decision of \<open>#appendOne\<close>, then open, write, sync and close, none of them failing) take any sequence of registrations to a
  state at rest in which the callers were told what the memory backend tells them, the live view is the memory
  backend's, and the file loads to that view again.\<close>

theorem file_backend_refines_memory:
  assumes "fb_reach sched asm s" "fb_loaded s" "fb_clear s" "fb_phase s = P_idle" "list_all valid_req ds"
  shows "\<exists>t. (fb_step sched asm)\<^sup>*\<^sup>* s t \<and> fb_loaded t \<and> fb_clear t \<and> fb_phase t = P_idle \<and>
    fb_told t = fb_told s @ snd (reg_run MemoryRegistrationBackend_append ds (fb_view s)) \<and>
    fb_view t = fst (reg_run MemoryRegistrationBackend_append ds (fb_view s)) \<and>
    fst (reg_run FileBackend_append ds (fb_file s, fb_view s)) = (fb_file t, fb_view t) \<and>
    snd (snd (FileBackend_load (\<lambda>_. True) W_nothing (Some sched) asm False (fb_file t))) = Inr (fb_view t)"
proof -
  have same: "snd (reg_run FileBackend_append ds s) = snd (reg_run MemoryRegistrationBackend_append ds (snd s)) \<and>
    snd (fst (reg_run FileBackend_append ds s)) = fst (reg_run MemoryRegistrationBackend_append ds (snd s))" for ds s
  proof (induction ds arbitrary: s)
    case (Cons d ds)
    then show ?case
      using Cons.IH [of "fst (FileBackend_append d s)"] by (simp add: Let_def split_def file_append_memory)
  qed simp
  obtain f v outs where run: "reg_run FileBackend_append ds (fb_file s, fb_view s) = ((f, v), outs)"
    by (metis surj_pair)
  let ?t = "s\<lparr>fb_file := f, fb_view := v, fb_told := fb_told s @ outs\<rparr>"
  have steps: "(fb_step sched asm)\<^sup>*\<^sup>* s ?t"
    by (rule appends_run [OF assms(2-5) run])
  have t: "fb_loaded ?t" "fb_clear ?t" "fb_phase ?t = P_idle"
    using assms(2-4) by (simp_all add: fb_clear_def)
  note i = reach_inv [OF reach_steps [OF steps assms(1)]]
  have st: "settled sched asm (fb_file ?t) (fb_view ?t)"
    using inv_unpack(9) [OF i] t by (simp add: phase_inv_def)
  obtain g de res where l: "FileBackend_load (\<lambda>_. True) W_nothing (Some sched) asm False (fb_file ?t) = (g, de, res)"
    by (cases "FileBackend_load (\<lambda>_. True) W_nothing (Some sched) asm False (fb_file ?t)")
  obtain w where "res = Inr w"
    using load_keeps(5) [OF inv_unpack(1) [OF i] _ l] by (cases res) auto
  then have "snd (snd (FileBackend_load (\<lambda>_. True) W_nothing (Some sched) asm False (fb_file ?t))) = Inr (fb_view ?t)"
    using restart_load(2) [OF inv_unpack(1) [OF i] _ st] l by simp
  then show ?thesis
    using steps t same [of ds "(fb_file s, fb_view s)"] run by (intro exI [of _ ?t]) simp
qed

theorem file_backend_refines_memory_witness:
  "\<exists>t. (fb_step ''1:2'' False)\<^sup>*\<^sup>* demo_state t \<and> map snd (fb_told t) =
    [Appended 0, Duplicate, Conflict (declarationOfRecord (demo_record 7 0)), Appended 1]"
proof -
  let ?ds = "[demo_req, demo_other, request_of_call (demo_call 9 ''zkvm'')]"
  have v: "list_all valid_req ?ds"
    using demo_req_valid demo_other_valid by (simp add: valid_request_of_call demo_call_ok)
  have "map snd (snd (reg_run MemoryRegistrationBackend_append ?ds demo_view)) =
      [Duplicate, Conflict (declarationOfRecord (demo_record 7 0)), Appended 1]"
    by (simp add: MemoryRegistrationBackend_append_def demo_decides)
  then show ?thesis
    using file_backend_refines_memory [OF demo_reach _ _ _ v] by (fastforce simp: demo_state_def fb_clear_def)
qed

end
