(* ===== verification/Time_Guard.thy ===== *)
theory Time_Guard
  imports Js_Text Common_Values
begin

section \<open>The clock guard (core/time_guard.js)\<close>

text \<open>
  The highest epoch and season ever observed, kept in memory and in a file, and the sticky record
  of a backward step. The file is what a read returns; writing it is all or nothing, because the
  code writes a temporary file, flushes it and renames it over the old one.
\<close>

subsection \<open>State\<close>

datatype tg_kind = Epoch | Season

record tg_regression =
  tr_kind :: tg_kind
  tr_observed :: jsnum
  tr_mark :: jsnum
  tr_at :: int

record tg_marks =
  tm_epoch :: "jsnum option"
  tm_season :: "jsnum option"

definition mark_of :: "tg_kind \<Rightarrow> tg_marks \<Rightarrow> jsnum option" where
  "mark_of kind m = (case kind of Epoch \<Rightarrow> tm_epoch m | Season \<Rightarrow> tm_season m)"

definition set_mark :: "tg_kind \<Rightarrow> jsnum \<Rightarrow> tg_marks \<Rightarrow> tg_marks" where
  "set_mark kind v m = (case kind of Epoch \<Rightarrow> m\<lparr>tm_epoch := Some v\<rparr> | Season \<Rightarrow> m\<lparr>tm_season := Some v\<rparr>)"

record time_guard =
  tg_path :: bool
  tg_epochSeconds :: int
  tg_seasonSeconds :: int
  tg_marks :: tg_marks
  tg_regression :: "tg_regression option"

text \<open>The file as the loader finds it. An array is an object without the fields.\<close>

record tg_json =
  tj_epochSeconds :: jfield
  tj_seasonSeconds :: jfield
  tj_epoch :: jfield
  tj_season :: jfield
  tj_regression :: "tg_regression option"

datatype tg_file = TG_missing | TG_unreadable | TG_not_json | TG_no_object | TG_json tg_json

datatype tg_error = Cannot_read | Not_valid_json | Malformed | Malformed_mark tg_kind | Cannot_persist

subsection \<open>Operations\<close>

definition well_formed_mark :: "jfield \<Rightarrow> bool" where
  "well_formed_mark f = (case f of F_absent \<Rightarrow> True | F_int _ \<Rightarrow> True | _ \<Rightarrow> False)"

definition loaded_mark :: "jfield \<Rightarrow> jsnum option" where
  "loaded_mark f = (case f of F_int i \<Rightarrow> Some (Num i) | _ \<Rightarrow> None)"

definition tg_load :: "tg_file \<Rightarrow> time_guard \<Rightarrow> tg_error + time_guard" where
  "tg_load disk g =
     (if \<not> tg_path g then Inr g
      else case disk of
        TG_missing \<Rightarrow> Inr g
      | TG_unreadable \<Rightarrow> Inl Cannot_read
      | TG_not_json \<Rightarrow> Inl Not_valid_json
      | TG_no_object \<Rightarrow> Inl Malformed
      | TG_json raw \<Rightarrow>
          if tj_epochSeconds raw \<noteq> F_int (tg_epochSeconds g) \<or> tj_seasonSeconds raw \<noteq> F_int (tg_seasonSeconds g) then Inr g
          else if \<not> well_formed_mark (tj_epoch raw) then Inl (Malformed_mark Epoch)
          else if \<not> well_formed_mark (tj_season raw) then Inl (Malformed_mark Season)
          else Inr (g\<lparr>tg_marks := \<lparr>tm_epoch = loaded_mark (tj_epoch raw), tm_season = loaded_mark (tj_season raw)\<rparr>,
                      tg_regression := tj_regression raw\<rparr>))"

definition TimeGuard_new :: "tg_file \<Rightarrow> bool \<Rightarrow> int \<Rightarrow> int \<Rightarrow> tg_error + time_guard" where
  "TimeGuard_new disk path epochSeconds seasonSeconds =
     tg_load disk \<lparr>tg_path = path, tg_epochSeconds = epochSeconds, tg_seasonSeconds = seasonSeconds,
       tg_marks = \<lparr>tm_epoch = None, tm_season = None\<rparr>, tg_regression = None\<rparr>"

text \<open>\<open>JSON.stringify\<close> writes a number that is not finite as \<open>null\<close>.\<close>

definition stored_mark :: "jsnum option \<Rightarrow> jfield" where
  "stored_mark m = (case m of Some (Num i) \<Rightarrow> F_int i | _ \<Rightarrow> F_absent)"

definition tg_body :: "time_guard \<Rightarrow> tg_json" where
  "tg_body g = \<lparr>tj_epochSeconds = F_int (tg_epochSeconds g), tj_seasonSeconds = F_int (tg_seasonSeconds g),
     tj_epoch = stored_mark (tm_epoch (tg_marks g)), tj_season = stored_mark (tm_season (tg_marks g)),
     tj_regression = tg_regression g\<rparr>"

text \<open>\<open>ok\<close>: the directory, the write, the flush and the rename all went through. Otherwise it throws.\<close>

definition tg_persist :: "bool \<Rightarrow> time_guard \<Rightarrow> tg_file \<Rightarrow> tg_file \<times> tg_error option" where
  "tg_persist ok g disk =
     (if \<not> tg_path g then (disk, None)
      else if ok then (TG_json (tg_body g), None)
      else (disk, Some Cannot_persist))"

definition answer_or_throw :: "jsnum \<Rightarrow> tg_error option \<Rightarrow> tg_error + jsnum" where
  "answer_or_throw v e = (case e of None \<Rightarrow> Inr v | Some err \<Rightarrow> Inl err)"

definition observe :: "tg_kind \<Rightarrow> jsnum \<Rightarrow> int \<Rightarrow> bool \<Rightarrow> time_guard \<Rightarrow> tg_file \<Rightarrow>
    time_guard \<times> tg_file \<times> (tg_error + jsnum)" where
  "observe kind v nowSec ok g disk =
     (case mark_of kind (tg_marks g) of
        Some mark \<Rightarrow>
          if mark < v then
            (let g1 = g\<lparr>tg_marks := set_mark kind v (tg_marks g)\<rparr>; (disk1, e) = tg_persist ok g1 disk in
             (g1, disk1, answer_or_throw v e))
          else if v < mark \<and> tg_regression g = None then
            (let g1 = g\<lparr>tg_regression := Some \<lparr>tr_kind = kind, tr_observed = v, tr_mark = mark, tr_at = nowSec\<rparr>\<rparr>;
                 (disk1, e) = tg_persist ok g1 disk in
             (g1, disk1, answer_or_throw v e))
          else (g, disk, Inr v)
      | None \<Rightarrow>
          (let g1 = g\<lparr>tg_marks := set_mark kind v (tg_marks g)\<rparr>; (disk1, e) = tg_persist ok g1 disk in
           (g1, disk1, answer_or_throw v e)))"

definition TimeGuard_epoch :: "int \<Rightarrow> bool \<Rightarrow> time_guard \<Rightarrow> tg_file \<Rightarrow> time_guard \<times> tg_file \<times> (tg_error + jsnum)" where
  "TimeGuard_epoch nowSec ok g = observe Epoch (epochNow (tg_epochSeconds g) nowSec) nowSec ok g"

definition TimeGuard_season :: "int \<Rightarrow> bool \<Rightarrow> time_guard \<Rightarrow> tg_file \<Rightarrow> time_guard \<times> tg_file \<times> (tg_error + jsnum)" where
  "TimeGuard_season nowSec ok g = observe Season (seasonNow (tg_seasonSeconds g) nowSec) nowSec ok g"

definition TimeGuard_regressed :: "time_guard \<Rightarrow> bool" where
  "TimeGuard_regressed g \<longleftrightarrow> tg_regression g \<noteq> None"

subsection \<open>A history: readings of the clock, and restarts of the process\<close>

datatype tg_op = Read_clock tg_kind int bool | Restart

type_synonym tg_served = "tg_kind \<times> int \<times> bool"

definition read_clock :: "tg_kind \<Rightarrow> int \<Rightarrow> bool \<Rightarrow> time_guard \<Rightarrow> tg_file \<Rightarrow> time_guard \<times> tg_file \<times> (tg_error + jsnum)" where
  "read_clock kind nowSec ok = (case kind of Epoch \<Rightarrow> TimeGuard_epoch nowSec ok | Season \<Rightarrow> TimeGuard_season nowSec ok)"

text \<open>What was served: each number returned, and whether the guard then refuses. A restart that throws ends the run.\<close>

fun tg_run :: "tg_op list \<Rightarrow> time_guard \<Rightarrow> tg_file \<Rightarrow> tg_served list" where
  "tg_run [] g disk = []"
| "tg_run (Read_clock kind nowSec ok # ops) g disk =
     (let (g1, disk1, r) = read_clock kind nowSec ok g disk in
      (case r of Inr (Num v) \<Rightarrow> [(kind, v, TimeGuard_regressed g1)] | _ \<Rightarrow> []) @ tg_run ops g1 disk1)"
| "tg_run (Restart # ops) g disk =
     (case TimeGuard_new disk (tg_path g) (tg_epochSeconds g) (tg_seasonSeconds g) of
        Inl e \<Rightarrow> []
      | Inr g1 \<Rightarrow> tg_run ops g1 disk)"

definition persists :: "tg_op \<Rightarrow> bool" where
  "persists op = (case op of Read_clock _ _ ok \<Rightarrow> ok | Restart \<Rightarrow> True)"

subsection \<open>The file and the memory agree\<close>

definition num_mark :: "jsnum option \<Rightarrow> bool" where
  "num_mark m = (case m of None \<Rightarrow> True | Some v \<Rightarrow> js_isFinite v)"

definition tg_inv :: "time_guard \<Rightarrow> tg_file \<Rightarrow> bool" where
  "tg_inv g disk \<longleftrightarrow> tg_path g \<and> tg_epochSeconds g \<noteq> 0 \<and> tg_seasonSeconds g \<noteq> 0 \<and>
     num_mark (tm_epoch (tg_marks g)) \<and> num_mark (tm_season (tg_marks g)) \<and>
     TimeGuard_new disk True (tg_epochSeconds g) (tg_seasonSeconds g) = Inr g"

lemma stored_loaded: "num_mark m \<Longrightarrow> loaded_mark (stored_mark m) = m \<and> well_formed_mark (stored_mark m)"
  by (auto simp: num_mark_def loaded_mark_def stored_mark_def well_formed_mark_def js_isFinite_iff split: option.splits)

lemma persisted_loads:
  "tg_path g \<Longrightarrow> num_mark (tm_epoch (tg_marks g)) \<Longrightarrow> num_mark (tm_season (tg_marks g)) \<Longrightarrow>
   TimeGuard_new (TG_json (tg_body g)) True (tg_epochSeconds g) (tg_seasonSeconds g) = Inr g"
  using stored_loaded by (cases g) (simp add: TimeGuard_new_def tg_load_def tg_body_def)

lemma mark_simps [simp]:
  "mark_of k (set_mark k' v m) = (if k = k' then Some v else mark_of k m)"
  by (cases k; cases k') (auto simp: mark_of_def set_mark_def)

lemma set_mark_num: "num_mark (tm_epoch m) \<Longrightarrow> num_mark (tm_season m) \<Longrightarrow>
   num_mark (tm_epoch (set_mark k (Num v) m)) \<and> num_mark (tm_season (set_mark k (Num v) m))"
  by (cases k) (auto simp: set_mark_def num_mark_def)

lemma clock_value:
  assumes "tg_inv g disk"
  obtains v where "read_clock k t ok g disk = observe k (Num v) t ok g disk"
  using assms by (cases k) (auto simp: read_clock_def TimeGuard_epoch_def TimeGuard_season_def tg_inv_def
      epochNow_Num seasonNow_Num)

definition at_least :: "jsnum option \<Rightarrow> int \<Rightarrow> bool" where
  "at_least m v \<longleftrightarrow> (\<exists>w \<ge> v. m = Some (Num w))"

text \<open>One reading whose writes go through.\<close>

lemma observe_cases:
  assumes "tg_inv g disk"
  obtains (advanced) g1 where "observe k (Num v) t True g disk = (g1, TG_json (tg_body g1), Inr (Num v))"
      "g1 = g\<lparr>tg_marks := set_mark k (Num v) (tg_marks g)\<rparr>" "case mark_of k (tg_marks g) of None \<Rightarrow> True | Some m \<Rightarrow> m < Num v"
  | (regressed) g1 r where "observe k (Num v) t True g disk = (g1, TG_json (tg_body g1), Inr (Num v))"
      "g1 = g\<lparr>tg_regression := Some r\<rparr>" "at_least (mark_of k (tg_marks g)) v"
  | (same) m where "observe k (Num v) t True g disk = (g, disk, Inr (Num v))" "mark_of k (tg_marks g) = Some (Num m)"
      "v \<le> m" "v < m \<longrightarrow> TimeGuard_regressed g"
proof (cases "mark_of k (tg_marks g)")
  case None
  then show ?thesis
    using assms advanced None by (simp add: observe_def tg_persist_def tg_inv_def answer_or_throw_def Let_def)
next
  case (Some mark)
  then obtain m where m: "mark = Num m"
    using assms by (cases k) (auto simp: tg_inv_def mark_of_def num_mark_def js_isFinite_iff)
  consider "m < v" | "v < m" "tg_regression g = None" | "v \<le> m" "v < m \<longrightarrow> tg_regression g \<noteq> None"
    by linarith
  then show ?thesis
  proof cases
    case 1
    then show ?thesis
      using assms advanced Some m by (simp add: observe_def tg_persist_def tg_inv_def answer_or_throw_def Let_def)
  next
    case 2
    then show ?thesis
      using assms regressed Some m by (simp add: observe_def tg_persist_def tg_inv_def answer_or_throw_def at_least_def Let_def)
  next
    case 3
    then show ?thesis
      using same Some m by (auto simp: observe_def TimeGuard_regressed_def)
  qed
qed

lemma read_step:
  assumes "tg_inv g disk" "read_clock k t True g disk = (g1, disk1, res)"
  shows "\<exists>v. res = Inr (Num v) \<and> tg_inv g1 disk1 \<and> at_least (mark_of k (tg_marks g1)) v \<and>
    (TimeGuard_regressed g \<longrightarrow> TimeGuard_regressed g1) \<and>
    (\<forall>k' w. at_least (mark_of k' (tg_marks g)) w \<longrightarrow> at_least (mark_of k' (tg_marks g1)) w) \<and>
    (\<forall>w. at_least (mark_of k (tg_marks g)) w \<longrightarrow> v < w \<longrightarrow> TimeGuard_regressed g1)"
proof -
  obtain v where v: "observe k (Num v) t True g disk = (g1, disk1, res)"
    using clock_value [OF assms(1)] assms(2) by metis
  from assms(1) show ?thesis
  proof (cases rule: observe_cases [where k = k and v = v and t = t])
    case (advanced h)
    have "tg_inv g1 disk1"
      using advanced(1,2) v assms(1) persisted_loads [of h] set_mark_num [of "tg_marks g" k v] by (auto simp: tg_inv_def)
    moreover have "g1 = h" "res = Inr (Num v)"
      using advanced(1) v by simp_all
    ultimately show ?thesis
      using advanced(2,3) by (auto simp: at_least_def TimeGuard_regressed_def)
  next
    case (regressed h r)
    have "tg_inv g1 disk1"
      using regressed(1,2) v assms(1) persisted_loads [of h] by (auto simp: tg_inv_def)
    moreover have "at_least (mark_of k (tg_marks g1)) v"
      using regressed v by auto
    moreover have "g1 = h" "res = Inr (Num v)"
      using regressed(1) v by simp_all
    ultimately show ?thesis
      using regressed(2) by (auto simp: TimeGuard_regressed_def)
  next
    case (same m)
    then show ?thesis
      using v assms(1) by (auto simp: at_least_def)
  qed
qed

lemma restart_same: "tg_inv g disk \<Longrightarrow> TimeGuard_new disk (tg_path g) (tg_epochSeconds g) (tg_seasonSeconds g) = Inr g"
  by (simp add: tg_inv_def)

subsection \<open>Served numbers do not go back unnoticed\<close>

lemma run_below_mark:
  "tg_inv g disk \<Longrightarrow> list_all persists ops \<Longrightarrow> (k, w, r) \<in> set (tg_run ops g disk) \<Longrightarrow>
   (\<exists>v > w. at_least (mark_of k (tg_marks g)) v) \<or> TimeGuard_regressed g \<Longrightarrow> r"
proof (induction ops g disk rule: tg_run.induct)
  case (2 kind t ok ops g disk)
  obtain g1 disk1 res where rc: "read_clock kind t ok g disk = (g1, disk1, res)"
    by (cases "read_clock kind t ok g disk")
  have "read_clock kind t True g disk = (g1, disk1, res)"
    using "2.prems"(2) rc by (simp add: persists_def)
  from read_step [OF "2.prems"(1) this] obtain v where v: "res = Inr (Num v)" "tg_inv g1 disk1" "TimeGuard_regressed g \<longrightarrow> TimeGuard_regressed g1"
      "\<forall>k' w. at_least (mark_of k' (tg_marks g)) w \<longrightarrow> at_least (mark_of k' (tg_marks g1)) w"
      "\<forall>w. at_least (mark_of kind (tg_marks g)) w \<longrightarrow> v < w \<longrightarrow> TimeGuard_regressed g1"
    by blast
  have IH: "(k, w, r) \<in> set (tg_run ops g1 disk1) \<Longrightarrow> r"
    using "2.IH" [OF rc [symmetric] refl refl v(2)] "2.prems"(2,4) v(3,4) by auto
  have "(k, w, r) = (kind, v, TimeGuard_regressed g1) \<or> (k, w, r) \<in> set (tg_run ops g1 disk1)"
    using "2.prems"(3) rc v(1) by simp
  then show ?case
    using IH v(3,5) "2.prems"(4) by auto
qed (simp_all add: restart_same)

lemma run_ordered:
  "tg_inv g disk \<Longrightarrow> list_all persists ops \<Longrightarrow> tg_run ops g disk = as @ (k, v, r1) # bs \<Longrightarrow> (k, w, r2) \<in> set bs \<Longrightarrow>
   w < v \<or> r1 \<Longrightarrow> r2"
proof (induction ops g disk arbitrary: as rule: tg_run.induct)
  case (2 kind t ok ops g disk)
  obtain g1 disk1 res where rc: "read_clock kind t ok g disk = (g1, disk1, res)"
    by (cases "read_clock kind t ok g disk")
  have "read_clock kind t True g disk = (g1, disk1, res)"
    using "2.prems"(2) rc by (simp add: persists_def)
  from read_step [OF "2.prems"(1) this] obtain u where u: "res = Inr (Num u)" "tg_inv g1 disk1" "at_least (mark_of kind (tg_marks g1)) u"
    by blast
  have run: "(kind, u, TimeGuard_regressed g1) # tg_run ops g1 disk1 = as @ (k, v, r1) # bs"
    using "2.prems"(3) rc u(1) by simp
  show ?case
  proof (cases as)
    case Nil
    then have "k = kind" "v = u" "r1 = TimeGuard_regressed g1" "bs = tg_run ops g1 disk1"
      using run by auto
    then show ?thesis
      using run_below_mark [OF u(2), of ops k w r2] "2.prems"(2,4,5) u(3) by auto
  next
    case (Cons a as')
    then show ?thesis
      using "2.IH" [OF rc [symmetric] refl refl u(2), of as'] run "2.prems"(2,4,5) by auto
  qed
qed (simp_all add: restart_same)

text \<open>C40: the clock guard does its job. While its writes go through, and whatever the clock does and
  however often the process restarts in between, an epoch or season number below one served before
  is served only with the guard raised, and once raised it stays raised.\<close>

theorem time_never_goes_back_unnoticed:
  assumes "TimeGuard_new disk True es ss = Inr g" "es \<noteq> 0" "ss \<noteq> 0" "list_all persists ops"
    and "tg_run ops g disk = as @ (k, v, r1) # bs" "(k, w, r2) \<in> set bs" "w < v \<or> r1"
  shows "r2"
proof -
  have num: "num_mark (loaded_mark f)" for f
    by (cases f) (simp_all add: num_mark_def loaded_mark_def)
  have none: "num_mark None"
    by (simp add: num_mark_def)
  have "tg_path g \<and> tg_epochSeconds g = es \<and> tg_seasonSeconds g = ss \<and>
      num_mark (tm_epoch (tg_marks g)) \<and> num_mark (tm_season (tg_marks g))"
    using assms(1) by (cases disk) (auto simp: TimeGuard_new_def tg_load_def num none split: if_splits)
  then have "tg_inv g disk"
    using assms(1-3) by (simp add: tg_inv_def)
  then show ?thesis
    using run_ordered assms(4-7) by blast
qed

theorem time_never_goes_back_unnoticed_witness:
  "\<exists>g. TimeGuard_new TG_missing True 10 100 = Inr g \<and>
     tg_run [Read_clock Season 250 True, Restart, Read_clock Season 190 True] g TG_missing =
       [(Season, 2, False), (Season, 1, True)]"
proof -
  let ?g = "\<lparr>tg_path = True, tg_epochSeconds = 10, tg_seasonSeconds = 100,
    tg_marks = \<lparr>tm_epoch = None, tm_season = None\<rparr>, tg_regression = None\<rparr>"
  let ?ops = "[Read_clock Season 250 True, Restart, Read_clock Season 190 True]"
  have g: "TimeGuard_new TG_missing True 10 100 = Inr ?g"
    by (simp add: TimeGuard_new_def tg_load_def)
  obtain r where r: "tg_run ?ops ?g TG_missing = [] @ (Season, 2, False) # [(Season, 1, r)]"
    by (simp add: read_clock_def TimeGuard_season_def observe_def seasonNow_def js_floor_div_def mark_of_def set_mark_def
        tg_persist_def answer_or_throw_def TimeGuard_regressed_def TimeGuard_new_def tg_load_def tg_body_def stored_mark_def
        loaded_mark_def well_formed_mark_def)
  moreover have r
    by (rule time_never_goes_back_unnoticed [OF g _ _ _ r]) (auto simp: persists_def)
  ultimately show ?thesis
    using g by auto
qed

text \<open>
  The hypothesis on the writes is needed: a mark whose write failed is not written again when the
  same number is read next, so a restart forgets a number that was served.
\<close>

lemma unwritten_mark_is_forgotten:
  "\<exists>g. TimeGuard_new TG_missing True 10 100 = Inr g \<and>
     tg_run [Read_clock Season 250 False, Read_clock Season 250 True, Restart, Read_clock Season 190 True] g TG_missing =
       [(Season, 2, False), (Season, 1, False)]"
  by (simp add: read_clock_def TimeGuard_season_def observe_def seasonNow_def js_floor_div_def mark_of_def set_mark_def
      tg_persist_def answer_or_throw_def TimeGuard_regressed_def TimeGuard_new_def tg_load_def tg_body_def stored_mark_def
      loaded_mark_def well_formed_mark_def)

end
