(* ===== verification/Season_Members.thy ===== *)
theory Season_Members
  imports Members_Tree Root_Windows Reg_Records
begin

section \<open>The members of a season (core/season.js)\<close>

text \<open>
  One members tree per context of the current season, a cache of the durable registration records.
  Every operation runs alone on the class's serial queue, so each is one function of the state here.
  A store read that throws is a value of \<open>fails\<close>; the durable write of a commit is the argument
  \<open>durable\<close>, which returns the new view and what it reported (or that it threw, with the record
  written or not). The Poseidon hasher is the parameter of the members tree.
\<close>

subsection \<open>State\<close>

record 'n season_ctx =
  sc_tree :: "'n members_tree"
  sc_roots :: root_store

record 'n season_members =
  sm_monotonic :: bool
  sm_depth :: nat
  sm_rootWindow :: nat
  sm_emptyRoot :: string
  sm_emptyRoots :: root_store
  sm_current :: "int option"
  sm_ctx :: "(string, 'n season_ctx) jsmap"

datatype season_error = Roll_back int int | Store_failed | Tree_failed merkle_error | Durable_threw

datatype commit_refusal =
    Season_rolled | Already_registered | Tree_full nat | Clock_regressed | Statement_mismatch reg_declaration
  | Invalid_statement | Stale_root | Unrecognised | Index_mismatch

datatype commit_result = Committed nat string nat | Not_committed commit_refusal

datatype durable_result =
    D_threw | D_duplicate | D_conflict reg_declaration | D_invalid | D_stale_root | D_index nat | D_other

datatype sm_read = Read_materialize | Read_reconcile | Read_has

definition SeasonMembers_new :: "bool \<Rightarrow> nat \<Rightarrow> nat \<Rightarrow> string \<Rightarrow> jsnum \<Rightarrow> 'n season_members" where
  "SeasonMembers_new monotonic depth window emptyRoot now =
     \<lparr>sm_monotonic = monotonic, sm_depth = depth, sm_rootWindow = window, sm_emptyRoot = emptyRoot,
      sm_emptyRoots = RootStore_update [\<lparr>re_height = 0, re_root = emptyRoot, re_ts = now\<rparr>] (RootStore_new window),
      sm_current = None, sm_ctx = []\<rparr>"

subsection \<open>Rolling, building, rebuilding\<close>

definition sm_roll :: "int \<Rightarrow> 'n season_members \<Rightarrow> season_error + 'n season_members" where
  "sm_roll season sm =
     (case sm_current sm of
        Some c \<Rightarrow>
          if sm_monotonic sm \<and> season < c then Inl (Roll_back c season)
          else if c \<noteq> season then Inr (sm\<lparr>sm_ctx := [], sm_current := Some season\<rparr>)
          else Inr sm
      | None \<Rightarrow> Inr (sm\<lparr>sm_ctx := [], sm_current := Some season\<rparr>))"

definition tree_entry :: "'n poseidon \<Rightarrow> jsnum \<Rightarrow> 'n members_tree \<Rightarrow> root_entry" where
  "tree_entry P now t = \<lparr>re_height = int (MembersTree_size t), re_root = MembersTree_root P t, re_ts = now\<rparr>"

definition set_context :: "'n poseidon \<Rightarrow> jsnum \<Rightarrow> string \<Rightarrow> 'n members_tree \<Rightarrow> root_store \<Rightarrow> 'n season_members \<Rightarrow> 'n season_members" where
  "set_context P now ctx t roots sm =
     sm\<lparr>sm_ctx := jm_set ctx \<lparr>sc_tree = t, sc_roots = RootStore_update [tree_entry P now t] roots\<rparr> (sm_ctx sm)\<rparr>"

definition materializeFrom :: "'n poseidon \<Rightarrow> jsnum \<Rightarrow> string \<Rightarrow> reg_rec list \<Rightarrow> 'n season_members \<Rightarrow> season_error + 'n season_members" where
  "materializeFrom P now ctx records sm =
     (case fromCommitments P (map rr_commitment records) (sm_depth sm) of
        Inl e \<Rightarrow> Inl (Tree_failed e)
      | Inr t \<Rightarrow> Inr (set_context P now ctx t (RootStore_new (sm_rootWindow sm)) sm))"

definition rebuildTreePreservingRoots :: "'n poseidon \<Rightarrow> jsnum \<Rightarrow> string \<Rightarrow> reg_rec list \<Rightarrow> 'n season_members
    \<Rightarrow> season_error + 'n season_members" where
  "rebuildTreePreservingRoots P now ctx records sm =
     (case fromCommitments P (map rr_commitment records) (sm_depth sm) of
        Inl e \<Rightarrow> Inl (Tree_failed e)
      | Inr t \<Rightarrow> Inr (set_context P now ctx t
          (case jm_get (sm_ctx sm) ctx of Some c \<Rightarrow> sc_roots c | None \<Rightarrow> RootStore_new (sm_rootWindow sm)) sm))"

definition sm_size :: "string \<Rightarrow> 'n season_members \<Rightarrow> nat" where
  "sm_size ctx sm = (case jm_get (sm_ctx sm) ctx of Some c \<Rightarrow> MembersTree_size (sc_tree c) | None \<Rightarrow> 0)"

definition durable_records :: "string \<Rightarrow> 'n season_members \<Rightarrow> reg_view \<Rightarrow> reg_rec list" where
  "durable_records ctx sm v = (case sm_current sm of Some season \<Rightarrow> forSeasonContext season ctx v | None \<Rightarrow> [])"

definition reconcileIfBehind :: "'n poseidon \<Rightarrow> bool \<Rightarrow> jsnum \<Rightarrow> string \<Rightarrow> reg_view \<Rightarrow> 'n season_members
    \<Rightarrow> season_error + 'n season_members \<times> bool" where
  "reconcileIfBehind P failed now ctx v sm =
     (if failed then Inl Store_failed
      else let records = durable_records ctx sm v in
        if sm_size ctx sm < length records
        then (case rebuildTreePreservingRoots P now ctx records sm of Inl e \<Rightarrow> Inl e | Inr sm1 \<Rightarrow> Inr (sm1, True))
        else Inr (sm, False))"

subsection \<open>The queue's operations\<close>

definition SeasonMembers_ensure :: "int \<Rightarrow> 'n season_members \<Rightarrow> season_error + 'n season_members" where
  "SeasonMembers_ensure season sm = sm_roll season sm"

definition SeasonMembers_ensureContext :: "'n poseidon \<Rightarrow> (sm_read \<Rightarrow> bool) \<Rightarrow> jsnum \<Rightarrow> int \<Rightarrow> string \<Rightarrow> reg_view \<Rightarrow> 'n season_members
    \<Rightarrow> 'n season_members \<times> season_error option" where
  "SeasonMembers_ensureContext P fails now season ctx v sm =
     (case sm_roll season sm of
        Inl e \<Rightarrow> (sm, Some e)
      | Inr sm1 \<Rightarrow>
          if jm_has (sm_ctx sm1) ctx then (sm1, None)
          else if fails Read_materialize then (sm1, Some Store_failed)
          else let records = durable_records ctx sm1 v in
            if records = [] then (sm1, None)
            else (case materializeFrom P now ctx records sm1 of
                    Inl e \<Rightarrow> (sm1, Some e)
                  | Inr sm2 \<Rightarrow> (sm2, None)))"

datatype recover_result = Rebuilt bool nat | Recover_season_rolled

definition SeasonMembers_recoverMember :: "'n poseidon \<Rightarrow> (sm_read \<Rightarrow> bool) \<Rightarrow> jsnum \<Rightarrow> int \<Rightarrow> string \<Rightarrow> reg_view \<Rightarrow> 'n season_members
    \<Rightarrow> 'n season_members \<times> (season_error + recover_result)" where
  "SeasonMembers_recoverMember P fails now season ctx v sm =
     (if sm_current sm \<noteq> Some season then (sm, Inr Recover_season_rolled)
      else case reconcileIfBehind P (fails Read_reconcile) now ctx v sm of
        Inl e \<Rightarrow> (sm, Inl e)
      | Inr (sm1, rebuilt) \<Rightarrow> (sm1, Inr (Rebuilt rebuilt (sm_size ctx sm1))))"

text \<open>Commit, first part: the context is built on first use and brought up to its durable records.\<close>

definition sm_materialize :: "'n poseidon \<Rightarrow> (sm_read \<Rightarrow> bool) \<Rightarrow> jsnum \<Rightarrow> string \<Rightarrow> reg_view \<Rightarrow> 'n season_members
    \<Rightarrow> season_error + 'n season_members" where
  "sm_materialize P fails now ctx v sm =
     (if jm_has (sm_ctx sm) ctx then Inr sm
      else if fails Read_materialize then Inl Store_failed
      else materializeFrom P now ctx (durable_records ctx sm v) sm)"

definition commit_prepare :: "'n poseidon \<Rightarrow> (sm_read \<Rightarrow> bool) \<Rightarrow> jsnum \<Rightarrow> string \<Rightarrow> reg_view \<Rightarrow> 'n season_members
    \<Rightarrow> 'n season_members \<times> season_error option" where
  "commit_prepare P fails now ctx v sm =
     (case sm_materialize P fails now ctx v sm of
        Inl e \<Rightarrow> (sm, Some e)
      | Inr sm1 \<Rightarrow>
          (case reconcileIfBehind P (fails Read_reconcile) now ctx v sm1 of
             Inl e \<Rightarrow> (sm1, Some e)
           | Inr (sm2, _) \<Rightarrow> (sm2, None)))"

text \<open>Last part: what the durable write reported, and the append to the live tree.\<close>

definition commit_settle :: "'n poseidon \<Rightarrow> jsnum \<Rightarrow> string \<Rightarrow> string \<Rightarrow> durable_result \<Rightarrow> 'n season_ctx \<Rightarrow> 'n season_members
    \<Rightarrow> 'n season_members \<times> (season_error + commit_result)" where
  "commit_settle P now ctx commitment res c sm =
     (case res of
        D_threw \<Rightarrow> (sm, Inl Durable_threw)
      | D_duplicate \<Rightarrow> (sm, Inr (Not_committed Already_registered))
      | D_conflict declared \<Rightarrow> (sm, Inr (Not_committed (Statement_mismatch declared)))
      | D_invalid \<Rightarrow> (sm, Inr (Not_committed Invalid_statement))
      | D_stale_root \<Rightarrow> (sm, Inr (Not_committed Stale_root))
      | D_other \<Rightarrow> (sm, Inr (Not_committed Unrecognised))
      | D_index index \<Rightarrow>
          if index \<noteq> MembersTree_size (sc_tree c) then (sm, Inr (Not_committed Index_mismatch))
          else (case MembersTree_append P commitment (sc_tree c) of
                  Inl e \<Rightarrow> (sm, Inl (Tree_failed e))
                | Inr (_, t) \<Rightarrow>
                    (set_context P now ctx t (sc_roots c) sm,
                     Inr (Committed index (MembersTree_root P t) (MembersTree_size t)))))"

text \<open>
  \<open>live\<close> is the guarded clock's season as read right before the write (\<open>None\<close> when no clock was
  given), \<open>regressed\<close> whether that clock has gone back.
\<close>

definition SeasonMembers_commit :: "'n poseidon \<Rightarrow> (sm_read \<Rightarrow> bool) \<Rightarrow> jsnum \<Rightarrow> int option \<Rightarrow> bool \<Rightarrow> int \<Rightarrow> string \<Rightarrow> string
    \<Rightarrow> (reg_view \<Rightarrow> reg_view \<times> durable_result) \<Rightarrow> string option \<Rightarrow> 'n season_members \<Rightarrow> reg_view
    \<Rightarrow> 'n season_members \<times> reg_view \<times> (season_error + commit_result)" where
  "SeasonMembers_commit P fails now live regressed season ctx commitment durable regNullifier sm v =
     (if sm_current sm \<noteq> Some season then (sm, v, Inr (Not_committed Season_rolled))
      else case commit_prepare P fails now ctx v sm of
        (sm1, Some e) \<Rightarrow> (sm1, v, Inl e)
      | (sm1, None) \<Rightarrow>
          (let c = the (jm_get (sm_ctx sm1) ctx) in
           if regNullifier \<noteq> None \<and> fails Read_has then (sm1, v, Inl Store_failed)
           else if (case regNullifier of None \<Rightarrow> False | Some nf \<Rightarrow> MemoryRegistrationBackend_has season ctx nf v)
           then (sm1, v, Inr (Not_committed Already_registered))
           else if MembersTree_full (sc_tree c)
           then (sm1, v, Inr (Not_committed (Tree_full (MembersTree_capacity (sc_tree c)))))
           else if (case live of None \<Rightarrow> False | Some l \<Rightarrow> l \<noteq> season) then (sm1, v, Inr (Not_committed Season_rolled))
           else if regressed then (sm1, v, Inr (Not_committed Clock_regressed))
           else let (v1, res) = durable v; (sm2, out) = commit_settle P now ctx commitment res c sm1 in (sm2, v1, out)))"

text \<open>
  The durable write the gateway's \<open>/v1/register\<close> hands to \<open>commit\<close>: the anchor is asked once
  more, then the record is appended. \<open>threw\<close> says that the append's promise was rejected, and
  whether the record is in the log all the same.
\<close>

definition durable_of_outcome :: "append_outcome \<Rightarrow> durable_result" where
  "durable_of_outcome out =
     (case out of
        Appended i \<Rightarrow> D_index i
      | Duplicate \<Rightarrow> D_duplicate
      | Conflict d \<Rightarrow> D_conflict d
      | _ \<Rightarrow> D_invalid)"

definition register_durable :: "bool \<Rightarrow> bool option \<Rightarrow> reg_call \<Rightarrow> reg_view \<Rightarrow> reg_view \<times> durable_result" where
  "register_durable eligible threw c v =
     (if \<not> eligible then (v, D_stale_root)
      else let (v1, out) = RegistrationStore_append MemoryRegistrationBackend_append c v in
        case threw of
          None \<Rightarrow> (v1, durable_of_outcome out)
        | Some landed \<Rightarrow> (if landed then v1 else v, D_threw))"

subsection \<open>Read-only views\<close>

definition rootCurrent :: "jsnum \<Rightarrow> string \<Rightarrow> 'n season_members \<Rightarrow> root_entry" where
  "rootCurrent now ctx sm =
     (let empty = \<lparr>re_height = 0, re_root = sm_emptyRoot sm, re_ts = now\<rparr> in
      case jm_get (sm_ctx sm) ctx of
        None \<Rightarrow> empty
      | Some c \<Rightarrow> (case RootStore_current (sc_roots c) of None \<Rightarrow> empty | Some r \<Rightarrow> r))"

definition rootStore :: "string \<Rightarrow> 'n season_members \<Rightarrow> root_store" where
  "rootStore ctx sm = (case jm_get (sm_ctx sm) ctx of Some c \<Rightarrow> sc_roots c | None \<Rightarrow> sm_emptyRoots sm)"

definition sm_root :: "'n poseidon \<Rightarrow> string \<Rightarrow> 'n season_members \<Rightarrow> string" where
  "sm_root P ctx sm = (case jm_get (sm_ctx sm) ctx of Some c \<Rightarrow> MembersTree_root P (sc_tree c) | None \<Rightarrow> sm_emptyRoot sm)"

definition sm_commitments :: "string \<Rightarrow> 'n season_members \<Rightarrow> string list" where
  "sm_commitments ctx sm = (case jm_get (sm_ctx sm) ctx of Some c \<Rightarrow> mt_commitments (sc_tree c) | None \<Rightarrow> [])"

definition contextCount :: "'n season_members \<Rightarrow> nat" where
  "contextCount sm = length (sm_ctx sm)"

subsection \<open>The invariant: every tree and every accepted root is of a prefix of the durable records\<close>

definition durable_commitments :: "string \<Rightarrow> 'n season_members \<Rightarrow> reg_view \<Rightarrow> string list" where
  "durable_commitments ctx sm v = map rr_commitment (durable_records ctx sm v)"

definition root_of_prefix :: "'n poseidon \<Rightarrow> nat \<Rightarrow> string list \<Rightarrow> root_entry \<Rightarrow> bool" where
  "root_of_prefix P d cs r \<longleftrightarrow> (\<exists>n \<le> length cs. re_height r = int n \<and> rootFromLeaves P d (take n cs) = Inr (re_root r))"

definition tree_of :: "'n poseidon \<Rightarrow> nat \<Rightarrow> string list \<Rightarrow> 'n members_tree \<Rightarrow> bool" where
  "tree_of P d cs t \<longleftrightarrow> mt_commitments t = cs \<and> mt_depth t = d \<and> (\<exists>xs. mt_inv P xs t)"

definition roots_of :: "'n poseidon \<Rightarrow> nat \<Rightarrow> nat \<Rightarrow> string list \<Rightarrow> root_store \<Rightarrow> bool" where
  "roots_of P d w cs s \<longleftrightarrow> root_store_reach w s \<and> (\<forall>r \<in> set (rs_roots s). root_of_prefix P d cs r)"

definition ctx_ok :: "'n poseidon \<Rightarrow> nat \<Rightarrow> nat \<Rightarrow> string list \<Rightarrow> 'n season_ctx \<Rightarrow> bool" where
  "ctx_ok P d w cs c \<longleftrightarrow> (\<exists>n \<le> length cs. tree_of P d (take n cs) (sc_tree c)) \<and> roots_of P d w cs (sc_roots c)"

definition sm_inv :: "'n poseidon \<Rightarrow> 'n season_members \<Rightarrow> reg_view \<Rightarrow> bool" where
  "sm_inv P sm v \<longleftrightarrow> (sm_current sm = None \<longrightarrow> sm_ctx sm = []) \<and>
     (\<forall>ctx c. jm_get (sm_ctx sm) ctx = Some c \<longrightarrow> ctx_ok P (sm_depth sm) (sm_rootWindow sm) (durable_commitments ctx sm v) c)"

lemma tree_of_root: "tree_of P d cs t \<Longrightarrow> rootFromLeaves P d cs = Inr (MembersTree_root P t)"
  using mt_inv_rootFromLeaves by (auto simp: tree_of_def)

lemma tree_of_size: "tree_of P d cs t \<Longrightarrow> MembersTree_size t = length cs"
  by (simp add: tree_of_def MembersTree_size_def)

lemma fromCommitments_tree_of: "fromCommitments P cs d = Inr t \<Longrightarrow> tree_of P d cs t"
  by (auto simp: tree_of_def elim!: fromCommitments_result)

lemma root_of_prefix_grows: "root_of_prefix P d cs r \<Longrightarrow> root_of_prefix P d (cs @ ds) r"
  unfolding root_of_prefix_def by fastforce

lemma roots_of_grows: "roots_of P d w cs s \<Longrightarrow> roots_of P d w (cs @ ds) s"
  using root_of_prefix_grows unfolding roots_of_def by blast

lemma ctx_ok_grows: "ctx_ok P d w cs c \<Longrightarrow> ctx_ok P d w (cs @ ds) c"
proof -
  assume c: "ctx_ok P d w cs c"
  then obtain n where "n \<le> length cs" "tree_of P d (take n cs) (sc_tree c)"
    unfolding ctx_ok_def by blast
  then have "n \<le> length (cs @ ds)" "tree_of P d (take n (cs @ ds)) (sc_tree c)"
    by simp_all
  then show ?thesis
    using c roots_of_grows unfolding ctx_ok_def by blast
qed

lemma update_member:
  assumes "rs_inv s" "r \<in> set (rs_roots (RootStore_update [e] s))"
  shows "r = e \<or> r \<in> set (rs_roots s)"
proof -
  obtain all where "rs_roots (RootStore_update [e] s) = slice_last (rs_window s) all"
      "\<And>r. r \<in> set all \<longleftrightarrow> newest_at [e] (rs_at s (re_height r)) (re_height r) = Some r"
    using RootStore_update_roots [OF assms(1), of "[e]"] by blast
  then have "newest_at [e] (rs_at s (re_height r)) (re_height r) = Some r"
    using assms(2) set_slice_last_subset by fastforce
  then show ?thesis
    by (auto simp: newest_at_def rs_at_def find_Some_iff split: if_splits)
qed

lemma roots_of_update:
  assumes "roots_of P d w cs s" "tree_of P d (take n cs) t" "n \<le> length cs"
  shows "roots_of P d w cs (RootStore_update [tree_entry P now t] s)"
proof -
  have "root_of_prefix P d cs (tree_entry P now t)"
    using assms(3) tree_of_root [OF assms(2)] tree_of_size [OF assms(2)]
    by (auto simp: root_of_prefix_def tree_entry_def)
  then show ?thesis
    using assms(1) update_member root_store_reach_inv rs_updated unfolding roots_of_def by metis
qed

lemma roots_of_new: "roots_of P d w cs (RootStore_new w)"
  using rs_start by (auto simp: roots_of_def RootStore_new_def)

lemma set_context_fields [simp]:
  "sm_current (set_context P now ctx t roots sm) = sm_current sm" "sm_depth (set_context P now ctx t roots sm) = sm_depth sm"
  "sm_rootWindow (set_context P now ctx t roots sm) = sm_rootWindow sm"
  "durable_records c (set_context P now ctx t roots sm) = durable_records c sm"
  "durable_commitments c (set_context P now ctx t roots sm) = durable_commitments c sm"
  "jm_get (sm_ctx (set_context P now ctx t roots sm)) c =
     (if c = ctx then Some \<lparr>sc_tree = t, sc_roots = RootStore_update [tree_entry P now t] roots\<rparr> else jm_get (sm_ctx sm) c)"
  by (simp_all add: set_context_def durable_records_def durable_commitments_def fun_eq_iff)

lemma set_context_inv:
  assumes "sm_inv P sm v" "sm_current sm \<noteq> None" "n \<le> length (durable_commitments ctx sm v)"
    and "tree_of P (sm_depth sm) (take n (durable_commitments ctx sm v)) t"
    and "roots_of P (sm_depth sm) (sm_rootWindow sm) (durable_commitments ctx sm v) roots"
  shows "sm_inv P (set_context P now ctx t roots sm) v"
  using assms roots_of_update [OF assms(5,4,3)] by (auto simp: sm_inv_def ctx_ok_def)

lemma inv_context: "sm_inv P sm v \<Longrightarrow> jm_get (sm_ctx sm) ctx = Some c \<Longrightarrow>
    ctx_ok P (sm_depth sm) (sm_rootWindow sm) (durable_commitments ctx sm v) c"
  by (simp add: sm_inv_def)

lemma inv_grows:
  assumes "sm_inv P sm v" "\<And>ctx. \<exists>more. durable_commitments ctx sm w = durable_commitments ctx sm v @ more"
  shows "sm_inv P sm w"
proof -
  have "ctx_ok P (sm_depth sm) (sm_rootWindow sm) (durable_commitments ctx sm w) c" if "jm_get (sm_ctx sm) ctx = Some c" for ctx c
    using inv_context [OF assms(1) that] assms(2) [of ctx] ctx_ok_grows by metis
  then show ?thesis
    using assms(1) by (simp add: sm_inv_def)
qed

lemma roll_inv: "sm_inv P sm v \<Longrightarrow> sm_roll season sm = Inr sm1 \<Longrightarrow> sm_inv P sm1 v \<and> sm_current sm1 = Some season"
  by (auto simp: sm_roll_def sm_inv_def split: option.splits if_splits)

text \<open>What a context that was brought up to date holds.\<close>

definition in_step :: "'n poseidon \<Rightarrow> string \<Rightarrow> 'n season_members \<Rightarrow> reg_view \<Rightarrow> bool" where
  "in_step P ctx sm v \<longleftrightarrow> sm_commitments ctx sm = durable_commitments ctx sm v"

lemma same_season:
  "materializeFrom P now ctx rs sm = Inr sm1 \<Longrightarrow> sm_current sm1 = sm_current sm \<and> sm_depth sm1 = sm_depth sm \<and>
     sm_rootWindow sm1 = sm_rootWindow sm \<and> jm_get (sm_ctx sm1) ctx \<noteq> None"
  "rebuildTreePreservingRoots P now ctx rs sm = Inr sm1 \<Longrightarrow> sm_current sm1 = sm_current sm \<and> sm_depth sm1 = sm_depth sm \<and>
     sm_rootWindow sm1 = sm_rootWindow sm \<and> jm_get (sm_ctx sm1) ctx \<noteq> None"
  by (auto simp: materializeFrom_def rebuildTreePreservingRoots_def split: sum.splits)

lemma durable_commitments_cong: "sm_current sm1 = sm_current sm \<Longrightarrow> durable_commitments ctx sm1 v = durable_commitments ctx sm v"
  by (simp add: durable_commitments_def durable_records_def)

lemma materialize_inv:
  assumes "sm_inv P sm v" "sm_current sm \<noteq> None" "materializeFrom P now ctx (durable_records ctx sm v) sm = Inr sm1"
  shows "sm_inv P sm1 v"
proof -
  obtain t where "fromCommitments P (durable_commitments ctx sm v) (sm_depth sm) = Inr t"
      "sm1 = set_context P now ctx t (RootStore_new (sm_rootWindow sm)) sm"
    using assms(3) by (auto simp: materializeFrom_def durable_commitments_def split: sum.splits)
  then show ?thesis
    using set_context_inv [OF assms(1,2) order_refl, of ctx t] fromCommitments_tree_of roots_of_new by fastforce
qed

lemma sm_reconcile_inv:
  assumes i: "sm_inv P sm v" "sm_current sm \<noteq> None" and r: "reconcileIfBehind P failed now ctx v sm = Inr (sm1, b)"
  shows "sm_inv P sm1 v" "sm_current sm1 = sm_current sm" "sm_depth sm1 = sm_depth sm" "in_step P ctx sm1 v"
    "jm_get (sm_ctx sm) ctx \<noteq> None \<Longrightarrow> jm_get (sm_ctx sm1) ctx \<noteq> None" "sm_rootWindow sm1 = sm_rootWindow sm"
proof -
  let ?cs = "durable_commitments ctx sm v"
  have "sm_inv P sm1 v \<and> sm_current sm1 = sm_current sm \<and> sm_depth sm1 = sm_depth sm \<and> in_step P ctx sm1 v \<and>
      (jm_get (sm_ctx sm) ctx \<noteq> None \<longrightarrow> jm_get (sm_ctx sm1) ctx \<noteq> None) \<and> sm_rootWindow sm1 = sm_rootWindow sm"
  proof (cases "sm_size ctx sm < length ?cs")
    case True
    then have "rebuildTreePreservingRoots P now ctx (durable_records ctx sm v) sm = Inr sm1"
      using r by (auto simp: reconcileIfBehind_def Let_def durable_commitments_def split: if_splits sum.splits)
    then obtain t where t: "fromCommitments P ?cs (sm_depth sm) = Inr t"
        "sm1 = set_context P now ctx t (case jm_get (sm_ctx sm) ctx of Some c \<Rightarrow> sc_roots c | None \<Rightarrow> RootStore_new (sm_rootWindow sm)) sm"
      by (auto simp: rebuildTreePreservingRoots_def durable_commitments_def split: sum.splits)
    have "roots_of P (sm_depth sm) (sm_rootWindow sm) ?cs
        (case jm_get (sm_ctx sm) ctx of Some c \<Rightarrow> sc_roots c | None \<Rightarrow> RootStore_new (sm_rootWindow sm))"
      using inv_context [OF i(1)] roots_of_new by (auto simp: ctx_ok_def split: option.split)
    then have "sm_inv P sm1 v"
      using set_context_inv [OF i order_refl, of ctx t] fromCommitments_tree_of [OF t(1)] t(2) by fastforce
    moreover have "mt_commitments t = ?cs"
      using fromCommitments_tree_of [OF t(1)] by (simp add: tree_of_def)
    ultimately show ?thesis
      using t(2) by (simp add: in_step_def sm_commitments_def)
  next
    case False
    then have "sm1 = sm"
      using r by (auto simp: reconcileIfBehind_def Let_def durable_commitments_def split: if_splits)
    moreover have "in_step P ctx sm v"
    proof (cases "jm_get (sm_ctx sm) ctx")
      case None
      then show ?thesis
        using False by (simp add: in_step_def sm_commitments_def sm_size_def)
    next
      case (Some c)
      then obtain n where "n \<le> length ?cs" "tree_of P (sm_depth sm) (take n ?cs) (sc_tree c)"
        using inv_context [OF i(1) Some] by (auto simp: ctx_ok_def)
      then show ?thesis
        using False Some tree_of_size by (fastforce simp: in_step_def sm_commitments_def sm_size_def tree_of_def)
    qed
    ultimately show ?thesis
      using i by simp
  qed
  then show "sm_inv P sm1 v" "sm_current sm1 = sm_current sm" "sm_depth sm1 = sm_depth sm" "in_step P ctx sm1 v"
    "jm_get (sm_ctx sm) ctx \<noteq> None \<Longrightarrow> jm_get (sm_ctx sm1) ctx \<noteq> None" "sm_rootWindow sm1 = sm_rootWindow sm"
    by blast+
qed

subsection \<open>Commit\<close>

lemma prepare_inv:
  assumes "sm_inv P sm v" "sm_current sm \<noteq> None" "commit_prepare P fails now ctx v sm = (sm1, e)"
  shows "sm_inv P sm1 v" "sm_current sm1 = sm_current sm" "sm_depth sm1 = sm_depth sm" "sm_rootWindow sm1 = sm_rootWindow sm"
    "e = None \<Longrightarrow> in_step P ctx sm1 v \<and> jm_get (sm_ctx sm1) ctx \<noteq> None"
proof -
  have "sm_inv P sm1 v \<and> sm_current sm1 = sm_current sm \<and> sm_depth sm1 = sm_depth sm \<and> sm_rootWindow sm1 = sm_rootWindow sm \<and>
      (e = None \<longrightarrow> in_step P ctx sm1 v \<and> jm_get (sm_ctx sm1) ctx \<noteq> None)"
  proof (cases "sm_materialize P fails now ctx v sm")
    case (Inl err)
    then show ?thesis
      using assms by (auto simp: commit_prepare_def)
  next
    case (Inr sm0)
    have m: "sm_inv P sm0 v \<and> sm_current sm0 = sm_current sm \<and> sm_depth sm0 = sm_depth sm \<and>
        sm_rootWindow sm0 = sm_rootWindow sm \<and> jm_get (sm_ctx sm0) ctx \<noteq> None"
      using Inr assms(1,2) materialize_inv same_season(1) by (fastforce simp: sm_materialize_def jm_has_get split: if_splits)
    show ?thesis
    proof (cases "reconcileIfBehind P (fails Read_reconcile) now ctx v sm0")
      case (Inl err)
      then show ?thesis
        using Inr assms(3) m by (auto simp: commit_prepare_def)
    next
      case r: (Inr p)
      obtain sm2 b where p: "p = (sm2, b)"
        by fastforce
      have "sm_current sm0 \<noteq> None"
        using m assms(2) by simp
      from sm_reconcile_inv [OF _ this r [unfolded p]] show ?thesis
        using Inr r p assms(3) m by (auto simp: commit_prepare_def)
    qed
  qed
  then show "sm_inv P sm1 v" "sm_current sm1 = sm_current sm" "sm_depth sm1 = sm_depth sm" "sm_rootWindow sm1 = sm_rootWindow sm"
    "e = None \<Longrightarrow> in_step P ctx sm1 v \<and> jm_get (sm_ctx sm1) ctx \<noteq> None"
    by blast+
qed

text \<open>The contract of the durable write: it adds at most this record, says so with its position, and when it throws may have added it.\<close>

definition durable_ok :: "int \<Rightarrow> string \<Rightarrow> string \<Rightarrow> reg_view \<Rightarrow> reg_view \<times> durable_result \<Rightarrow> bool" where
  "durable_ok season ctx commitment v r =
     (let (v1, res) = r; old = (\<lambda>s c. forSeasonContext s c v); new = (\<lambda>s c. forSeasonContext s c v1);
          added = ((\<forall>s c. s \<noteq> season \<or> c \<noteq> ctx \<longrightarrow> new s c = old s c) \<and>
            (\<exists>x. new season ctx = old season ctx @ [x] \<and> rr_commitment x = commitment)) in
      case res of
        D_index i \<Rightarrow> added \<and> i = length (old season ctx)
      | D_threw \<Rightarrow> v1 = v \<or> added
      | D_other \<Rightarrow> v1 = v
      | _ \<Rightarrow> v1 = v)"

lemma durable_grows:
  assumes "durable_ok season ctx commitment v (v1, res)"
  shows "\<exists>more. forSeasonContext s c v1 = forSeasonContext s c v @ more"
proof -
  have "v1 = v \<or> (\<forall>s c. s \<noteq> season \<or> c \<noteq> ctx \<longrightarrow> forSeasonContext s c v1 = forSeasonContext s c v) \<and>
      (\<exists>x. forSeasonContext season ctx v1 = forSeasonContext season ctx v @ [x])"
    using assms by (auto simp: durable_ok_def Let_def split: durable_result.splits)
  then show ?thesis
    by (cases "s = season \<and> c = ctx") auto
qed

lemma memory_append_view:
  assumes "\<And>i. snd (MemoryRegistrationBackend_append d v) \<noteq> Appended i"
  shows "fst (MemoryRegistrationBackend_append d v) = v"
proof (cases "decide_append d v")
  case (Inr r)
  then show ?thesis
    using assms [of "rr_index r"] by (simp add: MemoryRegistrationBackend_append_def)
qed (simp add: MemoryRegistrationBackend_append_def)

lemma register_durable_ok:
  assumes "view_ok v" "0 \<le> rc_season c"
  shows "durable_ok (rc_season c) (rc_contextHash c) (rc_commitment c) v (register_durable eligible threw c v)"
proof -
  let ?r = "RegistrationStore_append MemoryRegistrationBackend_append c v"
  let ?d = "request_of_call c"
  have rq: "rq_season ?d = rc_season c" "rq_contextHash ?d = rc_contextHash c" "rq_commitment ?d = rc_commitment c"
    by (simp_all add: request_of_call_def)
  have "(\<exists>i. snd ?r = Appended i \<and> i = length (forSeasonContext (rc_season c) (rc_contextHash c) v) \<and>
        (\<forall>s k. s \<noteq> rc_season c \<or> k \<noteq> rc_contextHash c \<longrightarrow> forSeasonContext s k (fst ?r) = forSeasonContext s k v) \<and>
        (\<exists>x. forSeasonContext (rc_season c) (rc_contextHash c) (fst ?r) = forSeasonContext (rc_season c) (rc_contextHash c) v @ [x] \<and>
          rr_commitment x = rc_commitment c)) \<or> (\<forall>i. snd ?r \<noteq> Appended i) \<and> fst ?r = v"
  proof (cases "invalid_call c = None \<and> (\<exists>i. snd (MemoryRegistrationBackend_append ?d v) = Appended i)")
    case True
    then obtain i where i: "snd (MemoryRegistrationBackend_append ?d v) = Appended i" and ok: "invalid_call c = None"
      by blast
    have vd: "valid_req ?d"
      using valid_request_of_call ok assms(2) by blast
    have r: "?r = MemoryRegistrationBackend_append ?d v"
      using ok by (simp add: RegistrationStore_append_def)
    have "i = length (forSeasonContext (rc_season c) (rc_contextHash c) v)"
      using memory_backend.append_outcome [OF assms(1) vd] i rq by (auto split: if_splits list.splits)
    then show ?thesis
      using r i rq memory_backend.append_recs [OF assms(1) vd] by (auto simp: record_at_def)
  next
    case False
    then show ?thesis
      using memory_append_view [of ?d v] by (auto simp: RegistrationStore_append_def invalid_call_def split: if_splits)
  qed
  then show ?thesis
    by (cases threw)
      (auto simp: register_durable_def durable_ok_def durable_of_outcome_def Let_def split_def split: append_outcome.splits)
qed

lemma settle_inv:
  assumes i: "sm_inv P sm v" "sm_current sm = Some season" "in_step P ctx sm v" "jm_get (sm_ctx sm) ctx = Some c"
    and d: "durable_ok season ctx commitment v (v1, res)" and o: "commit_settle P now ctx commitment res c sm = (sm1, out)"
  shows "sm_inv P sm1 v1" "sm_current sm1 = Some season" "sm_depth sm1 = sm_depth sm"
    "\<And>n root size. out = Inr (Committed n root size) \<Longrightarrow> in_step P ctx sm1 v1 \<and> res = D_index n \<and>
       rootFromLeaves P (sm_depth sm) (durable_commitments ctx sm1 v1) = Inr root \<and> sm_root P ctx sm1 = root \<and>
       size = Suc n \<and> size = length (durable_commitments ctx sm1 v1)"
    "\<And>r. out = Inr (Not_committed r) \<Longrightarrow> sm1 = sm \<and> r \<noteq> Index_mismatch \<and> v1 = v"
proof -
  let ?cs = "durable_commitments ctx sm v"
  have cs: "durable_commitments k sm w = map rr_commitment (forSeasonContext season k w)" for k w
    using i(2) by (simp add: durable_commitments_def durable_records_def)
  have grow: "\<exists>more. durable_commitments k sm v1 = durable_commitments k sm v @ more" for k
    using durable_grows [OF d, of season k] unfolding cs by auto
  have i1: "sm_inv P sm v1"
    by (rule inv_grows [OF i(1) grow])
  have t: "mt_commitments (sc_tree c) = ?cs" "mt_depth (sc_tree c) = sm_depth sm" "\<exists>xs. mt_inv P xs (sc_tree c)"
    using i(3,4) inv_context [OF i(1,4)] by (auto simp: in_step_def sm_commitments_def ctx_ok_def tree_of_def)
  have len: "MembersTree_size (sc_tree c) = length (forSeasonContext season ctx v)"
    using t(1) cs by (simp add: MembersTree_size_def)
  have "sm_inv P sm1 v1 \<and> sm_current sm1 = Some season \<and> sm_depth sm1 = sm_depth sm \<and>
      (\<forall>n root size. out = Inr (Committed n root size) \<longrightarrow> in_step P ctx sm1 v1 \<and> res = D_index n \<and>
       rootFromLeaves P (sm_depth sm) (durable_commitments ctx sm1 v1) = Inr root \<and> sm_root P ctx sm1 = root \<and>
       size = Suc n \<and> size = length (durable_commitments ctx sm1 v1)) \<and>
      (\<forall>r. out = Inr (Not_committed r) \<longrightarrow> sm1 = sm \<and> r \<noteq> Index_mismatch \<and> v1 = v)"
  proof (cases "\<exists>n. res = D_index n")
    case False
    then show ?thesis
      using o i1 i(2) d by (auto simp: commit_settle_def durable_ok_def Let_def split: durable_result.splits)
  next
    case True
    then obtain n where n: "res = D_index n"
      by blast
    then have nl: "n = length (forSeasonContext season ctx v)"
      and new: "durable_commitments ctx sm v1 = ?cs @ [commitment]"
      using d cs by (auto simp: durable_ok_def Let_def)
    show ?thesis
    proof (cases "MembersTree_append P commitment (sc_tree c)")
      case (Inl e)
      then show ?thesis
        using o n nl len i1 i(2) by (auto simp: commit_settle_def)
    next
      case (Inr p)
      obtain k t1 where p: "p = (k, t1)"
        by fastforce
      obtain xs where xs: "mt_inv P xs (sc_tree c)"
        using t(3) by blast
      have room: "\<not> MembersTree_full (sc_tree c)"
        using Inr by (auto simp: MembersTree_append_def split: if_splits)
      obtain x where x: "pelem P commitment = Some x"
        using Inr room by (auto simp: MembersTree_append_def field_elem_def split: option.splits)
      have t1: "tree_of P (sm_depth sm) (?cs @ [commitment]) t1"
        using append_inv [OF xs room x] Inr p t by (auto simp: tree_of_def)
      have sm1: "sm1 = set_context P now ctx t1 (sc_roots c) sm"
          "out = Inr (Committed n (MembersTree_root P t1) (MembersTree_size t1))"
        using o n nl len Inr p by (auto simp: commit_settle_def)
      have "roots_of P (sm_depth sm) (sm_rootWindow sm) (?cs @ [commitment]) (sc_roots c)"
        using inv_context [OF i(1,4)] roots_of_grows by (auto simp: ctx_ok_def)
      then have "sm_inv P sm1 v1"
        using set_context_inv [OF i1 _ order_refl, of ctx t1] t1 new i(2) sm1(1) by simp
      then show ?thesis
        using sm1 n nl new tree_of_root [OF t1] tree_of_size [OF t1] t1 i(2) cs
        by (auto simp: in_step_def sm_commitments_def sm_root_def tree_of_def)
    qed
  qed
  then show "sm_inv P sm1 v1" "sm_current sm1 = Some season" "sm_depth sm1 = sm_depth sm"
    "\<And>n root size. out = Inr (Committed n root size) \<Longrightarrow> in_step P ctx sm1 v1 \<and> res = D_index n \<and>
       rootFromLeaves P (sm_depth sm) (durable_commitments ctx sm1 v1) = Inr root \<and> sm_root P ctx sm1 = root \<and>
       size = Suc n \<and> size = length (durable_commitments ctx sm1 v1)"
    "\<And>r. out = Inr (Not_committed r) \<Longrightarrow> sm1 = sm \<and> r \<noteq> Index_mismatch \<and> v1 = v"
    by blast+
qed

lemma commit_facts:
  assumes "sm_inv P sm v" "durable_ok season ctx commitment v (durable v)"
    and "SeasonMembers_commit P fails now live regressed season ctx commitment durable regNullifier sm v = (sm1, v1, out)"
  shows "sm_inv P sm1 v1 \<and>
    (case out of
       Inr (Committed n root sz) \<Rightarrow>
         sm_commitments ctx sm1 = durable_commitments ctx sm1 v1 \<and> sz = Suc n \<and> sz = sm_size ctx sm1 \<and>
         last (sm_commitments ctx sm1) = commitment \<and>
         rootFromLeaves P (sm_depth sm) (durable_commitments ctx sm1 v1) = Inr root \<and> sm_root P ctx sm1 = root \<and>
         live \<in> {None, Some season} \<and> \<not> regressed
     | Inr (Not_committed r) \<Rightarrow> v1 = v \<and> r \<noteq> Index_mismatch \<and>
         (r \<noteq> Season_rolled \<longrightarrow> sm_commitments ctx sm1 = durable_commitments ctx sm1 v)
     | Inl _ \<Rightarrow> True)"
proof (cases "sm_current sm = Some season")
  case False
  then show ?thesis
    using assms by (auto simp: SeasonMembers_commit_def)
next
  case True
  obtain sm0 e where p: "commit_prepare P fails now ctx v sm = (sm0, e)"
    by fastforce
  have cur: "sm_current sm \<noteq> None"
    using True by simp
  note q = prepare_inv [OF assms(1) cur p]
  show ?thesis
  proof (cases e)
    case (Some err)
    then show ?thesis
      using assms(3) True p q(1) by (auto simp: SeasonMembers_commit_def)
  next
    case None
    then obtain c where c: "jm_get (sm_ctx sm0) ctx = Some c" "in_step P ctx sm0 v"
      using q(5) by auto
    obtain v2 res where dur: "durable v = (v2, res)"
      by fastforce
    obtain sm2 out2 where st: "commit_settle P now ctx commitment res c sm0 = (sm2, out2)"
      by fastforce
    have cur0: "sm_current sm0 = Some season"
      using q(2) True by simp
    note s = settle_inv [OF q(1) cur0 c(2,1) assms(2) [unfolded dur] st]
    consider (early) r where "sm1 = sm0" "v1 = v" "out = Inr (Not_committed r)" "r \<noteq> Index_mismatch"
      | (failed) err where "sm1 = sm0" "v1 = v" "out = Inl err"
      | (written) "sm1 = sm2" "v1 = v2" "out = out2" "live \<in> {None, Some season}" "\<not> regressed"
      using assms(3) True p None c(1) dur st
      by (auto simp: SeasonMembers_commit_def Let_def split: if_splits option.splits)
    then show ?thesis
    proof cases
      case early
      then show ?thesis
        using q(1) c(2) by (simp add: in_step_def)
    next
      case failed
      then show ?thesis
        using q(1) by simp
    next
      case written
      show ?thesis
      proof (cases out)
        case (Inl err)
        then show ?thesis
          using written s(1) by simp
      next
        case (Inr o1)
        show ?thesis
        proof (cases o1)
          case (Committed n root size)
          have f: "in_step P ctx sm2 v2" "rootFromLeaves P (sm_depth sm0) (durable_commitments ctx sm2 v2) = Inr root"
              "sm_root P ctx sm2 = root" "size = Suc n" "size = length (durable_commitments ctx sm2 v2)" "res = D_index n"
            using s(4) [of n root size] Inr Committed written(3) by simp_all
          have "sm_commitments ctx sm2 = durable_commitments ctx sm2 v2"
            using f(1) by (simp add: in_step_def)
          moreover have "sm_size ctx sm2 = length (sm_commitments ctx sm2)"
            by (simp add: sm_size_def sm_commitments_def MembersTree_size_def split: option.split)
          moreover have "last (durable_commitments ctx sm2 v2) = commitment"
            using assms(2) dur f(6) s(2) by (auto simp: durable_ok_def durable_commitments_def durable_records_def)
          ultimately show ?thesis
            using Inr Committed written s(1) f q(3) by simp
        next
          case (Not_committed r)
          then show ?thesis
            using s(5) [of r] Inr written s(1) c(2) by (simp add: in_step_def)
        qed
      qed
    qed
  qed
qed

lemma commit_view:
  assumes "SeasonMembers_commit P fails now live regressed season ctx commitment durable regNullifier sm v = (sm1, v1, out)"
  shows "v1 = v \<or> v1 = fst (durable v)" "out = Inr (Committed n root sz) \<Longrightarrow> durable v = (v1, D_index n)"
proof -
  have "(v1 = v \<or> v1 = fst (durable v)) \<and> (out = Inr (Committed n root sz) \<longrightarrow> durable v = (v1, D_index n))"
    using assms by (auto simp: SeasonMembers_commit_def commit_settle_def Let_def
        split: if_splits option.splits prod.splits durable_result.splits sum.splits)
  then show "v1 = v \<or> v1 = fst (durable v)" "out = Inr (Committed n root sz) \<Longrightarrow> durable v = (v1, D_index n)"
    by simp_all
qed

lemma recover_inv:
  assumes "sm_inv P sm v" "SeasonMembers_recoverMember P fails now season ctx v sm = (sm1, r)"
  shows "sm_inv P sm1 v"
proof (cases "sm_current sm = Some season")
  case True
  show ?thesis
  proof (cases "reconcileIfBehind P (fails Read_reconcile) now ctx v sm")
    case (Inl e)
    then show ?thesis
      using assms True by (auto simp: SeasonMembers_recoverMember_def)
  next
    case (Inr p)
    have "sm_current sm \<noteq> None"
      using True by simp
    then have "sm_inv P (fst p) v"
      using sm_reconcile_inv(1) [OF assms(1)] Inr by (metis prod.collapse)
    then show ?thesis
      using assms True Inr by (auto simp: SeasonMembers_recoverMember_def split: prod.splits)
  qed
qed (use assms in \<open>auto simp: SeasonMembers_recoverMember_def\<close>)

lemma ensureContext_inv:
  assumes "sm_inv P sm v" "SeasonMembers_ensureContext P fails now season ctx v sm = (sm1, e)"
  shows "sm_inv P sm1 v"
proof (cases "sm_roll season sm")
  case (Inr sm0)
  have r: "sm_inv P sm0 v" "sm_current sm0 \<noteq> None"
    using roll_inv [OF assms(1) Inr] by simp_all
  show ?thesis
  proof (cases "materializeFrom P now ctx (durable_records ctx sm0 v) sm0")
    case (Inl err)
    then show ?thesis
      using assms(2) Inr r(1) by (auto simp: SeasonMembers_ensureContext_def Let_def split: if_splits)
  next
    case m: (Inr sm2)
    then show ?thesis
      using assms(2) Inr r(1) materialize_inv [OF r m] by (auto simp: SeasonMembers_ensureContext_def Let_def split: if_splits)
  qed
qed (use assms in \<open>auto simp: SeasonMembers_ensureContext_def\<close>)

subsection \<open>Properties\<close>

text \<open>C16: a registration that is committed is in the tree where the durable log has it. When a commit
  succeeds, the live tree of the context is exactly the commitments of the durable records, in their
  order, the position reported is the last one, and the root published is the root a restart will
  compute from those records; no refusal writes a record or touches the tree beyond bringing it up
  to date, and the tree and the log are never found to disagree on a position.\<close>

theorem commit_matches_durable_log:
  assumes "sm_inv P sm v" "durable_ok season ctx commitment v (durable v)"
    and "SeasonMembers_commit P fails now live regressed season ctx commitment durable regNullifier sm v = (sm1, v1, out)"
  shows "sm_inv P sm1 v1 \<and>
    (case out of
       Inr (Committed n root sz) \<Rightarrow>
         sm_commitments ctx sm1 = durable_commitments ctx sm1 v1 \<and> sz = Suc n \<and> sz = sm_size ctx sm1 \<and>
         last (sm_commitments ctx sm1) = commitment \<and>
         rootFromLeaves P (sm_depth sm) (durable_commitments ctx sm1 v1) = Inr root \<and> sm_root P ctx sm1 = root \<and>
         live \<in> {None, Some season} \<and> \<not> regressed
     | Inr (Not_committed r) \<Rightarrow> v1 = v \<and> r \<noteq> Index_mismatch \<and>
         (r \<noteq> Season_rolled \<longrightarrow> sm_commitments ctx sm1 = durable_commitments ctx sm1 v)
     | Inl _ \<Rightarrow> True)"
  by (rule commit_facts [OF assms])

text \<open>A member the tree lost is recovered without a restart. After \<open>recoverMember\<close> for the current
  season, unless a store read or the rebuild itself failed, the context's tree holds exactly the
  durable records of its bucket, in their order.\<close>

lemma recover_restores_tree:
  assumes "sm_inv P sm v" "sm_current sm = Some season"
    and "SeasonMembers_recoverMember P fails now season ctx v sm = (sm1, Inr (Rebuilt b n))"
  shows "sm_inv P sm1 v \<and> sm_commitments ctx sm1 = durable_commitments ctx sm v \<and>
    n = length (durable_commitments ctx sm v) \<and> sm_current sm1 = Some season"
proof -
  have r: "reconcileIfBehind P (fails Read_reconcile) now ctx v sm = Inr (sm1, b)" "n = sm_size ctx sm1"
    using assms(2,3) by (auto simp: SeasonMembers_recoverMember_def split: sum.splits)
  have cur: "sm_current sm \<noteq> None"
    using assms(2) by simp
  note q = sm_reconcile_inv [OF assms(1) cur r(1)]
  have "sm_size ctx sm1 = length (sm_commitments ctx sm1)"
    by (simp add: sm_size_def sm_commitments_def MembersTree_size_def split: option.split)
  then show ?thesis
    using q r(2) assms(2) durable_commitments_cong [OF q(2)] by (simp add: in_step_def)
qed

text \<open>A season's end withdraws every membership at once. Rolling to another season drops every
  context's tree and roots, a gateway never rolls back, and every members root accepted afterwards is
  the empty root or the root of some prefix of the new season's own durable records.\<close>

lemma season_roll_withdraws:
  assumes "sm_inv P sm v" "SeasonMembers_ensure season sm = Inr sm1" "sm_current sm \<noteq> Some season"
  shows "sm_ctx sm1 = [] \<and> sm_current sm1 = Some season \<and> rootStore ctx sm1 = sm_emptyRoots sm \<and>
    (sm_monotonic sm \<longrightarrow> (case sm_current sm of None \<Rightarrow> True | Some c \<Rightarrow> c < season)) \<and> sm_inv P sm1 v"
proof -
  have r: "sm_roll season sm = Inr sm1"
    using assms(2) by (simp add: SeasonMembers_ensure_def)
  then have "sm_ctx sm1 = [] \<and> sm_emptyRoots sm1 = sm_emptyRoots sm \<and>
      (sm_monotonic sm \<longrightarrow> (case sm_current sm of None \<Rightarrow> True | Some c \<Rightarrow> c < season))"
    using assms(3) by (auto simp: sm_roll_def split: option.splits if_splits)
  then show ?thesis
    using roll_inv [OF assms(1) r] by (simp add: rootStore_def)
qed

text \<open>A season with one registration.\<close>

definition demo_season :: "nat season_members" where
  "demo_season = SeasonMembers_new True 2 4 ''0'' (Num 0)\<lparr>sm_current := Some 3\<rparr>"

definition demo_registered :: reg_view where
  "demo_registered = fst (RegistrationStore_append MemoryRegistrationBackend_append (demo_call 7 ''zkvm'') empty_view)"

lemma demo_season_inv: "sm_inv demo_hasher demo_season v"
  by (simp add: sm_inv_def demo_season_def SeasonMembers_new_def)

lemma demo_season_current: "sm_current demo_season = Some 3"
  by (simp add: demo_season_def)

lemma demo_registered_recs: "map rr_commitment (forSeasonContext 3 (dec_of_nat 4) demo_registered) = [dec_of_nat 107]"
  using demo_call_ok [of 7 "''zkvm''"]
  by (simp add: demo_registered_def RegistrationStore_append_def MemoryRegistrationBackend_append_def decide_append_def
      empty_view_def forSeasonContext_def bucket_records_def request_of_call_def demo_call_def remember_def record_at_def
      bucketOf_def jm_get_def Let_def)

theorem commit_matches_durable_log_witness:
  "\<exists>sm1 v1 out. SeasonMembers_commit demo_hasher (\<lambda>_. False) (Num 5) (Some 3) False 3 (dec_of_nat 4) (dec_of_nat 107)
     (register_durable True None (demo_call 7 ''zkvm'')) (Some (dec_of_nat 7)) demo_season empty_view = (sm1, v1, out) \<and>
     sm_inv demo_hasher sm1 v1"
proof -
  let ?d = "register_durable True None (demo_call 7 ''zkvm'')"
  obtain sm1 v1 out where c: "SeasonMembers_commit demo_hasher (\<lambda>_. False) (Num 5) (Some 3) False 3 (dec_of_nat 4) (dec_of_nat 107)
     ?d (Some (dec_of_nat 7)) demo_season empty_view = (sm1, v1, out)"
    by (metis prod_cases3)
  have "durable_ok 3 (dec_of_nat 4) (dec_of_nat 107) empty_view (?d empty_view)"
    using register_durable_ok [OF view_ok_empty, of "demo_call 7 ''zkvm''" True None] by (simp add: demo_call_def)
  from commit_matches_durable_log [OF demo_season_inv this c] c show ?thesis
    by blast
qed

theorem recover_restores_tree_witness:
  "\<exists>sm1 b n. SeasonMembers_recoverMember demo_hasher (\<lambda>_. False) (Num 5) 3 (dec_of_nat 4) demo_registered demo_season =
     (sm1, Inr (Rebuilt b n)) \<and> sm_commitments (dec_of_nat 4) sm1 = [dec_of_nat 107] \<and> n = 1"
proof -
  have d: "durable_commitments (dec_of_nat 4) demo_season demo_registered = [dec_of_nat 107]"
    using demo_registered_recs by (simp add: durable_commitments_def durable_records_def demo_season_current)
  have "parses demo_hasher [dec_of_nat 107] [107]"
    using demo_parses [of "[107]"] by (simp add: parses_def)
  then obtain t where t: "fromCommitments demo_hasher [dec_of_nat 107] 2 = Inr t"
    using fromCommitments_inv [of demo_hasher "[dec_of_nat 107]" "[107]" 2] by auto
  let ?rs = "durable_records (dec_of_nat 4) demo_season demo_registered"
  have rs: "map rr_commitment ?rs = [dec_of_nat 107]"
    using d by (simp add: durable_commitments_def)
  have "length ?rs = 1"
    using arg_cong [OF rs, of length] by simp
  moreover have "sm_size (dec_of_nat 4) demo_season = 0" "sm_depth demo_season = 2"
    by (simp_all add: sm_size_def demo_season_def SeasonMembers_new_def)
  ultimately have "\<exists>sm1. reconcileIfBehind demo_hasher False (Num 5) (dec_of_nat 4) demo_registered demo_season = Inr (sm1, True)"
    using t rs by (auto simp: reconcileIfBehind_def rebuildTreePreservingRoots_def Let_def)
  then obtain sm1 b n where r: "SeasonMembers_recoverMember demo_hasher (\<lambda>_. False) (Num 5) 3 (dec_of_nat 4) demo_registered demo_season =
      (sm1, Inr (Rebuilt b n))"
    by (auto simp: SeasonMembers_recoverMember_def demo_season_current)
  from recover_restores_tree [OF demo_season_inv demo_season_current this] r d show ?thesis
    by fastforce
qed

theorem season_roll_withdraws_witness:
  "\<exists>sm1. SeasonMembers_ensure 4 demo_season = Inr sm1 \<and> sm_ctx sm1 = [] \<and> sm_current sm1 = Some 4"
proof -
  obtain sm1 where r: "SeasonMembers_ensure 4 demo_season = Inr sm1"
    by (simp add: SeasonMembers_ensure_def sm_roll_def demo_season_def SeasonMembers_new_def)
  then show ?thesis
    using season_roll_withdraws [OF demo_season_inv r, of "''x''" empty_view] by (simp add: demo_season_current)
qed

end
