(* ===== verification/Verify_Registration.thy ===== *)
theory Verify_Registration
  imports Verify_Membership Season_Members Sha_Roots
begin

section \<open>Verifying a registration (core/verifier.js)\<close>

text \<open>
  The decoders of the two engines, the engine-neutral \<open>verifyRegistrationCore\<close> and its wrappers.
  The core awaits the store, the recovery, the proof check and the commit; each await is a phase,
  and other requests run between them, over one store and one season manager (\<open>vr_step\<close>). The
  anchor rule is asked synchronously after an await: the answer a call resumes with carries the window and the rule as
  they are at that time, and the core applies them to the root the proof claims.
\<close>

subsection \<open>Claims\<close>

record reg_claims =
  cm_commitment :: string
  cm_regNullifier :: string
  cm_root :: string
  cm_season :: string
  cm_contextHash :: string

datatype decode_error = Bad_journal_length | Non_canonical_signal

definition decodePlonkRegistrationClaims :: "public_signals \<Rightarrow> decode_error + reg_claims" where
  "decodePlonkRegistrationClaims p =
     (if \<not> signalsAreCanonical p 5 then Inl Non_canonical_signal
      else Inr \<lparr>cm_commitment = signal_at p 0, cm_regNullifier = signal_at p 1, cm_root = signal_at p 2,
                cm_season = signal_at p 3, cm_contextHash = signal_at p 4\<rparr>)"

text \<open>A journal is a byte array, or (\<open>None\<close>) something else. \<open>BigInt("0x" + hex)\<close> is the bytes' big-endian value.\<close>

definition REG_JOURNAL_BYTES :: nat where
  "REG_JOURNAL_BYTES = 136"

definition subarray :: "nat \<Rightarrow> nat \<Rightarrow> bytes \<Rightarrow> bytes" where
  "subarray first past bs = take (past - first) (drop first bs)"

definition decodeZkvmRegistrationClaims :: "bytes option \<Rightarrow> decode_error + reg_claims" where
  "decodeZkvmRegistrationClaims journal =
     (case journal of
        None \<Rightarrow> Inl Bad_journal_length
      | Some bs \<Rightarrow>
          if length bs \<noteq> REG_JOURNAL_BYTES then Inl Bad_journal_length
          else
            (let field = (\<lambda>off. dec_of_nat (val256 0 (subarray off (off + 32) bs)));
                 claims = \<lparr>cm_commitment = field 0, cm_regNullifier = field 32, cm_root = hex_of_bytes (subarray 64 96 bs),
                   cm_season = dec_of_nat (val256 0 (subarray 96 104 bs)), cm_contextHash = field 104\<rparr>
             in if \<not> list_all isCanonicalField [cm_commitment claims, cm_regNullifier claims, cm_contextHash claims]
                then Inl Non_canonical_signal else Inr claims))"

subsection \<open>One call\<close>

text \<open>
  \<open>rootOk\<close>: a window or a rule that throws (\<open>None\<close>) makes the anchor ineligible. \<open>eligible\<close> is
  \<open>None\<close> when the caller supplies no rule.
\<close>

type_synonym root_rule = "string \<Rightarrow> bool option"

definition rootOk :: "root_rule \<Rightarrow> root_rule option \<Rightarrow> string \<Rightarrow> bool" where
  "rootOk isRecent rootEligible root =
     (if isRecent root \<noteq> Some True then False
      else case rootEligible of
          None \<Rightarrow> True
        | Some eligible \<Rightarrow> eligible root = Some True)"

record reg_expected =
  xp_engine :: jfield
  xp_statement :: jfield
  xp_season :: int
  xp_contextHash :: string

record vr_request =
  vq_claims :: reg_claims
  vq_expected :: reg_expected
  vq_recovers :: bool

datatype vr_result = Registered nat string nat | Declined string

datatype vr_phase =
    VR_has | VR_recover | VR_proof | VR_has_again | VR_commit
  | VR_done vr_result | VR_threw

datatype vr_answer =
    VA_has "bool option" root_rule "root_rule option"
  | VA_proof "gate_refusal + bool" root_rule "root_rule option"
  | VA_recovered bool

definition verifyRegistrationCore_begin :: "vr_request \<Rightarrow> vr_phase" where
  "verifyRegistrationCore_begin q =
     (let c = vq_claims q; e = vq_expected q in
      if \<not> isValidEngineStatement (xp_engine e) (xp_statement e) then VR_done (Declined ''invalid-engine-statement'')
      else if cm_season c \<noteq> dec_of_int (xp_season e) then VR_done (Declined ''wrong-season'')
      else if cm_contextHash c \<noteq> xp_contextHash e then VR_done (Declined ''wrong-context'')
      else VR_has)"

definition replayed :: "vr_request \<Rightarrow> vr_phase" where
  "replayed q = (if vq_recovers q then VR_recover else VR_done (Declined ''already-registered''))"

fun verifyRegistrationCore_resume :: "vr_request \<Rightarrow> vr_phase \<Rightarrow> vr_answer \<Rightarrow> vr_phase" where
  "verifyRegistrationCore_resume q VR_has (VA_has None recent eligible) = VR_threw"
| "verifyRegistrationCore_resume q VR_has (VA_has (Some found) recent eligible) =
     (if found then replayed q
      else if \<not> rootOk recent eligible (cm_root (vq_claims q)) then VR_done (Declined ''stale-or-unknown-root'')
      else VR_proof)"
| "verifyRegistrationCore_resume q VR_recover (VA_recovered ok) =
     (if ok then VR_done (Declined ''already-registered'') else VR_threw)"
| "verifyRegistrationCore_resume q VR_proof (VA_proof (Inl Gate_overloaded) recent eligible) = VR_threw"
| "verifyRegistrationCore_resume q VR_proof (VA_proof (Inr verified) recent eligible) =
     (if \<not> verified then VR_done (Declined ''invalid-proof'')
      else if \<not> rootOk recent eligible (cm_root (vq_claims q)) then VR_has_again
      else VR_commit)"
| "verifyRegistrationCore_resume q VR_has_again (VA_has None recent eligible) = VR_threw"
| "verifyRegistrationCore_resume q VR_has_again (VA_has (Some found) recent eligible) =
     (if found then replayed q else VR_done (Declined ''stale-or-unknown-root''))"
| "verifyRegistrationCore_resume q p _ = p"

text \<open>What the commit's outcome makes of the call.\<close>

definition refusal_reason :: "commit_refusal \<Rightarrow> string" where
  "refusal_reason r =
     (case r of
        Season_rolled \<Rightarrow> ''season-rolled-retry''
      | Already_registered \<Rightarrow> ''already-registered''
      | Tree_full _ \<Rightarrow> ''members-tree-full''
      | Clock_regressed \<Rightarrow> ''clock-regressed''
      | Statement_mismatch _ \<Rightarrow> ''statement-mismatch''
      | Invalid_statement \<Rightarrow> ''invalid-engine-statement''
      | Stale_root \<Rightarrow> ''stale-or-unknown-root''
      | Unrecognised \<Rightarrow> ''durable-write-unrecognised''
      | Index_mismatch \<Rightarrow> ''index-tree-mismatch'')"

definition commit_phase :: "season_error + commit_result \<Rightarrow> vr_phase" where
  "commit_phase out =
     (case out of
        Inl _ \<Rightarrow> VR_threw
      | Inr (Committed i root n) \<Rightarrow> VR_done (Registered i root n)
      | Inr (Not_committed r) \<Rightarrow> VR_done (Declined (refusal_reason r)))"

text \<open>The record the commit writes: the gateway's season, engine and statement, the proof's other claims.\<close>

definition commit_call :: "vr_request \<Rightarrow> reg_call" where
  "commit_call q =
     \<lparr>rc_season = xp_season (vq_expected q), rc_contextHash = cm_contextHash (vq_claims q),
      rc_regNullifier = cm_regNullifier (vq_claims q), rc_commitment = cm_commitment (vq_claims q),
      rc_engine = xp_engine (vq_expected q), rc_statement = xp_statement (vq_expected q)\<rparr>"

subsection \<open>The two wrappers\<close>

datatype engine_entry = Start vr_request | Entry_refused string

definition decode_reason :: "decode_error \<Rightarrow> string" where
  "decode_reason e = (case e of Bad_journal_length \<Rightarrow> ''bad-journal-length'' | Non_canonical_signal \<Rightarrow> ''non-canonical-signal'')"

definition verifyRegistration :: "public_signals \<Rightarrow> reg_expected \<Rightarrow> bool \<Rightarrow> engine_entry" where
  "verifyRegistration signals e recovers =
     (if xp_engine e \<noteq> F_str ''groth16'' then Entry_refused ''engine-mismatch''
      else case decodePlonkRegistrationClaims signals of
        Inl err \<Rightarrow> Entry_refused (decode_reason err)
      | Inr c \<Rightarrow> Start \<lparr>vq_claims = c, vq_expected = e, vq_recovers = recovers\<rparr>)"

definition verifyZkvmRegistration :: "bytes option \<Rightarrow> bool \<Rightarrow> reg_expected \<Rightarrow> bool \<Rightarrow> engine_entry" where
  "verifyZkvmRegistration journal hasVerifier e recovers =
     (if xp_engine e \<noteq> F_str ''zkvm'' then Entry_refused ''engine-mismatch''
      else case decodeZkvmRegistrationClaims journal of
        Inl err \<Rightarrow> Entry_refused (decode_reason err)
      | Inr c \<Rightarrow>
          if \<not> hasVerifier then Entry_refused ''zkvm-verifier-not-configured''
          else Start \<lparr>vq_claims = c, vq_expected = e, vq_recovers = recovers\<rparr>)"

text \<open>The groth16 wrapper's default check refuses a key of any other proof system without running it.\<close>

definition registration_proof_check :: "('v, 'p) proof_system \<Rightarrow> ('v, 'p) proof_system \<Rightarrow> 'v vkey option \<Rightarrow> public_signals \<Rightarrow>
    'p zk_proof option \<Rightarrow> key_refusal + bool" where
  "registration_proof_check groth16 plonk vkey signals proof =
     (if key_protocol vkey = Some ''groth16'' then verifyWithKey groth16 plonk vkey signals proof else Inr False)"

subsection \<open>Many calls over one store and one season\<close>

record 'n vr_sys =
  vs_season :: "'n season_members"
  vs_view :: reg_view
  vs_calls :: "(vr_request \<times> vr_phase) list"
  vs_granted :: "(vr_request \<times> nat) list"

definition set_phase :: "nat \<Rightarrow> vr_request \<Rightarrow> vr_phase \<Rightarrow> 'n vr_sys \<Rightarrow> 'n vr_sys" where
  "set_phase i q p s = s\<lparr>vs_calls := (vs_calls s)[i := (q, p)]\<rparr>"

definition has_claim :: "vr_request \<Rightarrow> 'n vr_sys \<Rightarrow> bool" where
  "has_claim q s = MemoryRegistrationBackend_has (xp_season (vq_expected q)) (cm_contextHash (vq_claims q))
     (cm_regNullifier (vq_claims q)) (vs_view s)"

definition do_recover :: "'n poseidon \<Rightarrow> (sm_read \<Rightarrow> bool) \<Rightarrow> jsnum \<Rightarrow> nat \<Rightarrow> vr_request \<Rightarrow> 'n vr_sys \<Rightarrow> 'n vr_sys" where
  "do_recover P fails now i q s =
     (case SeasonMembers_recoverMember P fails now (xp_season (vq_expected q)) (cm_contextHash (vq_claims q)) (vs_view s) (vs_season s) of
        (sm, r) \<Rightarrow> set_phase i q (verifyRegistrationCore_resume q VR_recover (VA_recovered (\<not> isl r))) (s\<lparr>vs_season := sm\<rparr>))"

definition do_commit :: "'n poseidon \<Rightarrow> (sm_read \<Rightarrow> bool) \<Rightarrow> jsnum \<Rightarrow> int option \<Rightarrow> bool \<Rightarrow> bool \<Rightarrow> bool option \<Rightarrow> nat \<Rightarrow> vr_request
    \<Rightarrow> 'n vr_sys \<Rightarrow> 'n vr_sys" where
  "do_commit P fails now live regressed eligible threw i q s =
     (case SeasonMembers_commit P fails now live regressed (xp_season (vq_expected q)) (cm_contextHash (vq_claims q))
         (cm_commitment (vq_claims q)) (register_durable eligible threw (commit_call q)) (Some (cm_regNullifier (vq_claims q)))
         (vs_season s) (vs_view s) of
        (sm, v, out) \<Rightarrow> set_phase i q (commit_phase out)
          (s\<lparr>vs_season := sm, vs_view := v,
             vs_granted := vs_granted s @ (case out of Inr (Committed n _ _) \<Rightarrow> [(q, n)] | _ \<Rightarrow> [])\<rparr>))"

definition claims_canonical :: "reg_claims \<Rightarrow> bool" where
  "claims_canonical c \<longleftrightarrow> isCanonicalField (cm_contextHash c) \<and> isCanonicalField (cm_regNullifier c) \<and> isCanonicalField (cm_commitment c)"

inductive vr_step :: "'n poseidon \<Rightarrow> 'n vr_sys \<Rightarrow> 'n vr_sys \<Rightarrow> bool" for P where
  vr_arrive: "claims_canonical (vq_claims q) \<Longrightarrow> 0 \<le> xp_season (vq_expected q) \<Longrightarrow>
    vr_step P s (s\<lparr>vs_calls := vs_calls s @ [(q, verifyRegistrationCore_begin q)]\<rparr>)"
| vr_has: "i < length (vs_calls s) \<Longrightarrow> vs_calls s ! i = (q, p) \<Longrightarrow> p = VR_has \<or> p = VR_has_again \<Longrightarrow>
    found = None \<or> found = Some (has_claim q s) \<Longrightarrow>
    vr_step P s (set_phase i q (verifyRegistrationCore_resume q p (VA_has found recent eligible)) s)"
| vr_proof: "i < length (vs_calls s) \<Longrightarrow> vs_calls s ! i = (q, VR_proof) \<Longrightarrow>
    vr_step P s (set_phase i q (verifyRegistrationCore_resume q VR_proof (VA_proof (checkProof admitted verdict) recent eligible)) s)"
| vr_recover: "i < length (vs_calls s) \<Longrightarrow> vs_calls s ! i = (q, VR_recover) \<Longrightarrow>
    vr_step P s (do_recover P fails now i q s)"
| vr_commit: "i < length (vs_calls s) \<Longrightarrow> vs_calls s ! i = (q, VR_commit) \<Longrightarrow>
    vr_step P s (do_commit P fails now live regressed eligible threw i q s)"
| vr_roll: "SeasonMembers_ensure season (vs_season s) = Inr sm \<Longrightarrow> vr_step P s (s\<lparr>vs_season := sm\<rparr>)"
| vr_read: "SeasonMembers_ensureContext P fails now season ctx (vs_view s) (vs_season s) = (sm, e) \<Longrightarrow>
    vr_step P s (s\<lparr>vs_season := sm\<rparr>)"
| vr_restart: "vr_step P s (s\<lparr>vs_season := SeasonMembers_new monotonic depth window emptyRoot now, vs_calls := []\<rparr>)"

inductive vr_reach :: "'n poseidon \<Rightarrow> 'n vr_sys \<Rightarrow> bool" for P where
  vr_start: "view_ok v \<Longrightarrow>
    vr_reach P \<lparr>vs_season = SeasonMembers_new monotonic depth window emptyRoot now, vs_view = v, vs_calls = [], vs_granted = []\<rparr>"
| vr_next: "vr_reach P s \<Longrightarrow> vr_step P s t \<Longrightarrow> vr_reach P t"

subsection \<open>The invariant\<close>

definition grant_key :: "vr_request \<Rightarrow> int \<times> string \<times> string" where
  "grant_key q = (xp_season (vq_expected q), cm_contextHash (vq_claims q), cm_regNullifier (vq_claims q))"

definition granted_record :: "vr_request \<Rightarrow> nat \<Rightarrow> reg_view \<Rightarrow> bool" where
  "granted_record q n v \<longleftrightarrow>
     (let recs = forSeasonContext (xp_season (vq_expected q)) (cm_contextHash (vq_claims q)) v in
      n < length recs \<and> recs ! n = record_at (request_of_call (commit_call q)) n)"

definition request_sound :: "vr_request \<Rightarrow> bool" where
  "request_sound q \<longleftrightarrow> claims_canonical (vq_claims q) \<and> 0 \<le> xp_season (vq_expected q)"

definition vr_inv :: "'n poseidon \<Rightarrow> 'n vr_sys \<Rightarrow> bool" where
  "vr_inv P s \<longleftrightarrow> view_ok (vs_view s) \<and> sm_inv P (vs_season s) (vs_view s) \<and>
     (\<forall>(q, p) \<in> set (vs_calls s). request_sound q) \<and>
     (\<forall>(q, n) \<in> set (vs_granted s). request_sound q \<and> granted_record q n (vs_view s)) \<and>
     distinct (map (\<lambda>(q, n). grant_key q) (vs_granted s))"

lemma sm_inv_new: "sm_inv P (SeasonMembers_new monotonic depth window emptyRoot now) v"
  by (simp add: sm_inv_def SeasonMembers_new_def)

lemma granted_grows:
  "granted_record q n v \<Longrightarrow> (\<And>s c. \<exists>more. forSeasonContext s c w = forSeasonContext s c v @ more) \<Longrightarrow> granted_record q n w"
proof -
  assume g: "granted_record q n v" and "\<And>s c. \<exists>more. forSeasonContext s c w = forSeasonContext s c v @ more"
  then obtain more where "forSeasonContext (xp_season (vq_expected q)) (cm_contextHash (vq_claims q)) w =
      forSeasonContext (xp_season (vq_expected q)) (cm_contextHash (vq_claims q)) v @ more"
    by blast
  then show ?thesis
    using g by (simp add: granted_record_def Let_def nth_append)
qed

lemma granted_has:
  assumes "view_ok v" "request_sound q" "granted_record q n v" "grant_key q = (s, c, nf)"
  shows "MemoryRegistrationBackend_has s c nf v"
proof -
  have "record_at (request_of_call (commit_call q)) n \<in> set (forSeasonContext s c v)"
    using assms(3,4) nth_mem by (fastforce simp: granted_record_def grant_key_def Let_def)
  moreover have "rr_regNullifier (record_at (request_of_call (commit_call q)) n) = nf"
    using assms(4) by (simp add: record_at_def request_of_call_def commit_call_def grant_key_def)
  ultimately show ?thesis
    using view_has [OF assms(1), of c nf s] assms(2,4)
    by (auto simp: request_sound_def claims_canonical_def grant_key_def MemoryRegistrationBackend_has_def)
qed

lemma append_view_ok:
  assumes "view_ok v" "0 \<le> rc_season c"
  shows "view_ok (fst (register_durable eligible threw c v))"
proof (cases "invalid_call c")
  case None
  then show ?thesis
    using view_ok_append [OF assms(1) valid_request_of_call [OF None assms(2)]] assms(1)
    by (auto simp: register_durable_def RegistrationStore_append_def Let_def split_def split: option.split)
qed (use assms in \<open>auto simp: register_durable_def RegistrationStore_append_def split: option.split\<close>)

lemma append_granted:
  assumes v: "view_ok v" "request_sound q" and r: "register_durable eligible threw (commit_call q) v = (v1, D_index n)"
  shows "granted_record q n v1" "grant_key q = (s, c, nf) \<Longrightarrow> \<not> MemoryRegistrationBackend_has s c nf v"
proof -
  let ?d = "request_of_call (commit_call q)"
  have inv: "invalid_call (commit_call q) = None"
    using r by (auto simp: register_durable_def RegistrationStore_append_def durable_of_outcome_def invalid_call_def
        split: if_splits option.splits prod.splits append_outcome.splits)
  have rs: "0 \<le> rc_season (commit_call q)"
    using v(2) by (simp add: commit_call_def request_sound_def)
  note vd = valid_request_of_call [OF inv rs]
  have m: "MemoryRegistrationBackend_append ?d v = (v1, Appended n)"
    using r inv by (auto simp: register_durable_def RegistrationStore_append_def durable_of_outcome_def
        split: if_splits option.splits prod.splits append_outcome.splits)
  have rq: "rq_season ?d = xp_season (vq_expected q)" "rq_contextHash ?d = cm_contextHash (vq_claims q)"
      "rq_regNullifier ?d = cm_regNullifier (vq_claims q)"
    by (simp_all add: request_of_call_def commit_call_def)
  have out: "\<not> MemoryRegistrationBackend_has (rq_season ?d) (rq_contextHash ?d) (rq_regNullifier ?d) v"
      "n = length (forSeasonContext (rq_season ?d) (rq_contextHash ?d) v)"
    using memory_backend.append_outcome [OF v(1) vd] m by (auto split: if_splits list.splits)
  show "granted_record q n v1"
    using memory_backend.append_recs [OF v(1) vd, of "rq_season ?d" "rq_contextHash ?d"] m out(2) rq
    by (simp add: granted_record_def)
  show "grant_key q = (s, c, nf) \<Longrightarrow> \<not> MemoryRegistrationBackend_has s c nf v"
    using out(1) rq by (simp add: grant_key_def)
qed

lemma commit_inv:
  assumes s: "vr_inv P s" "request_sound q"
  shows "vr_inv P (do_commit P fails now live regressed eligible threw i q s)"
proof -
  let ?c = "commit_call q" and ?v = "vs_view s"
  let ?dur = "register_durable eligible threw ?c"
  obtain sm v out where c: "SeasonMembers_commit P fails now live regressed (xp_season (vq_expected q)) (cm_contextHash (vq_claims q))
      (cm_commitment (vq_claims q)) ?dur (Some (cm_regNullifier (vq_claims q))) (vs_season s) ?v = (sm, v, out)"
    by (metis prod_cases3)
  have rs: "0 \<le> rc_season ?c" "rc_season ?c = xp_season (vq_expected q)" "rc_contextHash ?c = cm_contextHash (vq_claims q)"
      "rc_commitment ?c = cm_commitment (vq_claims q)"
    using s(2) by (simp_all add: commit_call_def request_sound_def)
  have vok: "view_ok ?v" and smi: "sm_inv P (vs_season s) ?v"
    using s(1) by (simp_all add: vr_inv_def)
  have dok: "durable_ok (xp_season (vq_expected q)) (cm_contextHash (vq_claims q)) (cm_commitment (vq_claims q)) ?v (?dur ?v)"
    using register_durable_ok [OF vok rs(1), of eligible threw] rs by simp
  have "sm_inv P sm v"
    using commit_facts [OF smi dok c] by blast
  moreover have "view_ok v"
    using commit_view(1) [OF c] vok append_view_ok [OF vok rs(1)] by metis
  moreover have "\<exists>more. forSeasonContext y k v = forSeasonContext y k ?v @ more" for y k
    using commit_view(1) [OF c] durable_grows [of _ _ _ ?v "fst (?dur ?v)" "snd (?dur ?v)"] dok by (metis append.right_neutral prod.collapse)
  note grow = this
  have old: "request_sound q' \<and> granted_record q' n v" if "(q', n) \<in> set (vs_granted s)" for q' n
    using s(1) that granted_grows [OF _ grow] unfolding vr_inv_def by blast
  have new: "granted_record q n v \<and> grant_key q \<notin> (\<lambda>(q, n). grant_key q) ` set (vs_granted s)"
    if "out = Inr (Committed n root sz)" for n root sz
  proof -
    have d: "?dur ?v = (v, D_index n)"
      by (rule commit_view(2) [OF c that])
    note g = append_granted [OF vok s(2) d]
    have "grant_key q' \<noteq> grant_key q" if "(q', m) \<in> set (vs_granted s)" for q' m
    proof
      assume same: "grant_key q' = grant_key q"
      obtain y k nf where key: "grant_key q' = (y, k, nf)"
        by (cases "grant_key q'")
      have "MemoryRegistrationBackend_has y k nf ?v"
        using s(1) that granted_has [OF vok _ _ key] unfolding vr_inv_def by blast
      then show False
        using g(2) key same by simp
    qed
    then show ?thesis
      using g(1) by fastforce
  qed
  moreover have "set (vs_calls (set_phase i q p t)) \<subseteq> insert (q, p) (set (vs_calls t))" for p and t :: "'a vr_sys"
    by (simp add: set_phase_def set_update_subset_insert)
  ultimately have calls: "\<forall>(q', p) \<in> set ((vs_calls s)[i := (q, commit_phase out)]). request_sound q'"
    using s set_update_subset_insert [of "vs_calls s" i "(q, commit_phase out)"] unfolding vr_inv_def by blast
  have granted: "\<forall>(q', n) \<in> set (vs_granted s @ (case out of Inr (Committed n _ _) \<Rightarrow> [(q, n)] | _ \<Rightarrow> [])).
      request_sound q' \<and> granted_record q' n v"
    using old new s(2) by (auto split: sum.splits commit_result.splits)
  have dist: "distinct (map (\<lambda>(q, n). grant_key q) (vs_granted s @ (case out of Inr (Committed n _ _) \<Rightarrow> [(q, n)] | _ \<Rightarrow> [])))"
  proof -
    have "distinct (map (\<lambda>(q, n). grant_key q) (vs_granted s))"
      using s(1) by (simp add: vr_inv_def)
    then show ?thesis
      using new by (auto split: sum.splits commit_result.splits)
  qed
  show ?thesis
    using calls granted dist \<open>sm_inv P sm v\<close> \<open>view_ok v\<close> c by (simp add: do_commit_def vr_inv_def set_phase_def)
qed

lemma set_phase_inv: "vr_inv P s \<Longrightarrow> request_sound q \<Longrightarrow> vr_inv P (set_phase i q p s)"
  using set_update_subset_insert [of "vs_calls s" i "(q, p)"] unfolding vr_inv_def set_phase_def by fastforce

lemma season_inv: "vr_inv P s \<Longrightarrow> sm_inv P sm (vs_view s) \<Longrightarrow> vr_inv P (s\<lparr>vs_season := sm\<rparr>)"
  by (simp add: vr_inv_def)

lemma call_sound: "vr_inv P s \<Longrightarrow> i < length (vs_calls s) \<Longrightarrow> vs_calls s ! i = (q, p) \<Longrightarrow> request_sound q"
  unfolding vr_inv_def by (metis (mono_tags, lifting) case_prod_conv nth_mem)

lemma vr_step_inv:
  assumes "vr_inv P s" "vr_step P s t"
  shows "vr_inv P t"
  using assms(2)
proof cases
  case (vr_arrive q)
  then show ?thesis
    using assms(1) by (auto simp: vr_inv_def request_sound_def)
next
  case (vr_has i q p found recent eligible)
  then show ?thesis
    using set_phase_inv [OF assms(1) call_sound [OF assms(1)]] by metis
next
  case (vr_proof i q admitted verdict recent eligible)
  then show ?thesis
    using set_phase_inv [OF assms(1) call_sound [OF assms(1)]] by metis
next
  case (vr_recover i q fails now)
  obtain sm r where r: "SeasonMembers_recoverMember P fails now (xp_season (vq_expected q)) (cm_contextHash (vq_claims q))
      (vs_view s) (vs_season s) = (sm, r)"
    by fastforce
  have "sm_inv P sm (vs_view s)"
    using recover_inv [OF _ r] assms(1) by (simp add: vr_inv_def)
  then show ?thesis
    using set_phase_inv [OF season_inv [OF assms(1)] call_sound [OF assms(1) vr_recover(2,3)]] r vr_recover(1)
    by (simp add: do_recover_def)
next
  case (vr_commit i q fails now live regressed eligible threw)
  then show ?thesis
    using commit_inv [OF assms(1) call_sound [OF assms(1)]] by metis
next
  case (vr_roll season sm)
  then show ?thesis
    using season_inv [OF assms(1)] roll_inv assms(1) by (metis SeasonMembers_ensure_def vr_inv_def)
next
  case (vr_read fails now season ctx sm e)
  then show ?thesis
    using season_inv [OF assms(1) ensureContext_inv] assms(1) by (metis vr_inv_def)
next
  case (vr_restart monotonic depth window emptyRoot now)
  then show ?thesis
    using assms(1) sm_inv_new by (auto simp: vr_inv_def)
qed

lemma vr_reach_inv: "vr_reach P s \<Longrightarrow> vr_inv P s"
proof (induction rule: vr_reach.induct)
  case (vr_start v monotonic depth window emptyRoot now)
  then show ?case
    by (simp add: vr_inv_def sm_inv_new)
next
  case (vr_next s t)
  then show ?case
    using vr_step_inv by blast
qed

text \<open>One call, resumed with the answers it gets.\<close>

fun vr_trace :: "vr_request \<Rightarrow> vr_phase \<Rightarrow> vr_answer list \<Rightarrow> vr_phase" where
  "vr_trace q p [] = p"
| "vr_trace q p (a # answers) = vr_trace q (verifyRegistrationCore_resume q p a) answers"

subsection \<open>Properties\<close>

lemma trace_stuck:
  "p \<in> {VR_recover, VR_has_again, VR_threw} \<or> (\<exists>r. p = VR_done r) \<Longrightarrow> vr_trace q p as \<noteq> VR_commit"
proof (induction as arbitrary: p)
  case (Cons a as)
  have "verifyRegistrationCore_resume q p a \<in> {VR_recover, VR_has_again, VR_threw} \<or> (\<exists>r. verifyRegistrationCore_resume q p a = VR_done r)"
    using Cons.prems by (cases "(q, p, a)" rule: verifyRegistrationCore_resume.cases) (auto simp: replayed_def)
  then show ?case
    using Cons.IH by simp
qed auto

lemma vr_trace_append: "vr_trace q p (as @ bs) = vr_trace q (vr_trace q p as) bs"
  by (induction as arbitrary: p) simp_all

text \<open>The anchor a call may go on with: the window accepts it, and so does the caller's rule where there is one.\<close>

definition anchor_accepted :: "root_rule \<Rightarrow> root_rule option \<Rightarrow> string \<Rightarrow> bool" where
  "anchor_accepted recent eligible root \<longleftrightarrow> recent root = Some True \<and> (\<forall>rule. eligible = Some rule \<longrightarrow> rule root = Some True)"

lemma rootOk_accepts: "rootOk recent eligible root \<longleftrightarrow> anchor_accepted recent eligible root"
  by (auto simp: rootOk_def anchor_accepted_def split: option.split)

lemma resume_has_cases:
  "verifyRegistrationCore_resume q VR_has a = VR_has \<or> vr_trace q (verifyRegistrationCore_resume q VR_has a) as \<noteq> VR_commit \<or>
   verifyRegistrationCore_resume q VR_has a = VR_proof \<and>
     (\<exists>recent eligible. a = VA_has (Some False) recent eligible \<and> anchor_accepted recent eligible (cm_root (vq_claims q)))"
  using trace_stuck [of "verifyRegistrationCore_resume q VR_has a" q as]
  by (cases "(q, VR_has, a)" rule: verifyRegistrationCore_resume.cases) (auto simp: replayed_def rootOk_accepts)

lemma resume_proof_cases:
  "verifyRegistrationCore_resume q VR_proof a = VR_proof \<or> vr_trace q (verifyRegistrationCore_resume q VR_proof a) as \<noteq> VR_commit \<or>
   (\<exists>recent eligible. a = VA_proof (Inr True) recent eligible \<and> anchor_accepted recent eligible (cm_root (vq_claims q)))"
  using trace_stuck [of "verifyRegistrationCore_resume q VR_proof a" q as]
  by (cases "(q, VR_proof, a)" rule: verifyRegistrationCore_resume.cases) (auto simp: rootOk_accepts)

lemma trace_proof: "vr_trace q VR_proof as = VR_commit \<Longrightarrow>
   \<exists>pre recent eligible post. as = pre @ VA_proof (Inr True) recent eligible # post \<and> vr_trace q VR_proof pre = VR_proof \<and>
     anchor_accepted recent eligible (cm_root (vq_claims q))"
proof (induction as)
  case (Cons a as)
  from resume_proof_cases [of q a as] Cons.prems consider "verifyRegistrationCore_resume q VR_proof a = VR_proof"
    | recent eligible where "a = VA_proof (Inr True) recent eligible" "anchor_accepted recent eligible (cm_root (vq_claims q))"
    by auto
  then show ?case
  proof cases
    case 1
    then obtain pre recent eligible post where "as = pre @ VA_proof (Inr True) recent eligible # post" "vr_trace q VR_proof pre = VR_proof"
        "anchor_accepted recent eligible (cm_root (vq_claims q))"
      using Cons by auto
    then show ?thesis
      using 1 by (intro exI [of _ "a # pre"]) auto
  next
    case 2
    then show ?thesis
      by (intro exI [of _ "[]"]) auto
  qed
qed simp

lemma trace_has: "vr_trace q VR_has as = VR_commit \<Longrightarrow>
   \<exists>pre recent eligible post. as = pre @ VA_has (Some False) recent eligible # post \<and> vr_trace q VR_has pre = VR_has \<and>
     anchor_accepted recent eligible (cm_root (vq_claims q)) \<and> vr_trace q VR_has (pre @ [VA_has (Some False) recent eligible]) = VR_proof \<and>
     vr_trace q VR_proof post = VR_commit"
proof (induction as)
  case (Cons a as)
  from resume_has_cases [of q a as] Cons.prems consider "verifyRegistrationCore_resume q VR_has a = VR_has"
    | recent eligible where "a = VA_has (Some False) recent eligible" "anchor_accepted recent eligible (cm_root (vq_claims q))"
        "verifyRegistrationCore_resume q VR_has a = VR_proof"
    by auto
  then show ?case
  proof cases
    case 1
    then obtain pre recent eligible post where "as = pre @ VA_has (Some False) recent eligible # post" "vr_trace q VR_has pre = VR_has"
        "anchor_accepted recent eligible (cm_root (vq_claims q))" "vr_trace q VR_has (pre @ [VA_has (Some False) recent eligible]) = VR_proof"
        "vr_trace q VR_proof post = VR_commit"
      using Cons by auto
    then show ?thesis
      using 1 by (intro exI [of _ "a # pre"]) auto
  next
    case 2
    then show ?thesis
      using Cons.prems by (intro exI [of _ "[]"]) auto
  qed
qed simp

text \<open>C3: nothing reaches the durable commit unchecked. Whatever answers a call gets, in whatever
  order, it comes to its commit only under a valid engine and statement, for the gateway's season
  and context, after the store denied the nullifier while the call asked it, with the window and the caller's rule
  accepting the very root the proof claims at that time, and after that the proof verified while the call waited for it,
  with the window and the rule, as they were then, accepting the root again.\<close>

theorem commit_needs_every_check:
  assumes "vr_trace q (verifyRegistrationCore_begin q) answers = VR_commit"
  shows "isValidEngineStatement (xp_engine (vq_expected q)) (xp_statement (vq_expected q)) \<and>
    cm_season (vq_claims q) = dec_of_int (xp_season (vq_expected q)) \<and>
    cm_contextHash (vq_claims q) = xp_contextHash (vq_expected q) \<and>
    (\<exists>pre recent rule mid recent' rule' post.
       answers = pre @ VA_has (Some False) recent rule # mid @ VA_proof (Inr True) recent' rule' # post \<and>
       vr_trace q (verifyRegistrationCore_begin q) pre = VR_has \<and>
       vr_trace q (verifyRegistrationCore_begin q) (pre @ VA_has (Some False) recent rule # mid) = VR_proof \<and>
       anchor_accepted recent rule (cm_root (vq_claims q)) \<and> anchor_accepted recent' rule' (cm_root (vq_claims q)))"
proof -
  have b: "verifyRegistrationCore_begin q = VR_has"
    using assms trace_stuck by (auto simp: verifyRegistrationCore_begin_def Let_def split: if_splits)
  then have checks: "isValidEngineStatement (xp_engine (vq_expected q)) (xp_statement (vq_expected q)) \<and>
      cm_season (vq_claims q) = dec_of_int (xp_season (vq_expected q)) \<and> cm_contextHash (vq_claims q) = xp_contextHash (vq_expected q)"
    by (auto simp: verifyRegistrationCore_begin_def Let_def split: if_splits)
  obtain pre recent rule rest where h: "answers = pre @ VA_has (Some False) recent rule # rest" "vr_trace q VR_has pre = VR_has"
      "anchor_accepted recent rule (cm_root (vq_claims q))" "vr_trace q VR_has (pre @ [VA_has (Some False) recent rule]) = VR_proof"
      "vr_trace q VR_proof rest = VR_commit"
    using trace_has [of q answers] assms b by auto
  obtain mid recent' rule' post where p: "rest = mid @ VA_proof (Inr True) recent' rule' # post" "vr_trace q VR_proof mid = VR_proof"
      "anchor_accepted recent' rule' (cm_root (vq_claims q))"
    using trace_proof [OF h(5)] by blast
  have "vr_trace q VR_has (pre @ VA_has (Some False) recent rule # mid) = VR_proof"
    using h(4) p(2) vr_trace_append [of q VR_has "pre @ [VA_has (Some False) recent rule]" mid] by simp
  then show ?thesis
    using checks h p b by (intro conjI exI [of _ pre] exI [of _ recent] exI [of _ rule] exI [of _ mid] exI [of _ recent']
        exI [of _ rule'] exI [of _ post]) simp_all
qed

definition demo_vr_request :: vr_request where
  "demo_vr_request = \<lparr>vq_claims = \<lparr>cm_commitment = dec_of_nat 107, cm_regNullifier = dec_of_nat 7, cm_root = ''9'',
      cm_season = dec_of_int 3, cm_contextHash = dec_of_nat 4\<rparr>,
    vq_expected = \<lparr>xp_engine = F_str ''groth16'', xp_statement = F_str ''derive'', xp_season = 3, xp_contextHash = dec_of_nat 4\<rparr>,
    vq_recovers = True\<rparr>"

text \<open>A window that accepts this one root, and the answers that lead to the commit.\<close>

definition demo_recent :: root_rule where
  "demo_recent root = Some (root = ''9'')"

theorem commit_needs_every_check_witness:
  "vr_trace demo_vr_request (verifyRegistrationCore_begin demo_vr_request)
     [VA_has (Some False) demo_recent None, VA_proof (Inr True) demo_recent (Some demo_recent)] = VR_commit
    \<and> isValidEngineStatement (F_str ''groth16'') (F_str ''derive'') \<and> demo_recent (cm_root (vq_claims demo_vr_request)) = Some True"
proof -
  have "vr_trace demo_vr_request (verifyRegistrationCore_begin demo_vr_request)
      [VA_has (Some False) demo_recent None, VA_proof (Inr True) demo_recent (Some demo_recent)] = VR_commit"
    by (simp add: verifyRegistrationCore_begin_def demo_vr_request_def ENGINE_STATEMENTS_def rootOk_def demo_recent_def)
  with commit_needs_every_check [OF this] show ?thesis
    by (simp add: demo_vr_request_def demo_recent_def)
qed

text \<open>
  Two registrations with one nullifier race: both are denied by the store, both proofs verify, and both come to their
  commit. The first is granted leaf 0, the second finds the nullifier spent.
\<close>

definition demo_vr_rival :: vr_request where
  "demo_vr_rival = demo_vr_request\<lparr>vq_claims := (vq_claims demo_vr_request)\<lparr>cm_commitment := dec_of_nat 108\<rparr>\<rparr>"

abbreviation demo_vr_state :: "nat season_members \<Rightarrow> reg_view \<Rightarrow> vr_phase \<Rightarrow> vr_phase \<Rightarrow> (vr_request \<times> nat) list \<Rightarrow> nat vr_sys" where
  "demo_vr_state sm v p r g \<equiv> \<lparr>vs_season = sm, vs_view = v, vs_calls = [(demo_vr_request, p), (demo_vr_rival, r)], vs_granted = g\<rparr>"

lemma demo_vr_race: "vr_reach demo_hasher (demo_vr_state demo_season empty_view VR_commit VR_commit [])"
proof -
  let ?q = demo_vr_request and ?r = demo_vr_rival
  let ?s0 = "\<lparr>vs_season = SeasonMembers_new True 2 4 ''0'' (Num 0), vs_view = empty_view, vs_calls = [], vs_granted = []\<rparr> :: nat vr_sys"
  let ?s1 = "?s0\<lparr>vs_season := demo_season\<rparr>"
  have ok: "claims_canonical (vq_claims ?q)" "claims_canonical (vq_claims ?r)"
      "0 \<le> xp_season (vq_expected ?q)" "0 \<le> xp_season (vq_expected ?r)"
    by (simp_all add: claims_canonical_def demo_vr_request_def demo_vr_rival_def isCanonicalField_dec_of_nat FIELD_PRIME_def)
  have b: "verifyRegistrationCore_begin ?q = VR_has" "verifyRegistrationCore_begin ?r = VR_has"
    by (simp_all add: verifyRegistrationCore_begin_def demo_vr_request_def demo_vr_rival_def ENGINE_STATEMENTS_def)
  have root: "rootOk demo_recent None (cm_root (vq_claims ?q))" "rootOk demo_recent None (cm_root (vq_claims ?r))"
    by (simp_all add: rootOk_def demo_recent_def demo_vr_request_def demo_vr_rival_def)
  have none: "\<not> has_claim d (demo_vr_state demo_season empty_view p r [])" for d p r
    by (simp add: has_claim_def MemoryRegistrationBackend_has_def empty_view_def)
  have "SeasonMembers_ensure 3 (vs_season ?s0) = Inr demo_season"
    by (simp add: SeasonMembers_ensure_def sm_roll_def demo_season_def SeasonMembers_new_def)
  then have "vr_reach demo_hasher ?s1"
    by (intro vr_next [OF vr_start vr_roll] view_ok_empty)
  then have "vr_reach demo_hasher (?s1\<lparr>vs_calls := [(?q, VR_has)]\<rparr>)"
    using vr_next [OF _ vr_arrive [OF ok(1,3)], of demo_hasher ?s1] by (simp add: b)
  then have "vr_reach demo_hasher (demo_vr_state demo_season empty_view VR_has VR_has [])"
    using vr_next [OF _ vr_arrive [OF ok(2,4)], of demo_hasher "?s1\<lparr>vs_calls := [(?q, VR_has)]\<rparr>"] by (simp add: b)
  then have "vr_reach demo_hasher (demo_vr_state demo_season empty_view VR_proof VR_has [])"
    using vr_next [OF _ vr_has [of 0 _ ?q VR_has "Some False" demo_hasher demo_recent None],
        of "demo_vr_state demo_season empty_view VR_has VR_has []"] none [of ?q] root by (simp add: set_phase_def)
  then have "vr_reach demo_hasher (demo_vr_state demo_season empty_view VR_proof VR_proof [])"
    using vr_next [OF _ vr_has [of 1 _ ?r VR_has "Some False" demo_hasher demo_recent None],
        of "demo_vr_state demo_season empty_view VR_proof VR_has []"] none [of ?r] root by (simp add: set_phase_def)
  then have "vr_reach demo_hasher (demo_vr_state demo_season empty_view VR_commit VR_proof [])"
    using vr_next [OF _ vr_proof [of 0 _ ?q demo_hasher True "Inr True" demo_recent None],
        of "demo_vr_state demo_season empty_view VR_proof VR_proof []"] root by (simp add: set_phase_def checkProof_def)
  then show ?thesis
    using vr_next [OF _ vr_proof [of 1 _ ?r demo_hasher True "Inr True" demo_recent None],
        of "demo_vr_state demo_season empty_view VR_commit VR_proof []"] root by (simp add: set_phase_def checkProof_def)
qed

text \<open>C15: one node, one membership a season. Over any interleaving of registrations, recoveries,
  rollovers and restarts, with throwing reads and writes that land although they threw, no two
  successful registrations share a season, context and registration nullifier, and each one's record
  is in the log at the leaf position its caller was given.\<close>

theorem one_registration_per_nullifier:
  assumes "vr_reach P s"
  shows "distinct (map (\<lambda>(q, n). grant_key q) (vs_granted s)) \<and>
    list_all (\<lambda>(q, n). granted_record q n (vs_view s)) (vs_granted s) \<and> sm_inv P (vs_season s) (vs_view s)"
  using vr_reach_inv [OF assms] by (auto simp: vr_inv_def list_all_iff)

text \<open>The state after the winner's commit, as far as the loser's looks at it: the tree is in place and the nullifier spent.\<close>

definition demo_vr_spent :: "nat season_members \<Rightarrow> reg_view \<Rightarrow> bool" where
  "demo_vr_spent sm v \<longleftrightarrow> sm_current sm = Some 3 \<and> jm_has (sm_ctx sm) (dec_of_nat 4) \<and>
     sm_size (dec_of_nat 4) sm = length (durable_records (dec_of_nat 4) sm v) \<and>
     MemoryRegistrationBackend_has 3 (dec_of_nat 4) (dec_of_nat 7) v"

abbreviation demo_vr_commit :: "nat \<Rightarrow> vr_request \<Rightarrow> nat vr_sys \<Rightarrow> nat vr_sys" where
  "demo_vr_commit \<equiv> do_commit demo_hasher (\<lambda>_. False) (Num 5) (Some 3) False True None"

lemma demo_vr_fields:
  "xp_season (vq_expected demo_vr_request) = 3" "cm_contextHash (vq_claims demo_vr_request) = dec_of_nat 4"
  "cm_regNullifier (vq_claims demo_vr_request) = dec_of_nat 7" "cm_commitment (vq_claims demo_vr_request) = dec_of_nat 107"
  "xp_season (vq_expected demo_vr_rival) = 3" "cm_contextHash (vq_claims demo_vr_rival) = dec_of_nat 4"
  "cm_regNullifier (vq_claims demo_vr_rival) = dec_of_nat 7"
  by (simp_all add: demo_vr_request_def demo_vr_rival_def)

lemma demo_vr_durable:
  "\<exists>v. register_durable True None (commit_call demo_vr_request) empty_view = (v, D_index 0) \<and>
     forSeasonContext 3 (dec_of_nat 4) v = [record_at (request_of_call (commit_call demo_vr_request)) 0] \<and>
     MemoryRegistrationBackend_has 3 (dec_of_nat 4) (dec_of_nat 7) v"
proof -
  let ?c = "commit_call demo_vr_request"
  let ?d = "request_of_call ?c"
  have inv: "invalid_call ?c = None"
    by (simp add: commit_call_def demo_vr_request_def invalid_call_def ENGINE_STATEMENTS_def isCanonicalField_dec_of_nat FIELD_PRIME_def)
  have d: "rq_season ?d = 3" "rq_contextHash ?d = dec_of_nat 4" "rq_regNullifier ?d = dec_of_nat 7"
    by (simp_all add: request_of_call_def commit_call_def demo_vr_fields)
  have "decide_append ?d empty_view = Inr (record_at ?d 0)"
    by (simp add: decide_append_def empty_view_def bucket_records_def)
  then have "register_durable True None ?c empty_view = (remember (record_at ?d 0) empty_view, D_index 0)"
    using inv by (simp add: register_durable_def RegistrationStore_append_def MemoryRegistrationBackend_append_def durable_of_outcome_def)
  moreover have "forSeasonContext 3 (dec_of_nat 4) (remember (record_at ?d 0) empty_view) = [record_at ?d 0]"
    using d by (simp add: forSeasonContext_def) (simp add: empty_view_def bucket_records_def)
  moreover have "MemoryRegistrationBackend_has 3 (dec_of_nat 4) (dec_of_nat 7) (remember (record_at ?d 0) empty_view)"
    using d by (simp add: MemoryRegistrationBackend_has_def remember_def)
  ultimately show ?thesis
    by blast
qed

lemma demo_vr_first:
  "\<exists>sm v root. demo_vr_commit 0 demo_vr_request (demo_vr_state demo_season empty_view VR_commit VR_commit []) =
     demo_vr_state sm v (VR_done (Registered 0 root 1)) VR_commit [(demo_vr_request, 0)] \<and> demo_vr_spent sm v"
proof -
  let ?k = "dec_of_nat 4"
  obtain v where v: "register_durable True None (commit_call demo_vr_request) empty_view = (v, D_index 0)"
      "forSeasonContext 3 ?k v = [record_at (request_of_call (commit_call demo_vr_request)) 0]"
      "MemoryRegistrationBackend_has 3 ?k (dec_of_nat 7) v"
    using demo_vr_durable by blast
  have cur: "sm_current demo_season = Some 3" "sm_ctx demo_season = []" "sm_depth demo_season = 2"
    by (simp_all add: demo_season_def SeasonMembers_new_def)
  have "parses demo_hasher [] []"
    by (simp add: parses_def)
  then obtain t where t: "fromCommitments demo_hasher [] 2 = Inr t" "mt_inv demo_hasher [] t" "mt_commitments t = []" "mt_depth t = 2"
    using fromCommitments_inv [of demo_hasher "[]" "[]" 2] by auto
  let ?sm = "set_context demo_hasher (Num 5) ?k t (RootStore_new (sm_rootWindow demo_season)) demo_season"
  have none: "durable_records ?k demo_season empty_view = []" "durable_records ?k ?sm empty_view = []"
    by (simp_all add: durable_records_def cur forSeasonContext_def empty_view_def bucket_records_def)
  have "sm_materialize demo_hasher (\<lambda>_. False) (Num 5) ?k empty_view demo_season = Inr ?sm"
    using none(1) t(1) by (simp add: sm_materialize_def cur materializeFrom_def jm_has_get jm_get_def)
  then have prep: "commit_prepare demo_hasher (\<lambda>_. False) (Num 5) ?k empty_view demo_season = (?sm, None)"
    using none(2) by (simp add: commit_prepare_def reconcileIfBehind_def)
  have room: "\<not> MembersTree_full t" "MembersTree_size t = 0"
    using t(3,4) by (simp_all add: MembersTree_full_def MembersTree_capacity_def MembersTree_size_def)
  have "pelem demo_hasher (dec_of_nat 107) = Some 107"
    using demo_parses [of "[107]"] by (auto simp: field_elem_def split: option.splits)
  then obtain u where u: "MembersTree_append demo_hasher (dec_of_nat 107) t = Inr (0, u)" "mt_commitments u = [dec_of_nat 107]"
    using append_inv [OF t(2) room(1)] t(3) by auto
  have unspent: "\<not> MemoryRegistrationBackend_has 3 ?k (dec_of_nat 7) empty_view"
    by (simp add: MemoryRegistrationBackend_has_def empty_view_def)
  obtain roots where c: "jm_get (sm_ctx ?sm) ?k = Some \<lparr>sc_tree = t, sc_roots = roots\<rparr>"
    by simp
  let ?sm1 = "set_context demo_hasher (Num 5) ?k u roots ?sm"
  have "commit_settle demo_hasher (Num 5) ?k (dec_of_nat 107) (D_index 0) \<lparr>sc_tree = t, sc_roots = roots\<rparr> ?sm =
      (?sm1, Inr (Committed 0 (MembersTree_root demo_hasher u) 1))"
    using room u by (simp add: commit_settle_def MembersTree_size_def)
  then have "SeasonMembers_commit demo_hasher (\<lambda>_. False) (Num 5) (Some 3) False 3 ?k (dec_of_nat 107)
      (register_durable True None (commit_call demo_vr_request)) (Some (dec_of_nat 7)) demo_season empty_view =
      (?sm1, v, Inr (Committed 0 (MembersTree_root demo_hasher u) 1))"
    using prep c room unspent v(1) cur by (simp add: SeasonMembers_commit_def del: set_context_fields)
  then have "demo_vr_commit 0 demo_vr_request (demo_vr_state demo_season empty_view VR_commit VR_commit []) =
      demo_vr_state ?sm1 v (VR_done (Registered 0 (MembersTree_root demo_hasher u) 1)) VR_commit [(demo_vr_request, 0)]"
    by (simp add: do_commit_def demo_vr_fields set_phase_def commit_phase_def)
  moreover have "demo_vr_spent ?sm1 v"
    using v u(2) cur by (simp add: demo_vr_spent_def jm_has_get sm_size_def MembersTree_size_def)
      (simp add: durable_records_def)
  ultimately show ?thesis
    by blast
qed

lemma demo_vr_second:
  assumes "demo_vr_spent sm v"
  shows "demo_vr_commit 1 demo_vr_rival (demo_vr_state sm v p VR_commit g) =
    demo_vr_state sm v p (VR_done (Declined ''already-registered'')) g"
proof -
  note sp = assms [unfolded demo_vr_spent_def]
  have "commit_prepare demo_hasher (\<lambda>_. False) (Num 5) (dec_of_nat 4) v sm = (sm, None)"
    using sp by (simp add: commit_prepare_def sm_materialize_def reconcileIfBehind_def)
  then show ?thesis
    using sp by (simp add: do_commit_def demo_vr_fields SeasonMembers_commit_def set_phase_def commit_phase_def refusal_reason_def)
qed

theorem one_registration_per_nullifier_witness:
  "\<exists>sm v root. vr_reach demo_hasher (demo_vr_state sm v (VR_done (Registered 0 root 1)) (VR_done (Declined ''already-registered''))
       [(demo_vr_request, 0)]) \<and>
     grant_key demo_vr_rival = grant_key demo_vr_request \<and> granted_record demo_vr_request 0 v \<and> sm_inv demo_hasher sm v"
proof -
  obtain sm v root where 1: "demo_vr_commit 0 demo_vr_request (demo_vr_state demo_season empty_view VR_commit VR_commit []) =
      demo_vr_state sm v (VR_done (Registered 0 root 1)) VR_commit [(demo_vr_request, 0)]" "demo_vr_spent sm v"
    using demo_vr_first by blast
  have "vr_step demo_hasher (demo_vr_state demo_season empty_view VR_commit VR_commit [])
      (demo_vr_state sm v (VR_done (Registered 0 root 1)) VR_commit [(demo_vr_request, 0)])"
    unfolding 1(1) [symmetric] by (rule vr_commit) simp_all
  note r1 = vr_next [OF demo_vr_race this]
  have "vr_step demo_hasher (demo_vr_state sm v (VR_done (Registered 0 root 1)) VR_commit [(demo_vr_request, 0)])
      (demo_vr_state sm v (VR_done (Registered 0 root 1)) (VR_done (Declined ''already-registered'')) [(demo_vr_request, 0)])"
    unfolding demo_vr_second [OF 1(2), symmetric] by (rule vr_commit) simp_all
  note r2 = vr_next [OF r1 this]
  have "grant_key demo_vr_rival = grant_key demo_vr_request"
    by (simp add: grant_key_def demo_vr_fields)
  then show ?thesis
    using one_registration_per_nullifier [OF r2] r2 by (intro exI [of _ sm] exI [of _ v] exI [of _ root]) simp
qed

subsubsection \<open>The journal\<close>

lemma val256_snoc [simp]: "val256 a (bs @ [b]) = 256 * val256 a bs + b"
  by (simp add: val256_def)

lemma val256_inject:
  "length as = length bs \<Longrightarrow> list_all (\<lambda>b. b < 256) as \<Longrightarrow> list_all (\<lambda>b. b < 256) bs \<Longrightarrow> val256 0 as = val256 0 bs \<Longrightarrow> as = bs"
proof (induction as arbitrary: bs rule: rev_induct)
  case (snoc a as)
  then obtain bs' b where bs: "bs = bs' @ [b]"
    by (cases bs rule: rev_cases) auto
  have "256 * val256 0 as + a = 256 * val256 0 bs' + b" "a < 256" "b < 256"
    using snoc.prems bs by simp_all
  moreover from this have "a = b"
    by (metis mod_less mod_mult_self3 mult.commute)
  ultimately have "val256 0 as = val256 0 bs'"
    by simp
  then show ?case
    using snoc.IH [of bs'] snoc.prems bs \<open>a = b\<close> by simp
qed simp

lemma hex_of_bytes_inject:
  "length as = length bs \<Longrightarrow> list_all (\<lambda>b. b < 256) as \<Longrightarrow> list_all (\<lambda>b. b < 256) bs \<Longrightarrow> hex_of_bytes as = hex_of_bytes bs \<Longrightarrow> as = bs"
proof (induction as bs rule: list_induct2)
  case (Cons a as b bs)
  then have "hex_char (a div 16) = hex_char (b div 16)" "hex_char (a mod 16) = hex_char (b mod 16)" "hex_of_bytes as = hex_of_bytes bs"
      "a < 256" "b < 256"
    by (simp_all add: hex_of_bytes_def)
  moreover from this have "a div 16 < 16" "b div 16 < 16"
    by (simp_all add: div_less_iff_less_mult)
  ultimately have "a div 16 = b div 16 \<and> a mod 16 = b mod 16"
    using hex_char_inject [of "a div 16" "b div 16"] hex_char_inject [of "a mod 16" "b mod 16"] by simp
  then have "a = b"
    by (metis div_mult_mod_eq)
  then show ?case
    using Cons by (simp add: hex_of_bytes_def)
qed simp

lemma journal_parts: "length bs = 136 \<Longrightarrow>
   bs = subarray 0 32 bs @ subarray 32 64 bs @ subarray 64 96 bs @ subarray 96 104 bs @ subarray 104 136 bs"
proof -
  assume "length bs = 136"
  have cut: "take n ys = take m ys @ take (n - m) (drop m ys)" if "m \<le> n" for m n and ys :: bytes
    using that by (metis le_add_diff_inverse take_add)
  show ?thesis
    using \<open>length bs = 136\<close> cut [of 32 136 bs] cut [of 32 104 "drop 32 bs"] cut [of 32 72 "drop 64 bs"] cut [of 8 40 "drop 96 bs"]
    by (simp add: subarray_def)
qed

lemma subarray_bytes: "list_all (\<lambda>b. b < 256) bs \<Longrightarrow> list_all (\<lambda>b. b < 256) (subarray i j bs)"
  by (auto simp: subarray_def list_all_iff dest: in_set_takeD in_set_dropD)

text \<open>The journal decoder is faithful. It accepts a journal exactly when it has the frozen length and
  its three field elements are below the field prime, and the claims it gives determine every byte of
  the journal, so no two journals are taken for the same claims.\<close>

lemma journal_decode_exact:
  assumes "list_all (\<lambda>b. b < 256) j" "list_all (\<lambda>b. b < 256) k"
  shows "(decodeZkvmRegistrationClaims (Some j) = decodeZkvmRegistrationClaims (Some k) \<and> isl (decodeZkvmRegistrationClaims (Some k)) = False
      \<longrightarrow> j = k) \<and>
    (isl (decodeZkvmRegistrationClaims (Some j)) \<longleftrightarrow> length j \<noteq> 136 \<or>
      (\<exists>off \<in> {0, 32, 104}. FIELD_PRIME \<le> val256 0 (subarray off (off + 32) j)))"
proof
  show "decodeZkvmRegistrationClaims (Some j) = decodeZkvmRegistrationClaims (Some k) \<and> isl (decodeZkvmRegistrationClaims (Some k)) = False
      \<longrightarrow> j = k"
  proof
    assume a: "decodeZkvmRegistrationClaims (Some j) = decodeZkvmRegistrationClaims (Some k) \<and> isl (decodeZkvmRegistrationClaims (Some k)) = False"
    then have len: "length j = 136" "length k = 136"
      by (auto simp: decodeZkvmRegistrationClaims_def REG_JOURNAL_BYTES_def split: if_splits)
    have eq: "val256 0 (subarray 0 32 j) = val256 0 (subarray 0 32 k)" "val256 0 (subarray 32 64 j) = val256 0 (subarray 32 64 k)"
        "hex_of_bytes (subarray 64 96 j) = hex_of_bytes (subarray 64 96 k)" "val256 0 (subarray 96 104 j) = val256 0 (subarray 96 104 k)"
        "val256 0 (subarray 104 136 j) = val256 0 (subarray 104 136 k)"
      using a len by (auto simp: decodeZkvmRegistrationClaims_def REG_JOURNAL_BYTES_def Let_def split: if_splits)
    have l: "length (subarray x y j) = length (subarray x y k)" for x y
      using len by (simp add: subarray_def)
    note b = subarray_bytes [OF assms(1)] subarray_bytes [OF assms(2)]
    have "subarray 0 32 j = subarray 0 32 k" "subarray 32 64 j = subarray 32 64 k" "subarray 64 96 j = subarray 64 96 k"
        "subarray 96 104 j = subarray 96 104 k" "subarray 104 136 j = subarray 104 136 k"
      using eq val256_inject [OF l b] hex_of_bytes_inject [OF l b] by blast+
    then show "j = k"
      using journal_parts [OF len(1)] journal_parts [OF len(2)] by metis
  qed
  have canon: "isCanonicalField (dec_of_nat n) \<longleftrightarrow> n < FIELD_PRIME" for n
    by (auto simp: isCanonicalField_iff)
  show "isl (decodeZkvmRegistrationClaims (Some j)) \<longleftrightarrow> length j \<noteq> 136 \<or>
      (\<exists>off \<in> {0, 32, 104}. FIELD_PRIME \<le> val256 0 (subarray off (off + 32) j))"
    by (auto simp: decodeZkvmRegistrationClaims_def REG_JOURNAL_BYTES_def Let_def canon not_less)
qed

theorem journal_decode_exact_witness:
  "isl (decodeZkvmRegistrationClaims (Some (replicate 135 0)))"
  using journal_decode_exact [of "replicate 135 0" "[]"] by (simp add: list_all_iff)

end
