(* ===== verification/Grant_Ledger.thy ===== *)
theory Grant_Ledger
  imports Js_Text Js_Map "HOL-Library.Char_ord" "HOL-Library.List_Lexorder"
begin

section \<open>The ledger of granted access (adapters/common/grant_ledger.js)\<close>

text \<open>
  The SQLite tables as values: the rows of \<open>grants\<close> in their storage order, and the \<open>meta\<close>
  entries. A statement is one step and durable when it returns; the \<open>updated_at\<close> column is
  written and never read, so it is left out. The platform is behind \<open>apply\<close>, \<open>revoke\<close> and
  \<open>admit\<close>, so an operation is a chain of phases, each the answer to one platform call. A record is
  whatever the adapter needs: its type, its validity, what a renewal orphans and what covers both
  come from the adapter's configuration, which also says whether the adapter's apply can refuse, with an
  error that reports that nothing was sent (\<open>gc_refuses\<close>: only Discord's denial conflict). Deadlines and clock readings are whole seconds.
\<close>

subsection \<open>Configuration and tables\<close>

record 'r gl_config =
  gc_expiresAt :: "'r \<Rightarrow> int"
  gc_validate :: "'r \<Rightarrow> bool"
  gc_orphaned :: "'r \<Rightarrow> 'r \<Rightarrow> 'r option"
  gc_covering :: "'r \<Rightarrow> 'r \<Rightarrow> 'r option"
  gc_repairs :: bool
  gc_refuses :: bool

text \<open>The record column holds JSON; \<open>None\<close> is text that does not parse.\<close>

record 'r gl_row =
  gr_expires :: int
  gr_record :: "'r option"
  gr_rev :: int

datatype regression_note = Noted int int int | Other_note

record 'r gl_db =
  db_rows :: "(string, 'r gl_row) jsmap"
  db_scope :: "string option"
  db_clockMark :: "string option"
  db_regressed :: "regression_note option"
  db_revSeq :: "string option"
  db_importedFrom :: "string option"

definition new_db :: "'r gl_db" where
  "new_db = \<lparr>db_rows = [], db_scope = None, db_clockMark = None, db_regressed = None, db_revSeq = None,
     db_importedFrom = None\<rparr>"

datatype gl_error =
    Malformed_grant | Unreadable_record string | Malformed_record string | Clock_ahead | Already_expired
  | Not_persisted | Not_migrated | Apply_rejected | Retire_invalid string
  | Foreign_scope string string | Unbound_scope | Bad_counter string | Legacy_not_json | Legacy_malformed string
  | Legacy_rename

subsection \<open>Statements\<close>

text \<open>SQLite's \<open>CAST(v AS INTEGER)\<close>: the leading integer of a text, or zero.\<close>

definition cast_integer :: "string \<Rightarrow> int" where
  "cast_integer v = (case js_parseInt v of Num n \<Rightarrow> n | _ \<Rightarrow> 0)"

definition rev_seq :: "'r gl_db \<Rightarrow> int" where
  "rev_seq db = (case db_revSeq db of None \<Rightarrow> 0 | Some v \<Rightarrow> cast_integer v)"

definition nextRev :: "'r gl_db \<Rightarrow> 'r gl_db \<times> int" where
  "nextRev db = (db\<lparr>db_revSeq := Some (dec_of_int (rev_seq db + 1))\<rparr>, rev_seq db + 1)"

definition put :: "'r gl_config \<Rightarrow> string \<Rightarrow> 'r \<Rightarrow> 'r gl_db \<Rightarrow> 'r gl_db \<times> int" where
  "put cfg user r db =
     (let (db, rv) = nextRev db in
      (db\<lparr>db_rows := jm_set user \<lparr>gr_expires = gc_expiresAt cfg r, gr_record = Some r, gr_rev = rv\<rparr> (db_rows db)\<rparr>, rv))"

definition del_row :: "string \<Rightarrow> int \<Rightarrow> 'r gl_db \<Rightarrow> 'r gl_db \<times> bool" where
  "del_row user rv db =
     (case jm_get (db_rows db) user of
        None \<Rightarrow> (db, False)
      | Some row \<Rightarrow> if gr_rev row = rv then (db\<lparr>db_rows := jm_delete user (db_rows db)\<rparr>, True) else (db, False))"

definition delAny :: "string \<Rightarrow> 'r gl_db \<Rightarrow> 'r gl_db" where
  "delAny user db = db\<lparr>db_rows := jm_delete user (db_rows db)\<rparr>"

definition due_users :: "int \<Rightarrow> 'r gl_db \<Rightarrow> string list" where
  "due_users t db = sort (map fst (filter (\<lambda>(u, row). gr_expires row \<le> t) (db_rows db)))"

definition parse_record :: "'r gl_config \<Rightarrow> string \<Rightarrow> 'r option \<Rightarrow> gl_error + 'r" where
  "parse_record cfg user text =
     (case text of
        None \<Rightarrow> Inl (Unreadable_record user)
      | Some r \<Rightarrow> if \<not> gc_validate cfg r then Inl (Malformed_record user) else Inr r)"

definition rowWithRev :: "'r gl_config \<Rightarrow> string \<Rightarrow> 'r gl_db \<Rightarrow> gl_error + ('r \<times> int) option" where
  "rowWithRev cfg user db =
     (case jm_get (db_rows db) user of
        None \<Rightarrow> Inr None
      | Some row \<Rightarrow> bindE (parse_record cfg user (gr_record row)) (\<lambda>r. Inr (Some (r, gr_rev row))))"

definition gl_get :: "'r gl_config \<Rightarrow> string \<Rightarrow> 'r gl_db \<Rightarrow> gl_error + 'r option" where
  "gl_get cfg user db = bindE (rowWithRev cfg user db) (\<lambda>x. Inr (map_option fst x))"

definition gl_has :: "string \<Rightarrow> 'r gl_db \<Rightarrow> bool" where
  "gl_has user db \<longleftrightarrow> jm_has (db_rows db) user"

definition entries :: "'r gl_config \<Rightarrow> 'r gl_db \<Rightarrow> gl_error + (string \<times> 'r) list" where
  "entries cfg db = mapE (\<lambda>(u, row). bindE (parse_record cfg u (gr_record row)) (\<lambda>r. Inr (u, r))) (db_rows db)"

definition all_records :: "'r gl_config \<Rightarrow> 'r gl_db \<Rightarrow> gl_error + 'r list" where
  "all_records cfg db = mapE (\<lambda>(u, row). parse_record cfg u (gr_record row)) (db_rows db)"

definition validateAll :: "'r gl_config \<Rightarrow> 'r gl_db \<Rightarrow> gl_error option" where
  "validateAll cfg db = (case all_records cfg db of Inl e \<Rightarrow> Some e | Inr _ \<Rightarrow> None)"

text \<open>\<open>some\<close> stops at the first record that matches, before it reads the rest.\<close>

fun some_record :: "'r gl_config \<Rightarrow> ('r \<Rightarrow> string \<Rightarrow> bool) \<Rightarrow> (string, 'r gl_row) jsmap \<Rightarrow> gl_error + bool" where
  "some_record cfg p [] = Inr False"
| "some_record cfg p ((u, row) # rows) =
     bindE (parse_record cfg u (gr_record row)) (\<lambda>r. if p r u then Inr True else some_record cfg p rows)"

definition gl_size :: "'r gl_db \<Rightarrow> nat" where
  "gl_size db = length (db_rows db)"

subsection \<open>The guarded clock\<close>

record clock_sample =
  cs_wall :: int
  cs_floor :: int

definition clock_mark :: "'r gl_db \<Rightarrow> int option" where
  "clock_mark db =
     (case db_clockMark db of
        None \<Rightarrow> None
      | Some v \<Rightarrow> (case js_Number v of Num n \<Rightarrow> Some n | _ \<Rightarrow> None))"

definition raiseMark :: "int \<Rightarrow> 'r gl_db \<Rightarrow> 'r gl_db" where
  "raiseMark t db = db\<lparr>db_clockMark := Some (dec_of_int
     (case db_clockMark db of None \<Rightarrow> t | Some v \<Rightarrow> max (cast_integer v) t))\<rparr>"

definition observeClock :: "int \<Rightarrow> 'r gl_db \<Rightarrow> 'r gl_db \<times> clock_sample" where
  "observeClock t db =
     (case clock_mark db of
        None \<Rightarrow> (raiseMark t db, \<lparr>cs_wall = t, cs_floor = t\<rparr>)
      | Some mark \<Rightarrow>
          if t > mark then (raiseMark t db, \<lparr>cs_wall = t, cs_floor = t\<rparr>)
          else (if t < mark \<and> db_regressed db = None then db\<lparr>db_regressed := Some (Noted t mark t)\<rparr> else db,
                \<lparr>cs_wall = t, cs_floor = max t mark\<rparr>))"

definition clockIsSane :: "'r gl_db \<Rightarrow> bool" where
  "clockIsSane db \<longleftrightarrow> db_regressed db = None"

subsection \<open>One member's operations\<close>

text \<open>Where a member's operation waits: for the platform call named by the phase.\<close>

datatype 'r member_op =
    Idle
  | Orphan_revoking 'r 'r 'r bool
  | Applying 'r "'r option" int
  | Compensating 'r int
  | Expiry_revoking 'r int
  | Admitting 'r

datatype gl_answer =
    Granted | Threw gl_error | Revoked_one | Kept_one | Overtaken | Nothing_due | Admitted bool

datatype 'r gl_next = Waits "'r member_op" | Answers gl_answer

text \<open>How an \<open>apply\<close> ended: done, refused before anything was sent, or failed part way.\<close>

datatype apply_outcome = Applied | Apply_unsent | Apply_failed

text \<open>\<open>persists\<close> says whether the write of the record succeeds.\<close>

definition grant_write :: "'r gl_config \<Rightarrow> bool \<Rightarrow> string \<Rightarrow> 'r \<Rightarrow> 'r option \<Rightarrow> 'r gl_db \<Rightarrow> 'r gl_db \<times> 'r gl_next" where
  "grant_write cfg persists user record prev db =
     (if \<not> persists then (db, Answers (Threw Not_persisted))
      else let (db, rv) = put cfg user record db in (db, Waits (Applying record prev rv)))"

definition grant_begin ::
    "'r gl_config \<Rightarrow> int \<Rightarrow> bool \<Rightarrow> string \<Rightarrow> 'r \<Rightarrow> 'r gl_db \<Rightarrow> 'r gl_db \<times> 'r gl_next" where
  "grant_begin cfg now persists user record db =
     (if \<not> gc_validate cfg record then (db, Answers (Threw Malformed_grant))
      else let (db, seen) = observeClock now db in
        if cs_floor seen \<ge> gc_expiresAt cfg record
        then (db, Answers (Threw (if cs_floor seen > cs_wall seen then Clock_ahead else Already_expired)))
        else (case gl_get cfg user db of
            Inl e \<Rightarrow> (db, Answers (Threw e))
          | Inr None \<Rightarrow> grant_write cfg persists user record None db
          | Inr (Some prev) \<Rightarrow>
              (case gc_orphaned cfg prev record of
                 None \<Rightarrow> grant_write cfg persists user record (Some prev) db
               | Some orphan \<Rightarrow>
                   (case gc_covering cfg record orphan of
                      None \<Rightarrow> (db, Waits (Orphan_revoking record prev orphan False))
                    | Some cover \<Rightarrow>
                        if \<not> persists then (db, Answers (Threw Not_persisted))
                        else (fst (put cfg user cover db), Waits (Orphan_revoking record prev orphan True))))))"

definition orphan_revoked ::
    "'r gl_config \<Rightarrow> bool \<Rightarrow> bool \<Rightarrow> string \<Rightarrow> 'r \<Rightarrow> 'r \<Rightarrow> bool \<Rightarrow> 'r gl_db \<Rightarrow> 'r gl_db \<times> 'r gl_next" where
  "orphan_revoked cfg revoked persists user record prev covered db =
     (if revoked then grant_write cfg persists user record (Some prev) db
      else (if covered \<and> persists then fst (put cfg user prev db) else db, Answers (Threw Not_migrated)))"

definition grant_applied ::
    "'r gl_config \<Rightarrow> apply_outcome \<Rightarrow> string \<Rightarrow> 'r \<Rightarrow> 'r option \<Rightarrow> int \<Rightarrow> 'r gl_db \<Rightarrow> 'r gl_db \<times> 'r gl_next" where
  "grant_applied cfg outcome user record prev rv db =
     (case outcome of
        Applied \<Rightarrow> (db, Answers Granted)
      | Apply_unsent \<Rightarrow>
          if prev \<noteq> None then (db, Answers (Threw Apply_rejected))
          else (fst (del_row user rv db), Answers (Threw Apply_rejected))
      | Apply_failed \<Rightarrow>
          if prev \<noteq> None then (db, Answers (Threw Apply_rejected))
          else if \<not> gc_repairs cfg then (db, Waits (Compensating record rv))
          else (db, Answers (Threw Apply_rejected)))"

definition compensated :: "bool \<Rightarrow> string \<Rightarrow> int \<Rightarrow> 'r gl_db \<Rightarrow> 'r gl_db \<times> 'r gl_next" where
  "compensated revoked user rv db =
     (if revoked then fst (del_row user rv db) else db, Answers (Threw Apply_rejected))"

text \<open>One member of a sweep, under the member's lock.\<close>

definition sweep_begin :: "'r gl_config \<Rightarrow> int \<Rightarrow> string \<Rightarrow> 'r gl_db \<Rightarrow> 'r gl_db \<times> 'r gl_next" where
  "sweep_begin cfg now user db =
     (case rowWithRev cfg user db of
        Inl e \<Rightarrow> (db, Answers (Threw e))
      | Inr None \<Rightarrow> (db, Answers Nothing_due)
      | Inr (Some (record, rv)) \<Rightarrow>
          let (db, seen) = observeClock now db in
          if cs_floor seen < gc_expiresAt cfg record then (db, Answers Nothing_due)
          else (db, Waits (Expiry_revoking record rv)))"

definition sweep_revoked :: "bool \<Rightarrow> string \<Rightarrow> int \<Rightarrow> 'r gl_db \<Rightarrow> 'r gl_db \<times> 'r gl_next" where
  "sweep_revoked revoked user rv db =
     (if \<not> revoked then (db, Answers Kept_one)
      else let (db, changed) = del_row user rv db in (db, Answers (if changed then Revoked_one else Overtaken)))"

definition admit_begin ::
    "'r gl_config \<Rightarrow> int \<Rightarrow> ('r \<Rightarrow> bool) \<Rightarrow> string \<Rightarrow> 'r gl_db \<Rightarrow> 'r gl_db \<times> 'r gl_next" where
  "admit_begin cfg now matches user db =
     (let (db, seen) = observeClock now db in
      (case gl_get cfg user db of
         Inl e \<Rightarrow> (db, Answers (Threw e))
       | Inr None \<Rightarrow> (db, Answers (Admitted False))
       | Inr (Some record) \<Rightarrow>
           if cs_floor seen \<ge> gc_expiresAt cfg record then (db, Answers (Admitted False))
           else if \<not> matches record then (db, Answers (Admitted False))
           else (db, Waits (Admitting record))))"

definition gl_live :: "'r gl_config \<Rightarrow> int \<Rightarrow> string \<Rightarrow> 'r gl_db \<Rightarrow> 'r gl_db \<times> (gl_error + bool)" where
  "gl_live cfg now user db =
     (let (db, seen) = observeClock now db in
      (db, bindE (gl_get cfg user db) (\<lambda>x.
        case x of None \<Rightarrow> Inr False | Some r \<Rightarrow> Inr (cs_floor seen < gc_expiresAt cfg r))))"

text \<open>A whole sweep when nothing else runs: \<open>revokes\<close> says which members' revocations succeed, and
  the clock is read once for the list and once for each member.\<close>

fun sweep_each ::
    "'r gl_config \<Rightarrow> (nat \<Rightarrow> int) \<Rightarrow> (string \<Rightarrow> bool) \<Rightarrow> nat \<Rightarrow> string list \<Rightarrow> 'r gl_db \<Rightarrow> 'r gl_db \<times> (gl_error + string list)" where
  "sweep_each cfg clock revokes i [] db = (db, Inr [])"
| "sweep_each cfg clock revokes i (u # us) db =
     (case sweep_begin cfg (clock i) u db of
        (db, Answers (Threw e)) \<Rightarrow> (db, Inl e)
      | (db, Waits (Expiry_revoking record rv)) \<Rightarrow>
          (case sweep_revoked (revokes u) u rv db of
             (db, Answers Revoked_one) \<Rightarrow>
               (case sweep_each cfg clock revokes (Suc i) us db of
                  (db, result) \<Rightarrow> (db, bindE result (\<lambda>rs. Inr (u # rs))))
           | (db, _) \<Rightarrow> sweep_each cfg clock revokes (Suc i) us db)
      | (db, _) \<Rightarrow> sweep_each cfg clock revokes (Suc i) us db)"

definition sweep :: "'r gl_config \<Rightarrow> (nat \<Rightarrow> int) \<Rightarrow> (string \<Rightarrow> bool) \<Rightarrow> 'r gl_db \<Rightarrow> 'r gl_db \<times> (gl_error + string list)" where
  "sweep cfg clock revokes db =
     (let (db, seen) = observeClock (clock 0) db in sweep_each cfg clock revokes 1 (due_users (cs_floor seen) db) db)"

subsection \<open>Offline retirement\<close>

fun retire_rows ::
    "'r gl_config \<Rightarrow> ('r \<Rightarrow> string \<Rightarrow> 'r option) \<Rightarrow> (string, 'r gl_row) jsmap \<Rightarrow> nat \<Rightarrow> nat \<Rightarrow> 'r gl_db \<Rightarrow>
     gl_error + 'r gl_db \<times> nat \<times> nat" where
  "retire_rows cfg f [] changed deleted db = Inr (db, changed, deleted)"
| "retire_rows cfg f ((u, row) # rows) changed deleted db =
     bindE (parse_record cfg u (gr_record row)) (\<lambda>before.
       case f before u of
         None \<Rightarrow> retire_rows cfg f rows changed (Suc deleted) (delAny u db)
       | Some after \<Rightarrow>
           if after = before then retire_rows cfg f rows changed deleted db
           else if \<not> gc_validate cfg after then Inl (Retire_invalid u)
           else retire_rows cfg f rows (Suc changed) deleted (fst (put cfg u after db)))"

definition retireAll ::
    "'r gl_config \<Rightarrow> ('r \<Rightarrow> string \<Rightarrow> 'r option) \<Rightarrow> 'r gl_db \<Rightarrow> 'r gl_db \<times> (gl_error + nat \<times> nat \<times> nat)" where
  "retireAll cfg f db =
     (case retire_rows cfg f (db_rows db) 0 0 db of
        Inl e \<Rightarrow> (db, Inl e)
      | Inr (db', changed, deleted) \<Rightarrow> (db', Inr (changed, deleted, gl_size db')))"

subsection \<open>Opening\<close>

text \<open>The legacy JSON file: its records in the order of their keys, its clock mark and regression note.\<close>

record 'r legacy =
  lg_grants :: "(string \<times> 'r) list"
  lg_mark :: jsnum
  lg_regressed :: bool

datatype 'r legacy_file = No_legacy | Bad_legacy | Legacy string "'r legacy"

datatype rename_end = Renamed | Rename_missing | Rename_failed

record 'r open_call =
  oc_legacy :: "'r legacy_file"
  oc_rename :: rename_end
  oc_scope :: "string option"
  oc_adoptScope :: "string option"
  oc_allowForeign :: bool
  oc_resetClock :: bool
  oc_now :: int

definition highest_rev :: "'r gl_db \<Rightarrow> int" where
  "highest_rev db = fold (\<lambda>e m. max (gr_rev (snd e)) m) (db_rows db) 0"

definition MAX_SAFE_INTEGER :: int where
  "MAX_SAFE_INTEGER = 2 ^ 53 - 1"

definition seedRevSeq :: "'r gl_db \<Rightarrow> gl_error + 'r gl_db" where
  "seedRevSeq db =
     (case db_revSeq db of
        None \<Rightarrow> Inr (db\<lparr>db_revSeq := Some (dec_of_int (highest_rev db))\<rparr>)
      | Some v \<Rightarrow>
          (case js_Number v of
             Num stored \<Rightarrow>
               if stored < 0 \<or> stored > MAX_SAFE_INTEGER then Inl (Bad_counter v)
               else if stored < highest_rev db then Inr (db\<lparr>db_revSeq := Some (dec_of_int (highest_rev db))\<rparr>)
               else Inr db
           | _ \<Rightarrow> Inl (Bad_counter v)))"

definition pendingLegacyCount :: "'r legacy_file \<Rightarrow> 'r gl_db \<Rightarrow> nat" where
  "pendingLegacyCount lf db =
     (case lf of
        No_legacy \<Rightarrow> 0
      | _ \<Rightarrow>
          if gl_size db > 0 \<or> db_importedFrom db \<noteq> None then 0
          else (case lf of Legacy _ lg \<Rightarrow> length (lg_grants lg) | _ \<Rightarrow> 1))"

definition refuseForeignScope :: "string option \<Rightarrow> 'r legacy_file \<Rightarrow> bool \<Rightarrow> 'r gl_db \<Rightarrow> gl_error + 'r gl_db" where
  "refuseForeignScope scope lf allowForeign db =
     (case (db_scope db, scope) of
        (Some bound, Some want) \<Rightarrow>
          if bound = want then Inr db
          else if allowForeign then Inr db
          else if gl_size db + pendingLegacyCount lf db = 0 then Inr (db\<lparr>db_scope := Some want\<rparr>)
          else Inl (Foreign_scope bound want)
      | _ \<Rightarrow> Inr db)"

fun import_rows :: "'r gl_config \<Rightarrow> (string \<times> 'r) list \<Rightarrow> 'r gl_db \<Rightarrow> gl_error + 'r gl_db" where
  "import_rows cfg [] db = Inr db"
| "import_rows cfg ((u, r) # rest) db =
     (if \<not> gc_validate cfg r then Inl (Legacy_malformed u) else import_rows cfg rest (fst (put cfg u r db)))"

text \<open>The transaction commits before the file is renamed, so a failed rename throws with the rows kept.\<close>

definition importLegacy :: "'r gl_config \<Rightarrow> 'r legacy_file \<Rightarrow> rename_end \<Rightarrow> 'r gl_db \<Rightarrow> 'r gl_db \<times> gl_error option" where
  "importLegacy cfg lf rename db =
     (case lf of
        No_legacy \<Rightarrow> (db, None)
      | _ \<Rightarrow>
          if gl_size db > 0 \<or> db_importedFrom db \<noteq> None then (db, None)
          else (case lf of
              Legacy name lg \<Rightarrow>
                (case import_rows cfg (lg_grants lg) db of
                   Inl e \<Rightarrow> (db, Some e)
                 | Inr db' \<Rightarrow>
                     let db' = (case lg_mark lg of Num m \<Rightarrow> raiseMark m db' | _ \<Rightarrow> db');
                         db' = (if lg_regressed lg then db'\<lparr>db_regressed := Some Other_note\<rparr> else db');
                         db' = db'\<lparr>db_importedFrom := Some name\<rparr>
                     in (db', if rename = Rename_failed then Some Legacy_rename else None))
            | _ \<Rightarrow> (db, Some Legacy_not_json)))"

definition bindScope :: "string option \<Rightarrow> string option \<Rightarrow> 'r gl_db \<Rightarrow> gl_error + 'r gl_db" where
  "bindScope scope adoptScope db =
     (case scope of
        None \<Rightarrow> Inr db
      | Some want \<Rightarrow>
          if db_scope db \<noteq> None then Inr db
          else if gl_size db = 0 then Inr (db\<lparr>db_scope := Some want\<rparr>)
          else if adoptScope = Some want then Inr (db\<lparr>db_scope := Some want\<rparr>)
          else Inl Unbound_scope)"

text \<open>The state of the file after an open, and the error it threw, if any.\<close>

definition gl_open :: "'r gl_config \<Rightarrow> 'r open_call \<Rightarrow> 'r gl_db \<Rightarrow> 'r gl_db \<times> gl_error option" where
  "gl_open cfg c db =
     (case seedRevSeq db of Inl e \<Rightarrow> (db, Some e) | Inr db \<Rightarrow>
      case refuseForeignScope (oc_scope c) (oc_legacy c) (oc_allowForeign c) db of Inl e \<Rightarrow> (db, Some e) | Inr db \<Rightarrow>
      case importLegacy cfg (oc_legacy c) (oc_rename c) db of (db, Some e) \<Rightarrow> (db, Some e) | (db, None) \<Rightarrow>
      case bindScope (oc_scope c) (oc_adoptScope c) db of Inl e \<Rightarrow> (db, Some e) | Inr db \<Rightarrow>
      case validateAll cfg db of Some e \<Rightarrow> (db, Some e) | None \<Rightarrow>
      let db = (if oc_resetClock c then db\<lparr>db_clockMark := None, db_regressed := None\<rparr> else db)
      in (fst (observeClock (oc_now c) db), None))"

subsection \<open>What a statement changes\<close>

lemma js_Number_dec_of_int [simp]: "js_Number (dec_of_int i) = Num i"
  by (simp add: js_Number_def dec_of_int_def)

lemma cast_dec_of_int [simp]: "cast_integer (dec_of_int i) = i"
  by (simp add: cast_integer_def)

lemma js_Number_parseInt:
  assumes "js_Number v = Num n"
  shows "cast_integer v = n"
proof (cases "v = []")
  case True
  then show ?thesis
    using assms by (simp add: js_Number_def cast_integer_def js_parseInt_def)
next
  case False
  obtain sg ds where sp: "sign_split v = (sg, ds)"
    by fastforce
  have ds: "ds \<noteq> []" "list_all is_digit ds" "n = sg * int (nat_of_dec ds)"
    using assms False sp by (auto simp: js_Number_def split: if_splits)
  obtain c w where v: "v = c # w"
    using False by (cases v) auto
  have "\<not> js_space c"
    using sp ds(1,2) digit_not_sign v by (cases ds) (auto simp: js_space_def split: if_splits)
  then have "dropWhile js_space v = v"
    by (simp add: v)
  moreover have tw: "takeWhile is_digit ds = ds"
    using ds(2) by (simp add: takeWhile_eq_all_conv list_all_iff)
  ultimately show ?thesis
    using sp ds by (simp add: cast_integer_def js_parseInt_def tw)
qed

lemma clock_mark_cast: "clock_mark db = Some m \<Longrightarrow> \<exists>v. db_clockMark db = Some v \<and> cast_integer v = m"
  by (auto simp: clock_mark_def js_Number_parseInt split: option.splits jsnum.splits)

definition row_is :: "string \<Rightarrow> 'r \<Rightarrow> int \<Rightarrow> 'r gl_db \<Rightarrow> bool" where
  "row_is u r rv db \<longleftrightarrow> (\<exists>row. jm_get (db_rows db) u = Some row \<and> gr_record row = Some r \<and> gr_rev row = rv)"

lemma row_is_functional: "row_is u r rv db \<Longrightarrow> row_is u r' rv' db \<Longrightarrow> r' = r \<and> rv' = rv"
  by (auto simp: row_is_def)

lemma put_fields [simp]:
  "db_scope (fst (put cfg u r db)) = db_scope db"
  "db_clockMark (fst (put cfg u r db)) = db_clockMark db"
  "db_regressed (fst (put cfg u r db)) = db_regressed db"
  "db_importedFrom (fst (put cfg u r db)) = db_importedFrom db"
  "clock_mark (fst (put cfg u r db)) = clock_mark db"
  "rev_seq (fst (put cfg u r db)) = rev_seq db + 1"
  "snd (put cfg u r db) = rev_seq db + 1"
  by (simp_all add: put_def nextRev_def clock_mark_def rev_seq_def)

lemma put_rows [simp]:
  "db_rows (fst (put cfg u r db)) =
     jm_set u \<lparr>gr_expires = gc_expiresAt cfg r, gr_record = Some r, gr_rev = rev_seq db + 1\<rparr> (db_rows db)"
  by (simp add: put_def nextRev_def)

lemma put_pair: "put cfg u r db = (fst (put cfg u r db), rev_seq db + 1)"
  by (simp add: prod_eq_iff)

lemma observe_fields [simp]:
  "db_rows (fst (observeClock t db)) = db_rows db"
  "db_scope (fst (observeClock t db)) = db_scope db"
  "db_revSeq (fst (observeClock t db)) = db_revSeq db"
  "rev_seq (fst (observeClock t db)) = rev_seq db"
  "db_importedFrom (fst (observeClock t db)) = db_importedFrom db"
  by (simp_all add: observeClock_def raiseMark_def rev_seq_def split: option.splits)

lemma del_fields [simp]:
  "db_scope (fst (del_row u rv db)) = db_scope db"
  "db_clockMark (fst (del_row u rv db)) = db_clockMark db"
  "db_revSeq (fst (del_row u rv db)) = db_revSeq db"
  "rev_seq (fst (del_row u rv db)) = rev_seq db"
  "clock_mark (fst (del_row u rv db)) = clock_mark db"
  "db_importedFrom (fst (del_row u rv db)) = db_importedFrom db"
  by (simp_all add: del_row_def rev_seq_def clock_mark_def split: option.splits)

lemma delAny_fields [simp]:
  "db_scope (delAny u db) = db_scope db" "db_clockMark (delAny u db) = db_clockMark db"
  "rev_seq (delAny u db) = rev_seq db" "clock_mark (delAny u db) = clock_mark db"
  "db_rows (delAny u db) = jm_delete u (db_rows db)"
  by (simp_all add: delAny_def rev_seq_def clock_mark_def)

lemma row_is_put [simp]:
  "row_is v x rv (fst (put cfg u r db)) \<longleftrightarrow> (if v = u then x = r \<and> rv = rev_seq db + 1 else row_is v x rv db)"
  by (auto simp: row_is_def)

lemma row_is_observe [simp]: "row_is v x rv (fst (observeClock t db)) \<longleftrightarrow> row_is v x rv db"
  by (simp add: row_is_def)

lemma row_is_delAny [simp]: "row_is v x rv (delAny u db) \<longleftrightarrow> v \<noteq> u \<and> row_is v x rv db"
  by (auto simp: row_is_def)

lemma del_row_gone: "row_is u r rv db \<Longrightarrow> del_row u rv db = (delAny u db, True)"
  by (auto simp: row_is_def del_row_def delAny_def)

lemma del_row_other: "row_is v x w db \<Longrightarrow> v \<noteq> u \<Longrightarrow> row_is v x w (fst (del_row u rv db))"
  by (auto simp: row_is_def del_row_def split: option.splits)

lemma row_is_del: "row_is v x w (fst (del_row u rv db)) \<Longrightarrow> row_is v x w db"
  by (auto simp: row_is_def del_row_def split: option.splits if_splits)

lemma gl_get_row: "gl_get cfg u db = Inr (Some r) \<Longrightarrow> \<exists>rv. row_is u r rv db"
  by (auto simp: gl_get_def rowWithRev_def parse_record_def bindE_Inr row_is_def split: option.splits if_splits)

lemma gl_get_None: "gl_get cfg u db = Inr None \<Longrightarrow> jm_get (db_rows db) u = None"
  by (auto simp: gl_get_def rowWithRev_def bindE_Inr split: option.splits)

lemma rowWithRev_row: "rowWithRev cfg u db = Inr (Some (r, rv)) \<Longrightarrow> row_is u r rv db"
  by (auto simp: rowWithRev_def parse_record_def bindE_Inr row_is_def split: option.splits if_splits)

lemma row_is_get: "row_is u r rv db \<Longrightarrow> gc_validate cfg r \<Longrightarrow> rowWithRev cfg u db = Inr (Some (r, rv)) \<and> gl_get cfg u db = Inr (Some r)"
  by (auto simp: gl_get_def rowWithRev_def parse_record_def row_is_def)

lemma gl_get_observe [simp]: "gl_get cfg u (fst (observeClock t db)) = gl_get cfg u db"
  by (simp add: gl_get_def rowWithRev_def)

subsection \<open>The clock floor\<close>

lemma observe_mark: "\<exists>m. clock_mark (fst (observeClock t db)) = Some m \<and> cs_floor (snd (observeClock t db)) \<le> m"
  by (auto simp: observeClock_def raiseMark_def clock_mark_def split: option.splits jsnum.splits)

lemma observe_floor: "clock_mark db = Some m \<Longrightarrow> m \<le> cs_floor (snd (observeClock t db)) \<and> t \<le> cs_floor (snd (observeClock t db))"
  by (simp add: observeClock_def)

lemma observe_floor_now: "t \<le> cs_floor (snd (observeClock t db))"
  by (simp add: observeClock_def split: option.splits)

lemma raiseMark_mark: "\<exists>m'. clock_mark (raiseMark t db) = Some m' \<and> t \<le> m' \<and> (\<forall>m. clock_mark db = Some m \<longrightarrow> m \<le> m')"
  using clock_mark_cast [of db]
  by (auto simp: raiseMark_def clock_mark_def split: option.splits jsnum.splits)

lemma observe_mono: "clock_mark db = Some m \<Longrightarrow> \<exists>m'. clock_mark (fst (observeClock t db)) = Some m' \<and> m \<le> m'"
  using observe_mark [of t db] observe_floor [of db m t] by force

subsection \<open>What retirement and opening change\<close>

text \<open>What a retired row holds afterwards.\<close>

definition retired_to :: "'r gl_config \<Rightarrow> ('r \<Rightarrow> string \<Rightarrow> 'r option) \<Rightarrow> string \<Rightarrow> 'r gl_row \<Rightarrow> 'r gl_row option \<Rightarrow> bool" where
  "retired_to cfg f u row row' \<longleftrightarrow> (\<exists>before. parse_record cfg u (gr_record row) = Inr before \<and>
     (case f before u of
        None \<Rightarrow> row' = None
      | Some after \<Rightarrow> gc_validate cfg after \<and> (\<exists>r. row' = Some r \<and> gr_record r = Some after \<and>
          (if after = before then r = row else gr_expires r = gc_expiresAt cfg after))))"

lemma parse_record_Inr: "parse_record cfg u text = Inr r \<longleftrightarrow> text = Some r \<and> gc_validate cfg r"
  by (auto simp: parse_record_def split: option.splits)

lemma retire_rows_spec:
  assumes "retire_rows cfg f rows c d db = Inr (db', c', d')" "jm_wf rows"
    and "\<And>u row. (u, row) \<in> set rows \<Longrightarrow> jm_get (db_rows db) u = Some row"
  shows "(\<forall>u. (\<forall>row. (u, row) \<notin> set rows) \<longrightarrow> jm_get (db_rows db') u = jm_get (db_rows db) u) \<and>
    (\<forall>(u, row) \<in> set rows. retired_to cfg f u row (jm_get (db_rows db') u)) \<and> rev_seq db \<le> rev_seq db' \<and>
    clock_mark db' = clock_mark db \<and> db_scope db' = db_scope db"
  using assms
proof (induction cfg f rows c d db rule: retire_rows.induct)
  case (1 cfg f c d db)
  then show ?case
    by simp
next
  case (2 cfg f u row rows c d db)
  obtain old where old: "parse_record cfg u (gr_record row) = Inr old"
    using 2(4) by (auto simp: bindE_Inr)
  have wf: "jm_wf rows" "\<And>r. (u, r) \<notin> set rows"
    using 2(5) by (auto simp: jm_wf_def image_iff)
  have here: "jm_get (db_rows db) u = Some row" and others: "\<And>v r. (v, r) \<in> set rows \<Longrightarrow> v \<noteq> u \<and> jm_get (db_rows db) v = Some r"
    using 2(6) wf(2) by auto
  have step: ?case if db1: "retire_rows cfg f rows c1 d1 db1 = Inr (db', c', d')"
    and keeps: "\<And>v. v \<noteq> u \<Longrightarrow> jm_get (db_rows db1) v = jm_get (db_rows db) v"
    and done1: "retired_to cfg f u row (jm_get (db_rows db1) u)"
    and rest: "rev_seq db \<le> rev_seq db1" "clock_mark db1 = clock_mark db" "db_scope db1 = db_scope db"
    and IH: "jm_wf rows \<Longrightarrow> (\<And>v r. (v, r) \<in> set rows \<Longrightarrow> jm_get (db_rows db1) v = Some r) \<Longrightarrow>
      (\<forall>v. (\<forall>r. (v, r) \<notin> set rows) \<longrightarrow> jm_get (db_rows db') v = jm_get (db_rows db1) v) \<and>
      (\<forall>(v, r) \<in> set rows. retired_to cfg f v r (jm_get (db_rows db') v)) \<and> rev_seq db1 \<le> rev_seq db' \<and>
      clock_mark db' = clock_mark db1 \<and> db_scope db' = db_scope db1"
    for c1 d1 db1
  proof -
    have ih: "(\<forall>v. (\<forall>r. (v, r) \<notin> set rows) \<longrightarrow> jm_get (db_rows db') v = jm_get (db_rows db1) v)"
      "(\<forall>(v, r) \<in> set rows. retired_to cfg f v r (jm_get (db_rows db') v))"
      "rev_seq db1 \<le> rev_seq db'" "clock_mark db' = clock_mark db1" "db_scope db' = db_scope db1"
      using IH [OF wf(1)] keeps others by auto
    have "jm_get (db_rows db') u = jm_get (db_rows db1) u"
      using ih(1) wf(2) by blast
    then show ?thesis
      using ih done1 rest keeps by auto
  qed
  show ?case
  proof (cases "f old u")
    case None
    have "retired_to cfg f u row None"
      using old None by (simp add: retired_to_def)
    moreover have run: "retire_rows cfg f rows c (Suc d) (delAny u db) = Inr (db', c', d')"
      using 2(4) old None by simp
    ultimately show ?thesis
      by (intro step [OF run _ _ _ _ _ 2(1) [OF None run]]) simp_all
  next
    case (Some after)
    note valid = old [unfolded parse_record_Inr]
    show ?thesis
    proof (cases "after = old")
      case True
      have "retired_to cfg f u row (Some row)"
        using old Some True valid by (simp add: retired_to_def)
      moreover have run: "retire_rows cfg f rows c d db = Inr (db', c', d')"
        using 2(4) old Some True by simp
      ultimately show ?thesis
        using here by (intro step [OF run _ _ _ _ _ 2(2) [OF Some True run]]) simp_all
    next
      case False
      have ok: "gc_validate cfg after"
        using 2(4) old Some False by (auto split: if_splits)
      have "retired_to cfg f u row (jm_get (db_rows (fst (put cfg u after db))) u)"
        using old Some False ok by (simp add: retired_to_def)
      moreover have run: "retire_rows cfg f rows (Suc c) d (fst (put cfg u after db)) = Inr (db', c', d')"
        using 2(4) old Some False ok by simp
      ultimately show ?thesis
        using ok by (intro step [OF run _ _ _ _ _ 2(3) [OF Some False _ run]]) simp_all
    qed
  qed
qed

lemma fold_max_ge: "m \<le> fold (\<lambda>e m. max (f e) m) es (m :: int)"
  by (induction es arbitrary: m) (auto intro: order_trans [OF max.cobounded2])

lemma fold_max_member: "e \<in> set es \<Longrightarrow> f e \<le> fold (\<lambda>e m. max (f e) m) es (m :: int)"
  by (induction es arbitrary: m) (auto intro: order_trans [OF max.cobounded1 fold_max_ge])

lemma highest_rev_max: "(u, row) \<in> set (db_rows db) \<Longrightarrow> gr_rev row \<le> highest_rev db"
  unfolding highest_rev_def using fold_max_member [of "(u, row)" _ "\<lambda>e. gr_rev (snd e)"] by simp

text \<open>What every statement of a transaction keeps, the transaction keeps.\<close>

lemma retire_rows_keep:
  assumes "\<And>u db. P db \<Longrightarrow> P (delAny u db)" "\<And>u r db. P db \<Longrightarrow> P (fst (put cfg u r db))"
  shows "retire_rows cfg f rows c d db = Inr (db', c', d') \<Longrightarrow> P db \<Longrightarrow> P db'"
proof (induction rows arbitrary: c d db)
  case (Cons e rows)
  obtain u row where e: "e = (u, row)"
    by fastforce
  then obtain old where "parse_record cfg u (gr_record row) = Inr old"
    using Cons.prems(1) by (auto simp: bindE_Inr)
  then show ?case
    using Cons.IH Cons.prems assms e by (auto split: option.splits if_splits)
qed simp

lemma import_rows_keep:
  assumes "\<And>u r db. P db \<Longrightarrow> P (fst (put cfg u r db))"
  shows "import_rows cfg es db = Inr db' \<Longrightarrow> P db \<Longrightarrow> P db'"
proof (induction es arbitrary: db)
  case (Cons e es)
  then show ?case
    using assms by (cases e) (auto split: if_splits)
qed simp

end
