(* ===== verification/Grant_Access.thy ===== *)
theory Grant_Access
  imports Grant_Ledger
begin

section \<open>The ledger and the platform together\<close>

text \<open>
  The steps of one adapter process over its ledger: any number of members' operations interleave,
  each waiting for its platform call; a call takes effect in parts and at any time before it
  answers; members leave; the process is killed and reopens its database. \<open>gs_live\<close> is the access
  that is live on the platform, which the ledger never sees. \<open>gs_lost\<close> is the part of it the ledger
  was told does not exist: an adapter that refuses (Discord's denial conflict, \<open>gc_refuses\<close>) may report
  that nothing was sent although an earlier try's edit reached the platform and only its answer was
  lost, and the ledger then deletes a first grant's row without revoking. What the adapter's
  configuration owes the ledger is the locale \<open>grant_adapter\<close>.
\<close>

subsection \<open>State and steps\<close>

record ('r, 't) gl_sys =
  gs_db :: "'r gl_db"
  gs_live :: "string \<Rightarrow> 't set"
  gs_op :: "string \<Rightarrow> 'r member_op"
  gs_sent :: "string \<Rightarrow> bool"
  gs_lost :: "string \<Rightarrow> 't set"

definition settle :: "string \<Rightarrow> 'r gl_db \<times> 'r gl_next \<Rightarrow> ('r, 't) gl_sys \<Rightarrow> ('r, 't) gl_sys" where
  "settle u result s = s\<lparr>gs_db := fst result,
     gs_op := (gs_op s)(u := (case snd result of Waits p \<Rightarrow> p | Answers _ \<Rightarrow> Idle)),
     gs_sent := (gs_sent s)(u := False)\<rparr>"

text \<open>A call in flight changes what is live: some of the record's targets appear.\<close>

definition appear :: "string \<Rightarrow> 't set \<Rightarrow> ('r, 't) gl_sys \<Rightarrow> ('r, 't) gl_sys" where
  "appear u A s = s\<lparr>gs_live := (gs_live s)(u := gs_live s u \<union> A), gs_sent := (gs_sent s)(u := True)\<rparr>"

text \<open>The access the ledger answers for: what is live and was not lost.\<close>

definition tracked :: "('r, 't) gl_sys \<Rightarrow> string \<Rightarrow> 't set" where
  "tracked s u = gs_live s u - gs_lost s u"

text \<open>An apply answered with a refusal after something went out, on a grant whose row is then deleted,
  loses what is live; every other answer loses nothing.\<close>

definition lose :: "apply_outcome \<Rightarrow> 'r option \<Rightarrow> string \<Rightarrow> ('r, 't) gl_sys \<Rightarrow> ('r, 't) gl_sys" where
  "lose outcome prev u s =
     (if outcome = Apply_unsent \<and> prev = None \<and> gs_sent s u
      then s\<lparr>gs_lost := (gs_lost s)(u := gs_lost s u \<union> gs_live s u)\<rparr> else s)"

text \<open>What the steps ask of an offline retirement: it forgets only targets that are no longer live.\<close>

definition retires_only_gone ::
    "'r gl_config \<Rightarrow> ('r \<Rightarrow> 't set) \<Rightarrow> ('r \<Rightarrow> bool) \<Rightarrow> ('r \<Rightarrow> string \<Rightarrow> 'r option) \<Rightarrow> ('r, 't) gl_sys \<Rightarrow> bool" where
  "retires_only_gone cfg targets ours f s \<longleftrightarrow> (\<forall>u r. gl_get cfg u (gs_db s) = Inr (Some r) \<longrightarrow>
     (case f r u of None \<Rightarrow> tracked s u = {} | Some r' \<Rightarrow> tracked s u \<subseteq> targets r' \<and> ours r'))"

definition legacy_ours :: "('r \<Rightarrow> bool) \<Rightarrow> 'r legacy_file \<Rightarrow> bool" where
  "legacy_ours ours lf = (case lf of Legacy _ lg \<Rightarrow> list_all (\<lambda>(u, r). ours r) (lg_grants lg) | _ \<Rightarrow> True)"

text \<open>An admission opens a target of the record it was decided on: its \<open>matches\<close> holds only for a record
  that names the configured place, and Telegram's handler, which approves the chat the request came
  from, has already refused every other chat (\<open>room_matches\<close>, \<open>chat_join_request\<close>).\<close>

inductive gl_step ::
    "'r gl_config \<Rightarrow> ('r \<Rightarrow> 't set) \<Rightarrow> ('r \<Rightarrow> bool) \<Rightarrow> bool \<Rightarrow> ('r, 't) gl_sys \<Rightarrow> ('r, 't) gl_sys \<Rightarrow> bool"
    for cfg targets ours resets where
  gs_grant: "gs_op s u = Idle \<Longrightarrow> ours r \<Longrightarrow>
    gl_step cfg targets ours resets s (settle u (grant_begin cfg now persists u r (gs_db s)) s)"
| gs_orphan: "gs_op s u = Orphan_revoking r p orphan cov \<Longrightarrow> (revoked \<Longrightarrow> gs_live s u \<inter> targets orphan = {}) \<Longrightarrow>
    gl_step cfg targets ours resets s (settle u (orphan_revoked cfg revoked persists u r p cov (gs_db s)) s)"
| gs_applying: "gs_op s u = Applying r prev rv \<Longrightarrow> A \<subseteq> targets r \<Longrightarrow> gl_step cfg targets ours resets s (appear u A s)"
| gs_applied: "gs_op s u = Applying r prev rv \<Longrightarrow> (outcome = Apply_unsent \<Longrightarrow> gc_refuses cfg) \<Longrightarrow>
    (outcome = Applied \<Longrightarrow> targets r \<subseteq> gs_live s u) \<Longrightarrow>
    gl_step cfg targets ours resets s (settle u (grant_applied cfg outcome u r prev rv (gs_db s)) (lose outcome prev u s))"
| gs_compensated: "gs_op s u = Compensating r rv \<Longrightarrow> (revoked \<Longrightarrow> gs_live s u \<inter> targets r = {}) \<Longrightarrow>
    gl_step cfg targets ours resets s (settle u (compensated revoked u rv (gs_db s)) s)"
| gs_sweep: "gs_op s u = Idle \<Longrightarrow> gl_step cfg targets ours resets s (settle u (sweep_begin cfg now u (gs_db s)) s)"
| gs_swept: "gs_op s u = Expiry_revoking r rv \<Longrightarrow> (revoked \<Longrightarrow> gs_live s u \<inter> targets r = {}) \<Longrightarrow>
    gl_step cfg targets ours resets s (settle u (sweep_revoked revoked u rv (gs_db s)) s)"
| gs_admit: "gs_op s u = Idle \<Longrightarrow> gl_step cfg targets ours resets s (settle u (admit_begin cfg now matches u (gs_db s)) s)"
| gs_admitting: "gs_op s u = Admitting r \<Longrightarrow> A \<subseteq> targets r \<Longrightarrow> gl_step cfg targets ours resets s (appear u A s)"
| gs_admitted: "gs_op s u = Admitting r \<Longrightarrow> gl_step cfg targets ours resets s (settle u (gs_db s, Answers (Admitted True)) s)"
| gs_gone: "gl_step cfg targets ours resets s 
      (s\<lparr>gs_live := (gs_live s)(u := gs_live s u - R), gs_lost := (gs_lost s)(u := gs_lost s u - R)\<rparr>)"
| gs_read: "gl_step cfg targets ours resets s (s\<lparr>gs_db := fst (gl_live cfg now u (gs_db s))\<rparr>)"
| gs_retire: "\<forall>u. gs_op s u = Idle \<Longrightarrow> retires_only_gone cfg targets ours f s \<Longrightarrow>
    gl_step cfg targets ours resets s (s\<lparr>gs_db := fst (retireAll cfg f (gs_db s))\<rparr>)"
| gs_restart: "legacy_ours ours (oc_legacy c) \<Longrightarrow> (oc_resetClock c \<Longrightarrow> resets) \<Longrightarrow>
    gl_step cfg targets ours resets s
      (s\<lparr>gs_db := fst (gl_open cfg c (gs_db s)), gs_op := \<lambda>_. Idle, gs_sent := \<lambda>_. False\<rparr>)"

definition row_targets :: "('r \<Rightarrow> 't set) \<Rightarrow> string \<Rightarrow> 'r gl_db \<Rightarrow> 't set" where
  "row_targets targets u db = \<Union> {targets r | r. \<exists>rv. row_is u r rv db}"

definition good_row :: "'r gl_config \<Rightarrow> ('r \<Rightarrow> bool) \<Rightarrow> int \<Rightarrow> 'r gl_row \<Rightarrow> bool" where
  "good_row cfg ours n row \<longleftrightarrow> (\<exists>r. gr_record row = Some r \<and> gc_validate cfg r \<and> ours r \<and>
     gr_expires row = gc_expiresAt cfg r \<and> gr_rev row \<le> n)"

definition good_db :: "'r gl_config \<Rightarrow> ('r \<Rightarrow> bool) \<Rightarrow> 'r gl_db \<Rightarrow> bool" where
  "good_db cfg ours db \<longleftrightarrow> jm_wf (db_rows db) \<and> (\<forall>u row. jm_get (db_rows db) u = Some row \<longrightarrow> good_row cfg ours (rev_seq db) row)"

text \<open>A ledger at rest whose rows name all the access there is: where a run may start.\<close>

definition gl_start :: "'r gl_config \<Rightarrow> ('r \<Rightarrow> 't set) \<Rightarrow> ('r \<Rightarrow> bool) \<Rightarrow> ('r, 't) gl_sys \<Rightarrow> bool" where
  "gl_start cfg targets ours s \<longleftrightarrow> good_db cfg ours (gs_db s) \<and> (\<forall>u. gs_op s u = Idle) \<and> (\<forall>u. \<not> gs_sent s u) \<and>
     (\<forall>u. gs_lost s u = {}) \<and> (\<forall>u. gs_live s u \<subseteq> row_targets targets u (gs_db s))"

definition gl_reach ::
    "'r gl_config \<Rightarrow> ('r \<Rightarrow> 't set) \<Rightarrow> ('r \<Rightarrow> bool) \<Rightarrow> bool \<Rightarrow> ('r, 't) gl_sys \<Rightarrow> ('r, 't) gl_sys \<Rightarrow> bool" where
  "gl_reach cfg targets ours resets = (gl_step cfg targets ours resets)\<^sup>*\<^sup>*"

subsection \<open>The database stays well formed\<close>

lemma row_targets_is: "row_is u r rv db \<Longrightarrow> row_targets targets u db = targets r"
  by (auto simp: row_targets_def dest: row_is_functional)

lemma row_targets_none: "jm_get (db_rows db) u = None \<Longrightarrow> row_targets targets u db = {}"
  by (auto simp: row_targets_def row_is_def)

lemma row_targets_cong: "(\<And>r rv. row_is u r rv db \<longleftrightarrow> row_is u r rv db') \<Longrightarrow> row_targets targets u db = row_targets targets u db'"
  by (simp add: row_targets_def)

lemma good_row_mono: "good_row cfg ours n row \<Longrightarrow> n \<le> m \<Longrightarrow> good_row cfg ours m row"
  unfolding good_row_def by force

lemma good_db_row: "good_db cfg ours db \<Longrightarrow> row_is u r rv db \<Longrightarrow> gc_validate cfg r \<and> ours r \<and> rv \<le> rev_seq db"
  unfolding good_db_def good_row_def row_is_def by fastforce

lemma good_db_get: "good_db cfg ours db \<Longrightarrow> gl_get cfg u db = Inr (Some r) \<longleftrightarrow> (\<exists>rv. row_is u r rv db)"
  using gl_get_row row_is_get good_db_row by metis

lemma good_db_observe [keep]: "good_db cfg ours db \<Longrightarrow> good_db cfg ours (fst (observeClock t db))"
  by (simp add: good_db_def)

lemma good_db_put [keep]:
  assumes "good_db cfg ours db" "gc_validate cfg r" "ours r"
  shows "good_db cfg ours (fst (put cfg u r db))"
proof -
  have "good_row cfg ours (rev_seq db + 1) \<lparr>gr_expires = gc_expiresAt cfg r, gr_record = Some r, gr_rev = rev_seq db + 1\<rparr>"
    using assms(2,3) by (simp add: good_row_def)
  then show ?thesis
    using assms(1) good_row_mono [of cfg ours "rev_seq db" _ "rev_seq db + 1"] by (simp add: good_db_def)
qed

lemma good_db_delAny [keep]: "good_db cfg ours db \<Longrightarrow> good_db cfg ours (delAny u db)"
  by (simp add: good_db_def)

lemma good_db_del [keep]: "good_db cfg ours db \<Longrightarrow> good_db cfg ours (fst (del_row u rv db))"
  unfolding del_row_def by (auto simp: good_db_def rev_seq_def split: option.splits)

lemma grant_begin_cases:
  fixes cfg r now persists u db
  defines "g \<equiv> grant_begin cfg now persists u r db" and "d \<equiv> fst (observeClock now db)"
  obtains (1) "\<not> gc_validate cfg r" "g = (db, Answers (Threw Malformed_grant))"
  | (2) a where "g = (d, Answers a)"
  | (3) "gc_validate cfg r" "gl_get cfg u d = Inr None" "g = grant_write cfg persists u r None d"
  | (4) p where "gc_validate cfg r" "gl_get cfg u d = Inr (Some p)" "gc_orphaned cfg p r = None"
      "g = grant_write cfg persists u r (Some p) d"
  | (5) p orphan where "gc_validate cfg r" "gl_get cfg u d = Inr (Some p)" "gc_orphaned cfg p r = Some orphan"
      "gc_covering cfg r orphan = None" "g = (d, Waits (Orphan_revoking r p orphan False))"
  | (6) p orphan cover where "gc_validate cfg r" "gl_get cfg u d = Inr (Some p)" "gc_orphaned cfg p r = Some orphan"
      "gc_covering cfg r orphan = Some cover" "g = (fst (put cfg u cover d), Waits (Orphan_revoking r p orphan True))"
proof -
  note un = grant_begin_def Let_def case_prod_beta
  show ?thesis
  proof (cases "gc_validate cfg r \<and> cs_floor (snd (observeClock now db)) < gc_expiresAt cfg r")
    case False
    then show ?thesis
      using 1 2 unfolding g_def d_def by (cases "gc_validate cfg r") (simp_all add: un)
  next
    case live: True
    show ?thesis
    proof (cases "gl_get cfg u d")
      case (Inl e)
      then show ?thesis
        using 2 live unfolding g_def d_def by (simp add: un)
    next
      case (Inr x)
      show ?thesis
      proof (cases x)
        case None
        then show ?thesis
          using 3 Inr live unfolding g_def d_def by (simp add: un)
      next
        case (Some p)
        show ?thesis
        proof (cases "gc_orphaned cfg p r")
          case None
          then show ?thesis
            using 4 Some Inr live unfolding g_def d_def by (simp add: un)
        next
          case o: (Some orphan)
          show ?thesis
          proof (cases "gc_covering cfg r orphan")
            case None
            then show ?thesis
              using 5 o Some Inr live unfolding g_def d_def by (simp add: un)
          next
            case (Some cover)
            then show ?thesis
              using 2 6 o \<open>x = Some p\<close> Inr live unfolding g_def d_def by (cases persists) (simp_all add: un)
          qed
        qed
      qed
    qed
  qed
qed

text \<open>An operation on one member's row leaves every other row as it is.\<close>

definition only_row :: "string \<Rightarrow> 'r gl_db \<Rightarrow> 'r gl_db \<Rightarrow> bool" where
  "only_row u db db' \<longleftrightarrow> (\<forall>v r rv. v \<noteq> u \<longrightarrow> row_is v r rv db' = row_is v r rv db)"

lemma only_row_refl [simp]: "only_row u db db"
  by (simp add: only_row_def)

lemma only_row_trans: "only_row u db db' \<Longrightarrow> only_row u db' db'' \<Longrightarrow> only_row u db db''"
  by (simp add: only_row_def)

lemma only_row_put [simp]: "only_row u db (fst (put cfg u r db))"
  by (simp add: only_row_def)

lemma only_row_observe [simp]: "only_row u db (fst (observeClock t db))"
  by (simp add: only_row_def)

lemma only_row_del [simp]: "only_row u db (fst (del_row u rv db))"
  using del_row_other row_is_del by (auto simp: only_row_def)

lemma only_row_targets: "only_row u db db' \<Longrightarrow> v \<noteq> u \<Longrightarrow> row_targets targets v db' = row_targets targets v db"
  by (simp add: only_row_def row_targets_def)

subsection \<open>Opening keeps every row\<close>

lemma good_db_same_rows: "good_db cfg ours db \<Longrightarrow> db_rows db' = db_rows db \<Longrightarrow> rev_seq db \<le> rev_seq db' \<Longrightarrow> good_db cfg ours db'"
  unfolding good_db_def using good_row_mono by fastforce

lemma highest_rev_good: "good_db cfg ours db \<Longrightarrow> 0 \<le> rev_seq db \<Longrightarrow> highest_rev db \<le> rev_seq db"
proof -
  assume g: "good_db cfg ours db" "0 \<le> rev_seq db"
  have "fold (\<lambda>e m. max (gr_rev (snd e)) m) es m \<le> rev_seq db"
    if "\<forall>e \<in> set es. gr_rev (snd e) \<le> rev_seq db" "m \<le> rev_seq db" for es :: "(string \<times> 'a gl_row) list" and m
    using that by (induction es arbitrary: m) auto
  moreover have "\<forall>e \<in> set (db_rows db). gr_rev (snd e) \<le> rev_seq db"
    using g(1) jm_wf_get_iff [of "db_rows db"] unfolding good_db_def good_row_def by fastforce
  ultimately show ?thesis
    using g(2) by (simp add: highest_rev_def)
qed

lemma seed_facts:
  assumes "seedRevSeq db = Inr db'"
  shows "db_rows db' = db_rows db \<and> db_scope db' = db_scope db \<and> clock_mark db' = clock_mark db \<and>
    db_importedFrom db' = db_importedFrom db \<and> highest_rev db \<le> rev_seq db' \<and> (rev_seq db \<le> 0 \<or> rev_seq db \<le> rev_seq db')"
  using assms by (auto simp: seedRevSeq_def rev_seq_def clock_mark_def js_Number_parseInt
      split: option.splits jsnum.splits if_splits)

lemma seed_good:
  assumes "seedRevSeq db = Inr db'" "good_db cfg ours db"
  shows "good_db cfg ours db'"
proof -
  have f: "db_rows db' = db_rows db" "highest_rev db \<le> rev_seq db'"
    using seed_facts [OF assms(1)] by blast+
  have "gr_rev row \<le> rev_seq db'" if "jm_get (db_rows db) u = Some row" for u row
    using highest_rev_max [OF jm_get_in_set [OF that]] f(2) by linarith
  then show ?thesis
    using assms(2) f(1) unfolding good_db_def good_row_def by metis
qed

lemma refuse_facts:
  "refuseForeignScope sc lf al db = Inr db' \<Longrightarrow> db_rows db' = db_rows db \<and> rev_seq db' = rev_seq db \<and>
     clock_mark db' = clock_mark db \<and> db_importedFrom db' = db_importedFrom db"
  by (auto simp: refuseForeignScope_def rev_seq_def clock_mark_def split: option.splits if_splits)

lemma bind_facts:
  "bindScope sc ad db = Inr db' \<Longrightarrow> db_rows db' = db_rows db \<and> rev_seq db' = rev_seq db \<and> clock_mark db' = clock_mark db"
  by (auto simp: bindScope_def rev_seq_def clock_mark_def split: option.splits if_splits)

lemma import_rows_good:
  "import_rows cfg es db = Inr db' \<Longrightarrow> list_all (\<lambda>(u, r). ours r) es \<Longrightarrow> good_db cfg ours db \<Longrightarrow> good_db cfg ours db'"
  by (induction cfg es db rule: import_rows.induct) (auto split: if_splits intro: good_db_put)

lemma import_rows_fields:
  "import_rows cfg es db = Inr db' \<Longrightarrow> clock_mark db' = clock_mark db \<and> db_scope db' = db_scope db \<and> rev_seq db \<le> rev_seq db'"
  by (induction cfg es db rule: import_rows.induct) (auto split: if_splits)

lemma raiseMark_fields [simp]:
  "db_rows (raiseMark t db) = db_rows db" "rev_seq (raiseMark t db) = rev_seq db" "db_scope (raiseMark t db) = db_scope db"
  by (simp_all add: raiseMark_def rev_seq_def)

lemma field_updates [simp]:
  "rev_seq (db\<lparr>db_regressed := x\<rparr>) = rev_seq db" "rev_seq (db\<lparr>db_importedFrom := y\<rparr>) = rev_seq db"
  "clock_mark (db\<lparr>db_regressed := x\<rparr>) = clock_mark db" "clock_mark (db\<lparr>db_importedFrom := y\<rparr>) = clock_mark db"
  "rev_seq (db\<lparr>db_clockMark := z\<rparr>) = rev_seq db"
  by (simp_all add: rev_seq_def clock_mark_def)

text \<open>An import leaves the database alone or is all of the legacy file.\<close>

lemma import_cases:
  obtains (same) "fst (importLegacy cfg lf ren db) = db"
  | (imported) name lg db1 where "lf = Legacy name lg" "db_rows db = []" "db_importedFrom db = None"
      "import_rows cfg (lg_grants lg) db = Inr db1" "db_rows (fst (importLegacy cfg lf ren db)) = db_rows db1"
      "rev_seq (fst (importLegacy cfg lf ren db)) = rev_seq db1" "db_scope (fst (importLegacy cfg lf ren db)) = db_scope db1"
      "clock_mark (fst (importLegacy cfg lf ren db)) =
         clock_mark (case lg_mark lg of Num m \<Rightarrow> raiseMark m db1 | _ \<Rightarrow> db1)"
proof (cases "gl_size db > 0 \<or> db_importedFrom db \<noteq> None")
  case True
  then show ?thesis
    using same by (cases lf) (auto simp: importLegacy_def)
next
  case empty: False
  show ?thesis
  proof (cases lf)
    case (Legacy name lg)
    show ?thesis
    proof (cases "import_rows cfg (lg_grants lg) db")
      case (Inl e)
      then show ?thesis
        using same empty Legacy by (simp add: importLegacy_def)
    next
      case (Inr db1)
      then show ?thesis
        using imported [OF Legacy _ _ Inr] empty Legacy
        by (simp add: importLegacy_def Let_def gl_size_def split: jsnum.splits)
    qed
  qed (use same empty in \<open>simp_all add: importLegacy_def\<close>)
qed

lemma import_good:
  assumes "good_db cfg ours db" "legacy_ours ours lf"
  shows "good_db cfg ours (fst (importLegacy cfg lf ren db)) \<and>
    (db_rows (fst (importLegacy cfg lf ren db)) = db_rows db \<or> db_rows db = [])"
proof (cases rule: import_cases [of cfg lf ren db])
  case (imported name lg db1)
  have "good_db cfg ours db1"
    using import_rows_good [OF imported(4) _ assms(1)] assms(2) imported(1) by (simp add: legacy_ours_def)
  then show ?thesis
    using good_db_same_rows [of cfg ours db1] imported(2,5,6) by simp
qed (use assms in simp)

lemma import_mark:
  "clock_mark db = Some m \<Longrightarrow> \<exists>m'. clock_mark (fst (importLegacy cfg lf ren db)) = Some m' \<and> m \<le> m'"
proof (cases rule: import_cases [of cfg lf ren db])
  case (imported name lg db1)
  assume "clock_mark db = Some m"
  then have "clock_mark db1 = Some m"
    using import_rows_fields [OF imported(4)] by simp
  then show ?thesis
    unfolding imported(8) using raiseMark_mark [of _ db1] by (auto split: jsnum.splits)
qed simp

text \<open>The stages of an open, each with the state it leaves.\<close>

lemma open_cases:
  obtains (seed) e where "gl_open cfg c db = (db, Some e)"
  | (refused) db1 e where "seedRevSeq db = Inr db1" "gl_open cfg c db = (db1, Some e)"
  | (import) db1 db2 e where "seedRevSeq db = Inr db1"
      "refuseForeignScope (oc_scope c) (oc_legacy c) (oc_allowForeign c) db1 = Inr db2"
      "gl_open cfg c db = (fst (importLegacy cfg (oc_legacy c) (oc_rename c) db2), Some e)"
  | (stopped) db1 db2 db4 e where "seedRevSeq db = Inr db1"
      "refuseForeignScope (oc_scope c) (oc_legacy c) (oc_allowForeign c) db1 = Inr db2"
      "bindScope (oc_scope c) (oc_adoptScope c) (fst (importLegacy cfg (oc_legacy c) (oc_rename c) db2)) = Inr db4"
      "gl_open cfg c db = (db4, Some e)"
  | (opened) db1 db2 db4 where "seedRevSeq db = Inr db1"
      "refuseForeignScope (oc_scope c) (oc_legacy c) (oc_allowForeign c) db1 = Inr db2"
      "snd (importLegacy cfg (oc_legacy c) (oc_rename c) db2) = None"
      "bindScope (oc_scope c) (oc_adoptScope c) (fst (importLegacy cfg (oc_legacy c) (oc_rename c) db2)) = Inr db4"
      "validateAll cfg db4 = None"
      "gl_open cfg c db =
         (fst (observeClock (oc_now c) (if oc_resetClock c then db4\<lparr>db_clockMark := None, db_regressed := None\<rparr> else db4)), None)"
proof (cases "seedRevSeq db")
  case (Inl e)
  then show ?thesis
    using seed by (simp add: gl_open_def)
next
  case s1: (Inr db1)
  show ?thesis
  proof (cases "refuseForeignScope (oc_scope c) (oc_legacy c) (oc_allowForeign c) db1")
    case (Inl e)
    then show ?thesis
      using refused s1 by (simp add: gl_open_def)
  next
    case s2: (Inr db2)
    obtain db3 x where s3: "importLegacy cfg (oc_legacy c) (oc_rename c) db2 = (db3, x)"
      by fastforce
    show ?thesis
    proof (cases x)
      case (Some e)
      then show ?thesis
        using import s1 s2 s3 by (simp add: gl_open_def)
    next
      case None
      show ?thesis
      proof (cases "bindScope (oc_scope c) (oc_adoptScope c) db3")
        case (Inl e)
        then show ?thesis
          using import s1 s2 s3 None by (simp add: gl_open_def)
      next
        case s4: (Inr db4)
        show ?thesis
        proof (cases "validateAll cfg db4")
          case None
          then show ?thesis
            using opened [OF s1 s2] s1 s2 s3 s4 \<open>x = None\<close> by (simp add: gl_open_def Let_def)
        next
          case (Some e)
          then show ?thesis
            using stopped [OF s1 s2] s1 s2 s3 s4 \<open>x = None\<close> by (simp add: gl_open_def)
        qed
      qed
    qed
  qed
qed

lemma open_keeps_rows:
  assumes "good_db cfg ours db" "legacy_ours ours (oc_legacy c)"
  shows "good_db cfg ours (fst (gl_open cfg c db)) \<and> (db_rows (fst (gl_open cfg c db)) = db_rows db \<or> db_rows db = [])"
proof -
  let ?i = "\<lambda>db2. fst (importLegacy cfg (oc_legacy c) (oc_rename c) db2)"
  have s1: "good_db cfg ours db1 \<and> db_rows db1 = db_rows db" if "seedRevSeq db = Inr db1" for db1
    using seed_good [OF that assms(1)] seed_facts [OF that] by blast
  have s2: "good_db cfg ours db2 \<and> db_rows db2 = db_rows db"
    if "seedRevSeq db = Inr db1" "refuseForeignScope (oc_scope c) (oc_legacy c) (oc_allowForeign c) db1 = Inr db2" for db1 db2
    using s1 [OF that(1)] refuse_facts [OF that(2)] good_db_same_rows [of cfg ours db1 db2] by simp
  have s3: "good_db cfg ours (?i db2) \<and> (db_rows (?i db2) = db_rows db \<or> db_rows db = [])"
    if "seedRevSeq db = Inr db1" "refuseForeignScope (oc_scope c) (oc_legacy c) (oc_allowForeign c) db1 = Inr db2" for db1 db2
    using s2 [OF that] import_good [of cfg ours db2, OF _ assms(2)] by fastforce
  have s4: "good_db cfg ours db4 \<and> (db_rows db4 = db_rows db \<or> db_rows db = [])"
    if "seedRevSeq db = Inr db1" "refuseForeignScope (oc_scope c) (oc_legacy c) (oc_allowForeign c) db1 = Inr db2"
      "bindScope (oc_scope c) (oc_adoptScope c) (?i db2) = Inr db4" for db1 db2 db4
    using s3 [OF that(1,2)] bind_facts [OF that(3)] good_db_same_rows [of cfg ours "?i db2" db4] by simp
  show ?thesis
  proof (cases rule: open_cases [of cfg c db])
    case (opened db1 db2 db4)
    have "good_db cfg ours (if oc_resetClock c then db4\<lparr>db_clockMark := None, db_regressed := None\<rparr> else db4)"
      using s4 [OF opened(1,2,4)] by (simp add: good_db_def)
    then show ?thesis
      unfolding opened(6) using s4 [OF opened(1,2,4)] good_db_observe by auto
  next
    case (refused db1 e)
    then show ?thesis
      using s1 [OF refused(1)] by simp
  next
    case (import db1 db2 e)
    then show ?thesis
      using s3 [OF import(1,2)] by simp
  next
    case (stopped db1 db2 db4 e)
    then show ?thesis
      using s4 [OF stopped(1,2,3)] by simp
  qed (use assms(1) in simp)
qed

lemma retire_good:
  assumes "retire_rows cfg f rows c d db = Inr (db', c', d')" "good_db cfg ours db"
    and "\<And>u row r r'. (u, row) \<in> set rows \<Longrightarrow> parse_record cfg u (gr_record row) = Inr r \<Longrightarrow> f r u = Some r' \<Longrightarrow> ours r'"
  shows "good_db cfg ours db'"
  using assms
proof (induction cfg f rows c d db rule: retire_rows.induct)
  case (2 cfg f u row rows c d db)
  obtain old where old: "parse_record cfg u (gr_record row) = Inr old"
    using 2(4) by (auto simp: bindE_Inr)
  have rest: "ours r'" if "(v, w) \<in> set rows" "parse_record cfg v (gr_record w) = Inr r" "f r v = Some r'" for v w r r'
    using 2(6) that by fastforce
  have mine: "ours r'" if "f old u = Some r'" for r'
    using 2(6) [of u row] old that by simp
  show ?case
  proof (cases "f old u")
    case None
    then show ?thesis
      using 2(1) [OF None] 2(4,5) old rest by (simp add: good_db_delAny)
  next
    case (Some after)
    then show ?thesis
      using 2(2) [OF Some] 2(3) [OF Some] 2(4,5) old rest mine [OF Some] by (auto simp: good_db_put split: if_splits)
  qed
qed simp

subsection \<open>What an adapter owes the ledger\<close>

locale grant_adapter =
  fixes cfg :: "'r gl_config" and targets :: "'r \<Rightarrow> 't set" and ours :: "'r \<Rightarrow> bool"
  assumes nothing_orphaned: "gc_validate cfg p \<Longrightarrow> ours p \<Longrightarrow> gc_validate cfg r \<Longrightarrow> ours r \<Longrightarrow>
      gc_orphaned cfg p r = None \<Longrightarrow> targets p \<subseteq> targets r"
    and orphan_named: "gc_validate cfg p \<Longrightarrow> ours p \<Longrightarrow> gc_validate cfg r \<Longrightarrow> ours r \<Longrightarrow>
      gc_orphaned cfg p r = Some orphan \<Longrightarrow> targets p \<subseteq> targets r \<union> targets orphan"
    and cover_covers: "gc_validate cfg p \<Longrightarrow> ours p \<Longrightarrow> gc_validate cfg r \<Longrightarrow> ours r \<Longrightarrow>
      gc_orphaned cfg p r = Some orphan \<Longrightarrow> gc_covering cfg r orphan = Some cover \<Longrightarrow>
      gc_validate cfg cover \<and> ours cover \<and> targets r \<union> targets orphan \<subseteq> targets cover"
begin

text \<open>What each phase knows about its member.\<close>

definition phase_ok :: "'r member_op \<Rightarrow> string \<Rightarrow> 't set \<Rightarrow> bool \<Rightarrow> 'r gl_db \<Rightarrow> bool" where
  "phase_ok ph u live sent db = (case ph of
     Idle \<Rightarrow> True
   | Orphan_revoking r p orphan cov \<Rightarrow> gc_validate cfg r \<and> ours r \<and> gc_validate cfg p \<and> ours p \<and>
       gc_orphaned cfg p r = Some orphan \<and> live \<subseteq> targets p
   | Applying r prev rv \<Rightarrow> row_is u r rv db \<and> (prev = None \<and> \<not> sent \<longrightarrow> live = {})
   | Compensating r rv \<Rightarrow> row_is u r rv db
   | Expiry_revoking r rv \<Rightarrow> row_is u r rv db
   | Admitting r \<Rightarrow> \<exists>rv. row_is u r rv db)"

definition member_ok :: "string \<Rightarrow> 't set \<Rightarrow> 'r gl_db \<Rightarrow> bool" where
  "member_ok u live db \<longleftrightarrow> live \<subseteq> row_targets targets u db"

definition result_ok :: "string \<Rightarrow> 't set \<Rightarrow> 'r gl_db \<Rightarrow> 'r gl_db \<times> 'r gl_next \<Rightarrow> bool" where
  "result_ok u live db result \<longleftrightarrow> good_db cfg ours (fst result) \<and> only_row u db (fst result) \<and>
     live \<subseteq> row_targets targets u (fst result) \<and>
     (case snd result of Waits p \<Rightarrow> phase_ok p u live False (fst result) | Answers _ \<Rightarrow> True)"

lemma result_same: "good_db cfg ours db \<Longrightarrow> live \<subseteq> row_targets targets u db \<Longrightarrow> result_ok u live db (db, Answers a)"
  by (simp add: result_ok_def)

lemma result_observed:
  "result_ok u live (fst (observeClock t db)) result \<Longrightarrow> result_ok u live db result"
  by (auto simp: result_ok_def only_row_def)

lemma row_targets_observe [simp]: "row_targets targets u (fst (observeClock t db)) = row_targets targets u db"
  by (simp add: row_targets_def)

lemma write_ok:
  assumes "good_db cfg ours db" "gc_validate cfg r" "ours r" "live \<subseteq> targets r" "live \<subseteq> row_targets targets u db"
    and "prev = None \<Longrightarrow> live = {}"
  shows "result_ok u live db (grant_write cfg persists u r prev db)"
proof (cases persists)
  case True
  have "row_targets targets u (fst (put cfg u r db)) = targets r"
    by (rule row_targets_is) simp
  then show ?thesis
    using True assms by (simp add: grant_write_def case_prod_beta result_ok_def phase_ok_def keep)
qed (simp add: grant_write_def result_same assms)

lemma grant_ok:
  assumes "good_db cfg ours db" "ours r" "live \<subseteq> row_targets targets u db"
  shows "result_ok u live db (grant_begin cfg now persists u r db)"
proof -
  let ?db = "fst (observeClock now db)"
  have g: "good_db cfg ours ?db" "live \<subseteq> row_targets targets u ?db"
    using assms by (simp_all add: keep)
  show ?thesis
  proof (cases rule: grant_begin_cases [of cfg r now persists u db])
    case 1
    then show ?thesis
      using assms by (simp add: grant_begin_def result_same)
  next
    case (2 a)
    then show ?thesis
      using g by (simp add: result_ok_def)
  next
    case 3
    then have "live = {}"
      using g(2) row_targets_none [of ?db u targets] gl_get_None [of cfg u ?db] by auto
    show ?thesis
      unfolding 3(3) by (rule result_observed, rule write_ok) (use 3(1) \<open>live = {}\<close> g assms(2) in simp_all)
  next
    case (4 p)
    obtain rv where p: "row_is u p rv ?db"
      using gl_get_row [OF 4(2)] by blast
    have "gc_validate cfg p" "ours p"
      using good_db_row [OF g(1) p] by blast+
    note nothing_orphaned [OF this 4(1) assms(2) 4(3)]
    then have "live \<subseteq> targets r"
      using g(2) unfolding row_targets_is [OF p] by (rule subset_trans [rotated])
    show ?thesis
      unfolding 4(4) by (rule result_observed, rule write_ok) (use 4(1) \<open>live \<subseteq> targets r\<close> g assms(2) in simp_all)
  next
    case (5 p orphan)
    obtain rv where p: "row_is u p rv ?db"
      using gl_get_row [OF 5(2)] by blast
    have "live \<subseteq> targets p"
      using g(2) unfolding row_targets_is [OF p] .
    then have "phase_ok (Orphan_revoking r p orphan False) u live False ?db"
      using 5(1,3) assms(2) good_db_row [OF g(1) p] by (simp add: phase_ok_def)
    then show ?thesis
      unfolding 5(5) using g by (simp add: result_ok_def)
  next
    case (6 p orphan cover)
    obtain rv where p: "row_is u p rv ?db"
      using gl_get_row [OF 6(2)] by blast
    have pk: "gc_validate cfg p" "ours p"
      using good_db_row [OF g(1) p] by blast+
    have c: "gc_validate cfg cover" "ours cover" "targets r \<union> targets orphan \<subseteq> targets cover"
      using cover_covers [OF pk 6(1) assms(2) 6(3,4)] by blast+
    have "targets p \<subseteq> targets r \<union> targets orphan"
      using orphan_named [OF pk 6(1) assms(2) 6(3)] .
    moreover have "row_targets targets u (fst (put cfg u cover ?db)) = targets cover"
      by (rule row_targets_is) simp
    moreover have "live \<subseteq> targets p"
      using g(2) unfolding row_targets_is [OF p] .
    ultimately have "live \<subseteq> row_targets targets u (fst (put cfg u cover ?db))"
      and "phase_ok (Orphan_revoking r p orphan True) u live False (fst (put cfg u cover ?db))"
      using 6(1,3) c(3) assms(2) good_db_row [OF g(1) p] unfolding phase_ok_def by auto
    then show ?thesis
      unfolding 6(5) using good_db_put [OF g(1) c(1,2)] by (simp add: result_ok_def only_row_def)
  qed
qed

lemma orphan_ok:
  assumes "good_db cfg ours db" "live \<subseteq> row_targets targets u db" "phase_ok (Orphan_revoking r p orphan cov) u live sent db"
    and "revoked \<Longrightarrow> live \<inter> targets orphan = {}"
  shows "result_ok u live db (orphan_revoked cfg revoked persists u r p cov db)"
proof -
  have ph: "gc_validate cfg r" "ours r" "gc_validate cfg p" "ours p" "gc_orphaned cfg p r = Some orphan" "live \<subseteq> targets p"
    using assms(3) by (simp_all add: phase_ok_def)
  have before: "row_targets targets u (fst (put cfg u p db)) = targets p"
    by (rule row_targets_is) simp
  show ?thesis
  proof (cases revoked)
    case True
    then have "live \<subseteq> targets r"
      using assms(4) orphan_named [OF ph(3,4,1,2,5)] ph(6) by blast
    then show ?thesis
      using True write_ok [OF assms(1) ph(1,2) _ assms(2), of "Some p"] by (simp add: orphan_revoked_def)
  next
    case False
    then show ?thesis
      using assms(1,2) ph(3,4,6) before by (simp add: orphan_revoked_def result_ok_def keep)
  qed
qed

lemma delete_ok:
  assumes "good_db cfg ours db" "live = {}"
  shows "result_ok u live db (fst (del_row u rv db), Answers a)"
  using assms by (simp add: result_ok_def keep)

lemma sweep_ok:
  assumes "good_db cfg ours db" "live \<subseteq> row_targets targets u db"
  shows "result_ok u live db (sweep_begin cfg now u db)"
proof (cases "rowWithRev cfg u db")
  case (Inr x)
  show ?thesis
  proof (cases x)
    case (Some y)
    obtain r rv where y: "y = (r, rv)"
      by fastforce
    have row: "row_is u r rv db"
      using rowWithRev_row [of cfg u db r rv] Inr Some y by simp
    show ?thesis
      using assms Inr Some y row
      by (simp add: sweep_begin_def Let_def case_prod_beta result_ok_def phase_ok_def keep)
  qed (use assms Inr in \<open>simp add: sweep_begin_def result_same\<close>)
qed (use assms in \<open>simp add: sweep_begin_def result_same\<close>)

lemma admit_ok:
  assumes "good_db cfg ours db" "live \<subseteq> row_targets targets u db"
  shows "result_ok u live db (admit_begin cfg now matches u db)"
proof -
  let ?db = "fst (observeClock now db)"
  have stays: "result_ok u live db (?db, Answers a)" for a
    using assms by (simp add: result_ok_def keep)
  show ?thesis
  proof (cases "gl_get cfg u db")
    case (Inr x)
    show ?thesis
    proof (cases x)
      case (Some r)
      have "\<exists>rv. row_is u r rv db"
        using gl_get_row [of cfg u db r] Inr Some by simp
      then have "result_ok u live db (?db, Waits (Admitting r))"
        using assms by (simp add: result_ok_def phase_ok_def keep)
      then show ?thesis
        using stays Inr Some by (simp add: admit_begin_def Let_def case_prod_beta)
    qed (use stays Inr in \<open>simp add: admit_begin_def Let_def case_prod_beta\<close>)
  qed (use stays in \<open>simp add: admit_begin_def Let_def case_prod_beta\<close>)
qed

text \<open>A revocation that succeeded leaves nothing live, so the row may go.\<close>

lemma revoked_ok:
  assumes "good_db cfg ours db" "live \<subseteq> row_targets targets u db" "row_is u r rv db"
    and "revoked \<Longrightarrow> live \<inter> targets r = {}"
  shows "result_ok u live db (if revoked then fst (del_row u rv db) else db, Answers a)"
proof (cases revoked)
  case True
  then have "live = {}"
    using assms(2,4) row_targets_is [OF assms(3), of targets] by auto
  then show ?thesis
    using True delete_ok [OF assms(1)] by simp
qed (use assms in \<open>simp add: result_same\<close>)

lemma swept_ok:
  assumes "good_db cfg ours db" "live \<subseteq> row_targets targets u db" "row_is u r rv db"
    and "revoked \<Longrightarrow> live \<inter> targets r = {}"
  shows "result_ok u live db (sweep_revoked revoked u rv db)"
  using revoked_ok [OF assms(1-3), of revoked] assms(4) by (cases revoked) (simp_all add: sweep_revoked_def case_prod_beta)

lemma compensated_ok:
  assumes "good_db cfg ours db" "live \<subseteq> row_targets targets u db" "row_is u r rv db"
    and "revoked \<Longrightarrow> live \<inter> targets r = {}"
  shows "result_ok u live db (compensated revoked u rv db)"
  using revoked_ok [OF assms(1-3), of revoked] assms(4) by (simp add: compensated_def)

lemma applied_ok:
  assumes "good_db cfg ours db" "live \<subseteq> row_targets targets u db" "phase_ok (Applying r prev rv) u live sent db"
    and "outcome = Apply_unsent \<Longrightarrow> prev = None \<Longrightarrow> live = {}"
  shows "result_ok u live db (grant_applied cfg outcome u r prev rv db)"
proof -
  have ph: "row_is u r rv db"
    using assms(3) by (simp_all add: phase_ok_def)
  have waits: "result_ok u live db (db, Waits (Compensating r rv))"
    using assms(1,2) ph by (simp add: result_ok_def phase_ok_def)
  show ?thesis
    using assms(4) delete_ok [OF assms(1)] result_same [OF assms(1,2)] waits
    by (cases outcome) (simp_all add: grant_applied_def)
qed

definition sys_ok :: "('r, 't) gl_sys \<Rightarrow> bool" where
  "sys_ok s \<longleftrightarrow> good_db cfg ours (gs_db s) \<and>
     (\<forall>u. tracked s u \<subseteq> row_targets targets u (gs_db s) \<and> phase_ok (gs_op s u) u (tracked s u) (gs_sent s u) (gs_db s)) \<and>
     (\<not> gc_refuses cfg \<longrightarrow> (\<forall>u. gs_lost s u = {}))"

lemma phase_other: "phase_ok ph v live sent db \<Longrightarrow> only_row u db db' \<Longrightarrow> v \<noteq> u \<Longrightarrow> phase_ok ph v live sent db'"
  by (auto simp: phase_ok_def only_row_def split: member_op.splits)

lemma phase_shrinks: "phase_ok ph u live sent db \<Longrightarrow> phase_ok ph u (live - R) sent db"
  by (cases ph) (auto simp: phase_ok_def)

lemma tracked_simps [simp]:
  "tracked (settle u result s) v = tracked s v" "gs_lost (settle u result s) = gs_lost s"
  "tracked (s\<lparr>gs_db := db\<rparr>) v = tracked s v" "tracked (s\<lparr>gs_db := db, gs_op := ops, gs_sent := sent\<rparr>) v = tracked s v"
  "tracked (s\<lparr>gs_live := (gs_live s)(u := gs_live s u - R), gs_lost := (gs_lost s)(u := gs_lost s u - R)\<rparr>) v =
    (if v = u then tracked s u - R else tracked s v)"
  by (auto simp: tracked_def settle_def)

lemma lose_fields [simp]:
  "gs_db (lose outcome prev u s) = gs_db s" "gs_op (lose outcome prev u s) = gs_op s"
  "gs_sent (lose outcome prev u s) = gs_sent s" "gs_live (lose outcome prev u s) = gs_live s"
  by (simp_all add: lose_def)

lemma tracked_disjoint: "gs_live s u \<inter> X = {} \<Longrightarrow> tracked s u \<inter> X = {}"
  by (auto simp: tracked_def)

lemma tracked_lose: "tracked (lose outcome prev u s) v =
    (if v = u \<and> outcome = Apply_unsent \<and> prev = None \<and> gs_sent s u then {} else tracked s v)"
  by (auto simp: tracked_def lose_def)

lemma gl_settle_inv:
  assumes "sys_ok s" "result_ok u (tracked s u) (gs_db s) result"
  shows "sys_ok (settle u result s)"
proof -
  have r: "good_db cfg ours (fst result)" "only_row u (gs_db s) (fst result)" "tracked s u \<subseteq> row_targets targets u (fst result)"
      "case snd result of Waits p \<Rightarrow> phase_ok p u (tracked s u) False (fst result) | Answers _ \<Rightarrow> True"
    using assms(2) by (simp_all add: result_ok_def)
  have mine: "phase_ok (case snd result of Waits p \<Rightarrow> p | Answers _ \<Rightarrow> Idle) u (tracked s u) False (fst result)"
    using r(4) by (auto simp: phase_ok_def [of Idle] split: gl_next.splits)
  have "tracked s v \<subseteq> row_targets targets v (fst result) \<and> phase_ok (gs_op s v) v (tracked s v) (gs_sent s v) (fst result)"
    if "v \<noteq> u" for v
    using assms(1) phase_other [OF _ r(2) that] only_row_targets [OF r(2) that, of targets] by (simp add: sys_ok_def)
  moreover have "\<not> gc_refuses cfg \<longrightarrow> (\<forall>v. gs_lost s v = {})"
    using assms(1) by (simp add: sys_ok_def)
  ultimately show ?thesis
    using r(1,3) mine by (simp add: sys_ok_def) (simp add: settle_def)
qed

lemma appear_inv:
  assumes "sys_ok s" "row_is u r rv (gs_db s)" "A \<subseteq> targets r" "gs_op s u = Applying r prev rv \<or> gs_op s u = Admitting r"
  shows "sys_ok (appear u A s)"
proof -
  have new: "tracked (appear u A s) v = (if v = u then tracked s u \<union> (A - gs_lost s u) else tracked s v)" for v
    by (auto simp: tracked_def appear_def)
  have "phase_ok (gs_op s u) u (tracked s u \<union> (A - gs_lost s u)) True (gs_db s)"
    using assms(2,4) by (auto simp: phase_ok_def)
  moreover have "tracked s u \<union> (A - gs_lost s u) \<subseteq> row_targets targets u (gs_db s)"
    using assms(1,3) row_targets_is [OF assms(2), of targets] unfolding sys_ok_def by blast
  ultimately show ?thesis
    using assms(1) unfolding sys_ok_def new by (simp add: appear_def)
qed

text \<open>An answer to an apply settles on what is still tracked: a refusal after something was sent leaves
  nothing tracked, so deleting the row loses nothing more.\<close>

lemma applied_inv:
  assumes "sys_ok s" "gs_op s u = Applying r prev rv" "outcome = Apply_unsent \<Longrightarrow> gc_refuses cfg"
  shows "sys_ok (settle u (grant_applied cfg outcome u r prev rv (gs_db s)) (lose outcome prev u s))"
proof -
  let ?s = "lose outcome prev u s"
  have good: "good_db cfg ours (gs_db s)" and row: "tracked s u \<subseteq> row_targets targets u (gs_db s)"
    and ph: "phase_ok (Applying r prev rv) u (tracked s u) (gs_sent s u) (gs_db s)"
    using assms(1,2) unfolding sys_ok_def by metis+
  have fewer: "tracked ?s v \<subseteq> tracked s v" for v
    by (simp add: tracked_lose)
  have "phase_ok (gs_op s v) v (tracked ?s v) (gs_sent s v) (gs_db s)" for v
    using assms(1) phase_shrinks [of "gs_op s v" v "tracked s v" "gs_sent s v" "gs_db s" "tracked s v - tracked ?s v"] fewer [of v]
    by (simp add: sys_ok_def double_diff)
  moreover have "\<not> gc_refuses cfg \<longrightarrow> (\<forall>v. gs_lost ?s v = {})"
    using assms(1,3) by (auto simp: sys_ok_def lose_def)
  ultimately have ok: "sys_ok ?s"
    using assms(1) fewer unfolding sys_ok_def by (metis lose_fields(1-3) subset_trans)
  have "result_ok u (tracked ?s u) (gs_db s) (grant_applied cfg outcome u r prev rv (gs_db s))"
  proof (rule applied_ok [OF good])
    show "tracked ?s u \<subseteq> row_targets targets u (gs_db s)"
      using fewer row by blast
    show "phase_ok (Applying r prev rv) u (tracked ?s u) (gs_sent s u) (gs_db s)"
      using ph fewer [of u] by (auto simp: phase_ok_def)
    show "outcome = Apply_unsent \<Longrightarrow> prev = None \<Longrightarrow> tracked ?s u = {}"
      using ph by (auto simp: tracked_lose phase_ok_def)
  qed
  then show ?thesis
    using gl_settle_inv [OF ok] by simp
qed

lemma retire_inv:
  assumes "sys_ok s" "\<forall>u. gs_op s u = Idle" "retires_only_gone cfg targets ours f s"
  shows "sys_ok (s\<lparr>gs_db := fst (retireAll cfg f (gs_db s))\<rparr>)"
proof (cases "retire_rows cfg f (db_rows (gs_db s)) 0 0 (gs_db s)")
  case (Inl e)
  then show ?thesis
    using assms(1) by (simp add: retireAll_def)
next
  case (Inr x)
  obtain db' c d where x: "x = (db', c, d)"
    by (cases x) auto
  note run = Inr [unfolded x]
  have good: "good_db cfg ours (gs_db s)"
    using assms(1) by (simp add: sys_ok_def)
  then have wf: "jm_wf (db_rows (gs_db s))"
    by (simp add: good_db_def)
  have get: "gl_get cfg u (gs_db s) = Inr (Some r)"
    if "(u, row) \<in> set (db_rows (gs_db s))" "parse_record cfg u (gr_record row) = Inr r" for u row r
    using that jm_wf_get_iff [OF wf] good_db_get [OF good, of u r] by (auto simp: row_is_def parse_record_Inr)
  have keeps: "case f r u of None \<Rightarrow> tracked s u = {} | Some r' \<Rightarrow> tracked s u \<subseteq> targets r' \<and> ours r'"
    if "(u, row) \<in> set (db_rows (gs_db s))" "parse_record cfg u (gr_record row) = Inr r" for u row r
    using assms(3) get [OF that] unfolding retires_only_gone_def by blast
  have good': "good_db cfg ours db'"
    using retire_good [OF run good] keeps by fastforce
  have spec: "\<forall>u. (\<forall>row. (u, row) \<notin> set (db_rows (gs_db s))) \<longrightarrow> jm_get (db_rows db') u = jm_get (db_rows (gs_db s)) u"
      "\<forall>(u, row) \<in> set (db_rows (gs_db s)). retired_to cfg f u row (jm_get (db_rows db') u)"
    using retire_rows_spec [OF run wf] jm_wf_get_iff [OF wf] by blast+
  have "tracked s u \<subseteq> row_targets targets u db'" for u
  proof (cases "jm_get (db_rows (gs_db s)) u")
    case None
    then have "tracked s u = {}"
      using assms(1) row_targets_none [of "gs_db s" u targets] by (auto simp: sys_ok_def)
    then show ?thesis
      by simp
  next
    case (Some row)
    note mem = jm_get_in_set [OF Some]
    have "retired_to cfg f u row (jm_get (db_rows db') u)"
      using spec(2) mem by fastforce
    then obtain old where old: "parse_record cfg u (gr_record row) = Inr old"
      "case f old u of None \<Rightarrow> True | Some after \<Rightarrow> \<exists>rv. row_is u after rv db'"
      by (auto simp: retired_to_def row_is_def split: option.splits)
    then show ?thesis
      using keeps [OF mem old(1)] row_targets_is [of u _ _ db' targets] by (auto split: option.splits)
  qed
  then show ?thesis
    using run good' assms(1,2) by (simp add: sys_ok_def retireAll_def phase_ok_def)
qed

lemma gl_restart_inv:
  assumes "sys_ok s" "legacy_ours ours (oc_legacy c)"
  shows "sys_ok (s\<lparr>gs_db := fst (gl_open cfg c (gs_db s)), gs_op := \<lambda>_. Idle, gs_sent := \<lambda>_. False\<rparr>)"
proof -
  let ?db = "fst (gl_open cfg c (gs_db s))"
  have good: "good_db cfg ours (gs_db s)" and live: "tracked s u \<subseteq> row_targets targets u (gs_db s)" for u
    using assms(1) by (simp_all add: sys_ok_def)
  have o: "good_db cfg ours ?db" "db_rows ?db = db_rows (gs_db s) \<or> db_rows (gs_db s) = []"
    using open_keeps_rows [OF good assms(2)] by blast+
  have "tracked s u \<subseteq> row_targets targets u ?db" for u
    using o(2)
  proof
    assume "db_rows ?db = db_rows (gs_db s)"
    then show ?thesis
      using live [of u] by (simp add: row_targets_def row_is_def)
  next
    assume "db_rows (gs_db s) = []"
    then show ?thesis
      using live [of u] row_targets_none [of "gs_db s" u targets] by simp
  qed
  then show ?thesis
    using o(1) assms(1) by (simp add: sys_ok_def phase_ok_def)
qed

lemma phase_of: "sys_ok s \<Longrightarrow> phase_ok (gs_op s u) u (tracked s u) (gs_sent s u) (gs_db s)"
  by (simp add: sys_ok_def)

lemma gl_step_inv: "gl_step cfg targets ours resets s t \<Longrightarrow> sys_ok s \<Longrightarrow> sys_ok t"
proof (induction rule: gl_step.induct)
  case (gs_grant s u r now persists)
  then show ?case
    by (intro gl_settle_inv grant_ok) (simp_all add: sys_ok_def)
next
  case (gs_orphan s u r p orphan cov revoked persists)
  from gs_orphan have "phase_ok (Orphan_revoking r p orphan cov) u (tracked s u) (gs_sent s u) (gs_db s)"
    by (metis sys_ok_def)
  moreover have "tracked s u \<inter> targets orphan = {}" if revoked
    using gs_orphan(2) [OF that] by (rule tracked_disjoint)
  ultimately show ?case
    using gs_orphan(3) by (intro gl_settle_inv orphan_ok) (simp_all add: sys_ok_def)
next
  case (gs_applying s u r prev rv A)
  then have "row_is u r rv (gs_db s)"
    using phase_of [of s u] by (auto simp: phase_ok_def)
  then show ?case
    using gs_applying appear_inv by blast
next
  case (gs_applied s u r prev rv outcome)
  then show ?case
    by (intro applied_inv)
next
  case (gs_compensated s u r rv revoked)
  from gs_compensated have "row_is u r rv (gs_db s)"
    using phase_of [of s u] by (auto simp: phase_ok_def)
  moreover have "tracked s u \<inter> targets r = {}" if revoked
    using gs_compensated(2) [OF that] by (rule tracked_disjoint)
  ultimately show ?case
    using gs_compensated(3) by (intro gl_settle_inv compensated_ok) (simp_all add: sys_ok_def)
next
  case (gs_sweep s u now)
  then show ?case
    by (intro gl_settle_inv sweep_ok) (simp_all add: sys_ok_def)
next
  case (gs_swept s u r rv revoked)
  from gs_swept have "row_is u r rv (gs_db s)"
    using phase_of [of s u] by (auto simp: phase_ok_def)
  moreover have "tracked s u \<inter> targets r = {}" if revoked
    using gs_swept(2) [OF that] by (rule tracked_disjoint)
  ultimately show ?case
    using gs_swept(3) by (intro gl_settle_inv swept_ok) (simp_all add: sys_ok_def)
next
  case (gs_admit s u now matches)
  then show ?case
    by (intro gl_settle_inv admit_ok) (simp_all add: sys_ok_def)
next
  case (gs_admitting s u r A)
  then obtain rv where "row_is u r rv (gs_db s)"
    using phase_of [of s u] by (auto simp: phase_ok_def)
  then show ?case
    using gs_admitting appear_inv by blast
next
  case (gs_admitted s u r)
  then show ?case
    by (intro gl_settle_inv result_same) (simp_all add: sys_ok_def)
next
  case (gs_gone s u R)
  then have "tracked s u - R \<subseteq> row_targets targets u (gs_db s)"
      "phase_ok (gs_op s u) u (tracked s u - R) (gs_sent s u) (gs_db s)" "\<not> gc_refuses cfg \<longrightarrow> gs_lost s u = {}"
    using phase_shrinks unfolding sys_ok_def by blast+
  then show ?case
    using gs_gone by (simp add: sys_ok_def)
next
  case (gs_read s now u)
  have "phase_ok ph v l b (fst (gl_live cfg now u (gs_db s))) = phase_ok ph v l b (gs_db s)" for ph v l b
    by (simp add: gl_live_def case_prod_beta phase_ok_def split: member_op.splits)
  then show ?case
    using gs_read by (simp add: sys_ok_def gl_live_def case_prod_beta keep)
next
  case (gs_retire s f)
  then show ?case
    by (intro retire_inv)
next
  case (gs_restart c s)
  then show ?case
    by (intro gl_restart_inv)
qed

lemma start_ok: "gl_start cfg targets ours s \<Longrightarrow> sys_ok s"
  by (simp add: gl_start_def sys_ok_def phase_ok_def tracked_def)

lemma reach_ok: "gl_reach cfg targets ours resets s t \<Longrightarrow> sys_ok s \<Longrightarrow> sys_ok t"
  unfolding gl_reach_def by (induction rule: rtranclp_induct) (blast dest: gl_step_inv)+

text \<open>What the members hold is always named by their rows, except what was lost; an adapter that never
  refuses loses nothing.\<close>

lemma tracked_is_recorded:
  assumes "gl_start cfg targets ours s" "gl_reach cfg targets ours resets s t" "x \<in> tracked t u"
  shows "\<exists>r. gl_get cfg u (gs_db t) = Inr (Some r) \<and> x \<in> targets r"
proof -
  have t: "sys_ok t"
    using reach_ok [OF assms(2) start_ok [OF assms(1)]] .
  then have "x \<in> row_targets targets u (gs_db t)"
    using assms(3) unfolding sys_ok_def by blast
  then obtain r rv where "x \<in> targets r" "row_is u r rv (gs_db t)"
    unfolding row_targets_def by blast
  then show ?thesis
    using t good_db_get [of cfg ours "gs_db t" u r] by (auto simp: sys_ok_def)
qed

lemma live_is_recorded:
  assumes "gl_start cfg targets ours s" "gl_reach cfg targets ours resets s t" "x \<in> gs_live t u" "\<not> gc_refuses cfg"
  shows "\<exists>r. gl_get cfg u (gs_db t) = Inr (Some r) \<and> x \<in> targets r"
proof -
  have "x \<in> tracked t u"
    using reach_ok [OF assms(2) start_ok [OF assms(1)]] assms(3,4) by (simp add: sys_ok_def tracked_def)
  then show ?thesis
    by (rule tracked_is_recorded [OF assms(1,2)])
qed

end

text \<open>Only one step loses anything: the answer to a first grant's apply, after something was sent, that
  claims nothing was.\<close>

lemma lost_by_an_answer:
  assumes "gl_step cfg targets ours resets s t" "x \<in> gs_lost t u" "x \<notin> gs_lost s u"
  shows "\<exists>r rv. gs_op s u = Applying r None rv \<and> gs_sent s u \<and> x \<in> gs_live s u \<and> gc_refuses cfg \<and>
    t = settle u (grant_applied cfg Apply_unsent u r None rv (gs_db s)) (lose Apply_unsent None u s)"
  using assms
proof (induction rule: gl_step.induct)
  case (gs_applied s v r prev rv outcome)
  then have "outcome = Apply_unsent" "prev = None" "gs_sent s u" "v = u" "x \<in> gs_live s u"
    by (auto simp: settle_def lose_def split: if_splits)
  then show ?case
    using gs_applied by blast
qed (auto simp: settle_def appear_def split: if_splits)

end
