(* ===== verification/Grant_Time.thy ===== *)
theory Grant_Time
  imports Grant_Access
begin

section \<open>What the ledger never takes back: time, revisions and its scope\<close>

text \<open>
  Facts about the ledger that hold for every adapter: the clock mark only rises (so an expired grant
  stays expired, whatever the clock and however often the process restarts), a revision names one
  record for ever (so a conditional delete never removes a grant made since), a sweep removes
  exactly what is due, and a database bound to one place is never opened for another.
\<close>

subsection \<open>The mark only rises\<close>

definition mark_le :: "'r gl_db \<Rightarrow> 'r gl_db \<Rightarrow> bool" where
  "mark_le db db' \<longleftrightarrow> (\<forall>m. clock_mark db = Some m \<longrightarrow> (\<exists>m'. clock_mark db' = Some m' \<and> m \<le> m'))"

lemma mark_le_refl [simp]: "mark_le db db"
  by (simp add: mark_le_def)

lemma mark_le_trans [trans]: "mark_le a b \<Longrightarrow> mark_le b c \<Longrightarrow> mark_le a c"
  unfolding mark_le_def by (meson order_trans)

lemma mark_le_same: "clock_mark db' = clock_mark db \<Longrightarrow> mark_le db db'"
  by (simp add: mark_le_def)

lemma mark_le_observe [simp]: "mark_le db (fst (observeClock t db))"
  using observe_mono by (fastforce simp: mark_le_def)

lemma mark_le_put: "mark_le db db' \<Longrightarrow> mark_le db (fst (put cfg u r db'))"
  by (simp add: mark_le_def)

lemma mark_le_del: "mark_le db db' \<Longrightarrow> mark_le db (fst (del_row u rv db'))"
  by (simp add: mark_le_def)

lemma write_mark: "mark_le db db' \<Longrightarrow> mark_le db (fst (grant_write cfg p u r prev db'))"
  by (simp add: grant_write_def case_prod_beta mark_le_put)

lemma begin_mark: "mark_le db (fst (grant_begin cfg now p u r db))"
  by (cases rule: grant_begin_cases [of cfg r now p u db]) (simp_all add: write_mark mark_le_put)

lemma other_marks:
  "mark_le db (fst (orphan_revoked cfg ok p u r prev cov db))"
  "mark_le db (fst (grant_applied cfg outcome u r prv rv db))"
  "mark_le db (fst (compensated ok u rv db))"
  "mark_le db (fst (sweep_begin cfg now u db))"
  "mark_le db (fst (sweep_revoked ok u rv db))"
  "mark_le db (fst (admit_begin cfg now matches u db))"
  "mark_le db (fst (gl_live cfg now u db))"
  by (simp_all add: orphan_revoked_def write_mark mark_le_put grant_applied_def mark_le_del compensated_def sweep_begin_def
      sweep_revoked_def admit_begin_def gl_live_def case_prod_beta Let_def split: apply_outcome.splits sum.splits option.splits)

lemma retire_mark: "mark_le db (fst (retireAll cfg f db))"
proof (cases "retire_rows cfg f (db_rows db) 0 0 db")
  case (Inr x)
  obtain db' c d where x: "x = (db', c, d)"
    by (cases x) auto
  have "mark_le db db'"
    using retire_rows_keep [of "mark_le db" cfg, OF _ _ Inr [unfolded x]] mark_le_put by (simp add: mark_le_def)
  then show ?thesis
    using Inr x by (simp add: retireAll_def)
qed (simp add: retireAll_def)

lemma open_mark: "\<not> oc_resetClock c \<Longrightarrow> mark_le db (fst (gl_open cfg c db))"
proof -
  assume c: "\<not> oc_resetClock c"
  let ?i = "\<lambda>db2. fst (importLegacy cfg (oc_legacy c) (oc_rename c) db2)"
  have s1: "mark_le db db1" if "seedRevSeq db = Inr db1" for db1
    using seed_facts [OF that] by (simp add: mark_le_same)
  have s3: "mark_le db (?i db2)"
    if "seedRevSeq db = Inr db1" "refuseForeignScope (oc_scope c) (oc_legacy c) (oc_allowForeign c) db1 = Inr db2" for db1 db2
  proof -
    have "mark_le db db2"
      using s1 [OF that(1)] refuse_facts [OF that(2)] by (simp add: mark_le_def)
    moreover have "mark_le db2 (?i db2)"
      using import_mark by (fastforce simp: mark_le_def)
    ultimately show ?thesis
      by (rule mark_le_trans)
  qed
  have s4: "mark_le db db4"
    if "seedRevSeq db = Inr db1" "refuseForeignScope (oc_scope c) (oc_legacy c) (oc_allowForeign c) db1 = Inr db2"
      "bindScope (oc_scope c) (oc_adoptScope c) (?i db2) = Inr db4" for db1 db2 db4
    using s3 [OF that(1,2)] bind_facts [OF that(3)] by (simp add: mark_le_def)
  show ?thesis
  proof (cases rule: open_cases [of cfg c db])
    case (refused db1 e)
    then show ?thesis
      using s1 [OF refused(1)] by simp
  next
    case (import db1 db2 e)
    then show ?thesis
      using s3 [OF import(1,2)] by simp
  next
    case (stopped db1 db2 db4 e)
    then show ?thesis
      using s4 [OF stopped(1,2,3)] by simp
  next
    case (opened db1 db2 db4)
    then show ?thesis
      using mark_le_trans [OF s4 [OF opened(1,2,4)] mark_le_observe] c by simp
  qed simp
qed

lemma settle_db [simp]: "gs_db (settle u result s) = fst result"
  by (simp add: settle_def)

lemma appear_db [simp]: "gs_db (appear u A s) = gs_db s"
  by (simp add: appear_def)

lemma step_mark: "gl_step cfg targets ours False s t \<Longrightarrow> mark_le (gs_db s) (gs_db t)"
proof (induction rule: gl_step.induct)
  case (gs_restart c s)
  then show ?case
    using open_mark by auto
qed (simp_all add: begin_mark other_marks retire_mark)

lemma reach_mark: "gl_reach cfg targets ours False s t \<Longrightarrow> mark_le (gs_db s) (gs_db t)"
  unfolding gl_reach_def by (induction rule: rtranclp_induct) (simp, blast intro: mark_le_trans step_mark)

text \<open>Every decision rests on a time no later than the mark it leaves, so no later one contradicts it.\<close>

lemma expired_refused:
  assumes "clock_mark db = Some m" "gc_expiresAt cfg r \<le> m"
  shows "\<exists>e. snd (grant_begin cfg now p u r db) = Answers (Threw e)"
    and "gl_get cfg u db = Inr (Some r) \<Longrightarrow> snd (admit_begin cfg now matches u db) = Answers (Admitted False)"
    and "gl_get cfg u db = Inr (Some r) \<Longrightarrow> snd (gl_live cfg now u db) = Inr False"
  using observe_floor [OF assms(1), of now] assms(2)
  by (auto simp: grant_begin_def admit_begin_def gl_live_def case_prod_beta Let_def)

subsection \<open>A revision names one record\<close>

definition rev_le :: "'r gl_db \<Rightarrow> 'r gl_db \<Rightarrow> bool" where
  "rev_le db db' \<longleftrightarrow> rev_seq db \<le> rev_seq db' \<and> (\<forall>u r rv. row_is u r rv db' \<longrightarrow> row_is u r rv db \<or> rev_seq db < rv)"

definition revs_ok :: "'r gl_db \<Rightarrow> bool" where
  "revs_ok db \<longleftrightarrow> (\<forall>u r rv. row_is u r rv db \<longrightarrow> rv \<le> rev_seq db)"

lemma rev_le_refl [simp]: "rev_le db db"
  by (simp add: rev_le_def)

lemma rev_le_trans [trans]: "rev_le a b \<Longrightarrow> rev_le b c \<Longrightarrow> rev_le a c"
  unfolding rev_le_def by (meson order_trans order_le_less_trans)

lemma rev_le_same: "db_rows db' = db_rows db \<Longrightarrow> rev_seq db \<le> rev_seq db' \<Longrightarrow> rev_le db db'"
  by (simp add: rev_le_def row_is_def)

lemma rev_le_observe [simp]: "rev_le db (fst (observeClock t db))"
  by (simp add: rev_le_same)

lemma rev_le_put: "rev_le db db' \<Longrightarrow> rev_le db (fst (put cfg u r db'))"
  by (auto simp: rev_le_def)

lemma rev_le_del: "rev_le db db' \<Longrightarrow> rev_le db (fst (del_row u rv db'))"
  using row_is_del by (fastforce simp: rev_le_def)

lemma rev_le_delAny: "rev_le db db' \<Longrightarrow> rev_le db (delAny u db')"
  by (simp add: rev_le_def)

lemma revs_ok_observe [simp]: "revs_ok (fst (observeClock t db)) \<longleftrightarrow> revs_ok db"
  by (simp add: revs_ok_def)

lemma revs_ok_same: "revs_ok db \<Longrightarrow> db_rows db' = db_rows db \<Longrightarrow> rev_seq db \<le> rev_seq db' \<Longrightarrow> revs_ok db'"
  unfolding revs_ok_def row_is_def by force

lemma revs_ok_put: "revs_ok db \<Longrightarrow> revs_ok (fst (put cfg u r db))"
  unfolding revs_ok_def by (auto split: if_splits) (metis add.commute add_increasing zero_le_one)

lemma revs_ok_del: "revs_ok db \<Longrightarrow> revs_ok (fst (del_row u rv db))"
  using row_is_del by (fastforce simp: revs_ok_def)

lemma revs_ok_delAny: "revs_ok db \<Longrightarrow> revs_ok (delAny u db)"
  by (auto simp: revs_ok_def)

lemma write_revs: "revs_ok db \<Longrightarrow> revs_ok (fst (grant_write cfg p u r prev db))"
  by (simp add: grant_write_def case_prod_beta revs_ok_put)

lemma begin_revs: "revs_ok db \<Longrightarrow> revs_ok (fst (grant_begin cfg now p u r db))"
  by (cases rule: grant_begin_cases [of cfg r now p u db]) (simp_all add: write_revs revs_ok_put)

lemma other_revs_ok:
  assumes "revs_ok db"
  shows "revs_ok (fst (orphan_revoked cfg ok p u r prev cov db))"
    "revs_ok (fst (grant_applied cfg outcome u r prv rv db))"
    "revs_ok (fst (compensated ok u rv db))"
    "revs_ok (fst (sweep_begin cfg now u db))"
    "revs_ok (fst (sweep_revoked ok u rv db))"
    "revs_ok (fst (admit_begin cfg now matches u db))"
    "revs_ok (fst (gl_live cfg now u db))"
  using assms
  by (simp_all add: orphan_revoked_def write_revs revs_ok_put grant_applied_def revs_ok_del compensated_def sweep_begin_def
      sweep_revoked_def admit_begin_def gl_live_def case_prod_beta Let_def split: apply_outcome.splits sum.splits option.splits)

lemma revs_ok_le: "revs_ok db \<Longrightarrow> rev_le db db' \<Longrightarrow> row_is u r rv db \<Longrightarrow> row_is u r' rv db' \<Longrightarrow> r' = r"
  unfolding revs_ok_def rev_le_def by (meson row_is_functional leD)

lemma write_rev: "rev_le db db' \<Longrightarrow> rev_le db (fst (grant_write cfg p u r prev db'))"
  by (simp add: grant_write_def case_prod_beta rev_le_put)

lemma begin_rev: "rev_le db (fst (grant_begin cfg now p u r db))"
  by (cases rule: grant_begin_cases [of cfg r now p u db]) (simp_all add: write_rev rev_le_put)

lemma other_revs:
  "rev_le db (fst (orphan_revoked cfg ok p u r prev cov db))"
  "rev_le db (fst (grant_applied cfg outcome u r prv rv db))"
  "rev_le db (fst (compensated ok u rv db))"
  "rev_le db (fst (sweep_begin cfg now u db))"
  "rev_le db (fst (sweep_revoked ok u rv db))"
  "rev_le db (fst (admit_begin cfg now matches u db))"
  "rev_le db (fst (gl_live cfg now u db))"
  by (simp_all add: orphan_revoked_def write_rev rev_le_put grant_applied_def rev_le_del compensated_def sweep_begin_def
      sweep_revoked_def admit_begin_def gl_live_def case_prod_beta Let_def split: apply_outcome.splits sum.splits option.splits)

lemma retire_rev: "rev_le db (fst (retireAll cfg f db))"
proof (cases "retire_rows cfg f (db_rows db) 0 0 db")
  case (Inr x)
  obtain db' c d where x: "x = (db', c, d)"
    by (cases x) auto
  have "rev_le db db'"
    by (rule retire_rows_keep [OF _ _ Inr [unfolded x]]) (simp_all add: rev_le_put rev_le_delAny)
  then show ?thesis
    using Inr x by (simp add: retireAll_def)
qed (simp add: retireAll_def)

lemma import_rows_rev: "import_rows cfg es db = Inr db' \<Longrightarrow> rev_le db db'"
  using import_rows_keep [where P = "rev_le db" and cfg = cfg, OF rev_le_put] rev_le_refl by blast

lemma import_rev: "rev_le db (fst (importLegacy cfg lf ren db))"
proof (cases rule: import_cases [of cfg lf ren db])
  case (imported name lg db1)
  then show ?thesis
    using rev_le_trans [OF import_rows_rev [OF imported(4)] rev_le_same] by simp
qed simp

lemma seed_rev: "seedRevSeq db = Inr db' \<Longrightarrow> rev_le db db' \<and> revs_ok db'"
proof -
  assume s: "seedRevSeq db = Inr db'"
  have "0 \<le> highest_rev db"
    by (simp add: highest_rev_def fold_max_ge)
  then have "rev_le db db'"
    using seed_facts [OF s] by (intro rev_le_same) linarith+
  moreover have "revs_ok db'"
    using seed_facts [OF s] highest_rev_max [of _ _ db] jm_get_in_set
    unfolding revs_ok_def row_is_def by (metis order_trans)
  ultimately show ?thesis
    by blast
qed

lemma open_rev: "rev_le db (fst (gl_open cfg c db))"
proof -
  let ?i = "\<lambda>db2. fst (importLegacy cfg (oc_legacy c) (oc_rename c) db2)"
  have s3: "rev_le db (?i db2)"
    if "seedRevSeq db = Inr db1" "refuseForeignScope (oc_scope c) (oc_legacy c) (oc_allowForeign c) db1 = Inr db2" for db1 db2
  proof -
    have "rev_le db1 db2"
      using refuse_facts [OF that(2)] by (simp add: rev_le_same)
    then show ?thesis
      using seed_rev [OF that(1)] import_rev [of db2] rev_le_trans by blast
  qed
  have s4: "rev_le db db4"
    if "seedRevSeq db = Inr db1" "refuseForeignScope (oc_scope c) (oc_legacy c) (oc_allowForeign c) db1 = Inr db2"
      "bindScope (oc_scope c) (oc_adoptScope c) (?i db2) = Inr db4" for db1 db2 db4
  proof -
    have "rev_le (?i db2) db4"
      using bind_facts [OF that(3)] by (simp add: rev_le_same)
    then show ?thesis
      using s3 [OF that(1,2)] rev_le_trans by blast
  qed
  show ?thesis
  proof (cases rule: open_cases [of cfg c db])
    case (refused db1 e)
    then show ?thesis
      using seed_rev [OF refused(1)] by simp
  next
    case (import db1 db2 e)
    then show ?thesis
      using s3 [OF import(1,2)] by simp
  next
    case (stopped db1 db2 db4 e)
    then show ?thesis
      using s4 [OF stopped(1,2,3)] by simp
  next
    case (opened db1 db2 db4)
    have "rev_le db4 (fst (gl_open cfg c db))"
      unfolding opened(6) by (simp add: rev_le_same)
    then show ?thesis
      using s4 [OF opened(1,2,4)] rev_le_trans by blast
  qed simp
qed

lemma retire_revs: "revs_ok db \<Longrightarrow> revs_ok (fst (retireAll cfg f db))"
proof (cases "retire_rows cfg f (db_rows db) 0 0 db")
  case (Inr x)
  assume ok: "revs_ok db"
  obtain db' c d where x: "x = (db', c, d)"
    by (cases x) auto
  have "revs_ok db'"
    by (rule retire_rows_keep [where P = revs_ok, OF _ _ Inr [unfolded x] ok]) (simp_all add: revs_ok_put revs_ok_delAny)
  then show ?thesis
    using Inr x by (simp add: retireAll_def)
qed (simp add: retireAll_def)

lemma import_revs: "revs_ok db \<Longrightarrow> revs_ok (fst (importLegacy cfg lf ren db))"
proof (cases rule: import_cases [of cfg lf ren db])
  case (imported name lg db1)
  assume "revs_ok db"
  then have "revs_ok db1"
    using import_rows_keep [where P = revs_ok and cfg = cfg, OF revs_ok_put imported(4)] by blast
  then show ?thesis
    using imported revs_ok_same by fastforce
qed simp

lemma open_revs_ok: "snd (gl_open cfg c db) = None \<or> revs_ok db \<Longrightarrow> revs_ok (fst (gl_open cfg c db))"
proof -
  assume start: "snd (gl_open cfg c db) = None \<or> revs_ok db"
  let ?i = "\<lambda>db2. fst (importLegacy cfg (oc_legacy c) (oc_rename c) db2)"
  have s3: "revs_ok (?i db2)"
    if "seedRevSeq db = Inr db1" "refuseForeignScope (oc_scope c) (oc_legacy c) (oc_allowForeign c) db1 = Inr db2" for db1 db2
    using revs_ok_same [of db1 db2] seed_rev [OF that(1)] refuse_facts [OF that(2)] import_revs [of db2] by simp
  have s4: "revs_ok db4"
    if "seedRevSeq db = Inr db1" "refuseForeignScope (oc_scope c) (oc_legacy c) (oc_allowForeign c) db1 = Inr db2"
      "bindScope (oc_scope c) (oc_adoptScope c) (?i db2) = Inr db4" for db1 db2 db4
    using revs_ok_same [OF s3 [OF that(1,2)], of db4] bind_facts [OF that(3)] by simp
  show ?thesis
  proof (cases rule: open_cases [of cfg c db])
    case (seed e)
    then show ?thesis
      using start by simp
  next
    case (refused db1 e)
    then show ?thesis
      using seed_rev [OF refused(1)] by simp
  next
    case (import db1 db2 e)
    then show ?thesis
      using s3 [OF import(1,2)] by simp
  next
    case (stopped db1 db2 db4 e)
    then show ?thesis
      using s4 [OF stopped(1,2,3)] by simp
  next
    case (opened db1 db2 db4)
    have "db_rows (fst (gl_open cfg c db)) = db_rows db4" "rev_seq db4 \<le> rev_seq (fst (gl_open cfg c db))"
      unfolding opened(6) by simp_all
    then show ?thesis
      using revs_ok_same [OF s4 [OF opened(1,2,4)]] by blast
  qed
qed

lemma step_revs_ok: "gl_step cfg targets ours resets s t \<Longrightarrow> revs_ok (gs_db s) \<Longrightarrow> revs_ok (gs_db t)"
  by (induction rule: gl_step.induct)
    (simp_all add: begin_revs other_revs_ok retire_revs open_revs_ok settle_def appear_def)

lemma reach_revs_ok: "gl_reach cfg targets ours resets s t \<Longrightarrow> revs_ok (gs_db s) \<Longrightarrow> revs_ok (gs_db t)"
  unfolding gl_reach_def by (induction rule: rtranclp_induct) (blast dest: step_revs_ok)+

lemma step_rev: "gl_step cfg targets ours resets s t \<Longrightarrow> rev_le (gs_db s) (gs_db t)"
  by (induction rule: gl_step.induct) (simp_all add: begin_rev other_revs retire_rev open_rev)

lemma reach_rev: "gl_reach cfg targets ours resets s t \<Longrightarrow> rev_le (gs_db s) (gs_db t)"
  unfolding gl_reach_def by (induction rule: rtranclp_induct) (simp, blast intro: rev_le_trans step_rev)

subsection \<open>What a sweep removes\<close>

lemma sweep_due:
  assumes "row_is u r rv db" "gc_validate cfg r" "clock_mark db = Some m" "gc_expiresAt cfg r \<le> m"
  shows "sweep_begin cfg now u db = (fst (observeClock now db), Waits (Expiry_revoking r rv))"
  using row_is_get [OF assms(1,2)] observe_floor [OF assms(3), of now] assms(4)
  by (simp add: sweep_begin_def Let_def case_prod_beta)

lemma sweep_each_spec:
  assumes "distinct us" "clock_mark db = Some m"
    and "\<And>u. u \<in> set us \<Longrightarrow> \<exists>r rv. row_is u r rv db \<and> gc_validate cfg r \<and> gc_expiresAt cfg r \<le> m"
  shows "\<exists>db'. sweep_each cfg clock revokes i us db = (db', Inr (filter revokes us)) \<and>
    (\<forall>u r rv. row_is u r rv db' \<longleftrightarrow> row_is u r rv db \<and> \<not> (u \<in> set us \<and> revokes u))"
  using assms
proof (induction us arbitrary: i db m)
  case (Cons u us)
  let ?o = "fst (observeClock (clock i) db)"
  obtain r rv where row: "row_is u r rv db" "gc_validate cfg r" "gc_expiresAt cfg r \<le> m"
    using Cons.prems(3) [of u] by auto
  note begins = sweep_due [OF row(1,2) Cons.prems(2) row(3), of "clock i"]
  obtain m' where m': "clock_mark ?o = Some m'" "m \<le> m'"
    using observe_mono [OF Cons.prems(2)] by blast
  let ?d = "if revokes u then delAny u ?o else ?o"
  have md: "clock_mark ?d = Some m'"
    using m'(1) by simp
  have due: "\<exists>r rv. row_is v r rv ?d \<and> gc_validate cfg r \<and> gc_expiresAt cfg r \<le> m'" if "v \<in> set us" for v
    using Cons.prems(1) Cons.prems(3) [of v] that m'(2) by fastforce
  have "distinct us"
    using Cons.prems(1) by simp
  note Cons.IH [OF this md due, of "Suc i"]
  then obtain db' where db': "sweep_each cfg clock revokes (Suc i) us ?d = (db', Inr (filter revokes us))"
      "\<forall>v r rv. row_is v r rv db' \<longleftrightarrow> row_is v r rv ?d \<and> \<not> (v \<in> set us \<and> revokes v)"
    by blast
  have "sweep_each cfg clock revokes i (u # us) db = (db', Inr (filter revokes (u # us)))"
  proof (cases "revokes u")
    case True
    then have "sweep_revoked (revokes u) u rv ?o = (delAny u ?o, Answers Revoked_one)"
      using del_row_gone [of u r rv ?o] row(1) by (simp add: sweep_revoked_def)
    then show ?thesis
      using begins db'(1) True by simp
  next
    case False
    then show ?thesis
      using begins db'(1) by (simp add: sweep_revoked_def)
  qed
  then show ?case
    using db'(2) by auto
qed simp

subsection \<open>The scope of a database\<close>

lemma import_scope [simp]: "db_scope (fst (importLegacy cfg lf ren db)) = db_scope db"
proof (cases rule: import_cases [of cfg lf ren db])
  case (imported name lg db1)
  then show ?thesis
    using import_rows_fields [OF imported(4)] by simp
qed simp

lemma import_nothing:
  assumes "pendingLegacyCount lf db = 0"
  shows "db_rows (fst (importLegacy cfg lf ren db)) = db_rows db"
proof (cases rule: import_cases [of cfg lf ren db])
  case (imported name lg db1)
  then have "lg_grants lg = []"
    using assms by (simp add: pendingLegacyCount_def gl_size_def)
  then show ?thesis
    using imported by simp
qed simp

lemma open_scope:
  assumes "gl_open cfg c db = (db', None)" "oc_scope c = Some want" "\<not> oc_allowForeign c"
  shows "db_scope db' = Some want \<and> (db_scope db = Some want \<or> db_rows db' = [] \<or>
    db_scope db = None \<and> oc_adoptScope c = Some want)"
proof (cases rule: open_cases [of cfg c db])
  case (opened db1 db2 db4)
  let ?i = "fst (importLegacy cfg (oc_legacy c) (oc_rename c) db2)"
  have out: "db_scope db' = db_scope db4" "db_rows db' = db_rows db4"
    using assms(1) opened(6) by (auto simp: observeClock_def raiseMark_def split: option.splits)
  have d1: "db_scope db1 = db_scope db" "db_rows db1 = db_rows db"
    using seed_facts [OF opened(1)] by simp_all
  have d4: "db_rows db4 = db_rows ?i"
    using bind_facts [OF opened(4)] by simp
  show ?thesis
  proof (cases "db_scope db1")
    case None
    then have "db2 = db1"
      using opened(2) by (simp add: refuseForeignScope_def)
    then show ?thesis
      using opened(4) None assms(2) out d1 d4
      by (auto simp: bindScope_def gl_size_def split: if_splits)
  next
    case (Some bound)
    have d2: "db_scope db2 = Some want" "bound = want \<or> gl_size db1 + pendingLegacyCount (oc_legacy c) db1 = 0"
      using opened(2) Some assms(2,3) by (auto simp: refuseForeignScope_def split: if_splits)
    have "db_scope db4 = Some want"
      using opened(4) d2(1) assms(2) import_scope [of cfg "oc_legacy c" "oc_rename c" db2] by (auto simp: bindScope_def)
    moreover have "db_rows ?i = []" if "bound \<noteq> want"
    proof -
      have e: "gl_size db1 = 0" "pendingLegacyCount (oc_legacy c) db1 = 0" "db2 = db1\<lparr>db_scope := Some want\<rparr>"
        using opened(2) Some assms(2,3) that by (auto simp: refuseForeignScope_def split: if_splits)
      then have "pendingLegacyCount (oc_legacy c) db2 = 0"
        by (simp add: pendingLegacyCount_def gl_size_def split: legacy_file.splits if_splits)
      then show ?thesis
        using import_nothing [of "oc_legacy c" db2] e by (simp add: gl_size_def)
    qed
    moreover have "db_scope db = Some bound"
      using Some d1(1) by simp
    ultimately show ?thesis
      using out d4 by (cases "bound = want") simp_all
  qed
qed (use assms(1) in simp_all)

lemma open_refuses_foreign:
  assumes "db_scope db = Some bound" "oc_scope c = Some want" "bound \<noteq> want" "\<not> oc_allowForeign c" "db_rows db \<noteq> []"
  shows "\<exists>e. snd (gl_open cfg c db) = Some e \<and> db_rows (fst (gl_open cfg c db)) = db_rows db \<and>
    db_scope (fst (gl_open cfg c db)) = Some bound"
proof (cases "seedRevSeq db")
  case (Inl e)
  then show ?thesis
    using assms by (simp add: gl_open_def)
next
  case (Inr db1)
  then show ?thesis
    using assms seed_facts [OF Inr] by (simp add: gl_open_def refuseForeignScope_def gl_size_def)
qed

subsection \<open>The theorems\<close>

text \<open>C14: a lapsed grant never revives. Once the ledger has judged a record lapsed, no later grant of
  that deadline is accepted and no member is admitted on that record, whatever the clock reads,
  whichever operations ran in between and however often the process was killed and restarted (short
  of an operator resetting the clock floor).\<close>

theorem lapsed_never_revives:
  assumes "gl_live cfg now0 u (gs_db s) = (db, Inr False)" "gl_get cfg u (gs_db s) = Inr (Some r)"
    and "gl_reach cfg targets ours False (s\<lparr>gs_db := db\<rparr>) t"
  shows "(\<exists>e. snd (grant_begin cfg now p v r (gs_db t)) = Answers (Threw e)) \<and>
    (gl_get cfg v (gs_db t) = Inr (Some r) \<longrightarrow> snd (admit_begin cfg now matches v (gs_db t)) = Answers (Admitted False) \<and>
       snd (gl_live cfg now v (gs_db t)) = Inr False)"
proof -
  have "db = fst (observeClock now0 (gs_db s))" "gc_expiresAt cfg r \<le> cs_floor (snd (observeClock now0 (gs_db s)))"
    using assms(1,2) by (auto simp: gl_live_def case_prod_beta)
  then obtain m where m: "clock_mark db = Some m" "gc_expiresAt cfg r \<le> m"
    using observe_mark [of now0 "gs_db s"] by force
  then obtain m' where "clock_mark (gs_db t) = Some m'" "m \<le> m'"
    using reach_mark [OF assms(3)] by (auto simp: mark_le_def)
  then have t: "clock_mark (gs_db t) = Some m'" "gc_expiresAt cfg r \<le> m'"
    using m(2) by linarith+
  show ?thesis
    using expired_refused [OF t] by blast
qed

text \<open>A revision names one record for as long as the database lives. Any two rows a member has at
  any two times after an open, if they carry the same revision, hold the same record; so a delete
  conditioned on the revision that was read never removes a grant made since.\<close>

lemma revision_names_one_record:
  assumes "gl_reach cfg targets ours resets (s\<lparr>gs_db := fst (gl_open cfg c db)\<rparr>) t" "gl_open cfg c db = (db0, None)"
    and "gl_reach cfg targets ours resets t t'" "row_is u r rv (gs_db t)" "row_is u r' rv' (gs_db t')" "r' \<noteq> r"
  shows "rv' \<noteq> rv \<and> del_row u rv (gs_db t') = (gs_db t', False)"
proof -
  have "rev_le (fst (gl_open cfg c db)) (gs_db t)"
    using reach_rev [OF assms(1)] by simp
  then have t: "rev_le db0 (gs_db t)"
    using assms(2) by simp
  have ok: "revs_ok db0"
    using open_revs_ok [of cfg c db] assms(2) by simp
  have "rv \<le> rev_seq (gs_db t)"
    using reach_revs_ok [OF assms(1)] ok assms(2,4) by (simp add: revs_ok_def)
  then have "rv' \<noteq> rv"
    using reach_rev [OF assms(3)] assms(4,5,6) row_is_functional unfolding rev_le_def by (metis leD)
  then show ?thesis
    using assms(5) by (auto simp: del_row_def row_is_def)
qed

text \<open>A sweep takes back exactly what is due. From a well-formed database, a sweep in which the
  revocations of the members \<open>revokes\<close> succeed returns exactly those of them whose deadline the
  floored clock has reached, deletes exactly their rows, and leaves every other row as it was, so a
  member whose revocation failed stays recorded and is tried again.\<close>

lemma sweep_removes_exactly_due:
  fixes clock :: "nat \<Rightarrow> int"
  assumes "good_db cfg ours db"
  defines "t \<equiv> cs_floor (snd (observeClock (clock 0) db))"
  shows "\<exists>db' swept. sweep cfg clock revokes db = (db', Inr swept) \<and>
    set swept = {u. revokes u \<and> (\<exists>r rv. row_is u r rv db \<and> gc_expiresAt cfg r \<le> t)} \<and>
    (\<forall>u r rv. row_is u r rv db' \<longleftrightarrow> row_is u r rv db \<and> u \<notin> set swept)"
proof -
  let ?o = "fst (observeClock (clock 0) db)"
  let ?due = "due_users t ?o"
  obtain m where m: "clock_mark ?o = Some m" "t \<le> m"
    using observe_mark [of "clock 0" db] unfolding t_def by blast
  have wf: "jm_wf (db_rows db)"
    using assms(1) by (simp add: good_db_def)
  have due: "u \<in> set ?due \<longleftrightarrow> (\<exists>r rv. row_is u r rv db \<and> gc_expiresAt cfg r \<le> t)" for u
  proof -
    have "u \<in> set ?due \<longleftrightarrow> (\<exists>row. jm_get (db_rows db) u = Some row \<and> gr_expires row \<le> t)"
      using jm_wf_get_iff [OF wf, of u] by (force simp: due_users_def)
    also have "\<dots> \<longleftrightarrow> (\<exists>r rv. row_is u r rv db \<and> gc_expiresAt cfg r \<le> t)"
      using assms(1) unfolding good_db_def good_row_def row_is_def by fastforce
    finally show ?thesis .
  qed
  have each: "\<exists>r rv. row_is u r rv ?o \<and> gc_validate cfg r \<and> gc_expiresAt cfg r \<le> m" if u: "u \<in> set ?due" for u
  proof -
    obtain r rv where "row_is u r rv db" "gc_expiresAt cfg r \<le> t"
      using u unfolding due by blast
    then have "row_is u r rv ?o" "gc_validate cfg r" "gc_expiresAt cfg r \<le> m"
      using good_db_row [OF assms(1)] m(2) by auto
    then show ?thesis
      by blast
  qed
  have "distinct ?due"
    using wf by (auto simp: due_users_def jm_wf_def intro: distinct_map_filter)
  from sweep_each_spec [OF this m(1) each, of clock revokes 1]
  obtain db' where db': "sweep_each cfg clock revokes 1 ?due ?o = (db', Inr (filter revokes ?due))"
      "\<forall>u r rv. row_is u r rv db' \<longleftrightarrow> row_is u r rv ?o \<and> \<not> (u \<in> set ?due \<and> revokes u)"
    by blast
  have "sweep cfg clock revokes db = (db', Inr (filter revokes ?due))"
    using db'(1) by (simp add: sweep_def case_prod_beta t_def)
  moreover have "set (filter revokes ?due) = {u. revokes u \<and> (\<exists>r rv. row_is u r rv db \<and> gc_expiresAt cfg r \<le> t)}"
    using due by auto
  moreover have "\<forall>u r rv. row_is u r rv db' \<longleftrightarrow> row_is u r rv db \<and> u \<notin> set (filter revokes ?due)"
    using db'(2) by auto
  ultimately show ?thesis
    by blast
qed

text \<open>A ledger never serves another place's grants. An open for a place succeeds only on a database
  bound to that place, on one that holds no grant afterwards, or on an unbound one whose grants the
  operator claimed for that place by name; it leaves the database bound there. One that holds grants
  of another place is refused, with its rows and its binding untouched. (The clean-up command's
  \<open>allowForeignScope\<close> is the one way past.)\<close>

lemma scope_is_guarded:
  assumes "oc_scope c = Some want" "\<not> oc_allowForeign c"
  shows "(\<forall>db'. gl_open cfg c db = (db', None) \<longrightarrow> db_scope db' = Some want \<and>
      (db_scope db = Some want \<or> db_rows db' = [] \<or> db_scope db = None \<and> oc_adoptScope c = Some want)) \<and>
    (\<forall>bound. db_scope db = Some bound \<and> bound \<noteq> want \<and> db_rows db \<noteq> [] \<longrightarrow>
      (\<exists>e. snd (gl_open cfg c db) = Some e) \<and> db_rows (fst (gl_open cfg c db)) = db_rows db \<and>
      db_scope (fst (gl_open cfg c db)) = Some bound)"
  using open_scope [of cfg c db _ want] open_refuses_foreign [of db _ c want cfg] assms by fastforce

subsection \<open>Examples\<close>

text \<open>An adapter whose record is its deadline.\<close>

definition demo_gl :: "int gl_config" where
  "demo_gl = \<lparr>gc_expiresAt = \<lambda>r. r, gc_validate = \<lambda>_. True, gc_orphaned = \<lambda>_ _. None, gc_covering = \<lambda>_ _. None,
     gc_repairs = False, gc_refuses = False\<rparr>"

definition demo_gl_db :: "int gl_db" where
  "demo_gl_db = fst (put demo_gl ''b'' 9 (fst (put demo_gl ''a'' 5 new_db)))"

definition demo_open :: "int open_call" where
  "demo_open = \<lparr>oc_legacy = No_legacy, oc_rename = Renamed, oc_scope = Some ''home'', oc_adoptScope = None,
     oc_allowForeign = False, oc_resetClock = False, oc_now = 1\<rparr>"

definition at_rest :: "'r gl_db \<Rightarrow> ('r, 't) gl_sys" where
  "at_rest db = \<lparr>gs_db = db, gs_live = \<lambda>_. {}, gs_op = \<lambda>_. Idle, gs_sent = \<lambda>_. False, gs_lost = \<lambda>_. {}\<rparr>"

lemma demo_gl_rows: "row_is u r rv demo_gl_db \<longleftrightarrow> u = ''a'' \<and> r = 5 \<and> rv = 1 \<or> u = ''b'' \<and> r = 9 \<and> rv = 2"
proof -
  have "\<not> row_is u r rv (new_db :: int gl_db)" "rev_seq (new_db :: int gl_db) = 0"
    by (simp_all add: row_is_def new_db_def rev_seq_def)
  then show ?thesis
    by (auto simp: demo_gl_db_def)
qed

lemma demo_gl_good: "good_db demo_gl (\<lambda>_. True) demo_gl_db"
  unfolding demo_gl_db_def by (intro good_db_put) (simp_all add: demo_gl_def good_db_def new_db_def)

theorem lapsed_never_revives_witness:
  "\<exists>e. snd (grant_begin demo_gl 3 True ''a'' 5 (fst (gl_live demo_gl 7 ''a'' demo_gl_db))) = Answers (Threw e)"
proof -
  let ?s = "at_rest demo_gl_db :: (int, nat) gl_sys"
  let ?db = "fst (gl_live demo_gl 7 ''a'' demo_gl_db)"
  have get: "gl_get demo_gl ''a'' demo_gl_db = Inr (Some 5)"
    using row_is_get [of "''a''" 5 1 demo_gl_db demo_gl] demo_gl_rows by (simp add: demo_gl_def)
  have "snd (gl_live demo_gl 7 ''a'' demo_gl_db) = Inr False"
    by code_simp
  then have live: "gl_live demo_gl 7 ''a'' demo_gl_db = (?db, Inr False)"
    by (simp add: prod_eq_iff)
  have "gl_reach demo_gl (\<lambda>_. {}) (\<lambda>_. True) False (?s\<lparr>gs_db := ?db\<rparr>) (?s\<lparr>gs_db := ?db\<rparr>)"
    by (simp add: gl_reach_def)
  from lapsed_never_revives [OF _ _ this, of 7 "''a''" 5 3 True "''a''" "\<lambda>_. True"] show ?thesis
    using live get by (simp add: at_rest_def)
qed

theorem sweep_removes_exactly_due_witness:
  "\<exists>db' swept. sweep demo_gl (\<lambda>_. 6) (\<lambda>_. True) demo_gl_db = (db', Inr swept) \<and> set swept = {''a''} \<and> row_is ''b'' 9 2 db'"
proof -
  have t: "cs_floor (snd (observeClock 6 demo_gl_db)) = 6"
    by code_simp
  have e: "gc_expiresAt demo_gl r = r" for r
    by (simp add: demo_gl_def)
  obtain db' swept where "sweep demo_gl (\<lambda>_. 6) (\<lambda>_. True) demo_gl_db = (db', Inr swept) \<and>
      set swept = {u. True \<and> (\<exists>r rv. row_is u r rv demo_gl_db \<and> r \<le> 6)} \<and>
      (\<forall>u r rv. row_is u r rv db' \<longleftrightarrow> row_is u r rv demo_gl_db \<and> u \<notin> set swept)"
    using sweep_removes_exactly_due [OF demo_gl_good, of "\<lambda>_. 6" "\<lambda>_. True", unfolded t e] by (elim exE) (erule that)
  note s = this [THEN conjunct1] this [THEN conjunct2, THEN conjunct1] this [THEN conjunct2, THEN conjunct2]
  have due: "True \<and> (\<exists>r rv. row_is u r rv demo_gl_db \<and> r \<le> 6) \<longleftrightarrow> u = ''a''" for u
    unfolding demo_gl_rows by (cases "u = ''a''"; cases "u = ''b''") simp_all
  have swept: "set swept = {''a''}"
    unfolding s(2) due by (rule singleton_conv)
  have "row_is ''b'' 9 2 db'"
    using s(3) [rule_format, of "''b''" 9 2] unfolding demo_gl_rows swept by simp
  then show ?thesis
    using s(1) swept by blast
qed

lemma demo_opens: "gl_open demo_gl demo_open new_db = (fst (gl_open demo_gl demo_open new_db), None)"
  by (simp add: gl_open_def demo_open_def new_db_def seedRevSeq_def refuseForeignScope_def importLegacy_def bindScope_def
      gl_size_def validateAll_def all_records_def Let_def)

theorem scope_is_guarded_witness:
  "db_scope (fst (gl_open demo_gl demo_open new_db)) = Some ''home'' \<and>
   (\<exists>e. snd (gl_open demo_gl demo_open (demo_gl_db\<lparr>db_scope := Some ''away''\<rparr>)) = Some e)"
proof -
  have c: "oc_scope demo_open = Some ''home''" "\<not> oc_allowForeign demo_open"
    by (simp_all add: demo_open_def)
  have held: "db_rows (demo_gl_db\<lparr>db_scope := Some ''away''\<rparr>) \<noteq> []" "''away'' \<noteq> ''home''"
    by (simp_all add: demo_gl_db_def new_db_def)
  have "db_scope (fst (gl_open demo_gl demo_open new_db)) = Some ''home''"
    using scope_is_guarded [OF c, of demo_gl new_db, THEN conjunct1, rule_format, OF demo_opens] by (rule conjunct1)
  moreover have "\<exists>e. snd (gl_open demo_gl demo_open (demo_gl_db\<lparr>db_scope := Some ''away''\<rparr>)) = Some e"
    using scope_is_guarded [OF c, of demo_gl "demo_gl_db\<lparr>db_scope := Some ''away''\<rparr>"] held by simp
  ultimately show ?thesis ..
qed

text \<open>A member granted until 5 and then until 9: a delete prepared for the first grant misses the second.\<close>

definition demo_opened :: "(int, nat) gl_sys" where
  "demo_opened = at_rest (fst (gl_open demo_gl demo_open new_db))"

definition demo_first :: "(int, nat) gl_sys" where
  "demo_first = settle ''a'' (grant_begin demo_gl 1 True ''a'' 5 (gs_db demo_opened)) demo_opened"

definition demo_granted :: "(int, nat) gl_sys" where
  "demo_granted = settle ''a'' (grant_applied demo_gl Applied ''a'' 5 None 1 (gs_db demo_first)) demo_first"

definition demo_second :: "(int, nat) gl_sys" where
  "demo_second = settle ''a'' (grant_begin demo_gl 1 True ''a'' 9 (gs_db demo_granted)) demo_granted"

theorem revision_names_one_record_witness:
  "del_row ''a'' 1 (gs_db demo_second) = (gs_db demo_second, False)"
proof -
  let ?step = "gl_step demo_gl (\<lambda>_. {} :: nat set) (\<lambda>_. True) False"
  have rows: "rowWithRev demo_gl ''a'' (gs_db demo_first) = Inr (Some (5, 1))"
      "rowWithRev demo_gl ''a'' (gs_db demo_second) = Inr (Some (9, 2))"
    by code_simp+
  have phase: "gs_op demo_first ''a'' = Applying 5 None 1"
    by code_simp
  have "?step demo_opened demo_first"
    unfolding demo_first_def by (rule gs_grant) (simp_all add: demo_opened_def at_rest_def)
  then have one: "gl_reach demo_gl (\<lambda>_. {}) (\<lambda>_. True) False
      (demo_opened\<lparr>gs_db := fst (gl_open demo_gl demo_open new_db)\<rparr>) demo_first"
    by (simp add: gl_reach_def r_into_rtranclp demo_opened_def at_rest_def)
  have "?step demo_first demo_granted"
    using gs_applied [OF phase, where outcome = Applied and cfg = demo_gl and targets = "\<lambda>_. {} :: nat set" and ours = "\<lambda>_. True" and resets = False]
    by (simp add: demo_granted_def lose_def)
  moreover have "?step demo_granted demo_second"
    unfolding demo_second_def by (rule gs_grant) (simp_all add: demo_granted_def settle_def grant_applied_def)
  ultimately have two: "gl_reach demo_gl (\<lambda>_. {} :: nat set) (\<lambda>_. True) False demo_first demo_second"
    unfolding gl_reach_def by (meson rtranclp.rtrancl_refl rtranclp.rtrancl_into_rtrancl)
  have "2 \<noteq> (1 :: int) \<and> del_row ''a'' 1 (gs_db demo_second) = (gs_db demo_second, False)"
    by (rule revision_names_one_record [OF one demo_opens two rowWithRev_row [OF rows(1)] rowWithRev_row [OF rows(2)]]) simp
  then show ?thesis
    by blast
qed

end
