(* ===== verification/Room_Ledgers.thy ===== *)
theory Room_Ledgers
  imports Grant_Time
begin

section \<open>The Telegram and Matrix adapters over the ledger (adapters/telegram/bot.js, adapters/matrix/bot.js)\<close>

text \<open>
  Both grant one place, a chat or a room, and name it in the record. A renewal for another place
  orphans the whole prior grant, there is no record that could cover both, and no repair pass.
  Telegram admits when the member asks to join, Matrix invites at once and removes, at its first
  start, whoever is in the room without a grant for it. Both admit on the record, and only for the
  place and the proof context configured now.
\<close>

record room_rec =
  rm_expiresAt :: jfield
  rm_room :: string
  rm_contextHash :: "string option"

definition deadline :: "jfield \<Rightarrow> int" where
  "deadline f = (case f of F_int i \<Rightarrow> i | _ \<Rightarrow> 0)"

definition finite_deadline :: "jfield \<Rightarrow> bool" where
  "finite_deadline f = (case f of F_int _ \<Rightarrow> True | _ \<Rightarrow> False)"

definition room_config :: "room_rec gl_config" where
  "room_config = \<lparr>gc_expiresAt = \<lambda>r. deadline (rm_expiresAt r),
     gc_validate = \<lambda>r. finite_deadline (rm_expiresAt r) \<and> rm_room r \<noteq> [],
     gc_orphaned = \<lambda>prev next_rec. if rm_room prev = rm_room next_rec then None else Some prev,
     gc_covering = \<lambda>_ _. None, gc_repairs = False, gc_refuses = False\<rparr>"

text \<open>What the adapter records after a verification: the place and context it is configured for. An
  answer without a finite deadline grants nothing.\<close>

definition room_grant :: "string \<Rightarrow> string \<Rightarrow> jfield \<Rightarrow> room_rec option" where
  "room_grant place ctx expiresAt =
     (if \<not> finite_deadline expiresAt then None
      else Some \<lparr>rm_expiresAt = expiresAt, rm_room = place, rm_contextHash = Some ctx\<rparr>)"

definition room_matches :: "string \<Rightarrow> string \<Rightarrow> room_rec \<Rightarrow> bool" where
  "room_matches place ctx r \<longleftrightarrow> rm_room r = place \<and> rm_contextHash r = Some ctx"

text \<open>Telegram's join request: for another chat nothing happens, otherwise the ledger decides.\<close>

datatype join_answer = Not_our_chat | Decides "room_rec gl_next"

definition chat_join_request ::
    "string \<Rightarrow> string \<Rightarrow> int \<Rightarrow> string \<Rightarrow> string \<Rightarrow> room_rec gl_db \<Rightarrow> room_rec gl_db \<times> join_answer" where
  "chat_join_request place ctx now chat user db =
     (if chat \<noteq> place then (db, Not_our_chat)
      else (case admit_begin room_config now (room_matches place ctx) user db of (db, nx) \<Rightarrow> (db, Decides nx)))"

text \<open>Matrix's first start: who is kept, and who is removed, of the members the room reports.\<close>

definition room_authorized :: "string \<Rightarrow> string \<Rightarrow> int \<Rightarrow> string \<Rightarrow> room_rec gl_db \<Rightarrow> room_rec gl_db \<times> (gl_error + bool)" where
  "room_authorized place ctx now user db =
     (case gl_get room_config user db of
        Inl e \<Rightarrow> (db, Inl e)
      | Inr None \<Rightarrow> (db, Inr False)
      | Inr (Some r) \<Rightarrow>
          (case gl_live room_config now user db of
             (db, Inl e) \<Rightarrow> (db, Inl e)
           | (db, Inr live) \<Rightarrow> (db, Inr (live \<and> room_matches place ctx r))))"

record room_member =
  me_user :: string
  me_membership :: string

fun reconcileRoom ::
    "string \<Rightarrow> string \<Rightarrow> string \<Rightarrow> (string \<Rightarrow> bool) \<Rightarrow> int \<Rightarrow> room_member list \<Rightarrow> room_rec gl_db \<Rightarrow>
     room_rec gl_db \<times> (gl_error + string list \<times> string list)" where
  "reconcileRoom place ctx me kicks now [] db = (db, Inr ([], []))"
| "reconcileRoom place ctx me kicks now (m # ms) db =
     (if me_user m = [] \<or> me_user m = me then reconcileRoom place ctx me kicks now ms db
      else if me_membership m \<notin> {''join'', ''invite''} then reconcileRoom place ctx me kicks now ms db
      else (case room_authorized place ctx now (me_user m) db of
          (db, Inl e) \<Rightarrow> (db, Inl e)
        | (db, Inr True) \<Rightarrow> reconcileRoom place ctx me kicks now ms db
        | (db, Inr False) \<Rightarrow>
            (case reconcileRoom place ctx me kicks now ms db of
               (db, rest) \<Rightarrow> (db, bindE rest (\<lambda>(removed, failed).
                 Inr (if kicks (me_user m) then (me_user m # removed, failed) else (removed, me_user m # failed)))))))"

text \<open>The marker that says a place was reconciled, and whether the adapter may start.\<close>

record marker =
  mk_reconciled :: bool
  mk_target :: "string option"

datatype marker_file = No_marker | Bad_marker | Marker marker

definition reconciliationDone :: "marker_file \<Rightarrow> string option \<Rightarrow> unit + bool" where
  "reconciliationDone mf target =
     (case mf of
        No_marker \<Rightarrow> Inr False
      | Bad_marker \<Rightarrow> Inl ()
      | Marker m \<Rightarrow>
          if \<not> mk_reconciled m then Inr False
          else (case target of
              None \<Rightarrow> Inr True
            | Some t \<Rightarrow> if (case mk_target m of None \<Rightarrow> [] | Some x \<Rightarrow> x) \<noteq> t then Inr False else Inr True))"

definition requireReconciled :: "marker_file \<Rightarrow> string option \<Rightarrow> bool \<Rightarrow> unit + bool" where
  "requireReconciled mf target ledgerCovers =
     bindE (reconciliationDone mf target) (\<lambda>d. if d then Inr True else if ledgerCovers then Inr True else Inl ())"

definition markReconciled :: "string option \<Rightarrow> marker_file" where
  "markReconciled target = Marker \<lparr>mk_reconciled = True, mk_target = target\<rparr>"

text \<open>The whole first start on Matrix: nothing when this room was reconciled before, else the pass over
  the members the room reports, and the marker only when every removal succeeded.\<close>

datatype reconcile_end =
    Already_reconciled
  | Cannot_read_marker
  | Cannot_read_room
  | Ledger_threw gl_error
  | Refuses_to_start "string list"
  | Reconciled marker_file "string list"

definition reconcile_start ::
    "marker_file \<Rightarrow> string \<Rightarrow> string \<Rightarrow> string \<Rightarrow> (string \<Rightarrow> bool) \<Rightarrow> int \<Rightarrow> room_member list option \<Rightarrow>
     room_rec gl_db \<Rightarrow> room_rec gl_db \<times> reconcile_end" where
  "reconcile_start mf place ctx me kicks now members db =
     (case reconciliationDone mf (Some place) of
        Inl _ \<Rightarrow> (db, Cannot_read_marker)
      | Inr True \<Rightarrow> (db, Already_reconciled)
      | Inr False \<Rightarrow>
          (case members of
             None \<Rightarrow> (db, Cannot_read_room)
           | Some ms \<Rightarrow>
               (case reconcileRoom place ctx me kicks now ms db of
                  (db, Inl e) \<Rightarrow> (db, Ledger_threw e)
                | (db, Inr (removed, failed)) \<Rightarrow>
                    if failed \<noteq> [] then (db, Refuses_to_start failed)
                    else (db, Reconciled (markReconciled (Some place)) removed))))"

subsection \<open>The adapter's contract with the ledger\<close>

interpretation room: grant_adapter room_config "\<lambda>r. {rm_room r}" "\<lambda>_. True"
  by unfold_locales (auto simp: room_config_def split: if_splits)

text \<open>C13: nobody is in a Telegram chat or a Matrix room through these adapters without a row that says
  so. In every state a run reaches, through any interleaving of grants, renewals that move a member
  to another place, sweeps, admissions, partial and failed platform calls, restarts and a clock reset,
  a place where a member's access is live is the place named by that member's row.\<close>

theorem room_access_is_recorded:
  assumes "gl_start room_config (\<lambda>r. {rm_room r}) (\<lambda>_. True) s"
    and "gl_reach room_config (\<lambda>r. {rm_room r}) (\<lambda>_. True) resets s t" "place \<in> gs_live t u"
  shows "\<exists>r. gl_get room_config u (gs_db t) = Inr (Some r) \<and> rm_room r = place"
  using room.live_is_recorded [OF assms] by (auto simp: room_config_def)

text \<open>A member granted the hall, with the invitation in flight.\<close>

definition demo_room :: room_rec where
  "demo_room = \<lparr>rm_expiresAt = F_int 9, rm_room = ''hall'', rm_contextHash = Some ''c''\<rparr>"

lemma demo_room_reach:
  "\<exists>t. gl_reach room_config (\<lambda>r. {rm_room r}) (\<lambda>_. True) True (at_rest new_db) t \<and> ''hall'' \<in> gs_live t ''bob''"
proof -
  let ?s = "at_rest new_db :: (room_rec, string) gl_sys"
  let ?t = "settle ''bob'' (grant_begin room_config 1 True ''bob'' demo_room (gs_db ?s)) ?s"
  have "snd (grant_begin room_config 1 True ''bob'' demo_room new_db) = Waits (Applying demo_room None 1)"
    by code_simp
  then have op: "gs_op ?t ''bob'' = Applying demo_room None 1"
    by (simp add: settle_def at_rest_def)
  have "gl_step room_config (\<lambda>r. {rm_room r}) (\<lambda>_. True) True ?s ?t"
    by (rule gs_grant) (simp_all add: at_rest_def)
  moreover have "gl_step room_config (\<lambda>r. {rm_room r}) (\<lambda>_. True) True ?t (appear ''bob'' {''hall''} ?t)"
    by (rule gs_applying [OF op]) (simp add: demo_room_def)
  ultimately have "gl_reach room_config (\<lambda>r. {rm_room r}) (\<lambda>_. True) True ?s (appear ''bob'' {''hall''} ?t)"
    unfolding gl_reach_def by (meson r_into_rtranclp rtranclp_trans)
  moreover have "''hall'' \<in> gs_live (appear ''bob'' {''hall''} ?t) ''bob''"
    by (simp add: appear_def)
  ultimately show ?thesis
    by blast
qed

theorem room_access_is_recorded_witness:
  "\<exists>(t :: (room_rec, string) gl_sys) r. ''hall'' \<in> gs_live t ''bob'' \<and> gl_get room_config ''bob'' (gs_db t) = Inr (Some r) \<and> rm_room r = ''hall''"
proof -
  obtain t where t: "gl_reach room_config (\<lambda>r. {rm_room r}) (\<lambda>_. True) True (at_rest new_db) t" "''hall'' \<in> gs_live t ''bob''"
    using demo_room_reach by blast
  have "gl_start room_config (\<lambda>r. {rm_room r}) (\<lambda>_. True) (at_rest new_db)"
    by (simp add: gl_start_def at_rest_def good_db_def new_db_def clock_mark_def)
  from room_access_is_recorded [OF this t] t(2) show ?thesis
    by blast
qed

text \<open>A join request is granted only to a member whose row names the chat, the proof context of this
  adapter and a deadline that neither the wall clock nor its floor has reached. The row is still there
  when the request starts to wait for the platform.\<close>

lemma join_needs_its_grant:
  assumes "chat_join_request place ctx now chat u db = (db', Decides (Waits ph))"
  shows "\<exists>r rv. ph = Admitting r \<and> row_is u r rv db' \<and> chat = place \<and> rm_room r = place \<and>
    rm_contextHash r = Some ctx \<and> now < deadline (rm_expiresAt r) \<and>
    (\<forall>m. clock_mark db = Some m \<longrightarrow> m < deadline (rm_expiresAt r))"
proof -
  let ?o = "observeClock now db"
  have c: "chat = place" "admit_begin room_config now (room_matches place ctx) u db = (db', Waits ph)"
    using assms by (auto simp: chat_join_request_def split: if_splits prod.splits)
  obtain r where r: "gl_get room_config u (fst ?o) = Inr (Some r)" "cs_floor (snd ?o) < gc_expiresAt room_config r"
      "room_matches place ctx r" "ph = Admitting r" "db' = fst ?o"
    using c(2) by (auto simp: admit_begin_def case_prod_beta Let_def split: sum.splits option.splits if_splits)
  obtain rv where "row_is u r rv (fst ?o)"
    using gl_get_row [OF r(1)] by blast
  moreover have "gc_expiresAt room_config r = deadline (rm_expiresAt r)"
    by (simp add: room_config_def)
  moreover have "now \<le> cs_floor (snd ?o)" "clock_mark db = Some m \<Longrightarrow> m \<le> cs_floor (snd ?o)" for m
    using observe_floor_now [of now db] observe_floor [of db m now] by simp_all
  ultimately show ?thesis
    using r c(1) unfolding room_matches_def by fastforce
qed

lemma authorized_row:
  assumes "room_authorized place ctx now u db = (db', a)"
  shows "db_rows db' = db_rows db" and "a = Inr True \<Longrightarrow>
    \<exists>r rv. row_is u r rv db \<and> room_matches place ctx r \<and> now < deadline (rm_expiresAt r)"
proof -
  show "db_rows db' = db_rows db"
    using assms by (auto simp: room_authorized_def gl_live_def Let_def case_prod_beta split: sum.splits option.splits)
next
  assume "a = Inr True"
  then obtain r where r: "gl_get room_config u db = Inr (Some r)" "cs_floor (snd (observeClock now db)) < gc_expiresAt room_config r"
      "room_matches place ctx r"
    using assms by (auto simp: room_authorized_def gl_live_def Let_def case_prod_beta split: sum.splits option.splits)
  moreover obtain rv where "row_is u r rv db"
    using gl_get_row [OF r(1)] by blast
  moreover have "now < deadline (rm_expiresAt r)"
    using r(2) observe_floor_now [of now db] by (simp add: room_config_def)
  ultimately show "\<exists>r rv. row_is u r rv db \<and> room_matches place ctx r \<and> now < deadline (rm_expiresAt r)"
    by blast
qed

definition room_shut :: "string \<Rightarrow> string \<Rightarrow> string \<Rightarrow> int \<Rightarrow> string set \<Rightarrow> room_rec gl_db \<Rightarrow> room_member \<Rightarrow> bool" where
  "room_shut place ctx me now removed db m \<longleftrightarrow>
     me_user m = [] \<or> me_user m = me \<or> me_membership m \<notin> {''join'', ''invite''} \<or> me_user m \<in> removed \<or>
     (\<exists>r rv. row_is (me_user m) r rv db \<and> room_matches place ctx r \<and> now < deadline (rm_expiresAt r))"

lemma room_shut_mono: "room_shut place ctx me now A db m \<Longrightarrow> A \<subseteq> B \<Longrightarrow> db_rows db' = db_rows db \<Longrightarrow> room_shut place ctx me now B db' m"
  by (auto simp: room_shut_def row_is_def)

lemma reconcileRoom_shuts:
  "reconcileRoom place ctx me kicks now ms db = (db', Inr (removed, [])) \<Longrightarrow>
    db_rows db' = db_rows db \<and> (\<forall>m\<in>set ms. room_shut place ctx me now (set removed) db m) \<and> (\<forall>u\<in>set removed. kicks u)"
proof (induction place ctx me kicks now ms db arbitrary: removed rule: reconcileRoom.induct)
  case (2 place ctx me kicks now m ms db)
  show ?case
  proof (cases "me_user m = [] \<or> me_user m = me \<or> me_membership m \<notin> {''join'', ''invite''}")
    case True
    then have "reconcileRoom place ctx me kicks now ms db = (db', Inr (removed, []))"
      using 2(5) by (auto split: if_splits)
    then show ?thesis
      using 2(1,2) True by (auto simp: room_shut_def)
  next
    case False
    obtain db1 a where a: "room_authorized place ctx now (me_user m) db = (db1, a)"
      by fastforce
    note au = authorized_row [OF a]
    consider (keep) "a = Inr True" "reconcileRoom place ctx me kicks now ms db1 = (db', Inr (removed, []))"
      | (kick) rs where "a = Inr False" "reconcileRoom place ctx me kicks now ms db1 = (db', Inr (rs, []))"
          "kicks (me_user m)" "removed = me_user m # rs"
      using 2(5) False a by (auto simp: bindE_Inr split: sum.splits bool.splits prod.splits if_splits)
    then show ?thesis
    proof cases
      case keep
      have "room_shut place ctx me now (set removed) db m"
        using au(2) keep(1) unfolding room_shut_def by blast
      then show ?thesis
        using 2(3) [OF _ _ a [symmetric] _ _ keep(2)] False keep(1) au(1) room_shut_mono [OF _ subset_refl au(1) [symmetric]] by auto
    next
      case kick
      have "room_shut place ctx me now (set removed) db m"
        using kick(4) by (simp add: room_shut_def)
      then show ?thesis
        using 2(4) [OF _ _ a [symmetric] _ _ kick(2)] False kick(1,3,4) au(1)
          room_shut_mono [of place ctx me now "set rs" db1 _ "set removed" db] by auto
    qed
  qed
qed simp

text \<open>C19: a Matrix room is shut before it is marked reconciled. When the first start records the marker,
  every member of the room other than the bot who was joined or invited either had a row naming the room,
  the proof context and a deadline not reached, or was removed; no removal failed; the marker is for
  this room and the next start takes it.\<close>

theorem reconciled_room_is_shut:
  assumes "reconcile_start mf place ctx me kicks now (Some ms) db = (db', Reconciled mf' removed)"
  shows "(\<forall>m\<in>set ms. room_shut place ctx me now (set removed) db m) \<and> (\<forall>u\<in>set removed. kicks u) \<and>
    reconciliationDone mf' (Some place) = Inr True \<and> (\<forall>other. other \<noteq> place \<longrightarrow> reconciliationDone mf' (Some other) = Inr False)"
proof -
  have "reconcileRoom place ctx me kicks now ms db = (db', Inr (removed, []))" "mf' = markReconciled (Some place)"
    using assms by (auto simp: reconcile_start_def split: sum.splits bool.splits prod.splits if_splits)
  then show ?thesis
    using reconcileRoom_shuts [of place ctx me kicks now ms db db' removed]
    by (auto simp: markReconciled_def reconciliationDone_def)
qed

definition demo_members :: "room_member list" where
  "demo_members = [\<lparr>me_user = ''gate'', me_membership = ''join''\<rparr>, \<lparr>me_user = ''eve'', me_membership = ''invite''\<rparr>,
     \<lparr>me_user = ''tom'', me_membership = ''leave''\<rparr>]"

theorem join_needs_its_grant_witness:
  "\<exists>db rv. row_is ''bob'' demo_room rv (fst (chat_join_request ''hall'' ''c'' 2 ''hall'' ''bob'' db))"
proof -
  let ?db = "fst (grant_begin room_config 1 True ''bob'' demo_room new_db)"
  have "snd (chat_join_request ''hall'' ''c'' 2 ''hall'' ''bob'' ?db) = Decides (Waits (Admitting demo_room))"
    by code_simp
  then have "chat_join_request ''hall'' ''c'' 2 ''hall'' ''bob'' ?db =
      (fst (chat_join_request ''hall'' ''c'' 2 ''hall'' ''bob'' ?db), Decides (Waits (Admitting demo_room)))"
    by (simp add: prod_eq_iff)
  from join_needs_its_grant [OF this] show ?thesis
    by blast
qed

theorem reconciled_room_is_shut_witness:
  "room_shut ''hall'' ''c'' ''gate'' 2 {''eve''} new_db \<lparr>me_user = ''eve'', me_membership = ''invite''\<rparr>"
proof -
  let ?r = "reconcile_start No_marker ''hall'' ''c'' ''gate'' (\<lambda>_. True) 2 (Some demo_members) new_db"
  have "?r = (fst ?r, Reconciled (markReconciled (Some ''hall'')) [''eve''])"
    by code_simp
  from reconciled_room_is_shut [OF this] show ?thesis
    by (simp add: demo_members_def)
qed

end
