(* ===== verification/Js_Strings.thy ===== *)
theory Js_Strings
  imports Js_Text "HOL-Library.List_Lexorder" "HOL-Library.Char_ord"
begin

section \<open>Splitting, joining and trimming strings\<close>

text \<open>
  \<open>String.prototype.split\<close> on one separator character, \<open>Array.prototype.join\<close>, \<open>trim\<close> on the ASCII
  blanks, and \<open>[...new Set(xs)]\<close>, which keeps the first of equal elements.
\<close>

fun js_split :: "char \<Rightarrow> string \<Rightarrow> string list" where
  "js_split c [] = [[]]"
| "js_split c (x # xs) =
     (if x = c then [] # js_split c xs
      else (case js_split c xs of [] \<Rightarrow> [[x]] | w # ws \<Rightarrow> (x # w) # ws))"

fun js_join :: "string \<Rightarrow> string list \<Rightarrow> string" where
  "js_join sep [] = []"
| "js_join sep [w] = w"
| "js_join sep (w # ws) = w @ sep @ js_join sep ws"

definition js_trim :: "string \<Rightarrow> string" where
  "js_trim s = rev (dropWhile js_space (rev (dropWhile js_space s)))"

definition js_uniq :: "'a list \<Rightarrow> 'a list" where
  "js_uniq xs = rev (remdups (rev xs))"

lemma js_split_nonempty [simp]: "js_split c s \<noteq> []"
  by (cases s) (auto split: list.splits)

lemma js_split_none: "c \<notin> set s \<Longrightarrow> js_split c s = [s]"
  by (induction s) auto

lemma js_split_append: "c \<notin> set w \<Longrightarrow> js_split c (w @ c # s) = w # js_split c s"
  by (induction w) auto

lemma js_split_join: "ws \<noteq> [] \<Longrightarrow> \<forall>w\<in>set ws. c \<notin> set w \<Longrightarrow> js_split c (js_join [c] ws) = ws"
proof (induction "[c]" ws rule: js_join.induct)
  case (2 w)
  then show ?case
    by (simp add: js_split_none)
next
  case (3 w v ws)
  then show ?case
    by (simp add: js_split_append)
qed simp

lemma js_split_pieces: "w \<in> set (js_split c s) \<Longrightarrow> c \<notin> set w"
  by (induction s arbitrary: w) (auto split: list.splits if_splits)

lemma js_join_split: "js_join [c] (js_split c s) = s"
proof (induction s)
  case (Cons x s)
  obtain w ws where w: "js_split c s = w # ws"
    using js_split_nonempty by (meson neq_Nil_conv)
  then show ?case
    using Cons by (cases ws) auto
qed simp

lemma set_js_join: "set (js_join [c] ws) \<subseteq> insert c (\<Union> (set ` set ws))"
  by (induction "[c]" ws rule: js_join.induct) auto

lemma js_trim_id: "s = [] \<or> \<not> js_space (hd s) \<and> \<not> js_space (last s) \<Longrightarrow> js_trim s = s"
proof (elim disjE)
  assume s: "\<not> js_space (hd s) \<and> \<not> js_space (last s)"
  then have "dropWhile js_space s = s"
    by (cases s) auto
  moreover have "dropWhile js_space (rev s) = rev s"
    using s by (cases "rev s") (auto simp: last_rev [symmetric] hd_rev)
  ultimately show ?thesis
    by (simp add: js_trim_def)
qed (simp add: js_trim_def)

lemma set_js_uniq [simp]: "set (js_uniq xs) = set xs"
  by (simp add: js_uniq_def)

lemma distinct_js_uniq [simp]: "distinct (js_uniq xs)"
  by (simp add: js_uniq_def)

lemma js_uniq_distinct [simp]: "distinct xs \<Longrightarrow> js_uniq xs = xs"
  by (simp only: js_uniq_def distinct_remdups_id distinct_rev rev_rev_ident)

lemma js_uniq_Nil [simp]: "js_uniq xs = [] \<longleftrightarrow> xs = []"
  by (simp add: js_uniq_def)

end
