(* ===== verification/Discord_Records.thy ===== *)
theory Discord_Records
  imports Room_Ledgers Js_Strings
begin

section \<open>The Discord adapter's records (adapters/discord/grant\_ledger.js)\<close>

text \<open>
  What a Discord grant names (channels, or a role from older versions), when it authorizes one place,
  how a renewal's orphaned channels are found and covered, how a target is written and read, and what
  an offline retirement may forget. A field that is missing or of another type is \<open>None\<close>.
\<close>

record discord_rec =
  dr_expiresAt :: jfield
  dr_mode :: "string option"
  dr_channels :: "string list option"
  dr_roleId :: "string option"
  dr_guildId :: "string option"
  dr_contextHash :: "string option"

definition channels_of :: "discord_rec \<Rightarrow> string list" where
  "channels_of r = (case dr_channels r of None \<Rightarrow> [] | Some cs \<Rightarrow> cs)"

definition or_blank :: "string option \<Rightarrow> string" where
  "or_blank f = (case f of None \<Rightarrow> [] | Some s \<Rightarrow> s)"

text \<open>A record holding nothing but a target, as \<open>extraTargets\<close> returns it.\<close>

definition only_channels :: "string list \<Rightarrow> discord_rec" where
  "only_channels cs = \<lparr>dr_expiresAt = F_absent, dr_mode = Some ''channel'', dr_channels = Some cs, dr_roleId = None,
     dr_guildId = None, dr_contextHash = None\<rparr>"

definition only_role :: "string \<Rightarrow> discord_rec" where
  "only_role r = \<lparr>dr_expiresAt = F_absent, dr_mode = Some ''role'', dr_channels = None, dr_roleId = Some r,
     dr_guildId = None, dr_contextHash = None\<rparr>"

definition extraTargets :: "discord_rec \<Rightarrow> discord_rec option \<Rightarrow> discord_rec option" where
  "extraTargets a b =
     (if dr_mode a = Some ''channel'' then
        (let covered = (case b of Some y \<Rightarrow> if dr_mode y = Some ''channel'' then channels_of y else [] | None \<Rightarrow> []);
             channels = filter (\<lambda>c. c \<notin> set covered) (channels_of a)
         in if channels \<noteq> [] then Some (only_channels channels) else None)
      else
        (let coveredRole = (case b of Some y \<Rightarrow> if dr_mode y = Some ''role'' then dr_roleId y else None | None \<Rightarrow> None)
         in (case dr_roleId a of
               None \<Rightarrow> None
             | Some r \<Rightarrow> if r \<noteq> [] \<and> Some r \<noteq> coveredRole then Some (only_role r) else None)))"

definition isValidRecord :: "discord_rec \<Rightarrow> bool" where
  "isValidRecord r \<longleftrightarrow> finite_deadline (dr_expiresAt r) \<and>
     (dr_mode r = Some ''channel'' \<and> dr_channels r \<noteq> None \<and> channels_of r \<noteq> [] \<and> list_all (\<lambda>c. c \<noteq> []) (channels_of r) \<or>
      dr_mode r = Some ''role'' \<and> or_blank (dr_roleId r) \<noteq> [])"

record place_asked =
  pa_mode :: string
  pa_channel :: "string option"
  pa_roleId :: "string option"
  pa_contextHash :: "string option"

definition authorizesTarget :: "discord_rec option \<Rightarrow> bool \<Rightarrow> place_asked \<Rightarrow> bool" where
  "authorizesTarget rec isLive p =
     (case rec of
        None \<Rightarrow> False
      | Some r \<Rightarrow>
          if \<not> isLive \<or> dr_mode r \<noteq> Some (pa_mode p) then False
          else if (case pa_contextHash p of None \<Rightarrow> False | Some h \<Rightarrow> or_blank (dr_contextHash r) \<noteq> h) then False
          else if pa_mode p = ''channel'' then
            (case pa_channel p of None \<Rightarrow> False | Some c \<Rightarrow> c \<noteq> [] \<and> c \<in> set (channels_of r))
          else (case pa_roleId p of None \<Rightarrow> False | Some x \<Rightarrow> x \<noteq> [] \<and> dr_roleId r = Some x))"

definition coveringTargets :: "discord_rec \<Rightarrow> discord_rec \<Rightarrow> discord_rec" where
  "coveringTargets r orphan =
     (if dr_mode r \<noteq> Some ''channel'' \<or> dr_mode orphan \<noteq> Some ''channel'' then r
      else r\<lparr>dr_channels := Some (js_uniq (channels_of r @ channels_of orphan))\<rparr>)"

definition discord_config :: "discord_rec gl_config" where
  "discord_config = \<lparr>gc_expiresAt = \<lambda>r. deadline (dr_expiresAt r), gc_validate = isValidRecord,
     gc_orphaned = \<lambda>prev next_rec. extraTargets prev (Some next_rec),
     gc_covering = \<lambda>r orphan. Some (coveringTargets r orphan), gc_repairs = True, gc_refuses = True\<rparr>"

subsection \<open>Targets as text\<close>

definition targetKey :: "string \<Rightarrow> string list \<Rightarrow> string" where
  "targetKey mode ids = mode @ '':'' @ js_join '','' (sort (js_uniq (filter (\<lambda>i. i \<noteq> []) ids)))"

datatype target_error = No_mode_separator | More_than_one_colon | Unknown_mode string | Empty_id | Not_one_role

definition parseTargetKey :: "string \<Rightarrow> target_error + (string \<times> string list)" where
  "parseTargetKey raw =
     (case js_split CHR '':'' raw of
        [mode, rest] \<Rightarrow>
          if mode \<noteq> ''channel'' \<and> mode \<noteq> ''role'' then Inl (Unknown_mode mode)
          else (let ids = js_uniq (map js_trim (js_split CHR '','' rest)) in
            if ids = [] \<or> [] \<in> set ids then Inl Empty_id
            else if mode = ''role'' \<and> length ids \<noteq> 1 then Inl Not_one_role
            else Inr (mode, ids))
      | parts \<Rightarrow> Inl (if length parts < 2 then No_mode_separator else More_than_one_colon))"

definition staleTargets :: "discord_rec list \<Rightarrow> string \<Rightarrow> string list \<Rightarrow> string \<Rightarrow> string list" where
  "staleTargets records mode channels roleId =
     (let current = (if mode = ''channel'' then channels else [roleId]);
          roles = js_uniq (concat (map (\<lambda>r.
            if dr_mode r = Some ''role'' \<and> or_blank (dr_roleId r) \<noteq> [] \<and>
               \<not> (mode = ''role'' \<and> or_blank (dr_roleId r) \<in> set current)
            then [or_blank (dr_roleId r)] else []) records));
          chans = js_uniq (concat (map (\<lambda>r.
            filter (\<lambda>c. \<not> (mode = ''channel'' \<and> c \<in> set current)) (if dr_mode r = Some ''channel'' then channels_of r else []))
            records))
      in map (\<lambda>r. targetKey ''role'' [r]) (sort roles) @ (if chans \<noteq> [] then [targetKey ''channel'' chans] else []))"

subsection \<open>Where a record belongs, and what a retirement forgets\<close>

definition recordHomeGuild :: "discord_rec \<Rightarrow> string option \<Rightarrow> string option \<Rightarrow> string option" where
  "recordHomeGuild r boundScope currentGuild =
     (if or_blank (dr_guildId r) \<noteq> [] then dr_guildId r
      else if boundScope \<noteq> None then boundScope else currentGuild)"

record retirement =
  re_mode :: string
  re_ids :: "string list"
  re_currentGuild :: "string option"
  re_boundScope :: "string option"
  re_failedMembers :: "string list"
  re_failedPairs :: "string list"
  re_skippedChannels :: "string list"

definition pair_key :: "string \<Rightarrow> string \<Rightarrow> string" where
  "pair_key c u = c @ ''/'' @ u"

definition clearedHere :: "retirement \<Rightarrow> string \<Rightarrow> string list" where
  "clearedHere ra u = filter (\<lambda>c. c \<notin> set (re_skippedChannels ra) \<and> pair_key c u \<notin> set (re_failedPairs ra)) (re_ids ra)"

definition not_ours_to_retire :: "retirement \<Rightarrow> discord_rec \<Rightarrow> bool" where
  "not_ours_to_retire ra r =
     (case re_currentGuild ra of
        None \<Rightarrow> False
      | Some g \<Rightarrow> (case recordHomeGuild r (re_boundScope ra) (Some g) of None \<Rightarrow> False | Some home \<Rightarrow> home \<noteq> g))"

definition retireTargetTransform :: "retirement \<Rightarrow> discord_rec \<Rightarrow> string \<Rightarrow> discord_rec option" where
  "retireTargetTransform ra r u =
     (if not_ours_to_retire ra r then Some r
      else if re_mode ra = ''role'' then
        (if u \<in> set (re_failedMembers ra) then Some r
         else if dr_mode r = Some ''role'' \<and> or_blank (dr_roleId r) \<in> set (re_ids ra) then None else Some r)
      else if dr_mode r \<noteq> Some ''channel'' then Some r
      else if clearedHere ra u = [] then Some r
      else (let left = filter (\<lambda>c. c \<notin> set (clearedHere ra u)) (channels_of r) in
        if length left = length (channels_of r) then Some r
        else if left \<noteq> [] then Some (r\<lparr>dr_channels := Some left\<rparr>) else None))"

definition foreignGuildRecords :: "discord_rec list \<Rightarrow> string \<Rightarrow> string list" where
  "foreignGuildRecords records guildId =
     filter (\<lambda>g. g \<noteq> [] \<and> g \<noteq> guildId) (map (\<lambda>r. or_blank (dr_guildId r)) records)"

subsection \<open>The adapter's contract with the ledger\<close>

definition channel_mode :: "discord_rec \<Rightarrow> bool" where
  "channel_mode r \<longleftrightarrow> dr_mode r = Some ''channel''"

lemma orphan_channels:
  assumes "channel_mode p" "channel_mode r"
  shows "gc_orphaned discord_config p r = None \<Longrightarrow> set (channels_of p) \<subseteq> set (channels_of r)"
    and "gc_orphaned discord_config p r = Some orphan \<Longrightarrow> channel_mode orphan \<and>
      set (channels_of orphan) = set (channels_of p) - set (channels_of r)"
  using assms
  by (auto simp: discord_config_def extraTargets_def channel_mode_def only_channels_def channels_of_def Let_def filter_empty_conv
      split: if_splits)

lemma covering_channels:
  assumes "isValidRecord r" "channel_mode r" "channel_mode orphan" "list_all (\<lambda>c. c \<noteq> []) (channels_of orphan)"
  shows "isValidRecord (coveringTargets r orphan)" "channel_mode (coveringTargets r orphan)"
    "set (channels_of (coveringTargets r orphan)) = set (channels_of r) \<union> set (channels_of orphan)"
  using assms by (auto simp: coveringTargets_def channel_mode_def isValidRecord_def channels_of_def list_all_iff split: option.splits)

lemma valid_channels: "isValidRecord r \<Longrightarrow> channel_mode r \<Longrightarrow> list_all (\<lambda>c. c \<noteq> []) (channels_of r)"
  by (auto simp: isValidRecord_def channel_mode_def)

interpretation discord: grant_adapter discord_config "\<lambda>r. set (channels_of r)" channel_mode
proof (unfold_locales, goal_cases)
  case (1 p r)
  then show ?case
    using orphan_channels by blast
next
  case (2 p r orphan)
  then show ?case
    using orphan_channels(2) by blast
next
  case (3 p r orphan cover)
  have o: "channel_mode orphan" "set (channels_of orphan) \<subseteq> set (channels_of p)"
    using orphan_channels(2) 3 by blast+
  then have "list_all (\<lambda>c. c \<noteq> []) (channels_of orphan)"
    using valid_channels [of p] 3 by (auto simp: discord_config_def list_all_iff)
  then show ?case
    using covering_channels [of r orphan] o(1) 3 by (simp add: discord_config_def)
qed

end
