(* ===== verification/Discord_Access.thy ===== *)
theory Discord_Access
  imports Discord_Records
begin

section \<open>Discord permissions and the platform calls (adapters/discord/permissions.js, access.js)\<close>

text \<open>
  Every call to Discord is an answer given to the model: what a channel fetch returns, what the
  refresh before a mutation sees, whether the edit is accepted. The result of an operation lists the
  edits it made, in order, so that what reached Discord can be told from what the operation
  reports. An overwrite's bitfields are given by the names of their bits.

  An edit is not a partial update: discord.js looks the member's entry up in its cache, rebuilds both
  bitfields from it and the patch, and sends them whole, as the note above the mutations says. So an edit
  carries the entry the cache showed beside the patch, and what goes on the wire is a function of
  the two. That function is the library's, a parameter with the documented law \<open>rebuilds_whole\<close>.
\<close>

record overwrite =
  ow_member :: bool
  ow_id :: string
  ow_allow :: "string list"
  ow_deny :: "string list"

datatype error_code = No_code | Num_code int | Str_code string

record api_error =
  ae_status :: "int option"
  ae_code :: error_code

datatype access_error = Denial_conflict "string list" | Api api_error

definition isDenialConflict :: "access_error \<Rightarrow> bool" where
  "isDenialConflict e = (case e of Denial_conflict _ \<Rightarrow> True | Api _ \<Rightarrow> False)"

definition isNotOurs :: "access_error \<Rightarrow> bool" where
  "isNotOurs e = (case e of
     Api a \<Rightarrow> (case ae_code a of Str_code s \<Rightarrow> s = ''GuildChannelUnowned'' \<or> s = ''GuildChannelResolve'' | _ \<Rightarrow> False)
   | Denial_conflict _ \<Rightarrow> False)"

definition isGone :: "access_error \<Rightarrow> bool" where
  "isGone e = (case e of
     Api a \<Rightarrow> ae_status a = Some 404 \<or>
       (case ae_code a of Num_code n \<Rightarrow> n = 10003 \<or> n = 10004 \<or> n = 10007 \<or> n = 10011 \<or> n = 10013 | _ \<Rightarrow> False)
   | Denial_conflict _ \<Rightarrow> False)"

subsection \<open>The managed bits of an overwrite\<close>

definition MANAGED_BITS :: "string list" where
  "MANAGED_BITS = [''ViewChannel'', ''SendMessages'', ''ReadMessageHistory'']"

record managed =
  mg_allow :: "string list"
  mg_deny :: "string list"

definition managedState :: "overwrite \<Rightarrow> managed" where
  "managedState ow = \<lparr>mg_allow = filter (\<lambda>b. b \<in> set (ow_allow ow)) MANAGED_BITS,
     mg_deny = filter (\<lambda>b. b \<in> set (ow_deny ow)) MANAGED_BITS\<rparr>"

definition memberDenialsOnGatedChannel :: "overwrite list \<Rightarrow> (string \<times> string list) list" where
  "memberDenialsOnGatedChannel ows =
     filter (\<lambda>(i, deny). deny \<noteq> []) (map (\<lambda>ow. (ow_id ow, mg_deny (managedState ow))) ows)"

definition roleDenialsAcrossChannels :: "(string \<times> overwrite list) list \<Rightarrow> string \<Rightarrow> (string \<times> string list) list" where
  "roleDenialsAcrossChannels channels roleId =
     concat (map (\<lambda>(ch, ows). map (\<lambda>ow. (ch, ow_deny ow)) (filter (\<lambda>ow. ow_id ow = roleId \<and> ow_deny ow \<noteq> []) ows)) channels)"

definition own_overwrite :: "overwrite list \<Rightarrow> string \<Rightarrow> overwrite option" where
  "own_overwrite ows u = find (\<lambda>ow. ow_member ow \<and> ow_id ow = u) ows"

definition retainedManagedAllows :: "overwrite list \<Rightarrow> string \<Rightarrow> string list" where
  "retainedManagedAllows ows u = (case own_overwrite ows u of Some ow \<Rightarrow> mg_allow (managedState ow) | None \<Rightarrow> [])"

definition assertNoMemberDenial :: "overwrite list \<Rightarrow> string \<Rightarrow> access_error option" where
  "assertNoMemberDenial ows u =
     (case memberDenialsOnGatedChannel (filter (\<lambda>ow. ow_member ow \<and> ow_id ow = u) ows) of
        [] \<Rightarrow> None
      | (_, deny) # _ \<Rightarrow> Some (Denial_conflict deny))"

definition assertRoleOnlyAdds :: "(string \<times> overwrite list) list \<Rightarrow> string \<Rightarrow> access_error option" where
  "assertRoleOnlyAdds channels roleId =
     (case roleDenialsAcrossChannels channels roleId of [] \<Rightarrow> None | os \<Rightarrow> Some (Denial_conflict (concat (map snd os))))"

subsection \<open>The guarded mutations\<close>

text \<open>One visit to a channel: the fetch, the refresh before the mutation (nothing when it fails), and
  the answer to the edit.\<close>

record visit =
  vi_fetch :: "api_error + overwrite list"
  vi_refresh :: "overwrite list option"
  vi_edit :: "api_error option"

type_synonym patch = "(string \<times> bool option) list"

text \<open>An edit as the library gets it: the member's entry in its cache, and the patch.\<close>

type_synonym edit_call = "overwrite option \<times> patch"

definition cached_allow :: "overwrite option \<Rightarrow> string list" where
  "cached_allow own = (case own of None \<Rightarrow> [] | Some ow \<Rightarrow> ow_allow ow)"

definition cached_deny :: "overwrite option \<Rightarrow> string list" where
  "cached_deny own = (case own of None \<Rightarrow> [] | Some ow \<Rightarrow> ow_deny ow)"

text \<open>discord.js's \<open>edit\<close>: both bitfields it sends are the cached ones, with the bits the patch names allowed,
  denied or left to inherit as the patch says.\<close>

definition rebuilds_whole :: "(overwrite option \<Rightarrow> patch \<Rightarrow> string list \<times> string list) \<Rightarrow> bool" where
  "rebuilds_whole resolve \<longleftrightarrow> (\<forall>own p b.
     (b \<in> set (fst (resolve own p))) = (case map_of p b of None \<Rightarrow> b \<in> set (cached_allow own) | Some x \<Rightarrow> x = Some True) \<and>
     (b \<in> set (snd (resolve own p))) = (case map_of p b of None \<Rightarrow> b \<in> set (cached_deny own) | Some x \<Rightarrow> x = Some False))"

definition ACCESS :: patch where
  "ACCESS = [(''ViewChannel'', Some True), (''SendMessages'', Some True), (''ReadMessageHistory'', Some True)]"

definition refreshed :: "overwrite list \<Rightarrow> visit \<Rightarrow> overwrite list" where
  "refreshed cache v = (case vi_refresh v of None \<Rightarrow> cache | Some ows \<Rightarrow> ows)"

definition grantMemberOverwrite :: "overwrite list \<Rightarrow> visit \<Rightarrow> string \<Rightarrow> edit_call list \<times> access_error option" where
  "grantMemberOverwrite cache v u =
     (case assertNoMemberDenial (refreshed cache v) u of
        Some e \<Rightarrow> ([], Some e)
      | None \<Rightarrow> ([(own_overwrite (refreshed cache v) u, ACCESS)], map_option Api (vi_edit v)))"

definition clearManagedAllows :: "overwrite list \<Rightarrow> visit \<Rightarrow> string \<Rightarrow> edit_call list \<times> (access_error + string list)" where
  "clearManagedAllows cache v u =
     (let allowed = retainedManagedAllows (refreshed cache v) u in
      if allowed = [] then ([], Inr [])
      else ([(own_overwrite (refreshed cache v) u, map (\<lambda>b. (b, None)) allowed)], case vi_edit v of Some e \<Rightarrow> Inl (Api e) | None \<Rightarrow> Inr allowed))"

definition removeRole :: "(string \<times> overwrite list) list \<Rightarrow> string \<Rightarrow> api_error option \<Rightarrow> bool \<times> access_error option" where
  "removeRole channels roleId answer =
     (case assertRoleOnlyAdds channels roleId of Some e \<Rightarrow> (False, Some e) | None \<Rightarrow> (True, map_option Api answer))"

subsection \<open>Applying a record\<close>

definition RETRY_DELAYS_MS :: "int list" where
  "RETRY_DELAYS_MS = [250, 1000]"

type_synonym edit_request = "string \<times> edit_call"

definition attempt_grant :: "string \<Rightarrow> string \<Rightarrow> visit \<Rightarrow> edit_request list \<times> access_error option" where
  "attempt_grant u ch v =
     (case vi_fetch v of
        Inl e \<Rightarrow> ([], Some (Api e))
      | Inr cache \<Rightarrow> (case grantMemberOverwrite cache v u of (ps, e) \<Rightarrow> (map (\<lambda>p. (ch, p)) ps, e)))"

fun grant_retries :: "string \<Rightarrow> string \<Rightarrow> (nat \<Rightarrow> visit) \<Rightarrow> nat \<Rightarrow> nat \<Rightarrow> edit_request list \<times> access_error option" where
  "grant_retries u ch env k n =
     (case attempt_grant u ch (env k) of
        (qs, None) \<Rightarrow> (qs, None)
      | (qs, Some e) \<Rightarrow>
          if isDenialConflict e then (qs, Some e)
          else (case n of
              0 \<Rightarrow> (qs, Some e)
            | Suc m \<Rightarrow> (case grant_retries u ch env (Suc k) m of (qs', e') \<Rightarrow> (qs @ qs', e'))))"

record apply_run =
  ap_failures :: "(string \<times> access_error) list"
  ap_applied :: bool
  ap_onlyRefusals :: bool
  ap_refused :: "string list"
  ap_requests :: "edit_request list"

definition note_channel :: "string \<Rightarrow> edit_request list \<times> access_error option \<Rightarrow> apply_run \<Rightarrow> apply_run" where
  "note_channel ch r st =
     (case r of
        (qs, None) \<Rightarrow> st\<lparr>ap_applied := True, ap_requests := ap_requests st @ qs\<rparr>
      | (qs, Some e) \<Rightarrow>
          (let st = st\<lparr>ap_failures := ap_failures st @ [(ch, e)], ap_requests := ap_requests st @ qs\<rparr> in
           if isDenialConflict e then st\<lparr>ap_refused := ap_refused st @ [ch]\<rparr> else st\<lparr>ap_onlyRefusals := False\<rparr>))"

fun apply_channels :: "string \<Rightarrow> (nat \<Rightarrow> nat \<Rightarrow> visit) \<Rightarrow> nat \<Rightarrow> string list \<Rightarrow> apply_run \<Rightarrow> apply_run" where
  "apply_channels u env i [] st = st"
| "apply_channels u env i (ch # chs) st =
     apply_channels u env (Suc i) chs (note_channel ch (grant_retries u ch (env i) 0 (length RETRY_DELAYS_MS)) st)"

datatype apply_result = Apply_done | Apply_plain_error | Apply_error bool bool "string list"

definition applyAccess :: "bool \<Rightarrow> (nat \<Rightarrow> nat \<Rightarrow> visit) \<Rightarrow> string \<Rightarrow> discord_rec \<Rightarrow> edit_request list \<times> apply_result" where
  "applyAccess guildOk env u r =
     (if \<not> guildOk then ([], Apply_plain_error)
      else if dr_mode r \<noteq> Some ''channel'' then ([], Apply_plain_error)
      else (let st = apply_channels u env 0 (channels_of r)
                  \<lparr>ap_failures = [], ap_applied = False, ap_onlyRefusals = True, ap_refused = [], ap_requests = []\<rparr>
        in (ap_requests st,
            if ap_failures st = [] then Apply_done
            else Apply_error (ap_applied st \<or> \<not> ap_onlyRefusals st) (ap_applied st) (ap_refused st))))"

text \<open>What the shared ledger makes of it: only an error that says \<open>mutated: false\<close> is a refusal.\<close>

definition outcome_of :: "apply_result \<Rightarrow> apply_outcome" where
  "outcome_of e = (case e of
     Apply_done \<Rightarrow> Applied
   | Apply_plain_error \<Rightarrow> Apply_failed
   | Apply_error mutated _ _ \<Rightarrow> if mutated then Apply_failed else Apply_unsent)"

subsection \<open>Revoking a record\<close>

datatype revoke_failure = Other_guild_channel | Failed access_error

fun revoke_channels :: "string \<Rightarrow> (nat \<Rightarrow> visit) \<Rightarrow> nat \<Rightarrow> string list \<Rightarrow> edit_request list \<times> (string \<times> revoke_failure) list" where
  "revoke_channels u env i [] = ([], [])"
| "revoke_channels u env i (ch # chs) =
     (let (qs, fs) = (case vi_fetch (env i) of
            Inl e \<Rightarrow>
              if isGone (Api e) then ([], [])
              else ([], [(ch, if isNotOurs (Api e) then Other_guild_channel else Failed (Api e))])
          | Inr cache \<Rightarrow>
              (case clearManagedAllows cache (env i) u of
                 (ps, Inr _) \<Rightarrow> (map (\<lambda>p. (ch, p)) ps, [])
               | (ps, Inl e) \<Rightarrow> (map (\<lambda>p. (ch, p)) ps, if isGone e then [] else [(ch, Failed e)])));
          (qs', fs') = revoke_channels u env (Suc i) chs
      in (qs @ qs', fs @ fs'))"

datatype revoke_end =
  Revoke_done | Revoke_no_guild | Revoke_other_guild | Revoke_role | Revoke_failures "(string \<times> revoke_failure) list"

definition revokeAccess :: "string \<Rightarrow> bool \<Rightarrow> (nat \<Rightarrow> visit) \<Rightarrow> string \<Rightarrow> discord_rec \<Rightarrow> edit_request list \<times> revoke_end" where
  "revokeAccess guildId guildOk env u r =
     (if \<not> guildOk then ([], Revoke_no_guild)
      else if or_blank (dr_guildId r) \<noteq> [] \<and> or_blank (dr_guildId r) \<noteq> guildId then ([], Revoke_other_guild)
      else if dr_mode r = Some ''channel'' then
        (case revoke_channels u env 0 (channels_of r) of
           (qs, fs) \<Rightarrow> (qs, if fs \<noteq> [] then Revoke_failures fs else Revoke_done))
      else ([], Revoke_role))"

subsection \<open>Repairing from a record\<close>

definition repair_channel :: "string \<Rightarrow> string list option \<Rightarrow> string \<Rightarrow> visit \<Rightarrow> edit_request list \<times> bool" where
  "repair_channel u managed ch v =
     (if managed \<noteq> None \<and> ch \<notin> set (the managed) then ([], False)
      else (case vi_fetch v of
          Inl _ \<Rightarrow> ([], False)
        | Inr cache \<Rightarrow>
            if (case own_overwrite cache u of None \<Rightarrow> False
                | Some ow \<Rightarrow> list_all (\<lambda>b. b \<in> set (mg_allow (managedState ow))) MANAGED_BITS)
            then ([], False)
            else (case grantMemberOverwrite cache v u of (ps, e) \<Rightarrow> (map (\<lambda>p. (ch, p)) ps, e = None))))"

fun repair_channels :: "string \<Rightarrow> string list option \<Rightarrow> (nat \<Rightarrow> visit) \<Rightarrow> nat \<Rightarrow> string list \<Rightarrow> edit_request list \<times> string list" where
  "repair_channels u managed env i [] = ([], [])"
| "repair_channels u managed env i (ch # chs) =
     (let (qs, ok) = repair_channel u managed ch (env i);
          (qs', done_chs) = repair_channels u managed env (Suc i) chs
      in (qs @ qs', if ok then ch # done_chs else done_chs))"

record repair_config =
  rc_guildId :: string
  rc_managed :: "string list option"
  rc_contextHash :: "string option"

definition repairAccess :: "repair_config \<Rightarrow> int \<Rightarrow> bool \<Rightarrow> (nat \<Rightarrow> visit) \<Rightarrow> string \<Rightarrow> discord_rec \<Rightarrow> edit_request list \<times> string list" where
  "repairAccess rc now guildOk env u r =
     (if dr_mode r \<noteq> Some ''channel'' then ([], [])
      else if or_blank (dr_guildId r) \<noteq> [] \<and> or_blank (dr_guildId r) \<noteq> rc_guildId rc then ([], [])
      else if \<not> finite_deadline (dr_expiresAt r) \<or> now \<ge> deadline (dr_expiresAt r) then ([], [])
      else if (case rc_contextHash rc of None \<Rightarrow> False | Some h \<Rightarrow> or_blank (dr_contextHash r) \<noteq> h) then ([], [])
      else if \<not> guildOk then ([], [])
      else repair_channels u (rc_managed rc) env 0 (channels_of r))"

subsection \<open>The startup pass over one channel (adapters/discord/reconcile\_channel.js)\<close>

fun reconcile_members :: "(string \<Rightarrow> bool) \<Rightarrow> overwrite list \<Rightarrow> string list" where
  "reconcile_members authorized [] = []"
| "reconcile_members authorized (ow # ows) =
     (if authorized (ow_id ow) then reconcile_members authorized ows else ow_id ow # reconcile_members authorized ows)"

definition reconcileChannel :: "string \<Rightarrow> (string \<Rightarrow> bool) \<Rightarrow> overwrite list \<Rightarrow> string list" where
  "reconcileChannel botId authorized cache =
     reconcile_members authorized (filter (\<lambda>ow. ow_member ow \<and> ow_id ow \<noteq> botId) cache)"

subsection \<open>What an apply did\<close>

text \<open>The entry for a member that the library's cache shows at a visit's edit.\<close>

definition seen_entry :: "string \<Rightarrow> visit \<Rightarrow> overwrite option" where
  "seen_entry u v = (case vi_fetch v of Inl _ \<Rightarrow> None | Inr cache \<Rightarrow> own_overwrite (refreshed cache v) u)"

definition no_denial_seen :: "string \<Rightarrow> visit \<Rightarrow> bool" where
  "no_denial_seen u v \<longleftrightarrow> (\<exists>cache. vi_fetch v = Inr cache \<and>
     (\<forall>ow \<in> set (refreshed cache v). ow_member ow \<and> ow_id ow = u \<longrightarrow> mg_deny (managedState ow) = []))"

lemma member_denials_Nil: "memberDenialsOnGatedChannel ows = [] \<longleftrightarrow> (\<forall>ow \<in> set ows. mg_deny (managedState ow) = [])"
  by (induction ows) (auto simp: memberDenialsOnGatedChannel_def)

lemma no_member_denial: "assertNoMemberDenial ows u = None \<longleftrightarrow>
    (\<forall>ow \<in> set ows. ow_member ow \<and> ow_id ow = u \<longrightarrow> mg_deny (managedState ow) = [])"
proof -
  have "assertNoMemberDenial ows u = None \<longleftrightarrow>
      memberDenialsOnGatedChannel (filter (\<lambda>ow. ow_member ow \<and> ow_id ow = u) ows) = []"
    by (simp add: assertNoMemberDenial_def split: list.splits)
  then show ?thesis
    by (auto simp: member_denials_Nil)
qed

lemma denial_is_conflict: "assertNoMemberDenial ows u = Some e \<Longrightarrow> isDenialConflict e"
  by (auto simp: assertNoMemberDenial_def isDenialConflict_def split: list.splits)

lemma attempt_grant_sent:
  assumes "attempt_grant u ch v = (qs, e)"
  shows "q \<in> set qs \<Longrightarrow> q = (ch, seen_entry u v, ACCESS) \<and> no_denial_seen u v"
    and "e = None \<Longrightarrow> qs = [(ch, seen_entry u v, ACCESS)] \<and> no_denial_seen u v \<and> vi_edit v = None"
    and "e = Some d \<Longrightarrow> isDenialConflict d \<Longrightarrow> qs = []"
    and "e = Some d \<Longrightarrow> vi_edit v = None \<Longrightarrow> qs = []"
proof -
  consider (lost) a where "vi_fetch v = Inl a" "qs = []" "e = Some (Api a)"
    | (denied) cache d where "vi_fetch v = Inr cache" "assertNoMemberDenial (refreshed cache v) u = Some d" "qs = []" "e = Some d"
    | (sent) cache where "vi_fetch v = Inr cache" "assertNoMemberDenial (refreshed cache v) u = None"
        "qs = [(ch, seen_entry u v, ACCESS)]" "e = map_option Api (vi_edit v)"
  proof (cases "vi_fetch v")
    case (Inl a)
    then show thesis
      using assms that(1) by (simp add: attempt_grant_def)
  next
    case (Inr cache)
    then show thesis
    proof (cases "assertNoMemberDenial (refreshed cache v) u")
      case (Some a)
      then have "qs = [] \<and> e = Some a"
        using assms Inr by (auto simp: attempt_grant_def grantMemberOverwrite_def)
      then show thesis
        using that(2) [OF Inr Some] by simp
    next
      case None
      then have "qs = [(ch, seen_entry u v, ACCESS)] \<and> e = map_option Api (vi_edit v)"
        using assms Inr by (auto simp: attempt_grant_def grantMemberOverwrite_def seen_entry_def)
      then show thesis
        using that(3) [OF Inr None] by simp
    qed
  qed
  note cases = this
  show "q \<in> set qs \<Longrightarrow> q = (ch, seen_entry u v, ACCESS) \<and> no_denial_seen u v"
    by (rule cases) (simp_all add: no_denial_seen_def no_member_denial)
  show "e = None \<Longrightarrow> qs = [(ch, seen_entry u v, ACCESS)] \<and> no_denial_seen u v \<and> vi_edit v = None"
    by (rule cases) (simp_all add: no_denial_seen_def no_member_denial)
  show "e = Some d \<Longrightarrow> isDenialConflict d \<Longrightarrow> qs = []"
    by (rule cases) (auto simp: isDenialConflict_def)
  show "e = Some d \<Longrightarrow> vi_edit v = None \<Longrightarrow> qs = []"
    by (rule cases) simp_all
qed

text \<open>The three tries at one channel, each at its own visit.\<close>

lemma grant_retries_sent:
  "grant_retries u ch env k n = (qs, e) \<Longrightarrow>
    (\<forall>q\<in>set qs. (\<exists>j. k \<le> j \<and> j \<le> k + n \<and> q = (ch, seen_entry u (env j), ACCESS) \<and> no_denial_seen u (env j))) \<and>
    (e = None \<longrightarrow> (\<exists>j. k \<le> j \<and> j \<le> k + n \<and> (ch, seen_entry u (env j), ACCESS) \<in> set qs \<and> vi_edit (env j) = None)) \<and>
    ((\<forall>j. vi_edit (env j) = None) \<longrightarrow> e \<noteq> None \<longrightarrow> qs = [])"
proof (induction n arbitrary: k qs e)
  case 0
  obtain ps e1 where a: "attempt_grant u ch (env k) = (ps, e1)"
    by fastforce
  have r: "qs = ps" "e = e1"
    using 0 a by (auto split: option.splits if_splits)
  show ?case
    using attempt_grant_sent [OF a] unfolding r by (cases e1) auto
next
  case (Suc n)
  obtain ps e1 where a: "attempt_grant u ch (env k) = (ps, e1)"
    by fastforce
  note sent = attempt_grant_sent [OF a]
  show ?case
  proof (cases "e1 = None \<or> isDenialConflict (the e1)")
    case True
    then have r: "qs = ps" "e = e1"
      using Suc.prems a by (auto split: option.splits if_splits)
    show ?thesis
      using sent unfolding r by (cases e1) auto
  next
    case False
    then obtain d where d: "e1 = Some d" "\<not> isDenialConflict d"
      by auto
    obtain qs' where q: "grant_retries u ch env (Suc k) n = (qs', e)" "qs = ps @ qs'"
      using Suc.prems a d by (auto split: prod.splits)
    note ih = Suc.IH [OF q(1)]
    have later: "Suc k \<le> j \<and> j \<le> Suc k + n \<Longrightarrow> k \<le> j \<and> j \<le> k + Suc n" for j
      by simp
    have "\<exists>j. k \<le> j \<and> j \<le> k + Suc n \<and> q = (ch, seen_entry u (env j), ACCESS) \<and> no_denial_seen u (env j)" if "q \<in> set qs" for q
    proof (cases "q \<in> set ps")
      case True
      then have "q = (ch, seen_entry u (env k), ACCESS) \<and> no_denial_seen u (env k)"
        using sent(1) by blast
      then show ?thesis
        by (intro exI [of _ k]) simp
    next
      case False
      then have "q \<in> set qs'"
        using that unfolding q(2) by simp
      then show ?thesis
        using ih [THEN conjunct1] later by blast
    qed
    moreover have "\<exists>j. k \<le> j \<and> j \<le> k + Suc n \<and> (ch, seen_entry u (env j), ACCESS) \<in> set qs \<and> vi_edit (env j) = None" if none: "e = None"
    proof -
      obtain j where "Suc k \<le> j \<and> j \<le> Suc k + n" "(ch, seen_entry u (env j), ACCESS) \<in> set qs'" "vi_edit (env j) = None"
        using ih [THEN conjunct2, THEN conjunct1, rule_format, OF none] by blast
      then show ?thesis
        unfolding q(2) using later by (intro exI [of _ j]) simp
    qed
    moreover have "qs = []" if v: "\<forall>j. vi_edit (env j) = None" and "e \<noteq> None"
      using sent(4) [OF d(1) v [rule_format]] ih [THEN conjunct2, THEN conjunct2] that unfolding q(2) by simp
    ultimately show ?thesis
      by blast
  qed
qed

text \<open>Over all the channels, the first \<open>i\<close> of which were visited.\<close>

definition asked_well :: "string \<Rightarrow> (nat \<Rightarrow> nat \<Rightarrow> visit) \<Rightarrow> string list \<Rightarrow> edit_request \<Rightarrow> bool" where
  "asked_well u env chs q \<longleftrightarrow> (\<exists>i < length chs. \<exists>j \<le> 2. q = (chs ! i, seen_entry u (env i j), ACCESS) \<and> no_denial_seen u (env i j))"

definition granted_at :: "string \<Rightarrow> (nat \<Rightarrow> nat \<Rightarrow> visit) \<Rightarrow> string list \<Rightarrow> edit_request list \<Rightarrow> nat \<Rightarrow> bool" where
  "granted_at u env chs qs i \<longleftrightarrow> (\<exists>j \<le> 2. (chs ! i, seen_entry u (env i j), ACCESS) \<in> set qs \<and> vi_edit (env i j) = None)"

definition run_ok :: "string \<Rightarrow> (nat \<Rightarrow> nat \<Rightarrow> visit) \<Rightarrow> string list \<Rightarrow> nat \<Rightarrow> apply_run \<Rightarrow> bool" where
  "run_ok u env chs i st \<longleftrightarrow>
     (\<forall>q\<in>set (ap_requests st). asked_well u env chs q) \<and>
     (ap_failures st = [] \<longrightarrow> (\<forall>x < i. granted_at u env chs (ap_requests st) x)) \<and>
     (\<not> ap_applied st \<and> ap_onlyRefusals st \<longrightarrow> ap_refused st = take i chs) \<and>
     (ap_failures st = [] \<longrightarrow> ap_onlyRefusals st \<and> ap_refused st = []) \<and>
     (\<not> ap_applied st \<longrightarrow> (\<forall>x j. vi_edit (env x j) = None) \<longrightarrow> ap_requests st = [])"

lemma note_channel_ok:
  assumes "run_ok u env chs i st" "i < length chs"
  shows "run_ok u env chs (Suc i) (note_channel (chs ! i) (grant_retries u (chs ! i) (env i) 0 2) st)"
proof -
  obtain qs e where r: "grant_retries u (chs ! i) (env i) 0 2 = (qs, e)"
    by fastforce
  have sent: "\<forall>q\<in>set qs. asked_well u env chs q"
    "e = None \<Longrightarrow> granted_at u env chs (ap_requests st @ qs) i"
    "(\<forall>j. vi_edit (env i j) = None) \<longrightarrow> e \<noteq> None \<longrightarrow> qs = []"
  proof -
    note g = grant_retries_sent [OF r]
    show "\<forall>q\<in>set qs. asked_well u env chs q"
    proof
      fix q assume "q \<in> set qs"
      then obtain j where "q = (chs ! i, seen_entry u (env i j), ACCESS)" "j \<le> 2" "no_denial_seen u (env i j)"
        using g [THEN conjunct1, rule_format, of q] by (auto simp: numeral_2_eq_2)
      then show "asked_well u env chs q"
        unfolding asked_well_def using assms(2) by blast
    qed
    show "granted_at u env chs (ap_requests st @ qs) i" if "e = None"
      using g [THEN conjunct2, THEN conjunct1] that unfolding granted_at_def by (auto simp: numeral_2_eq_2)
    show "(\<forall>j. vi_edit (env i j) = None) \<longrightarrow> e \<noteq> None \<longrightarrow> qs = []"
      using g by blast
  qed
  have grow: "granted_at u env chs (ap_requests st) x \<Longrightarrow> granted_at u env chs (ap_requests st @ qs) x" for x
    by (auto simp: granted_at_def)
  show ?thesis
  proof (cases e)
    case None
    then show ?thesis
      using assms sent grow unfolding run_ok_def r
      by (auto simp: note_channel_def less_Suc_eq take_Suc_conv_app_nth simp del: grant_retries.simps)
  next
    case (Some d)
    then show ?thesis
      using assms sent unfolding run_ok_def r
      by (auto simp: note_channel_def take_Suc_conv_app_nth Let_def simp del: grant_retries.simps)
  qed
qed

lemma apply_channels_ok:
  "run_ok u env chs i st \<Longrightarrow> i \<le> length chs \<Longrightarrow>
    run_ok u env chs (length chs) (apply_channels u env i (drop i chs) st)"
proof (induction "length chs - i" arbitrary: i st)
  case 0
  then show ?case
    by simp
next
  case (Suc n)
  then have i: "i < length chs"
    by linarith
  then have "run_ok u env chs (length chs) (apply_channels u env (Suc i) (drop (Suc i) chs)
      (note_channel (chs ! i) (grant_retries u (chs ! i) (env i) 0 2) st))"
    using Suc note_channel_ok [OF Suc.prems(1) i] by (simp del: grant_retries.simps)
  then show ?case
    using i by (simp add: Cons_nth_drop_Suc [symmetric] RETRY_DELAYS_MS_def numeral_2_eq_2 del: grant_retries.simps)
qed

lemma applyAccess_run:
  assumes "applyAccess guildOk env u r = (qs, res)" "res \<noteq> Apply_plain_error"
  obtains st where "run_ok u env (channels_of r) (length (channels_of r)) st" "qs = ap_requests st"
    "res = (if ap_failures st = [] then Apply_done else Apply_error (ap_applied st \<or> \<not> ap_onlyRefusals st) (ap_applied st) (ap_refused st))"
proof -
  let ?st = "apply_channels u env 0 (channels_of r)
    \<lparr>ap_failures = [], ap_applied = False, ap_onlyRefusals = True, ap_refused = [], ap_requests = []\<rparr>"
  have "run_ok u env (channels_of r) (length (channels_of r)) ?st"
    using apply_channels_ok [of u env "channels_of r" 0
        "\<lparr>ap_failures = [], ap_applied = False, ap_onlyRefusals = True, ap_refused = [], ap_requests = []\<rparr>"]
    by (simp add: run_ok_def)
  then show ?thesis
    using that [of ?st] assms by (auto simp: applyAccess_def Let_def split: if_splits)
qed

text \<open>What an edit puts on the wire.\<close>

definition wire :: "(overwrite option \<Rightarrow> patch \<Rightarrow> string list \<times> string list) \<Rightarrow> edit_request \<Rightarrow> string list \<times> string list" where
  "wire resolve q = resolve (fst (snd q)) (snd (snd q))"

lemma ACCESS_bits: "map_of ACCESS b = (if b \<in> set MANAGED_BITS then Some (Some True) else None)"
  by (simp add: ACCESS_def MANAGED_BITS_def)

lemma own_overwrite_Some: "own_overwrite ows u = Some ow \<Longrightarrow> ow \<in> set ows \<and> ow_member ow \<and> ow_id ow = u"
  unfolding own_overwrite_def by (auto simp: find_Some_iff)

lemma managed_deny: "set (mg_deny (managedState ow)) = set (ow_deny ow) \<inter> set MANAGED_BITS"
  and managed_allow: "set (mg_allow (managedState ow)) = set (ow_allow ow) \<inter> set MANAGED_BITS"
  by (auto simp: managedState_def)

lemma seen_without_denial: "no_denial_seen u v \<Longrightarrow> set (cached_deny (seen_entry u v)) \<inter> set MANAGED_BITS = {}"
proof -
  assume n: "no_denial_seen u v"
  then obtain cache where c: "vi_fetch v = Inr cache"
      "\<forall>ow \<in> set (refreshed cache v). ow_member ow \<and> ow_id ow = u \<longrightarrow> mg_deny (managedState ow) = []"
    unfolding no_denial_seen_def by blast
  show ?thesis
  proof (cases "own_overwrite (refreshed cache v) u")
    case (Some ow)
    then have "mg_deny (managedState ow) = []"
      using own_overwrite_Some [OF Some] c(2) by blast
    then show ?thesis
      using c(1) Some managed_deny [of ow] by (simp add: seen_entry_def cached_deny_def)
  qed (use c(1) in \<open>simp add: seen_entry_def cached_deny_def\<close>)
qed

lemma grant_on_the_wire:
  assumes "rebuilds_whole resolve" "set (cached_deny own) \<inter> set MANAGED_BITS = {}"
  shows "set (fst (wire resolve (ch, own, ACCESS))) = set (cached_allow own) \<union> set MANAGED_BITS"
    and "set (snd (wire resolve (ch, own, ACCESS))) = set (cached_deny own)"
  using assms by (auto simp: rebuilds_whole_def wire_def ACCESS_bits split: if_splits)

text \<open>C30: applying a record adds nothing but the three managed bits to what the library's cache shows of the
  member's entry, on the record's own channels, each time after a look that showed no managed denial for
  this member there: the entry sent whole allows what the cache showed and the managed bits, and denies
  exactly what the cache showed, which is no managed bit. (A denial the cache has not seen is not
  in what is sent, so it is overwritten.) The apply succeeds only when Discord accepted such an edit
  on every channel of the record.\<close>

theorem apply_writes_only_grants:
  assumes "applyAccess guildOk env u r = (qs, res)" "rebuilds_whole resolve"
  shows "(\<forall>q\<in>set qs. asked_well u env (channels_of r) q \<and>
      set (fst (wire resolve q)) = set (cached_allow (fst (snd q))) \<union> set MANAGED_BITS \<and>
      set (snd (wire resolve q)) = set (cached_deny (fst (snd q))) \<and>
      set (cached_deny (fst (snd q))) \<inter> set MANAGED_BITS = {}) \<and>
    (res = Apply_done \<longrightarrow> (\<forall>i < length (channels_of r). granted_at u env (channels_of r) qs i))"
proof -
  have run: "(\<forall>q\<in>set qs. asked_well u env (channels_of r) q) \<and>
      (res = Apply_done \<longrightarrow> (\<forall>i < length (channels_of r). granted_at u env (channels_of r) qs i))"
  proof (cases "res = Apply_plain_error")
    case True
    then show ?thesis
      using assms(1) by (auto simp: applyAccess_def Let_def split: if_splits)
  next
    case False
    then show ?thesis
      using applyAccess_run [OF assms(1)] unfolding run_ok_def by (metis (full_types) apply_result.distinct(3))
  qed
  have "set (fst (wire resolve q)) = set (cached_allow (fst (snd q))) \<union> set MANAGED_BITS \<and>
      set (snd (wire resolve q)) = set (cached_deny (fst (snd q))) \<and>
      set (cached_deny (fst (snd q))) \<inter> set MANAGED_BITS = {}" if asked: "asked_well u env (channels_of r) q" for q
  proof -
    obtain i j where ij: "q = (channels_of r ! i, seen_entry u (env i j), ACCESS)" "no_denial_seen u (env i j)"
      using asked unfolding asked_well_def by blast
    obtain ch own where q: "q = (ch, own, ACCESS)" "set (cached_deny own) \<inter> set MANAGED_BITS = {}"
      using ij(1) seen_without_denial [OF ij(2)] by blast
    show ?thesis
      unfolding q(1) fst_conv snd_conv using grant_on_the_wire [OF assms(2) q(2), of ch] q(2) by blast
  qed
  then show ?thesis
    using run by blast
qed

text \<open>An apply that reports \<open>mutated: false\<close> was refused on every channel of the record and
  applied nothing; when no edit that reached Discord lost its answer, it sent nothing at all, which is what
  the ledger takes the report for when it deletes the row without revoking.\<close>

lemma refusal_sends_nothing:
  assumes "applyAccess guildOk env u r = (qs, res)" "outcome_of res = Apply_unsent"
  shows "res = Apply_error False False (channels_of r) \<and> ((\<forall>i j. vi_edit (env i j) = None) \<longrightarrow> qs = [])"
proof -
  obtain applied refused where res: "res = Apply_error False applied refused"
    using assms(2) by (auto simp: outcome_of_def split: apply_result.splits if_splits)
  obtain st where st: "run_ok u env (channels_of r) (length (channels_of r)) st" "qs = ap_requests st"
    "res = (if ap_failures st = [] then Apply_done else Apply_error (ap_applied st \<or> \<not> ap_onlyRefusals st) (ap_applied st) (ap_refused st))"
    using applyAccess_run [OF assms(1)] res by (metis apply_result.distinct(5))
  have "ap_failures st \<noteq> []" "\<not> ap_applied st" "ap_onlyRefusals st" "refused = ap_refused st" "applied = ap_applied st"
    using st(3) unfolding res by (auto split: if_splits)
  then show ?thesis
    using st(1,2) unfolding res run_ok_def by simp
qed

text \<open>Without that condition the report is wrong: the first try's edit reaches Discord and its answer is
  lost, an administrator's denial is seen by the second try, and the error says that nothing was sent.\<close>

definition lost_answer :: "nat \<Rightarrow> nat \<Rightarrow> visit" where
  "lost_answer i k = \<lparr>vi_fetch = Inr (if k = 0 then [] else [\<lparr>ow_member = True, ow_id = ''ann'', ow_allow = [''ViewChannel''], ow_deny = [''SendMessages'']\<rparr>]),
     vi_refresh = None, vi_edit = Some \<lparr>ae_status = Some 502, ae_code = No_code\<rparr>\<rparr>"

definition demo_discord :: discord_rec where
  "demo_discord = \<lparr>dr_expiresAt = F_int 9, dr_mode = Some ''channel'', dr_channels = Some [''c1''], dr_roleId = None,
     dr_guildId = Some ''g'', dr_contextHash = Some ''h''\<rparr>"

lemma lost_answer_reported_as_refusal:
  "applyAccess True lost_answer ''ann'' demo_discord = ([(''c1'', None, ACCESS)], Apply_error False False [''c1''])"
  by code_simp

lemma lost_answer_drops_the_row:
  "row_is ''ann'' demo_discord 1 db \<Longrightarrow>
    \<not> (\<exists>x rv. row_is ''ann'' x rv (fst (grant_applied discord_config
      (outcome_of (snd (applyAccess True lost_answer ''ann'' demo_discord))) ''ann'' demo_discord None 1 db)))"
  unfolding lost_answer_reported_as_refusal
  by (simp add: outcome_of_def grant_applied_def del_row_gone)

subsection \<open>What a revocation did\<close>

text \<open>What counts as Discord having no such channel, member or guild: the status, or one of five codes.\<close>

definition absent :: "api_error \<Rightarrow> bool" where
  "absent a \<longleftrightarrow> ae_status a = Some 404 \<or>
     ae_code a \<in> {Num_code 10003, Num_code 10004, Num_code 10007, Num_code 10011, Num_code 10013}"

lemma isGone_absent: "isGone (Api a) = absent a"
  by (auto simp: isGone_def absent_def split: error_code.splits)

definition cleared_at :: "string \<Rightarrow> visit \<Rightarrow> string \<Rightarrow> edit_request list \<Rightarrow> bool" where
  "cleared_at u v ch qs \<longleftrightarrow>
     (case vi_fetch v of
        Inl e \<Rightarrow> absent e
      | Inr cache \<Rightarrow>
          let allowed = retainedManagedAllows (refreshed cache v) u in
          allowed = [] \<or>
          (ch, seen_entry u v, map (\<lambda>b. (b, None)) allowed) \<in> set qs \<and> (case vi_edit v of None \<Rightarrow> True | Some e \<Rightarrow> absent e))"

lemma cleared_at_mono: "cleared_at u v ch qs \<Longrightarrow> set qs \<subseteq> set qs' \<Longrightarrow> cleared_at u v ch qs'"
  by (auto simp: cleared_at_def Let_def split: sum.splits option.splits)

text \<open>An edit that resets to inherit exactly the managed bits its cached entry allows.\<close>

definition only_inherits :: "edit_request \<Rightarrow> bool" where
  "only_inherits q \<longleftrightarrow> set (cached_allow (fst (snd q))) \<inter> set MANAGED_BITS \<noteq> {} \<and>
     map_of (snd (snd q)) = (\<lambda>b. if b \<in> set (cached_allow (fst (snd q))) \<inter> set MANAGED_BITS then Some None else None)"

lemma clear_is_only_inherits:
  assumes "retainedManagedAllows ows u \<noteq> []"
  shows "only_inherits (ch, own_overwrite ows u, map (\<lambda>b. (b, None)) (retainedManagedAllows ows u))"
proof -
  obtain ow where ow: "own_overwrite ows u = Some ow" "retainedManagedAllows ows u = mg_allow (managedState ow)"
    using assms by (auto simp: retainedManagedAllows_def split: option.splits)
  have "map_of (map (\<lambda>b. (b, None)) xs) b = (if b \<in> set xs then Some None else None)" for xs :: "string list" and b
    by (induction xs) auto
  then have "map_of (map (\<lambda>b. (b, None)) (mg_allow (managedState ow))) =
      (\<lambda>b. if b \<in> set (ow_allow ow) \<inter> set MANAGED_BITS then Some None else None)"
    unfolding managed_allow [symmetric] by blast
  moreover have "set (ow_allow ow) \<inter> set MANAGED_BITS \<noteq> {}"
    using assms unfolding ow(2) managed_allow [symmetric] by simp
  ultimately show ?thesis
    unfolding only_inherits_def ow by (simp add: cached_allow_def)
qed

lemma clear_on_the_wire:
  assumes "rebuilds_whole resolve" "only_inherits q"
  shows "set (fst (wire resolve q)) = set (cached_allow (fst (snd q))) - set MANAGED_BITS"
    and "set (snd (wire resolve q)) = set (cached_deny (fst (snd q))) - set (cached_allow (fst (snd q))) \<inter> set MANAGED_BITS"
  using assms by (auto simp: rebuilds_whole_def wire_def only_inherits_def split: if_splits)

lemma revoke_channels_clears:
  "revoke_channels u env i chs = (qs, fs) \<Longrightarrow>
    (\<forall>q\<in>set qs. only_inherits q \<and> fst q \<in> set chs) \<and>
    (fs = [] \<longrightarrow> (\<forall>j < length chs. cleared_at u (env (i + j)) (chs ! j) qs))"
proof (induction chs arbitrary: i qs fs)
  case (Cons ch chs)
  obtain qs' fs' where rest: "revoke_channels u env (Suc i) chs = (qs', fs')"
    by fastforce
  obtain ps gs where one: "qs = ps @ qs'" "fs = gs @ fs'" "\<forall>q\<in>set ps. only_inherits q \<and> fst q = ch"
      "gs = [] \<Longrightarrow> cleared_at u (env i) ch ps"
  proof (cases "vi_fetch (env i)")
    case (Inl e)
    then show thesis
      using Cons.prems rest that [of "[]" "if isGone (Api e) then [] else [(ch, if isNotOurs (Api e) then Other_guild_channel else Failed (Api e))]"]
      by (auto simp: Let_def cleared_at_def isGone_absent split: if_splits)
  next
    case (Inr cache)
    have seen: "seen_entry u (env i) = own_overwrite (refreshed cache (env i)) u"
      using Inr by (simp add: seen_entry_def)
    let ?a = "retainedManagedAllows (refreshed cache (env i)) u"
    show thesis
    proof (cases "?a = []")
      case True
      then show thesis
        using Cons.prems rest Inr that [of "[]" "[]"] by (auto simp: Let_def cleared_at_def clearManagedAllows_def)
    next
      case False
      let ?q = "(ch, own_overwrite (refreshed cache (env i)) u, map (\<lambda>b. (b, None)) ?a)"
      have q: "only_inherits ?q"
        using False by (rule clear_is_only_inherits)
      show thesis
      proof (cases "vi_edit (env i)")
        case None
        then show thesis
          using Cons.prems rest Inr False q seen that [of "[?q]" "[]"] by (auto simp: Let_def cleared_at_def clearManagedAllows_def)
      next
        case (Some e)
        then show thesis
          using Cons.prems rest Inr False q seen that [of "[?q]" "if isGone (Api e) then [] else [(ch, Failed (Api e))]"]
          by (auto simp: Let_def cleared_at_def clearManagedAllows_def isGone_absent split: if_splits)
      qed
    qed
  qed
  have "cleared_at u (env (i + j)) ((ch # chs) ! j) qs" if "fs = []" "j < length (ch # chs)" for j
    using Cons.IH [OF rest] one that cleared_at_mono [of u _ _ _ qs] by (cases j) auto
  then show ?case
    using Cons.IH [OF rest] one by auto
qed simp

text \<open>C31: a revocation that reports success left none of the record's channels behind: the record is a
  channel record of this guild, and for each of its channels either Discord answered that there is no such
  channel, member or guild (status 404 or one of five codes; another guild's channel is a failure),
  or the look before the mutation showed no managed permission, or exactly the managed permissions it
  showed were reset and the answer was not a failure. Whatever it reports, each edit is on one of the
  record's channels, and the entry it sends whole is the cached one without its managed allows: it
  allows nothing new and denies nothing new.\<close>

theorem revoke_takes_everything_back:
  assumes "revokeAccess guildId guildOk env u r = (qs, res)" "rebuilds_whole resolve"
  shows "(\<forall>q\<in>set qs. fst q \<in> set (channels_of r) \<and>
      set (cached_allow (fst (snd q))) \<inter> set MANAGED_BITS \<noteq> {} \<and>
      set (fst (wire resolve q)) = set (cached_allow (fst (snd q))) - set MANAGED_BITS \<and>
      set (snd (wire resolve q)) = set (cached_deny (fst (snd q))) - set (cached_allow (fst (snd q))) \<inter> set MANAGED_BITS) \<and>
    (res = Revoke_done \<longrightarrow> channel_mode r \<and> or_blank (dr_guildId r) \<in> {[], guildId} \<and>
      (\<forall>j < length (channels_of r). cleared_at u (env j) (channels_of r ! j) qs))"
proof -
  obtain qs' fs where run: "revoke_channels u env 0 (channels_of r) = (qs', fs)"
    by fastforce
  have "(\<forall>q\<in>set qs. only_inherits q \<and> fst q \<in> set (channels_of r)) \<and>
    (res = Revoke_done \<longrightarrow> channel_mode r \<and> or_blank (dr_guildId r) \<in> {[], guildId} \<and>
      (\<forall>j < length (channels_of r). cleared_at u (env j) (channels_of r ! j) qs))"
    using assms(1) revoke_channels_clears [OF run] run
    by (auto simp: revokeAccess_def channel_mode_def split: if_splits)
  then show ?thesis
    using clear_on_the_wire [OF assms(2)] only_inherits_def by blast
qed

subsection \<open>What a repair did\<close>

lemma grantMemberOverwrite_sent:
  "grantMemberOverwrite cache v u = (ps, e) \<Longrightarrow> vi_fetch v = Inr cache \<Longrightarrow> p \<in> set ps \<Longrightarrow> snd p = ACCESS \<and> no_denial_seen u v"
  by (auto simp: grantMemberOverwrite_def no_denial_seen_def no_member_denial split: option.splits)

lemma repair_channels_confined:
  "repair_channels u managed env i chs = (qs, fixed) \<Longrightarrow>
    (\<forall>q\<in>set qs. snd (snd q) = ACCESS \<and> fst q \<in> set chs \<and> (\<forall>ms. managed = Some ms \<longrightarrow> fst q \<in> set ms) \<and>
      (\<exists>j < length chs. fst q = chs ! j \<and> no_denial_seen u (env (i + j)))) \<and>
    (\<forall>ch\<in>set fixed. \<exists>own. (ch, own, ACCESS) \<in> set qs)"
proof (induction chs arbitrary: i qs fixed)
  case (Cons ch chs)
  obtain ps ok where one: "repair_channel u managed ch (env i) = (ps, ok)"
    by fastforce
  obtain qs' fixed' where rest: "repair_channels u managed env (Suc i) chs = (qs', fixed')"
    by fastforce
  have all: "qs = ps @ qs'" "fixed = (if ok then ch # fixed' else fixed')"
    using Cons.prems one rest by auto
  have p: "fst q = ch \<and> snd (snd q) = ACCESS \<and> (\<forall>ms. managed = Some ms \<longrightarrow> ch \<in> set ms) \<and> no_denial_seen u (env i)" if "q \<in> set ps" for q
    using one that grantMemberOverwrite_sent
    by (fastforce simp: repair_channel_def split: if_splits sum.splits option.splits prod.splits)
  have ok: "\<exists>own. (ch, own, ACCESS) \<in> set ps" if "ok"
    using one that
    by (auto simp: repair_channel_def grantMemberOverwrite_def split: if_splits sum.splits option.splits prod.splits)
  have "\<exists>j < length (ch # chs). fst q = (ch # chs) ! j \<and> no_denial_seen u (env (i + j))" if q: "q \<in> set qs" for q
  proof (cases "q \<in> set ps")
    case True
    then show ?thesis
      using p [OF True] by (intro exI [of _ 0]) simp
  next
    case False
    then obtain j where "j < length chs" "fst q = chs ! j" "no_denial_seen u (env (Suc i + j))"
      using Cons.IH [OF rest] q all(1) by auto
    then show ?thesis
      by (intro exI [of _ "Suc j"]) simp
  qed
  moreover have "\<forall>q\<in>set ps. snd (snd q) = ACCESS \<and> fst q = ch \<and> (\<forall>ms. managed = Some ms \<longrightarrow> fst q \<in> set ms)"
  proof
    fix q assume "q \<in> set ps"
    from p [OF this] show "snd (snd q) = ACCESS \<and> fst q = ch \<and> (\<forall>ms. managed = Some ms \<longrightarrow> fst q \<in> set ms)"
      by simp
  qed
  moreover have "\<forall>ch\<in>set fixed. \<exists>own. (ch, own, ACCESS) \<in> set qs"
    using Cons.IH [OF rest, THEN conjunct2] ok unfolding all by (auto split: if_splits)
  ultimately show ?case
    using Cons.IH [OF rest, THEN conjunct1] unfolding all(1) set_append list.set(2) by blast
qed simp

lemma repair_confined:
  assumes "repairAccess rc now guildOk env u r = (qs, fixed)" "q \<in> set qs"
  shows "snd (snd q) = ACCESS \<and> fst q \<in> set (channels_of r) \<and> channel_mode r \<and>
    or_blank (dr_guildId r) \<in> {[], rc_guildId rc} \<and> now < deadline (dr_expiresAt r) \<and>
    (\<forall>h. rc_contextHash rc = Some h \<longrightarrow> or_blank (dr_contextHash r) = h) \<and>
    (\<forall>ms. rc_managed rc = Some ms \<longrightarrow> fst q \<in> set ms) \<and>
    (\<exists>j. channels_of r ! j = fst q \<and> no_denial_seen u (env j))"
proof -
  have run: "repair_channels u (rc_managed rc) env 0 (channels_of r) = (qs, fixed)"
    using assms by (auto simp: repairAccess_def split: if_splits)
  have "channel_mode r" "or_blank (dr_guildId r) \<in> {[], rc_guildId rc}" "now < deadline (dr_expiresAt r)"
    "\<forall>h. rc_contextHash rc = Some h \<longrightarrow> or_blank (dr_contextHash r) = h"
    using assms by (auto simp: repairAccess_def channel_mode_def split: if_splits option.splits)
  then show ?thesis
    using repair_channels_confined [OF run] assms(2) by (metis add_0)
qed

text \<open>A repair never grants more than the record's own authority: it writes only for an unexpired
  channel record of this guild and this proof context, only on channels the record names and the bot is
  configured for, and only where its look showed no denial.\<close>

lemma repair_is_confined:
  assumes "repairAccess rc now guildOk env u r = (qs, fixed)" "q \<in> set qs"
  shows "snd (snd q) = ACCESS \<and> fst q \<in> set (channels_of r) \<and> channel_mode r \<and>
    or_blank (dr_guildId r) \<in> {[], rc_guildId rc} \<and> now < deadline (dr_expiresAt r) \<and>
    (\<forall>h. rc_contextHash rc = Some h \<longrightarrow> or_blank (dr_contextHash r) = h) \<and>
    (\<forall>ms. rc_managed rc = Some ms \<longrightarrow> fst q \<in> set ms) \<and>
    (\<exists>j. channels_of r ! j = fst q \<and> no_denial_seen u (env j))"
  by (rule repair_confined [OF assms])

subsection \<open>The operations at concrete inputs\<close>

definition clean_visit :: visit where
  "clean_visit = \<lparr>vi_fetch = Inr [], vi_refresh = None, vi_edit = None\<rparr>"

definition denied_visit :: visit where
  "denied_visit = \<lparr>vi_fetch = Inr [\<lparr>ow_member = True, ow_id = ''ann'', ow_allow = [''ViewChannel''], ow_deny = [''SendMessages'']\<rparr>],
     vi_refresh = None, vi_edit = None\<rparr>"

text \<open>The library's edit, as its law has it.\<close>

definition whole_entry :: "overwrite option \<Rightarrow> patch \<Rightarrow> string list \<times> string list" where
  "whole_entry own p =
     (map fst (filter (\<lambda>(b, x). x = Some True \<and> map_of p b = Some (Some True)) p) @ filter (\<lambda>b. map_of p b = None) (cached_allow own),
      map fst (filter (\<lambda>(b, x). x = Some False \<and> map_of p b = Some (Some False)) p) @ filter (\<lambda>b. map_of p b = None) (cached_deny own))"

lemma whole_entry_rebuilds: "rebuilds_whole whole_entry"
proof -
  have "b \<in> fst ` {(a, x). (a, x) \<in> set p \<and> x = Some t \<and> map_of p a = Some (Some t)} \<longleftrightarrow> map_of p b = Some (Some t)"
    for b t and p :: patch
    using map_of_SomeD [of p b "Some t"] by force
  then show ?thesis
    by (auto simp: rebuilds_whole_def whole_entry_def case_prod_unfold image_iff split: option.splits dest: map_of_SomeD)
qed

text \<open>A channel where the cache shows another bit allowed and another denied for the member.\<close>

definition marked_visit :: visit where
  "marked_visit = \<lparr>vi_fetch = Inr [\<lparr>ow_member = True, ow_id = ''ann'', ow_allow = [''AddReactions''], ow_deny = [''Connect'']\<rparr>],
     vi_refresh = None, vi_edit = None\<rparr>"

theorem apply_writes_only_grants_witness:
  "\<exists>q. applyAccess True (\<lambda>_ _. marked_visit) ''ann'' demo_discord = ([q], Apply_done) \<and>
    set (fst (wire whole_entry q)) = {''AddReactions'', ''ViewChannel'', ''SendMessages'', ''ReadMessageHistory''} \<and>
    set (snd (wire whole_entry q)) = {''Connect''} \<and> granted_at ''ann'' (\<lambda>_ _. marked_visit) [''c1''] [q] 0"
proof -
  let ?own = "\<lparr>ow_member = True, ow_id = ''ann'', ow_allow = [''AddReactions''], ow_deny = [''Connect'']\<rparr>"
  have run: "applyAccess True (\<lambda>_ _. marked_visit) ''ann'' demo_discord = ([(''c1'', Some ?own, ACCESS)], Apply_done)"
    by code_simp
  show ?thesis
    using apply_writes_only_grants [OF run whole_entry_rebuilds] run
    by (intro exI [of _ "(''c1'', Some ?own, ACCESS)"])
      (auto simp: demo_discord_def channels_of_def cached_allow_def cached_deny_def MANAGED_BITS_def)
qed

theorem refusal_sends_nothing_witness:
  "applyAccess True (\<lambda>_ _. denied_visit) ''ann'' demo_discord = ([], Apply_error False False [''c1''])"
proof -
  have "snd (applyAccess True (\<lambda>_ _. denied_visit) ''ann'' demo_discord) = Apply_error False False [''c1'']"
    by code_simp
  then obtain qs where run: "applyAccess True (\<lambda>_ _. denied_visit) ''ann'' demo_discord = (qs, Apply_error False False [''c1''])"
    by (metis prod.collapse)
  have "qs = []"
    using refusal_sends_nothing [OF run] by (simp add: outcome_of_def denied_visit_def)
  then show ?thesis
    using run by simp
qed

theorem revoke_takes_everything_back_witness:
  "\<exists>q. revokeAccess ''g'' True (\<lambda>_. denied_visit) ''ann'' demo_discord = ([q], Revoke_done) \<and>
    set (fst (wire whole_entry q)) = {} \<and> set (snd (wire whole_entry q)) = {''SendMessages''} \<and>
    cleared_at ''ann'' denied_visit ''c1'' [q]"
proof -
  let ?own = "\<lparr>ow_member = True, ow_id = ''ann'', ow_allow = [''ViewChannel''], ow_deny = [''SendMessages'']\<rparr>"
  have run: "revokeAccess ''g'' True (\<lambda>_. denied_visit) ''ann'' demo_discord = ([(''c1'', Some ?own, [(''ViewChannel'', None)])], Revoke_done)"
    by code_simp
  show ?thesis
    using revoke_takes_everything_back [OF run whole_entry_rebuilds] run
    by (intro exI [of _ "(''c1'', Some ?own, [(''ViewChannel'', None)])"])
      (auto simp: demo_discord_def channels_of_def cached_allow_def cached_deny_def MANAGED_BITS_def)
qed

theorem repair_is_confined_witness:
  "no_denial_seen ''ann'' clean_visit \<and>
    fst (repairAccess \<lparr>rc_guildId = ''g'', rc_managed = Some [''c1''], rc_contextHash = Some ''h''\<rparr> 5 True (\<lambda>_. clean_visit) ''ann'' demo_discord)
      = [(''c1'', None, ACCESS)]"
proof -
  have run: "repairAccess \<lparr>rc_guildId = ''g'', rc_managed = Some [''c1''], rc_contextHash = Some ''h''\<rparr> 5 True (\<lambda>_. clean_visit) ''ann'' demo_discord
      = ([(''c1'', None, ACCESS)], [''c1''])"
    by code_simp
  show ?thesis
    using repair_is_confined [OF run, of "(''c1'', None, ACCESS)"] run by simp
qed

end
