(* ===== verification/Discord_Retire.thy ===== *)
theory Discord_Retire
  imports Discord_Access
begin

section \<open>Targets, retirements and the decommission pass (adapters/discord/decommission.js)\<close>

text \<open>
  The text form of a target and its round trip, what an offline retirement forgets of a record, and the
  whole decommission pass: it takes access back on Discord first and then stops tracking exactly what
  came back.
\<close>

subsection \<open>The text form of a target\<close>

definition plain_id :: "string \<Rightarrow> bool" where
  "plain_id i \<longleftrightarrow> i \<noteq> [] \<and> CHR '':'' \<notin> set i \<and> CHR '','' \<notin> set i \<and> \<not> js_space (hd i) \<and> \<not> js_space (last i)"

text \<open>A target's key reads back as the target: its ids as a sorted set.\<close>

lemma target_key_roundtrip:
  assumes "mode = ''channel'' \<or> mode = ''role'' \<and> card (set ids) = 1" "ids \<noteq> []" "\<forall>i\<in>set ids. plain_id i"
  shows "parseTargetKey (targetKey mode ids) = Inr (mode, sort (js_uniq ids))"
proof -
  let ?ids = "sort (js_uniq ids)"
  have nonblank: "filter (\<lambda>i. i \<noteq> []) ids = ids"
    using assms(3) by (auto simp: plain_id_def filter_id_conv)
  have ids: "?ids \<noteq> []" "set ?ids = set ids" "distinct ?ids"
    using assms(2) by (simp_all add: set_empty [symmetric] del: set_empty)
  have "CHR '':'' \<notin> set (js_join '','' ?ids)"
    using set_js_join [of "CHR '',''" ?ids] assms(3) ids(2) by (auto simp: plain_id_def)
  moreover have "CHR '':'' \<notin> set mode"
    using assms(1) by auto
  ultimately have "js_split CHR '':'' (targetKey mode ids) = [mode, js_join '','' ?ids]"
    unfolding targetKey_def nonblank by (simp add: js_split_append js_split_none)
  moreover have "js_split CHR '','' (js_join '','' ?ids) = ?ids"
    using ids assms(3) by (intro js_split_join) (auto simp: plain_id_def)
  moreover have "map js_trim ?ids = ?ids"
    using ids(2) assms(3) by (intro map_idI js_trim_id) (auto simp: plain_id_def)
  moreover have "[] \<notin> set ?ids"
    using ids(2) assms(3) by (auto simp: plain_id_def)
  moreover have "length ?ids = card (set ids)"
    using distinct_card [OF ids(3)] ids(2) by simp
  ultimately show ?thesis
    using assms(1) ids by (auto simp: parseTargetKey_def Let_def)
qed

theorem target_key_roundtrip_witness:
  "parseTargetKey (targetKey ''channel'' [''22'', ''11'', ''22'']) = Inr (''channel'', [''11'', ''22''])"
proof -
  have "sort (js_uniq [''22'', ''11'', ''22'']) = [''11'', ''22'']"
    by code_simp
  then show ?thesis
    using target_key_roundtrip [of "''channel''" "[''22'', ''11'', ''22'']"] by (simp add: plain_id_def js_space_def)
qed

subsection \<open>What a retirement forgets\<close>

text \<open>A channel record after a channel retirement: the channels cleared here are gone, the rest stay.\<close>

lemma retire_channels:
  assumes "re_mode ra \<noteq> ''role''" "channel_mode r" "isValidRecord r"
  shows "case retireTargetTransform ra r u of
      None \<Rightarrow> \<not> not_ours_to_retire ra r \<and> set (channels_of r) \<subseteq> set (clearedHere ra u)
    | Some r' \<Rightarrow> channel_mode r' \<and> set (channels_of r') =
        (if not_ours_to_retire ra r then set (channels_of r) else set (channels_of r) - set (clearedHere ra u))"
proof -
  let ?c = "clearedHere ra u"
  let ?left = "filter (\<lambda>c. c \<notin> set ?c) (channels_of r)"
  have mode: "dr_mode r = Some ''channel''"
    using assms(2) by (simp add: channel_mode_def)
  show ?thesis
  proof (cases "not_ours_to_retire ra r \<or> ?c = [] \<or> length ?left = length (channels_of r)")
    case True
    then have keeps: "retireTargetTransform ra r u = Some r"
      using assms(1) mode by (auto simp: retireTargetTransform_def Let_def)
    have "set (channels_of r) - set ?c = set (channels_of r)" if "\<not> not_ours_to_retire ra r"
    proof (cases "?c = []")
      case False
      then have "length ?left = length (channels_of r)"
        using True that by blast
      then have "filter (\<lambda>c. c \<notin> set ?c) (channels_of r) = channels_of r"
        by (metis filter_True length_filter_less less_irrefl)
      then show ?thesis
        by (metis set_filter set_diff_eq)
    qed simp
    then show ?thesis
      using keeps assms(2) by simp
  next
    case False
    then have t: "retireTargetTransform ra r u = (if ?left \<noteq> [] then Some (r\<lparr>dr_channels := Some ?left\<rparr>) else None)"
      using assms(1) mode unfolding retireTargetTransform_def Let_def by simp
    have left: "set ?left = set (channels_of r) - set ?c"
      by auto
    show ?thesis
    proof (cases "?left = []")
      case True
      then have "set (channels_of r) \<subseteq> set ?c"
        using left by auto
      then show ?thesis
        using t True False by simp
    next
      case nonempty: False
      have "channels_of (r\<lparr>dr_channels := Some ?left\<rparr>) = ?left" "channel_mode (r\<lparr>dr_channels := Some ?left\<rparr>)"
        using mode by (simp_all add: channels_of_def channel_mode_def)
      then show ?thesis
        unfolding t using nonempty False left by simp
    qed
  qed
qed

lemma retire_other_mode: "re_mode ra \<noteq> ''role'' \<Longrightarrow> \<not> channel_mode r \<Longrightarrow> retireTargetTransform ra r u = Some r"
  by (simp add: retireTargetTransform_def channel_mode_def)


subsection \<open>The decommission pass\<close>

text \<open>
  What Discord answers: for a role target whether the role exists, the channels scanned for its
  denials, the members and their removals; for channel targets one fetch per id and one visit per
  member overwrite found there.
\<close>

record decom_env =
  de_role :: "api_error + bool"
  de_scan :: "(string \<times> overwrite list) list option"
  de_members :: "(string \<times> bool) list option"
  de_remove :: "nat \<Rightarrow> (string \<times> overwrite list) list \<times> api_error option"
  de_fetch :: "nat \<Rightarrow> api_error + overwrite list"
  de_clear :: "nat \<Rightarrow> nat \<Rightarrow> visit"

record decom_run =
  dn_removed :: "string list"
  dn_failed :: "string list"
  dn_failedMembers :: "string list"
  dn_failedPairs :: "string list"
  dn_skipped :: "string list"

definition decom_start :: decom_run where
  "decom_start = \<lparr>dn_removed = [], dn_failed = [], dn_failedMembers = [], dn_failedPairs = [], dn_skipped = []\<rparr>"

datatype decom_throw =
    Ledger_unreadable gl_error
  | Nothing_names "string list"
  | Role_unread
  | Role_missing
  | Scan_failed
  | Role_inverts "(string \<times> string list) list"
  | Members_unread

fun decom_role_members ::
    "bool \<Rightarrow> string \<Rightarrow> (nat \<Rightarrow> (string \<times> overwrite list) list \<times> api_error option) \<Rightarrow> nat \<Rightarrow> string list \<Rightarrow> decom_run \<Rightarrow> decom_run" where
  "decom_role_members dry roleId ans i [] st = st"
| "decom_role_members dry roleId ans i (m # ms) st =
     decom_role_members dry roleId ans (Suc i) ms
       (if dry then st\<lparr>dn_removed := dn_removed st @ [m]\<rparr>
        else (case removeRole (fst (ans i)) roleId (snd (ans i)) of
            (_, None) \<Rightarrow> st\<lparr>dn_removed := dn_removed st @ [m]\<rparr>
          | (_, Some e) \<Rightarrow>
              if isGone e then st
              else st\<lparr>dn_failed := dn_failed st @ [m], dn_failedMembers := dn_failedMembers st @ [m]\<rparr>))"

definition decom_role :: "bool \<Rightarrow> bool \<Rightarrow> string \<Rightarrow> string \<Rightarrow> decom_env \<Rightarrow> decom_throw + decom_run" where
  "decom_role dry confirmGone botId roleId env =
     (let found = (case de_role env of Inl e \<Rightarrow> if isGone (Api e) then Some False else None | Inr b \<Rightarrow> Some b) in
      (case found of
         None \<Rightarrow> Inl Role_unread
       | Some False \<Rightarrow> if \<not> confirmGone then Inl Role_missing else Inr decom_start
       | Some True \<Rightarrow>
           (case de_scan env of
              None \<Rightarrow> Inl Scan_failed
            | Some chans \<Rightarrow>
                (case roleDenialsAcrossChannels chans roleId of
                   [] \<Rightarrow>
                     (case de_members env of
                        None \<Rightarrow> Inl Members_unread
                      | Some ms \<Rightarrow> Inr (decom_role_members dry roleId (de_remove env) 0
                          (map fst (filter (\<lambda>(m, has). has \<and> m \<noteq> botId) ms)) decom_start))
                 | os \<Rightarrow> Inl (Role_inverts os)))))"

fun decom_holders :: "bool \<Rightarrow> string \<Rightarrow> overwrite list \<Rightarrow> (nat \<Rightarrow> visit) \<Rightarrow> nat \<Rightarrow> overwrite list \<Rightarrow> decom_run \<Rightarrow> decom_run" where
  "decom_holders dry ch cache ans i [] st = st"
| "decom_holders dry ch cache ans i (ow # ows) st =
     decom_holders dry ch cache ans (Suc i) ows
       (if dry then st\<lparr>dn_removed := dn_removed st @ [pair_key ch (ow_id ow)]\<rparr>
        else (case snd (clearManagedAllows cache (ans i) (ow_id ow)) of
            Inr _ \<Rightarrow> st\<lparr>dn_removed := dn_removed st @ [pair_key ch (ow_id ow)]\<rparr>
          | Inl e \<Rightarrow>
              if isGone e then st
              else st\<lparr>dn_failed := dn_failed st @ [pair_key ch (ow_id ow)],
                      dn_failedPairs := dn_failedPairs st @ [pair_key ch (ow_id ow)]\<rparr>))"

definition decom_holders_of :: "string \<Rightarrow> overwrite list \<Rightarrow> overwrite list" where
  "decom_holders_of botId cache =
     filter (\<lambda>ow. mg_allow (managedState ow) \<noteq> []) (filter (\<lambda>ow. ow_member ow \<and> ow_id ow \<noteq> botId) cache)"

fun decom_channels :: "bool \<Rightarrow> bool \<Rightarrow> string \<Rightarrow> decom_env \<Rightarrow> nat \<Rightarrow> string list \<Rightarrow> decom_run \<Rightarrow> decom_run" where
  "decom_channels dry confirmGone botId env i [] st = st"
| "decom_channels dry confirmGone botId env i (ch # chs) st =
     decom_channels dry confirmGone botId env (Suc i) chs
       (case de_fetch env i of
          Inl e \<Rightarrow>
            if isGone (Api e) \<and> confirmGone then st
            else st\<lparr>dn_failed := dn_failed st @ [pair_key ch ''*''], dn_skipped := dn_skipped st @ [ch]\<rparr>
        | Inr cache \<Rightarrow> decom_holders dry ch cache (de_clear env i) 0 (decom_holders_of botId cache) st)"

text \<open>The whole command. \<open>lg\<close> is the ledger it was given, if any; without one the retirement throws
  inside its own guard and is reported as a failure.\<close>

record decom_call =
  dc_guild :: string
  dc_mode :: string
  dc_ids :: "string list"
  dc_dryRun :: bool
  dc_confirmGone :: bool
  dc_botId :: string

definition named_in_ledger :: "string \<Rightarrow> string option \<Rightarrow> discord_rec list \<Rightarrow> string \<Rightarrow> bool" where
  "named_in_ledger guild boundScope records i =
     list_ex (\<lambda>r. if dr_mode r = Some ''role'' then dr_roleId r = Some i else i \<in> set (channels_of r))
       (filter (\<lambda>r. recordHomeGuild r boundScope (Some guild) = Some guild) records)"

definition decom_retirement :: "decom_call \<Rightarrow> string option \<Rightarrow> decom_run \<Rightarrow> retirement" where
  "decom_retirement c boundScope st = \<lparr>re_mode = dc_mode c, re_ids = dc_ids c, re_currentGuild = Some (dc_guild c),
     re_boundScope = boundScope, re_failedMembers = dn_failedMembers st, re_failedPairs = dn_failedPairs st,
     re_skippedChannels = dn_skipped st\<rparr>"

definition confirm_check :: "decom_call \<Rightarrow> discord_rec gl_db option \<Rightarrow> decom_throw option" where
  "confirm_check c lg =
     (if \<not> (dc_confirmGone c \<and> \<not> dc_dryRun c) then None
      else (case (case lg of None \<Rightarrow> Inr [] | Some db \<Rightarrow> all_records discord_config db) of
          Inl e \<Rightarrow> if dc_ids c = [] then None else Some (Ledger_unreadable e)
        | Inr records \<Rightarrow>
            (case filter (\<lambda>i. \<not> named_in_ledger (dc_guild c) (case lg of None \<Rightarrow> None | Some db \<Rightarrow> db_scope db) records i) (dc_ids c) of
               [] \<Rightarrow> None
             | missing \<Rightarrow> Some (Nothing_names missing))))"

definition decom_pass :: "decom_call \<Rightarrow> decom_env \<Rightarrow> decom_throw + decom_run" where
  "decom_pass c env =
     (if dc_mode c = ''role'' then decom_role (dc_dryRun c) (dc_confirmGone c) (dc_botId c) (hd (dc_ids c)) env
      else Inr (decom_channels (dc_dryRun c) (dc_confirmGone c) (dc_botId c) env 0 (dc_ids c) decom_start))"

definition runDecommission ::
    "decom_call \<Rightarrow> decom_env \<Rightarrow> discord_rec gl_db option \<Rightarrow>
     discord_rec gl_db option \<times> (decom_throw + string list \<times> string list)" where
  "runDecommission c env lg =
     (case confirm_check c lg of
        Some e \<Rightarrow> (lg, Inl e)
      | None \<Rightarrow>
          (case decom_pass c env of
             Inl e \<Rightarrow> (lg, Inl e)
           | Inr st \<Rightarrow>
               if dc_dryRun c then (lg, Inr (dn_removed st, dn_failed st))
               else (case lg of
                   None \<Rightarrow> (None, Inr (dn_removed st, dn_failed st @ [''the ledger'']))
                 | Some db \<Rightarrow>
                     (case retireAll discord_config (retireTargetTransform (decom_retirement c (db_scope db) st)) db of
                        (db', Inr _) \<Rightarrow> (Some db', Inr (dn_removed st, dn_failed st))
                      | (db', Inl _) \<Rightarrow> (Some db', Inr (dn_removed st, dn_failed st @ [''the ledger'']))))))"

subsection \<open>What the pass retires\<close>

text \<open>What Discord answered, for one member's entry and for one visit to a channel: nothing managed was
  allowed, the reset was accepted, or what it was about is absent.\<close>

definition entry_came_back :: "overwrite list \<Rightarrow> visit \<Rightarrow> string \<Rightarrow> bool" where
  "entry_came_back cache v u \<longleftrightarrow>
     retainedManagedAllows (refreshed cache v) u = [] \<or> (case vi_edit v of None \<Rightarrow> True | Some a \<Rightarrow> absent a)"

definition came_back :: "bool \<Rightarrow> string \<Rightarrow> decom_env \<Rightarrow> nat \<Rightarrow> string \<Rightarrow> bool" where
  "came_back confirmGone botId env i u \<longleftrightarrow>
     (case de_fetch env i of
        Inl e \<Rightarrow> absent e \<and> confirmGone
      | Inr cache \<Rightarrow> \<forall>k < length (decom_holders_of botId cache). ow_id (decom_holders_of botId cache ! k) = u \<longrightarrow>
          entry_came_back cache (de_clear env i k) u)"

lemma clear_answer: "(case snd (clearManagedAllows cache v u) of Inr _ \<Rightarrow> True | Inl e \<Rightarrow> isGone e) = entry_came_back cache v u"
  by (auto simp: clearManagedAllows_def entry_came_back_def Let_def isGone_absent split: option.splits)

lemma decom_holders_notes:
  "set (dn_failedPairs st) \<subseteq> set (dn_failedPairs (decom_holders False ch cache ans i ows st)) \<and>
   dn_skipped (decom_holders False ch cache ans i ows st) = dn_skipped st \<and>
   (\<forall>k < length ows. pair_key ch (ow_id (ows ! k)) \<in> set (dn_failedPairs (decom_holders False ch cache ans i ows st)) \<or>
     entry_came_back cache (ans (i + k)) (ow_id (ows ! k)))"
proof (induction ows arbitrary: i st)
  case (Cons ow ows)
  let ?st = "case snd (clearManagedAllows cache (ans i) (ow_id ow)) of
      Inr _ \<Rightarrow> st\<lparr>dn_removed := dn_removed st @ [pair_key ch (ow_id ow)]\<rparr>
    | Inl e \<Rightarrow> if isGone e then st
        else st\<lparr>dn_failed := dn_failed st @ [pair_key ch (ow_id ow)],
                dn_failedPairs := dn_failedPairs st @ [pair_key ch (ow_id ow)]\<rparr>"
  have run: "decom_holders False ch cache ans i (ow # ows) st = decom_holders False ch cache ans (Suc i) ows ?st"
    by simp
  have here: "set (dn_failedPairs st) \<subseteq> set (dn_failedPairs ?st)" "dn_skipped ?st = dn_skipped st"
    "pair_key ch (ow_id ow) \<in> set (dn_failedPairs ?st) \<or>
     entry_came_back cache (ans i) (ow_id ow)"
    unfolding clear_answer [symmetric] by (auto split: sum.splits)
  note ih = Cons.IH [of ?st "Suc i"]
  have "pair_key ch (ow_id ((ow # ows) ! k)) \<in> set (dn_failedPairs (decom_holders False ch cache ans (Suc i) ows ?st)) \<or>
      entry_came_back cache (ans (i + k)) (ow_id ((ow # ows) ! k))"
    if "k < length (ow # ows)" for k
    using here(3) ih that by (cases k) (auto simp del: decom_holders.simps)
  then show ?case
    unfolding run using ih here(1,2) by (auto simp del: decom_holders.simps)
qed simp

lemma decom_channels_notes:
  "set (dn_failedPairs st) \<subseteq> set (dn_failedPairs (decom_channels False confirmGone botId env i chs st)) \<and>
   set (dn_skipped st) \<subseteq> set (dn_skipped (decom_channels False confirmGone botId env i chs st)) \<and>
   (\<forall>j < length chs. chs ! j \<notin> set (dn_skipped (decom_channels False confirmGone botId env i chs st)) \<longrightarrow>
     pair_key (chs ! j) u \<notin> set (dn_failedPairs (decom_channels False confirmGone botId env i chs st)) \<longrightarrow>
     came_back confirmGone botId env (i + j) u)"
proof (induction chs arbitrary: i st)
  case (Cons ch chs)
  let ?st = "case de_fetch env i of
      Inl e \<Rightarrow> if isGone (Api e) \<and> confirmGone then st
        else st\<lparr>dn_failed := dn_failed st @ [pair_key ch ''*''], dn_skipped := dn_skipped st @ [ch]\<rparr>
    | Inr cache \<Rightarrow> decom_holders False ch cache (de_clear env i) 0 (decom_holders_of botId cache) st"
  have run: "decom_channels False confirmGone botId env i (ch # chs) st = decom_channels False confirmGone botId env (Suc i) chs ?st"
    by simp
  have here: "set (dn_failedPairs st) \<subseteq> set (dn_failedPairs ?st) \<and> set (dn_skipped st) \<subseteq> set (dn_skipped ?st) \<and>
      (ch \<notin> set (dn_skipped ?st) \<longrightarrow> pair_key ch u \<notin> set (dn_failedPairs ?st) \<longrightarrow> came_back confirmGone botId env i u)"
  proof (cases "de_fetch env i")
    case (Inl e)
    then show ?thesis
      by (auto simp: came_back_def isGone_absent)
  next
    case (Inr cache)
    note n = decom_holders_notes [of st ch cache "de_clear env i" 0 "decom_holders_of botId cache"]
    have "came_back confirmGone botId env i u" if "pair_key ch u \<notin> set (dn_failedPairs ?st)"
      using that n [THEN conjunct2, THEN conjunct2] Inr by (auto simp: came_back_def simp del: decom_holders.simps)
    then show ?thesis
      using n Inr by simp
  qed
  note ih = Cons.IH [of ?st "Suc i"]
  have "came_back confirmGone botId env (i + j) u"
    if "j < length (ch # chs)" "(ch # chs) ! j \<notin> set (dn_skipped (decom_channels False confirmGone botId env (Suc i) chs ?st))"
      "pair_key ((ch # chs) ! j) u \<notin> set (dn_failedPairs (decom_channels False confirmGone botId env (Suc i) chs ?st))" for j
  proof (cases j)
    case 0
    then show ?thesis
      using here ih that(2,3) by (simp del: decom_channels.simps) blast
  next
    case (Suc k)
    then show ?thesis
      using ih [THEN conjunct2, THEN conjunct2, rule_format, of k] that by (simp del: decom_channels.simps)
  qed
  then show ?case
    unfolding run using ih here by (meson subset_trans)
qed simp

text \<open>A decommission stops tracking only what came back. When the pass over channel targets ends and
  a member's row no longer names a channel it named before, then the row belonged to this guild, the
  channel is one of the targets, and for each time the pass visited it either the channel was confirmed
  gone, or every overwrite it found there that allowed this member something managed was reset and the
  answer was not a failure.\<close>

lemma decommission_forgets_what_came_back:
  assumes "runDecommission c env (Some db) = (lg, Inr (removed, failed))" "\<not> dc_dryRun c" "dc_mode c \<noteq> ''role''"
    and "jm_wf (db_rows db)" "gl_get discord_config u db = Inr (Some r)" "channel_mode r" "x \<in> set (channels_of r)"
    and "\<not> (\<exists>db' r'. lg = Some db' \<and> gl_get discord_config u db' = Inr (Some r') \<and> x \<in> set (channels_of r'))"
  shows "recordHomeGuild r (db_scope db) (Some (dc_guild c)) \<in> {None, Some (dc_guild c)} \<and> x \<in> set (dc_ids c) \<and>
    (\<forall>i < length (dc_ids c). dc_ids c ! i = x \<longrightarrow> came_back (dc_confirmGone c) (dc_botId c) env i u)"
proof -
  let ?st = "decom_channels False (dc_confirmGone c) (dc_botId c) env 0 (dc_ids c) decom_start"
  let ?ra = "decom_retirement c (db_scope db) ?st"
  let ?f = "retireTargetTransform ?ra"
  have pass: "decom_pass c env = Inr ?st"
    using assms(2,3) by (simp add: decom_pass_def)
  have lg: "lg = Some (fst (retireAll discord_config ?f db))"
    using assms(1,2) unfolding runDecommission_def pass
    by (auto simp: case_prod_beta split: option.splits sum.splits)
  obtain rv where rv: "row_is u r rv db"
    using gl_get_row [OF assms(5)] by blast
  have valid: "isValidRecord r"
    using assms(5) by (auto simp: gl_get_def rowWithRev_def parse_record_Inr bindE_Inr discord_config_def split: option.splits)
  obtain db' n where rows: "retire_rows discord_config ?f (db_rows db) 0 0 db = Inr (db', n)" "lg = Some db'"
  proof (cases "retire_rows discord_config ?f (db_rows db) 0 0 db")
    case (Inl e)
    then have "lg = Some db"
      unfolding lg by (simp add: retireAll_def)
    then show thesis
      using assms(5,7,8) by blast
  next
    case (Inr y)
    then show thesis
      using that unfolding lg by (cases y) (auto simp: retireAll_def)
  qed
  obtain row where row: "jm_get (db_rows db) u = Some row" "gr_record row = Some r"
    using rv by (auto simp: row_is_def)
  have "retired_to discord_config ?f u row (jm_get (db_rows db') u)"
  proof -
    obtain c' d' where n: "n = (c', d')"
      by fastforce
    have "jm_get (db_rows db) v = Some row'" if "(v, row') \<in> set (db_rows db)" for v row'
      using that jm_wf_get_iff [OF assms(4)] by blast
    from retire_rows_spec [OF rows(1) [unfolded n] assms(4) this] jm_get_in_set [OF row(1)] show ?thesis
      by blast
  qed
  then have left: "case ?f r u of None \<Rightarrow> True | Some r' \<Rightarrow> x \<notin> set (channels_of r')"
    using row(2) assms(8) rows(2)
    by (auto simp: retired_to_def parse_record_Inr gl_get_def rowWithRev_def parse_record_def split: option.splits if_splits)
  have cleared: "\<not> not_ours_to_retire ?ra r \<and> x \<in> set (clearedHere ?ra u)"
    using retire_channels [of ?ra r u] assms(3,6,7) valid left
    by (auto simp: decom_retirement_def split: option.splits if_splits)
  show ?thesis
    using cleared decom_channels_notes [of decom_start "dc_confirmGone c" "dc_botId c" env 0 "dc_ids c" u]
    by (auto simp: clearedHere_def not_ours_to_retire_def decom_retirement_def split: option.splits)
qed

subsection \<open>The ledger and the platform at concrete inputs\<close>



definition demo_granting :: "(discord_rec, string) gl_sys" where
  "demo_granting = settle ''ann'' (grant_begin discord_config 1 True ''ann'' demo_discord new_db) (at_rest new_db)"



lemma demo_granting_begin:
  "snd (grant_begin discord_config 1 True ''ann'' demo_discord new_db) = Waits (Applying demo_discord None 1)"
  by code_simp


lemma demo_granted_row: "gl_get discord_config ''ann'' (gs_db demo_granting) = Inr (Some demo_discord)"
proof -
  have "gl_get discord_config ''ann'' (fst (grant_begin discord_config 1 True ''ann'' demo_discord new_db)) = Inr (Some demo_discord)"
    by code_simp
  then show ?thesis
    by (simp add: demo_granting_def settle_def)
qed

text \<open>The same grant with its answer lost and then refused.\<close>

definition demo_lost_discord :: "(discord_rec, string) gl_sys" where
  "demo_lost_discord = settle ''ann'' (grant_applied discord_config Apply_unsent ''ann'' demo_discord None 1 (gs_db demo_granting))
     (lose Apply_unsent None ''ann'' (appear ''ann'' {''c1''} demo_granting))"


text \<open>The lost answer does leave a channel live that no row names.\<close>

lemma lost_answer_is_live:
  "gl_step discord_config (\<lambda>r. set (channels_of r)) channel_mode False (appear ''ann'' {''c1''} demo_granting) demo_lost_discord \<and>
    ''c1'' \<in> gs_live demo_lost_discord ''ann'' \<and> ''c1'' \<in> gs_lost demo_lost_discord ''ann'' \<and>
    \<not> (\<exists>r rv. row_is ''ann'' r rv (gs_db demo_lost_discord))"
proof -
  let ?a = "appear ''ann'' {''c1''} demo_granting"
  have op: "gs_op ?a ''ann'' = Applying demo_discord None 1" "gs_db ?a = gs_db demo_granting" "gs_sent ?a ''ann''"
      "''c1'' \<in> gs_live ?a ''ann''"
    by (simp_all add: appear_def demo_granting_def demo_granting_begin settle_def)
  have "row_is ''ann'' demo_discord 1 (gs_db demo_granting)"
  proof -
    have "rowWithRev discord_config ''ann'' (fst (grant_begin discord_config 1 True ''ann'' demo_discord new_db)) = Inr (Some (demo_discord, 1))"
      by code_simp
    then show ?thesis
      using rowWithRev_row by (simp add: demo_granting_def settle_def)
  qed
  then have "\<not> (\<exists>r rv. row_is ''ann'' r rv (gs_db demo_lost_discord))"
    by (simp add: demo_lost_discord_def settle_def grant_applied_def del_row_gone)
  moreover have "gl_step discord_config (\<lambda>r. set (channels_of r)) channel_mode False ?a demo_lost_discord"
    using gs_applied [OF op(1), where outcome = Apply_unsent and cfg = discord_config and resets = False
        and targets = "\<lambda>r. set (channels_of r)" and ours = channel_mode] op(2)
    by (simp add: demo_lost_discord_def discord_config_def)
  ultimately show ?thesis
    using op(3,4) by (simp add: demo_lost_discord_def settle_def lose_def)
qed

definition gone_env :: decom_env where
  "gone_env = \<lparr>de_role = Inr False, de_scan = None, de_members = None, de_remove = (\<lambda>_. ([], None)),
     de_fetch = (\<lambda>_. Inl \<lparr>ae_status = Some 404, ae_code = No_code\<rparr>), de_clear = (\<lambda>_ _. clean_visit)\<rparr>"

definition gone_call :: decom_call where
  "gone_call = \<lparr>dc_guild = ''g'', dc_mode = ''channel'', dc_ids = [''c1''], dc_dryRun = False, dc_confirmGone = True, dc_botId = ''me''\<rparr>"

theorem decommission_forgets_what_came_back_witness: "came_back True ''me'' gone_env 0 ''ann''"
proof -
  let ?db = "fst (grant_begin discord_config 1 True ''ann'' demo_discord new_db)"
  have "runDecommission gone_call gone_env (Some ?db) = (fst (runDecommission gone_call gone_env (Some ?db)), Inr ([], []))"
    by code_simp
  moreover have "fst (runDecommission gone_call gone_env (Some ?db)) = Some (fst (retireAll discord_config (\<lambda>_ _. None) ?db))"
    by code_simp
  moreover have "gl_get discord_config ''ann'' (fst (retireAll discord_config (\<lambda>_ _. None) ?db)) = Inr None"
    by code_simp
  ultimately have run: "runDecommission gone_call gone_env (Some ?db) = (Some (fst (retireAll discord_config (\<lambda>_ _. None) ?db)), Inr ([], []))"
    and lost: "gl_get discord_config ''ann'' (fst (retireAll discord_config (\<lambda>_ _. None) ?db)) = Inr None"
    by simp_all
  have "jm_wf (db_rows ?db)" "gl_get discord_config ''ann'' ?db = Inr (Some demo_discord)"
    by code_simp+
  then show ?thesis
    using decommission_forgets_what_came_back [OF run, of "''ann''" demo_discord "''c1''"] lost
    by (simp add: gone_call_def demo_discord_def channel_mode_def channels_of_def)
qed



end
