(* ===== verification/Discord_Bot.thy ===== *)
theory Discord_Bot
  imports Discord_Retire
begin

section \<open>The Discord bot's passes over its guild (adapters/discord/bot.js)\<close>















subsection \<open>The repair pass\<close>

fun repair_members ::
    "repair_config \<Rightarrow> int \<Rightarrow> (nat \<Rightarrow> nat \<Rightarrow> visit) \<Rightarrow> nat \<Rightarrow> string list \<Rightarrow> discord_rec gl_db \<Rightarrow>
     discord_rec gl_db \<times> (string \<times> edit_request) list \<times> nat" where
  "repair_members rc now env i [] db = (db, [], 0)"
| "repair_members rc now env i (u # us) db =
     (case admit_begin discord_config now (\<lambda>_. True) u db of
        (db, Waits (Admitting r)) \<Rightarrow>
          (case repairAccess rc now True (env i) u r of
             (qs, fixed) \<Rightarrow> (case repair_members rc now env (Suc i) us db of
               (db, qs', n) \<Rightarrow> (db, map (\<lambda>q. (u, q)) qs @ qs', length fixed + n)))
      | (db, _) \<Rightarrow> repair_members rc now env (Suc i) us db)"

definition repairLiveGrants ::
    "repair_config \<Rightarrow> int \<Rightarrow> (nat \<Rightarrow> nat \<Rightarrow> visit) \<Rightarrow> discord_rec gl_db \<Rightarrow>
     discord_rec gl_db \<times> (gl_error + (string \<times> edit_request) list \<times> nat)" where
  "repairLiveGrants rc now env db =
     (case entries discord_config db of
        Inl e \<Rightarrow> (db, Inl e)
      | Inr es \<Rightarrow> (case repair_members rc now env 0 (map fst es) db of (db, res) \<Rightarrow> (db, Inr res)))"

subsection \<open>What the member is told after a failed grant\<close>

datatype grant_reply = Told_excluded | Told_partly_refused bool | Told_will_be_repaired

definition failed_grant_reply :: "bool option \<Rightarrow> string list \<Rightarrow> bool \<Rightarrow> grant_reply" where
  "failed_grant_reply mutated refusedChannels applied =
     (if mutated = Some False then Told_excluded
      else if refusedChannels \<noteq> [] then Told_partly_refused applied
      else Told_will_be_repaired)"

subsection \<open>The startup pass leaves nothing unauthorized\<close>












subsection \<open>The repair pass acts on live rows only\<close>

definition repaired_from_row :: "repair_config \<Rightarrow> int \<Rightarrow> discord_rec gl_db \<Rightarrow> string \<Rightarrow> edit_request \<Rightarrow> bool" where
  "repaired_from_row rc now db u q \<longleftrightarrow> snd (snd q) = ACCESS \<and> (\<exists>r rv. row_is u r rv db \<and> fst q \<in> set (channels_of r) \<and>
     now < deadline (dr_expiresAt r) \<and> (\<forall>h. rc_contextHash rc = Some h \<longrightarrow> or_blank (dr_contextHash r) = h))"

lemma repair_members_rows:
  "repair_members rc now env i us db = (db', qs, n) \<Longrightarrow>
    db_rows db' = db_rows db \<and> (\<forall>x\<in>set qs. repaired_from_row rc now db (fst x) (snd x))"
proof (induction us arbitrary: i db qs n)
  case (Cons u us)
  obtain db1 ph where a: "admit_begin discord_config now (\<lambda>_. True) u db = (db1, ph)"
    by fastforce
  have rows: "db_rows db1 = db_rows db"
    using a by (auto simp: admit_begin_def Let_def case_prod_beta split: sum.splits option.splits if_splits)
  have same: "repaired_from_row rc now db1 v q = repaired_from_row rc now db v q" for v q
    by (simp add: repaired_from_row_def row_is_def rows)
  consider (waits) r where "ph = Waits (Admitting r)"
    | (other) "repair_members rc now env i (u # us) db = repair_members rc now env (Suc i) us db1"
  proof (cases "\<exists>r. ph = Waits (Admitting r)")
    case False
    then have "repair_members rc now env i (u # us) db = repair_members rc now env (Suc i) us db1"
    proof (cases ph)
      case (Waits w)
      then show ?thesis
        using a False by (cases w) simp_all
    qed (use a in simp)
    then show thesis
      by (rule that(2))
  qed (use that(1) in blast)
  then show ?case
  proof cases
    case waits
    then have "gl_get discord_config u (fst (observeClock now db)) = Inr (Some r)"
      using a by (auto simp: admit_begin_def Let_def case_prod_beta split: sum.splits option.splits if_splits)
    then obtain rv where row: "row_is u r rv db"
      using gl_get_row by fastforce
    obtain ps fixed where r: "repairAccess rc now True (env i) u r = (ps, fixed)"
      by fastforce
    obtain qs' m where rest: "repair_members rc now env (Suc i) us db1 = (db', qs', m)" "qs = map (\<lambda>q. (u, q)) ps @ qs'"
      using Cons.prems a waits r by (auto split: prod.splits)
    have "repaired_from_row rc now db u q" if "q \<in> set ps" for q
      using repair_confined [OF r that] row unfolding repaired_from_row_def by blast
    then show ?thesis
      using Cons.IH [OF rest(1)] rows unfolding rest(2) same by auto
  next
    case other
    then show ?thesis
      using Cons.IH [of "Suc i" db1 qs n] Cons.prems rows unfolding same by simp
  qed
qed simp

text \<open>The repair pass grants nobody anything new: it sends only the managed permissions, for members
  whose row, at that moment, named the channel, an unexpired deadline and this proof context; and it leaves
  every row as it was.\<close>

lemma repair_pass_follows_the_rows:
  assumes "repairLiveGrants rc now env db = (db', Inr (qs, n))" "(u, q) \<in> set qs"
  shows "db_rows db' = db_rows db \<and> repaired_from_row rc now db u q"
proof -
  obtain us where "repair_members rc now env 0 us db = (db', qs, n)"
    using assms(1) by (auto simp: repairLiveGrants_def split: sum.splits prod.splits)
  from repair_members_rows [OF this] assms(2) show ?thesis
    by (auto dest: bspec)
qed

subsection \<open>The passes at concrete inputs\<close>





theorem repair_pass_follows_the_rows_witness:
  "repaired_from_row \<lparr>rc_guildId = ''g'', rc_managed = Some [''c1''], rc_contextHash = Some ''h''\<rparr> 5
    (fst (grant_begin discord_config 1 True ''ann'' demo_discord new_db)) ''ann'' (''c1'', None, ACCESS)"
proof -
  let ?rc = "\<lparr>rc_guildId = ''g'', rc_managed = Some [''c1''], rc_contextHash = Some ''h''\<rparr>"
  let ?run = "repairLiveGrants ?rc 5 (\<lambda>_ _. clean_visit) (fst (grant_begin discord_config 1 True ''ann'' demo_discord new_db))"
  have "snd ?run = Inr ([(''ann'', (''c1'', None, ACCESS))], 1)"
    by code_simp
  then have "?run = (fst ?run, Inr ([(''ann'', (''c1'', None, ACCESS))], 1))"
    by (simp add: prod_eq_iff)
  from repair_pass_follows_the_rows [OF this, of "''ann''" "(''c1'', None, ACCESS)"] show ?thesis
    by simp
qed

end
