(* ===== verification/Octets.thy ===== *)
theory Octets
  imports Js_Strings "HOL-Library.Word"
begin

section \<open>Bytes, hexadecimal text and little-endian numbers\<close>

text \<open>
  A \<open>Buffer\<close> is a list of 8-bit words. Reading hexadecimal text is Node's: it stops at the first
  pair it cannot read and drops a lone last character. A digest function is an argument of whatever
  hashes.
\<close>

type_synonym octets = "8 word list"

definition hexDigit :: "char \<Rightarrow> nat option" where
  "hexDigit c = (let n = of_char c :: nat in
     if 48 \<le> n \<and> n \<le> 57 then Some (n - 48)
     else if 97 \<le> n \<and> n \<le> 102 then Some (n - 87)
     else if 65 \<le> n \<and> n \<le> 70 then Some (n - 55)
     else None)"

fun fromHex :: "string \<Rightarrow> octets" where
  "fromHex (a # b # s) =
     (case (hexDigit a, hexDigit b) of
        (Some x, Some y) \<Rightarrow> word_of_nat (16 * x + y) # fromHex s
      | _ \<Rightarrow> [])"
| "fromHex _ = []"

definition hexChar :: "nat \<Rightarrow> char" where
  "hexChar d = char_of (if d < 10 then 48 + d else 87 + d)"

definition toHex :: "octets \<Rightarrow> string" where
  "toHex bs = concat (map (\<lambda>b. [hexChar (unat b div 16), hexChar (unat b mod 16)]) bs)"

fun le_nat :: "octets \<Rightarrow> nat" where
  "le_nat [] = 0"
| "le_nat (b # bs) = unat b + 256 * le_nat bs"

fun le_bytes :: "nat \<Rightarrow> nat \<Rightarrow> octets" where
  "le_bytes 0 n = []"
| "le_bytes (Suc k) n = word_of_nat (n mod 256) # le_bytes k (n div 256)"

definition u16_be :: "nat \<Rightarrow> octets" where
  "u16_be n = rev (le_bytes 2 n)"

lemma unat_octet_less [simp]: "unat (b :: 8 word) < 256"
proof -
  have "(unsigned b :: nat) < 2 ^ LENGTH(8)"
    by (rule unsigned_less)
  then show ?thesis
    by simp
qed

lemma unat_octet [simp]: "n < 256 \<Longrightarrow> unat (word_of_nat n :: 8 word) = n"
  by (simp add: unat_of_nat)

lemma octet_unat [simp]: "word_of_nat (unat b) = (b :: 8 word)"
  by simp

lemma le_nat_less: "le_nat bs < 256 ^ length bs"
proof (induction bs)
  case (Cons b bs)
  then have "le_nat bs + 1 \<le> 256 ^ length bs"
    by simp
  then have "256 * (le_nat bs + 1) \<le> 256 * 256 ^ length bs"
    by (rule mult_le_mono2)
  then show ?case
    using unat_octet_less [of b] by (simp del: unat_octet_less)
qed simp

lemma length_le_bytes [simp]: "length (le_bytes k n) = k"
  by (induction k n rule: le_bytes.induct) simp_all

lemma le_nat_le_bytes: "n < 256 ^ k \<Longrightarrow> le_nat (le_bytes k n) = n"
proof (induction k n rule: le_bytes.induct)
  case (2 k n)
  then have "n div 256 < 256 ^ k"
    by (simp add: less_mult_imp_div_less)
  then show ?case
    using 2 by simp
qed simp

lemma le_bytes_le_nat [simp]: "le_bytes (length bs) (le_nat bs) = bs"
  by (induction bs) simp_all

lemma le_nat_inject: "length bs = length cs \<Longrightarrow> le_nat bs = le_nat cs \<Longrightarrow> bs = cs"
  by (metis le_bytes_le_nat)

lemma le_bytes_inject: "le_bytes k m = le_bytes k n \<Longrightarrow> m < 256 ^ k \<Longrightarrow> n < 256 ^ k \<Longrightarrow> m = n"
  by (metis le_nat_le_bytes)

lemma hexDigit_hexChar [simp]: "d < 16 \<Longrightarrow> hexDigit (hexChar d) = Some d"
  by (simp add: hexDigit_def hexChar_def Let_def)

lemma fromHex_toHex [simp]: "fromHex (toHex bs) = bs"
proof (induction bs)
  case (Cons b bs)
  have "unat b div 16 < 16" "unat b mod 16 < 16"
    using unat_octet_less [of b] by (simp_all add: less_mult_imp_div_less)
  then show ?case
    using Cons by (simp add: toHex_def)
qed (simp add: toHex_def)

lemma toHex_inject [simp]: "toHex a = toHex b \<longleftrightarrow> a = b"
  by (metis fromHex_toHex)

lemma length_toHex [simp]: "length (toHex bs) = 2 * length bs"
  by (induction bs) (simp_all add: toHex_def)

lemma length_u16_be [simp]: "length (u16_be n) = 2"
  by (simp add: u16_be_def)

lemma length_fromHex: "length s = 2 * n \<Longrightarrow> \<forall>c\<in>set s. hexDigit c \<noteq> None \<Longrightarrow> length (fromHex s) = n"
proof (induction s arbitrary: n rule: fromHex.induct)
  case (1 a b s)
  then obtain m x y where "n = Suc m" "hexDigit a = Some x" "hexDigit b = Some y"
    by (cases n) auto
  then show ?case
    using 1 by simp
qed auto

end
