(* ===== verification/Dml_Entries.thy ===== *)
theory Dml_Entries
  imports Octets
begin

section \<open>One masternode list entry as consensus hashes it (oracle/dml\_commitment.js)\<close>

text \<open>
  Fields of a list entry come from the node's JSON (\<open>jfield\<close>). Base58check decoding is the
  argument \<open>b58\<close>, which gives nothing when the library throws.
\<close>

subsection \<open>Services\<close>

datatype service_error =
    Malformed_v6 | Host_not_v6 | No_port | Unbracketed_v6 | Port_not_decimal | Port_out_of_range
  | Two_abbreviations | Bad_group string | Not_eight_groups | Abbreviates_nothing | Not_four_octets | Bad_octet string

definition decimal_port :: "string \<Rightarrow> bool" where
  "decimal_port s \<longleftrightarrow> s \<noteq> [] \<and> length s \<le> 5 \<and> list_all is_digit s"

definition split_service :: "string \<Rightarrow> service_error + bool \<times> string \<times> string" where
  "split_service s =
     (case s of
        c # body \<Rightarrow>
          if c = CHR ''['' then
            (let host = takeWhile (\<lambda>x. x \<noteq> CHR '']'') body; after = dropWhile (\<lambda>x. x \<noteq> CHR '']'') body in
             (case after of
                _ # colon # port \<Rightarrow>
                  if colon \<noteq> CHR '':'' then Inl Malformed_v6
                  else if CHR '':'' \<notin> set host then Inl Host_not_v6
                  else Inr (True, host, port)
              | _ \<Rightarrow> Inl Malformed_v6))
          else
            (let port = rev (takeWhile (\<lambda>x. x \<noteq> CHR '':'') (rev s)); before = dropWhile (\<lambda>x. x \<noteq> CHR '':'') (rev s) in
             if before = [] then Inl No_port
             else if CHR '':'' \<in> set (tl before) then Inl Unbracketed_v6
             else Inr (False, rev (tl before), port))
      | [] \<Rightarrow> Inl No_port)"

fun split_dc :: "string \<Rightarrow> string list" where
  "split_dc (a # b # s) =
     (if a = CHR '':'' \<and> b = CHR '':'' then [] # split_dc s
      else (case split_dc (b # s) of w # ws \<Rightarrow> (a # w) # ws | [] \<Rightarrow> [[a]]))"
| "split_dc s = [s]"

definition hex_group :: "string \<Rightarrow> bool" where
  "hex_group g \<longleftrightarrow> g \<noteq> [] \<and> length g \<le> 4 \<and> list_all (\<lambda>c. hexDigit c \<noteq> None) g"

definition hex_value :: "string \<Rightarrow> nat" where
  "hex_value g = foldl (\<lambda>n c. 16 * n + (case hexDigit c of None \<Rightarrow> 0 | Some d \<Rightarrow> d)) 0 g"

definition groupsOf :: "string \<Rightarrow> service_error + string list" where
  "groupsOf side =
     (if side = [] then Inr []
      else mapE (\<lambda>g. if hex_group g then Inr g else Inl (Bad_group g)) (js_split CHR '':'' side))"

definition v6_groups :: "string \<Rightarrow> service_error + string list" where
  "v6_groups host =
     (case split_dc host of
        [p] \<Rightarrow> bindE (groupsOf p) (\<lambda>h. if length h \<noteq> 8 then Inl Not_eight_groups else Inr h)
      | [p, q] \<Rightarrow>
          bindE (groupsOf p) (\<lambda>h. bindE (groupsOf q) (\<lambda>t.
            if length h + length t > 7 then Inl Abbreviates_nothing
            else Inr (h @ replicate (8 - length h - length t) ''0'' @ t)))
      | _ \<Rightarrow> Inl Two_abbreviations)"

definition v4_octet :: "string \<Rightarrow> bool" where
  "v4_octet t \<longleftrightarrow> (t = ''0'' \<or> t \<noteq> [] \<and> hd t \<noteq> CHR ''0'' \<and> length t \<le> 3 \<and> list_all is_digit t) \<and> nat_of_dec t \<le> 255"

definition v4_octets :: "string \<Rightarrow> service_error + octets" where
  "v4_octets host =
     (let parts = js_split CHR ''.'' host in
      if length parts \<noteq> 4 then Inl Not_four_octets
      else mapE (\<lambda>t. if v4_octet t then Inr (word_of_nat (nat_of_dec t)) else Inl (Bad_octet t)) parts)"

definition serviceBytes :: "string \<Rightarrow> service_error + octets" where
  "serviceBytes s =
     bindE (split_service s) (\<lambda>(isV6, host, portStr).
       if \<not> decimal_port portStr then Inl Port_not_decimal
       else if nat_of_dec portStr > 65535 then Inl Port_out_of_range
       else bindE (if isV6 then bindE (v6_groups host) (\<lambda>gs. Inr (concat (map (\<lambda>g. u16_be (hex_value g)) gs)))
                   else bindE (v4_octets host) (\<lambda>os. Inr (replicate 10 0 @ [255, 255] @ os)))
         (\<lambda>addr. Inr (addr @ u16_be (nat_of_dec portStr))))"

subsection \<open>The entry\<close>

record sml_entry =
  se_nVersion :: jfield
  se_proRegTxHash :: jfield
  se_confirmedHash :: jfield
  se_service :: jfield
  se_pubKeyOperator :: jfield
  se_votingAddress :: jfield
  se_isValid :: "bool option"
  se_nType :: jfield
  se_platformHTTPPort :: jfield
  se_platformNodeID :: jfield

datatype entry_error =
    Unknown_version jfield | Bad_hex string nat jfield | Not_boolean | Bad_service service_error
  | Bad_voting_address string | Unknown_type jfield | Not_u16 string jfield

definition js_text :: "jfield \<Rightarrow> string" where
  "js_text f = (case f of F_str s \<Rightarrow> s | F_int i \<Rightarrow> dec_of_int i | F_absent \<Rightarrow> ''undefined'' | F_other \<Rightarrow> ''[object Object]'')"

definition fixedHex :: "jfield \<Rightarrow> nat \<Rightarrow> string \<Rightarrow> entry_error + octets" where
  "fixedHex value n what =
     (case value of
        F_str s \<Rightarrow> if length s = n * 2 \<and> s \<noteq> [] \<and> list_all (\<lambda>c. hexDigit c \<noteq> None) s then Inr (fromHex s) else Inl (Bad_hex what n value)
      | _ \<Rightarrow> Inl (Bad_hex what n value))"

definition u16Exact :: "jfield \<Rightarrow> string \<Rightarrow> entry_error + octets" where
  "u16Exact value what =
     (case value of F_int i \<Rightarrow> if i < 0 \<or> i > 65535 then Inl (Not_u16 what value) else Inr (le_bytes 2 (nat i)) | _ \<Rightarrow> Inl (Not_u16 what value))"

definition votingKeyId :: "(string \<Rightarrow> octets option) \<Rightarrow> string \<Rightarrow> entry_error + octets" where
  "votingKeyId b58 address =
     (case b58 address of
        None \<Rightarrow> Inl (Bad_voting_address address)
      | Some decoded \<Rightarrow> if length decoded \<noteq> 21 then Inl (Bad_voting_address address) else Inr (tl decoded))"

definition KNOWN_ENTRY_VERSIONS :: "jfield list" where
  "KNOWN_ENTRY_VERSIONS = [F_int 1, F_int 2]"

definition KNOWN_ENTRY_TYPES :: "jfield list" where
  "KNOWN_ENTRY_TYPES = [F_int 0, F_int 1]"

definition entry_type_bytes :: "sml_entry \<Rightarrow> entry_error + octets" where
  "entry_type_bytes e =
     (if se_nVersion e \<noteq> F_int 2 then Inr []
      else if se_nType e \<notin> set KNOWN_ENTRY_TYPES then Inl (Unknown_type (se_nType e))
      else bindE (u16Exact (se_nType e) ''nType'') (\<lambda>ty.
        if se_nType e = F_int 1 then
          bindE (u16Exact (se_platformHTTPPort e) ''platformHTTPPort'') (\<lambda>port.
          bindE (fixedHex (se_platformNodeID e) 20 ''platformNodeID'') (\<lambda>node. Inr (ty @ port @ rev node)))
        else Inr ty))"

definition smlEntryBytes :: "(string \<Rightarrow> octets option) \<Rightarrow> sml_entry \<Rightarrow> entry_error + octets" where
  "smlEntryBytes b58 e =
     (if se_nVersion e \<notin> set KNOWN_ENTRY_VERSIONS then Inl (Unknown_version (se_nVersion e))
      else bindE (fixedHex (se_pubKeyOperator e) 48 ''operator public key'') (\<lambda>operator.
        (case se_isValid e of
           None \<Rightarrow> Inl Not_boolean
         | Some valid \<Rightarrow>
             bindE (fixedHex (se_proRegTxHash e) 32 ''proRegTxHash'') (\<lambda>proReg.
             bindE (fixedHex (se_confirmedHash e) 32 ''confirmedHash'') (\<lambda>confirmed.
             bindE (case serviceBytes (js_text (se_service e)) of Inl x \<Rightarrow> Inl (Bad_service x) | Inr b \<Rightarrow> Inr b) (\<lambda>service.
             bindE (votingKeyId b58 (js_text (se_votingAddress e))) (\<lambda>keyId.
             bindE (entry_type_bytes e) (\<lambda>kind.
               Inr (rev proReg @ rev confirmed @ service @ operator @ keyId @ [if valid then 1 else 0] @ kind)))))))))"

subsection \<open>Lengths\<close>

lemma length_mapE: "mapE f xs = Inr ys \<Longrightarrow> length ys = length xs"
  by (rule mapE_length)

lemma v6_groups_eight: "v6_groups host = Inr gs \<Longrightarrow> length gs = 8"
  by (auto simp: v6_groups_def bindE_Inr split: list.splits if_splits)

lemma length_u16_blocks: "length (concat (map (\<lambda>g. u16_be (f g)) gs)) = 2 * length gs"
  by (induction gs) simp_all

lemma v4_octets_four: "v4_octets host = Inr bs \<Longrightarrow> length bs = 4"
  using length_mapE by (fastforce simp: v4_octets_def Let_def split: if_splits)

lemma serviceBytes_length:
  assumes "serviceBytes s = Inr bs"
  shows "length bs = 18"
proof -
  obtain v6 host port addr where p: "split_service s = Inr (v6, host, port)" "bs = addr @ u16_be (nat_of_dec port)"
    "(if v6 then bindE (v6_groups host) (\<lambda>gs. Inr (concat (map (\<lambda>g. u16_be (hex_value g)) gs)))
      else bindE (v4_octets host) (\<lambda>os. Inr (replicate 10 0 @ [255, 255] @ os))) = Inr addr"
    using assms unfolding serviceBytes_def by (auto simp: bindE_Inr split: if_splits)
  then have "length addr = 16"
    using v6_groups_eight v4_octets_four by (cases v6) (auto simp: bindE_Inr length_u16_blocks)
  then show ?thesis
    using p(2) by simp
qed

lemma fixedHex_length: "fixedHex v n what = Inr bs \<Longrightarrow> length bs = n"
  by (auto simp: fixedHex_def list_all_iff intro!: length_fromHex split: jfield.splits if_splits)

lemma u16Exact_length: "u16Exact v what = Inr bs \<Longrightarrow> length bs = 2"
  by (auto simp: u16Exact_def split: jfield.splits if_splits)

lemma votingKeyId_length: "votingKeyId b58 a = Inr bs \<Longrightarrow> length bs = 20"
  by (auto simp: votingKeyId_def split: option.splits if_splits)

lemma entry_type_length: "entry_type_bytes e = Inr bs \<Longrightarrow> length bs \<in> {0, 2, 24}"
  using u16Exact_length fixedHex_length
  by (fastforce simp: entry_type_bytes_def bindE_Inr split: if_splits)

record entry_parts =
  ep_proReg :: octets
  ep_confirmed :: octets
  ep_service :: octets
  ep_operator :: octets
  ep_keyId :: octets
  ep_valid :: bool
  ep_kind :: octets

text \<open>What an entry commits to, and how the bytes are laid out.\<close>

definition entry_has :: "(string \<Rightarrow> octets option) \<Rightarrow> sml_entry \<Rightarrow> entry_parts \<Rightarrow> bool" where
  "entry_has b58 e p \<longleftrightarrow> fixedHex (se_proRegTxHash e) 32 ''proRegTxHash'' = Inr (ep_proReg p) \<and>
     fixedHex (se_confirmedHash e) 32 ''confirmedHash'' = Inr (ep_confirmed p) \<and>
     serviceBytes (js_text (se_service e)) = Inr (ep_service p) \<and>
     fixedHex (se_pubKeyOperator e) 48 ''operator public key'' = Inr (ep_operator p) \<and>
     votingKeyId b58 (js_text (se_votingAddress e)) = Inr (ep_keyId p) \<and> se_isValid e = Some (ep_valid p) \<and>
     entry_type_bytes e = Inr (ep_kind p)"

definition parts_bytes :: "entry_parts \<Rightarrow> octets" where
  "parts_bytes p = rev (ep_proReg p) @ rev (ep_confirmed p) @ ep_service p @ ep_operator p @ ep_keyId p @
     [if ep_valid p then 1 else 0] @ ep_kind p"

lemma smlEntryBytes_parts:
  assumes "smlEntryBytes b58 e = Inr bs"
  obtains p where "entry_has b58 e p" "bs = parts_bytes p"
proof -
  have known: "se_nVersion e \<in> set KNOWN_ENTRY_VERSIONS"
    using assms by (auto simp: smlEntryBytes_def split: if_splits)
  obtain operator valid where o: "fixedHex (se_pubKeyOperator e) 48 ''operator public key'' = Inr operator" "se_isValid e = Some valid"
    using assms known by (auto simp: smlEntryBytes_def bindE_Inr split: option.splits)
  obtain proReg confirmed service keyId kind where
    "fixedHex (se_proRegTxHash e) 32 ''proRegTxHash'' = Inr proReg"
    "fixedHex (se_confirmedHash e) 32 ''confirmedHash'' = Inr confirmed"
    "serviceBytes (js_text (se_service e)) = Inr service"
    "votingKeyId b58 (js_text (se_votingAddress e)) = Inr keyId" "entry_type_bytes e = Inr kind"
    "bs = rev proReg @ rev confirmed @ service @ operator @ keyId @ [if valid then 1 else 0] @ kind"
    using assms known o by (auto simp: smlEntryBytes_def bindE_Inr split: sum.splits)
  then show thesis
    using o by (intro that [of "\<lparr>ep_proReg = proReg, ep_confirmed = confirmed, ep_service = service, ep_operator = operator,
        ep_keyId = keyId, ep_valid = valid, ep_kind = kind\<rparr>"]) (simp_all add: entry_has_def parts_bytes_def)
qed

lemma entry_has_lengths:
  assumes "entry_has b58 e p"
  shows "length (ep_proReg p) = 32" "length (ep_confirmed p) = 32" "length (ep_service p) = 18"
    "length (ep_operator p) = 48" "length (ep_keyId p) = 20" "length (ep_kind p) \<in> {0, 2, 24}"
  using assms fixedHex_length serviceBytes_length votingKeyId_length entry_type_length unfolding entry_has_def by blast+

lemma entry_has_unique: "entry_has b58 e p \<Longrightarrow> entry_has b58 e q \<Longrightarrow> p = q"
  by (simp add: entry_has_def)

text \<open>The bytes of an entry determine everything it commits to: two entries that serialize alike have
  the same registration, confirmation, service address and port, operator key, voting key id, validity,
  type and Platform fields; and the length is one of three.\<close>

lemma entry_bytes_determine_the_entry:
  assumes "smlEntryBytes b58 e = Inr bs" "smlEntryBytes b58 e' = Inr bs"
  shows "(\<exists>p. entry_has b58 e p \<and> entry_has b58 e' p) \<and> length bs \<in> {151, 153, 175}"
proof -
  obtain p q where p: "entry_has b58 e p" "bs = parts_bytes p" and q: "entry_has b58 e' q" "bs = parts_bytes q"
    using assms smlEntryBytes_parts by metis
  note lp = entry_has_lengths [OF p(1)] and lq = entry_has_lengths [OF q(1)]
  have "parts_bytes p = parts_bytes q"
    using p(2) q(2) by simp
  then have "p = q"
    using lp(1-5) lq(1-5) by (cases p; cases q) (simp add: parts_bytes_def split: if_splits)
  moreover have "length bs \<in> {151, 153, 175}"
    using lp unfolding p(2) parts_bytes_def by auto
  ultimately show ?thesis
    using p(1) q(1) by blast
qed

subsection \<open>Services as Dash Core writes them\<close>

definition v4_text :: "nat list \<Rightarrow> nat \<Rightarrow> string" where
  "v4_text os port = js_join ''.'' (map dec_of_nat os) @ '':'' @ dec_of_nat port"

lemma dec_of_nat_chars: "\<not> is_digit c \<Longrightarrow> c \<notin> set (dec_of_nat n)"
  using dec_of_nat_digits by blast

lemma dec_of_nat_length: "n < 10 ^ Suc k \<Longrightarrow> length (dec_of_nat n) \<le> Suc k"
proof (induction k arbitrary: n)
  case 0
  then show ?case
    by (subst dec_of_nat.simps) simp
next
  case (Suc k)
  show ?case
  proof (cases "n < 10")
    case False
    then have "n div 10 < 10 ^ Suc k"
      using Suc.prems by (simp add: less_mult_imp_div_less)
    then show ?thesis
      using Suc.IH False by (subst dec_of_nat.simps) simp
  qed (subst dec_of_nat.simps, simp)
qed

lemma v4_octet_dec: "n < 256 \<Longrightarrow> v4_octet (dec_of_nat n)"
proof -
  assume n: "n < 256"
  then have "length (dec_of_nat n) \<le> 3"
    using dec_of_nat_length [of n 2] by simp
  moreover have "hd (dec_of_nat n) \<noteq> CHR ''0''" if "n \<noteq> 0"
  proof -
    have "digit_char 0 = CHR ''0''"
      by code_simp
    then show ?thesis
      using dec_of_nat_hd [of n] that by simp
  qed
  moreover have "dec_of_nat 0 = ''0''"
    by code_simp
  ultimately show ?thesis
    using n nat_of_dec_of_nat [of n] by (cases "n = 0") (auto simp: v4_octet_def simp del: nat_of_dec_of_nat)
qed

lemma mapE_all: "\<forall>x\<in>set xs. f x = Inr (g x) \<Longrightarrow> mapE f xs = Inr (map g xs)"
  by (induction xs) simp_all

lemma split_service_v4:
  assumes "CHR '':'' \<notin> set host" "CHR '':'' \<notin> set port" "host \<noteq> []" "hd host \<noteq> CHR ''[''"
  shows "split_service (host @ '':'' @ port) = Inr (False, host, port)"
proof -
  obtain c s where c: "host @ '':'' @ port = c # s" "c \<noteq> CHR ''[''"
    using assms(3,4) by (cases host) auto
  have tw: "takeWhile (\<lambda>x. x \<noteq> CHR '':'') (rev port @ CHR '':'' # rev host) = rev port"
    "dropWhile (\<lambda>x. x \<noteq> CHR '':'') (rev port @ CHR '':'' # rev host) = CHR '':'' # rev host"
    using assms(2) by (subst takeWhile_append2 dropWhile_append2; auto)+
  have "rev (c # s) = rev port @ CHR '':'' # rev host"
    using c(1) [symmetric] by simp
  then show ?thesis
    unfolding c(1) split_service_def using c(2) assms(1) tw by (simp add: Let_def)
qed

lemma service_v4:
  assumes "length os = 4" "\<forall>n\<in>set os. n < 256" "port < 65536"
  shows "serviceBytes (v4_text os port) = Inr (replicate 10 0 @ [255, 255] @ map word_of_nat os @ u16_be port)"
proof -
  let ?host = "js_join ''.'' (map dec_of_nat os)"
  have chars: "set ?host \<subseteq> insert (CHR ''.'') {c. is_digit c}"
    using set_js_join [of "CHR ''.''" "map dec_of_nat os"] dec_of_nat_digits by fastforce
  have host: "CHR '':'' \<notin> set ?host" "hd ?host \<noteq> CHR ''[''" "?host \<noteq> []"
  proof -
    obtain a b r where os: "os = a # b # r"
      using assms(1) by (cases os; cases "tl os") auto
    show ne: "?host \<noteq> []"
      unfolding os by simp
    show "CHR '':'' \<notin> set ?host"
      using chars by (auto simp: is_digit_def)
    show "hd ?host \<noteq> CHR ''[''"
      using hd_in_set [OF ne] chars by (auto simp: is_digit_def)
  qed
  have "length (dec_of_nat port) \<le> 5"
    using dec_of_nat_length [of port 4] assms(3) by simp
  then have dp: "decimal_port (dec_of_nat port)"
    by (simp add: decimal_port_def)
  have "js_split CHR ''.'' ?host = map dec_of_nat os"
    using assms(1) by (intro js_split_join) (auto dest: dec_of_nat_digits simp: is_digit_def)
  then have v4: "v4_octets ?host = Inr (map word_of_nat os)"
    using assms(1,2) v4_octet_dec by (simp add: v4_octets_def mapE_all [where g = "\<lambda>t. word_of_nat (nat_of_dec t)"] comp_def)
  have "split_service (v4_text os port) = Inr (False, ?host, dec_of_nat port)"
    unfolding v4_text_def using split_service_v4 [OF host(1) _ host(3,2)] dec_of_nat_no_colon by blast
  then show ?thesis
    using dp v4 assms(3) by (simp add: serviceBytes_def)
qed

text \<open>An IPv4 service in the form Dash Core writes encodes to the mapped address and the port, most
  significant byte first.\<close>

lemma service_v4_bytes:
  assumes "length os = 4" "\<forall>n\<in>set os. n < 256" "port < 65536"
  shows "serviceBytes (v4_text os port) = Inr (replicate 10 0 @ [255, 255] @ map word_of_nat os @ u16_be port)"
  by (rule service_v4 [OF assms])

lemma service_v4_demo:
  "serviceBytes ''1.2.3.4:80'' = Inr (replicate 10 0 @ [255, 255, 1, 2, 3, 4, 0, 80])"
proof -
  have "v4_text [1, 2, 3, 4] 80 = ''1.2.3.4:80''"
    by code_simp
  moreover have "u16_be 80 = [0, 80]"
    by (simp add: u16_be_def numeral_2_eq_2)
  ultimately show ?thesis
    using service_v4 [of "[1, 2, 3, 4]" 80] by simp
qed

theorem service_v4_bytes_witness:
  "serviceBytes ''1.2.3.4:80'' = Inr (replicate 10 0 @ [255, 255, 1, 2, 3, 4, 0, 80])"
proof -
  have "v4_text [1, 2, 3, 4] 80 = ''1.2.3.4:80''"
    by code_simp
  moreover have "u16_be 80 = [0, 80]"
    by (simp add: u16_be_def numeral_2_eq_2)
  ultimately show ?thesis
    using service_v4_bytes [of "[1, 2, 3, 4]" 80] by simp
qed

subsection \<open>An entry\<close>

definition demo_entry :: "char \<Rightarrow> sml_entry" where
  "demo_entry c = \<lparr>se_nVersion = F_int 2, se_proRegTxHash = F_str (replicate 64 c), se_confirmedHash = F_str (replicate 64 CHR ''b''),
     se_service = F_str ''1.2.3.4:80'', se_pubKeyOperator = F_str (replicate 96 CHR ''c''), se_votingAddress = F_str ''X'',
     se_isValid = Some True, se_nType = F_int 1, se_platformHTTPPort = F_int 443, se_platformNodeID = F_str (replicate 40 CHR ''d'')\<rparr>"

definition demo_b58 :: "string \<Rightarrow> octets option" where
  "demo_b58 a = Some (replicate 21 7)"

lemma fixedHex_ok: "0 < n \<Longrightarrow> length t = n * 2 \<Longrightarrow> list_all (\<lambda>c. hexDigit c \<noteq> None) t \<Longrightarrow> fixedHex (F_str t) n what = Inr (fromHex t)"
  by (auto simp: fixedHex_def)

lemma demo_entry_bytes:
  assumes "hexDigit c \<noteq> None"
  shows "smlEntryBytes demo_b58 (demo_entry c) = Inr (rev (fromHex (replicate 64 c)) @ rev (fromHex (replicate 64 CHR ''b'')) @
    replicate 10 0 @ [255, 255, 1, 2, 3, 4, 0, 80] @ fromHex (replicate 96 CHR ''c'') @ replicate 20 7 @ [1] @
    le_bytes 2 1 @ le_bytes 2 443 @ rev (fromHex (replicate 40 CHR ''d'')))"
proof -
  have "hexDigit CHR ''b'' \<noteq> None" "hexDigit CHR ''c'' \<noteq> None" "hexDigit CHR ''d'' \<noteq> None"
    by (simp_all add: hexDigit_def)
  then have "fixedHex (F_str (replicate 64 CHR ''b'')) 32 w = Inr (fromHex (replicate 64 CHR ''b''))"
    "fixedHex (F_str (replicate 96 CHR ''c'')) 48 w = Inr (fromHex (replicate 96 CHR ''c''))"
    "fixedHex (F_str (replicate 64 c)) 32 w = Inr (fromHex (replicate 64 c))"
    "fixedHex (F_str (replicate 40 CHR ''d'')) 20 w = Inr (fromHex (replicate 40 CHR ''d''))" for w
    using assms by (intro fixedHex_ok; simp add: list_all_iff)+
  moreover have "tl (replicate 21 (7 :: 8 word)) = replicate 20 7"
    by simp
  ultimately show ?thesis
    by (simp add: smlEntryBytes_def demo_entry_def demo_b58_def KNOWN_ENTRY_VERSIONS_def KNOWN_ENTRY_TYPES_def entry_type_bytes_def
        u16Exact_def votingKeyId_def js_text_def service_v4_demo)
qed

theorem entry_bytes_determine_the_entry_witness:
  "\<exists>bs. smlEntryBytes demo_b58 (demo_entry CHR ''a'') = Inr bs \<and> length bs \<in> {151, 153, 175}"
  using demo_entry_bytes [of "CHR ''a''"] entry_bytes_determine_the_entry by (fastforce simp: hexDigit_def)

end
