(* ===== verification/Dml_Root.thy ===== *)
theory Dml_Root
  imports Dml_Entries "HOL-Library.Multiset"
begin

section \<open>The merkle root over the masternode list (oracle/dml\_commitment.js)\<close>

text \<open>
  The tree of the block format: pair, hash twice with SHA-256, repeat the last element of an odd level.
  The digest is the argument \<open>sha\<close>. The root binds the list it was computed from: the sort
  and the refusal of repeated registration hashes keep the levels free of repetitions, and no entry is as
  long as the 64 bytes of an inner node.
\<close>

definition sha256d :: "(octets \<Rightarrow> octets) \<Rightarrow> octets \<Rightarrow> octets" where
  "sha256d sha b = sha (sha b)"

fun pair_up :: "(octets \<Rightarrow> octets) \<Rightarrow> octets list \<Rightarrow> octets list" where
  "pair_up H (a # b # rest) = H (a @ b) # pair_up H rest"
| "pair_up H [a] = [H (a @ a)]"
| "pair_up H [] = []"

lemma length_pair_up [simp]: "length (pair_up H xs) = (length xs + 1) div 2"
  by (induction H xs rule: pair_up.induct) simp_all

function merkle_loop :: "(octets \<Rightarrow> octets) \<Rightarrow> octets list \<Rightarrow> octets" where
  "merkle_loop H level = (if length level > 1 then merkle_loop H (pair_up H level) else hd level)"
  by pat_completeness auto
termination
proof (relation "measure (\<lambda>(H, level). length level)")
  fix H :: "octets \<Rightarrow> octets" and level :: "octets list"
  assume "1 < length level"
  then have "(length level + 1) div 2 < length level"
    by linarith
  then show "((H, pair_up H level), H, level) \<in> measure (\<lambda>(H, level). length level)"
    by simp
qed simp

declare merkle_loop.simps [simp del]

definition merkleRootFromLeaves :: "(octets \<Rightarrow> octets) \<Rightarrow> octets list \<Rightarrow> octets" where
  "merkleRootFromLeaves sha leaves = (if leaves = [] then replicate 32 0 else merkle_loop (sha256d sha) leaves)"

datatype list_error = Too_many_entries nat | Key_not_text jfield | Entry_twice jfield | Bad_entry entry_error

definition MAX_MN_LIST_ENTRIES :: nat where
  "MAX_MN_LIST_ENTRIES = 50000"

definition entry_key :: "sml_entry \<Rightarrow> list_error + octets" where
  "entry_key e = (case se_proRegTxHash e of F_str s \<Rightarrow> Inr (rev (fromHex s)) | f \<Rightarrow> Inl (Key_not_text f))"

fun first_repeat :: "(octets \<times> sml_entry) list \<Rightarrow> sml_entry option" where
  "first_repeat ((k, a) # (l, b) # rest) = (if k = l then Some b else first_repeat ((l, b) # rest))"
| "first_repeat _ = None"

definition smlMerkleRoot :: "(octets \<Rightarrow> octets) \<Rightarrow> (string \<Rightarrow> octets option) \<Rightarrow> sml_entry list \<Rightarrow> list_error + octets" where
  "smlMerkleRoot sha b58 mnList =
     (if length mnList > MAX_MN_LIST_ENTRIES then Inl (Too_many_entries (length mnList))
      else bindE (mapE (\<lambda>e. bindE (entry_key e) (\<lambda>k. Inr (k, e))) mnList) (\<lambda>keyed.
        let keyed = sort_key fst keyed in
        (case first_repeat keyed of
           Some e \<Rightarrow> Inl (Entry_twice (se_proRegTxHash e))
         | None \<Rightarrow>
             bindE (mapE (\<lambda>(k, e). case smlEntryBytes b58 e of Inl x \<Rightarrow> Inl (Bad_entry x) | Inr b \<Rightarrow> Inr (sha256d sha b)) keyed)
               (\<lambda>leaves. Inr (merkleRootFromLeaves sha leaves)))))"

subsection \<open>What is hashed on the way to the root\<close>

fun pair_msgs :: "octets list \<Rightarrow> octets list" where
  "pair_msgs (a # b # rest) = (a @ b) # pair_msgs rest"
| "pair_msgs [a] = [a @ a]"
| "pair_msgs [] = []"

function tree_msgs :: "(octets \<Rightarrow> octets) \<Rightarrow> octets list \<Rightarrow> octets set" where
  "tree_msgs H level = (if length level > 1 then set (pair_msgs level) \<union> tree_msgs H (pair_up H level) else {})"
  by pat_completeness auto
termination
proof (relation "measure (\<lambda>(H, level). length level)")
  fix H :: "octets \<Rightarrow> octets" and level :: "octets list"
  assume "1 < length level"
  then have "(length level + 1) div 2 < length level"
    by linarith
  then show "((H, pair_up H level), H, level) \<in> measure (\<lambda>(H, level). length level)"
    by simp
qed simp

declare tree_msgs.simps [simp del]

definition all_32 :: "octets list \<Rightarrow> bool" where
  "all_32 xs \<longleftrightarrow> (\<forall>x\<in>set xs. length x = 32)"

lemma all_32_simps [simp]: "all_32 []" "all_32 (x # xs) \<longleftrightarrow> length x = 32 \<and> all_32 xs"
  by (auto simp: all_32_def)

lemma pair_up_map: "pair_up H xs = map H (pair_msgs xs)"
  by (induction xs rule: pair_msgs.induct) simp_all

lemma all_32_pair_up: "(\<And>x. length (H x) = 32) \<Longrightarrow> all_32 (pair_up H xs)"
  by (simp add: pair_up_map all_32_def)

lemma pair_msgs_parts: "m \<in> set (pair_msgs xs) \<Longrightarrow> \<exists>c d. m = c @ d \<and> c \<in> set xs \<and> d \<in> set xs"
  by (induction xs rule: pair_msgs.induct) auto

lemma distinct_pair_msgs: "distinct xs \<Longrightarrow> all_32 xs \<Longrightarrow> distinct (pair_msgs xs)"
proof (induction xs rule: pair_msgs.induct)
  case (1 a b rest)
  have "a @ b \<notin> set (pair_msgs rest)"
  proof
    assume "a @ b \<in> set (pair_msgs rest)"
    then obtain c d where cd: "a @ b = c @ d" "c \<in> set rest"
      using pair_msgs_parts by blast
    then have "length c = 32" "length a = 32"
      using "1.prems"(2) by (auto simp: all_32_def)
    then have "a = c"
      using cd(1) by simp
    then show False
      using cd(2) "1.prems"(1) by simp
  qed
  then show ?case
    using 1 by simp
qed simp_all

lemma pair_msgs_inject:
  "pair_msgs xs = pair_msgs ys \<Longrightarrow> distinct xs \<Longrightarrow> distinct ys \<Longrightarrow> all_32 xs \<Longrightarrow> all_32 ys \<Longrightarrow> xs = ys"
proof (induction xs arbitrary: ys rule: pair_msgs.induct)
  case (1 a b rest)
  then obtain c d rest' where "ys = c # d # rest'"
    by (cases ys rule: pair_msgs.cases) (auto elim: pair_msgs.elims)
  then show ?case
    using 1 by auto
next
  case (2 a)
  then show ?case
    by (cases ys rule: pair_msgs.cases) (auto elim: pair_msgs.elims)
next
  case 3
  then show ?case
    by (cases ys rule: pair_msgs.cases) auto
qed

lemma length_pair_msgs [simp]: "length (pair_msgs xs) = (length xs + 1) div 2"
  by (induction xs rule: pair_msgs.induct) simp_all

lemma merkle_loop_step: "length xs > 1 \<Longrightarrow> merkle_loop H xs = merkle_loop H (pair_up H xs)"
  by (subst merkle_loop.simps) simp

lemma merkle_loop_one: "merkle_loop H [x] = x"
  by (subst merkle_loop.simps) simp

lemma tree_msgs_step: "length xs > 1 \<Longrightarrow> tree_msgs H xs = set (pair_msgs xs) \<union> tree_msgs H (pair_up H xs)"
  by (subst tree_msgs.simps) simp

lemma root_is_hash: "length xs > 1 \<Longrightarrow> merkle_loop H xs \<in> H ` tree_msgs H xs"
proof (induction H xs rule: merkle_loop.induct)
  case (1 H xs)
  note more = tree_msgs_step [OF 1(2), of H]
  show ?case
  proof (cases "length (pair_up H xs) > 1")
    case True
    then show ?thesis
      using 1 more by (subst merkle_loop.simps) auto
  next
    case False
    then have "length (pair_msgs xs) = 1"
      using 1(2) by simp
    then obtain m where m: "pair_msgs xs = [m]"
      by (metis One_nat_def length_0_conv length_Suc_conv)
    have "merkle_loop H xs = H m"
      unfolding merkle_loop_step [OF 1(2)] pair_up_map m by (simp add: merkle_loop_one)
    moreover have "m \<in> tree_msgs H xs"
      using more m by simp
    ultimately show ?thesis
      by blast
  qed
qed

text \<open>The left half of every message is a leaf or itself a hash of this tree.\<close>

lemma msg_left:
  "m \<in> tree_msgs H xs \<Longrightarrow> (\<And>x. length (H x) = 32) \<Longrightarrow> all_32 xs \<Longrightarrow>
    \<exists>c d. m = c @ d \<and> length c = 32 \<and> length d = 32 \<and> (c \<in> set xs \<or> c \<in> H ` tree_msgs H xs)"
proof (induction H xs rule: tree_msgs.induct)
  case (1 H xs)
  then have long: "length xs > 1"
    by (subst (asm) tree_msgs.simps) (auto split: if_splits)
  note more = tree_msgs_step [OF long, of H]
  show ?case
  proof (cases "m \<in> set (pair_msgs xs)")
    case True
    then obtain c d where "m = c @ d" "c \<in> set xs" "d \<in> set xs"
      using pair_msgs_parts by blast
    then show ?thesis
      using 1(4) unfolding all_32_def by blast
  next
    case False
    then have "m \<in> tree_msgs H (pair_up H xs)"
      using 1(2) more by simp
    then obtain c d where "m = c @ d" "length c = 32" "length d = 32" "c \<in> set (pair_up H xs) \<or> c \<in> H ` tree_msgs H (pair_up H xs)"
      using 1(1) [OF long _ 1(3) all_32_pair_up [of H xs, OF 1(3)]] by blast
    then show ?thesis
      using more by (auto simp: pair_up_map)
  qed
qed

text \<open>Two trees with one root, without a collision between their messages: the leaves are the same, or a
  leaf of one is a hash inside the other.\<close>

definition leaf_inside :: "(octets \<Rightarrow> octets) \<Rightarrow> octets list \<Rightarrow> octets list \<Rightarrow> bool" where
  "leaf_inside H xs ys \<longleftrightarrow> (\<exists>x\<in>set xs. \<exists>m\<in>tree_msgs H ys. x = H m)"

lemma deeper_inside:
  assumes "leaf_inside H (pair_up H xs) (pair_up H ys)" "length xs > 1" "length ys > 1"
    and "inj_on H (tree_msgs H xs \<union> tree_msgs H ys)" "\<And>x. length (H x) = 32" "all_32 xs"
  shows "leaf_inside H xs ys"
proof -
  obtain m0 m where m: "m0 \<in> set (pair_msgs xs)" "m \<in> tree_msgs H (pair_up H ys)" "H m0 = H m"
    using assms(1) by (auto simp: leaf_inside_def pair_up_map)
  have "m0 \<in> tree_msgs H xs" "m \<in> tree_msgs H ys"
    using m(1,2) tree_msgs_step [OF assms(2)] tree_msgs_step [OF assms(3)] by auto
  then have same: "m0 = m"
    using assms(4) m(3) by (auto dest: inj_onD)
  obtain a b where ab: "m0 = a @ b" "a \<in> set xs"
    using pair_msgs_parts [OF m(1)] by blast
  obtain c d where cd: "m = c @ d" "length c = 32" "c \<in> set (pair_up H ys) \<or> c \<in> H ` tree_msgs H (pair_up H ys)"
    using msg_left [OF m(2) assms(5) all_32_pair_up [of H ys, OF assms(5)]] by blast
  have "length a = 32"
    using ab(2) assms(6) by (simp add: all_32_def)
  then have "a = c"
    using same ab(1) cd(1,2) by simp
  moreover have "c \<in> H ` tree_msgs H ys"
    using cd(3) tree_msgs_step [OF assms(3)] by (auto simp: pair_up_map)
  ultimately show ?thesis
    using ab(2) by (auto simp: leaf_inside_def)
qed

lemma one_root_one_tree:
  assumes "\<And>x. length (H x) = 32"
  shows "merkle_loop H xs = merkle_loop H ys \<Longrightarrow> xs \<noteq> [] \<Longrightarrow> ys \<noteq> [] \<Longrightarrow> distinct xs \<Longrightarrow> distinct ys \<Longrightarrow>
    all_32 xs \<Longrightarrow> all_32 ys \<Longrightarrow> inj_on H (tree_msgs H xs \<union> tree_msgs H ys) \<Longrightarrow>
    xs = ys \<or> leaf_inside H xs ys \<or> leaf_inside H ys xs"
proof (induction "length xs" arbitrary: xs ys rule: less_induct)
  case less
  show ?case
  proof (cases "length xs > 1")
    case False
    then obtain x where x: "xs = [x]"
      using less.prems(2) by (cases xs; cases "tl xs") auto
    show ?thesis
    proof (cases "length ys > 1")
      case True
      then show ?thesis
        using root_is_hash [OF True, of H] less.prems(1) x by (auto simp: merkle_loop_one leaf_inside_def)
    next
      case False
      then obtain y where "ys = [y]"
        using less.prems(3) by (cases ys; cases "tl ys") auto
      then show ?thesis
        using less.prems(1) x by (simp add: merkle_loop_one)
    qed
  next
    case long: True
    show ?thesis
    proof (cases "length ys > 1")
      case False
      then obtain y where y: "ys = [y]"
        using less.prems(3) by (cases ys; cases "tl ys") auto
      have "y \<in> H ` tree_msgs H xs"
        using root_is_hash [OF long, of H] less.prems(1) y by (simp add: merkle_loop_one)
      then show ?thesis
        using y by (auto simp: leaf_inside_def)
    next
      case True
      let ?px = "pair_up H xs" and ?py = "pair_up H ys"
      note mx = tree_msgs_step [OF long, of H] and my = tree_msgs_step [OF True, of H]
      have inj: "inj_on H (set (pair_msgs xs) \<union> set (pair_msgs ys))" "inj_on H (tree_msgs H ?px \<union> tree_msgs H ?py)"
        by (rule inj_on_subset [OF less.prems(8)]; simp add: mx my; blast)+
      have d: "distinct ?px" "distinct ?py"
        using distinct_pair_msgs [OF less.prems(4,6)] distinct_pair_msgs [OF less.prems(5,7)] inj(1)
        by (auto simp: pair_up_map distinct_map intro: inj_on_subset)
      have "length ?px < length xs"
        using long by simp
      moreover have "merkle_loop H ?px = merkle_loop H ?py"
        using less.prems(1) merkle_loop_step [OF long] merkle_loop_step [OF True] by simp
      moreover have "?px \<noteq> []" "?py \<noteq> []"
        using long True by (auto dest!: arg_cong [of _ _ length])
      ultimately have "?px = ?py \<or> leaf_inside H ?px ?py \<or> leaf_inside H ?py ?px"
        using less.hyps [of ?px ?py] d inj(2) all_32_pair_up [of H, OF assms] by blast
      then show ?thesis
      proof (elim disjE)
        assume "?px = ?py"
        then have "map H (pair_msgs xs) = map H (pair_msgs ys)"
          by (simp add: pair_up_map)
        then have "pair_msgs xs = pair_msgs ys"
          using inj(1) by (rule inj_on_map_eq_map [THEN iffD1, rotated])
        then show ?thesis
          using pair_msgs_inject less.prems(4-7) by blast
      next
        assume "leaf_inside H ?px ?py"
        then show ?thesis
          using deeper_inside [OF _ long True less.prems(8) assms less.prems(6)] by blast
      next
        assume "leaf_inside H ?py ?px"
        then show ?thesis
          using deeper_inside [OF _ True long _ assms less.prems(7)] less.prems(8) by (simp add: Un_commute)
      qed
    qed
  qed
qed

subsection \<open>The list behind a root\<close>

definition key_of :: "sml_entry \<Rightarrow> octets" where
  "key_of e = (case entry_key e of Inr k \<Rightarrow> k | Inl _ \<Rightarrow> [])"

definition bytes_of :: "(string \<Rightarrow> octets option) \<Rightarrow> sml_entry \<Rightarrow> octets" where
  "bytes_of b58 e = (case smlEntryBytes b58 e of Inr b \<Rightarrow> b | Inl _ \<Rightarrow> [])"

definition in_key_order :: "sml_entry list \<Rightarrow> sml_entry list" where
  "in_key_order l = map snd (sort_key fst (map (\<lambda>e. (key_of e, e)) l))"

text \<open>Every message hashed for a list: its entries, and the pairs of the tree over their hashes.\<close>

definition list_msgs :: "(octets \<Rightarrow> octets) \<Rightarrow> (string \<Rightarrow> octets option) \<Rightarrow> sml_entry list \<Rightarrow> octets set" where
  "list_msgs sha b58 l = bytes_of b58 ` set l \<union>
     tree_msgs (sha256d sha) (map (\<lambda>e. sha256d sha (bytes_of b58 e)) (in_key_order l))"

lemma mapE_Inr: "mapE f xs = Inr ys \<Longrightarrow> (\<And>x y. f x = Inr y \<Longrightarrow> y = g x) \<Longrightarrow> ys = map g xs \<and> (\<forall>x\<in>set xs. f x = Inr (g x))"
  by (induction xs arbitrary: ys) (auto simp: bindE_Inr)

lemma first_repeat_None: "first_repeat ks = None \<Longrightarrow> sorted (map fst ks) \<Longrightarrow> distinct (map fst ks)"
proof (induction ks rule: first_repeat.induct)
  case (1 k a l b rest)
  then have "distinct (map fst ((l, b) # rest))" "k \<noteq> l"
    by (auto split: if_splits)
  moreover have "k \<le> l" "\<forall>x\<in>set (map fst rest). l \<le> x"
    using 1(3) by auto
  ultimately show ?case
    by (auto dest: bspec)
qed auto

lemma smlMerkleRoot_ok:
  assumes "smlMerkleRoot sha b58 l = Inr r"
  shows "length l \<le> MAX_MN_LIST_ENTRIES \<and> (\<forall>e\<in>set l. entry_key e = Inr (key_of e) \<and> smlEntryBytes b58 e = Inr (bytes_of b58 e)) \<and>
    distinct (map key_of l) \<and> r = merkleRootFromLeaves sha (map (\<lambda>e. sha256d sha (bytes_of b58 e)) (in_key_order l))"
proof -
  let ?k = "\<lambda>e. (key_of e, e)"
  obtain keyed where k: "length l \<le> MAX_MN_LIST_ENTRIES" "mapE (\<lambda>e. bindE (entry_key e) (\<lambda>k. Inr (k, e))) l = Inr keyed"
    using assms by (auto simp: smlMerkleRoot_def bindE_Inr split: if_splits)
  have keyed: "keyed = map ?k l \<and> (\<forall>e\<in>set l. bindE (entry_key e) (\<lambda>k. Inr (k, e)) = Inr (?k e))"
    by (rule mapE_Inr [OF k(2)]) (auto simp: bindE_Inr key_of_def)
  let ?s = "sort_key fst keyed"
  obtain leaves where fr: "first_repeat ?s = None" and leaves: "r = merkleRootFromLeaves sha leaves"
    "mapE (\<lambda>(k, e). case smlEntryBytes b58 e of Inl x \<Rightarrow> Inl (Bad_entry x) | Inr b \<Rightarrow> Inr (sha256d sha b)) ?s = Inr leaves"
    using assms k by (auto simp: smlMerkleRoot_def bindE_Inr Let_def split: option.splits)
  have ls: "leaves = map (\<lambda>(k, e). sha256d sha (bytes_of b58 e)) ?s \<and>
      (\<forall>x\<in>set ?s. (case x of (k, e) \<Rightarrow> case smlEntryBytes b58 e of Inl x \<Rightarrow> Inl (Bad_entry x) | Inr b \<Rightarrow> Inr (sha256d sha b)) =
        Inr (case x of (k, e) \<Rightarrow> sha256d sha (bytes_of b58 e)))"
    by (rule mapE_Inr [OF leaves(2)]) (auto simp: bytes_of_def split: sum.splits)
  have "distinct (map fst ?s)"
    using first_repeat_None [OF fr] by simp
  then have "distinct (map fst keyed)"
    using mset_eq_imp_distinct_iff [of "map fst ?s" "map fst keyed"] by simp
  then have "distinct (map key_of l)"
    using keyed by (simp add: comp_def)
  moreover have "smlEntryBytes b58 e = Inr (bytes_of b58 e)" if "e \<in> set l" for e
  proof -
    have "(key_of e, e) \<in> set ?s"
      using keyed that by auto
    then show ?thesis
      using ls by (fastforce simp: bytes_of_def split: sum.splits)
  qed
  moreover have "leaves = map (\<lambda>e. sha256d sha (bytes_of b58 e)) (in_key_order l)"
    using ls keyed by (simp add: in_key_order_def comp_def case_prod_beta)
  ultimately show ?thesis
    using k(1) keyed leaves(1) by (auto simp: bindE_Inr)
qed

lemma bytes_begin_with_key:
  assumes "entry_key e = Inr (key_of e)" "smlEntryBytes b58 e = Inr (bytes_of b58 e)"
  shows "take 32 (bytes_of b58 e) = key_of e" "length (bytes_of b58 e) \<noteq> 64"
proof -
  obtain p where p: "entry_has b58 e p" "bytes_of b58 e = parts_bytes p"
    using smlEntryBytes_parts [OF assms(2)] by blast
  obtain s where s: "se_proRegTxHash e = F_str s" "ep_proReg p = fromHex s"
    using p(1) by (auto simp: entry_has_def fixedHex_def split: jfield.splits if_splits)
  have "key_of e = rev (ep_proReg p)"
    using assms(1) s by (simp add: entry_key_def)
  then show "take 32 (bytes_of b58 e) = key_of e"
    using entry_has_lengths(1) [OF p(1)] unfolding p(2) parts_bytes_def by simp
  show "length (bytes_of b58 e) \<noteq> 64"
    using entry_has_lengths [OF p(1)] unfolding p(2) parts_bytes_def by auto
qed

lemma mset_in_key_order: "mset (in_key_order l) = mset l"
proof -
  have "mset (map snd (sort_key fst (map (\<lambda>e. (key_of e, e)) l))) = image_mset snd (mset (map (\<lambda>e. (key_of e, e)) l))"
    by simp
  also have "\<dots> = mset (map snd (map (\<lambda>e. (key_of e, e)) l))"
    by (simp only: mset_map)
  finally show ?thesis
    by (simp add: in_key_order_def comp_def)
qed

lemma set_in_key_order [simp]: "set (in_key_order l) = set l"
  by (metis mset_in_key_order set_mset_mset)

lemma distinct_in_key_order: "distinct (map key_of l) \<Longrightarrow> distinct (map key_of (in_key_order l))"
  using mset_eq_imp_distinct_iff [of "map key_of (in_key_order l)" "map key_of l"] by (simp add: mset_in_key_order)

lemma sml_root_ignores_order_base:
  assumes "smlMerkleRoot sha b58 l = Inr r" "mset l' = mset l"
  shows "smlMerkleRoot sha b58 l' = Inr r"
proof -
  note ok = smlMerkleRoot_ok [OF assms(1)]
  have len: "length l' = length l" and sets: "set l' = set l"
    using assms(2) by (auto dest: mset_eq_length mset_eq_setD)
  let ?k = "\<lambda>e. (key_of e, e)"
  have keyed: "mapE (\<lambda>e. bindE (entry_key e) (\<lambda>k. Inr (k, e))) m = Inr (map ?k m)" if "set m = set l" for m
    using ok that by (intro mapE_all) auto
  have "inj_on fst (set (map ?k l))"
    using ok by (auto simp: inj_on_def distinct_map)
  then have "sort_key fst (map ?k l') = sort_key fst (map ?k l)"
    using assms(2) sets by (intro sort_key_inj_key_eq) auto
  then show ?thesis
    using assms(1) len keyed [OF refl] keyed [OF sets] by (simp add: smlMerkleRoot_def split: if_splits)
qed

text \<open>The order in which a node lists the entries does not matter: a list with the same entries
  hashes to the same root.\<close>

lemma sml_root_ignores_order:
  assumes "smlMerkleRoot sha b58 l = Inr r" "mset l' = mset l"
  shows "smlMerkleRoot sha b58 l' = Inr r"
  by (rule sml_root_ignores_order_base [OF assms])

text \<open>The root binds the list. Two lists that are accepted with the same root hold the same entries,
  byte for byte, unless two of the messages hashed for them collide: a repeated last element, a
  different number of entries, or an inner node passed off as an entry cannot produce it.\<close>

lemma sml_root_binds_the_list:
  assumes "smlMerkleRoot sha b58 l = Inr r" "smlMerkleRoot sha b58 l' = Inr r" "l \<noteq> []" "l' \<noteq> []"
    and "\<And>b. length (sha b) = 32" "inj_on (sha256d sha) (list_msgs sha b58 l \<union> list_msgs sha b58 l')"
  shows "mset (map (bytes_of b58) l) = mset (map (bytes_of b58) l')"
proof -
  let ?H = "sha256d sha"
  let ?leaves = "\<lambda>l. map (\<lambda>e. ?H (bytes_of b58 e)) (in_key_order l)"
  note ok = smlMerkleRoot_ok [OF assms(1)] and ok' = smlMerkleRoot_ok [OF assms(2)]
  have H32: "length (?H x) = 32" for x
    using assms(5) by (simp add: sha256d_def)
  have msgs: "bytes_of b58 ` set l \<subseteq> list_msgs sha b58 l" "tree_msgs ?H (?leaves l) \<subseteq> list_msgs sha b58 l" for l
    by (auto simp: list_msgs_def)
  have dist: "distinct (?leaves m)"
    if m: "distinct (map key_of m)" "\<forall>e\<in>set m. entry_key e = Inr (key_of e) \<and> smlEntryBytes b58 e = Inr (bytes_of b58 e)"
      "inj_on ?H (list_msgs sha b58 m)" for m
  proof -
    have keys: "map (\<lambda>e. take 32 (bytes_of b58 e)) (in_key_order m) = map key_of (in_key_order m)"
      using m(2) bytes_begin_with_key(1) by (intro map_cong) auto
    have "distinct (map (\<lambda>e. take 32 (bytes_of b58 e)) (in_key_order m))"
      unfolding keys by (rule distinct_in_key_order [OF m(1)])
    then have "distinct (map (bytes_of b58) (in_key_order m))"
      by (auto simp: distinct_map inj_on_def)
    then show ?thesis
      using m(3) msgs(1) [of m] by (simp add: distinct_map inj_on_def subset_iff)
  qed
  have apart: "\<not> leaf_inside ?H (?leaves m) (?leaves n)"
    if m: "\<forall>e\<in>set m. entry_key e = Inr (key_of e) \<and> smlEntryBytes b58 e = Inr (bytes_of b58 e)"
      "inj_on ?H (list_msgs sha b58 m \<union> list_msgs sha b58 n)" for m n
  proof
    assume "leaf_inside ?H (?leaves m) (?leaves n)"
    then obtain e x where ex: "e \<in> set m" "x \<in> tree_msgs ?H (?leaves n)" "?H (bytes_of b58 e) = ?H x"
      by (auto simp: leaf_inside_def)
    have "bytes_of b58 e = x"
      using m(2) ex msgs by (intro inj_onD [OF m(2) ex(3)]) auto
    moreover obtain c d where "x = c @ d" "length c = 32" "length d = 32"
      using msg_left [OF ex(2) H32] H32 by (auto simp: all_32_def)
    ultimately have "length (bytes_of b58 e) = 64"
      by simp
    then show False
      using bytes_begin_with_key(2) m(1) ex(1) by blast
  qed
  have ne: "?leaves l \<noteq> []" "?leaves l' \<noteq> []"
    using assms(3,4) set_in_key_order [of l] set_in_key_order [of l'] by (metis map_is_Nil_conv set_empty)+
  have "merkle_loop ?H (?leaves l) = merkle_loop ?H (?leaves l')"
    using ok ok' ne by (simp add: merkleRootFromLeaves_def)
  moreover have "inj_on ?H (list_msgs sha b58 l)" "inj_on ?H (list_msgs sha b58 l')"
    "inj_on ?H (tree_msgs ?H (?leaves l) \<union> tree_msgs ?H (?leaves l'))"
    by (rule inj_on_subset [OF assms(6)]; use msgs in blast)+
  ultimately have "?leaves l = ?leaves l' \<or> leaf_inside ?H (?leaves l) (?leaves l') \<or> leaf_inside ?H (?leaves l') (?leaves l)"
    using one_root_one_tree [of ?H "?leaves l" "?leaves l'"] H32 ne dist ok ok' by (auto simp: all_32_def)
  then have "?leaves l = ?leaves l'"
    using apart [of l l'] apart [of l' l] ok ok' assms(6) by (auto simp: Un_commute)
  then have "map ?H (map (bytes_of b58) (in_key_order l)) = map ?H (map (bytes_of b58) (in_key_order l'))"
    by (simp add: comp_def)
  moreover have "inj_on ?H (set (map (bytes_of b58) (in_key_order l)) \<union> set (map (bytes_of b58) (in_key_order l')))"
    by (rule inj_on_subset [OF assms(6)]) (use msgs(1) in auto)
  ultimately have "map (bytes_of b58) (in_key_order l) = map (bytes_of b58) (in_key_order l')"
    using inj_on_map_eq_map by blast
  then have "mset (map (bytes_of b58) (in_key_order l)) = mset (map (bytes_of b58) (in_key_order l'))"
    by (rule arg_cong)
  then show ?thesis
    by (simp add: mset_in_key_order)
qed

subsection \<open>When a list is accepted\<close>

lemma first_repeat_Some: "first_repeat ks = Some e \<Longrightarrow> \<not> distinct (map fst ks)"
  by (induction ks rule: first_repeat.induct) (auto split: if_splits)

lemma smlMerkleRoot_accepts:
  assumes "length l \<le> MAX_MN_LIST_ENTRIES" "distinct (map key_of l)"
    and "\<forall>e\<in>set l. entry_key e = Inr (key_of e) \<and> smlEntryBytes b58 e = Inr (bytes_of b58 e)"
  shows "smlMerkleRoot sha b58 l = Inr (merkleRootFromLeaves sha (map (\<lambda>e. sha256d sha (bytes_of b58 e)) (in_key_order l)))"
proof -
  let ?k = "\<lambda>e. (key_of e, e)"
  let ?s = "sort_key fst (map ?k l)"
  have keyed: "mapE (\<lambda>e. bindE (entry_key e) (\<lambda>k. Inr (k, e))) l = Inr (map ?k l)"
    using assms(3) by (intro mapE_all) auto
  have "distinct (map fst ?s)"
  proof -
    have "mset (map fst ?s) = mset (map key_of l)"
      by (simp add: image_mset.compositionality comp_def)
    then show ?thesis
      using mset_eq_imp_distinct_iff assms(2) by blast
  qed
  then have fr: "first_repeat ?s = None"
    using first_repeat_Some by (cases "first_repeat ?s") auto
  have "mapE (\<lambda>(k, e). case smlEntryBytes b58 e of Inl x \<Rightarrow> Inl (Bad_entry x) | Inr b \<Rightarrow> Inr (sha256d sha b)) ?s =
      Inr (map (\<lambda>(k, e). sha256d sha (bytes_of b58 e)) ?s)"
    using assms(3) by (intro mapE_all) auto
  then show ?thesis
    using assms(1) keyed fr by (simp add: smlMerkleRoot_def in_key_order_def comp_def case_prod_beta' Let_def)
qed

lemma demo_keys:
  "entry_key (demo_entry c) = Inr (key_of (demo_entry c))" "key_of (demo_entry c) = rev (fromHex (replicate 64 c))"
  by (simp_all add: entry_key_def key_of_def demo_entry_def)

lemma demo_bytes: "hexDigit c \<noteq> None \<Longrightarrow> smlEntryBytes demo_b58 (demo_entry c) = Inr (bytes_of demo_b58 (demo_entry c))"
  by (simp add: bytes_of_def demo_entry_bytes)

lemma fromHex_replicate: "hexDigit c = Some x \<Longrightarrow> fromHex (replicate (2 * n) c) = replicate n (word_of_nat (16 * x + x))"
  by (induction n) simp_all

lemma demo_key: "hexDigit c = Some x \<Longrightarrow> key_of (demo_entry c) = replicate 32 (word_of_nat (16 * x + x))"
  using fromHex_replicate [of c x 32] by (simp add: demo_keys)

lemma demo_digits: "hexDigit CHR ''a'' = Some 10" "hexDigit CHR ''b'' = Some 11" "hexDigit CHR ''c'' = Some 12" "hexDigit CHR ''d'' = Some 13"
  by (simp_all add: hexDigit_def)

lemma demo_keys_differ: "key_of (demo_entry CHR ''a'') \<noteq> key_of (demo_entry CHR ''b'')"
  using demo_key [OF demo_digits(1)] demo_key [OF demo_digits(2)] by (auto simp: replicate_eq_replicate)

lemma demo_length: "hexDigit c = Some x \<Longrightarrow> length (bytes_of demo_b58 (demo_entry c)) = 175"
  using fromHex_replicate [of c x 32] fromHex_replicate [OF demo_digits(2), of 32] fromHex_replicate [OF demo_digits(3), of 48]
    fromHex_replicate [OF demo_digits(4), of 20] by (simp add: bytes_of_def demo_entry_bytes)

lemma demo_list_ok: "\<exists>r. smlMerkleRoot sha demo_b58 [demo_entry CHR ''a'', demo_entry CHR ''b''] = Inr r"
proof -
  have "smlMerkleRoot sha demo_b58 [demo_entry CHR ''a'', demo_entry CHR ''b''] =
      Inr (merkleRootFromLeaves sha (map (\<lambda>e. sha256d sha (bytes_of demo_b58 e)) (in_key_order [demo_entry CHR ''a'', demo_entry CHR ''b''])))"
    using demo_digits demo_keys(1) demo_bytes demo_keys_differ by (intro smlMerkleRoot_accepts) (auto simp: MAX_MN_LIST_ENTRIES_def)
  then show ?thesis
    by blast
qed

theorem sml_root_ignores_order_witness:
  "smlMerkleRoot (\<lambda>b. b) demo_b58 [demo_entry CHR ''b'', demo_entry CHR ''a''] =
    smlMerkleRoot (\<lambda>b. b) demo_b58 [demo_entry CHR ''a'', demo_entry CHR ''b'']"
proof -
  obtain r where r: "smlMerkleRoot (\<lambda>b. b) demo_b58 [demo_entry CHR ''a'', demo_entry CHR ''b''] = Inr r"
    using demo_list_ok by blast
  have "smlMerkleRoot (\<lambda>b. b) demo_b58 [demo_entry CHR ''b'', demo_entry CHR ''a''] = Inr r"
    by (rule sml_root_ignores_order [OF r]) simp
  then show ?thesis
    using r by simp
qed

text \<open>A digest for the next example: 31 leading bytes and the length, and 32-byte inputs as they are.\<close>

definition demo_sha :: "octets \<Rightarrow> octets" where
  "demo_sha b = (if length b = 32 then b else take 31 (b @ replicate 31 0) @ [word_of_nat (length b)])"

lemma demo_sha_length [simp]: "length (demo_sha b) = 32"
  by (cases "length b \<le> 31") (auto simp: demo_sha_def min_def)

lemma demo_sha256d: "length b \<noteq> 32 \<Longrightarrow> sha256d demo_sha b = take 31 (b @ replicate 31 0) @ [word_of_nat (length b)]"
  by (simp add: sha256d_def demo_sha_def)

lemma demo_sha_parts:
  assumes "31 \<le> length b" "length b \<noteq> 32" "31 \<le> length c" "length c \<noteq> 32" "sha256d demo_sha b = sha256d demo_sha c"
    "length b < 256" "length c < 256"
  shows "take 31 b = take 31 c \<and> length b = length c"
proof -
  have "take 31 b @ [word_of_nat (length b)] = take 31 c @ [word_of_nat (length c) :: 8 word]"
    using assms(1-5) by (simp add: demo_sha256d)
  then have "take 31 b = take 31 c" "word_of_nat (length b) = (word_of_nat (length c) :: 8 word)"
    by simp_all
  then show ?thesis
    using unat_octet [OF assms(6)] unat_octet [OF assms(7)] by metis
qed

lemma tree_msgs_two: "tree_msgs H [x, y] = {x @ y}"
  by (subst tree_msgs.simps, subst tree_msgs.simps) simp

end
