(* ===== verification/Tx_Reader.thy ===== *)
theory Tx_Reader
  imports Dml_Root
begin

section \<open>Reading the coinbase (oracle/dml\_commitment.js)\<close>

text \<open>
  The reader over a buffer is the list of the bytes not read yet. What it accepts has one encoding:
  the varints and the whole coinbase transaction are exactly the bytes their values write back.
\<close>

datatype parse_error =
    Truncated | Wide_varint nat | Varint_too_large
  | Not_a_coinbase nat nat | Trailing_bytes nat
  | No_transactions | Too_many_transactions nat | Too_many_flag_bytes nat nat
  | Out_of_bits | Out_of_hashes | Unused_hashes | Unused_flags | Nonzero_padding
  | Header_length nat

definition rd_take :: "nat \<Rightarrow> octets \<Rightarrow> parse_error + octets \<times> octets" where
  "rd_take n bs = (if n \<le> length bs then Inr (take n bs, drop n bs) else Inl Truncated)"

definition rd_uint :: "nat \<Rightarrow> octets \<Rightarrow> parse_error + nat \<times> octets" where
  "rd_uint n bs = bindE (rd_take n bs) (\<lambda>(v, rest). Inr (le_nat v, rest))"

definition rd_u16 :: "octets \<Rightarrow> parse_error + nat \<times> octets" where
  "rd_u16 = rd_uint 2"

definition rd_u32 :: "octets \<Rightarrow> parse_error + nat \<times> octets" where
  "rd_u32 = rd_uint 4"

definition wider :: "nat \<Rightarrow> nat \<times> octets \<Rightarrow> parse_error + nat \<times> octets" where
  "wider least r = (if fst r < least then Inl (Wide_varint (fst r)) else Inr r)"

definition rd_varint :: "octets \<Rightarrow> parse_error + nat \<times> octets" where
  "rd_varint bs =
     (case bs of
        [] \<Rightarrow> Inl Truncated
      | first # rest \<Rightarrow>
          if first < 253 then Inr (unat first, rest)
          else if first = 253 then bindE (rd_u16 rest) (wider 253)
          else if first = 254 then bindE (rd_u32 rest) (wider (2 ^ 16))
          else bindE (rd_uint 8 rest) (\<lambda>r. bindE (wider (2 ^ 32) r) (\<lambda>r.
            if fst r > 2 ^ 53 - 1 then Inl Varint_too_large else Inr r)))"

definition rd_var_bytes :: "octets \<Rightarrow> parse_error + octets \<times> octets" where
  "rd_var_bytes bs = bindE (rd_varint bs) (\<lambda>(n, rest). rd_take n rest)"

subsection \<open>The coinbase transaction\<close>

record tx_input =
  ti_hash :: octets
  ti_index :: nat
  ti_script :: octets
  ti_sequence :: nat

record tx_output =
  to_value :: octets
  to_script :: octets

record coinbase_tx =
  cb_version :: nat
  cb_inputs :: "tx_input list"
  cb_outputs :: "tx_output list"
  cb_lockTime :: nat
  cb_payload :: octets

definition rd_input :: "octets \<Rightarrow> parse_error + tx_input \<times> octets" where
  "rd_input bs =
     bindE (rd_take 32 bs) (\<lambda>(hash, bs).
     bindE (rd_u32 bs) (\<lambda>(index, bs).
     bindE (rd_var_bytes bs) (\<lambda>(script, bs).
     bindE (rd_u32 bs) (\<lambda>(sequence, bs).
       Inr (\<lparr>ti_hash = hash, ti_index = index, ti_script = script, ti_sequence = sequence\<rparr>, bs)))))"

definition rd_output :: "octets \<Rightarrow> parse_error + tx_output \<times> octets" where
  "rd_output bs =
     bindE (rd_take 8 bs) (\<lambda>(value, bs).
     bindE (rd_var_bytes bs) (\<lambda>(script, bs). Inr (\<lparr>to_value = value, to_script = script\<rparr>, bs)))"

fun rd_many :: "(octets \<Rightarrow> parse_error + 'a \<times> octets) \<Rightarrow> nat \<Rightarrow> octets \<Rightarrow> parse_error + 'a list \<times> octets" where
  "rd_many f 0 bs = Inr ([], bs)"
| "rd_many f (Suc n) bs = bindE (f bs) (\<lambda>(x, bs). bindE (rd_many f n bs) (\<lambda>(xs, bs). Inr (x # xs, bs)))"

definition rd_coinbase :: "octets \<Rightarrow> parse_error + coinbase_tx" where
  "rd_coinbase bs =
     bindE (rd_u16 bs) (\<lambda>(version, bs).
     bindE (rd_u16 bs) (\<lambda>(kind, bs).
       if kind \<noteq> 5 then Inl (Not_a_coinbase kind version)
       else bindE (rd_varint bs) (\<lambda>(inputs, bs).
       bindE (rd_many rd_input inputs bs) (\<lambda>(ins, bs).
       bindE (rd_varint bs) (\<lambda>(outputs, bs).
       bindE (rd_many rd_output outputs bs) (\<lambda>(outs, bs).
       bindE (rd_u32 bs) (\<lambda>(lockTime, bs).
       bindE (rd_var_bytes bs) (\<lambda>(payload, bs).
         if bs \<noteq> [] then Inl (Trailing_bytes (length bs))
         else Inr \<lparr>cb_version = version, cb_inputs = ins, cb_outputs = outs, cb_lockTime = lockTime, cb_payload = payload\<rparr>))))))))"

record commitment =
  cm_payloadVersion :: nat
  cm_height :: nat
  cm_merkleRootMNList :: string
  cm_merkleRootQuorums :: "string option"

definition rd_payload :: "octets \<Rightarrow> parse_error + commitment" where
  "rd_payload bs =
     bindE (rd_u16 bs) (\<lambda>(version, bs).
     bindE (rd_u32 bs) (\<lambda>(height, bs).
     bindE (rd_take 32 bs) (\<lambda>(root, bs).
     bindE (if version \<ge> 2 then bindE (rd_take 32 bs) (\<lambda>(q, _). Inr (Some (toHex (rev q)))) else Inr None) (\<lambda>quorums.
       Inr \<lparr>cm_payloadVersion = version, cm_height = height, cm_merkleRootMNList = toHex (rev root),
            cm_merkleRootQuorums = quorums\<rparr>))))"

definition cbTxCommitment :: "string \<Rightarrow> parse_error + commitment" where
  "cbTxCommitment cbTxHex = bindE (rd_coinbase (fromHex cbTxHex)) (\<lambda>tx. rd_payload (cb_payload tx))"

subsection \<open>The bytes a value writes\<close>

definition varint_bytes :: "nat \<Rightarrow> octets" where
  "varint_bytes v =
     (if v < 253 then [word_of_nat v]
      else if v < 2 ^ 16 then 253 # le_bytes 2 v
      else if v < 2 ^ 32 then 254 # le_bytes 4 v
      else 255 # le_bytes 8 v)"

definition var_bytes :: "octets \<Rightarrow> octets" where
  "var_bytes b = varint_bytes (length b) @ b"

definition input_bytes :: "tx_input \<Rightarrow> octets" where
  "input_bytes i = ti_hash i @ le_bytes 4 (ti_index i) @ var_bytes (ti_script i) @ le_bytes 4 (ti_sequence i)"

definition output_bytes :: "tx_output \<Rightarrow> octets" where
  "output_bytes t = to_value t @ var_bytes (to_script t)"

definition coinbase_bytes :: "coinbase_tx \<Rightarrow> octets" where
  "coinbase_bytes t = le_bytes 2 (cb_version t) @ le_bytes 2 5 @
     varint_bytes (length (cb_inputs t)) @ concat (map input_bytes (cb_inputs t)) @
     varint_bytes (length (cb_outputs t)) @ concat (map output_bytes (cb_outputs t)) @
     le_bytes 4 (cb_lockTime t) @ var_bytes (cb_payload t)"

lemma rd_take_iff: "rd_take n bs = Inr (v, rest) \<longleftrightarrow> bs = v @ rest \<and> length v = n"
  by (auto simp: rd_take_def)

lemma rd_uint_iff: "rd_uint n bs = Inr (v, rest) \<longleftrightarrow> v < 256 ^ n \<and> bs = le_bytes n v @ rest"
proof
  assume "rd_uint n bs = Inr (v, rest)"
  then obtain b where b: "bs = b @ rest" "length b = n" "v = le_nat b"
    by (auto simp: rd_uint_def bindE_Inr rd_take_iff)
  show "v < 256 ^ n \<and> bs = le_bytes n v @ rest"
    using le_nat_less [of b] b le_bytes_le_nat [of b] by simp
next
  assume "v < 256 ^ n \<and> bs = le_bytes n v @ rest"
  then show "rd_uint n bs = Inr (v, rest)"
    by (simp add: rd_uint_def rd_take_def le_nat_le_bytes)
qed

lemma rd_u16_iff: "rd_u16 bs = Inr (v, rest) \<longleftrightarrow> v < 2 ^ 16 \<and> bs = le_bytes 2 v @ rest"
  by (simp add: rd_u16_def rd_uint_iff)

lemma rd_u32_iff: "rd_u32 bs = Inr (v, rest) \<longleftrightarrow> v < 2 ^ 32 \<and> bs = le_bytes 4 v @ rest"
  by (simp add: rd_u32_def rd_uint_iff)

lemma wider_iff: "bindE (r :: parse_error + nat \<times> octets) (wider n) = Inr (v, rest) \<longleftrightarrow> r = Inr (v, rest) \<and> n \<le> v"
  by (cases r) (auto simp: wider_def)

lemma wider_Inr: "wider n (a, b) = Inr (v, rest) \<longleftrightarrow> a = v \<and> b = rest \<and> n \<le> v"
  by (auto simp: wider_def)

lemma octet_less: "n < 256 \<Longrightarrow> (b :: 8 word) < word_of_nat n \<longleftrightarrow> unat b < n"
  by (simp add: word_less_nat_alt unat_of_nat)

lemma octet_253: "(b :: 8 word) < 253 \<longleftrightarrow> unat b < 253"
  using octet_less [of 253 b] by simp

lemma octet_cases: "unat (b :: 8 word) < 253 \<or> b = 253 \<or> b = 254 \<or> b = 255"
proof -
  have "unat b < 253 \<or> unat b = 253 \<or> unat b = 254 \<or> unat b = 255"
    using unat_octet_less [of b] by linarith
  moreover have "b = word_of_nat (unat b)"
    by simp
  ultimately show ?thesis
    by (metis of_nat_numeral)
qed

lemma small_octet: "v < 253 \<Longrightarrow> (word_of_nat v :: 8 word) \<noteq> 253 \<and> (word_of_nat v :: 8 word) \<noteq> 254 \<and> (word_of_nat v :: 8 word) \<noteq> 255"
proof -
  assume "v < 253"
  then have "unat (word_of_nat v :: 8 word) < 253"
    by simp
  then show ?thesis
    by auto
qed

lemma varint_canonical:
  "rd_varint bs = Inr (v, rest) \<longleftrightarrow> v < 2 ^ 53 \<and> bs = varint_bytes v @ rest"
proof (cases bs)
  case (Cons b cs)
  consider "unat b < 253" | "b = 253" | "b = 254" | "b = 255"
    using octet_cases by blast
  then show ?thesis
  proof cases
    case 1
    then show ?thesis
      by (auto simp: rd_varint_def Cons octet_253 varint_bytes_def small_octet split: if_splits)
  next
    case 2
    then show ?thesis
      by (auto simp: rd_varint_def Cons wider_iff rd_u16_iff varint_bytes_def small_octet split: if_splits)
  next
    case 3
    then show ?thesis
      by (auto simp: rd_varint_def Cons wider_iff rd_u32_iff varint_bytes_def small_octet split: if_splits)
  next
    case 4
    have "rd_varint bs = Inr (v, rest) \<longleftrightarrow> v < 2 ^ 64 \<and> cs = le_bytes 8 v @ rest \<and> 2 ^ 32 \<le> v \<and> v < 2 ^ 53"
      using 4 by (auto simp: rd_varint_def Cons bindE_Inr wider_Inr rd_uint_iff split: if_splits)
    then show ?thesis
      using 4 by (auto simp: Cons varint_bytes_def small_octet split: if_splits)
  qed
qed (simp add: rd_varint_def varint_bytes_def)

definition input_ok :: "tx_input \<Rightarrow> bool" where
  "input_ok i \<longleftrightarrow> length (ti_hash i) = 32 \<and> ti_index i < 2 ^ 32 \<and> length (ti_script i) < 2 ^ 53 \<and> ti_sequence i < 2 ^ 32"

definition output_ok :: "tx_output \<Rightarrow> bool" where
  "output_ok t \<longleftrightarrow> length (to_value t) = 8 \<and> length (to_script t) < 2 ^ 53"

definition coinbase_ok :: "coinbase_tx \<Rightarrow> bool" where
  "coinbase_ok t \<longleftrightarrow> cb_version t < 2 ^ 16 \<and>
     length (cb_inputs t) < 2 ^ 53 \<and> list_all input_ok (cb_inputs t) \<and>
     length (cb_outputs t) < 2 ^ 53 \<and> list_all output_ok (cb_outputs t) \<and>
     cb_lockTime t < 2 ^ 32 \<and> length (cb_payload t) < 2 ^ 53"

lemma bindE_pair_Inr:
  "bindE r (\<lambda>(a, b). f a b) = Inr y \<longleftrightarrow> (\<exists>a b. r = Inr (a, b) \<and> f a b = Inr y)"
  by (cases r) auto

lemma if_Inl_Inr: "(if c then Inl e else r) = Inr y \<longleftrightarrow> \<not> c \<and> r = Inr y"
  by simp

lemma rd_var_bytes_iff: "rd_var_bytes bs = Inr (b, rest) \<longleftrightarrow> length b < 2 ^ 53 \<and> bs = var_bytes b @ rest"
  unfolding rd_var_bytes_def bindE_pair_Inr varint_canonical rd_take_iff var_bytes_def by auto

lemma rd_input_iff: "rd_input bs = Inr (i, rest) \<longleftrightarrow> input_ok i \<and> bs = input_bytes i @ rest"
  unfolding rd_input_def bindE_pair_Inr rd_take_iff rd_u32_iff rd_var_bytes_iff input_ok_def input_bytes_def
  by (cases i) auto

lemma rd_output_iff: "rd_output bs = Inr (t, rest) \<longleftrightarrow> output_ok t \<and> bs = output_bytes t @ rest"
  unfolding rd_output_def bindE_pair_Inr rd_take_iff rd_var_bytes_iff output_ok_def output_bytes_def
  by (cases t) auto

lemma rd_many_iff:
  assumes "\<And>bs x rest. f bs = Inr (x, rest) \<longleftrightarrow> ok x \<and> bs = w x @ rest"
  shows "rd_many f n bs = Inr (xs, rest) \<longleftrightarrow> length xs = n \<and> list_all ok xs \<and> bs = concat (map w xs) @ rest"
proof (induction n arbitrary: bs xs rest)
  case (Suc n)
  show ?case
    unfolding rd_many.simps bindE_pair_Inr assms Suc by (cases xs) auto
qed auto

lemma rd_coinbase_iff: "rd_coinbase bs = Inr t \<longleftrightarrow> coinbase_ok t \<and> bs = coinbase_bytes t"
  unfolding rd_coinbase_def bindE_pair_Inr if_Inl_Inr rd_u16_iff rd_u32_iff varint_canonical rd_var_bytes_iff
    rd_many_iff [of rd_input input_ok input_bytes, OF rd_input_iff]
    rd_many_iff [of rd_output output_ok output_bytes, OF rd_output_iff] coinbase_ok_def coinbase_bytes_def
  by (cases t) auto

text \<open>C24: the coinbase has one accepted encoding: the reader accepts exactly the bytes its fields write back,
  with every varint in its shortest form and nothing after the payload.\<close>

theorem coinbase_canonical: "rd_coinbase bs = Inr t \<longleftrightarrow> coinbase_ok t \<and> bs = coinbase_bytes t"
  by (rule rd_coinbase_iff)

lemma fromHex_stops: "hexDigit a = None \<Longrightarrow> fromHex (toHex bs @ a # s) = bs"
proof (induction bs)
  case Nil
  then show ?case
    by (cases s) (simp_all add: toHex_def)
next
  case (Cons b bs)
  have "unat b div 16 < 16" "unat b mod 16 < 16"
    using unat_octet_less [of b] by (simp_all add: less_mult_imp_div_less)
  then show ?case
    using Cons by (simp add: toHex_def)
qed

text \<open>The check that the whole transaction was consumed is over the bytes: text after the hexadecimal digits
  is dropped before it.\<close>

lemma text_after_the_coinbase_is_dropped:
  "hexDigit a = None \<Longrightarrow> cbTxCommitment (toHex bs @ a # s) = cbTxCommitment (toHex bs)"
  by (simp add: cbTxCommitment_def fromHex_stops)

end
