(* ===== verification/Partial_Tree.thy ===== *)
theory Partial_Tree
  imports Tx_Reader "HOL-Library.While_Combinator" "HOL-Library.Signed_Division"
begin

section \<open>The branch to the coinbase (oracle/dml\_commitment.js, partialMerkleTree)\<close>

text \<open>
  A serialized partial merkle tree is walked from its root. The height loop compares a signed 32-bit shift
  whose count wraps at 32, so it need not end: its value is an option, and the bound on the number of
  transactions is what makes it one that always returns. \<open>wk_hashed\<close> and \<open>pt_hashed\<close> keep the messages the
  walk hashed, for the statements only.
\<close>

definition js_shl1 :: "nat \<Rightarrow> int" where
  "js_shl1 k = sint (push_bit (k mod 32) 1 :: 32 word)"

definition tree_height :: "nat \<Rightarrow> nat option" where
  "tree_height n = while_option (\<lambda>h. js_shl1 h < int n) Suc 0"

definition widthAt :: "nat \<Rightarrow> nat \<Rightarrow> nat" where
  "widthAt n h = nat ((int n + js_shl1 h - 1) div js_shl1 h)"

definition bitAt :: "octets \<Rightarrow> nat \<Rightarrow> bool" where
  "bitAt flags i = bit (flags ! (i div 8)) (i mod 8)"

record walk_state =
  wk_bitsUsed :: nat
  wk_hashesUsed :: nat
  wk_matched :: "(octets \<times> nat) list"
  wk_hashed :: "octets list"

fun walk :: "(octets \<Rightarrow> octets) \<Rightarrow> nat \<Rightarrow> octets list \<Rightarrow> octets \<Rightarrow> nat \<Rightarrow> nat \<Rightarrow> walk_state
    \<Rightarrow> parse_error + octets \<times> walk_state" where
  "walk sha n hashes flags h pos s =
     (if wk_bitsUsed s \<ge> 8 * length flags then Inl Out_of_bits
      else
        let descend = bitAt flags (wk_bitsUsed s);
            s = s\<lparr>wk_bitsUsed := wk_bitsUsed s + 1\<rparr>
        in (case (h, descend) of
              (Suc h, True) \<Rightarrow>
                bindE (walk sha n hashes flags h (pos * 2) s) (\<lambda>(left, s).
                bindE (if pos * 2 + 1 < widthAt n h then walk sha n hashes flags h (pos * 2 + 1) s else Inr (left, s)) (\<lambda>(right, s).
                  Inr (sha256d sha (left @ right), s\<lparr>wk_hashed := wk_hashed s @ [left @ right]\<rparr>)))
            | _ \<Rightarrow>
                if wk_hashesUsed s \<ge> length hashes then Inl Out_of_hashes
                else
                  let hash = hashes ! wk_hashesUsed s;
                      s = s\<lparr>wk_hashesUsed := wk_hashesUsed s + 1\<rparr>
                  in Inr (hash, if h = 0 \<and> descend then s\<lparr>wk_matched := wk_matched s @ [(hash, pos)]\<rparr> else s)))"

declare walk.simps [simp del]

record merkle_branch =
  pt_root :: octets
  pt_matched :: "(octets \<times> nat) list"
  pt_nTransactions :: nat
  pt_hashed :: "octets list"

definition MAX_TREE_TRANSACTIONS :: nat where
  "MAX_TREE_TRANSACTIONS = 2 ^ 24"

definition maxFlagBytes :: "nat \<Rightarrow> nat" where
  "maxFlagBytes n = (2 * n + 64 + 7) div 8"

definition rd_counts :: "octets \<Rightarrow> parse_error + (nat \<times> octets list) \<times> octets" where
  "rd_counts bs =
     bindE (rd_u32 bs) (\<lambda>(n, bs).
       if n = 0 then Inl No_transactions
       else if n > MAX_TREE_TRANSACTIONS then Inl (Too_many_transactions n)
       else bindE (rd_varint bs) (\<lambda>(nHashes, bs).
            bindE (rd_many (rd_take 32) nHashes bs) (\<lambda>(hashes, bs). Inr ((n, hashes), bs))))"

definition rd_flags :: "nat \<Rightarrow> octets \<Rightarrow> parse_error + octets \<times> octets" where
  "rd_flags n bs =
     bindE (rd_varint bs) (\<lambda>(declared, bs).
       if declared > maxFlagBytes n then Inl (Too_many_flag_bytes declared n) else rd_take declared bs)"

definition walk_start :: walk_state where
  "walk_start = \<lparr>wk_bitsUsed = 0, wk_hashesUsed = 0, wk_matched = [], wk_hashed = []\<rparr>"

definition walk_all :: "(octets \<Rightarrow> octets) \<Rightarrow> nat \<Rightarrow> octets list \<Rightarrow> octets \<Rightarrow> octets \<Rightarrow> nat \<Rightarrow> parse_error + merkle_branch" where
  "walk_all sha n hashes flags rest height =
     bindE (walk sha n hashes flags height 0 walk_start) (\<lambda>(root, s).
       if wk_hashesUsed s \<noteq> length hashes then Inl Unused_hashes
       else if (wk_bitsUsed s + 7) div 8 \<noteq> length flags then Inl Unused_flags
       else if list_ex (bitAt flags) [wk_bitsUsed s ..< 8 * length flags] then Inl Nonzero_padding
       else if rest \<noteq> [] then Inl (Trailing_bytes (length rest))
       else Inr \<lparr>pt_root = root, pt_matched = wk_matched s, pt_nTransactions = n, pt_hashed = wk_hashed s\<rparr>)"

definition partialMerkleTree :: "(octets \<Rightarrow> octets) \<Rightarrow> string \<Rightarrow> (parse_error + merkle_branch) option" where
  "partialMerkleTree sha hex =
     (case bindE (rd_counts (fromHex hex)) (\<lambda>((n, hashes), bs).
           bindE (rd_flags n bs) (\<lambda>(flags, bs). Inr (n, hashes, flags, bs))) of
        Inl e \<Rightarrow> Some (Inl e)
      | Inr (n, hashes, flags, rest) \<Rightarrow> map_option (walk_all sha n hashes flags rest) (tree_height n))"

subsection \<open>The height loop\<close>

lemma js_shl1_small: "k < 31 \<Longrightarrow> js_shl1 k = 2 ^ k"
proof -
  assume k: "k < 31"
  then have "(2 :: int) ^ k < 2 ^ 31"
    by (intro power_strict_increasing) simp_all
  moreover from this have "uint ((2 :: 32 word) ^ k) = 2 ^ k"
    using uint_word_of_int_eq [where 'a = 32, of "2 ^ k"] k by (simp add: take_bit_int_eq_self)
  moreover from \<open>2 ^ k < 2 ^ 31\<close> have "signed_take_bit 31 ((2 :: int) ^ k) = 2 ^ k"
    by (intro signed_take_bit_int_eq_self) (auto intro: order_trans [of _ 0])
  ultimately show ?thesis
    using k by (simp add: js_shl1_def push_bit_eq_mult sint_uint)
qed

lemma js_shl1_31: "js_shl1 31 = - (2 ^ 31)"
  by (simp add: js_shl1_def)

lemma js_shl1_mod: "js_shl1 (k mod 32) = js_shl1 k"
  by (simp add: js_shl1_def)

lemma js_shl1_le: "js_shl1 k \<le> 2 ^ 30"
proof (cases "k mod 32 = 31")
  case True
  then show ?thesis
    using js_shl1_mod [of k] js_shl1_31 by simp
next
  case False
  have "k mod 32 < 32"
    by simp
  with False have "k mod 32 < 31"
    by linarith
  then have "js_shl1 k = 2 ^ (k mod 32)" "(2::int) ^ (k mod 32) \<le> 2 ^ 30"
    using js_shl1_small [of "k mod 32"] js_shl1_mod [of k] power_increasing [of "k mod 32" 30 "2::int"] by simp_all
  then show ?thesis
    by simp
qed

lemma of_nat_le_two_power: "int n \<le> 2 ^ k \<longleftrightarrow> n \<le> 2 ^ k"
  using of_nat_le_iff [of n "2 ^ k", where 'a = int] by simp

lemma Suc_power_zero: "(Suc ^^ k) 0 = k"
  by (induction k) simp_all

lemma tree_height_unfold:
  "tree_height n = (if \<exists>k. int n \<le> js_shl1 k then Some (LEAST k. int n \<le> js_shl1 k) else None)"
  by (simp add: tree_height_def while_option_def Suc_power_zero not_less)

text \<open>The height loop ends exactly when the number of transactions is at most 2^30, and then with
  the least height whose full tree has that many leaves; past that it runs for ever.\<close>

lemma height_loop_ends:
  "tree_height n = (if n \<le> 2 ^ 30 then Some (LEAST h. n \<le> 2 ^ h) else None)"
proof (cases "n \<le> 2 ^ 30")
  case True
  then have "int n \<le> js_shl1 30"
    by (simp add: js_shl1_small)
  moreover have "(LEAST k. int n \<le> js_shl1 k) = (LEAST h. n \<le> 2 ^ h)"
  proof (rule Least_equality)
    have l: "(LEAST h. n \<le> 2 ^ h) \<le> 30"
      using True by (rule Least_le)
    then have "(LEAST h. n \<le> 2 ^ h) < 31"
      by simp
    moreover have "n \<le> 2 ^ (LEAST h. n \<le> 2 ^ h)"
      using True by (rule LeastI)
    ultimately show "int n \<le> js_shl1 (LEAST h. n \<le> 2 ^ h)"
      by (simp add: js_shl1_small of_nat_le_two_power)
  next
    fix k
    assume "int n \<le> js_shl1 k"
    then have "k < 31 \<Longrightarrow> n \<le> 2 ^ k"
      by (simp add: js_shl1_small of_nat_le_two_power)
    moreover have "(LEAST h. n \<le> 2 ^ h) \<le> 30"
      using True by (rule Least_le)
    ultimately show "(LEAST h. n \<le> 2 ^ h) \<le> k"
      by (cases "k < 31") (auto intro: Least_le)
  qed
  ultimately show ?thesis
    using True by (auto simp: tree_height_unfold)
next
  case False
  then have "js_shl1 k < int n" for k
    using js_shl1_le [of k] of_nat_le_two_power [of n 30] by linarith
  then show ?thesis
    using False by (simp add: tree_height_unfold not_le)
qed

definition height_of :: "nat \<Rightarrow> nat" where
  "height_of n = (LEAST h. n \<le> 2 ^ h)"

lemma le_height_of: "n \<le> 2 ^ k \<Longrightarrow> n \<le> 2 ^ height_of n \<and> height_of n \<le> k"
  unfolding height_of_def by (meson LeastI Least_le)

lemma rd_hash_iff: "rd_take 32 bs = Inr (v, rest) \<longleftrightarrow> length v = 32 \<and> bs = v @ rest"
  by (auto simp: rd_take_iff)

lemma rd_counts_iff:
  "rd_counts bs = Inr ((n, hashes), rest) \<longleftrightarrow> 0 < n \<and> n \<le> 2 ^ 24 \<and> all_32 hashes \<and> length hashes < 2 ^ 53 \<and>
     bs = le_bytes 4 n @ varint_bytes (length hashes) @ concat hashes @ rest"
  unfolding rd_counts_def bindE_pair_Inr if_Inl_Inr rd_u32_iff varint_canonical
    rd_many_iff [of "rd_take 32" "\<lambda>x. length x = 32" "\<lambda>x. x", OF rd_hash_iff]
  by (auto simp: MAX_TREE_TRANSACTIONS_def all_32_def list_all_iff)

lemma rd_flags_iff:
  "rd_flags n bs = Inr (flags, rest) \<longleftrightarrow> length flags \<le> maxFlagBytes n \<and> length flags < 2 ^ 53 \<and>
     bs = varint_bytes (length flags) @ flags @ rest"
  unfolding rd_flags_def bindE_pair_Inr if_Inl_Inr varint_canonical rd_take_iff by auto

lemma branch_returns: "\<exists>r. partialMerkleTree sha hex = Some r"
proof (cases "rd_counts (fromHex hex)")
  case (Inr r)
  obtain n hashes bs where r: "r = ((n, hashes), bs)"
    by (metis prod.exhaust)
  then have "n \<le> 2 ^ 24"
    using rd_counts_iff Inr by blast
  then have "tree_height n = Some (height_of n)"
    by (simp add: height_loop_ends height_of_def)
  then show ?thesis
    by (cases "rd_flags n bs") (auto simp: partialMerkleTree_def Inr r)
qed (simp add: partialMerkleTree_def)

text \<open>C23: reading a branch always returns: whatever bytes the node sends, the number of transactions is
  refused or the height loop ends, so the value is an error or a branch and never the missing one.\<close>

theorem branch_always_returns: "\<exists>r. partialMerkleTree sha hex = Some r"
  by (rule branch_returns)

subsection \<open>The bound on the flag bytes refuses nothing a walk could use\<close>

text \<open>The tree over \<open>n\<close> leaves below a node: its leaves and its nodes.\<close>

definition leaves_below :: "nat \<Rightarrow> nat \<Rightarrow> nat \<Rightarrow> nat" where
  "leaves_below n h pos = min n ((pos + 1) * 2 ^ h) - pos * 2 ^ h"

lemma widthAt_eq: "h < 31 \<Longrightarrow> 0 < n \<Longrightarrow> widthAt n h = (n + 2 ^ h - 1) div 2 ^ h"
proof -
  assume "h < 31" "0 < n"
  then have "int n + js_shl1 h - 1 = int (n + 2 ^ h - 1)" "js_shl1 h = int (2 ^ h)"
    by (simp_all add: js_shl1_small of_nat_diff)
  then show ?thesis
    unfolding widthAt_def by (simp only: zdiv_int [symmetric] nat_int)
qed

lemma widthAt_less: "h < 31 \<Longrightarrow> 0 < n \<Longrightarrow> pos < widthAt n h \<longleftrightarrow> pos * 2 ^ h < n"
proof -
  assume "h < 31" "0 < n"
  moreover have "Suc pos \<le> (n + 2 ^ h - 1) div 2 ^ h \<longleftrightarrow> Suc pos * 2 ^ h \<le> n + 2 ^ h - 1"
    by (rule less_eq_div_iff_mult_less_eq) simp
  ultimately show ?thesis
    by (simp add: widthAt_eq Suc_le_eq) linarith
qed

inductive walked :: "(octets \<Rightarrow> octets) \<Rightarrow> nat \<Rightarrow> octets list \<Rightarrow> octets \<Rightarrow> nat \<Rightarrow> nat \<Rightarrow> walk_state \<Rightarrow> octets \<Rightarrow> walk_state \<Rightarrow> bool"
  for sha n hashes flags where
  stop: "h = 0 \<or> \<not> bitAt flags (wk_bitsUsed s) \<Longrightarrow> wk_bitsUsed s < 8 * length flags \<Longrightarrow> wk_hashesUsed s < length hashes \<Longrightarrow>
     walked sha n hashes flags h pos s (hashes ! wk_hashesUsed s)
       (s\<lparr>wk_bitsUsed := wk_bitsUsed s + 1, wk_hashesUsed := wk_hashesUsed s + 1,
          wk_matched := wk_matched s @ (if bitAt flags (wk_bitsUsed s) then [(hashes ! wk_hashesUsed s, pos)] else [])\<rparr>)"
| both: "bitAt flags (wk_bitsUsed s) \<Longrightarrow> wk_bitsUsed s < 8 * length flags \<Longrightarrow> pos * 2 + 1 < widthAt n h \<Longrightarrow>
     walked sha n hashes flags h (pos * 2) (s\<lparr>wk_bitsUsed := wk_bitsUsed s + 1\<rparr>) left sl \<Longrightarrow>
     walked sha n hashes flags h (pos * 2 + 1) sl right sr \<Longrightarrow>
     walked sha n hashes flags (Suc h) pos s (sha256d sha (left @ right)) (sr\<lparr>wk_hashed := wk_hashed sr @ [left @ right]\<rparr>)"
| single: "bitAt flags (wk_bitsUsed s) \<Longrightarrow> wk_bitsUsed s < 8 * length flags \<Longrightarrow> \<not> pos * 2 + 1 < widthAt n h \<Longrightarrow>
     walked sha n hashes flags h (pos * 2) (s\<lparr>wk_bitsUsed := wk_bitsUsed s + 1\<rparr>) left sl \<Longrightarrow>
     walked sha n hashes flags (Suc h) pos s (sha256d sha (left @ left)) (sl\<lparr>wk_hashed := wk_hashed sl @ [left @ left]\<rparr>)"

lemma walk_Suc:
  "bitAt flags (wk_bitsUsed s) \<Longrightarrow> walk sha n hashes flags (Suc h) pos s =
     (if wk_bitsUsed s \<ge> 8 * length flags then Inl Out_of_bits
      else bindE (walk sha n hashes flags h (pos * 2) (s\<lparr>wk_bitsUsed := wk_bitsUsed s + 1\<rparr>)) (\<lambda>(left, s).
           bindE (if pos * 2 + 1 < widthAt n h then walk sha n hashes flags h (pos * 2 + 1) s else Inr (left, s)) (\<lambda>(right, s).
             Inr (sha256d sha (left @ right), s\<lparr>wk_hashed := wk_hashed s @ [left @ right]\<rparr>))))"
  by (subst walk.simps) (simp add: Let_def)

lemma walk_walked:
  "walk sha n hashes flags h pos s = Inr (x, s') \<Longrightarrow> walked sha n hashes flags h pos s x s'"
proof (induction h arbitrary: pos s x s')
  case 0
  then show ?case
    using walked.stop [of 0 flags s hashes sha n pos] by (subst (asm) walk.simps) (auto simp: Let_def split: if_splits)
next
  case (Suc h)
  show ?case
  proof (cases "bitAt flags (wk_bitsUsed s)")
    case False
    then show ?thesis
      using Suc.prems walked.stop [of "Suc h" flags s hashes sha n pos]
      by (subst (asm) walk.simps) (auto simp: Let_def split: if_splits)
  next
    case True
    then have b: "wk_bitsUsed s < 8 * length flags"
      and w: "bindE (walk sha n hashes flags h (pos * 2) (s\<lparr>wk_bitsUsed := wk_bitsUsed s + 1\<rparr>)) (\<lambda>(left, s).
           bindE (if pos * 2 + 1 < widthAt n h then walk sha n hashes flags h (pos * 2 + 1) s else Inr (left, s)) (\<lambda>(right, s).
             Inr (sha256d sha (left @ right), s\<lparr>wk_hashed := wk_hashed s @ [left @ right]\<rparr>))) = Inr (x, s')"
      using Suc.prems unfolding walk_Suc [OF True] if_Inl_Inr by simp_all
    then obtain left sl where l: "walked sha n hashes flags h (pos * 2) (s\<lparr>wk_bitsUsed := wk_bitsUsed s + 1\<rparr>) left sl"
      and r: "bindE (if pos * 2 + 1 < widthAt n h then walk sha n hashes flags h (pos * 2 + 1) sl else Inr (left, sl)) (\<lambda>(right, s).
             Inr (sha256d sha (left @ right), s\<lparr>wk_hashed := wk_hashed s @ [left @ right]\<rparr>)) = Inr (x, s')"
      using Suc.IH unfolding bindE_pair_Inr by blast
    show ?thesis
    proof (cases "pos * 2 + 1 < widthAt n h")
      case True
      then show ?thesis
        using r walked.both [OF \<open>bitAt flags (wk_bitsUsed s)\<close> b True l] Suc.IH unfolding bindE_pair_Inr by auto
    next
      case False
      then show ?thesis
        using r walked.single [OF \<open>bitAt flags (wk_bitsUsed s)\<close> b False l] by simp
    qed
  qed
qed

lemma leaves_below_split:
  "(pos * 2 + 1) * 2 ^ h < n \<Longrightarrow> leaves_below n (Suc h) pos = 2 ^ h + leaves_below n h (pos * 2 + 1)"
  by (simp add: leaves_below_def min_def algebra_simps)

lemma leaves_below_left: "leaves_below n h (pos * 2) \<le> leaves_below n (Suc h) pos"
  by (auto simp: leaves_below_def min_def algebra_simps)

lemma leaves_below_pos: "pos * 2 ^ h < n \<Longrightarrow> 0 < leaves_below n h pos"
  by (simp add: leaves_below_def)

lemma walked_bits_full:
  "walked sha n hashes flags h pos s x s' \<Longrightarrow> wk_bitsUsed s' < wk_bitsUsed s + 2 * 2 ^ h"
proof (induction rule: walked.induct)
  case (stop h s pos)
  have "(1::nat) \<le> 2 ^ h"
    by simp
  then have "(1::nat) < 2 * 2 ^ h"
    by linarith
  then show ?case
    by simp
next
  case (single s pos h left sl)
  have "wk_bitsUsed sl < wk_bitsUsed s + 1 + 2 * 2 ^ h"
    using single.IH by simp
  moreover have "(1::nat) \<le> 2 ^ h"
    by simp
  ultimately have "wk_bitsUsed sl < wk_bitsUsed s + 2 * (2 * 2 ^ h)"
    by linarith
  then show ?case
    by simp
qed simp

lemma walked_bits:
  assumes "walked sha n hashes flags h pos s x s'" and "h < 31" and "pos * 2 ^ h < n"
  shows "wk_bitsUsed s' < wk_bitsUsed s + 2 * leaves_below n h pos + h"
  using assms
proof (induction rule: walked.induct)
  case (stop h s pos)
  then show ?case
    using leaves_below_pos [of pos h n] by simp
next
  case (both s pos h left sl right sr)
  then have "(pos * 2 + 1) * 2 ^ h < n"
    using widthAt_less [of h n "pos * 2 + 1"] by simp
  then show ?case
    using both.IH(2) both.prems(1) walked_bits_full [OF both.hyps(4)] leaves_below_split [of pos h n] by simp
next
  case (single s pos h left sl)
  then show ?case
    using leaves_below_left [of n h pos] by (simp add: algebra_simps)
qed

lemma height_of_24: "n \<le> 2 ^ 24 \<Longrightarrow> height_of n \<le> 24"
  using le_height_of by blast

text \<open>The a-priori bound on the flag bytes costs no proof: every walk that ends has read few enough bits that
  the check for unused flag bytes would refuse any longer flag field anyway.\<close>

lemma flag_bound_refuses_no_branch:
  assumes "0 < n" and "n \<le> MAX_TREE_TRANSACTIONS" and "walk_all sha n hashes flags rest (height_of n) = Inr b"
  shows "length flags \<le> maxFlagBytes n"
proof -
  from assms(3) obtain root s where w: "walk sha n hashes flags (height_of n) 0 walk_start = Inr (root, s)"
    and l: "(wk_bitsUsed s + 7) div 8 = length flags"
    unfolding walk_all_def bindE_pair_Inr if_Inl_Inr by auto
  have h: "height_of n \<le> 24"
    using height_of_24 assms(2) by (simp add: MAX_TREE_TRANSACTIONS_def)
  have "wk_bitsUsed s < 2 * leaves_below n (height_of n) 0 + height_of n"
    using walked_bits [OF walk_walked [OF w]] h assms(1) by (simp add: walk_start_def)
  then have "wk_bitsUsed s \<le> 2 * n + 64"
    using h by (simp add: leaves_below_def)
  then show ?thesis
    unfolding l [symmetric] maxFlagBytes_def by (intro div_le_mono) simp
qed

subsection \<open>What a matched leaf says of the block\<close>

definition level_of :: "(octets \<Rightarrow> octets) \<Rightarrow> octets list \<Rightarrow> nat \<Rightarrow> octets list" where
  "level_of H T h = (pair_up H ^^ h) T"

lemma level_of_simps: "level_of H T 0 = T" "level_of H T (Suc h) = pair_up H (level_of H T h)"
  by (simp_all add: level_of_def)

lemma pair_up_nth:
  "i * 2 < length xs \<Longrightarrow>
   pair_up H xs ! i = H (xs ! (i * 2) @ (if i * 2 + 1 < length xs then xs ! (i * 2 + 1) else xs ! (i * 2)))
   \<and> xs ! (i * 2) @ (if i * 2 + 1 < length xs then xs ! (i * 2 + 1) else xs ! (i * 2)) \<in> set (pair_msgs xs)"
proof (induction xs arbitrary: i rule: pair_msgs.induct)
  case (1 a b rest)
  show ?case
  proof (cases i)
    case (Suc k)
    then have "k * 2 < length rest"
      using "1.prems" by simp
    from "1.IH" [OF this] show ?thesis
      by (auto simp: Suc split: if_splits)
  qed simp
qed auto

lemma length_level_of: "h < 31 \<Longrightarrow> 0 < length T \<Longrightarrow> length (level_of H T h) = widthAt (length T) h"
proof (induction h)
  case (Suc h)
  have "(length T + 2 ^ h - 1) div 2 ^ h + 1 = (length T + 2 * 2 ^ h - 1) div 2 ^ h"
  proof -
    have "length T + 2 * 2 ^ h - 1 = (length T + 2 ^ h - 1) + 2 ^ h"
      using Suc.prems(2) by linarith
    then show ?thesis
      by (simp only: div_add_self2 [OF power_not_zero [OF zero_neq_numeral [symmetric]]])
  qed
  then show ?case
    using Suc by (simp add: level_of_simps widthAt_eq mult.commute flip: div_mult2_eq)
qed (simp add: level_of_simps widthAt_eq)

lemma level_of_msgs: "length (level_of H T h) > 1 \<Longrightarrow> set (pair_msgs (level_of H T h)) \<subseteq> tree_msgs H T"
proof (induction h arbitrary: T)
  case (Suc h)
  have l: "level_of H T (Suc h) = level_of H (pair_up H T) h"
    by (simp add: level_of_def funpow_swap1)
  have "length T > 1"
  proof (rule ccontr)
    assume "\<not> length T > 1"
    then have "length (level_of H T k) \<le> 1" for k
      by (induction k) (simp_all add: level_of_simps)
    then show False
      using Suc.prems by (metis leD)
  qed
  then show ?case
    using Suc.IH [of "pair_up H T"] Suc.prems tree_msgs_step [of T H] unfolding l by blast
qed (simp add: level_of_def tree_msgs_step)

lemma walked_length:
  assumes "walked sha n hashes flags h pos s x s'" and "\<And>z. length (sha z) = 32" and "all_32 hashes"
  shows "length x = 32"
  using assms by (induction rule: walked.induct) (auto simp: all_32_def sha256d_def)

lemma walked_hashed: "walked sha n hashes flags h pos s x s' \<Longrightarrow> set (wk_hashed s) \<subseteq> set (wk_hashed s')"
  by (induction rule: walked.induct) auto

lemma all_32_level_of: "all_32 T \<Longrightarrow> (\<And>z. length (H z) = 32) \<Longrightarrow> all_32 (level_of H T h)"
  by (induction h) (simp_all add: level_of_simps all_32_pair_up)

lemma node_children:
  fixes sha T h
  defines "L \<equiv> level_of (sha256d sha) T h"
  assumes len: "\<And>z. length (sha z) = 32" and T: "all_32 T" "length T = n" and h: "h < 31" "pos * (2 * 2 ^ h) < n" "2 ^ h < n"
    and inj: "inj_on (sha256d sha) (tree_msgs (sha256d sha) T \<union> M)" and M: "left @ right \<in> M"
    and node: "sha256d sha (left @ right) = level_of (sha256d sha) T (Suc h) ! pos" and left: "length left = 32"
  shows "left = L ! (pos * 2)" and "right = (if pos * 2 + 1 < widthAt n h then L ! (pos * 2 + 1) else L ! (pos * 2))"
proof -
  let ?H = "sha256d sha"
  have L: "length L = widthAt n h"
    using length_level_of [of h T ?H] h T unfolding L_def by force
  have w: "pos * 2 < length L"
    using widthAt_less [of h n "pos * 2"] h by (simp add: L mult.assoc)
  let ?m = "L ! (pos * 2) @ (if pos * 2 + 1 < length L then L ! (pos * 2 + 1) else L ! (pos * 2))"
  have eq: "?H (left @ right) = ?H ?m" and mem: "?m \<in> set (pair_msgs L)"
    using node pair_up_nth [OF w, of ?H] by (auto simp: level_of_simps L_def)
  have "length L > 1"
    using widthAt_less [of h n 1] h by (simp add: L)
  then have "?m \<in> tree_msgs ?H T"
    using mem level_of_msgs [of ?H T h] unfolding L_def by blast
  then have m: "left @ right = ?m"
    using inj M eq by (auto dest: inj_onD)
  have "length (L ! (pos * 2)) = 32"
    using all_32_level_of [OF T(1), of ?H h] len w unfolding L_def all_32_def sha256d_def by simp
  then show "left = L ! (pos * 2)" and "right = (if pos * 2 + 1 < widthAt n h then L ! (pos * 2 + 1) else L ! (pos * 2))"
    using m left unfolding L [symmetric] by (simp_all split: if_splits)
qed

lemma walked_matches:
  assumes "walked sha n hashes flags h pos s x s'"
    and len: "\<And>z. length (sha z) = 32" and T: "all_32 T" "length T = n" and hs: "all_32 hashes"
    and "h < 31" and "2 ^ h < 2 * n" and "pos * 2 ^ h < n"
    and "inj_on (sha256d sha) (tree_msgs (sha256d sha) T \<union> set (wk_hashed s'))"
    and "x = level_of (sha256d sha) T h ! pos"
    and "\<forall>(y, i)\<in>set (wk_matched s). T ! i = y \<and> i < n"
  shows "\<forall>(y, i)\<in>set (wk_matched s'). T ! i = y \<and> i < n"
  using assms(1,6-)
proof (induction rule: walked.induct)
  case (stop h s pos)
  then show ?case
    by (auto simp: level_of_simps split: if_splits)
next
  case (both s pos h left sl right sr)
  let ?H = "sha256d sha" and ?L = "level_of (sha256d sha) T h"
  have h: "h < 31" "(pos * 2 + 1) * 2 ^ h < n" "pos * 2 * 2 ^ h < n"
    using both widthAt_less [of h n "pos * 2 + 1"] by simp_all
  have "left = ?L ! (pos * 2)" "right = ?L ! (pos * 2 + 1)"
    using node_children [OF len T, where h = h and pos = pos and M = "set (wk_hashed sr) \<union> {left @ right}" and left = left and right = right]
      walked_length [OF both.hyps(4) len hs] both.prems both.hyps(3) h by (simp_all add: mult.assoc)
  moreover have "inj_on ?H (tree_msgs ?H T \<union> set (wk_hashed sr))" "inj_on ?H (tree_msgs ?H T \<union> set (wk_hashed sl))"
    using both.prems(4) walked_hashed [OF both.hyps(5)] by (auto elim!: inj_on_subset)
  ultimately show ?case
    using both.IH both.prems(6) h by simp
next
  case (single s pos h left sl)
  let ?H = "sha256d sha" and ?L = "level_of (sha256d sha) T h"
  have h: "h < 31" "pos * 2 * 2 ^ h < n" "2 ^ h < 2 * n"
    using single by simp_all
  have "left = ?L ! (pos * 2)"
    using node_children [OF len T, where h = h and pos = pos and M = "set (wk_hashed sl) \<union> {left @ left}" and left = left and right = left]
      walked_length [OF single.hyps(4) len hs] single.prems single.hyps(3) h by (simp add: mult.assoc)
  moreover have "inj_on ?H (tree_msgs ?H T \<union> set (wk_hashed sl))"
    using single.prems(4) by (auto elim!: inj_on_subset)
  ultimately show ?case
    using single.IH single.prems(6) h by simp
qed

lemma height_of_less: "0 < n \<Longrightarrow> n \<le> 2 ^ 24 \<Longrightarrow> 2 ^ height_of n < 2 * n"
proof (cases "height_of n")
  case (Suc k)
  then have "\<not> n \<le> 2 ^ k"
    unfolding height_of_def by (intro not_less_Least) simp
  then show ?thesis
    by (simp add: Suc)
qed simp

lemma merkle_loop_level_of:
  "h < 31 \<Longrightarrow> 0 < length T \<Longrightarrow> 2 ^ h < 2 * length T \<Longrightarrow> merkle_loop H (level_of H T h) = merkle_loop H T"
proof (induction h)
  case (Suc h)
  then have "1 < length (level_of H T h)"
    using widthAt_less [of h "length T" 1] length_level_of [of h T H] by simp
  then show ?case
    using Suc merkle_loop_step [of "level_of H T h" H] by (simp add: level_of_simps)
qed (simp add: level_of_simps)

lemma merkle_loop_top:
  assumes "0 < length T" and "length T \<le> 2 ^ 24"
  shows "merkle_loop H T = level_of H T (height_of (length T)) ! 0"
proof -
  let ?h = "height_of (length T)"
  have h: "?h < 31" "2 ^ ?h < 2 * length T" "length T \<le> 2 ^ ?h"
    using height_of_24 [OF assms(2)] height_of_less [OF assms] le_height_of [OF assms(2)] by auto
  then have "\<not> 1 < widthAt (length T) ?h"
    using widthAt_less [of ?h "length T" 1] assms(1) by simp
  moreover have "0 < widthAt (length T) ?h"
    using widthAt_less [of ?h "length T" 0] assms(1) h(1) by simp
  ultimately have "length (level_of H T ?h) = 1"
    using length_level_of [of ?h T H] h(1) assms(1) by linarith
  then show ?thesis
    using merkle_loop_level_of [OF h(1) assms(1) h(2), of H] by (cases "level_of H T ?h") (auto simp: merkle_loop_one)
qed

text \<open>The accepted bytes are the counts, the hashes and the flags, written one way.\<close>

definition branch_bytes :: "nat \<Rightarrow> octets list \<Rightarrow> octets \<Rightarrow> octets" where
  "branch_bytes n hashes flags =
     le_bytes 4 n @ varint_bytes (length hashes) @ concat hashes @ varint_bytes (length flags) @ flags"

lemma branch_parts:
  "rd_counts bs = Inr ((n, hashes), cs) \<and> rd_flags n cs = Inr (flags, rest) \<longleftrightarrow>
     0 < n \<and> n \<le> 2 ^ 24 \<and> all_32 hashes \<and> length hashes < 2 ^ 53 \<and> length flags \<le> maxFlagBytes n \<and> length flags < 2 ^ 53 \<and>
     cs = varint_bytes (length flags) @ flags @ rest \<and> bs = branch_bytes n hashes flags @ rest"
  unfolding rd_counts_iff rd_flags_iff branch_bytes_def append_assoc by blast

lemma branch_canonical:
  "partialMerkleTree sha hex = Some (Inr b) \<longleftrightarrow>
     (\<exists>n hashes flags. fromHex hex = branch_bytes n hashes flags \<and> 0 < n \<and> n \<le> 2 ^ 24 \<and> all_32 hashes \<and> length hashes < 2 ^ 53 \<and>
        length flags \<le> maxFlagBytes n \<and> length flags < 2 ^ 53 \<and> walk_all sha n hashes flags [] (height_of n) = Inr b)"
proof -
  have "partialMerkleTree sha hex = Some (Inr b) \<longleftrightarrow>
     (\<exists>n hashes flags bs rest. rd_counts (fromHex hex) = Inr ((n, hashes), bs) \<and> rd_flags n bs = Inr (flags, rest) \<and>
        walk_all sha n hashes flags rest (height_of n) = Inr b)"
    (is "?l \<longleftrightarrow> ?r")
  proof
    assume l: ?l
    then obtain n hashes flags bs rest where r: "rd_counts (fromHex hex) = Inr ((n, hashes), bs)" "rd_flags n bs = Inr (flags, rest)"
        and w: "map_option (walk_all sha n hashes flags rest) (tree_height n) = Some (Inr b)"
      by (cases "rd_counts (fromHex hex)") (auto simp: partialMerkleTree_def bindE_pair_Inr split: sum.splits)
    then have "n \<le> 2 ^ 24"
      by (simp add: rd_counts_iff)
    then show ?r
      using r w by (auto simp: height_loop_ends height_of_def)
  next
    assume ?r
    then obtain n hashes flags bs rest where r: "rd_counts (fromHex hex) = Inr ((n, hashes), bs)" "rd_flags n bs = Inr (flags, rest)"
        and w: "walk_all sha n hashes flags rest (height_of n) = Inr b"
      by blast
    then have "n \<le> 2 ^ 24"
      by (simp add: rd_counts_iff)
    then show ?l
      using r w by (simp add: partialMerkleTree_def height_loop_ends height_of_def)
  qed
  moreover have "walk_all sha n hashes flags rest h = Inr b \<longleftrightarrow> rest = [] \<and> walk_all sha n hashes flags [] h = Inr b"
    for n hashes flags rest h
    unfolding walk_all_def bindE_pair_Inr if_Inl_Inr by auto
  ultimately have "partialMerkleTree sha hex = Some (Inr b) \<longleftrightarrow>
     (\<exists>n hashes flags bs rest. (rd_counts (fromHex hex) = Inr ((n, hashes), bs) \<and> rd_flags n bs = Inr (flags, rest)) \<and>
        rest = [] \<and> walk_all sha n hashes flags [] (height_of n) = Inr b)"
    by blast
  then show ?thesis
    unfolding branch_parts by simp blast
qed

lemma partialMerkleTree_Inr:
  assumes "partialMerkleTree sha hex = Some (Inr b)"
  obtains n hashes flags rest s where "0 < n" "n \<le> 2 ^ 24" "all_32 hashes"
    "walked sha n hashes flags (height_of n) 0 walk_start (pt_root b) s"
    "b = \<lparr>pt_root = pt_root b, pt_matched = wk_matched s, pt_nTransactions = n, pt_hashed = wk_hashed s\<rparr>"
proof -
  obtain n hashes flags where n: "0 < n" "n \<le> 2 ^ 24" "all_32 hashes"
    and "walk_all sha n hashes flags [] (height_of n) = Inr b"
    using assms unfolding branch_canonical by blast
  then show ?thesis
    using that walk_walked unfolding walk_all_def bindE_pair_Inr if_Inl_Inr by (metis Inr_inject merkle_branch.select_convs(1))
qed

text \<open>What a branch marks is in the block: when the root it reproduces is the root over the block's
  transaction hashes, every leaf it marks as matched is the transaction at that position, as long as the digest does not
  collide on what the walk and the block's own tree hash.\<close>

lemma matched_leaf_is_in_the_block:
  assumes "partialMerkleTree sha hex = Some (Inr b)" and "\<And>z. length (sha z) = 32"
    and "all_32 T" and "length T = pt_nTransactions b" and "merkle_loop (sha256d sha) T = pt_root b"
    and "inj_on (sha256d sha) (tree_msgs (sha256d sha) T \<union> set (pt_hashed b))"
    and "(y, i) \<in> set (pt_matched b)"
  shows "i < length T \<and> T ! i = y"
proof -
  obtain n hashes flags rest s where n: "0 < n" "n \<le> 2 ^ 24" "all_32 hashes"
    and w: "walked sha n hashes flags (height_of n) 0 walk_start (pt_root b) s"
    and b: "b = \<lparr>pt_root = pt_root b, pt_matched = wk_matched s, pt_nTransactions = n, pt_hashed = wk_hashed s\<rparr>"
    using partialMerkleTree_Inr [OF assms(1)] by metis
  have f: "pt_matched b = wk_matched s" "pt_nTransactions b = n" "pt_hashed b = wk_hashed s"
    by (subst b, simp)+
  have "\<forall>(y, i)\<in>set (wk_matched s). T ! i = y \<and> i < n"
  proof (rule walked_matches [OF w assms(2,3)])
    show "pt_root b = level_of (sha256d sha) T (height_of n) ! 0"
      using merkle_loop_top [of T "sha256d sha"] assms(4,5) n(1,2) f by simp
  qed (use assms(4,6) n height_of_24 [OF n(2)] height_of_less [OF n(1,2)] f in \<open>simp_all add: walk_start_def\<close>)
  then show ?thesis
    using assms(4,7) f by auto
qed

subsection \<open>Concrete branches\<close>

lemma height_of_small [simp]: "height_of 2 = 1" "height_of 4 = 2"
proof -
  show "height_of 2 = 1"
    unfolding height_of_def
  proof (rule Least_equality)
    fix k :: nat
    assume "2 \<le> (2::nat) ^ k"
    then show "1 \<le> k"
      by (cases k) simp_all
  qed simp
  show "height_of 4 = 2"
    unfolding height_of_def
  proof (rule Least_equality)
    fix k :: nat
    assume "4 \<le> (2::nat) ^ k"
    then show "2 \<le> k"
      by (cases k; cases "k - 1") simp_all
  qed simp
qed

definition two_leaves :: "octets \<Rightarrow> octets \<Rightarrow> string" where
  "two_leaves a b = toHex (branch_bytes 2 [a, b] [3])"

lemma two_leaves_walk:
  "walk_all sha 2 [a, b] [3] [] (height_of 2) =
     Inr \<lparr>pt_root = sha256d sha (a @ b), pt_matched = [(a, 0)], pt_nTransactions = 2, pt_hashed = [a @ b]\<rparr>"
  by (simp add: walk_all_def walk_start_def walk.simps widthAt_def js_shl1_small bitAt_def upt_rec)

lemma two_leaves_read:
  assumes "length a = 32" and "length b = 32"
  shows "partialMerkleTree sha (two_leaves a b) = Some (Inr
    \<lparr>pt_root = sha256d sha (a @ b), pt_matched = [(a, 0)], pt_nTransactions = 2, pt_hashed = [a @ b]\<rparr>)"
  unfolding branch_canonical two_leaves_def using assms two_leaves_walk
  by (intro exI [of _ 2] exI [of _ "[a, b]"] exI [of _ "[3]"]) (simp add: maxFlagBytes_def)

theorem flag_bound_refuses_no_branch_witness:
  "length [3 :: 8 word] \<le> maxFlagBytes 2"
proof -
  have "walk_all (\<lambda>z. z) 2 [[1], [2]] [3] [] (height_of 2) =
    Inr \<lparr>pt_root = [1, 2], pt_matched = [([1], 0)], pt_nTransactions = 2, pt_hashed = [[1, 2]]\<rparr>"
    using two_leaves_walk [of "\<lambda>z. z" "[1]" "[2]"] by (simp add: sha256d_def)
  then show ?thesis
    by (rule flag_bound_refuses_no_branch [rotated 2]) (simp_all add: MAX_TREE_TRANSACTIONS_def)
qed

text \<open>
  The checks that everything was consumed do not make the encoding of a commitment unique: a flag that says a match lies
  beneath a node where none does makes the walk go on with the children's hashes, and both encodings are accepted with
  the same root and the same matched leaf.
\<close>

lemma two_encodings:
  assumes "length a = 32" and "length b = 32" and "length c = 32" and "length d = 32" and "\<And>z. length (sha z) = 32"
  shows "map_option (map_sum id (\<lambda>t. (pt_root t, pt_matched t, pt_nTransactions t)))
        (partialMerkleTree sha (toHex (branch_bytes 4 [a, b, sha256d sha (c @ d)] [7]))) =
      map_option (map_sum id (\<lambda>t. (pt_root t, pt_matched t, pt_nTransactions t)))
        (partialMerkleTree sha (toHex (branch_bytes 4 [a, b, c, d] [23])))" (is "?l = ?r")
    and "branch_bytes 4 [a, b, sha256d sha (c @ d)] [7] \<noteq> branch_bytes 4 [a, b, c, d] [23]"
proof -
  let ?root = "sha256d sha (sha256d sha (a @ b) @ sha256d sha (c @ d))"
  have "walk_all sha 4 [a, b, sha256d sha (c @ d)] [7] [] 2 = Inr \<lparr>pt_root = ?root, pt_matched = [(a, 0)],
      pt_nTransactions = 4, pt_hashed = [a @ b, sha256d sha (a @ b) @ sha256d sha (c @ d)]\<rparr>"
    by (simp add: walk_all_def walk_start_def walk.simps widthAt_def js_shl1_small bitAt_def upt_rec numeral_2_eq_2)
  then have l: "partialMerkleTree sha (toHex (branch_bytes 4 [a, b, sha256d sha (c @ d)] [7])) = Some (Inr
      \<lparr>pt_root = ?root, pt_matched = [(a, 0)],
      pt_nTransactions = 4, pt_hashed = [a @ b, sha256d sha (a @ b) @ sha256d sha (c @ d)]\<rparr>)"
    unfolding branch_canonical using assms
    by (intro exI [of _ 4] exI [of _ "[a, b, sha256d sha (c @ d)]"] exI [of _ "[7]"]) (simp add: maxFlagBytes_def sha256d_def)
  have "walk_all sha 4 [a, b, c, d] [23] [] 2 = Inr \<lparr>pt_root = ?root, pt_matched = [(a, 0)],
      pt_nTransactions = 4, pt_hashed = [a @ b, c @ d, sha256d sha (a @ b) @ sha256d sha (c @ d)]\<rparr>"
    by (simp add: walk_all_def walk_start_def walk.simps widthAt_def js_shl1_small bitAt_def upt_rec numeral_2_eq_2)
  then have r: "partialMerkleTree sha (toHex (branch_bytes 4 [a, b, c, d] [23])) = Some (Inr
      \<lparr>pt_root = ?root, pt_matched = [(a, 0)],
      pt_nTransactions = 4, pt_hashed = [a @ b, c @ d, sha256d sha (a @ b) @ sha256d sha (c @ d)]\<rparr>)"
    unfolding branch_canonical using assms
    by (intro exI [of _ 4] exI [of _ "[a, b, c, d]"] exI [of _ "[23]"]) (simp add: maxFlagBytes_def)
  show "?l = ?r"
    by (simp add: l r)
  show "branch_bytes 4 [a, b, sha256d sha (c @ d)] [7] \<noteq> branch_bytes 4 [a, b, c, d] [23]"
    by (simp add: branch_bytes_def varint_bytes_def)
qed

end
