(* ===== verification/Dml_Commitment.thy ===== *)
theory Dml_Commitment
  imports Partial_Tree
begin

section \<open>The masternode list against the coinbase and the header (oracle/dml\_commitment.js)\<close>

text \<open>
  The three checks run together over one answer of the node: the list hashes to the root the coinbase
  commits to, the branch marks that coinbase as transaction 0, and the branch reproduces the header's root. The last
  part composes them with the root and the branch: an accepted list is the block's own list.
\<close>

datatype commitment_error =
    Ce_parse parse_error
  | Ce_list list_error
  | Ce_list_mismatch string string
  | Ce_not_marked
  | Ce_not_first nat
  | Ce_root_mismatch string string

record verified_dml =
  vd_merkleRootMNList :: string
  vd_height :: nat
  vd_payloadVersion :: nat
  vd_entries :: nat
  vd_transactionsInBlock :: nat
  vd_headerIdentityVerified :: bool

definition headerMerkleRoot :: "string \<Rightarrow> parse_error + octets" where
  "headerMerkleRoot headerHex =
     (let header = fromHex headerHex
      in if length header \<noteq> 80 then Inl (Header_length (length header)) else Inr (take 32 (drop 36 header)))"

definition branch_checks :: "(octets \<Rightarrow> octets) \<Rightarrow> string \<Rightarrow> merkle_branch \<Rightarrow> string \<Rightarrow> commitment_error + merkle_branch" where
  "branch_checks sha cbTx tree blockHeader =
     (case find (\<lambda>m. fst m = sha256d sha (fromHex cbTx)) (pt_matched tree) of
        None \<Rightarrow> Inl Ce_not_marked
      | Some (_, index) \<Rightarrow>
          if index \<noteq> 0 then Inl (Ce_not_first index)
          else (case headerMerkleRoot blockHeader of
                  Inl e \<Rightarrow> Inl (Ce_parse e)
                | Inr inHeader \<Rightarrow>
                    if pt_root tree \<noteq> inHeader then Inl (Ce_root_mismatch (toHex (rev (pt_root tree))) (toHex (rev inHeader)))
                    else Inr tree))"

definition verifyDmlCommitment ::
    "(octets \<Rightarrow> octets) \<Rightarrow> (string \<Rightarrow> octets option) \<Rightarrow> sml_entry list \<Rightarrow> string \<Rightarrow> string \<Rightarrow> string
     \<Rightarrow> (commitment_error + verified_dml) option" where
  "verifyDmlCommitment sha b58 mnList cbTx cbTxMerkleTree blockHeader =
     (case cbTxCommitment cbTx of
        Inl e \<Rightarrow> Some (Inl (Ce_parse e))
      | Inr c \<Rightarrow>
          (case smlMerkleRoot sha b58 mnList of
             Inl e \<Rightarrow> Some (Inl (Ce_list e))
           | Inr root \<Rightarrow>
               let recomputed = toHex (rev root)
               in if recomputed \<noteq> cm_merkleRootMNList c then Some (Inl (Ce_list_mismatch recomputed (cm_merkleRootMNList c)))
                  else (case partialMerkleTree sha cbTxMerkleTree of
                          None \<Rightarrow> None
                        | Some (Inl e) \<Rightarrow> Some (Inl (Ce_parse e))
                        | Some (Inr tree) \<Rightarrow>
                            Some (bindE (branch_checks sha cbTx tree blockHeader) (\<lambda>tree.
                              Inr \<lparr>vd_merkleRootMNList = cm_merkleRootMNList c, vd_height = cm_height c,
                                   vd_payloadVersion = cm_payloadVersion c, vd_entries = length mnList,
                                   vd_transactionsInBlock = pt_nTransactions tree, vd_headerIdentityVerified = False\<rparr>)))))"

lemma found_is_member: "find P xs = Some x \<Longrightarrow> x \<in> set xs \<and> P x"
  by (induction xs) (auto split: if_splits)

lemma branch_checks_Inr:
  "branch_checks sha cbTx tree header = Inr t \<Longrightarrow> t = tree \<and> (sha256d sha (fromHex cbTx), 0) \<in> set (pt_matched tree)
     \<and> length (fromHex header) = 80 \<and> pt_root tree = take 32 (drop 36 (fromHex header))"
  by (auto simp: branch_checks_def headerMerkleRoot_def Let_def split: option.splits sum.splits if_splits dest!: found_is_member)

lemma verify_Inr:
  assumes "verifyDmlCommitment sha b58 mnList cbTx cbTxMerkleTree blockHeader = Some (Inr v)"
  obtains c root tree where "cbTxCommitment cbTx = Inr c" "smlMerkleRoot sha b58 mnList = Inr root"
    "cm_merkleRootMNList c = toHex (rev root)" "partialMerkleTree sha cbTxMerkleTree = Some (Inr tree)"
    "(sha256d sha (fromHex cbTx), 0) \<in> set (pt_matched tree)" "pt_root tree = take 32 (drop 36 (fromHex blockHeader))"
    "vd_height v = cm_height c" "vd_merkleRootMNList v = cm_merkleRootMNList c"
  using assms unfolding verifyDmlCommitment_def Let_def
  by (auto split: sum.splits option.splits if_splits simp: bindE_Inr dest!: branch_checks_Inr)

lemma verify_always_returns: "\<exists>r. verifyDmlCommitment sha b58 mnList cbTx tree header = Some r"
  using branch_returns [of sha tree] unfolding verifyDmlCommitment_def Let_def
  by (auto split: sum.splits option.splits)

subsection \<open>The left edge of a tree\<close>

text \<open>\<open>edge H M k x y\<close>: from the node \<open>x\<close> the left children of \<open>k\<close> hashed messages of \<open>M\<close> lead to \<open>y\<close>.\<close>

fun edge :: "(octets \<Rightarrow> octets) \<Rightarrow> octets set \<Rightarrow> nat \<Rightarrow> octets \<Rightarrow> octets \<Rightarrow> bool" where
  "edge H M 0 x y \<longleftrightarrow> x = y"
| "edge H M (Suc k) x y \<longleftrightarrow> (\<exists>l r. l @ r \<in> M \<and> x = H (l @ r) \<and> length l = 32 \<and> length r = 32 \<and> edge H M k l y)"

lemma edge_mono: "edge H M k x y \<Longrightarrow> M \<subseteq> N \<Longrightarrow> edge H N k x y"
  by (induction k arbitrary: x) (fastforce simp: subset_iff)+

definition inner_hash :: "(octets \<Rightarrow> octets) \<Rightarrow> octets set \<Rightarrow> octets \<Rightarrow> bool" where
  "inner_hash H M y \<longleftrightarrow> (\<exists>m\<in>M. length m = 64 \<and> y = H m)"

lemma edges_meet:
  assumes "edge H M j x y" and "edge H M k x z" and "inj_on H M"
  shows "y = z \<or> inner_hash H M y \<or> inner_hash H M z"
  using assms(1,2)
proof (induction j arbitrary: k x)
  case 0
  show ?case
  proof (cases k)
    case (Suc i)
    then obtain l r where "l @ r \<in> M" "x = H (l @ r)" "length l = 32" "length r = 32"
      using "0.prems"(2) by auto
    then show ?thesis
      using "0.prems"(1) by (auto simp: inner_hash_def intro!: bexI [of _ "l @ r"])
  qed (use 0 in simp)
next
  case (Suc j)
  then obtain l r where l: "l @ r \<in> M" "x = H (l @ r)" "length l = 32" "length r = 32" "edge H M j l y"
    by auto
  show ?case
  proof (cases k)
    case 0
    then show ?thesis
      using l Suc.prems(2) by (auto simp: inner_hash_def intro!: bexI [of _ "l @ r"])
  next
    case (Suc i)
    then obtain l' r' where l': "l' @ r' \<in> M" "x = H (l' @ r')" "length l' = 32" "edge H M i l' z"
      using Suc.prems(2) by auto
    then have "l @ r = l' @ r'"
      using l assms(3) by (auto dest: inj_onD)
    then have "l = l'"
      using l(3) l'(3) by simp
    then show ?thesis
      using Suc.IH l(5) l'(4) by blast
  qed
qed

lemma walked_below:
  "walked sha n hashes flags h pos s x s' \<Longrightarrow> (y, i) \<in> set (wk_matched s') \<Longrightarrow>
   (y, i) \<in> set (wk_matched s) \<or> pos * 2 ^ h \<le> i"
  by (induction rule: walked.induct) (auto simp: algebra_simps split: if_splits)

lemma walked_edge:
  assumes "walked sha n hashes flags h 0 s x s'" and "\<And>z. length (sha z) = 32" and "all_32 hashes"
    and "(y, 0) \<in> set (wk_matched s')" and "(y, 0) \<notin> set (wk_matched s)"
  shows "\<exists>k. edge (sha256d sha) (set (wk_hashed s')) k x y"
proof -
  have "\<exists>k. edge (sha256d sha) (set (wk_hashed s')) k x y"
    if "walked sha n hashes flags h pos s x s'" "pos = 0" "(y, 0) \<in> set (wk_matched s')" "(y, 0) \<notin> set (wk_matched s)" for pos h s x s'
    using that
  proof (induction rule: walked.induct)
    case (stop h s pos)
    then have "hashes ! wk_hashesUsed s = y"
      by (auto split: if_splits)
    then show ?case
      by (auto intro!: exI [of _ 0])
  next
    case (both s pos h left sl right sr)
    then have "(y, 0) \<in> set (wk_matched sl)"
      using walked_below [OF both.hyps(5), of y 0] by simp
    then obtain k where "edge (sha256d sha) (set (wk_hashed sl)) k left y"
      using both by auto
    then have "edge (sha256d sha) (insert (left @ right) (set (wk_hashed sr))) k left y"
      by (rule edge_mono) (use walked_hashed [OF both.hyps(5)] in auto)
    then have "edge (sha256d sha) (insert (left @ right) (set (wk_hashed sr))) (Suc k) (sha256d sha (left @ right)) y"
      using walked_length [OF both.hyps(4) assms(2,3)] walked_length [OF both.hyps(5) assms(2,3)] by auto
    then have "\<exists>k. edge (sha256d sha) (insert (left @ right) (set (wk_hashed sr))) k (sha256d sha (left @ right)) y" ..
    then show ?case
      by simp
  next
    case (single s pos h left sl)
    then obtain k where "edge (sha256d sha) (set (wk_hashed sl)) k left y"
      by auto
    then have "edge (sha256d sha) (insert (left @ left) (set (wk_hashed sl))) k left y"
      by (rule edge_mono) auto
    then show ?case
      using walked_length [OF single.hyps(4) assms(2,3)] by (auto intro!: exI [of _ "Suc k"] exI [of _ left])
  qed
  then show ?thesis
    using assms(1,4,5) by blast
qed

lemma edge_snoc:
  "edge H M k x (H (l @ r)) \<Longrightarrow> l @ r \<in> M \<Longrightarrow> length l = 32 \<Longrightarrow> length r = 32 \<Longrightarrow> edge H M (Suc k) x l"
  by (induction k arbitrary: x) (auto, blast)

lemma tree_edge:
  assumes "T \<noteq> []" and "all_32 T" and "\<And>z. length (H z) = 32"
  shows "\<exists>k. edge H (tree_msgs H T) k (merkle_loop H T) (T ! 0)"
  using assms
proof (induction H T rule: merkle_loop.induct)
  case (1 H T)
  show ?case
  proof (cases "length T > 1")
    case True
    let ?r = "if 1 < length T then T ! 1 else T ! 0"
    have "0 * 2 < length T"
      using True by linarith
    from pair_up_nth [OF this, of H] have first: "pair_up H T ! 0 = H (T ! 0 @ ?r)" "T ! 0 @ ?r \<in> set (pair_msgs T)"
      using True by simp_all
    have len: "length (T ! 0) = 32" "length ?r = 32"
      using 1(3) True nth_mem [OF \<open>0 * 2 < length T\<close>] nth_mem [of 1 T] unfolding all_32_def by simp_all
    have "pair_up H T \<noteq> []"
      using True by (auto simp flip: length_greater_0_conv)
    then obtain k where "edge H (tree_msgs H (pair_up H T)) k (merkle_loop H (pair_up H T)) (pair_up H T ! 0)"
      using "1.IH" [OF True] 1(4) all_32_pair_up by blast
    then have "edge H (tree_msgs H T) k (merkle_loop H T) (H (T ! 0 @ ?r))"
      using True edge_mono tree_msgs_step [OF True, of H] first(1) merkle_loop_step [OF True, of H] by auto
    then have "edge H (tree_msgs H T) (Suc k) (merkle_loop H T) (T ! 0)"
      by (rule edge_snoc) (use first len tree_msgs_step [OF True, of H] in simp_all)
    then show ?thesis ..
  next
    case False
    then show ?thesis
      using 1(2) by (cases T) (auto simp: merkle_loop_one intro!: exI [of _ 0])
  qed
qed

lemma branch_edge:
  assumes "partialMerkleTree sha hex = Some (Inr b)" and "\<And>z. length (sha z) = 32" and "(y, 0) \<in> set (pt_matched b)"
  shows "\<exists>k. edge (sha256d sha) (set (pt_hashed b)) k (pt_root b) y"
proof -
  obtain n hashes flags rest s where h: "all_32 hashes"
    and w: "walked sha n hashes flags (height_of n) 0 walk_start (pt_root b) s"
    and b: "b = \<lparr>pt_root = pt_root b, pt_matched = wk_matched s, pt_nTransactions = n, pt_hashed = wk_hashed s\<rparr>"
    using partialMerkleTree_Inr [OF assms(1)] by metis
  have "pt_matched b = wk_matched s" "pt_hashed b = wk_hashed s"
    by (subst b, simp)+
  then show ?thesis
    using walked_edge [OF w assms(2) h] assms(3) by (simp add: walk_start_def)
qed

text \<open>Two left edges from one root meet in the coinbase, so the list it commits to is the list that was sent.\<close>

lemma accepted_list_base:
  assumes "verifyDmlCommitment sha b58 l cbTx cbTxMerkleTree blockHeader = Some (Inr v)"
    and "partialMerkleTree sha cbTxMerkleTree = Some (Inr tree)"
    and "\<And>z. length (sha z) = 32"
    and "txs \<noteq> []" and "merkle_loop (sha256d sha) (map (sha256d sha) txs) = take 32 (drop 36 (fromHex blockHeader))"
    and "cbTxCommitment (toHex (hd txs)) = Inr c" and "cm_merkleRootMNList c = toHex (rev root)" and "smlMerkleRoot sha b58 L = Inr root"
    and "l \<noteq> []" and "L \<noteq> []" and "\<forall>t\<in>set txs. length t \<noteq> 64" and "length (fromHex cbTx) \<noteq> 64"
    and "inj_on (sha256d sha) (set (pt_hashed tree) \<union> tree_msgs (sha256d sha) (map (sha256d sha) txs) \<union> set txs \<union> {fromHex cbTx}
           \<union> list_msgs sha b58 l \<union> list_msgs sha b58 L)" (is "inj_on _ ?M")
  shows "mset (map (bytes_of b58) l) = mset (map (bytes_of b58) L) \<and> vd_height v = cm_height c"
proof -
  let ?H = "sha256d sha" and ?T = "map (sha256d sha) txs"
  obtain c' root' where v: "cbTxCommitment cbTx = Inr c'" "smlMerkleRoot sha b58 l = Inr root'"
      "cm_merkleRootMNList c' = toHex (rev root')" "(?H (fromHex cbTx), 0) \<in> set (pt_matched tree)"
      "pt_root tree = take 32 (drop 36 (fromHex blockHeader))" "vd_height v = cm_height c'"
    using verify_Inr [OF assms(1)] assms(2) by (metis Inr_inject option.inject)
  have H: "length (?H z) = 32" for z
    using assms(3) by (simp add: sha256d_def)
  obtain k where "edge ?H (set (pt_hashed tree)) k (pt_root tree) (?H (fromHex cbTx))"
    using branch_edge [OF assms(2,3) v(4)] by blast
  then have e: "edge ?H ?M k (pt_root tree) (?H (fromHex cbTx))"
    by (rule edge_mono) blast
  have T: "?T \<noteq> []" "all_32 ?T" "?T ! 0 = ?H (hd txs)"
    using assms(4) H by (auto simp: all_32_def hd_conv_nth)
  obtain j where "edge ?H (tree_msgs ?H ?T) j (pt_root tree) (?H (hd txs))"
    using tree_edge [OF T(1,2), of ?H] H unfolding T(3) assms(5) v(5) by blast
  then have e': "edge ?H ?M j (pt_root tree) (?H (hd txs))"
    by (rule edge_mono) blast
  have mem: "fromHex cbTx \<in> ?M" "hd txs \<in> ?M"
    using assms(4) by simp_all
  have "\<not> inner_hash ?H ?M (?H t)" if "t \<in> ?M" "length t \<noteq> 64" for t
    using that inj_onD [OF assms(13) _ that(1)] unfolding inner_hash_def by blast
  then have "\<not> inner_hash ?H ?M (?H (fromHex cbTx))" "\<not> inner_hash ?H ?M (?H (hd txs))"
    using mem assms(4,11,12) hd_in_set by blast+
  then have "?H (fromHex cbTx) = ?H (hd txs)"
    using edges_meet [OF e e' assms(13)] by blast
  then have "fromHex cbTx = hd txs"
    using mem by (rule inj_onD [OF assms(13)])
  then have "c' = c"
    using v(1) assms(6) by (simp add: cbTxCommitment_def)
  then have "root' = root"
    using v(3) assms(7) by simp
  moreover have "inj_on ?H (list_msgs sha b58 l \<union> list_msgs sha b58 L)"
    by (rule inj_on_subset [OF assms(13)]) blast
  ultimately show ?thesis
    using sml_root_binds_the_list [OF _ assms(8,9,10,3)] v(2,6) \<open>c' = c\<close> by blast
qed

text \<open>An accepted list is the block's own. When the header carries the root over the block's transactions and the
  block's first transaction commits, as the chain's rules have it, to the root of the list \<open>L\<close>, a list the checks accept
  holds the same entries as \<open>L\<close>, byte for byte, at the height that coinbase names. Asked of the digest: no
  collision among the messages hashed here. Asked of the block: none of its transactions, nor the text sent as its
  coinbase, is as long as the 64 bytes of an inner node; the number of transactions the branch claims is not trusted.\<close>

lemma accepted_list_is_the_blocks_list:
  assumes "verifyDmlCommitment sha b58 l cbTx cbTxMerkleTree blockHeader = Some (Inr v)"
    and "partialMerkleTree sha cbTxMerkleTree = Some (Inr tree)"
    and "\<And>z. length (sha z) = 32"
    and "txs \<noteq> []" and "merkle_loop (sha256d sha) (map (sha256d sha) txs) = take 32 (drop 36 (fromHex blockHeader))"
    and "cbTxCommitment (toHex (hd txs)) = Inr c" and "cm_merkleRootMNList c = toHex (rev root)" and "smlMerkleRoot sha b58 L = Inr root"
    and "l \<noteq> []" and "L \<noteq> []" and "\<forall>t\<in>set txs. length t \<noteq> 64" and "length (fromHex cbTx) \<noteq> 64"
    and "inj_on (sha256d sha) (set (pt_hashed tree) \<union> tree_msgs (sha256d sha) (map (sha256d sha) txs) \<union> set txs \<union> {fromHex cbTx}
           \<union> list_msgs sha b58 l \<union> list_msgs sha b58 L)"
  shows "mset (map (bytes_of b58) l) = mset (map (bytes_of b58) L) \<and> vd_height v = cm_height c"
  by (rule accepted_list_base [OF assms])

subsection \<open>A block the checks accept\<close>

definition demo_list_root :: octets where
  "demo_list_root = sha256d demo_sha (bytes_of demo_b58 (demo_entry CHR ''a''))"

definition demo_coinbase :: coinbase_tx where
  "demo_coinbase = \<lparr>cb_version = 3, cb_inputs = [], cb_outputs = [], cb_lockTime = 0,
     cb_payload = le_bytes 2 1 @ le_bytes 4 7 @ demo_list_root\<rparr>"

definition demo_header :: string where
  "demo_header = toHex (replicate 36 0 @ sha256d demo_sha (coinbase_bytes demo_coinbase) @ replicate 12 0)"

definition demo_branch :: string where
  "demo_branch = toHex (branch_bytes 1 [sha256d demo_sha (coinbase_bytes demo_coinbase)] [1])"

lemma demo_sha256d_length [simp]: "length (sha256d demo_sha z) = 32"
  by (simp add: sha256d_def)

lemma demo_list_root_read: "smlMerkleRoot demo_sha demo_b58 [demo_entry CHR ''a''] = Inr demo_list_root"
proof -
  have "smlMerkleRoot demo_sha demo_b58 [demo_entry CHR ''a''] =
      Inr (merkleRootFromLeaves demo_sha (map (\<lambda>e. sha256d demo_sha (bytes_of demo_b58 e)) (in_key_order [demo_entry CHR ''a''])))"
    using demo_digits demo_keys(1) demo_bytes by (intro smlMerkleRoot_accepts) (auto simp: MAX_MN_LIST_ENTRIES_def)
  then show ?thesis
    by (simp add: in_key_order_def merkleRootFromLeaves_def merkle_loop_one demo_list_root_def)
qed

lemma demo_coinbase_read:
  "cbTxCommitment (toHex (coinbase_bytes demo_coinbase)) = Inr \<lparr>cm_payloadVersion = 1, cm_height = 7,
     cm_merkleRootMNList = toHex (rev demo_list_root), cm_merkleRootQuorums = None\<rparr>"
proof -
  have r: "rd_coinbase (coinbase_bytes demo_coinbase) = Inr demo_coinbase"
    by (simp add: rd_coinbase_iff coinbase_ok_def demo_coinbase_def demo_list_root_def)
  have "rd_u16 (le_bytes 2 1 @ z) = Inr (1, z)" "rd_u32 (le_bytes 4 7 @ z) = Inr (7, z)"
      "rd_take 32 demo_list_root = Inr (demo_list_root, [])" for z
    by (simp_all add: rd_u16_iff rd_u32_iff rd_take_iff demo_list_root_def)
  then have "rd_payload (cb_payload demo_coinbase) = Inr \<lparr>cm_payloadVersion = 1, cm_height = 7,
     cm_merkleRootMNList = toHex (rev demo_list_root), cm_merkleRootQuorums = None\<rparr>"
    by (simp add: rd_payload_def demo_coinbase_def)
  then show ?thesis
    by (simp add: cbTxCommitment_def r)
qed

lemma demo_coinbase_length: "length (coinbase_bytes demo_coinbase) = 49"
  by (simp add: coinbase_bytes_def demo_coinbase_def varint_bytes_def var_bytes_def demo_list_root_def)

lemma demo_branch_read:
  "partialMerkleTree demo_sha demo_branch = Some (Inr \<lparr>pt_root = sha256d demo_sha (coinbase_bytes demo_coinbase),
     pt_matched = [(sha256d demo_sha (coinbase_bytes demo_coinbase), 0)], pt_nTransactions = 1, pt_hashed = []\<rparr>)"
proof -
  have h: "height_of 1 = 0"
    unfolding height_of_def by (rule Least_equality) simp_all
  have "walk_all demo_sha 1 [y] [1] [] 0 = Inr \<lparr>pt_root = y, pt_matched = [(y, 0)], pt_nTransactions = 1, pt_hashed = []\<rparr>" for y
    by (simp add: walk_all_def walk_start_def walk.simps bitAt_def upt_rec)
  then show ?thesis
    unfolding branch_canonical demo_branch_def
    by (intro exI [of _ 1] exI [of _ "[sha256d demo_sha (coinbase_bytes demo_coinbase)]"] exI [of _ "[1]"])
      (simp add: h [simplified] maxFlagBytes_def)
qed

lemma demo_verified:
  "\<exists>v. verifyDmlCommitment demo_sha demo_b58 [demo_entry CHR ''a''] (toHex (coinbase_bytes demo_coinbase)) demo_branch demo_header
     = Some (Inr v) \<and> vd_height v = 7"
  by (simp add: verifyDmlCommitment_def demo_coinbase_read demo_list_root_read demo_branch_read branch_checks_def headerMerkleRoot_def
      demo_header_def Let_def)

text \<open>No two messages of the example collide.\<close>

lemma demo_no_collision:
  "inj_on (sha256d demo_sha) ({} \<union> tree_msgs (sha256d demo_sha) (map (sha256d demo_sha) [coinbase_bytes demo_coinbase]) \<union>
     set [coinbase_bytes demo_coinbase] \<union> {coinbase_bytes demo_coinbase} \<union> list_msgs demo_sha demo_b58 [demo_entry CHR ''a''] \<union>
     list_msgs demo_sha demo_b58 [demo_entry CHR ''a''])"
proof -
  let ?H = "sha256d demo_sha" and ?cb = "coinbase_bytes demo_coinbase" and ?x = "bytes_of demo_b58 (demo_entry CHR ''a'')"
  have "length ?x = 175"
    using demo_length demo_digits by simp
  then have "?H ?x \<noteq> ?H ?cb"
    using demo_coinbase_length by (auto simp: demo_sha256d)
  moreover have "list_msgs demo_sha demo_b58 [demo_entry CHR ''a''] = {?x}"
    by (simp add: list_msgs_def in_key_order_def tree_msgs.simps [of _ "[_]"])
  ultimately show ?thesis
    by (auto simp: tree_msgs.simps [of _ "[_]"] inj_on_def)
qed

theorem accepted_list_is_the_blocks_list_witness:
  "\<exists>v. verifyDmlCommitment demo_sha demo_b58 [demo_entry CHR ''a''] (toHex (coinbase_bytes demo_coinbase)) demo_branch demo_header
     = Some (Inr v) \<and> mset (map (bytes_of demo_b58) [demo_entry CHR ''a'']) = mset (map (bytes_of demo_b58) [demo_entry CHR ''a''])
     \<and> vd_height v = 7"
proof -
  let ?H = "sha256d demo_sha" and ?cb = "coinbase_bytes demo_coinbase"
  obtain v where v: "verifyDmlCommitment demo_sha demo_b58 [demo_entry CHR ''a''] (toHex ?cb) demo_branch demo_header = Some (Inr v)"
    using demo_verified by blast
  from demo_no_collision have "mset (map (bytes_of demo_b58) [demo_entry CHR ''a'']) = mset (map (bytes_of demo_b58) [demo_entry CHR ''a''])
     \<and> vd_height v = cm_height \<lparr>cm_payloadVersion = 1, cm_height = 7,
     cm_merkleRootMNList = toHex (rev demo_list_root), cm_merkleRootQuorums = None\<rparr>"
    by (intro accepted_list_is_the_blocks_list [OF v demo_branch_read, where txs = "[?cb]" and root = demo_list_root])
      (simp_all add: demo_coinbase_read demo_list_root_read demo_coinbase_length merkle_loop_one demo_header_def)
  then show ?thesis
    using v by auto
qed

end
