(* ===== verification/Gateway_Http.thy ===== *)
theory Gateway_Http
  imports Verify_Membership Season_Members Limits Challenge_Store Time_Guard Js_Strings
begin

section \<open>The gateway's request handling (core/gateway.js): state, keys and the guards before every handler\<close>

text \<open>
  The state a request reaches is one record: the challenges, the limiters, the root window, the clock guard with its
  file, the season's members and the durable registrations. Text is ASCII, where JavaScript's \<open>length\<close>
  and the length in bytes agree. A stretch of a handler that does not await is one function of that state; \<open>nw_ms\<close>
  is the clock it reads and \<open>nw_persists\<close> whether the guard's writes go through.
\<close>

datatype limiter_id =
    L_ingress | L_challenge | L_verify | L_register | L_members | L_dml | L_account_challenge | L_account_verify

record gw_config =
  gc_twoTier :: bool
  gc_adapterSecret :: "string option"
  gc_trustProxy :: bool
  gc_maxAccountBytes :: nat
  gc_epochSeconds :: int
  gc_seasonSeconds :: int
  gc_challengeTtlSeconds :: int
  gc_treeDepth :: nat
  gc_oracleMaxAgeSeconds :: int
  gc_registerContexts :: "string list"
  gc_registerRootMaxAgeSeconds :: int
  gc_registrationEngine :: jfield
  gc_registrationStatement :: jfield
  gc_dmlSource :: string

record 'n gw_state =
  gw_challenges :: challenge_store
  gw_limiters :: "(limiter_id, string) limiters"
  gw_dmlRoots :: root_windows
  gw_guard :: time_guard
  gw_marks :: tg_file
  gw_seasons :: "'n season_members"
  gw_regs :: reg_view

record gw_now =
  nw_ms :: int
  nw_persists :: "tg_kind \<Rightarrow> bool"

definition nowSec :: "gw_now \<Rightarrow> int" where
  "nowSec now = nw_ms now div 1000"

record http_req =
  hr_method :: string
  hr_path :: string
  hr_authorization :: "string option"
  hr_forwarded :: "string option"
  hr_remote :: "string option"

text \<open>A value of a parsed body: a string, another truthy value with its \<open>String()\<close>, or a falsy or missing one.\<close>

datatype body_value = Bv_string string | Bv_other string | Bv_falsy

definition truthy :: "body_value \<Rightarrow> bool" where
  "truthy v = (case v of Bv_string s \<Rightarrow> s \<noteq> [] | Bv_other _ \<Rightarrow> True | Bv_falsy \<Rightarrow> False)"

definition bv_text :: "body_value \<Rightarrow> string" where
  "bv_text v = (case v of Bv_string s \<Rightarrow> s | Bv_other s \<Rightarrow> s | Bv_falsy \<Rightarrow> ''undefined'')"

record challenge_reply =
  cr_nonce :: string
  cr_signalHash :: string
  cr_epoch :: int
  cr_root :: string
  cr_contextHash :: string
  cr_challengeExpiresAt :: int
  cr_season :: "int option"
  cr_accessEndsAt :: int
  cr_seasonEndsAt :: "int option"

record health_reply =
  hl_ok :: bool
  hl_canChallenge :: bool
  hl_canVerify :: bool
  hl_canRegister :: bool
  hl_root :: "string option"
  hl_dmlRoot :: "string option"
  hl_season :: jsnum
  hl_clockRegression :: "tg_regression option"
  hl_contexts :: "nat option"

datatype reply_body =
    R_error string
  | R_reason string
  | R_clock tg_kind
  | R_clock_regression "tg_regression option"
  | R_challenge challenge_reply
  | R_grant string string int bool
  | R_registered nat string nat
  | R_members string nat "string list"
  | R_dml "snapshot option" int
  | R_health health_reply

datatype reply = Reply nat reply_body

subsection \<open>Keys\<close>

definition ascii_lower :: "char \<Rightarrow> char" where
  "ascii_lower c = (let n = of_char c :: nat in if 65 \<le> n \<and> n \<le> 90 then char_of (n + 32) else c)"

text \<open>\<open>/^Bearer\s+(.+)$/i\<close>: the white space is greedy and gives back its last character when nothing else is left.\<close>

definition bearer_token :: "string \<Rightarrow> string option" where
  "bearer_token header =
     (if map ascii_lower (take 6 header) \<noteq> ''bearer'' then None
      else let rest = drop 6 header; ws = takeWhile js_space rest; t = dropWhile js_space rest in
        if ws = [] then None
        else if t \<noteq> [] then (if CHR 0x0A \<in> set t \<or> CHR 0x0D \<in> set t then None else Some t)
        else if length ws \<ge> 2 \<and> last ws \<noteq> CHR 0x0A \<and> last ws \<noteq> CHR 0x0D then Some [last ws] else None)"

definition authorized :: "(string \<Rightarrow> 'd) \<Rightarrow> gw_config \<Rightarrow> http_req \<Rightarrow> bool" where
  "authorized digest cfg req =
     (case gc_adapterSecret cfg of
        None \<Rightarrow> True
      | Some secret \<Rightarrow>
          if secret = [] then True
          else (case bearer_token (case hr_authorization req of None \<Rightarrow> [] | Some h \<Rightarrow> h) of
                  None \<Rightarrow> False
                | Some t \<Rightarrow> digest t = digest secret))"

definition clientKey :: "gw_config \<Rightarrow> http_req \<Rightarrow> string" where
  "clientKey cfg req =
     (let remote = (case hr_remote req of None \<Rightarrow> ''unknown'' | Some a \<Rightarrow> a) in
      if \<not> gc_trustProxy cfg then remote
      else (case hr_forwarded req of
              None \<Rightarrow> remote
            | Some xff \<Rightarrow> if xff = [] then remote else js_trim (last (js_split CHR '','' xff))))"

definition rateKey :: "string list \<Rightarrow> string" where
  "rateKey parts = js_join [CHR 0x00] (map (\<lambda>p. dec_of_nat (length p) @ CHR '':'' # p) parts)"

lemma rateKey_two: "rateKey [a, b] = dec_of_nat (length a) @ CHR '':'' # a @ CHR 0x00 # dec_of_nat (length b) @ CHR '':'' # b"
  by (simp add: rateKey_def)

lemma digits_then_colon:
  assumes "dec_of_nat m @ CHR '':'' # x = dec_of_nat n @ CHR '':'' # y"
  shows "m = n \<and> x = y"
proof -
  have "takeWhile (\<lambda>c. c \<noteq> CHR '':'') (dec_of_nat k @ CHR '':'' # z) = dec_of_nat k" for k z
    using dec_of_nat_no_colon [of k] by (subst takeWhile_append2) auto
  then have "dec_of_nat m = dec_of_nat n"
    using assms by metis
  then show ?thesis
    using assms by simp
qed

lemma rateKey_inject: "rateKey [a, b] = rateKey [c, d] \<Longrightarrow> a = c \<and> b = d"
proof -
  assume "rateKey [a, b] = rateKey [c, d]"
  then have "length a = length c \<and> a @ CHR 0x00 # dec_of_nat (length b) @ CHR '':'' # b
      = c @ CHR 0x00 # dec_of_nat (length d) @ CHR '':'' # d"
    unfolding rateKey_two by (rule digits_then_colon)
  then have "a = c" "dec_of_nat (length b) @ CHR '':'' # b = dec_of_nat (length d) @ CHR '':'' # d"
    by auto
  then show ?thesis
    using digits_then_colon by blast
qed

subsection \<open>What runs before a handler\<close>

definition enforceDmlFreshness :: "gw_config \<Rightarrow> gw_now \<Rightarrow> 'n gw_state \<Rightarrow> 'n gw_state" where
  "enforceDmlFreshness cfg now g =
     (if gc_oracleMaxAgeSeconds cfg \<le> 0 then g
      else g\<lparr>gw_dmlRoots := RootWindows_dropOlderThan (Num (nowSec now - gc_oracleMaxAgeSeconds cfg)) (gw_dmlRoots g)\<rparr>)"

definition gw_epoch :: "gw_now \<Rightarrow> 'n gw_state \<Rightarrow> 'n gw_state \<times> (tg_error + jsnum)" where
  "gw_epoch now g =
     (case TimeGuard_epoch (nowSec now) (nw_persists now Epoch) (gw_guard g) (gw_marks g) of
        (tg, marks, r) \<Rightarrow> (g\<lparr>gw_guard := tg, gw_marks := marks\<rparr>, r))"

definition gw_season :: "gw_now \<Rightarrow> 'n gw_state \<Rightarrow> 'n gw_state \<times> (tg_error + jsnum)" where
  "gw_season now g =
     (case TimeGuard_season (nowSec now) (nw_persists now Season) (gw_guard g) (gw_marks g) of
        (tg, marks, r) \<Rightarrow> (g\<lparr>gw_guard := tg, gw_marks := marks\<rparr>, r))"

text \<open>\<open>timeGuard.epoch(); timeGuard.season();\<close>\<close>

definition observe_both :: "gw_now \<Rightarrow> 'n gw_state \<Rightarrow> 'n gw_state \<times> (tg_error + jsnum)" where
  "observe_both now g =
     (case gw_epoch now g of
        (g1, Inl e) \<Rightarrow> (g1, Inl e)
      | (g1, Inr _) \<Rightarrow> gw_season now g1)"

definition internal_error :: reply where
  "internal_error = Reply 500 (R_error ''internal error'')"

definition state_bearing :: "string \<Rightarrow> bool" where
  "state_bearing path \<longleftrightarrow> path \<in> {''/v1/challenge'', ''/v1/verify'', ''/v1/register''}"

definition clock_gate :: "gw_now \<Rightarrow> http_req \<Rightarrow> 'n gw_state \<Rightarrow> 'n gw_state \<times> reply option" where
  "clock_gate now req g =
     (if \<not> state_bearing (hr_path req) then (g, None)
      else case observe_both now g of
        (g1, Inl _) \<Rightarrow> (g1, Some internal_error)
      | (g1, Inr _) \<Rightarrow>
          (case tg_regression (gw_guard g1) of
             None \<Rightarrow> (g1, None)
           | Some r \<Rightarrow> (g1, Some (Reply 503 (R_clock (tr_kind r))))))"

definition limited :: "gw_now \<Rightarrow> limiter_id \<Rightarrow> string \<Rightarrow> 'n gw_state \<Rightarrow> 'n gw_state \<times> bool" where
  "limited now l key g =
     (case RateLimiter_allow (nw_ms now) key (gw_limiters g l) of
        (rl, ok) \<Rightarrow> (g\<lparr>gw_limiters := (gw_limiters g)(l := rl)\<rparr>, \<not> ok))"

definition sweepLimiters :: "gw_now \<Rightarrow> 'n gw_state \<Rightarrow> 'n gw_state" where
  "sweepLimiters now g = g\<lparr>gw_limiters := (\<lambda>l. RateLimiter_sweep (nw_ms now) (gw_limiters g l))\<rparr>"

lemma clock_gate_open:
  "clock_gate now req g = (g1, None) \<Longrightarrow> state_bearing (hr_path req) \<Longrightarrow> tg_regression (gw_guard g1) = None"
  by (auto simp: clock_gate_def split: prod.splits sum.splits option.splits)

lemma gw_epoch_same:
  "gw_epoch now g = (g1, r) \<Longrightarrow> gw_challenges g1 = gw_challenges g \<and> gw_limiters g1 = gw_limiters g \<and>
     gw_dmlRoots g1 = gw_dmlRoots g \<and> gw_seasons g1 = gw_seasons g \<and> gw_regs g1 = gw_regs g"
  by (auto simp: gw_epoch_def split: prod.splits)

lemma gw_season_same:
  "gw_season now g = (g1, r) \<Longrightarrow> gw_challenges g1 = gw_challenges g \<and> gw_limiters g1 = gw_limiters g \<and>
     gw_dmlRoots g1 = gw_dmlRoots g \<and> gw_seasons g1 = gw_seasons g \<and> gw_regs g1 = gw_regs g"
  by (auto simp: gw_season_def split: prod.splits)

lemma observe_both_same:
  "observe_both now g = (g1, r) \<Longrightarrow> gw_challenges g1 = gw_challenges g \<and> gw_limiters g1 = gw_limiters g \<and>
     gw_dmlRoots g1 = gw_dmlRoots g \<and> gw_seasons g1 = gw_seasons g \<and> gw_regs g1 = gw_regs g"
  by (auto simp: observe_both_def split: prod.splits sum.splits dest!: gw_epoch_same gw_season_same)

lemma clock_gate_same:
  "clock_gate now req g = (g1, r) \<Longrightarrow> gw_challenges g1 = gw_challenges g \<and> gw_limiters g1 = gw_limiters g \<and>
     gw_dmlRoots g1 = gw_dmlRoots g \<and> gw_seasons g1 = gw_seasons g \<and> gw_regs g1 = gw_regs g"
  by (auto simp: clock_gate_def split: prod.splits sum.splits option.splits if_splits dest!: observe_both_same)

end
