(* ===== verification/Gateway_Membership.thy ===== *)
theory Gateway_Membership
  imports Gateway_Http
begin

section \<open>The challenge and the verify handlers (core/gateway.js)\<close>

text \<open>
  Each handler is cut at its awaits: the guards before the body is read, the stretch from the body to the season's
  tree (two-tier only), and the rest. The membership check itself awaits many times more and is the machine of
  \<open>Verify_Membership\<close>; what the handler asks of it, the period check and what it replies are here.
\<close>

datatype 'b body = Body 'b | Body_too_large | Body_not_json | Body_broken

definition body_error :: "'b body \<Rightarrow> reply" where
  "body_error b =
     (case b of
        Body_too_large \<Rightarrow> Reply 400 (R_error ''body too large'')
      | Body_not_json \<Rightarrow> Reply 400 (R_error ''invalid json'')
      | _ \<Rightarrow> internal_error)"

definition account_begin :: "(string \<Rightarrow> 'd) \<Rightarrow> gw_config \<Rightarrow> gw_now \<Rightarrow> http_req \<Rightarrow> 'n gw_state \<Rightarrow> 'n gw_state \<times> (reply + string)" where
  "account_begin digest cfg now req g =
     (if \<not> authorized digest cfg req then (g, Inl (Reply 401 (R_error ''unauthorized'')))
      else case limited now L_ingress (clientKey cfg req) g of
        (g1, True) \<Rightarrow> (g1, Inl (Reply 429 (R_error ''rate limited'')))
      | (g1, False) \<Rightarrow> (g1, Inr (clientKey cfg req)))"

text \<open>Both buckets together, or neither.\<close>

definition charge_both :: "gw_now \<Rightarrow> limiter_id \<Rightarrow> limiter_id \<Rightarrow> string \<Rightarrow> string \<Rightarrow> 'n gw_state \<Rightarrow> 'n gw_state \<times> bool" where
  "charge_both now per_account shared client account g =
     (case allowAll (nw_ms now) [(per_account, rateKey [client, account]), (shared, client)] (gw_limiters g) of
        (ls, ok) \<Rightarrow> (g\<lparr>gw_limiters := ls\<rparr>, ok))"

subsection \<open>POST /v1/challenge\<close>

record challenge_body =
  qb_platform :: body_value
  qb_communityId :: body_value
  qb_roleId :: body_value
  qb_account :: body_value

definition context_of :: "(string \<Rightarrow> nat) \<Rightarrow> body_value \<Rightarrow> body_value \<Rightarrow> body_value \<Rightarrow> string" where
  "context_of sha p c r = dec_of_nat (contextHash sha (bv_text p) (bv_text c) (bv_text r) ''v2'')"

definition challenge_body_read :: "(string \<Rightarrow> nat) \<Rightarrow> gw_config \<Rightarrow> gw_now \<Rightarrow> string \<Rightarrow> challenge_body body \<Rightarrow> 'n gw_state
    \<Rightarrow> 'n gw_state \<times> (reply + string \<times> string \<times> int option)" where
  "challenge_body_read sha cfg now client b g =
     (case b of
        Body q \<Rightarrow>
          if \<not> (truthy (qb_platform q) \<and> truthy (qb_communityId q) \<and> truthy (qb_roleId q) \<and> truthy (qb_account q))
          then (g, Inl (Reply 400 (R_error ''missing fields'')))
          else let account = bv_text (qb_account q) in
            if length account > gc_maxAccountBytes cfg then (g, Inl (Reply 400 (R_error (''account exceeds '' @ dec_of_nat (gc_maxAccountBytes cfg) @ '' bytes''))))
            else let ctx = context_of sha (qb_platform q) (qb_communityId q) (qb_roleId q) in
              (case charge_both now L_account_challenge L_challenge client account g of
                 (g1, False) \<Rightarrow> (g1, Inl (Reply 429 (R_error ''rate limited'')))
               | (g1, True) \<Rightarrow>
                   if \<not> gc_twoTier cfg then (g1, Inr (account, ctx, None))
                   else (case gw_season now g1 of
                           (g2, Inr (Num season)) \<Rightarrow> (g2, Inr (account, ctx, Some season))
                         | (g2, _) \<Rightarrow> (g2, Inl internal_error)))
      | _ \<Rightarrow> (g, Inl (body_error b)))"

text \<open>\<open>await seasonMembers.ensureContext(season, ctx)\<close>\<close>

definition gw_ensureContext :: "'n poseidon \<Rightarrow> (sm_read \<Rightarrow> bool) \<Rightarrow> gw_now \<Rightarrow> int \<Rightarrow> string \<Rightarrow> 'n gw_state
    \<Rightarrow> 'n gw_state \<times> season_error option" where
  "gw_ensureContext P fails now season ctx g =
     (case SeasonMembers_ensureContext P fails (Num (nowSec now)) season ctx (gw_regs g) (gw_seasons g) of
        (sm, e) \<Rightarrow> (g\<lparr>gw_seasons := sm\<rparr>, e))"

definition current_root :: "gw_config \<Rightarrow> gw_now \<Rightarrow> string \<Rightarrow> 'n gw_state \<Rightarrow> string option" where
  "current_root cfg now ctx g =
     (if gc_twoTier cfg then Some (re_root (rootCurrent (Num (nowSec now)) ctx (gw_seasons g)))
      else map_option wr_root (RootWindows_current (gw_dmlRoots g)))"

definition challenge_finish :: "(string \<Rightarrow> nat) \<Rightarrow> gw_config \<Rightarrow> gw_now \<Rightarrow> string \<Rightarrow> string \<Rightarrow> string \<Rightarrow> int option \<Rightarrow> 'n gw_state
    \<Rightarrow> 'n gw_state \<times> reply" where
  "challenge_finish sha cfg now nonce account ctx season g =
     (case current_root cfg now ctx g of
        None \<Rightarrow> (g, Reply 503 (R_error ''no root available yet''))
      | Some root \<Rightarrow>
          (case gw_epoch now g of
             (g1, Inr (Num epoch)) \<Rightarrow>
               (case grantExpiresAt epoch (gc_epochSeconds cfg) season (Some (gc_seasonSeconds cfg)) of
                  Inl _ \<Rightarrow> (g1, internal_error)
                | Inr accessEndsAt \<Rightarrow>
                    let sig = dec_of_nat (signalHash sha nonce account);
                        v = \<lparr>cv_account = account, cv_signalHash = sig, cv_epoch = epoch, cv_contextHash = ctx,
                             cv_season = season, cv_root = Some root, cv_expires = 0\<rparr>
                    in (case put_challenge (nw_ms now) nonce v (gw_challenges g1) of
                          (cs, False) \<Rightarrow> (g1\<lparr>gw_challenges := cs\<rparr>, Reply 429 (R_error ''too many pending challenges''))
                        | (cs, True) \<Rightarrow>
                            (g1\<lparr>gw_challenges := cs\<rparr>,
                             Reply 200 (R_challenge \<lparr>cr_nonce = nonce, cr_signalHash = sig, cr_epoch = epoch, cr_root = root,
                               cr_contextHash = ctx,
                               cr_challengeExpiresAt = min (nowSec now + gc_challengeTtlSeconds cfg) accessEndsAt,
                               cr_season = season, cr_accessEndsAt = accessEndsAt,
                               cr_seasonEndsAt = map_option (\<lambda>s. (s + 1) * gc_seasonSeconds cfg) season\<rparr>))))
           | (g1, _) \<Rightarrow> (g1, internal_error)))"

subsection \<open>POST /v1/verify\<close>

record 'p verify_body =
  vb_nonce :: body_value
  vb_account :: body_value
  vb_has_proof :: bool
  vb_proof :: "'p zk_proof option"
  vb_has_signals :: bool
  vb_signals :: public_signals

definition take_nonce :: "gw_now \<Rightarrow> body_value \<Rightarrow> 'n gw_state \<Rightarrow> 'n gw_state \<times> (string \<times> challenge) option" where
  "take_nonce now nonce g =
     (case nonce of
        Bv_string n \<Rightarrow>
          (case take_challenge (nw_ms now) n (gw_challenges g) of
             (cs, v) \<Rightarrow> (g\<lparr>gw_challenges := cs\<rparr>, map_option (Pair n) v))
      | _ \<Rightarrow> (g, None))"

definition gw_hold :: "string option \<Rightarrow> 'n gw_state \<Rightarrow> 'n gw_state \<times> hold_token" where
  "gw_hold root g = (case hold root (gw_challenges g) of (cs, t) \<Rightarrow> (g\<lparr>gw_challenges := cs\<rparr>, t))"

definition gw_release :: "hold_token \<Rightarrow> 'n gw_state \<Rightarrow> 'n gw_state" where
  "gw_release t g = g\<lparr>gw_challenges := fst (release t (gw_challenges g))\<rparr>"

definition epoch_over :: "gw_config \<Rightarrow> gw_now \<Rightarrow> challenge \<Rightarrow> bool" where
  "epoch_over cfg now v \<longleftrightarrow> nowSec now \<ge> (cv_epoch v + 1) * gc_epochSeconds cfg"

definition verify_body_read :: "gw_config \<Rightarrow> gw_now \<Rightarrow> string \<Rightarrow> 'p verify_body body \<Rightarrow> 'n gw_state
    \<Rightarrow> 'n gw_state \<times> (reply + string \<times> challenge \<times> hold_token)" where
  "verify_body_read cfg now client b g =
     (case b of
        Body q \<Rightarrow>
          if \<not> (truthy (vb_nonce q) \<and> vb_has_proof q \<and> vb_has_signals q \<and> truthy (vb_account q))
          then (g, Inl (Reply 400 (R_error ''missing fields'')))
          else let account = bv_text (vb_account q) in
            if length account > gc_maxAccountBytes cfg then (g, Inl (Reply 400 (R_error (''account exceeds '' @ dec_of_nat (gc_maxAccountBytes cfg) @ '' bytes''))))
            else (case charge_both now L_account_verify L_verify client account g of
              (g1, False) \<Rightarrow> (g1, Inl (Reply 429 (R_error ''rate limited'')))
            | (g1, True) \<Rightarrow>
                (case take_nonce now (vb_nonce q) g1 of
                   (g2, None) \<Rightarrow> (g2, Inl (Reply 410 (R_reason ''unknown-or-expired-challenge'')))
                 | (g2, Some (nonce, pending)) \<Rightarrow>
                     (case gw_hold (cv_root pending) g2 of
                        (g3, t) \<Rightarrow>
                          if account \<noteq> cv_account pending
                          then (gw_release t g3, Inl (Reply 200 (R_reason ''account-mismatch'')))
                          else if epoch_over cfg now pending
                          then (gw_release t g3, Inl (Reply 200 (R_reason ''epoch-rolled-over'')))
                          else (g3, Inr (nonce, pending, t)))))
      | _ \<Rightarrow> (g, Inl (body_error b)))"

text \<open>
  The root store a verify checks against: the list's window, or the object the season manager held for
  the context. Within a season a context's object is created once and never replaced, so the season and whether it exists
  identify it.
\<close>

datatype root_ref = Dml_window | Season_roots "int option" bool

definition root_ref_of :: "gw_config \<Rightarrow> string \<Rightarrow> 'n gw_state \<Rightarrow> root_ref" where
  "root_ref_of cfg ctx g =
     (if gc_twoTier cfg then Season_roots (sm_current (gw_seasons g)) (jm_has (sm_ctx (gw_seasons g)) ctx) else Dml_window)"

definition root_recent :: "gw_config \<Rightarrow> string \<Rightarrow> 'n gw_state \<Rightarrow> string \<Rightarrow> bool" where
  "root_recent cfg ctx g root =
     (if gc_twoTier cfg then RootStore_isRecent (rootStore ctx (gw_seasons g)) root
      else RootWindows_isRecent (gw_dmlRoots g) root)"

definition verify_request :: "'v vkey option \<Rightarrow> challenge \<Rightarrow> 'p verify_body \<Rightarrow> ('v, 'p) request" where
  "verify_request vkey pending q =
     \<lparr>rq_vkey = vkey, rq_proof = vb_proof q, rq_signals = vb_signals q,
      rq_expected = \<lparr>ex_account = Some (cv_account pending), ex_epoch = Num (cv_epoch pending),
        ex_contextHash = cv_contextHash pending, ex_signalHash = cv_signalHash pending, ex_asks_period = True\<rparr>\<rparr>"

definition verify_start :: "gw_config \<Rightarrow> 'v vkey option \<Rightarrow> challenge \<Rightarrow> 'p verify_body \<Rightarrow> 'n gw_state
    \<Rightarrow> ('v, 'p) request \<times> root_ref \<times> vphase" where
  "verify_start cfg vkey pending q g =
     (let r = verify_request vkey pending q
      in (r, root_ref_of cfg (cv_contextHash pending) g,
          verifyMembership_begin (root_recent cfg (cv_contextHash pending) g) r))"

text \<open>\<open>expected.stillCurrent\<close>: the clock is observed, then every condition is asked again. \<open>None\<close> is a throw.\<close>

definition still_current :: "gw_config \<Rightarrow> gw_now \<Rightarrow> challenge \<Rightarrow> root_ref \<Rightarrow> string \<Rightarrow> 'n gw_state
    \<Rightarrow> 'n gw_state \<times> answer" where
  "still_current cfg now pending ref root g =
     (case observe_both now g of
        (g1, Inl _) \<Rightarrow> (g1, Ans_throws)
      | (g1, Inr season) \<Rightarrow>
          if TimeGuard_regressed (gw_guard g1) then (g1, Ans_verdict (Some ''clock-regressed''))
          else if epoch_over cfg now pending then (g1, Ans_verdict (Some ''epoch-rolled-over''))
          else if gc_twoTier cfg \<and> (map_option Num (cv_season pending) \<noteq> Some season \<or>
              root_ref_of cfg (cv_contextHash pending) g1 \<noteq> ref)
          then (g1, Ans_verdict (Some ''season-rolled-over''))
          else if \<not> root_recent cfg (cv_contextHash pending) g1 root
          then (g1, Ans_verdict (Some ''stale-or-unknown-root''))
          else (g1, Ans_verdict None))"

text \<open>The reply to a settled check; the shed or interrupted one puts its challenge back.\<close>

definition verify_reply :: "gw_config \<Rightarrow> challenge \<Rightarrow> ('v, 'p) request \<Rightarrow> outcome \<Rightarrow> reply" where
  "verify_reply cfg pending q out =
     (case out of
        Refused r \<Rightarrow> Reply 200 (R_reason r)
      | Granted regranted \<Rightarrow>
          (case grantExpiresAt (cv_epoch pending) (gc_epochSeconds cfg)
              (if gc_twoTier cfg then cv_season pending else None) (Some (gc_seasonSeconds cfg)) of
             Inl _ \<Rightarrow> internal_error
           | Inr expiresAt \<Rightarrow>
               Reply 200 (R_grant (cv_account pending) (sg_epoch (request_signals q)) expiresAt regranted)))"

definition verify_put_back :: "gw_now \<Rightarrow> bool \<Rightarrow> string \<Rightarrow> challenge \<Rightarrow> 'n gw_state \<Rightarrow> 'n gw_state \<times> reply" where
  "verify_put_back now overloaded nonce pending g =
     (case restore (nw_ms now) nonce pending (gw_challenges g) of
        (cs, restored) \<Rightarrow>
          (g\<lparr>gw_challenges := cs\<rparr>,
           Reply 503 (R_error ((if overloaded then ''overloaded'' else ''a temporary error verifying'') @
             (if restored then '', retry later'' else '', the challenge could not be preserved, request a new challenge'')))))"

definition verify_finish :: "gw_config \<Rightarrow> gw_now \<Rightarrow> bool \<Rightarrow> string \<Rightarrow> challenge \<Rightarrow> hold_token \<Rightarrow> ('v, 'p) request \<Rightarrow> vphase
    \<Rightarrow> 'n gw_state \<Rightarrow> 'n gw_state \<times> reply" where
  "verify_finish cfg now overloaded nonce pending t q ph g =
     (case ph of
        Settled out \<Rightarrow> (gw_release t g, verify_reply cfg pending q out)
      | Threw beforeSpend \<Rightarrow>
          (if overloaded \<or> beforeSpend
           then (case verify_put_back now overloaded nonce pending g of (g1, r) \<Rightarrow> (gw_release t g1, r))
           else (gw_release t g, internal_error))
      | _ \<Rightarrow> (g, internal_error))"

end
