(* ===== verification/Gateway_Run.thy ===== *)
theory Gateway_Run
  imports Gateway_Membership
begin

section \<open>Many requests over one gateway\<close>

text \<open>
  Challenge and verify requests interleave at every await, over one challenge store, one clock, one window
  and one nullifier store. A verify's membership check is a call of the machine \<open>vm_step\<close> under the
  request's own number; what the other endpoints, the timers and the refresh do to the shared state is
  \<open>background\<close>, which leaves the root window, the limiters, the season's members and the registrations arbitrary.
  \<open>ws_minted\<close> and \<open>ws_grants\<close> record what was answered.
\<close>

datatype 'p handler =
    Hd_challenge string
  | Hd_challenge_tree string string int
  | Hd_verify string
  | Hd_verify_tree string challenge hold_token "'p verify_body" int
  | Hd_checking string challenge hold_token root_ref bool
  | Hd_done reply

record ('v, 'p, 's, 'n) gw_sys = "('v, 'p, 's) vsys" +
  ws_gw :: "'n gw_state"
  ws_handlers :: "nat \<Rightarrow> 'p handler option"
  ws_minted :: "(string \<times> challenge) list"
  ws_grants :: "(string \<times> challenge \<times> ('v, 'p) request) list"

definition move_to :: "nat \<Rightarrow> 'p handler \<Rightarrow> 'n gw_state \<Rightarrow> ('v, 'p, 's, 'n) gw_sys \<Rightarrow> ('v, 'p, 's, 'n) gw_sys" where
  "move_to i h g y = y\<lparr>ws_gw := g, ws_handlers := (ws_handlers y)(i \<mapsto> h)\<rparr>"

text \<open>\<open>settle\<close> of the membership machine, on the larger state.\<close>

definition gw_settle :: "nat \<Rightarrow> ('v, 'p) request \<Rightarrow> vphase \<Rightarrow> ('v, 'p, 's, 'n) gw_sys \<Rightarrow> ('v, 'p, 's, 'n) gw_sys" where
  "gw_settle i q ph y = y\<lparr>vs_calls := (vs_calls y)(i \<mapsto> (q, ph)),
     vs_granted := (case ph of Settled (Granted r) \<Rightarrow> q # vs_granted y | _ \<Rightarrow> vs_granted y)\<rparr>"

definition serve_begin :: "(string \<Rightarrow> 'd) \<Rightarrow> gw_config \<Rightarrow> gw_now \<Rightarrow> http_req \<Rightarrow> 'n gw_state \<Rightarrow> 'n gw_state \<times> (reply + string)" where
  "serve_begin digest cfg now req g =
     (case clock_gate now req (enforceDmlFreshness cfg now g) of
        (g1, Some r) \<Rightarrow> (g1, Inl r)
      | (g1, None) \<Rightarrow> account_begin digest cfg now req g1)"

text \<open>A challenge was answered: the nonce is on record when it was stored.\<close>

definition mint_reply :: "nat \<Rightarrow> string \<Rightarrow> 'n gw_state \<times> reply \<Rightarrow> ('v, 'p, 's, 'n) gw_sys \<Rightarrow> ('v, 'p, 's, 'n) gw_sys" where
  "mint_reply i nonce out y = (move_to i (Hd_done (snd out)) (fst out) y)\<lparr>ws_minted :=
     (case (snd out, jm_get (cs_pending (gw_challenges (fst out))) nonce) of
        (Reply _ (R_challenge _), Some v) \<Rightarrow> (nonce, v) # ws_minted y
      | _ \<Rightarrow> ws_minted y)\<rparr>"

definition fresh_nonce :: "string \<Rightarrow> ('v, 'p, 's, 'n) gw_sys \<Rightarrow> bool" where
  "fresh_nonce nonce y \<longleftrightarrow> nonce \<notin> fst ` set (ws_minted y)"

definition start_check :: "gw_config \<Rightarrow> 'v vkey option \<Rightarrow> nat \<Rightarrow> string \<Rightarrow> challenge \<Rightarrow> hold_token \<Rightarrow> 'p verify_body \<Rightarrow> 'n gw_state
    \<Rightarrow> ('v, 'p, 's, 'n) gw_sys \<Rightarrow> ('v, 'p, 's, 'n) gw_sys" where
  "start_check cfg vkey i nonce pending t b g y =
     (case verify_start cfg vkey pending b g of
        (q, ref, ph) \<Rightarrow> gw_settle i q ph (move_to i (Hd_checking nonce pending t ref False) g y))"

definition after_body :: "gw_config \<Rightarrow> 'v vkey option \<Rightarrow> gw_now \<Rightarrow> nat \<Rightarrow> 'p verify_body \<Rightarrow> string \<Rightarrow> challenge \<Rightarrow> hold_token \<Rightarrow> 'n gw_state
    \<Rightarrow> ('v, 'p, 's, 'n) gw_sys \<Rightarrow> ('v, 'p, 's, 'n) gw_sys" where
  "after_body cfg vkey now i b nonce pending t g y =
     (if \<not> gc_twoTier cfg then start_check cfg vkey i nonce pending t b g y
      else (case gw_season now g of
              (g1, Inr (Num season)) \<Rightarrow> move_to i (Hd_verify_tree nonce pending t b season) g1 y
            | (g1, _) \<Rightarrow> move_to i (Hd_done internal_error) (gw_release t g1) y))"

definition after_tree :: "gw_config \<Rightarrow> 'v vkey option \<Rightarrow> nat \<Rightarrow> 'p verify_body \<Rightarrow> string \<Rightarrow> challenge \<Rightarrow> hold_token
    \<Rightarrow> 'n gw_state \<times> season_error option \<Rightarrow> ('v, 'p, 's, 'n) gw_sys \<Rightarrow> ('v, 'p, 's, 'n) gw_sys" where
  "after_tree cfg vkey i b nonce pending t out y =
     (case out of
        (g, None) \<Rightarrow> start_check cfg vkey i nonce pending t b g y
      | (g, Some _) \<Rightarrow> move_to i (Hd_done internal_error) (gw_release t g) y)"

definition reply_grants :: "string \<Rightarrow> challenge \<Rightarrow> ('v, 'p) request \<Rightarrow> reply \<Rightarrow> (string \<times> challenge \<times> ('v, 'p) request) list" where
  "reply_grants nonce pending q r = (case r of Reply _ (R_grant _ _ _ _) \<Rightarrow> [(nonce, pending, q)] | _ \<Rightarrow> [])"

inductive background :: "'n gw_state \<Rightarrow> 'n gw_state \<Rightarrow> bool" where
  bg_refresh: "background g (g\<lparr>gw_dmlRoots := w\<rparr>)"
| bg_seasons: "background g (g\<lparr>gw_seasons := sm, gw_regs := v\<rparr>)"
| bg_limiters: "background g (g\<lparr>gw_limiters := ls\<rparr>)"
| bg_clock: "background g (fst (observe_both now g))"
| bg_sweep: "background g (g\<lparr>gw_challenges := ChallengeStore_sweep t (gw_challenges g)\<rparr>)"

definition sane_now :: "gw_config \<Rightarrow> gw_now \<Rightarrow> bool" where
  "sane_now cfg now \<longleftrightarrow> 0 \<le> nw_ms now \<and> nw_ms now < 2 ^ 53 \<and> 0 < gc_epochSeconds cfg"

inductive gw_step :: "gw_config \<Rightarrow> (string \<Rightarrow> nat) \<Rightarrow> (string \<Rightarrow> 'd) \<Rightarrow> 'n poseidon \<Rightarrow> 'v vkey option \<Rightarrow>
    (tag \<Rightarrow> 's \<Rightarrow> bool) \<Rightarrow> (tag \<Rightarrow> 's \<Rightarrow> claim option) \<Rightarrow> (tag \<Rightarrow> claim \<Rightarrow> 's \<Rightarrow> 's \<times> bool) \<Rightarrow>
    (jsnum \<Rightarrow> 's \<Rightarrow> 's) \<Rightarrow> (('v, 'p) request \<Rightarrow> bool) \<Rightarrow> int \<Rightarrow> ('v, 'p, 's, 'n) gw_sys \<Rightarrow> ('v, 'p, 's, 'n) gw_sys \<Rightarrow> bool"
  for cfg sha digest P vkey has get add prune valid lo where
  gs_arrives: "ws_handlers y i = None \<Longrightarrow> hr_method req = ''POST'' \<Longrightarrow>
     hr_path req = (if challenge then ''/v1/challenge'' else ''/v1/verify'') \<Longrightarrow>
     serve_begin digest cfg now req (ws_gw y) = (g, Inr client) \<Longrightarrow>
     gw_step cfg sha digest P vkey has get add prune valid lo y
       (move_to i (if challenge then Hd_challenge client else Hd_verify client) g y)"
| gs_refused: "ws_handlers y i = None \<Longrightarrow>
     serve_begin digest cfg now req (ws_gw y) = (g, Inl r) \<Longrightarrow>
     gw_step cfg sha digest P vkey has get add prune valid lo y (move_to i (Hd_done r) g y)"
| gs_challenge_refused: "ws_handlers y i = Some (Hd_challenge client) \<Longrightarrow>
     challenge_body_read sha cfg now client b (ws_gw y) = (g, Inl r) \<Longrightarrow>
     gw_step cfg sha digest P vkey has get add prune valid lo y (move_to i (Hd_done r) g y)"
| gs_challenge_tree: "ws_handlers y i = Some (Hd_challenge client) \<Longrightarrow>
     challenge_body_read sha cfg now client b (ws_gw y) = (g, Inr (account, ctx, Some season)) \<Longrightarrow>
     gw_step cfg sha digest P vkey has get add prune valid lo y (move_to i (Hd_challenge_tree account ctx season) g y)"
| gs_challenge_single: "ws_handlers y i = Some (Hd_challenge client) \<Longrightarrow> sane_now cfg now \<Longrightarrow> fresh_nonce nonce y \<Longrightarrow>
     challenge_body_read sha cfg now client b (ws_gw y) = (g, Inr (account, ctx, None)) \<Longrightarrow>
     gw_step cfg sha digest P vkey has get add prune valid lo y
       (mint_reply i nonce (challenge_finish sha cfg now nonce account ctx None g) y)"
| gs_challenge_two_tier: "ws_handlers y i = Some (Hd_challenge_tree account ctx season) \<Longrightarrow> sane_now cfg now \<Longrightarrow> fresh_nonce nonce y \<Longrightarrow>
     gw_ensureContext P fails now season ctx (ws_gw y) = (g, None) \<Longrightarrow>
     gw_step cfg sha digest P vkey has get add prune valid lo y
       (mint_reply i nonce (challenge_finish sha cfg now nonce account ctx (Some season) g) y)"
| gs_challenge_fails: "ws_handlers y i = Some (Hd_challenge_tree account ctx season) \<Longrightarrow>
     gw_ensureContext P fails now season ctx (ws_gw y) = (g, Some e) \<Longrightarrow>
     gw_step cfg sha digest P vkey has get add prune valid lo y (move_to i (Hd_done internal_error) g y)"
| gs_verify_refused: "ws_handlers y i = Some (Hd_verify client) \<Longrightarrow>
     verify_body_read cfg now client (b :: 'p verify_body body) (ws_gw y) = (g, Inl r) \<Longrightarrow>
     gw_step cfg sha digest P vkey has get add prune valid lo y (move_to i (Hd_done r) g y)"
| gs_verify_taken: "ws_handlers y i = Some (Hd_verify client) \<Longrightarrow>
     verify_body_read cfg now client (Body b) (ws_gw y) = (g, Inr (nonce, pending, t)) \<Longrightarrow>
     gw_step cfg sha digest P vkey has get add prune valid lo y (after_body cfg vkey now i b nonce pending t g y)"
| gs_verify_tree: "ws_handlers y i = Some (Hd_verify_tree nonce pending t b season) \<Longrightarrow>
     gw_step cfg sha digest P vkey has get add prune valid lo y
       (after_tree cfg vkey i b nonce pending t (gw_ensureContext P fails now season (cv_contextHash pending) (ws_gw y)) y)"
| gs_check: "ws_handlers y i = Some (Hd_checking nonce pending t ref overloaded) \<Longrightarrow> vs_calls y i = Some (q, ph) \<Longrightarrow>
     running ph \<Longrightarrow> \<not> period_phase ph \<Longrightarrow>
     vm_step has get add prune valid lo (vsys.truncate y) z \<Longrightarrow> vs_calls z = (vs_calls y)(i \<mapsto> (q, ph')) \<Longrightarrow>
     gw_step cfg sha digest P vkey has get add prune valid lo y
       (y\<lparr>vs_store := vs_store z, vs_calls := vs_calls z, vs_granted := vs_granted z,
          ws_handlers := (ws_handlers y)(i \<mapsto> Hd_checking nonce pending t ref (proof_phase ph \<and> (\<exists>b. ph' = Threw b)))\<rparr>)"
| gs_period: "ws_handlers y i = Some (Hd_checking nonce pending t ref overloaded) \<Longrightarrow> vs_calls y i = Some (q, ph) \<Longrightarrow>
     period_phase ph \<Longrightarrow>
     still_current cfg now pending ref (sg_root (request_signals q)) (ws_gw y) = (g, a) \<Longrightarrow>
     gw_step cfg sha digest P vkey has get add prune valid lo y
       ((gw_settle i q (verifyMembership_resume q ph a) y)\<lparr>ws_gw := g\<rparr>)"
| gs_replies: "ws_handlers y i = Some (Hd_checking nonce pending t ref overloaded) \<Longrightarrow> vs_calls y i = Some (q, ph) \<Longrightarrow>
     \<not> running ph \<Longrightarrow> verify_finish cfg now overloaded nonce pending t q ph (ws_gw y) = (g, r) \<Longrightarrow>
     gw_step cfg sha digest P vkey has get add prune valid lo y
       ((move_to i (Hd_done r) g y)\<lparr>ws_grants := reply_grants nonce pending q r @ ws_grants y\<rparr>)"
| gs_background: "background (ws_gw y) g \<Longrightarrow> gw_step cfg sha digest P vkey has get add prune valid lo y (y\<lparr>ws_gw := g\<rparr>)"
| gs_prune: "c \<le> Num lo \<or> \<not> js_isFinite c \<Longrightarrow>
     gw_step cfg sha digest P vkey has get add prune valid lo y (y\<lparr>vs_store := prune c (vs_store y)\<rparr>)"
| gs_restart: "gw_step cfg sha digest P vkey has get add prune valid lo y
     (y\<lparr>vs_calls := Map.empty, ws_handlers := Map.empty,
        ws_gw := g\<lparr>gw_challenges := ChallengeStore_new (gc_challengeTtlSeconds cfg) m\<rparr>\<rparr>)"

inductive gw_reach :: "gw_config \<Rightarrow> (string \<Rightarrow> nat) \<Rightarrow> (string \<Rightarrow> 'd) \<Rightarrow> 'n poseidon \<Rightarrow> 'v vkey option \<Rightarrow>
    (tag \<Rightarrow> 's \<Rightarrow> bool) \<Rightarrow> (tag \<Rightarrow> 's \<Rightarrow> claim option) \<Rightarrow> (tag \<Rightarrow> claim \<Rightarrow> 's \<Rightarrow> 's \<times> bool) \<Rightarrow>
    (jsnum \<Rightarrow> 's \<Rightarrow> 's) \<Rightarrow> (('v, 'p) request \<Rightarrow> bool) \<Rightarrow> int \<Rightarrow> 's \<Rightarrow> ('v, 'p, 's, 'n) gw_sys \<Rightarrow> bool"
  for cfg sha digest P vkey has get add prune valid lo s0 where
  gr_boot: "cs_pending (gw_challenges g) = [] \<Longrightarrow> cs_held (gw_challenges g) = [] \<Longrightarrow>
     gw_reach cfg sha digest P vkey has get add prune valid lo s0
       \<lparr>vs_store = s0, vs_calls = Map.empty, vs_granted = [], ws_gw = g, ws_handlers = Map.empty, ws_minted = [], ws_grants = []\<rparr>"
| gr_next: "gw_reach cfg sha digest P vkey has get add prune valid lo s0 y \<Longrightarrow>
     gw_step cfg sha digest P vkey has get add prune valid lo y y' \<Longrightarrow>
     gw_reach cfg sha digest P vkey has get add prune valid lo s0 y'"

subsection \<open>Where a nonce can be\<close>

text \<open>Pending, in the hand of one verify, or granted: the moves of a nonce.\<close>

definition nonce_inv :: "(string \<times> challenge) set \<Rightarrow> (nat \<Rightarrow> (string \<times> challenge) option) \<Rightarrow> (string \<times> challenge) list \<Rightarrow>
    (string \<times> challenge) list \<Rightarrow> bool" where
  "nonce_inv pend hands minted grants \<longleftrightarrow> pend \<subseteq> set minted \<and>
     (\<forall>i n v. hands i = Some (n, v) \<longrightarrow> (n, v) \<in> set minted \<and> n \<notin> fst ` pend) \<and>
     (\<forall>i j n v w. hands i = Some (n, v) \<longrightarrow> hands j = Some (n, w) \<longrightarrow> i = j) \<and>
     (\<forall>n v. (n, v) \<in> set grants \<longrightarrow> (n, v) \<in> set minted \<and> n \<notin> fst ` pend \<and> (\<forall>i w. hands i \<noteq> Some (n, w))) \<and>
     distinct (map fst grants) \<and> distinct (map fst minted)"

lemma nonce_invD:
  assumes "nonce_inv pend hands minted grants"
  shows "pend \<subseteq> set minted" "hands i = Some (n, v) \<Longrightarrow> (n, v) \<in> set minted"
    "hands i = Some (n, v) \<Longrightarrow> n \<notin> fst ` pend" "hands i = Some (n, v) \<Longrightarrow> hands j = Some (n, w) \<Longrightarrow> i = j"
    "(n, v) \<in> set grants \<Longrightarrow> (n, v) \<in> set minted" "(n, v) \<in> set grants \<Longrightarrow> n \<notin> fst ` pend"
    "(n, v) \<in> set grants \<Longrightarrow> hands i \<noteq> Some (n, w)" "distinct (map fst grants)" "distinct (map fst minted)"
proof -
  have h: "pend \<subseteq> set minted" "\<forall>i n v. hands i = Some (n, v) \<longrightarrow> (n, v) \<in> set minted \<and> n \<notin> fst ` pend"
    "\<forall>i j n v w. hands i = Some (n, v) \<longrightarrow> hands j = Some (n, w) \<longrightarrow> i = j"
    "\<forall>n v. (n, v) \<in> set grants \<longrightarrow> (n, v) \<in> set minted \<and> n \<notin> fst ` pend \<and> (\<forall>i w. hands i \<noteq> Some (n, w))"
    "distinct (map fst grants)" "distinct (map fst minted)"
    using assms unfolding nonce_inv_def by - (elim conjE, assumption)+
  show "pend \<subseteq> set minted" "distinct (map fst grants)" "distinct (map fst minted)"
    by (rule h)+
  show "hands i = Some (n, v) \<Longrightarrow> (n, v) \<in> set minted" "hands i = Some (n, v) \<Longrightarrow> n \<notin> fst ` pend"
    using h(2) by blast+
  show "hands i = Some (n, v) \<Longrightarrow> hands j = Some (n, w) \<Longrightarrow> i = j"
    using h(3) by blast
  show "(n, v) \<in> set grants \<Longrightarrow> (n, v) \<in> set minted" "(n, v) \<in> set grants \<Longrightarrow> n \<notin> fst ` pend"
    "(n, v) \<in> set grants \<Longrightarrow> hands i \<noteq> Some (n, w)"
    using h(4) by blast+
qed

lemma nonce_invI:
  assumes "pend \<subseteq> set minted" "\<And>i n v. hands i = Some (n, v) \<Longrightarrow> (n, v) \<in> set minted"
    "\<And>i n v. hands i = Some (n, v) \<Longrightarrow> n \<notin> fst ` pend"
    "\<And>i j n v w. hands i = Some (n, v) \<Longrightarrow> hands j = Some (n, w) \<Longrightarrow> i = j"
    "\<And>n v. (n, v) \<in> set grants \<Longrightarrow> (n, v) \<in> set minted" "\<And>n v. (n, v) \<in> set grants \<Longrightarrow> n \<notin> fst ` pend"
    "\<And>n v i w. (n, v) \<in> set grants \<Longrightarrow> hands i \<noteq> Some (n, w)" "distinct (map fst grants)" "distinct (map fst minted)"
  shows "nonce_inv pend hands minted grants"
  unfolding nonce_inv_def by (intro conjI allI impI) (rule assms; assumption)+

lemma nonce_fades:
  assumes "nonce_inv pend hands minted grants" "pend' \<subseteq> pend" "\<And>i. hands' i = None \<or> hands' i = hands i"
  shows "nonce_inv pend' hands' minted grants"
proof -
  note d = nonce_invD [OF assms(1)]
  have h: "hands i = Some (n, v)" if "hands' i = Some (n, v)" for i n v
    using assms(3) [of i] that by auto
  have p: "n \<notin> fst ` pend'" if "n \<notin> fst ` pend" for n
    using that assms(2) by blast
  show ?thesis
  proof (rule nonce_invI)
    show "pend' \<subseteq> set minted"
      using d(1) assms(2) by blast
    show "hands' i \<noteq> Some (n, w)" if "(n, v) \<in> set grants" for n v i w
      using d(7) [OF that, of i w] h [of i n w] by blast
  qed (rule d(2) [OF h] d(4) [OF h h] d(5) d(8) d(9) p [OF d(3) [OF h]] p [OF d(6)]; assumption?)+
qed

lemma nonce_minted:
  assumes "nonce_inv pend hands minted grants" "pend' \<subseteq> insert (n, v) pend" "n \<notin> fst ` set minted"
  shows "nonce_inv pend' hands ((n, v) # minted) grants"
proof -
  note d = nonce_invD [OF assms(1)]
  have fresh: "m \<noteq> n" if "(m, w) \<in> set minted" for m w
    using that assms(3) by force
  have p: "m \<notin> fst ` pend'" if "m \<notin> fst ` pend" "(m, w) \<in> set minted" for m w
    using that(1) fresh [OF that(2)] assms(2) by force
  show ?thesis
  proof (rule nonce_invI)
    show "pend' \<subseteq> set ((n, v) # minted)"
      using d(1) assms(2) by auto
    show "distinct (map fst ((n, v) # minted))"
      using d(9) assms(3) by simp
    show "m \<notin> fst ` pend'" if "hands i = Some (m, w)" for i m w
      by (rule p [OF d(3) [OF that] d(2) [OF that]])
    show "m \<notin> fst ` pend'" if "(m, w) \<in> set grants" for m w
      by (rule p [OF d(6) [OF that] d(5) [OF that]])
  qed (use d(2,4,5,7,8) in \<open>auto 0 0\<close>)
qed

lemma nonce_taken:
  assumes "nonce_inv pend hands minted grants" "(n, v) \<in> pend" "pend' \<subseteq> pend - {x. fst x = n}"
  shows "nonce_inv pend' (hands(i := Some (n, v))) minted grants"
proof -
  note d = nonce_invD [OF assms(1)]
  have at: "n \<in> fst ` pend"
    using assms(2) by force
  have free: "hands j \<noteq> Some (n, w)" "(n, w) \<notin> set grants" for j w
    using d(3) [of j n w] d(6) [of n w] at by blast+
  have p: "n \<notin> fst ` pend'" "\<And>m. m \<notin> fst ` pend \<Longrightarrow> m \<notin> fst ` pend'"
    using assms(3) by blast+
  show ?thesis
  proof (rule nonce_invI)
    show "pend' \<subseteq> set minted"
      using d(1) assms(3) by blast
    show "(m, w) \<in> set minted" if "(hands(i := Some (n, v))) j = Some (m, w)" for j m w
      using that d(1) assms(2) d(2) [of j m w] by (auto split: if_splits)
    show "m \<notin> fst ` pend'" if "(hands(i := Some (n, v))) j = Some (m, w)" for j m w
      using that p d(3) [of j m w] by (cases "j = i") auto
    show "j = k" if "(hands(i := Some (n, v))) j = Some (m, w)" "(hands(i := Some (n, v))) k = Some (m, x)" for j k m w x
      using that free(1) [of j w] free(1) [of k x] d(4) [of j m w k x] by (auto split: if_splits)
    show "m \<notin> fst ` pend'" if "(m, w) \<in> set grants" for m w
      by (rule p(2) [OF d(6) [OF that]])
    show "(hands(i := Some (n, v))) j \<noteq> Some (m, x)" if "(m, w) \<in> set grants" for m w j x
      using that free(2) [of w] d(7) [OF that, of j x] by auto
  qed (use d(5,8,9) in auto)
qed

lemma nonce_put_back:
  assumes "nonce_inv pend hands minted grants" "hands i = Some (n, v)" "pend' \<subseteq> insert (n, v) pend"
  shows "nonce_inv pend' (hands(i := None)) minted grants"
proof -
  note d = nonce_invD [OF assms(1)]
  note mine = d(2,3) [OF assms(2)]
  have other: "hands j \<noteq> Some (n, w)" if "j \<noteq> i" for j w
    using d(4) [OF assms(2), of j w] that by blast
  have p: "m \<notin> fst ` pend'" if "m \<notin> fst ` pend" "m \<noteq> n" for m
    using that assms(3) by force
  show ?thesis
  proof (rule nonce_invI)
    show "pend' \<subseteq> set minted"
      using d(1) assms(3) mine(1) by blast
    show "m \<notin> fst ` pend'" if "(hands(i := None)) j = Some (m, w)" for j m w
      using that p [OF d(3) [of j m w]] other [of j w] by (auto split: if_splits)
    show "j = k" if "(hands(i := None)) j = Some (m, w)" "(hands(i := None)) k = Some (m, x)" for j k m w x
      using that d(4) [of j m w k x] by (auto split: if_splits)
    show "m \<notin> fst ` pend'" if "(m, w) \<in> set grants" for m w
      using p [OF d(6) [OF that]] d(7) [OF that, of i v] assms(2) by blast
    show "(hands(i := None)) j \<noteq> Some (m, x)" if "(m, w) \<in> set grants" for m w j x
      using d(7) [OF that, of j x] by auto
    show "(m, w) \<in> set minted" if "(hands(i := None)) j = Some (m, w)" for j m w
      using that d(2) [of j m w] by (auto split: if_splits)
  qed (use d(5,8,9) in auto)
qed

lemma nonce_granted:
  assumes "nonce_inv pend hands minted grants" "hands i = Some (n, v)"
  shows "nonce_inv pend (hands(i := None)) minted ((n, v) # grants)"
proof -
  note d = nonce_invD [OF nonce_put_back [OF assms subset_insertI]]
  note mine = nonce_invD(2,3) [OF assms]
  have other: "hands j \<noteq> Some (n, w)" if "j \<noteq> i" for j w
    using nonce_invD(4) [OF assms, of j w] that by blast
  have "n \<notin> fst ` set grants"
    using nonce_invD(7) [OF assms(1), of n _ i v] assms(2) by force
  show ?thesis
  proof (rule nonce_invI)
    show "(hands(i := None)) j \<noteq> Some (m, x)" if "(m, w) \<in> set ((n, v) # grants)" for m w j x
      using that other [of j x] d(7) [of m w j x] by auto
    show "distinct (map fst ((n, v) # grants))"
      using d(8) \<open>n \<notin> fst ` set grants\<close> by simp
    show "m \<notin> fst ` pend" if "(m, w) \<in> set ((n, v) # grants)" for m w
      using that mine(2) nonce_invD(6) [OF assms(1), of m w] by auto
    show "(m, w) \<in> set minted" if "(m, w) \<in> set ((n, v) # grants)" for m w
      using that mine(1) d(5) [of m w] by auto
    show "pend \<subseteq> set minted" "distinct (map fst minted)"
      by (rule nonce_invD [OF assms(1)])+
    show "m \<notin> fst ` pend" if "(hands(i := None)) j = Some (m, w)" for j m w
      using that nonce_invD(3) [OF assms(1), of j m w] by (cases "j = i") auto
  qed (rule d(2) d(4); assumption)+
qed

fun hand :: "'p handler option \<Rightarrow> (string \<times> challenge) option" where
  "hand (Some (Hd_verify_tree n v t b s)) = Some (n, v)"
| "hand (Some (Hd_checking n v t ref ov)) = Some (n, v)"
| "hand _ = None"

definition pend :: "'n gw_state \<Rightarrow> (string \<times> challenge) set" where
  "pend g = set (cs_pending (gw_challenges g))"

definition hands :: "('v, 'p, 's, 'n) gw_sys \<Rightarrow> nat \<Rightarrow> (string \<times> challenge) option" where
  "hands y i = hand (ws_handlers y i)"

definition granted_nonces :: "('v, 'p, 's, 'n) gw_sys \<Rightarrow> (string \<times> challenge) list" where
  "granted_nonces y = map (\<lambda>(n, v, q). (n, v)) (ws_grants y)"

definition gw_wf :: "'n gw_state \<Rightarrow> bool" where
  "gw_wf g \<longleftrightarrow> jm_wf (cs_pending (gw_challenges g))"

subsection \<open>What each stretch does to the challenges\<close>

lemma limited_same:
  "limited now l k g = (g1, r) \<Longrightarrow> gw_challenges g1 = gw_challenges g"
  by (auto simp: limited_def split: prod.splits)

lemma charge_both_same:
  "charge_both now a b c d g = (g1, r) \<Longrightarrow> gw_challenges g1 = gw_challenges g"
  by (auto simp: charge_both_def split: prod.splits)

lemma freshness_same: "gw_challenges (enforceDmlFreshness cfg now g) = gw_challenges g"
  by (simp add: enforceDmlFreshness_def)

lemma serve_begin_same:
  "serve_begin digest cfg now req g = (g1, r) \<Longrightarrow> gw_challenges g1 = gw_challenges g"
  by (auto simp: serve_begin_def account_begin_def freshness_same split: prod.splits option.splits if_splits bool.splits
      dest!: clock_gate_same limited_same)

lemma challenge_body_read_same:
  "challenge_body_read sha cfg now client b g = (g1, r) \<Longrightarrow> gw_challenges g1 = gw_challenges g"
  by (auto simp: challenge_body_read_def Let_def split: prod.splits body.splits if_splits bool.splits sum.splits jsnum.splits
      dest!: charge_both_same gw_season_same)

lemma ensureContext_same:
  "gw_ensureContext P fails now season ctx g = (g1, r) \<Longrightarrow> gw_challenges g1 = gw_challenges g"
  by (auto simp: gw_ensureContext_def split: prod.splits)

lemma release_pending [simp]: "cs_pending (gw_challenges (gw_release t g)) = cs_pending (gw_challenges g)"
  by (auto simp: gw_release_def release_def Let_def split: option.splits)

lemma hold_pending: "gw_hold r g = (g1, t) \<Longrightarrow> cs_pending (gw_challenges g1) = cs_pending (gw_challenges g)"
  by (auto simp: gw_hold_def hold_def split: option.splits prod.splits)

lemma observe_same: "gw_challenges (fst (observe_both now g)) = gw_challenges g"
  using observe_both_same [of now g] by (metis prod.collapse)

lemma still_current_same: "still_current cfg now v ref r g = (g1, a) \<Longrightarrow> gw_challenges g1 = gw_challenges g"
  using observe_same [of now g]
  by (auto simp: still_current_def split: prod.splits sum.splits if_splits)

subsection \<open>Reading the state as a run of the membership machine\<close>

lemma truncate_simps [simp]:
  "vsys.truncate (move_to i h g y) = vsys.truncate y" "vsys.truncate (y\<lparr>ws_gw := g\<rparr>) = vsys.truncate y"
  "vsys.truncate (y\<lparr>ws_grants := gs\<rparr>) = vsys.truncate y" "vsys.truncate (y\<lparr>ws_minted := ms\<rparr>) = vsys.truncate y"
  "vsys.truncate (gw_settle i q ph y) = settle i q ph (vsys.truncate y)"
  "vs_calls (vsys.truncate y) = vs_calls y" "vs_granted (vsys.truncate y) = vs_granted y"
  "vs_store (vsys.truncate y) = vs_store y"
  by (simp_all add: vsys.truncate_def move_to_def gw_settle_def settle_def split: vphase.split outcome.split)

lemma move_simps [simp]:
  "ws_gw (move_to i h g y) = g" "ws_handlers (move_to i h g y) = (ws_handlers y)(i \<mapsto> h)"
  "ws_minted (move_to i h g y) = ws_minted y" "ws_grants (move_to i h g y) = ws_grants y"
  "vs_calls (move_to i h g y) = vs_calls y" "vs_granted (move_to i h g y) = vs_granted y"
  "ws_gw (gw_settle i q ph y) = ws_gw y" "ws_handlers (gw_settle i q ph y) = ws_handlers y"
  "ws_minted (gw_settle i q ph y) = ws_minted y" "ws_grants (gw_settle i q ph y) = ws_grants y"
  "vs_calls (gw_settle i q ph y) = (vs_calls y)(i \<mapsto> (q, ph))"
  by (simp_all add: move_to_def gw_settle_def)

definition minted_ok :: "(string \<Rightarrow> nat) \<Rightarrow> (string \<times> challenge) list \<Rightarrow> bool" where
  "minted_ok sha ms \<longleftrightarrow> (\<forall>n v. (n, v) \<in> set ms \<longrightarrow>
     cv_signalHash v = dec_of_nat (signalHash sha n (cv_account v)) \<and> cv_epoch v < 2 ^ 53)"

definition calls_ok :: "'v vkey option \<Rightarrow> ('v, 'p, 's, 'n) gw_sys \<Rightarrow> bool" where
  "calls_ok vkey y \<longleftrightarrow> (\<forall>i q ph. vs_calls y i = Some (q, ph) \<longrightarrow>
     (\<exists>n v t ref ov b. ws_handlers y i = Some (Hd_checking n v t ref ov) \<and> q = verify_request vkey v b) \<or>
     (\<exists>r. ws_handlers y i = Some (Hd_done r)))"

definition grants_ok :: "'v vkey option \<Rightarrow> ('v, 'p, 's, 'n) gw_sys \<Rightarrow> bool" where
  "grants_ok vkey y \<longleftrightarrow> (\<forall>n v q. (n, v, q) \<in> set (ws_grants y) \<longrightarrow> q \<in> set (vs_granted y) \<and> (\<exists>b. q = verify_request vkey v b))"

definition gw_inv :: "(string \<Rightarrow> nat) \<Rightarrow> 'v vkey option \<Rightarrow> ('v, 'p, 's, 'n) gw_sys \<Rightarrow> bool" where
  "gw_inv sha vkey y \<longleftrightarrow> gw_wf (ws_gw y) \<and>
     nonce_inv (pend (ws_gw y)) (hands y) (ws_minted y) (granted_nonces y) \<and> minted_ok sha (ws_minted y) \<and>
     calls_ok vkey y \<and> grants_ok vkey y"

lemma hands_move [simp]: "hands (move_to i h g y) = (hands y)(i := hand (Some h))"
  by (auto simp: hands_def)

lemma hands_settle [simp]: "hands (gw_settle i q ph y) = hands y"
  by (rule ext) (simp add: hands_def)

lemma calls_ok_move:
  "calls_ok vkey y \<Longrightarrow> vs_calls y i = None \<or> (\<exists>r. h = Hd_done r) \<Longrightarrow> calls_ok vkey (move_to i h g y)"
  unfolding calls_ok_def by (simp, metis option.distinct(1))

lemma gw_inv_move:
  assumes "gw_inv sha vkey y" "vs_calls y i = None \<or> (\<exists>r. h = Hd_done r)" "gw_wf g"
    and "nonce_inv (pend g) ((hands y)(i := hand (Some h))) (ws_minted y) (granted_nonces y)"
  shows "gw_inv sha vkey (move_to i h g y)"
  using assms calls_ok_move [of vkey y i h g] by (simp add: gw_inv_def grants_ok_def granted_nonces_def)

lemma gw_inv_settle:
  assumes "gw_inv sha vkey y" "ws_handlers y i = Some (Hd_checking n v t ref ov)" "q = verify_request vkey v b"
  shows "gw_inv sha vkey (gw_settle i q ph y)"
proof -
  have "calls_ok vkey (gw_settle i q ph y)"
    using assms by (auto simp: gw_inv_def calls_ok_def)
  moreover have "set (vs_granted y) \<subseteq> set (vs_granted (gw_settle i q ph y))"
    by (auto simp: gw_settle_def split: vphase.split outcome.split)
  ultimately show ?thesis
    using assms by (auto simp: gw_inv_def grants_ok_def granted_nonces_def hands_def)
qed

lemma no_call:
  "gw_inv sha vkey y \<Longrightarrow> (\<And>n v t ref ov. ws_handlers y i \<noteq> Some (Hd_checking n v t ref ov)) \<Longrightarrow>
   (\<And>r. ws_handlers y i \<noteq> Some (Hd_done r)) \<Longrightarrow> vs_calls y i = None"
  unfolding gw_inv_def calls_ok_def by (metis not_None_eq surj_pair)

lemma gw_inv_idle:
  assumes "gw_inv sha vkey y" "vs_calls y i = None \<or> (\<exists>r. h = Hd_done r)" "gw_wf g" "pend g \<subseteq> pend (ws_gw y)" "hand (Some h) = None"
  shows "gw_inv sha vkey (move_to i h g y)"
proof (rule gw_inv_move [OF assms(1-3)])
  show "nonce_inv (pend g) ((hands y)(i := hand (Some h))) (ws_minted y) (granted_nonces y)"
    by (rule nonce_fades [OF _ assms(4)]) (use assms(1,5) in \<open>auto simp: gw_inv_def\<close>)
qed

lemma gw_inv_gw:
  assumes "gw_inv sha vkey y" "gw_wf g" "pend g \<subseteq> pend (ws_gw y)"
  shows "gw_inv sha vkey (y\<lparr>ws_gw := g\<rparr>)"
proof -
  have h: "hands (y\<lparr>ws_gw := g\<rparr>) = hands y"
    by (rule ext) (simp add: hands_def)
  have "nonce_inv (pend g) (hands y) (ws_minted y) (granted_nonces y)"
    by (rule nonce_fades [OF _ assms(3)]) (use assms(1) in \<open>auto simp: gw_inv_def\<close>)
  then show ?thesis
    using assms(1,2) h by (simp add: gw_inv_def calls_ok_def grants_ok_def granted_nonces_def)
qed

lemma same_challenges:
  "gw_challenges g' = gw_challenges g \<Longrightarrow> gw_wf g' = gw_wf g \<and> pend g' = pend g"
  by (simp add: gw_wf_def pend_def)

lemma release_same [simp]: "gw_wf (gw_release t g) = gw_wf g" "pend (gw_release t g) = pend g"
  by (simp_all add: gw_wf_def pend_def)

lemma hold_same: "gw_hold r g = (g1, t) \<Longrightarrow> gw_wf g1 = gw_wf g \<and> pend g1 = pend g"
  using hold_pending [of r g g1 t] by (simp add: gw_wf_def pend_def)

lemma observe_value: "observe k v n ok tg disk = (tg', disk', Inr w) \<Longrightarrow> w = v"
  by (auto simp: observe_def Let_def answer_or_throw_def split: option.splits if_splits prod.splits)

lemma div_below: "0 \<le> a \<Longrightarrow> a < m \<Longrightarrow> (a::int) div b < m"
proof (cases "0 < b")
  case True
  assume "0 \<le> a" "a < m"
  moreover have "a div b \<le> a"
    using True \<open>0 \<le> a\<close> by (metis div_by_1 int_one_le_iff_zero_less zdiv_mono2 zero_less_one)
  ultimately show ?thesis
    by linarith
next
  case False
  assume "0 \<le> a" "a < m"
  moreover have "a div b \<le> 0"
    using False \<open>0 \<le> a\<close> by (cases "b = 0") (auto simp: div_nonneg_neg_le0)
  ultimately show ?thesis
    by linarith
qed

lemma epoch_value:
  assumes "gw_epoch now g = (g1, Inr (Num e))" "sane_now cfg now"
  shows "e < 2 ^ 53"
proof -
  have m: "0 \<le> nw_ms now" "nw_ms now < 2 ^ 53"
    using assms(2) by (simp_all add: sane_now_def)
  have n: "0 \<le> nowSec now" "nowSec now < 2 ^ 53"
    using m div_below [OF m] by (simp_all add: nowSec_def)
  have "Num e = epochNow (tg_epochSeconds (gw_guard g)) (nowSec now)"
    using assms(1) by (auto simp: gw_epoch_def TimeGuard_epoch_def dest!: observe_value split: prod.splits)
  then show ?thesis
    using div_below [OF n] by (simp add: epochNow_def js_floor_div_def split: if_splits)
qed

lemma challenge_finish_cases:
  assumes "challenge_finish sha cfg now nonce account ctx season g = (g1, r)" "gw_wf g" "sane_now cfg now"
  shows "gw_wf g1 \<and>
    ((\<exists>cr v. r = Reply 200 (R_challenge cr) \<and> jm_get (cs_pending (gw_challenges g1)) nonce = Some v \<and> cr_nonce cr = nonce \<and>
        cv_signalHash v = dec_of_nat (signalHash sha nonce (cv_account v)) \<and> cv_epoch v < 2 ^ 53 \<and>
        pend g1 \<subseteq> insert (nonce, v) (pend g)) \<or>
     ((\<forall>s cr. r \<noteq> Reply s (R_challenge cr)) \<and> pend g1 \<subseteq> pend g))"
proof (cases "\<exists>root g0 epoch ends. current_root cfg now ctx g = Some root \<and> gw_epoch now g = (g0, Inr (Num epoch)) \<and>
    grantExpiresAt epoch (gc_epochSeconds cfg) season (Some (gc_seasonSeconds cfg)) = Inr ends")
  case True
  then obtain root g0 epoch ends where e: "current_root cfg now ctx g = Some root" "gw_epoch now g = (g0, Inr (Num epoch))"
      "grantExpiresAt epoch (gc_epochSeconds cfg) season (Some (gc_seasonSeconds cfg)) = Inr ends"
    by blast
  let ?v = "\<lparr>cv_account = account, cv_signalHash = dec_of_nat (signalHash sha nonce account), cv_epoch = epoch,
      cv_contextHash = ctx, cv_season = season, cv_root = Some root, cv_expires = 0\<rparr>"
  obtain cs ok where p: "put_challenge (nw_ms now) nonce ?v (gw_challenges g0) = (cs, ok)"
    by fastforce
  have g0: "gw_challenges g0 = gw_challenges g"
    using gw_epoch_same [OF e(2)] by simp
  have g1: "gw_challenges g1 = cs"
    using assms(1) e p by (cases ok) (auto simp: challenge_finish_def Let_def)
  show ?thesis
  proof (cases ok)
    case True
    then obtain s1 where s1: "with_room (nw_ms now) (gw_challenges g) = (s1, True)"
        "cs = s1\<lparr>cs_pending := jm_set nonce (?v\<lparr>cv_expires := nw_ms now + cs_ttl (gw_challenges g)\<rparr>) (cs_pending s1)\<rparr>"
      using put_cases [OF p] g0 by auto
    have "\<exists>cr. r = Reply 200 (R_challenge cr) \<and> cr_nonce cr = nonce"
      using assms(1) e p True by (auto simp: challenge_finish_def Let_def)
    moreover have "jm_get (cs_pending cs) nonce = Some (?v\<lparr>cv_expires := nw_ms now + cs_ttl (gw_challenges g)\<rparr>)"
      using s1(2) by simp
    ultimately show ?thesis
      using set_in_room(4,6) [OF s1(1) _ s1(2)] assms(2) epoch_value [OF e(2) assms(3)] g1
      by (auto simp: gw_wf_def pend_def)
  next
    case False
    then have s1: "with_room (nw_ms now) (gw_challenges g) = (cs, False)"
      using put_cases [OF p] g0 by auto
    have "r = Reply 429 (R_error ''too many pending challenges'')"
      using assms(1) e p False by (auto simp: challenge_finish_def Let_def)
    then show ?thesis
      using with_room_facts(4,7) [OF s1] assms(2) g1 by (auto simp: gw_wf_def pend_def)
  qed
next
  case False
  obtain g0 out where e: "gw_epoch now g = (g0, out)"
    by fastforce
  have "(g1 = g \<or> g1 = g0) \<and> (\<forall>s cr. r \<noteq> Reply s (R_challenge cr))"
  proof (cases "\<exists>root epoch. current_root cfg now ctx g = Some root \<and> out = Inr (Num epoch)")
    case True
    then obtain root epoch where re: "current_root cfg now ctx g = Some root" "out = Inr (Num epoch)"
      by blast
    then obtain x where "grantExpiresAt epoch (gc_epochSeconds cfg) season (Some (gc_seasonSeconds cfg)) = Inl x"
      using False e by (cases "grantExpiresAt epoch (gc_epochSeconds cfg) season (Some (gc_seasonSeconds cfg))") auto
    then show ?thesis
      using assms(1) e re by (auto simp add: challenge_finish_def internal_error_def simp del: grantExpiresAt.simps)
  next
    case False
    then show ?thesis
      using assms(1) e by (auto simp: challenge_finish_def internal_error_def split: option.splits sum.splits jsnum.splits)
  qed
  then have "gw_challenges g1 = gw_challenges g \<and> (\<forall>s cr. r \<noteq> Reply s (R_challenge cr))"
    using gw_epoch_same [OF e] by auto
  then show ?thesis
    using assms(2) same_challenges [of g1 g] by simp
qed

lemma take_nonce_cases:
  assumes "take_nonce now b g = (g1, out)" "gw_wf g"
  shows "gw_wf g1 \<and> (case out of None \<Rightarrow> pend g1 \<subseteq> pend g
    | Some (n, v) \<Rightarrow> (n, v) \<in> pend g \<and> pend g1 \<subseteq> pend g - {x. fst x = n})"
proof (cases b)
  case (Bv_string n)
  obtain cs v where t: "take_challenge (nw_ms now) n (gw_challenges g) = (cs, v)"
    by fastforce
  have o: "gw_challenges g1 = cs" "out = map_option (Pair n) v"
    using assms(1) Bv_string t by (auto simp: take_nonce_def)
  have p: "pend g1 = pend g - {x. fst x = n}" "gw_wf g1"
    using o(1) take_cases(4) [OF t] assms(2) by (auto simp: pend_def gw_wf_def jm_delete_def)
  show ?thesis
    using p o(2) take_cases(5) [OF t] by (cases v) (auto simp: pend_def)
qed (use assms in \<open>auto simp: take_nonce_def\<close>)

lemma verify_body_read_cases:
  assumes "verify_body_read cfg now client b g = (g1, out)" "gw_wf g"
  shows "gw_wf g1 \<and> (case out of
      Inl r \<Rightarrow> pend g1 \<subseteq> pend g
    | Inr (n, v, t) \<Rightarrow> (n, v) \<in> pend g \<and> pend g1 \<subseteq> pend g - {x. fst x = n})"
proof (cases b)
  case (Body q)
  let ?ok = "truthy (vb_nonce q) \<and> vb_has_proof q \<and> vb_has_signals q \<and> truthy (vb_account q)"
  obtain g2 ok where c: "charge_both now L_account_verify L_verify client (bv_text (vb_account q)) g = (g2, ok)"
    by fastforce
  obtain g3 taken where t: "take_nonce now (vb_nonce q) g2 = (g3, taken)"
    by fastforce
  have g2: "gw_wf g2" "pend g2 = pend g"
    using same_challenges [OF charge_both_same [OF c]] assms(2) by simp_all
  note t' = take_nonce_cases [OF t g2(1)]
  show ?thesis
  proof (cases "?ok \<and> length (bv_text (vb_account q)) \<le> gc_maxAccountBytes cfg \<and> ok \<and> taken \<noteq> None")
    case True
    then obtain n v where nv: "taken = Some (n, v)"
      by auto
    obtain g4 tok where h: "gw_hold (cv_root v) g3 = (g4, tok)"
      by fastforce
    have g4: "gw_wf g4" "(n, v) \<in> pend g" "pend g4 \<subseteq> pend g - {x. fst x = n}"
      using t' nv hold_same [OF h] g2 by auto
    have "out = Inr (n, v, tok) \<and> g1 = g4 \<or> (\<exists>r. out = Inl r) \<and> g1 = gw_release tok g4"
      using assms(1) Body True c t nv h by (auto simp: verify_body_read_def Let_def split: if_splits)
    then show ?thesis
      using g4 by auto
  next
    case False
    then have "(\<exists>r. out = Inl r) \<and> g1 \<in> {g, g2, g3} \<and> (g1 = g3 \<longrightarrow> g3 = g \<or> g3 = g2 \<or> taken = None)"
      using assms(1) Body c t by (auto simp: verify_body_read_def Let_def split: if_splits bool.splits option.splits)
    then show ?thesis
      using assms(2) g2 t' by auto
  qed
qed (use assms in \<open>auto simp: verify_body_read_def\<close>)

lemma put_back_cases:
  assumes "verify_put_back now overloaded nonce v g = (g1, r)" "gw_wf g"
  shows "gw_wf g1" "pend g1 \<subseteq> insert (nonce, v) (pend g)" "\<exists>s e. r = Reply s (R_error e)"
proof -
  obtain cs ok where c: "restore (nw_ms now) nonce v (gw_challenges g) = (cs, ok)"
    by fastforce
  have g1: "gw_challenges g1 = cs" and r: "\<exists>s e. r = Reply s (R_error e)"
    using assms(1) c by (auto simp: verify_put_back_def)
  show "\<exists>s e. r = Reply s (R_error e)"
    by (rule r)
  have "jm_wf (cs_pending cs) \<and> set (cs_pending cs) \<subseteq> insert (nonce, v) (set (cs_pending (gw_challenges g)))"
    using restore_cases [OF c]
  proof (elim disjE exE conjE)
    assume w: "with_room (nw_ms now) (gw_challenges g) = (cs, False)"
    show ?thesis
      using with_room_facts(4,7) [OF w] assms(2) by (auto simp: gw_wf_def)
  next
    fix s1
    assume w: "with_room (nw_ms now) (gw_challenges g) = (s1, True)" "cs = s1\<lparr>cs_pending := jm_set nonce v (cs_pending s1)\<rparr>"
    show ?thesis
      using set_in_room(4,6) [OF w(1) _ w(2)] assms(2) by (simp add: gw_wf_def)
  qed (use assms in \<open>auto simp: gw_wf_def\<close>)
  then show "gw_wf g1" "pend g1 \<subseteq> insert (nonce, v) (pend g)"
    using g1 by (simp_all add: gw_wf_def pend_def)
qed

fun is_grant :: "reply \<Rightarrow> bool" where
  "is_grant (Reply s (R_grant a e x rg)) \<longleftrightarrow> True"
| "is_grant (Reply s _) \<longleftrightarrow> False"

lemma is_grant_internal [simp]: "\<not> is_grant internal_error"
  by (simp add: internal_error_def)

lemma verify_finish_cases:
  assumes "verify_finish cfg now overloaded nonce v t q ph g = (g1, r)" "gw_wf g"
  shows "gw_wf g1" "pend g1 \<subseteq> insert (nonce, v) (pend g)"
    "is_grant r \<Longrightarrow> pend g1 = pend g \<and> (\<exists>rg e x. ph = Settled (Granted rg) \<and> r = Reply 200 (R_grant (cv_account v) e x rg))"
proof -
  have "gw_wf g1 \<and> pend g1 \<subseteq> insert (nonce, v) (pend g) \<and>
    (is_grant r \<longrightarrow> pend g1 = pend g \<and> (\<exists>rg e x. ph = Settled (Granted rg) \<and> r = Reply 200 (R_grant (cv_account v) e x rg)))"
  proof (cases "\<exists>b. ph = Threw b")
    case True
    then obtain b where b: "ph = Threw b"
      by blast
    obtain g2 r2 where p: "verify_put_back now overloaded nonce v g = (g2, r2)"
      by fastforce
    show ?thesis
      using assms b p put_back_cases [OF p assms(2)] by (auto simp: verify_finish_def split: if_splits)
  next
    case False
    then show ?thesis
      using assms by (auto simp: verify_finish_def verify_reply_def split: vphase.splits outcome.splits sum.splits)
  qed
  then show "gw_wf g1" "pend g1 \<subseteq> insert (nonce, v) (pend g)"
    "is_grant r \<Longrightarrow> pend g1 = pend g \<and> (\<exists>rg e x. ph = Settled (Granted rg) \<and> r = Reply 200 (R_grant (cv_account v) e x rg))"
    by blast+
qed

lemma reply_grants_is: "reply_grants n v q r = (if is_grant r then [(n, v, q)] else [])"
  by (cases r rule: is_grant.cases) (simp_all add: reply_grants_def)

subsection \<open>Every step keeps the invariant and is a step of the membership machine\<close>

definition settled_granted :: "('v, 'p, 's) vsys \<Rightarrow> bool" where
  "settled_granted y \<longleftrightarrow> (\<forall>i q r. vs_calls y i = Some (q, Settled (Granted r)) \<longrightarrow> q \<in> set (vs_granted y))"

lemma settle_granted:
  "settled_granted y \<Longrightarrow> settled_granted (settle i q ph y)"
  "settled_granted (y\<lparr>vs_store := s'\<rparr>) = settled_granted y"
  "set (vs_granted y) \<subseteq> set (vs_granted (settle i q ph y))"
  by (auto simp: settled_granted_def settle_def split: vphase.splits outcome.splits)

lemma vm_step_granted:
  "vm_step has get add prune valid lo y z \<Longrightarrow> (settled_granted y \<longrightarrow> settled_granted z) \<and> set (vs_granted y) \<subseteq> set (vs_granted z)"
proof (induction rule: vm_step.induct)
  case vm_restart
  then show ?case
    by (simp add: settled_granted_def)
qed (simp_all add: settle_granted)

lemma vm_reach_granted: "vm_reach has get add prune valid lo s0 y \<Longrightarrow> settled_granted y"
proof (induction rule: vm_reach.induct)
  case vm_start
  then show ?case
    by (simp add: settled_granted_def)
next
  case (vm_next y y')
  then show ?case
    using vm_step_granted by blast
qed


definition simulates :: "(tag \<Rightarrow> 's \<Rightarrow> bool) \<Rightarrow> (tag \<Rightarrow> 's \<Rightarrow> claim option) \<Rightarrow> (tag \<Rightarrow> claim \<Rightarrow> 's \<Rightarrow> 's \<times> bool) \<Rightarrow>
    (jsnum \<Rightarrow> 's \<Rightarrow> 's) \<Rightarrow> (('v, 'p) request \<Rightarrow> bool) \<Rightarrow> int \<Rightarrow> (string \<Rightarrow> nat) \<Rightarrow> 'v vkey option \<Rightarrow>
    ('v, 'p, 's, 'n) gw_sys \<Rightarrow> ('v, 'p, 's, 'n) gw_sys \<Rightarrow> bool" where
  "simulates has get add prune valid lo sha vkey y y' \<longleftrightarrow> gw_inv sha vkey y' \<and>
     (vsys.truncate y' = vsys.truncate y \<or> vm_step has get add prune valid lo (vsys.truncate y) (vsys.truncate y'))"

lemma simulates_same: "gw_inv sha vkey y' \<Longrightarrow> vsys.truncate y' = vsys.truncate y \<Longrightarrow> simulates has get add prune valid lo sha vkey y y'"
  by (simp add: simulates_def)

text \<open>A request that holds a challenge it may use.\<close>

definition in_hand :: "nat \<Rightarrow> string \<Rightarrow> challenge \<Rightarrow> 'n gw_state \<Rightarrow> (string \<Rightarrow> nat) \<Rightarrow> 'v vkey option \<Rightarrow> ('v, 'p, 's, 'n) gw_sys \<Rightarrow> bool" where
  "in_hand i nonce v g sha vkey y \<longleftrightarrow> gw_inv sha vkey y \<and> vs_calls y i = None \<and> gw_wf g \<and> (nonce, v) \<in> set (ws_minted y) \<and>
     nonce_inv (pend g) ((hands y)(i := Some (nonce, v))) (ws_minted y) (granted_nonces y)"

lemma start_check_step:
  assumes "in_hand i nonce v g sha vkey y"
  shows "simulates has get add prune valid lo sha vkey y (start_check cfg vkey i nonce v t b g y)"
proof -
  obtain q ref ph where s: "verify_start cfg vkey v b g = (q, ref, ph)"
    by (cases "verify_start cfg vkey v b g")
  then have q: "q = verify_request vkey v b" and ph: "ph = verifyMembership_begin (root_recent cfg (cv_contextHash v) g) q"
    by (auto simp add: verify_start_def Let_def)
  let ?m = "move_to i (Hd_checking nonce v t ref False) g y"
  have "gw_inv sha vkey ?m"
    using assms by (intro gw_inv_move) (simp_all add: in_hand_def)
  then have "gw_inv sha vkey (gw_settle i q ph ?m)"
    by (rule gw_inv_settle [where n = nonce and t = t and ref = ref and ov = False, OF _ _ q]) simp
  moreover have "cv_epoch v < 2 ^ 53"
    using assms unfolding in_hand_def gw_inv_def minted_ok_def by blast
  then have "vm_step has get add prune valid lo (vsys.truncate y) (settle i q ph (vsys.truncate y))"
    unfolding ph using assms by (intro vm_call [where n = "cv_epoch v"]) (simp_all add: in_hand_def q verify_request_def)
  ultimately show ?thesis
    using s by (simp add: start_check_def simulates_def)
qed

lemma drop_hand_step:
  assumes "in_hand i nonce v g sha vkey y" "gw_wf g'" "pend g' \<subseteq> pend g"
  shows "simulates has get add prune valid lo sha vkey y (move_to i (Hd_done r) g' y)"
proof (rule simulates_same [OF gw_inv_move])
  show "nonce_inv (pend g') ((hands y)(i := hand (Some (Hd_done r)))) (ws_minted y) (granted_nonces y)"
    by (rule nonce_fades [where hands = "(hands y)(i := Some (nonce, v))", OF _ assms(3)]) (use assms in \<open>auto simp: in_hand_def\<close>)
qed (use assms in \<open>auto simp: in_hand_def\<close>)

lemma in_hand_same: "in_hand i nonce v g sha vkey y \<Longrightarrow> gw_challenges g' = gw_challenges g \<Longrightarrow> in_hand i nonce v g' sha vkey y"
  using same_challenges [of g' g] by (simp add: in_hand_def)

lemma after_body_step:
  assumes "in_hand i nonce v g sha vkey y"
  shows "simulates has get add prune valid lo sha vkey y (after_body cfg vkey now i b nonce v t g y)"
proof (cases "gc_twoTier cfg")
  case True
  obtain g1 out where s: "gw_season now g = (g1, out)"
    by fastforce
  have h: "in_hand i nonce v g1 sha vkey y"
    using in_hand_same [OF assms] gw_season_same [OF s] by simp
  show ?thesis
  proof (cases "\<exists>n. out = Inr (Num n)")
    case True
    then obtain n where n: "out = Inr (Num n)"
      by blast
    have "simulates has get add prune valid lo sha vkey y (move_to i (Hd_verify_tree nonce v t b n) g1 y)"
      by (rule simulates_same [OF gw_inv_move]) (use h in \<open>auto simp: in_hand_def\<close>)
    then show ?thesis
      using \<open>gc_twoTier cfg\<close> s n by (simp add: after_body_def)
  next
    case False
    then show ?thesis
      using \<open>gc_twoTier cfg\<close> s drop_hand_step [OF h, of "gw_release t g1"] h
      by (auto simp: after_body_def in_hand_def split: sum.split jsnum.split)
  qed
next
  case False
  then show ?thesis
    using start_check_step [OF assms] by (simp add: after_body_def)
qed

lemma after_tree_step:
  assumes "in_hand i nonce v (ws_gw y) sha vkey y"
  shows "simulates has get add prune valid lo sha vkey y
    (after_tree cfg vkey i b nonce v t (gw_ensureContext P fails now season ctx (ws_gw y)) y)"
proof -
  obtain g out where s: "gw_ensureContext P fails now season ctx (ws_gw y) = (g, out)"
    by fastforce
  have h: "in_hand i nonce v g sha vkey y"
    using in_hand_same [OF assms] ensureContext_same [OF s] by simp
  show ?thesis
    using start_check_step [OF h] drop_hand_step [OF h, of "gw_release t g"] h s
    by (cases out) (auto simp: after_tree_def in_hand_def)
qed

lemma mint_step:
  assumes "gw_inv sha vkey y" "vs_calls y i = None" "hands y i = None" "gw_wf g" "pend g \<subseteq> pend (ws_gw y)"
    and "sane_now cfg now" "fresh_nonce nonce y"
  shows "simulates has get add prune valid lo sha vkey y
    (mint_reply i nonce (challenge_finish sha cfg now nonce account ctx season g) y)"
proof -
  obtain g1 r where f: "challenge_finish sha cfg now nonce account ctx season g = (g1, r)"
    by fastforce
  note c = challenge_finish_cases [OF f assms(4,6)]
  have hu: "(hands y)(i := hand (Some (Hd_done r))) = hands y"
    using assms(3) by auto
  show ?thesis
  proof (cases "\<exists>cr. r = Reply 200 (R_challenge cr)")
    case True
    then obtain cr v where v: "r = Reply 200 (R_challenge cr)" "jm_get (cs_pending (gw_challenges g1)) nonce = Some v"
        "cv_signalHash v = dec_of_nat (signalHash sha nonce (cv_account v))" "cv_epoch v < 2 ^ 53"
        "pend g1 \<subseteq> insert (nonce, v) (pend g)"
      using c by auto
    let ?y = "(move_to i (Hd_done r) g1 y)\<lparr>ws_minted := (nonce, v) # ws_minted y\<rparr>"
    have n: "nonce_inv (pend g1) (hands y) ((nonce, v) # ws_minted y) (granted_nonces y)"
      by (rule nonce_minted [where pend = "pend (ws_gw y)"])
        (use assms(1,5,7) v(5) in \<open>auto simp: gw_inv_def fresh_nonce_def\<close>)
    have m: "minted_ok sha ((nonce, v) # ws_minted y)"
      using assms(1) v(3,4) by (auto simp: gw_inv_def minted_ok_def)
    have hy: "hands ?y = hands y"
      using assms(3) by (auto simp: hands_def)
    have cy: "calls_ok vkey ?y"
      using calls_ok_move [of vkey y i "Hd_done r" g1] assms(1,2) by (simp add: gw_inv_def calls_ok_def)
    have "gw_inv sha vkey ?y"
      unfolding gw_inv_def hy using n m cy c assms(1) by (simp add: gw_inv_def grants_ok_def granted_nonces_def)
    then show ?thesis
      using f v(1,2) by (simp add: mint_reply_def simulates_def)
  next
    case False
    then have "gw_inv sha vkey (move_to i (Hd_done r) g1 y)"
      using c assms(1,2,5) by (intro gw_inv_idle) auto
    moreover have "mint_reply i nonce (g1, r) y = move_to i (Hd_done r) g1 y"
      using False c by (auto simp: mint_reply_def move_to_def split: reply.split reply_body.split option.split)
    ultimately show ?thesis
      using f by (simp add: simulates_def)
  qed
qed

lemma body_step:
  assumes "gw_inv sha vkey y" "vs_calls y i = None" "verify_body_read cfg now client b (ws_gw y) = (g, Inr (nonce, v, t))"
  shows "in_hand i nonce v g sha vkey y"
proof -
  have w: "gw_wf (ws_gw y)" and n: "nonce_inv (pend (ws_gw y)) (hands y) (ws_minted y) (granted_nonces y)"
    using assms(1) by (simp_all add: gw_inv_def)
  have c: "gw_wf g" "(nonce, v) \<in> pend (ws_gw y)" "pend g \<subseteq> pend (ws_gw y) - {x. fst x = nonce}"
    using verify_body_read_cases [OF assms(3) w] by simp_all
  show ?thesis
    using assms(1,2) c nonce_taken [OF n c(2,3)] nonce_invD(1) [OF n] by (auto simp: in_hand_def)
qed

lemma tree_hand:
  assumes "gw_inv sha vkey y" "ws_handlers y i = Some (Hd_verify_tree nonce v t b season)"
  shows "in_hand i nonce v (ws_gw y) sha vkey y"
proof -
  have n: "nonce_inv (pend (ws_gw y)) (hands y) (ws_minted y) (granted_nonces y)"
    using assms(1) by (simp add: gw_inv_def)
  have h: "hands y i = Some (nonce, v)" "(hands y)(i := Some (nonce, v)) = hands y"
    using assms(2) by (auto simp: hands_def)
  show ?thesis
    using assms no_call [OF assms(1), of i] n h nonce_invD(2) [OF n h(1)] by (simp add: in_hand_def gw_inv_def)
qed

lemma reply_step:
  assumes "gw_inv sha vkey y" "settled_granted (vsys.truncate y)" "ws_handlers y i = Some (Hd_checking nonce v t ref overloaded)"
    and "vs_calls y i = Some (q, ph)" "verify_finish cfg now overloaded nonce v t q ph (ws_gw y) = (g, r)"
  shows "gw_inv sha vkey ((move_to i (Hd_done r) g y)\<lparr>ws_grants := reply_grants nonce v q r @ ws_grants y\<rparr>)"
    (is "gw_inv sha vkey ?y")
proof -
  have w: "gw_wf (ws_gw y)" and n: "nonce_inv (pend (ws_gw y)) (hands y) (ws_minted y) (granted_nonces y)"
    using assms(1) by (simp_all add: gw_inv_def)
  note c = verify_finish_cases [OF assms(5) w]
  have h: "hands y i = Some (nonce, v)"
    using assms(3) by (simp add: hands_def)
  have hy: "hands ?y = (hands y)(i := None)"
    by (auto simp: hands_def)
  have "nonce_inv (pend g) ((hands y)(i := None)) (ws_minted y) (granted_nonces ?y)"
  proof (cases "is_grant r")
    case True
    then show ?thesis
      using nonce_granted [OF n h] c(3) by (simp add: reply_grants_is granted_nonces_def)
  next
    case False
    then show ?thesis
      using nonce_put_back [OF n h c(2)] by (simp add: reply_grants_is granted_nonces_def)
  qed
  moreover have "calls_ok vkey ?y"
    using calls_ok_move [of vkey y i "Hd_done r" g] assms(1) by (simp add: gw_inv_def calls_ok_def)
  moreover have "is_grant r \<Longrightarrow> q \<in> set (vs_granted y)"
    using c(3) assms(2,4) by (auto simp: settled_granted_def)
  moreover have "\<exists>b. q = verify_request vkey v b"
    using assms(1,3,4) by (fastforce simp: gw_inv_def calls_ok_def)
  ultimately show ?thesis
    using assms(1) c(1) unfolding gw_inv_def hy by (auto simp: grants_ok_def reply_grants_is)
qed

lemma background_same: "background g g' \<Longrightarrow> gw_wf g \<Longrightarrow> gw_wf g' \<and> pend g' \<subseteq> pend g"
proof (induction rule: background.induct)
  case (bg_clock g now)
  then show ?case
    using same_challenges [OF observe_same [of now g]] by simp
next
  case (bg_sweep g t)
  then show ?case
    using sweep_sub [of t "gw_challenges g"] sweep_jm(1) [of "gw_challenges g" t] by (simp add: gw_wf_def pend_def)
qed (simp_all add: gw_wf_def pend_def)

lemma check_step:
  assumes "gw_inv sha vkey y" "ws_handlers y i = Some (Hd_checking nonce v t ref ov)" "vs_calls y i = Some (q, ph)"
    and "vm_step has get add prune valid lo (vsys.truncate y) z" "vs_calls z = (vs_calls y)(i \<mapsto> (q, ph'))"
  shows "simulates has get add prune valid lo sha vkey y
    (y\<lparr>vs_store := vs_store z, vs_calls := vs_calls z, vs_granted := vs_granted z,
       ws_handlers := (ws_handlers y)(i \<mapsto> Hd_checking nonce v t ref ov')\<rparr>)" (is "simulates _ _ _ _ _ _ _ _ _ ?y")
proof -
  have hy: "hands ?y = hands y"
    using assms(2) by (auto simp: hands_def)
  obtain b where "q = verify_request vkey v b"
    using assms(1-3) by (fastforce simp: gw_inv_def calls_ok_def)
  then have "calls_ok vkey ?y"
    using assms(1,5) by (auto simp: gw_inv_def calls_ok_def)
  moreover have "set (vs_granted y) \<subseteq> set (vs_granted z)"
    using vm_step_granted [OF assms(4)] by simp
  ultimately have "gw_inv sha vkey ?y"
    using assms(1) unfolding gw_inv_def hy by (auto simp: grants_ok_def granted_nonces_def)
  moreover have t: "vsys.truncate ?y = z"
    by (simp add: vsys.truncate_def)
  ultimately show ?thesis
    using assms(4) unfolding simulates_def t by blast
qed

lemma period_step:
  assumes "gw_inv sha vkey y" "ws_handlers y i = Some (Hd_checking nonce v t ref ov)" "vs_calls y i = Some (q, ph)"
    and "period_phase ph" "still_current cfg now v ref r (ws_gw y) = (g, a)"
  shows "simulates has get add prune valid lo sha vkey y ((gw_settle i q (verifyMembership_resume q ph a) y)\<lparr>ws_gw := g\<rparr>)"
proof -
  obtain b where q: "q = verify_request vkey v b"
    using assms(1-3) by (fastforce simp: gw_inv_def calls_ok_def)
  have "gw_inv sha vkey ((gw_settle i q (verifyMembership_resume q ph a) y)\<lparr>ws_gw := g\<rparr>)"
    using gw_inv_settle [OF assms(1,2) q] same_challenges [OF still_current_same [OF assms(5)]] assms(1)
    by (intro gw_inv_gw) (simp_all add: gw_inv_def)
  moreover have "a = Ans_throws \<or> (\<exists>w. a = Ans_verdict w)"
    using assms(5) by (auto simp: still_current_def split: prod.splits sum.splits if_splits)
  then have "vm_step has get add prune valid lo (vsys.truncate y) (settle i q (verifyMembership_resume q ph a) (vsys.truncate y))"
  proof (elim disjE exE)
    assume a: "a = Ans_throws"
    have "running ph"
      using assms(4) by (auto simp: period_phase_def running_def)
    then show ?thesis
      unfolding a using assms(3) by (intro vm_throws) simp_all
  next
    fix w
    assume a: "a = Ans_verdict w"
    show ?thesis
      unfolding a using assms(3,4) by (intro vm_period) simp_all
  qed
  ultimately show ?thesis
    by (simp add: simulates_def)
qed

lemma gw_step_simulates:
  "gw_step cfg sha digest P vkey has get add prune valid lo y y' \<Longrightarrow> gw_inv sha vkey y \<Longrightarrow> settled_granted (vsys.truncate y) \<Longrightarrow>
   simulates has get add prune valid lo sha vkey y y'"
proof (induction rule: gw_step.induct)
  case (gs_arrives y i req challenge now g client)
  then have "vs_calls y i = None" "gw_challenges g = gw_challenges (ws_gw y)"
    using no_call [of sha vkey y i] serve_begin_same by auto
  then show ?case
    using gs_arrives(5) same_challenges [of g "ws_gw y"]
    by (intro simulates_same gw_inv_idle) (auto simp: gw_inv_def)
next
  case (gs_refused y i now req g r)
  then show ?case
    using same_challenges [OF serve_begin_same [OF gs_refused(2)]]
    by (intro simulates_same gw_inv_idle) (auto simp: gw_inv_def)
next
  case (gs_challenge_refused y i client now b g r)
  then show ?case
    using same_challenges [OF challenge_body_read_same [OF gs_challenge_refused(2)]]
    by (intro simulates_same gw_inv_idle) (auto simp: gw_inv_def)
next
  case (gs_challenge_tree y i client now b g account ctx season)
  then have "vs_calls y i = None"
    using no_call [of sha vkey y i] by auto
  then show ?case
    using same_challenges [OF challenge_body_read_same [OF gs_challenge_tree(2)]] gs_challenge_tree(3)
    by (intro simulates_same gw_inv_idle) (auto simp: gw_inv_def)
next
  case (gs_challenge_single y i client now nonce b g account ctx)
  then have "vs_calls y i = None" "hands y i = None"
    using no_call [of sha vkey y i] by (auto simp: hands_def)
  then show ?case
    using same_challenges [OF challenge_body_read_same [OF gs_challenge_single(4)]] gs_challenge_single(2,3,5)
    by (intro mint_step) (auto simp: gw_inv_def)
next
  case (gs_challenge_two_tier y i account ctx season now nonce fails g)
  then have "vs_calls y i = None" "hands y i = None"
    using no_call [of sha vkey y i] by (auto simp: hands_def)
  then show ?case
    using same_challenges [OF ensureContext_same [OF gs_challenge_two_tier(4)]] gs_challenge_two_tier(2,3,5)
    by (intro mint_step) (auto simp: gw_inv_def)
next
  case (gs_challenge_fails y i account ctx season fails now g e)
  then show ?case
    using same_challenges [OF ensureContext_same [OF gs_challenge_fails(2)]]
    by (intro simulates_same gw_inv_idle) (auto simp: gw_inv_def)
next
  case (gs_verify_refused y i client now b g r)
  then show ?case
    using verify_body_read_cases [OF gs_verify_refused(2)]
    by (intro simulates_same gw_inv_idle) (auto simp: gw_inv_def)
next
  case (gs_verify_taken y i client now b g nonce v t)
  then have "vs_calls y i = None"
    using no_call [of sha vkey y i] by auto
  then show ?case
    by (rule after_body_step [OF body_step [OF gs_verify_taken(3) _ gs_verify_taken(2)]])
next
  case (gs_verify_tree y i nonce v t b season fails now)
  show ?case
    by (rule after_tree_step [OF tree_hand [OF gs_verify_tree(2,1)]])
next
  case (gs_check y i nonce v t ref ov q ph z ph')
  show ?case
    by (rule check_step [OF gs_check(7,1,2,5,6)])
next
  case (gs_period y i nonce v t ref ov q ph now g a)
  show ?case
    by (rule period_step [OF gs_period(5,1-4)])
next
  case (gs_replies y i nonce v t ref ov q ph now g r)
  show ?case
    by (rule simulates_same [OF reply_step [OF gs_replies(5,6,1,2,4)]]) simp
next
  case (gs_background y g)
  then show ?case
    using background_same by (intro simulates_same gw_inv_gw) (auto simp: gw_inv_def)
next
  case (gs_prune c y)
  then show ?case
    using vm_prune [OF gs_prune(1), of has get add prune valid "vsys.truncate y"]
    by (simp add: simulates_def gw_inv_def calls_ok_def grants_ok_def granted_nonces_def hands_def [abs_def] vsys.truncate_def)
next
  case (gs_restart y g m)
  have "nonce_inv {} (\<lambda>i. None) (ws_minted y) (granted_nonces y)"
    by (rule nonce_fades [of "pend (ws_gw y)" "hands y"]) (use gs_restart(1) in \<open>auto simp: gw_inv_def\<close>)
  then show ?case
    using gs_restart vm_restart [of has get add prune valid lo "vsys.truncate y"]
    by (simp add: simulates_def gw_inv_def calls_ok_def grants_ok_def granted_nonces_def hands_def [abs_def] gw_wf_def pend_def
        ChallengeStore_new_def vsys.truncate_def)
qed

lemma gw_reach_run:
  "gw_reach cfg sha digest P vkey has get add prune valid lo s0 y \<Longrightarrow>
   gw_inv sha vkey y \<and> vm_reach has get add prune valid lo s0 (vsys.truncate y)"
proof (induction rule: gw_reach.induct)
  case (gr_boot g)
  show ?case
    using gr_boot vm_start [of has get add prune valid lo s0]
    by (simp add: gw_inv_def calls_ok_def grants_ok_def granted_nonces_def hands_def [abs_def] gw_wf_def pend_def
        minted_ok_def nonce_inv_def vsys.truncate_def)
next
  case (gr_next y y')
  then have s: "simulates has get add prune valid lo sha vkey y y'"
    by (intro gw_step_simulates [OF gr_next(2)] vm_reach_granted) blast+
  then show ?case
    using gr_next(3) vm_next unfolding simulates_def by metis
qed

end
