(* ===== verification/Gateway_Safety.thy ===== *)
theory Gateway_Safety
  imports Gateway_Run
begin

section \<open>What the challenge and verify endpoints guarantee\<close>

text \<open>
  The facts of a grant, from the invariant of \<open>Gateway_Run\<close> and from the membership machine the gateway runs, and one
  run from boot to a grant on which the properties are applied.
\<close>

lemma grant_facts:
  assumes "gw_reach cfg sha digest P vkey has get add prune valid lo s0 y" "(n, v, q) \<in> set (ws_grants y)"
  shows "(n, v) \<in> set (ws_minted y)" "q \<in> set (vs_granted (vsys.truncate y))" "valid q" "request_ok q"
    "rq_expected q = \<lparr>ex_account = Some (cv_account v), ex_epoch = Num (cv_epoch v), ex_contextHash = cv_contextHash v,
       ex_signalHash = dec_of_nat (signalHash sha n (cv_account v)), ex_asks_period = True\<rparr>"
proof -
  have r: "gw_inv sha vkey y" "vm_reach has get add prune valid lo s0 (vsys.truncate y)"
    using gw_reach_run [OF assms(1)] by simp_all
  then have inv: "nonce_inv (pend (ws_gw y)) (hands y) (ws_minted y) (granted_nonces y)" "minted_ok sha (ws_minted y)" "grants_ok vkey y"
    by (simp_all add: gw_inv_def)
  have "(n, v) \<in> set (granted_nonces y)"
    using assms(2) by (force simp: granted_nonces_def)
  then show m: "(n, v) \<in> set (ws_minted y)"
    by (rule nonce_invD(5) [OF inv(1)])
  obtain b where q: "q \<in> set (vs_granted y)" "q = verify_request vkey v b"
    using inv(3) assms(2) unfolding grants_ok_def by blast
  then show "q \<in> set (vs_granted (vsys.truncate y))"
    by simp
  then show "valid q" "request_ok q"
    using vm_reach_sane [OF r(2)] by (auto simp: vm_sane_def)
  show "rq_expected q = \<lparr>ex_account = Some (cv_account v), ex_epoch = Num (cv_epoch v), ex_contextHash = cv_contextHash v,
       ex_signalHash = dec_of_nat (signalHash sha n (cv_account v)), ex_asks_period = True\<rparr>"
    using inv(2) m unfolding q(2) minted_ok_def by (simp add: verify_request_def)
qed

lemma grant_tag:
  assumes "gw_reach cfg sha digest P vkey has get add prune valid lo s0 y" "(n, v, q) \<in> set (ws_grants y)"
  shows "request_tag q = (dec_of_int (cv_epoch v), cv_contextHash v, sg_nullifier (request_signals q))"
    "tag_epoch (request_tag q) = cv_epoch v" "sg_signalHash (request_signals q) = dec_of_nat (signalHash sha n (cv_account v))"
proof -
  note f = grant_facts [OF assms]
  show t: "request_tag q = (dec_of_int (cv_epoch v), cv_contextHash v, sg_nullifier (request_signals q))"
    and "sg_signalHash (request_signals q) = dec_of_nat (signalHash sha n (cv_account v))"
    using f(4,5) by (auto simp: request_ok_def request_tag_def)
  obtain k where k: "dec_of_int (cv_epoch v) = dec_of_nat k" "tag_epoch (request_tag q) = int k"
    using good_tag_epoch request_ok_good [OF f(4)] unfolding t by metis
  then show "tag_epoch (request_tag q) = cv_epoch v"
    by (metis dec_of_int_def dec_of_int_inject nat_int of_nat_less_0_iff)
qed

subsection \<open>One run\<close>

definition demo_P :: "unit poseidon" where
  "demo_P = \<lparr>phash = (\<lambda>a b. ()), pzero = (), pelem = (\<lambda>x. Some ()), pstr = (\<lambda>x. ''0'')\<rparr>"

definition demo_cfg :: gw_config where
  "demo_cfg = \<lparr>gc_twoTier = False, gc_adapterSecret = None, gc_trustProxy = False, gc_maxAccountBytes = 64,
     gc_epochSeconds = 10, gc_seasonSeconds = 100, gc_challengeTtlSeconds = 5, gc_treeDepth = 2,
     gc_oracleMaxAgeSeconds = 0, gc_registerContexts = [], gc_registerRootMaxAgeSeconds = 0,
     gc_registrationEngine = F_absent, gc_registrationStatement = F_absent, gc_dmlSource = ''mock''\<rparr>"

definition demo_now :: gw_now where
  "demo_now = \<lparr>nw_ms = 95000, nw_persists = (\<lambda>k. True)\<rparr>"

definition demo_window :: root_windows where
  "demo_window = \<lparr>rw_window = 1, rw_maxLeaves = 4,
     rw_snaps = [\<lparr>wr_height = 1, wr_root = dec_of_nat 7, wr_shaRoot = None, wr_ts = Num 90, wr_order = None,
       wr_blockHash = None, wr_setCommitment = None, wr_snapshot = None\<rparr>]\<rparr>"

definition demo_gw :: "unit gw_state" where
  "demo_gw = \<lparr>gw_challenges = ChallengeStore_new 5 10, gw_limiters = (\<lambda>l. RateLimiter_new 60 10 10),
     gw_dmlRoots = demo_window,
     gw_guard = \<lparr>tg_path = True, tg_epochSeconds = 10, tg_seasonSeconds = 100,
       tg_marks = \<lparr>tm_epoch = None, tm_season = None\<rparr>, tg_regression = None\<rparr>,
     gw_marks = TG_missing, gw_seasons = SeasonMembers_new True 2 1 ''0'' (Num 0), gw_regs = empty_view\<rparr>"

definition demo_post :: "string \<Rightarrow> http_req" where
  "demo_post path = \<lparr>hr_method = ''POST'', hr_path = path, hr_authorization = None, hr_forwarded = None, hr_remote = None\<rparr>"

definition demo_sha :: "string \<Rightarrow> nat" where
  "demo_sha s = 5"

definition demo_ask :: "challenge_body body" where
  "demo_ask = Body \<lparr>qb_platform = Bv_string ''p'', qb_communityId = Bv_string ''c'', qb_roleId = Bv_string ''r'',
     qb_account = Bv_string ''al''\<rparr>"

definition demo_prove :: "unit verify_body" where
  "demo_prove = \<lparr>vb_nonce = Bv_string ''n'', vb_account = Bv_string ''al'', vb_has_proof = True,
     vb_proof = Some \<lparr>pf_protocol = Some ''groth16'', pf_data = ()\<rparr>, vb_has_signals = True,
     vb_signals = Js_array (map (\<lambda>n. Js_string (dec_of_nat n)) [3, 7, 9, 5, 5])\<rparr>"

definition demo_pending :: challenge where
  "demo_pending = \<lparr>cv_account = ''al'', cv_signalHash = dec_of_nat 5, cv_epoch = 9, cv_contextHash = dec_of_nat 5,
     cv_season = None, cv_root = Some (dec_of_nat 7), cv_expires = 100000\<rparr>"

definition demo_request_gw :: "(unit, unit) request" where
  "demo_request_gw = verify_request None demo_pending demo_prove"

text \<open>The state after the clock was observed, as far as it matters; the limiters are followed by themselves.\<close>

definition demo_like :: "tg_marks \<Rightarrow> unit gw_state \<Rightarrow> bool" where
  "demo_like m g \<longleftrightarrow> gw_dmlRoots g = demo_window \<and> tg_epochSeconds (gw_guard g) = 10 \<and> tg_seasonSeconds (gw_guard g) = 100 \<and>
     tg_marks (gw_guard g) = m \<and> tg_regression (gw_guard g) = None"

abbreviation demo_ready :: "unit gw_state \<Rightarrow> bool" where
  "demo_ready \<equiv> demo_like \<lparr>tm_epoch = Some (Num 9), tm_season = Some (Num 0)\<rparr>"

lemma demo_gw_like: "demo_like \<lparr>tm_epoch = None, tm_season = None\<rparr> demo_gw"
  by (simp add: demo_like_def demo_gw_def)

lemmas clock_defs = demo_like_def observe_both_def gw_epoch_def gw_season_def TimeGuard_epoch_def TimeGuard_season_def observe_def
  epochNow_def seasonNow_def js_floor_div_def nowSec_def demo_now_def mark_of_def set_mark_def tg_persist_def answer_or_throw_def

lemma demo_observe:
  assumes "demo_like \<lparr>tm_epoch = None, tm_season = None\<rparr> g \<or> demo_ready g"
  shows "\<exists>g1. observe_both demo_now g = (g1, Inr (Num 0)) \<and> demo_ready g1 \<and> gw_challenges g1 = gw_challenges g \<and>
    gw_limiters g1 = gw_limiters g"
  using assms
proof
  assume "demo_ready g"
  then show ?thesis
    by (simp add: clock_defs)
next
  assume "demo_like \<lparr>tm_epoch = None, tm_season = None\<rparr> g"
  then show ?thesis
    by (auto simp: clock_defs Let_def split: prod.splits)
qed

abbreviation demo_charge :: "limiter_id \<Rightarrow> string \<Rightarrow> (limiter_id, string) limiters \<Rightarrow> (limiter_id, string) limiters" where
  "demo_charge l k L \<equiv> L(l := fst (RateLimiter_allow 95000 k (L l)))"

lemma demo_serve:
  assumes "demo_like \<lparr>tm_epoch = None, tm_season = None\<rparr> g \<or> demo_ready g" "p = ''/v1/challenge'' \<or> p = ''/v1/verify''"
    and "snd (RateLimiter_allow 95000 ''unknown'' (gw_limiters g L_ingress))"
  shows "\<exists>g1. serve_begin id demo_cfg demo_now (demo_post p) g = (g1, Inr ''unknown'') \<and> demo_ready g1 \<and>
    gw_challenges g1 = gw_challenges g \<and> gw_limiters g1 = demo_charge L_ingress ''unknown'' (gw_limiters g)"
proof -
  obtain g1 where g1: "observe_both demo_now g = (g1, Inr (Num 0))" "demo_ready g1" "gw_challenges g1 = gw_challenges g"
      "gw_limiters g1 = gw_limiters g"
    using demo_observe [OF assms(1)] by blast
  have f: "enforceDmlFreshness demo_cfg demo_now g = g"
    by (simp add: enforceDmlFreshness_def demo_cfg_def)
  have "clock_gate demo_now (demo_post p) g = (g1, None)"
    using g1 assms(2) by (auto simp: clock_gate_def state_bearing_def demo_post_def demo_like_def)
  moreover have "account_begin id demo_cfg demo_now (demo_post p) g1 =
      (g1\<lparr>gw_limiters := demo_charge L_ingress ''unknown'' (gw_limiters g)\<rparr>, Inr ''unknown'')"
    using assms(3) g1(4)
    by (auto simp: account_begin_def authorized_def demo_cfg_def clientKey_def demo_post_def limited_def demo_now_def Let_def split: prod.splits)
  ultimately show ?thesis
    using g1 f by (simp add: serve_begin_def demo_like_def)
qed

lemma demo_charge_both:
  assumes "RateLimiter_wouldAllow 95000 (rateKey [''unknown'', ''al'']) (gw_limiters g a)" "RateLimiter_wouldAllow 95000 ''unknown'' (gw_limiters g l)" "a \<noteq> l"
  shows "charge_both demo_now a l ''unknown'' ''al'' g =
    (g\<lparr>gw_limiters := demo_charge l ''unknown'' (demo_charge a (rateKey [''unknown'', ''al'']) (gw_limiters g))\<rparr>, True)"
  using assms by (simp add: charge_both_def allowAll_def charge_def demo_now_def)

lemma field_5 [simp]: "hashToField demo_sha x = 5"
  by (simp add: hashToField_def demo_sha_def FIELD_PRIME_def)

lemma demo_challenge_read:
  assumes "demo_ready g" "RateLimiter_wouldAllow 95000 (rateKey [''unknown'', ''al'']) (gw_limiters g L_account_challenge)"
    and "RateLimiter_wouldAllow 95000 ''unknown'' (gw_limiters g L_challenge)" "gw_challenges g = ChallengeStore_new 5 10"
  shows "\<exists>g1 g2. challenge_body_read demo_sha demo_cfg demo_now ''unknown'' demo_ask g = (g1, Inr (''al'', dec_of_nat 5, None)) \<and>
    (\<exists>cr. challenge_finish demo_sha demo_cfg demo_now ''n'' ''al'' (dec_of_nat 5) None g1 = (g2, Reply 200 (R_challenge cr))) \<and>
    demo_ready g2 \<and> cs_pending (gw_challenges g2) = [(''n'', demo_pending)] \<and>
    gw_limiters g2 = demo_charge L_challenge ''unknown'' (demo_charge L_account_challenge (rateKey [''unknown'', ''al'']) (gw_limiters g))"
proof -
  let ?g1 = "g\<lparr>gw_limiters := demo_charge L_challenge ''unknown'' (demo_charge L_account_challenge (rateKey [''unknown'', ''al'']) (gw_limiters g))\<rparr>"
  have r: "challenge_body_read demo_sha demo_cfg demo_now ''unknown'' demo_ask g = (?g1, Inr (''al'', dec_of_nat 5, None))"
    using demo_charge_both [OF assms(2,3)]
    by (simp add: challenge_body_read_def demo_ask_def truthy_def bv_text_def demo_cfg_def context_of_def contextHash_def Let_def)
  have e: "gw_epoch demo_now ?g1 = (?g1, Inr (Num 9))"
    using assms(1) by (simp add: clock_defs)
  have c: "current_root demo_cfg demo_now ctx ?g1 = Some (dec_of_nat 7)" for ctx
    using assms(1) by (simp add: current_root_def demo_cfg_def demo_like_def demo_window_def RootWindows_current_def last_opt_def)
  have p: "put_challenge 95000 ''n'' (demo_pending\<lparr>cv_expires := 0\<rparr>) (ChallengeStore_new 5 10) =
      ((ChallengeStore_new 5 10)\<lparr>cs_pending := [(''n'', demo_pending)]\<rparr>, True)"
    by (simp add: put_challenge_def with_room_def ChallengeStore_new_def demo_pending_def)
  let ?g2 = "?g1\<lparr>gw_challenges := (ChallengeStore_new 5 10)\<lparr>cs_pending := [(''n'', demo_pending)]\<rparr>\<rparr>"
  have "\<exists>cr. challenge_finish demo_sha demo_cfg demo_now ''n'' ''al'' (dec_of_nat 5) None ?g1 = (?g2, Reply 200 (R_challenge cr))"
    using e c p assms(4)
    by (simp add: challenge_finish_def signalHash_def demo_now_def demo_cfg_def Let_def demo_pending_def)
  then show ?thesis
    using r assms(1) by (intro exI [of _ ?g1] exI [of _ ?g2]) (simp add: demo_like_def)
qed

lemma demo_verify_read:
  assumes "demo_ready g" "RateLimiter_wouldAllow 95000 (rateKey [''unknown'', ''al'']) (gw_limiters g L_account_verify)"
    and "RateLimiter_wouldAllow 95000 ''unknown'' (gw_limiters g L_verify)" "cs_pending (gw_challenges g) = [(''n'', demo_pending)]"
  shows "\<exists>g1 t. verify_body_read demo_cfg demo_now ''unknown'' (Body demo_prove) g = (g1, Inr (''n'', demo_pending, t)) \<and> demo_ready g1"
proof -
  let ?g1 = "g\<lparr>gw_limiters := demo_charge L_verify ''unknown'' (demo_charge L_account_verify (rateKey [''unknown'', ''al'']) (gw_limiters g))\<rparr>"
  let ?g2 = "?g1\<lparr>gw_challenges := (gw_challenges g)\<lparr>cs_pending := []\<rparr>\<rparr>"
  have t: "take_nonce demo_now (Bv_string ''n'') ?g1 = (?g2, Some (''n'', demo_pending))"
    using assms(4) by (simp add: take_nonce_def take_challenge_def demo_now_def demo_pending_def jm_delete_def jm_get_def)
  obtain g3 tok where h: "gw_hold (cv_root demo_pending) ?g2 = (g3, tok)"
    by fastforce
  then have g3: "demo_ready g3"
    using assms(1) by (auto simp: gw_hold_def demo_like_def split: prod.splits)
  have e: "\<not> epoch_over demo_cfg demo_now demo_pending"
    by (simp add: epoch_over_def demo_cfg_def demo_now_def nowSec_def demo_pending_def)
  have "verify_body_read demo_cfg demo_now ''unknown'' (Body demo_prove) g = (g3, Inr (''n'', demo_pending, tok))"
    using demo_charge_both [OF assms(2,3)] t h e
    by (simp add: verify_body_read_def demo_prove_def truthy_def bv_text_def Let_def, simp add: demo_cfg_def demo_pending_def)
  then show ?thesis
    using g3 by blast
qed

lemma demo_begin:
  assumes "demo_ready g"
  shows "verifyMembership_begin (root_recent demo_cfg ctx g) demo_request_gw = Await_has"
proof -
  have r: "root_recent demo_cfg ctx g (dec_of_nat 7)"
    using assms by (simp add: root_recent_def demo_cfg_def demo_like_def demo_window_def RootWindows_isRecent_def)
  have c: "signalsAreCanonical (rq_signals demo_request_gw) 5"
    by (simp add: signalsAreCanonical_def canonical_value_def demo_request_gw_def verify_request_def demo_prove_def isCanonicalField_dec_of_nat FIELD_PRIME_def)
  have s: "request_signals demo_request_gw = \<lparr>sg_nullifier = dec_of_nat 3, sg_root = dec_of_nat 7, sg_epoch = dec_of_nat 9,
      sg_contextHash = dec_of_nat 5, sg_signalHash = dec_of_nat 5\<rparr>"
    by (simp add: request_signals_def readSignals_def signal_at_def demo_request_gw_def verify_request_def demo_prove_def)
  have e: "rq_expected demo_request_gw = \<lparr>ex_account = Some ''al'', ex_epoch = Num 9, ex_contextHash = dec_of_nat 5,
      ex_signalHash = dec_of_nat 5, ex_asks_period = True\<rparr>"
    by (simp add: demo_request_gw_def verify_request_def demo_pending_def)
  show ?thesis
    using r c by (simp add: verifyMembership_begin_def s e dec_of_int_def)
qed

lemma demo_still:
  assumes "demo_ready g"
  shows "\<exists>g1. still_current demo_cfg demo_now demo_pending Dml_window (dec_of_nat 7) g = (g1, Ans_verdict None) \<and> demo_ready g1"
proof -
  obtain g1 where g1: "observe_both demo_now g = (g1, Inr (Num 0))" "demo_ready g1"
    using demo_observe assms by blast
  have e: "\<not> epoch_over demo_cfg demo_now demo_pending"
    by (simp add: epoch_over_def demo_cfg_def demo_now_def nowSec_def demo_pending_def)
  have "root_recent demo_cfg ctx g1 (dec_of_nat 7)" for ctx
    using g1(2) by (simp add: root_recent_def demo_cfg_def demo_like_def demo_window_def RootWindows_isRecent_def)
  then have "still_current demo_cfg demo_now demo_pending Dml_window (dec_of_nat 7) g = (g1, Ans_verdict None)"
    using g1 e by (simp add: still_current_def TimeGuard_regressed_def demo_like_def, simp add: demo_cfg_def)
  then show ?thesis
    using g1(2) by blast
qed

text \<open>The run. The store is any with the four operations; the membership check of request 2 is at \<open>ph\<close>.\<close>

definition demo_at :: "(tag \<Rightarrow> 's \<Rightarrow> bool) \<Rightarrow> (tag \<Rightarrow> 's \<Rightarrow> claim option) \<Rightarrow> (tag \<Rightarrow> claim \<Rightarrow> 's \<Rightarrow> 's \<times> bool) \<Rightarrow> (jsnum \<Rightarrow> 's \<Rightarrow> 's) \<Rightarrow>
    's \<Rightarrow> hold_token \<Rightarrow> vphase \<Rightarrow> 's \<Rightarrow> (unit, unit, 's, unit) gw_sys \<Rightarrow> bool" where
  "demo_at has get add prune s0 t ph s y \<longleftrightarrow>
     gw_reach demo_cfg demo_sha id demo_P None has get add prune (\<lambda>q. True) 0 s0 y \<and>
     ws_handlers y 2 = Some (Hd_checking ''n'' demo_pending t Dml_window False) \<and>
     vs_calls y 2 = Some (demo_request_gw, ph) \<and> vs_store y = s \<and> ws_grants y = [] \<and> demo_ready (ws_gw y)"

lemma demo_check_step:
  assumes "demo_at has get add prune s0 t ph s y" "running ph" "\<not> period_phase ph" "\<And>b. ph' \<noteq> Threw b"
    and "vm_step has get add prune (\<lambda>q. True) 0 (vsys.truncate y) ((settle 2 demo_request_gw ph' (vsys.truncate y))\<lparr>vs_store := s'\<rparr>)"
  shows "\<exists>y'. demo_at has get add prune s0 t ph' s' y'"
proof -
  let ?z = "(settle 2 demo_request_gw ph' (vsys.truncate y))\<lparr>vs_store := s'\<rparr>"
  have z: "vs_calls ?z = (vs_calls y)(2 \<mapsto> (demo_request_gw, ph'))" "vs_store ?z = s'"
    by (simp_all add: settle_def)
  have y: "gw_reach demo_cfg demo_sha id demo_P None has get add prune (\<lambda>q. True) 0 s0 y"
      "ws_handlers y 2 = Some (Hd_checking ''n'' demo_pending t Dml_window False)" "vs_calls y 2 = Some (demo_request_gw, ph)"
      "ws_grants y = []" "demo_ready (ws_gw y)"
    using assms(1) by (simp_all add: demo_at_def)
  have "\<not> (\<exists>b. ph' = Threw b)"
    using assms(4) by blast
  then show ?thesis
    using gr_next [OF y(1) gs_check [OF y(2,3) assms(2,3,5) z(1)]] y z unfolding demo_at_def by force
qed

lemma demo_period_step:
  assumes "demo_at has get add prune s0 t ph s y" "period_phase ph"
  shows "\<exists>y'. demo_at has get add prune s0 t (verifyMembership_resume demo_request_gw ph (Ans_verdict None)) s y'"
proof -
  have y: "gw_reach demo_cfg demo_sha id demo_P None has get add prune (\<lambda>q. True) 0 s0 y"
      "ws_handlers y 2 = Some (Hd_checking ''n'' demo_pending t Dml_window False)" "vs_calls y 2 = Some (demo_request_gw, ph)"
      "vs_store y = s" "ws_grants y = []" "demo_ready (ws_gw y)"
    using assms(1) by (simp_all add: demo_at_def)
  have r: "sg_root (request_signals demo_request_gw) = dec_of_nat 7"
    by (simp add: request_signals_def readSignals_def signal_at_def demo_request_gw_def verify_request_def demo_prove_def)
  obtain g where g: "still_current demo_cfg demo_now demo_pending Dml_window (sg_root (request_signals demo_request_gw)) (ws_gw y) = (g, Ans_verdict None)"
      "demo_ready g"
    using demo_still [OF y(6)] unfolding r by blast
  have st: "vs_store (gw_settle i q p y) = vs_store y" for i q p
    by (simp add: gw_settle_def)
  show ?thesis
    using gr_next [OF y(1) gs_period [OF y(2,3) assms(2) g(1)]] y g(2) st unfolding demo_at_def by force
qed

lemma arrives_step:
  assumes "gw_reach demo_cfg demo_sha id P None has get add prune valid 0 s0 y" "ws_handlers y i = None"
    and "serve_begin id demo_cfg demo_now (demo_post (if ch then ''/v1/challenge'' else ''/v1/verify'')) (ws_gw y) = (g, Inr client)"
  shows "gw_reach demo_cfg demo_sha id P None has get add prune valid 0 s0
    (move_to i (if ch then Hd_challenge client else Hd_verify client) g y)"
  by (rule gr_next [OF assms(1) gs_arrives [OF assms(2) _ _ assms(3)]]) (simp_all add: demo_post_def)

lemmas limiter_defs = RateLimiter_allow_def RateLimiter_wouldAllow_def RateLimiter_new_def make_room_def jm_get_def Let_def

lemma demo_limits:
  "snd (RateLimiter_allow 95000 ''unknown'' (RateLimiter_new 60 10 10))"
  "snd (RateLimiter_allow 95000 ''unknown'' (fst (RateLimiter_allow 95000 ''unknown'' (RateLimiter_new 60 10 10))))"
  "RateLimiter_wouldAllow 95000 k (RateLimiter_new 60 10 10)"
  by (simp_all add: limiter_defs)

lemma demo_minted:
  fixes s0 :: 's
  shows "\<exists>y. gw_reach demo_cfg demo_sha id demo_P None has get add prune (\<lambda>q :: (unit, unit) request. True) 0 s0 y \<and>
    ws_handlers y 2 = None \<and> vs_store y = s0 \<and> ws_grants y = [] \<and> demo_ready (ws_gw y) \<and>
    cs_pending (gw_challenges (ws_gw y)) = [(''n'', demo_pending)] \<and>
    gw_limiters (ws_gw y) L_ingress = fst (RateLimiter_allow 95000 ''unknown'' (RateLimiter_new 60 10 10)) \<and>
    gw_limiters (ws_gw y) L_verify = RateLimiter_new 60 10 10 \<and> gw_limiters (ws_gw y) L_account_verify = RateLimiter_new 60 10 10"
proof -
  let ?R = "gw_reach demo_cfg demo_sha id demo_P None has get add prune (\<lambda>q :: (unit, unit) request. True) 0 s0"
  let ?y0 = "\<lparr>vs_store = s0, vs_calls = Map.empty, vs_granted = [], ws_gw = demo_gw, ws_handlers = Map.empty, ws_minted = [], ws_grants = []\<rparr>"
  have r0: "?R ?y0"
    by (rule gr_boot) (simp_all add: demo_gw_def ChallengeStore_new_def)
  obtain g1 where g1: "serve_begin id demo_cfg demo_now (demo_post ''/v1/challenge'') demo_gw = (g1, Inr ''unknown'')"
      "demo_ready g1" "gw_challenges g1 = gw_challenges demo_gw" "gw_limiters g1 = demo_charge L_ingress ''unknown'' (gw_limiters demo_gw)"
    using demo_serve [OF disjI1 [OF demo_gw_like] disjI1 [OF refl]] demo_limits by (auto simp: demo_gw_def)
  let ?y1 = "move_to 0 (Hd_challenge ''unknown'') g1 ?y0"
  have r1: "?R ?y1"
    using arrives_step [OF r0, where i = 0 and ch = True] g1(1) by simp
  have c1: "gw_challenges g1 = ChallengeStore_new 5 10"
    using g1(3) by (simp add: demo_gw_def)
  have w1: "RateLimiter_wouldAllow 95000 (rateKey [''unknown'', ''al'']) (gw_limiters g1 L_account_challenge)"
      "RateLimiter_wouldAllow 95000 ''unknown'' (gw_limiters g1 L_challenge)"
    by (simp_all add: g1(4) demo_gw_def demo_limits(3))
  obtain g2 g3 cr where g2: "challenge_body_read demo_sha demo_cfg demo_now ''unknown'' demo_ask g1 = (g2, Inr (''al'', dec_of_nat 5, None))"
      "challenge_finish demo_sha demo_cfg demo_now ''n'' ''al'' (dec_of_nat 5) None g2 = (g3, Reply 200 (R_challenge cr))"
      "demo_ready g3" "cs_pending (gw_challenges g3) = [(''n'', demo_pending)]"
      "gw_limiters g3 = demo_charge L_challenge ''unknown'' (demo_charge L_account_challenge (rateKey [''unknown'', ''al'']) (gw_limiters g1))"
    using demo_challenge_read [OF g1(2) w1 c1] by blast
  have s: "sane_now demo_cfg demo_now"
    by (simp add: sane_now_def demo_cfg_def demo_now_def)
  let ?y2 = "mint_reply 0 ''n'' (g3, Reply 200 (R_challenge cr)) ?y1"
  have h: "ws_handlers ?y1 0 = Some (Hd_challenge ''unknown'')" "fresh_nonce ''n'' ?y1" "ws_gw ?y1 = g1"
    by (simp_all add: fresh_nonce_def)
  have "?R (mint_reply 0 ''n'' (challenge_finish demo_sha demo_cfg demo_now ''n'' ''al'' (dec_of_nat 5) None g2) ?y1)"
    by (rule gr_next [OF r1 gs_challenge_single [where b = demo_ask, OF h(1) s h(2)]]) (simp add: g2(1))
  then have r2: "?R ?y2"
    by (simp only: g2(2))
  have y2: "ws_gw ?y2 = g3" "ws_handlers ?y2 2 = None" "vs_store ?y2 = s0" "ws_grants ?y2 = []"
    by (simp_all add: mint_reply_def move_to_def)
  have l3: "gw_limiters g3 L_ingress = fst (RateLimiter_allow 95000 ''unknown'' (RateLimiter_new 60 10 10))"
      "gw_limiters g3 L_verify = RateLimiter_new 60 10 10" "gw_limiters g3 L_account_verify = RateLimiter_new 60 10 10"
    using g2(5) g1(4) by (simp_all add: demo_gw_def)
  show ?thesis
    by (rule exI [of _ ?y2]) (simp only: r2 y2 l3 g2(3,4) simp_thms)
qed

lemma demo_arrives:
  fixes s0 :: 's
  shows "\<exists>t y. demo_at has get add prune s0 t Await_has s0 y"
proof -
  let ?R = "gw_reach demo_cfg demo_sha id demo_P None has get add prune (\<lambda>q :: (unit, unit) request. True) 0 s0"
  obtain y2 where y2: "?R y2" "ws_handlers y2 2 = None" "vs_store y2 = s0" "ws_grants y2 = []" "demo_ready (ws_gw y2)"
      "cs_pending (gw_challenges (ws_gw y2)) = [(''n'', demo_pending)]"
      "gw_limiters (ws_gw y2) L_ingress = fst (RateLimiter_allow 95000 ''unknown'' (RateLimiter_new 60 10 10))"
      "gw_limiters (ws_gw y2) L_verify = RateLimiter_new 60 10 10" "gw_limiters (ws_gw y2) L_account_verify = RateLimiter_new 60 10 10"
    using demo_minted [of has get add prune s0] by blast
  have "snd (RateLimiter_allow 95000 ''unknown'' (gw_limiters (ws_gw y2) L_ingress))"
    unfolding y2(7) by (rule demo_limits(2))
  from demo_serve [OF disjI2 [OF y2(5)] disjI2 [OF refl] this]
  obtain g4 where g4: "serve_begin id demo_cfg demo_now (demo_post ''/v1/verify'') (ws_gw y2) = (g4, Inr ''unknown'')"
      "demo_ready g4" "gw_challenges g4 = gw_challenges (ws_gw y2)" "gw_limiters g4 = demo_charge L_ingress ''unknown'' (gw_limiters (ws_gw y2))"
    by blast
  let ?y3 = "move_to 2 (Hd_verify ''unknown'') g4 y2"
  have r3: "?R ?y3"
    using arrives_step [OF y2(1,2), where ch = False] g4(1) by simp
  have w4: "RateLimiter_wouldAllow 95000 (rateKey [''unknown'', ''al'']) (gw_limiters g4 L_account_verify)"
      "RateLimiter_wouldAllow 95000 ''unknown'' (gw_limiters g4 L_verify)" "cs_pending (gw_challenges g4) = [(''n'', demo_pending)]"
    by (simp_all add: g4(3,4) y2(6,8,9) demo_limits(3))
  obtain g5 t where g5: "verify_body_read demo_cfg demo_now ''unknown'' (Body demo_prove) g4 = (g5, Inr (''n'', demo_pending, t))" "demo_ready g5"
    using demo_verify_read [OF g4(2) w4] by blast
  have f: "after_body demo_cfg None demo_now 2 demo_prove ''n'' demo_pending t g5 ?y3 =
      gw_settle 2 demo_request_gw Await_has (move_to 2 (Hd_checking ''n'' demo_pending t Dml_window False) g5 ?y3)"
    using demo_begin [OF g5(2), of "cv_contextHash demo_pending"]
    by (simp add: after_body_def start_check_def verify_start_def Let_def demo_request_gw_def, simp add: demo_cfg_def root_ref_of_def)
  have h: "ws_handlers ?y3 2 = Some (Hd_verify ''unknown'')" "ws_gw ?y3 = g4"
    by simp_all
  have "?R (after_body demo_cfg None demo_now 2 demo_prove ''n'' demo_pending t g5 ?y3)"
    by (rule gr_next [OF r3 gs_verify_taken [OF h(1)]]) (simp add: g5(1))
  then show ?thesis
    using g5(2) y2(3,4) unfolding demo_at_def f by (intro exI) (auto simp: gw_settle_def move_to_def)
qed

lemma demo_finish:
  assumes "demo_at has get add prune s0 t (Settled (Granted False)) s y"
  shows "\<exists>y. gw_reach demo_cfg demo_sha id demo_P None has get add prune (\<lambda>q. True) 0 s0 y \<and>
    ws_grants y = [(''n'', demo_pending, demo_request_gw)]"
proof -
  have y: "gw_reach demo_cfg demo_sha id demo_P None has get add prune (\<lambda>q. True) 0 s0 y"
      "ws_handlers y 2 = Some (Hd_checking ''n'' demo_pending t Dml_window False)"
      "vs_calls y 2 = Some (demo_request_gw, Settled (Granted False))" "ws_grants y = []"
    using assms by (simp_all add: demo_at_def)
  let ?r = "Reply 200 (R_grant ''al'' (sg_epoch (request_signals demo_request_gw)) 100 False)"
  have f: "verify_finish demo_cfg demo_now False ''n'' demo_pending t demo_request_gw (Settled (Granted False)) (ws_gw y) =
      (gw_release t (ws_gw y), ?r)"
    by (simp add: verify_finish_def verify_reply_def demo_cfg_def demo_pending_def)
  have n: "\<not> running (Settled (Granted False))"
    by (simp add: running_def)
  show ?thesis
    by (rule exI, rule conjI, rule gr_next [OF y(1) gs_replies [OF y(2,3) n f]]) (simp add: reply_grants_def y(4))
qed

context nullifier_store
begin

lemma demo_gw_run:
  assumes "inv s0" "\<not> has (request_tag demo_request_gw) s0"
  shows "\<exists>y. gw_reach demo_cfg demo_sha id demo_P None has get add prune (\<lambda>q :: (unit, unit) request. True) 0 s0 y \<and>
    ws_grants y = [(''n'', demo_pending, demo_request_gw)]"
proof -
  let ?q = demo_request_gw
  have q: "rq_expected ?q = \<lparr>ex_account = Some ''al'', ex_epoch = Num 9, ex_contextHash = dec_of_nat 5, ex_signalHash = dec_of_nat 5, ex_asks_period = True\<rparr>"
    by (simp add: demo_request_gw_def verify_request_def demo_pending_def)
  have same: "(settle 2 ?q ph (vsys.truncate y))\<lparr>vs_store := s0\<rparr> = settle 2 ?q ph (vsys.truncate y)"
    if "vs_store y = s0" for ph and y :: "(unit, unit, 's, unit) gw_sys"
    using that by (simp add: settle_def vsys.truncate_def)
  obtain t y1 where y1: "demo_at has get add prune s0 t Await_has s0 y1"
    using demo_arrives [of has get add prune s0] by blast
  have "vm_step has get add prune (\<lambda>q. True) 0 (vsys.truncate y1) ((settle 2 ?q Await_proof (vsys.truncate y1))\<lparr>vs_store := s0\<rparr>)"
    using vm_has [of "vsys.truncate y1" 2 ?q has get add prune "\<lambda>q. True" 0] y1 assms(2) same [of y1]
    by (simp add: demo_at_def)
  then obtain y2 where y2: "demo_at has get add prune s0 t Await_proof s0 y2"
    using demo_check_step [OF y1] by (auto simp: running_def period_phase_def)
  have "vm_step has get add prune (\<lambda>q. True) 0 (vsys.truncate y2) ((settle 2 ?q Await_period (vsys.truncate y2))\<lparr>vs_store := s0\<rparr>)"
    using vm_proof [of "vsys.truncate y2" 2 ?q Await_proof has get add prune "\<lambda>q. True" 0] y2 same [of y2]
    by (simp add: demo_at_def proof_phase_def)
  then obtain y3 where y3: "demo_at has get add prune s0 t Await_period s0 y3"
    using demo_check_step [OF y2] by (auto simp: running_def period_phase_def)
  have "\<exists>y. demo_at has get add prune s0 t Await_add s0 y"
    using demo_period_step [OF y3] q by (simp add: period_phase_def periodStillCurrent_def)
  then obtain y4 where y4: "demo_at has get add prune s0 t Await_add s0 y4"
    by blast
  obtain s1 dup where a: "add (request_tag ?q) (request_claim ?q) s0 = (s1, dup)"
    by fastforce
  have ok: "request_ok ?q"
    using begin_ok [of ?q 9 "root_recent demo_cfg undefined (demo_gw\<lparr>gw_guard := (gw_guard demo_gw)\<lparr>tg_marks :=
        \<lparr>tm_epoch = Some (Num 9), tm_season = Some (Num 0)\<rparr>\<rparr>\<rparr>)"] demo_begin q
    by (simp add: demo_like_def demo_gw_def)
  have dup: "dup = False"
    using add_duplicate [OF assms(1) request_ok_good [OF ok], of "request_claim ?q"] a assms(2) by simp
  have "vm_step has get add prune (\<lambda>q. True) 0 (vsys.truncate y4) ((settle 2 ?q (Await_period_after False) (vsys.truncate y4))\<lparr>vs_store := s1\<rparr>)"
    using vm_add [of "vsys.truncate y4" 2 ?q add s1 dup has get prune "\<lambda>q. True" 0] y4 a dup
    by (simp add: demo_at_def)
  then obtain y5 where y5: "demo_at has get add prune s0 t (Await_period_after False) s1 y5"
    using demo_check_step [OF y4] by (auto simp: running_def period_phase_def)
  have "\<exists>y. demo_at has get add prune s0 t (Settled (Granted False)) s1 y"
    using demo_period_step [OF y5] q by (simp add: period_phase_def periodStillCurrent_def refuses_after_spend_def)
  then show ?thesis
    by (elim exE) (rule demo_finish)
qed

end

subsection \<open>Properties\<close>

text \<open>C7: one challenge, one grant, and to the account that asked. Through any interleaving of challenge and verify
  requests, failing stores, interrupted checks whose challenge is put back, expiries and restarts, no two grants are
  answered for one nonce; and each grant answers a challenge this gateway minted, goes to the account the challenge was
  minted for, in the challenge's epoch and context, and rests on a valid proof whose signal hash is the hash of that very
  nonce and account. So a proof cannot be replayed under another challenge or for another account.\<close>

theorem one_grant_per_challenge:
  assumes "gw_reach cfg sha digest P vkey has get add prune valid lo s0 y"
  shows "distinct (map fst (ws_grants y)) \<and>
    (\<forall>(n, v, q) \<in> set (ws_grants y). (n, v) \<in> set (ws_minted y) \<and> ex_account (rq_expected q) = Some (cv_account v) \<and>
       sg_signalHash (request_signals q) = dec_of_nat (signalHash sha n (cv_account v)) \<and>
       sg_epoch (request_signals q) = dec_of_int (cv_epoch v) \<and> sg_contextHash (request_signals q) = cv_contextHash v \<and> valid q)"
proof -
  have "map fst (granted_nonces y) = map fst (ws_grants y)"
    by (auto simp: granted_nonces_def)
  moreover have "distinct (map fst (granted_nonces y))"
    using gw_reach_run [OF assms] nonce_invD(8) by (auto simp: gw_inv_def)
  ultimately show ?thesis
    using grant_facts [OF assms] grant_tag [OF assms] by (auto simp: request_tag_def)
qed

theorem one_grant_per_challenge_witness:
  "\<exists>y. gw_reach demo_cfg demo_sha id demo_P None SqliteNullifierStore_has SqliteNullifierStore_get (SqliteNullifierStore_add 0)
      (\<lambda>c s. fst (SqliteNullifierStore_prune c s)) (\<lambda>q. True) 0 demo_sqlite y \<and>
     ws_grants y = [(''n'', demo_pending, demo_request_gw)] \<and> sg_signalHash (request_signals demo_request_gw) = dec_of_nat 5"
proof -
  obtain y where y: "gw_reach demo_cfg demo_sha id demo_P None SqliteNullifierStore_has SqliteNullifierStore_get (SqliteNullifierStore_add 0)
      (\<lambda>c s. fst (SqliteNullifierStore_prune c s)) (\<lambda>q. True) 0 demo_sqlite y"
      "ws_grants y = [(''n'', demo_pending, demo_request_gw)]"
    using sqlite.demo_gw_run [OF demo_sqlite_ok] by blast
  show ?thesis
    using one_grant_per_challenge [OF y(1)] y by (auto simp: signalHash_def)
qed

text \<open>C1: the promise of the service, at its HTTP endpoints over the durable store: within one epoch and context, all
  grants ever answered for one voting key's nullifier went to one account, whatever the clients, the clock, failures and
  restarts do, as long as no prune passed that epoch. Each of them rests on a request that passed the checks of
  \<open>verifyMembership_begin\<close> and whose proof verified, for the signal hash of the very nonce and account of the challenge.\<close>

theorem one_account_per_key_over_http:
  assumes "gw_reach cfg sha digest P vkey SqliteNullifierStore_has SqliteNullifierStore_get (SqliteNullifierStore_add now)
      (\<lambda>c s. fst (SqliteNullifierStore_prune c s)) valid lo s0 y"
    and "sqlite_inv s0" "(n, v, q) \<in> set (ws_grants y)" "(m, w, p) \<in> set (ws_grants y)"
    and "sg_nullifier (request_signals p) = sg_nullifier (request_signals q)"
    and "cv_epoch w = cv_epoch v" "cv_contextHash w = cv_contextHash v" "lo \<le> cv_epoch v"
  shows "cv_account w = cv_account v \<and> valid q \<and> valid p \<and> request_ok q \<and> request_ok p \<and>
    sg_signalHash (request_signals q) = dec_of_nat (signalHash sha n (cv_account v)) \<and>
    sg_signalHash (request_signals p) = dec_of_nat (signalHash sha m (cv_account w))"
proof -
  have r: "vm_reach SqliteNullifierStore_has SqliteNullifierStore_get (SqliteNullifierStore_add now)
      (\<lambda>c s. fst (SqliteNullifierStore_prune c s)) valid lo s0 (vsys.truncate y)"
    using gw_reach_run [OF assms(1)] by blast
  have t: "request_tag p = request_tag q"
    using grant_tag(1) [OF assms(1,3)] grant_tag(1) [OF assms(1,4)] assms(5-7) by simp
  have "lo \<le> tag_epoch (request_tag q)"
    using grant_tag(2) [OF assms(1,3)] assms(8) by simp
  then have "ex_account (rq_expected p) = ex_account (rq_expected q)"
    using sqlite.one_account [OF r assms(2) _ grant_facts(2) [OF assms(1,4)] grant_facts(2) [OF assms(1,3)] t] by simp
  then show ?thesis
    using grant_facts(3-5) [OF assms(1,3)] grant_facts(3-5) [OF assms(1,4)] grant_tag(3) [OF assms(1,3)] grant_tag(3) [OF assms(1,4)]
    by simp
qed

theorem one_account_per_key_over_http_witness:
  "\<exists>y. gw_reach demo_cfg demo_sha id demo_P None SqliteNullifierStore_has SqliteNullifierStore_get (SqliteNullifierStore_add 0)
      (\<lambda>c s. fst (SqliteNullifierStore_prune c s)) (\<lambda>q. True) 0 demo_sqlite y \<and>
     (''n'', demo_pending, demo_request_gw) \<in> set (ws_grants y) \<and>
     (''m'', demo_pending\<lparr>cv_account := ''bo''\<rparr>, demo_request_gw) \<notin> set (ws_grants y) \<and>
     request_ok demo_request_gw \<and> sg_signalHash (request_signals demo_request_gw) = dec_of_nat 5"
proof -
  obtain y where y: "gw_reach demo_cfg demo_sha id demo_P None SqliteNullifierStore_has SqliteNullifierStore_get (SqliteNullifierStore_add 0)
      (\<lambda>c s. fst (SqliteNullifierStore_prune c s)) (\<lambda>q. True) 0 demo_sqlite y"
      "(''n'', demo_pending, demo_request_gw) \<in> set (ws_grants y)"
    using sqlite.demo_gw_run [OF demo_sqlite_ok] by (metis list.set_intros(1))
  have "(''m'', demo_pending\<lparr>cv_account := ''bo''\<rparr>, demo_request_gw) \<notin> set (ws_grants y)"
    using one_account_per_key_over_http [OF y(1) demo_sqlite_ok(1) y(2)] by (fastforce simp: demo_pending_def)
  moreover have "request_ok demo_request_gw \<and> sg_signalHash (request_signals demo_request_gw) = dec_of_nat 5"
    using one_account_per_key_over_http [OF y(1) demo_sqlite_ok(1) y(2,2)]
    by (simp add: demo_pending_def signalHash_def)
  ultimately show ?thesis
    using y by blast
qed

end
