(* ===== verification/Oracle_Sig.thy ===== *)
theory Oracle_Sig
  imports Js_Strings Common_Values Js_Text
begin

section \<open>Signed oracle snapshots (common/oracle_sig.js)\<close>

text \<open>
  A snapshot arrives as parsed JSON, so its fields are dynamic values: the code tests their types before it trusts
  them, and the model keeps them as \<open>jvalue\<close>. The signed message is text of ASCII characters. Ed25519 (sign, verify, the
  public half of a private key) and the base64 decoder of Node's Buffer are arguments.
\<close>

subsection \<open>Values\<close>

text \<open>
  \<open>V_int\<close> is an integer (below 10 to the 21st, where \<open>String\<close> writes its digits), \<open>V_real i s\<close> a number
  strictly between \<open>i\<close> and \<open>i + 1\<close>, \<open>V_other\<close> an array or object; the last two with their \<open>String()\<close>.
\<close>

datatype jvalue = V_undefined | V_null | V_bool bool | V_int int | V_real int string | V_string string | V_other string

fun jv_String :: "jvalue \<Rightarrow> string" where
  "jv_String V_undefined = ''undefined''"
| "jv_String V_null = ''null''"
| "jv_String (V_bool b) = (if b then ''true'' else ''false'')"
| "jv_String (V_int i) = dec_of_int i"
| "jv_String (V_real i s) = s"
| "jv_String (V_string s) = s"
| "jv_String (V_other s) = s"

definition nullish :: "jvalue \<Rightarrow> bool" where
  "nullish v \<longleftrightarrow> v = V_undefined \<or> v = V_null"

text \<open>\<open>v ?? d\<close>\<close>

definition or_else :: "jvalue \<Rightarrow> jvalue \<Rightarrow> jvalue" where
  "or_else v d = (if nullish v then d else v)"

definition safe_int :: "int \<Rightarrow> bool" where
  "safe_int i \<longleftrightarrow> \<bar>i\<bar> < 2 ^ 53"

record sig_entry =
  se_key :: jvalue
  se_sig :: jvalue

text \<open>An element of \<open>sigs\<close>: \<open>None\<close> is a falsy one. \<open>os_sigs\<close> and \<open>os_leaves\<close> are \<open>None\<close> when they are no array.\<close>

record oracle_snapshot =
  os_version :: jvalue
  os_height :: jvalue
  os_blockHash :: jvalue
  os_depth :: jvalue
  os_root :: jvalue
  os_shaRoot :: jvalue
  os_order :: jvalue
  os_chainlocked :: jvalue
  os_ts :: jvalue
  os_leaves :: "jvalue list option"
  os_sigs :: "sig_entry option list option"

subsection \<open>The signed message\<close>

datatype sig_error =
    Newline string | Not_safe_integer string | Unsupported_version | Sha_root_no_string nat | Order_missing | Not_chainlocked
  | Key_length nat

definition frameSafe :: "jvalue \<Rightarrow> string \<Rightarrow> sig_error + string" where
  "frameSafe v field = (if CHR 0x0A \<in> set (jv_String v) then Inl (Newline field) else Inr (jv_String v))"

definition frameInt :: "jvalue \<Rightarrow> string \<Rightarrow> sig_error + string" where
  "frameInt v field =
     (case v of V_int i \<Rightarrow> if safe_int i then Inr (dec_of_int i) else Inl (Not_safe_integer field)
      | _ \<Rightarrow> Inl (Not_safe_integer field))"

definition snapshotVersion :: "jvalue \<Rightarrow> sig_error + nat" where
  "snapshotVersion v =
     (if nullish v \<or> v = V_int 1 then Inr 1 else if v = V_int 2 then Inr 2 else if v = V_int 3 then Inr 3
      else Inl Unsupported_version)"

definition DOMAIN_V1 :: string where "DOMAIN_V1 = ''mno-oracle-snapshot-v1''"
definition DOMAIN_V2 :: string where "DOMAIN_V2 = ''mno-oracle-snapshot-v2''"
definition DOMAIN_V3 :: string where "DOMAIN_V3 = ''mno-oracle-snapshot-v3''"

text \<open>The array literal: its elements are evaluated in order, and the first that throws ends it.\<close>

fun all_ok :: "('e + 'a) list \<Rightarrow> 'e + 'a list" where
  "all_ok [] = Inr []"
| "all_ok (Inl e # xs) = Inl e"
| "all_ok (Inr x # xs) = (case all_ok xs of Inl e \<Rightarrow> Inl e | Inr ys \<Rightarrow> Inr (x # ys))"

definition join_fields :: "(sig_error + string) list \<Rightarrow> sig_error + string" where
  "join_fields fs = map_sum id (js_join [CHR 0x0A]) (all_ok fs)"

definition is_string :: "jvalue \<Rightarrow> bool" where
  "is_string v = (case v of V_string s \<Rightarrow> True | _ \<Rightarrow> False)"

definition v1_fields :: "oracle_snapshot \<Rightarrow> (sig_error + string) list" where
  "v1_fields s = [Inr DOMAIN_V1, frameInt (os_height s) ''height'',
     frameSafe (or_else (os_blockHash s) (V_string [])) ''blockHash'', frameInt (os_depth s) ''depth'',
     frameSafe (os_root s) ''root'', frameInt (os_ts s) ''ts'']"

definition v2_fields :: "oracle_snapshot \<Rightarrow> (sig_error + string) list" where
  "v2_fields s = [Inr DOMAIN_V2, Inr ''2'', frameInt (os_height s) ''height'',
     frameSafe (or_else (os_blockHash s) (V_string [])) ''blockHash'', frameInt (os_depth s) ''depth'',
     frameSafe (os_root s) ''root'', frameSafe (os_shaRoot s) ''shaRoot'', frameInt (os_ts s) ''ts'']"

definition v3_fields :: "oracle_snapshot \<Rightarrow> (sig_error + string) list" where
  "v3_fields s = [Inr DOMAIN_V3, Inr ''3'', frameInt (os_height s) ''height'',
     frameSafe (or_else (os_blockHash s) (V_string [])) ''blockHash'', frameInt (os_depth s) ''depth'',
     frameSafe (os_root s) ''root'', frameSafe (os_shaRoot s) ''shaRoot'', frameSafe (os_order s) ''order'',
     Inr ''1'', frameInt (os_ts s) ''ts'']"

definition snapshotMessage :: "oracle_snapshot \<Rightarrow> sig_error + string" where
  "snapshotMessage s =
     (case snapshotVersion (os_version s) of
        Inl e \<Rightarrow> Inl e
      | Inr version \<Rightarrow>
          if version = 3 then
            (if \<not> is_string (os_shaRoot s) then Inl (Sha_root_no_string 3)
             else if \<not> is_string (os_order s) \<or> os_order s = V_string [] then Inl Order_missing
             else if os_chainlocked s \<noteq> V_bool True then Inl Not_chainlocked
             else join_fields (v3_fields s))
          else if version = 2 then
            (if \<not> is_string (os_shaRoot s) then Inl (Sha_root_no_string 2) else join_fields (v2_fields s))
          else join_fields (v1_fields s))"

subsection \<open>Keys and signatures\<close>

text \<open>
  \<open>raw_of\<close> is \<open>Buffer.from(s, "base64")\<close> and \<open>b64\<close> the encoder; a key object is its 32 raw bytes.
\<close>

definition publicKeyFromRaw :: "(string \<Rightarrow> 'b list) \<Rightarrow> jvalue \<Rightarrow> sig_error + 'b list" where
  "publicKeyFromRaw raw_of encoded =
     (let raw = raw_of (js_trim (jv_String encoded)) in if length raw \<noteq> 32 then Inl (Key_length (length raw)) else Inr raw)"

datatype ('k, 'b) key_object = Private_key 'k | Public_key "'b list"

definition rawPublicB64 :: "('k \<Rightarrow> 'b list) \<Rightarrow> ('b list \<Rightarrow> string) \<Rightarrow> ('k, 'b) key_object \<Rightarrow> string" where
  "rawPublicB64 pub b64 key = b64 (case key of Private_key k \<Rightarrow> pub k | Public_key raw \<Rightarrow> raw)"

text \<open>\<open>rawPublicB64(publicKeyFromRaw(key))\<close>, as both users of a label write it.\<close>

definition label_id :: "(string \<Rightarrow> 'b list) \<Rightarrow> ('b list \<Rightarrow> string) \<Rightarrow> jvalue \<Rightarrow> string option" where
  "label_id raw_of b64 key = (case publicKeyFromRaw raw_of key of Inl _ \<Rightarrow> None | Inr raw \<Rightarrow> Some (b64 raw))"

text \<open>The entries a re-sign leaves: all but those whose label decodes to this key.\<close>

definition not_by :: "(string \<Rightarrow> 'b list) \<Rightarrow> ('b list \<Rightarrow> string) \<Rightarrow> string \<Rightarrow> sig_entry option \<Rightarrow> bool" where
  "not_by raw_of b64 key x = (case x of
     None \<Rightarrow> True | Some e \<Rightarrow> \<not> is_string (se_key e) \<or> label_id raw_of b64 (se_key e) \<noteq> Some key)"

definition addSignature :: "('k \<Rightarrow> string \<Rightarrow> string) \<Rightarrow> ('k \<Rightarrow> 'b list) \<Rightarrow> (string \<Rightarrow> 'b list) \<Rightarrow> ('b list \<Rightarrow> string) \<Rightarrow>
    oracle_snapshot \<Rightarrow> 'k \<Rightarrow> sig_error + sig_entry option list" where
  "addSignature sign pub raw_of b64 s k =
     (let key = rawPublicB64 pub b64 (Private_key k) in
      case snapshotMessage s of
        Inl e \<Rightarrow> Inl e
      | Inr m \<Rightarrow>
          (let others = filter (not_by raw_of b64 key) (case os_sigs s of None \<Rightarrow> [] | Some xs \<Rightarrow> xs)
           in Inr (others @ [Some \<lparr>se_key = V_string key, se_sig = V_string (sign k m)\<rparr>])))"

definition verifySnapshotSig :: "('b list \<Rightarrow> string \<Rightarrow> 'b list \<Rightarrow> bool option) \<Rightarrow> (string \<Rightarrow> 'b list) \<Rightarrow> string \<Rightarrow> string \<Rightarrow> 'b list \<Rightarrow> bool" where
  "verifySnapshotSig ed25519 raw_of message sigB64 key =
     (case ed25519 key message (raw_of sigB64) of None \<Rightarrow> False | Some ok \<Rightarrow> ok)"

subsection \<open>A message names one snapshot\<close>

lemma all_ok_Inr: "all_ok xs = Inr ys \<longleftrightarrow> xs = map Inr ys"
proof (induction xs arbitrary: ys rule: all_ok.induct)
  case (3 x xs)
  show ?case
  proof
    assume "all_ok (Inr x # xs) = Inr ys"
    then obtain zs where "all_ok xs = Inr zs" "ys = x # zs"
      by (auto split: sum.splits)
    then show "Inr x # xs = map Inr ys"
      using 3 by simp
  next
    assume "Inr x # xs = map Inr ys"
    then obtain zs where "ys = x # zs" "xs = map Inr zs"
      by (cases ys) auto
    then show "all_ok (Inr x # xs) = Inr ys"
      using 3 [of zs] by simp
  qed
qed auto

lemma frameSafe_Inr: "frameSafe v f = Inr s \<longleftrightarrow> s = jv_String v \<and> CHR 0x0A \<notin> set s"
  by (auto simp: frameSafe_def)

lemma frameInt_Inr: "frameInt v f = Inr s \<longleftrightarrow> (\<exists>i. v = V_int i \<and> s = dec_of_int i \<and> safe_int i)"
  by (auto simp: frameInt_def split: jvalue.splits)

lemma dec_of_int_one_line: "CHR 0x0A \<notin> set (dec_of_int i)"
  using dec_of_nat_digits [of "CHR 0x0A"] by (auto simp: dec_of_int_def is_digit_def)

text \<open>The fields a message frames, read back from it.\<close>

definition message_fields :: "oracle_snapshot \<Rightarrow> (sig_error + string) list" where
  "message_fields s = (case snapshotVersion (os_version s) of
     Inr v \<Rightarrow> if v = 3 then v3_fields s else if v = 2 then v2_fields s else v1_fields s
   | Inl e \<Rightarrow> [])"

lemma message_split:
  assumes "snapshotMessage s = Inr m"
  shows "message_fields s = map Inr (js_split (CHR 0x0A) m)"
proof -
  obtain v where v: "snapshotVersion (os_version s) = Inr v"
    using assms by (auto simp: snapshotMessage_def split: sum.splits)
  have j: "join_fields (message_fields s) = Inr m"
    using assms v by (auto simp: snapshotMessage_def message_fields_def split: if_splits)
  then obtain ys where ys: "message_fields s = map Inr ys" "m = js_join [CHR 0x0A] ys"
    by (auto simp: join_fields_def all_ok_Inr map_sum_def split: sum.splits)
  have "y \<in> set ys \<Longrightarrow> Inr y \<in> set (message_fields s)" for y
    using ys by auto
  then have "\<forall>y \<in> set ys. CHR 0x0A \<notin> set y"
    using v by (fastforce simp: message_fields_def v1_fields_def v2_fields_def v3_fields_def DOMAIN_V1_def DOMAIN_V2_def DOMAIN_V3_def
        frameSafe_Inr frameInt_Inr dec_of_int_one_line split: if_splits dest!: sym [of "Inr _"])
  moreover have "ys \<noteq> []"
    using ys(1) v by (auto simp: message_fields_def v1_fields_def v2_fields_def v3_fields_def split: if_splits)
  ultimately show ?thesis
    using ys js_split_join by metis
qed

text \<open>
  What a message authenticates: the version, each framed field, and in v3 the ChainLock claim, which stands in the message
  as the \<open>"1"\<close>. A field that must be a string or an integer is the value itself; the root and the block hash are framed by
  their \<open>String()\<close>, so for them it is that text.
\<close>

record authenticated =
  au_version :: nat
  au_height :: jvalue
  au_blockHash :: string
  au_depth :: jvalue
  au_root :: string
  au_shaRoot :: "jvalue option"
  au_order :: "jvalue option"
  au_chainlocked :: "jvalue option"
  au_ts :: jvalue

definition authenticates :: "oracle_snapshot \<Rightarrow> authenticated" where
  "authenticates s =
     (let v = (case snapshotVersion (os_version s) of Inl _ \<Rightarrow> 0 | Inr v \<Rightarrow> v) in
      \<lparr>au_version = v, au_height = os_height s, au_blockHash = jv_String (or_else (os_blockHash s) (V_string [])),
       au_depth = os_depth s, au_root = jv_String (os_root s),
       au_shaRoot = (if 2 \<le> v then Some (os_shaRoot s) else None),
       au_order = (if v = 3 then Some (os_order s) else None),
       au_chainlocked = (if v = 3 then Some (os_chainlocked s) else None), au_ts = os_ts s\<rparr>)"

lemma version_cases:
  assumes "snapshotVersion v = Inr n"
  shows "n = 1 \<or> n = 2 \<or> n = 3"
  using assms by (auto simp: snapshotVersion_def split: if_splits)

lemma frame_same:
  "frameSafe a f = Inr x \<Longrightarrow> frameSafe b f = Inr x \<Longrightarrow> jv_String a = jv_String b"
  "frameInt a f = Inr x \<Longrightarrow> frameInt b f = Inr x \<Longrightarrow> a = b"
  by (auto simp: frameSafe_Inr frameInt_Inr)

lemma domains: "DOMAIN_V1 \<noteq> DOMAIN_V2" "DOMAIN_V1 \<noteq> DOMAIN_V3" "DOMAIN_V2 \<noteq> DOMAIN_V3"
  by (simp_all add: DOMAIN_V1_def DOMAIN_V2_def DOMAIN_V3_def)

text \<open>What \<open>snapshotMessage\<close> asks of the fields before it frames them.\<close>

definition typed_fields :: "nat \<Rightarrow> oracle_snapshot \<Rightarrow> bool" where
  "typed_fields v s \<longleftrightarrow> (2 \<le> v \<longrightarrow> is_string (os_shaRoot s)) \<and> (v = 3 \<longrightarrow> is_string (os_order s) \<and> os_chainlocked s = V_bool True)"

lemma message_typed: "snapshotMessage s = Inr m \<Longrightarrow> snapshotVersion (os_version s) = Inr v \<Longrightarrow> typed_fields v s"
  using version_cases [of "os_version s" v] by (auto simp: snapshotMessage_def typed_fields_def split: if_splits)

lemma is_string_iff: "is_string v \<longleftrightarrow> (\<exists>x. v = V_string x)"
  by (cases v) (simp_all add: is_string_def)

lemma same_fields:
  assumes "message_fields s = map Inr ys" "message_fields t = map Inr ys"
    and "snapshotVersion (os_version s) = Inr m" "snapshotVersion (os_version t) = Inr n"
    and "typed_fields m s" "typed_fields n t"
  shows "authenticates s = authenticates t"
proof -
  have h: "hd ys = (if k = 3 then DOMAIN_V3 else if k = 2 then DOMAIN_V2 else DOMAIN_V1)"
    if "message_fields u = map Inr ys" "snapshotVersion (os_version u) = Inr k" for u k
    using that by (cases ys) (auto simp: message_fields_def v1_fields_def v2_fields_def v3_fields_def split: if_splits)
  have mn: "m = n"
    using h [OF assms(1,3)] h [OF assms(2,4)] version_cases [OF assms(3)] version_cases [OF assms(4)] domains
    by (auto split: if_splits)
  from version_cases [OF assms(3)] show ?thesis
    using assms mn
    by (elim disjE) (auto simp: message_fields_def v1_fields_def v2_fields_def v3_fields_def authenticates_def Let_def
        Cons_eq_map_conv frameSafe_Inr frameInt_Inr typed_fields_def is_string_iff)
qed

subsection \<open>One signature per key\<close>

definition entry_label :: "(string \<Rightarrow> 'b list) \<Rightarrow> ('b list \<Rightarrow> string) \<Rightarrow> sig_entry option \<Rightarrow> string option" where
  "entry_label raw_of b64 x = (case x of
     None \<Rightarrow> None | Some e \<Rightarrow> if is_string (se_key e) then label_id raw_of b64 (se_key e) else None)"

text \<open>The keys that signed, one for each entry whose label decodes.\<close>

definition signers :: "(string \<Rightarrow> 'b list) \<Rightarrow> ('b list \<Rightarrow> string) \<Rightarrow> sig_entry option list \<Rightarrow> string list" where
  "signers raw_of b64 xs = map the (filter (\<lambda>l. l \<noteq> None) (map (entry_label raw_of b64) xs))"

lemma signers_simps [simp]:
  "signers raw_of b64 [] = []"
  "signers raw_of b64 (x # xs) = (case entry_label raw_of b64 x of None \<Rightarrow> [] | Some l \<Rightarrow> [l]) @ signers raw_of b64 xs"
  "signers raw_of b64 (xs @ ys) = signers raw_of b64 xs @ signers raw_of b64 ys"
  by (auto simp: signers_def split: option.split)

lemma others_signers:
  "signers raw_of b64 (filter (not_by raw_of b64 key) xs) = filter (\<lambda>l. l \<noteq> key) (signers raw_of b64 xs)"
  by (induction xs) (auto simp: not_by_def entry_label_def split: option.split)

lemma message_sigs: "snapshotMessage (s\<lparr>os_sigs := xs\<rparr>) = snapshotMessage s"
proof -
  have f: "v1_fields (s\<lparr>os_sigs := xs\<rparr>) = v1_fields s" "v2_fields (s\<lparr>os_sigs := xs\<rparr>) = v2_fields s"
      "v3_fields (s\<lparr>os_sigs := xs\<rparr>) = v3_fields s"
    by (simp_all add: v1_fields_def v2_fields_def v3_fields_def)
  have g: "os_version (s\<lparr>os_sigs := xs\<rparr>) = os_version s" "os_shaRoot (s\<lparr>os_sigs := xs\<rparr>) = os_shaRoot s"
      "os_order (s\<lparr>os_sigs := xs\<rparr>) = os_order s" "os_chainlocked (s\<lparr>os_sigs := xs\<rparr>) = os_chainlocked s"
    by simp_all
  show ?thesis
    unfolding snapshotMessage_def f g by (rule refl)
qed

subsection \<open>Properties\<close>

text \<open>C10: signed bytes name one snapshot. If two snapshots, of whatever versions and with whatever values in their
  fields, frame to the same message, then they agree on the version, the height, the depth, the timestamp, and (where the
  version signs them) the SHA-256 root, the leaf order and the ChainLock claim, which is the boolean true in every v3
  message; and on the text of the root and of the block hash, so these are equal where both are strings. So a signature
  cannot be carried from one snapshot, or from one version, to another, and the ChainLock claim cannot be added to one.\<close>

theorem signed_bytes_name_one_snapshot:
  assumes "snapshotMessage s = Inr m" "snapshotMessage t = Inr m"
  shows "authenticates s = authenticates t \<and>
    (snapshotVersion (os_version s) = Inr 3 \<longrightarrow> os_chainlocked s = V_bool True \<and> os_chainlocked t = V_bool True) \<and>
    (is_string (os_root s) \<and> is_string (os_root t) \<longrightarrow> os_root s = os_root t) \<and>
    (is_string (os_blockHash s) \<and> is_string (os_blockHash t) \<longrightarrow> os_blockHash s = os_blockHash t)"
proof -
  obtain v w where v: "snapshotVersion (os_version s) = Inr v" and w: "snapshotVersion (os_version t) = Inr w"
    using assms by (auto simp: snapshotMessage_def split: sum.splits)
  note typed = message_typed [OF assms(1) v] message_typed [OF assms(2) w]
  have same: "authenticates s = authenticates t"
    by (rule same_fields [OF message_split [OF assms(1)] message_split [OF assms(2)] v w typed])
  then have "v = w" "jv_String (os_root s) = jv_String (os_root t)"
      "jv_String (or_else (os_blockHash s) (V_string [])) = jv_String (or_else (os_blockHash t) (V_string []))"
    using v w by (simp_all add: authenticates_def Let_def)
  then show ?thesis
    using same v typed by (auto simp: typed_fields_def is_string_iff or_else_def nullish_def)
qed

definition demo_signed :: "jvalue \<Rightarrow> jvalue \<Rightarrow> oracle_snapshot" where
  "demo_signed version root =
     \<lparr>os_version = version, os_height = V_int 7, os_blockHash = V_string ''bb'', os_depth = V_int 2, os_root = root,
      os_shaRoot = V_string ''aa'', os_order = V_undefined, os_chainlocked = V_undefined, os_ts = V_int 9,
      os_leaves = Some [], os_sigs = None\<rparr>"

lemma demo_signed_message:
  "snapshotMessage (demo_signed (V_int 2) (V_string ''12'')) =
     Inr (js_join [CHR 0x0A] [DOMAIN_V2, ''2'', dec_of_int 7, ''bb'', dec_of_int 2, ''12'', ''aa'', dec_of_int 9])"
  by (simp add: snapshotMessage_def demo_signed_def snapshotVersion_def nullish_def is_string_def join_fields_def v2_fields_def
      frameInt_def frameSafe_def safe_int_def or_else_def)

theorem signed_bytes_name_one_snapshot_witness:
  "snapshotMessage (demo_signed (V_int 2) (V_int 12)) = snapshotMessage (demo_signed (V_int 2) (V_string ''12'')) \<and>
   authenticates (demo_signed (V_int 2) (V_int 12)) = authenticates (demo_signed (V_int 2) (V_string ''12'')) \<and>
   snapshotMessage (demo_signed (V_int 2) (V_string ''13'')) \<noteq> snapshotMessage (demo_signed (V_int 2) (V_string ''12''))"
proof -
  have "jv_String (V_int 12) = jv_String (V_string ''12'')"
    unfolding dec_of_int_def by code_simp
  then have m: "snapshotMessage (demo_signed (V_int 2) (V_int 12)) = snapshotMessage (demo_signed (V_int 2) (V_string ''12''))"
    by (simp add: snapshotMessage_def demo_signed_def snapshotVersion_def nullish_def v2_fields_def frameSafe_def)
  have "snapshotMessage (demo_signed (V_int 2) (V_string ''13'')) \<noteq> snapshotMessage (demo_signed (V_int 2) (V_string ''12''))"
  proof
    assume same: "snapshotMessage (demo_signed (V_int 2) (V_string ''13'')) = snapshotMessage (demo_signed (V_int 2) (V_string ''12''))"
    show False
      using signed_bytes_name_one_snapshot [OF trans [OF same demo_signed_message] demo_signed_message]
      by (simp add: demo_signed_def is_string_def)
  qed
  then show ?thesis
    using m signed_bytes_name_one_snapshot [OF trans [OF m demo_signed_message] demo_signed_message] by blast
qed

text \<open>Signing again replaces. Whatever array a snapshot carries, the array \<open>addSignature\<close> returns holds the
  signer's key exactly once, at the end, with a signature over the snapshot's message, and keeps every other key's
  entry: the signers are the old ones without this key, then this key. So an array with one entry for each key, which is the only kind the
  gateway accepts, stays one, in whatever base64 spelling the old entry wrote the key. Assumed of the encoder: it decodes back, and a public key has 32 bytes.\<close>

lemma signing_again_replaces:
  assumes "addSignature sign pub raw_of b64 s k = Inr xs" "raw_of (js_trim (b64 (pub k))) = pub k" "length (pub k) = 32"
  shows "signers raw_of b64 xs = filter (\<lambda>l. l \<noteq> b64 (pub k)) (signers raw_of b64 (case os_sigs s of None \<Rightarrow> [] | Some ys \<Rightarrow> ys)) @ [b64 (pub k)] \<and>
    (\<exists>m. snapshotMessage s = Inr m \<and> last xs = Some \<lparr>se_key = V_string (b64 (pub k)), se_sig = V_string (sign k m)\<rparr>)"
proof -
  have l: "entry_label raw_of b64 (Some \<lparr>se_key = V_string (b64 (pub k)), se_sig = x\<rparr>) = Some (b64 (pub k))" for x
    using assms(2,3) by (simp add: entry_label_def is_string_def label_id_def publicKeyFromRaw_def Let_def)
  obtain m where m: "snapshotMessage s = Inr m"
    using assms(1) by (auto simp: addSignature_def Let_def split: sum.splits)
  then show ?thesis
    using assms(1) l by (auto simp: addSignature_def Let_def rawPublicB64_def others_signers)
qed

theorem signing_again_replaces_witness:
  "\<exists>xs. addSignature (\<lambda>k m. m) (\<lambda>k. replicate 32 k) id id
      ((demo_signed (V_int 2) (V_string ''12''))\<lparr>os_sigs := Some [None, Some \<lparr>se_key = V_string (CHR '' '' # replicate 32 (CHR ''a'')), se_sig = V_null\<rparr>]\<rparr>)
      (CHR ''a'') = Inr xs \<and> signers id id xs = [replicate 32 (CHR ''a'')]"
proof -
  let ?k = "replicate 32 (CHR ''a'')" and ?e = "\<lparr>se_key = V_string (CHR '' '' # replicate 32 (CHR ''a'')), se_sig = V_null\<rparr>"
  let ?s = "(demo_signed (V_int 2) (V_string ''12''))\<lparr>os_sigs := Some [None, Some ?e]\<rparr>"
  have t: "js_trim ?k = ?k" "js_trim (CHR '' '' # ?k) = ?k"
    by code_simp+
  have "\<exists>m. snapshotMessage ?s = Inr m"
    using demo_signed_message by (simp add: message_sigs)
  then obtain xs where xs: "addSignature (\<lambda>k m. m) (\<lambda>k. replicate 32 k) id id ?s (CHR ''a'') = Inr xs"
    by (auto simp: addSignature_def Let_def)
  have l: "entry_label id id None = None" "entry_label id id (Some ?e) = Some ?k"
    using t(2) by (simp_all add: entry_label_def is_string_def label_id_def publicKeyFromRaw_def Let_def)
  have "signers id id xs = [?k]"
    using signing_again_replaces [OF xs] t(1) l by simp
  then show ?thesis
    using xs by blast
qed

end
