(* ===== verification/Gateway_Roots.thy ===== *)
theory Gateway_Roots
  imports Oracle_Sig Root_Windows Merkle_Roots Sha_Roots
begin

section \<open>How the gateway takes in roots (core/gateway.js, refreshRoots and its checks)\<close>

text \<open>
  A refresh reads a snapshot from the oracle (or builds one from its own node), validates its shape, checks the signature
  quorum, recomputes both roots, and offers the record to the window. The read is an input; Poseidon, SHA-256, Ed25519 and
  base64 are arguments. A timestamp that is text is read as a number when it is decimal digits. Expired challenges are not swept here: \<open>pinnedRoots\<close> does it on the side, and no later answer can tell.
\<close>

record oracle_config =
  oc_fromNode :: bool
  oc_depth :: nat
  oc_pubkeys :: "string list"  \<comment> \<open>each trusted key by its canonical base64, with the key itself behind \<open>key_of\<close>\<close>
  oc_quorum :: int
  oc_maxAge :: int
  oc_skew :: int
  oc_requireSha :: bool

definition MAX_SNAPSHOT_SIGS :: nat where
  "MAX_SNAPSHOT_SIGS = 64"

definition DUAL_ROOT_VERSIONS :: "nat list" where
  "DUAL_ROOT_VERSIONS = [2, 3]"

definition windowOrderKey :: "nat \<Rightarrow> jvalue \<Rightarrow> string option" where
  "windowOrderKey version order = (if version = 3 then Some (jv_String order) else None)"

subsection \<open>The schema\<close>

definition hex64 :: "jvalue \<Rightarrow> bool" where
  "hex64 v = (case v of V_string s \<Rightarrow> length s = 64 \<and> list_all (\<lambda>c. is_digit c \<or> c \<in> set ''abcdef'') s | _ \<Rightarrow> False)"

definition canonical_jvalue :: "jvalue \<Rightarrow> bool" where
  "canonical_jvalue v = (case v of V_string s \<Rightarrow> isCanonicalField s | _ \<Rightarrow> False)"

text \<open>\<open>Number(v)\<close>, a fraction by its floor; the exact comparisons with it are below.\<close>

fun jv_Number :: "jvalue \<Rightarrow> jsnum" where
  "jv_Number V_undefined = NaN"
| "jv_Number V_null = Num 0"
| "jv_Number (V_bool b) = Num (if b then 1 else 0)"
| "jv_Number (V_int i) = Num i"
| "jv_Number (V_real i s) = Num i"
| "jv_Number (V_string s) = js_Number s"
| "jv_Number (V_other s) = NaN"

text \<open>\<open>ts > bound\<close> for an integer bound: a number strictly above its floor is past it as soon as the floor reaches it.\<close>

definition ts_above :: "jvalue \<Rightarrow> int \<Rightarrow> bool" where
  "ts_above v bound = (case v of V_real i s \<Rightarrow> bound \<le> i | _ \<Rightarrow> Num bound < jv_Number v)"

datatype snapshot_error =
    Not_an_object | Height_invalid | Depth_differs | Root_not_canonical | Leaves_missing | Leaves_exceed | Leaf_not_canonical
  | Sig_error sig_error | Sha_root_malformed | Block_hash_malformed | V2_without_sha_root | V1_with_sha_root
  | Order_not_allowed nat | Chainlock_not_allowed nat | V3_without_sha_root | V3_without_order | V3_unknown_order
  | V3_not_chainlocked | V3_without_block_hash | Downgrade_refused nat | Ts_invalid | Too_old | Too_far_ahead

definition version_rules :: "nat \<Rightarrow> oracle_snapshot \<Rightarrow> snapshot_error option" where
  "version_rules version s =
     (if version = 2 \<and> nullish (os_shaRoot s) then Some V2_without_sha_root
      else if version = 1 \<and> \<not> nullish (os_shaRoot s) then Some V1_with_sha_root
      else if version \<noteq> 3 \<and> \<not> nullish (os_order s) then Some (Order_not_allowed version)
      else if version \<noteq> 3 \<and> \<not> nullish (os_chainlocked s) then Some (Chainlock_not_allowed version)
      else if version = 3 \<and> nullish (os_shaRoot s) then Some V3_without_sha_root
      else if version = 3 \<and> (\<not> is_string (os_order s) \<or> os_order s = V_string []) then Some V3_without_order
      else if version = 3 \<and> os_order s \<noteq> V_string ''proRegTxHash'' then Some V3_unknown_order
      else if version = 3 \<and> os_chainlocked s \<noteq> V_bool True then Some V3_not_chainlocked
      else if version = 3 \<and> \<not> hex64 (os_blockHash s) then Some V3_without_block_hash
      else None)"

definition ts_rules :: "oracle_config \<Rightarrow> int \<Rightarrow> jvalue \<Rightarrow> snapshot_error option" where
  "ts_rules oc now ts =
     (if \<not> oc_maxAge oc > 0 then None
      else if \<not> js_isFinite (jv_Number ts) then Some Ts_invalid
      else if jv_Number ts < Num (now - oc_maxAge oc) then Some Too_old
      else if ts_above ts (now + oc_skew oc) then Some Too_far_ahead
      else None)"

definition validateSnapshot :: "oracle_config \<Rightarrow> int \<Rightarrow> oracle_snapshot option \<Rightarrow> bool \<Rightarrow> snapshot_error option" where
  "validateSnapshot oc now obj requiresSha =
     (case obj of
        None \<Rightarrow> Some Not_an_object
      | Some s \<Rightarrow>
          if \<not> (case os_height s of V_int h \<Rightarrow> 0 \<le> h | _ \<Rightarrow> False) then Some Height_invalid
          else if or_else (os_depth s) (V_int (int (oc_depth oc))) \<noteq> V_int (int (oc_depth oc)) then Some Depth_differs
          else if \<not> canonical_jvalue (os_root s) then Some Root_not_canonical
          else case os_leaves s of
            None \<Rightarrow> Some Leaves_missing
          | Some leaves \<Rightarrow>
              if length leaves > 2 ^ oc_depth oc then Some Leaves_exceed
              else if \<not> list_all canonical_jvalue leaves then Some Leaf_not_canonical
              else case snapshotVersion (os_version s) of
                Inl e \<Rightarrow> Some (Sig_error e)
              | Inr version \<Rightarrow>
                  if \<not> nullish (os_shaRoot s) \<and> \<not> hex64 (os_shaRoot s) then Some Sha_root_malformed
                  else if \<not> nullish (os_blockHash s) \<and> \<not> hex64 (os_blockHash s) then Some Block_hash_malformed
                  else case version_rules version s of
                    Some e \<Rightarrow> Some e
                  | None \<Rightarrow>
                      if requiresSha \<and> (version \<notin> set DUAL_ROOT_VERSIONS \<or> nullish (os_shaRoot s)) then Some (Downgrade_refused version)
                      else ts_rules oc now (os_ts s))"

subsection \<open>The signature quorum\<close>

text \<open>\<open>byKey\<close>: at most one signature for each key that decodes; a second one refuses the snapshot (\<open>None\<close>).\<close>

fun index_sigs :: "(string \<Rightarrow> 'b list) \<Rightarrow> ('b list \<Rightarrow> string) \<Rightarrow> sig_entry option list \<Rightarrow> (string, string) jsmap
    \<Rightarrow> (string, string) jsmap option" where
  "index_sigs raw_of b64 [] m = Some m"
| "index_sigs raw_of b64 (x # xs) m =
     (case x of
        None \<Rightarrow> index_sigs raw_of b64 xs m
      | Some e \<Rightarrow>
          if \<not> is_string (se_key e) \<or> \<not> is_string (se_sig e) then index_sigs raw_of b64 xs m
          else (case label_id raw_of b64 (se_key e) of
                  None \<Rightarrow> index_sigs raw_of b64 xs m
                | Some l \<Rightarrow>
                    if jm_has m l then None else index_sigs raw_of b64 xs (jm_set l (jv_String (se_sig e)) m)))"

text \<open>\<open>ed25519 key message signature\<close> is \<open>verifySnapshotSig\<close> on the key object the trusted base64 text names.\<close>

definition vouches :: "(string \<Rightarrow> string \<Rightarrow> string \<Rightarrow> bool) \<Rightarrow> string \<Rightarrow> (string, string) jsmap \<Rightarrow> string \<Rightarrow> bool" where
  "vouches ed25519 m sigs key = (case jm_get sigs key of None \<Rightarrow> False | Some sig \<Rightarrow> ed25519 key m sig)"

definition oracleSignaturesOk :: "(string \<Rightarrow> 'b list) \<Rightarrow> ('b list \<Rightarrow> string) \<Rightarrow> (string \<Rightarrow> string \<Rightarrow> string \<Rightarrow> bool) \<Rightarrow> oracle_config
    \<Rightarrow> oracle_snapshot \<Rightarrow> sig_error + bool" where
  "oracleSignaturesOk raw_of b64 ed25519 oc s =
     (if oc_pubkeys oc = [] then Inr True
      else if \<not> hex64 (os_blockHash s) then Inr False
      else let sigs = (case os_sigs s of None \<Rightarrow> [] | Some xs \<Rightarrow> xs) in
        if length sigs > MAX_SNAPSHOT_SIGS then Inr False
        else (case index_sigs raw_of b64 sigs [] of
                None \<Rightarrow> Inr False
              | Some byKey \<Rightarrow>
                  (case snapshotMessage s of
                     Inl e \<Rightarrow> Inl e
                   | Inr m \<Rightarrow> Inr (oc_quorum oc \<le> int (length (filter (vouches ed25519 m byKey) (oc_pubkeys oc)))))))"

subsection \<open>One refresh\<close>

definition text_of :: "jvalue \<Rightarrow> string option" where
  "text_of v = (if nullish v then None else Some (jv_String v))"

definition int_of :: "jvalue \<Rightarrow> int" where
  "int_of v = (case v of V_int i \<Rightarrow> i | _ \<Rightarrow> 0)"

definition leaf_texts :: "oracle_snapshot \<Rightarrow> string list" where
  "leaf_texts s = map jv_String (case os_leaves s of None \<Rightarrow> [] | Some xs \<Rightarrow> xs)"

text \<open>The object as the window's functions read it, once it is validated.\<close>

definition as_raw :: "oracle_snapshot \<Rightarrow> raw_snapshot" where
  "as_raw s =
     \<lparr>raw_version = (if nullish (os_version s) then None else Some (int_of (os_version s))),
      raw_height = int_of (os_height s), raw_blockHash = text_of (os_blockHash s),
      raw_depth = (if nullish (os_depth s) then None else Some (int_of (os_depth s))),
      raw_ts = jv_Number (os_ts s), raw_root = jv_String (os_root s), raw_shaRoot = text_of (os_shaRoot s),
      raw_leaves = leaf_texts s, raw_extra = []\<rparr>"

definition adopted_record :: "(string \<Rightarrow> string) \<Rightarrow> oracle_config \<Rightarrow> int \<Rightarrow> nat \<Rightarrow> oracle_snapshot \<Rightarrow> window_rec" where
  "adopted_record sha256hex oc now version s =
     \<lparr>wr_height = int_of (os_height s), wr_root = jv_String (os_root s), wr_shaRoot = text_of (os_shaRoot s),
      wr_ts = jv_Number (or_else (os_ts s) (V_int now)), wr_order = windowOrderKey version (os_order s),
      wr_blockHash = text_of (os_blockHash s), wr_setCommitment = Some (leafSetCommitment sha256hex (leaf_texts s)),
      wr_snapshot = Some (normalizeSnapshot (as_raw s) (int (oc_depth oc)))\<rparr>"

datatype refresh_outcome =
    Refresh_failed | Quorum_not_met | Root_mismatch | Sha_root_mismatch | Height_regressed | Root_changed_at_height | Adopted

text \<open>The crypto the refresh calls, as one argument.\<close>

record ('n, 'b) refresh_crypto =
  rc_poseidon :: "'n poseidon"
  rc_sha :: "bytes \<Rightarrow> bytes"
  rc_sha256hex :: "string \<Rightarrow> string"
  rc_raw_of :: "string \<Rightarrow> 'b list"
  rc_b64 :: "'b list \<Rightarrow> string"
  rc_ed25519 :: "string \<Rightarrow> string \<Rightarrow> string \<Rightarrow> bool"

definition signatures_ok :: "('n, 'b) refresh_crypto \<Rightarrow> oracle_config \<Rightarrow> oracle_snapshot \<Rightarrow> sig_error + bool" where
  "signatures_ok C oc s =
     (if oc_fromNode oc then Inr True else oracleSignaturesOk (rc_raw_of C) (rc_b64 C) (rc_ed25519 C) oc s)"

text \<open>From the validated snapshot to the window. The roots are recomputed only under a met quorum.\<close>

definition offer :: "('n, 'b) refresh_crypto \<Rightarrow> oracle_config \<Rightarrow> int \<Rightarrow> string list \<Rightarrow> oracle_snapshot \<Rightarrow> root_windows
    \<Rightarrow> root_windows \<times> refresh_outcome" where
  "offer C oc now pins s w =
     (case signatures_ok C oc s of
        Inl _ \<Rightarrow> (w, Refresh_failed)
      | Inr False \<Rightarrow> (w, Quorum_not_met)
      | Inr True \<Rightarrow>
          (case rootFromLeaves (rc_poseidon C) (oc_depth oc) (leaf_texts s) of
             Inl _ \<Rightarrow> (w, Refresh_failed)
           | Inr recomputed \<Rightarrow>
               (case (if nullish (os_shaRoot s) then Inr None
                      else map_sum id Some (shaRootFromLeaves (rc_sha C) (oc_depth oc) (leaf_texts s))) of
                  Inl _ \<Rightarrow> (w, Refresh_failed)
                | Inr shaRecomputed \<Rightarrow>
                    if recomputed \<noteq> jv_String (os_root s) then (w, Root_mismatch)
                    else if shaRecomputed \<noteq> None \<and> shaRecomputed \<noteq> Some (jv_String (os_shaRoot s)) then (w, Sha_root_mismatch)
                    else if (case RootWindows_maxHeight w of None \<Rightarrow> False | Some h \<Rightarrow> int_of (os_height s) < h)
                    then (w, Height_regressed)
                    else if \<not> RootWindows_mayCoexist w (int_of (os_height s)) (text_of (os_blockHash s))
                        (Some (leafSetCommitment (rc_sha256hex C) (leaf_texts s)))
                    then (w, Root_changed_at_height)
                    else (case snapshotVersion (os_version s) of
                            Inl _ \<Rightarrow> (w, Refresh_failed)
                          | Inr version \<Rightarrow>
                              (case RootWindows_adopt (Some pins) (adopted_record (rc_sha256hex C) oc now version s) w of
                                 Inl _ \<Rightarrow> (w, Refresh_failed)
                               | Inr w' \<Rightarrow> (w', Adopted))))))"

text \<open>What \<open>loadOracle\<close> or \<open>buildDiffSnapshot\<close> answered: a parsed value or a failure.\<close>

datatype load_answer = Loaded "oracle_snapshot option" | Load_failed

definition refresh_read :: "('n, 'b) refresh_crypto \<Rightarrow> oracle_config \<Rightarrow> int \<Rightarrow> bool option \<Rightarrow> string list \<Rightarrow> load_answer \<Rightarrow> root_windows
    \<Rightarrow> root_windows \<times> refresh_outcome" where
  "refresh_read C oc now hasZkvm pins answer w =
     (case answer of
        Load_failed \<Rightarrow> (w, Refresh_failed)
      | Loaded obj \<Rightarrow>
          (case (if oc_requireSha oc then Some True else hasZkvm) of
             None \<Rightarrow> (w, Refresh_failed)
           | Some requiresSha \<Rightarrow>
               (case (validateSnapshot oc now obj requiresSha, obj) of
                  (None, Some s) \<Rightarrow> offer C oc now pins s w
                | _ \<Rightarrow> (w, Refresh_failed))))"

definition drop_stale :: "oracle_config \<Rightarrow> int \<Rightarrow> root_windows \<Rightarrow> root_windows" where
  "drop_stale oc now w = (if oc_maxAge oc \<le> 0 then w else RootWindows_dropOlderThan (Num (now - oc_maxAge oc)) w)"

subsection \<open>Refreshes, requests and teardown over time\<close>

record refresh_state =
  rf_window :: root_windows
  rf_inFlight :: bool
  rf_closed :: bool

definition refresh_begin :: "refresh_state \<Rightarrow> refresh_state" where
  "refresh_begin r = (if rf_inFlight r \<or> rf_closed r then r else r\<lparr>rf_inFlight := True\<rparr>)"

definition refresh_finish :: "('n, 'b) refresh_crypto \<Rightarrow> oracle_config \<Rightarrow> int \<Rightarrow> bool option \<Rightarrow> string list \<Rightarrow> load_answer \<Rightarrow> refresh_state
    \<Rightarrow> refresh_state" where
  "refresh_finish C oc now hasZkvm pins answer r =
     (if rf_closed r then r\<lparr>rf_inFlight := False\<rparr>
      else r\<lparr>rf_window := drop_stale oc now (fst (refresh_read C oc now hasZkvm pins answer (rf_window r))), rf_inFlight := False\<rparr>)"

inductive refresh_reach :: "('n, 'b) refresh_crypto \<Rightarrow> oracle_config \<Rightarrow> refresh_state \<Rightarrow> bool" for C oc where
  rr_boot: "refresh_reach C oc \<lparr>rf_window = RootWindows_new n m, rf_inFlight = False, rf_closed = False\<rparr>"
| rr_begin: "refresh_reach C oc r \<Longrightarrow> refresh_reach C oc (refresh_begin r)"
| rr_finish: "refresh_reach C oc r \<Longrightarrow> rf_inFlight r \<Longrightarrow> refresh_reach C oc (refresh_finish C oc now hasZkvm pins answer r)"
| rr_request: "refresh_reach C oc r \<Longrightarrow> refresh_reach C oc (r\<lparr>rf_window := drop_stale oc now (rf_window r)\<rparr>)"
| rr_close: "refresh_reach C oc r \<Longrightarrow> refresh_reach C oc (r\<lparr>rf_closed := True\<rparr>)"

subsection \<open>What a met quorum means\<close>

lemma index_sigs_get:
  "index_sigs raw_of b64 xs m = Some m' \<Longrightarrow> jm_get m' l = Some sig \<Longrightarrow>
   jm_get m l = Some sig \<or> (\<exists>e. Some e \<in> set xs \<and> label_id raw_of b64 (se_key e) = Some l \<and> sig = jv_String (se_sig e))"
proof (induction raw_of b64 xs m rule: index_sigs.induct)
  case (2 raw_of b64 x xs m)
  show ?case
  proof (cases x)
    case None
    then show ?thesis
      using 2 by auto
  next
    case (Some e)
    show ?thesis
    proof (cases "is_string (se_key e) \<and> is_string (se_sig e) \<and> label_id raw_of b64 (se_key e) \<noteq> None")
      case True
      then obtain k where k: "label_id raw_of b64 (se_key e) = Some k"
        by blast
      then have "\<not> jm_has m k" "index_sigs raw_of b64 xs (jm_set k (jv_String (se_sig e)) m) = Some m'"
        using 2(5) Some True by (auto split: if_splits)
      then show ?thesis
        using 2(4) [OF Some _ k] 2(6) Some True k by (fastforce split: if_splits)
    next
      case False
      then show ?thesis
        using 2 Some by (auto split: option.splits if_splits)
    qed
  qed
qed simp

text \<open>A trusted key signed the snapshot: an entry of its array carries a signature that verifies over its message.\<close>

definition signed_by :: "('n, 'b) refresh_crypto \<Rightarrow> oracle_snapshot \<Rightarrow> string \<Rightarrow> bool" where
  "signed_by C s key \<longleftrightarrow> (\<exists>xs e m. os_sigs s = Some xs \<and> Some e \<in> set xs \<and> snapshotMessage s = Inr m \<and>
     label_id (rc_raw_of C) (rc_b64 C) (se_key e) = Some key \<and> rc_ed25519 C key m (jv_String (se_sig e)))"

definition vouched :: "('n, 'b) refresh_crypto \<Rightarrow> oracle_config \<Rightarrow> oracle_snapshot \<Rightarrow> bool" where
  "vouched C oc s \<longleftrightarrow> oc_fromNode oc \<or> oc_pubkeys oc = [] \<or> oc_quorum oc \<le> int (card {k \<in> set (oc_pubkeys oc). signed_by C s k})"

lemma signatures_vouch:
  assumes "signatures_ok C oc s = Inr True" "distinct (oc_pubkeys oc)"
  shows "vouched C oc s"
proof (cases "oc_fromNode oc \<or> oc_pubkeys oc = []")
  case False
  then obtain byKey m where b: "index_sigs (rc_raw_of C) (rc_b64 C) (case os_sigs s of None \<Rightarrow> [] | Some xs \<Rightarrow> xs) [] = Some byKey"
      "snapshotMessage s = Inr m"
      "oc_quorum oc \<le> int (length (filter (vouches (rc_ed25519 C) m byKey) (oc_pubkeys oc)))"
    using assms(1) by (auto simp: signatures_ok_def oracleSignaturesOk_def Let_def split: if_splits option.splits sum.splits)
  have "signed_by C s k" if "vouches (rc_ed25519 C) m byKey k" for k
    using that index_sigs_get [OF b(1), of k] b(2)
    by (cases "os_sigs s") (auto simp: vouches_def signed_by_def jm_get_def split: option.splits)
  then have sub: "set (filter (vouches (rc_ed25519 C) m byKey) (oc_pubkeys oc)) \<subseteq> {k \<in> set (oc_pubkeys oc). signed_by C s k}"
    by auto
  have "length (filter (vouches (rc_ed25519 C) m byKey) (oc_pubkeys oc)) = card (set (filter (vouches (rc_ed25519 C) m byKey) (oc_pubkeys oc)))"
    by (rule distinct_card [symmetric]) (simp add: assms(2))
  also have "\<dots> \<le> card {k \<in> set (oc_pubkeys oc). signed_by C s k}"
    by (rule card_mono [OF _ sub]) simp
  finally have "length (filter (vouches (rc_ed25519 C) m byKey) (oc_pubkeys oc)) \<le> card {k \<in> set (oc_pubkeys oc). signed_by C s k}" .
  then show ?thesis
    using b(3) by (simp add: vouched_def)
qed (auto simp: vouched_def)

subsection \<open>What the window holds\<close>

definition backed :: "('n, 'b) refresh_crypto \<Rightarrow> oracle_config \<Rightarrow> window_rec \<Rightarrow> bool" where
  "backed C oc r \<longleftrightarrow> (\<exists>s. vouched C oc s \<and> wr_height r = int_of (os_height s) \<and> wr_blockHash r = text_of (os_blockHash s) \<and>
     rootFromLeaves (rc_poseidon C) (oc_depth oc) (leaf_texts s) = Inr (wr_root r) \<and> wr_root r = jv_String (os_root s) \<and>
     (\<forall>h. wr_shaRoot r = Some h \<longrightarrow> shaRootFromLeaves (rc_sha C) (oc_depth oc) (leaf_texts s) = Inr h) \<and>
     wr_setCommitment r = Some (leafSetCommitment (rc_sha256hex C) (leaf_texts s)) \<and> list_all isCanonicalField (leaf_texts s))"

lemma offer_cases:
  assumes "offer C oc now pins s w = (w', out)"
  shows "out \<noteq> Adopted \<and> w' = w \<or>
    out = Adopted \<and> signatures_ok C oc s = Inr True \<and>
    rootFromLeaves (rc_poseidon C) (oc_depth oc) (leaf_texts s) = Inr (jv_String (os_root s)) \<and>
    (\<not> nullish (os_shaRoot s) \<longrightarrow> shaRootFromLeaves (rc_sha C) (oc_depth oc) (leaf_texts s) = Inr (jv_String (os_shaRoot s))) \<and>
    (\<forall>h. RootWindows_maxHeight w = Some h \<longrightarrow> h \<le> int_of (os_height s)) \<and>
    RootWindows_mayCoexist w (int_of (os_height s)) (text_of (os_blockHash s)) (Some (leafSetCommitment (rc_sha256hex C) (leaf_texts s))) \<and>
    (\<exists>version. snapshotVersion (os_version s) = Inr version \<and>
      RootWindows_adopt (Some pins) (adopted_record (rc_sha256hex C) oc now version s) w = Inr w')"
proof (cases "signatures_ok C oc s = Inr True \<and> (\<exists>root. rootFromLeaves (rc_poseidon C) (oc_depth oc) (leaf_texts s) = Inr root)")
  case True
  then obtain root where r: "signatures_ok C oc s = Inr True" "rootFromLeaves (rc_poseidon C) (oc_depth oc) (leaf_texts s) = Inr root"
    by blast
  show ?thesis
  proof (cases "nullish (os_shaRoot s)")
    case True
    then show ?thesis
      using assms r by (auto simp: offer_def split: if_splits option.splits sum.splits)
  next
    case False
    then show ?thesis
      using assms r by (auto simp: offer_def map_sum_def split: if_splits option.splits sum.splits)
  qed
next
  case False
  then show ?thesis
    using assms by (auto simp: offer_def split: sum.splits bool.splits)
qed

lemma valid_leaves: "validateSnapshot oc now (Some s) req = None \<Longrightarrow> list_all isCanonicalField (leaf_texts s)"
proof -
  assume "validateSnapshot oc now (Some s) req = None"
  then obtain xs where "os_leaves s = Some xs" "list_all canonical_jvalue xs"
    by (auto simp: validateSnapshot_def split: if_splits option.splits)
  moreover have "isCanonicalField (jv_String x)" if "canonical_jvalue x" for x
    using that by (cases x) (simp_all add: canonical_jvalue_def)
  ultimately show ?thesis
    by (auto simp: leaf_texts_def list_all_iff)
qed

lemma refresh_read_cases:
  assumes "refresh_read C oc now hasZkvm pins answer w = (w', out)"
  shows "out \<noteq> Adopted \<and> w' = w \<or>
    (\<exists>s. answer = Loaded (Some s) \<and> out = Adopted \<and> offer C oc now pins s w = (w', Adopted) \<and>
      (\<exists>req. (oc_requireSha oc \<or> hasZkvm = Some True \<longrightarrow> req) \<and> validateSnapshot oc now (Some s) req = None))"
proof (cases "\<exists>s req. answer = Loaded (Some s) \<and> (if oc_requireSha oc then Some True else hasZkvm) = Some req \<and>
    validateSnapshot oc now (Some s) req = None")
  case True
  then obtain s req where s: "answer = Loaded (Some s)" "(if oc_requireSha oc then Some True else hasZkvm) = Some req"
      "validateSnapshot oc now (Some s) req = None"
    by blast
  then have o: "offer C oc now pins s w = (w', out)"
    using assms by (simp add: refresh_read_def)
  have "oc_requireSha oc \<or> hasZkvm = Some True \<longrightarrow> req"
    using s(2) by (auto split: if_splits)
  then show ?thesis
    using offer_cases [OF o] o s by (cases "out = Adopted") auto
next
  case False
  have "(w', out) = (w, Refresh_failed)"
    using assms False
    by (cases answer; cases "if oc_requireSha oc then Some True else hasZkvm")
      (auto simp: refresh_read_def split: option.splits if_splits)
  then show ?thesis
    by simp
qed

lemma adopt_members:
  assumes "rw_inv w" "RootWindows_adopt pins r w = Inr w'" "x \<in> set (rw_snaps w')"
  shows "x = r \<or> x \<in> set (rw_snaps w)"
proof -
  have "distinct (map window_key (rw_snaps w))"
    using assms(1) by (simp add: rw_inv_def)
  then show ?thesis
    using by_height_subset [OF adopt_by_height [OF assms(1,2)]] set_place_record [of "rw_snaps w" r] assms(3) by auto
qed

lemma read_window:
  assumes "refresh_read C oc now hasZkvm pins answer w = (w', out)" "guarded_reach w" "distinct (oc_pubkeys oc)"
    and "\<forall>x \<in> set (rw_snaps w). backed C oc x"
  shows "guarded_reach w' \<and> (\<forall>x \<in> set (rw_snaps w'). backed C oc x)"
  using refresh_read_cases [OF assms(1)]
proof (elim disjE exE conjE)
  fix s req
  assume o: "offer C oc now pins s w = (w', Adopted)" and v: "validateSnapshot oc now (Some s) req = None"
  from offer_cases [OF o] obtain version where f: "signatures_ok C oc s = Inr True"
      "rootFromLeaves (rc_poseidon C) (oc_depth oc) (leaf_texts s) = Inr (jv_String (os_root s))"
      "\<not> nullish (os_shaRoot s) \<longrightarrow> shaRootFromLeaves (rc_sha C) (oc_depth oc) (leaf_texts s) = Inr (jv_String (os_shaRoot s))"
      "RootWindows_mayCoexist w (int_of (os_height s)) (text_of (os_blockHash s)) (Some (leafSetCommitment (rc_sha256hex C) (leaf_texts s)))"
      "RootWindows_adopt (Some pins) (adopted_record (rc_sha256hex C) oc now version s) w = Inr w'"
    by auto
  have "backed C oc (adopted_record (rc_sha256hex C) oc now version s)"
    using signatures_vouch [OF f(1) assms(3)] f(2,3) valid_leaves [OF v]
    unfolding backed_def by (intro exI [of _ s]) (auto simp: adopted_record_def text_of_def)
  moreover have "guarded_reach w'"
    by (rule gr_adopted [OF assms(2) _ f(5)]) (use f(4) in \<open>simp add: adopted_record_def\<close>)
  ultimately show ?thesis
    using adopt_members [OF guarded_reach_inv [OF assms(2)] f(5)] assms(4) by blast
qed (use assms in auto)

lemma drop_window:
  "guarded_reach w \<Longrightarrow> guarded_reach (drop_stale oc now w)"
  "set (rw_snaps (drop_stale oc now w)) \<subseteq> set (rw_snaps w)"
  by (auto simp: drop_stale_def RootWindows_dropOlderThan_def intro: gr_dropped [unfolded RootWindows_dropOlderThan_def])

lemma refresh_reach_window:
  assumes "refresh_reach C oc r" "distinct (oc_pubkeys oc)"
  shows "guarded_reach (rf_window r) \<and> (\<forall>x \<in> set (rw_snaps (rf_window r)). backed C oc x)"
  using assms
proof (induction rule: refresh_reach.induct)
  case (rr_boot n m)
  then show ?case
    using gr_start [of n m] by (simp add: RootWindows_new_def)
next
  case (rr_finish r now hasZkvm pins answer)
  obtain w out where w: "refresh_read C oc now hasZkvm pins answer (rf_window r) = (w, out)"
    by fastforce
  show ?case
    using read_window [OF w] rr_finish w drop_window [where w = w and oc = oc and now = now] by (auto simp: refresh_finish_def)
next
  case (rr_request r now)
  then show ?case
    using drop_window [where w = "rf_window r" and oc = oc and now = now] by auto
qed (simp_all add: refresh_begin_def)

subsection \<open>Properties\<close>

text \<open>C8: every root the gateway serves is vouched for. Whatever the oracle answers, however refreshes, requests and the
  teardown interleave, each record in the window came from a snapshot whose message a quorum of distinct trusted
  keys signed (or which the gateway built from its own node, or which an unsigned deployment accepts); its Poseidon root, and its SHA-256 root if
  it has one, are the roots of that snapshot's leaves, recomputed here, and the leaves are canonical field elements. Two records of
  one height name the same block and the same set of members.\<close>

theorem window_is_vouched_for:
  assumes "refresh_reach C oc r" "distinct (oc_pubkeys oc)" "x \<in> set (rw_snaps (rf_window r))" "y \<in> set (rw_snaps (rf_window r))"
  shows "backed C oc x \<and> (wr_height x = wr_height y \<longrightarrow> wr_blockHash x = wr_blockHash y \<and> wr_setCommitment x = wr_setCommitment y)"
  using refresh_reach_window [OF assms(1,2)] assms(3,4) one_block_per_height [of "rf_window r" x y] by blast

lemma adopted_current:
  assumes "rw_inv w" "RootWindows_adopt pins r w = Inr w'" "\<forall>h. RootWindows_maxHeight w = Some h \<longrightarrow> h \<le> wr_height r"
  shows "RootWindows_current w' = Some r"
proof -
  have d: "distinct (map window_key (rw_snaps w))"
    using assms(1) by (simp add: rw_inv_def)
  have "\<forall>s \<in> set (rw_snaps w). wr_height s \<le> wr_height r"
  proof
    fix s
    assume s: "s \<in> set (rw_snaps w)"
    then have "rw_snaps w \<noteq> []"
      by auto
    then have "Max (set (map wr_height (rw_snaps w))) \<le> wr_height r"
      using assms(3) by (simp add: RootWindows_maxHeight_def)
    moreover have "wr_height s \<le> Max (set (map wr_height (rw_snaps w)))"
      using s by (intro Max_ge) auto
    ultimately show "wr_height s \<le> wr_height r"
      by simp
  qed
  then have "last (place_record r (rw_snaps w)) = r"
    by (rule place_record_last [OF d])
  then show ?thesis
    using by_height_last [OF adopt_by_height [OF assms(1,2)] place_record_nonempty [OF d]]
    by (simp add: RootWindows_current_def last_opt_def)
qed

lemma offer_adopted:
  assumes "offer C oc now pins s w = (w', Adopted)"
  shows "\<exists>version. snapshotVersion (os_version s) = Inr version \<and>
       signatures_ok C oc s = Inr True \<and> (distinct (oc_pubkeys oc) \<longrightarrow> vouched C oc s) \<and>
       rootFromLeaves (rc_poseidon C) (oc_depth oc) (leaf_texts s) = Inr (jv_String (os_root s)) \<and>
       (\<not> nullish (os_shaRoot s) \<longrightarrow> shaRootFromLeaves (rc_sha C) (oc_depth oc) (leaf_texts s) = Inr (jv_String (os_shaRoot s))) \<and>
       (\<forall>h. RootWindows_maxHeight w = Some h \<longrightarrow> h \<le> int_of (os_height s)) \<and>
       RootWindows_mayCoexist w (int_of (os_height s)) (text_of (os_blockHash s))
         (Some (leafSetCommitment (rc_sha256hex C) (leaf_texts s))) \<and>
       RootWindows_adopt (Some pins) (adopted_record (rc_sha256hex C) oc now version s) w = Inr w' \<and>
       (rw_inv w \<longrightarrow> RootWindows_current w' = Some (adopted_record (rc_sha256hex C) oc now version s))"
proof -
  obtain version where v: "snapshotVersion (os_version s) = Inr version" "signatures_ok C oc s = Inr True"
      "\<forall>h. RootWindows_maxHeight w = Some h \<longrightarrow> h \<le> int_of (os_height s)"
      "RootWindows_adopt (Some pins) (adopted_record (rc_sha256hex C) oc now version s) w = Inr w'"
    using offer_cases [OF assms] by auto
  have "wr_height (adopted_record (rc_sha256hex C) oc now version s) = int_of (os_height s)"
    by (simp add: adopted_record_def)
  then have "rw_inv w \<longrightarrow> RootWindows_current w' = Some (adopted_record (rc_sha256hex C) oc now version s)"
    using adopted_current [OF _ v(4)] v(3) by simp
  then show ?thesis
    using v offer_cases [OF assms] signatures_vouch [OF v(2)] by (intro exI [of _ version]) simp
qed

text \<open>C33: what one refresh does. Anything but an adoption leaves the window as it was: a failed or malformed read, an unmet
  quorum, a root that does not recompute, a height below the window's, another block or set at a held height. An adoption
  happens only for a snapshot that passed the schema (with the SHA-256 root required where configured or where a registration of the season needs
  it) and met the quorum, whose Poseidon root, and SHA-256 root if it states one, are the roots of its own leaves, whose height
  is at least every height held, and which may stand beside the records of its height; and its record is then the window's
  current one. Whatever was read, the refresh ends by dropping the records older than the configured age; a gateway
  that was closed meanwhile takes in nothing.\<close>

theorem refresh_adopts_or_keeps:
  assumes "refresh_read C oc now hasZkvm pins answer (rf_window r) = (w', out)"
  shows "(out \<noteq> Adopted \<longrightarrow> w' = rf_window r) \<and>
    (out = Adopted \<longrightarrow> (\<exists>s req version. answer = Loaded (Some s) \<and>
       (oc_requireSha oc \<or> hasZkvm = Some True \<longrightarrow> req) \<and> validateSnapshot oc now (Some s) req = None \<and>
       snapshotVersion (os_version s) = Inr version \<and>
       signatures_ok C oc s = Inr True \<and> (distinct (oc_pubkeys oc) \<longrightarrow> vouched C oc s) \<and>
       rootFromLeaves (rc_poseidon C) (oc_depth oc) (leaf_texts s) = Inr (jv_String (os_root s)) \<and>
       (\<not> nullish (os_shaRoot s) \<longrightarrow> shaRootFromLeaves (rc_sha C) (oc_depth oc) (leaf_texts s) = Inr (jv_String (os_shaRoot s))) \<and>
       (\<forall>h. RootWindows_maxHeight (rf_window r) = Some h \<longrightarrow> h \<le> int_of (os_height s)) \<and>
       RootWindows_mayCoexist (rf_window r) (int_of (os_height s)) (text_of (os_blockHash s))
         (Some (leafSetCommitment (rc_sha256hex C) (leaf_texts s))) \<and>
       RootWindows_adopt (Some pins) (adopted_record (rc_sha256hex C) oc now version s) (rf_window r) = Inr w' \<and>
       (rw_inv (rf_window r) \<longrightarrow> RootWindows_current w' = Some (adopted_record (rc_sha256hex C) oc now version s)))) \<and>
    refresh_finish C oc now hasZkvm pins answer r =
      (if rf_closed r then r\<lparr>rf_inFlight := False\<rparr>
       else r\<lparr>rf_window := w'\<lparr>rw_snaps := filter (\<lambda>x. oc_maxAge oc \<le> 0 \<or> Num (now - oc_maxAge oc) \<le> wr_ts x) (rw_snaps w')\<rparr>,
              rf_inFlight := False\<rparr>)"
proof -
  have finish: "refresh_finish C oc now hasZkvm pins answer r =
      (if rf_closed r then r\<lparr>rf_inFlight := False\<rparr>
       else r\<lparr>rf_window := w'\<lparr>rw_snaps := filter (\<lambda>x. oc_maxAge oc \<le> 0 \<or> Num (now - oc_maxAge oc) \<le> wr_ts x) (rw_snaps w')\<rparr>,
              rf_inFlight := False\<rparr>)"
    using assms by (simp add: refresh_finish_def drop_stale_def RootWindows_dropOlderThan_def)
  from refresh_read_cases [OF assms] show ?thesis
  proof (elim disjE exE conjE)
    fix s req
    assume a: "answer = Loaded (Some s)" "out = Adopted" "offer C oc now pins s (rf_window r) = (w', Adopted)"
      "oc_requireSha oc \<or> hasZkvm = Some True \<longrightarrow> req" "validateSnapshot oc now (Some s) req = None"
    then show ?thesis
      using finish offer_adopted [OF a(3)] by blast
  qed (use finish in simp)
qed

definition demo_key :: string where
  "demo_key = replicate 32 (CHR ''a'')"

definition demo_crypto :: "(unit, char) refresh_crypto" where
  "demo_crypto = \<lparr>rc_poseidon = \<lparr>phash = (\<lambda>a b. ()), pzero = (), pelem = (\<lambda>x. Some ()), pstr = (\<lambda>x. ''0'')\<rparr>,
     rc_sha = id, rc_sha256hex = id, rc_raw_of = id, rc_b64 = id, rc_ed25519 = (\<lambda>k m s. s = ''sig'')\<rparr>"

definition demo_oracle :: oracle_config where
  "demo_oracle = \<lparr>oc_fromNode = False, oc_depth = 2, oc_pubkeys = [demo_key], oc_quorum = 1, oc_maxAge = 0, oc_skew = 0,
     oc_requireSha = False\<rparr>"

definition demo_read :: "string \<Rightarrow> oracle_snapshot" where
  "demo_read sig = \<lparr>os_version = V_undefined, os_height = V_int 7, os_blockHash = V_string (replicate 64 (CHR ''b'')), os_depth = V_int 2,
     os_root = V_string ''0'', os_shaRoot = V_undefined, os_order = V_undefined, os_chainlocked = V_undefined, os_ts = V_int 9,
     os_leaves = Some [], os_sigs = Some [Some \<lparr>se_key = V_string demo_key, se_sig = V_string sig\<rparr>]\<rparr>"

lemma demo_read_valid: "validateSnapshot demo_oracle 9 (Some (demo_read sig)) False = None"
proof -
  have "dec_of_nat 0 = ''0''"
    by code_simp
  then have "isCanonicalField ''0''"
    using isCanonicalField_dec_of_nat [of 0] by (simp add: FIELD_PRIME_def)
  moreover have "hex64 (V_string (replicate 64 (CHR ''b'')))"
    by (simp add: hex64_def list_all_iff)
  ultimately show ?thesis
    by (simp add: validateSnapshot_def demo_read_def demo_oracle_def or_else_def nullish_def canonical_jvalue_def snapshotVersion_def
        version_rules_def ts_rules_def)
qed

lemma demo_read_signed: "signatures_ok demo_crypto demo_oracle (demo_read sig) = Inr (sig = ''sig'')"
proof -
  have h: "hex64 (V_string (replicate 64 (CHR ''b'')))"
    by (simp add: hex64_def list_all_iff)
  have n: "CHR 0x0A \<notin> set (replicate 64 (CHR ''b''))"
    by simp
  have l: "label_id id id (V_string demo_key) = Some demo_key"
    unfolding demo_key_def by code_simp
  obtain m where m: "snapshotMessage (demo_read sig) = Inr m"
    using n by (simp add: snapshotMessage_def demo_read_def snapshotVersion_def nullish_def join_fields_def v1_fields_def
        frameInt_def frameSafe_def safe_int_def or_else_def)
  show ?thesis
    using h l m
    by (simp add: signatures_ok_def oracleSignaturesOk_def demo_oracle_def demo_crypto_def demo_read_def MAX_SNAPSHOT_SIGS_def
        is_string_def jm_has_def vouches_def jm_get_def)
qed

lemma demo_refresh:
  "refresh_read demo_crypto demo_oracle 9 (Some False) [] (Loaded (Some (demo_read ''sig''))) (RootWindows_new 2 0) =
     ((RootWindows_new 2 0)\<lparr>rw_snaps := [adopted_record id demo_oracle 9 1 (demo_read ''sig'')]\<rparr>, Adopted)"
proof -
  have a: "RootWindows_adopt (Some []) (adopted_record id demo_oracle 9 1 (demo_read ''sig'')) (RootWindows_new 2 0) =
      Inr ((RootWindows_new 2 0)\<lparr>rw_snaps := [adopted_record id demo_oracle 9 1 (demo_read ''sig'')]\<rparr>)"
    by code_simp
  have "offer demo_crypto demo_oracle 9 [] (demo_read ''sig'') (RootWindows_new 2 0) =
      ((RootWindows_new 2 0)\<lparr>rw_snaps := [adopted_record id demo_oracle 9 1 (demo_read ''sig'')]\<rparr>, Adopted)"
    using demo_read_signed [of "''sig''"] a
    by (simp add: offer_def)
      (simp add: demo_crypto_def demo_oracle_def demo_read_def leaf_texts_def rootFromLeaves_def RootWindows_maxHeight_def
        RootWindows_new_def RootWindows_mayCoexist_def nullish_def snapshotVersion_def)
  then show ?thesis
    using demo_read_valid by (simp add: refresh_read_def) (simp add: demo_oracle_def)
qed

theorem window_is_vouched_for_witness:
  "backed demo_crypto demo_oracle (adopted_record id demo_oracle 9 1 (demo_read ''sig''))"
proof -
  let ?r0 = "\<lparr>rf_window = RootWindows_new 2 0, rf_inFlight = False, rf_closed = False\<rparr>"
  let ?w = "(RootWindows_new 2 0)\<lparr>rw_snaps := [adopted_record id demo_oracle 9 1 (demo_read ''sig'')]\<rparr>"
  have "refresh_reach demo_crypto demo_oracle (refresh_begin ?r0)"
    by (intro rr_begin rr_boot)
  then have "refresh_reach demo_crypto demo_oracle
      (refresh_finish demo_crypto demo_oracle 9 (Some False) [] (Loaded (Some (demo_read ''sig''))) (refresh_begin ?r0))"
    by (rule rr_finish) (simp add: refresh_begin_def)
  moreover have "refresh_finish demo_crypto demo_oracle 9 (Some False) [] (Loaded (Some (demo_read ''sig''))) (refresh_begin ?r0) =
      \<lparr>rf_window = ?w, rf_inFlight = False, rf_closed = False\<rparr>"
    by (simp add: refresh_finish_def refresh_begin_def demo_refresh) (simp add: drop_stale_def demo_oracle_def)
  ultimately have r: "refresh_reach demo_crypto demo_oracle \<lparr>rf_window = ?w, rf_inFlight = False, rf_closed = False\<rparr>"
    by simp
  have d: "distinct (oc_pubkeys demo_oracle)"
    by (simp add: demo_oracle_def)
  show ?thesis
    using window_is_vouched_for [OF r d] by simp
qed

theorem refresh_adopts_or_keeps_witness:
  "refresh_read demo_crypto demo_oracle 9 (Some False) [] (Loaded (Some (demo_read ''forged''))) (RootWindows_new 2 0) =
     (RootWindows_new 2 0, Quorum_not_met) \<and>
   vouched demo_crypto demo_oracle (demo_read ''sig'') \<and> (\<exists>w. refresh_read demo_crypto demo_oracle 9 (Some False) []
     (Loaded (Some (demo_read ''sig''))) (RootWindows_new 2 0) = (w, Adopted) \<and> rw_snaps w \<noteq> [])"
proof -
  let ?r = "\<lparr>rf_window = RootWindows_new 2 0, rf_inFlight = True, rf_closed = False\<rparr>"
  obtain w out where r: "refresh_read demo_crypto demo_oracle 9 (Some False) [] (Loaded (Some (demo_read ''forged''))) (RootWindows_new 2 0) = (w, out)"
    by fastforce
  have "signatures_ok demo_crypto demo_oracle (demo_read ''forged'') = Inr False"
    using demo_read_signed [of "''forged''"] by simp
  then have "offer demo_crypto demo_oracle 9 [] (demo_read ''forged'') (RootWindows_new 2 0) = (RootWindows_new 2 0, Quorum_not_met)"
    by (simp add: offer_def)
  moreover have "\<not> oc_requireSha demo_oracle"
    by (simp add: demo_oracle_def)
  ultimately have "out = Quorum_not_met"
    using r demo_read_valid [of "''forged''"] by (simp add: refresh_read_def)
  moreover from this have "w = RootWindows_new 2 0"
    using refresh_adopts_or_keeps [of demo_crypto demo_oracle 9 "Some False" "[]" _ ?r w out] r by simp
  moreover have "vouched demo_crypto demo_oracle (demo_read ''sig'')"
  proof -
    have f: "refresh_read demo_crypto demo_oracle 9 (Some False) [] (Loaded (Some (demo_read ''sig''))) (rf_window ?r) =
        ((RootWindows_new 2 0)\<lparr>rw_snaps := [adopted_record id demo_oracle 9 1 (demo_read ''sig'')]\<rparr>, Adopted)"
      using demo_refresh by simp
    obtain s where "Loaded (Some (demo_read ''sig'')) = Loaded (Some s)" "distinct (oc_pubkeys demo_oracle) \<longrightarrow> vouched demo_crypto demo_oracle s"
      using refresh_adopts_or_keeps [OF f] by blast
    then show ?thesis
      by (simp add: demo_oracle_def)
  qed
  ultimately show ?thesis
    using r demo_refresh by simp
qed

end
