(* ===== verification/Gateway_Handlers.thy ===== *)
theory Gateway_Handlers
  imports Gateway_Membership Verify_Registration
begin

section \<open>The other handlers (core/gateway.js): register, members, dml, health, and the body reader\<close>

text \<open>
  Registration is cut at its awaits like the handlers of \<open>Gateway_Membership\<close>; the registration check itself is the machine of
  \<open>Verify_Registration\<close>, and what the handler passes it and makes of its end is here. The reads are whole.
\<close>

subsection \<open>Reading a body under a byte cap (readBody)\<close>

text \<open>The text of a body is its bytes; \<open>is_json\<close> says whether \<open>JSON.parse\<close> takes it. An empty body is an empty object.\<close>

datatype body_answer = Body_text string | Body_over | Body_unparsed | Body_failed

datatype stream_event = Ev_data string | Ev_end | Ev_error

record body_reader =
  br_chunks :: "string list"
  br_total :: nat
  br_settled :: "body_answer option"
  br_destroyed :: bool

definition reader_new :: body_reader where
  "reader_new = \<lparr>br_chunks = [], br_total = 0, br_settled = None, br_destroyed = False\<rparr>"

definition settle_body :: "body_answer \<Rightarrow> body_reader \<Rightarrow> body_reader" where
  "settle_body a r = (if br_settled r \<noteq> None then r else r\<lparr>br_settled := Some a\<rparr>)"

fun on_event :: "(string \<Rightarrow> bool) \<Rightarrow> nat \<Rightarrow> body_reader \<Rightarrow> stream_event \<Rightarrow> body_reader" where
  "on_event is_json maxBytes r (Ev_data c) =
     (if br_settled r \<noteq> None then r
      else let r1 = r\<lparr>br_total := br_total r + length c\<rparr> in
        if br_total r1 > maxBytes then settle_body Body_over (r1\<lparr>br_chunks := [], br_destroyed := True\<rparr>)
        else r1\<lparr>br_chunks := br_chunks r1 @ [c]\<rparr>)"
| "on_event is_json maxBytes r Ev_end =
     (let raw = concat (br_chunks r) in
      settle_body (if raw = [] \<or> is_json raw then Body_text raw else Body_unparsed) r)"
| "on_event is_json maxBytes r Ev_error = settle_body Body_failed r"

definition read_body :: "(string \<Rightarrow> bool) \<Rightarrow> nat \<Rightarrow> stream_event list \<Rightarrow> body_reader" where
  "read_body is_json maxBytes evs = foldl (on_event is_json maxBytes) reader_new evs"

subsection \<open>POST /v1/register\<close>

record register_body =
  rb_platform :: body_value
  rb_communityId :: body_value
  rb_roleId :: body_value
  rb_has_proof :: bool
  rb_has_signals :: bool
  rb_signals :: public_signals

definition register_begin :: "gw_config \<Rightarrow> gw_now \<Rightarrow> http_req \<Rightarrow> 'n gw_state \<Rightarrow> 'n gw_state \<times> reply option" where
  "register_begin cfg now req g =
     (case limited now L_register (clientKey cfg req) g of
        (g1, True) \<Rightarrow> (g1, Some (Reply 429 (R_error ''rate limited'')))
      | (g1, False) \<Rightarrow> (g1, None))"

definition register_body_read :: "(string \<Rightarrow> nat) \<Rightarrow> gw_config \<Rightarrow> gw_now \<Rightarrow> register_body \<Rightarrow> 'n gw_state
    \<Rightarrow> 'n gw_state \<times> (reply + string \<times> int)" where
  "register_body_read sha cfg now q g =
     (if \<not> (truthy (rb_platform q) \<and> truthy (rb_communityId q) \<and> truthy (rb_roleId q) \<and> rb_has_proof q \<and> rb_has_signals q)
      then (g, Inl (Reply 400 (R_error ''missing fields'')))
      else let ctx = dec_of_nat (contextHash sha (bv_text (rb_platform q)) (bv_text (rb_communityId q)) (bv_text (rb_roleId q)) ''v2'') in
        if gc_registerContexts cfg \<noteq> [] \<and> ctx \<notin> set (gc_registerContexts cfg)
        then (g, Inl (Reply 403 (R_reason ''context-not-served'')))
        else (case gw_season now g of
                (g1, Inr (Num season)) \<Rightarrow> (g1, Inr (ctx, season))
              | (g1, _) \<Rightarrow> (g1, Inl internal_error)))"

text \<open>\<open>await seasonMembers.ensure(season)\<close>, then the call of \<open>verifyRegistration\<close>.\<close>

definition register_ensured :: "int \<Rightarrow> 'n gw_state \<Rightarrow> 'n gw_state \<times> reply option" where
  "register_ensured season g =
     (case SeasonMembers_ensure season (gw_seasons g) of
        Inl _ \<Rightarrow> (g, Some internal_error)
      | Inr sm \<Rightarrow> (g\<lparr>gw_seasons := sm\<rparr>, None))"

definition register_call :: "gw_config \<Rightarrow> string \<Rightarrow> int \<Rightarrow> register_body \<Rightarrow> engine_entry" where
  "register_call cfg ctx season q =
     verifyRegistration (rb_signals q)
       \<lparr>xp_engine = gc_registrationEngine cfg, xp_statement = gc_registrationStatement cfg, xp_season = season, xp_contextHash = ctx\<rparr> True"

text \<open>The anchor rule: accepted by the window and, where a bound is set, no older than it. \<open>root_eligible\<close> is
  also what the commit asks right before its durable write.\<close>

definition root_eligible :: "gw_config \<Rightarrow> gw_now \<Rightarrow> 'n gw_state \<Rightarrow> string \<Rightarrow> bool" where
  "root_eligible cfg now g root =
     RootWindows_isEligibleWithin (gw_dmlRoots g) root (gc_registerRootMaxAgeSeconds cfg) (nowSec now)"

definition register_root_ok :: "gw_config \<Rightarrow> gw_now \<Rightarrow> 'n gw_state \<Rightarrow> string \<Rightarrow> bool" where
  "register_root_ok cfg now g root =
     rootOk (\<lambda>r. Some (RootWindows_isRecent (gw_dmlRoots g) r)) (Some (\<lambda>r. Some (root_eligible cfg now g r))) root"

definition gw_register_durable :: "gw_config \<Rightarrow> gw_now \<Rightarrow> string \<Rightarrow> bool option \<Rightarrow> vr_request \<Rightarrow> 'n gw_state \<Rightarrow> reg_view
    \<Rightarrow> reg_view \<times> durable_result" where
  "gw_register_durable cfg now root threw q g v =
     register_durable (root_eligible cfg now g root) threw (commit_call q) v"

text \<open>The reply; \<open>overloaded\<close> is the mark the gate put on what was thrown.\<close>

definition register_reply :: "bool \<Rightarrow> vr_phase \<Rightarrow> reply option" where
  "register_reply overloaded p =
     (case p of
        VR_done (Registered i root n) \<Rightarrow> Some (Reply 200 (R_registered i root n))
      | VR_done (Declined r) \<Rightarrow> Some (Reply 200 (R_reason r))
      | VR_threw \<Rightarrow> Some (if overloaded then Reply 503 (R_error ''overloaded, retry later'') else internal_error)
      | _ \<Rightarrow> None)"

subsection \<open>GET /v1/members\<close>


definition sm_count :: "string \<Rightarrow> 'n season_members \<Rightarrow> nat" where
  "sm_count ctx sm = (case jm_get (sm_ctx sm) ctx of Some c \<Rightarrow> MembersTree_size (sc_tree c) | None \<Rightarrow> 0)"

definition members_finish :: "'n poseidon \<Rightarrow> (sm_read \<Rightarrow> bool) \<Rightarrow> gw_now \<Rightarrow> string \<Rightarrow> int \<Rightarrow> 'n gw_state \<Rightarrow> 'n gw_state \<times> reply" where
  "members_finish P fails now ctx season g =
     (case SeasonMembers_ensureContext P fails (Num (nowSec now)) season ctx (gw_regs g) (gw_seasons g) of
        (sm, e) \<Rightarrow> (g\<lparr>gw_seasons := sm\<rparr>,
          case e of
            Some (Roll_back a b) \<Rightarrow> Reply 503 (R_clock_regression None)
          | Some _ \<Rightarrow> internal_error
          | None \<Rightarrow> Reply 200 (R_members (sm_root P ctx sm) (sm_count ctx sm) (sm_commitments ctx sm))))"

subsection \<open>GET /v1/dml and GET /v1/health\<close>

definition latestSnapshot :: "'n gw_state \<Rightarrow> snapshot option" where
  "latestSnapshot g = Option.bind (RootWindows_current (gw_dmlRoots g)) wr_snapshot"

definition dml_handler :: "gw_config \<Rightarrow> gw_now \<Rightarrow> http_req \<Rightarrow> 'n gw_state \<Rightarrow> 'n gw_state \<times> reply" where
  "dml_handler cfg now req g =
     (case limited now L_dml (clientKey cfg req) g of
        (g1, True) \<Rightarrow> (g1, Reply 429 (R_error ''rate limited''))
      | (g1, False) \<Rightarrow>
          (g1, Reply 200 (R_dml (latestSnapshot g1)
                 (case latestSnapshot g1 of None \<Rightarrow> int (gc_treeDepth cfg) | Some s \<Rightarrow> sn_depth s))))"





subsection \<open>Lemmas\<close>

lemma settle_body_fields [simp]:
  "br_chunks (settle_body a r) = br_chunks r" "br_total (settle_body a r) = br_total r" "br_destroyed (settle_body a r) = br_destroyed r"
  by (simp_all add: settle_body_def)

definition data_of :: "stream_event list \<Rightarrow> string" where
  "data_of evs = concat (map (\<lambda>e. case e of Ev_data c \<Rightarrow> c | _ \<Rightarrow> []) evs)"

text \<open>Until it settles the reader holds exactly the data so far; afterwards it only ever holds less.\<close>

definition reader_inv :: "nat \<Rightarrow> stream_event list \<Rightarrow> body_reader \<Rightarrow> bool" where
  "reader_inv maxBytes evs r \<longleftrightarrow> length (concat (br_chunks r)) \<le> maxBytes \<and>
     (br_settled r = None \<longrightarrow> concat (br_chunks r) = data_of evs \<and> br_total r = length (data_of evs)) \<and>
     (case br_settled r of
        Some (Body_text t) \<Rightarrow> (\<exists>a b. evs = a @ Ev_end # b \<and> t = data_of a \<and> length t \<le> maxBytes)
      | Some Body_over \<Rightarrow> maxBytes < length (data_of evs) \<and> br_chunks r = [] \<and> br_destroyed r
      | _ \<Rightarrow> True)"

lemma data_of_snoc [simp]: "data_of (evs @ [e]) = data_of evs @ (case e of Ev_data c \<Rightarrow> c | _ \<Rightarrow> [])"
  by (simp add: data_of_def)

lemma reader_settled: "br_settled r = Some a \<Longrightarrow> on_event is_json maxBytes r e = r"
  by (cases e) (simp_all add: settle_body_def Let_def)

lemma read_body_settled:
  assumes "br_settled (read_body is_json maxBytes evs) = Some a"
  shows "read_body is_json maxBytes (evs @ later) = read_body is_json maxBytes evs"
proof -
  have "foldl (on_event is_json maxBytes) r later = r" if "br_settled r = Some a" for r
    using that by (induction later) (simp_all add: reader_settled)
  then show ?thesis
    using assms by (simp add: read_body_def)
qed

lemma reader_inv_step:
  assumes "reader_inv maxBytes evs r"
  shows "reader_inv maxBytes (evs @ [e]) (on_event is_json maxBytes r e)"
proof (cases "br_settled r")
  case None
  then have h: "concat (br_chunks r) = data_of evs" "br_total r = length (data_of evs)"
    using assms by (simp_all add: reader_inv_def)
  moreover have "length (concat (br_chunks r)) \<le> maxBytes"
    using assms by (simp only: reader_inv_def)
  ultimately have l: "length (data_of evs) \<le> maxBytes"
    by metis
  show ?thesis
  proof (cases e)
    case (Ev_data c)
    then show ?thesis
      using None h l by (auto simp: reader_inv_def settle_body_def Let_def)
  next
    case Ev_end
    have "\<exists>a b. evs @ [Ev_end] = a @ Ev_end # b \<and> data_of evs = data_of a \<and> length (data_of evs) \<le> maxBytes"
      using l by (intro exI [of _ evs] exI [of _ "[]"]) simp
    then show ?thesis
      using Ev_end None h l by (simp add: reader_inv_def settle_body_def Let_def)
  next
    case Ev_error
    then show ?thesis
      using None h l by (auto simp: reader_inv_def settle_body_def)
  qed
next
  case (Some a)
  then have "on_event is_json maxBytes r e = r"
    by (rule reader_settled)
  moreover have "\<exists>a b. evs @ [e] = a @ Ev_end # b \<and> t = data_of a \<and> length t \<le> maxBytes"
    if "\<exists>a b. evs = a @ Ev_end # b \<and> t = data_of a \<and> length t \<le> maxBytes" for t
    using that by (metis append_Cons append_assoc)
  ultimately show ?thesis
    using assms Some by (cases a) (auto simp: reader_inv_def)
qed

lemma read_body_inv: "reader_inv maxBytes evs (read_body is_json maxBytes evs)"
proof (induction evs rule: rev_induct)
  case Nil
  show ?case
    by (simp add: reader_inv_def read_body_def reader_new_def data_of_def)
next
  case (snoc e evs)
  then show ?case
    using reader_inv_step by (simp add: read_body_def)
qed











lemma members_tree_view:
  assumes "sm_inv P sm v" "rootFromLeaves P (sm_depth sm) [] = Inr (sm_emptyRoot sm)"
  shows "rootFromLeaves P (sm_depth sm) (sm_commitments ctx sm) = Inr (sm_root P ctx sm) \<and>
    sm_count ctx sm = length (sm_commitments ctx sm) \<and>
    (\<exists>n. sm_commitments ctx sm = take n (durable_commitments ctx sm v))"
proof (cases "jm_get (sm_ctx sm) ctx")
  case None
  then show ?thesis
    using assms(2) by (auto simp: sm_commitments_def sm_root_def sm_count_def intro: exI [of _ 0])
next
  case (Some c)
  then obtain n where t: "tree_of P (sm_depth sm) (take n (durable_commitments ctx sm v)) (sc_tree c)"
    using assms(1) by (auto simp: sm_inv_def ctx_ok_def)
  then have c: "mt_commitments (sc_tree c) = take n (durable_commitments ctx sm v)"
    by (simp add: tree_of_def)
  show ?thesis
    using Some tree_of_root [OF t] c by (auto simp: sm_commitments_def sm_root_def sm_count_def MembersTree_size_def)
qed

lemma ensureContext_const:
  assumes "SeasonMembers_ensureContext P fails now season ctx v sm = (sm1, e)"
  shows "sm_depth sm1 = sm_depth sm \<and> sm_emptyRoot sm1 = sm_emptyRoot sm"
  using assms
  by (auto simp: SeasonMembers_ensureContext_def sm_roll_def materializeFrom_def set_context_def Let_def split: option.splits if_splits sum.splits)





subsection \<open>Properties\<close>

text \<open>C34: an unauthenticated caller cannot make the gateway hold a body over the cap. However the stream is cut into
  chunks and whatever follows, the reader never retains more than the cap; it answers with a text only at the end of the stream, and then
  with exactly the bytes received before it, within the cap; it refuses a body as too large only when more than
  the cap was sent, dropping what it held and destroying the request; and it settles once: what follows changes nothing.\<close>

theorem body_reader_is_bounded:
  "length (concat (br_chunks (read_body is_json maxBytes evs))) \<le> maxBytes \<and>
   (\<forall>t. br_settled (read_body is_json maxBytes evs) = Some (Body_text t) \<longrightarrow>
      (\<exists>a b. evs = a @ Ev_end # b \<and> t = data_of a \<and> length t \<le> maxBytes)) \<and>
   (br_settled (read_body is_json maxBytes evs) = Some Body_over \<longrightarrow>
      maxBytes < length (data_of evs) \<and> br_chunks (read_body is_json maxBytes evs) = [] \<and>
      br_destroyed (read_body is_json maxBytes evs)) \<and>
   (br_settled (read_body is_json maxBytes evs) \<noteq> None \<longrightarrow>
      (\<forall>later. read_body is_json maxBytes (evs @ later) = read_body is_json maxBytes evs))"
  using read_body_inv [of maxBytes evs is_json] read_body_settled [of is_json maxBytes evs] by (auto simp: reader_inv_def)

theorem body_reader_is_bounded_witness:
  "br_settled (read_body (\<lambda>s. True) 3 [Ev_data ''ab'', Ev_data ''cd'', Ev_end]) = Some Body_over \<and>
   br_chunks (read_body (\<lambda>s. True) 3 [Ev_data ''ab'', Ev_data ''cd'', Ev_end]) = [] \<and>
   (\<forall>later. br_settled (read_body (\<lambda>s. True) 3 ([Ev_data ''ab'', Ev_data ''cd'', Ev_end] @ later)) = Some Body_over)"
proof -
  have "br_settled (read_body (\<lambda>s. True) 3 [Ev_data ''ab'', Ev_data ''cd'', Ev_end]) = Some Body_over"
    by code_simp
  then show ?thesis
    using body_reader_is_bounded [of "\<lambda>s. True" 3 "[Ev_data ''ab'', Ev_data ''cd'', Ev_end]"] by (metis option.distinct(1))
qed


text \<open>The members answer is of one piece. The root, the size and the commitments \<open>/v1/members\<close> returns belong
  together: the root is the members-tree root of exactly the commitments returned, and these are a prefix of the season's durable
  registrations for that context, in order. So a prover that builds its path from the answer proves against the root in it.\<close>

lemma members_answer_is_consistent:
  assumes "sm_inv P (gw_seasons g) (gw_regs g)"
    and "rootFromLeaves P (sm_depth (gw_seasons g)) [] = Inr (sm_emptyRoot (gw_seasons g))"
    and "members_finish P fails now ctx season g = (g1, Reply 200 (R_members root n cs))"
  shows "rootFromLeaves P (sm_depth (gw_seasons g)) cs = Inr root \<and> n = length cs \<and>
    (\<exists>k. cs = take k (durable_commitments ctx (gw_seasons g1) (gw_regs g))) \<and> sm_inv P (gw_seasons g1) (gw_regs g)"
proof -
  obtain sm e where s: "SeasonMembers_ensureContext P fails (Num (nowSec now)) season ctx (gw_regs g) (gw_seasons g) = (sm, e)"
    by fastforce
  have f: "gw_seasons g1 = sm" "root = sm_root P ctx sm" "n = sm_count ctx sm" "cs = sm_commitments ctx sm"
    using assms(3) s by (auto simp: members_finish_def internal_error_def split: option.splits season_error.splits)
  have "sm_inv P sm (gw_regs g)"
    by (rule ensureContext_inv [OF assms(1) s])
  then show ?thesis
    using members_tree_view [of P sm "gw_regs g" ctx] ensureContext_const [OF s] assms(2) f by simp
qed

text \<open>At second 85, with epochs of ten seconds, a gateway that has already seen epoch 9.\<close>

definition demo_state :: "nat gw_state" where
  "demo_state = \<lparr>gw_challenges = ChallengeStore_new 5 10, gw_limiters = (\<lambda>l. RateLimiter_new 60 10 10),
     gw_dmlRoots = RootWindows_new 2 0,
     gw_guard = \<lparr>tg_path = True, tg_epochSeconds = 10, tg_seasonSeconds = 100, tg_marks = \<lparr>tm_epoch = Some (Num 9), tm_season = None\<rparr>,
       tg_regression = None\<rparr>,
     gw_marks = TG_missing,
     gw_seasons = demo_season\<lparr>sm_emptyRoot := pstr demo_hasher (zero_roots demo_hasher 2 ! 2)\<rparr>, gw_regs = empty_view\<rparr>"



theorem members_answer_is_consistent_witness:
  "\<exists>g1 root. members_finish demo_hasher (\<lambda>r. False) \<lparr>nw_ms = 0, nw_persists = (\<lambda>k. True)\<rparr> ''7'' 3 demo_state =
       (g1, Reply 200 (R_members root 0 [])) \<and> rootFromLeaves demo_hasher 2 [] = Inr root"
proof -
  have i: "sm_inv demo_hasher (gw_seasons demo_state) (gw_regs demo_state)"
    by (simp add: sm_inv_def demo_state_def demo_season_def SeasonMembers_new_def)
  have e: "rootFromLeaves demo_hasher (sm_depth (gw_seasons demo_state)) [] = Inr (sm_emptyRoot (gw_seasons demo_state))"
    by (simp add: rootFromLeaves_def Let_def demo_state_def demo_season_def SeasonMembers_new_def)
  have c: "SeasonMembers_ensureContext demo_hasher (\<lambda>r. False) n 3 ''7'' (gw_regs demo_state) (gw_seasons demo_state) =
      (gw_seasons demo_state, None)" for n
    by (simp add: demo_state_def demo_season_def SeasonMembers_new_def SeasonMembers_ensureContext_def sm_roll_def
        jm_has_def durable_records_def forSeasonContext_def bucket_records_def empty_view_def jm_get_def)
  obtain g1 root where r: "members_finish demo_hasher (\<lambda>r. False) \<lparr>nw_ms = 0, nw_persists = (\<lambda>k. True)\<rparr> ''7'' 3 demo_state =
       (g1, Reply 200 (R_members root 0 []))"
    by (simp add: members_finish_def c)
      (simp add: sm_root_def sm_count_def sm_commitments_def demo_state_def demo_season_def SeasonMembers_new_def jm_get_def)
  show ?thesis
    using members_answer_is_consistent [OF i e r] r by (auto simp: demo_state_def demo_season_def SeasonMembers_new_def)
qed

end
