(* ===== verification/Gateway_Boot.thy ===== *)
theory Gateway_Boot
  imports Verify_Membership
begin

section \<open>Booting and tearing down the gateway (core/gateway.js)\<close>

text \<open>
  \<open>bootGateway\<close> as the sequence of its refusals and of what it takes hold of, with the outside world (files, keys, connections)
  as inputs; \<open>createGateway\<close>, which releases on a failed boot; and the life of a running gateway up to
  its one teardown, as a state machine over connections, handlers, refreshes and the release list.
\<close>

subsection \<open>Refusals\<close>

record boot_config =
  bc_twoTier :: bool
  bc_store :: string
  bc_hasSecret :: bool
  bc_allowUnauth :: bool
  bc_dmlSource :: string
  bc_pubkeys :: nat
  bc_allowUnsigned :: bool
  bc_allowEphemeral :: bool
  bc_acceptUncertain :: bool
  bc_assumeSchedule :: string
  bc_epochSeconds :: int
  bc_seasonSeconds :: int
  bc_contractId :: "string option"
  bc_sqlitePath :: string
  bc_engine :: string
  bc_contexts :: "string list"
  bc_allowAnyContext :: bool
  bc_allowDevKeys :: bool

definition SCHEDULE :: "boot_config \<Rightarrow> string" where
  "SCHEDULE c = scheduleId (bc_epochSeconds c) (bc_seasonSeconds c)"

datatype boot_error =
    Unauthenticated | Unsigned_oracle | Time_marks | Platform_two_tier | Unknown_store | Ephemeral_memory
  | Uncertain_broadcast | Schedule_not_asserted | Marker_unreadable | Marker_other_contract | Marker_other_schedule
  | Marker_raced | Connect_failed | Ephemeral_sqlite | Directory_open | Store_refused
  | Zkvm_not_wired | Key_unreadable | Key_refused key_refusal | Registration_store | Season_failed
  | No_contexts | Context_not_canonical string

text \<open>The local schedule marker of Platform mode: its parsed fields, where an absent or null one is \<open>None\<close>.\<close>

datatype schedule_marker = Marker_absent | Marker_broken | Marker "string option" "string option"

text \<open>What the boot meets. A key is \<open>None\<close> when its file cannot be loaded; \<open>bw_landed\<close> is what the marker holds once it was written.\<close>

record 'v boot_world =
  bw_marks :: bool
  bw_marker :: schedule_marker
  bw_landed :: "string option"
  bw_connects :: bool
  bw_directory :: bool
  bw_sqlite :: bool
  bw_regVkey :: "'v vkey option"
  bw_membersVkey :: "'v vkey option"
  bw_vkey :: "'v vkey option"
  bw_registrations :: bool
  bw_season :: bool

definition refuse_if :: "bool \<Rightarrow> 'e \<Rightarrow> 'e option" where
  "refuse_if b e = (if b then Some e else None)"

fun first_refusal :: "'e option list \<Rightarrow> 'e option" where
  "first_refusal [] = None"
| "first_refusal (x # xs) = (case x of None \<Rightarrow> first_refusal xs | Some e \<Rightarrow> Some e)"

definition trust_refusal :: "boot_config \<Rightarrow> boot_error option" where
  "trust_refusal c = first_refusal
     [refuse_if (\<not> bc_hasSecret c \<and> \<not> bc_allowUnauth c) Unauthenticated,
      refuse_if (bc_dmlSource c = ''snapshot'' \<and> bc_pubkeys c = 0 \<and> \<not> bc_allowUnsigned c) Unsigned_oracle]"

definition store_kind_refusal :: "boot_config \<Rightarrow> boot_error option" where
  "store_kind_refusal c = first_refusal
     [refuse_if (bc_twoTier c \<and> bc_store c = ''platform'') Platform_two_tier,
      refuse_if (bc_store c \<notin> {''sqlite'', ''memory'', ''platform''}) Unknown_store,
      refuse_if (bc_store c = ''memory'' \<and> \<not> bc_allowEphemeral c) Ephemeral_memory]"

text \<open>Between the two the guarded clock is loaded.\<close>

definition early_refusal :: "boot_config \<Rightarrow> 'v boot_world \<Rightarrow> boot_error option" where
  "early_refusal c w = first_refusal
     [trust_refusal c, refuse_if (\<not> bw_marks w) Time_marks, store_kind_refusal c]"

definition marker_refusal :: "boot_config \<Rightarrow> 'v boot_world \<Rightarrow> boot_error option" where
  "marker_refusal c w =
     (case bw_marker w of
        Marker_broken \<Rightarrow> Some Marker_unreadable
      | Marker_absent \<Rightarrow> refuse_if (bw_landed w \<noteq> Some (SCHEDULE c)) Marker_raced
      | Marker recorded contract \<Rightarrow> first_refusal
          [refuse_if (contract \<noteq> None \<and> contract \<noteq> Some (case bc_contractId c of None \<Rightarrow> ''null'' | Some i \<Rightarrow> i)) Marker_other_contract,
           refuse_if (recorded \<noteq> None \<and> recorded \<noteq> Some (SCHEDULE c)) Marker_other_schedule,
           refuse_if (recorded = None \<and> bw_landed w \<noteq> Some (SCHEDULE c)) Marker_raced])"

definition store_refusal :: "boot_config \<Rightarrow> 'v boot_world \<Rightarrow> boot_error option" where
  "store_refusal c w =
     (if bc_store c = ''platform'' then first_refusal
        [refuse_if (\<not> bc_acceptUncertain c) Uncertain_broadcast,
         refuse_if (bc_assumeSchedule c \<noteq> SCHEDULE c) Schedule_not_asserted,
         marker_refusal c w,
         refuse_if (\<not> bw_connects w) Connect_failed]
      else if bc_store c = ''sqlite'' then first_refusal
        [refuse_if (bc_sqlitePath c = '':memory:'' \<and> \<not> bc_allowEphemeral c) Ephemeral_sqlite,
         refuse_if (bc_sqlitePath c \<noteq> '':memory:'' \<and> \<not> bw_directory w) Directory_open,
         refuse_if (\<not> bw_sqlite w) Store_refused]
      else None)"

definition key_rule :: "'v vkey option \<Rightarrow> string \<Rightarrow> boot_error option" where
  "key_rule k protocol = (case requireProtocol k protocol of Inl e \<Rightarrow> Some (Key_refused e) | Inr _ \<Rightarrow> None)"

definition dev_rule :: "boot_config \<Rightarrow> 'v vkey option \<Rightarrow> string \<Rightarrow> boot_error option" where
  "dev_rule c k setting = (case requireNotDevKey k setting (bc_allowDevKeys c) of Inl e \<Rightarrow> Some (Key_refused e) | Inr _ \<Rightarrow> None)"

definition mode_refusal :: "boot_config \<Rightarrow> 'v boot_world \<Rightarrow> boot_error option" where
  "mode_refusal c w =
     (if bc_twoTier c then first_refusal
        [refuse_if (bc_engine c = ''zkvm'') Zkvm_not_wired,
         refuse_if (bw_regVkey w = None) Key_unreadable,
         refuse_if (bw_membersVkey w = None) Key_unreadable,
         key_rule (bw_regVkey w) (bc_engine c),
         key_rule (bw_membersVkey w) ''plonk'',
         dev_rule c (bw_regVkey w) ''MNO_REG_VKEY'',
         refuse_if (\<not> bw_registrations w) Registration_store,
         refuse_if (\<not> bw_season w) Season_failed,
         refuse_if (bc_contexts c = [] \<and> \<not> bc_allowAnyContext c) No_contexts,
         map_option Context_not_canonical (List.find (\<lambda>x. \<not> isCanonicalField x) (bc_contexts c))]
      else first_refusal
        [refuse_if (bw_vkey w = None) Key_unreadable,
         key_rule (bw_vkey w) ''groth16'',
         dev_rule c (bw_vkey w) ''MNO_VKEY''])"

subsection \<open>Boot, and what a failed boot gives back\<close>

datatype held_thing = Timers | Nullifier_store

text \<open>The release list in order of acquisition, and the refusal that ended the boot, if one did.\<close>

definition bootGateway :: "boot_config \<Rightarrow> 'v boot_world \<Rightarrow> held_thing list \<times> boot_error option" where
  "bootGateway c w =
     (case early_refusal c w of
        Some e \<Rightarrow> ([Timers], Some e)
      | None \<Rightarrow>
          (case store_refusal c w of
             Some e \<Rightarrow> ([Timers], Some e)
           | None \<Rightarrow> ([Timers] @ (if bc_store c = ''memory'' then [] else [Nullifier_store]), mode_refusal c w)))"

text \<open>The gateway's release list, or the things a failed boot released, in the order it released them.\<close>

definition createGateway :: "boot_config \<Rightarrow> 'v boot_world \<Rightarrow> boot_error \<times> held_thing list + held_thing list" where
  "createGateway c w = (case bootGateway c w of (held, None) \<Rightarrow> Inr held | (held, Some e) \<Rightarrow> Inl (e, rev held))"

subsection \<open>One life\<close>

text \<open>
  \<open>lf_stage\<close> is where the shared teardown stands: waiting for the refresh, the bind, the server's connections, the
  handlers, or over. \<open>lf_released\<close> lists the releases attempted, \<open>lf_failed\<close> the first one that threw.
\<close>

datatype stage = Running | Await_refresh | Await_bind | Await_server | Await_handlers | Over

record life =
  lf_stage :: stage
  lf_refreshing :: bool
  lf_binding :: bool
  lf_listening :: bool
  lf_connections :: nat
  lf_handlers :: nat
  lf_release :: "held_thing list"
  lf_released :: "held_thing list"
  lf_failed :: "held_thing option"

definition life_new :: "held_thing list \<Rightarrow> life" where
  "life_new held = \<lparr>lf_stage = Running, lf_refreshing = False, lf_binding = False, lf_listening = False, lf_connections = 0,
     lf_handlers = 0, lf_release = held, lf_released = [], lf_failed = None\<rparr>"

definition closing :: "life \<Rightarrow> bool" where
  "closing l \<longleftrightarrow> lf_stage l \<noteq> Running"

text \<open>Every release is attempted, in reverse, whichever throw.\<close>

definition release_all :: "(held_thing \<Rightarrow> bool) \<Rightarrow> life \<Rightarrow> life" where
  "release_all throws l =
     l\<lparr>lf_stage := Over, lf_release := [], lf_released := lf_released l @ rev (lf_release l),
       lf_failed := List.find throws (rev (lf_release l))\<rparr>"

inductive life_step :: "life \<Rightarrow> life \<Rightarrow> bool" where
  ls_refresh: "\<not> closing l \<Longrightarrow> \<not> lf_refreshing l \<Longrightarrow> life_step l (l\<lparr>lf_refreshing := True\<rparr>)"
| ls_refreshed: "lf_refreshing l \<Longrightarrow> life_step l (l\<lparr>lf_refreshing := False\<rparr>)"
| ls_listen: "\<not> closing l \<Longrightarrow> \<not> lf_listening l \<Longrightarrow> life_step l (l\<lparr>lf_binding := True\<rparr>)"
| ls_bound: "lf_binding l \<Longrightarrow> life_step l (l\<lparr>lf_binding := False, lf_listening := ok\<rparr>)"
| ls_accept: "lf_listening l \<Longrightarrow> life_step l (l\<lparr>lf_connections := lf_connections l + 1\<rparr>)"
| ls_request: "0 < lf_connections l \<Longrightarrow> life_step l (l\<lparr>lf_handlers := lf_handlers l + 1\<rparr>)"
| ls_disconnect: "0 < lf_connections l \<Longrightarrow> life_step l (l\<lparr>lf_connections := lf_connections l - 1\<rparr>)"
| ls_answered: "0 < lf_handlers l \<Longrightarrow> life_step l (l\<lparr>lf_handlers := lf_handlers l - 1\<rparr>)"
| ls_close: "life_step l (if closing l then l else l\<lparr>lf_stage := Await_refresh\<rparr>)"
| ls_after_refresh: "lf_stage l = Await_refresh \<Longrightarrow> \<not> lf_refreshing l \<Longrightarrow> life_step l (l\<lparr>lf_stage := Await_bind\<rparr>)"
| ls_after_bind: "lf_stage l = Await_bind \<Longrightarrow> \<not> lf_binding l \<Longrightarrow> life_step l (l\<lparr>lf_stage := Await_server, lf_listening := False\<rparr>)"
| ls_after_server: "lf_stage l = Await_server \<Longrightarrow> lf_connections l = 0 \<Longrightarrow> life_step l (l\<lparr>lf_stage := Await_handlers\<rparr>)"
| ls_after_handlers: "lf_stage l = Await_handlers \<Longrightarrow> lf_handlers l = 0 \<Longrightarrow> life_step l (release_all throws l)"

inductive life_reach :: "held_thing list \<Rightarrow> life \<Rightarrow> bool" for held where
  life_boot: "life_reach held (life_new held)"
| life_next: "life_reach held l \<Longrightarrow> life_step l l' \<Longrightarrow> life_reach held l'"

definition life_inv :: "held_thing list \<Rightarrow> life \<Rightarrow> bool" where
  "life_inv held l \<longleftrightarrow>
     (lf_stage l \<notin> {Running, Await_refresh} \<longrightarrow> \<not> lf_refreshing l) \<and>
     (lf_stage l \<in> {Await_server, Await_handlers, Over} \<longrightarrow> \<not> lf_binding l \<and> \<not> lf_listening l) \<and>
     (lf_stage l \<in> {Await_handlers, Over} \<longrightarrow> lf_connections l = 0) \<and>
     (lf_stage l = Over \<longrightarrow> lf_handlers l = 0) \<and>
     (if lf_stage l = Over then lf_release l = [] \<and> lf_released l = rev held
      else lf_release l = held \<and> lf_released l = [] \<and> lf_failed l = None)"

lemma life_reach_inv: "life_reach held l \<Longrightarrow> life_inv held l"
proof (induction rule: life_reach.induct)
  case life_boot
  show ?case
    by (simp add: life_inv_def life_new_def)
next
  case (life_next l l')
  from life_next(2,3) show ?case
    by (induction rule: life_step.induct) (auto simp: life_inv_def closing_def release_all_def)
qed

lemma first_refusal_None: "first_refusal xs = None \<longleftrightarrow> (\<forall>x \<in> set xs. x = None)"
  by (induction xs) (auto split: option.split)

lemma refuse_if_None [simp]: "refuse_if b e = None \<longleftrightarrow> \<not> b"
  by (simp add: refuse_if_def)

lemma boot_ok:
  "createGateway c w = Inr held \<longleftrightarrow> early_refusal c w = None \<and> store_refusal c w = None \<and> mode_refusal c w = None \<and>
     held = [Timers] @ (if bc_store c = ''memory'' then [] else [Nullifier_store])"
  by (auto simp: createGateway_def bootGateway_def split: option.splits)

lemma key_rule_None: "key_rule k p = None \<longleftrightarrow> key_protocol k = Some p"
  by (simp add: key_rule_def requireProtocol_def)

lemma dev_rule_None: "dev_rule c k s = None \<longleftrightarrow> (\<forall>x. k = Some x \<longrightarrow> vk_devOnly x \<longrightarrow> bc_allowDevKeys c)"
  by (auto simp: dev_rule_def requireNotDevKey_def split: option.splits)

subsection \<open>Teardown always can finish\<close>

lemma drain_connections: "life_step\<^sup>*\<^sup>* l (l\<lparr>lf_connections := 0\<rparr>)"
proof (induction "lf_connections l" arbitrary: l)
  case 0
  then have "l\<lparr>lf_connections := 0\<rparr> = l"
    by (cases l) simp
  then show ?case
    by simp
next
  case (Suc n)
  then have "life_step l (l\<lparr>lf_connections := n\<rparr>)"
    using ls_disconnect [of l] by (metis diff_Suc_1 zero_less_Suc)
  moreover have "life_step\<^sup>*\<^sup>* (l\<lparr>lf_connections := n\<rparr>) (l\<lparr>lf_connections := 0\<rparr>)"
    using Suc(1) [of "l\<lparr>lf_connections := n\<rparr>"] by simp
  ultimately show ?case
    by (rule converse_rtranclp_into_rtranclp)
qed

lemma drain_handlers: "life_step\<^sup>*\<^sup>* l (l\<lparr>lf_handlers := 0\<rparr>)"
proof (induction "lf_handlers l" arbitrary: l)
  case 0
  then have "l\<lparr>lf_handlers := 0\<rparr> = l"
    by (cases l) simp
  then show ?case
    by simp
next
  case (Suc n)
  then have "life_step l (l\<lparr>lf_handlers := n\<rparr>)"
    using ls_answered [of l] by (metis diff_Suc_1 zero_less_Suc)
  moreover have "life_step\<^sup>*\<^sup>* (l\<lparr>lf_handlers := n\<rparr>) (l\<lparr>lf_handlers := 0\<rparr>)"
    using Suc(1) [of "l\<lparr>lf_handlers := n\<rparr>"] by simp
  ultimately show ?case
    by (rule converse_rtranclp_into_rtranclp)
qed

definition can_finish :: "life \<Rightarrow> bool" where
  "can_finish l \<longleftrightarrow> (\<exists>l'. life_step\<^sup>*\<^sup>* l l' \<and> lf_stage l' = Over)"

lemma can_finish_after: "life_step\<^sup>*\<^sup>* l l' \<Longrightarrow> can_finish l' \<Longrightarrow> can_finish l"
  unfolding can_finish_def by (meson rtranclp_trans)

lemma finish_handlers: "lf_stage l = Await_handlers \<Longrightarrow> can_finish l"
proof -
  assume s: "lf_stage l = Await_handlers"
  have "life_step (l\<lparr>lf_handlers := 0\<rparr>) (release_all (\<lambda>x. False) (l\<lparr>lf_handlers := 0\<rparr>))"
    by (rule ls_after_handlers) (simp_all add: s)
  then have "can_finish (l\<lparr>lf_handlers := 0\<rparr>)"
    unfolding can_finish_def by (intro exI [of _ "release_all (\<lambda>x. False) (l\<lparr>lf_handlers := 0\<rparr>)"]) (simp add: r_into_rtranclp release_all_def)
  then show ?thesis
    by (rule can_finish_after [OF drain_handlers])
qed

lemma finish_server: "lf_stage l = Await_server \<Longrightarrow> can_finish l"
proof -
  assume s: "lf_stage l = Await_server"
  have "life_step (l\<lparr>lf_connections := 0\<rparr>) (l\<lparr>lf_connections := 0, lf_stage := Await_handlers\<rparr>)"
    using ls_after_server [of "l\<lparr>lf_connections := 0\<rparr>"] s by simp
  then have "life_step\<^sup>*\<^sup>* l (l\<lparr>lf_connections := 0, lf_stage := Await_handlers\<rparr>)"
    by (rule rtranclp.rtrancl_into_rtrancl [OF drain_connections])
  then show ?thesis
    by (rule can_finish_after) (simp add: finish_handlers)
qed

lemma finish_bind: "lf_stage l = Await_bind \<Longrightarrow> can_finish l"
proof -
  assume s: "lf_stage l = Await_bind"
  have "\<exists>m. life_step\<^sup>*\<^sup>* l m \<and> lf_stage m = Await_bind \<and> \<not> lf_binding m"
  proof (cases "lf_binding l")
    case True
    then show ?thesis
      using r_into_rtranclp [where r = life_step, OF ls_bound [OF True, of False]] s
      by (intro exI [of _ "l\<lparr>lf_binding := False, lf_listening := False\<rparr>"]) simp
  next
    case False
    then show ?thesis
      using s by blast
  qed
  then obtain m where m: "life_step\<^sup>*\<^sup>* l m" "lf_stage m = Await_bind" "\<not> lf_binding m"
    by blast
  have "life_step\<^sup>*\<^sup>* l (m\<lparr>lf_stage := Await_server, lf_listening := False\<rparr>)"
    using m(1) ls_after_bind [OF m(2,3)] by (rule rtranclp.rtrancl_into_rtrancl)
  then show ?thesis
    by (rule can_finish_after) (simp add: finish_server)
qed

lemma finish_refresh: "lf_stage l = Await_refresh \<Longrightarrow> can_finish l"
proof -
  assume s: "lf_stage l = Await_refresh"
  have "\<exists>m. life_step\<^sup>*\<^sup>* l m \<and> lf_stage m = Await_refresh \<and> \<not> lf_refreshing m"
  proof (cases "lf_refreshing l")
    case True
    then show ?thesis
      using r_into_rtranclp [where r = life_step, OF ls_refreshed [OF True]] s
      by (intro exI [of _ "l\<lparr>lf_refreshing := False\<rparr>"]) simp
  next
    case False
    then show ?thesis
      using s by blast
  qed
  then obtain m where m: "life_step\<^sup>*\<^sup>* l m" "lf_stage m = Await_refresh" "\<not> lf_refreshing m"
    by blast
  have "life_step\<^sup>*\<^sup>* l (m\<lparr>lf_stage := Await_bind\<rparr>)"
    using m(1) ls_after_refresh [OF m(2,3)] by (rule rtranclp.rtrancl_into_rtrancl)
  then show ?thesis
    by (rule can_finish_after) (simp add: finish_bind)
qed

lemma closing_finishes: "closing l \<Longrightarrow> can_finish l"
  using finish_refresh finish_bind finish_server finish_handlers
  by (cases "lf_stage l") (auto simp: closing_def can_finish_def)

subsection \<open>Properties\<close>

text \<open>C9: the boot fails closed. A gateway that starts authenticates its adapters, or its operator opted out by name; it pins
  oracle keys or reads its own node, or opted out; its spent set is durable or opted out; on the shared store the operator has
  accepted the uncertain broadcast and asserted this very schedule, and not in two-tier mode; its verification keys are of the proof systems the circuits need and no
  development keys unless allowed; and a two-tier gateway has an allowlist of contexts that proofs can carry, or opted out.\<close>

theorem boot_is_fail_closed:
  assumes "createGateway c w = Inr held"
  shows "(bc_hasSecret c \<or> bc_allowUnauth c) \<and>
    (bc_dmlSource c = ''snapshot'' \<longrightarrow> 0 < bc_pubkeys c \<or> bc_allowUnsigned c) \<and>
    bc_store c \<in> {''sqlite'', ''memory'', ''platform''} \<and>
    (bc_store c = ''memory'' \<or> bc_store c = ''sqlite'' \<and> bc_sqlitePath c = '':memory:'' \<longrightarrow> bc_allowEphemeral c) \<and>
    (bc_store c = ''platform'' \<longrightarrow> \<not> bc_twoTier c \<and> bc_acceptUncertain c \<and> bc_assumeSchedule c = SCHEDULE c) \<and>
    (if bc_twoTier c
     then key_protocol (bw_regVkey w) = Some (bc_engine c) \<and> bc_engine c \<noteq> ''zkvm'' \<and> key_protocol (bw_membersVkey w) = Some ''plonk'' \<and>
       (bc_contexts c \<noteq> [] \<or> bc_allowAnyContext c) \<and> (\<forall>x \<in> set (bc_contexts c). isCanonicalField x) \<and>
       (\<forall>k. bw_regVkey w = Some k \<longrightarrow> vk_devOnly k \<longrightarrow> bc_allowDevKeys c)
     else key_protocol (bw_vkey w) = Some ''groth16'' \<and> (\<forall>k. bw_vkey w = Some k \<longrightarrow> vk_devOnly k \<longrightarrow> bc_allowDevKeys c))"
proof -
  have b: "early_refusal c w = None" "store_refusal c w = None" "mode_refusal c w = None"
    using assms by (simp_all add: boot_ok)
  have e: "bc_hasSecret c \<or> bc_allowUnauth c" "bc_dmlSource c = ''snapshot'' \<longrightarrow> 0 < bc_pubkeys c \<or> bc_allowUnsigned c"
      "bc_store c \<in> {''sqlite'', ''memory'', ''platform''}" "bc_store c = ''memory'' \<longrightarrow> bc_allowEphemeral c"
      "bc_store c = ''platform'' \<longrightarrow> \<not> bc_twoTier c"
    using b(1) unfolding early_refusal_def trust_refusal_def store_kind_refusal_def
    by (auto simp: first_refusal_None simp del: first_refusal.simps)
  have s: "bc_store c = ''sqlite'' \<and> bc_sqlitePath c = '':memory:'' \<longrightarrow> bc_allowEphemeral c"
      "bc_store c = ''platform'' \<longrightarrow> bc_acceptUncertain c \<and> bc_assumeSchedule c = SCHEDULE c"
    using b(2) unfolding store_refusal_def by (auto simp: first_refusal_None simp del: first_refusal.simps split: if_splits)
  have m: "if bc_twoTier c
     then key_protocol (bw_regVkey w) = Some (bc_engine c) \<and> bc_engine c \<noteq> ''zkvm'' \<and> key_protocol (bw_membersVkey w) = Some ''plonk'' \<and>
       (bc_contexts c \<noteq> [] \<or> bc_allowAnyContext c) \<and> (\<forall>x \<in> set (bc_contexts c). isCanonicalField x) \<and>
       (\<forall>k. bw_regVkey w = Some k \<longrightarrow> vk_devOnly k \<longrightarrow> bc_allowDevKeys c)
     else key_protocol (bw_vkey w) = Some ''groth16'' \<and> (\<forall>k. bw_vkey w = Some k \<longrightarrow> vk_devOnly k \<longrightarrow> bc_allowDevKeys c)"
    using b(3) unfolding mode_refusal_def
    by (auto simp: first_refusal_None key_rule_None dev_rule_None find_None_iff simp del: first_refusal.simps split: if_splits)
  show ?thesis
    using e s m by blast
qed

definition demo_boot :: boot_config where
  "demo_boot = \<lparr>bc_twoTier = True, bc_store = ''sqlite'', bc_hasSecret = True, bc_allowUnauth = False, bc_dmlSource = ''snapshot'',
     bc_pubkeys = 1, bc_allowUnsigned = False, bc_allowEphemeral = False, bc_acceptUncertain = False, bc_assumeSchedule = [],
     bc_epochSeconds = 10, bc_seasonSeconds = 100, bc_contractId = None, bc_sqlitePath = ''n.db'', bc_engine = ''groth16'',
     bc_contexts = [dec_of_nat 7], bc_allowAnyContext = False, bc_allowDevKeys = False\<rparr>"

definition demo_world :: "unit boot_world" where
  "demo_world = \<lparr>bw_marks = True, bw_marker = Marker_absent, bw_landed = None, bw_connects = False, bw_directory = True, bw_sqlite = True,
     bw_regVkey = Some \<lparr>vk_protocol = Some ''groth16'', vk_devOnly = False, vk_data = ()\<rparr>,
     bw_membersVkey = Some \<lparr>vk_protocol = Some ''plonk'', vk_devOnly = False, vk_data = ()\<rparr>, bw_vkey = None,
     bw_registrations = True, bw_season = True\<rparr>"

theorem boot_is_fail_closed_witness:
  "createGateway demo_boot demo_world = Inr [Timers, Nullifier_store] \<and>
   (\<forall>held. createGateway (demo_boot\<lparr>bc_hasSecret := False\<rparr>) demo_world \<noteq> Inr held)"
proof -
  have "createGateway demo_boot demo_world = Inr [Timers, Nullifier_store]"
    by (simp add: boot_ok early_refusal_def trust_refusal_def store_kind_refusal_def store_refusal_def mode_refusal_def refuse_if_def key_rule_def dev_rule_def requireProtocol_def
        requireNotDevKey_def key_protocol_def demo_boot_def demo_world_def isCanonicalField_dec_of_nat FIELD_PRIME_def)
  moreover have "createGateway (demo_boot\<lparr>bc_hasSecret := False\<rparr>) demo_world \<noteq> Inr held" for held
  proof
    assume "createGateway (demo_boot\<lparr>bc_hasSecret := False\<rparr>) demo_world = Inr held"
    from boot_is_fail_closed [OF this] show False
      by (simp add: demo_boot_def)
  qed
  ultimately show ?thesis
    by blast
qed

text \<open>C12: teardown is one, complete and last. However refreshes, binds, connections, requests and close calls interleave, nothing is
  released while a refresh, a bind, a connection or a handler is still at work; everything the boot took is released exactly once, in
  reverse order, even when a release throws; and from every state of a closing gateway the teardown can still finish.\<close>

theorem teardown_is_last_and_complete:
  assumes "life_reach held l"
  shows "(lf_released l \<noteq> [] \<longrightarrow> lf_released l = rev held \<and> \<not> lf_refreshing l \<and> \<not> lf_binding l \<and> \<not> lf_listening l \<and>
      lf_connections l = 0 \<and> lf_handlers l = 0) \<and>
    (closing l \<longrightarrow> (\<exists>l'. life_step\<^sup>*\<^sup>* l l' \<and> lf_stage l' = Over))"
proof -
  have i: "life_inv held l"
    by (rule life_reach_inv [OF assms])
  have "lf_released l \<noteq> [] \<longrightarrow> lf_stage l = Over"
    using i by (auto simp: life_inv_def split: if_splits)
  then have "lf_released l \<noteq> [] \<longrightarrow> lf_released l = rev held \<and> \<not> lf_refreshing l \<and> \<not> lf_binding l \<and> \<not> lf_listening l \<and>
      lf_connections l = 0 \<and> lf_handlers l = 0"
    using i by (cases "lf_stage l = Over") (auto simp: life_inv_def)
  moreover have "closing l \<longrightarrow> (\<exists>l'. life_step\<^sup>*\<^sup>* l l' \<and> lf_stage l' = Over)"
    using closing_finishes [of l] unfolding can_finish_def by blast
  ultimately show ?thesis
    by blast
qed

theorem teardown_is_last_and_complete_witness:
  "\<exists>l. life_reach [Timers, Nullifier_store] l \<and> closing l \<and> lf_handlers l = 1 \<and> lf_released l = []"
proof -
  let ?l0 = "life_new [Timers, Nullifier_store]"
  let ?l1 = "?l0\<lparr>lf_binding := True\<rparr>"
  let ?l2 = "?l1\<lparr>lf_binding := False, lf_listening := True\<rparr>"
  let ?l3 = "?l2\<lparr>lf_connections := lf_connections ?l2 + 1\<rparr>"
  let ?l4 = "?l3\<lparr>lf_handlers := lf_handlers ?l3 + 1\<rparr>"
  have n: "\<not> closing ?l0" "\<not> lf_listening ?l0" "lf_binding ?l1" "lf_listening ?l2" "0 < lf_connections ?l3"
    by (simp_all add: life_new_def closing_def)
  have "life_step ?l0 ?l1" "life_step ?l1 ?l2" "life_step ?l2 ?l3" "life_step ?l3 ?l4"
    by (rule ls_listen [OF n(1,2)], rule ls_bound [OF n(3)], rule ls_accept [OF n(4)], rule ls_request [OF n(5)])
  then have "life_reach [Timers, Nullifier_store] ?l4"
    by (intro life_next [OF life_next [OF life_next [OF life_next [OF life_boot]]]])
  then have r: "life_reach [Timers, Nullifier_store] (if closing ?l4 then ?l4 else ?l4\<lparr>lf_stage := Await_refresh\<rparr>)"
    by (rule life_next [OF _ ls_close])
  have c: "\<not> closing ?l4"
    by (simp add: closing_def life_new_def)
  have "lf_handlers (?l4\<lparr>lf_stage := Await_refresh\<rparr>) = 1"
    by (simp add: life_new_def)
  then show ?thesis
    using teardown_is_last_and_complete [OF r] r c by (intro exI [of _ "?l4\<lparr>lf_stage := Await_refresh\<rparr>"]) (auto simp: closing_def)
qed

end
