(* ===== verification/Block_Work.thy ===== *)
theory Block_Work
  imports Octets
begin

section \<open>Naming a block header and its proof of work (common/x11/index.js, oracle/proof\_of\_work.js)\<close>

text \<open>
  A header is named by eleven hash functions run one after the other. The functions themselves are an argument: a
  list, in the order of \<open>ROUNDS\<close>. The compact target in bytes 72 to 75 of the header is read as a 32-bit word, with the bit
  operations of the source.
\<close>

subsection \<open>The chain of rounds and the strict reading of a header\<close>

type_synonym rounds = "(octets \<Rightarrow> octets) list"

definition x11 :: "rounds \<Rightarrow> octets \<Rightarrow> octets" where
  "x11 rounds input = take 32 (foldl (\<lambda>state f. f state) input rounds)"

datatype header_error = Header_not_hex | Header_size nat

definition headerBytes :: "string \<Rightarrow> header_error + octets" where
  "headerBytes headerHex =
     (if \<not> list_all (\<lambda>c. hexDigit c \<noteq> None) headerHex \<or> odd (length headerHex) then Inl Header_not_hex
      else let header = fromHex headerHex in if length header \<noteq> 80 then Inl (Header_size (length header)) else Inr header)"

definition blockHashFromHeader :: "rounds \<Rightarrow> string \<Rightarrow> header_error + string" where
  "blockHashFromHeader rounds headerHex =
     bindE (headerBytes headerHex) (\<lambda>header. Inr (toHex (rev (x11 rounds header))))"

subsection \<open>The compact target\<close>

unbundle bit_operations_syntax

datatype bits_error = Negative_mantissa | Target_too_wide

definition targetFromBits :: "32 word \<Rightarrow> bits_error + nat" where
  "targetFromBits nBits =
     (let exponent = unat (drop_bit 24 nBits);
          mantissa = unat (nBits AND 0x007fffff)
      in if nBits AND 0x00800000 \<noteq> 0 then Inl Negative_mantissa
         else if mantissa = 0 then Inr 0
         else let target = (if exponent \<le> 3 then drop_bit (8 * (3 - exponent)) mantissa else push_bit (8 * (exponent - 3)) mantissa)
              in if target \<ge> 2 ^ 256 then Inl Target_too_wide else Inr target)"

text \<open>\<open>for (i = length - 1; i >= 0; i--) n = (n << 8) | hash[i]\<close>\<close>

definition hashToNumber :: "octets \<Rightarrow> nat" where
  "hashToNumber hash32 = foldl (\<lambda>n b. push_bit 8 n OR unat b) 0 (rev hash32)"

definition MAINNET_POW_LIMIT :: nat where
  "MAINNET_POW_LIMIT = 2 ^ 236 - 1"

definition readUInt32LE :: "octets \<Rightarrow> nat \<Rightarrow> 32 word" where
  "readUInt32LE bs i = word_of_nat (le_nat (take 4 (drop i bs)))"

definition meetsProofOfWork :: "rounds \<Rightarrow> nat \<Rightarrow> string \<Rightarrow> header_error + bool" where
  "meetsProofOfWork rounds powLimit headerHex =
     bindE (headerBytes headerHex) (\<lambda>header.
       Inr (case targetFromBits (readUInt32LE header 72) of
              Inl _ \<Rightarrow> False
            | Inr target \<Rightarrow> target \<noteq> 0 \<and> \<not> target > powLimit \<and> hashToNumber (x11 rounds header) \<le> target))"

subsection \<open>Reading the target as a number\<close>

text \<open>The fields of the compact form by arithmetic: exponent, sign bit and mantissa.\<close>

lemma exponent_arith: "unat (drop_bit 24 (w :: 32 word)) = unat w div 2 ^ 24"
  by (subst unat_drop_bit_eq) (rule drop_bit_eq_div)

lemma mantissa_arith: "unat ((w :: 32 word) AND 0x007fffff) = unat w mod 2 ^ 23"
proof -
  have "(0x007fffff :: 32 word) = mask 23"
    by (simp add: mask_eq_exp_minus_1)
  then have "w AND 0x007fffff = take_bit 23 w"
    by (simp only: take_bit_eq_mask)
  then have "unat (w AND 0x007fffff) = take_bit 23 (unat w)"
    by (simp only: unsigned_take_bit_eq)
  then show ?thesis
    by (simp only: take_bit_eq_mod)
qed

lemma sign_bit: "(w :: 32 word) AND 0x00800000 \<noteq> 0 \<longleftrightarrow> bit w 23"
proof -
  have "(0x00800000 :: 32 word) = 2 ^ 23"
    by simp
  then show ?thesis
    by (simp only: and_exp_eq_0_iff_not_bit not_not)
qed

text \<open>\<open>m * 256 ^ e / 256 ^ 3\<close>, rounded down: what the two shifts compute together.\<close>

definition compact_value :: "nat \<Rightarrow> nat \<Rightarrow> nat" where
  "compact_value m e = m * 256 ^ e div 256 ^ 3"

lemma shifts_value:
  "(if e \<le> 3 then drop_bit (8 * (3 - e)) m else push_bit (8 * (e - 3)) m) = compact_value m e"
proof (cases "e \<le> 3")
  case True
  then have "(256 :: nat) ^ 3 = 256 ^ e * 256 ^ (3 - e)"
    by (simp flip: power_add)
  then have "compact_value m e = m div 256 ^ (3 - e)"
    unfolding compact_value_def mult.commute [of m] by (simp only: div_mult_mult1 power_not_zero zero_neq_numeral not_False_eq_True)
  then show ?thesis
    using True by (simp add: drop_bit_eq_div power_mult)
next
  case False
  then have "(256 :: nat) ^ e = 256 ^ 3 * 256 ^ (e - 3)"
    unfolding power_add [symmetric] by simp
  then have "compact_value m e = m * 256 ^ (e - 3)"
    by (simp add: compact_value_def)
  then show ?thesis
    using False by (simp add: push_bit_eq_mult power_mult)
qed

lemma target_value:
  "targetFromBits w = Inr t \<longleftrightarrow> \<not> bit w 23 \<and> t = compact_value (unat w mod 2 ^ 23) (unat w div 2 ^ 24) \<and> t < 2 ^ 256"
proof -
  have "compact_value 0 e = 0" for e
    by (simp add: compact_value_def)
  then show ?thesis
    unfolding targetFromBits_def Let_def sign_bit exponent_arith mantissa_arith shifts_value
    by (auto simp: not_less)
qed

lemma push_or_octet: "push_bit 8 (n :: nat) OR unat (b :: 8 word) = 256 * n + unat b"
proof -
  have "take_bit 8 (unat b) = unat b"
    by (simp add: take_bit_nat_eq_self)
  then have "unat b = take_bit 8 (unat b)" ..
  then have "push_bit 8 n AND unat b = 0"
    by (metis (no_types, lifting) bit_and_iff bit_eqI bit_push_bit_iff bit_take_bit_iff bit_0_eq bot_apply bot_bool_def not_le)
  then have "push_bit 8 n OR unat b = push_bit 8 n + unat b"
    by (simp add: disjunctive_add_eq_or)
  then show ?thesis
    by (simp add: push_bit_eq_mult)
qed

lemma hashToNumber_le: "hashToNumber bs = le_nat bs"
proof -
  have "foldl (\<lambda>n b. push_bit 8 n OR unat b) a (rev cs) = 256 ^ length cs * a + le_nat cs" for a cs
  proof (induction cs arbitrary: a)
    case (Cons c cs)
    then show ?case
      by (simp add: push_or_octet algebra_simps)
  qed simp
  from this [of 0 bs] show ?thesis
    by (simp add: hashToNumber_def)
qed

lemma headerBytes_Inr:
  "headerBytes s = Inr h \<longleftrightarrow> length s = 160 \<and> list_all (\<lambda>c. hexDigit c \<noteq> None) s \<and> h = fromHex s"
proof -
  have "length (fromHex s) = length s div 2" if "list_all (\<lambda>c. hexDigit c \<noteq> None) s" "even (length s)"
    using that by (intro length_fromHex) (auto simp: list_all_iff)
  then show ?thesis
    by (auto simp: headerBytes_def Let_def)
qed

lemma headerBytes_length: "headerBytes s = Inr h \<Longrightarrow> length h = 80"
  by (auto simp: headerBytes_def Let_def split: if_splits)

text \<open>A header has more than one accepted spelling: the two cases of its letters.\<close>

lemma two_header_spellings: "headerBytes (replicate 160 CHR ''A'') = headerBytes (replicate 160 CHR ''a'')"
proof -
  have "fromHex (replicate (2 * n) CHR ''A'') = fromHex (replicate (2 * n) CHR ''a'')" for n
    by (induction n) (simp_all add: hexDigit_def)
  from this [of 80] have "fromHex (replicate 160 CHR ''A'') = fromHex (replicate 160 CHR ''a'')"
    by (simp)
  then show ?thesis
    unfolding headerBytes_def by (simp add: list_all_iff hexDigit_def)
qed

text \<open>The work check in numbers.\<close>

lemma meetsProofOfWork_True:
  "meetsProofOfWork rounds limit s = Inr True \<longleftrightarrow>
   (\<exists>h t. headerBytes s = Inr h \<and> targetFromBits (readUInt32LE h 72) = Inr t \<and> 0 < t \<and> t \<le> limit \<and> le_nat (x11 rounds h) \<le> t)"
proof (cases "headerBytes s")
  case (Inr h)
  then show ?thesis
    by (cases "targetFromBits (readUInt32LE h 72)") (simp_all add: meetsProofOfWork_def hashToNumber_le not_less)
qed (simp add: meetsProofOfWork_def)

lemma meets_always_answers:
  "headerBytes s = Inr h \<Longrightarrow> \<exists>b. meetsProofOfWork rounds limit s = Inr b"
  by (simp add: meetsProofOfWork_def)

text \<open>A number below \<open>16 ^ (2 * n - k)\<close> is displayed with \<open>k\<close> leading zeros.\<close>

lemma le_nat_append: "le_nat (a @ b) = le_nat a + 256 ^ length a * le_nat b"
  by (induction a) (simp_all add: algebra_simps)

lemma small_number_displays_zeros:
  assumes "length bs = 32" and "le_nat bs < 2 ^ 236"
  shows "take 5 (toHex (rev bs)) = ''00000''"
proof -
  obtain lo x y z where b: "bs = lo @ [x, y, z]" and l: "length lo = 29"
  proof -
    have "length (drop 29 bs) = Suc (Suc (Suc 0))"
      using assms(1) by simp
    then obtain x y z where "drop 29 bs = [x, y, z]"
      unfolding length_Suc_conv length_0_conv by blast
    then have "bs = take 29 bs @ [x, y, z]"
      by (metis append_take_drop_id)
    then show thesis
      by (rule that) (simp add: assms(1))
  qed
  have "256 ^ 29 * le_nat [x, y, z] < 2 ^ 236"
    using assms(2) l by (simp add: b le_nat_append)
  moreover have "(2 :: nat) ^ 236 = 256 ^ 29 * 16"
    by simp
  ultimately have "le_nat [x, y, z] < 16"
    by (metis mult_less_cancel1)
  then have "unat x < 16" "unat y = 0" "unat z = 0"
    by auto
  have "(char_of (48 :: nat) :: char) = CHR ''0''"
    by code_simp
  with \<open>unat x < 16\<close> \<open>unat y = 0\<close> \<open>unat z = 0\<close> have "toHex (rev bs) = ''0000'' @ [hexChar 0, hexChar (unat x)] @ toHex (rev lo)"
    by (simp add: b toHex_def hexChar_def)
  then show ?thesis
    using \<open>char_of 48 = CHR ''0''\<close> by (simp add: hexChar_def)
qed

lemma work_shows_zeros:
  assumes "meetsProofOfWork rounds MAINNET_POW_LIMIT s = Inr True" "\<And>h. headerBytes s = Inr h \<Longrightarrow> length (x11 rounds h) = 32"
  shows "\<exists>name. blockHashFromHeader rounds s = Inr name \<and> take 5 name = ''00000''"
proof -
  obtain h t where h: "headerBytes s = Inr h" "le_nat (x11 rounds h) \<le> t" "t \<le> MAINNET_POW_LIMIT"
    using assms(1) unfolding meetsProofOfWork_True by auto
  then have "le_nat (x11 rounds h) < 2 ^ 236"
    unfolding MAINNET_POW_LIMIT_def by (meson diff_less le_less_trans less_numeral_extra(1) zero_less_numeral zero_less_power)
  then show ?thesis
    using small_number_displays_zeros [OF assms(2) [OF h(1)]] h(1) by (simp add: blockHashFromHeader_def)
qed

subsection \<open>Property\<close>

text \<open>C27: a header is accepted as work only if inventing it cost work. An accepted header is 80 bytes; the target it declares is the exact
  value of its compact form, positive, no easier than the network's own limit, and the number its X11 hash spells does not exceed it; and under
  the main network's limit the block hash the header is named by starts with five zero digits. A malformed target is answered \<open>false\<close>,
  never thrown.\<close>

theorem work_is_floored:
  assumes "headerBytes s = Inr h" and "length (x11 rounds h) = 32"
  shows "(\<exists>b. meetsProofOfWork rounds limit s = Inr b) \<and>
    (meetsProofOfWork rounds limit s = Inr True \<longleftrightarrow>
      (let w = readUInt32LE h 72; t = compact_value (unat w mod 2 ^ 23) (unat w div 2 ^ 24)
       in \<not> bit w 23 \<and> t < 2 ^ 256 \<and> 0 < t \<and> t \<le> limit \<and> le_nat (x11 rounds h) \<le> t)) \<and>
    (meetsProofOfWork rounds MAINNET_POW_LIMIT s = Inr True \<longrightarrow>
      (\<exists>name. blockHashFromHeader rounds s = Inr name \<and> length name = 64 \<and> take 5 name = ''00000''))"
proof (intro conjI impI)
  show "\<exists>b. meetsProofOfWork rounds limit s = Inr b"
    by (rule meets_always_answers [OF assms(1)])
  show "meetsProofOfWork rounds limit s = Inr True \<longleftrightarrow>
      (let w = readUInt32LE h 72; t = compact_value (unat w mod 2 ^ 23) (unat w div 2 ^ 24)
       in \<not> bit w 23 \<and> t < 2 ^ 256 \<and> 0 < t \<and> t \<le> limit \<and> le_nat (x11 rounds h) \<le> t)"
    unfolding meetsProofOfWork_True target_value Let_def using assms(1) by auto
next
  assume "meetsProofOfWork rounds MAINNET_POW_LIMIT s = Inr True"
  then show "\<exists>name. blockHashFromHeader rounds s = Inr name \<and> length name = 64 \<and> take 5 name = ''00000''"
    using work_shows_zeros [of rounds s] assms by (auto simp: blockHashFromHeader_def)
qed

text \<open>A header of zeros that declares \<open>nBits\<close> 0x1d00ffff, under rounds that keep its first bytes.\<close>

definition demo_header_text :: string where
  "demo_header_text = toHex (replicate 72 0 @ [0xff, 0xff, 0x00, 0x1d] @ replicate 4 0)"

lemma toHex_digits: "list_all (\<lambda>c. hexDigit c \<noteq> None) (toHex bs)"
proof (induction bs)
  case (Cons b bs)
  have "unat b div 16 < 16" "unat b mod 16 < 16"
    using unat_octet_less [of b] by (simp_all add: less_mult_imp_div_less)
  then show ?case
    using Cons by (simp add: toHex_def)
qed (simp add: toHex_def)

lemma demo_target: "targetFromBits 0x1d00ffff = Inr (0xffff * 256 ^ 26)"
  by (simp add: target_value compact_value_def bit_numeral_rec)

theorem work_is_floored_witness:
  "meetsProofOfWork [take 64] MAINNET_POW_LIMIT demo_header_text = Inr True \<and>
   (\<exists>name. blockHashFromHeader [take 64] demo_header_text = Inr name \<and> take 5 name = ''00000'')"
proof -
  let ?h = "replicate 72 0 @ [0xff, 0xff, 0x00, 0x1d] @ replicate 4 0 :: octets"
  have h: "headerBytes demo_header_text = Inr ?h"
    unfolding headerBytes_Inr demo_header_text_def
    by (intro conjI toHex_digits) simp_all
  have x: "x11 [take 64] ?h = replicate 32 0"
    by (simp add: x11_def)
  have w: "readUInt32LE ?h 72 = 0x1d00ffff"
    by (simp add: readUInt32LE_def)
  have n: "le_nat (replicate k 0) = 0" for k
    by (induction k) simp_all
  have "(0xffff * 256 ^ 26 :: nat) \<le> MAINNET_POW_LIMIT"
    unfolding MAINNET_POW_LIMIT_def by simp
  then have "meetsProofOfWork [take 64] MAINNET_POW_LIMIT demo_header_text = Inr True"
    unfolding meetsProofOfWork_True using h w x n demo_target by (intro exI conjI) (rule h, simp_all)
  then show ?thesis
    using work_is_floored [OF h, of "[take 64]"] x by auto
qed

end
