(* ===== verification/Node_Snapshot.thy ===== *)
theory Node_Snapshot
  imports Dml_Commitment Block_Work Gateway_Roots "HOL-Library.Char_ord"
begin

section \<open>Reading the masternode list from the gateway's own node (oracle/diff\_snapshot.js, common/dml.js)\<close>

text \<open>
  A read asks the node for its best ChainLock, for the list at that block, and for the block's header; every answer is an input,
  a function of what was asked (\<open>None\<close> is a call that failed). The list is checked before it is filtered, then against the coinbase and
  the header, and its valid entries, in the order of their registration hashes, give the leaves. SHA-256, RIPEMD-160, base58check, the
  rounds of X11 and Poseidon are arguments.
\<close>

subsection \<open>Leaves (common/dml.js)\<close>

record 'n node_crypto =
  nc_sha :: "octets \<Rightarrow> octets"
  nc_ripemd :: "octets \<Rightarrow> octets"
  nc_b58 :: "string \<Rightarrow> octets option"
  nc_rounds :: rounds
  nc_poseidon :: "'n poseidon"

text \<open>\<open>BigInt("0x" + hex)\<close> of a byte string: its value, most significant byte first.\<close>

definition be_nat :: "octets \<Rightarrow> nat" where
  "be_nat bs = le_nat (rev bs)"

definition leafFromPubkey :: "'n node_crypto \<Rightarrow> octets \<Rightarrow> nat" where
  "leafFromPubkey C pub = be_nat (nc_ripemd C (nc_sha C pub))"

definition KEY_ZERO_LEAF :: "'n node_crypto \<Rightarrow> nat" where
  "KEY_ZERO_LEAF C = leafFromPubkey C ([0x02] @ replicate 32 0)"

text \<open>The address does not decode, or to nothing behind its version byte (\<open>BigInt("0x")\<close> throws): \<open>None\<close>.\<close>

definition votingAddressToLeaf :: "'n node_crypto \<Rightarrow> string \<Rightarrow> nat option" where
  "votingAddressToLeaf C address =
     (case nc_b58 C address of
        None \<Rightarrow> None
      | Some decoded \<Rightarrow> if drop 1 decoded = [] then None else Some (be_nat (drop 1 decoded)))"

subsection \<open>The node's answers\<close>

record lock_answer =
  lk_blockhash :: jvalue
  lk_height :: jvalue
  lk_known_block :: jvalue

datatype diff_item = Di_primitive | Di_null | Di_entry "string list" sml_entry

text \<open>\<open>Di_entry fs e\<close> is an object that has the properties \<open>fs\<close>.\<close>

record diff_answer =
  df_blockHash :: jvalue
  df_mnList :: "diff_item list option"
  df_cbTx :: jvalue
  df_cbTxMerkleTree :: jvalue

record node_rpc =
  nr_getbestchainlock :: "lock_answer option"
  nr_protx_diff :: "int \<Rightarrow> diff_answer option"
  nr_getblockheader :: "string \<Rightarrow> jvalue option"

datatype read_error =
    Call_failed | No_chainlock | Still_syncing | Known_block_not_true | Lock_hash_malformed
  | Diff_without_hash | Diff_other_block string | No_list
  | Entry_not_object | Entry_lacks string | Entry_bad_hash | Entry_bad_address string | Entry_bad_valid string | Entry_repeated string
  | Header_not_text | Artefact_malformed string | Header_unreadable header_error | Header_of_other_block string | Header_without_work
  | Commitment_refused commitment_error | Commitment_of_other_height nat
  | Address_undecodable string | Empty_leaf string | Tree_refused

subsection \<open>The list, entry by entry\<close>

definition REQUIRED_ENTRY_FIELDS :: "string list" where
  "REQUIRED_ENTRY_FIELDS = [''proRegTxHash'', ''votingAddress'', ''isValid'']"

definition lower_hex :: "nat \<Rightarrow> string \<Rightarrow> bool" where
  "lower_hex n s \<longleftrightarrow> length s = n \<and> list_all (\<lambda>c. is_digit c \<or> c \<in> set ''abcdef'') s"

definition entry_check :: "string list \<Rightarrow> sml_entry \<Rightarrow> read_error + string" where
  "entry_check seen e =
     (case se_proRegTxHash e of
        F_str h \<Rightarrow>
          if \<not> lower_hex 64 h then Inl Entry_bad_hash
          else (case se_votingAddress e of
                  F_str _ \<Rightarrow>
                    if se_isValid e = None then Inl (Entry_bad_valid h)
                    else if h \<in> set seen then Inl (Entry_repeated h)
                    else Inr h
                | _ \<Rightarrow> Inl (Entry_bad_address h))
      | _ \<Rightarrow> Inl Entry_bad_hash)"

fun check_entries :: "string list \<Rightarrow> diff_item list \<Rightarrow> read_error + sml_entry list" where
  "check_entries seen [] = Inr []"
| "check_entries seen (Di_primitive # items) = Inl Entry_not_object"
| "check_entries seen (Di_null # items) = Inl (Entry_lacks (hd REQUIRED_ENTRY_FIELDS))"
| "check_entries seen (Di_entry fs e # items) =
     (case find (\<lambda>f. f \<notin> set fs) REQUIRED_ENTRY_FIELDS of
        Some f \<Rightarrow> Inl (Entry_lacks f)
      | None \<Rightarrow> bindE (entry_check seen e) (\<lambda>h. bindE (check_entries (h # seen) items) (\<lambda>es. Inr (e # es))))"

definition hash_text :: "sml_entry \<Rightarrow> string" where
  "hash_text e = js_text (se_proRegTxHash e)"

definition valid_in_order :: "sml_entry list \<Rightarrow> sml_entry list" where
  "valid_in_order mnList = sort_key hash_text (filter (\<lambda>e. se_isValid e = Some True) mnList)"

text \<open>The loop both readers share: an empty leaf refuses the read, the key-0 leaf is left out.\<close>

fun leaf_loop :: "'n node_crypto \<Rightarrow> (string \<times> string) list \<Rightarrow> read_error + nat list" where
  "leaf_loop C [] = Inr []"
| "leaf_loop C ((name, address) # rest) =
     (case votingAddressToLeaf C address of
        None \<Rightarrow> Inl (Address_undecodable address)
      | Some leaf \<Rightarrow>
          if leaf = 0 then Inl (Empty_leaf name)
          else bindE (leaf_loop C rest) (\<lambda>ls. Inr (if leaf = KEY_ZERO_LEAF C then ls else leaf # ls)))"

definition list_leaves :: "'n node_crypto \<Rightarrow> sml_entry list \<Rightarrow> read_error + nat list" where
  "list_leaves C mnList = leaf_loop C (map (\<lambda>e. (hash_text e, js_text (se_votingAddress e))) (valid_in_order mnList))"

subsection \<open>Both roots\<close>

definition byte_sha :: "(octets \<Rightarrow> octets) \<Rightarrow> bytes \<Rightarrow> bytes" where
  "byte_sha sha bs = map unat (sha (map word_of_nat bs))"

definition both_roots :: "'n node_crypto \<Rightarrow> nat \<Rightarrow> nat list \<Rightarrow> read_error + string \<times> string" where
  "both_roots C depth leaves =
     (case rootFromLeaves (nc_poseidon C) depth (map dec_of_nat leaves) of
        Inl _ \<Rightarrow> Inl Tree_refused
      | Inr root \<Rightarrow>
          (case bindE (mapE leafToKeyId leaves) (rootFromKeyIds (byte_sha (nc_sha C)) depth) of
             Inl _ \<Rightarrow> Inl Tree_refused
           | Inr shaRoot \<Rightarrow> Inr (root, shaRoot)))"

subsection \<open>The read\<close>

definition hex_text :: "string \<Rightarrow> bool" where
  "hex_text s \<longleftrightarrow> s \<noteq> [] \<and> list_all (\<lambda>c. hexDigit c \<noteq> None) s"

definition chainlock :: "lock_answer option \<Rightarrow> read_error + string \<times> int" where
  "chainlock answer =
     (case answer of
        None \<Rightarrow> Inl Call_failed
      | Some lock \<Rightarrow>
          (case (lk_blockhash lock, lk_height lock) of
             (V_string hash, V_int height) \<Rightarrow>
               if lk_known_block lock = V_bool False then Inl Still_syncing
               else if lk_known_block lock \<noteq> V_bool True then Inl Known_block_not_true
               else if \<not> lower_hex 64 hash then Inl Lock_hash_malformed
               else Inr (hash, height)
           | _ \<Rightarrow> Inl No_chainlock))"

definition bound_list :: "string \<Rightarrow> diff_answer option \<Rightarrow> read_error + diff_answer \<times> sml_entry list" where
  "bound_list lockedHash answer =
     (case answer of
        None \<Rightarrow> Inl Call_failed
      | Some diff \<Rightarrow>
          (case df_blockHash diff of
             V_string hash \<Rightarrow>
               if hash \<noteq> lockedHash then Inl (Diff_other_block hash)
               else (case df_mnList diff of
                       None \<Rightarrow> Inl No_list
                     | Some items \<Rightarrow> bindE (check_entries [] items) (\<lambda>es. Inr (diff, es)))
           | _ \<Rightarrow> Inl Diff_without_hash))"

definition artefact :: "string \<Rightarrow> jvalue \<Rightarrow> read_error + string" where
  "artefact name value =
     (case value of
        V_string s \<Rightarrow> if hex_text s \<and> even (length s) then Inr s else Inl (Artefact_malformed name)
      | _ \<Rightarrow> Inl (Artefact_malformed name))"

text \<open>The header is the locked block's and carries work.\<close>

definition named_header :: "'n node_crypto \<Rightarrow> string \<Rightarrow> string \<Rightarrow> read_error option" where
  "named_header C lockedHash header =
     (case blockHashFromHeader (nc_rounds C) header of
        Inl e \<Rightarrow> Some (Header_unreadable e)
      | Inr named \<Rightarrow>
          if named \<noteq> lockedHash then Some (Header_of_other_block named)
          else (case meetsProofOfWork (nc_rounds C) MAINNET_POW_LIMIT header of
                  Inl e \<Rightarrow> Some (Header_unreadable e)
                | Inr works \<Rightarrow> if works then None else Some Header_without_work))"

text \<open>The commitment check over the whole list. The outer \<open>None\<close> is a check that does not return.\<close>

definition check_commitment :: "'n node_crypto \<Rightarrow> string \<Rightarrow> int \<Rightarrow> diff_answer \<Rightarrow> sml_entry list \<Rightarrow> jvalue option \<Rightarrow> (read_error + unit) option" where
  "check_commitment C lockedHash lockedHeight diff mnList header =
     (case header of
        None \<Rightarrow> Some (Inl Call_failed)
      | Some (V_string h) \<Rightarrow>
          if \<not> hex_text h then Some (Inl Header_not_text)
          else (case (artefact ''cbTx'' (df_cbTx diff), artefact ''cbTxMerkleTree'' (df_cbTxMerkleTree diff)) of
                  (Inl e, _) \<Rightarrow> Some (Inl e)
                | (_, Inl e) \<Rightarrow> Some (Inl e)
                | (Inr cbTx, Inr tree) \<Rightarrow>
                    (case named_header C lockedHash h of
                       Some e \<Rightarrow> Some (Inl e)
                     | None \<Rightarrow>
                         map_option
                           (\<lambda>r. case r of
                              Inl e \<Rightarrow> Inl (Commitment_refused e)
                            | Inr proof_ \<Rightarrow> if int (vd_height proof_) \<noteq> lockedHeight then Inl (Commitment_of_other_height (vd_height proof_)) else Inr ())
                           (verifyDmlCommitment (nc_sha C) (nc_b58 C) mnList cbTx tree h)))
      | Some _ \<Rightarrow> Some (Inl Header_not_text))"

definition diff_snapshot :: "nat \<Rightarrow> string \<Rightarrow> int \<Rightarrow> int \<Rightarrow> nat list \<Rightarrow> string \<times> string \<Rightarrow> oracle_snapshot" where
  "diff_snapshot depth lockedHash lockedHeight ts leaves roots =
     \<lparr>os_version = V_int 3, os_height = V_int lockedHeight, os_blockHash = V_string lockedHash, os_depth = V_int (int depth),
      os_root = V_string (fst roots), os_shaRoot = V_string (snd roots), os_order = V_string ''proRegTxHash'',
      os_chainlocked = V_bool True, os_ts = V_int ts, os_leaves = Some (map (\<lambda>l. V_string (dec_of_nat l)) leaves), os_sigs = None\<rparr>"

definition buildDiffSnapshot :: "'n node_crypto \<Rightarrow> node_rpc \<Rightarrow> nat \<Rightarrow> int \<Rightarrow> bool \<Rightarrow> (read_error + oracle_snapshot) option" where
  "buildDiffSnapshot C rpc depth now verifyCommitment =
     (case chainlock (nr_getbestchainlock rpc) of
        Inl e \<Rightarrow> Some (Inl e)
      | Inr (hash, height) \<Rightarrow>
          (case bound_list hash (nr_protx_diff rpc height) of
             Inl e \<Rightarrow> Some (Inl e)
           | Inr (diff, mnList) \<Rightarrow>
               map_option
                 (\<lambda>checked. bindE checked (\<lambda>_. bindE (list_leaves C mnList) (\<lambda>leaves. bindE (both_roots C depth leaves) (\<lambda>roots.
                    Inr (diff_snapshot depth hash height now leaves roots)))))
                 (if verifyCommitment then check_commitment C hash height diff mnList (nr_getblockheader rpc hash) else Some (Inr ()))))"

subsection \<open>A read always ends\<close>

lemma check_commitment_returns: "\<exists>r. check_commitment C hash height diff mnList header = Some r"
  using verify_always_returns unfolding check_commitment_def
  by (auto split: option.splits jvalue.splits sum.splits)

lemma build_returns: "\<exists>r. buildDiffSnapshot C rpc depth now verify = Some r"
  using check_commitment_returns by (fastforce simp: buildDiffSnapshot_def split: sum.splits)

subsection \<open>What an accepted list looks like\<close>

definition well_formed_entry :: "sml_entry \<Rightarrow> bool" where
  "well_formed_entry e \<longleftrightarrow> (\<exists>h a. se_proRegTxHash e = F_str h \<and> lower_hex 64 h \<and> se_votingAddress e = F_str a) \<and> se_isValid e \<noteq> None"

lemma entry_check_Inr:
  "entry_check seen e = Inr h \<longleftrightarrow> well_formed_entry e \<and> h = hash_text e \<and> h \<notin> set seen"
  by (auto simp: entry_check_def well_formed_entry_def hash_text_def js_text_def split: jfield.splits)

lemma check_entries_Inr:
  "check_entries seen items = Inr es \<Longrightarrow> list_all well_formed_entry es \<and> distinct (map hash_text es) \<and> set (map hash_text es) \<inter> set seen = {}"
proof (induction seen items arbitrary: es rule: check_entries.induct)
  case (4 seen fs e items)
  then obtain h es' where "entry_check seen e = Inr h" "check_entries (h # seen) items = Inr es'" "es = e # es'"
    by (auto simp: bindE_Inr split: option.splits)
  moreover from this have "h = hash_text e" "h \<notin> set seen" "well_formed_entry e"
    by (auto simp: entry_check_Inr)
  ultimately show ?case
    using 4(1) [of h es'] 4(2) by (auto split: option.splits)
qed simp_all

lemma check_entries_takes:
  "list_all well_formed_entry es \<Longrightarrow> distinct (map hash_text es) \<Longrightarrow> set (map hash_text es) \<inter> set seen = {} \<Longrightarrow>
   check_entries seen (map (Di_entry REQUIRED_ENTRY_FIELDS) es) = Inr es"
proof (induction es arbitrary: seen)
  case (Cons e es)
  have f: "find (\<lambda>f. f \<notin> set REQUIRED_ENTRY_FIELDS) REQUIRED_ENTRY_FIELDS = None"
    by (simp add: find_None_iff)
  have "entry_check seen e = Inr (hash_text e)"
    using Cons.prems by (simp add: entry_check_Inr)
  moreover have "check_entries (hash_text e # seen) (map (Di_entry REQUIRED_ENTRY_FIELDS) es) = Inr es"
    using Cons.prems by (intro Cons.IH) auto
  ultimately show ?case
    using f by simp
qed simp

subsection \<open>The leaves of a list\<close>

definition leaf_of :: "'n node_crypto \<Rightarrow> string \<Rightarrow> nat" where
  "leaf_of C address = the (votingAddressToLeaf C address)"

lemma leaf_loop_Inr:
  "leaf_loop C xs = Inr ls \<longleftrightarrow> (\<forall>x \<in> set xs. \<exists>l. votingAddressToLeaf C (snd x) = Some l \<and> l \<noteq> 0) \<and>
     ls = filter (\<lambda>l. l \<noteq> KEY_ZERO_LEAF C) (map (\<lambda>x. leaf_of C (snd x)) xs)"
proof (induction C xs arbitrary: ls rule: leaf_loop.induct)
  case (2 C name address rest)
  show ?case
  proof (cases "votingAddressToLeaf C address")
    case (Some leaf)
    then show ?thesis
      using 2 by (cases "leaf = 0") (auto simp: bindE_Inr leaf_of_def)
  qed simp
qed auto

text \<open>What of an entry the leaves depend on, and how its committed bytes carry it.\<close>

definition entry_info :: "'n node_crypto \<Rightarrow> sml_entry \<Rightarrow> string \<times> bool \<times> nat option" where
  "entry_info C e = (hash_text e, se_isValid e = Some True, votingAddressToLeaf C (js_text (se_votingAddress e)))"

definition bytes_info :: "octets \<Rightarrow> string \<times> bool \<times> nat option" where
  "bytes_info bs = (toHex (rev (take 32 bs)), bs ! 150 = 1, Some (be_nat (take 20 (drop 130 bs))))"

lemma lower_digit:
  assumes "is_digit c \<or> c \<in> set ''abcdef''"
  shows "\<exists>n < 16. hexDigit c = Some n \<and> hexChar n = c"
proof -
  have "\<exists>n < 16. hexChar n = c"
  proof (cases "is_digit c")
    case True
    then show ?thesis
      using digit_val_less [of c] digit_char_digit_val [of c]
      by (intro exI [of _ "digit_val c"]) (simp add: hexChar_def digit_char_def)
  next
    case False
    then have "97 \<le> (of_char c :: nat) \<and> (of_char c :: nat) < 103"
      using assms by auto
    then show ?thesis
      by (intro exI [of _ "of_char c - 87"]) (auto simp: hexChar_def)
  qed
  then show ?thesis
    by auto
qed

lemma lower_hex_reads:
  assumes "list_all (\<lambda>c. is_digit c \<or> c \<in> set ''abcdef'') s" "even (length s)"
  shows "toHex (fromHex s) = s"
  using assms
proof (induction s rule: fromHex.induct)
  case (1 a b s)
  obtain x y where x: "x < 16" "hexDigit a = Some x" "hexChar x = a" and y: "y < 16" "hexDigit b = Some y" "hexChar y = b"
    using 1(2) lower_digit [of a] lower_digit [of b] by auto
  have "toHex (fromHex s) = s"
    using 1 x y by auto
  moreover have "(16 * x + y) div 16 = x" "(16 * x + y) mod 16 = y" "16 * x + y < 256"
    using x(1) y(1) by auto
  moreover have "unat (word_of_nat (16 * x + y) :: 8 word) = 16 * x + y"
    using x(1) y(1) by (intro unat_octet) linarith
  ultimately show ?case
    using x y by (simp add: toHex_def del: of_nat_add of_nat_mult)
qed (simp_all add: toHex_def)

text \<open>The bytes of a well-formed entry carry its text, its validity and its leaf.\<close>

lemma committed_info:
  assumes "well_formed_entry e" "smlEntryBytes (nc_b58 C) e = Inr (bytes_of (nc_b58 C) e)"
  shows "entry_info C e = bytes_info (bytes_of (nc_b58 C) e)"
proof -
  obtain p where p: "entry_has (nc_b58 C) e p" "bytes_of (nc_b58 C) e = parts_bytes p"
    using smlEntryBytes_parts [OF assms(2)] by blast
  note lens = entry_has_lengths [OF p(1)]
  obtain h where h: "se_proRegTxHash e = F_str h" "lower_hex 64 h"
    using assms(1) by (auto simp: well_formed_entry_def)
  then have "ep_proReg p = fromHex h"
    using p(1) by (simp add: entry_has_def fixedHex_def split: if_splits)
  moreover have "take 32 (parts_bytes p) = rev (ep_proReg p)"
    using lens by (simp add: parts_bytes_def)
  ultimately have hash: "toHex (rev (take 32 (parts_bytes p))) = hash_text e"
    using h lower_hex_reads [of h] by (simp add: lower_hex_def hash_text_def js_text_def)
  have key: "take 20 (drop 130 (parts_bytes p)) = ep_keyId p"
    using lens by (simp add: parts_bytes_def)
  obtain decoded where d: "nc_b58 C (js_text (se_votingAddress e)) = Some decoded" "length decoded = 21" "tl decoded = ep_keyId p"
    using p(1) by (auto simp: entry_has_def votingKeyId_def split: option.splits if_splits)
  then have leaf: "votingAddressToLeaf C (js_text (se_votingAddress e)) = Some (be_nat (ep_keyId p))"
    using lens(5) by (auto simp: votingAddressToLeaf_def drop_Suc)
  have "parts_bytes p ! 150 = (if ep_valid p then 1 else 0)"
    using lens by (simp add: parts_bytes_def nth_append)
  moreover have "se_isValid e = Some (ep_valid p)"
    using p(1) by (simp add: entry_has_def)
  ultimately show ?thesis
    using hash key leaf p(2) by (simp add: entry_info_def bytes_info_def)
qed

lemma sort_key_map: "sort_key f (map g xs) = map g (sort_key (f \<circ> g) xs)"
proof -
  have "insort_key f (g x) (map g ys) = map g (insort_key (f \<circ> g) x ys)" for x ys
    by (induction ys) simp_all
  then show ?thesis
    by (induction xs) simp_all
qed

text \<open>So two lists with the same committed entries have the same leaves, in the same order.\<close>

lemma list_leaves_info:
  "list_leaves C l = Inr ls \<longleftrightarrow>
   (let xs = sort_key fst (filter (\<lambda>x. fst (snd x)) (map (entry_info C) l)) in
    (\<forall>x \<in> set xs. \<exists>n. snd (snd x) = Some n \<and> n \<noteq> 0) \<and> ls = filter (\<lambda>n. n \<noteq> KEY_ZERO_LEAF C) (map (\<lambda>x. the (snd (snd x))) xs))"
proof -
  have "sort_key fst (filter (\<lambda>x. fst (snd x)) (map (entry_info C) l)) = map (entry_info C) (valid_in_order l)"
  proof -
    have "fst \<circ> entry_info C = hash_text" "(\<lambda>x. fst (snd x)) \<circ> entry_info C = (\<lambda>e. se_isValid e = Some True)"
      by (auto simp: entry_info_def)
    then show ?thesis
      unfolding valid_in_order_def filter_map by (simp add: sort_key_map)
  qed
  then show ?thesis
    unfolding list_leaves_def leaf_loop_Inr Let_def by (simp add: entry_info_def leaf_of_def comp_def)
qed

lemma same_info_same_leaves:
  assumes "mset (map (entry_info C) l) = mset (map (entry_info C) l')" "distinct (map hash_text l)"
  shows "list_leaves C l = Inr ls \<longleftrightarrow> list_leaves C l' = Inr ls"
proof -
  let ?f = "\<lambda>m. filter (\<lambda>x. fst (snd x)) (map (entry_info C) m)"
  have "mset (?f l) = mset (?f l')"
    by (simp only: mset_filter assms(1))
  moreover have "inj_on fst (set (?f l))"
  proof (rule inj_on_subset)
    have "map fst (map (entry_info C) l) = map hash_text l"
      by (simp add: entry_info_def)
    then show "inj_on fst (set (map (entry_info C) l))"
      using assms(2) by (metis distinct_map)
  qed auto
  ultimately have "sort_key fst (?f l) = sort_key fst (?f l')"
    by (intro sort_key_inj_key_eq) auto
  then show ?thesis
    unfolding list_leaves_info by simp
qed

lemma same_bytes_same_leaves:
  assumes "list_all well_formed_entry l" "list_all well_formed_entry l'" "distinct (map hash_text l)"
    and "\<forall>e \<in> set l. smlEntryBytes (nc_b58 C) e = Inr (bytes_of (nc_b58 C) e)" "\<forall>e \<in> set l'. smlEntryBytes (nc_b58 C) e = Inr (bytes_of (nc_b58 C) e)"
    and "mset (map (bytes_of (nc_b58 C)) l) = mset (map (bytes_of (nc_b58 C)) l')"
  shows "list_leaves C l = Inr ls \<longleftrightarrow> list_leaves C l' = Inr ls"
proof (rule same_info_same_leaves [OF _ assms(3)])
  have info: "map (entry_info C) m = map bytes_info (map (bytes_of (nc_b58 C)) m)"
    if "list_all well_formed_entry m" "\<forall>e \<in> set m. smlEntryBytes (nc_b58 C) e = Inr (bytes_of (nc_b58 C) e)" for m
    using that committed_info by (auto simp: list_all_iff)
  have "mset (map bytes_info (map (bytes_of (nc_b58 C)) l)) = image_mset bytes_info (mset (map (bytes_of (nc_b58 C)) l))"
    by (rule mset_map)
  also have "\<dots> = mset (map bytes_info (map (bytes_of (nc_b58 C)) l'))"
    unfolding assms(6) by (rule mset_map [symmetric])
  finally show "mset (map (entry_info C) l) = mset (map (entry_info C) l')"
    unfolding info [OF assms(1,4)] info [OF assms(2,5)] .
qed

subsection \<open>What a read checked\<close>

text \<open>The facts behind a snapshot built with the commitment check.\<close>

record read_facts =
  rdf_hash :: string
  rdf_height :: int
  rdf_diff :: diff_answer
  rdf_list :: "sml_entry list"
  rdf_cbTx :: string
  rdf_tree :: string
  rdf_header :: string
  rdf_verified :: verified_dml
  rdf_leaves :: "nat list"
  rdf_roots :: "string \<times> string"

definition read_ok :: "'n node_crypto \<Rightarrow> node_rpc \<Rightarrow> nat \<Rightarrow> read_facts \<Rightarrow> bool" where
  "read_ok C rpc depth f \<longleftrightarrow>
     chainlock (nr_getbestchainlock rpc) = Inr (rdf_hash f, rdf_height f) \<and>
     bound_list (rdf_hash f) (nr_protx_diff rpc (rdf_height f)) = Inr (rdf_diff f, rdf_list f) \<and>
     nr_getblockheader rpc (rdf_hash f) = Some (V_string (rdf_header f)) \<and>
     named_header C (rdf_hash f) (rdf_header f) = None \<and>
     df_cbTx (rdf_diff f) = V_string (rdf_cbTx f) \<and> df_cbTxMerkleTree (rdf_diff f) = V_string (rdf_tree f) \<and>
     verifyDmlCommitment (nc_sha C) (nc_b58 C) (rdf_list f) (rdf_cbTx f) (rdf_tree f) (rdf_header f) = Some (Inr (rdf_verified f)) \<and>
     int (vd_height (rdf_verified f)) = rdf_height f \<and>
     list_leaves C (rdf_list f) = Inr (rdf_leaves f) \<and> both_roots C depth (rdf_leaves f) = Inr (rdf_roots f)"

lemma artefact_Inr: "artefact name v = Inr s \<longleftrightarrow> v = V_string s \<and> hex_text s \<and> even (length s)"
  by (auto simp: artefact_def split: jvalue.splits)

lemma check_commitment_ok:
  assumes "check_commitment C hash height diff l header = Some (Inr ())"
  obtains h cbTx tree v where "header = Some (V_string h)" "df_cbTx diff = V_string cbTx" "df_cbTxMerkleTree diff = V_string tree"
    "named_header C hash h = None" "verifyDmlCommitment (nc_sha C) (nc_b58 C) l cbTx tree h = Some (Inr v)" "int (vd_height v) = height"
proof -
  have "\<exists>h cbTx tree. header = Some (V_string h) \<and> df_cbTx diff = V_string cbTx \<and> df_cbTxMerkleTree diff = V_string tree \<and>
      named_header C hash h = None \<and> (\<exists>r. verifyDmlCommitment (nc_sha C) (nc_b58 C) l cbTx tree h = Some r \<and>
        (case r of Inl e \<Rightarrow> Inl (Commitment_refused e)
         | Inr v \<Rightarrow> if int (vd_height v) \<noteq> height then Inl (Commitment_of_other_height (vd_height v)) else Inr ()) = Inr ())"
    using assms unfolding check_commitment_def
    by (auto split: option.split_asm jvalue.split_asm if_split_asm simp: artefact_Inr)
      (auto split: sum.split_asm option.split_asm simp: artefact_Inr)
  then obtain h cbTx tree r where *: "header = Some (V_string h)" "df_cbTx diff = V_string cbTx" "df_cbTxMerkleTree diff = V_string tree"
      "named_header C hash h = None" "verifyDmlCommitment (nc_sha C) (nc_b58 C) l cbTx tree h = Some r"
      "(case r of Inl e \<Rightarrow> Inl (Commitment_refused e)
         | Inr v \<Rightarrow> if int (vd_height v) \<noteq> height then Inl (Commitment_of_other_height (vd_height v)) else Inr ()) = Inr ()"
    by blast
  obtain v where "r = Inr v" "int (vd_height v) = height"
    using *(6) by (cases r) (auto split: if_splits)
  with * show thesis
    using that by blast
qed

lemma build_ok:
  assumes "buildDiffSnapshot C rpc depth now True = Some (Inr s)"
  obtains f where "read_ok C rpc depth f" "s = diff_snapshot depth (rdf_hash f) (rdf_height f) now (rdf_leaves f) (rdf_roots f)"
proof -
  obtain hash height diff l where b: "chainlock (nr_getbestchainlock rpc) = Inr (hash, height)"
      "bound_list hash (nr_protx_diff rpc height) = Inr (diff, l)"
    using assms by (auto simp: buildDiffSnapshot_def split: sum.splits)
  obtain leaves roots where c: "check_commitment C hash height diff l (nr_getblockheader rpc hash) = Some (Inr ())"
      "list_leaves C l = Inr leaves" "both_roots C depth leaves = Inr roots" "s = diff_snapshot depth hash height now leaves roots"
    using assms b by (auto simp: buildDiffSnapshot_def bindE_Inr)
  obtain h cbTx tree v where d: "nr_getblockheader rpc hash = Some (V_string h)" "df_cbTx diff = V_string cbTx"
      "df_cbTxMerkleTree diff = V_string tree" "named_header C hash h = None"
      "verifyDmlCommitment (nc_sha C) (nc_b58 C) l cbTx tree h = Some (Inr v)" "int (vd_height v) = height"
    by (rule check_commitment_ok [OF c(1)])
  show thesis
    by (rule that [of "\<lparr>rdf_hash = hash, rdf_height = height, rdf_diff = diff, rdf_list = l, rdf_cbTx = cbTx, rdf_tree = tree,
          rdf_header = h, rdf_verified = v, rdf_leaves = leaves, rdf_roots = roots\<rparr>"])
      (simp_all add: read_ok_def b c d)
qed

lemma bound_list_ok:
  assumes "bound_list hash answer = Inr (diff, l)"
  shows "df_blockHash diff = V_string hash \<and> list_all well_formed_entry l \<and> distinct (map hash_text l)"
  using assms unfolding bound_list_def
  by (auto split: option.splits jvalue.splits if_splits simp: bindE_Inr dest!: check_entries_Inr)

lemma chainlock_ok:
  "chainlock answer = Inr (hash, height) \<longleftrightarrow>
   (\<exists>lock. answer = Some lock \<and> lk_blockhash lock = V_string hash \<and> lk_height lock = V_int height \<and>
      lk_known_block lock = V_bool True \<and> lower_hex 64 hash)"
  by (auto simp: chainlock_def split: option.splits jvalue.splits if_splits)

lemma named_header_ok:
  "named_header C hash h = None \<longleftrightarrow>
   blockHashFromHeader (nc_rounds C) h = Inr hash \<and> meetsProofOfWork (nc_rounds C) MAINNET_POW_LIMIT h = Inr True"
  by (auto simp: named_header_def split: sum.splits)

text \<open>The leaves of a list, said without the code's own functions: its valid entries by registration hash, each with a leaf.\<close>

lemma list_leaves_explicit:
  "list_leaves C L = Inr leaves \<longleftrightarrow>
   (let M = sort_key hash_text (filter (\<lambda>e. se_isValid e = Some True) L) in
    (\<forall>e \<in> set M. \<exists>n. votingAddressToLeaf C (js_text (se_votingAddress e)) = Some n \<and> n \<noteq> 0) \<and>
    leaves = filter (\<lambda>n. n \<noteq> KEY_ZERO_LEAF C) (map (\<lambda>e. leaf_of C (js_text (se_votingAddress e))) M))"
  by (simp add: list_leaves_def leaf_loop_Inr valid_in_order_def Let_def comp_def)

lemma both_roots_Inr:
  "both_roots C depth leaves = Inr (r, h) \<longleftrightarrow> rootFromLeaves (nc_poseidon C) depth (map dec_of_nat leaves) = Inr r \<and>
     (\<exists>ids. mapE leafToKeyId leaves = Inr ids \<and> rootFromKeyIds (byte_sha (nc_sha C)) depth ids = Inr h)"
  by (auto simp: both_roots_def bindE_Inr split: sum.splits)

subsection \<open>Property\<close>

text \<open>C20: what a gateway with its own node serves is the block's own membership. A snapshot built from the node names the ChainLocked block:
  the header hashes to that name, with five zero digits of work, and its height is the one its coinbase commits to. And when that header carries the
  root over the block's transactions, the first of which commits to the list \<open>L\<close>, the published leaves are exactly those of the valid entries of
  \<open>L\<close>, in the order of their registration hashes, with only the leaf anyone could prove left out: no entry is dropped, added, altered or
  moved on the way. The snapshot says by which order and that the block is ChainLocked, and its two roots are the Poseidon and the SHA-256 root of
  exactly those leaves. Asked of the digest and of the block: as for the commitment check.\<close>

theorem node_read_publishes_the_blocks_members:
  assumes "buildDiffSnapshot C rpc depth now True = Some (Inr s)"
    and "os_blockHash s = V_string hash" "nr_getblockheader rpc hash = Some (V_string header)"
    and "nr_protx_diff rpc (int_of (os_height s)) = Some diff" "df_mnList diff = Some items" "check_entries [] items = Inr l" "l \<noteq> []"
    and "df_cbTx diff = V_string cbTx" "df_cbTxMerkleTree diff = V_string tree" "partialMerkleTree (nc_sha C) tree = Some (Inr branch)"
    and "\<And>z. length (nc_sha C z) = 32" "\<And>h. length (x11 (nc_rounds C) h) = 32"
    and "txs \<noteq> []" "merkle_loop (sha256d (nc_sha C)) (map (sha256d (nc_sha C)) txs) = take 32 (drop 36 (fromHex header))"
    and "cbTxCommitment (toHex (hd txs)) = Inr c" "cm_merkleRootMNList c = toHex (rev root)"
    and "smlMerkleRoot (nc_sha C) (nc_b58 C) L = Inr root" "L \<noteq> []" "list_all well_formed_entry L"
    and "\<forall>t\<in>set txs. length t \<noteq> 64" "length (fromHex cbTx) \<noteq> 64"
    and "inj_on (sha256d (nc_sha C)) (set (pt_hashed branch) \<union> tree_msgs (sha256d (nc_sha C)) (map (sha256d (nc_sha C)) txs) \<union> set txs
           \<union> {fromHex cbTx} \<union> list_msgs (nc_sha C) (nc_b58 C) l \<union> list_msgs (nc_sha C) (nc_b58 C) L)"
  shows "(let M = sort_key hash_text (filter (\<lambda>e. se_isValid e = Some True) L);
         leaves = filter (\<lambda>n. n \<noteq> KEY_ZERO_LEAF C) (map (\<lambda>e. leaf_of C (js_text (se_votingAddress e))) M) in
       (\<forall>e \<in> set M. \<exists>n. votingAddressToLeaf C (js_text (se_votingAddress e)) = Some n \<and> n \<noteq> 0) \<and>
       os_leaves s = Some (map (\<lambda>n. V_string (dec_of_nat n)) leaves) \<and>
       (\<exists>r. rootFromLeaves (nc_poseidon C) depth (map dec_of_nat leaves) = Inr r \<and> os_root s = V_string r) \<and>
       (\<exists>ids h. mapE leafToKeyId leaves = Inr ids \<and> rootFromKeyIds (byte_sha (nc_sha C)) depth ids = Inr h \<and> os_shaRoot s = V_string h)) \<and>
    os_order s = V_string ''proRegTxHash'' \<and> os_chainlocked s = V_bool True \<and> os_depth s = V_int (int depth) \<and>
    os_height s = V_int (int (cm_height c)) \<and> blockHashFromHeader (nc_rounds C) header = Inr hash \<and> take 5 hash = ''00000''"
proof -
  obtain f where f: "read_ok C rpc depth f" "s = diff_snapshot depth (rdf_hash f) (rdf_height f) now (rdf_leaves f) (rdf_roots f)"
    by (rule build_ok [OF assms(1)])
  have h: "rdf_hash f = hash" "int_of (os_height s) = rdf_height f" "os_height s = V_int (rdf_height f)"
      "os_leaves s = Some (map (\<lambda>n. V_string (dec_of_nat n)) (rdf_leaves f))"
      "os_root s = V_string (fst (rdf_roots f))" "os_shaRoot s = V_string (snd (rdf_roots f))"
      "os_order s = V_string ''proRegTxHash''" "os_chainlocked s = V_bool True" "os_depth s = V_int (int depth)"
    using f(2) assms(2) by (auto simp: diff_snapshot_def int_of_def)
  have r: "bound_list hash (Some diff) = Inr (rdf_diff f, rdf_list f)" "rdf_header f = header" "named_header C hash header = None"
      "verifyDmlCommitment (nc_sha C) (nc_b58 C) (rdf_list f) (rdf_cbTx f) (rdf_tree f) header = Some (Inr (rdf_verified f))"
      "int (vd_height (rdf_verified f)) = rdf_height f" "list_leaves C (rdf_list f) = Inr (rdf_leaves f)"
      "df_cbTx (rdf_diff f) = V_string (rdf_cbTx f)" "df_cbTxMerkleTree (rdf_diff f) = V_string (rdf_tree f)"
      "both_roots C depth (rdf_leaves f) = Inr (fst (rdf_roots f), snd (rdf_roots f))"
    using f(1) h assms(3,4) by (auto simp: read_ok_def)
  have l: "rdf_diff f = diff" "rdf_list f = l" "rdf_cbTx f = cbTx" "rdf_tree f = tree"
    using r(1,7,8) assms(5,6,8,9) by (auto simp: bound_list_def bindE_Inr split: jvalue.splits if_splits)
  have v: "verifyDmlCommitment (nc_sha C) (nc_b58 C) l cbTx tree header = Some (Inr (rdf_verified f))"
    using r(4) l by simp
  have m: "mset (map (bytes_of (nc_b58 C)) l) = mset (map (bytes_of (nc_b58 C)) L) \<and> vd_height (rdf_verified f) = cm_height c"
    by (rule accepted_list_base [OF v assms(10,11,13,14,15,16,17,7,18,20,21,22)])
  have w: "list_all well_formed_entry l" "distinct (map hash_text l)"
    using bound_list_ok [OF r(1)] l by auto
  obtain root' where root': "smlMerkleRoot (nc_sha C) (nc_b58 C) l = Inr root'"
    by (rule verify_Inr [OF v])
  have "list_leaves C l = Inr (rdf_leaves f) \<longleftrightarrow> list_leaves C L = Inr (rdf_leaves f)"
    using smlMerkleRoot_ok [OF root'] smlMerkleRoot_ok [OF assms(17)] m w assms(19) by (intro same_bytes_same_leaves) auto
  moreover have "meetsProofOfWork (nc_rounds C) MAINNET_POW_LIMIT header = Inr True" "blockHashFromHeader (nc_rounds C) header = Inr hash"
    using r(3) by (simp_all add: named_header_ok)
  moreover have "take 5 hash = ''00000''"
    using calculation(2,3) work_shows_zeros [of "nc_rounds C" header] assms(12) by auto
  moreover have "list_leaves C L = Inr (rdf_leaves f)"
    using calculation(1) r(6) l(2) by simp
  ultimately show ?thesis
    using r(5) h(3-9) m r(9) [unfolded both_roots_Inr] unfolding list_leaves_explicit Let_def by auto
qed

subsection \<open>A read of the example block\<close>

definition demo_field_hasher :: "nat poseidon" where
  "demo_field_hasher = demo_hasher\<lparr>pstr := (\<lambda>n. dec_of_nat (n mod FIELD_PRIME))\<rparr>"

definition demo_node_crypto :: "nat node_crypto" where
  "demo_node_crypto = \<lparr>nc_sha = demo_sha, nc_ripemd = (\<lambda>_. [1]), nc_b58 = demo_b58, nc_rounds = [\<lambda>_. replicate 64 0], nc_poseidon = demo_field_hasher\<rparr>"

definition demo_node_header :: string where
  "demo_node_header = toHex (replicate 36 0 @ sha256d demo_sha (coinbase_bytes demo_coinbase) @ replicate 4 0 @ [0xff, 0xff, 0x00, 0x1d] @ replicate 4 0)"

definition demo_node_hash :: string where
  "demo_node_hash = toHex (replicate 32 0)"

definition demo_diff :: diff_answer where
  "demo_diff = \<lparr>df_blockHash = V_string demo_node_hash, df_mnList = Some [Di_entry REQUIRED_ENTRY_FIELDS (demo_entry CHR ''a'')],
     df_cbTx = V_string (toHex (coinbase_bytes demo_coinbase)), df_cbTxMerkleTree = V_string demo_branch\<rparr>"

definition demo_rpc :: node_rpc where
  "demo_rpc = \<lparr>nr_getbestchainlock = Some \<lparr>lk_blockhash = V_string demo_node_hash, lk_height = V_int 7, lk_known_block = V_bool True\<rparr>,
     nr_protx_diff = (\<lambda>_. Some demo_diff), nr_getblockheader = (\<lambda>_. Some (V_string demo_node_header))\<rparr>"

lemma lower_hex_toHex: "length bs = n \<Longrightarrow> lower_hex (2 * n) (toHex bs)"
proof -
  have "hexChar 10 = CHR ''a''" "hexChar 11 = CHR ''b''" "hexChar 12 = CHR ''c''" "hexChar 13 = CHR ''d''" "hexChar 14 = CHR ''e''"
      "hexChar 15 = CHR ''f''"
    by code_simp+
  then have d: "is_digit (hexChar d) \<or> hexChar d \<in> set ''abcdef''" if "d < 16" for d
  proof (cases "d < 10")
    case True
    then show ?thesis
      by (simp add: hexChar_def is_digit_def)
  next
    case False
    then have "d = 10 \<or> d = 11 \<or> d = 12 \<or> d = 13 \<or> d = 14 \<or> d = 15"
      using that by arith
    then show ?thesis
      using \<open>hexChar 10 = CHR ''a''\<close> \<open>hexChar 11 = CHR ''b''\<close> \<open>hexChar 12 = CHR ''c''\<close> \<open>hexChar 13 = CHR ''d''\<close>
        \<open>hexChar 14 = CHR ''e''\<close> \<open>hexChar 15 = CHR ''f''\<close> by fastforce
  qed
  have "unat b div 16 < 16" "unat b mod 16 < 16" for b :: "8 word"
    using unat_octet_less [of b] by (simp_all add: less_mult_imp_div_less)
  have "list_all (\<lambda>c. is_digit c \<or> c \<in> set ''abcdef'') (toHex bs)"
  proof -
    have "\<exists>b :: 8 word. c = hexChar (unat b div 16) \<or> c = hexChar (unat b mod 16)" if "c \<in> set (toHex bs)" for c
      using that by (auto simp: toHex_def)
    then show ?thesis
      using d \<open>\<And>b. unat b div 16 < 16\<close> \<open>\<And>b. unat b mod 16 < 16\<close> unfolding list_all_iff by metis
  qed
  then show "length bs = n \<Longrightarrow> lower_hex (2 * n) (toHex bs)"
    by (simp add: lower_hex_def)
qed

lemma demo_header_read: "headerBytes demo_node_header = Inr (fromHex demo_node_header)" "take 32 (drop 36 (fromHex demo_node_header)) =
    sha256d demo_sha (coinbase_bytes demo_coinbase)" "readUInt32LE (fromHex demo_node_header) 72 = 0x1d00ffff"
proof -
  have "length demo_node_header = 160"
    by (simp add: demo_node_header_def)
  then show "headerBytes demo_node_header = Inr (fromHex demo_node_header)"
    unfolding headerBytes_Inr using toHex_digits by (simp add: demo_node_header_def)
qed (simp_all add: demo_node_header_def readUInt32LE_def)

lemma demo_header_named: "named_header demo_node_crypto demo_node_hash demo_node_header = None"
proof -
  have x: "x11 (nc_rounds demo_node_crypto) h = replicate 32 0" for h
    by (simp add: x11_def demo_node_crypto_def)
  have "le_nat (replicate k 0) = 0" for k
    by (induction k) simp_all
  moreover have "(0xffff * 256 ^ 26 :: nat) \<le> MAINNET_POW_LIMIT"
    unfolding MAINNET_POW_LIMIT_def by simp
  ultimately have "meetsProofOfWork (nc_rounds demo_node_crypto) MAINNET_POW_LIMIT demo_node_header = Inr True"
    unfolding meetsProofOfWork_True x
    by (intro exI [of _ "fromHex demo_node_header"] exI [of _ "0xffff * 256 ^ 26"]) (simp add: demo_header_read demo_target)
  moreover have "blockHashFromHeader (nc_rounds demo_node_crypto) demo_node_header = Inr demo_node_hash"
    by (simp add: blockHashFromHeader_def demo_header_read x demo_node_hash_def)
  ultimately show ?thesis
    by (simp add: named_header_ok)
qed

lemma demo_well_formed: "well_formed_entry (demo_entry CHR ''a'')"
  by (simp add: well_formed_entry_def demo_entry_def lower_hex_def list_all_iff)

lemma demo_list_leaves: "list_leaves demo_node_crypto [demo_entry CHR ''a''] = Inr [be_nat (replicate 20 7)]"
proof -
  have "be_nat (replicate 20 7) \<noteq> 0" "be_nat (replicate 20 7) \<noteq> 1"
  proof -
    have "replicate 20 (7 :: 8 word) = 7 # replicate 19 7"
      by (simp flip: replicate_Suc)
    moreover have "be_nat (replicate 20 7) = le_nat (replicate 20 7)"
      by (simp add: be_nat_def)
    ultimately have "be_nat (replicate 20 7) = unat (7 :: 8 word) + 256 * le_nat (replicate 19 7)"
      by simp
    then show "be_nat (replicate 20 7) \<noteq> 0" "be_nat (replicate 20 7) \<noteq> 1"
      by simp_all
  qed
  moreover have "votingAddressToLeaf demo_node_crypto ''X'' = Some (be_nat (replicate 20 7))"
    by (simp add: votingAddressToLeaf_def demo_node_crypto_def demo_b58_def)
  moreover have "KEY_ZERO_LEAF demo_node_crypto = 1"
    by (simp add: KEY_ZERO_LEAF_def leafFromPubkey_def demo_node_crypto_def be_nat_def)
  ultimately show ?thesis
    by (simp add: list_leaves_def valid_in_order_def demo_entry_def js_text_def)
qed

lemma demo_both_roots: "\<exists>roots. both_roots demo_node_crypto 1 [be_nat (replicate 20 7)] = Inr roots"
proof -
  have "be_nat (replicate 20 7) < 256 ^ 20"
    using le_nat_less [of "rev (replicate 20 7)"] by (simp add: be_nat_def)
  then have "be_nat (replicate 20 7) < 16 ^ 40"
    by simp
  then obtain k where "leafToKeyId (be_nat (replicate 20 7)) = Inr k"
    using leafToKeyId_ok by blast
  moreover obtain r where "rootFromLeaves demo_field_hasher 1 [dec_of_nat (be_nat (replicate 20 7))] = Inr r"
    using demo_parses [of "[be_nat (replicate 20 7)]"] by (simp add: rootFromLeaves_def Let_def demo_field_hasher_def field_elem_def)
  moreover obtain h where "rootFromKeyIds (byte_sha demo_sha) 1 [k] = Inr h"
    by (simp add: rootFromKeyIds_padded)
  ultimately show ?thesis
    by (auto simp: both_roots_def demo_node_crypto_def)
qed

lemma demo_commitment_checked:
  "check_commitment demo_node_crypto demo_node_hash 7 demo_diff [demo_entry CHR ''a''] (Some (V_string demo_node_header)) = Some (Inr ())"
proof -
  have t: "hex_text (toHex bs) \<longleftrightarrow> bs \<noteq> []" for bs
    using toHex_digits [of bs] by (cases bs) (auto simp: hex_text_def toHex_def)
  have "coinbase_bytes demo_coinbase \<noteq> []"
    using demo_coinbase_length by auto
  then have a: "hex_text demo_node_header" "artefact n (df_cbTx demo_diff) = Inr (toHex (coinbase_bytes demo_coinbase))"
      "artefact n (df_cbTxMerkleTree demo_diff) = Inr demo_branch" for n
    by (simp_all add: artefact_Inr demo_diff_def t demo_node_header_def demo_branch_def branch_bytes_def)
  have "\<exists>v. verifyDmlCommitment demo_sha demo_b58 [demo_entry CHR ''a''] (toHex (coinbase_bytes demo_coinbase)) demo_branch demo_node_header
      = Some (Inr v) \<and> vd_height v = 7"
    using headerBytes_length [OF demo_header_read(1)]
    by (simp add: verifyDmlCommitment_def demo_coinbase_read demo_list_root_read demo_branch_read branch_checks_def headerMerkleRoot_def
        demo_header_read(2) Let_def)
  then show ?thesis
    by (auto simp: check_commitment_def a demo_header_named) (auto simp: demo_node_crypto_def)
qed

lemma demo_build: "\<exists>s. buildDiffSnapshot demo_node_crypto demo_rpc 1 100 True = Some (Inr s) \<and> os_blockHash s = V_string demo_node_hash \<and>
    os_height s = V_int 7"
proof -
  have "lower_hex 64 demo_node_hash"
    using lower_hex_toHex [of "replicate 32 0" 32] by (simp add: demo_node_hash_def)
  moreover have "check_entries [] [Di_entry REQUIRED_ENTRY_FIELDS (demo_entry CHR ''a'')] = Inr [demo_entry CHR ''a'']"
    using check_entries_takes [of "[demo_entry CHR ''a'']" "[]"] demo_well_formed by simp
  ultimately have c: "chainlock (nr_getbestchainlock demo_rpc) = Inr (demo_node_hash, 7)"
      "bound_list demo_node_hash (nr_protx_diff demo_rpc 7) = Inr (demo_diff, [demo_entry CHR ''a''])"
      "nr_getblockheader demo_rpc demo_node_hash = Some (V_string demo_node_header)"
    by (simp_all add: chainlock_def demo_rpc_def bound_list_def demo_diff_def)
  obtain roots where "both_roots demo_node_crypto 1 [be_nat (replicate 20 7)] = Inr roots"
    using demo_both_roots by blast
  then show ?thesis
    by (simp add: buildDiffSnapshot_def c demo_commitment_checked demo_list_leaves diff_snapshot_def)
qed

theorem node_read_publishes_the_blocks_members_witness:
  "\<exists>s. buildDiffSnapshot demo_node_crypto demo_rpc 1 100 True = Some (Inr s) \<and>
     os_leaves s = Some [V_string (dec_of_nat (be_nat (replicate 20 7)))] \<and> os_height s = V_int 7 \<and>
     (\<exists>r. rootFromLeaves demo_field_hasher 1 [dec_of_nat (be_nat (replicate 20 7))] = Inr r \<and> os_root s = V_string r)"
proof -
  let ?C = demo_node_crypto and ?l = "[demo_entry CHR ''a'']" and ?cb = "coinbase_bytes demo_coinbase"
  obtain s where s: "buildDiffSnapshot ?C demo_rpc 1 100 True = Some (Inr s)" "os_blockHash s = V_string demo_node_hash" "os_height s = V_int 7"
    using demo_build by blast
  have c: "nc_sha ?C = demo_sha" "nc_b58 ?C = demo_b58" "length (x11 (nc_rounds ?C) h) = 32" for h
    by (simp_all add: demo_node_crypto_def x11_def)
  have e: "check_entries [] [Di_entry REQUIRED_ENTRY_FIELDS (demo_entry CHR ''a'')] = Inr ?l"
    using check_entries_takes [of ?l "[]"] demo_well_formed by simp
  obtain br where br: "partialMerkleTree demo_sha demo_branch = Some (Inr br)" "pt_hashed br = []"
    using demo_branch_read by auto
  have p: "(let M = sort_key hash_text (filter (\<lambda>e. se_isValid e = Some True) ?l);
         leaves = filter (\<lambda>n. n \<noteq> KEY_ZERO_LEAF ?C) (map (\<lambda>e. leaf_of ?C (js_text (se_votingAddress e))) M) in
       (\<forall>e \<in> set M. \<exists>n. votingAddressToLeaf ?C (js_text (se_votingAddress e)) = Some n \<and> n \<noteq> 0) \<and>
       os_leaves s = Some (map (\<lambda>n. V_string (dec_of_nat n)) leaves) \<and>
       (\<exists>r. rootFromLeaves (nc_poseidon ?C) 1 (map dec_of_nat leaves) = Inr r \<and> os_root s = V_string r) \<and>
       (\<exists>ids h. mapE leafToKeyId leaves = Inr ids \<and> rootFromKeyIds (byte_sha (nc_sha ?C)) 1 ids = Inr h \<and> os_shaRoot s = V_string h)) \<and>
      os_order s = V_string ''proRegTxHash'' \<and> os_chainlocked s = V_bool True \<and> os_depth s = V_int (int 1) \<and>
      os_height s = V_int (int (cm_height \<lparr>cm_payloadVersion = 1, cm_height = 7,
        cm_merkleRootMNList = toHex (rev demo_list_root), cm_merkleRootQuorums = None\<rparr>)) \<and>
      blockHashFromHeader (nc_rounds ?C) demo_node_header = Inr demo_node_hash \<and> take 5 demo_node_hash = ''00000''"
    by (rule node_read_publishes_the_blocks_members [OF s(1,2), where header = demo_node_header and diff = demo_diff and l = ?l and
          items = "[Di_entry REQUIRED_ENTRY_FIELDS (demo_entry CHR ''a'')]" and cbTx = "toHex ?cb" and tree = demo_branch and
          txs = "[?cb]" and root = demo_list_root and L = ?l and branch = br])
      (use demo_no_collision in \<open>simp_all add: c e demo_rpc_def demo_diff_def br demo_coinbase_read demo_list_root_read
        demo_coinbase_length merkle_loop_one demo_header_read demo_well_formed del: check_entries.simps\<close>)
  have "filter (\<lambda>n. n \<noteq> KEY_ZERO_LEAF ?C) (map (\<lambda>e. leaf_of ?C (js_text (se_votingAddress e)))
      (sort_key hash_text (filter (\<lambda>e. se_isValid e = Some True) ?l))) = [be_nat (replicate 20 7)]"
    using demo_list_leaves unfolding list_leaves_explicit Let_def by simp
  moreover have "nc_poseidon ?C = demo_field_hasher"
    by (simp add: demo_node_crypto_def)
  ultimately show ?thesis
    using s p unfolding Let_def by auto
qed

end
