(* ===== verification/Oracle_Snapshot.thy ===== *)
theory Oracle_Snapshot
  imports Node_Snapshot
begin

section \<open>The oracle's own read, and what a gateway makes of a snapshot (oracle/snapshot.js)\<close>

text \<open>
  The older read asks for the list at the node's tip and brackets it by the tip's height and hash. Its leaves are ordered by the collateral
  outpoint, those of the block-bound read by the registration hash, so the two trees differ over one membership; the last part
  shows what the gateway can rely on: equal leaf sets, and that it adopts what its own node's read builds.
\<close>

subsection \<open>The leaves of masternodelist\<close>

text \<open>An entry's two fields; an answer that is no object, or an array, is \<open>Ml_not_keyed\<close>. The entries come in the object's own order.\<close>

datatype list_entry = Le_not_object | Le_entry jvalue jvalue

datatype list_answer = Ml_not_keyed | Ml_keyed "(string \<times> list_entry) list"

datatype list_read_error =
    Not_keyed_by_outpoint | Not_an_outpoint string | Not_an_entry string | Unknown_status string jvalue | Enabled_without_address string
  | Leaves_refused read_error | Tip_kept_moving | Tip_call_failed | Snapshot_tree_refused

definition KNOWN_STATUSES :: "jvalue list" where
  "KNOWN_STATUSES = [V_string ''ENABLED'', V_string ''POSE_BANNED'']"

definition outpoint :: "string \<Rightarrow> bool" where
  "outpoint key \<longleftrightarrow> lower_hex 64 (take 64 key) \<and>
     (case drop 64 key of c # ds \<Rightarrow> c = CHR ''-'' \<and> ds \<noteq> [] \<and> list_all is_digit ds | [] \<Rightarrow> False)"

definition list_entry_check :: "string \<times> list_entry \<Rightarrow> list_read_error option" where
  "list_entry_check x =
     (case x of (key, m) \<Rightarrow>
        if \<not> outpoint key then Some (Not_an_outpoint key)
        else (case m of
                Le_not_object \<Rightarrow> Some (Not_an_entry key)
              | Le_entry status address \<Rightarrow>
                  if status \<notin> set KNOWN_STATUSES then Some (Unknown_status key status)
                  else if status = V_string ''ENABLED'' \<and> \<not> is_string address then Some (Enabled_without_address key)
                  else None))"

fun enabled :: "string \<times> list_entry \<Rightarrow> bool" where
  "enabled (key, Le_entry status address) \<longleftrightarrow> status = V_string ''ENABLED''"
| "enabled (key, Le_not_object) \<longleftrightarrow> False"

fun list_address :: "string \<times> list_entry \<Rightarrow> string" where
  "list_address (key, Le_entry status address) = jv_String address"
| "list_address (key, Le_not_object) = []"

definition leavesFromMasternodeList :: "'n node_crypto \<Rightarrow> list_answer \<Rightarrow> list_read_error + nat list" where
  "leavesFromMasternodeList C answer =
     (case answer of
        Ml_not_keyed \<Rightarrow> Inl Not_keyed_by_outpoint
      | Ml_keyed all \<Rightarrow>
          (case find (\<lambda>x. list_entry_check x \<noteq> None) all of
             Some x \<Rightarrow> Inl (the (list_entry_check x))
           | None \<Rightarrow>
               (case leaf_loop C (map (\<lambda>x. (fst x, list_address x)) (sort_key fst (filter enabled all))) of
                  Inl e \<Rightarrow> Inl (Leaves_refused e)
                | Inr ls \<Rightarrow> Inr ls)))"

subsection \<open>The bracketed read\<close>

text \<open>The five answers of one attempt; \<open>None\<close> is a failed call. \<open>===\<close> on two objects is false: they are different ones.\<close>

record attempt =
  at_height :: "jvalue option"
  at_hash :: "jvalue option"
  at_list :: "list_answer option"
  at_afterHeight :: "jvalue option"
  at_afterHash :: "jvalue option"

definition js_same :: "jvalue \<Rightarrow> jvalue \<Rightarrow> bool" where
  "js_same a b \<longleftrightarrow> a = b \<and> (\<forall>s. a \<noteq> V_other s)"

function read_tip :: "(nat \<Rightarrow> attempt) \<Rightarrow> nat \<Rightarrow> nat \<Rightarrow> list_read_error + jvalue \<times> jvalue \<times> list_answer" where
  "read_tip call maxAttempts attempt =
     (let a = call attempt in
      case (at_height a, at_hash a, at_list a, at_afterHeight a, at_afterHash a) of
        (Some height, Some blockHash, Some l, Some afterHeight, Some afterHash) \<Rightarrow>
          if js_same afterHeight height \<and> js_same afterHash blockHash then Inr (height, blockHash, l)
          else if attempt \<ge> maxAttempts then Inl Tip_kept_moving
          else read_tip call maxAttempts (attempt + 1)
      | _ \<Rightarrow> Inl Tip_call_failed)"
  by pat_completeness auto

termination
  by (relation "measure (\<lambda>(call, maxAttempts, attempt). maxAttempts - attempt)") auto

declare read_tip.simps [simp del]

definition buildSnapshot :: "'n node_crypto \<Rightarrow> (nat \<Rightarrow> attempt) \<Rightarrow> nat \<Rightarrow> nat \<Rightarrow> int \<Rightarrow> list_read_error + oracle_snapshot" where
  "buildSnapshot C call maxAttempts depth now =
     bindE (read_tip call maxAttempts 1) (\<lambda>(height, blockHash, l).
     bindE (leavesFromMasternodeList C l) (\<lambda>leaves.
       (case both_roots C depth leaves of
          Inl _ \<Rightarrow> Inl Snapshot_tree_refused
        | Inr roots \<Rightarrow> Inr
            \<lparr>os_version = V_int 2, os_height = height, os_blockHash = blockHash, os_depth = V_int (int depth),
             os_root = V_string (fst roots), os_shaRoot = V_string (snd roots), os_order = V_undefined, os_chainlocked = V_undefined,
             os_ts = V_int now, os_leaves = Some (map (\<lambda>l. V_string (dec_of_nat l)) leaves), os_sigs = None\<rparr>)))"

subsection \<open>One tip\<close>

lemma read_tip_ok:
  "read_tip call n k = Inr (height, hash, l) \<Longrightarrow> k \<le> max n k \<Longrightarrow>
   \<exists>j. k \<le> j \<and> j \<le> max n k \<and> at_height (call j) = Some height \<and> at_hash (call j) = Some hash \<and> at_list (call j) = Some l \<and>
     at_afterHeight (call j) = Some height \<and> at_afterHash (call j) = Some hash"
proof (induction call n k rule: read_tip.induct)
  case (1 call n k)
  obtain h bh l' ah abh where a: "at_height (call k) = Some h" "at_hash (call k) = Some bh" "at_list (call k) = Some l'"
      "at_afterHeight (call k) = Some ah" "at_afterHash (call k) = Some abh"
    using 1(2) by (auto simp: read_tip.simps [of call n k] Let_def split: option.splits)
  show ?case
  proof (cases "js_same ah h \<and> js_same abh bh")
    case True
    then show ?thesis
      using 1(2) a by (intro exI [of _ k]) (auto simp: read_tip.simps [of call n k] js_same_def)
  next
    case False
    then have "\<not> k \<ge> n" "read_tip call n (k + 1) = Inr (height, hash, l)"
      using 1(2) a by (auto simp: read_tip.simps [of call n k] split: if_splits)
    moreover have "\<exists>j. k + 1 \<le> j \<and> j \<le> max n (k + 1) \<and> at_height (call j) = Some height \<and> at_hash (call j) = Some hash \<and>
        at_list (call j) = Some l \<and> at_afterHeight (call j) = Some height \<and> at_afterHash (call j) = Some hash"
      by (rule 1(1)) (use a False calculation in auto)
    ultimately show ?thesis
      by (metis (no_types, lifting) Suc_eq_plus1 Suc_leD max.absorb1 nat_le_linear not_less_eq_eq)
  qed
qed

subsection \<open>The leaves do not depend on the answer's order\<close>

lemma find_None: "find P xs = None \<longleftrightarrow> (\<forall>x \<in> set xs. \<not> P x)"
  by (auto simp: find_None_iff)

lemma list_leaves_iff:
  "leavesFromMasternodeList C (Ml_keyed all) = Inr ls \<longleftrightarrow>
   (\<forall>x \<in> set all. list_entry_check x = None) \<and> leaf_loop C (map (\<lambda>x. (fst x, list_address x)) (sort_key fst (filter enabled all))) = Inr ls"
  by (auto simp: leavesFromMasternodeList_def find_None split: option.splits sum.splits dest: found_is_member)

lemma reordered_answer_same_leaves:
  assumes "mset all' = mset all" "distinct (map fst all)"
  shows "leavesFromMasternodeList C (Ml_keyed all) = Inr ls \<longleftrightarrow> leavesFromMasternodeList C (Ml_keyed all') = Inr ls"
proof -
  have "set all' = set all"
    using assms(1) by (rule mset_eq_setD)
  moreover have "sort_key fst (filter enabled all') = sort_key fst (filter enabled all)"
  proof -
    have "mset (filter enabled all') = mset (filter enabled all)"
      by (simp only: mset_filter assms(1))
    moreover have "inj_on fst (set (filter enabled all'))"
      using assms(2) \<open>set all' = set all\<close> by (auto simp: distinct_map intro: inj_on_subset)
    ultimately show ?thesis
      by (intro sort_key_inj_key_eq) auto
  qed
  ultimately show ?thesis
    by (simp add: list_leaves_iff)
qed

subsection \<open>Two reads of one membership\<close>

lemma leaf_loop_mset:
  assumes "leaf_loop C xs = Inr ls" "leaf_loop C ys = Inr ms" "mset (map snd xs) = mset (map snd ys)"
  shows "mset ls = mset ms"
proof -
  have "mset ls = filter_mset (\<lambda>l. l \<noteq> KEY_ZERO_LEAF C) (image_mset (leaf_of C) (mset (map snd xs)))" if "leaf_loop C xs = Inr ls" for xs ls
  proof -
    have "ls = filter (\<lambda>l. l \<noteq> KEY_ZERO_LEAF C) (map (leaf_of C) (map snd xs))"
      using that by (simp add: leaf_loop_Inr comp_def)
    then show ?thesis
      by (simp only: mset_filter mset_map)
  qed
  from this [OF assms(1)] this [OF assms(2)] show ?thesis
    by (simp only: assms(3))
qed

lemma valid_addresses: "mset (map (\<lambda>e. js_text (se_votingAddress e)) (valid_in_order l)) =
    image_mset (\<lambda>e. js_text (se_votingAddress e)) (filter_mset (\<lambda>e. se_isValid e = Some True) (mset l))"
  by (simp add: valid_in_order_def)

subsection \<open>What the readers build fits the gateway's schema\<close>

lemma hex_char_hexChar: "d < 16 \<Longrightarrow> hex_char d = hexChar d"
  by (simp add: hex_char_def hexChar_def digit_char_def)

lemma hex_of_octets: "hex_of_bytes (map unat (bs :: octets)) = toHex bs"
proof -
  have "unat b div 16 < 16" "unat b mod 16 < 16" for b :: "8 word"
    using unat_octet_less [of b] by (simp_all add: less_mult_imp_div_less)
  then show ?thesis
    by (simp add: hex_of_bytes_def toHex_def hex_char_hexChar comp_def)
qed

lemma sha_root_hex:
  assumes "rootFromKeyIds (byte_sha sha) depth ks = Inr r" "\<And>z. length (sha z) = 32"
  shows "lower_hex 64 r"
proof -
  let ?P = "sha_hasher (byte_sha sha)" and ?xs = "map (leafHash (byte_sha sha)) ks"
  have "\<not> length ks > 2 ^ depth"
    using assms(1) by (auto simp: rootFromKeyIds_def Let_def)
  then have r: "r = hex_of_bytes (padded_root ?P depth ?xs)"
    using assms(1) by (simp add: rootFromKeyIds_padded)
  have "\<exists>z. node (phash ?P) (pzero ?P) l k ?xs = byte_sha sha z" for l k
    by (cases l) (auto simp: sha_hasher_def nodeHash_def leafHash_def)
  then obtain z where "padded_root ?P depth ?xs = byte_sha sha z"
    unfolding padded_root_def by blast
  then have "r = toHex (sha (map word_of_nat z))"
    using r by (simp add: byte_sha_def hex_of_octets)
  then show ?thesis
    using lower_hex_toHex [OF assms(2) [of "map word_of_nat z"]] by simp
qed

lemma sha_recomputed:
  "shaRootFromLeaves sha depth (map dec_of_nat leaves) = bindE (mapE leafToKeyId leaves) (rootFromKeyIds sha depth)"
proof -
  have "mapE (\<lambda>l. bindE (leaf_value l) leafToKeyId) (map dec_of_nat leaves) = mapE leafToKeyId leaves"
    by (induction leaves) (simp_all add: leaf_value_def)
  then show ?thesis
    by (simp add: shaRootFromLeaves_def)
qed

lemma mapE_each: "mapE f xs = Inr ys \<Longrightarrow> x \<in> set xs \<Longrightarrow> \<exists>y. f x = Inr y"
  by (induction xs arbitrary: ys) (auto simp: bindE_Inr)

text \<open>The two roots of a read, and what the gateway recomputes.\<close>

lemma both_roots_ok:
  assumes "both_roots C depth leaves = Inr roots"
  shows "rootFromLeaves (nc_poseidon C) depth (map dec_of_nat leaves) = Inr (fst roots)"
    "shaRootFromLeaves (byte_sha (nc_sha C)) depth (map dec_of_nat leaves) = Inr (snd roots)"
    "length leaves \<le> 2 ^ depth" "\<forall>n \<in> set leaves. isCanonicalField (dec_of_nat n)"
proof -
  show r: "rootFromLeaves (nc_poseidon C) depth (map dec_of_nat leaves) = Inr (fst roots)"
    "shaRootFromLeaves (byte_sha (nc_sha C)) depth (map dec_of_nat leaves) = Inr (snd roots)"
    using assms by (auto simp: both_roots_def sha_recomputed split: sum.splits)
  show "length leaves \<le> 2 ^ depth"
    using r(1) by (auto simp: rootFromLeaves_def Let_def split: if_splits)
  obtain ks where "mapE leafToKeyId leaves = Inr ks"
    using r(2) by (auto simp: sha_recomputed bindE_Inr)
  then have "n < 16 ^ 40" if "n \<in> set leaves" for n
    using mapE_each [of leafToKeyId leaves ks n] leafToKeyId_too_big [of n] that by (cases "n < 16 ^ 40") auto
  moreover have "(16 :: nat) ^ 40 < FIELD_PRIME"
    by (simp add: FIELD_PRIME_def)
  ultimately show "\<forall>n \<in> set leaves. isCanonicalField (dec_of_nat n)"
    using isCanonicalField_dec_of_nat less_trans by blast
qed

lemma poseidon_root_canonical:
  assumes "rootFromLeaves P depth xs = Inr r" "\<And>x. isCanonicalField (pstr P x)"
  shows "isCanonicalField r"
  using assms by (auto simp: rootFromLeaves_def Let_def bindE_Inr split: if_splits)

lemma hex64_lower: "lower_hex 64 s \<Longrightarrow> hex64 (V_string s)"
  by (simp add: lower_hex_def hex64_def)

lemma leaf_texts_map: "os_leaves s = Some (map (\<lambda>n. V_string (dec_of_nat n)) leaves) \<Longrightarrow> leaf_texts s = map dec_of_nat leaves"
  by (simp add: leaf_texts_def comp_def)

lemma node_snapshot_valid:
  assumes "both_roots C (oc_depth oc) leaves = Inr roots" "s = diff_snapshot (oc_depth oc) hash height t leaves roots"
    and "\<And>x. isCanonicalField (pstr (nc_poseidon C) x)" "\<And>z. length (nc_sha C z) = 32"
    and "lower_hex 64 hash" "0 \<le> height" "now - oc_maxAge oc \<le> t" "t \<le> now + oc_skew oc"
  shows "validateSnapshot oc now (Some s) requiresSha = None"
proof -
  note r = both_roots_ok [OF assms(1)]
  have root: "isCanonicalField (fst roots)"
    by (rule poseidon_root_canonical [OF r(1) assms(3)])
  obtain ks where "rootFromKeyIds (byte_sha (nc_sha C)) (oc_depth oc) ks = Inr (snd roots)"
    using r(2) by (auto simp: sha_recomputed bindE_Inr)
  then have sha: "hex64 (V_string (snd roots))"
    by (intro hex64_lower sha_root_hex [OF _ assms(4)])
  have leaves: "list_all canonical_jvalue (map (\<lambda>l. V_string (dec_of_nat l)) leaves)"
    using r(4) by (simp add: list_all_iff canonical_jvalue_def)
  have v: "version_rules 3 s = None" "ts_rules oc now (V_int t) = None"
    using assms(7,8) hex64_lower [OF assms(5)]
    by (simp_all add: version_rules_def assms(2) diff_snapshot_def nullish_def is_string_def ts_rules_def ts_above_def)
  show ?thesis
    using root sha leaves v r(3) assms(6) hex64_lower [OF assms(5)]
    by (simp add: validateSnapshot_def assms(2) diff_snapshot_def or_else_def nullish_def canonical_jvalue_def snapshotVersion_def
        DUAL_ROOT_VERSIONS_def)
qed

text \<open>The facts behind any snapshot the node reader builds, with or without the commitment check.\<close>

lemma build_shape:
  assumes "buildDiffSnapshot C rpc depth t verify = Some (Inr s)"
  obtains hash height leaves roots where "lower_hex 64 hash" "both_roots C depth leaves = Inr roots"
    "s = diff_snapshot depth hash height t leaves roots"
  using assms by (auto simp: buildDiffSnapshot_def bindE_Inr chainlock_ok split: sum.splits)

lemma adopts_matching:
  assumes "oc_fromNode oc" "rc_poseidon K = nc_poseidon C" "rc_sha K = byte_sha (nc_sha C)"
    and "both_roots C (oc_depth oc) leaves = Inr roots" "s = diff_snapshot (oc_depth oc) hash height t leaves roots"
    and "\<not> (\<exists>h. RootWindows_maxHeight w = Some h \<and> height < h)"
    and "RootWindows_mayCoexist w height (Some hash) (Some (leafSetCommitment (rc_sha256hex K) (map dec_of_nat leaves)))"
  shows "\<exists>w'. offer K oc now pins s w = (w', Adopted)"
proof -
  note r = both_roots_ok [OF assms(4)]
  have l: "leaf_texts s = map dec_of_nat leaves"
    by (rule leaf_texts_map) (simp add: assms(5) diff_snapshot_def)
  have f: "os_height s = V_int height" "os_root s = V_string (fst roots)" "os_shaRoot s = V_string (snd roots)" "os_blockHash s = V_string hash"
      "os_version s = V_int 3" "os_order s = V_string ''proRegTxHash''"
    by (simp_all add: assms(5) diff_snapshot_def)
  have "\<exists>w'. RootWindows_adopt (Some pins) (adopted_record (rc_sha256hex K) oc now 3 s) w = Inr w'"
    by (simp add: RootWindows_adopt_def check_snapshot_def adopted_record_def normalizeSnapshot_def as_raw_def windowOrderKey_def
        KNOWN_ORDERS_def f)
  then show ?thesis
    using assms(1,6,7) r(1,2)
    by (auto simp: offer_def signatures_ok_def assms(2,3) l f int_of_def text_of_def nullish_def snapshotVersion_def split: option.splits)
qed

subsection \<open>Properties\<close>

text \<open>C25: what the gateway's own read builds, it adopts. A snapshot from the node passes the gateway's schema on any deployment, also where the
  SHA-256 root is required, and both its roots are what the gateway recomputes; so a refresh in node mode refuses it for no other
  reason than a greater height already held or another block or set at the same height. Asked: the gateway and the reader share
  their hashes, the clock is within the configured bounds, and Poseidon's results print as field elements.\<close>

theorem node_snapshot_is_adopted:
  assumes "buildDiffSnapshot C rpc (oc_depth oc) t verify = Some (Inr s)" "oc_fromNode oc"
    and "rc_poseidon K = nc_poseidon C" "rc_sha K = byte_sha (nc_sha C)" "\<And>x. isCanonicalField (pstr (nc_poseidon C) x)"
    and "\<And>z. length (nc_sha C z) = 32" "0 \<le> int_of (os_height s)" "now - oc_maxAge oc \<le> t" "t \<le> now + oc_skew oc"
    and "\<not> (\<exists>h. RootWindows_maxHeight w = Some h \<and> int_of (os_height s) < h)"
    and "RootWindows_mayCoexist w (int_of (os_height s)) (text_of (os_blockHash s)) (Some (leafSetCommitment (rc_sha256hex K) (leaf_texts s)))"
  shows "\<exists>w'. refresh_read K oc now (Some hasZkvm) pins (Loaded (Some s)) w = (w', Adopted)"
proof -
  obtain hash height leaves roots where b: "lower_hex 64 hash" "both_roots C (oc_depth oc) leaves = Inr roots"
      "s = diff_snapshot (oc_depth oc) hash height t leaves roots"
    by (rule build_shape [OF assms(1)])
  have f: "int_of (os_height s) = height" "text_of (os_blockHash s) = Some hash" "leaf_texts s = map dec_of_nat leaves"
    by (simp_all add: b(3) diff_snapshot_def int_of_def text_of_def nullish_def leaf_texts_def comp_def)
  have "validateSnapshot oc now (Some s) req = None" for req
    using assms(7) f(1) by (intro node_snapshot_valid [OF b(2,3) assms(5,6) b(1) _ assms(8,9)]) simp
  moreover obtain w' where "offer K oc now pins s w = (w', Adopted)"
    using adopts_matching [OF assms(2,3,4) b(2,3), of w now pins] assms(10,11) f by auto
  ultimately show ?thesis
    by (simp add: refresh_read_def)
qed

text \<open>The bracketed read. A snapshot the oracle builds comes from one attempt, at most the allowed number, in which the tip had the same height and
  hash before and after the list was read, and it is labelled with exactly these; its leaves are those of the list's ENABLED entries and do not
  depend on the order the node listed them in.\<close>

lemma bracketed_snapshot_names_one_tip:
  assumes "buildSnapshot C call maxAttempts depth now = Inr s"
  shows "\<exists>j all leaves. 1 \<le> j \<and> j \<le> max maxAttempts 1 \<and>
    at_height (call j) = Some (os_height s) \<and> at_hash (call j) = Some (os_blockHash s) \<and>
    at_afterHeight (call j) = Some (os_height s) \<and> at_afterHash (call j) = Some (os_blockHash s) \<and>
    at_list (call j) = Some (Ml_keyed all) \<and> os_leaves s = Some (map (\<lambda>n. V_string (dec_of_nat n)) leaves) \<and>
    (\<forall>all'. mset all' = mset all \<longrightarrow> distinct (map fst all) \<longrightarrow> leavesFromMasternodeList C (Ml_keyed all') = Inr leaves)"
proof -
  obtain height hash l where t: "read_tip call maxAttempts 1 = Inr (height, hash, l)"
    using assms by (auto simp: buildSnapshot_def bindE_Inr)
  obtain leaves where leaves: "leavesFromMasternodeList C l = Inr leaves"
    using assms t by (auto simp: buildSnapshot_def bindE_Inr)
  then obtain roots where "both_roots C depth leaves = Inr roots"
    using assms t by (cases "both_roots C depth leaves") (auto simp: buildSnapshot_def)
  then have l: "leavesFromMasternodeList C l = Inr leaves" "os_height s = height" "os_blockHash s = hash"
      "os_leaves s = Some (map (\<lambda>n. V_string (dec_of_nat n)) leaves)"
    using assms t leaves by (auto simp: buildSnapshot_def)
  then obtain all where all: "l = Ml_keyed all"
    by (cases l) (auto simp: leavesFromMasternodeList_def)
  obtain j where "1 \<le> j" "j \<le> max maxAttempts 1" "at_height (call j) = Some height" "at_hash (call j) = Some hash"
      "at_list (call j) = Some l" "at_afterHeight (call j) = Some height" "at_afterHash (call j) = Some hash"
    using read_tip_ok [OF t] by auto
  moreover have "leavesFromMasternodeList C (Ml_keyed all') = Inr leaves" if "mset all' = mset all" "distinct (map fst all)" for all'
    using reordered_answer_same_leaves [OF that, of C leaves] l(1) all by simp
  ultimately show ?thesis
    using l all by blast
qed

text \<open>C26: two orders, one set. When the two reads describe the same masternodes, their leaves are one multiset whatever order each tree has, so the
  gateway computes one leaf-set commitment for both and lets a version 2 and a version 3 record of one block stand side by side.\<close>

theorem two_reads_commit_to_one_set:
  assumes "list_leaves C l = Inr ls" "leavesFromMasternodeList C (Ml_keyed all) = Inr ms"
    and "image_mset (\<lambda>e. js_text (se_votingAddress e)) (filter_mset (\<lambda>e. se_isValid e = Some True) (mset l)) =
      image_mset list_address (filter_mset enabled (mset all))"
    and "both_roots C depth ls = Inr r" "both_roots C depth ms = Inr r'"
    and "wr_blockHash x = Some hash" "wr_setCommitment x = Some (leafSetCommitment h (map dec_of_nat ms))" "rw_snaps w = [x]"
  shows "mset ls = mset ms \<and> leafSetCommitment h (map dec_of_nat ls) = leafSetCommitment h (map dec_of_nat ms) \<and>
    RootWindows_mayCoexist w height (Some hash) (Some (leafSetCommitment h (map dec_of_nat ls)))"
proof -
  have ms: "leaf_loop C (map (\<lambda>x. (fst x, list_address x)) (sort_key fst (filter enabled all))) = Inr ms"
    using assms(2) by (simp add: list_leaves_iff)
  have "image_mset (\<lambda>e. js_text (se_votingAddress e)) (mset (valid_in_order l)) = image_mset list_address (filter_mset enabled (mset all))"
    using valid_addresses [of l] assms(3) by simp
  then have "mset (map snd (map (\<lambda>e. (hash_text e, js_text (se_votingAddress e))) (valid_in_order l))) =
      mset (map snd (map (\<lambda>x. (fst x, list_address x)) (sort_key fst (filter enabled all))))"
    by (simp add: image_mset.compositionality comp_def)
  then have m: "mset ls = mset ms"
    by (rule leaf_loop_mset [OF assms(1) [unfolded list_leaves_def] ms])
  moreover have "leafSetCommitment h (map dec_of_nat ls) = leafSetCommitment h (map dec_of_nat ms)"
    using leafSetCommitment_multiset [of "map dec_of_nat ls" "map dec_of_nat ms" h] both_roots_ok(4) [OF assms(4)]
      both_roots_ok(4) [OF assms(5)] m by auto
  ultimately show ?thesis
    using assms(6-8) by (auto simp: RootWindows_mayCoexist_def Let_def)
qed

subsection \<open>Examples\<close>

definition demo_node_oracle :: oracle_config where
  "demo_node_oracle = \<lparr>oc_fromNode = True, oc_depth = 1, oc_pubkeys = [], oc_quorum = 1, oc_maxAge = 1800, oc_skew = 120, oc_requireSha = True\<rparr>"

definition demo_node_refresh :: "(nat, char) refresh_crypto" where
  "demo_node_refresh = \<lparr>rc_poseidon = demo_field_hasher, rc_sha = byte_sha demo_sha, rc_sha256hex = (\<lambda>s. s), rc_raw_of = (\<lambda>s. s),
     rc_b64 = (\<lambda>s. s), rc_ed25519 = (\<lambda>_ _ _. False)\<rparr>"

theorem node_snapshot_is_adopted_witness:
  "\<exists>s w'. buildDiffSnapshot demo_node_crypto demo_rpc 1 100 True = Some (Inr s) \<and>
     refresh_read demo_node_refresh demo_node_oracle 160 (Some True) [] (Loaded (Some s)) (RootWindows_new 8 0) = (w', Adopted)"
proof -
  obtain s where s: "buildDiffSnapshot demo_node_crypto demo_rpc 1 100 True = Some (Inr s)" "os_height s = V_int 7"
    using demo_build by blast
  then have s': "buildDiffSnapshot demo_node_crypto demo_rpc (oc_depth demo_node_oracle) 100 True = Some (Inr s)"
    by (simp add: demo_node_oracle_def)
  have p: "isCanonicalField (pstr (nc_poseidon demo_node_crypto) x)" for x
    by (simp add: demo_node_crypto_def demo_field_hasher_def isCanonicalField_dec_of_nat FIELD_PRIME_def)
  have "\<exists>w'. refresh_read demo_node_refresh demo_node_oracle 160 (Some True) [] (Loaded (Some s)) (RootWindows_new 8 0) = (w', Adopted)"
    by (rule node_snapshot_is_adopted [OF s'])
      (simp_all add: p, simp_all add: s(2) demo_node_oracle_def demo_node_refresh_def demo_node_crypto_def int_of_def
        RootWindows_maxHeight_def RootWindows_mayCoexist_def RootWindows_new_def)
  then show ?thesis
    using s(1) by blast
qed

definition demo_outpoint :: string where
  "demo_outpoint = replicate 64 CHR ''a'' @ ''-0''"

definition demo_attempt :: attempt where
  "demo_attempt = \<lparr>at_height = Some (V_int 7), at_hash = Some (V_string ''h''),
     at_list = Some (Ml_keyed [(demo_outpoint, Le_entry (V_string ''ENABLED'') (V_string ''X''))]),
     at_afterHeight = Some (V_int 7), at_afterHash = Some (V_string ''h'')\<rparr>"

lemma demo_list_read:
  "leavesFromMasternodeList demo_node_crypto (Ml_keyed [(demo_outpoint, Le_entry (V_string ''ENABLED'') (V_string ''X''))]) =
   Inr [be_nat (replicate 20 7)]"
proof -
  have "outpoint demo_outpoint"
    by (simp add: outpoint_def demo_outpoint_def lower_hex_def list_all_iff is_digit_def)
  moreover have "leaf_loop demo_node_crypto [(demo_outpoint, ''X'')] = Inr [be_nat (replicate 20 7)]"
    using demo_list_leaves by (simp add: list_leaves_def valid_in_order_def demo_entry_def js_text_def leaf_loop_Inr del: leaf_loop.simps)
  ultimately show ?thesis
    by (simp add: list_leaves_iff list_entry_check_def KNOWN_STATUSES_def is_string_def)
qed

theorem bracketed_snapshot_names_one_tip_witness:
  "\<exists>s leaves. buildSnapshot demo_node_crypto (\<lambda>_. demo_attempt) 5 1 100 = Inr s \<and> os_height s = V_int 7 \<and>
     os_leaves s = Some (map (\<lambda>n. V_string (dec_of_nat n)) leaves)"
proof -
  have "read_tip (\<lambda>_. demo_attempt) 5 1 = Inr (V_int 7, V_string ''h'', Ml_keyed [(demo_outpoint, Le_entry (V_string ''ENABLED'') (V_string ''X''))])"
    by (simp add: read_tip.simps demo_attempt_def js_same_def)
  moreover obtain roots where "both_roots demo_node_crypto 1 [be_nat (replicate 20 7)] = Inr roots"
    using demo_both_roots by blast
  ultimately obtain s where s: "buildSnapshot demo_node_crypto (\<lambda>_. demo_attempt) 5 1 100 = Inr s"
    by (simp add: buildSnapshot_def demo_list_read)
  show ?thesis
    using bracketed_snapshot_names_one_tip [OF s] s by (auto simp: demo_attempt_def)
qed

theorem two_reads_commit_to_one_set_witness:
  "leafSetCommitment (\<lambda>s. s) (map dec_of_nat [be_nat (replicate 20 7)]) = leafSetCommitment (\<lambda>s. s) (map dec_of_nat [be_nat (replicate 20 7)]) \<and>
   list_leaves demo_node_crypto [demo_entry CHR ''a''] = Inr [be_nat (replicate 20 7)]"
proof -
  let ?n = "be_nat (replicate 20 7)"
  let ?x = "\<lparr>wr_height = 7, wr_root = [], wr_shaRoot = None, wr_ts = Num 0, wr_order = None, wr_blockHash = Some ''h'',
     wr_setCommitment = Some (leafSetCommitment (\<lambda>s. s) (map dec_of_nat [?n])), wr_snapshot = None\<rparr>"
  obtain roots where r: "both_roots demo_node_crypto 1 [?n] = Inr roots"
    using demo_both_roots by blast
  have "mset [?n] = mset [?n] \<and> leafSetCommitment (\<lambda>s. s) (map dec_of_nat [?n]) = leafSetCommitment (\<lambda>s. s) (map dec_of_nat [?n]) \<and>
      RootWindows_mayCoexist ((RootWindows_new 8 0)\<lparr>rw_snaps := [?x]\<rparr>) 7 (Some ''h'') (Some (leafSetCommitment (\<lambda>s. s) (map dec_of_nat [?n])))"
    by (rule two_reads_commit_to_one_set [OF demo_list_leaves demo_list_read _ r r, where x = ?x])
      (simp_all add: demo_entry_def js_text_def)
  then show ?thesis
    using demo_list_leaves by simp
qed

end
