(* ===== verification/Gateway_Config.thy ===== *)
theory Gateway_Config
  imports Gateway_Http Gateway_Boot Gateway_Roots
begin

section \<open>The configuration and what it guarantees the rest (core/config.js)\<close>

text \<open>
  The settings are read from an environment, a function from names to texts. An integer setting is what \<open>Number\<close> makes of its text, as far as that
  is an integer: decimal literals with a fraction or an exponent, and the hexadecimal, octal and binary forms, read exactly
  (a text of so many digits that a double would round it is outside the model). The last part connects the settings to the configuration
  records the other theories use.
\<close>

subsection \<open>Numbers from text\<close>

definition radix_digit :: "nat \<Rightarrow> char \<Rightarrow> nat option" where
  "radix_digit b c =
     (let n = of_char (ascii_lower c) :: nat;
          d = (if 48 \<le> n \<and> n \<le> 57 then Some (n - 48) else if 97 \<le> n \<and> n \<le> 122 then Some (n - 87) else None)
      in case d of None \<Rightarrow> None | Some k \<Rightarrow> if k < b then Some k else None)"

definition radix_int :: "nat \<Rightarrow> string \<Rightarrow> int option" where
  "radix_int b ds =
     (if ds = [] \<or> \<not> list_all (\<lambda>c. radix_digit b c \<noteq> None) ds then None
      else Some (int (foldl (\<lambda>n c. n * b + the (radix_digit b c)) 0 ds)))"

text \<open>\<open>digits [. digits] [e [sign] digits]\<close>, with a digit before or after the point; \<open>None\<close> is no number, or no integer.\<close>

definition scaled_int :: "nat \<Rightarrow> int \<Rightarrow> int option" where
  "scaled_int n k =
     (if 0 \<le> k then Some (int n * 10 ^ nat k)
      else if n mod 10 ^ nat (- k) = 0 then Some (int (n div 10 ^ nat (- k))) else None)"

definition decimal_int :: "string \<Rightarrow> int option" where
  "decimal_int s =
     (let mantissa = takeWhile (\<lambda>c. c \<noteq> CHR ''e'' \<and> c \<noteq> CHR ''E'') s;
          rest = drop (length mantissa) s;
          whole = takeWhile (\<lambda>c. c \<noteq> CHR ''.'') mantissa;
          fraction = drop (length whole + 1) mantissa;
          (sign, e) = (if rest = [] then (1, ''0'') else sign_split (tl rest))
      in if whole @ fraction = [] \<or> \<not> list_all is_digit (whole @ fraction) \<or> e = [] \<or> \<not> list_all is_digit e then None
         else scaled_int (nat_of_dec (whole @ fraction)) (sign * int (nat_of_dec e) - int (length fraction)))"

definition number_int :: "string \<Rightarrow> int option" where
  "number_int raw =
     (let s = js_trim raw in
      if s = [] then Some 0
      else let p = map ascii_lower (take 2 s) in
        if p = ''0x'' then radix_int 16 (drop 2 s)
        else if p = ''0o'' then radix_int 8 (drop 2 s)
        else if p = ''0b'' then radix_int 2 (drop 2 s)
        else let (sign, t) = sign_split s in map_option (\<lambda>i. sign * i) (decimal_int t))"

subsection \<open>Reading settings\<close>

type_synonym env = "string \<Rightarrow> string option"

datatype config_error =
    Bad_integer string string | Bad_key sig_error | Bad_engine_pair | Plonk_retired | Bad_dml_source string | Bad_mode string
  | Quorum_over_cap int | Quorum_over_keys int nat

text \<open>\<open>(min, max)\<close> as given at the call; no maximum is \<open>Infinity\<close>.\<close>

definition intEnv :: "env \<Rightarrow> string \<Rightarrow> int \<Rightarrow> int \<Rightarrow> int option \<Rightarrow> config_error + int" where
  "intEnv env name defaultValue lo hi =
     (case env name of
        None \<Rightarrow> Inr defaultValue
      | Some raw \<Rightarrow>
          if raw = [] then Inr defaultValue
          else (case number_int raw of
                  None \<Rightarrow> Inl (Bad_integer name raw)
                | Some n \<Rightarrow>
                    if n < lo \<or> (case hi of None \<Rightarrow> False | Some m \<Rightarrow> n > m) then Inl (Bad_integer name raw) else Inr n))"

definition env_list :: "string option \<Rightarrow> string list" where
  "env_list raw = (case raw of None \<Rightarrow> [] | Some r \<Rightarrow> if r = [] then [] else filter (\<lambda>s. s \<noteq> []) (map js_trim (js_split CHR '','' r)))"

definition listEnv :: "env \<Rightarrow> string \<Rightarrow> string list" where
  "listEnv env name = js_uniq (env_list (env name))"

fun key_loop :: "(string \<Rightarrow> 'b list) \<Rightarrow> ('b list \<Rightarrow> string) \<Rightarrow> string list \<Rightarrow> string list \<Rightarrow> config_error + (string \<times> 'b list) list" where
  "key_loop raw_of b64 seen [] = Inr []"
| "key_loop raw_of b64 seen (entry # entries) =
     (case publicKeyFromRaw raw_of (V_string entry) of
        Inl e \<Rightarrow> Inl (Bad_key e)
      | Inr key \<Rightarrow>
          if b64 key \<in> set seen then key_loop raw_of b64 seen entries
          else bindE (key_loop raw_of b64 (b64 key # seen) entries) (\<lambda>out. Inr ((b64 key, key) # out)))"

definition oraclePubkeys :: "(string \<Rightarrow> 'b list) \<Rightarrow> ('b list \<Rightarrow> string) \<Rightarrow> env \<Rightarrow> string \<Rightarrow> config_error + (string \<times> 'b list) list" where
  "oraclePubkeys raw_of b64 env name = key_loop raw_of b64 [] (env_list (env name))"

text \<open>\<open>env.X ?? default\<close>, \<open>env.X === "1"\<close> and \<open>env.X || null\<close>\<close>

definition textEnv :: "env \<Rightarrow> string \<Rightarrow> string \<Rightarrow> string" where
  "textEnv env name d = (case env name of None \<Rightarrow> d | Some s \<Rightarrow> s)"

definition flagEnv :: "env \<Rightarrow> string \<Rightarrow> bool" where
  "flagEnv env name \<longleftrightarrow> env name = Some ''1''"

definition secretEnv :: "env \<Rightarrow> string \<Rightarrow> string option" where
  "secretEnv env name = (case env name of Some s \<Rightarrow> if s = [] then None else Some s | None \<Rightarrow> None)"

subsection \<open>The configuration\<close>

record 'b config =
  cf_port :: int
  cf_epochSeconds :: int
  cf_challengeTtlSeconds :: int
  cf_rootWindow :: int
  cf_rootWindowMaxLeaves :: int
  cf_oracleSource :: string
  cf_oracleRefreshSeconds :: int
  cf_oracleAllowHttp :: bool
  cf_treeDepth :: nat
  cf_oracleMaxAgeSeconds :: int
  cf_oracleFutureSkewSeconds :: int
  cf_dmlSource :: string
  cf_nodeRpcUrl :: "string option"
  cf_nodeRpcUser :: "string option"
  cf_nodeRpcPass :: string
  cf_nodeRpcHeader :: "string option"
  cf_nodeCallTimeoutMs :: int
  cf_oraclePubkeys :: "(string \<times> 'b list) list"
  cf_oracleQuorum :: int
  cf_allowUnsignedOracle :: bool
  cf_platformAcceptUncertainBroadcast :: bool
  cf_platformAssumeSchedule :: string
  cf_platformSchedulePath :: string
  cf_allowAnyRegisterContext :: bool
  cf_requireShaRoot :: bool
  cf_rateWindowSeconds :: int
  cf_challengeRateMax :: int
  cf_ingressRateMax :: int
  cf_rateMaxKeys :: int
  cf_maxAccountBytes :: int
  cf_accountChallengeRateMax :: int
  cf_accountVerifyRateMax :: int
  cf_verifyRateMax :: int
  cf_registerRateMax :: int
  cf_membersRateMax :: int
  cf_dmlRateMax :: int
  cf_maxPendingChallenges :: int
  cf_maxBodyBytes :: int
  cf_maxRegisterBodyBytes :: int
  cf_verifyConcurrency :: int
  cf_verifyQueueMax :: int
  cf_trustProxy :: bool
  cf_adapterSecret :: "string option"
  cf_allowUnauthGateway :: bool
  cf_verificationKeyPath :: string
  cf_mode :: string
  cf_registerContexts :: "string list"
  cf_registerRootMaxAgeSeconds :: int
  cf_registrationVkeyPath :: string
  cf_membersVkeyPath :: string
  cf_seasonSeconds :: int
  cf_registrationEngine :: string
  cf_allowDevKeys :: bool
  cf_registrationStatement :: string
  cf_registrationStorePath :: string
  cf_store :: string
  cf_nullifierStorePath :: string
  cf_timeMarksPath :: string
  cf_assumeSchedule :: bool
  cf_nullifierRetainEpochs :: int
  cf_allowEphemeralNullifiers :: bool
  cf_platformNetwork :: string
  cf_platformMnemonic :: "string option"
  cf_platformContractId :: "string option"
  cf_platformAppName :: string

definition read_settings :: "(string \<Rightarrow> 'b list) \<Rightarrow> ('b list \<Rightarrow> string) \<Rightarrow> (string \<Rightarrow> string option) \<Rightarrow> config_error + 'b config" where
  "read_settings raw_of b64 env =
     (let mode = textEnv env ''MNO_MODE'' ''single'' in
     bindE (intEnv env ''MNO_SEASON_SECONDS'' (90 * 24 * 3600) 1 None) (\<lambda>seasonSeconds.
     bindE (intEnv env ''MNO_GATEWAY_PORT'' 8787 1 None) (\<lambda>port.
     bindE (intEnv env ''MNO_EPOCH_SECONDS'' (if mode = ''two-tier'' then seasonSeconds else 7 * 24 * 3600) 1 None) (\<lambda>epochSeconds.
     bindE (intEnv env ''MNO_CHALLENGE_TTL'' (if mode = ''single'' then 1800 else 600) 1 None) (\<lambda>challengeTtlSeconds.
     bindE (intEnv env ''MNO_ROOT_WINDOW'' 8 1 None) (\<lambda>rootWindow.
     bindE (intEnv env ''MNO_ROOT_WINDOW_MAX_LEAVES'' (4 * 65536) 0 None) (\<lambda>rootWindowMaxLeaves.
     bindE (intEnv env ''MNO_ORACLE_REFRESH'' 30 1 (Some 2147483)) (\<lambda>oracleRefreshSeconds.
     bindE (intEnv env ''MNO_ORACLE_MAX_AGE'' 1800 0 None) (\<lambda>oracleMaxAgeSeconds.
     bindE (intEnv env ''MNO_ORACLE_FUTURE_SKEW'' 120 0 None) (\<lambda>oracleFutureSkewSeconds.
     bindE (intEnv env ''MNO_RPC_TIMEOUT_MS'' 30000 1000 None) (\<lambda>nodeCallTimeoutMs.
     bindE (oraclePubkeys raw_of b64 env ''MNO_ORACLE_PUBKEYS'') (\<lambda>oracleKeys.
     bindE (intEnv env ''MNO_ORACLE_QUORUM'' 1 1 None) (\<lambda>oracleQuorum.
     bindE (intEnv env ''MNO_RATE_WINDOW'' 60 1 None) (\<lambda>rateWindowSeconds.
     bindE (intEnv env ''MNO_RATE_CHALLENGE'' 60 1 None) (\<lambda>challengeRateMax.
     bindE (intEnv env ''MNO_RATE_INGRESS'' 300 1 None) (\<lambda>ingressRateMax.
     bindE (intEnv env ''MNO_RATE_KEYS'' 50000 16 None) (\<lambda>rateMaxKeys.
     bindE (intEnv env ''MNO_MAX_ACCOUNT_BYTES'' 256 8 None) (\<lambda>maxAccountBytes.
     bindE (intEnv env ''MNO_RATE_CHALLENGE_ACCOUNT'' 10 1 None) (\<lambda>accountChallengeRateMax.
     bindE (intEnv env ''MNO_RATE_VERIFY_ACCOUNT'' 20 1 None) (\<lambda>accountVerifyRateMax.
     bindE (intEnv env ''MNO_RATE_VERIFY'' 120 1 None) (\<lambda>verifyRateMax.
     bindE (intEnv env ''MNO_RATE_REGISTER'' 30 1 None) (\<lambda>registerRateMax.
     bindE (intEnv env ''MNO_RATE_MEMBERS'' 120 1 None) (\<lambda>membersRateMax.
     bindE (intEnv env ''MNO_RATE_DML'' 60 1 None) (\<lambda>dmlRateMax.
     bindE (intEnv env ''MNO_MAX_PENDING_CHALLENGES'' 100000 1 None) (\<lambda>maxPendingChallenges.
     bindE (intEnv env ''MNO_MAX_BODY_BYTES'' 2000000 1024 None) (\<lambda>maxBodyBytes.
     bindE (intEnv env ''MNO_MAX_REGISTER_BODY_BYTES'' 2000000 1024 None) (\<lambda>maxRegisterBodyBytes.
     bindE (intEnv env ''MNO_VERIFY_CONCURRENCY'' 4 1 None) (\<lambda>verifyConcurrency.
     bindE (intEnv env ''MNO_VERIFY_QUEUE_MAX'' 256 0 None) (\<lambda>verifyQueueMax.
     bindE (intEnv env ''MNO_REGISTER_ROOT_MAX_AGE'' 900 0 None) (\<lambda>registerRootMaxAgeSeconds.
     bindE (intEnv env ''MNO_NULLIFIER_RETAIN_EPOCHS'' 1 1 None) (\<lambda>nullifierRetainEpochs.
       Inr \<lparr>cf_port = port,
         cf_epochSeconds = epochSeconds,
         cf_challengeTtlSeconds = challengeTtlSeconds,
         cf_rootWindow = rootWindow,
         cf_rootWindowMaxLeaves = rootWindowMaxLeaves,
         cf_oracleSource = textEnv env ''MNO_ORACLE_SOURCE'' ''oracle/root.json'',
         cf_oracleRefreshSeconds = oracleRefreshSeconds,
         cf_oracleAllowHttp = flagEnv env ''MNO_ORACLE_ALLOW_HTTP'',
         cf_treeDepth = 16,
         cf_oracleMaxAgeSeconds = oracleMaxAgeSeconds,
         cf_oracleFutureSkewSeconds = oracleFutureSkewSeconds,
         cf_dmlSource = textEnv env ''MNO_DML_SOURCE'' ''snapshot'',
         cf_nodeRpcUrl = env ''MNO_RPC_URL'',
         cf_nodeRpcUser = env ''MNO_RPC_USER'',
         cf_nodeRpcPass = textEnv env ''MNO_RPC_PASS'' [],
         cf_nodeRpcHeader = env ''MNO_RPC_HEADER'',
         cf_nodeCallTimeoutMs = nodeCallTimeoutMs,
         cf_oraclePubkeys = oracleKeys,
         cf_oracleQuorum = oracleQuorum,
         cf_allowUnsignedOracle = flagEnv env ''MNO_ALLOW_UNSIGNED_ORACLE'',
         cf_platformAcceptUncertainBroadcast = flagEnv env ''MNO_PLATFORM_ACCEPT_UNCERTAIN_BROADCAST'',
         cf_platformAssumeSchedule = textEnv env ''MNO_PLATFORM_ASSUME_SCHEDULE'' [],
         cf_platformSchedulePath = textEnv env ''MNO_PLATFORM_SCHEDULE_PATH'' ''data/platform_schedule.json'',
         cf_allowAnyRegisterContext = flagEnv env ''MNO_ALLOW_ANY_REGISTER_CONTEXTS'',
         cf_requireShaRoot = flagEnv env ''MNO_REQUIRE_SHA_ROOT'',
         cf_rateWindowSeconds = rateWindowSeconds,
         cf_challengeRateMax = challengeRateMax,
         cf_ingressRateMax = ingressRateMax,
         cf_rateMaxKeys = rateMaxKeys,
         cf_maxAccountBytes = maxAccountBytes,
         cf_accountChallengeRateMax = accountChallengeRateMax,
         cf_accountVerifyRateMax = accountVerifyRateMax,
         cf_verifyRateMax = verifyRateMax,
         cf_registerRateMax = registerRateMax,
         cf_membersRateMax = membersRateMax,
         cf_dmlRateMax = dmlRateMax,
         cf_maxPendingChallenges = maxPendingChallenges,
         cf_maxBodyBytes = maxBodyBytes,
         cf_maxRegisterBodyBytes = maxRegisterBodyBytes,
         cf_verifyConcurrency = verifyConcurrency,
         cf_verifyQueueMax = verifyQueueMax,
         cf_trustProxy = flagEnv env ''MNO_TRUST_PROXY'',
         cf_adapterSecret = secretEnv env ''MNO_ADAPTER_SECRET'',
         cf_allowUnauthGateway = flagEnv env ''MNO_ALLOW_UNAUTH_GATEWAY'',
         cf_verificationKeyPath = textEnv env ''MNO_VKEY'' ''circuits/build/verification_key.json'',
         cf_mode = mode,
         cf_registerContexts = listEnv env ''MNO_REGISTER_CONTEXTS'',
         cf_registerRootMaxAgeSeconds = registerRootMaxAgeSeconds,
         cf_registrationVkeyPath = textEnv env ''MNO_REG_VKEY'' ''circuits/build/mno_registration_vkey.json'',
         cf_membersVkeyPath = textEnv env ''MNO_MEMBERS_VKEY'' ''circuits/build/mno_members_vkey.json'',
         cf_seasonSeconds = seasonSeconds,
         cf_registrationEngine = textEnv env ''MNO_REGISTRATION_ENGINE'' ''groth16'',
         cf_allowDevKeys = flagEnv env ''MNO_ALLOW_DEV_KEYS'',
         cf_registrationStatement = textEnv env ''MNO_REGISTRATION_STATEMENT'' ''derive'',
         cf_registrationStorePath = textEnv env ''MNO_REG_PATH'' ''data/registrations.jsonl'',
         cf_store = textEnv env ''MNO_STORE'' ''sqlite'',
         cf_nullifierStorePath = textEnv env ''MNO_NULLIFIER_PATH'' ''data/nullifiers.sqlite'',
         cf_timeMarksPath = textEnv env ''MNO_TIME_MARKS_PATH'' ''data/time_marks.json'',
         cf_assumeSchedule = flagEnv env ''MNO_ASSUME_SCHEDULE'',
         cf_nullifierRetainEpochs = max 1 nullifierRetainEpochs,
         cf_allowEphemeralNullifiers = flagEnv env ''MNO_ALLOW_EPHEMERAL_NULLIFIERS'',
         cf_platformNetwork = textEnv env ''MNO_PLATFORM_NETWORK'' ''testnet'',
         cf_platformMnemonic = env ''MNO_PLATFORM_MNEMONIC'',
         cf_platformContractId = env ''MNO_PLATFORM_CONTRACT_ID'',
         cf_platformAppName = textEnv env ''MNO_PLATFORM_APP'' ''mnoVerify''\<rparr>)))))))))))))))))))))))))))))))"

definition cross_refusal :: "'b config \<Rightarrow> config_error option" where
  "cross_refusal c =
     (if \<not> isValidEngineStatement (F_str (cf_registrationEngine c)) (F_str (cf_registrationStatement c)) then Some Bad_engine_pair
      else if cf_registrationEngine c = ''plonk'' then Some Plonk_retired
      else if cf_dmlSource c \<notin> {''snapshot'', ''node''} then Some (Bad_dml_source (cf_dmlSource c))
      else if cf_mode c \<notin> {''single'', ''two-tier''} then Some (Bad_mode (cf_mode c))
      else if cf_oracleQuorum c > int MAX_SNAPSHOT_SIGS then Some (Quorum_over_cap (cf_oracleQuorum c))
      else if cf_oraclePubkeys c \<noteq> [] \<and> cf_oracleQuorum c > int (length (cf_oraclePubkeys c))
      then Some (Quorum_over_keys (cf_oracleQuorum c) (length (cf_oraclePubkeys c)))
      else None)"

definition buildConfig :: "(string \<Rightarrow> 'b list) \<Rightarrow> ('b list \<Rightarrow> string) \<Rightarrow> env \<Rightarrow> config_error + 'b config" where
  "buildConfig raw_of b64 env =
     bindE (read_settings raw_of b64 env) (\<lambda>c. case cross_refusal c of Some e \<Rightarrow> Inl e | None \<Rightarrow> Inr c)"

subsection \<open>The records the gateway's parts read\<close>

definition oracle_part :: "'b config \<Rightarrow> oracle_config" where
  "oracle_part c = \<lparr>oc_fromNode = (cf_dmlSource c = ''node''), oc_depth = cf_treeDepth c, oc_pubkeys = map fst (cf_oraclePubkeys c),
     oc_quorum = cf_oracleQuorum c, oc_maxAge = cf_oracleMaxAgeSeconds c, oc_skew = cf_oracleFutureSkewSeconds c,
     oc_requireSha = cf_requireShaRoot c\<rparr>"

definition gateway_part :: "'b config \<Rightarrow> gw_config" where
  "gateway_part c = \<lparr>gc_twoTier = (cf_mode c = ''two-tier''), gc_adapterSecret = cf_adapterSecret c, gc_trustProxy = cf_trustProxy c,
     gc_maxAccountBytes = nat (cf_maxAccountBytes c), gc_epochSeconds = cf_epochSeconds c, gc_seasonSeconds = cf_seasonSeconds c,
     gc_challengeTtlSeconds = cf_challengeTtlSeconds c, gc_treeDepth = cf_treeDepth c, gc_oracleMaxAgeSeconds = cf_oracleMaxAgeSeconds c,
     gc_registerContexts = cf_registerContexts c, gc_registerRootMaxAgeSeconds = cf_registerRootMaxAgeSeconds c,
     gc_registrationEngine = F_str (cf_registrationEngine c), gc_registrationStatement = F_str (cf_registrationStatement c),
     gc_dmlSource = cf_dmlSource c\<rparr>"

definition boot_part :: "'b config \<Rightarrow> boot_config" where
  "boot_part c = \<lparr>bc_twoTier = (cf_mode c = ''two-tier''), bc_store = cf_store c, bc_hasSecret = (cf_adapterSecret c \<noteq> None),
     bc_allowUnauth = cf_allowUnauthGateway c, bc_dmlSource = cf_dmlSource c, bc_pubkeys = length (cf_oraclePubkeys c),
     bc_allowUnsigned = cf_allowUnsignedOracle c, bc_allowEphemeral = cf_allowEphemeralNullifiers c,
     bc_acceptUncertain = cf_platformAcceptUncertainBroadcast c, bc_assumeSchedule = cf_platformAssumeSchedule c,
     bc_epochSeconds = cf_epochSeconds c, bc_seasonSeconds = cf_seasonSeconds c, bc_contractId = cf_platformContractId c,
     bc_sqlitePath = cf_nullifierStorePath c, bc_engine = cf_registrationEngine c, bc_contexts = cf_registerContexts c,
     bc_allowAnyContext = cf_allowAnyRegisterContext c, bc_allowDevKeys = cf_allowDevKeys c\<rparr>"

subsection \<open>Lemmas\<close>

lemma intEnv_bounds:
  "intEnv env name d lo hi = Inr n \<Longrightarrow> lo \<le> d \<Longrightarrow> (\<forall>m. hi = Some m \<longrightarrow> d \<le> m) \<Longrightarrow> lo \<le> n \<and> (\<forall>m. hi = Some m \<longrightarrow> n \<le> m)"
  by (auto simp: intEnv_def split: option.splits if_splits)

lemma key_loop_ids:
  "key_loop raw_of b64 seen entries = Inr ks \<Longrightarrow> distinct (map fst ks) \<and> set (map fst ks) \<inter> set seen = {} \<and>
   (\<forall>(id, key) \<in> set ks. length key = 32 \<and> id = b64 key)"
proof (induction raw_of b64 seen entries arbitrary: ks rule: key_loop.induct)
  case (2 raw_of b64 seen entry entries)
  obtain key where k: "publicKeyFromRaw raw_of (V_string entry) = Inr key"
    using 2(3) by (auto split: sum.splits)
  then have l: "length key = 32"
    by (auto simp: publicKeyFromRaw_def Let_def split: if_splits)
  show ?case
  proof (cases "b64 key \<in> set seen")
    case True
    then show ?thesis
      using 2(1) [OF k True] 2(3) k by auto
  next
    case False
    then obtain out where o: "key_loop raw_of b64 (b64 key # seen) entries = Inr out" "ks = (b64 key, key) # out"
      using 2(3) k by (auto simp: bindE_Inr)
    show ?thesis
      using 2(2) [OF k False o(1)] o(2) l False by auto
  qed
qed simp

lemma built:
  "buildConfig raw_of b64 env = Inr c \<longleftrightarrow> read_settings raw_of b64 env = Inr c \<and> cross_refusal c = None"
  by (auto simp: buildConfig_def bindE_Inr split: option.splits)

lemma intEnv_min: "intEnv env name d lo hi = Inr n \<Longrightarrow> lo \<le> d \<Longrightarrow> lo \<le> n"
  by (auto simp: intEnv_def split: option.splits if_splits)

lemma intEnv_max: "intEnv env name d lo (Some m) = Inr n \<Longrightarrow> d \<le> m \<Longrightarrow> n \<le> m"
  by (auto simp: intEnv_def split: option.splits if_splits)

lemma season_default:
  "intEnv env name (if b then n else 7 * 24 * 3600) 1 None = Inr e \<Longrightarrow> intEnv env name' (90 * 24 * 3600) 1 None = Inr n \<Longrightarrow> 1 \<le> e"
  using intEnv_min [of env name' "90 * 24 * 3600" 1 None n] intEnv_min [of env name "if b then n else 7 * 24 * 3600" 1 None e]
  by simp

text \<open>The range every number of a read configuration lies in.\<close>

definition in_range :: "'b config \<Rightarrow> bool" where
  "in_range c \<longleftrightarrow>
    1 \<le> cf_port c \<and> 1 \<le> cf_epochSeconds c \<and> 1 \<le> cf_seasonSeconds c \<and> 1 \<le> cf_challengeTtlSeconds c \<and> 1 \<le> cf_rootWindow c \<and>
    0 \<le> cf_rootWindowMaxLeaves c \<and> 1 \<le> cf_oracleRefreshSeconds c \<and> 0 \<le> cf_oracleMaxAgeSeconds c \<and> 0 \<le> cf_oracleFutureSkewSeconds c \<and>
    1000 \<le> cf_nodeCallTimeoutMs c \<and> 1 \<le> cf_oracleQuorum c \<and> 1 \<le> cf_rateWindowSeconds c \<and> 1 \<le> cf_challengeRateMax c \<and>
    1 \<le> cf_ingressRateMax c \<and> 16 \<le> cf_rateMaxKeys c \<and> 8 \<le> cf_maxAccountBytes c \<and> 1 \<le> cf_accountChallengeRateMax c \<and>
    1 \<le> cf_accountVerifyRateMax c \<and> 1 \<le> cf_verifyRateMax c \<and> 1 \<le> cf_registerRateMax c \<and> 1 \<le> cf_membersRateMax c \<and>
    1 \<le> cf_dmlRateMax c \<and> 1 \<le> cf_maxPendingChallenges c \<and> 1024 \<le> cf_maxBodyBytes c \<and> 1024 \<le> cf_maxRegisterBodyBytes c \<and>
    1 \<le> cf_verifyConcurrency c \<and> 0 \<le> cf_verifyQueueMax c \<and> 0 \<le> cf_registerRootMaxAgeSeconds c \<and>
    cf_oracleRefreshSeconds c \<le> 2147483 \<and> 1 \<le> cf_nullifierRetainEpochs c \<and> cf_treeDepth c = 16"

lemma read_settings_in_range:
  assumes "read_settings raw_of b64 env = Inr c"
  shows "in_range c"
proof -
  show ?thesis
    using assms unfolding read_settings_def Let_def bindE_Inr
    apply (elim exE conjE)
    apply (simp only: sum.inject)
    apply hypsubst
    unfolding in_range_def config.simps
    apply (intro conjI)
    by (rule season_default, assumption, assumption |
        rule intEnv_min, assumption, simp (no_asm) |
        rule intEnv_max, assumption, simp (no_asm) |
        simp (no_asm))+
qed

lemma read_settings_keys:
  assumes "read_settings raw_of b64 env = Inr c"
  shows "oraclePubkeys raw_of b64 env ''MNO_ORACLE_PUBKEYS'' = Inr (cf_oraclePubkeys c)"
  using assms unfolding read_settings_def Let_def bindE_Inr
  by (elim exE conjE) (simp only: sum.inject config.simps, drule sym, simp only: config.simps)

lemma cross_ok:
  "cross_refusal c = None \<longleftrightarrow>
     isValidEngineStatement (F_str (cf_registrationEngine c)) (F_str (cf_registrationStatement c)) \<and> cf_registrationEngine c \<noteq> ''plonk'' \<and>
     cf_dmlSource c \<in> {''snapshot'', ''node''} \<and> cf_mode c \<in> {''single'', ''two-tier''} \<and> cf_oracleQuorum c \<le> int MAX_SNAPSHOT_SIGS \<and>
     (cf_oraclePubkeys c \<noteq> [] \<longrightarrow> cf_oracleQuorum c \<le> int (length (cf_oraclePubkeys c)))"
  by (auto simp: cross_refusal_def)

definition keys_ok :: "('b list \<Rightarrow> string) \<Rightarrow> 'b config \<Rightarrow> bool" where
  "keys_ok b64 c \<longleftrightarrow> distinct (map fst (cf_oraclePubkeys c)) \<and> (\<forall>(id, key) \<in> set (cf_oraclePubkeys c). length key = 32 \<and> id = b64 key)"

lemma built_parts:
  assumes "buildConfig raw_of b64 env = Inr c"
  shows "in_range c" "keys_ok b64 c" "cross_refusal c = None"
  using assms key_loop_ids [of raw_of b64 "[]"] read_settings_keys [of raw_of b64 env c] read_settings_in_range [of raw_of b64 env c]
  by (auto simp: built keys_ok_def oraclePubkeys_def)

subsection \<open>Properties\<close>

text \<open>C22: a configuration that was accepted is well formed. No setting that is a number is out of its range, so no cap or limit is switched off by a
  malformed text; the refresh interval in milliseconds fits a signed 32-bit timer; the engine and the statement are a pair the registration
  store takes, and not the retired engine; epochs and seasons have a positive length; mode and list source are each one of the two that exist; the trusted keys are 32
  bytes each and distinct as keys, however they were spelled; and the quorum can be met, by the keys and under the cap of signatures. The
  choice of the store is not among these checks: \<open>MNO_STORE\<close> is passed on as it is, and a gateway that starts with the configuration
  has one of the three that exist.\<close>

theorem accepted_config_is_well_formed:
  assumes "buildConfig raw_of b64 env = Inr c"
  shows "in_range c \<and> keys_ok b64 c \<and> cf_oracleRefreshSeconds c * 1000 < 2 ^ 31 \<and>
    isValidEngineStatement (F_str (cf_registrationEngine c)) (F_str (cf_registrationStatement c)) \<and> cf_registrationEngine c \<noteq> ''plonk'' \<and>
    cf_mode c \<in> {''single'', ''two-tier''} \<and> cf_dmlSource c \<in> {''snapshot'', ''node''} \<and> cf_oracleQuorum c \<le> 64 \<and>
    (cf_oraclePubkeys c \<noteq> [] \<longrightarrow> cf_oracleQuorum c \<le> int (card (snd ` set (cf_oraclePubkeys c)))) \<and>
    (\<forall>W held. createGateway (boot_part c) W = Inr held \<longrightarrow> cf_store c \<in> {''sqlite'', ''memory'', ''platform''})"
proof -
  have store: "cf_store c \<in> {''sqlite'', ''memory'', ''platform''}" if "createGateway (boot_part c) W = Inr held" for W held
  proof -
    have "early_refusal (boot_part c) W = None"
      using that by (simp add: boot_ok)
    then show ?thesis
      by (auto simp: early_refusal_def store_kind_refusal_def boot_part_def first_refusal_None simp del: first_refusal.simps)
  qed
  note b = built_parts [OF assms]
  have "cf_oracleRefreshSeconds c \<le> 2147483"
    using b(1) by (simp only: in_range_def)
  then have timer: "cf_oracleRefreshSeconds c * 1000 < 2 ^ 31"
    by simp
  have "inj_on fst (set (cf_oraclePubkeys c))" "distinct (cf_oraclePubkeys c)"
    using b(2) by (auto simp: keys_ok_def distinct_map)
  moreover have "inj_on snd (set (cf_oraclePubkeys c))"
  proof (rule inj_onI)
    have k: "fst x = b64 (snd x)" if "x \<in> set (cf_oraclePubkeys c)" for x
      using b(2) that by (auto simp: keys_ok_def)
    fix x y
    assume "x \<in> set (cf_oraclePubkeys c)" "y \<in> set (cf_oraclePubkeys c)" "snd x = snd y"
    then show "x = y"
      using k [of x] k [of y] by (intro prod_eqI) simp_all
  qed
  ultimately have "card (snd ` set (cf_oraclePubkeys c)) = length (cf_oraclePubkeys c)"
    by (simp add: card_image distinct_card)
  then show ?thesis
    using b timer store by (intro conjI allI impI) (simp_all add: cross_ok MAX_SNAPSHOT_SIGS_def)
qed

text \<open>C21: from the environment to the roots served. When a configuration is accepted and the gateway starts with it, without the opt-in to an unsigned
  oracle, then every root in its window, whatever the oracle sends and however refreshes run, is the root of a snapshot's leaves that
  was signed by at least the configured quorum, and at least one, of the distinct keys the environment lists, or that came from
  the gateway's own node; and the tree has the depth of the circuits.\<close>

theorem deployment_serves_signed_roots:
  assumes "buildConfig raw_of b64 env = Inr c" "createGateway (boot_part c) W = Inr held" "\<not> cf_allowUnsignedOracle c"
    and "refresh_reach C (oracle_part c) r" "x \<in> set (rw_snaps (rf_window r))"
  shows "\<exists>s. rootFromLeaves (rc_poseidon C) 16 (leaf_texts s) = Inr (wr_root x) \<and> wr_height x = int_of (os_height s) \<and>
    (cf_dmlSource c = ''node'' \<or>
     1 \<le> cf_oracleQuorum c \<and> cf_oracleQuorum c \<le> int (card {k \<in> set (map fst (cf_oraclePubkeys c)). signed_by C s k}))"
proof -
  note b = built_parts [OF assms(1)]
  have n: "1 \<le> cf_oracleQuorum c" "cf_treeDepth c = 16"
    using b(1) by (simp_all only: in_range_def)
  have d: "distinct (oc_pubkeys (oracle_part c))"
    using b(2) by (simp add: keys_ok_def oracle_part_def)
  have "backed C (oracle_part c) x"
    using refresh_reach_window [OF assms(4) d] assms(5) by blast
  then obtain s where s: "vouched C (oracle_part c) s" "wr_height x = int_of (os_height s)"
      "rootFromLeaves (rc_poseidon C) 16 (leaf_texts s) = Inr (wr_root x)"
    using n(2) by (auto simp: backed_def oracle_part_def)
  have "early_refusal (boot_part c) W = None"
    using assms(2) by (simp add: boot_ok)
  then have "cf_dmlSource c = ''snapshot'' \<longrightarrow> cf_oraclePubkeys c \<noteq> []"
    using assms(3) by (auto simp: early_refusal_def trust_refusal_def boot_part_def first_refusal_None simp del: first_refusal.simps)
  then have "cf_dmlSource c = ''node'' \<or> cf_oraclePubkeys c \<noteq> []"
    using b(3) by (auto simp: cross_ok)
  then show ?thesis
    using s n(1) by (intro exI [of _ s]) (auto simp: vouched_def oracle_part_def)
qed

subsection \<open>An example\<close>

text \<open>Every setting at its default but the adapters' secret and one trusted key.\<close>

definition demo_env :: env where
  "demo_env name = (if name = ''MNO_ADAPTER_SECRET'' then Some ''s'' else if name = ''MNO_ORACLE_PUBKEYS'' then Some demo_key else None)"

lemma intEnv_unset: "env name = None \<Longrightarrow> intEnv env name d lo hi = Inr d"
  by (simp add: intEnv_def)

lemma demo_pinned_keys: "oraclePubkeys id id demo_env ''MNO_ORACLE_PUBKEYS'' = Inr [(demo_key, demo_key)]"
proof -
  have "env_list (Some demo_key) = [demo_key]" "js_trim demo_key = demo_key"
    unfolding demo_key_def by code_simp+
  then show ?thesis
    by (simp add: oraclePubkeys_def demo_env_def publicKeyFromRaw_def) (simp add: demo_key_def)
qed

definition demo_settings :: "char config" where
  "demo_settings = (case read_settings id id demo_env of Inr c \<Rightarrow> c | Inl _ \<Rightarrow> undefined)"

lemma demo_read_settings:
  "read_settings id id demo_env = Inr demo_settings \<and>
   oracle_part demo_settings = \<lparr>oc_fromNode = False, oc_depth = 16, oc_pubkeys = [demo_key], oc_quorum = 1, oc_maxAge = 1800, oc_skew = 120,
     oc_requireSha = False\<rparr>"
  unfolding demo_settings_def read_settings_def Let_def
  by (simp add: intEnv_unset demo_pinned_keys textEnv_def flagEnv_def demo_env_def oracle_part_def)

lemma demo_config: "buildConfig id id demo_env = Inr demo_settings"
proof -
  have "cross_refusal demo_settings = None"
    unfolding demo_settings_def read_settings_def Let_def
    by (simp add: intEnv_unset demo_pinned_keys textEnv_def flagEnv_def demo_env_def)
      (simp add: cross_refusal_def ENGINE_STATEMENTS_def MAX_SNAPSHOT_SIGS_def)
  then show ?thesis
    using demo_read_settings by (simp add: built)
qed

definition demo_single_world :: "unit boot_world" where
  "demo_single_world = demo_world\<lparr>bw_vkey := Some \<lparr>vk_protocol = Some ''groth16'', vk_devOnly = False, vk_data = ()\<rparr>\<rparr>"

lemma demo_starts: "createGateway (boot_part demo_settings) demo_single_world = Inr [Timers, Nullifier_store] \<and> \<not> cf_allowUnsignedOracle demo_settings"
proof -
  have "boot_part demo_settings = \<lparr>bc_twoTier = False, bc_store = ''sqlite'', bc_hasSecret = True, bc_allowUnauth = False,
      bc_dmlSource = ''snapshot'', bc_pubkeys = 1, bc_allowUnsigned = False, bc_allowEphemeral = False, bc_acceptUncertain = False,
      bc_assumeSchedule = [], bc_epochSeconds = 604800, bc_seasonSeconds = 7776000, bc_contractId = None,
      bc_sqlitePath = ''data/nullifiers.sqlite'', bc_engine = ''groth16'', bc_contexts = [], bc_allowAnyContext = False, bc_allowDevKeys = False\<rparr> \<and>
    \<not> cf_allowUnsignedOracle demo_settings"
    unfolding demo_settings_def read_settings_def Let_def
    by (simp add: intEnv_unset demo_pinned_keys textEnv_def flagEnv_def secretEnv_def listEnv_def env_list_def js_uniq_def demo_env_def boot_part_def)
  then show ?thesis
    by (simp add: boot_ok early_refusal_def trust_refusal_def store_kind_refusal_def store_refusal_def mode_refusal_def refuse_if_def
        key_rule_def dev_rule_def requireProtocol_def requireNotDevKey_def key_protocol_def demo_world_def demo_single_world_def)
qed

theorem accepted_config_is_well_formed_witness:
  "buildConfig id id demo_env = Inr demo_settings \<and> 1 \<le> cf_rateMaxKeys demo_settings \<and> cf_oracleQuorum demo_settings \<le> 64"
proof -
  have w: "in_range demo_settings" "cf_oracleQuorum demo_settings \<le> 64"
    using accepted_config_is_well_formed [OF demo_config] by blast+
  have "16 \<le> cf_rateMaxKeys demo_settings"
    using w(1) by (simp only: in_range_def)
  then show ?thesis
    using w(2) demo_config by simp
qed

text \<open>An empty list of the full depth, signed by the one key, is taken in by the first refresh.\<close>

definition demo_read16 :: oracle_snapshot where
  "demo_read16 = demo_read ''sig''\<lparr>os_depth := V_int 16\<rparr>"

lemma demo_refresh16:
  "\<exists>x. refresh_read demo_crypto (oracle_part demo_settings) 9 (Some False) [] (Loaded (Some demo_read16)) (RootWindows_new 8 0) =
     ((RootWindows_new 8 0)\<lparr>rw_snaps := [x]\<rparr>, Adopted) \<and> wr_ts x = Num 9"
proof -
  let ?oc = "\<lparr>oc_fromNode = False, oc_depth = 16, oc_pubkeys = [demo_key], oc_quorum = 1, oc_maxAge = 1800, oc_skew = 120, oc_requireSha = False\<rparr>"
  let ?w = "RootWindows_new 8 0" and ?x = "adopted_record id ?oc 9 1 demo_read16"
  have c: "canonical_jvalue (V_string ''0'')" "hex64 (V_string (replicate 64 (CHR ''b'')))"
    using demo_read_valid [of "''sig''"]
    by (simp_all add: validateSnapshot_def demo_read_def demo_oracle_def or_else_def hex64_def list_all_iff split: if_splits)
  have v: "validateSnapshot ?oc 9 (Some demo_read16) False = None"
    using c by (simp add: validateSnapshot_def demo_read16_def demo_read_def or_else_def nullish_def snapshotVersion_def
        version_rules_def ts_rules_def ts_above_def)
  have l: "label_id id id (V_string demo_key) = Some demo_key"
    unfolding demo_key_def by code_simp
  have "CHR 0x0A \<notin> set (replicate 64 (CHR ''b''))"
    by simp
  then obtain m where m: "snapshotMessage demo_read16 = Inr m"
    by (simp add: snapshotMessage_def demo_read16_def demo_read_def snapshotVersion_def nullish_def join_fields_def v1_fields_def
        frameInt_def frameSafe_def safe_int_def or_else_def)
  have q: "signatures_ok demo_crypto ?oc demo_read16 = Inr True"
    using l m c(2) by (simp add: signatures_ok_def oracleSignaturesOk_def) (simp add: demo_crypto_def demo_read16_def demo_read_def
        MAX_SNAPSHOT_SIGS_def is_string_def jm_has_def vouches_def jm_get_def)
  have r: "rootFromLeaves (rc_poseidon demo_crypto) 16 [] = Inr ''0''"
    by (simp add: rootFromLeaves_def demo_crypto_def)
  have a: "RootWindows_adopt (Some []) ?x ?w = Inr (?w\<lparr>rw_snaps := [?x]\<rparr>)"
    by code_simp
  have "offer demo_crypto ?oc 9 [] demo_read16 ?w = (?w\<lparr>rw_snaps := [?x]\<rparr>, Adopted)"
    using q r a by (simp add: offer_def)
      (simp add: demo_crypto_def demo_read16_def demo_read_def leaf_texts_def RootWindows_maxHeight_def
        RootWindows_new_def RootWindows_mayCoexist_def nullish_def snapshotVersion_def)
  then have "refresh_read demo_crypto ?oc 9 (Some False) [] (Loaded (Some demo_read16)) ?w = (?w\<lparr>rw_snaps := [?x]\<rparr>, Adopted)"
    using v by (simp add: refresh_read_def)
  moreover have "wr_ts ?x = Num 9"
    by (simp add: adopted_record_def normalizeSnapshot_def as_raw_def demo_read16_def demo_read_def or_else_def nullish_def)
  ultimately show ?thesis
    using demo_read_settings by auto
qed

theorem deployment_serves_signed_roots_witness:
  "\<exists>r x. refresh_reach demo_crypto (oracle_part demo_settings) r \<and> x \<in> set (rw_snaps (rf_window r)) \<and>
     (\<exists>s. rootFromLeaves (rc_poseidon demo_crypto) 16 (leaf_texts s) = Inr (wr_root x))"
proof -
  let ?start = "\<lparr>rf_window = RootWindows_new 8 0, rf_inFlight = False, rf_closed = False\<rparr>" and ?oc = "oracle_part demo_settings"
  let ?later = "refresh_finish demo_crypto ?oc 9 (Some False) [] (Loaded (Some demo_read16)) (refresh_begin ?start)"
  obtain x where x: "refresh_read demo_crypto ?oc 9 (Some False) [] (Loaded (Some demo_read16)) (RootWindows_new 8 0) =
      ((RootWindows_new 8 0)\<lparr>rw_snaps := [x]\<rparr>, Adopted)" "wr_ts x = Num 9"
    using demo_refresh16 by blast
  have "refresh_reach demo_crypto ?oc (refresh_begin ?start)" "rf_inFlight (refresh_begin ?start)"
    by (intro rr_begin rr_boot) (simp add: refresh_begin_def)
  then have r: "refresh_reach demo_crypto ?oc ?later"
    by (rule rr_finish)
  have m: "x \<in> set (rw_snaps (rf_window ?later))"
    using x demo_read_settings
    by (simp add: refresh_finish_def refresh_begin_def drop_stale_def RootWindows_dropOlderThan_def RootWindows_new_def)
  show ?thesis
    using r m deployment_serves_signed_roots [OF demo_config _ _ r m, of demo_single_world "[Timers, Nullifier_store]"] demo_starts
    by blast
qed

end
