(* ===== verification/Spec2Isabelle.thy ===== *)
theory Spec2Isabelle
  imports Common_Values Merkle_Roots Members_Tree Sha_Roots Root_Windows Limits Challenge_Store
    Nullifier_Stores Verify_Membership Reg_Records Reg_Load Reg_File Time_Guard Season_Members
    Verify_Registration Room_Ledgers Discord_Bot Dml_Commitment Gateway_Safety Gateway_Roots
    Gateway_Handlers Gateway_Boot Oracle_Snapshot Gateway_Config
begin

text \<open>
  A verification development for the gateway of the masternode-membership verifier.

  \<^bold>\<open>The program.\<close> A member of a community proves, with a zero-knowledge proof, that they control the voting key of an enabled masternode,
  and gets access to a chat room for one epoch, with one platform account per key and epoch. An oracle (or the gateway itself, from its own node)
  publishes the voting addresses as the leaves of a Merkle tree; the gateway takes in the roots, mints challenges, verifies proofs and records the
  spent nullifiers; an adapter per chat platform asks the gateway and keeps a ledger of the access it gave. In two-tier mode a
  heavy registration proof, once a season, puts a commitment into a members tree, and the proof of every epoch is against that tree.

  \<^bold>\<open>From the node to the roots.\<close>
  \<^item> \<open>Octets\<close>, \<open>Tx_Reader\<close>, \<open>Dml_Entries\<close>, \<open>Dml_Root\<close>, \<open>Partial_Tree\<close>, \<open>Dml_Commitment\<close>: oracle/dml\_commitment.js. Reading a coinbase (what is
    accepted has one encoding), the bytes of a list entry, the list's root, the partial Merkle tree, whose walk always ends, and the check that ties
    list, coinbase and header together.
  \<^item> \<open>Block_Work\<close>: common/x11/index.js and oracle/proof\_of\_work.js, the strict reading of a header, its name and its work.
  \<^item> \<open>Node_Snapshot\<close>: oracle/diff\_snapshot.js with the leaves of common/dml.js. A read through the node ends, and publishes the members of the block
    it names. \<open>Oracle_Snapshot\<close>: oracle/snapshot.js, the bracketed read; the two reads of one membership agree on its set, and the gateway adopts what
    its own read builds.
  \<^item> \<open>Oracle_Sig\<close>: common/oracle\_sig.js, the signed bytes and what they determine.
  \<^item> \<open>Merkle_Roots\<close>, \<open>Sha_Roots\<close>: common/dml\_root.js, common/merkle\_path.js, common/dml\_sha\_root.js against the fully padded tree as reference.
  \<^item> \<open>Root_Windows\<close>, \<open>Gateway_Roots\<close>: the windows of core/stores.js and the refresh of core/gateway.js; every root in the window is vouched for,
    at every moment of any run.

  \<^bold>\<open>Membership.\<close>
  \<^item> \<open>Common_Values\<close>: common/field.js and common/index.js. \<open>Challenge_Store\<close>, \<open>Limits\<close>: the challenges, the rate limiter and the gate of core/stores.js.
  \<^item> \<open>Nullifier_Stores\<close>: the in-memory, SQLite and Platform stores (core/stores.js, core/nullifier\_sqlite.js, core/platform\_store.js) behind
    one interface.
  \<^item> \<open>Verify_Membership\<close>: \<open>verifyMembership\<close> of core/verifier.js, one state per await, any number of calls interleaved. A call that grants has answered
    each of its checks: the request, the recency of its root, the proof, and the period before and after the spend.
  \<^item> \<open>Time_Guard\<close>: core/time\_guard.js.

  \<^bold>\<open>Registration.\<close>
  \<^item> \<open>Reg_Records\<close>, \<open>Reg_Load\<close>, \<open>Reg_File\<close>: core/registration\_store.js: records and doors, loading and repairing the file, and the process
    that appends to it, crashes, and starts again. The two backends decide an append in code of their own (\<open>decide_append\<close> in memory,
    \<open>appendOne_decide\<close> in the file backend), and the runs of the file backend are shown to tell what the in-memory one tells.
  \<^item> \<open>Members_Tree\<close>, \<open>Season_Members\<close>, \<open>Verify_Registration\<close>: core/members\_tree.js, core/season.js and the registration half of core/verifier.js, whose
    root check (\<open>rootOk\<close>) is made anew on each side of the proof.

  \<^bold>\<open>The gateway\<close> (core/gateway.js, core/config.js).
  \<^item> \<open>Gateway_Config\<close>: the environment; \<open>Gateway_Boot\<close>: what a boot refuses, and the teardown.
  \<^item> \<open>Gateway_Http\<close>, \<open>Gateway_Membership\<close>, \<open>Gateway_Handlers\<close>: the guards and the handlers of the six endpoints, cut at their awaits.
  \<^item> \<open>Gateway_Run\<close>, \<open>Gateway_Safety\<close>: challenge and verify requests of one gateway, interleaved with each other and with refreshes, clock
    changes and restarts; its invariant, and the two theorems for which the program exists: one account per key and epoch, and one grant per challenge.

  \<^bold>\<open>The adapters.\<close>
  \<^item> \<open>Grant_Ledger\<close>, \<open>Grant_Access\<close>, \<open>Grant_Time\<close>: adapters/common/grant\_ledger.js alone and together with the platform, whose calls take effect
    in parts and are cut off by crashes. Access that is live is named by its member's row; the one exception is Discord's, where an apply whose
    answer was lost and that was then refused reports that nothing was sent (access.js), so the row goes and the access stays. The model has that
    answer, and the theorems say that nothing else loses access.
  \<^item> \<open>Room_Ledgers\<close>: the Telegram and Matrix adapters and adapters/common/reconcile.js. \<open>Discord_Records\<close>, \<open>Discord_Access\<close>, \<open>Discord_Retire\<close>,
    \<open>Discord_Bot\<close>: adapters/discord (records, permissions, applying and revoking, decommissioning, the start and repair passes). An edit of a
    member's permissions is sent whole, as discord.js rebuilds it from its cache; the theorems speak of what is sent.

  \<^bold>\<open>Beneath.\<close> \<open>Prelude\<close>, \<open>Js_Map\<close>, \<open>Js_Strings\<close>, \<open>Js_Text\<close>: JavaScript numbers, maps, strings and text, and the lemmas the components share.

  \<^bold>\<open>Conventions.\<close> State is passed and returned; a throw is an \<open>Inl\<close> value; an asynchronous function is a machine with one state per
  await, and the environment's answer resumes it. Loops that end by structure are \<open>fun\<close> or \<open>function\<close> with a measure; the height loop of the partial tree,
  which need not end, has an \<open>option\<close> value, and the theorem that it always answers is about the guarded reader. Interfaces are locales,
  interpreted on the model's own definitions: the nullifier stores, the registration backends, and what a platform adapter promises the ledger.

  \<^bold>\<open>What is assumed.\<close>
  \<^item> Code outside the repository is an argument: SHA-256, RIPEMD-160, Keccak, base58check, base64, Ed25519, Poseidon, the proof systems, and the eleven
    rounds of X11. A theorem that needs more than a function (no collision among the messages in play, a length of 32 bytes) says so among its hypotheses.
  \<^item> Text is ASCII, and JSON and URLs come parsed. Numbers are integers where the code tests for that; settings and timestamps are read exactly,
    without the rounding of doubles past 2 to the 53rd.
  \<^item> A file is its lines and how many of them are forced to the disk; a power loss keeps the forced ones and any prefix of the others, with its last line perhaps torn, and
    a rename is all or nothing. SQLite is its table, with each transaction whole or absent.
  \<^item> A ledger's process that is killed during a platform call finds, when it starts again, the call settled one way or the other.
    The column \<open>updated_at\<close>, which nothing reads back, is left out.
  \<^item> What Discord, a node or the oracle answers is an input, on every call anew. What discord.js sends for an edit is a function of the cached entry and
    the patch, with the law its documentation and permissions.js give (\<open>rebuilds_whole\<close>).

  \<^bold>\<open>Not modelled.\<close>
  \<^item> oracle/quorum\_commitment.js and oracle/chainlock.js: parts of a later check of ChainLock signatures that nothing calls yet; at their core is BLS.
  \<^item> The round functions under common/x11: no property depends on their values, only on their being functions with 64 bytes of output.
  \<^item> The command lines (oracle/oracle.js, prover, scripts, tools), the node client, the HTTP clients of the adapters, the web adapter, chat commands
    and the text shown to members: input and output.
  \<^item> The circuits (Circom) and the zkVM guest (Rust), which are other languages; the model takes their verifiers as arguments.
\<close>

end
